(* ===== verification/Prelude.thy ===== *)
theory Prelude
  imports Main "HOL-Library.Word" "HOL-Library.Char_ord"
begin

text \<open>
  Shared vocabulary of the development: C characters and NUL-terminated strings, the
  library function \<open>memchr\<close>, flag words, and the value of a run of digits. A text byte of
  the sources is a HOL \<open>char\<close> (eight bits), a binary byte an \<open>8 word\<close>, and machine integers
  are words of the width the C declarations give them.
\<close>

unbundle bit_operations_syntax

named_theorems flag_simps "evaluation of bit tests on flag words"
named_theorems handler_defs "definitions of the state handlers of the HTTP parser"

type_synonym byte = "8 word"
type_synonym bytes = "byte list"

abbreviation NUL :: char where "NUL \<equiv> CHR 0x00"
abbreviation TAB :: char where "TAB \<equiv> CHR 0x09"
abbreviation LF :: char where "LF \<equiv> CHR 0x0A"
abbreviation FF :: char where "FF \<equiv> CHR 0x0C"
abbreviation CR :: char where "CR \<equiv> CHR 0x0D"
abbreviation QUOTE :: char where "QUOTE \<equiv> CHR 0x27"

abbreviation char_code :: "char \<Rightarrow> nat" where
  "char_code c \<equiv> of_char c"

text \<open>The value of a byte read through a signed \<open>char\<close>.\<close>

definition signed_char :: "char \<Rightarrow> int" where
  "signed_char c = (if char_code c < 128 then int (char_code c) else int (char_code c) - 256)"

section \<open>C strings and memory\<close>

text \<open>
  Reading a C string literal at an index: the characters, then the terminating NUL; any
  later index is outside of the object and the read is undefined.
\<close>

definition c_string_at :: "string \<Rightarrow> nat \<Rightarrow> char option" where
  "c_string_at s i = (if i < length s then Some (s ! i) else if i = length s then Some NUL else None)"

lemma c_string_at_defined: "c_string_at s i \<noteq> None \<longleftrightarrow> i \<le> length s"
  by (auto simp: c_string_at_def)

lemma c_string_at_SomeD: "c_string_at s i = Some c \<Longrightarrow> c \<noteq> NUL \<Longrightarrow> i < length s \<and> s ! i = c"
  by (auto simp: c_string_at_def split: if_splits)

text \<open>\<open>memchr (buf + p, c, limit)\<close>, with positions instead of pointers.\<close>

definition memchr :: "'a list \<Rightarrow> nat \<Rightarrow> 'a \<Rightarrow> nat \<Rightarrow> nat option" where
  "memchr buf p c limit = find (\<lambda>i. buf ! i = c) [p ..< p + limit]"

lemma memchr_SomeD:
  assumes "memchr buf p c limit = Some i"
  shows "p \<le> i" "i < p + limit" "buf ! i = c" "\<And>j. p \<le> j \<Longrightarrow> j < i \<Longrightarrow> buf ! j \<noteq> c"
proof -
  obtain k where k: "k < length [p ..< p + limit]" "buf ! ([p ..< p + limit] ! k) = c"
      "i = [p ..< p + limit] ! k" "\<forall>j<k. buf ! ([p ..< p + limit] ! j) \<noteq> c"
    using assms unfolding memchr_def find_Some_iff by blast
  then have i: "i = p + k" by simp
  show "p \<le> i" "i < p + limit" "buf ! i = c" using k i by simp_all
  fix j assume "p \<le> j" "j < i"
  then have "j - p < k" "p + (j - p) = j" using i by auto
  moreover from this have "[p ..< p + limit] ! (j - p) = j" using k(1) by (simp add: nth_upt)
  ultimately show "buf ! j \<noteq> c" using k(4) by metis
qed

lemma memchr_None: "memchr buf p c limit = None \<longleftrightarrow> (\<forall>j. p \<le> j \<and> j < p + limit \<longrightarrow> buf ! j \<noteq> c)"
  unfolding memchr_def find_None_iff by auto

section \<open>Flag words\<close>

text \<open>\<open>flags & F\<close> in a condition.\<close>

definition has_flag :: "'a::len word \<Rightarrow> 'a word \<Rightarrow> bool" where
  "has_flag fl f \<longleftrightarrow> fl AND f \<noteq> 0"

lemma has_flag_zero [simp, flag_simps]: "\<not> has_flag 0 f"
  by (simp add: has_flag_def)

lemma has_flag_or [simp, flag_simps]: "has_flag (fl OR g) f \<longleftrightarrow> has_flag fl f \<or> has_flag g f"
  unfolding has_flag_def bit.conj_disj_distrib2 by (simp add: or_eq_0_iff)

section \<open>Digits\<close>

definition is_digit :: "char \<Rightarrow> bool" where
  "is_digit c \<longleftrightarrow> CHR ''0'' \<le> c \<and> c \<le> CHR ''9''"

definition digit_value :: "char \<Rightarrow> nat" where
  "digit_value c = char_code c - 48"

fun decimal_from :: "nat \<Rightarrow> string \<Rightarrow> nat" where
  "decimal_from n [] = n"
| "decimal_from n (d # ds) = decimal_from (10 * n + digit_value d) ds"

lemma is_digit_code: "is_digit c \<longleftrightarrow> 48 \<le> char_code c \<and> char_code c \<le> 57"
  unfolding is_digit_def less_eq_char_def by simp

lemma digit_value_bound: "is_digit c \<Longrightarrow> digit_value c < 10"
  unfolding is_digit_code digit_value_def by linarith

lemma decimal_from_mono: "n \<le> decimal_from n ds"
proof (induction n ds rule: decimal_from.induct)
  case (2 n d ds)
  have "n \<le> 10 * n + digit_value d" by simp
  also note 2
  finally show ?case by simp
qed simp

end
