(* ===== verification/Http_Types.thy ===== *)
theory Http_Types
  imports Prelude
begin

text \<open>
  Data of the HTTP parser: the enumerations, tables, character classes and records of
  \<open>inc/mongols/lib/http_parser.h\<close> and of the first part of \<open>src/lib/http_parser.c\<close>, for the
  default configuration \<open>HTTP_PARSER_STRICT = 1\<close> and \<open>HTTP_MAX_HEADER_SIZE = 80 * 1024\<close>
  (neither is changed by the Makefile, which also leaves assertions enabled).
\<close>

section \<open>Enumerations\<close>

datatype (plugins only: code) http_method =
    HTTP_DELETE | HTTP_GET | HTTP_HEAD | HTTP_POST
  | HTTP_PUT | HTTP_CONNECT | HTTP_OPTIONS | HTTP_TRACE
  | HTTP_COPY | HTTP_LOCK | HTTP_MKCOL | HTTP_MOVE
  | HTTP_PROPFIND | HTTP_PROPPATCH | HTTP_SEARCH | HTTP_UNLOCK
  | HTTP_BIND | HTTP_REBIND | HTTP_UNBIND | HTTP_ACL
  | HTTP_REPORT | HTTP_MKACTIVITY | HTTP_CHECKOUT | HTTP_MERGE
  | HTTP_MSEARCH | HTTP_NOTIFY | HTTP_SUBSCRIBE | HTTP_UNSUBSCRIBE
  | HTTP_PATCH | HTTP_PURGE | HTTP_MKCALENDAR | HTTP_LINK
  | HTTP_UNLINK | HTTP_SOURCE

datatype http_parser_type =
    HTTP_REQUEST | HTTP_RESPONSE | HTTP_BOTH

datatype (plugins only: code) http_errno =
    HPE_OK | HPE_CB_message_begin | HPE_CB_url
  | HPE_CB_header_field | HPE_CB_header_value | HPE_CB_headers_complete
  | HPE_CB_body | HPE_CB_message_complete | HPE_CB_status
  | HPE_CB_chunk_header | HPE_CB_chunk_complete | HPE_INVALID_EOF_STATE
  | HPE_HEADER_OVERFLOW | HPE_CLOSED_CONNECTION | HPE_INVALID_VERSION
  | HPE_INVALID_STATUS | HPE_INVALID_METHOD | HPE_INVALID_URL
  | HPE_INVALID_HOST | HPE_INVALID_PORT | HPE_INVALID_PATH
  | HPE_INVALID_QUERY_STRING | HPE_INVALID_FRAGMENT | HPE_LF_EXPECTED
  | HPE_INVALID_HEADER_TOKEN | HPE_INVALID_CONTENT_LENGTH | HPE_UNEXPECTED_CONTENT_LENGTH
  | HPE_INVALID_CHUNK_SIZE | HPE_INVALID_CONSTANT | HPE_INVALID_INTERNAL_STATE
  | HPE_STRICT | HPE_PAUSED | HPE_UNKNOWN

datatype (plugins only: code) state =
    s_dead | s_start_req_or_res | s_res_or_resp_H | s_start_res
  | s_res_H | s_res_HT | s_res_HTT | s_res_HTTP
  | s_res_http_major | s_res_http_dot | s_res_http_minor | s_res_http_end
  | s_res_first_status_code | s_res_status_code | s_res_status_start | s_res_status
  | s_res_line_almost_done | s_start_req | s_req_method | s_req_spaces_before_url
  | s_req_schema | s_req_schema_slash | s_req_schema_slash_slash | s_req_server_start
  | s_req_server | s_req_server_with_at | s_req_path | s_req_query_string_start
  | s_req_query_string | s_req_fragment_start | s_req_fragment | s_req_http_start
  | s_req_http_H | s_req_http_HT | s_req_http_HTT | s_req_http_HTTP
  | s_req_http_major | s_req_http_dot | s_req_http_minor | s_req_http_end
  | s_req_line_almost_done | s_header_field_start | s_header_field | s_header_value_discard_ws
  | s_header_value_discard_ws_almost_done | s_header_value_discard_lws | s_header_value_start | s_header_value
  | s_header_value_lws | s_header_almost_done | s_chunk_size_start | s_chunk_size
  | s_chunk_parameters | s_chunk_size_almost_done | s_headers_almost_done | s_headers_done
  | s_chunk_data | s_chunk_data_almost_done | s_chunk_data_done | s_body_identity
  | s_body_identity_eof | s_message_done

datatype (plugins only: code) header_states =
    h_general | h_C | h_CO
  | h_CON | h_matching_connection | h_matching_proxy_connection
  | h_matching_content_length | h_matching_transfer_encoding | h_matching_upgrade
  | h_connection | h_content_length | h_content_length_num
  | h_content_length_ws | h_transfer_encoding | h_upgrade
  | h_matching_transfer_encoding_chunked | h_matching_connection_token_start | h_matching_connection_keep_alive
  | h_matching_connection_close | h_matching_connection_upgrade | h_matching_connection_token
  | h_transfer_encoding_chunked | h_connection_keep_alive | h_connection_close
  | h_connection_upgrade

datatype http_host_state =
    s_http_host_dead | s_http_userinfo_start | s_http_userinfo | s_http_host_start
  | s_http_host_v6_start | s_http_host | s_http_host_v6 | s_http_host_v6_end
  | s_http_host_v6_zone_start | s_http_host_v6_zone | s_http_host_port_start | s_http_host_port

datatype http_parser_url_fields =
    UF_SCHEMA | UF_HOST | UF_PORT | UF_PATH
  | UF_QUERY | UF_FRAGMENT | UF_USERINFO | UF_MAX

text \<open>The numbers C gives the enumerators, as positions in declaration order.\<close>

primrec state_num :: "state \<Rightarrow> nat" where
  "state_num s_dead = 1" | "state_num s_start_req_or_res = 2"
| "state_num s_res_or_resp_H = 3" | "state_num s_start_res = 4"
| "state_num s_res_H = 5" | "state_num s_res_HT = 6"
| "state_num s_res_HTT = 7" | "state_num s_res_HTTP = 8"
| "state_num s_res_http_major = 9" | "state_num s_res_http_dot = 10"
| "state_num s_res_http_minor = 11" | "state_num s_res_http_end = 12"
| "state_num s_res_first_status_code = 13" | "state_num s_res_status_code = 14"
| "state_num s_res_status_start = 15" | "state_num s_res_status = 16"
| "state_num s_res_line_almost_done = 17" | "state_num s_start_req = 18"
| "state_num s_req_method = 19" | "state_num s_req_spaces_before_url = 20"
| "state_num s_req_schema = 21" | "state_num s_req_schema_slash = 22"
| "state_num s_req_schema_slash_slash = 23" | "state_num s_req_server_start = 24"
| "state_num s_req_server = 25" | "state_num s_req_server_with_at = 26"
| "state_num s_req_path = 27" | "state_num s_req_query_string_start = 28"
| "state_num s_req_query_string = 29" | "state_num s_req_fragment_start = 30"
| "state_num s_req_fragment = 31" | "state_num s_req_http_start = 32"
| "state_num s_req_http_H = 33" | "state_num s_req_http_HT = 34"
| "state_num s_req_http_HTT = 35" | "state_num s_req_http_HTTP = 36"
| "state_num s_req_http_major = 37" | "state_num s_req_http_dot = 38"
| "state_num s_req_http_minor = 39" | "state_num s_req_http_end = 40"
| "state_num s_req_line_almost_done = 41" | "state_num s_header_field_start = 42"
| "state_num s_header_field = 43" | "state_num s_header_value_discard_ws = 44"
| "state_num s_header_value_discard_ws_almost_done = 45" | "state_num s_header_value_discard_lws = 46"
| "state_num s_header_value_start = 47" | "state_num s_header_value = 48"
| "state_num s_header_value_lws = 49" | "state_num s_header_almost_done = 50"
| "state_num s_chunk_size_start = 51" | "state_num s_chunk_size = 52"
| "state_num s_chunk_parameters = 53" | "state_num s_chunk_size_almost_done = 54"
| "state_num s_headers_almost_done = 55" | "state_num s_headers_done = 56"
| "state_num s_chunk_data = 57" | "state_num s_chunk_data_almost_done = 58"
| "state_num s_chunk_data_done = 59" | "state_num s_body_identity = 60"
| "state_num s_body_identity_eof = 61" | "state_num s_message_done = 62"

primrec http_method_num :: "http_method \<Rightarrow> nat" where
  "http_method_num HTTP_DELETE = 0" | "http_method_num HTTP_GET = 1"
| "http_method_num HTTP_HEAD = 2" | "http_method_num HTTP_POST = 3"
| "http_method_num HTTP_PUT = 4" | "http_method_num HTTP_CONNECT = 5"
| "http_method_num HTTP_OPTIONS = 6" | "http_method_num HTTP_TRACE = 7"
| "http_method_num HTTP_COPY = 8" | "http_method_num HTTP_LOCK = 9"
| "http_method_num HTTP_MKCOL = 10" | "http_method_num HTTP_MOVE = 11"
| "http_method_num HTTP_PROPFIND = 12" | "http_method_num HTTP_PROPPATCH = 13"
| "http_method_num HTTP_SEARCH = 14" | "http_method_num HTTP_UNLOCK = 15"
| "http_method_num HTTP_BIND = 16" | "http_method_num HTTP_REBIND = 17"
| "http_method_num HTTP_UNBIND = 18" | "http_method_num HTTP_ACL = 19"
| "http_method_num HTTP_REPORT = 20" | "http_method_num HTTP_MKACTIVITY = 21"
| "http_method_num HTTP_CHECKOUT = 22" | "http_method_num HTTP_MERGE = 23"
| "http_method_num HTTP_MSEARCH = 24" | "http_method_num HTTP_NOTIFY = 25"
| "http_method_num HTTP_SUBSCRIBE = 26" | "http_method_num HTTP_UNSUBSCRIBE = 27"
| "http_method_num HTTP_PATCH = 28" | "http_method_num HTTP_PURGE = 29"
| "http_method_num HTTP_MKCALENDAR = 30" | "http_method_num HTTP_LINK = 31"
| "http_method_num HTTP_UNLINK = 32" | "http_method_num HTTP_SOURCE = 33"

primrec http_errno_num :: "http_errno \<Rightarrow> nat" where
  "http_errno_num HPE_OK = 0" | "http_errno_num HPE_CB_message_begin = 1"
| "http_errno_num HPE_CB_url = 2" | "http_errno_num HPE_CB_header_field = 3"
| "http_errno_num HPE_CB_header_value = 4" | "http_errno_num HPE_CB_headers_complete = 5"
| "http_errno_num HPE_CB_body = 6" | "http_errno_num HPE_CB_message_complete = 7"
| "http_errno_num HPE_CB_status = 8" | "http_errno_num HPE_CB_chunk_header = 9"
| "http_errno_num HPE_CB_chunk_complete = 10" | "http_errno_num HPE_INVALID_EOF_STATE = 11"
| "http_errno_num HPE_HEADER_OVERFLOW = 12" | "http_errno_num HPE_CLOSED_CONNECTION = 13"
| "http_errno_num HPE_INVALID_VERSION = 14" | "http_errno_num HPE_INVALID_STATUS = 15"
| "http_errno_num HPE_INVALID_METHOD = 16" | "http_errno_num HPE_INVALID_URL = 17"
| "http_errno_num HPE_INVALID_HOST = 18" | "http_errno_num HPE_INVALID_PORT = 19"
| "http_errno_num HPE_INVALID_PATH = 20" | "http_errno_num HPE_INVALID_QUERY_STRING = 21"
| "http_errno_num HPE_INVALID_FRAGMENT = 22" | "http_errno_num HPE_LF_EXPECTED = 23"
| "http_errno_num HPE_INVALID_HEADER_TOKEN = 24" | "http_errno_num HPE_INVALID_CONTENT_LENGTH = 25"
| "http_errno_num HPE_UNEXPECTED_CONTENT_LENGTH = 26" | "http_errno_num HPE_INVALID_CHUNK_SIZE = 27"
| "http_errno_num HPE_INVALID_CONSTANT = 28" | "http_errno_num HPE_INVALID_INTERNAL_STATE = 29"
| "http_errno_num HPE_STRICT = 30" | "http_errno_num HPE_PAUSED = 31"
| "http_errno_num HPE_UNKNOWN = 32"

primrec uf_num :: "http_parser_url_fields \<Rightarrow> nat" where
  "uf_num UF_SCHEMA = 0" | "uf_num UF_HOST = 1"
| "uf_num UF_PORT = 2" | "uf_num UF_PATH = 3"
| "uf_num UF_QUERY = 4" | "uf_num UF_FRAGMENT = 5"
| "uf_num UF_USERINFO = 6" | "uf_num UF_MAX = 7"

definition all_states :: "state list" where
  "all_states =
    [s_dead, s_start_req_or_res, s_res_or_resp_H, s_start_res, s_res_H, s_res_HT,
     s_res_HTT, s_res_HTTP, s_res_http_major, s_res_http_dot, s_res_http_minor, s_res_http_end,
     s_res_first_status_code, s_res_status_code, s_res_status_start, s_res_status, s_res_line_almost_done, s_start_req,
     s_req_method, s_req_spaces_before_url, s_req_schema, s_req_schema_slash, s_req_schema_slash_slash, s_req_server_start,
     s_req_server, s_req_server_with_at, s_req_path, s_req_query_string_start, s_req_query_string, s_req_fragment_start,
     s_req_fragment, s_req_http_start, s_req_http_H, s_req_http_HT, s_req_http_HTT, s_req_http_HTTP,
     s_req_http_major, s_req_http_dot, s_req_http_minor, s_req_http_end, s_req_line_almost_done, s_header_field_start,
     s_header_field, s_header_value_discard_ws, s_header_value_discard_ws_almost_done, s_header_value_discard_lws, s_header_value_start, s_header_value,
     s_header_value_lws, s_header_almost_done, s_chunk_size_start, s_chunk_size, s_chunk_parameters, s_chunk_size_almost_done,
     s_headers_almost_done, s_headers_done, s_chunk_data, s_chunk_data_almost_done, s_chunk_data_done, s_body_identity,
     s_body_identity_eof, s_message_done]"

section \<open>Tables\<close>

definition method_strings :: "string list" where
  "method_strings =
    [''DELETE'', ''GET'', ''HEAD'', ''POST'', ''PUT'', ''CONNECT'',
     ''OPTIONS'', ''TRACE'', ''COPY'', ''LOCK'', ''MKCOL'', ''MOVE'',
     ''PROPFIND'', ''PROPPATCH'', ''SEARCH'', ''UNLOCK'', ''BIND'', ''REBIND'',
     ''UNBIND'', ''ACL'', ''REPORT'', ''MKACTIVITY'', ''CHECKOUT'', ''MERGE'',
     ''M-SEARCH'', ''NOTIFY'', ''SUBSCRIBE'', ''UNSUBSCRIBE'', ''PATCH'', ''PURGE'',
     ''MKCALENDAR'', ''LINK'', ''UNLINK'', ''SOURCE'']"

definition http_status_map :: "(nat \<times> string \<times> string) list" where
  "http_status_map =
    [(100, ''CONTINUE'', ''Continue''),
     (101, ''SWITCHING_PROTOCOLS'', ''Switching Protocols''),
     (102, ''PROCESSING'', ''Processing''),
     (200, ''OK'', ''OK''),
     (201, ''CREATED'', ''Created''),
     (202, ''ACCEPTED'', ''Accepted''),
     (203, ''NON_AUTHORITATIVE_INFORMATION'', ''Non-Authoritative Information''),
     (204, ''NO_CONTENT'', ''No Content''),
     (205, ''RESET_CONTENT'', ''Reset Content''),
     (206, ''PARTIAL_CONTENT'', ''Partial Content''),
     (207, ''MULTI_STATUS'', ''Multi-Status''),
     (208, ''ALREADY_REPORTED'', ''Already Reported''),
     (226, ''IM_USED'', ''IM Used''),
     (300, ''MULTIPLE_CHOICES'', ''Multiple Choices''),
     (301, ''MOVED_PERMANENTLY'', ''Moved Permanently''),
     (302, ''FOUND'', ''Found''),
     (303, ''SEE_OTHER'', ''See Other''),
     (304, ''NOT_MODIFIED'', ''Not Modified''),
     (305, ''USE_PROXY'', ''Use Proxy''),
     (307, ''TEMPORARY_REDIRECT'', ''Temporary Redirect''),
     (308, ''PERMANENT_REDIRECT'', ''Permanent Redirect''),
     (400, ''BAD_REQUEST'', ''Bad Request''),
     (401, ''UNAUTHORIZED'', ''Unauthorized''),
     (402, ''PAYMENT_REQUIRED'', ''Payment Required''),
     (403, ''FORBIDDEN'', ''Forbidden''),
     (404, ''NOT_FOUND'', ''Not Found''),
     (405, ''METHOD_NOT_ALLOWED'', ''Method Not Allowed''),
     (406, ''NOT_ACCEPTABLE'', ''Not Acceptable''),
     (407, ''PROXY_AUTHENTICATION_REQUIRED'', ''Proxy Authentication Required''),
     (408, ''REQUEST_TIMEOUT'', ''Request Timeout''),
     (409, ''CONFLICT'', ''Conflict''),
     (410, ''GONE'', ''Gone''),
     (411, ''LENGTH_REQUIRED'', ''Length Required''),
     (412, ''PRECONDITION_FAILED'', ''Precondition Failed''),
     (413, ''PAYLOAD_TOO_LARGE'', ''Payload Too Large''),
     (414, ''URI_TOO_LONG'', ''URI Too Long''),
     (415, ''UNSUPPORTED_MEDIA_TYPE'', ''Unsupported Media Type''),
     (416, ''RANGE_NOT_SATISFIABLE'', ''Range Not Satisfiable''),
     (417, ''EXPECTATION_FAILED'', ''Expectation Failed''),
     (421, ''MISDIRECTED_REQUEST'', ''Misdirected Request''),
     (422, ''UNPROCESSABLE_ENTITY'', ''Unprocessable Entity''),
     (423, ''LOCKED'', ''Locked''),
     (424, ''FAILED_DEPENDENCY'', ''Failed Dependency''),
     (426, ''UPGRADE_REQUIRED'', ''Upgrade Required''),
     (428, ''PRECONDITION_REQUIRED'', ''Precondition Required''),
     (429, ''TOO_MANY_REQUESTS'', ''Too Many Requests''),
     (431, ''REQUEST_HEADER_FIELDS_TOO_LARGE'', ''Request Header Fields Too Large''),
     (451, ''UNAVAILABLE_FOR_LEGAL_REASONS'', ''Unavailable For Legal Reasons''),
     (500, ''INTERNAL_SERVER_ERROR'', ''Internal Server Error''),
     (501, ''NOT_IMPLEMENTED'', ''Not Implemented''),
     (502, ''BAD_GATEWAY'', ''Bad Gateway''),
     (503, ''SERVICE_UNAVAILABLE'', ''Service Unavailable''),
     (504, ''GATEWAY_TIMEOUT'', ''Gateway Timeout''),
     (505, ''HTTP_VERSION_NOT_SUPPORTED'', ''HTTP Version Not Supported''),
     (506, ''VARIANT_ALSO_NEGOTIATES'', ''Variant Also Negotiates''),
     (507, ''INSUFFICIENT_STORAGE'', ''Insufficient Storage''),
     (508, ''LOOP_DETECTED'', ''Loop Detected''),
     (510, ''NOT_EXTENDED'', ''Not Extended''),
     (511, ''NETWORK_AUTHENTICATION_REQUIRED'', ''Network Authentication Required'')]"

definition http_strerror_tab :: "(string \<times> string) list" where
  "http_strerror_tab =
    [(''HPE_OK'', ''success''),
     (''HPE_CB_message_begin'', ''the on_message_begin callback failed''),
     (''HPE_CB_url'', ''the on_url callback failed''),
     (''HPE_CB_header_field'', ''the on_header_field callback failed''),
     (''HPE_CB_header_value'', ''the on_header_value callback failed''),
     (''HPE_CB_headers_complete'', ''the on_headers_complete callback failed''),
     (''HPE_CB_body'', ''the on_body callback failed''),
     (''HPE_CB_message_complete'', ''the on_message_complete callback failed''),
     (''HPE_CB_status'', ''the on_status callback failed''),
     (''HPE_CB_chunk_header'', ''the on_chunk_header callback failed''),
     (''HPE_CB_chunk_complete'', ''the on_chunk_complete callback failed''),
     (''HPE_INVALID_EOF_STATE'', ''stream ended at an unexpected time''),
     (''HPE_HEADER_OVERFLOW'', ''too many header bytes seen; overflow detected''),
     (''HPE_CLOSED_CONNECTION'', ''data received after completed connection: close message''),
     (''HPE_INVALID_VERSION'', ''invalid HTTP version''),
     (''HPE_INVALID_STATUS'', ''invalid HTTP status code''),
     (''HPE_INVALID_METHOD'', ''invalid HTTP method''),
     (''HPE_INVALID_URL'', ''invalid URL''),
     (''HPE_INVALID_HOST'', ''invalid host''),
     (''HPE_INVALID_PORT'', ''invalid port''),
     (''HPE_INVALID_PATH'', ''invalid path''),
     (''HPE_INVALID_QUERY_STRING'', ''invalid query string''),
     (''HPE_INVALID_FRAGMENT'', ''invalid fragment''),
     (''HPE_LF_EXPECTED'', ''LF character expected''),
     (''HPE_INVALID_HEADER_TOKEN'', ''invalid character in header''),
     (''HPE_INVALID_CONTENT_LENGTH'', ''invalid character in content-length header''),
     (''HPE_UNEXPECTED_CONTENT_LENGTH'', ''unexpected content-length header''),
     (''HPE_INVALID_CHUNK_SIZE'', ''invalid character in chunk size header''),
     (''HPE_INVALID_CONSTANT'', ''invalid constant string''),
     (''HPE_INVALID_INTERNAL_STATE'', ''encountered unexpected internal state''),
     (''HPE_STRICT'', ''strict mode assertion failed''),
     (''HPE_PAUSED'', ''parser is paused''),
     (''HPE_UNKNOWN'', ''an unknown error occurred'')]"

definition tokens :: "char list" where
  "tokens =
    [NUL, NUL, NUL, NUL, NUL, NUL, NUL, NUL] @
    [NUL, NUL, NUL, NUL, NUL, NUL, NUL, NUL] @
    [NUL, NUL, NUL, NUL, NUL, NUL, NUL, NUL] @
    [NUL, NUL, NUL, NUL, NUL, NUL, NUL, NUL] @
    [NUL, CHR ''!'', NUL, CHR ''#'', CHR ''$'', CHR ''%'', CHR ''&'', QUOTE] @
    [NUL, NUL, CHR ''*'', CHR ''+'', NUL, CHR ''-'', CHR ''.'', NUL] @
    ''01234567'' @
    ''89'' @ [NUL, NUL, NUL, NUL, NUL, NUL] @
    NUL # ''abcdefg'' @
    ''hijklmno'' @
    ''pqrstuvw'' @
    ''xyz'' @ [NUL, NUL, NUL, CHR ''^'', CHR ''_''] @
    CHR 0x60 # ''abcdefg'' @
    ''hijklmno'' @
    ''pqrstuvw'' @
    ''xyz'' @ [NUL, CHR ''|'', NUL, CHR ''~'', NUL]"

definition unhex :: "int list" where
  "unhex =
    [-1, -1, -1, -1, -1, -1, -1, -1, -1, -1, -1, -1, -1, -1, -1, -1,
     -1, -1, -1, -1, -1, -1, -1, -1, -1, -1, -1, -1, -1, -1, -1, -1,
     -1, -1, -1, -1, -1, -1, -1, -1, -1, -1, -1, -1, -1, -1, -1, -1,
     0, 1, 2, 3, 4, 5, 6, 7, 8, 9, -1, -1, -1, -1, -1, -1,
     -1, 10, 11, 12, 13, 14, 15, -1, -1, -1, -1, -1, -1, -1, -1, -1,
     -1, -1, -1, -1, -1, -1, -1, -1, -1, -1, -1, -1, -1, -1, -1, -1,
     -1, 10, 11, 12, 13, 14, 15, -1, -1, -1, -1, -1, -1, -1, -1, -1,
     -1, -1, -1, -1, -1, -1, -1, -1, -1, -1, -1, -1, -1, -1, -1, -1]"

definition normal_url_char :: "8 word list" where
  "normal_url_char =
    [0 OR 0 OR 0 OR 0 OR 0 OR 0 OR 0 OR 0,
     0 OR 0 OR 0 OR 0 OR 0 OR 0 OR 0 OR 0,
     0 OR 0 OR 0 OR 0 OR 0 OR 0 OR 0 OR 0,
     0 OR 0 OR 0 OR 0 OR 0 OR 0 OR 0 OR 0,
     0 OR 2 OR 4 OR 0 OR 16 OR 32 OR 64 OR 128,
     1 OR 2 OR 4 OR 8 OR 16 OR 32 OR 64 OR 128,
     1 OR 2 OR 4 OR 8 OR 16 OR 32 OR 64 OR 128,
     1 OR 2 OR 4 OR 8 OR 16 OR 32 OR 64 OR 0,
     1 OR 2 OR 4 OR 8 OR 16 OR 32 OR 64 OR 128,
     1 OR 2 OR 4 OR 8 OR 16 OR 32 OR 64 OR 128,
     1 OR 2 OR 4 OR 8 OR 16 OR 32 OR 64 OR 128,
     1 OR 2 OR 4 OR 8 OR 16 OR 32 OR 64 OR 128,
     1 OR 2 OR 4 OR 8 OR 16 OR 32 OR 64 OR 128,
     1 OR 2 OR 4 OR 8 OR 16 OR 32 OR 64 OR 128,
     1 OR 2 OR 4 OR 8 OR 16 OR 32 OR 64 OR 128,
     1 OR 2 OR 4 OR 8 OR 16 OR 32 OR 64 OR 0]"

text \<open>
  Array reads. \<open>tokens\<close>, \<open>unhex\<close> and \<open>normal_url_char\<close> are declared with 256, 256 and 32
  elements but initialised with the first 128, 128 and 16 of them: C fills the rest with
  zeros, so \<open>unhex\<close> of a byte above 127 is 0, not -1.
\<close>

definition STRICT_TOKEN :: "char \<Rightarrow> char" where
  "STRICT_TOKEN c = (if char_code c < length tokens then tokens ! char_code c else NUL)"

definition TOKEN :: "char \<Rightarrow> char" where
  "TOKEN c = STRICT_TOKEN c"

definition unhex_at :: "char \<Rightarrow> int" where
  "unhex_at c = (if char_code c < length unhex then unhex ! char_code c else 0)"

definition BIT_AT :: "8 word list \<Rightarrow> nat \<Rightarrow> bool" where
  "BIT_AT a i = (let i8 = i div 8 in if i8 < length a then bit (a ! i8) (i mod 8) else False)"

section \<open>Character classes\<close>

primrec LOWER :: "char \<Rightarrow> char" where
  "LOWER (Char b0 b1 b2 b3 b4 b5 b6 b7) = Char b0 b1 b2 b3 b4 True b6 b7"

definition IS_ALPHA :: "char \<Rightarrow> bool" where
  "IS_ALPHA c \<longleftrightarrow> CHR ''a'' \<le> LOWER c \<and> LOWER c \<le> CHR ''z''"

definition IS_NUM :: "char \<Rightarrow> bool" where
  "IS_NUM c \<longleftrightarrow> is_digit c"

definition IS_ALPHANUM :: "char \<Rightarrow> bool" where
  "IS_ALPHANUM c \<longleftrightarrow> IS_ALPHA c \<or> IS_NUM c"

definition IS_HEX :: "char \<Rightarrow> bool" where
  "IS_HEX c \<longleftrightarrow> IS_NUM c \<or> (CHR ''a'' \<le> LOWER c \<and> LOWER c \<le> CHR ''f'')"

definition IS_MARK :: "char \<Rightarrow> bool" where
  "IS_MARK c \<longleftrightarrow> c \<in> set ''-_.!~*'' \<or> c = QUOTE \<or> c \<in> set ''()''"

definition IS_USERINFO_CHAR :: "char \<Rightarrow> bool" where
  "IS_USERINFO_CHAR c \<longleftrightarrow> IS_ALPHANUM c \<or> IS_MARK c \<or> c \<in> set ''%;:&=+$,''"

definition IS_URL_CHAR :: "char \<Rightarrow> bool" where
  "IS_URL_CHAR c \<longleftrightarrow> BIT_AT normal_url_char (char_code c)"

definition IS_HOST_CHAR :: "char \<Rightarrow> bool" where
  "IS_HOST_CHAR c \<longleftrightarrow> IS_ALPHANUM c \<or> c = CHR ''.'' \<or> c = CHR ''-''"

definition IS_HEADER_CHAR :: "char \<Rightarrow> bool" where
  "IS_HEADER_CHAR ch \<longleftrightarrow> ch = CR \<or> ch = LF \<or> char_code ch = 9 \<or> (char_code ch > 31 \<and> char_code ch \<noteq> 127)"

section \<open>Limits, flags and records\<close>

definition HTTP_MAX_HEADER_SIZE :: nat where
  "HTTP_MAX_HEADER_SIZE = 80 * 1024"

definition ULLONG_MAX :: "64 word" where
  "ULLONG_MAX = - 1"

definition F_CHUNKED :: "8 word" where "F_CHUNKED = push_bit 0 1"
definition F_CONNECTION_KEEP_ALIVE :: "8 word" where "F_CONNECTION_KEEP_ALIVE = push_bit 1 1"
definition F_CONNECTION_CLOSE :: "8 word" where "F_CONNECTION_CLOSE = push_bit 2 1"
definition F_CONNECTION_UPGRADE :: "8 word" where "F_CONNECTION_UPGRADE = push_bit 3 1"
definition F_TRAILING :: "8 word" where "F_TRAILING = push_bit 4 1"
definition F_UPGRADE :: "8 word" where "F_UPGRADE = push_bit 5 1"
definition F_SKIPBODY :: "8 word" where "F_SKIPBODY = push_bit 6 1"
definition F_CONTENTLENGTH :: "8 word" where "F_CONTENTLENGTH = push_bit 7 1"

lemmas F_defs = F_CHUNKED_def F_CONNECTION_KEEP_ALIVE_def F_CONNECTION_CLOSE_def
  F_CONNECTION_UPGRADE_def F_TRAILING_def F_UPGRADE_def F_SKIPBODY_def F_CONTENTLENGTH_def

text \<open>
  \<open>struct http_parser\<close>; \<open>'d\<close> is what the application hangs on \<open>data\<close>. The bit fields keep
  their widths; an enumerated field holds its enumerator.
\<close>

record 'd http_parser =
  ptype :: http_parser_type
  flags :: "8 word"
  state :: state
  header_state :: header_states
  index :: "7 word"
  lenient_http_headers :: bool
  nread :: "32 word"
  content_length :: "64 word"
  http_major :: "16 word"
  http_minor :: "16 word"
  status_code :: "16 word"
  req_method :: http_method
  http_errno :: http_errno
  upgrade :: bool
  data :: 'd

text \<open>
  Callbacks are functions on the whole parser: they return the C \<open>int\<close> and the parser they
  leave behind. A data callback also gets the bytes \<open>at[0 .. length)\<close>.
\<close>

type_synonym 'd http_cb = "'d http_parser \<Rightarrow> int \<times> 'd http_parser"
type_synonym 'd http_data_cb = "'d http_parser \<Rightarrow> string \<Rightarrow> int \<times> 'd http_parser"

record 'd http_parser_settings =
  on_message_begin :: "'d http_cb option"
  on_url :: "'d http_data_cb option"
  on_status :: "'d http_data_cb option"
  on_header_field :: "'d http_data_cb option"
  on_header_value :: "'d http_data_cb option"
  on_headers_complete :: "'d http_cb option"
  on_body :: "'d http_data_cb option"
  on_message_complete :: "'d http_cb option"
  on_chunk_header :: "'d http_cb option"
  on_chunk_complete :: "'d http_cb option"

record url_field =
  off :: "16 word"
  len :: "16 word"

record http_parser_url =
  field_set :: "16 word"
  port :: "16 word"
  field_data :: "http_parser_url_fields \<Rightarrow> url_field"

section \<open>State order\<close>

text \<open>The enumeration order of \<open>enum state\<close>, which \<open>PARSING_HEADER\<close> compares with.\<close>

lemma all_states_nth: "all_states ! (state_num s - 1) = s"
  by (cases s) (simp_all add: all_states_def)

lemma state_num_inject: "state_num s = state_num t \<Longrightarrow> s = t"
  by (metis all_states_nth)

instantiation state :: linorder
begin

definition less_eq_state :: "state \<Rightarrow> state \<Rightarrow> bool" where
  "less_eq_state s t \<longleftrightarrow> state_num s \<le> state_num t"

definition less_state :: "state \<Rightarrow> state \<Rightarrow> bool" where
  "less_state s t \<longleftrightarrow> state_num s < state_num t"

instance
  by standard (auto simp: less_eq_state_def less_state_def intro: state_num_inject)

end

definition PARSING_HEADER :: "state \<Rightarrow> bool" where
  "PARSING_HEADER s \<longleftrightarrow> s \<le> s_headers_done"

lemma PARSING_HEADER_iff [simp]:
  "PARSING_HEADER s \<longleftrightarrow>
     s \<notin> {s_chunk_data, s_chunk_data_almost_done, s_chunk_data_done, s_body_identity,
          s_body_identity_eof, s_message_done}"
  by (cases s) (simp_all add: PARSING_HEADER_def less_eq_state_def)

section \<open>Initialisation and names\<close>

definition http_parser_init :: "'d http_parser \<Rightarrow> http_parser_type \<Rightarrow> 'd http_parser" where
  "http_parser_init parser t =
     \<lparr>ptype = t, flags = 0,
      state = (if t = HTTP_REQUEST then s_start_req
               else if t = HTTP_RESPONSE then s_start_res else s_start_req_or_res),
      header_state = h_general, index = 0, lenient_http_headers = False, nread = 0,
      content_length = 0, http_major = 0, http_minor = 0, status_code = 0,
      req_method = HTTP_DELETE, http_errno = HPE_OK, upgrade = False, data = data parser\<rparr>"

definition http_parser_settings_init :: "'d http_parser_settings" where
  "http_parser_settings_init =
     \<lparr>on_message_begin = None, on_url = None, on_status = None, on_header_field = None,
      on_header_value = None, on_headers_complete = None, on_body = None,
      on_message_complete = None, on_chunk_header = None, on_chunk_complete = None\<rparr>"

definition http_parser_url_init :: "http_parser_url" where
  "http_parser_url_init = \<lparr>field_set = 0, port = 0, field_data = (\<lambda>_. \<lparr>off = 0, len = 0\<rparr>)\<rparr>"

definition method_string :: "http_method \<Rightarrow> string" where
  "method_string m = method_strings ! http_method_num m"

definition http_method_str :: "nat \<Rightarrow> string" where
  "http_method_str m = (if m < length method_strings then method_strings ! m else ''<unknown>'')"

definition http_errno_name :: "http_errno \<Rightarrow> string" where
  "http_errno_name err = fst (http_strerror_tab ! http_errno_num err)"

definition http_errno_description :: "http_errno \<Rightarrow> string" where
  "http_errno_description err = snd (http_strerror_tab ! http_errno_num err)"

definition http_parser_version :: "64 word" where
  "http_parser_version = 2 * 0x10000 OR 8 * 0x00100 OR 1 * 0x00001"

text \<open>\<open>http_parser_pause\<close>: \<open>None\<close> is the failing assertion.\<close>

definition http_parser_pause :: "'d http_parser \<Rightarrow> bool \<Rightarrow> 'd http_parser option" where
  "http_parser_pause parser paused =
     (if http_errno parser = HPE_OK \<or> http_errno parser = HPE_PAUSED
      then Some (parser\<lparr>http_errno := (if paused then HPE_PAUSED else HPE_OK)\<rparr>)
      else None)"

definition http_body_is_final :: "'d http_parser \<Rightarrow> bool" where
  "http_body_is_final parser \<longleftrightarrow> state parser = s_message_done"

definition http_message_needs_eof :: "'d http_parser \<Rightarrow> bool" where
  "http_message_needs_eof parser =
     (if ptype parser = HTTP_REQUEST then False
      else if status_code parser div 100 = 1 \<or> status_code parser = 204 \<or>
              status_code parser = 304 \<or> has_flag (flags parser) F_SKIPBODY then False
      else if has_flag (flags parser) F_CHUNKED \<or> content_length parser \<noteq> ULLONG_MAX then False
      else True)"

definition http_should_keep_alive :: "'d http_parser \<Rightarrow> bool" where
  "http_should_keep_alive parser =
     (if http_major parser > 0 \<and> http_minor parser > 0
      then if has_flag (flags parser) F_CONNECTION_CLOSE then False
           else \<not> http_message_needs_eof parser
      else if \<not> has_flag (flags parser) F_CONNECTION_KEEP_ALIVE then False
           else \<not> http_message_needs_eof parser)"

definition start_state :: "'d http_parser \<Rightarrow> state" where
  "start_state parser = (if ptype parser = HTTP_REQUEST then s_start_req else s_start_res)"

definition NEW_MESSAGE :: "'d http_parser \<Rightarrow> state" where
  "NEW_MESSAGE parser = (if http_should_keep_alive parser then start_state parser else s_dead)"

lemma NEW_MESSAGE_cases: "NEW_MESSAGE p \<in> {s_start_req, s_start_res, s_dead}"
  by (simp add: NEW_MESSAGE_def start_state_def)

text \<open>The flags are eight different bits.\<close>

lemma has_flag_F [simp, flag_simps]:
  "has_flag F_CHUNKED F_CHUNKED" "\<not> has_flag F_CHUNKED F_CONNECTION_KEEP_ALIVE"
  "\<not> has_flag F_CHUNKED F_CONNECTION_CLOSE" "\<not> has_flag F_CHUNKED F_CONNECTION_UPGRADE"
  "\<not> has_flag F_CHUNKED F_TRAILING" "\<not> has_flag F_CHUNKED F_UPGRADE"
  "\<not> has_flag F_CHUNKED F_SKIPBODY" "\<not> has_flag F_CHUNKED F_CONTENTLENGTH"
  "\<not> has_flag F_CONNECTION_KEEP_ALIVE F_CHUNKED" "has_flag F_CONNECTION_KEEP_ALIVE F_CONNECTION_KEEP_ALIVE"
  "\<not> has_flag F_CONNECTION_KEEP_ALIVE F_CONNECTION_CLOSE" "\<not> has_flag F_CONNECTION_KEEP_ALIVE F_CONNECTION_UPGRADE"
  "\<not> has_flag F_CONNECTION_KEEP_ALIVE F_TRAILING" "\<not> has_flag F_CONNECTION_KEEP_ALIVE F_UPGRADE"
  "\<not> has_flag F_CONNECTION_KEEP_ALIVE F_SKIPBODY" "\<not> has_flag F_CONNECTION_KEEP_ALIVE F_CONTENTLENGTH"
  "\<not> has_flag F_CONNECTION_CLOSE F_CHUNKED" "\<not> has_flag F_CONNECTION_CLOSE F_CONNECTION_KEEP_ALIVE"
  "has_flag F_CONNECTION_CLOSE F_CONNECTION_CLOSE" "\<not> has_flag F_CONNECTION_CLOSE F_CONNECTION_UPGRADE"
  "\<not> has_flag F_CONNECTION_CLOSE F_TRAILING" "\<not> has_flag F_CONNECTION_CLOSE F_UPGRADE"
  "\<not> has_flag F_CONNECTION_CLOSE F_SKIPBODY" "\<not> has_flag F_CONNECTION_CLOSE F_CONTENTLENGTH"
  "\<not> has_flag F_CONNECTION_UPGRADE F_CHUNKED" "\<not> has_flag F_CONNECTION_UPGRADE F_CONNECTION_KEEP_ALIVE"
  "\<not> has_flag F_CONNECTION_UPGRADE F_CONNECTION_CLOSE" "has_flag F_CONNECTION_UPGRADE F_CONNECTION_UPGRADE"
  "\<not> has_flag F_CONNECTION_UPGRADE F_TRAILING" "\<not> has_flag F_CONNECTION_UPGRADE F_UPGRADE"
  "\<not> has_flag F_CONNECTION_UPGRADE F_SKIPBODY" "\<not> has_flag F_CONNECTION_UPGRADE F_CONTENTLENGTH"
  "\<not> has_flag F_TRAILING F_CHUNKED" "\<not> has_flag F_TRAILING F_CONNECTION_KEEP_ALIVE"
  "\<not> has_flag F_TRAILING F_CONNECTION_CLOSE" "\<not> has_flag F_TRAILING F_CONNECTION_UPGRADE"
  "has_flag F_TRAILING F_TRAILING" "\<not> has_flag F_TRAILING F_UPGRADE"
  "\<not> has_flag F_TRAILING F_SKIPBODY" "\<not> has_flag F_TRAILING F_CONTENTLENGTH"
  "\<not> has_flag F_UPGRADE F_CHUNKED" "\<not> has_flag F_UPGRADE F_CONNECTION_KEEP_ALIVE"
  "\<not> has_flag F_UPGRADE F_CONNECTION_CLOSE" "\<not> has_flag F_UPGRADE F_CONNECTION_UPGRADE"
  "\<not> has_flag F_UPGRADE F_TRAILING" "has_flag F_UPGRADE F_UPGRADE"
  "\<not> has_flag F_UPGRADE F_SKIPBODY" "\<not> has_flag F_UPGRADE F_CONTENTLENGTH"
  "\<not> has_flag F_SKIPBODY F_CHUNKED" "\<not> has_flag F_SKIPBODY F_CONNECTION_KEEP_ALIVE"
  "\<not> has_flag F_SKIPBODY F_CONNECTION_CLOSE" "\<not> has_flag F_SKIPBODY F_CONNECTION_UPGRADE"
  "\<not> has_flag F_SKIPBODY F_TRAILING" "\<not> has_flag F_SKIPBODY F_UPGRADE"
  "has_flag F_SKIPBODY F_SKIPBODY" "\<not> has_flag F_SKIPBODY F_CONTENTLENGTH"
  "\<not> has_flag F_CONTENTLENGTH F_CHUNKED" "\<not> has_flag F_CONTENTLENGTH F_CONNECTION_KEEP_ALIVE"
  "\<not> has_flag F_CONTENTLENGTH F_CONNECTION_CLOSE" "\<not> has_flag F_CONTENTLENGTH F_CONNECTION_UPGRADE"
  "\<not> has_flag F_CONTENTLENGTH F_TRAILING" "\<not> has_flag F_CONTENTLENGTH F_UPGRADE"
  "\<not> has_flag F_CONTENTLENGTH F_SKIPBODY" "has_flag F_CONTENTLENGTH F_CONTENTLENGTH"
  by (simp_all add: has_flag_def F_defs)

end
