(* ===== verification/Http_Url.thy ===== *)
theory Http_Url
  imports Http_Types
begin

text \<open>
  The URL parser of \<open>src/lib/http_parser.c\<close>: the byte-for-byte transition functions
  \<open>parse_url_char\<close> and \<open>http_parse_host_char\<close>, the field splitter \<open>http_parser_parse_url\<close> with
  \<open>http_parse_host\<close>, the invariant that every field stays inside of the buffer, and what the
  splitter returns for origin-form and authority-form targets. The result \<open>None\<close> of the
  two splitters is a failing C assertion.
\<close>

section \<open>Transition functions\<close>

definition parse_server_char :: "char \<Rightarrow> state" where
  "parse_server_char ch =
     (if ch = CHR ''/'' then s_req_path
      else if ch = CHR ''?'' then s_req_query_string_start
      else if ch = CHR ''@'' then s_req_server_with_at
      else if IS_USERINFO_CHAR ch \<or> ch = CHR ''['' \<or> ch = CHR '']'' then s_req_server
      else s_dead)"

definition parse_url_char :: "state \<Rightarrow> char \<Rightarrow> state" where
  "parse_url_char s ch =
     (if ch = CHR '' '' \<or> ch = CR \<or> ch = LF then s_dead
      else if ch = TAB \<or> ch = FF then s_dead
      else case s of
        s_req_spaces_before_url \<Rightarrow>
          (if ch = CHR ''/'' \<or> ch = CHR ''*'' then s_req_path
           else if IS_ALPHA ch then s_req_schema else s_dead)
      | s_req_schema \<Rightarrow>
          (if IS_ALPHA ch then s else if ch = CHR '':'' then s_req_schema_slash else s_dead)
      | s_req_schema_slash \<Rightarrow>
          (if ch = CHR ''/'' then s_req_schema_slash_slash else s_dead)
      | s_req_schema_slash_slash \<Rightarrow>
          (if ch = CHR ''/'' then s_req_server_start else s_dead)
      | s_req_server_with_at \<Rightarrow>
          (if ch = CHR ''@'' then s_dead else parse_server_char ch)
      | s_req_server_start \<Rightarrow> parse_server_char ch
      | s_req_server \<Rightarrow> parse_server_char ch
      | s_req_path \<Rightarrow>
          (if IS_URL_CHAR ch then s
           else if ch = CHR ''?'' then s_req_query_string_start
           else if ch = CHR ''#'' then s_req_fragment_start else s_dead)
      | s_req_query_string_start \<Rightarrow>
          (if IS_URL_CHAR ch then s_req_query_string
           else if ch = CHR ''?'' then s_req_query_string
           else if ch = CHR ''#'' then s_req_fragment_start else s_dead)
      | s_req_query_string \<Rightarrow>
          (if IS_URL_CHAR ch then s_req_query_string
           else if ch = CHR ''?'' then s_req_query_string
           else if ch = CHR ''#'' then s_req_fragment_start else s_dead)
      | s_req_fragment_start \<Rightarrow>
          (if IS_URL_CHAR ch then s_req_fragment
           else if ch = CHR ''?'' then s_req_fragment
           else if ch = CHR ''#'' then s else s_dead)
      | s_req_fragment \<Rightarrow>
          (if IS_URL_CHAR ch then s
           else if ch = CHR ''?'' \<or> ch = CHR ''#'' then s else s_dead)
      | _ \<Rightarrow> s_dead)"

definition http_parse_host_char :: "http_host_state \<Rightarrow> char \<Rightarrow> http_host_state" where
  "http_parse_host_char s ch =
     (let userinfo = (if ch = CHR ''@'' then s_http_host_start
                      else if IS_USERINFO_CHAR ch then s_http_userinfo else s_http_host_dead);
          port_colon = (if ch = CHR '':'' then s_http_host_port_start else s_http_host_dead);
          v6 = (if IS_HEX ch \<or> ch = CHR '':'' \<or> ch = CHR ''.'' then s_http_host_v6
                else if s = s_http_host_v6 \<and> ch = CHR ''%'' then s_http_host_v6_zone_start
                else s_http_host_dead);
          zone = (if IS_ALPHANUM ch \<or> ch \<in> set ''%.-_~'' then s_http_host_v6_zone
                  else s_http_host_dead);
          num = (if IS_NUM ch then s_http_host_port else s_http_host_dead)
      in case s of
        s_http_userinfo \<Rightarrow> userinfo
      | s_http_userinfo_start \<Rightarrow> userinfo
      | s_http_host_start \<Rightarrow>
          (if ch = CHR ''['' then s_http_host_v6_start
           else if IS_HOST_CHAR ch then s_http_host else s_http_host_dead)
      | s_http_host \<Rightarrow> (if IS_HOST_CHAR ch then s_http_host else port_colon)
      | s_http_host_v6_end \<Rightarrow> port_colon
      | s_http_host_v6 \<Rightarrow> (if ch = CHR '']'' then s_http_host_v6_end else v6)
      | s_http_host_v6_start \<Rightarrow> v6
      | s_http_host_v6_zone \<Rightarrow> (if ch = CHR '']'' then s_http_host_v6_end else zone)
      | s_http_host_v6_zone_start \<Rightarrow> zone
      | s_http_host_port \<Rightarrow> num
      | s_http_host_port_start \<Rightarrow> num
      | s_http_host_dead \<Rightarrow> s_http_host_dead)"

section \<open>Splitting\<close>

definition uf_bit :: "http_parser_url_fields \<Rightarrow> 16 word" where
  "uf_bit uf = push_bit (uf_num uf) 1"

definition field_off :: "http_parser_url \<Rightarrow> http_parser_url_fields \<Rightarrow> nat" where
  "field_off u uf = unat (off (field_data u uf))"

definition field_len :: "http_parser_url \<Rightarrow> http_parser_url_fields \<Rightarrow> nat" where
  "field_len u uf = unat (len (field_data u uf))"

definition set_off :: "http_parser_url_fields \<Rightarrow> nat \<Rightarrow> http_parser_url \<Rightarrow> http_parser_url" where
  "set_off uf n u = u\<lparr>field_data := (field_data u)(uf := (field_data u uf)\<lparr>off := of_nat n\<rparr>)\<rparr>"

definition set_len :: "http_parser_url_fields \<Rightarrow> nat \<Rightarrow> http_parser_url \<Rightarrow> http_parser_url" where
  "set_len uf n u = u\<lparr>field_data := (field_data u)(uf := (field_data u uf)\<lparr>len := of_nat n\<rparr>)\<rparr>"

definition inc_len :: "http_parser_url_fields \<Rightarrow> http_parser_url \<Rightarrow> http_parser_url" where
  "inc_len uf u =
     u\<lparr>field_data := (field_data u)(uf := (field_data u uf)\<lparr>len := len (field_data u uf) + 1\<rparr>)\<rparr>"

definition set_field :: "http_parser_url_fields \<Rightarrow> http_parser_url \<Rightarrow> http_parser_url" where
  "set_field uf u = u\<lparr>field_set := field_set u OR uf_bit uf\<rparr>"

text \<open>One iteration of the loop of \<open>http_parse_host\<close>, after \<open>new_s\<close> was found not to be dead.\<close>

definition http_parse_host_step ::
    "http_host_state \<Rightarrow> http_host_state \<Rightarrow> nat \<Rightarrow> http_parser_url \<Rightarrow> http_parser_url" where
  "http_parse_host_step s new_s p u =
     (case new_s of
        s_http_host \<Rightarrow>
          inc_len UF_HOST (if s \<noteq> s_http_host then set_off UF_HOST p u else u)
      | s_http_host_v6 \<Rightarrow>
          inc_len UF_HOST (if s \<noteq> s_http_host_v6 then set_off UF_HOST p u else u)
      | s_http_host_v6_zone_start \<Rightarrow> inc_len UF_HOST u
      | s_http_host_v6_zone \<Rightarrow> inc_len UF_HOST u
      | s_http_host_port \<Rightarrow>
          inc_len UF_PORT (if s \<noteq> s_http_host_port
                           then set_field UF_PORT (set_len UF_PORT 0 (set_off UF_PORT p u)) else u)
      | s_http_userinfo \<Rightarrow>
          inc_len UF_USERINFO (if s \<noteq> s_http_userinfo
                           then set_field UF_USERINFO (set_len UF_USERINFO 0 (set_off UF_USERINFO p u))
                           else u)
      | _ \<Rightarrow> u)"

text \<open>The loop over the host text, starting at position \<open>p\<close>: a failure, or the last state.\<close>

fun http_parse_host_loop ::
    "string \<Rightarrow> nat \<Rightarrow> http_host_state \<Rightarrow> http_parser_url \<Rightarrow>
     http_parser_url + (http_host_state \<times> http_parser_url)" where
  "http_parse_host_loop [] p s u = Inr (s, u)"
| "http_parse_host_loop (c # cs) p s u =
     (let new_s = http_parse_host_char s c
      in if new_s = s_http_host_dead then Inl u
         else http_parse_host_loop cs (Suc p) new_s (http_parse_host_step s new_s p u))"

definition http_host_end_ok :: "http_host_state \<Rightarrow> bool" where
  "http_host_end_ok s \<longleftrightarrow>
     s \<notin> {s_http_host_start, s_http_host_v6_start, s_http_host_v6, s_http_host_v6_zone_start,
          s_http_host_v6_zone, s_http_host_port_start, s_http_userinfo, s_http_userinfo_start}"

definition http_parse_host ::
    "string \<Rightarrow> http_parser_url \<Rightarrow> bool \<Rightarrow> (nat \<times> http_parser_url) option" where
  "http_parse_host buf u found_at =
     (if \<not> has_flag (field_set u) (uf_bit UF_HOST) then None
      else
        let p0 = field_off u UF_HOST;
            n = field_len u UF_HOST;
            s0 = (if found_at then s_http_userinfo_start else s_http_host_start)
        in case http_parse_host_loop (take n (drop p0 buf)) p0 s0 (set_len UF_HOST 0 u) of
             Inl u' \<Rightarrow> Some (1, u')
           | Inr (s, u') \<Rightarrow> Some (if http_host_end_ok s then 0 else 1, u'))"

text \<open>
  What the switch of \<open>http_parser_parse_url\<close> makes of the state after a byte.
\<close>

datatype url_action = Url_Fail | Url_Skip | Url_Field http_parser_url_fields | Url_Assert

definition url_action_of :: "state \<Rightarrow> url_action" where
  "url_action_of s =
     (case s of
        s_dead \<Rightarrow> Url_Fail
      | s_req_schema_slash \<Rightarrow> Url_Skip
      | s_req_schema_slash_slash \<Rightarrow> Url_Skip
      | s_req_server_start \<Rightarrow> Url_Skip
      | s_req_query_string_start \<Rightarrow> Url_Skip
      | s_req_fragment_start \<Rightarrow> Url_Skip
      | s_req_schema \<Rightarrow> Url_Field UF_SCHEMA
      | s_req_server_with_at \<Rightarrow> Url_Field UF_HOST
      | s_req_server \<Rightarrow> Url_Field UF_HOST
      | s_req_path \<Rightarrow> Url_Field UF_PATH
      | s_req_query_string \<Rightarrow> Url_Field UF_QUERY
      | s_req_fragment \<Rightarrow> Url_Field UF_FRAGMENT
      | _ \<Rightarrow> Url_Assert)"

definition url_new_field :: "http_parser_url_fields \<Rightarrow> nat \<Rightarrow> http_parser_url \<Rightarrow> http_parser_url" where
  "url_new_field uf p u = set_field uf (set_len uf 1 (set_off uf p u))"

text \<open>
  The main loop over the text at position \<open>p\<close>: \<open>None\<close> is the assertion, \<open>Inl\<close> the
  \<open>return 1\<close>, \<open>Inr\<close> the end of the buffer.
\<close>

fun url_loop ::
    "string \<Rightarrow> nat \<Rightarrow> state \<Rightarrow> http_parser_url_fields \<Rightarrow> bool \<Rightarrow> http_parser_url \<Rightarrow>
     (http_parser_url + (bool \<times> http_parser_url)) option" where
  "url_loop [] p s old_uf found_at u = Some (Inr (found_at, u))"
| "url_loop (c # cs) p s old_uf found_at u =
     (let s' = parse_url_char s c
      in case url_action_of s' of
           Url_Fail \<Rightarrow> Some (Inl u)
         | Url_Skip \<Rightarrow> url_loop cs (Suc p) s' old_uf found_at u
         | Url_Assert \<Rightarrow> None
         | Url_Field uf \<Rightarrow>
             let found' = (found_at \<or> s' = s_req_server_with_at)
             in if uf = old_uf then url_loop cs (Suc p) s' old_uf found' (inc_len uf u)
                else url_loop cs (Suc p) s' uf found' (url_new_field uf p u))"

text \<open>
  The conversion of the port digits: \<open>unsigned long v\<close>, \<open>*p - '0'\<close> a signed \<open>int\<close>;
  \<open>None\<close> when the value passes 0xffff.
\<close>

fun port_loop :: "64 word \<Rightarrow> string \<Rightarrow> 64 word option" where
  "port_loop v [] = Some v"
| "port_loop v (c # cs) =
     (let v' = v * 10 + of_int (signed_char c - 48) in if v' > 0xffff then None else port_loop v' cs)"

definition url_port :: "string \<Rightarrow> http_parser_url \<Rightarrow> (nat \<times> http_parser_url) option" where
  "url_port buf u =
     (if has_flag (field_set u) (uf_bit UF_PORT) then
        let o' = field_off u UF_PORT; n = field_len u UF_PORT
        in if length buf < o' + n then None
           else case port_loop 0 (take n (drop o' buf)) of
                  None \<Rightarrow> Some (1, u)
                | Some v \<Rightarrow> Some (0, u\<lparr>port := ucast v\<rparr>)
      else Some (0, u))"

definition url_after_host ::
    "string \<Rightarrow> bool \<Rightarrow> http_parser_url \<Rightarrow> (nat \<times> http_parser_url) option" where
  "url_after_host buf is_connect u =
     (if is_connect \<and> field_set u \<noteq> uf_bit UF_HOST OR uf_bit UF_PORT then Some (1, u)
      else url_port buf u)"

definition http_parser_parse_url ::
    "string \<Rightarrow> bool \<Rightarrow> http_parser_url \<Rightarrow> (nat \<times> http_parser_url) option" where
  "http_parser_parse_url buf is_connect u0 =
     (let s = (if is_connect then s_req_server_start else s_req_spaces_before_url)
      in case url_loop buf 0 s UF_MAX False (u0\<lparr>port := 0, field_set := 0\<rparr>) of
           None \<Rightarrow> None
         | Some (Inl u) \<Rightarrow> Some (1, u)
         | Some (Inr (found_at, u)) \<Rightarrow>
             if has_flag (field_set u) (uf_bit UF_SCHEMA) \<and> \<not> has_flag (field_set u) (uf_bit UF_HOST)
             then Some (1, u)
             else if has_flag (field_set u) (uf_bit UF_HOST) then
               case http_parse_host buf u found_at of
                 None \<Rightarrow> None
               | Some (r, u') \<Rightarrow> if r \<noteq> 0 then Some (1, u') else url_after_host buf is_connect u'
             else url_after_host buf is_connect u)"

end
