(* ===== verification/Http_Exec.thy ===== *)
theory Http_Exec
  imports Http_Url "HOL-Library.While_Combinator"
begin

text \<open>
  \<open>http_parser_execute\<close> of \<open>src/lib/http_parser.c\<close>. The local variables of the C function
  are a record \<open>ctx\<close>; every \<open>case\<close> of its big switch is one definition \<open>st_...\<close> from \<open>ctx\<close>
  to a \<open>flow\<close>: leave the switch (\<open>Break\<close>), \<open>goto reexecute\<close>, \<open>goto error\<close>, return, or a
  failing assertion. The macros of the source are definitions of the same name; those that
  can return or jump take the code that follows them as their last argument. The loop over
  the bytes is \<open>while_option\<close> over \<open>exec_step\<close>: no bound on the number of reexecutions is
  built in, since a callback may write the parser's state.
\<close>

section \<open>Locals, control flow and the macros\<close>

datatype data_kind = D_header_field | D_header_value | D_url | D_body | D_status

datatype notify_kind =
  N_message_begin | N_message_complete | N_chunk_header | N_chunk_complete

record 'd ctx =
  psr :: "'d http_parser"
  p_state :: state
  pos :: nat
  ch :: char
  mark :: "data_kind \<Rightarrow> nat option"
  lenient :: bool

datatype 'd flow =
    Break "'d ctx"
  | Reexecute "'d ctx"
  | Goto_error "'d ctx"
  | Return nat "'d http_parser"
  | Abort

definition SET_ERRNO :: "http_errno \<Rightarrow> 'd ctx \<Rightarrow> 'd ctx" where
  "SET_ERRNO e c = c\<lparr>psr := (psr c)\<lparr>http_errno := e\<rparr>\<rparr>"

definition UPDATE_STATE :: "state \<Rightarrow> 'd ctx \<Rightarrow> 'd ctx" where
  "UPDATE_STATE s c = c\<lparr>p_state := s\<rparr>"

definition RETURN :: "nat \<Rightarrow> 'd ctx \<Rightarrow> 'd flow" where
  "RETURN n c = Return n ((psr c)\<lparr>state := p_state c\<rparr>)"

definition error_with :: "http_errno \<Rightarrow> 'd ctx \<Rightarrow> 'd flow" where
  "error_with e c = Goto_error (SET_ERRNO e c)"

definition STRICT_CHECK :: "bool \<Rightarrow> 'd ctx \<Rightarrow> ('d ctx \<Rightarrow> 'd flow) \<Rightarrow> 'd flow" where
  "STRICT_CHECK cond c k = (if cond then error_with HPE_STRICT c else k c)"

definition assert_that :: "bool \<Rightarrow> 'd flow \<Rightarrow> 'd flow" where
  "assert_that b f = (if b then f else Abort)"

definition COUNT_HEADER_SIZE :: "nat \<Rightarrow> 'd ctx \<Rightarrow> ('d ctx \<Rightarrow> 'd flow) \<Rightarrow> 'd flow" where
  "COUNT_HEADER_SIZE v c k =
     (let c' = c\<lparr>psr := (psr c)\<lparr>nread := nread (psr c) + of_nat v\<rparr>\<rparr>
      in if unat (nread (psr c')) > HTTP_MAX_HEADER_SIZE
         then error_with HPE_HEADER_OVERFLOW c' else k c')"

primrec notify_cb :: "'d http_parser_settings \<Rightarrow> notify_kind \<Rightarrow> 'd http_cb option" where
  "notify_cb S N_message_begin = on_message_begin S"
| "notify_cb S N_message_complete = on_message_complete S"
| "notify_cb S N_chunk_header = on_chunk_header S"
| "notify_cb S N_chunk_complete = on_chunk_complete S"

primrec notify_errno :: "notify_kind \<Rightarrow> http_errno" where
  "notify_errno N_message_begin = HPE_CB_message_begin"
| "notify_errno N_message_complete = HPE_CB_message_complete"
| "notify_errno N_chunk_header = HPE_CB_chunk_header"
| "notify_errno N_chunk_complete = HPE_CB_chunk_complete"

primrec data_cb :: "'d http_parser_settings \<Rightarrow> data_kind \<Rightarrow> 'd http_data_cb option" where
  "data_cb S D_header_field = on_header_field S"
| "data_cb S D_header_value = on_header_value S"
| "data_cb S D_url = on_url S"
| "data_cb S D_body = on_body S"
| "data_cb S D_status = on_status S"

primrec data_errno :: "data_kind \<Rightarrow> http_errno" where
  "data_errno D_header_field = HPE_CB_header_field"
| "data_errno D_header_value = HPE_CB_header_value"
| "data_errno D_url = HPE_CB_url"
| "data_errno D_body = HPE_CB_body"
| "data_errno D_status = HPE_CB_status"

text \<open>What follows the call of a callback that returned \<open>r\<close> and left the parser \<open>q\<close>.\<close>

definition after_callback ::
    "http_errno \<Rightarrow> nat \<Rightarrow> int \<times> 'd http_parser \<Rightarrow> 'd ctx \<Rightarrow> ('d ctx \<Rightarrow> 'd flow) \<Rightarrow> 'd flow" where
  "after_callback e er rq c k =
     (let q = (if fst rq \<noteq> 0 then (snd rq)\<lparr>http_errno := e\<rparr> else snd rq)
      in if http_errno q \<noteq> HPE_OK then Return er q else k (c\<lparr>psr := q, p_state := state q\<rparr>))"

definition CALLBACK_NOTIFY_ER ::
    "'d http_parser_settings \<Rightarrow> notify_kind \<Rightarrow> nat \<Rightarrow> 'd ctx \<Rightarrow> ('d ctx \<Rightarrow> 'd flow) \<Rightarrow> 'd flow" where
  "CALLBACK_NOTIFY_ER S kind er c k =
     assert_that (http_errno (psr c) = HPE_OK)
       (case notify_cb S kind of
          None \<Rightarrow> k c
        | Some cb \<Rightarrow> after_callback (notify_errno kind) er (cb ((psr c)\<lparr>state := p_state c\<rparr>)) c k)"

definition CALLBACK_NOTIFY ::
    "'d http_parser_settings \<Rightarrow> notify_kind \<Rightarrow> 'd ctx \<Rightarrow> ('d ctx \<Rightarrow> 'd flow) \<Rightarrow> 'd flow" where
  "CALLBACK_NOTIFY S kind c k = CALLBACK_NOTIFY_ER S kind (pos c + 1) c k"

definition CALLBACK_NOTIFY_NOADVANCE ::
    "'d http_parser_settings \<Rightarrow> notify_kind \<Rightarrow> 'd ctx \<Rightarrow> ('d ctx \<Rightarrow> 'd flow) \<Rightarrow> 'd flow" where
  "CALLBACK_NOTIFY_NOADVANCE S kind c k = CALLBACK_NOTIFY_ER S kind (pos c) c k"

definition clear_mark :: "data_kind \<Rightarrow> 'd ctx \<Rightarrow> 'd ctx" where
  "clear_mark kind c = c\<lparr>mark := (mark c)(kind := None)\<rparr>"

definition MARK :: "data_kind \<Rightarrow> 'd ctx \<Rightarrow> 'd ctx" where
  "MARK kind c = (if mark c kind = None then c\<lparr>mark := (mark c)(kind := Some (pos c))\<rparr> else c)"

text \<open>\<open>stop\<close> is the position after the last byte handed out: \<open>p\<close>, or \<open>p + 1\<close> for the body.\<close>

definition CALLBACK_DATA_ER ::
    "'d http_parser_settings \<Rightarrow> string \<Rightarrow> data_kind \<Rightarrow> nat \<Rightarrow> nat \<Rightarrow> 'd ctx \<Rightarrow>
     ('d ctx \<Rightarrow> 'd flow) \<Rightarrow> 'd flow" where
  "CALLBACK_DATA_ER S buf kind stop er c k =
     assert_that (http_errno (psr c) = HPE_OK)
       (case mark c kind of
          None \<Rightarrow> k c
        | Some m \<Rightarrow>
            (case data_cb S kind of
               None \<Rightarrow> k (clear_mark kind c)
             | Some cb \<Rightarrow>
                 after_callback (data_errno kind) er
                   (cb ((psr c)\<lparr>state := p_state c\<rparr>) (take (stop - m) (drop m buf))) c
                   (\<lambda>c'. k (clear_mark kind c'))))"

definition CALLBACK_DATA ::
    "'d http_parser_settings \<Rightarrow> string \<Rightarrow> data_kind \<Rightarrow> 'd ctx \<Rightarrow> ('d ctx \<Rightarrow> 'd flow) \<Rightarrow> 'd flow" where
  "CALLBACK_DATA S buf kind c k = CALLBACK_DATA_ER S buf kind (pos c) (pos c + 1) c k"

definition CALLBACK_DATA_NOADVANCE ::
    "'d http_parser_settings \<Rightarrow> string \<Rightarrow> data_kind \<Rightarrow> 'd ctx \<Rightarrow> ('d ctx \<Rightarrow> 'd flow) \<Rightarrow> 'd flow" where
  "CALLBACK_DATA_NOADVANCE S buf kind c k = CALLBACK_DATA_ER S buf kind (pos c) (pos c) c k"

section \<open>Between messages and the status line\<close>

definition st_dead :: "'d ctx \<Rightarrow> 'd flow" where
  "st_dead c = (if ch c = CR \<or> ch c = LF then Break c else error_with HPE_CLOSED_CONNECTION c)"

definition new_message_fields :: "'d ctx \<Rightarrow> 'd ctx" where
  "new_message_fields c = c\<lparr>psr := (psr c)\<lparr>flags := 0, content_length := ULLONG_MAX\<rparr>\<rparr>"

definition st_start_req_or_res :: "'d http_parser_settings \<Rightarrow> 'd ctx \<Rightarrow> 'd flow" where
  "st_start_req_or_res S c =
     (if ch c = CR \<or> ch c = LF then Break c
      else let c1 = new_message_fields c
           in if ch c = CHR ''H''
              then CALLBACK_NOTIFY S N_message_begin (UPDATE_STATE s_res_or_resp_H c1) Break
              else Reexecute (UPDATE_STATE s_start_req (c1\<lparr>psr := (psr c1)\<lparr>ptype := HTTP_REQUEST\<rparr>\<rparr>)))"

definition st_res_or_resp_H :: "'d ctx \<Rightarrow> 'd flow" where
  "st_res_or_resp_H c =
     (if ch c = CHR ''T''
      then Break (UPDATE_STATE s_res_HT (c\<lparr>psr := (psr c)\<lparr>ptype := HTTP_RESPONSE\<rparr>\<rparr>))
      else if ch c \<noteq> CHR ''E'' then error_with HPE_INVALID_CONSTANT c
      else Break (UPDATE_STATE s_req_method
             (c\<lparr>psr := (psr c)\<lparr>ptype := HTTP_REQUEST, req_method := HTTP_HEAD, index := 2\<rparr>\<rparr>)))"

text \<open>A CR or LF before the status line leaves the inner switch, and still notifies.\<close>

definition st_start_res :: "'d http_parser_settings \<Rightarrow> 'd ctx \<Rightarrow> 'd flow" where
  "st_start_res S c =
     (let c1 = new_message_fields c
      in if ch c = CHR ''H'' then CALLBACK_NOTIFY S N_message_begin (UPDATE_STATE s_res_H c1) Break
         else if ch c = CR \<or> ch c = LF then CALLBACK_NOTIFY S N_message_begin c1 Break
         else error_with HPE_INVALID_CONSTANT c1)"

text \<open>The states that expect one constant character, of a response or of a request.\<close>

definition st_expect :: "char \<Rightarrow> state \<Rightarrow> 'd ctx \<Rightarrow> 'd flow" where
  "st_expect x s c = STRICT_CHECK (ch c \<noteq> x) c (\<lambda>c. Break (UPDATE_STATE s c))"

definition st_http_major :: "state \<Rightarrow> 'd ctx \<Rightarrow> 'd flow" where
  "st_http_major s c =
     (if \<not> IS_NUM (ch c) then error_with HPE_INVALID_VERSION c
      else Break (UPDATE_STATE s (c\<lparr>psr := (psr c)\<lparr>http_major := of_nat (digit_value (ch c))\<rparr>\<rparr>)))"

definition st_http_dot :: "state \<Rightarrow> 'd ctx \<Rightarrow> 'd flow" where
  "st_http_dot s c =
     (if ch c \<noteq> CHR ''.'' then error_with HPE_INVALID_VERSION c else Break (UPDATE_STATE s c))"

definition st_http_minor :: "state \<Rightarrow> 'd ctx \<Rightarrow> 'd flow" where
  "st_http_minor s c =
     (if \<not> IS_NUM (ch c) then error_with HPE_INVALID_VERSION c
      else Break (UPDATE_STATE s (c\<lparr>psr := (psr c)\<lparr>http_minor := of_nat (digit_value (ch c))\<rparr>\<rparr>)))"

definition st_res_http_end :: "'d ctx \<Rightarrow> 'd flow" where
  "st_res_http_end c =
     (if ch c \<noteq> CHR '' '' then error_with HPE_INVALID_VERSION c
      else Break (UPDATE_STATE s_res_first_status_code c))"

definition st_res_first_status_code :: "'d ctx \<Rightarrow> 'd flow" where
  "st_res_first_status_code c =
     (if \<not> IS_NUM (ch c) then (if ch c = CHR '' '' then Break c else error_with HPE_INVALID_STATUS c)
      else Break (UPDATE_STATE s_res_status_code
             (c\<lparr>psr := (psr c)\<lparr>status_code := of_nat (digit_value (ch c))\<rparr>\<rparr>)))"

definition st_res_status_code :: "'d ctx \<Rightarrow> 'd flow" where
  "st_res_status_code c =
     (if \<not> IS_NUM (ch c) then
        (if ch c = CHR '' '' then Break (UPDATE_STATE s_res_status_start c)
         else if ch c = CR \<or> ch c = LF then Reexecute (UPDATE_STATE s_res_status_start c)
         else error_with HPE_INVALID_STATUS c)
      else
        let c1 = c\<lparr>psr := (psr c)\<lparr>status_code :=
                     status_code (psr c) * 10 + of_nat (digit_value (ch c))\<rparr>\<rparr>
        in if status_code (psr c1) > 999 then error_with HPE_INVALID_STATUS c1 else Break c1)"

definition st_res_status_start :: "'d ctx \<Rightarrow> 'd flow" where
  "st_res_status_start c =
     (let c1 = UPDATE_STATE s_res_status (MARK D_status c);
          c2 = c1\<lparr>psr := (psr c1)\<lparr>index := 0\<rparr>\<rparr>
      in if ch c = CR \<or> ch c = LF then Reexecute c2 else Break c2)"

definition st_res_status :: "'d http_parser_settings \<Rightarrow> string \<Rightarrow> 'd ctx \<Rightarrow> 'd flow" where
  "st_res_status S buf c =
     (if ch c = CR then CALLBACK_DATA S buf D_status (UPDATE_STATE s_res_line_almost_done c) Break
      else if ch c = LF then CALLBACK_DATA S buf D_status (UPDATE_STATE s_header_field_start c) Break
      else Break c)"

section \<open>Request line\<close>

text \<open>The method a first letter stands for, before later letters refine it.\<close>

definition first_method :: "char \<Rightarrow> http_method option" where
  "first_method x =
     (if x = CHR ''A'' then Some HTTP_ACL else if x = CHR ''B'' then Some HTTP_BIND
      else if x = CHR ''C'' then Some HTTP_CONNECT else if x = CHR ''D'' then Some HTTP_DELETE
      else if x = CHR ''G'' then Some HTTP_GET else if x = CHR ''H'' then Some HTTP_HEAD
      else if x = CHR ''L'' then Some HTTP_LOCK else if x = CHR ''M'' then Some HTTP_MKCOL
      else if x = CHR ''N'' then Some HTTP_NOTIFY else if x = CHR ''O'' then Some HTTP_OPTIONS
      else if x = CHR ''P'' then Some HTTP_POST else if x = CHR ''R'' then Some HTTP_REPORT
      else if x = CHR ''S'' then Some HTTP_SUBSCRIBE else if x = CHR ''T'' then Some HTTP_TRACE
      else if x = CHR ''U'' then Some HTTP_UNLOCK else None)"

definition st_start_req :: "'d http_parser_settings \<Rightarrow> 'd ctx \<Rightarrow> 'd flow" where
  "st_start_req S c =
     (if ch c = CR \<or> ch c = LF then Break c
      else
        let c1 = new_message_fields c
        in if \<not> IS_ALPHA (ch c) then error_with HPE_INVALID_METHOD c1
           else
             let c2 = c1\<lparr>psr := (psr c1)\<lparr>req_method := HTTP_DELETE, index := 1\<rparr>\<rparr>
             in case first_method (ch c) of
                  None \<Rightarrow> error_with HPE_INVALID_METHOD c2
                | Some m \<Rightarrow>
                    CALLBACK_NOTIFY S N_message_begin
                      (UPDATE_STATE s_req_method (c2\<lparr>psr := (psr c2)\<lparr>req_method := m\<rparr>\<rparr>)) Break)"

text \<open>
  The inner switch on \<open>method << 16 | index << 8 | ch\<close>, whose three parts do not overlap,
  as a table of (method, index, character) and the new method.
\<close>

definition method_branches :: "((http_method \<times> nat \<times> char) \<times> http_method) list" where
  "method_branches =
     [((HTTP_POST, 1, CHR ''U''), HTTP_PUT),
      ((HTTP_POST, 1, CHR ''A''), HTTP_PATCH),
      ((HTTP_POST, 1, CHR ''R''), HTTP_PROPFIND),
      ((HTTP_PUT, 2, CHR ''R''), HTTP_PURGE),
      ((HTTP_CONNECT, 1, CHR ''H''), HTTP_CHECKOUT),
      ((HTTP_CONNECT, 2, CHR ''P''), HTTP_COPY),
      ((HTTP_MKCOL, 1, CHR ''O''), HTTP_MOVE),
      ((HTTP_MKCOL, 1, CHR ''E''), HTTP_MERGE),
      ((HTTP_MKCOL, 1, CHR ''-''), HTTP_MSEARCH),
      ((HTTP_MKCOL, 2, CHR ''A''), HTTP_MKACTIVITY),
      ((HTTP_MKCOL, 3, CHR ''A''), HTTP_MKCALENDAR),
      ((HTTP_SUBSCRIBE, 1, CHR ''E''), HTTP_SEARCH),
      ((HTTP_SUBSCRIBE, 1, CHR ''O''), HTTP_SOURCE),
      ((HTTP_REPORT, 2, CHR ''B''), HTTP_REBIND),
      ((HTTP_PROPFIND, 4, CHR ''P''), HTTP_PROPPATCH),
      ((HTTP_LOCK, 1, CHR ''I''), HTTP_LINK),
      ((HTTP_UNLOCK, 2, CHR ''S''), HTTP_UNSUBSCRIBE),
      ((HTTP_UNLOCK, 2, CHR ''B''), HTTP_UNBIND),
      ((HTTP_UNLOCK, 3, CHR ''I''), HTTP_UNLINK)]"

text \<open>
  Reading \<open>matcher[parser->index]\<close> past the terminating NUL would be undefined: it is
  \<open>Abort\<close> here, and shown not to happen.
\<close>

definition st_req_method :: "'d ctx \<Rightarrow> 'd flow" where
  "st_req_method c =
     (if ch c = NUL then error_with HPE_INVALID_METHOD c
      else
        let m = req_method (psr c);
            i = unat (index (psr c));
            advance = (\<lambda>c. Break (c\<lparr>psr := (psr c)\<lparr>index := index (psr c) + 1\<rparr>\<rparr>))
        in case c_string_at (method_string m) i of
             None \<Rightarrow> Abort
           | Some x \<Rightarrow>
               if ch c = CHR '' '' \<and> x = NUL then advance (UPDATE_STATE s_req_spaces_before_url c)
               else if ch c = x then advance c
               else if (CHR ''A'' \<le> ch c \<and> ch c \<le> CHR ''Z'') \<or> ch c = CHR ''-'' then
                 (case map_of method_branches (m, i, ch c) of
                    None \<Rightarrow> error_with HPE_INVALID_METHOD c
                  | Some m' \<Rightarrow> advance (c\<lparr>psr := (psr c)\<lparr>req_method := m'\<rparr>\<rparr>))
               else error_with HPE_INVALID_METHOD c)"

definition url_transition :: "'d ctx \<Rightarrow> 'd flow" where
  "url_transition c =
     (let c1 = UPDATE_STATE (parse_url_char (p_state c) (ch c)) c
      in if p_state c1 = s_dead then error_with HPE_INVALID_URL c1 else Break c1)"

definition st_req_spaces_before_url :: "'d ctx \<Rightarrow> 'd flow" where
  "st_req_spaces_before_url c =
     (if ch c = CHR '' '' then Break c
      else
        let c1 = MARK D_url c;
            c2 = (if req_method (psr c1) = HTTP_CONNECT then UPDATE_STATE s_req_server_start c1 else c1)
        in url_transition c2)"

definition st_req_schema :: "'d ctx \<Rightarrow> 'd flow" where
  "st_req_schema c =
     (if ch c = CHR '' '' \<or> ch c = CR \<or> ch c = LF then error_with HPE_INVALID_URL c
      else url_transition c)"

definition st_req_url :: "'d http_parser_settings \<Rightarrow> string \<Rightarrow> 'd ctx \<Rightarrow> 'd flow" where
  "st_req_url S buf c =
     (if ch c = CHR '' '' then CALLBACK_DATA S buf D_url (UPDATE_STATE s_req_http_start c) Break
      else if ch c = CR \<or> ch c = LF then
        let c1 = c\<lparr>psr := (psr c)\<lparr>http_major := 0, http_minor := 9\<rparr>\<rparr>
        in CALLBACK_DATA S buf D_url
             (UPDATE_STATE (if ch c = CR then s_req_line_almost_done else s_header_field_start) c1) Break
      else url_transition c)"

definition st_req_http_start :: "'d ctx \<Rightarrow> 'd flow" where
  "st_req_http_start c =
     (if ch c = CHR ''H'' then Break (UPDATE_STATE s_req_http_H c)
      else if ch c = CHR '' '' then Break c
      else error_with HPE_INVALID_CONSTANT c)"

definition st_req_http_end :: "'d ctx \<Rightarrow> 'd flow" where
  "st_req_http_end c =
     (if ch c = CR then Break (UPDATE_STATE s_req_line_almost_done c)
      else if ch c = LF then Break (UPDATE_STATE s_header_field_start c)
      else error_with HPE_INVALID_VERSION c)"

definition st_req_line_almost_done :: "'d ctx \<Rightarrow> 'd flow" where
  "st_req_line_almost_done c =
     (if ch c \<noteq> LF then error_with HPE_LF_EXPECTED c
      else Break (UPDATE_STATE s_header_field_start c))"

section \<open>Header fields\<close>

definition st_header_field_start :: "'d ctx \<Rightarrow> 'd flow" where
  "st_header_field_start c =
     (if ch c = CR then Break (UPDATE_STATE s_headers_almost_done c)
      else if ch c = LF then Reexecute (UPDATE_STATE s_headers_almost_done c)
      else
        let t = TOKEN (ch c)
        in if t = NUL then error_with HPE_INVALID_HEADER_TOKEN c
           else
             let c1 = UPDATE_STATE s_header_field (MARK D_header_field c);
                 h = (if t = CHR ''c'' then h_C
                      else if t = CHR ''p'' then h_matching_proxy_connection
                      else if t = CHR ''t'' then h_matching_transfer_encoding
                      else if t = CHR ''u'' then h_matching_upgrade
                      else h_general)
             in Break (c1\<lparr>psr := (psr c1)\<lparr>index := 0, header_state := h\<rparr>\<rparr>))"

text \<open>
  The test \<open>index > sizeof(S)-1 || c != S[index]\<close>, else \<open>index == sizeof(S)-2\<close>, that all
  keyword matchers share, for the index after its increment.
\<close>

datatype match_result = Match_Fail | Match_Done | Match_More

definition match_keyword :: "string \<Rightarrow> nat \<Rightarrow> char \<Rightarrow> match_result" where
  "match_keyword s i x =
     (if i > length s \<or> c_string_at s i \<noteq> Some x then Match_Fail
      else if i = length s - 1 then Match_Done else Match_More)"

definition match_next ::
    "string \<Rightarrow> header_states \<Rightarrow> header_states \<Rightarrow> header_states \<Rightarrow> nat \<Rightarrow> char \<Rightarrow> header_states" where
  "match_next s failed undecided matched i x =
     (case match_keyword s i x of
        Match_Fail \<Rightarrow> failed | Match_More \<Rightarrow> undecided | Match_Done \<Rightarrow> matched)"

definition CONNECTION :: string where "CONNECTION = ''connection''"
definition PROXY_CONNECTION :: string where "PROXY_CONNECTION = ''proxy-connection''"
definition CONTENT_LENGTH :: string where "CONTENT_LENGTH = ''content-length''"
definition TRANSFER_ENCODING :: string where "TRANSFER_ENCODING = ''transfer-encoding''"
definition UPGRADE :: string where "UPGRADE = ''upgrade''"
definition CHUNKED :: string where "CHUNKED = ''chunked''"
definition KEEP_ALIVE :: string where "KEEP_ALIVE = ''keep-alive''"
definition CLOSE :: string where "CLOSE = ''close''"

lemmas keyword_defs = CONNECTION_def PROXY_CONNECTION_def CONTENT_LENGTH_def TRANSFER_ENCODING_def
  UPGRADE_def CHUNKED_def KEEP_ALIVE_def CLOSE_def

definition set_header :: "header_states \<Rightarrow> 'd http_parser \<Rightarrow> 'd http_parser" where
  "set_header h q = q\<lparr>header_state := h\<rparr>"

text \<open>
  One byte of a header name, \<open>t\<close> its token: the switch of \<open>s_header_field\<close>; \<open>None\<close> is the
  assertion of its default case.
\<close>

definition header_field_byte :: "char \<Rightarrow> char \<Rightarrow> 'd http_parser \<Rightarrow> 'd http_parser option" where
  "header_field_byte t x q =
     (let q1 = q\<lparr>index := index q + 1\<rparr>;
          i1 = unat (index q1);
          matching = (\<lambda>s h m. Some (set_header (match_next s h_general h m i1 t) q1))
      in case header_state q of
        h_general \<Rightarrow> Some q
      | h_C \<Rightarrow> Some (set_header (if t = CHR ''o'' then h_CO else h_general) q1)
      | h_CO \<Rightarrow> Some (set_header (if t = CHR ''n'' then h_CON else h_general) q1)
      | h_CON \<Rightarrow> Some (set_header (if t = CHR ''n'' then h_matching_connection
                                  else if t = CHR ''t'' then h_matching_content_length
                                  else h_general) q1)
      | h_matching_connection \<Rightarrow> matching CONNECTION h_matching_connection h_connection
      | h_matching_proxy_connection \<Rightarrow>
          matching PROXY_CONNECTION h_matching_proxy_connection h_connection
      | h_matching_content_length \<Rightarrow>
          matching CONTENT_LENGTH h_matching_content_length h_content_length
      | h_matching_transfer_encoding \<Rightarrow>
          matching TRANSFER_ENCODING h_matching_transfer_encoding h_transfer_encoding
      | h_matching_upgrade \<Rightarrow> matching UPGRADE h_matching_upgrade h_upgrade
      | h_connection \<Rightarrow> Some (if x \<noteq> CHR '' '' then set_header h_general q else q)
      | h_content_length \<Rightarrow> Some (if x \<noteq> CHR '' '' then set_header h_general q else q)
      | h_transfer_encoding \<Rightarrow> Some (if x \<noteq> CHR '' '' then set_header h_general q else q)
      | h_upgrade \<Rightarrow> Some (if x \<noteq> CHR '' '' then set_header h_general q else q)
      | _ \<Rightarrow> None)"

function header_field_loop :: "string \<Rightarrow> 'd ctx \<Rightarrow> 'd ctx option" where
  "header_field_loop buf c =
     (if length buf \<le> pos c then Some c
      else
        let c1 = c\<lparr>ch := buf ! pos c\<rparr>; t = TOKEN (ch c1)
        in if t = NUL then Some c1
           else case header_field_byte t (ch c1) (psr c1) of
                  None \<Rightarrow> None
                | Some q \<Rightarrow> header_field_loop buf (c1\<lparr>psr := q, pos := Suc (pos c1)\<rparr>))"
  by pat_completeness auto
termination
  by (relation "measure (\<lambda>(buf, c). length buf - pos c)") auto

declare header_field_loop.simps [simp del]

definition st_header_field :: "'d http_parser_settings \<Rightarrow> string \<Rightarrow> 'd ctx \<Rightarrow> 'd flow" where
  "st_header_field S buf c =
     (case header_field_loop buf c of
        None \<Rightarrow> Abort
      | Some c1 \<Rightarrow>
          COUNT_HEADER_SIZE (pos c1 - pos c) c1 (\<lambda>c2.
            if pos c2 = length buf then Break (c2\<lparr>pos := pos c2 - 1\<rparr>)
            else if ch c2 = CHR '':''
            then CALLBACK_DATA S buf D_header_field (UPDATE_STATE s_header_value_discard_ws c2) Break
            else error_with HPE_INVALID_HEADER_TOKEN c2))"

section \<open>Header values\<close>

definition add_flag :: "8 word \<Rightarrow> 'd http_parser \<Rightarrow> 'd http_parser" where
  "add_flag f q = q\<lparr>flags := flags q OR f\<rparr>"

definition st_header_value_start :: "'d ctx \<Rightarrow> 'd flow" where
  "st_header_value_start c =
     (let c0 = UPDATE_STATE s_header_value (MARK D_header_value c);
          c1 = c0\<lparr>psr := (psr c0)\<lparr>index := 0\<rparr>\<rparr>;
          q = psr c1;
          l = LOWER (ch c);
          go = (\<lambda>q. Break (c1\<lparr>psr := q\<rparr>))
      in case header_state q of
        h_upgrade \<Rightarrow> go (set_header h_general (add_flag F_UPGRADE q))
      | h_transfer_encoding \<Rightarrow>
          go (set_header (if l = CHR ''c'' then h_matching_transfer_encoding_chunked else h_general) q)
      | h_content_length \<Rightarrow>
          (if \<not> IS_NUM (ch c) then error_with HPE_INVALID_CONTENT_LENGTH c1
           else if has_flag (flags q) F_CONTENTLENGTH then error_with HPE_UNEXPECTED_CONTENT_LENGTH c1
           else go (set_header h_content_length_num
                  ((add_flag F_CONTENTLENGTH q)\<lparr>content_length := of_nat (digit_value (ch c))\<rparr>)))
      | h_connection \<Rightarrow>
          go (set_header (if l = CHR ''k'' then h_matching_connection_keep_alive
                          else if l = CHR ''c'' then h_matching_connection_close
                          else if l = CHR ''u'' then h_matching_connection_upgrade
                          else h_matching_connection_token) q)
      | h_matching_connection_token_start \<Rightarrow> go q
      | _ \<Rightarrow> go (set_header h_general q))"

definition st_header_value_discard_ws :: "'d ctx \<Rightarrow> 'd flow" where
  "st_header_value_discard_ws c =
     (if ch c = CHR '' '' \<or> ch c = TAB then Break c
      else if ch c = CR then Break (UPDATE_STATE s_header_value_discard_ws_almost_done c)
      else if ch c = LF then Break (UPDATE_STATE s_header_value_discard_lws c)
      else st_header_value_start c)"

text \<open>
  The jump of the \<open>h_general\<close> case to the next CR or LF, as the value of \<open>p\<close> before the
  \<open>--p\<close> that the increment of the loop undoes.
\<close>

definition general_skip :: "string \<Rightarrow> nat \<Rightarrow> nat" where
  "general_skip buf i =
     (let limit = min (length buf - i) HTTP_MAX_HEADER_SIZE
      in case memchr buf i CR limit of
           Some p_cr \<Rightarrow>
             (case memchr buf i LF limit of
                Some p_lf \<Rightarrow> if p_cr \<ge> p_lf then p_lf else p_cr
              | None \<Rightarrow> p_cr)
         | None \<Rightarrow>
             (case memchr buf i LF limit of
                Some p_lf \<Rightarrow> p_lf
              | None \<Rightarrow> length buf))"

text \<open>The digits of a Content-Length value.\<close>

definition content_length_byte ::
    "'d ctx \<Rightarrow> header_states \<Rightarrow> 'd flow + ('d ctx \<times> header_states)" where
  "content_length_byte c h =
     (if ch c = CHR '' '' then Inr (c, h_content_length_ws)
      else
        let failed = error_with HPE_INVALID_CONTENT_LENGTH (c\<lparr>psr := set_header h (psr c)\<rparr>);
            t = content_length (psr c) * 10 + of_nat (digit_value (ch c))
        in if \<not> IS_NUM (ch c) then Inl failed
           else if (ULLONG_MAX - 10) div 10 < content_length (psr c) then Inl failed
           else Inr (c\<lparr>psr := (psr c)\<lparr>content_length := t\<rparr>\<rparr>, h))"

definition connection_token_start :: "char \<Rightarrow> header_states" where
  "connection_token_start l =
     (if l = CHR ''k'' then h_matching_connection_keep_alive
      else if l = CHR ''c'' then h_matching_connection_close
      else if l = CHR ''u'' then h_matching_connection_upgrade
      else if STRICT_TOKEN l \<noteq> NUL then h_matching_connection_token
      else if l = CHR '' '' \<or> l = TAB then h_matching_connection_token_start
      else h_general)"

definition connection_flag :: "header_states \<Rightarrow> 8 word" where
  "connection_flag h =
     (case h of
        h_connection_keep_alive \<Rightarrow> F_CONNECTION_KEEP_ALIVE
      | h_connection_close \<Rightarrow> F_CONNECTION_CLOSE
      | h_connection_upgrade \<Rightarrow> F_CONNECTION_UPGRADE
      | _ \<Rightarrow> 0)"

text \<open>
  The switch on \<open>h_state\<close> for one byte of a value that is neither CR nor LF: an error, a
  failing assertion, or the locals and \<open>h_state\<close> with which the loop goes on.
\<close>

definition header_value_byte ::
    "string \<Rightarrow> 'd ctx \<Rightarrow> header_states \<Rightarrow> 'd flow + ('d ctx \<times> header_states)" where
  "header_value_byte buf c h =
     (let l = LOWER (ch c);
          q1 = (psr c)\<lparr>index := index (psr c) + 1\<rparr>;
          matching = (\<lambda>s failed m.
            Inr (c\<lparr>psr := q1\<rparr>, match_next s failed h m (unat (index q1)) l))
      in case h of
        h_general \<Rightarrow> Inr (c\<lparr>pos := general_skip buf (pos c) - 1\<rparr>, h)
      | h_connection \<Rightarrow> Inl Abort
      | h_transfer_encoding \<Rightarrow> Inl Abort
      | h_content_length \<Rightarrow>
          (if ch c = CHR '' '' then Inr (c, h) else content_length_byte c h_content_length_num)
      | h_content_length_num \<Rightarrow> content_length_byte c h
      | h_content_length_ws \<Rightarrow>
          (if ch c = CHR '' '' then Inr (c, h)
           else Inl (error_with HPE_INVALID_CONTENT_LENGTH (c\<lparr>psr := set_header h (psr c)\<rparr>)))
      | h_matching_transfer_encoding_chunked \<Rightarrow> matching CHUNKED h_general h_transfer_encoding_chunked
      | h_matching_connection_token_start \<Rightarrow> Inr (c, connection_token_start l)
      | h_matching_connection_keep_alive \<Rightarrow>
          matching KEEP_ALIVE h_matching_connection_token h_connection_keep_alive
      | h_matching_connection_close \<Rightarrow> matching CLOSE h_matching_connection_token h_connection_close
      | h_matching_connection_upgrade \<Rightarrow>
          matching UPGRADE h_matching_connection_token h_connection_upgrade
      | h_matching_connection_token \<Rightarrow>
          (if ch c = CHR '',''
           then Inr (c\<lparr>psr := (psr c)\<lparr>index := 0\<rparr>\<rparr>, h_matching_connection_token_start) else Inr (c, h))
      | h_transfer_encoding_chunked \<Rightarrow> Inr (c, if ch c \<noteq> CHR '' '' then h_general else h)
      | _ \<Rightarrow>
          (if h \<in> {h_connection_keep_alive, h_connection_close, h_connection_upgrade} then
             if ch c = CHR '','' then
               Inr (c\<lparr>psr := (add_flag (connection_flag h) (psr c))\<lparr>index := 0\<rparr>\<rparr>,
                    h_matching_connection_token_start)
             else Inr (c, if ch c \<noteq> CHR '' '' then h_matching_connection_token else h)
           else Inr (UPDATE_STATE s_header_value c, h_general)))"

text \<open>The code after the inner loop of \<open>s_header_value\<close>.\<close>

definition header_value_end :: "string \<Rightarrow> nat \<Rightarrow> 'd ctx \<Rightarrow> header_states \<Rightarrow> 'd flow" where
  "header_value_end buf start c h =
     COUNT_HEADER_SIZE (pos c - start) (c\<lparr>psr := set_header h (psr c)\<rparr>) (\<lambda>c2.
       Break (if pos c2 = length buf then c2\<lparr>pos := pos c2 - 1\<rparr> else c2))"

lemma general_skip_gt:
  assumes "i < length buf" "buf ! i \<noteq> CR" "buf ! i \<noteq> LF"
  shows "i < general_skip buf i" "general_skip buf i \<le> length buf"
proof -
  have *: "i < k \<and> k < length buf"
    if "memchr buf i x (min (length buf - i) HTTP_MAX_HEADER_SIZE) = Some k" "x = CR \<or> x = LF" for x k
    using memchr_SomeD [OF that(1)] that(2) assms by (cases "k = i") auto
  show "i < general_skip buf i" "general_skip buf i \<le> length buf"
    using assms(1) by (auto simp: general_skip_def Let_def less_imp_le split: option.splits dest!: *)
qed

lemma content_length_byte_pos:
  "content_length_byte c h = Inr (c', h') \<Longrightarrow> pos c' = pos c"
  by (auto simp: content_length_byte_def Let_def split: if_splits)

lemma header_value_byte_pos:
  assumes "header_value_byte buf c h = Inr (c', h')"
    and "pos c < length buf" "ch c = buf ! pos c" "ch c \<noteq> CR" "ch c \<noteq> LF"
  shows "pos c \<le> pos c'" "pos c' < length buf"
proof -
  have "pos c' = pos c \<or> pos c' = general_skip buf (pos c) - 1"
    using assms(1)
    by (auto simp: header_value_byte_def Let_def UPDATE_STATE_def content_length_byte_pos
        split: header_states.splits if_splits)
  with general_skip_gt [of "pos c" buf] assms show "pos c \<le> pos c'" "pos c' < length buf"
    by auto
qed

text \<open>
  The inner loop over the bytes of a value, from \<open>pos c\<close>, with \<open>start\<close> the position at which
  the state was entered and \<open>h\<close> the local \<open>h_state\<close>.
\<close>

function header_value_loop ::
    "'d http_parser_settings \<Rightarrow> string \<Rightarrow> nat \<Rightarrow> 'd ctx \<Rightarrow> header_states \<Rightarrow> 'd flow" where
  "header_value_loop S buf start c h =
     (if length buf \<le> pos c then header_value_end buf start c h
      else
        let c1 = c\<lparr>ch := buf ! pos c\<rparr>
        in if ch c1 = CR then
             (let c2 = UPDATE_STATE s_header_almost_done c1
              in CALLBACK_DATA S buf D_header_value (c2\<lparr>psr := set_header h (psr c2)\<rparr>)
                   (\<lambda>c3. header_value_end buf start c3 h))
           else if ch c1 = LF then
             COUNT_HEADER_SIZE (pos c1 - start) (UPDATE_STATE s_header_almost_done c1) (\<lambda>c2.
               CALLBACK_DATA_NOADVANCE S buf D_header_value (c2\<lparr>psr := set_header h (psr c2)\<rparr>)
                 Reexecute)
           else if \<not> lenient c1 \<and> \<not> IS_HEADER_CHAR (ch c1) then
             error_with HPE_INVALID_HEADER_TOKEN c1
           else
             case header_value_byte buf c1 h of
               Inl f \<Rightarrow> f
             | Inr (c2, h2) \<Rightarrow> header_value_loop S buf start (c2\<lparr>pos := Suc (pos c2)\<rparr>) h2)"
  by pat_completeness auto
termination
proof (relation "measure (\<lambda>(S, buf, start, c, h). length buf - pos c)", goal_cases)
  case 1
  show ?case by simp
next
  case (2 S buf start c h c1 r c2 h2)
  then have "pos c1 \<le> pos c2" "pos c2 < length buf"
    using header_value_byte_pos [of buf c1 h c2 h2] by auto
  with 2 show ?case by auto
qed

declare header_value_loop.simps [simp del]

definition st_header_value :: "'d http_parser_settings \<Rightarrow> string \<Rightarrow> 'd ctx \<Rightarrow> 'd flow" where
  "st_header_value S buf c = header_value_loop S buf (pos c) c (header_state (psr c))"

definition st_header_almost_done :: "'d ctx \<Rightarrow> 'd flow" where
  "st_header_almost_done c =
     (if ch c \<noteq> LF then error_with HPE_LF_EXPECTED c
      else Break (UPDATE_STATE s_header_value_lws c))"

text \<open>The flag a finished header sets, in \<open>s_header_value_lws\<close> and \<open>s_header_value_discard_lws\<close>.\<close>

definition finish_header :: "'d http_parser \<Rightarrow> 'd http_parser" where
  "finish_header q =
     (case header_state q of
        h_connection_keep_alive \<Rightarrow> add_flag F_CONNECTION_KEEP_ALIVE q
      | h_connection_close \<Rightarrow> add_flag F_CONNECTION_CLOSE q
      | h_transfer_encoding_chunked \<Rightarrow> add_flag F_CHUNKED q
      | h_connection_upgrade \<Rightarrow> add_flag F_CONNECTION_UPGRADE q
      | _ \<Rightarrow> q)"

definition st_header_value_lws :: "'d ctx \<Rightarrow> 'd flow" where
  "st_header_value_lws c =
     (if ch c = CHR '' '' \<or> ch c = TAB then Reexecute (UPDATE_STATE s_header_value_start c)
      else Reexecute (UPDATE_STATE s_header_field_start (c\<lparr>psr := finish_header (psr c)\<rparr>)))"

definition st_header_value_discard_ws_almost_done :: "'d ctx \<Rightarrow> 'd flow" where
  "st_header_value_discard_ws_almost_done c =
     STRICT_CHECK (ch c \<noteq> LF) c (\<lambda>c. Break (UPDATE_STATE s_header_value_discard_lws c))"

definition st_header_value_discard_lws ::
    "'d http_parser_settings \<Rightarrow> string \<Rightarrow> 'd ctx \<Rightarrow> 'd flow" where
  "st_header_value_discard_lws S buf c =
     (if ch c = CHR '' '' \<or> ch c = TAB then Break (UPDATE_STATE s_header_value_discard_ws c)
      else CALLBACK_DATA_NOADVANCE S buf D_header_value
             (UPDATE_STATE s_header_field_start
               (MARK D_header_value (c\<lparr>psr := finish_header (psr c)\<rparr>))) Reexecute)"

section \<open>End of the headers\<close>

definition message_upgrade :: "'d http_parser \<Rightarrow> bool" where
  "message_upgrade q =
     (if has_flag (flags q) F_UPGRADE \<and> has_flag (flags q) F_CONNECTION_UPGRADE
      then ptype q = HTTP_REQUEST \<or> status_code q = 101
      else req_method q = HTTP_CONNECT)"

text \<open>
  The call of \<open>on_headers_complete\<close>, whose result is 0, 1 (no body), 2 (no body, and the
  connection is upgraded) or a failure. Unlike the other callbacks it does not see the
  current state in \<open>parser->state\<close>.
\<close>

definition after_headers_complete :: "int \<times> 'd http_parser \<Rightarrow> 'd ctx \<Rightarrow> 'd flow" where
  "after_headers_complete rq c =
     (let r = fst rq; q = snd rq;
          continue_with = (\<lambda>q. if http_errno q \<noteq> HPE_OK then RETURN (pos c) (c\<lparr>psr := q\<rparr>)
                              else Reexecute (c\<lparr>psr := q\<rparr>))
      in if r = 0 then continue_with q
         else if r = 2 then continue_with (add_flag F_SKIPBODY (q\<lparr>upgrade := True\<rparr>))
         else if r = 1 then continue_with (add_flag F_SKIPBODY q)
         else RETURN (pos c) (SET_ERRNO HPE_CB_headers_complete (c\<lparr>psr := q\<rparr>)))"

definition call_headers_complete ::
    "'d http_parser_settings \<Rightarrow> 'd http_parser \<Rightarrow> int \<times> 'd http_parser" where
  "call_headers_complete S q = (case on_headers_complete S of Some cb \<Rightarrow> cb q | None \<Rightarrow> (0, q))"

definition st_headers_almost_done :: "'d http_parser_settings \<Rightarrow> 'd ctx \<Rightarrow> 'd flow" where
  "st_headers_almost_done S c =
     STRICT_CHECK (ch c \<noteq> LF) c (\<lambda>c.
       if has_flag (flags (psr c)) F_TRAILING then
         CALLBACK_NOTIFY_NOADVANCE S N_chunk_complete (UPDATE_STATE s_message_done c) Reexecute
       else if has_flag (flags (psr c)) F_CHUNKED \<and> has_flag (flags (psr c)) F_CONTENTLENGTH then
         error_with HPE_UNEXPECTED_CONTENT_LENGTH c
       else
         let c1 = UPDATE_STATE s_headers_done c;
             c2 = c1\<lparr>psr := (psr c1)\<lparr>upgrade := message_upgrade (psr c1)\<rparr>\<rparr>
         in after_headers_complete (call_headers_complete S (psr c2)) c2)"

definition st_headers_done :: "'d http_parser_settings \<Rightarrow> 'd ctx \<Rightarrow> 'd flow" where
  "st_headers_done S c =
     STRICT_CHECK (ch c \<noteq> LF) c (\<lambda>c.
       let c = c\<lparr>psr := (psr c)\<lparr>nread := 0\<rparr>\<rparr>;
           q = psr c;
           has_body = has_flag (flags q) F_CHUNKED \<or>
             (content_length q > 0 \<and> content_length q \<noteq> ULLONG_MAX);
           finish = CALLBACK_NOTIFY S N_message_complete (UPDATE_STATE (NEW_MESSAGE q) c)
       in if upgrade q \<and> (req_method q = HTTP_CONNECT \<or> has_flag (flags q) F_SKIPBODY \<or> \<not> has_body)
          then finish (\<lambda>c. RETURN (pos c + 1) c)
          else if has_flag (flags q) F_SKIPBODY then finish Break
          else if has_flag (flags q) F_CHUNKED then Break (UPDATE_STATE s_chunk_size_start c)
          else if content_length q = 0 then finish Break
          else if content_length q \<noteq> ULLONG_MAX then Break (UPDATE_STATE s_body_identity c)
          else if \<not> http_message_needs_eof q then finish Break
          else Break (UPDATE_STATE s_body_identity_eof c))"

section \<open>Bodies and chunks\<close>

text \<open>
  The common part of \<open>s_body_identity\<close> and \<open>s_chunk_data\<close>: consume the bytes at hand, but
  for the last one, which the increment of the loop consumes.
\<close>

definition consume_body :: "string \<Rightarrow> 'd ctx \<Rightarrow> 'd ctx" where
  "consume_body buf c =
     (let to_read = min (unat (content_length (psr c))) (length buf - pos c);
          c1 = MARK D_body c
      in c1\<lparr>psr := (psr c1)\<lparr>content_length := content_length (psr c1) - of_nat to_read\<rparr>,
            pos := pos c1 + to_read - 1\<rparr>)"

definition st_body_identity :: "'d http_parser_settings \<Rightarrow> string \<Rightarrow> 'd ctx \<Rightarrow> 'd flow" where
  "st_body_identity S buf c =
     assert_that (content_length (psr c) \<noteq> 0 \<and> content_length (psr c) \<noteq> ULLONG_MAX)
       (let c1 = consume_body buf c
        in if content_length (psr c1) = 0 then
             CALLBACK_DATA_ER S buf D_body (pos c1 + 1) (pos c1) (UPDATE_STATE s_message_done c1)
               Reexecute
           else Break c1)"

definition st_body_identity_eof :: "string \<Rightarrow> 'd ctx \<Rightarrow> 'd flow" where
  "st_body_identity_eof buf c = Break ((MARK D_body c)\<lparr>pos := length buf - 1\<rparr>)"

definition st_message_done :: "'d http_parser_settings \<Rightarrow> 'd ctx \<Rightarrow> 'd flow" where
  "st_message_done S c =
     CALLBACK_NOTIFY S N_message_complete (UPDATE_STATE (NEW_MESSAGE (psr c)) c) (\<lambda>c.
       if upgrade (psr c) then RETURN (pos c + 1) c else Break c)"

definition st_chunk_size_start :: "'d ctx \<Rightarrow> 'd flow" where
  "st_chunk_size_start c =
     assert_that (nread (psr c) = 1) (assert_that (has_flag (flags (psr c)) F_CHUNKED)
       (let unhex_val = unhex_at (ch c)
        in if unhex_val = -1 then error_with HPE_INVALID_CHUNK_SIZE c
           else Break (UPDATE_STATE s_chunk_size
                  (c\<lparr>psr := (psr c)\<lparr>content_length := of_int unhex_val\<rparr>\<rparr>))))"

definition st_chunk_size :: "'d ctx \<Rightarrow> 'd flow" where
  "st_chunk_size c =
     assert_that (has_flag (flags (psr c)) F_CHUNKED)
       (if ch c = CR then Break (UPDATE_STATE s_chunk_size_almost_done c)
        else
          let unhex_val = unhex_at (ch c)
          in if unhex_val = -1 then
               (if ch c = CHR '';'' \<or> ch c = CHR '' '' then Break (UPDATE_STATE s_chunk_parameters c)
                else error_with HPE_INVALID_CHUNK_SIZE c)
             else
               let t = content_length (psr c) * 16 + of_int unhex_val
               in if (ULLONG_MAX - 16) div 16 < content_length (psr c)
                  then error_with HPE_INVALID_CONTENT_LENGTH c
                  else Break (c\<lparr>psr := (psr c)\<lparr>content_length := t\<rparr>\<rparr>))"

definition st_chunk_parameters :: "'d ctx \<Rightarrow> 'd flow" where
  "st_chunk_parameters c =
     assert_that (has_flag (flags (psr c)) F_CHUNKED)
       (if ch c = CR then Break (UPDATE_STATE s_chunk_size_almost_done c) else Break c)"

definition st_chunk_size_almost_done :: "'d http_parser_settings \<Rightarrow> 'd ctx \<Rightarrow> 'd flow" where
  "st_chunk_size_almost_done S c =
     assert_that (has_flag (flags (psr c)) F_CHUNKED)
       (STRICT_CHECK (ch c \<noteq> LF) c (\<lambda>c.
          let c1 = c\<lparr>psr := (psr c)\<lparr>nread := 0\<rparr>\<rparr>;
              c2 = (if content_length (psr c1) = 0
                    then UPDATE_STATE s_header_field_start (c1\<lparr>psr := add_flag F_TRAILING (psr c1)\<rparr>)
                    else UPDATE_STATE s_chunk_data c1)
          in CALLBACK_NOTIFY S N_chunk_header c2 Break))"

definition st_chunk_data :: "string \<Rightarrow> 'd ctx \<Rightarrow> 'd flow" where
  "st_chunk_data buf c =
     assert_that (has_flag (flags (psr c)) F_CHUNKED)
       (assert_that (content_length (psr c) \<noteq> 0 \<and> content_length (psr c) \<noteq> ULLONG_MAX)
         (let c1 = consume_body buf c
          in Break (if content_length (psr c1) = 0 then UPDATE_STATE s_chunk_data_almost_done c1 else c1)))"

definition st_chunk_data_almost_done ::
    "'d http_parser_settings \<Rightarrow> string \<Rightarrow> 'd ctx \<Rightarrow> 'd flow" where
  "st_chunk_data_almost_done S buf c =
     assert_that (has_flag (flags (psr c)) F_CHUNKED) (assert_that (content_length (psr c) = 0)
       (STRICT_CHECK (ch c \<noteq> CR) c (\<lambda>c.
          CALLBACK_DATA S buf D_body (UPDATE_STATE s_chunk_data_done c) Break)))"

definition st_chunk_data_done :: "'d http_parser_settings \<Rightarrow> 'd ctx \<Rightarrow> 'd flow" where
  "st_chunk_data_done S c =
     assert_that (has_flag (flags (psr c)) F_CHUNKED)
       (STRICT_CHECK (ch c \<noteq> LF) c (\<lambda>c.
          CALLBACK_NOTIFY S N_chunk_complete
            (UPDATE_STATE s_chunk_size_start (c\<lparr>psr := (psr c)\<lparr>nread := 0\<rparr>\<rparr>)) Break))"

section \<open>The switch and the loop over the bytes\<close>

definition dispatch :: "'d http_parser_settings \<Rightarrow> string \<Rightarrow> 'd ctx \<Rightarrow> 'd flow" where
  "dispatch S buf c =
     (case p_state c of
        s_dead \<Rightarrow> st_dead c
      | s_start_req_or_res \<Rightarrow> st_start_req_or_res S c
      | s_res_or_resp_H \<Rightarrow> st_res_or_resp_H c
      | s_start_res \<Rightarrow> st_start_res S c
      | s_res_H \<Rightarrow> st_expect (CHR ''T'') s_res_HT c
      | s_res_HT \<Rightarrow> st_expect (CHR ''T'') s_res_HTT c
      | s_res_HTT \<Rightarrow> st_expect (CHR ''P'') s_res_HTTP c
      | s_res_HTTP \<Rightarrow> st_expect (CHR ''/'') s_res_http_major c
      | s_res_http_major \<Rightarrow> st_http_major s_res_http_dot c
      | s_res_http_dot \<Rightarrow> st_http_dot s_res_http_minor c
      | s_res_http_minor \<Rightarrow> st_http_minor s_res_http_end c
      | s_res_http_end \<Rightarrow> st_res_http_end c
      | s_res_first_status_code \<Rightarrow> st_res_first_status_code c
      | s_res_status_code \<Rightarrow> st_res_status_code c
      | s_res_status_start \<Rightarrow> st_res_status_start c
      | s_res_status \<Rightarrow> st_res_status S buf c
      | s_res_line_almost_done \<Rightarrow> st_expect LF s_header_field_start c
      | s_start_req \<Rightarrow> st_start_req S c
      | s_req_method \<Rightarrow> st_req_method c
      | s_req_spaces_before_url \<Rightarrow> st_req_spaces_before_url c
      | s_req_schema \<Rightarrow> st_req_schema c
      | s_req_schema_slash \<Rightarrow> st_req_schema c
      | s_req_schema_slash_slash \<Rightarrow> st_req_schema c
      | s_req_server_start \<Rightarrow> st_req_schema c
      | s_req_server \<Rightarrow> st_req_url S buf c
      | s_req_server_with_at \<Rightarrow> st_req_url S buf c
      | s_req_path \<Rightarrow> st_req_url S buf c
      | s_req_query_string_start \<Rightarrow> st_req_url S buf c
      | s_req_query_string \<Rightarrow> st_req_url S buf c
      | s_req_fragment_start \<Rightarrow> st_req_url S buf c
      | s_req_fragment \<Rightarrow> st_req_url S buf c
      | s_req_http_start \<Rightarrow> st_req_http_start c
      | s_req_http_H \<Rightarrow> st_expect (CHR ''T'') s_req_http_HT c
      | s_req_http_HT \<Rightarrow> st_expect (CHR ''T'') s_req_http_HTT c
      | s_req_http_HTT \<Rightarrow> st_expect (CHR ''P'') s_req_http_HTTP c
      | s_req_http_HTTP \<Rightarrow> st_expect (CHR ''/'') s_req_http_major c
      | s_req_http_major \<Rightarrow> st_http_major s_req_http_dot c
      | s_req_http_dot \<Rightarrow> st_http_dot s_req_http_minor c
      | s_req_http_minor \<Rightarrow> st_http_minor s_req_http_end c
      | s_req_http_end \<Rightarrow> st_req_http_end c
      | s_req_line_almost_done \<Rightarrow> st_req_line_almost_done c
      | s_header_field_start \<Rightarrow> st_header_field_start c
      | s_header_field \<Rightarrow> st_header_field S buf c
      | s_header_value_discard_ws \<Rightarrow> st_header_value_discard_ws c
      | s_header_value_discard_ws_almost_done \<Rightarrow> st_header_value_discard_ws_almost_done c
      | s_header_value_discard_lws \<Rightarrow> st_header_value_discard_lws S buf c
      | s_header_value_start \<Rightarrow> st_header_value_start c
      | s_header_value \<Rightarrow> st_header_value S buf c
      | s_header_value_lws \<Rightarrow> st_header_value_lws c
      | s_header_almost_done \<Rightarrow> st_header_almost_done c
      | s_chunk_size_start \<Rightarrow> st_chunk_size_start c
      | s_chunk_size \<Rightarrow> st_chunk_size c
      | s_chunk_parameters \<Rightarrow> st_chunk_parameters c
      | s_chunk_size_almost_done \<Rightarrow> st_chunk_size_almost_done S c
      | s_headers_almost_done \<Rightarrow> st_headers_almost_done S c
      | s_headers_done \<Rightarrow> st_headers_done S c
      | s_chunk_data \<Rightarrow> st_chunk_data buf c
      | s_chunk_data_almost_done \<Rightarrow> st_chunk_data_almost_done S buf c
      | s_chunk_data_done \<Rightarrow> st_chunk_data_done S c
      | s_body_identity \<Rightarrow> st_body_identity S buf c
      | s_body_identity_eof \<Rightarrow> st_body_identity_eof buf c
      | s_message_done \<Rightarrow> st_message_done S c)"

datatype 'd outcome = Returned nat "'d http_parser" | Aborted

text \<open>
  \<open>At_loop\<close>: at the head of the \<open>for\<close>; \<open>At_switch\<close>: at the label \<open>reexecute\<close>.
\<close>

datatype 'd control = At_loop "'d ctx" | At_switch "'d ctx" | Halted "'d outcome"

definition parse_error :: "'d ctx \<Rightarrow> 'd outcome" where
  "parse_error c =
     (let c1 = (if http_errno (psr c) = HPE_OK then SET_ERRNO HPE_UNKNOWN c else c)
      in Returned (pos c1) ((psr c1)\<lparr>state := p_state c1\<rparr>))"

text \<open>The code after the loop: the callbacks of the marks that are left.\<close>

definition marks_set :: "'d ctx \<Rightarrow> nat" where
  "marks_set c =
     (if mark c D_header_field \<noteq> None then 1 else 0) + (if mark c D_header_value \<noteq> None then 1 else 0) +
     (if mark c D_url \<noteq> None then 1 else 0) + (if mark c D_body \<noteq> None then 1 else 0) +
     (if mark c D_status \<noteq> None then 1 else 0)"

definition flush_marks :: "'d http_parser_settings \<Rightarrow> string \<Rightarrow> 'd ctx \<Rightarrow> 'd flow" where
  "flush_marks S buf c =
     assert_that (marks_set c \<le> 1)
       (CALLBACK_DATA_NOADVANCE S buf D_header_field c (\<lambda>c.
        CALLBACK_DATA_NOADVANCE S buf D_header_value c (\<lambda>c.
        CALLBACK_DATA_NOADVANCE S buf D_url c (\<lambda>c.
        CALLBACK_DATA_NOADVANCE S buf D_body c (\<lambda>c.
        CALLBACK_DATA_NOADVANCE S buf D_status c (\<lambda>c.
        RETURN (length buf) c))))))"

primrec control_of :: "'d flow \<Rightarrow> 'd control" where
  "control_of (Break c) = At_loop (c\<lparr>pos := Suc (pos c)\<rparr>)"
| "control_of (Reexecute c) = At_switch c"
| "control_of (Goto_error c) = Halted (parse_error c)"
| "control_of (Return n q) = Halted (Returned n q)"
| "control_of Abort = Halted Aborted"

definition loop_head :: "'d http_parser_settings \<Rightarrow> string \<Rightarrow> 'd ctx \<Rightarrow> 'd flow" where
  "loop_head S buf c =
     (if pos c = length buf then flush_marks S buf c
      else
        let c1 = c\<lparr>ch := buf ! pos c\<rparr>
        in if PARSING_HEADER (p_state c1) then COUNT_HEADER_SIZE 1 c1 Reexecute else Reexecute c1)"

primrec exec_step :: "'d http_parser_settings \<Rightarrow> string \<Rightarrow> 'd control \<Rightarrow> 'd control" where
  "exec_step S buf (At_loop c) = control_of (loop_head S buf c)"
| "exec_step S buf (At_switch c) = control_of (dispatch S buf c)"
| "exec_step S buf (Halted r) = Halted r"

primrec running :: "'d control \<Rightarrow> bool" where
  "running (At_loop c) = True"
| "running (At_switch c) = True"
| "running (Halted r) = False"

definition url_mark_state :: "state \<Rightarrow> bool" where
  "url_mark_state s \<longleftrightarrow>
     s \<in> {s_req_path, s_req_schema, s_req_schema_slash, s_req_schema_slash_slash, s_req_server_start,
          s_req_server, s_req_server_with_at, s_req_query_string_start, s_req_query_string,
          s_req_fragment_start, s_req_fragment}"

text \<open>The marks with which a call starts: at the first byte for a field that is continued.\<close>

definition initial_mark :: "state \<Rightarrow> data_kind \<Rightarrow> nat option" where
  "initial_mark s kind =
     (if kind = D_header_field \<and> s = s_header_field \<or> kind = D_header_value \<and> s = s_header_value \<or>
         kind = D_url \<and> url_mark_state s \<or> kind = D_status \<and> s = s_res_status
      then Some 0 else None)"

definition initial_ctx :: "'d http_parser \<Rightarrow> 'd ctx" where
  "initial_ctx q =
     \<lparr>psr = q, p_state = state q, pos = 0, ch = NUL, mark = initial_mark (state q),
      lenient = lenient_http_headers q\<rparr>"

text \<open>The call with no bytes, which stands for the end of the stream.\<close>

definition execute_eof :: "'d http_parser_settings \<Rightarrow> 'd http_parser \<Rightarrow> 'd flow" where
  "execute_eof S q =
     (case state q of
        s_body_identity_eof \<Rightarrow>
          CALLBACK_NOTIFY_NOADVANCE S N_message_complete ((initial_ctx q)\<lparr>mark := (\<lambda>_. None)\<rparr>)
            (\<lambda>c. Return 0 (psr c))
      | s_dead \<Rightarrow> Return 0 q
      | s_start_req_or_res \<Rightarrow> Return 0 q
      | s_start_res \<Rightarrow> Return 0 q
      | s_start_req \<Rightarrow> Return 0 q
      | _ \<Rightarrow> Return 1 (q\<lparr>http_errno := HPE_INVALID_EOF_STATE\<rparr>))"

primrec control_outcome :: "'d control \<Rightarrow> 'd outcome" where
  "control_outcome (Halted r) = r"
| "control_outcome (At_loop c) = Aborted"
| "control_outcome (At_switch c) = Aborted"

definition run_loop :: "'d http_parser_settings \<Rightarrow> string \<Rightarrow> 'd control \<Rightarrow> 'd outcome option" where
  "run_loop S buf k = map_option control_outcome (while_option running (exec_step S buf) k)"

text \<open>\<open>None\<close>: the call does not return.\<close>

definition http_parser_execute ::
    "'d http_parser_settings \<Rightarrow> 'd http_parser \<Rightarrow> string \<Rightarrow> 'd outcome option" where
  "http_parser_execute S q buf =
     (if http_errno q \<noteq> HPE_OK then Some (Returned 0 q)
      else if length buf = 0 then Some (control_outcome (control_of (execute_eof S q)))
      else run_loop S buf (At_loop (initial_ctx q)))"

end
