(* ===== verification/Http_Safety.thy ===== *)
theory Http_Safety
  imports Http_Exec
begin

text \<open>
  The contract of the callbacks, the invariant of the parser between calls, and the main
  safety and termination result: with callbacks that keep the contract, a call of
  \<open>http_parser_execute\<close> returns, no assertion fails and no keyword table is read out of
  bounds, and the parser it leaves satisfies the invariant again.
\<close>

section \<open>The callback contract\<close>

text \<open>
  What \<open>http_parser.h\<close> leaves to a callback: the public field \<open>data\<close>, and a call of
  \<open>http_parser_pause\<close>; every other field is private or read-only.
\<close>

definition obeys :: "'d http_parser \<Rightarrow> 'd http_parser \<Rightarrow> bool" where
  "obeys q q' \<longleftrightarrow>
     q' = q\<lparr>http_errno := http_errno q', data := data q'\<rparr> \<and> http_errno q' \<in> {HPE_OK, HPE_PAUSED}"

definition cb_ok :: "'d http_cb \<Rightarrow> bool" where
  "cb_ok cb \<longleftrightarrow> (\<forall>q. http_errno q = HPE_OK \<longrightarrow> obeys q (snd (cb q)))"

definition data_cb_ok :: "'d http_data_cb \<Rightarrow> bool" where
  "data_cb_ok cb \<longleftrightarrow> (\<forall>q bs. http_errno q = HPE_OK \<longrightarrow> obeys q (snd (cb q bs)))"

definition callbacks_ok :: "'d http_parser_settings \<Rightarrow> bool" where
  "callbacks_ok S \<longleftrightarrow>
     (\<forall>kind cb. notify_cb S kind = Some cb \<longrightarrow> cb_ok cb) \<and>
     (\<forall>cb. on_headers_complete S = Some cb \<longrightarrow> cb_ok cb) \<and>
     (\<forall>kind cb. data_cb S kind = Some cb \<longrightarrow> data_cb_ok cb)"

section \<open>Invariant\<close>

definition chunk_states :: "state list" where
  "chunk_states = [s_chunk_size_start, s_chunk_size, s_chunk_parameters, s_chunk_size_almost_done,
     s_chunk_data, s_chunk_data_almost_done, s_chunk_data_done]"

definition name_states :: "header_states list" where
  "name_states = [h_general, h_C, h_CO, h_CON, h_matching_connection, h_matching_proxy_connection,
     h_matching_content_length, h_matching_transfer_encoding, h_matching_upgrade, h_connection,
     h_content_length, h_transfer_encoding, h_upgrade]"

text \<open>
  What holds of the parser fields when the parser is in state \<open>s\<close>; \<open>n\<close> is the number of
  bytes counted when a chunk size starts, 0 at the head of the loop and 1 in the switch.
\<close>

definition pinv :: "nat \<Rightarrow> state \<Rightarrow> 'd http_parser \<Rightarrow> bool" where
  "pinv n s q \<longleftrightarrow>
     unat (nread q) \<le> HTTP_MAX_HEADER_SIZE \<and>
     (s \<in> set chunk_states \<longrightarrow>
        has_flag (flags q) F_CHUNKED \<and> \<not> has_flag (flags q) F_CONTENTLENGTH) \<and>
     (s = s_headers_done \<longrightarrow>
        \<not> (has_flag (flags q) F_CHUNKED \<and> has_flag (flags q) F_CONTENTLENGTH)) \<and>
     (s = s_body_identity \<or> s = s_body_identity_eof \<longrightarrow> \<not> has_flag (flags q) F_CHUNKED) \<and>
     (s = s_chunk_size_start \<longrightarrow> unat (nread q) = n) \<and>
     (s \<in> {s_chunk_size, s_chunk_parameters, s_chunk_size_almost_done, s_chunk_data, s_body_identity} \<longrightarrow>
        content_length q \<noteq> ULLONG_MAX) \<and>
     (s = s_chunk_data \<or> s = s_body_identity \<longrightarrow> content_length q \<noteq> 0) \<and>
     (s = s_chunk_data_almost_done \<longrightarrow> content_length q = 0) \<and>
     (s = s_header_value \<longrightarrow> header_state q \<notin> {h_connection, h_transfer_encoding}) \<and>
     (s = s_header_field \<longrightarrow> header_state q \<in> set name_states) \<and>
     (s = s_req_method \<longrightarrow> unat (index q) \<le> length (method_string (req_method q)))"

definition parser_ok :: "'d http_parser \<Rightarrow> bool" where
  "parser_ok q \<longleftrightarrow> (http_errno q \<in> {HPE_OK, HPE_PAUSED} \<longrightarrow> pinv 0 (state q) q)"

text \<open>A mark is only set in the states that will hand the marked bytes out.\<close>

definition mark_state :: "data_kind \<Rightarrow> state \<Rightarrow> bool" where
  "mark_state kind s =
     (case kind of
        D_header_field \<Rightarrow> s = s_header_field
      | D_header_value \<Rightarrow> s = s_header_value
      | D_url \<Rightarrow> url_mark_state s
      | D_status \<Rightarrow> s = s_res_status
      | D_body \<Rightarrow> s \<in> {s_body_identity, s_body_identity_eof, s_chunk_data, s_chunk_data_almost_done})"

definition marks_ok :: "state \<Rightarrow> (data_kind \<Rightarrow> nat option) \<Rightarrow> bool" where
  "marks_ok s m \<longleftrightarrow> (\<forall>kind. m kind \<noteq> None \<longrightarrow> mark_state kind s)"

definition cinv :: "nat \<Rightarrow> 'd ctx \<Rightarrow> bool" where
  "cinv n c \<longleftrightarrow> http_errno (psr c) = HPE_OK \<and> pinv n (p_state c) (psr c) \<and> marks_ok (p_state c) (mark c)"

text \<open>How many more reexecutions a state can ask for.\<close>

definition rank :: "state \<Rightarrow> nat" where
  "rank s =
     (if s = s_header_value_lws \<or> s = s_header_value_discard_lws then 4
      else if s = s_header_field_start then 3
      else if s = s_headers_almost_done \<or> s = s_res_status_code then 2
      else if s \<in> {s_res_status_start, s_header_value, s_start_req_or_res, s_body_identity} then 1
      else 0)"

text \<open>
  What a step may do: \<open>i\<close> is the position it started from, \<open>r\<close> a bound for the rank of the
  state it reexecutes. A return without an error is an upgrade or the end of the bytes.
\<close>

primrec flow_ok :: "nat \<Rightarrow> nat \<Rightarrow> nat \<Rightarrow> 'd flow \<Rightarrow> bool" where
  "flow_ok n i r (Break c) \<longleftrightarrow> cinv 0 c \<and> i \<le> pos c \<and> pos c < n"
| "flow_ok n i r (Reexecute c) \<longleftrightarrow> cinv 1 c \<and> i \<le> pos c \<and> pos c < n \<and> rank (p_state c) < r"
| "flow_ok n i r (Goto_error c) \<longleftrightarrow> http_errno (psr c) \<notin> {HPE_OK, HPE_PAUSED} \<and> pos c \<le> n"
| "flow_ok n i r (Return m q) \<longleftrightarrow>
     m \<le> n \<and> parser_ok q \<and> (m < n \<longrightarrow> http_errno q \<noteq> HPE_OK \<or> upgrade q)"
| "flow_ok n i r Abort \<longleftrightarrow> False"

lemma rank_le: "rank s \<le> 4"
  by (simp add: rank_def)

lemma marks_ok_clear: "marks_ok s m \<Longrightarrow> marks_ok s (m(k := None))"
  by (simp add: marks_ok_def)

lemma marks_ok_set: "marks_ok s m \<Longrightarrow> mark_state k s \<Longrightarrow> marks_ok s (m(k := Some i))"
  by (simp add: marks_ok_def)

text \<open>In a state that hands out nothing, no mark is set; leaving a state clears its own mark.\<close>

lemma marks_ok_none: "(\<And>k. \<not> mark_state k s) \<Longrightarrow> marks_ok s m \<Longrightarrow> m = (\<lambda>_. None)"
  by (auto simp: marks_ok_def)

lemma marks_ok_empty [simp]: "marks_ok s (\<lambda>_. None)"
  by (simp add: marks_ok_def)

lemma mark_state_unique: "mark_state k s \<Longrightarrow> mark_state k' s \<Longrightarrow> k = k'"
  by (cases k; cases k') (auto simp: mark_state_def url_mark_state_def)

lemma marks_ok_only:
  assumes "marks_ok s m" "mark_state k s"
  shows "m(k := None) = (\<lambda>_. None)"
proof
  fix k'
  have "m k' = None" if "k' \<noteq> k"
    using that assms mark_state_unique unfolding marks_ok_def by blast
  then show "(m(k := None)) k' = None" by simp
qed

lemma marks_set_le:
  assumes "marks_ok (p_state c) (mark c)"
  shows "marks_set c \<le> 1"
proof (cases "\<exists>k. mark c k \<noteq> None")
  case True
  then obtain k where k: "mark c k \<noteq> None" by blast
  then have none: "mark c k' = None" if "k' \<noteq> k" for k'
    using assms that mark_state_unique unfolding marks_ok_def by blast
  show ?thesis
    by (cases k) (simp_all add: marks_set_def none)
next
  case False
  then show ?thesis by (simp add: marks_set_def)
qed

lemma parse_url_char_state:
  "parse_url_char s x \<noteq> s_dead \<Longrightarrow> url_mark_state (parse_url_char s x)"
  by (cases s) (auto simp: parse_url_char_def parse_server_char_def url_mark_state_def split: if_splits)

lemma pinv_url: "url_mark_state s \<Longrightarrow> pinv n s q \<longleftrightarrow> unat (nread q) \<le> HTTP_MAX_HEADER_SIZE"
  by (auto simp: pinv_def url_mark_state_def chunk_states_def)

lemma pinv_new_message: "pinv n (NEW_MESSAGE q') q \<longleftrightarrow> unat (nread q) \<le> HTTP_MAX_HEADER_SIZE"
  using NEW_MESSAGE_cases [of q'] by (auto simp: pinv_def chunk_states_def)

lemma mark_state_new_message: "\<not> mark_state k (NEW_MESSAGE q)"
  using NEW_MESSAGE_cases [of q] by (cases k) (auto simp: mark_state_def url_mark_state_def)

lemma pinv_cong:
  assumes "nread q' = nread q" "flags q' = flags q" "content_length q' = content_length q"
    "header_state q' = header_state q" "index q' = index q" "req_method q' = req_method q"
  shows "pinv n s q' = pinv n s q"
  using assms by (simp add: pinv_def)

lemma pinv_switch: "s \<noteq> s_chunk_size_start \<Longrightarrow> pinv n s q = pinv 0 s q"
  by (simp add: pinv_def)

section \<open>Callbacks keep the invariant\<close>

locale http_client =
  fixes S :: "'d http_parser_settings"
  assumes contract: "callbacks_ok S"
begin

lemma notify_obeys:
  "notify_cb S kind = Some cb \<Longrightarrow> http_errno q = HPE_OK \<Longrightarrow> obeys q (snd (cb q))"
  using contract by (auto simp: callbacks_ok_def cb_ok_def)

lemma headers_obeys:
  "on_headers_complete S = Some cb \<Longrightarrow> http_errno q = HPE_OK \<Longrightarrow> obeys q (snd (cb q))"
  using contract by (auto simp: callbacks_ok_def cb_ok_def)

lemma data_obeys:
  "data_cb S kind = Some cb \<Longrightarrow> http_errno q = HPE_OK \<Longrightarrow> obeys q (snd (cb q bs))"
  using contract by (auto simp: callbacks_ok_def data_cb_ok_def)

lemma after_callback_ok:
  assumes ob: "obeys ((psr c)\<lparr>state := p_state c\<rparr>) (snd rq)"
    and pinv: "pinv 0 (p_state c) (psr c)"
    and e: "e \<noteq> HPE_OK" "e \<noteq> HPE_PAUSED" and er: "er \<le> n"
    and k: "\<And>st d. flow_ok n i r (k (c\<lparr>psr := (psr c)\<lparr>state := st, data := d\<rparr>\<rparr>))"
    and ok: "http_errno (psr c) = HPE_OK"
  shows "flow_ok n i r (after_callback e er rq c k)"
proof -
  obtain q where q: "snd rq = q" by simp
  have eq: "q = (psr c)\<lparr>state := p_state c, http_errno := http_errno q, data := data q\<rparr>"
    and er': "http_errno q = HPE_OK \<or> http_errno q = HPE_PAUSED"
    using ob by (auto simp: obeys_def q)
  have pq: "pinv 0 (state q) q"
    using pinv by (subst eq, subst (2) eq) (simp add: pinv_def)
  show ?thesis
  proof (cases "fst rq \<noteq> 0")
    case True
    then show ?thesis using e er by (simp add: after_callback_def q parser_ok_def)
  next
    case False
    show ?thesis
    proof (cases "http_errno q = HPE_OK")
      case True
      have "c\<lparr>psr := q, p_state := state q\<rparr> =
          c\<lparr>psr := (psr c)\<lparr>state := p_state c, data := data q\<rparr>\<rparr>"
        using eq True ok by (cases c; cases q) simp
      with False True k show ?thesis by (simp add: after_callback_def q)
    next
      case paused: False
      with False er er' pq show ?thesis by (simp add: after_callback_def q parser_ok_def)
    qed
  qed
qed

lemma notify_ok:
  assumes "http_errno (psr c) = HPE_OK" "pinv 0 (p_state c) (psr c)" "er \<le> n"
    and k: "\<And>st d. flow_ok n i r (k (c\<lparr>psr := (psr c)\<lparr>state := st, data := d\<rparr>\<rparr>))"
  shows "flow_ok n i r (CALLBACK_NOTIFY_ER S kind er c k)"
proof (cases "notify_cb S kind")
  case None
  then show ?thesis
    using k [where st = "state (psr c)" and d = "data (psr c)"] assms(1)
    by (simp add: CALLBACK_NOTIFY_ER_def assert_that_def)
next
  case (Some cb)
  have "notify_errno kind \<noteq> HPE_OK" "notify_errno kind \<noteq> HPE_PAUSED" by (cases kind; simp)+
  with Some assms notify_obeys [OF Some] show ?thesis
    by (simp add: CALLBACK_NOTIFY_ER_def assert_that_def after_callback_ok)
qed

lemma data_ok:
  assumes "http_errno (psr c) = HPE_OK" "pinv 0 (p_state c) (psr c)" "er \<le> n"
    and k: "\<And>st d. flow_ok n i r
              (k (c\<lparr>psr := (psr c)\<lparr>state := st, data := d\<rparr>, mark := (mark c)(kind := None)\<rparr>))"
  shows "flow_ok n i r (CALLBACK_DATA_ER S buf kind stop er c k)"
proof (cases "mark c kind")
  case None
  then have "c\<lparr>psr := (psr c)\<lparr>state := state (psr c), data := data (psr c)\<rparr>, mark := (mark c)(kind := None)\<rparr> = c"
    by (cases c) auto
  then show ?thesis
    using None k [where st = "state (psr c)" and d = "data (psr c)"] assms(1)
    by (simp add: CALLBACK_DATA_ER_def assert_that_def)
next
  case mk: (Some m)
  show ?thesis
  proof (cases "data_cb S kind")
    case None
    then show ?thesis
      using mk k [where st = "state (psr c)" and d = "data (psr c)"] assms(1)
      by (simp add: CALLBACK_DATA_ER_def assert_that_def clear_mark_def)
  next
    case (Some cb)
    have "data_errno kind \<noteq> HPE_OK" "data_errno kind \<noteq> HPE_PAUSED" by (cases kind; simp)+
    then have "flow_ok n i r (after_callback (data_errno kind) er
        (cb ((psr c)\<lparr>state := p_state c\<rparr>) (take (stop - m) (drop m buf))) c (\<lambda>c'. k (clear_mark kind c')))"
      using assms data_obeys [OF Some] by (intro after_callback_ok) (simp_all add: clear_mark_def)
    then show ?thesis
      using Some mk assms(1) by (simp add: CALLBACK_DATA_ER_def assert_that_def)
  qed
qed

end


definition plain_state :: "state \<Rightarrow> bool" where
  "plain_state s \<longleftrightarrow> \<not> url_mark_state s \<and>
     s \<notin> {s_header_field, s_header_value, s_res_status, s_body_identity, s_body_identity_eof,
          s_chunk_data, s_chunk_data_almost_done}"

lemma marks_ok_plain: "plain_state s \<Longrightarrow> marks_ok s m \<longleftrightarrow> m = (\<lambda>_. None)"
proof -
  assume "plain_state s"
  then have "\<not> mark_state k s" for k by (cases k) (auto simp: mark_state_def plain_state_def)
  then show ?thesis by (auto simp: marks_ok_def)
qed


lemma plain_new_message [simp]: "plain_state (NEW_MESSAGE q)"
  using NEW_MESSAGE_cases [of q] by (auto simp: plain_state_def url_mark_state_def)

text \<open>The invariant in each of the states for which it says more than the header limit.\<close>

definition header_limit_ok :: "'d http_parser \<Rightarrow> bool" where
  "header_limit_ok q \<longleftrightarrow> unat (nread q) \<le> HTTP_MAX_HEADER_SIZE"

definition free_state :: "state \<Rightarrow> bool" where
  "free_state s \<longleftrightarrow> s \<notin> {s_chunk_size_start, s_chunk_size, s_chunk_parameters,
     s_chunk_size_almost_done, s_chunk_data, s_chunk_data_almost_done, s_chunk_data_done,
     s_headers_done, s_body_identity, s_body_identity_eof, s_header_value, s_header_field, s_req_method}"

definition chunk_flags_ok :: "'d http_parser \<Rightarrow> bool" where
  "chunk_flags_ok q \<longleftrightarrow> has_flag (flags q) F_CHUNKED \<and> \<not> has_flag (flags q) F_CONTENTLENGTH"

lemma pinv_free [simp]: "free_state s \<Longrightarrow> pinv n s q \<longleftrightarrow> header_limit_ok q"
  by (simp add: pinv_def free_state_def header_limit_ok_def chunk_states_def)

lemma pinv_simps [simp]:
  "pinv n s_chunk_size_start q \<longleftrightarrow> header_limit_ok q \<and> chunk_flags_ok q \<and> unat (nread q) = n"
  "pinv n s_chunk_size q \<longleftrightarrow> header_limit_ok q \<and> chunk_flags_ok q \<and> content_length q \<noteq> ULLONG_MAX"
  "pinv n s_chunk_parameters q \<longleftrightarrow> header_limit_ok q \<and> chunk_flags_ok q \<and> content_length q \<noteq> ULLONG_MAX"
  "pinv n s_chunk_size_almost_done q \<longleftrightarrow>
     header_limit_ok q \<and> chunk_flags_ok q \<and> content_length q \<noteq> ULLONG_MAX"
  "pinv n s_chunk_data q \<longleftrightarrow>
     header_limit_ok q \<and> chunk_flags_ok q \<and> content_length q \<noteq> ULLONG_MAX \<and> content_length q \<noteq> 0"
  "pinv n s_chunk_data_almost_done q \<longleftrightarrow> header_limit_ok q \<and> chunk_flags_ok q \<and> content_length q = 0"
  "pinv n s_chunk_data_done q \<longleftrightarrow> header_limit_ok q \<and> chunk_flags_ok q"
  "pinv n s_headers_done q \<longleftrightarrow> header_limit_ok q \<and>
     \<not> (has_flag (flags q) F_CHUNKED \<and> has_flag (flags q) F_CONTENTLENGTH)"
  "pinv n s_body_identity q \<longleftrightarrow> header_limit_ok q \<and> \<not> has_flag (flags q) F_CHUNKED \<and>
     content_length q \<noteq> ULLONG_MAX \<and> content_length q \<noteq> 0"
  "pinv n s_body_identity_eof q \<longleftrightarrow> header_limit_ok q \<and> \<not> has_flag (flags q) F_CHUNKED"
  "pinv n s_header_value q \<longleftrightarrow>
     header_limit_ok q \<and> header_state q \<noteq> h_connection \<and> header_state q \<noteq> h_transfer_encoding"
  "pinv n s_header_field q \<longleftrightarrow> header_limit_ok q \<and> header_state q \<in> set name_states"
  "pinv n s_req_method q \<longleftrightarrow> header_limit_ok q \<and> unat (index q) \<le> length (method_string (req_method q))"
  by (auto simp: pinv_def header_limit_ok_def chunk_flags_ok_def chunk_states_def)

lemma free_new_message [simp]: "free_state (NEW_MESSAGE q)"
  using NEW_MESSAGE_cases [of q] by (auto simp: free_state_def)

lemma url_state_free: "url_mark_state s \<Longrightarrow> free_state s"
  by (auto simp: url_mark_state_def free_state_def)

lemma header_limit_simps [simp]:
  "header_limit_ok (q\<lparr>state := s\<rparr>) = header_limit_ok q" "header_limit_ok (q\<lparr>data := d\<rparr>) = header_limit_ok q"
  "header_limit_ok (q\<lparr>flags := f\<rparr>) = header_limit_ok q" "header_limit_ok (q\<lparr>content_length := l\<rparr>) = header_limit_ok q"
  "header_limit_ok (q\<lparr>index := i\<rparr>) = header_limit_ok q" "header_limit_ok (q\<lparr>header_state := h\<rparr>) = header_limit_ok q"
  "header_limit_ok (q\<lparr>req_method := m\<rparr>) = header_limit_ok q" "header_limit_ok (q\<lparr>ptype := t\<rparr>) = header_limit_ok q"
  "header_limit_ok (q\<lparr>http_major := w\<rparr>) = header_limit_ok q" "header_limit_ok (q\<lparr>http_minor := w\<rparr>) = header_limit_ok q"
  "header_limit_ok (q\<lparr>status_code := w\<rparr>) = header_limit_ok q" "header_limit_ok (q\<lparr>http_errno := e\<rparr>) = header_limit_ok q"
  "header_limit_ok (q\<lparr>upgrade := u\<rparr>) = header_limit_ok q" "header_limit_ok (q\<lparr>nread := 0\<rparr>)"
  by (simp_all add: header_limit_ok_def)

lemma chunk_flags_simps [simp]:
  "chunk_flags_ok (q\<lparr>state := s\<rparr>) = chunk_flags_ok q" "chunk_flags_ok (q\<lparr>data := d\<rparr>) = chunk_flags_ok q"
  "chunk_flags_ok (q\<lparr>nread := w\<rparr>) = chunk_flags_ok q" "chunk_flags_ok (q\<lparr>content_length := l\<rparr>) = chunk_flags_ok q"
  by (simp_all add: chunk_flags_ok_def)

lemma marks_ok_single [simp]: "marks_ok s ((\<lambda>_. None)(k := Some i)) \<longleftrightarrow> mark_state k s"
  by (simp add: marks_ok_def)

lemma mark_state_simps [simp]:
  "mark_state D_header_field s \<longleftrightarrow> s = s_header_field"
  "mark_state D_header_value s \<longleftrightarrow> s = s_header_value"
  "mark_state D_url s \<longleftrightarrow> url_mark_state s"
  "mark_state D_status s \<longleftrightarrow> s = s_res_status"
  "mark_state D_body s \<longleftrightarrow>
     s \<in> {s_body_identity, s_body_identity_eof, s_chunk_data, s_chunk_data_almost_done}"
  by (simp_all add: mark_state_def)

lemmas macro_defs = UPDATE_STATE_def SET_ERRNO_def error_with_def STRICT_CHECK_def RETURN_def
  CALLBACK_NOTIFY_def CALLBACK_NOTIFY_NOADVANCE_def CALLBACK_DATA_def CALLBACK_DATA_NOADVANCE_def
  new_message_fields_def Let_def

lemmas inv_defs = cinv_def marks_ok_plain plain_state_def free_state_def url_mark_state_def rank_def

lemma method_string_length: "3 \<le> length (method_string m)"
  by (cases m) (simp_all add: method_string_def method_strings_def)

lemma method_string_length': "Suc 0 \<le> length (method_string m)"
  using method_string_length [of m] by linarith


text \<open>The end of a message, in the three ways its callback is followed up.\<close>

context http_client begin

lemma message_complete_ok:
  assumes "http_errno (psr c) = HPE_OK" "header_limit_ok (psr c)" "mark c = (\<lambda>_. None)" "pos c < n"
  shows "flow_ok n (pos c) r
      (CALLBACK_NOTIFY S N_message_complete (UPDATE_STATE (NEW_MESSAGE q) c) Break)"
    and "upgrade (psr c) \<Longrightarrow> flow_ok n (pos c) r
      (CALLBACK_NOTIFY S N_message_complete (UPDATE_STATE (NEW_MESSAGE q) c)
        (\<lambda>c. RETURN (Suc (pos c)) c))"
    and "flow_ok n (pos c) r
      (CALLBACK_NOTIFY S N_message_complete (UPDATE_STATE (NEW_MESSAGE q) c)
        (\<lambda>c. if upgrade (psr c) then RETURN (Suc (pos c)) c else Break c))"
  using assms
  by (auto simp: macro_defs cinv_def marks_ok_plain parser_ok_def intro!: notify_ok)

lemma st_dead_ok:
  "cinv 1 c \<Longrightarrow> p_state c = s_dead \<Longrightarrow> pos c < n \<Longrightarrow> flow_ok n (pos c) r (st_dead c)"
  by (simp add: st_dead_def macro_defs inv_defs)

lemma st_start_req_or_res_ok:
  "cinv 1 c \<Longrightarrow> p_state c = s_start_req_or_res \<Longrightarrow> pos c < n \<Longrightarrow>
   flow_ok n (pos c) (rank (p_state c)) (st_start_req_or_res S c)"
  by (auto simp: st_start_req_or_res_def macro_defs inv_defs intro!: notify_ok)

lemma st_res_or_resp_H_ok:
  "cinv 1 c \<Longrightarrow> p_state c = s_res_or_resp_H \<Longrightarrow> pos c < n \<Longrightarrow> flow_ok n (pos c) r (st_res_or_resp_H c)"
  by (auto simp: st_res_or_resp_H_def macro_defs inv_defs method_string_def method_strings_def)

lemma st_start_res_ok:
  "cinv 1 c \<Longrightarrow> p_state c = s_start_res \<Longrightarrow> pos c < n \<Longrightarrow> flow_ok n (pos c) r (st_start_res S c)"
  by (auto simp: st_start_res_def macro_defs inv_defs intro!: notify_ok)

text \<open>States whose handler only checks the byte, stores a digit and moves to a free state.\<close>

lemma small_steps_ok:
  assumes "cinv 1 c" "plain_state (p_state c)" "free_state (p_state c)" "pos c < n"
    and t: "plain_state t" "free_state t"
  shows "flow_ok n (pos c) r (st_expect x t c)" "flow_ok n (pos c) r (st_http_major t c)"
    "flow_ok n (pos c) r (st_http_dot t c)" "flow_ok n (pos c) r (st_http_minor t c)"
    "flow_ok n (pos c) r (st_res_http_end c)" "flow_ok n (pos c) r (st_res_first_status_code c)"
    "flow_ok n (pos c) r (st_req_http_start c)" "flow_ok n (pos c) r (st_req_http_end c)"
    "flow_ok n (pos c) r (st_req_line_almost_done c)" "flow_ok n (pos c) r (st_header_almost_done c)"
    "flow_ok n (pos c) r (st_header_value_discard_ws_almost_done c)"
  using assms
  by (simp_all add: st_expect_def st_http_major_def st_http_dot_def st_http_minor_def
      st_res_http_end_def st_res_first_status_code_def st_req_http_start_def st_req_http_end_def
      st_req_line_almost_done_def st_header_almost_done_def st_header_value_discard_ws_almost_done_def
      macro_defs cinv_def marks_ok_plain, simp_all add: free_state_def plain_state_def url_mark_state_def)

lemma st_res_status_code_ok:
  "cinv 1 c \<Longrightarrow> p_state c = s_res_status_code \<Longrightarrow> pos c < n \<Longrightarrow>
   flow_ok n (pos c) (rank (p_state c)) (st_res_status_code c)"
  by (auto simp: st_res_status_code_def macro_defs inv_defs)

lemma st_res_status_start_ok:
  "cinv 1 c \<Longrightarrow> p_state c = s_res_status_start \<Longrightarrow> pos c < n \<Longrightarrow>
   flow_ok n (pos c) (rank (p_state c)) (st_res_status_start c)"
  by (auto simp: st_res_status_start_def macro_defs inv_defs MARK_def)

lemma st_res_status_ok:
  assumes "cinv 1 c" "p_state c = s_res_status" "pos c < n"
  shows "flow_ok n (pos c) r (st_res_status S buf c)"
proof -
  have "(mark c)(D_status := None) = (\<lambda>_. None)"
    using assms marks_ok_only [of s_res_status "mark c" D_status] by (simp add: cinv_def)
  with assms show ?thesis
    by (auto simp: st_res_status_def macro_defs inv_defs intro!: data_ok)
qed

lemma st_start_req_ok:
  "cinv 1 c \<Longrightarrow> p_state c = s_start_req \<Longrightarrow> pos c < n \<Longrightarrow> flow_ok n (pos c) r (st_start_req S c)"
  by (auto simp: st_start_req_def macro_defs inv_defs method_string_length' split: option.split
      intro!: notify_ok)

lemma st_req_method_ok:
  assumes "cinv 1 c" "p_state c = s_req_method" "pos c < n"
  shows "flow_ok n (pos c) r (st_req_method c)"
proof -
  let ?m = "req_method (psr c)" and ?i = "unat (index (psr c))"
  have i: "?i \<le> length (method_string ?m)" and c: "http_errno (psr c) = HPE_OK"
    "header_limit_ok (psr c)" "mark c = (\<lambda>_. None)"
    using assms by (simp_all add: cinv_def marks_ok_plain plain_state_def url_mark_state_def)
  from i obtain x where x: "c_string_at (method_string ?m) ?i = Some x"
    using c_string_at_defined [of "method_string ?m" ?i] by blast
  have small: "unat (index (psr c) + 1) \<le> Suc ?i"
    by (simp add: unat_word_ariths)
  have more: "unat (index (psr c) + 1) \<le> length (method_string ?m)" if "x \<noteq> NUL"
    using c_string_at_SomeD [OF x that] small by linarith
  have branch: "unat (index (psr c) + 1) \<le> length (method_string m')"
    if "map_of method_branches (?m, ?i, ch c) = Some m'" for m'
  proof -
    have "((?m, ?i, ch c), m') \<in> set method_branches" using that by (rule map_of_SomeD)
    then have "Suc ?i \<le> length (method_string m')"
      by (auto simp: method_branches_def method_string_def method_strings_def)
    with small show ?thesis by linarith
  qed
  show ?thesis
    using assms(2,3) c x more branch
    by (auto simp: st_req_method_def macro_defs cinv_def marks_ok_plain plain_state_def
        url_mark_state_def free_state_def split: option.split)
qed

lemma url_transition_ok:
  assumes "http_errno (psr c) = HPE_OK" "header_limit_ok (psr c)" "pos c < n" "pos c = i"
    and "marks_ok s_req_path (mark c)"
  shows "flow_ok n i r (url_transition c)"
proof (cases "parse_url_char (p_state c) (ch c) = s_dead")
  case False
  then have u: "url_mark_state (parse_url_char (p_state c) (ch c))" by (rule parse_url_char_state)
  have "mark_state kind s_req_path \<Longrightarrow> mark_state kind (parse_url_char (p_state c) (ch c))" for kind
    using u by (cases kind) (simp_all add: url_mark_state_def)
  with assms u False show ?thesis
    by (auto simp: url_transition_def macro_defs cinv_def url_state_free marks_ok_def)
qed (use assms in \<open>simp add: url_transition_def macro_defs\<close>)

lemma st_req_spaces_before_url_ok:
  "cinv 1 c \<Longrightarrow> p_state c = s_req_spaces_before_url \<Longrightarrow> pos c < n \<Longrightarrow>
   flow_ok n (pos c) r (st_req_spaces_before_url c)"
  by (auto simp: st_req_spaces_before_url_def macro_defs inv_defs MARK_def intro!: url_transition_ok)

lemma url_marks: "url_mark_state s \<Longrightarrow> marks_ok s m \<Longrightarrow> marks_ok s_req_path m"
proof -
  assume s: "url_mark_state s" and m: "marks_ok s m"
  have "mark_state kind s_req_path" if "mark_state kind s" for kind
    using s that by (cases kind) (auto simp: url_mark_state_def)
  with m show ?thesis by (auto simp: marks_ok_def)
qed

lemma cinv_url: "cinv n c \<Longrightarrow> url_mark_state (p_state c) \<Longrightarrow> header_limit_ok (psr c)"
  by (simp add: cinv_def url_state_free)

lemma st_req_schema_ok:
  assumes "cinv 1 c" "url_mark_state (p_state c)" "pos c < n"
  shows "flow_ok n (pos c) r (st_req_schema c)"
  using assms url_marks [OF assms(2)] cinv_url [OF assms(1,2)]
  by (auto simp: st_req_schema_def macro_defs cinv_def intro!: url_transition_ok)

lemma st_req_url_ok:
  assumes "cinv 1 c" "url_mark_state (p_state c)" "pos c < n"
  shows "flow_ok n (pos c) r (st_req_url S buf c)"
proof -
  have "(mark c)(D_url := None) = (\<lambda>_. None)"
    using assms marks_ok_only [of "p_state c" "mark c" D_url] by (simp add: cinv_def)
  then show ?thesis
    using assms url_marks [OF assms(2)] cinv_url [OF assms(1,2)]
    by (auto simp: st_req_url_def macro_defs cinv_def free_state_def
        intro!: url_transition_ok data_ok)
qed

lemma st_header_field_start_ok:
  "cinv 1 c \<Longrightarrow> p_state c = s_header_field_start \<Longrightarrow> pos c < n \<Longrightarrow> flow_ok n (pos c) (rank (p_state c)) (st_header_field_start c)"
  by (auto simp: st_header_field_start_def macro_defs inv_defs MARK_def name_states_def)

lemma st_headers_done_ok:
  assumes "cinv 1 c" "p_state c = s_headers_done" "pos c < n"
  shows "flow_ok n (pos c) r (st_headers_done S c)"
proof -
  define c0 where "c0 = c\<lparr>psr := (psr c)\<lparr>nread := 0\<rparr>\<rparr>"
  have c0: "http_errno (psr c0) = HPE_OK" "header_limit_ok (psr c0)" "mark c0 = (\<lambda>_. None)" "pos c0 < n"
    "pos c0 = pos c" "flags (psr c0) = flags (psr c)" "unat (nread (psr c0)) = 0"
    "\<not> (has_flag (flags (psr c)) F_CHUNKED \<and> has_flag (flags (psr c)) F_CONTENTLENGTH)"
    "ch c0 = ch c" "upgrade (psr c0) = upgrade (psr c)"
    using assms by (simp_all add: c0_def inv_defs)
  note fin = message_complete_ok [OF c0(1-4), unfolded c0(5)]
  show ?thesis
    using c0 assms(3)
    by (simp add: fin st_headers_done_def STRICT_CHECK_def error_with_def SET_ERRNO_def Let_def
        c0_def [symmetric] UPDATE_STATE_def [of s_chunk_size_start] UPDATE_STATE_def [of s_body_identity]
        UPDATE_STATE_def [of s_body_identity_eof] cinv_def chunk_flags_ok_def marks_ok_plain plain_state_def url_mark_state_def)
qed

lemma st_message_done_ok:
  "cinv 1 c \<Longrightarrow> p_state c = s_message_done \<Longrightarrow> pos c < n \<Longrightarrow> flow_ok n (pos c) r (st_message_done S c)"
  unfolding st_message_done_def
  by (simp only: Suc_eq_plus1 [symmetric], rule message_complete_ok(3))
    (simp_all add: cinv_def marks_ok_plain plain_state_def url_mark_state_def free_state_def)

lemma headers_complete_ok:
  assumes "obeys (psr c) (snd rq)" "http_errno (psr c) = HPE_OK" "pinv 0 s_headers_done (psr c)"
    "p_state c = s_headers_done" "mark c = (\<lambda>_. None)" "pos c < n"
  shows "flow_ok n (pos c) 2 (after_headers_complete rq c)"
proof -
  obtain e d where q: "snd rq = (psr c)\<lparr>http_errno := e, data := d\<rparr>" and e: "e = HPE_OK \<or> e = HPE_PAUSED"
    using assms(1) by (auto simp: obeys_def)
  show ?thesis
    using assms(2-) e
    by (auto simp: after_headers_complete_def q macro_defs add_flag_def cinv_def parser_ok_def
        marks_ok_plain plain_state_def url_mark_state_def rank_def)
qed

end


context http_client begin

lemma st_headers_almost_done_ok:
  assumes "cinv 1 c" "p_state c = s_headers_almost_done" "pos c < n"
  shows "flow_ok n (pos c) (rank (p_state c)) (st_headers_almost_done S c)"
proof -
  have c: "http_errno (psr c) = HPE_OK" "header_limit_ok (psr c)" "mark c = (\<lambda>_. None)"
    using assms by (simp_all add: inv_defs)
  define c1 where "c1 = c\<lparr>p_state := s_headers_done, psr := (psr c)\<lparr>upgrade := message_upgrade (psr c)\<rparr>\<rparr>"
  have c1: "http_errno (psr c1) = HPE_OK" "p_state c1 = s_headers_done" "mark c1 = (\<lambda>_. None)"
    "pos c1 < n" "pos c1 = pos c"
    using c assms by (simp_all add: c1_def)
  have "flow_ok n (pos c) 2 (after_headers_complete (call_headers_complete S (psr c1)) c1)"
    if "\<not> (has_flag (flags (psr c)) F_CHUNKED \<and> has_flag (flags (psr c)) F_CONTENTLENGTH)"
  proof -
    have p: "pinv 0 s_headers_done (psr c1)" using c that by (simp add: c1_def)
    have "obeys (psr c1) (snd (call_headers_complete S (psr c1)))"
      using c1(1) headers_obeys by (auto simp: call_headers_complete_def obeys_def split: option.split)
    then show ?thesis
      using headers_complete_ok [OF _ c1(1) p c1(2-4), unfolded c1(5)] by blast
  qed
  then show ?thesis
    using c assms(2,3)
    by (auto simp: st_headers_almost_done_def macro_defs c1_def cinv_def marks_ok_plain plain_state_def
        url_mark_state_def free_state_def rank_def intro!: notify_ok)
qed

text \<open>The keyword matchers.\<close>

lemma name_states_simps [simp]:
  "h_general \<in> set name_states" "h_C \<in> set name_states"
  "h_CO \<in> set name_states" "h_CON \<in> set name_states"
  "h_matching_connection \<in> set name_states" "h_matching_proxy_connection \<in> set name_states"
  "h_matching_content_length \<in> set name_states" "h_matching_transfer_encoding \<in> set name_states"
  "h_matching_upgrade \<in> set name_states" "h_connection \<in> set name_states"
  "h_content_length \<in> set name_states" "h_transfer_encoding \<in> set name_states"
  "h_upgrade \<in> set name_states" "h_content_length_num \<notin> set name_states"
  "h_content_length_ws \<notin> set name_states" "h_matching_transfer_encoding_chunked \<notin> set name_states"
  "h_matching_connection_token_start \<notin> set name_states" "h_matching_connection_keep_alive \<notin> set name_states"
  "h_matching_connection_close \<notin> set name_states" "h_matching_connection_upgrade \<notin> set name_states"
  "h_matching_connection_token \<notin> set name_states" "h_transfer_encoding_chunked \<notin> set name_states"
  "h_connection_keep_alive \<notin> set name_states" "h_connection_close \<notin> set name_states"
  "h_connection_upgrade \<notin> set name_states"
  by (simp_all add: name_states_def)

lemma match_next_cases: "match_next s a b d i x = a \<or> match_next s a b d i x = b \<or> match_next s a b d i x = d"
  by (simp add: match_next_def split: match_result.split)

lemma match_next_names:
  "a \<in> set name_states \<Longrightarrow> b \<in> set name_states \<Longrightarrow> d \<in> set name_states \<Longrightarrow>
   match_next s a b d i x \<in> set name_states"
  using match_next_cases [of s a b d i x] by auto

lemma some_header:
  "a \<in> set name_states \<Longrightarrow> \<exists>h. set_header a q = set_header h q \<and> h \<in> set name_states"
  by blast

lemma if_names:
  "a \<in> set name_states \<Longrightarrow> b \<in> set name_states \<Longrightarrow> (if P then a else b) \<in> set name_states"
  by simp

lemma header_field_byte_ok:
  assumes "header_state q \<in> set name_states"
  shows "\<exists>i h. header_field_byte t x q = Some (q\<lparr>index := i, header_state := h\<rparr>) \<and> h \<in> set name_states"
proof (cases "header_state q \<in> {h_general, h_connection, h_content_length, h_transfer_encoding, h_upgrade}")
  case True
  have "header_field_byte t x q = Some q \<or> header_field_byte t x q = Some (q\<lparr>header_state := h_general\<rparr>)"
    using True by (auto simp: header_field_byte_def set_header_def Let_def)
  moreover have "q = q\<lparr>index := index q, header_state := header_state q\<rparr>"
    "q\<lparr>header_state := h_general\<rparr> = q\<lparr>index := index q, header_state := h_general\<rparr>" by simp_all
  ultimately show ?thesis using assms name_states_simps(1) by metis
next
  case False
  then have "\<exists>h. header_field_byte t x q = Some (set_header h (q\<lparr>index := index q + 1\<rparr>)) \<and> h \<in> set name_states"
    using assms
    by (cases "header_state q")
      (auto simp: header_field_byte_def Let_def split del: if_split
        intro!: some_header match_next_names if_names)
  then show ?thesis by (auto simp: set_header_def)
qed

lemma header_field_loop_ok:
  assumes "header_state (psr c) \<in> set name_states" "pos c \<le> length buf"
  shows "\<exists>i h x p. header_field_loop buf c =
      Some (c\<lparr>psr := (psr c)\<lparr>index := i, header_state := h\<rparr>, ch := x, pos := p\<rparr>) \<and>
    h \<in> set name_states \<and> pos c \<le> p \<and> p \<le> length buf"
  using assms
proof (induction buf c rule: header_field_loop.induct)
  case (1 buf c)
  define c1 where "c1 = c\<lparr>ch := buf ! pos c\<rparr>"
  consider "length buf \<le> pos c" | "pos c < length buf" "TOKEN (ch c1) = NUL"
    | "pos c < length buf" "TOKEN (ch c1) \<noteq> NUL" by linarith
  then show ?case
  proof cases
    case stop: 1
    have "header_field_loop buf c = Some (c\<lparr>psr := (psr c)\<lparr>index := index (psr c),
        header_state := header_state (psr c)\<rparr>, ch := ch c, pos := pos c\<rparr>)"
      using stop by (simp add: header_field_loop.simps [of buf c])
    with 1 show ?thesis by blast
  next
    case stop: 2
    have "header_field_loop buf c = Some (c\<lparr>psr := (psr c)\<lparr>index := index (psr c),
        header_state := header_state (psr c)\<rparr>, ch := ch c1, pos := pos c\<rparr>)"
      using stop by (simp add: header_field_loop.simps [of buf c] c1_def)
    with 1 show ?thesis by blast
  next
    case go: 3
    obtain i h where b: "header_field_byte (TOKEN (ch c1)) (ch c1) (psr c1) =
        Some ((psr c1)\<lparr>index := i, header_state := h\<rparr>)" and h: "h \<in> set name_states"
      using header_field_byte_ok [of "psr c1"] 1(2) unfolding c1_def by fastforce
    let ?c2 = "c1\<lparr>psr := (psr c1)\<lparr>index := i, header_state := h\<rparr>, pos := Suc (pos c1)\<rparr>"
    have "\<not> length buf \<le> pos c" "pos ?c2 \<le> length buf" "header_state (psr ?c2) \<in> set name_states"
      using go h by (simp_all add: c1_def)
    from 1(1) [OF this(1) c1_def refl go(2) b this(3,2)] obtain i' h' x p where
      "header_field_loop buf ?c2 =
        Some (?c2\<lparr>psr := (psr ?c2)\<lparr>index := i', header_state := h'\<rparr>, ch := x, pos := p\<rparr>)"
      and p: "h' \<in> set name_states" "pos ?c2 \<le> p" "p \<le> length buf" by blast
    then have "header_field_loop buf c =
        Some (c\<lparr>psr := (psr c)\<lparr>index := i', header_state := h'\<rparr>, ch := x, pos := p\<rparr>)"
      using go b by (simp add: header_field_loop.simps [of buf c] c1_def)
    moreover have "pos c \<le> p" using p(2) by (simp add: c1_def)
    ultimately show ?thesis using p(1,3) by blast
  qed
qed

lemma count_ok:
  assumes "pos c \<le> n"
    and "\<And>w. header_limit_ok ((psr c)\<lparr>nread := w\<rparr>) \<Longrightarrow> w = nread (psr c) + of_nat v \<Longrightarrow>
           flow_ok n i r (k (c\<lparr>psr := (psr c)\<lparr>nread := w\<rparr>\<rparr>))"
  shows "flow_ok n i r (COUNT_HEADER_SIZE v c k)"
  using assms by (simp add: COUNT_HEADER_SIZE_def Let_def macro_defs header_limit_ok_def)

lemma st_header_field_ok:
  assumes "cinv 1 c" "p_state c = s_header_field" "pos c < length buf"
  shows "flow_ok (length buf) (pos c) r (st_header_field S buf c)"
proof -
  have c: "http_errno (psr c) = HPE_OK" "header_limit_ok (psr c)" "header_state (psr c) \<in> set name_states"
    "marks_ok s_header_field (mark c)"
    using assms by (simp_all add: cinv_def)
  have m: "(mark c)(D_header_field := None) = (\<lambda>_. None)"
    using marks_ok_only [OF c(4), of D_header_field] by simp
  obtain i h x p where c1: "header_field_loop buf c =
        Some (c\<lparr>psr := (psr c)\<lparr>index := i, header_state := h\<rparr>, ch := x, pos := p\<rparr>)"
      "h \<in> set name_states" "pos c \<le> p" "p \<le> length buf"
    using header_field_loop_ok [OF c(3), of buf] assms(3) by auto
  show ?thesis
    using c1 c m assms(2,3)
    by (auto simp: st_header_field_def macro_defs cinv_def marks_ok_plain plain_state_def
        url_mark_state_def free_state_def intro!: count_ok data_ok)
qed

end


lemma marks_ok_one: "m(k := None) = (\<lambda>_. None) \<Longrightarrow> mark_state k s \<Longrightarrow> marks_ok s m"
  by (metis fun_upd_other marks_ok_def)

context http_client begin

lemma st_header_value_start_ok:
  assumes "cinv 1 c" "plain_state (p_state c)" "free_state (p_state c)" "pos c < n"
  shows "flow_ok n (pos c) r (st_header_value_start c)"
  using assms
  by (auto simp: st_header_value_start_def macro_defs cinv_def marks_ok_plain MARK_def set_header_def
      add_flag_def split: header_states.split)

lemma st_header_value_discard_ws_ok:
  "cinv 1 c \<Longrightarrow> p_state c = s_header_value_discard_ws \<Longrightarrow> pos c < n \<Longrightarrow>
   flow_ok n (pos c) r (st_header_value_discard_ws c)"
  using st_header_value_start_ok [of c n r]
  by (auto simp: st_header_value_discard_ws_def macro_defs inv_defs)

lemma finish_header_simps [simp]:
  "header_limit_ok (finish_header q) = header_limit_ok q" "http_errno (finish_header q) = http_errno q"
  by (simp_all add: finish_header_def add_flag_def split: header_states.split)

lemma st_header_value_lws_ok:
  "cinv 1 c \<Longrightarrow> p_state c = s_header_value_lws \<Longrightarrow> pos c < n \<Longrightarrow>
   flow_ok n (pos c) (rank (p_state c)) (st_header_value_lws c)"
  by (simp add: st_header_value_lws_def macro_defs inv_defs)

lemma st_header_value_discard_lws_ok:
  "cinv 1 c \<Longrightarrow> p_state c = s_header_value_discard_lws \<Longrightarrow> pos c < n \<Longrightarrow>
   flow_ok n (pos c) (rank (p_state c)) (st_header_value_discard_lws S buf c)"
  by (auto simp: st_header_value_discard_lws_def macro_defs inv_defs MARK_def intro!: data_ok)

text \<open>The states of the value matcher that the inner loop is never entered or continued with.\<close>

definition value_state :: "header_states \<Rightarrow> bool" where
  "value_state h \<longleftrightarrow> h \<noteq> h_connection \<and> h \<noteq> h_transfer_encoding"

definition value_step_ok :: "nat \<Rightarrow> nat \<Rightarrow> nat \<Rightarrow> 'd ctx \<Rightarrow> 'd flow + ('d ctx \<times> header_states) \<Rightarrow> bool" where
  "value_step_ok n i r c x =
     (case x of
        Inl f \<Rightarrow> flow_ok n i r f
      | Inr (c', h') \<Rightarrow> value_state h' \<and> p_state c' = p_state c \<and> mark c' = mark c \<and>
          http_errno (psr c') = http_errno (psr c) \<and>
          header_limit_ok (psr c') = header_limit_ok (psr c) \<and>
          header_state (psr c') = header_state (psr c))"

lemma content_length_byte_ok:
  "value_state h \<Longrightarrow> pos c \<le> n \<Longrightarrow> value_step_ok n i r c (content_length_byte c h)"
  by (simp add: content_length_byte_def value_step_ok_def value_state_def macro_defs)

lemma match_next_value:
  "value_state a \<Longrightarrow> value_state b \<Longrightarrow> value_state d \<Longrightarrow> value_state (match_next s a b d i x)"
  using match_next_cases [of s a b d i x] by auto

lemma header_value_byte_ok:
  assumes "value_state h" "pos c \<le> n" "p_state c = s_header_value"
  shows "value_step_ok n i r c (header_value_byte buf c h)"
proof -
  have v: "value_state h_general" "value_state h_content_length" "value_state h_content_length_num"
    "value_state h_content_length_ws" "value_state h_transfer_encoding_chunked"
    "value_state h_matching_transfer_encoding_chunked"
    "value_state h_matching_connection_token_start" "value_state h_matching_connection_keep_alive"
    "value_state h_matching_connection_close" "value_state h_matching_connection_upgrade"
    "value_state h_matching_connection_token" "value_state h_connection_keep_alive"
    "value_state h_connection_close" "value_state h_connection_upgrade"
    "\<not> value_state h_connection" "\<not> value_state h_transfer_encoding"
    by (simp_all add: value_state_def)
  have t: "value_state (connection_token_start l)" for l
    by (simp add: connection_token_start_def value_state_def)
  show ?thesis
    using assms
    by (cases h)
      (simp_all add: header_value_byte_def Let_def v t match_next_value content_length_byte_ok,
       simp_all add: value_step_ok_def v t match_next_value macro_defs add_flag_def)
qed

lemma header_value_end_ok:
  assumes "http_errno (psr c) = HPE_OK" "mark c = (\<lambda>_. None) \<and> p_state c = s_header_almost_done \<or>
      p_state c = s_header_value \<and> marks_ok s_header_value (mark c)"
    "value_state h" "i \<le> pos c" "pos c \<le> n" "i < n" "n = length buf"
  shows "flow_ok n i r (header_value_end buf start c h)"
  using assms
  by (auto simp: header_value_end_def macro_defs cinv_def set_header_def free_state_def value_state_def
      intro!: count_ok)

lemma header_value_loop_ok:
  assumes "http_errno (psr c) = HPE_OK" "header_limit_ok (psr c)" "p_state c = s_header_value"
    "marks_ok s_header_value (mark c)" "value_state h" "value_state (header_state (psr c))"
    "i \<le> pos c" "pos c \<le> length buf" "i < length buf"
  shows "flow_ok (length buf) i 1 (header_value_loop S buf start c h)"
  using assms
proof (induction "length buf - pos c" arbitrary: c h rule: less_induct)
  case less
  let ?n = "length buf"
  define c1 where "c1 = c\<lparr>ch := buf ! pos c\<rparr>"
  have c1: "http_errno (psr c1) = HPE_OK" "header_limit_ok (psr c1)" "p_state c1 = s_header_value"
    "marks_ok s_header_value (mark c1)" "value_state (header_state (psr c1))" "pos c1 = pos c"
    using less by (simp_all add: c1_def)
  have none: "(mark c1)(D_header_value := None) = (\<lambda>_. None)"
    using marks_ok_only [OF c1(4), of D_header_value] by simp
  note unfold = header_value_loop.simps [of S buf start c h] Let_def c1_def [symmetric]
  consider "?n \<le> pos c" | "pos c < ?n" "ch c1 = CR" | "pos c < ?n" "ch c1 = LF"
    | "pos c < ?n" "ch c1 \<noteq> CR" "ch c1 \<noteq> LF" by linarith
  then show ?case
  proof cases
    case 1
    with less.prems show ?thesis by (simp add: unfold header_value_end_ok)
  next
    case 2
    then show ?thesis
      using less.prems c1 none
      by (auto simp: unfold macro_defs set_header_def free_state_def intro!: data_ok header_value_end_ok)
  next
    case 3
    then show ?thesis
      using less.prems c1 none
      by (auto simp: unfold macro_defs set_header_def cinv_def free_state_def marks_ok_plain
          plain_state_def url_mark_state_def rank_def intro!: count_ok data_ok)
  next
    case 4
    have step: "value_step_ok ?n i 1 c1 (header_value_byte buf c1 h)"
      using less.prems c1 4 by (intro header_value_byte_ok) auto
    show ?thesis
    proof (cases "header_value_byte buf c1 h")
      case (Inl f)
      with 4 step less.prems(8) c1(6) show ?thesis
        by (simp add: unfold value_step_ok_def macro_defs)
    next
      case (Inr p)
      obtain c2 h2 where p: "p = (c2, h2)" by force
      have pos: "pos c1 \<le> pos c2" "pos c2 < ?n"
        using header_value_byte_pos [of buf c1 h c2 h2] Inr p 4 by (simp_all add: c1_def)
      have "flow_ok ?n i 1 (header_value_loop S buf start (c2\<lparr>pos := Suc (pos c2)\<rparr>) h2)"
        using step pos less.prems c1 4
        by (intro less.hyps) (simp_all add: value_step_ok_def Inr p)
      with 4 Inr p less.prems(8) c1(6) show ?thesis
        by (simp add: unfold macro_defs)
    qed
  qed
qed

lemma st_header_value_ok:
  assumes "cinv 1 c" "p_state c = s_header_value" "pos c < length buf"
  shows "flow_ok (length buf) (pos c) (rank (p_state c)) (st_header_value S buf c)"
  using assms header_value_loop_ok [of c "header_state (psr c)" "pos c" buf "pos c"]
  by (simp add: st_header_value_def cinv_def value_state_def rank_def)

section \<open>Bodies and chunks\<close>

lemma consume_body_ok:
  assumes "pos c < length buf" "content_length (psr c) \<noteq> 0"
  shows "pos c \<le> pos (consume_body buf c)" "pos (consume_body buf c) < length buf"
    "content_length (psr (consume_body buf c)) \<le> content_length (psr c)"
    "psr (consume_body buf c) =
       (psr c)\<lparr>content_length := content_length (psr (consume_body buf c))\<rparr>"
    "p_state (consume_body buf c) = p_state c" "ch (consume_body buf c) = ch c"
    "(mark (consume_body buf c))(D_body := None) = (mark c)(D_body := None)"
proof -
  let ?l = "content_length (psr c)"
  let ?t = "min (unat ?l) (length buf - pos c)"
  have l: "0 < unat ?l" using assms(2) by (simp add: unat_gt_0)
  show "pos c \<le> pos (consume_body buf c)" "pos (consume_body buf c) < length buf"
    using assms(1) l by (auto simp: consume_body_def Let_def MARK_def)
  have "?t mod 2 ^ 64 \<le> unat ?l" by (rule order_trans [OF mod_less_eq_dividend]) simp
  then have "of_nat ?t \<le> ?l" by (simp only: word_le_nat_alt unat_of_nat len_num0 len_bit0 len_num1) simp
  then have "?l - of_nat ?t \<le> ?l" by (simp add: word_sub_le)
  then show "content_length (psr (consume_body buf c)) \<le> ?l"
    by (simp add: consume_body_def Let_def MARK_def)
  show "psr (consume_body buf c) = (psr c)\<lparr>content_length := content_length (psr (consume_body buf c))\<rparr>"
    "p_state (consume_body buf c) = p_state c" "ch (consume_body buf c) = ch c"
    "(mark (consume_body buf c))(D_body := None) = (mark c)(D_body := None)"
    by (auto simp: consume_body_def Let_def MARK_def)
qed

lemma below_ULLONG_MAX: "l \<le> l' \<Longrightarrow> l' \<noteq> ULLONG_MAX \<Longrightarrow> l \<noteq> ULLONG_MAX"
  unfolding ULLONG_MAX_def using word_order.extremum_uniqueI by blast

lemma st_body_identity_ok:
  assumes "cinv 1 c" "p_state c = s_body_identity" "pos c < length buf"
  shows "flow_ok (length buf) (pos c) (rank (p_state c)) (st_body_identity S buf c)"
proof -
  define c1 where "c1 = consume_body buf c"
  have c: "http_errno (psr c) = HPE_OK" "header_limit_ok (psr c)" "\<not> has_flag (flags (psr c)) F_CHUNKED"
    "content_length (psr c) \<noteq> ULLONG_MAX" "content_length (psr c) \<noteq> 0" "marks_ok s_body_identity (mark c)"
    using assms by (simp_all add: cinv_def)
  note cb = consume_body_ok [OF assms(3) c(5), folded c1_def]
  have none: "(mark c1)(D_body := None) = (\<lambda>_. None)"
    using cb(7) marks_ok_only [OF c(6), of D_body] by simp
  have m: "marks_ok s_body_identity (mark c1)"
    by (rule marks_ok_one [OF none]) simp
  have q: "http_errno (psr c1) = HPE_OK" "header_limit_ok (psr c1)" "\<not> has_flag (flags (psr c1)) F_CHUNKED"
    using c by (subst cb(4), simp)+
  show ?thesis
    using c cb(1-3,5) assms(2) none m q below_ULLONG_MAX [OF cb(3) c(4)]
    by (auto simp: st_body_identity_def assert_that_def Let_def c1_def [symmetric] macro_defs cinv_def
        free_state_def marks_ok_plain plain_state_def url_mark_state_def rank_def intro!: data_ok)
qed

lemma st_body_identity_eof_ok:
  assumes "cinv 1 c" "p_state c = s_body_identity_eof" "pos c < length buf"
  shows "flow_ok (length buf) (pos c) r (st_body_identity_eof buf c)"
  using assms by (auto simp: st_body_identity_eof_def cinv_def MARK_def marks_ok_set)

end


text \<open>The overflow tests keep both lengths below \<open>ULLONG_MAX\<close>.\<close>

lemma unhex_at_range: "-1 \<le> unhex_at x \<and> unhex_at x \<le> 15"
proof -
  have "\<forall>v \<in> set unhex. -1 \<le> v \<and> v \<le> 15" by (simp add: unhex_def)
  moreover have "unhex_at x \<in> set unhex \<or> unhex_at x = 0"
    by (auto simp: unhex_at_def)
  ultimately show ?thesis by auto
qed

lemma unat_of_unhex:
  assumes "unhex_at x \<noteq> -1"
  shows "unat (of_int (unhex_at x) :: 64 word) = nat (unhex_at x)" "nat (unhex_at x) \<le> 15"
proof -
  have r: "0 \<le> unhex_at x" "unhex_at x \<le> 15" using unhex_at_range [of x] assms by auto
  then have "unat (of_int (unhex_at x) :: 64 word) = nat (unhex_at x mod 2 ^ 64)"
    by (simp add: unat_eq_nat_uint uint_word_of_int)
  with r show "unat (of_int (unhex_at x) :: 64 word) = nat (unhex_at x)" "nat (unhex_at x) \<le> 15"
    by simp_all
qed

lemma unat_ULLONG_MAX: "unat ULLONG_MAX = 2 ^ 64 - 1"
  by (simp add: ULLONG_MAX_def unsigned_minus_1_eq_mask mask_eq_exp_minus_1)

lemma scaled_length:
  fixes l v :: "64 word"
  assumes "unat l \<le> (2 ^ 64 - 1 - b) div b" "unat v < b" "0 < b" "b < 2 ^ 32"
  shows "unat (l * of_nat b + v) = unat l * b + unat v" "unat l * b + unat v < 2 ^ 64 - 1"
proof -
  have "unat l * b \<le> 2 ^ 64 - 1 - b"
    using mult_le_mono1 [OF assms(1), of b] div_times_less_eq_dividend [of "2 ^ 64 - 1 - b" b] by linarith
  then show s: "unat l * b + unat v < 2 ^ 64 - 1" using assms(2,4) by simp
  then show "unat (l * of_nat b + v) = unat l * b + unat v"
    using assms(4) by (simp add: unat_word_ariths unat_of_nat)
qed

lemma below_max: "unat l < 2 ^ 64 - 1 \<Longrightarrow> l \<noteq> ULLONG_MAX"
  using unat_ULLONG_MAX by fastforce

lemma chunk_size_scaled:
  assumes "\<not> (ULLONG_MAX - 16) div 16 < l" "unhex_at x \<noteq> -1"
  shows "unat (l * 16 + of_int (unhex_at x)) = unat l * 16 + nat (unhex_at x)"
    "unat l * 16 + nat (unhex_at x) < 2 ^ 64 - 1" "l * 16 + of_int (unhex_at x) \<noteq> ULLONG_MAX"
proof -
  have "unat l \<le> (2 ^ 64 - 1 - 16) div 16"
    using assms(1) by (simp add: word_less_nat_alt unat_div ULLONG_MAX_def)
  from scaled_length [OF this, of "of_int (unhex_at x)"] unat_of_unhex [OF assms(2)]
  show s: "unat (l * 16 + of_int (unhex_at x)) = unat l * 16 + nat (unhex_at x)"
    "unat l * 16 + nat (unhex_at x) < 2 ^ 64 - 1" by simp_all
  show "l * 16 + of_int (unhex_at x) \<noteq> ULLONG_MAX" by (rule below_max) (use s in simp)
qed

context http_client begin

lemma st_chunk_size_start_ok:
  assumes "cinv 1 c" "p_state c = s_chunk_size_start" "pos c < n"
  shows "flow_ok n (pos c) r (st_chunk_size_start c)"
proof -
  have c: "http_errno (psr c) = HPE_OK" "header_limit_ok (psr c)" "chunk_flags_ok (psr c)"
    "unat (nread (psr c)) = 1" "mark c = (\<lambda>_. None)"
    using assms by (simp_all add: cinv_def marks_ok_plain plain_state_def url_mark_state_def)
  then have "nread (psr c) = 1" "has_flag (flags (psr c)) F_CHUNKED"
    by (auto simp: chunk_flags_ok_def word_unat_eq_iff)
  moreover have "of_int (unhex_at (ch c)) \<noteq> ULLONG_MAX" if "unhex_at (ch c) \<noteq> -1"
    by (rule below_max) (use unat_of_unhex [OF that] in simp)
  ultimately show ?thesis
    using assms(3) c by (simp add: st_chunk_size_start_def assert_that_def macro_defs cinv_def)
qed

lemma st_chunk_size_ok:
  "cinv 1 c \<Longrightarrow> p_state c = s_chunk_size \<Longrightarrow> pos c < n \<Longrightarrow> flow_ok n (pos c) r (st_chunk_size c)"
  by (auto simp: st_chunk_size_def assert_that_def macro_defs inv_defs chunk_flags_ok_def
      chunk_size_scaled(3))

lemma st_chunk_parameters_ok:
  "cinv 1 c \<Longrightarrow> p_state c = s_chunk_parameters \<Longrightarrow> pos c < n \<Longrightarrow> flow_ok n (pos c) r (st_chunk_parameters c)"
  by (auto simp: st_chunk_parameters_def assert_that_def macro_defs inv_defs chunk_flags_ok_def)

lemma st_chunk_size_almost_done_ok:
  "cinv 1 c \<Longrightarrow> p_state c = s_chunk_size_almost_done \<Longrightarrow> pos c < n \<Longrightarrow>
   flow_ok n (pos c) r (st_chunk_size_almost_done S c)"
  by (auto simp: st_chunk_size_almost_done_def assert_that_def macro_defs inv_defs chunk_flags_ok_def
      add_flag_def intro!: notify_ok)

lemma st_chunk_data_ok:
  assumes "cinv 1 c" "p_state c = s_chunk_data" "pos c < length buf"
  shows "flow_ok (length buf) (pos c) r (st_chunk_data buf c)"
proof -
  define c1 where "c1 = consume_body buf c"
  have c: "http_errno (psr c) = HPE_OK" "header_limit_ok (psr c)" "chunk_flags_ok (psr c)"
    "content_length (psr c) \<noteq> ULLONG_MAX" "content_length (psr c) \<noteq> 0" "marks_ok s_chunk_data (mark c)"
    using assms by (simp_all add: cinv_def)
  note cb = consume_body_ok [OF assms(3) c(5), folded c1_def]
  have none: "(mark c1)(D_body := None) = (\<lambda>_. None)"
    using cb(7) marks_ok_only [OF c(6), of D_body] by simp
  have m: "marks_ok s_chunk_data (mark c1)" "marks_ok s_chunk_data_almost_done (mark c1)"
    using none by (simp_all add: marks_ok_one)
  have q: "http_errno (psr c1) = HPE_OK" "header_limit_ok (psr c1)" "chunk_flags_ok (psr c1)"
    using c by (subst cb(4), simp)+
  show ?thesis
    using c cb(1-3,5) assms(2) m q below_ULLONG_MAX [OF cb(3) c(4)]
    by (auto simp: st_chunk_data_def assert_that_def Let_def c1_def [symmetric] macro_defs cinv_def
        chunk_flags_ok_def)
qed

lemma st_chunk_data_almost_done_ok:
  assumes "cinv 1 c" "p_state c = s_chunk_data_almost_done" "pos c < n"
  shows "flow_ok n (pos c) r (st_chunk_data_almost_done S buf c)"
proof -
  have "(mark c)(D_body := None) = (\<lambda>_. None)"
    using assms marks_ok_only [of s_chunk_data_almost_done "mark c" D_body] by (simp add: cinv_def)
  with assms show ?thesis
    by (auto simp: st_chunk_data_almost_done_def assert_that_def macro_defs inv_defs chunk_flags_ok_def
        intro!: data_ok)
qed

lemma st_chunk_data_done_ok:
  "cinv 1 c \<Longrightarrow> p_state c = s_chunk_data_done \<Longrightarrow> pos c < n \<Longrightarrow>
   flow_ok n (pos c) r (st_chunk_data_done S c)"
  by (auto simp: st_chunk_data_done_def assert_that_def macro_defs inv_defs chunk_flags_ok_def
      intro!: notify_ok)

section \<open>The loop\<close>

lemma dispatch_ok:
  assumes "cinv 1 c" "pos c < length buf"
  shows "flow_ok (length buf) (pos c) (rank (p_state c)) (dispatch S buf c)"
proof (cases "url_mark_state (p_state c)")
  case True
  then show ?thesis
    using assms st_req_schema_ok [OF assms(1) True assms(2)] st_req_url_ok [OF assms(1) True assms(2)]
    by (auto simp: url_mark_state_def dispatch_def)
next
  case False
  have small: "flow_ok (length buf) (pos c) r (st_expect x t c)"
    "flow_ok (length buf) (pos c) r (st_http_major t c)"
    "flow_ok (length buf) (pos c) r (st_http_dot t c)"
    "flow_ok (length buf) (pos c) r (st_http_minor t c)"
    if "plain_state (p_state c)" "free_state (p_state c)" "plain_state t" "free_state t" for t r x
    using small_steps_ok [OF assms(1) that(1,2) assms(2) that(3,4)] by blast+
  have small': "flow_ok (length buf) (pos c) r (f c)"
    if "plain_state (p_state c)" "free_state (p_state c)"
      "f \<in> {st_res_http_end, st_res_first_status_code, st_req_http_start, st_req_http_end,
        st_req_line_almost_done, st_header_almost_done, st_header_value_discard_ws_almost_done,
        st_header_value_start}" for f r
    using that small_steps_ok [OF assms(1) that(1,2) assms(2), of s_dead]
      st_header_value_start_ok [OF assms(1) that(1,2) assms(2)]
    by (auto simp: plain_state_def free_state_def url_mark_state_def)
  note steps = st_dead_ok st_res_or_resp_H_ok st_start_res_ok
    st_res_status_ok st_start_req_ok st_req_method_ok
    st_req_spaces_before_url_ok st_header_field_ok st_header_value_discard_ws_ok
    st_chunk_size_start_ok
    st_chunk_size_ok st_chunk_parameters_ok st_chunk_size_almost_done_ok
    st_headers_done_ok st_chunk_data_ok st_chunk_data_almost_done_ok st_chunk_data_done_ok
    st_body_identity_eof_ok st_message_done_ok
  note ranked = st_start_req_or_res_ok st_res_status_code_ok st_res_status_start_ok
    st_header_field_start_ok st_header_value_lws_ok st_header_value_discard_lws_ok
    st_headers_almost_done_ok st_header_value_ok st_body_identity_ok
  define r where "r = rank (p_state c)"
  have "flow_ok (length buf) (pos c) r (dispatch S buf c)"
    using assms False
    by (cases "p_state c")
      (simp_all add: dispatch_def steps ranked [OF assms(1) _ assms(2), folded r_def] small small'
        plain_state_def free_state_def url_mark_state_def
        del: One_nat_def)
  then show ?thesis by (simp add: r_def)
qed

lemma loop_head_ok:
  assumes "cinv 0 c" "pos c < length buf"
  shows "flow_ok (length buf) (pos c) 5 (loop_head S buf c)"
proof -
  have r: "rank (p_state c) < 5" using rank_le [of "p_state c"] by simp
  define c1 where "c1 = c\<lparr>ch := buf ! pos c\<rparr>"
  have c: "http_errno (psr c1) = HPE_OK" "pinv 0 (p_state c1) (psr c1)" "marks_ok (p_state c1) (mark c1)"
    "p_state c1 = p_state c" "pos c1 = pos c"
    using assms by (simp_all add: cinv_def c1_def)
  have count: "pinv 1 (p_state c1) ((psr c1)\<lparr>nread := w\<rparr>)"
    if "header_limit_ok ((psr c1)\<lparr>nread := w\<rparr>)" "w = nread (psr c1) + of_nat 1" for w
    using c(2) that by (auto simp: pinv_def header_limit_ok_def unat_eq_0)
  show ?thesis
  proof (cases "PARSING_HEADER (p_state c1)")
    case True
    then show ?thesis
      using assms(2) c r count
      by (auto simp: loop_head_def Let_def c1_def [symmetric] cinv_def simp del: PARSING_HEADER_iff
          intro!: count_ok)
  next
    case False
    then have "p_state c1 \<noteq> s_chunk_size_start" by auto
    with False show ?thesis
      using assms(2) c r pinv_switch [of "p_state c1" 1 "psr c1"]
      by (simp add: loop_head_def Let_def c1_def [symmetric] cinv_def del: PARSING_HEADER_iff)
  qed
qed

lemma flush_marks_ok:
  assumes "cinv 0 c" "pos c = length buf"
  shows "flow_ok (length buf) i r (flush_marks S buf c)"
proof -
  have c: "http_errno (psr c) = HPE_OK" "pinv 0 (p_state c) (psr c)" "marks_ok (p_state c) (mark c)"
    using assms by (simp_all add: cinv_def)
  have frame: "pinv 0 s (q\<lparr>state := st, data := d\<rparr>) = pinv 0 s q" for s st d and q :: "'d http_parser"
    by (rule pinv_cong) simp_all
  have frame': "pinv 0 s (q\<lparr>state := st\<rparr>) = pinv 0 s q" "pinv 0 s (q\<lparr>data := d\<rparr>) = pinv 0 s q" for s st d and q :: "'d http_parser"
    by (rule pinv_cong; simp)+
  show ?thesis
    using c assms(2) marks_set_le [OF c(3)]
    by (auto simp: flush_marks_def assert_that_def CALLBACK_DATA_NOADVANCE_def RETURN_def parser_ok_def
        frame frame' intro!: data_ok)
qed

end


section \<open>Whole calls\<close>

text \<open>
  The measure: six for every byte that is left, and the rank of the state at the label
  \<open>reexecute\<close>.
\<close>

primrec control_measure :: "nat \<Rightarrow> 'd control \<Rightarrow> nat" where
  "control_measure n (At_loop c) = 6 * (n - pos c) + 6"
| "control_measure n (At_switch c) = 6 * (n - pos c) + 1 + rank (p_state c)"
| "control_measure n (Halted r) = 0"

text \<open>
  What a call of at least one byte returns: it never reads past the bytes, and it stops short
  of them only on an error, a pause or an upgrade.
\<close>

primrec outcome_ok :: "nat \<Rightarrow> 'd outcome \<Rightarrow> bool" where
  "outcome_ok n (Returned m q) \<longleftrightarrow>
     m \<le> n \<and> parser_ok q \<and> (m < n \<longrightarrow> http_errno q \<noteq> HPE_OK \<or> upgrade q)"
| "outcome_ok n Aborted \<longleftrightarrow> False"

primrec control_ok :: "nat \<Rightarrow> 'd control \<Rightarrow> bool" where
  "control_ok n (At_loop c) \<longleftrightarrow> cinv 0 c \<and> pos c \<le> n"
| "control_ok n (At_switch c) \<longleftrightarrow> cinv 1 c \<and> pos c < n"
| "control_ok n (Halted r) \<longleftrightarrow> outcome_ok n r"

lemma control_of_ok:
  assumes "flow_ok n i r f"
  shows "control_ok n (control_of f)"
  using assms by (cases f) (auto simp: parse_error_def SET_ERRNO_def parser_ok_def cinv_def Let_def)

lemma control_of_measure:
  assumes "flow_ok n i r f" "i < n"
  shows "control_measure n (control_of f) < 6 * (n - i) + 1 + r"
proof (cases f)
  case (Reexecute c)
  with assms have "i \<le> pos c" "rank (p_state c) < r" by simp_all
  then have "6 * (n - pos c) \<le> 6 * (n - i)" by simp
  with Reexecute \<open>rank (p_state c) < r\<close> show ?thesis by simp
next
  case (Break c)
  with assms have "i \<le> pos c" "pos c < n" by simp_all
  then have "6 * (n - Suc (pos c)) + 6 \<le> 6 * (n - i)" by simp
  with Break show ?thesis by simp
qed (use assms in simp_all)

context http_client begin

lemma exec_step_ok:
  assumes "control_ok (length buf) k"
  shows "control_ok (length buf) (exec_step S buf k)"
    "running k \<Longrightarrow> control_measure (length buf) (exec_step S buf k) < control_measure (length buf) k"
proof (atomize (full), cases k)
  case (At_loop c)
  show "control_ok (length buf) (exec_step S buf k) \<and>
    (running k \<longrightarrow> control_measure (length buf) (exec_step S buf k) < control_measure (length buf) k)"
  proof (cases "pos c = length buf")
    case True
    then have f: "flow_ok (length buf) i 0 (loop_head S buf c)" for i
      using assms At_loop flush_marks_ok [of c buf i 0] by (simp add: loop_head_def)
    from f [of "length buf"] have "\<exists>r. control_of (loop_head S buf c) = Halted r"
      by (cases "loop_head S buf c") auto
    with control_of_ok [OF f [of 0]] At_loop show ?thesis by auto
  next
    case False
    then have "pos c < length buf" using assms At_loop by simp
    with loop_head_ok [of c buf] assms At_loop control_of_ok control_of_measure show ?thesis
      by fastforce
  qed
next
  case (At_switch c)
  with dispatch_ok [of c buf] assms control_of_ok control_of_measure
  show "control_ok (length buf) (exec_step S buf k) \<and>
    (running k \<longrightarrow> control_measure (length buf) (exec_step S buf k) < control_measure (length buf) k)"
    by fastforce
next
  case (Halted r)
  with assms show "control_ok (length buf) (exec_step S buf k) \<and>
    (running k \<longrightarrow> control_measure (length buf) (exec_step S buf k) < control_measure (length buf) k)"
    by simp
qed

lemma run_loop_ok:
  assumes "control_ok (length buf) k"
  shows "\<exists>r. run_loop S buf k = Some r \<and> outcome_ok (length buf) r"
proof -
  obtain k' where k': "while_option running (exec_step S buf) k = Some k'"
    using measure_while_option_Some [of "control_ok (length buf)" running "exec_step S buf"
        "control_measure (length buf)" k] assms exec_step_ok by blast
  have "control_ok (length buf) k'"
    using while_option_rule [where P = "control_ok (length buf)", OF _ k' assms] exec_step_ok(1) by blast
  with while_option_stop [OF k'] k' show ?thesis
    by (cases k') (simp_all add: run_loop_def)
qed

lemma initial_ok:
  assumes "parser_ok q" "http_errno q = HPE_OK"
  shows "control_ok n (At_loop (initial_ctx q))"
  using assms by (auto simp: initial_ctx_def cinv_def parser_ok_def marks_ok_def initial_mark_def)

lemma execute_eof_ok:
  assumes "parser_ok q" "http_errno q = HPE_OK"
  shows "\<exists>m q'. execute_eof S q = Return m q' \<and> m \<le> 1 \<and> parser_ok q'"
proof -
  have pq: "pinv 0 (state q) q" using assms by (simp add: parser_ok_def)
  have "\<exists>m q'. execute_eof S q = Return m q' \<and> m \<le> 1 \<and> parser_ok q'"
    if st: "state q = s_body_identity_eof"
  proof (cases "on_message_complete S")
    case None
    then show ?thesis
      using assms st
      by (simp add: execute_eof_def macro_defs CALLBACK_NOTIFY_ER_def assert_that_def initial_ctx_def)
  next
    case (Some cb)
    define q' where "q' = snd (cb q)"
    have "obeys q q'"
      using notify_obeys [of N_message_complete cb q] Some assms(2) by (simp add: q'_def)
    then have ob: "q' = q\<lparr>http_errno := http_errno q', data := data q'\<rparr>" by (simp add: obeys_def)
    have "state q' = state q" by (subst ob) simp
    moreover have "pinv 0 s q' = pinv 0 s q" for s by (subst ob, rule pinv_cong) simp_all
    ultimately have ok: "parser_ok q'" using pq by (simp add: parser_ok_def)
    have noop: "q\<lparr>state := s_body_identity_eof\<rparr> = q" using st[symmetric] by (cases q) simp
    show ?thesis
      using assms st Some ok
      by (auto simp: execute_eof_def macro_defs CALLBACK_NOTIFY_ER_def assert_that_def initial_ctx_def
          after_callback_def q'_def noop parser_ok_def)
  qed
  then show ?thesis
    using pq assms by (cases "state q") (simp_all add: execute_eof_def parser_ok_def)
qed

lemma execute_ok:
  assumes "parser_ok q"
  shows "\<exists>m q'. http_parser_execute S q buf = Some (Returned m q') \<and> m \<le> max 1 (length buf) \<and>
    parser_ok q' \<and> (m < length buf \<longrightarrow> http_errno q' \<noteq> HPE_OK \<or> upgrade q')"
proof -
  consider "http_errno q \<noteq> HPE_OK" | "http_errno q = HPE_OK" "length buf = 0"
    | "http_errno q = HPE_OK" "length buf \<noteq> 0" by blast
  then show ?thesis
  proof cases
    case 1
    then show ?thesis using assms by (simp add: http_parser_execute_def)
  next
    case 2
    then show ?thesis
      using execute_eof_ok [OF assms 2(1)] by (auto simp: http_parser_execute_def)
  next
    case 3
    from run_loop_ok [OF initial_ok [OF assms 3(1)]] obtain r where
      "run_loop S buf (At_loop (initial_ctx q)) = Some r" "outcome_ok (length buf) r" by blast
    with 3 show ?thesis by (cases r) (auto simp: http_parser_execute_def)
  qed
qed

end

lemma http_parser_init_ok: "parser_ok (http_parser_init q t)"
  by (simp add: parser_ok_def http_parser_init_def start_state_def free_state_def header_limit_ok_def)

end
