(* ===== verification/Http_Message.thy ===== *)
theory Http_Message
  imports Http_Safety
begin

text \<open>
  What the handlers of \<open>http_parser_execute\<close> compute: the character classes of the tables, the
  method matcher, the header-name matcher, the numbers of Content-Length and of chunk sizes,
  and the bytes of a body of known length.
\<close>

section \<open>Character tables\<close>

text \<open>A statement on characters, split on their eight bits.\<close>

lemma all_chars:
  "(\<forall>c. P c) \<longleftrightarrow> (\<forall>b0 b1 b2 b3 b4 b5 b6 b7. P (Char b0 b1 b2 b3 b4 b5 b6 b7))"
  by (metis char.exhaust)

lemmas char_enum = all_chars all_bool_eq
lemmas char_eval = less_eq_char_def less_char_def

lemma url_char_class_all:
  "\<forall>c. IS_URL_CHAR c \<longleftrightarrow> 32 < char_code c \<and> char_code c < 127 \<and> c \<noteq> CHR ''#'' \<and> c \<noteq> CHR ''?''"
  unfolding char_enum
  by (intro conjI; simp add: IS_URL_CHAR_def BIT_AT_def normal_url_char_def)

lemma unhex_class:
  "\<forall>c. unhex_at c = (if IS_NUM c then int (digit_value c)
     else if CHR ''a'' \<le> LOWER c \<and> LOWER c \<le> CHR ''f'' \<and> char_code c < 128 then int (char_code (LOWER c)) - 87
     else if char_code c < 128 then -1 else 0)"
  unfolding char_enum
  by (intro conjI; simp add: unhex_at_def unhex_def digit_value_def IS_NUM_def is_digit_def less_eq_char_def)

lemma token_class_all:
  "\<forall>c. TOKEN c = (if IS_ALPHA c then LOWER c
     else if IS_NUM c \<or> c \<in> set ''!#$%&*+-.^_`|~'' \<or> c = QUOTE then c else NUL)"
  unfolding char_enum
  by (intro conjI; simp add: TOKEN_def STRICT_TOKEN_def tokens_def IS_ALPHA_def IS_NUM_def is_digit_def less_eq_char_def)

section \<open>Methods\<close>

text \<open>The bytes read so far are the first \<open>index\<close> bytes of the name of the method.\<close>

definition method_prefix :: "string \<Rightarrow> 'd http_parser \<Rightarrow> bool" where
  "method_prefix pre q \<longleftrightarrow> unat (index q) = length pre \<and>
     length pre \<le> length (method_string (req_method q)) \<and> pre = take (length pre) (method_string (req_method q))"

lemma first_method_prefix:
  "first_method x = Some m \<Longrightarrow> method_string m \<noteq> [] \<and> [x] = take 1 (method_string m)"
  by (auto simp: first_method_def method_string_def method_strings_def split: if_splits)

lemma method_branch_prefix:
  "map_of method_branches (m, i, x) = Some m' \<Longrightarrow>
     i < length (method_string m') \<and> take (Suc i) (method_string m') = take i (method_string m) @ [x]"
proof -
  assume "map_of method_branches (m, i, x) = Some m'"
  then have "((m, i, x), m') \<in> set method_branches" by (rule map_of_SomeD)
  moreover have "\<forall>((m, i, x), m') \<in> set method_branches.
      i < length (method_string m') \<and> take (Suc i) (method_string m') = take i (method_string m) @ [x]"
    by (simp add: method_branches_def method_string_def method_strings_def)
  ultimately show ?thesis by blast
qed

lemma method_length: "length (method_string m) < 127"
  by (cases m) (simp_all add: method_string_def method_strings_def)

lemma method_no_NUL: "NUL \<notin> set (method_string m)"
  by (cases m) (simp_all add: method_string_def method_strings_def)

lemma method_step:
  assumes "method_prefix pre (psr c)" "st_req_method c = Break c'"
  shows "p_state c' = s_req_spaces_before_url \<and> ch c = CHR '' '' \<and> pre = method_string (req_method (psr c')) \<or>
    p_state c' = p_state c \<and> method_prefix (pre @ [ch c]) (psr c')"
proof -
  let ?m = "req_method (psr c)" and ?i = "unat (index (psr c))"
  have pre: "?i = length pre" "length pre \<le> length (method_string ?m)" "pre = take (length pre) (method_string ?m)"
    using assms(1) by (simp_all add: method_prefix_def)
  have "length pre < 127" using pre(2) method_length [of ?m] by linarith
  then have inc: "unat (index (psr c) + 1) = Suc (length pre)"
    using pre(1) by (simp add: unat_word_ariths)
  obtain x where x: "c_string_at (method_string ?m) ?i = Some x"
    using c_string_at_defined [of "method_string ?m" ?i] pre by auto
  have whole: "pre = method_string ?m" if "x = NUL"
    using x that pre method_no_NUL [of ?m]
    by (auto simp: c_string_at_def split: if_splits) (metis nth_mem)
  have same: "length pre < length (method_string ?m) \<and> method_string ?m ! length pre = ch c"
    if "ch c = x" "ch c \<noteq> NUL"
    using c_string_at_SomeD [OF x] that pre(1) by auto
  show ?thesis
    using assms(2) x same whole method_branch_prefix [of ?m "length pre" "ch c"] pre inc
    by (auto simp: st_req_method_def Let_def UPDATE_STATE_def error_with_def method_prefix_def
        take_Suc_conv_app_nth split: if_splits option.splits)
qed

text \<open>Several bytes through a handler, as long as it only leaves the switch.\<close>

fun feed :: "('d ctx \<Rightarrow> 'd flow) \<Rightarrow> string \<Rightarrow> 'd ctx \<Rightarrow> 'd flow" where
  "feed h [] c = Break c"
| "feed h (x # xs) c =
     (case h (c\<lparr>ch := x\<rparr>) of
        Break c' \<Rightarrow> feed h xs (c'\<lparr>pos := Suc (pos c')\<rparr>)
      | f \<Rightarrow> f)"

lemma method_complete:
  assumes "p_state c = s_start_req" "on_message_begin S = None" "http_errno (psr c) = HPE_OK"
  shows "\<exists>c'. feed (dispatch S buf) (method_string m @ '' '') c = Break c' \<and>
    p_state c' = s_req_spaces_before_url \<and> req_method (psr c') = m"
  using assms
  by (cases m)
    (simp_all add: method_string_def method_strings_def dispatch_def st_start_req_def new_message_fields_def
     IS_ALPHA_def less_eq_char_def first_method_def CALLBACK_NOTIFY_def CALLBACK_NOTIFY_ER_def assert_that_def
     UPDATE_STATE_def st_req_method_def c_string_at_def Let_def method_branches_def)

section \<open>Content-Length\<close>

text \<open>The digits of a value, one after the other, through \<open>content_length_byte\<close>.\<close>

fun feed_length :: "string \<Rightarrow> 'd ctx \<Rightarrow> header_states \<Rightarrow> 'd flow + ('d ctx \<times> header_states)" where
  "feed_length [] c h = Inr (c, h)"
| "feed_length (x # xs) c h =
     (case content_length_byte (c\<lparr>ch := x\<rparr>) h of
        Inl f \<Rightarrow> Inl f
      | Inr (c', h') \<Rightarrow> feed_length xs c' h')"

lemma unat_max_div: "unat ((ULLONG_MAX - 10) div 10 :: 64 word) = (2 ^ 64 - 11) div 10"
  by (simp add: ULLONG_MAX_def unat_div)

lemma content_length_digit:
  assumes "is_digit (ch c)"
  shows "content_length_byte c h =
    (if (2 ^ 64 - 11) div 10 < unat (content_length (psr c))
     then Inl (error_with HPE_INVALID_CONTENT_LENGTH (c\<lparr>psr := set_header h (psr c)\<rparr>))
     else Inr (c\<lparr>psr := (psr c)\<lparr>content_length :=
            of_nat (10 * unat (content_length (psr c)) + digit_value (ch c))\<rparr>\<rparr>, h))"
proof -
  have sp: "ch c \<noteq> CHR '' ''" using assms by (auto simp: is_digit_def less_eq_char_def)
  have lt: "(ULLONG_MAX - 10) div 10 < content_length (psr c) \<longleftrightarrow>
      (2 ^ 64 - 11) div 10 < unat (content_length (psr c))"
    unfolding word_less_nat_alt unat_max_div ..
  have t: "content_length (psr c) * 10 + of_nat (digit_value (ch c)) =
      of_nat (10 * unat (content_length (psr c)) + digit_value (ch c))"
    by (simp add: mult.commute)
  show ?thesis
    using assms sp unfolding content_length_byte_def Let_def lt t by (simp add: IS_NUM_def)
qed

lemma content_length_digits:
  assumes "\<forall>x \<in> set ds. is_digit x" "feed_length ds c h = r"
  shows "(case r of
      Inr (c', h') \<Rightarrow> h' = h \<and> unat (content_length (psr c')) = decimal_from (unat (content_length (psr c))) ds
    | Inl f \<Rightarrow> (\<exists>c'. f = Goto_error c' \<and> http_errno (psr c') = HPE_INVALID_CONTENT_LENGTH) \<and>
        decimal_from (unat (content_length (psr c))) ds > 2 ^ 64 - 11)"
  using assms
proof (induction ds arbitrary: c)
  case Nil
  then show ?case by auto
next
  case (Cons x xs)
  let ?l = "unat (content_length (psr c))"
  have x: "is_digit x" and xs: "\<forall>y \<in> set xs. is_digit y" using Cons.prems(1) by simp_all
  have d: "digit_value x < 10" using x by (rule digit_value_bound)
  note byte = content_length_digit [of "c\<lparr>ch := x\<rparr>" h, simplified, OF x]
  show ?case
  proof (cases "(2 ^ 64 - 11) div 10 < ?l")
    case True
    have "10 * ?l + digit_value x \<le> decimal_from ?l (x # xs)"
      using decimal_from_mono [of "10 * ?l + digit_value x" xs] by simp
    moreover have "2 ^ 64 - 11 < 10 * ?l" using True by linarith
    ultimately have "2 ^ 64 - 11 < decimal_from ?l (x # xs)" by linarith
    with True Cons.prems(2) show ?thesis by (auto simp: byte error_with_def SET_ERRNO_def)
  next
    case False
    define c1 where "c1 = c\<lparr>ch := x, psr := (psr c)\<lparr>content_length := of_nat (10 * ?l + digit_value x)\<rparr>\<rparr>"
    have "10 * ?l + digit_value x < 2 ^ 64" using False d by simp
    then have l1: "unat (content_length (psr c1)) = 10 * ?l + digit_value x"
      by (simp add: c1_def unat_of_nat del: of_nat_add of_nat_mult)
    have "feed_length xs c1 h = r" using False Cons.prems(2) by (simp add: byte c1_def)
    from Cons.IH [OF xs this, unfolded l1] show ?thesis by (auto split: sum.splits)
  qed
qed

section \<open>Chunk sizes\<close>

definition is_hex_byte :: "char \<Rightarrow> bool" where
  "is_hex_byte x \<longleftrightarrow> IS_HEX x \<and> char_code x < 128"

definition hex_value :: "char \<Rightarrow> nat" where
  "hex_value x = (if IS_NUM x then digit_value x else char_code (LOWER x) - 87)"

fun hex_from :: "nat \<Rightarrow> string \<Rightarrow> nat" where
  "hex_from n [] = n"
| "hex_from n (x # xs) = hex_from (16 * n + hex_value x) xs"

lemma hex_from_mono: "n \<le> hex_from n xs"
proof (induction n xs rule: hex_from.induct)
  case (2 n x xs)
  have "n \<le> 16 * n + hex_value x" by simp
  also note 2
  finally show ?case by simp
qed simp

lemma unhex_hex:
  assumes "is_hex_byte x"
  shows "unhex_at x = int (hex_value x)" "hex_value x < 16" "x \<noteq> CR"
proof -
  have le: "CHR ''a'' \<le> LOWER x \<Longrightarrow> 97 \<le> char_code (LOWER x)"
    "LOWER x \<le> CHR ''f'' \<Longrightarrow> char_code (LOWER x) \<le> 102" by (simp_all add: less_eq_char_def)
  show u: "unhex_at x = int (hex_value x)"
    using assms le unhex_class
    by (auto simp: is_hex_byte_def IS_HEX_def hex_value_def of_nat_diff)
  show "hex_value x < 16"
    using unhex_at_range [of x] u by simp
  show "x \<noteq> CR" using assms by (auto simp: is_hex_byte_def IS_HEX_def IS_NUM_def is_digit_def less_eq_char_def)
qed

lemma unat_max_div16: "unat ((ULLONG_MAX - 16) div 16 :: 64 word) = (2 ^ 64 - 17) div 16"
  by (simp add: ULLONG_MAX_def unat_div)

lemma chunk_size_digit:
  assumes "is_hex_byte (ch c)" "has_flag (flags (psr c)) F_CHUNKED"
  shows "st_chunk_size c =
    (if (2 ^ 64 - 17) div 16 < unat (content_length (psr c)) then error_with HPE_INVALID_CONTENT_LENGTH c
     else Break (c\<lparr>psr := (psr c)\<lparr>content_length :=
            of_nat (16 * unat (content_length (psr c)) + hex_value (ch c))\<rparr>\<rparr>))"
proof -
  note u = unhex_hex [OF assms(1)]
  have lt: "(ULLONG_MAX - 16) div 16 < content_length (psr c) \<longleftrightarrow>
      (2 ^ 64 - 17) div 16 < unat (content_length (psr c))"
    unfolding word_less_nat_alt unat_max_div16 ..
  have t: "content_length (psr c) * 16 + of_int (unhex_at (ch c)) =
      of_nat (16 * unat (content_length (psr c)) + hex_value (ch c))"
    by (simp add: u(1) mult.commute)
  have "unhex_at (ch c) \<noteq> -1" using u(1) by simp
  then show ?thesis
    using assms(2) u(3) unfolding st_chunk_size_def assert_that_def Let_def lt t by simp
qed

lemma chunk_size_digits:
  assumes "\<forall>x \<in> set xs. is_hex_byte x" "has_flag (flags (psr c)) F_CHUNKED"
  shows "case feed st_chunk_size xs c of
      Break c' \<Rightarrow> p_state c' = p_state c \<and> flags (psr c') = flags (psr c) \<and>
        unat (content_length (psr c')) = hex_from (unat (content_length (psr c))) xs
    | Goto_error c' \<Rightarrow> http_errno (psr c') = HPE_INVALID_CONTENT_LENGTH \<and>
        hex_from (unat (content_length (psr c))) xs > 2 ^ 64 - 17
    | _ \<Rightarrow> False"
  using assms
proof (induction xs arbitrary: c)
  case Nil
  then show ?case by simp
next
  case (Cons x xs)
  let ?l = "unat (content_length (psr c))"
  have x: "is_hex_byte x" and xs: "\<forall>y \<in> set xs. is_hex_byte y" using Cons.prems(1) by simp_all
  note byte = chunk_size_digit [of "c\<lparr>ch := x\<rparr>", simplified, OF x Cons.prems(2)]
  show ?case
  proof (cases "(2 ^ 64 - 17) div 16 < ?l")
    case True
    have "16 * ?l + hex_value x \<le> hex_from ?l (x # xs)"
      using hex_from_mono [of "16 * ?l + hex_value x" xs] by simp
    moreover have "2 ^ 64 - 17 < 16 * ?l" using True by linarith
    ultimately have "2 ^ 64 - 17 < hex_from ?l (x # xs)" by linarith
    with True show ?thesis by (auto simp: byte error_with_def SET_ERRNO_def)
  next
    case False
    define c1 where "c1 = c\<lparr>ch := x, psr := (psr c)\<lparr>content_length := of_nat (16 * ?l + hex_value x)\<rparr>,
      pos := Suc (pos c)\<rparr>"
    have "16 * ?l + hex_value x < 2 ^ 64" using False unhex_hex(2) [OF x] by simp
    then have l1: "unat (content_length (psr c1)) = 16 * ?l + hex_value x"
      by (simp add: c1_def unat_of_nat del: of_nat_add of_nat_mult)
    have fl: "flags (psr c1) = flags (psr c)" "p_state c1 = p_state c" by (simp_all add: c1_def)
    have "feed st_chunk_size (x # xs) c = feed st_chunk_size xs c1" using False by (simp add: byte c1_def)
    with Cons.IH [OF xs, of c1] Cons.prems(2) l1 fl show ?thesis by (simp split: flow.splits)
  qed
qed

section \<open>Bodies of known length\<close>

lemma run_loop_step: "running k \<Longrightarrow> run_loop S buf k = run_loop S buf (exec_step S buf k)"
  unfolding run_loop_def by (subst while_option_unfold) simp

lemma run_loop_halted [simp]: "run_loop S buf (Halted r) = Some r"
  unfolding run_loop_def by (subst while_option_unfold) simp

lemma consume_part:
  assumes "length buf - pos c < unat (content_length (psr c))" "pos c < length buf" "mark c D_body = None"
  shows "consume_body buf c = c\<lparr>mark := (mark c)(D_body := Some (pos c)), pos := length buf - 1,
     psr := (psr c)\<lparr>content_length := content_length (psr c) - of_nat (length buf - pos c)\<rparr>\<rparr>"
  using assms by (simp add: consume_body_def Let_def MARK_def min_def)

lemma consume_rest:
  assumes "unat (content_length (psr c)) \<le> length buf - pos c" "pos c < length buf" "mark c D_body = None"
  shows "consume_body buf c = c\<lparr>mark := (mark c)(D_body := Some (pos c)),
     pos := pos c + unat (content_length (psr c)) - 1, psr := (psr c)\<lparr>content_length := 0\<rparr>\<rparr>"
  using assms by (simp add: consume_body_def Let_def MARK_def min_def)

lemma word_remainder:
  fixes w :: "64 word"
  assumes "n \<le> unat w"
  shows "unat (w - of_nat n) = unat w - n"
proof -
  have "unat w < 2 ^ LENGTH(64)" by (rule unsigned_less)
  then have "n < 2 ^ 64" using assms by simp
  then have u: "unat (of_nat n :: 64 word) = n" by (simp add: unat_of_nat)
  then have "(of_nat n :: 64 word) \<le> w" using assms by (simp add: word_le_nat_alt)
  then show ?thesis using u by (simp add: unat_sub)
qed

lemma body_part:
  assumes q: "http_errno q = HPE_OK" "state q = s_body_identity"
    and n: "0 < length buf" "length buf < unat (content_length q)" "content_length q \<noteq> ULLONG_MAX"
    and S: "on_body S = Some cb"
  shows "http_parser_execute S q buf =
    (let (r, q1) = cb (q\<lparr>content_length := content_length q - of_nat (length buf)\<rparr>) buf
     in Some (Returned (length buf) (if r \<noteq> 0 then q1\<lparr>http_errno := HPE_CB_body\<rparr> else q1)))"
proof -
  let ?c0 = "initial_ctx q"
  let ?c1 = "?c0\<lparr>ch := buf ! 0\<rparr>"
  let ?q2 = "q\<lparr>content_length := content_length q - of_nat (length buf)\<rparr>"
  let ?c2 = "?c1\<lparr>mark := (\<lambda>_. None)(D_body := Some 0), pos := length buf - 1, psr := ?q2\<rparr>"
  let ?c3 = "?c2\<lparr>pos := length buf\<rparr>"
  have m0: "mark ?c0 = (\<lambda>_. None)"
    using q by (auto simp: initial_ctx_def initial_mark_def url_mark_state_def)
  have c0: "pos ?c0 = 0" "psr ?c0 = q" "p_state ?c0 = s_body_identity" using q by (simp_all add: initial_ctx_def)
  have st: "q\<lparr>content_length := l, state := s_body_identity\<rparr> = q\<lparr>content_length := l\<rparr>" for l
    using q(2) [symmetric] by (cases q) simp
  have cl: "content_length q - of_nat (length buf) \<noteq> 0"
    using word_remainder [of "length buf" "content_length q"] n(2) by auto
  have s1: "exec_step S buf (At_loop ?c0) = At_switch ?c1"
    using c0 n(1) by (simp add: loop_head_def Let_def)
  have "consume_body buf ?c1 = ?c2"
    using consume_part [of buf ?c1] c0 m0 n by (simp add: fun_upd_def)
  then have s2: "exec_step S buf (At_switch ?c1) = At_loop ?c3"
    using c0 n cl q
    by (auto simp: dispatch_def st_body_identity_def assert_that_def Let_def)
  have s3: "exec_step S buf (At_loop ?c3) = control_of (flush_marks S buf ?c3)"
    by (simp add: loop_head_def)
  have run: "http_parser_execute S q buf = run_loop S buf (control_of (flush_marks S buf ?c3))"
    using q(1) n(1) run_loop_step [of "At_loop ?c0" S buf] run_loop_step [of "At_switch ?c1" S buf]
      run_loop_step [of "At_loop ?c3" S buf] s1 s2 s3
    by (simp add: http_parser_execute_def)
  obtain r q1 where cb: "cb ?q2 buf = (r, q1)" by force
  have same: "q1\<lparr>state := state q1\<rparr> = q1" by simp
  show ?thesis
    unfolding run
    using c0 q(1) S cb st same
    by (simp add: flush_marks_def marks_set_def assert_that_def CALLBACK_DATA_NOADVANCE_def
        CALLBACK_DATA_ER_def after_callback_def clear_mark_def RETURN_def Let_def)
qed

lemma body_rest:
  assumes "http_errno (psr c) = HPE_OK" "pos c < length buf" "mark c D_body = None"
    "0 < unat (content_length (psr c))" "unat (content_length (psr c)) \<le> length buf - pos c"
    "content_length (psr c) \<noteq> ULLONG_MAX" "on_body S = Some cb"
  shows "st_body_identity S buf c =
    after_callback HPE_CB_body (pos c + unat (content_length (psr c)) - 1)
      (cb ((psr c)\<lparr>content_length := 0, state := s_message_done\<rparr>)
         (take (unat (content_length (psr c))) (drop (pos c) buf)))
      (c\<lparr>mark := (mark c)(D_body := Some (pos c)), pos := pos c + unat (content_length (psr c)) - 1,
         psr := (psr c)\<lparr>content_length := 0\<rparr>, p_state := s_message_done\<rparr>)
      (\<lambda>c. Reexecute (clear_mark D_body c))"
proof -
  obtain k where k: "unat (content_length (psr c)) = Suc k" using assms(4) by (cases "unat (content_length (psr c))") auto
  have "content_length (psr c) \<noteq> 0" using k by auto
  with assms consume_rest [of c buf] k show ?thesis
    by (simp add: st_body_identity_def assert_that_def Let_def CALLBACK_DATA_ER_def UPDATE_STATE_def)
qed


section \<open>Header names\<close>

text \<open>
  The state of the matcher after the lower-cased name \<open>t\<close>: the initial state is that of the
  first byte, and \<open>parser->index\<close> is one less than the number of bytes read.
\<close>

definition keyword_prefix :: "string \<Rightarrow> string \<Rightarrow> bool" where
  "keyword_prefix t s \<longleftrightarrow> t \<noteq> [] \<and> length t < length s \<and> t = take (length t) s"

definition name_state :: "string \<Rightarrow> header_states" where
  "name_state t =
     (if t = CONNECTION \<or> t = PROXY_CONNECTION then h_connection
      else if t = CONTENT_LENGTH then h_content_length
      else if t = TRANSFER_ENCODING then h_transfer_encoding
      else if t = UPGRADE then h_upgrade
      else if t = ''c'' then h_C
      else if t = ''co'' then h_CO
      else if t = ''con'' then h_CON
      else if keyword_prefix t CONNECTION then h_matching_connection
      else if keyword_prefix t CONTENT_LENGTH then h_matching_content_length
      else if keyword_prefix t PROXY_CONNECTION then h_matching_proxy_connection
      else if keyword_prefix t TRANSFER_ENCODING then h_matching_transfer_encoding
      else if keyword_prefix t UPGRADE then h_matching_upgrade
      else h_general)"

definition name_read :: "string \<Rightarrow> 'd http_parser \<Rightarrow> bool" where
  "name_read t q \<longleftrightarrow> t \<noteq> [] \<and> header_state q = name_state t \<and>
     (name_state t \<noteq> h_general \<longrightarrow> unat (index q) = length t - 1)"

definition keyword_prefixes :: "string list" where
  "keyword_prefixes = concat (map (\<lambda>s. map (\<lambda>n. take n s) [1..<Suc (length s)])
    [CONNECTION, CONTENT_LENGTH, PROXY_CONNECTION, TRANSFER_ENCODING, UPGRADE])"

lemma in_prefixes:
  assumes "s \<in> {CONNECTION, CONTENT_LENGTH, PROXY_CONNECTION, TRANSFER_ENCODING, UPGRADE}"
    "t \<noteq> []" "length t \<le> length s" "t = take (length t) s"
  shows "t \<in> set keyword_prefixes"
proof -
  have "t \<in> (\<lambda>n. take n s) ` set [1..<Suc (length s)]"
    by (rule image_eqI [of _ _ "length t"]) (use assms in \<open>auto simp: Suc_le_eq\<close>)
  then show ?thesis using assms(1) unfolding keyword_prefixes_def by fastforce
qed

lemma name_state_in:
  assumes "name_state t \<noteq> h_general"
  shows "t \<in> set keyword_prefixes"
proof -
  have short: "\<exists>s \<in> {CONNECTION}. t \<noteq> [] \<and> length t \<le> length s \<and> t = take (length t) s"
    if "t = ''c'' \<or> t = ''co'' \<or> t = ''con''"
    using that by (auto simp: CONNECTION_def)
  have "\<exists>s \<in> {CONNECTION, CONTENT_LENGTH, PROXY_CONNECTION, TRANSFER_ENCODING, UPGRADE}.
      t \<noteq> [] \<and> length t \<le> length s \<and> t = take (length t) s"
    using assms short
    by (auto simp: name_state_def keyword_prefix_def keyword_defs less_imp_le split: if_splits)
  then show ?thesis using in_prefixes by blast
qed

lemma prefixes_facts:
  "\<forall>t \<in> set keyword_prefixes. name_state t \<noteq> h_general"
  "\<forall>t \<in> set keyword_prefixes. butlast t = [] \<or> butlast t \<in> set keyword_prefixes"
  "\<forall>t \<in> set keyword_prefixes. length t < 20"
  by (simp_all add: keyword_prefixes_def keyword_defs name_state_def keyword_prefix_def upt_rec)

text \<open>The transition of the matcher on the name alone.\<close>

definition name_next :: "header_states \<Rightarrow> nat \<Rightarrow> char \<Rightarrow> header_states" where
  "name_next h i t =
     (case h of
        h_C \<Rightarrow> if t = CHR ''o'' then h_CO else h_general
      | h_CO \<Rightarrow> if t = CHR ''n'' then h_CON else h_general
      | h_CON \<Rightarrow> if t = CHR ''n'' then h_matching_connection
                 else if t = CHR ''t'' then h_matching_content_length else h_general
      | h_matching_connection \<Rightarrow> match_next CONNECTION h_general h h_connection i t
      | h_matching_proxy_connection \<Rightarrow> match_next PROXY_CONNECTION h_general h h_connection i t
      | h_matching_content_length \<Rightarrow> match_next CONTENT_LENGTH h_general h h_content_length i t
      | h_matching_transfer_encoding \<Rightarrow> match_next TRANSFER_ENCODING h_general h h_transfer_encoding i t
      | h_matching_upgrade \<Rightarrow> match_next UPGRADE h_general h h_upgrade i t
      | _ \<Rightarrow> h_general)"

lemma name_next_prefixes:
  "\<forall>t \<in> set keyword_prefixes. name_next (name_state t) (length t) x = name_state (t @ [x])"
  by (simp add: keyword_prefixes_def keyword_defs name_state_def keyword_prefix_def upt_rec name_next_def
     match_next_def match_keyword_def c_string_at_def)

lemma token_no_space: "TOKEN x \<noteq> NUL \<Longrightarrow> x \<noteq> CHR '' ''"
  by (auto simp: TOKEN_def STRICT_TOKEN_def tokens_def)

lemma header_field_byte_next:
  assumes "header_field_byte t x q = Some q'" "x \<noteq> CHR '' ''" "header_state q \<in> set name_states"
  shows "header_state q' = name_next (header_state q) (unat (index q + 1)) t \<and>
    (header_state q' \<noteq> h_general \<longrightarrow> index q' = index q + 1)"
  using assms
  by (auto simp: name_states_def header_field_byte_def name_next_def set_header_def Let_def)

lemma name_state_states: "name_state t \<in> set name_states"
  by (simp add: name_state_def name_states_def)

lemma name_read_step:
  assumes "name_read t q" "header_field_byte (TOKEN x) x q = Some q'" "TOKEN x \<noteq> NUL"
  shows "name_read (t @ [TOKEN x]) q'"
proof -
  have h: "header_state q = name_state t" "t \<noteq> []" using assms(1) by (simp_all add: name_read_def)
  note nx = header_field_byte_next [OF assms(2) token_no_space [OF assms(3)], unfolded h(1), OF name_state_states]
  show ?thesis
  proof (cases "name_state t = h_general")
    case True
    have "name_state (t @ [TOKEN x]) = h_general"
      using name_state_in [of "t @ [TOKEN x]"] prefixes_facts(1,2) True h(2) by fastforce
    moreover have "header_state q' = h_general" using nx True by (simp add: name_next_def)
    ultimately show ?thesis by (simp add: name_read_def)
  next
    case False
    then have t: "t \<in> set keyword_prefixes" by (rule name_state_in)
    then have "length t < 20" using prefixes_facts(3) by blast
    moreover have "unat (index q) = length t - 1" using assms(1) False by (simp add: name_read_def)
    ultimately have i: "unat (index q + 1) = length t" using h(2) by (simp add: unat_word_ariths)
    then have "header_state q' = name_state (t @ [TOKEN x])"
      using nx name_next_prefixes t by metis
    with nx i show ?thesis by (simp add: name_read_def)
  qed
qed

lemma header_field_loop_read:
  assumes "header_field_loop buf c = Some c'" "name_read t (psr c)" "pos c \<le> length buf"
  shows "pos c \<le> pos c' \<and>
    name_read (t @ map TOKEN (take (pos c' - pos c) (drop (pos c) buf))) (psr c')"
  using assms
proof (induction buf c arbitrary: t rule: header_field_loop.induct)
  case (1 buf c)
  define c1 where "c1 = c\<lparr>ch := buf ! pos c\<rparr>"
  consider "length buf \<le> pos c \<or> TOKEN (buf ! pos c) = NUL"
    | "pos c < length buf" "TOKEN (buf ! pos c) \<noteq> NUL" by linarith
  then show ?case
  proof cases
    case 1
    with 1(1) \<open>header_field_loop buf c = Some c'\<close> have "pos c' = pos c" "psr c' = psr c"
      by (auto simp: header_field_loop.simps [of buf c] Let_def split: if_splits)
    then show ?thesis using \<open>name_read t (psr c)\<close> by simp
  next
    case go: 2
    obtain q where q: "header_field_byte (TOKEN (ch c1)) (ch c1) (psr c1) = Some q"
      "header_field_loop buf (c1\<lparr>psr := q, pos := Suc (pos c1)\<rparr>) = Some c'"
      using 1(2) go
      by (auto simp: header_field_loop.simps [of buf c] Let_def c1_def split: option.splits)
    have r: "name_read (t @ [TOKEN (ch c1)]) q"
      using name_read_step [OF _ q(1)] 1(3) go by (simp add: c1_def)
    have ih: "Suc (pos c) \<le> pos c' \<and> name_read ((t @ [TOKEN (ch c1)]) @
        map TOKEN (take (pos c' - Suc (pos c)) (drop (Suc (pos c)) buf))) (psr c')"
      using 1(1) [OF _ c1_def refl _ q(1) q(2), of "t @ [TOKEN (ch c1)]"] r go by (simp add: c1_def)
    have "take (pos c' - pos c) (drop (pos c) buf) =
        ch c1 # take (pos c' - Suc (pos c)) (drop (Suc (pos c)) buf)"
    proof -
      have "pos c' - pos c = Suc (pos c' - Suc (pos c))" using conjunct1 [OF ih] by arith
      moreover have "drop (pos c) buf = ch c1 # drop (Suc (pos c)) buf"
        using go(1) by (simp add: c1_def Cons_nth_drop_Suc)
      ultimately show ?thesis by simp
    qed
    with ih show ?thesis by simp
  qed
qed

lemma header_field_start_read:
  assumes "st_header_field_start c = Break c'" "p_state c' = s_header_field"
  shows "name_read [TOKEN (ch c)] (psr c')"
proof -
  have x: "ch c \<noteq> CR" "ch c \<noteq> LF" "TOKEN (ch c) \<noteq> NUL"
    using assms by (auto simp: st_header_field_start_def Let_def UPDATE_STATE_def error_with_def split: if_splits)
  have "name_state [t] = (if t = CHR ''c'' then h_C else if t = CHR ''p'' then h_matching_proxy_connection
     else if t = CHR ''t'' then h_matching_transfer_encoding
     else if t = CHR ''u'' then h_matching_upgrade else h_general)" for t
    by (simp add: name_state_def keyword_prefix_def keyword_defs)
  with assms x show ?thesis
    by (auto simp: st_header_field_start_def Let_def UPDATE_STATE_def error_with_def name_read_def)
qed

lemma name_state_keywords:
  "name_state t = h_connection \<longleftrightarrow> t = CONNECTION \<or> t = PROXY_CONNECTION"
  "name_state t = h_content_length \<longleftrightarrow> t = CONTENT_LENGTH"
  "name_state t = h_transfer_encoding \<longleftrightarrow> t = TRANSFER_ENCODING"
  "name_state t = h_upgrade \<longleftrightarrow> t = UPGRADE"
  by (auto simp: name_state_def keyword_defs)

end
