(* ===== verification/Http_Properties.thy ===== *)
theory Http_Properties
  imports Http_Message
begin

text \<open>
  The properties of the HTTP parser, with examples at which their hypotheses hold. The
  contract of the callbacks is interpreted here on the settings that
  \<open>http_parser_settings_init\<close> makes; \<open>Http_Request\<close> interprets it on those of the server.
\<close>

section \<open>Properties\<close>

text \<open>A parser object before \<open>http_parser_init\<close>, and the context of a handler, for examples.\<close>

definition blank_parser :: "unit http_parser" where
  "blank_parser =
     \<lparr>ptype = HTTP_BOTH, flags = 0, state = s_dead, header_state = h_general, index = 0,
      lenient_http_headers = False, nread = 0, content_length = 0, http_major = 0, http_minor = 0,
      status_code = 0, req_method = HTTP_DELETE, http_errno = HPE_OK, upgrade = False, data = ()\<rparr>"

definition example_ctx :: "state \<Rightarrow> unit http_parser \<Rightarrow> unit ctx" where
  "example_ctx s q = (initial_ctx q)\<lparr>p_state := s\<rparr>"

lemma init_callbacks_ok: "callbacks_ok (http_parser_settings_init :: 'd http_parser_settings)"
proof -
  let ?S = "http_parser_settings_init :: 'd http_parser_settings"
  have "notify_cb ?S kind = None" for kind
    by (cases kind) (simp_all add: http_parser_settings_init_def)
  moreover have "data_cb ?S kind = None" for kind
    by (cases kind) (simp_all add: http_parser_settings_init_def)
  moreover have "on_headers_complete ?S = None"
    by (simp add: http_parser_settings_init_def)
  ultimately show ?thesis by (simp add: callbacks_ok_def)
qed

text \<open>Settings that only take the body, and a parser in the middle of a body of five bytes.\<close>

definition body_settings :: "unit http_parser_settings" where
  "body_settings = http_parser_settings_init\<lparr>on_body := Some (\<lambda>q bs. (0, q))\<rparr>"

definition body_parser :: "64 word \<Rightarrow> unit http_parser" where
  "body_parser l = blank_parser\<lparr>state := s_body_identity, content_length := l\<rparr>"

lemma body_callbacks_ok: "callbacks_ok body_settings"
proof -
  have "notify_cb body_settings kind = None" for kind
    by (cases kind) (simp_all add: body_settings_def http_parser_settings_init_def)
  moreover have "data_cb body_settings kind = Some cb \<Longrightarrow> data_cb_ok cb" for kind cb
    by (cases kind)
      (auto simp: body_settings_def http_parser_settings_init_def data_cb_ok_def obeys_def)
  moreover have "on_headers_complete body_settings = None"
    by (simp add: body_settings_def http_parser_settings_init_def)
  ultimately show ?thesis by (simp add: callbacks_ok_def)
qed

lemma body_parser_ok: "l \<noteq> 0 \<Longrightarrow> l \<noteq> ULLONG_MAX \<Longrightarrow> parser_ok (body_parser l)"
  by (simp add: parser_ok_def body_parser_def blank_parser_def header_limit_ok_def)

lemma body_run: "http_parser_execute body_settings (body_parser 5) ''ab'' = Some (Returned 2 (body_parser 3))"
  by (subst body_part [where cb = "\<lambda>q bs. (0, q)"])
    (simp_all add: body_parser_def blank_parser_def ULLONG_MAX_def body_settings_def)

text \<open>The contract on the settings that \<open>http_parser_settings_init\<close> makes.\<close>

interpretation null_client: http_client http_parser_settings_init
  by (rule http_client.intro) (rule init_callbacks_ok)

lemma execute_returns:
  assumes "callbacks_ok S" "parser_ok q"
  shows "\<exists>n q'. http_parser_execute S q buf = Some (Returned n q') \<and> n \<le> max 1 (length buf) \<and>
    parser_ok q' \<and> (n < length buf \<longrightarrow> http_errno q' \<noteq> HPE_OK \<or> upgrade q')"
  using http_client.execute_ok [OF http_client.intro [OF assms(1)] assms(2)] .

text \<open>C1: with callbacks that keep to the public fields, a call of \<open>http_parser_execute\<close> on any
  bytes returns, no assertion of it fails and no table is read out of bounds; it consumes no
  more than it was given (or reports 1 at the end of the stream), it stops early only on an
  error, a pause or an upgrade, and it leaves a parser on which it can be called again.\<close>

theorem execute_safe:
  assumes "callbacks_ok S" "parser_ok q"
  shows "\<exists>n q'. http_parser_execute S q buf = Some (Returned n q') \<and> n \<le> max 1 (length buf) \<and>
    parser_ok q' \<and> (n < length buf \<longrightarrow> http_errno q' \<noteq> HPE_OK \<or> upgrade q')"
  using assms by (rule execute_returns)

theorem execute_safe_witness:
  "\<exists>n q'. http_parser_execute http_parser_settings_init (http_parser_init blank_parser HTTP_REQUEST)
      ''GET /a HTTP/1.1'' = Some (Returned n q') \<and> n \<le> 15 \<and> parser_ok q'"
  using execute_safe [OF init_callbacks_ok http_parser_init_ok, of blank_parser HTTP_REQUEST
      "''GET /a HTTP/1.1''"] by auto

text \<open>C2: a parser never reads a body both as chunks and by length: whenever a call returns without
  an error in a chunk state, \<open>Transfer-Encoding: chunked\<close> was seen and no \<open>Content-Length\<close>, and in
  an identity body no chunked encoding was seen; a body of known length has bytes left.\<close>

theorem execute_framing:
  assumes "callbacks_ok S" "parser_ok q" "http_parser_execute S q buf = Some (Returned n q')"
    "http_errno q' = HPE_OK"
  shows "(state q' \<in> set chunk_states \<longrightarrow>
      has_flag (flags q') F_CHUNKED \<and> \<not> has_flag (flags q') F_CONTENTLENGTH) \<and>
    (state q' \<in> {s_body_identity, s_body_identity_eof} \<longrightarrow> \<not> has_flag (flags q') F_CHUNKED) \<and>
    (state q' \<in> {s_body_identity, s_chunk_data} \<longrightarrow>
      content_length q' \<noteq> 0 \<and> content_length q' \<noteq> ULLONG_MAX)"
  using execute_returns [OF assms(1,2), of buf] assms(3,4) by (auto simp: parser_ok_def pinv_def)

theorem execute_framing_witness:
  "http_parser_execute body_settings (body_parser 5) ''ab'' = Some (Returned 2 (body_parser 3)) \<and>
    \<not> has_flag (flags (body_parser 3)) F_CHUNKED \<and> content_length (body_parser 3) \<noteq> ULLONG_MAX"
  using execute_framing [OF body_callbacks_ok body_parser_ok body_run] body_run
  by (simp add: body_parser_def blank_parser_def ULLONG_MAX_def)

text \<open>the bytes counted against the header limit never exceed it, whatever is sent, as long as
  no error is reported.\<close>

theorem execute_header_limit:
  assumes "callbacks_ok S" "parser_ok q" "http_parser_execute S q buf = Some (Returned n q')"
    "http_errno q' = HPE_OK"
  shows "unat (nread q') \<le> HTTP_MAX_HEADER_SIZE"
  using execute_returns [OF assms(1,2), of buf] assms(3,4) by (auto simp: parser_ok_def pinv_def)

theorem execute_header_limit_witness:
  "unat (nread (body_parser 3)) \<le> HTTP_MAX_HEADER_SIZE"
  using execute_header_limit [OF body_callbacks_ok body_parser_ok body_run]
  by (simp add: body_parser_def blank_parser_def ULLONG_MAX_def)

text \<open>the method matcher is sound: while it stays in \<open>s_req_method\<close> the bytes read are a prefix
  of the name of the method it holds, and it leaves for the URL only on a space after exactly
  that name.\<close>

theorem method_matcher_sound:
  assumes "method_prefix pre (psr c)" "st_req_method c = Break c'"
  shows "p_state c' = s_req_spaces_before_url \<and> ch c = CHR '' '' \<and>
      pre = method_string (req_method (psr c')) \<or>
    p_state c' = p_state c \<and> method_prefix (pre @ [ch c]) (psr c')"
  using assms by (rule method_step)

theorem method_matcher_sound_witness:
  "\<exists>c'. st_req_method ((example_ctx s_req_method (blank_parser\<lparr>req_method := HTTP_POST, index := 1\<rparr>))
        \<lparr>ch := CHR ''U''\<rparr>) = Break c' \<and> method_prefix ''PU'' (psr c')"
proof -
  let ?c = "(example_ctx s_req_method (blank_parser\<lparr>req_method := HTTP_POST, index := 1\<rparr>))\<lparr>ch := CHR ''U''\<rparr>"
  have p: "method_prefix ''P'' (psr ?c)"
    by (simp add: method_prefix_def example_ctx_def initial_ctx_def method_string_def method_strings_def)
  obtain c' where c': "st_req_method ?c = Break c'" "p_state c' = s_req_method"
    by (simp add: st_req_method_def example_ctx_def initial_ctx_def method_string_def method_strings_def
        c_string_at_def Let_def method_branches_def less_eq_char_def blank_parser_def)
  with method_matcher_sound [OF p c'(1)] show ?thesis by (simp add: example_ctx_def)
qed

text \<open>the method matcher is complete: from the start of a request, the name of any of the
  thirty-four methods and a space lead to the URL with that method stored.\<close>

theorem method_matcher_complete:
  assumes "p_state c = s_start_req" "on_message_begin S = None" "http_errno (psr c) = HPE_OK"
  shows "\<exists>c'. feed (dispatch S buf) (method_string m @ '' '') c = Break c' \<and>
    p_state c' = s_req_spaces_before_url \<and> req_method (psr c') = m"
  using assms by (rule method_complete)

theorem method_matcher_complete_witness:
  "\<exists>c'. feed (dispatch http_parser_settings_init []) ''MKCALENDAR '' (example_ctx s_start_req blank_parser) =
     Break c' \<and> req_method (psr c') = HTTP_MKCALENDAR"
  using method_matcher_complete [of "example_ctx s_start_req blank_parser" http_parser_settings_init "[]"
      HTTP_MKCALENDAR]
  by (auto simp: example_ctx_def http_parser_settings_init_def initial_ctx_def blank_parser_def
      method_string_def method_strings_def)

text \<open>C15: a header name is recognised exactly: when the matcher of \<open>s_header_field\<close> has read a name
  (in lower case \<open>name\<close>), it holds the state of a special header if and only if \<open>name\<close> is that
  header's name, prefixes and extensions excluded.\<close>

theorem header_name_exact:
  assumes "st_header_field_start c = Break c1" "p_state c1 = s_header_field"
    "header_field_loop buf (c1\<lparr>pos := i\<rparr>) = Some c2" "i \<le> length buf"
    "name = TOKEN (ch c) # map TOKEN (take (pos c2 - i) (drop i buf))"
  shows "(header_state (psr c2) = h_content_length \<longleftrightarrow> name = ''content-length'') \<and>
    (header_state (psr c2) = h_transfer_encoding \<longleftrightarrow> name = ''transfer-encoding'') \<and>
    (header_state (psr c2) = h_upgrade \<longleftrightarrow> name = ''upgrade'') \<and>
    (header_state (psr c2) = h_connection \<longleftrightarrow> name = ''connection'' \<or> name = ''proxy-connection'')"
proof -
  have "name_read [TOKEN (ch c)] (psr (c1\<lparr>pos := i\<rparr>))"
    using header_field_start_read [OF assms(1,2)] by simp
  from header_field_loop_read [OF assms(3) this] assms(4,5) have "header_state (psr c2) = name_state name"
    by (simp add: name_read_def)
  then show ?thesis
    by (simp add: name_state_keywords) (simp add: keyword_defs)
qed

theorem header_name_exact_witness:
  "\<exists>c1 c2. st_header_field_start ((example_ctx s_header_field_start blank_parser)\<lparr>ch := CHR ''U''\<rparr>) = Break c1 \<and>
    header_field_loop ''Upgrade:'' (c1\<lparr>pos := 1\<rparr>) = Some c2 \<and> header_state (psr c2) = h_upgrade"
proof -
  let ?c = "(example_ctx s_header_field_start blank_parser)\<lparr>ch := CHR ''U''\<rparr>"
  let ?c1 = "?c\<lparr>mark := (mark ?c)(D_header_field := Some 0), p_state := s_header_field,
      psr := blank_parser\<lparr>index := 0, header_state := h_matching_upgrade\<rparr>\<rparr>"
  note tok = TOKEN_def STRICT_TOKEN_def tokens_def
  have c1: "st_header_field_start ?c = Break ?c1"
    by (simp add: st_header_field_start_def Let_def tok UPDATE_STATE_def example_ctx_def initial_ctx_def
        MARK_def initial_mark_def url_mark_state_def blank_parser_def)
  have "\<exists>c2. header_field_loop ''Upgrade:'' (?c1\<lparr>pos := 1\<rparr>) = Some c2 \<and> pos c2 = 7"
    by (simp add: header_field_loop.simps Let_def tok header_field_byte_def match_next_def
        match_keyword_def c_string_at_def UPGRADE_def set_header_def)
  then obtain c2 where c2: "header_field_loop ''Upgrade:'' (?c1\<lparr>pos := 1\<rparr>) = Some c2" "pos c2 = 7" by blast
  from header_name_exact [OF c1 _ c2(1) _ refl] c2 c1
  show ?thesis by (simp add: tok example_ctx_def)
qed

text \<open>C26: the digits of a Content-Length value are converted exactly: the value stored is the number
  they write, never one that wrapped around, and a value is refused only above 2^64 - 11.\<close>

theorem content_length_exact:
  assumes "\<forall>x \<in> set ds. is_digit x" "content_length (psr c) = 0"
  shows "case feed_length ds c h_content_length_num of
      Inr (c', h') \<Rightarrow> h' = h_content_length_num \<and> unat (content_length (psr c')) = decimal_from 0 ds
    | Inl f \<Rightarrow> (\<exists>c'. f = Goto_error c' \<and> http_errno (psr c') = HPE_INVALID_CONTENT_LENGTH) \<and>
        decimal_from 0 ds > 2 ^ 64 - 11"
  using content_length_digits [OF assms(1) refl, of c h_content_length_num, unfolded assms(2) unat_0] .

theorem content_length_exact_witness:
  "case feed_length ''120'' (example_ctx s_header_value blank_parser) h_content_length_num of
     Inr (c', h') \<Rightarrow> unat (content_length (psr c')) = 120 | Inl f \<Rightarrow> False"
  using content_length_exact [of "''120''" "example_ctx s_header_value blank_parser"]
  by (auto simp: is_digit_def less_eq_char_def digit_value_def example_ctx_def initial_ctx_def blank_parser_def
      split: sum.splits)

text \<open>C14: the hexadecimal digits of a chunk size are converted exactly, and a size is refused only
  above 2^64 - 17.\<close>

theorem chunk_size_exact:
  assumes "\<forall>x \<in> set xs. is_hex_byte x" "has_flag (flags (psr c)) F_CHUNKED" "content_length (psr c) = 0"
  shows "case feed st_chunk_size xs c of
      Break c' \<Rightarrow> p_state c' = p_state c \<and> unat (content_length (psr c')) = hex_from 0 xs
    | Goto_error c' \<Rightarrow> http_errno (psr c') = HPE_INVALID_CONTENT_LENGTH \<and> hex_from 0 xs > 2 ^ 64 - 17
    | _ \<Rightarrow> False"
  using chunk_size_digits [OF assms(1,2), unfolded assms(3) unat_0] by (simp split: flow.splits)

theorem chunk_size_exact_witness:
  "case feed st_chunk_size ''1F'' (example_ctx s_chunk_size (blank_parser\<lparr>flags := F_CHUNKED\<rparr>)) of
     Break c' \<Rightarrow> unat (content_length (psr c')) = 31 | _ \<Rightarrow> False"
  using chunk_size_exact [of "''1F''" "example_ctx s_chunk_size (blank_parser\<lparr>flags := F_CHUNKED\<rparr>)"]
  by (auto simp: is_hex_byte_def IS_HEX_def hex_value_def IS_NUM_def is_digit_def less_eq_char_def
      digit_value_def example_ctx_def initial_ctx_def blank_parser_def split: flow.splits)

text \<open>C27: a part of a body of known length is handed to \<open>on_body\<close> whole and unchanged, all of it is
  consumed, and the number of bytes still expected goes down by its length.\<close>

theorem body_part_delivered:
  assumes "http_errno q = HPE_OK" "state q = s_body_identity" "0 < length buf"
    "length buf < unat (content_length q)" "content_length q \<noteq> ULLONG_MAX" "on_body S = Some cb"
  shows "http_parser_execute S q buf =
    (let (r, q1) = cb (q\<lparr>content_length := content_length q - of_nat (length buf)\<rparr>) buf
     in Some (Returned (length buf) (if r \<noteq> 0 then q1\<lparr>http_errno := HPE_CB_body\<rparr> else q1)))"
  using assms by (rule body_part)

theorem body_part_delivered_witness:
  "http_parser_execute body_settings (body_parser 5) ''abc'' = Some (Returned 3 (body_parser 2))"
  by (subst body_part_delivered [where cb = "\<lambda>q bs. (0, q)"])
    (simp_all add: body_parser_def blank_parser_def ULLONG_MAX_def body_settings_def)

text \<open>the last part of a body of known length: exactly the bytes still expected are handed to
  \<open>on_body\<close>, however many follow them, and the message is then complete.\<close>

theorem body_rest_delivered:
  assumes "http_errno (psr c) = HPE_OK" "pos c < length buf" "mark c D_body = None"
    "0 < unat (content_length (psr c))" "unat (content_length (psr c)) \<le> length buf - pos c"
    "content_length (psr c) \<noteq> ULLONG_MAX" "on_body S = Some cb"
  shows "st_body_identity S buf c =
    after_callback HPE_CB_body (pos c + unat (content_length (psr c)) - 1)
      (cb ((psr c)\<lparr>content_length := 0, state := s_message_done\<rparr>)
         (take (unat (content_length (psr c))) (drop (pos c) buf)))
      (c\<lparr>mark := (mark c)(D_body := Some (pos c)), pos := pos c + unat (content_length (psr c)) - 1,
         psr := (psr c)\<lparr>content_length := 0\<rparr>, p_state := s_message_done\<rparr>)
      (\<lambda>c. Reexecute (clear_mark D_body c))"
  using assms by (rule body_rest)

theorem body_rest_delivered_witness:
  "\<exists>c. st_body_identity body_settings ''abGET'' ((example_ctx s_body_identity (body_parser 2))\<lparr>mark := (\<lambda>_. None)\<rparr>) =
     Reexecute c \<and> p_state c = s_message_done \<and> pos c = 1"
  by (subst body_rest_delivered [where cb = "\<lambda>q bs. (0, q)"])
    (simp_all add: example_ctx_def body_parser_def blank_parser_def ULLONG_MAX_def body_settings_def
      initial_ctx_def after_callback_def clear_mark_def)

text \<open>a chunk size may start with a hexadecimal digit, and also, against RFC 7230, with any byte
  above 127, which counts as the digit zero.\<close>

theorem chunk_size_start_accepts:
  assumes "nread (psr c) = 1" "has_flag (flags (psr c)) F_CHUNKED"
  shows "(\<exists>c'. st_chunk_size_start c = Break c' \<and> p_state c' = s_chunk_size) \<longleftrightarrow>
    is_hex_byte (ch c) \<or> 128 \<le> char_code (ch c)"
proof -
  have "unhex_at (ch c) \<noteq> -1 \<longleftrightarrow> is_hex_byte (ch c) \<or> 128 \<le> char_code (ch c)"
    using unhex_hex(1) [of "ch c"] unhex_class
    by (auto simp: is_hex_byte_def IS_HEX_def split: if_splits)
  with assms show ?thesis
    by (auto simp: st_chunk_size_start_def assert_that_def Let_def error_with_def UPDATE_STATE_def)
qed

theorem chunk_size_start_accepts_witness:
  "\<exists>c'. st_chunk_size_start ((example_ctx s_chunk_size_start (blank_parser\<lparr>flags := F_CHUNKED, nread := 1\<rparr>))
      \<lparr>ch := CHR 0xFF\<rparr>) = Break c' \<and> p_state c' = s_chunk_size"
  using chunk_size_start_accepts [of "(example_ctx s_chunk_size_start (blank_parser\<lparr>flags := F_CHUNKED, nread := 1\<rparr>))
      \<lparr>ch := CHR 0xFF\<rparr>"]
  by (simp add: example_ctx_def initial_ctx_def)

lemma general_skip_end:
  assumes "\<forall>x \<in> set bs. x \<noteq> CR \<and> x \<noteq> LF" "i < length bs"
  shows "general_skip bs i = length bs"
proof -
  have "memchr bs i x (min (length bs - i) HTTP_MAX_HEADER_SIZE) = None" if "x = CR \<or> x = LF" for x
    unfolding memchr_None
  proof (intro allI impI)
    fix j assume "i \<le> j \<and> j < i + min (length bs - i) HTTP_MAX_HEADER_SIZE"
    then have "bs ! j \<in> set bs" using assms(2) by (intro nth_mem) linarith
    then show "bs ! j \<noteq> x" using assms(1) that by metis
  qed
  then show ?thesis by (simp add: general_skip_def Let_def)
qed

text \<open>in an ordinary header value only the byte at which the scanner resumes is checked: it jumps
  to the next CR or LF, so any other bytes, control bytes included, are let through.\<close>

theorem header_value_unchecked:
  assumes "\<forall>x \<in> set (b # bs). x \<noteq> CR \<and> x \<noteq> LF" "IS_HEADER_CHAR b"
    "p_state c = s_header_value" "header_state (psr c) = h_general" "pos c = 0"
    "unat (nread (psr c)) + length (b # bs) \<le> HTTP_MAX_HEADER_SIZE"
  shows "\<exists>c'. st_header_value S (b # bs) c = Break c' \<and> pos c' = length bs \<and> p_state c' = s_header_value"
proof -
  let ?buf = "b # bs"
  have "general_skip ?buf 0 = length ?buf" by (rule general_skip_end) (use assms(1) in auto)
  then have byte: "header_value_byte ?buf (c\<lparr>ch := b\<rparr>) h_general = Inr (c\<lparr>ch := b, pos := length bs\<rparr>, h_general)"
    using assms(5) by (simp add: header_value_byte_def Let_def)
  have "unat (nread (psr c) + of_nat (length ?buf)) = unat (nread (psr c)) + length ?buf"
    using assms(6) by (simp add: unat_word_ariths unat_of_nat HTTP_MAX_HEADER_SIZE_def)
  then have "\<not> HTTP_MAX_HEADER_SIZE < unat (nread (psr c) + of_nat (length ?buf))"
    using assms(6) by simp
  then show ?thesis
    using assms byte
    by (simp add: st_header_value_def header_value_loop.simps [of S ?buf] Let_def header_value_end_def
        COUNT_HEADER_SIZE_def set_header_def)
qed

theorem header_value_unchecked_witness:
  "\<exists>c'. st_header_value http_parser_settings_init (CHR ''a'' # CHR 0x01 # CHR 0x00 # ''b'')
     (example_ctx s_header_value blank_parser) = Break c' \<and> pos c' = 3"
  using header_value_unchecked [of "CHR ''a''" "CHR 0x01 # CHR 0x00 # ''b''" "example_ctx s_header_value blank_parser"
      http_parser_settings_init]
  by (auto simp: IS_HEADER_CHAR_def example_ctx_def initial_ctx_def blank_parser_def HTTP_MAX_HEADER_SIZE_def)

text \<open>pausing: a paused parser consumes nothing and does not change, unpausing gives back the
  parser as it was, and the call is refused exactly in an error state.\<close>

theorem pause_resume:
  assumes "http_errno q = HPE_OK"
  shows "\<exists>q1. http_parser_pause q True = Some q1 \<and> http_parser_execute S q1 buf = Some (Returned 0 q1) \<and>
      http_parser_pause q1 False = Some q \<and>
      (\<forall>e b. http_parser_pause (q\<lparr>http_errno := e\<rparr>) b = None \<longleftrightarrow> e \<notin> {HPE_OK, HPE_PAUSED})"
proof -
  have "q\<lparr>http_errno := HPE_OK\<rparr> = q" using assms [symmetric] by (cases q) simp
  then show ?thesis using assms by (simp add: http_parser_pause_def http_parser_execute_def)
qed

theorem pause_resume_witness:
  "\<exists>q1. http_parser_pause blank_parser True = Some q1 \<and>
     http_parser_execute http_parser_settings_init q1 ''GET'' = Some (Returned 0 q1)"
  using pause_resume [of blank_parser http_parser_settings_init "''GET''"] by (auto simp: blank_parser_def)

text \<open>The bit table of URL characters is the set of visible ASCII characters without the two
  delimiters \<open>#\<close> and \<open>?\<close>.\<close>

theorem url_char_class:
  "IS_URL_CHAR c \<longleftrightarrow> 32 < char_code c \<and> char_code c < 127 \<and> c \<noteq> CHR ''#'' \<and> c \<noteq> CHR ''?''"
  using url_char_class_all by blast

text \<open>The token table accepts exactly the token characters of RFC 7230, and maps letters, and
  nothing else, to lower case.\<close>

theorem token_class:
  "TOKEN c = (if IS_ALPHA c then LOWER c
     else if IS_NUM c \<or> c \<in> set ''!#$%&*+-.^_`|~'' \<or> c = QUOTE then c else NUL)"
  using token_class_all by blast

end
