(* ===== verification/Http_Url_Spec.thy ===== *)
theory Http_Url_Spec
  imports Http_Url
begin

text \<open>
  What \<open>http_parser_parse_url\<close> promises: no assertion of the splitter fails and every field it
  reports lies inside of the buffer, for any bytes; a reported port is the number its digits
  write; and the exact fields of the two shapes of targets the server reads, a path with a
  query, and a host with a port.
\<close>

section \<open>Fields as intervals of the buffer\<close>

lemma uf_bit_simps [simp]: "has_flag (uf_bit uf) (uf_bit uf') \<longleftrightarrow> uf = uf'"
  by (cases uf; cases uf') (simp_all add: uf_bit_def has_flag_def)

lemma field_set_simps [simp]:
  "field_set (set_off uf n u) = field_set u" "field_set (set_len uf n u) = field_set u"
  "field_set (inc_len uf u) = field_set u" "field_set (set_field uf u) = field_set u OR uf_bit uf"
  "field_set (url_new_field uf p u) = field_set u OR uf_bit uf"
  by (simp_all add: set_off_def set_len_def inc_len_def set_field_def url_new_field_def)

lemma off_simps [simp]:
  "off (field_data (set_off uf n u) uf') = (if uf = uf' then of_nat n else off (field_data u uf'))"
  "off (field_data (set_len uf n u) uf') = off (field_data u uf')"
  "off (field_data (inc_len uf u) uf') = off (field_data u uf')"
  "off (field_data (set_field uf u) uf') = off (field_data u uf')"
  "off (field_data (url_new_field uf p u) uf') = (if uf = uf' then of_nat p else off (field_data u uf'))"
  by (simp_all add: set_off_def set_len_def inc_len_def set_field_def url_new_field_def)

lemma len_simps [simp]:
  "len (field_data (set_off uf n u) uf') = len (field_data u uf')"
  "len (field_data (set_len uf n u) uf') = (if uf = uf' then of_nat n else len (field_data u uf'))"
  "len (field_data (inc_len uf u) uf') =
     (if uf = uf' then len (field_data u uf') + 1 else len (field_data u uf'))"
  "len (field_data (set_field uf u) uf') = len (field_data u uf')"
  "len (field_data (url_new_field uf p u) uf') = (if uf = uf' then 1 else len (field_data u uf'))"
  by (simp_all add: set_off_def set_len_def inc_len_def set_field_def url_new_field_def)

text \<open>
  The two 16-bit numbers of a field stand for an interval of the buffer, up to multiples of
  \<open>2 ^ 16\<close>; the interval of the port holds digits.
\<close>

definition span_at :: "string \<Rightarrow> http_parser_url \<Rightarrow> http_parser_url_fields \<Rightarrow> nat \<Rightarrow> nat \<Rightarrow> bool" where
  "span_at buf u uf i n \<longleftrightarrow>
     off (field_data u uf) = of_nat i \<and> len (field_data u uf) = of_nat n \<and> i + n \<le> length buf \<and>
     (uf = UF_PORT \<longrightarrow> (\<forall>c \<in> set (take n (drop i buf)). IS_NUM c))"

definition fields_in :: "string \<Rightarrow> http_parser_url \<Rightarrow> bool" where
  "fields_in buf u \<longleftrightarrow> (\<forall>uf. has_flag (field_set u) (uf_bit uf) \<longrightarrow> (\<exists>i n. span_at buf u uf i n))"

text \<open>A field that ends at position \<open>p\<close> and grows with the byte there.\<close>

definition growing :: "string \<Rightarrow> nat \<Rightarrow> http_parser_url \<Rightarrow> http_parser_url_fields \<Rightarrow> bool" where
  "growing buf p u uf \<longleftrightarrow> (\<exists>i n. span_at buf u uf i n \<and> i + n = p)"

lemma span_at_bounds:
  assumes "span_at buf u uf i n"
  shows "field_off u uf + field_len u uf \<le> length buf"
    and "length buf < 2 ^ 16 \<Longrightarrow> field_off u uf = i \<and> field_len u uf = n"
proof -
  have "field_off u uf \<le> i" "field_len u uf \<le> n"
    using assms by (simp_all add: span_at_def field_off_def field_len_def unat_of_nat)
  with assms show "field_off u uf + field_len u uf \<le> length buf" by (simp add: span_at_def)
  assume "length buf < 2 ^ 16"
  with assms show "field_off u uf = i \<and> field_len u uf = n"
    by (simp add: span_at_def field_off_def field_len_def unat_of_nat)
qed

lemma span_at_cong:
  assumes "off (field_data u' uf) = off (field_data u uf)" "len (field_data u' uf) = len (field_data u uf)"
  shows "span_at buf u' uf = span_at buf u uf"
  using assms by (simp add: span_at_def fun_eq_iff)

lemma growing_cong:
  assumes "off (field_data u' uf) = off (field_data u uf)" "len (field_data u' uf) = len (field_data u uf)"
  shows "growing buf p u' uf = growing buf p u uf"
  using span_at_cong [OF assms] by (simp add: growing_def)

lemma growing_in: "growing buf p u uf \<Longrightarrow> \<exists>i n. span_at buf u uf i n"
  by (auto simp: growing_def)

lemma drop_ConsD: "drop p buf = c # cs \<Longrightarrow> p < length buf \<and> buf ! p = c \<and> drop (Suc p) buf = cs"
  by (metis Cons_nth_drop_Suc drop_eq_Nil leI list.discI list.inject)

lemma growing_inc:
  assumes "growing buf p u uf" "drop p buf = c # cs" "uf = UF_PORT \<Longrightarrow> IS_NUM c"
  shows "growing buf (Suc p) (inc_len uf u) uf"
proof -
  obtain i n where s: "span_at buf u uf i n" "i + n = p" using assms(1) by (auto simp: growing_def)
  have p: "p < length buf" "buf ! p = c" using drop_ConsD [OF assms(2)] by simp_all
  have "take (Suc n) (drop i buf) = take n (drop i buf) @ [c]"
    using p s(2) by (simp add: take_Suc_conv_app_nth)
  then have "span_at buf (inc_len uf u) uf i (Suc n)"
    using s p assms(3) by (auto simp: span_at_def)
  with s(2) show ?thesis unfolding growing_def by (metis add_Suc_right)
qed

lemma growing_new:
  assumes "drop p buf = c # cs" "uf = UF_PORT \<Longrightarrow> IS_NUM c"
    "off (field_data u uf) = of_nat p" "len (field_data u uf) = 1"
  shows "growing buf (Suc p) u uf"
proof -
  have p: "p < length buf" "buf ! p = c" using drop_ConsD [OF assms(1)] by simp_all
  then have "take 1 (drop p buf) = [c]" using assms(1) by simp
  then have "span_at buf u uf p 1" using p assms by (auto simp: span_at_def)
  then show ?thesis unfolding growing_def by fastforce
qed

section \<open>The main loop\<close>

lemma parse_url_char_action: "url_action_of (parse_url_char s c) \<noteq> Url_Assert"
  by (cases s) (auto simp: parse_url_char_def parse_server_char_def url_action_of_def split: if_splits)

lemma url_action_not_port: "url_action_of s = Url_Field uf \<Longrightarrow> uf \<noteq> UF_PORT \<and> uf \<noteq> UF_MAX"
  by (cases s) (auto simp: url_action_of_def)

text \<open>The fields that can precede a delimiter: never the one that follows it.\<close>

definition skip_ok :: "state \<Rightarrow> http_parser_url_fields \<Rightarrow> bool" where
  "skip_ok s old_uf \<longleftrightarrow>
     s = s_req_spaces_before_url \<and> old_uf = UF_MAX \<or>
     s \<in> {s_req_schema_slash, s_req_schema_slash_slash} \<and> old_uf = UF_SCHEMA \<or>
     s = s_req_server_start \<and> old_uf \<in> {UF_SCHEMA, UF_MAX} \<or>
     s = s_req_query_string_start \<and> old_uf \<noteq> UF_QUERY \<and> old_uf \<noteq> UF_FRAGMENT \<or>
     s = s_req_fragment_start \<and> old_uf \<noteq> UF_FRAGMENT"

definition loop_inv :: "string \<Rightarrow> nat \<Rightarrow> state \<Rightarrow> http_parser_url_fields \<Rightarrow> http_parser_url \<Rightarrow> bool" where
  "loop_inv buf p s old_uf u \<longleftrightarrow>
     fields_in buf u \<and> (url_action_of s = Url_Field old_uf \<and> growing buf p u old_uf \<or> skip_ok s old_uf)"

lemma skip_next:
  assumes "url_action_of s = Url_Field old_uf \<or> skip_ok s old_uf"
    "url_action_of (parse_url_char s c) = Url_Skip"
  shows "skip_ok (parse_url_char s c) old_uf"
  using assms
  by (cases s) (auto simp: parse_url_char_def parse_server_char_def url_action_of_def skip_ok_def
      split: if_splits)

lemma field_next:
  assumes "url_action_of s = Url_Field old_uf \<or> skip_ok s old_uf"
    "url_action_of (parse_url_char s c) = Url_Field old_uf"
  shows "url_action_of s = Url_Field old_uf"
  using assms
  by (cases s) (auto simp: parse_url_char_def parse_server_char_def url_action_of_def skip_ok_def
      split: if_splits)

lemma fields_in_field:
  assumes "fields_in buf u" "growing buf p u' uf" "\<And>uf'. has_flag (field_set u') (uf_bit uf') \<longrightarrow> uf = uf' \<or> has_flag (field_set u) (uf_bit uf')"
    "\<And>uf'. uf' \<noteq> uf \<Longrightarrow> off (field_data u' uf') = off (field_data u uf') \<and>
       len (field_data u' uf') = len (field_data u uf')"
  shows "fields_in buf u'"
  unfolding fields_in_def
proof (intro allI impI)
  fix uf' assume f: "has_flag (field_set u') (uf_bit uf')"
  show "\<exists>i n. span_at buf u' uf' i n"
  proof (cases "uf' = uf")
    case True
    with assms(2) growing_in show ?thesis by blast
  next
    case False
    with f assms(1,3) have "\<exists>i n. span_at buf u uf' i n" by (auto simp: fields_in_def)
    with span_at_cong assms(4) [OF False] show ?thesis by metis
  qed
qed

lemma url_loop_ok:
  assumes "loop_inv buf p s old_uf u" "drop p buf = cs"
  shows "\<exists>r. url_loop cs p s old_uf f u = Some r \<and> (\<forall>u'. r = Inl u' \<or> (\<exists>f'. r = Inr (f', u')) \<longrightarrow> fields_in buf u')"
  using assms
proof (induction cs p s old_uf f u rule: url_loop.induct)
  case (1 p s old_uf f u)
  then show ?case by (simp add: loop_inv_def)
next
  case (2 c cs p s old_uf f u)
  let ?s = "parse_url_char s c"
  have inv: "fields_in buf u" "url_action_of s = Url_Field old_uf \<or> skip_ok s old_uf"
    using 2(4) by (auto simp: loop_inv_def)
  have rest: "drop (Suc p) buf = cs" using drop_ConsD [OF 2(5)] by simp
  show ?case
  proof (cases "url_action_of ?s")
    case Url_Skip
    with 2(1) [OF refl Url_Skip _ rest] skip_next [OF inv(2)] inv(1) show ?thesis
      by (simp add: loop_inv_def)
  next
    case (Url_Field uf)
    note np = url_action_not_port [OF Url_Field]
    show ?thesis
    proof (cases "uf = old_uf")
      case True
      have act: "url_action_of s = Url_Field old_uf"
        using field_next [OF inv(2)] Url_Field True by simp
      then have "growing buf p u uf" using 2(4) True by (auto simp: loop_inv_def skip_ok_def url_action_of_def)
      then have g: "growing buf (Suc p) (inc_len uf u) uf" using growing_inc [OF _ 2(5)] np by blast
      then have "loop_inv buf (Suc p) ?s old_uf (inc_len uf u)"
        using fields_in_field [OF inv(1) g] Url_Field True by (auto simp: loop_inv_def)
      with 2(2) [OF refl Url_Field refl True _ rest] Url_Field True show ?thesis by (simp add: Let_def)
    next
      case False
      have g: "growing buf (Suc p) (url_new_field uf p u) uf" by (rule growing_new [OF 2(5)]) (use np in simp_all)
      then have "loop_inv buf (Suc p) ?s uf (url_new_field uf p u)"
        using fields_in_field [OF inv(1) g] Url_Field by (auto simp: loop_inv_def)
      with 2(3) [OF refl Url_Field refl False _ rest] Url_Field False show ?thesis by (simp add: Let_def)
    qed
  qed (use parse_url_char_action inv(1) in simp_all)
qed

section \<open>Host, port and user information\<close>

text \<open>The field the state of the host scanner adds to.\<close>

definition host_field :: "http_host_state \<Rightarrow> http_parser_url_fields option" where
  "host_field s =
     (if s \<in> {s_http_host, s_http_host_v6, s_http_host_v6_zone_start, s_http_host_v6_zone} then Some UF_HOST
      else if s = s_http_host_port then Some UF_PORT
      else if s = s_http_userinfo then Some UF_USERINFO else None)"

definition before_host :: "http_host_state \<Rightarrow> bool" where
  "before_host s \<longleftrightarrow>
     s \<in> {s_http_userinfo_start, s_http_userinfo, s_http_host_start, s_http_host_v6_start}"

definition host_inv :: "string \<Rightarrow> nat \<Rightarrow> http_host_state \<Rightarrow> http_parser_url \<Rightarrow> bool" where
  "host_inv buf p s u \<longleftrightarrow>
     fields_in buf u \<and> (\<forall>uf. host_field s = Some uf \<longrightarrow> growing buf p u uf) \<and>
     (before_host s \<longrightarrow> len (field_data u UF_HOST) = 0)"

text \<open>
  A step either adds no byte, or extends the field of the state it comes from, or starts the
  field of the state it goes to.
\<close>

lemma host_step_cases:
  assumes "http_parse_host_char s c = t" "t \<noteq> s_http_host_dead"
  shows "host_field t = None \<and> http_parse_host_step s t p u = u \<or>
    (\<exists>uf. host_field t = Some uf \<and> host_field s = Some uf \<and> http_parse_host_step s t p u = inc_len uf u) \<or>
    (s \<in> {s_http_host_start, s_http_host_v6_start} \<and> host_field t = Some UF_HOST \<and>
       http_parse_host_step s t p u = inc_len UF_HOST (set_off UF_HOST p u)) \<or>
    (\<exists>uf \<in> {UF_PORT, UF_USERINFO}. host_field t = Some uf \<and>
       http_parse_host_step s t p u = inc_len uf (set_field uf (set_len uf 0 (set_off uf p u))))"
  using assms
  by (cases s) (auto simp: http_parse_host_char_def http_parse_host_step_def host_field_def Let_def
      split: if_splits)

lemma host_char_port: "http_parse_host_char s c = s_http_host_port \<Longrightarrow> IS_NUM c"
  by (cases s) (simp_all add: http_parse_host_char_def Let_def split: if_split_asm)

lemma host_char_before: "\<not> before_host s \<Longrightarrow> \<not> before_host (http_parse_host_char s c)"
  by (cases s) (simp_all add: http_parse_host_char_def before_host_def Let_def)

lemma host_step_inv:
  assumes inv: "host_inv buf p s u" and d: "drop p buf = c # cs"
    and t: "http_parse_host_char s c = t" "t \<noteq> s_http_host_dead"
  shows "host_inv buf (Suc p) t (http_parse_host_step s t p u)"
proof -
  let ?u = "http_parse_host_step s t p u"
  have f: "fields_in buf u" using inv by (simp add: host_inv_def)
  have num: "IS_NUM c" if "host_field t = Some UF_PORT"
    using that host_char_port [of s c] t(1) by (simp add: host_field_def split: if_splits)
  have early: "len (field_data u UF_HOST) = 0"
    if "before_host t"
    using host_char_before [of s c] that t(1) inv by (auto simp: host_inv_def)
  from host_step_cases [OF t, of p u] show ?thesis
  proof (elim disjE bexE exE conjE)
    assume "host_field t = None" "?u = u"
    then show ?thesis using f early by (simp add: host_inv_def)
  next
    fix uf assume more: "host_field t = Some uf" "host_field s = Some uf" "?u = inc_len uf u"
    have g: "growing buf (Suc p) ?u uf"
      unfolding more(3) by (rule growing_inc [OF _ d]) (use inv more num in \<open>auto simp: host_inv_def\<close>)
    have "fields_in buf ?u" by (rule fields_in_field [OF f g]) (simp_all add: more(3))
    with g more early show ?thesis
      by (auto simp: host_inv_def host_field_def before_host_def split: if_splits)
  next
    assume host: "s \<in> {s_http_host_start, s_http_host_v6_start}" "host_field t = Some UF_HOST"
      "?u = inc_len UF_HOST (set_off UF_HOST p u)"
    have "len (field_data u UF_HOST) = 0" using host(1) inv by (auto simp: host_inv_def before_host_def)
    then have g: "growing buf (Suc p) ?u UF_HOST"
      by (intro growing_new [OF d]) (simp_all add: host(3))
    have "fields_in buf ?u" by (rule fields_in_field [OF f g]) (simp_all add: host(3))
    with g host(2) show ?thesis
      by (auto simp: host_inv_def host_field_def before_host_def split: if_splits)
  next
    fix uf assume new: "uf \<in> {UF_PORT, UF_USERINFO}" "host_field t = Some uf"
      "?u = inc_len uf (set_field uf (set_len uf 0 (set_off uf p u)))"
    have g: "growing buf (Suc p) ?u uf" by (rule growing_new [OF d]) (use new num in simp_all)
    have "fields_in buf ?u" by (rule fields_in_field [OF f g]) (auto simp: new(3))
    with g new early show ?thesis
      by (auto simp: host_inv_def host_field_def before_host_def split: if_splits)
  qed
qed

lemma host_loop_ok:
  assumes "host_inv buf p s u" "drop p buf = cs @ rest"
    "http_parse_host_loop cs p s u = r" "r = Inl u' \<or> (\<exists>s'. r = Inr (s', u'))"
  shows "fields_in buf u'"
  using assms
proof (induction cs p s u rule: http_parse_host_loop.induct)
  case (1 p s u)
  then show ?case by (auto simp: host_inv_def)
next
  case (2 c cs p s u)
  have d: "drop p buf = c # (cs @ rest)" using 2(3) by simp
  show ?case
  proof (cases "http_parse_host_char s c = s_http_host_dead")
    case True
    with 2(2,4,5) show ?thesis by (auto simp: host_inv_def)
  next
    case False
    then have "http_parse_host_loop cs (Suc p) (http_parse_host_char s c)
        (http_parse_host_step s (http_parse_host_char s c) p u) = r"
      using 2(4) by (simp add: Let_def)
    from 2(1) [OF refl False host_step_inv [OF 2(2) d refl False] _ this 2(5)] drop_ConsD [OF d]
    show ?thesis by simp
  qed
qed

lemma http_parse_host_ok:
  assumes "fields_in buf u" "has_flag (field_set u) (uf_bit UF_HOST)"
  shows "\<exists>r u'. http_parse_host buf u f = Some (r, u') \<and> fields_in buf u'"
proof -
  obtain i n where h: "span_at buf u UF_HOST i n" using assms by (auto simp: fields_in_def)
  let ?p = "field_off u UF_HOST" and ?n = "field_len u UF_HOST" and ?u = "set_len UF_HOST 0 u"
  let ?s = "if f then s_http_userinfo_start else s_http_host_start"
  have p: "?p \<le> length buf" using span_at_bounds(1) [OF h] by simp
  have "span_at buf ?u UF_HOST ?p 0" using p by (simp add: span_at_def field_off_def)
  then have g: "growing buf ?p ?u UF_HOST" unfolding growing_def by fastforce
  have "fields_in buf ?u" by (rule fields_in_field [OF assms(1) g]) simp_all
  then have inv: "host_inv buf ?p ?s ?u" by (simp add: host_inv_def host_field_def)
  have d: "drop ?p buf = take ?n (drop ?p buf) @ drop ?n (drop ?p buf)" by (simp only: append_take_drop_id)
  show ?thesis
  proof (cases "http_parse_host_loop (take ?n (drop ?p buf)) ?p ?s ?u")
    case (Inl u')
    have "fields_in buf u'" using host_loop_ok [OF inv d Inl] by blast
    then show ?thesis using assms(2) Inl by (simp add: http_parse_host_def Let_def)
  next
    case (Inr x)
    obtain s' u' where x: "x = (s', u')" by force
    have "fields_in buf u'" using host_loop_ok [OF inv d Inr] x by blast
    then show ?thesis using assms(2) Inr x by (simp add: http_parse_host_def Let_def)
  qed
qed

section \<open>The port number\<close>

lemma signed_digit:
  assumes "IS_NUM c"
  shows "of_int (signed_char c - 48) = (of_nat (digit_value c) :: 64 word)"
proof -
  have "48 \<le> char_code c" "char_code c \<le> 57" using assms by (simp_all add: IS_NUM_def is_digit_code)
  then have "signed_char c - 48 = int (digit_value c)" by (simp add: signed_char_def digit_value_def)
  then show ?thesis by simp
qed

lemma port_loop_digits:
  assumes "n \<le> 65535" "\<forall>c \<in> set cs. IS_NUM c"
  shows "port_loop (of_nat n) cs =
    (if decimal_from n cs \<le> 65535 then Some (of_nat (decimal_from n cs)) else None)"
  using assms
proof (induction cs arbitrary: n)
  case Nil
  then show ?case by simp
next
  case (Cons c cs)
  let ?m = "10 * n + digit_value c"
  have d: "digit_value c < 10" using Cons.prems by (simp add: IS_NUM_def digit_value_bound)
  have w: "(of_nat n :: 64 word) * 10 + of_int (signed_char c - 48) = of_nat ?m"
    using signed_digit [of c] Cons.prems(2) by (simp add: mult.commute)
  have big: "(of_nat ?m :: 64 word) > 0xffff \<longleftrightarrow> ?m > 65535"
    using d Cons.prems(1) by (simp add: word_less_nat_alt unat_of_nat del: of_nat_add of_nat_mult)
  have step: "port_loop (of_nat n) (c # cs) = (if ?m > 65535 then None else port_loop (of_nat ?m) cs)"
    by (simp only: port_loop.simps Let_def w big)
  have "?m \<le> decimal_from n (c # cs)" using decimal_from_mono [of ?m cs] by simp
  then show ?case
    using Cons.IH [of ?m] Cons.prems(2) step by auto
qed

definition field_text :: "string \<Rightarrow> http_parser_url \<Rightarrow> http_parser_url_fields \<Rightarrow> string" where
  "field_text buf u uf = take (field_len u uf) (drop (field_off u uf) buf)"

lemma url_port_ok:
  assumes "fields_in buf u"
  shows "\<exists>r u'. url_port buf u = Some (r, u') \<and> r \<le> 1 \<and> (\<exists>w. u' = u\<lparr>port := w\<rparr>) \<and>
    (r = 0 \<longrightarrow> has_flag (field_set u) (uf_bit UF_PORT) \<and> length buf < 2 ^ 16 \<longrightarrow>
        (\<forall>c \<in> set (field_text buf u UF_PORT). IS_NUM c) \<and>
        unat (port u') = decimal_from 0 (field_text buf u UF_PORT))"
proof (cases "has_flag (field_set u) (uf_bit UF_PORT)")
  case True
  then obtain i n where s: "span_at buf u UF_PORT i n" using assms by (auto simp: fields_in_def)
  note b = span_at_bounds [OF s]
  show ?thesis
  proof (cases "port_loop 0 (field_text buf u UF_PORT)")
    case None
    have "\<exists>w. u = u\<lparr>port := w\<rparr>" by (rule exI [of _ "port u"]) simp
    with None show ?thesis using True b(1) by (simp add: url_port_def Let_def field_text_def)
  next
    case (Some v)
    have num: "\<forall>c \<in> set (field_text buf u UF_PORT). IS_NUM c"
      and val: "unat (ucast v :: 16 word) = decimal_from 0 (field_text buf u UF_PORT)"
      if "length buf < 2 ^ 16"
    proof -
      show num: "\<forall>c \<in> set (field_text buf u UF_PORT). IS_NUM c"
        using s b(2) [OF that] by (simp add: span_at_def field_text_def)
      have "decimal_from 0 (field_text buf u UF_PORT) \<le> 65535"
        "v = of_nat (decimal_from 0 (field_text buf u UF_PORT))"
        using port_loop_digits [OF _ num, of 0] Some by (auto split: if_splits)
      then show "unat (ucast v :: 16 word) = decimal_from 0 (field_text buf u UF_PORT)"
        by (simp add: unsigned_of_nat take_bit_nat_eq_self)
    qed
    then show ?thesis
      using True b(1) Some by (fastforce simp: url_port_def Let_def field_text_def)
  qed
next
  case False
  have "\<exists>w. u = u\<lparr>port := w\<rparr>" by (rule exI [of _ "port u"]) simp
  with False show ?thesis by (simp add: url_port_def)
qed

definition port_ok :: "string \<Rightarrow> http_parser_url \<Rightarrow> bool" where
  "port_ok buf u \<longleftrightarrow> has_flag (field_set u) (uf_bit UF_PORT) \<and> length buf < 2 ^ 16 \<longrightarrow>
     (\<forall>c \<in> set (field_text buf u UF_PORT). IS_NUM c) \<and>
     unat (port u) = decimal_from 0 (field_text buf u UF_PORT)"

lemma fields_in_port [simp]: "fields_in buf (u\<lparr>port := w\<rparr>) = fields_in buf u"
  by (simp add: fields_in_def span_at_def)

lemma field_text_port [simp]: "field_text buf (u\<lparr>port := w\<rparr>) uf = field_text buf u uf"
  by (simp add: field_text_def field_len_def field_off_def)

lemma url_after_host_ok:
  assumes "fields_in buf u"
  shows "\<exists>r u'. url_after_host buf conn u = Some (r, u') \<and> r \<le> 1 \<and> fields_in buf u' \<and>
    (r = 0 \<longrightarrow> port_ok buf u')"
proof (cases "conn \<and> field_set u \<noteq> uf_bit UF_HOST OR uf_bit UF_PORT")
  case True
  then show ?thesis using assms by (simp add: url_after_host_def)
next
  case False
  obtain r u' w where p: "url_port buf u = Some (r, u')" "r \<le> 1" and w: "u' = u\<lparr>port := w\<rparr>" and
    num: "r = 0 \<Longrightarrow> has_flag (field_set u) (uf_bit UF_PORT) \<and> length buf < 2 ^ 16 \<Longrightarrow>
        (\<forall>c \<in> set (field_text buf u UF_PORT). IS_NUM c) \<and>
        unat (port u') = decimal_from 0 (field_text buf u UF_PORT)"
    using url_port_ok [OF assms] by blast
  have "fields_in buf u'" using assms by (simp add: w)
  moreover have "port_ok buf u'" if r0: "r = 0" using num [OF r0] by (simp add: port_ok_def w)
  ultimately show ?thesis using False assms p by (simp add: url_after_host_def)
qed

lemma parse_url_ok:
  "\<exists>r u. http_parser_parse_url buf conn u0 = Some (r, u) \<and> r \<le> 1 \<and> fields_in buf u \<and>
    (r = 0 \<longrightarrow> port_ok buf u)"
proof -
  let ?s = "if conn then s_req_server_start else s_req_spaces_before_url"
  let ?u = "u0\<lparr>port := 0, field_set := 0\<rparr>"
  have "loop_inv buf 0 ?s UF_MAX ?u" by (simp add: loop_inv_def fields_in_def skip_ok_def)
  then obtain r where r: "url_loop buf 0 ?s UF_MAX False ?u = Some r"
    and f: "\<And>f' u'. r = Inr (f', u') \<Longrightarrow> fields_in buf u'" "\<And>u'. r = Inl u' \<Longrightarrow> fields_in buf u'"
    using url_loop_ok [of buf 0 ?s UF_MAX ?u buf False] by auto
  show ?thesis
  proof (cases r)
    case (Inl u)
    with r f(2) show ?thesis by (simp add: http_parser_parse_url_def)
  next
    case (Inr x)
    obtain f' u where x: "r = Inr (f', u)" using Inr by (cases x) simp
    show ?thesis
    proof (cases "has_flag (field_set u) (uf_bit UF_HOST)")
      case True
      obtain r' v where h: "http_parse_host buf u f' = Some (r', v)" "fields_in buf v"
        using http_parse_host_ok [OF f(1) [OF x] True] by blast
      show ?thesis
        using r x True h f(1) [OF x] url_after_host_ok [of buf v conn]
        by (cases "r' = 0") (simp_all add: http_parser_parse_url_def)
    next
      case False
      then show ?thesis
        using r x f(1) [OF x] url_after_host_ok [OF f(1) [OF x], of conn] by (simp add: http_parser_parse_url_def)
    qed
  qed
qed

section \<open>Exact results on the two shapes of targets\<close>

definition add_len :: "http_parser_url_fields \<Rightarrow> nat \<Rightarrow> http_parser_url \<Rightarrow> http_parser_url" where
  "add_len uf n u = set_len uf (unat (len (field_data u uf)) + n) u"

lemma add_len_simps [simp]:
  "field_set (add_len uf n u) = field_set u"
  "off (field_data (add_len uf n u) uf') = off (field_data u uf')"
  "len (field_data (add_len uf n u) uf') =
     (if uf = uf' then len (field_data u uf) + of_nat n else len (field_data u uf'))"
  by (simp_all add: add_len_def)

lemma inc_add_len: "add_len uf n (inc_len uf u) = add_len uf (Suc n) u"
proof -
  have "(of_nat (unat w + k) :: 16 word) = w + of_nat k" for w k
    by (simp add: of_nat_unat)
  then have "(of_nat (unat (w + 1) + n) :: 16 word) = of_nat (unat w + Suc n)" for w :: "16 word"
    by (simp only: of_nat_Suc add.assoc)
  then show ?thesis by (simp add: add_len_def set_len_def inc_len_def add_ac)
qed

lemma add_len_0: "add_len uf 0 u = u"
  by (simp add: add_len_def set_len_def)

text \<open>A run of bytes that leave the state as it is only lengthens the field.\<close>

lemma url_loop_run:
  assumes "\<forall>c \<in> set cs. parse_url_char s c = s" "url_action_of s = Url_Field uf" "s \<noteq> s_req_server_with_at"
  shows "url_loop (cs @ rest) p s uf f u = url_loop rest (p + length cs) s uf f (add_len uf (length cs) u)"
  using assms(1)
  by (induction cs arbitrary: p u) (simp_all add: assms(2,3) inc_add_len add_len_0)

lemma host_loop_run:
  assumes "\<forall>c \<in> set cs. http_parse_host_char s c = s" "s \<in> {s_http_host, s_http_host_port}"
  shows "http_parse_host_loop (cs @ rest) p s u =
    http_parse_host_loop rest (p + length cs) s
      (add_len (if s = s_http_host then UF_HOST else UF_PORT) (length cs) u)"
  using assms(1)
proof (induction cs arbitrary: p u)
  case Nil
  then show ?case by (simp add: add_len_0)
next
  case (Cons c cs)
  then show ?case
    using assms(2) by (auto simp: http_parse_host_step_def inc_add_len)
qed

lemma url_char_delims:
  "IS_URL_CHAR c \<Longrightarrow> c \<notin> {CHR '' '', CR, LF, TAB, FF}"
  by (auto simp: IS_URL_CHAR_def BIT_AT_def normal_url_char_def)

lemma path_char: "IS_URL_CHAR c \<Longrightarrow> parse_url_char s_req_path c = s_req_path"
  using url_char_delims [of c] by (simp add: parse_url_char_def)

lemma query_char: "IS_URL_CHAR c \<or> c = CHR ''?'' \<Longrightarrow>
    parse_url_char s_req_query_string c = s_req_query_string \<and>
    parse_url_char s_req_query_string_start c = s_req_query_string"
  using url_char_delims [of c] by (auto simp: parse_url_char_def)

lemma field_textI:
  assumes "off (field_data u uf) = of_nat i" "len (field_data u uf) = of_nat n"
    "buf = pre @ t @ post" "i = length pre" "n = length t" "length buf < 2 ^ 16"
  shows "field_text buf u uf = t"
proof -
  have "field_off u uf = i" "field_len u uf = n"
    using assms by (simp_all add: field_off_def field_len_def unat_of_nat)
  with assms(3-5) show ?thesis by (simp add: field_text_def)
qed

lemma origin_form:
  assumes "\<forall>c \<in> set path. IS_URL_CHAR c" "query \<noteq> []"
    "\<forall>c \<in> set query. IS_URL_CHAR c \<or> c = CHR ''?''"
    "buf = ''/'' @ path @ ''?'' @ query" "length buf < 2 ^ 16"
  shows "\<exists>u. http_parser_parse_url buf False u0 = Some (0, u) \<and>
    field_set u = uf_bit UF_PATH OR uf_bit UF_QUERY \<and>
    field_text buf u UF_PATH = ''/'' @ path \<and> field_text buf u UF_QUERY = query"
proof -
  obtain q qs where q: "query = q # qs" using assms(2) by (cases query) simp_all
  let ?u0 = "u0\<lparr>port := 0, field_set := 0\<rparr>"
  let ?u1 = "add_len UF_PATH (length path) (url_new_field UF_PATH 0 ?u0)"
  let ?u2 = "add_len UF_QUERY (length qs) (url_new_field UF_QUERY (length path + 2) ?u1)"
  have act: "url_action_of s_req_path = Url_Field UF_PATH"
    "url_action_of s_req_query_string = Url_Field UF_QUERY"
    "url_action_of s_req_query_string_start = Url_Skip"
    by (simp_all add: url_action_of_def)
  have first: "parse_url_char s_req_spaces_before_url (CHR ''/'') = s_req_path"
    "parse_url_char s_req_path (CHR ''?'') = s_req_query_string_start"
    by (simp_all add: parse_url_char_def IS_URL_CHAR_def BIT_AT_def normal_url_char_def)
  have "url_loop buf 0 s_req_spaces_before_url UF_MAX False ?u0 =
      url_loop (path @ ''?'' @ query) 1 s_req_path UF_PATH False (url_new_field UF_PATH 0 ?u0)"
    using assms(4) by (simp add: first act)
  also have "\<dots> = url_loop (''?'' @ query) (length path + 1) s_req_path UF_PATH False ?u1"
    using assms(1) by (subst url_loop_run) (simp_all add: act path_char)
  also have "\<dots> = url_loop qs (Suc (Suc (Suc (length path)))) s_req_query_string UF_QUERY False
      (url_new_field UF_QUERY (length path + 2) ?u1)"
    using assms(3) query_char [of q] by (simp add: q first act Let_def)
  also have "\<dots> = Some (Inr (False, ?u2))"
    using assms(3) url_loop_run [of qs s_req_query_string UF_QUERY "[]"] by (simp add: q act query_char)
  finally have loop: "url_loop buf 0 s_req_spaces_before_url UF_MAX False ?u0 = Some (Inr (False, ?u2))" .
  have fs: "field_set ?u2 = uf_bit UF_PATH OR uf_bit UF_QUERY" by simp
  have "http_parser_parse_url buf False u0 = Some (0, ?u2)"
    using loop by (simp add: http_parser_parse_url_def url_after_host_def url_port_def fs)
  moreover have "field_text buf ?u2 UF_PATH = ''/'' @ path"
    by (rule field_textI [where i = 0 and n = "Suc (length path)" and pre = "[]" and post = "''?'' @ query"])
      (use assms(4,5) in simp_all)
  moreover have "field_text buf ?u2 UF_QUERY = query"
    by (rule field_textI [where i = "length path + 2" and n = "Suc (length qs)" and pre = "''/'' @ path @ ''?''"
          and post = "[]"]) (use assms(4,5) q in simp_all)
  ultimately show ?thesis using fs by blast
qed

lemma not_host_chars:
  assumes "x \<in> set '' /?@[]:'' \<or> x \<in> {CR, LF, TAB, FF}"
  shows "\<not> IS_HOST_CHAR x"
  using assms
  by (auto simp: IS_HOST_CHAR_def IS_ALPHANUM_def IS_ALPHA_def IS_NUM_def is_digit_def less_eq_char_def)

lemma num_host_char: "IS_NUM c \<Longrightarrow> IS_HOST_CHAR c"
  by (simp add: IS_HOST_CHAR_def IS_ALPHANUM_def)

lemma host_char_delims:
  assumes "IS_HOST_CHAR c"
  shows "c \<notin> {CHR '' '', CR, LF, TAB, FF, CHR ''/'', CHR ''?'', CHR ''@'', CHR ''['', CHR '']'', CHR '':''}"
  using assms not_host_chars by auto

lemma host_char_userinfo: "IS_HOST_CHAR c \<or> c = CHR '':'' \<Longrightarrow> IS_USERINFO_CHAR c"
  by (auto simp: IS_USERINFO_CHAR_def IS_HOST_CHAR_def IS_MARK_def)

lemma host_char_server:
  assumes "IS_HOST_CHAR c \<or> c = CHR '':''"
  shows "parse_url_char s_req_server c = s_req_server" "parse_url_char s_req_server_start c = s_req_server"
proof -
  have "c \<notin> {CHR '' '', CR, LF, TAB, FF, CHR ''/'', CHR ''?'', CHR ''@''}"
    using assms host_char_delims [of c] by blast
  with host_char_userinfo [OF assms]
  show "parse_url_char s_req_server c = s_req_server" "parse_url_char s_req_server_start c = s_req_server"
    by (simp_all add: parse_url_char_def parse_server_char_def)
qed

lemma host_chars:
  assumes "IS_HOST_CHAR c"
  shows "http_parse_host_char s_http_host_start c = s_http_host"
    "http_parse_host_char s_http_host c = s_http_host"
proof -
  have "c \<noteq> CHR ''[''" using host_char_delims [OF assms] by simp
  with assms show "http_parse_host_char s_http_host_start c = s_http_host"
    "http_parse_host_char s_http_host c = s_http_host"
    by (simp_all add: http_parse_host_char_def Let_def)
qed

lemma port_chars:
  "http_parse_host_char s_http_host (CHR '':'') = s_http_host_port_start"
  "IS_NUM c \<Longrightarrow> http_parse_host_char s_http_host_port_start c = s_http_host_port"
  "IS_NUM c \<Longrightarrow> http_parse_host_char s_http_host_port c = s_http_host_port"
  using not_host_chars [of "CHR '':''"] by (simp_all add: http_parse_host_char_def Let_def)

lemma url_port_text:
  assumes "has_flag (field_set u) (uf_bit UF_PORT)"
    "field_off u UF_PORT + field_len u UF_PORT \<le> length buf"
  shows "url_port buf u = (case port_loop 0 (field_text buf u UF_PORT) of None \<Rightarrow> Some (1, u)
      | Some v \<Rightarrow> Some (0, u\<lparr>port := ucast v\<rparr>))"
  using assms by (simp add: url_port_def Let_def field_text_def)

lemma authority_form:
  assumes "host \<noteq> []" "\<forall>c \<in> set host. IS_HOST_CHAR c" "digits \<noteq> []" "\<forall>c \<in> set digits. IS_NUM c"
    "buf = host @ '':'' @ digits" "length buf < 2 ^ 16"
  shows "\<exists>u r. http_parser_parse_url buf True u0 = Some (r, u) \<and>
    field_set u = uf_bit UF_HOST OR uf_bit UF_PORT \<and>
    field_text buf u UF_HOST = host \<and> field_text buf u UF_PORT = digits \<and>
    (if decimal_from 0 digits \<le> 65535 then r = 0 \<and> unat (port u) = decimal_from 0 digits else r = 1)"
proof -
  obtain h hs where h: "host = h # hs" using assms(1) by (cases host) simp_all
  obtain d ds where d: "digits = d # ds" using assms(3) by (cases digits) simp_all
  let ?u0 = "u0\<lparr>port := 0, field_set := 0\<rparr>"
  let ?u1 = "add_len UF_HOST (length (hs @ '':'' @ digits)) (url_new_field UF_HOST 0 ?u0)"
  let ?u2 = "add_len UF_HOST (length hs) (inc_len UF_HOST (set_off UF_HOST 0 (set_len UF_HOST 0 ?u1)))"
  let ?u3 = "add_len UF_PORT (length ds) (inc_len UF_PORT
      (set_field UF_PORT (set_len UF_PORT 0 (set_off UF_PORT (length host + 1) ?u2))))"
  have all: "\<forall>c \<in> set (hs @ '':'' @ digits). parse_url_char s_req_server c = s_req_server"
  proof -
    have "\<forall>c \<in> set (hs @ '':'' @ digits). IS_HOST_CHAR c \<or> c = CHR '':''"
      using assms(2,4) h num_host_char by auto
    then show ?thesis using host_char_server(1) by blast
  qed
  have act: "url_action_of s_req_server = Url_Field UF_HOST" by (simp add: url_action_of_def)
  have "url_loop buf 0 s_req_server_start UF_MAX False ?u0 = Some (Inr (False, ?u1))"
    using assms(2,5) h host_char_server(2) [of h] url_loop_run [OF all act, of "[]"]
    by (simp add: act Let_def)
  note loop = this
  have off1: "field_off ?u1 UF_HOST = 0" and len1: "field_len ?u1 UF_HOST = length buf"
    using assms(5,6) h by (simp_all add: field_off_def field_len_def unat_of_nat unat_word_ariths)
  have hostc: "http_parse_host_char s_http_host_start h = s_http_host"
    "\<forall>c \<in> set hs. http_parse_host_char s_http_host c = s_http_host"
    using assms(2) h host_chars by simp_all
  have portc: "http_parse_host_char s_http_host (CHR '':'') = s_http_host_port_start"
    "http_parse_host_char s_http_host_port_start d = s_http_host_port"
    "\<forall>c \<in> set ds. http_parse_host_char s_http_host_port c = s_http_host_port"
    using assms(4) d port_chars by simp_all
  have "http_parse_host_loop buf 0 s_http_host_start (set_len UF_HOST 0 ?u1) =
      http_parse_host_loop ('':'' @ digits) (Suc (length hs)) s_http_host ?u2"
    using hostc host_loop_run [of hs s_http_host "'':'' @ digits" 1] assms(5) h
    by (simp add: http_parse_host_step_def)
  also have "\<dots> = Inr (s_http_host_port, ?u3)"
    using portc host_loop_run [of ds s_http_host_port "[]"] h d
    by (simp add: http_parse_host_step_def)
  finally have "http_parse_host buf ?u1 False = Some (0, ?u3)"
    using off1 len1 by (simp add: http_parse_host_def http_host_end_ok_def)
  moreover have fs: "field_set ?u3 = uf_bit UF_HOST OR uf_bit UF_PORT" by simp
  ultimately have parse: "http_parser_parse_url buf True u0 = url_port buf ?u3"
    using loop by (simp add: http_parser_parse_url_def url_after_host_def)
  have host: "field_text buf ?u3 UF_HOST = host"
    by (rule field_textI [where i = 0 and n = "length host" and pre = "[]" and post = "'':'' @ digits"])
      (use assms(5,6) h in simp_all)
  have port: "field_text buf ?u3 UF_PORT = digits"
    by (rule field_textI [where i = "length host + 1" and n = "length digits" and pre = "host @ '':''" and post = "[]"])
      (use assms(5,6) d in simp_all)
  have bound: "field_off ?u3 UF_PORT + field_len ?u3 UF_PORT \<le> length buf"
    using assms(5,6) d by (simp add: field_off_def field_len_def unat_of_nat unat_word_ariths)
  obtain v where v: "http_parser_parse_url buf True u0 = url_port buf v"
    "field_set v = uf_bit UF_HOST OR uf_bit UF_PORT" "field_text buf v UF_HOST = host"
    "field_text buf v UF_PORT = digits" "field_off v UF_PORT + field_len v UF_PORT \<le> length buf"
    using parse fs host port bound by blast
  then have res: "http_parser_parse_url buf True u0 = (if decimal_from 0 digits \<le> 65535
      then Some (0, v\<lparr>port := ucast (of_nat (decimal_from 0 digits) :: 64 word)\<rparr>) else Some (1, v))"
    using port_loop_digits [OF _ assms(4), of 0] url_port_text [of v buf] by simp
  show ?thesis
  proof (cases "decimal_from 0 digits \<le> 65535")
    case True
    with res v(2-4) show ?thesis by (simp add: unsigned_of_nat take_bit_nat_eq_self)
  next
    case False
    with res v(2-4) show ?thesis by simp
  qed
qed

section \<open>Properties\<close>

text \<open>C7: no assertion of the URL splitter fails, on any bytes and with any flag, and on
  success or failure every field in \<open>field_set\<close> lies inside of the buffer.\<close>

theorem parse_url_inside:
  "\<exists>r u. http_parser_parse_url buf conn u0 = Some (r, u) \<and> r \<le> 1 \<and>
    (\<forall>uf. has_flag (field_set u) (uf_bit uf) \<longrightarrow> field_off u uf + field_len u uf \<le> length buf)"
  using parse_url_ok [of buf conn u0] span_at_bounds(1) by (fastforce simp: fields_in_def)

theorem parse_url_inside_witness:
  "\<exists>u. http_parser_parse_url ''/a?b'' False http_parser_url_init = Some (0, u) \<and>
    has_flag (field_set u) (uf_bit UF_QUERY) \<and> field_off u UF_QUERY + field_len u UF_QUERY \<le> 4"
proof -
  have "\<exists>u. http_parser_parse_url ''/a?b'' False http_parser_url_init = Some (0, u) \<and>
      field_set u = uf_bit UF_PATH OR uf_bit UF_QUERY"
    using origin_form [of "''a''" "''b''" "''/a?b''" http_parser_url_init]
    by (auto simp: IS_URL_CHAR_def BIT_AT_def normal_url_char_def)
  with parse_url_inside [of "''/a?b''" False http_parser_url_init] show ?thesis by auto
qed

text \<open>on a buffer of less than 2^16 bytes a port that is reported is the number written by
  its field, which holds digits only.\<close>

theorem parse_url_port:
  assumes "http_parser_parse_url buf conn u0 = Some (0, u)" "has_flag (field_set u) (uf_bit UF_PORT)"
    "length buf < 2 ^ 16"
  shows "(\<forall>c \<in> set (field_text buf u UF_PORT). is_digit c) \<and>
    unat (port u) = decimal_from 0 (field_text buf u UF_PORT)"
  using parse_url_ok [of buf conn u0] assms by (auto simp: port_ok_def IS_NUM_def)

theorem parse_url_port_witness:
  "\<exists>u. http_parser_parse_url ''h:80'' True http_parser_url_init = Some (0, u) \<and> unat (port u) = 80"
proof -
  have h: "IS_HOST_CHAR (CHR ''h'')" "IS_NUM (CHR ''8'')" "IS_NUM (CHR ''0'')"
    by (simp_all add: IS_HOST_CHAR_def IS_ALPHANUM_def IS_ALPHA_def IS_NUM_def is_digit_def less_eq_char_def)
  obtain u where u: "http_parser_parse_url ''h:80'' True http_parser_url_init = Some (0, u)"
    "field_set u = uf_bit UF_HOST OR uf_bit UF_PORT" "field_text ''h:80'' u UF_PORT = ''80''"
    using authority_form [of "''h''" "''80''" "''h:80''" http_parser_url_init] h
    by (auto simp: digit_value_def)
  with parse_url_port [OF u(1)] show ?thesis by (simp add: digit_value_def)
qed

text \<open>a target \<open>/path?query\<close> of URL characters is split at its first question mark, and no
  other field is reported.\<close>

theorem parse_url_origin_form:
  assumes "\<forall>c \<in> set path. IS_URL_CHAR c" "query \<noteq> []"
    "\<forall>c \<in> set query. IS_URL_CHAR c \<or> c = CHR ''?''"
    "buf = ''/'' @ path @ ''?'' @ query" "length buf < 2 ^ 16"
  shows "\<exists>u. http_parser_parse_url buf False u0 = Some (0, u) \<and>
    field_set u = uf_bit UF_PATH OR uf_bit UF_QUERY \<and>
    field_text buf u UF_PATH = ''/'' @ path \<and> field_text buf u UF_QUERY = query"
  using assms by (rule origin_form)

theorem parse_url_origin_form_witness:
  "\<exists>u. http_parser_parse_url ''/ab?c=d?e'' False http_parser_url_init = Some (0, u) \<and>
    field_text ''/ab?c=d?e'' u UF_PATH = ''/ab'' \<and> field_text ''/ab?c=d?e'' u UF_QUERY = ''c=d?e''"
  using parse_url_origin_form [of "''ab''" "''c=d?e''" "''/ab?c=d?e''" http_parser_url_init]
  by (auto simp: IS_URL_CHAR_def BIT_AT_def normal_url_char_def)

text \<open>a CONNECT target \<open>host:port\<close> is split at the colon; it is accepted exactly when the
  number is at most 65535, and then the number is what is stored.\<close>

theorem parse_url_authority_form:
  assumes "host \<noteq> []" "\<forall>c \<in> set host. IS_HOST_CHAR c" "digits \<noteq> []" "\<forall>c \<in> set digits. IS_NUM c"
    "buf = host @ '':'' @ digits" "length buf < 2 ^ 16"
  shows "\<exists>u r. http_parser_parse_url buf True u0 = Some (r, u) \<and>
    field_set u = uf_bit UF_HOST OR uf_bit UF_PORT \<and>
    field_text buf u UF_HOST = host \<and> field_text buf u UF_PORT = digits \<and>
    (if decimal_from 0 digits \<le> 65535 then r = 0 \<and> unat (port u) = decimal_from 0 digits else r = 1)"
  using assms by (rule authority_form)

theorem parse_url_authority_form_witness:
  "\<exists>u. http_parser_parse_url ''h:99999'' True http_parser_url_init = Some (1, u) \<and>
    field_text ''h:99999'' u UF_HOST = ''h''"
proof -
  have h: "IS_HOST_CHAR (CHR ''h'')" "IS_NUM (CHR ''9'')"
    by (simp_all add: IS_HOST_CHAR_def IS_ALPHANUM_def IS_ALPHA_def IS_NUM_def is_digit_def less_eq_char_def)
  then show ?thesis
    using parse_url_authority_form [of "''h''" "''99999''" "''h:99999''" http_parser_url_init]
    by (auto simp: digit_value_def)
qed

end
