(* ===== verification/Http_Request.thy ===== *)
theory Http_Request
  imports Http_Properties Http_Url_Spec
begin

text \<open>
  The client of the parser in \<open>src/http_server.cpp\<close>: \<open>mongols::http_request_parser\<close>, whose
  callbacks collect the parts of a request. The object is the \<open>data\<close> of the parser. A C++
  exception of \<open>std::string::substr\<close> or a failing assertion of the URL splitter inside of a
  callback is the flag \<open>thrown\<close>, shown below never to be set.
\<close>

section \<open>The request object and the callbacks\<close>

record http_request =
  rq_method :: string
  rq_uri :: string
  rq_param :: string
  rq_headers :: "string \<rightharpoonup> string"
  rq_field :: string
  rq_body :: string
  thrown :: bool

definition empty_request :: http_request where
  "empty_request =
     \<lparr>rq_method = [], rq_uri = [], rq_param = [], rq_headers = Map.empty, rq_field = [],
      rq_body = [], thrown = False\<rparr>"

text \<open>\<open>std::string::substr\<close>: \<open>None\<close> is \<open>std::out_of_range\<close>.\<close>

definition substr :: "string \<Rightarrow> nat \<Rightarrow> nat \<Rightarrow> string option" where
  "substr s i n = (if i \<le> length s then Some (take n (drop i s)) else None)"

definition url_substr :: "string \<Rightarrow> http_parser_url \<Rightarrow> http_parser_url_fields \<Rightarrow> string option" where
  "url_substr uri u uf =
     (if has_flag (field_set u) (uf_bit uf) then substr uri (field_off u uf) (field_len u uf) else Some [])"

definition update_data :: "('d \<Rightarrow> 'd) \<Rightarrow> 'd http_parser \<Rightarrow> int \<times> 'd http_parser" where
  "update_data f p = (0, p\<lparr>data := f (data p)\<rparr>)"

definition request_on_header_field :: "string \<Rightarrow> http_request \<Rightarrow> http_request" where
  "request_on_header_field bs r =
     r\<lparr>rq_field := bs,
       rq_headers := (if rq_headers r bs = None then (rq_headers r)(bs \<mapsto> []) else rq_headers r)\<rparr>"

definition request_on_header_value :: "string \<Rightarrow> http_request \<Rightarrow> http_request" where
  "request_on_header_value bs r = r\<lparr>rq_headers := (rq_headers r)(rq_field r \<mapsto> bs)\<rparr>"

definition request_on_headers_complete :: "http_method \<Rightarrow> http_request \<Rightarrow> http_request" where
  "request_on_headers_complete m r =
     (let r1 = r\<lparr>rq_method := http_method_str (http_method_num m)\<rparr>
      in case http_parser_parse_url (rq_uri r1) False http_parser_url_init of
           None \<Rightarrow> r1\<lparr>thrown := True\<rparr>
         | Some (_, u) \<Rightarrow>
             (case (url_substr (rq_uri r1) u UF_PATH, url_substr (rq_uri r1) u UF_QUERY) of
                (Some path, Some param) \<Rightarrow> r1\<lparr>rq_param := param, rq_uri := path\<rparr>
              | _ \<Rightarrow> r1\<lparr>thrown := True\<rparr>))"

definition request_settings :: "http_request http_parser_settings" where
  "request_settings =
     \<lparr>on_message_begin = Some (update_data id),
      on_url = Some (\<lambda>p bs. update_data (\<lambda>r. r\<lparr>rq_uri := bs\<rparr>) p),
      on_status = Some (\<lambda>p bs. update_data id p),
      on_header_field = Some (\<lambda>p bs. update_data (request_on_header_field bs) p),
      on_header_value = Some (\<lambda>p bs. update_data (request_on_header_value bs) p),
      on_headers_complete = Some (\<lambda>p. update_data (request_on_headers_complete (req_method p)) p),
      on_body = Some (\<lambda>p bs. update_data (\<lambda>r. r\<lparr>rq_body := bs\<rparr>) p),
      on_message_complete = Some (update_data id),
      on_chunk_header = Some (update_data id),
      on_chunk_complete = Some (update_data id)\<rparr>"

text \<open>
  \<open>http_request_parser (req)\<close> and \<open>parse (str)\<close>: whether all of \<open>str\<close> was consumed, and the
  request. \<open>None\<close> stands for a call that does not return or aborts.
\<close>

definition new_request_parser :: "http_request http_parser" where
  "new_request_parser =
     http_parser_init
       \<lparr>ptype = HTTP_BOTH, flags = 0, state = s_dead, header_state = h_general, index = 0,
        lenient_http_headers = False, nread = 0, content_length = 0, http_major = 0, http_minor = 0,
        status_code = 0, req_method = HTTP_DELETE, http_errno = HPE_OK, upgrade = False,
        data = empty_request\<rparr> HTTP_REQUEST"

definition request_parse :: "string \<Rightarrow> (bool \<times> http_request) option" where
  "request_parse str =
     (case http_parser_execute request_settings new_request_parser str of
        Some (Returned n p) \<Rightarrow> Some (n = length str, data p)
      | _ \<Rightarrow> None)"

section \<open>The callbacks keep the contract\<close>

lemma update_data_obeys: "http_errno p = HPE_OK \<Longrightarrow> obeys p (snd (update_data f p))"
  by (simp add: update_data_def obeys_def)

lemma request_callbacks_ok: "callbacks_ok request_settings"
proof -
  have "notify_cb request_settings kind = Some (update_data id)" for kind
    by (cases kind) (simp_all add: request_settings_def)
  moreover have "data_cb request_settings kind = Some cb \<Longrightarrow> data_cb_ok cb" for kind cb
    by (cases kind) (auto simp: request_settings_def data_cb_ok_def update_data_obeys)
  moreover have "on_headers_complete request_settings = Some cb \<Longrightarrow> cb_ok cb" for cb
    by (auto simp: request_settings_def cb_ok_def update_data_obeys)
  ultimately show ?thesis by (simp add: callbacks_ok_def cb_ok_def update_data_obeys)
qed

interpretation request_client: http_client request_settings
  by (rule http_client.intro) (rule request_callbacks_ok)

lemma url_substr_Some:
  assumes "http_parser_parse_url uri conn u0 = Some (r, u)"
  shows "url_substr uri u uf = Some (if has_flag (field_set u) (uf_bit uf) then field_text uri u uf else [])"
proof -
  have "fields_in uri u" using parse_url_ok [of uri conn u0] assms by auto
  then have "has_flag (field_set u) (uf_bit uf) \<Longrightarrow> field_off u uf \<le> length uri"
    using span_at_bounds(1) by (fastforce simp: fields_in_def)
  then show ?thesis by (simp add: url_substr_def substr_def field_text_def)
qed

lemma headers_complete_not_thrown:
  "thrown (request_on_headers_complete m r) = thrown r"
proof -
  obtain n u where "http_parser_parse_url (rq_uri r) False http_parser_url_init = Some (n, u)"
    using parse_url_ok [of "rq_uri r" False http_parser_url_init] by blast
  then show ?thesis
    by (simp add: request_on_headers_complete_def Let_def url_substr_Some [of "rq_uri r"])
qed

section \<open>Properties\<close>

text \<open>C28: \<open>http_request_parser::parse\<close> returns on any string, and no exception is thrown out of the
  callback that splits the target, whatever target was read before.\<close>

theorem request_parse_returns:
  "(\<exists>b r. request_parse str = Some (b, r)) \<and> thrown (request_on_headers_complete m r0) = thrown r0"
proof -
  have "parser_ok new_request_parser"
    unfolding new_request_parser_def by (rule http_parser_init_ok)
  from request_client.execute_ok [OF this, of str] show ?thesis
    by (auto simp: request_parse_def headers_complete_not_thrown)
qed

text \<open>when the headers of a request with target \<open>/path?query\<close> are complete, the server holds the
  name of the method, the path and the query.\<close>

theorem request_target_split:
  assumes "\<forall>c \<in> set path. IS_URL_CHAR c" "query \<noteq> []"
    "\<forall>c \<in> set query. IS_URL_CHAR c \<or> c = CHR ''?''"
    "rq_uri r = ''/'' @ path @ ''?'' @ query" "length (rq_uri r) < 2 ^ 16"
  shows "request_on_headers_complete m r =
    r\<lparr>rq_method := method_string m, rq_param := query, rq_uri := ''/'' @ path\<rparr>"
proof -
  obtain u where u: "http_parser_parse_url (rq_uri r) False http_parser_url_init = Some (0, u)"
    "field_set u = uf_bit UF_PATH OR uf_bit UF_QUERY"
    "field_text (rq_uri r) u UF_PATH = ''/'' @ path" "field_text (rq_uri r) u UF_QUERY = query"
    using origin_form [OF assms] by blast
  have "http_method_str (http_method_num m) = method_string m"
    by (cases m) (simp_all add: http_method_str_def method_string_def method_strings_def)
  with u url_substr_Some [OF u(1)] show ?thesis
    by (simp add: request_on_headers_complete_def Let_def)
qed

theorem request_target_split_witness:
  "request_on_headers_complete HTTP_GET (empty_request\<lparr>rq_uri := ''/a?b=c''\<rparr>) =
    empty_request\<lparr>rq_method := ''GET'', rq_param := ''b=c'', rq_uri := ''/a''\<rparr>"
  using request_target_split [of "''a''" "''b=c''" "empty_request\<lparr>rq_uri := ''/a?b=c''\<rparr>" HTTP_GET]
  by (simp add: IS_URL_CHAR_def BIT_AT_def normal_url_char_def method_string_def method_strings_def)

end
