(* ===== verification/Websocket.thy ===== *)
theory Websocket
  imports Prelude "HOL-Library.While_Combinator"
begin

text \<open>
  \<open>src/lib/websocket_parser.c\<close>: the incremental frame parser, the masking of payloads and the
  construction of frames. A \<open>char\<close> of a frame is an \<open>8 word\<close>; \<open>size_t\<close> is a \<open>64 word\<close>. The
  parser compares \<open>p + require\<close> with \<open>end\<close> as pointers, so the model keeps the address of the
  buffer: the sum can wrap around, and a callback is then given more bytes than there are,
  which is the result \<open>Ws_overrun\<close>.
\<close>

section \<open>Flags, parser and settings\<close>

definition WS_OP_CONTINUE :: "32 word" where "WS_OP_CONTINUE = 0x0"
definition WS_OP_TEXT :: "32 word" where "WS_OP_TEXT = 0x1"
definition WS_OP_BINARY :: "32 word" where "WS_OP_BINARY = 0x2"
definition WS_OP_CLOSE :: "32 word" where "WS_OP_CLOSE = 0x8"
definition WS_OP_PING :: "32 word" where "WS_OP_PING = 0x9"
definition WS_OP_PONG :: "32 word" where "WS_OP_PONG = 0xA"
definition WS_FINAL_FRAME :: "32 word" where "WS_FINAL_FRAME = 0x10"
definition WS_HAS_MASK :: "32 word" where "WS_HAS_MASK = 0x20"
definition WS_OP_MASK :: "32 word" where "WS_OP_MASK = 0xF"
definition WS_FIN :: "32 word" where "WS_FIN = WS_FINAL_FRAME"

lemmas ws_flag_defs = WS_OP_CONTINUE_def WS_OP_TEXT_def WS_OP_BINARY_def WS_OP_CLOSE_def
  WS_OP_PING_def WS_OP_PONG_def WS_FINAL_FRAME_def WS_HAS_MASK_def WS_OP_MASK_def WS_FIN_def

datatype ws_state = s_start | s_head | s_length | s_mask | s_body

record 'd websocket_parser =
  ws_state :: ws_state
  ws_flags :: "32 word"
  ws_mask :: bytes
  ws_mask_offset :: "8 word"
  ws_length :: "64 word"
  ws_require :: "64 word"
  ws_offset :: "64 word"
  ws_data :: 'd

type_synonym 'd ws_cb = "'d websocket_parser \<Rightarrow> int \<times> 'd websocket_parser"
type_synonym 'd ws_data_cb = "'d websocket_parser \<Rightarrow> bytes \<Rightarrow> int \<times> 'd websocket_parser"

record 'd websocket_parser_settings =
  on_frame_header :: "'d ws_cb option"
  on_frame_body :: "'d ws_data_cb option"
  on_frame_end :: "'d ws_cb option"

definition websocket_parser_init :: "'d websocket_parser \<Rightarrow> 'd websocket_parser" where
  "websocket_parser_init parser =
     \<lparr>ws_state = s_start, ws_flags = 0, ws_mask = [0, 0, 0, 0], ws_mask_offset = 0,
      ws_length = 0, ws_require = 0, ws_offset = 0, ws_data = ws_data parser\<rparr>"

definition websocket_parser_settings_init :: "'d websocket_parser_settings" where
  "websocket_parser_settings_init = \<lparr>on_frame_header = None, on_frame_body = None, on_frame_end = None\<rparr>"

definition websocket_parser_get_opcode :: "'d websocket_parser \<Rightarrow> 32 word" where
  "websocket_parser_get_opcode p = ws_flags p AND WS_OP_MASK"

definition websocket_parser_has_mask :: "'d websocket_parser \<Rightarrow> bool" where
  "websocket_parser_has_mask p = has_flag (ws_flags p) WS_HAS_MASK"

definition websocket_parser_has_final :: "'d websocket_parser \<Rightarrow> bool" where
  "websocket_parser_has_final p = has_flag (ws_flags p) WS_FIN"

section \<open>The parser\<close>

text \<open>The parser, the position \<open>p - data\<close> (which \<open>p--\<close> can take below zero) and \<open>frame_offset\<close>.\<close>

record 'd ws_ctx =
  wpsr :: "'d websocket_parser"
  wpos :: int
  frame_offset :: "64 word"

datatype 'd ws_outcome = Ws_returned "64 word" "'d websocket_parser" | Ws_overrun

datatype 'd ws_flow = Ws_break "'d ws_ctx" | Ws_return "'d ws_outcome"

definition GET_NPARSED :: "bytes \<Rightarrow> 'd ws_ctx \<Rightarrow> 64 word" where
  "GET_NPARSED buf c = (if wpos c = int (length buf) then of_nat (length buf) else of_int (wpos c))"

definition ws_result :: "bytes \<Rightarrow> 'd ws_ctx \<Rightarrow> 'd ws_outcome" where
  "ws_result buf c = Ws_returned (GET_NPARSED buf c) (wpsr c)"

definition NOTIFY_CB ::
    "'d ws_cb option \<Rightarrow> bytes \<Rightarrow> 'd ws_ctx \<Rightarrow> ('d ws_ctx \<Rightarrow> 'd ws_flow) \<Rightarrow> 'd ws_flow" where
  "NOTIFY_CB cb buf c k =
     (case cb of
        None \<Rightarrow> k c
      | Some f \<Rightarrow>
          (let (r, q) = f (wpsr c); c1 = c\<lparr>wpsr := q\<rparr>
           in if r \<noteq> 0 then Ws_return (ws_result buf c1) else k c1))"

text \<open>\<open>n\<close> bytes from \<open>p\<close> on; more than there are is a read outside of the buffer.\<close>

definition EMIT_DATA_CB ::
    "'d ws_data_cb option \<Rightarrow> bytes \<Rightarrow> 64 word \<Rightarrow> 'd ws_ctx \<Rightarrow> ('d ws_ctx \<Rightarrow> 'd ws_flow) \<Rightarrow> 'd ws_flow" where
  "EMIT_DATA_CB cb buf n c k =
     (case cb of
        None \<Rightarrow> k c
      | Some f \<Rightarrow>
          if nat (wpos c) + unat n > length buf then Ws_return Ws_overrun
          else
            (let (r, q) = f (wpsr c) (take (unat n) (drop (nat (wpos c)) buf)); c1 = c\<lparr>wpsr := q\<rparr>
             in if r \<noteq> 0 then Ws_return (ws_result buf c1) else k c1))"

definition CC :: "bytes \<Rightarrow> 'd ws_ctx \<Rightarrow> byte" where
  "CC buf c = buf ! nat (wpos c)"

definition SET_STATE :: "ws_state \<Rightarrow> 'd ws_ctx \<Rightarrow> 'd ws_ctx" where
  "SET_STATE s c = c\<lparr>wpsr := (wpsr c)\<lparr>ws_state := s\<rparr>\<rparr>"

definition ws_set_require :: "64 word \<Rightarrow> 'd ws_ctx \<Rightarrow> 'd ws_ctx" where
  "ws_set_require n c = c\<lparr>wpsr := (wpsr c)\<lparr>ws_require := n\<rparr>\<rparr>"

definition ws_case_start :: "bytes \<Rightarrow> 'd ws_ctx \<Rightarrow> 'd ws_flow" where
  "ws_case_start buf c =
     (let x = CC buf c;
          fl = ucast x AND WS_OP_MASK;
          q = (wpsr c)\<lparr>ws_offset := 0, ws_length := 0, ws_mask_offset := 0,
                       ws_flags := (if bit x 7 then fl OR WS_FIN else fl), ws_state := s_head\<rparr>
      in Ws_break (c\<lparr>wpsr := q, frame_offset := frame_offset c + 1\<rparr>))"

text \<open>The end of a header: the body follows, or the frame is empty and ends here.\<close>

definition ws_header_done ::
    "'d websocket_parser_settings \<Rightarrow> bytes \<Rightarrow> 'd ws_ctx \<Rightarrow> ('d ws_ctx \<Rightarrow> 'd ws_flow) \<Rightarrow> 'd ws_flow" where
  "ws_header_done S buf c k =
     (if ws_length (wpsr c) \<noteq> 0 then
        NOTIFY_CB (on_frame_header S) buf (ws_set_require (ws_length (wpsr c)) (SET_STATE s_body c)) k
      else
        NOTIFY_CB (on_frame_header S) buf (SET_STATE s_start c) (\<lambda>c. NOTIFY_CB (on_frame_end S) buf c k))"

definition ws_case_head :: "'d websocket_parser_settings \<Rightarrow> bytes \<Rightarrow> 'd ws_ctx \<Rightarrow> 'd ws_flow" where
  "ws_case_head S buf c =
     (let x = CC buf c;
          n = ucast x AND 0x7F;
          q = (wpsr c)\<lparr>ws_length := n\<rparr>;
          q1 = (if x AND 0x80 \<noteq> 0 then q\<lparr>ws_flags := ws_flags q OR WS_HAS_MASK\<rparr> else q);
          c1 = c\<lparr>wpsr := q1\<rparr>;
          count = (\<lambda>c. Ws_break (c\<lparr>frame_offset := frame_offset c + 1\<rparr>))
      in if n \<ge> 126 then
           let c2 = ws_set_require (if n = 127 then 8 else 2) c1
           in count (SET_STATE s_length (c2\<lparr>wpsr := (wpsr c2)\<lparr>ws_length := 0\<rparr>\<rparr>))
         else if has_flag (ws_flags q1) WS_HAS_MASK then count (ws_set_require 4 (SET_STATE s_mask c1))
         else ws_header_done S buf c1 count)"

text \<open>
  The two inner loops \<open>while (HAS_DATA () && parser->require)\<close>, by recursion on the bytes that
  are left.
\<close>

fun ws_length_loop :: "bytes \<Rightarrow> 'd ws_ctx \<Rightarrow> 'd ws_ctx" where
  "ws_length_loop [] c = c"
| "ws_length_loop (x # xs) c =
     (if ws_require (wpsr c) = 0 then c
      else ws_length_loop xs
        (c\<lparr>wpsr := (wpsr c)\<lparr>ws_length := push_bit 8 (ws_length (wpsr c)) OR ucast x,
                            ws_require := ws_require (wpsr c) - 1\<rparr>,
           frame_offset := frame_offset c + 1, wpos := wpos c + 1\<rparr>))"

fun ws_mask_loop :: "bytes \<Rightarrow> 'd ws_ctx \<Rightarrow> 'd ws_ctx" where
  "ws_mask_loop [] c = c"
| "ws_mask_loop (x # xs) c =
     (if ws_require (wpsr c) = 0 then c
      else ws_mask_loop xs
        (c\<lparr>wpsr := (wpsr c)\<lparr>ws_mask := (ws_mask (wpsr c))[unat (4 - ws_require (wpsr c)) := x],
                            ws_require := ws_require (wpsr c) - 1\<rparr>,
           frame_offset := frame_offset c + 1, wpos := wpos c + 1\<rparr>))"

definition ws_case_length :: "'d websocket_parser_settings \<Rightarrow> bytes \<Rightarrow> 'd ws_ctx \<Rightarrow> 'd ws_flow" where
  "ws_case_length S buf c =
     (let c1 = ws_length_loop (drop (nat (wpos c)) buf) c; c2 = c1\<lparr>wpos := wpos c1 - 1\<rparr>
      in if ws_require (wpsr c2) \<noteq> 0 then Ws_break c2
         else if has_flag (ws_flags (wpsr c2)) WS_HAS_MASK
         then Ws_break (ws_set_require 4 (SET_STATE s_mask c2))
         else ws_header_done S buf c2 Ws_break)"

definition ws_case_mask :: "'d websocket_parser_settings \<Rightarrow> bytes \<Rightarrow> 'd ws_ctx \<Rightarrow> 'd ws_flow" where
  "ws_case_mask S buf c =
     (let c1 = ws_mask_loop (drop (nat (wpos c)) buf) c; c2 = c1\<lparr>wpos := wpos c1 - 1\<rparr>
      in if ws_require (wpsr c2) \<noteq> 0 then Ws_break c2 else ws_header_done S buf c2 Ws_break)"

text \<open>\<open>base\<close> is the address of \<open>data\<close>: \<open>p + require <= end\<close> is a comparison of addresses.\<close>

definition ws_fits :: "64 word \<Rightarrow> bytes \<Rightarrow> 'd ws_ctx \<Rightarrow> bool" where
  "ws_fits base buf c \<longleftrightarrow>
     base + of_int (wpos c) + ws_require (wpsr c) \<le> base + of_nat (length buf)"

definition ws_body_end :: "'d websocket_parser_settings \<Rightarrow> bytes \<Rightarrow> 'd ws_ctx \<Rightarrow> 'd ws_flow" where
  "ws_body_end S buf c =
     (if ws_require (wpsr c) = 0
      then NOTIFY_CB (on_frame_end S) buf c (\<lambda>c. Ws_break (SET_STATE s_start c))
      else Ws_break c)"

definition ws_case_body ::
    "64 word \<Rightarrow> 'd websocket_parser_settings \<Rightarrow> bytes \<Rightarrow> 'd ws_ctx \<Rightarrow> 'd ws_flow" where
  "ws_case_body base S buf c =
     (let n = ws_require (wpsr c)
      in if n = 0 then ws_body_end S buf c
         else if ws_fits base buf c then
           EMIT_DATA_CB (on_frame_body S) buf n c (\<lambda>c.
             let c1 = ws_set_require 0 (c\<lparr>wpos := wpos c + uint n\<rparr>);
                 c2 = c1\<lparr>frame_offset := of_int (wpos c1)\<rparr>
             in ws_body_end S buf (c2\<lparr>wpos := wpos c2 - 1\<rparr>))
         else
           let left = of_int (int (length buf) - wpos c)
           in EMIT_DATA_CB (on_frame_body S) buf left c (\<lambda>c.
                let c1 = ws_set_require (ws_require (wpsr c) - left) c;
                    q = wpsr c1;
                    c2 = c1\<lparr>wpsr := q\<lparr>ws_offset := ws_offset q + of_nat (length buf) - frame_offset c1\<rparr>,
                            frame_offset := 0, wpos := int (length buf)\<rparr>
                in ws_body_end S buf (c2\<lparr>wpos := wpos c2 - 1\<rparr>)))"

definition ws_switch ::
    "64 word \<Rightarrow> 'd websocket_parser_settings \<Rightarrow> bytes \<Rightarrow> 'd ws_ctx \<Rightarrow> 'd ws_flow" where
  "ws_switch base S buf c =
     (case ws_state (wpsr c) of
        s_start \<Rightarrow> ws_case_start buf c
      | s_head \<Rightarrow> ws_case_head S buf c
      | s_length \<Rightarrow> ws_case_length S buf c
      | s_mask \<Rightarrow> ws_case_mask S buf c
      | s_body \<Rightarrow> ws_case_body base S buf c)"

text \<open>The \<open>for\<close> loop, one iteration with its \<open>p++\<close> at a time.\<close>

definition ws_step ::
    "64 word \<Rightarrow> 'd websocket_parser_settings \<Rightarrow> bytes \<Rightarrow> 'd ws_flow \<Rightarrow> 'd ws_flow" where
  "ws_step base S buf f =
     (case f of
        Ws_return r \<Rightarrow> Ws_return r
      | Ws_break c \<Rightarrow>
          if wpos c = int (length buf) then Ws_return (ws_result buf c)
          else case ws_switch base S buf c of
                 Ws_return r \<Rightarrow> Ws_return r
               | Ws_break c' \<Rightarrow> Ws_break (c'\<lparr>wpos := wpos c' + 1\<rparr>))"

primrec ws_running :: "'d ws_flow \<Rightarrow> bool" where
  "ws_running (Ws_break c) = True"
| "ws_running (Ws_return r) = False"

primrec ws_flow_outcome :: "'d ws_flow \<Rightarrow> 'd ws_outcome" where
  "ws_flow_outcome (Ws_return r) = r"
| "ws_flow_outcome (Ws_break c) = Ws_overrun"

definition ws_run ::
    "64 word \<Rightarrow> 'd websocket_parser_settings \<Rightarrow> bytes \<Rightarrow> 'd ws_flow \<Rightarrow> 'd ws_outcome option" where
  "ws_run base S buf f = map_option ws_flow_outcome (while_option ws_running (ws_step base S buf) f)"

text \<open>\<open>None\<close>: the call does not return.\<close>

definition websocket_parser_execute ::
    "64 word \<Rightarrow> 'd websocket_parser_settings \<Rightarrow> 'd websocket_parser \<Rightarrow> bytes \<Rightarrow> 'd ws_outcome option" where
  "websocket_parser_execute base S q buf =
     ws_run base S buf (Ws_break \<lparr>wpsr = q, wpos = 0, frame_offset = 0\<rparr>)"

section \<open>Masking and building frames\<close>

text \<open>
  The loop of both decoders from index \<open>i\<close> on; the C code indexes the mask with a \<open>size_t\<close> sum
  that does not wrap for any object that fits in memory.
\<close>

definition mask_byte :: "bytes \<Rightarrow> nat \<Rightarrow> byte" where
  "mask_byte m i = m ! (i mod 4)"

definition websocket_decode :: "bytes \<Rightarrow> bytes \<Rightarrow> 8 word \<Rightarrow> bytes \<times> 8 word" where
  "websocket_decode src m mask_offset =
     (map (\<lambda>i. src ! i XOR mask_byte m (i + unat mask_offset)) [0 ..< length src],
      of_nat ((length src + unat mask_offset) mod 4))"

definition websocket_parser_decode :: "bytes \<Rightarrow> 'd websocket_parser \<Rightarrow> bytes \<times> 'd websocket_parser" where
  "websocket_parser_decode src parser =
     (map (\<lambda>i. src ! i XOR mask_byte (ws_mask parser) (i + unat (ws_mask_offset parser))) [0 ..< length src],
      parser\<lparr>ws_mask_offset := of_nat ((length src + unat (ws_mask_offset parser)) mod 4)\<rparr>)"

definition websocket_calc_frame_size :: "32 word \<Rightarrow> 64 word \<Rightarrow> 64 word" where
  "websocket_calc_frame_size flags data_len =
     (let size = data_len + 2;
          size1 = (if data_len \<ge> 126 then if data_len > 0xFFFF then size + 8 else size + 2 else size)
      in if has_flag flags WS_HAS_MASK then size1 + 4 else size1)"

text \<open>
  The bytes \<open>websocket_build_frame\<close> writes, in the order of their addresses. \<open>mask\<close> is \<open>None\<close>
  for a null pointer: the four bytes that are in the buffer then, \<open>old\<close>, stay and are used.
  The second component is the size that is returned.
\<close>

definition ws_frame_head :: "32 word \<Rightarrow> 64 word \<Rightarrow> bytes" where
  "ws_frame_head flags data_len =
     (let b0 = (if has_flag flags WS_FIN then 0x80 else 0) OR ucast (flags AND WS_OP_MASK);
          b1 = (if has_flag flags WS_HAS_MASK then 0x80 else 0)
      in if data_len < 126 then [b0, b1 OR ucast data_len]
         else if data_len \<le> 0xFFFF then
           [b0, b1 OR 126, ucast (drop_bit 8 data_len), ucast (data_len AND 0xFF)]
         else
           [b0, b1 OR 127,
            ucast (drop_bit 56 data_len AND 0xFF), ucast (drop_bit 48 data_len AND 0xFF),
            ucast (drop_bit 40 data_len AND 0xFF), ucast (drop_bit 32 data_len AND 0xFF),
            ucast (drop_bit 24 data_len AND 0xFF), ucast (drop_bit 16 data_len AND 0xFF),
            ucast (drop_bit 8 data_len AND 0xFF), ucast (data_len AND 0xFF)])"

definition websocket_build_frame :: "bytes \<Rightarrow> 32 word \<Rightarrow> bytes option \<Rightarrow> bytes \<Rightarrow> bytes \<times> 64 word" where
  "websocket_build_frame old flags m payload =
     (let data_len = of_nat (length payload);
          head = ws_frame_head flags data_len;
          body_offset = of_nat (length head)
      in if has_flag flags WS_HAS_MASK then
           let key = (case m of Some k \<Rightarrow> k | None \<Rightarrow> old)
           in (head @ key @ fst (websocket_decode payload key 0), body_offset + 4 + data_len)
         else (head @ payload, body_offset + data_len))"

end
