(* ===== verification/Websocket_Spec.thy ===== *)
theory Websocket_Spec
  imports Websocket
begin

text \<open>
  A specification of the frame parser that reads one byte at a time, and the refinement:
  for callbacks that leave the parser's own fields alone, \<open>websocket_parser_execute\<close> never
  reads outside of the buffer, returns, and its effect on any buffer is that of the bytes one
  by one. So the result does not depend on how the stream is cut into buffers.
\<close>

section \<open>The byte machine\<close>

text \<open>
  What a client does at the start of a frame, at the end of its header, for one byte of the
  payload at an offset (the flags and the mask are those of the frame) and at its end.
\<close>

record 'e ws_events =
  ev_begin :: "'e \<Rightarrow> 'e"
  ev_header :: "32 word \<Rightarrow> 64 word \<Rightarrow> 'e \<Rightarrow> 'e"
  ev_byte :: "32 word \<Rightarrow> bytes \<Rightarrow> 64 word \<Rightarrow> byte \<Rightarrow> 'e \<Rightarrow> 'e"
  ev_end :: "'e \<Rightarrow> 'e"

fun ev_bytes :: "'e ws_events \<Rightarrow> 32 word \<Rightarrow> bytes \<Rightarrow> 64 word \<Rightarrow> bytes \<Rightarrow> 'e \<Rightarrow> 'e" where
  "ev_bytes v fl m k [] e = e"
| "ev_bytes v fl m k (b # bs) e = ev_bytes v fl m (k + 1) bs (ev_byte v fl m k b e)"

text \<open>What the parser remembers between bytes, and the state of the client.\<close>

record 'e ws_abs =
  a_state :: ws_state
  a_flags :: "32 word"
  a_mask :: bytes
  a_length :: "64 word"
  a_require :: "64 word"
  a_client :: 'e

definition spec_header :: "'e ws_events \<Rightarrow> 'e ws_abs \<Rightarrow> 'e ws_abs" where
  "spec_header v a =
     (let e = ev_header v (a_flags a) (a_length a) (a_client a)
      in if a_length a \<noteq> 0 then a\<lparr>a_state := s_body, a_require := a_length a, a_client := e\<rparr>
         else a\<lparr>a_state := s_start, a_client := ev_end v e\<rparr>)"

definition spec_start :: "'e ws_events \<Rightarrow> byte \<Rightarrow> 'e ws_abs \<Rightarrow> 'e ws_abs" where
  "spec_start v b a =
     a\<lparr>a_state := s_head, a_length := 0, a_client := ev_begin v (a_client a),
       a_flags := (if bit b 7 then ucast b AND WS_OP_MASK OR WS_FIN else ucast b AND WS_OP_MASK)\<rparr>"

definition spec_head :: "'e ws_events \<Rightarrow> byte \<Rightarrow> 'e ws_abs \<Rightarrow> 'e ws_abs" where
  "spec_head v b a =
     (let n = ucast b AND 0x7F;
          a1 = a\<lparr>a_length := n, a_flags := (if b AND 0x80 \<noteq> 0 then a_flags a OR WS_HAS_MASK else a_flags a)\<rparr>
      in if n \<ge> 126 then a1\<lparr>a_state := s_length, a_require := (if n = 127 then 8 else 2), a_length := 0\<rparr>
         else if has_flag (a_flags a1) WS_HAS_MASK then a1\<lparr>a_state := s_mask, a_require := 4\<rparr>
         else spec_header v a1)"

definition spec_after_length :: "'e ws_events \<Rightarrow> 'e ws_abs \<Rightarrow> 'e ws_abs" where
  "spec_after_length v a =
     (if a_require a \<noteq> 0 then a
      else if has_flag (a_flags a) WS_HAS_MASK then a\<lparr>a_state := s_mask, a_require := 4\<rparr>
      else spec_header v a)"

definition spec_length :: "byte \<Rightarrow> 'e ws_abs \<Rightarrow> 'e ws_abs" where
  "spec_length b a =
     a\<lparr>a_length := push_bit 8 (a_length a) OR ucast b, a_require := a_require a - 1\<rparr>"

definition spec_mask :: "byte \<Rightarrow> 'e ws_abs \<Rightarrow> 'e ws_abs" where
  "spec_mask b a =
     a\<lparr>a_mask := (a_mask a)[unat (4 - a_require a) := b], a_require := a_require a - 1\<rparr>"

definition spec_after_mask :: "'e ws_events \<Rightarrow> 'e ws_abs \<Rightarrow> 'e ws_abs" where
  "spec_after_mask v a = (if a_require a \<noteq> 0 then a else spec_header v a)"

definition spec_after_body :: "'e ws_events \<Rightarrow> 'e ws_abs \<Rightarrow> 'e ws_abs" where
  "spec_after_body v a =
     (if a_require a \<noteq> 0 then a else a\<lparr>a_state := s_start, a_client := ev_end v (a_client a)\<rparr>)"

definition spec_body :: "'e ws_events \<Rightarrow> byte \<Rightarrow> 'e ws_abs \<Rightarrow> 'e ws_abs" where
  "spec_body v b a =
     a\<lparr>a_require := a_require a - 1,
       a_client := ev_byte v (a_flags a) (a_mask a) (a_length a - a_require a) b (a_client a)\<rparr>"

definition spec_byte :: "'e ws_events \<Rightarrow> 'e ws_abs \<Rightarrow> byte \<Rightarrow> 'e ws_abs" where
  "spec_byte v a b =
     (case a_state a of
        s_start \<Rightarrow> spec_start v b a
      | s_head \<Rightarrow> spec_head v b a
      | s_length \<Rightarrow> spec_after_length v (spec_length b a)
      | s_mask \<Rightarrow> spec_after_mask v (spec_mask b a)
      | s_body \<Rightarrow> spec_after_body v (spec_body v b a))"

definition spec_bytes :: "'e ws_events \<Rightarrow> 'e ws_abs \<Rightarrow> bytes \<Rightarrow> 'e ws_abs" where
  "spec_bytes v = foldl (spec_byte v)"

definition ws_abstract :: "('d \<Rightarrow> 8 word \<Rightarrow> 'e) \<Rightarrow> 'd websocket_parser \<Rightarrow> 'e ws_abs" where
  "ws_abstract view q =
     \<lparr>a_state = ws_state q, a_flags = ws_flags q, a_mask = ws_mask q, a_length = ws_length q,
      a_require = ws_require q, a_client = view (ws_data q) (ws_mask_offset q)\<rparr>"

lemma spec_bytes_append: "spec_bytes v a (xs @ ys) = spec_bytes v (spec_bytes v a xs) ys"
  by (simp add: spec_bytes_def)

lemma spec_bytes_simps [simp]:
  "spec_bytes v a [] = a" "spec_bytes v a (x # xs) = spec_bytes v (spec_byte v a x) xs"
  by (simp_all add: spec_bytes_def)

text \<open>In a body there are bytes to come.\<close>

definition a_stuck :: "'e ws_abs \<Rightarrow> bool" where
  "a_stuck a \<longleftrightarrow> a_state a = s_body \<and> a_require a = 0"

lemma spec_byte_not_stuck: "\<not> a_stuck (spec_byte v a b)"
  by (cases "a_state a")
    (simp_all add: a_stuck_def spec_byte_def spec_start_def spec_head_def spec_header_def Let_def
      spec_after_length_def spec_length_def spec_after_mask_def spec_mask_def spec_after_body_def spec_body_def)

lemma spec_bytes_not_stuck: "\<not> a_stuck a \<Longrightarrow> \<not> a_stuck (spec_bytes v a bs)"
  by (induction bs arbitrary: a) (simp_all add: spec_byte_not_stuck)

section \<open>Contract and invariant\<close>

text \<open>A callback may change \<open>data\<close>, and \<open>mask_offset\<close> by way of \<open>websocket_parser_decode\<close>.\<close>

definition ws_obeys :: "'d websocket_parser \<Rightarrow> 'd websocket_parser \<Rightarrow> bool" where
  "ws_obeys q q' \<longleftrightarrow> q' = q\<lparr>ws_data := ws_data q', ws_mask_offset := ws_mask_offset q'\<rparr>"

definition ws_ok :: "'d websocket_parser \<Rightarrow> bool" where
  "ws_ok q \<longleftrightarrow>
     length (ws_mask q) = 4 \<and> (ws_state q = s_length \<longrightarrow> ws_require q \<noteq> 0) \<and>
     (ws_state q = s_mask \<longrightarrow> ws_require q \<noteq> 0 \<and> ws_require q \<le> 4) \<and>
     (ws_state q \<in> {s_head, s_length, s_mask} \<longrightarrow> ws_offset q = 0) \<and>
     (ws_state q = s_body \<and> ws_require q \<noteq> 0 \<longrightarrow> ws_offset q = ws_length q - ws_require q)"

text \<open>
  No address wraps around: the buffer lies in the lower half of the address space and so does
  the length of every frame in it.
\<close>

definition ws_small :: "64 word \<Rightarrow> 'e ws_events \<Rightarrow> 'e ws_abs \<Rightarrow> bytes \<Rightarrow> bool" where
  "ws_small base v a buf \<longleftrightarrow>
     unat base + length buf < 2 ^ 63 \<and>
     (\<forall>k \<le> length buf. unat (a_require (spec_bytes v a (take k buf))) < 2 ^ 63)"

text \<open>Callbacks that never stop the parser.\<close>

definition ws_total :: "'d websocket_parser_settings \<Rightarrow> bool" where
  "ws_total S \<longleftrightarrow>
     (\<forall>f q. on_frame_header S = Some f \<longrightarrow> fst (f q) = 0) \<and>
     (\<forall>g q bs. on_frame_body S = Some g \<longrightarrow> fst (g q bs) = 0) \<and>
     (\<forall>f q. on_frame_end S = Some f \<longrightarrow> fst (f q) = 0)"

lemma ws_totalD:
  assumes "r \<noteq> 0"
  shows "on_frame_header S = Some f \<Longrightarrow> f q = (r, q') \<Longrightarrow> \<not> ws_total S"
    "on_frame_body S = Some g \<Longrightarrow> g q bs = (r, q') \<Longrightarrow> \<not> ws_total S"
    "on_frame_end S = Some f \<Longrightarrow> f q = (r, q') \<Longrightarrow> \<not> ws_total S"
  using assms by (metis fst_conv ws_total_def)+

lemma pred_le:
  fixes w :: "64 word"
  assumes "w \<noteq> 0" "w \<le> n"
  shows "w - 1 \<le> n"
proof -
  have "unat (w - 1) = unat w - 1" using assms(1) by (simp add: unat_minus_one)
  then show ?thesis using assms(2) by (simp add: word_le_nat_alt)
qed

text \<open>Bytes of a body that the frame has room for.\<close>

lemma spec_body_run:
  assumes "a_state a = s_body" "length xs \<le> unat (a_require a)" "xs \<noteq> []"
  shows "spec_bytes v a xs = spec_after_body v (a\<lparr>a_require := a_require a - of_nat (length xs),
    a_client := ev_bytes v (a_flags a) (a_mask a) (a_length a - a_require a) xs (a_client a)\<rparr>)"
  using assms
proof (induction xs arbitrary: a)
  case Nil
  then show ?case by simp
next
  case (Cons x xs)
  let ?a = "a\<lparr>a_require := a_require a - 1,
    a_client := ev_byte v (a_flags a) (a_mask a) (a_length a - a_require a) x (a_client a)\<rparr>"
  have r: "a_require a \<noteq> 0" using Cons.prems(2) by auto
  then have u: "unat (a_require a - 1) = unat (a_require a) - 1" by (simp add: unat_minus_one)
  have spec: "spec_byte v a x = spec_after_body v ?a"
    using Cons.prems(1) r by (simp add: spec_byte_def spec_body_def)
  show ?case
  proof (cases "xs = []")
    case True
    with spec show ?thesis by simp
  next
    case False
    then have "a_require ?a \<noteq> 0" using u Cons.prems(2) by (cases xs) (auto simp: unat_eq_0 [symmetric])
    then have "spec_byte v a x = ?a" using spec by (simp add: spec_after_body_def)
    moreover have "spec_bytes v ?a xs = spec_after_body v (?a\<lparr>a_require := a_require ?a - of_nat (length xs),
        a_client := ev_bytes v (a_flags a) (a_mask a) (a_length a - a_require ?a) xs (a_client ?a)\<rparr>)"
      using Cons.IH [of ?a] Cons.prems u False by simp
    ultimately show ?thesis by (simp add: algebra_simps)
  qed
qed

locale ws_client =
  fixes S :: "'d websocket_parser_settings" and view :: "'d \<Rightarrow> 8 word \<Rightarrow> 'e" and v :: "'e ws_events"
  assumes view_begin: "view d 0 = ev_begin v (view d mo)"
    and header_obeys: "on_frame_header S = Some f \<Longrightarrow> f q = (r, q') \<Longrightarrow>
      ws_obeys q q' \<and> (r = 0 \<longrightarrow> view (ws_data q') (ws_mask_offset q') =
        ev_header v (ws_flags q) (ws_length q) (view (ws_data q) (ws_mask_offset q)))"
    and body_obeys: "on_frame_body S = Some g \<Longrightarrow> g q bs = (r, q') \<Longrightarrow>
      ws_obeys q q' \<and> (r = 0 \<longrightarrow> view (ws_data q') (ws_mask_offset q') =
        ev_bytes v (ws_flags q) (ws_mask q) (ws_offset q) bs (view (ws_data q) (ws_mask_offset q)))"
    and end_obeys: "on_frame_end S = Some f \<Longrightarrow> f q = (r, q') \<Longrightarrow>
      ws_obeys q q' \<and> (r = 0 \<longrightarrow> view (ws_data q') (ws_mask_offset q') =
        ev_end v (view (ws_data q) (ws_mask_offset q)))"
    and none_header: "on_frame_header S = None \<Longrightarrow> ev_header v fl n e = e"
    and none_body: "on_frame_body S = None \<Longrightarrow> ev_byte v fl m k b e = e"
    and none_end: "on_frame_end S = None \<Longrightarrow> ev_end v e = e"
begin

abbreviation client :: "'d websocket_parser \<Rightarrow> 'e" where
  "client q \<equiv> view (ws_data q) (ws_mask_offset q)"

text \<open>
  What a step may do from the bytes \<open>bs\<close> that are left at position \<open>i\<close>: a callback stops it, or
  it has read \<open>k\<close> of them (the position is one less, for the \<open>p++\<close> that follows).
\<close>

definition step_ok :: "bytes \<Rightarrow> nat \<Rightarrow> 'e ws_abs \<Rightarrow> 'd ws_flow \<Rightarrow> bool" where
  "step_ok buf i a f =
     (case f of
        Ws_return r \<Rightarrow> \<not> ws_total S \<and> (\<exists>n q. r = Ws_returned n q \<and> unat n \<le> length buf \<and> ws_ok q)
      | Ws_break c \<Rightarrow> ws_ok (wpsr c) \<and>
          (\<exists>k. 0 < k \<and> i + k \<le> length buf \<and> wpos c = int (i + k) - 1 \<and>
               (frame_offset c = of_nat (i + k) \<or> i + k = length buf) \<and>
               ws_abstract view (wpsr c) = spec_bytes v a (take k (drop i buf))))"

lemma header_law:
  assumes "on_frame_header S = Some f" "f q = (r, q')"
  shows "ws_obeys q q' \<and>
    (r = 0 \<longrightarrow> client q' = ev_header v (ws_flags q) (ws_length q) (client q)) \<and> (r \<noteq> 0 \<longrightarrow> \<not> ws_total S)"
  using header_obeys [OF assms] ws_totalD(1) [OF _ assms] by blast

lemma end_law:
  assumes "on_frame_end S = Some f" "f q = (r, q')"
  shows "ws_obeys q q' \<and> (r = 0 \<longrightarrow> client q' = ev_end v (client q)) \<and> (r \<noteq> 0 \<longrightarrow> \<not> ws_total S)"
  using end_obeys [OF assms] ws_totalD(3) [OF _ assms] by blast

lemma obeys_ok: "ws_obeys q q' \<Longrightarrow> ws_ok q' = ws_ok q"
  unfolding ws_obeys_def by (erule ssubst) (simp add: ws_ok_def)

lemma obeys_abstract:
  "ws_obeys q q' \<Longrightarrow> ws_abstract view q' = (ws_abstract view q)\<lparr>a_client := client q'\<rparr>"
  unfolding ws_obeys_def ws_abstract_def by (erule ssubst) simp

lemma obeys_offset: "ws_obeys q q' \<Longrightarrow> ws_offset q' = ws_offset q"
  unfolding ws_obeys_def by (erule ssubst) simp

lemma result_ok:
  assumes "0 \<le> wpos c" "wpos c \<le> int (length buf)" "length buf < 2 ^ 63" "ws_ok (wpsr c)"
    "\<not> ws_total S"
  shows "step_ok buf i a (Ws_return (ws_result buf c))"
proof -
  have w: "of_int (wpos c) = (of_nat (nat (wpos c)) :: 64 word)" using assms(1) by simp
  have "nat (wpos c) < 2 ^ 64" using assms(2,3) by simp
  then have "unat (of_int (wpos c) :: 64 word) = nat (wpos c)"
    unfolding w by (simp add: unat_of_nat)
  moreover have "unat (of_nat (length buf) :: 64 word) = length buf"
    using assms(3) by (simp add: unat_of_nat)
  ultimately have "unat (GET_NPARSED buf c) \<le> length buf" using assms(1,2) by (simp add: GET_NPARSED_def nat_le_iff)
  with assms(4,5) show ?thesis by (simp add: step_ok_def ws_result_def)
qed

lemma notify_ok:
  assumes cb: "\<And>f q r q'. cb = Some f \<Longrightarrow> f q = (r, q') \<Longrightarrow> q = wpsr c \<Longrightarrow>
      ws_obeys q q' \<and> (r = 0 \<longrightarrow> client q' = e (client q)) \<and> (r \<noteq> 0 \<longrightarrow> \<not> ws_total S)"
    and none: "cb = None \<Longrightarrow> e (client (wpsr c)) = client (wpsr c)"
    and c: "0 \<le> wpos c" "wpos c \<le> int (length buf)" "length buf < 2 ^ 63" "ws_ok (wpsr c)"
    and k: "\<And>c'. wpos c' = wpos c \<Longrightarrow> frame_offset c' = frame_offset c \<Longrightarrow> ws_ok (wpsr c') \<Longrightarrow>
      ws_abstract view (wpsr c') = (ws_abstract view (wpsr c))\<lparr>a_client := e (client (wpsr c))\<rparr> \<Longrightarrow>
      step_ok buf i a (k c')"
  shows "step_ok buf i a (NOTIFY_CB cb buf c k)"
proof (cases cb)
  case None
  then show ?thesis using k [of c] none c(4) by (simp add: NOTIFY_CB_def ws_abstract_def)
next
  case (Some f)
  obtain r q' where f: "f (wpsr c) = (r, q')" by force
  note law = cb [OF Some f refl]
  let ?c = "c\<lparr>wpsr := q'\<rparr>"
  have ok: "ws_ok (wpsr ?c)" using obeys_ok [of "wpsr c" q'] law c(4) by simp
  show ?thesis
  proof (cases "r = 0")
    case True
    have "step_ok buf i a (k ?c)"
      by (rule k) (use law True ok obeys_abstract [of "wpsr c" q'] in \<open>simp_all add: ws_abstract_def\<close>)
    with True Some f show ?thesis by (simp add: NOTIFY_CB_def)
  next
    case False
    then show ?thesis using Some f law result_ok [of ?c buf i a] c ok by (simp add: NOTIFY_CB_def)
  qed
qed

text \<open>The end of a header, in the state in which \<open>spec_header\<close> finds it.\<close>

lemma header_done_ok:
  assumes c: "0 \<le> wpos c" "wpos c < int (length buf)" "length buf < 2 ^ 63" "length (ws_mask (wpsr c)) = 4"
    and o: "ws_offset (wpsr c) = 0"
    and k: "\<And>c'. wpos c' = wpos c \<Longrightarrow> frame_offset c' = frame_offset c \<Longrightarrow> ws_ok (wpsr c') \<Longrightarrow>
      ws_abstract view (wpsr c') = spec_header v (ws_abstract view (wpsr c)) \<Longrightarrow> step_ok buf i a (k c')"
  shows "step_ok buf i a (ws_header_done S buf c k)"
proof (cases "ws_length (wpsr c) = 0")
  case False
  let ?c = "ws_set_require (ws_length (wpsr c)) (SET_STATE s_body c)"
  have ok: "ws_ok (wpsr ?c)" using c(4) o by (simp add: ws_ok_def ws_set_require_def SET_STATE_def)
  have "step_ok buf i a (NOTIFY_CB (on_frame_header S) buf ?c k)"
  proof (rule notify_ok [where e = "ev_header v (ws_flags (wpsr c)) (ws_length (wpsr c))"])
    fix c' :: "'d ws_ctx" assume c': "wpos c' = wpos ?c" "frame_offset c' = frame_offset ?c" "ws_ok (wpsr c')"
      "ws_abstract view (wpsr c') = (ws_abstract view (wpsr ?c))
        \<lparr>a_client := ev_header v (ws_flags (wpsr c)) (ws_length (wpsr c)) (client (wpsr ?c))\<rparr>"
    show "step_ok buf i a (k c')"
      by (rule k) (use c' False in \<open>simp_all add: ws_set_require_def SET_STATE_def ws_abstract_def spec_header_def\<close>)
  qed (use c ok none_header in \<open>auto dest: header_law simp: ws_set_require_def SET_STATE_def\<close>)
  with False show ?thesis by (simp add: ws_header_done_def)
next
  case True
  let ?c = "SET_STATE s_start c"
  have ok: "ws_ok (wpsr ?c)" using c(4) by (simp add: ws_ok_def SET_STATE_def)
  have "step_ok buf i a (NOTIFY_CB (on_frame_header S) buf ?c (\<lambda>c. NOTIFY_CB (on_frame_end S) buf c k))"
  proof (rule notify_ok [where e = "ev_header v (ws_flags (wpsr c)) (ws_length (wpsr c))"])
    fix c1 :: "'d ws_ctx" assume c1: "wpos c1 = wpos ?c" "frame_offset c1 = frame_offset ?c" "ws_ok (wpsr c1)"
      "ws_abstract view (wpsr c1) = (ws_abstract view (wpsr ?c))
        \<lparr>a_client := ev_header v (ws_flags (wpsr c)) (ws_length (wpsr c)) (client (wpsr ?c))\<rparr>"
    show "step_ok buf i a (NOTIFY_CB (on_frame_end S) buf c1 k)"
    proof (rule notify_ok [where e = "ev_end v"])
      fix c' :: "'d ws_ctx" assume c': "wpos c' = wpos c1" "frame_offset c' = frame_offset c1" "ws_ok (wpsr c')"
        "ws_abstract view (wpsr c') = (ws_abstract view (wpsr c1))\<lparr>a_client := ev_end v (client (wpsr c1))\<rparr>"
      show "step_ok buf i a (k c')"
        by (rule k) (use c' c1 True in \<open>simp_all add: SET_STATE_def spec_header_def ws_abstract_def\<close>)
    qed (use c c1 none_end in \<open>auto dest: end_law simp: SET_STATE_def\<close>)
  qed (use c ok none_header in \<open>auto dest: header_law simp: SET_STATE_def\<close>)
  with True show ?thesis by (simp add: ws_header_done_def)
qed

lemma emit_ok:
  assumes c: "wpos c = int i" "i + unat n \<le> length buf" "length buf < 2 ^ 63" "ws_ok (wpsr c)"
    and k: "\<And>c'. wpos c' = wpos c \<Longrightarrow> frame_offset c' = frame_offset c \<Longrightarrow> ws_ok (wpsr c') \<Longrightarrow>
      ws_offset (wpsr c') = ws_offset (wpsr c) \<Longrightarrow>
      ws_abstract view (wpsr c') = (ws_abstract view (wpsr c))
        \<lparr>a_client := ev_bytes v (ws_flags (wpsr c)) (ws_mask (wpsr c)) (ws_offset (wpsr c))
          (take (unat n) (drop i buf)) (client (wpsr c))\<rparr> \<Longrightarrow>
      step_ok buf i a (k c')"
  shows "step_ok buf i a (EMIT_DATA_CB (on_frame_body S) buf n c k)"
proof (cases "on_frame_body S")
  case None
  have "ev_bytes v fl m n bs e = e" for fl m n bs e
    using none_body [OF None] by (induction bs arbitrary: n) simp_all
  then show ?thesis using None k [of c] c(4) by (simp add: EMIT_DATA_CB_def ws_abstract_def)
next
  case (Some g)
  obtain r q' where g: "g (wpsr c) (take (unat n) (drop i buf)) = (r, q')" by force
  note law = body_obeys [OF Some g]
  let ?c = "c\<lparr>wpsr := q'\<rparr>"
  have ok: "ws_ok (wpsr ?c)" using obeys_ok [of "wpsr c" q'] law c(4) by simp
  show ?thesis
  proof (cases "r = 0")
    case True
    have "step_ok buf i a (k ?c)"
      by (rule k) (use law True ok obeys_abstract [of "wpsr c" q'] obeys_offset [of "wpsr c" q'] in \<open>simp_all add: ws_abstract_def\<close>)
    with True Some g c(1,2) show ?thesis by (simp add: EMIT_DATA_CB_def)
  next
    case False
    have "int i \<le> int (length buf)" using c(2) by simp
    with False show ?thesis
      using Some g ws_totalD(2) [OF False Some g] result_ok [of ?c buf i a] c ok by (simp add: EMIT_DATA_CB_def)
  qed
qed

section \<open>The five cases\<close>

lemma take_one: "i < length buf \<Longrightarrow> take (Suc 0) (drop i buf) = [buf ! i]"
  by (simp add: take_Suc_conv_app_nth)

lemma break_one:
  assumes "i < length buf" "wpos c = int i" "frame_offset c = of_nat i + 1" "ws_ok (wpsr c)"
    "ws_abstract view (wpsr c) = spec_byte v a (buf ! i)"
  shows "step_ok buf i a (Ws_break c)"
  using assms take_one [OF assms(1)] by (auto simp: step_ok_def intro!: exI [of _ "Suc 0"])

lemma case_start_ok:
  assumes "wpos c = int i" "frame_offset c = of_nat i" "i < length buf" "ws_ok (wpsr c)" "ws_state (wpsr c) = s_start"
  shows "step_ok buf i (ws_abstract view (wpsr c)) (ws_case_start buf c)"
  unfolding ws_case_start_def Let_def
  by (rule break_one)
    (use assms in \<open>simp_all add: view_begin [symmetric] ws_ok_def ws_abstract_def spec_byte_def spec_start_def CC_def\<close>)

lemma case_head_ok:
  assumes "wpos c = int i" "frame_offset c = of_nat i" "i < length buf" "length buf < 2 ^ 63" "ws_ok (wpsr c)" "ws_state (wpsr c) = s_head"
  shows "step_ok buf i (ws_abstract view (wpsr c)) (ws_case_head S buf c)"
proof -
  let ?x = "buf ! i" and ?a = "ws_abstract view (wpsr c)"
  let ?n = "ucast ?x AND 0x7F :: 64 word"
  define q where "q = (let q = (wpsr c)\<lparr>ws_length := ?n\<rparr>
    in if ?x AND 0x80 \<noteq> 0 then q\<lparr>ws_flags := ws_flags q OR WS_HAS_MASK\<rparr> else q)"
  define a1 where "a1 = ?a\<lparr>a_length := ?n,
    a_flags := (if ?x AND 0x80 \<noteq> 0 then a_flags ?a OR WS_HAS_MASK else a_flags ?a)\<rparr>"
  have q: "ws_abstract view q = a1" "ws_state q = s_head" "ws_ok q" "a_flags a1 = ws_flags q" "ws_offset q = 0"
    using assms(5,6) by (simp_all add: q_def a1_def ws_abstract_def ws_ok_def Let_def)
  have spec: "spec_byte v ?a ?x =
      (if ?n \<ge> 126 then a1\<lparr>a_state := s_length, a_require := (if ?n = 127 then 8 else 2), a_length := 0\<rparr>
       else if has_flag (a_flags a1) WS_HAS_MASK then a1\<lparr>a_state := s_mask, a_require := 4\<rparr>
       else spec_header v a1)"
    using assms(6) by (simp add: spec_byte_def spec_head_def Let_def a1_def ws_abstract_def)
  have head: "ws_case_head S buf c =
      (if ?n \<ge> 126 then
         Ws_break (c\<lparr>wpsr := q\<lparr>ws_require := (if ?n = 127 then 8 else 2), ws_length := 0, ws_state := s_length\<rparr>,
           frame_offset := frame_offset c + 1\<rparr>)
       else if has_flag (ws_flags q) WS_HAS_MASK then
         Ws_break (c\<lparr>wpsr := q\<lparr>ws_state := s_mask, ws_require := 4\<rparr>, frame_offset := frame_offset c + 1\<rparr>)
       else ws_header_done S buf (c\<lparr>wpsr := q\<rparr>) (\<lambda>c. Ws_break (c\<lparr>frame_offset := frame_offset c + 1\<rparr>)))"
    using assms(1) by (simp add: ws_case_head_def Let_def CC_def q_def ws_set_require_def SET_STATE_def)
  consider "?n \<ge> 126" | "\<not> ?n \<ge> 126" "has_flag (ws_flags q) WS_HAS_MASK"
    | "\<not> ?n \<ge> 126" "\<not> has_flag (ws_flags q) WS_HAS_MASK" by blast
  then show ?thesis
  proof cases
    case 1
    show ?thesis unfolding head if_P [OF 1]
      by (rule break_one)
        (use assms(1-3) q spec 1 in \<open>auto simp: ws_ok_def ws_abstract_def\<close>)
  next
    case 2
    show ?thesis unfolding head if_not_P [OF 2(1)] if_P [OF 2(2)]
      by (rule break_one)
        (use assms(1-3) q spec 2 in \<open>auto simp: ws_ok_def ws_abstract_def\<close>)
  next
    case 3
    show ?thesis unfolding head if_not_P [OF 3(1)] if_not_P [OF 3(2)]
    proof (rule header_done_ok)
      fix c' :: "'d ws_ctx" assume c': "wpos c' = wpos (c\<lparr>wpsr := q\<rparr>)" "frame_offset c' = frame_offset (c\<lparr>wpsr := q\<rparr>)"
        "ws_ok (wpsr c')"
        "ws_abstract view (wpsr c') = spec_header v (ws_abstract view (wpsr (c\<lparr>wpsr := q\<rparr>)))"
      show "step_ok buf i ?a (Ws_break (c'\<lparr>frame_offset := frame_offset c' + 1\<rparr>))"
        by (rule break_one) (use assms(1-3) q spec 3 c' in simp_all)
    qed (use assms q in \<open>simp_all add: ws_ok_def\<close>)
  qed
qed

lemma length_loop_ok:
  assumes "ws_state (wpsr c) = s_length" "ws_require (wpsr c) \<noteq> 0" "xs \<noteq> []" "ws_ok (wpsr c)"
  shows "\<exists>k. 0 < k \<and> k \<le> length xs \<and> wpos (ws_length_loop xs c) = wpos c + int k \<and>
    ws_state (wpsr (ws_length_loop xs c)) = s_length \<and> length (ws_mask (wpsr (ws_length_loop xs c))) = 4 \<and>
    frame_offset (ws_length_loop xs c) = frame_offset c + of_nat k \<and> ws_offset (wpsr (ws_length_loop xs c)) = 0 \<and>
    spec_bytes v (ws_abstract view (wpsr c)) (take k xs) =
      spec_after_length v (ws_abstract view (wpsr (ws_length_loop xs c)))"
  using assms
proof (induction xs arbitrary: c)
  case Nil
  then show ?case by simp
next
  case (Cons x xs)
  let ?q = "(wpsr c)\<lparr>ws_length := push_bit 8 (ws_length (wpsr c)) OR ucast x, ws_require := ws_require (wpsr c) - 1\<rparr>"
  let ?c = "c\<lparr>wpsr := ?q, frame_offset := frame_offset c + 1, wpos := wpos c + 1\<rparr>"
  have loop: "ws_length_loop (x # xs) c = ws_length_loop xs ?c" using Cons.prems(2) by simp
  have spec: "spec_byte v (ws_abstract view (wpsr c)) x = spec_after_length v (ws_abstract view (wpsr ?c))"
    using Cons.prems(1) by (simp add: spec_byte_def spec_length_def ws_abstract_def)
  have m: "length (ws_mask (wpsr ?c)) = 4" "ws_offset (wpsr ?c) = 0" "ws_state (wpsr ?c) = s_length"
    using Cons.prems by (simp_all add: ws_ok_def)
  show ?case
  proof (cases "ws_require (wpsr ?c) = 0 \<or> xs = []")
    case True
    then have "ws_length_loop xs ?c = ?c" by (cases xs) auto
    with loop spec m show ?thesis by (intro exI [of _ 1]) simp
  next
    case False
    have "spec_after_length v (ws_abstract view (wpsr ?c)) = ws_abstract view (wpsr ?c)"
      using False by (simp add: spec_after_length_def ws_abstract_def)
    moreover obtain k where "0 < k" "k \<le> length xs" "wpos (ws_length_loop xs ?c) = wpos ?c + int k"
      "ws_state (wpsr (ws_length_loop xs ?c)) = s_length" "length (ws_mask (wpsr (ws_length_loop xs ?c))) = 4"
      "frame_offset (ws_length_loop xs ?c) = frame_offset ?c + of_nat k" "ws_offset (wpsr (ws_length_loop xs ?c)) = 0"
      "spec_bytes v (ws_abstract view (wpsr ?c)) (take k xs) =
         spec_after_length v (ws_abstract view (wpsr (ws_length_loop xs ?c)))"
      using Cons.IH [of ?c] False m by (auto simp: ws_ok_def)
    ultimately show ?thesis using spec unfolding loop by (intro exI [of _ "Suc k"]) simp
  qed
qed

lemma mask_loop_ok:
  assumes "ws_state (wpsr c) = s_mask" "ws_require (wpsr c) \<noteq> 0" "xs \<noteq> []" "ws_ok (wpsr c)"
  shows "\<exists>k. 0 < k \<and> k \<le> length xs \<and> wpos (ws_mask_loop xs c) = wpos c + int k \<and>
    ws_state (wpsr (ws_mask_loop xs c)) = s_mask \<and> length (ws_mask (wpsr (ws_mask_loop xs c))) = 4 \<and>
    frame_offset (ws_mask_loop xs c) = frame_offset c + of_nat k \<and> ws_offset (wpsr (ws_mask_loop xs c)) = 0 \<and>
    ws_require (wpsr (ws_mask_loop xs c)) \<le> 4 \<and>
    spec_bytes v (ws_abstract view (wpsr c)) (take k xs) =
      spec_after_mask v (ws_abstract view (wpsr (ws_mask_loop xs c)))"
  using assms
proof (induction xs arbitrary: c)
  case Nil
  then show ?case by simp
next
  case (Cons x xs)
  let ?q = "(wpsr c)\<lparr>ws_mask := (ws_mask (wpsr c))[unat (4 - ws_require (wpsr c)) := x],
    ws_require := ws_require (wpsr c) - 1\<rparr>"
  let ?c = "c\<lparr>wpsr := ?q, frame_offset := frame_offset c + 1, wpos := wpos c + 1\<rparr>"
  have loop: "ws_mask_loop (x # xs) c = ws_mask_loop xs ?c" using Cons.prems(2) by simp
  have spec: "spec_byte v (ws_abstract view (wpsr c)) x = spec_after_mask v (ws_abstract view (wpsr ?c))"
    using Cons.prems(1) by (simp add: spec_byte_def spec_mask_def ws_abstract_def)
  have "ws_require (wpsr c) - 1 \<le> 4" using Cons.prems by (intro pred_le) (simp_all add: ws_ok_def)
  then have m: "length (ws_mask (wpsr ?c)) = 4" "ws_offset (wpsr ?c) = 0" "ws_state (wpsr ?c) = s_mask" "ws_require (wpsr ?c) \<le> 4"
    using Cons.prems by (simp_all add: ws_ok_def)
  show ?case
  proof (cases "ws_require (wpsr ?c) = 0 \<or> xs = []")
    case True
    then have "ws_mask_loop xs ?c = ?c" by (cases xs) auto
    with loop spec m show ?thesis by (intro exI [of _ 1]) simp
  next
    case False
    have "spec_after_mask v (ws_abstract view (wpsr ?c)) = ws_abstract view (wpsr ?c)"
      using False by (simp add: spec_after_mask_def ws_abstract_def)
    moreover obtain k where "0 < k" "k \<le> length xs" "wpos (ws_mask_loop xs ?c) = wpos ?c + int k"
      "ws_state (wpsr (ws_mask_loop xs ?c)) = s_mask" "length (ws_mask (wpsr (ws_mask_loop xs ?c))) = 4"
      "frame_offset (ws_mask_loop xs ?c) = frame_offset ?c + of_nat k" "ws_offset (wpsr (ws_mask_loop xs ?c)) = 0"
      "ws_require (wpsr (ws_mask_loop xs ?c)) \<le> 4"
      "spec_bytes v (ws_abstract view (wpsr ?c)) (take k xs) =
         spec_after_mask v (ws_abstract view (wpsr (ws_mask_loop xs ?c)))"
      using Cons.IH [of ?c] False m by (auto simp: ws_ok_def)
    ultimately show ?thesis using spec unfolding loop by (intro exI [of _ "Suc k"]) simp
  qed
qed

lemma break_some:
  assumes "0 < k" "i + k \<le> length buf" "wpos c = int (i + k) - 1"
    "frame_offset c = of_nat (i + k) \<or> i + k = length buf" "ws_ok (wpsr c)"
    "ws_abstract view (wpsr c) = spec_bytes v a (take k (drop i buf))"
  shows "step_ok buf i a (Ws_break c)"
  using assms by (auto simp: step_ok_def)

lemma case_length_ok:
  assumes "wpos c = int i" "frame_offset c = of_nat i" "i < length buf" "length buf < 2 ^ 63" "ws_ok (wpsr c)" "ws_state (wpsr c) = s_length"
  shows "step_ok buf i (ws_abstract view (wpsr c)) (ws_case_length S buf c)"
proof -
  let ?c1 = "ws_length_loop (drop i buf) c"
  let ?c2 = "?c1\<lparr>wpos := wpos ?c1 - 1\<rparr>"
  obtain k where k: "0 < k" "k \<le> length buf - i" "wpos ?c1 = int i + int k" "ws_state (wpsr ?c1) = s_length"
    "length (ws_mask (wpsr ?c1)) = 4" "frame_offset ?c1 = of_nat i + of_nat k" "ws_offset (wpsr ?c1) = 0"
    "spec_bytes v (ws_abstract view (wpsr c)) (take k (drop i buf)) =
      spec_after_length v (ws_abstract view (wpsr ?c1))"
    using length_loop_ok [of c "drop i buf"] assms by (auto simp: ws_ok_def)
  have b: "i + k \<le> length buf" "wpos ?c2 = int (i + k) - 1" "frame_offset ?c2 = of_nat (i + k)"
    using k assms(3) by simp_all
  consider "ws_require (wpsr ?c1) \<noteq> 0" | "ws_require (wpsr ?c1) = 0" "has_flag (ws_flags (wpsr ?c1)) WS_HAS_MASK"
    | "ws_require (wpsr ?c1) = 0" "\<not> has_flag (ws_flags (wpsr ?c1)) WS_HAS_MASK" by blast
  then show ?thesis
  proof cases
    case 1
    then have "ws_case_length S buf c = Ws_break ?c2" using assms(1) by (simp add: ws_case_length_def Let_def)
    moreover have "step_ok buf i (ws_abstract view (wpsr c)) (Ws_break ?c2)"
      by (rule break_some [OF k(1) b(1,2)]) (use b k 1 in \<open>simp_all add: ws_ok_def spec_after_length_def ws_abstract_def\<close>)
    ultimately show ?thesis by simp
  next
    case 2
    let ?c3 = "ws_set_require 4 (SET_STATE s_mask ?c2)"
    from 2 have "ws_case_length S buf c = Ws_break ?c3" using assms(1) by (simp add: ws_case_length_def Let_def)
    moreover have "step_ok buf i (ws_abstract view (wpsr c)) (Ws_break ?c3)"
      by (rule break_some [OF k(1) b(1)])
        (use b k 2 in \<open>simp_all add: ws_ok_def spec_after_length_def ws_abstract_def ws_set_require_def SET_STATE_def\<close>)
    ultimately show ?thesis by simp
  next
    case 3
    from 3 have "ws_case_length S buf c = ws_header_done S buf ?c2 Ws_break"
      using assms(1) by (simp add: ws_case_length_def Let_def)
    moreover have "step_ok buf i (ws_abstract view (wpsr c)) (ws_header_done S buf ?c2 Ws_break)"
    proof (rule header_done_ok)
      fix c' :: "'d ws_ctx" assume c': "wpos c' = wpos ?c2" "frame_offset c' = frame_offset ?c2" "ws_ok (wpsr c')"
        "ws_abstract view (wpsr c') = spec_header v (ws_abstract view (wpsr ?c2))"
      show "step_ok buf i (ws_abstract view (wpsr c)) (Ws_break c')"
        by (rule break_some [OF k(1) b(1)])
          (use b k 3 c' in \<open>simp_all add: spec_after_length_def ws_abstract_def\<close>)
    qed (use b k assms(4) in simp_all)
    ultimately show ?thesis by simp
  qed
qed

lemma case_mask_ok:
  assumes "wpos c = int i" "frame_offset c = of_nat i" "i < length buf" "length buf < 2 ^ 63" "ws_ok (wpsr c)" "ws_state (wpsr c) = s_mask"
  shows "step_ok buf i (ws_abstract view (wpsr c)) (ws_case_mask S buf c)"
proof -
  let ?c1 = "ws_mask_loop (drop i buf) c"
  let ?c2 = "?c1\<lparr>wpos := wpos ?c1 - 1\<rparr>"
  obtain k where k: "0 < k" "k \<le> length buf - i" "wpos ?c1 = int i + int k" "ws_state (wpsr ?c1) = s_mask"
    "length (ws_mask (wpsr ?c1)) = 4" "frame_offset ?c1 = of_nat i + of_nat k" "ws_offset (wpsr ?c1) = 0"
    "ws_require (wpsr ?c1) \<le> 4"
    "spec_bytes v (ws_abstract view (wpsr c)) (take k (drop i buf)) =
      spec_after_mask v (ws_abstract view (wpsr ?c1))"
    using mask_loop_ok [of c "drop i buf"] assms by (auto simp: ws_ok_def)
  have b: "i + k \<le> length buf" "wpos ?c2 = int (i + k) - 1" "frame_offset ?c2 = of_nat (i + k)"
    using k assms(3) by simp_all
  show ?thesis
  proof (cases "ws_require (wpsr ?c1) = 0")
    case False
    then have "ws_case_mask S buf c = Ws_break ?c2" using assms(1) by (simp add: ws_case_mask_def Let_def)
    moreover have "step_ok buf i (ws_abstract view (wpsr c)) (Ws_break ?c2)"
      by (rule break_some [OF k(1) b(1,2)]) (use b k False in \<open>simp_all add: ws_ok_def spec_after_mask_def ws_abstract_def\<close>)
    ultimately show ?thesis by simp
  next
    case True
    then have "ws_case_mask S buf c = ws_header_done S buf ?c2 Ws_break"
      using assms(1) by (simp add: ws_case_mask_def Let_def)
    moreover have "step_ok buf i (ws_abstract view (wpsr c)) (ws_header_done S buf ?c2 Ws_break)"
    proof (rule header_done_ok)
      fix c' :: "'d ws_ctx" assume c': "wpos c' = wpos ?c2" "frame_offset c' = frame_offset ?c2" "ws_ok (wpsr c')"
        "ws_abstract view (wpsr c') = spec_header v (ws_abstract view (wpsr ?c2))"
      show "step_ok buf i (ws_abstract view (wpsr c)) (Ws_break c')"
        by (rule break_some [OF k(1) b(1)])
          (use b k True c' in \<open>simp_all add: spec_after_mask_def ws_abstract_def\<close>)
    qed (use b k assms(4) in simp_all)
    ultimately show ?thesis by simp
  qed
qed

lemma fits_iff:
  assumes "wpos c = int i" "i \<le> length buf" "unat base + length buf < 2 ^ 63" "unat (ws_require (wpsr c)) < 2 ^ 63"
  shows "ws_fits base buf c \<longleftrightarrow> i + unat (ws_require (wpsr c)) \<le> length buf"
proof -
  have i: "of_int (wpos c) = (of_nat i :: 64 word)" using assms(1) by simp
  have "unat (base + of_nat i + ws_require (wpsr c)) = unat base + i + unat (ws_require (wpsr c))"
    using assms(2-4) by (simp add: unat_word_ariths unat_of_nat)
  moreover have "unat (base + of_nat (length buf)) = unat base + length buf"
    using assms(3) by (simp add: unat_word_ariths unat_of_nat)
  ultimately show ?thesis unfolding ws_fits_def i word_le_nat_alt by simp
qed

lemma body_end_ok:
  assumes c: "0 < k" "i + k \<le> length buf" "wpos c = int (i + k) - 1" "length buf < 2 ^ 63" "ws_ok (wpsr c)"
    "ws_state (wpsr c) = s_body" "frame_offset c = of_nat (i + k) \<or> i + k = length buf"
    and spec: "spec_bytes v a (take k (drop i buf)) = spec_after_body v (ws_abstract view (wpsr c))"
  shows "step_ok buf i a (ws_body_end S buf c)"
proof (cases "ws_require (wpsr c) = 0")
  case False
  have "step_ok buf i a (Ws_break c)"
    by (rule break_some [OF c(1-3,7,5)]) (use spec False in \<open>simp add: spec_after_body_def ws_abstract_def\<close>)
  with False show ?thesis by (simp add: ws_body_end_def)
next
  case True
  have p: "0 \<le> wpos c" "wpos c \<le> int (length buf)" using c(1-3) by simp_all
  have "step_ok buf i a (NOTIFY_CB (on_frame_end S) buf c (\<lambda>c. Ws_break (SET_STATE s_start c)))"
  proof (rule notify_ok [where e = "ev_end v", OF _ _ p c(4,5)])
    fix c' :: "'d ws_ctx" assume c': "wpos c' = wpos c" "frame_offset c' = frame_offset c" "ws_ok (wpsr c')"
      "ws_abstract view (wpsr c') = (ws_abstract view (wpsr c))\<lparr>a_client := ev_end v (client (wpsr c))\<rparr>"
    have "ws_abstract view (wpsr (SET_STATE s_start c')) =
        spec_after_body v (ws_abstract view (wpsr c))"
      using c'(4) True by (simp add: ws_abstract_def SET_STATE_def spec_after_body_def)
    then show "step_ok buf i a (Ws_break (SET_STATE s_start c'))"
      by (intro break_some [OF c(1,2)]) (use c' c(3,7) spec in \<open>simp_all add: SET_STATE_def ws_ok_def\<close>)
  qed (use none_end in \<open>auto dest: end_law\<close>)
  with True show ?thesis by (simp add: ws_body_end_def)
qed

lemma case_body_ok:
  assumes "wpos c = int i" "frame_offset c = of_nat i" "i < length buf" "unat base + length buf < 2 ^ 63"
    "ws_ok (wpsr c)" "ws_state (wpsr c) = s_body" "unat (ws_require (wpsr c)) < 2 ^ 63"
    "ws_require (wpsr c) \<noteq> 0"
  shows "step_ok buf i (ws_abstract view (wpsr c)) (ws_case_body base S buf c)"
proof -
  let ?n = "ws_require (wpsr c)" and ?a = "ws_abstract view (wpsr c)" and ?bs = "drop i buf"
  let ?run = "\<lambda>bs. ev_bytes v (ws_flags (wpsr c)) (ws_mask (wpsr c)) (ws_offset (wpsr c)) bs (client (wpsr c))"
  have len: "length buf < 2 ^ 63" using assms(4) by simp
  have abs: "a_state ?a = s_body" "a_require ?a = ?n" "a_flags ?a = ws_flags (wpsr c)"
      "a_mask ?a = ws_mask (wpsr c)" "a_length ?a = ws_length (wpsr c)" "a_client ?a = client (wpsr c)"
    using assms(6) by (simp_all add: ws_abstract_def)
  have off: "?n \<noteq> 0 \<Longrightarrow> ws_length (wpsr c) - ?n = ws_offset (wpsr c)"
    using assms(5,6) by (simp add: ws_ok_def)
  note fits = fits_iff [OF assms(1) less_imp_le [OF assms(3)] assms(4,7)]
  consider (all) "?n \<noteq> 0" "i + unat ?n \<le> length buf"
    | (part) "?n \<noteq> 0" "length buf < i + unat ?n" using assms(8) by linarith
  then show ?thesis
  proof cases
    case all
    have n: "0 < unat ?n" using all(1) by (simp add: unat_gt_0)
    have un: "uint ?n = int (unat ?n)" by simp
    have "step_ok buf i ?a (EMIT_DATA_CB (on_frame_body S) buf ?n c (\<lambda>c.
        let c1 = ws_set_require 0 (c\<lparr>wpos := wpos c + uint ?n\<rparr>);
            c2 = c1\<lparr>frame_offset := of_int (wpos c1)\<rparr>
        in ws_body_end S buf (c2\<lparr>wpos := wpos c2 - 1\<rparr>)))"
    proof (rule emit_ok [OF assms(1) all(2) len assms(5)])
      fix c' :: "'d ws_ctx" assume c': "wpos c' = wpos c" "frame_offset c' = frame_offset c" "ws_ok (wpsr c')"
        "ws_offset (wpsr c') = ws_offset (wpsr c)"
        "ws_abstract view (wpsr c') = ?a\<lparr>a_client := ?run (take (unat ?n) ?bs)\<rparr>"
      have st: "ws_state (wpsr c') = s_body" using c'(5) assms(6) by (simp add: ws_abstract_def)
      have "spec_bytes v ?a (take (unat ?n) ?bs) = spec_after_body v (?a\<lparr>a_require := 0,
          a_client := ?run (take (unat ?n) ?bs)\<rparr>)"
        using spec_body_run [of ?a "take (unat ?n) ?bs"] abs all n off by simp
      also have "?a\<lparr>a_require := 0, a_client := ?run (take (unat ?n) ?bs)\<rparr> =
          (ws_abstract view (wpsr c'))\<lparr>a_require := 0\<rparr>" using c'(5) by simp
      finally show "step_ok buf i ?a (let c1 = ws_set_require 0 (c'\<lparr>wpos := wpos c' + uint ?n\<rparr>);
            c2 = c1\<lparr>frame_offset := of_int (wpos c1)\<rparr>
        in ws_body_end S buf (c2\<lparr>wpos := wpos c2 - 1\<rparr>))"
        unfolding Let_def
        by (intro body_end_ok [OF n all(2)])
          (use c' st assms(1) len un in \<open>simp_all add: ws_set_require_def ws_ok_def ws_abstract_def\<close>)
    qed
    with all fits show ?thesis by (simp add: ws_case_body_def Let_def)
  next
    case part
    let ?left = "of_int (int (length buf) - wpos c) :: 64 word"
    have left: "?left = of_nat (length buf - i)" using assms(1,3) by (simp add: of_nat_diff)
    have ul: "unat ?left = length buf - i" unfolding left using len by (simp add: unat_of_nat)
    have "step_ok buf i ?a (EMIT_DATA_CB (on_frame_body S) buf ?left c (\<lambda>c.
        let c1 = ws_set_require (ws_require (wpsr c) - ?left) c;
            q = wpsr c1;
            c2 = c1\<lparr>wpsr := q\<lparr>ws_offset := ws_offset q + of_nat (length buf) - frame_offset c1\<rparr>,
                    frame_offset := 0, wpos := int (length buf)\<rparr>
        in ws_body_end S buf (c2\<lparr>wpos := wpos c2 - 1\<rparr>)))"
    proof (rule emit_ok [OF assms(1) _ len assms(5)])
      show "i + unat ?left \<le> length buf" using ul assms(3) by simp
      fix c' :: "'d ws_ctx" assume c': "wpos c' = wpos c" "frame_offset c' = frame_offset c" "ws_ok (wpsr c')"
        "ws_offset (wpsr c') = ws_offset (wpsr c)"
        "ws_abstract view (wpsr c') = ?a\<lparr>a_client := ?run (take (unat ?left) ?bs)\<rparr>"
      have st: "ws_state (wpsr c') = s_body" "ws_require (wpsr c') = ?n" "ws_length (wpsr c') = ws_length (wpsr c)"
        using c'(5) assms(6) by (simp_all add: ws_abstract_def)
      have all: "take (unat ?left) ?bs = ?bs" using ul by simp
      have diff: "ws_offset (wpsr c) + of_nat (length buf) - of_nat i = ws_length (wpsr c) - (?n - ?left)"
        using off [OF part(1)] left assms(3) by (simp add: algebra_simps of_nat_diff)
      have "spec_bytes v ?a ?bs = spec_after_body v (?a\<lparr>a_require := ?n - ?left, a_client := ?run ?bs\<rparr>)"
        by (subst spec_body_run) (use abs part assms(3) left off in auto)
      also have "?a\<lparr>a_require := ?n - ?left, a_client := ?run ?bs\<rparr> =
          (ws_abstract view (wpsr c'))\<lparr>a_require := ?n - ?left\<rparr>" using c'(5) all by simp
      finally show "step_ok buf i ?a (let c1 = ws_set_require (ws_require (wpsr c') - ?left) c'; q = wpsr c1;
            c2 = c1\<lparr>wpsr := q\<lparr>ws_offset := ws_offset q + of_nat (length buf) - frame_offset c1\<rparr>,
                    frame_offset := 0, wpos := int (length buf)\<rparr>
        in ws_body_end S buf (c2\<lparr>wpos := wpos c2 - 1\<rparr>))"
        unfolding Let_def
        by (intro body_end_ok [of "length buf - i"])
          (use c' st assms(2,3) len diff in \<open>simp_all add: ws_set_require_def ws_ok_def ws_abstract_def\<close>)
    qed
    with part fits show ?thesis by (simp add: ws_case_body_def Let_def)
  qed
qed

section \<open>Whole calls\<close>

lemma switch_ok:
  assumes "wpos c = int i" "frame_offset c = of_nat i" "i < length buf" "unat base + length buf < 2 ^ 63"
    "ws_ok (wpsr c)" "unat (ws_require (wpsr c)) < 2 ^ 63" "\<not> a_stuck (ws_abstract view (wpsr c))"
  shows "step_ok buf i (ws_abstract view (wpsr c)) (ws_switch base S buf c)"
proof -
  have "length buf < 2 ^ 63" using assms(4) by simp
  moreover have "ws_state (wpsr c) = s_body \<Longrightarrow> ws_require (wpsr c) \<noteq> 0"
    using assms(7) by (simp add: a_stuck_def ws_abstract_def)
  ultimately show ?thesis using assms
    by (cases "ws_state (wpsr c)")
      (simp_all add: ws_switch_def case_start_ok case_head_ok case_length_ok case_mask_ok case_body_ok)
qed

definition loop_ok :: "'e ws_abs \<Rightarrow> bytes \<Rightarrow> 'd ws_flow \<Rightarrow> bool" where
  "loop_ok a buf f =
     (case f of
        Ws_return r \<Rightarrow> (\<exists>n q. r = Ws_returned n q \<and> unat n \<le> length buf \<and> ws_ok q \<and>
          (ws_total S \<longrightarrow> unat n = length buf \<and> ws_abstract view q = spec_bytes v a buf))
      | Ws_break c \<Rightarrow> ws_ok (wpsr c) \<and> (\<exists>i \<le> length buf. wpos c = int i \<and>
          (frame_offset c = of_nat i \<or> i = length buf) \<and>
          ws_abstract view (wpsr c) = spec_bytes v a (take i buf)))"

fun loop_measure :: "bytes \<Rightarrow> 'd ws_flow \<Rightarrow> nat" where
  "loop_measure buf (Ws_break c) = Suc (length buf - nat (wpos c))"
| "loop_measure buf (Ws_return r) = 0"

lemma ws_step_ok:
  assumes "ws_small base v a buf" "loop_ok a buf f" "ws_running f" "\<not> a_stuck a"
  shows "loop_ok a buf (ws_step base S buf f) \<and> loop_measure buf (ws_step base S buf f) < loop_measure buf f"
proof -
  obtain c where f: "f = Ws_break c" using assms(3) by (cases f) auto
  obtain i where i: "i \<le> length buf" "wpos c = int i" "ws_ok (wpsr c)" "frame_offset c = of_nat i \<or> i = length buf"
    "ws_abstract view (wpsr c) = spec_bytes v a (take i buf)"
    using assms(2) by (auto simp: loop_ok_def f)
  have small: "unat base + length buf < 2 ^ 63" and req: "unat (ws_require (wpsr c)) < 2 ^ 63"
  proof -
    show "unat base + length buf < 2 ^ 63" using assms(1) by (simp add: ws_small_def)
    have "ws_require (wpsr c) = a_require (spec_bytes v a (take i buf))"
      using i(5) by (metis ws_abs.select_convs(5) ws_abstract_def)
    then show "unat (ws_require (wpsr c)) < 2 ^ 63" using assms(1) i(1) by (simp add: ws_small_def)
  qed
  show ?thesis
  proof (cases "i = length buf")
    case True
    have "unat (of_nat (length buf) :: 64 word) = length buf" using small by (simp add: unat_of_nat)
    with True i show ?thesis
      by (simp add: f ws_step_def loop_ok_def ws_result_def GET_NPARSED_def)
  next
    case False
    then have lt: "i < length buf" using i(1) by simp
    have step: "ws_step base S buf f = (case ws_switch base S buf c of Ws_return r \<Rightarrow> Ws_return r
        | Ws_break c' \<Rightarrow> Ws_break (c'\<lparr>wpos := wpos c' + 1\<rparr>))"
      using False i(2) by (simp add: f ws_step_def)
    have fo: "frame_offset c = of_nat i" using i(4) False by simp
    have ns: "\<not> a_stuck (ws_abstract view (wpsr c))" using i(5) assms(4) by (simp add: spec_bytes_not_stuck)
    note sw = switch_ok [OF i(2) fo lt small i(3) req ns]
    show ?thesis
    proof (cases "ws_switch base S buf c")
      case (Ws_return r)
      have "loop_ok a buf (Ws_return r)" using sw Ws_return by (auto simp: step_ok_def loop_ok_def)
      then show ?thesis by (simp add: step Ws_return) (simp add: f)
    next
      case (Ws_break c')
      then obtain k where k: "0 < k" "i + k \<le> length buf" "wpos c' = int (i + k) - 1" "ws_ok (wpsr c')"
        "ws_abstract view (wpsr c') = spec_bytes v (ws_abstract view (wpsr c)) (take k (drop i buf))"
        "frame_offset c' = of_nat (i + k) \<or> i + k = length buf"
        using sw by (auto simp: step_ok_def)
      have "ws_abstract view (wpsr c') = spec_bytes v a (take (i + k) buf)"
        using k(5) i(5) by (simp add: take_add spec_bytes_append)
      then have "loop_ok a buf (Ws_break (c'\<lparr>wpos := wpos c' + 1\<rparr>))"
        using k(2-4,6) by (auto simp: loop_ok_def intro!: exI [of _ "i + k"])
      moreover have "length buf - nat (wpos c' + 1) < length buf - nat (wpos c)"
        using k(1-3) i(2) by simp
      ultimately show ?thesis by (simp add: step Ws_break) (simp add: f)
    qed
  qed
qed

lemma execute_ok:
  assumes "ws_ok q" "\<not> a_stuck (ws_abstract view q)" "ws_small base v (ws_abstract view q) buf"
  shows "\<exists>n q'. websocket_parser_execute base S q buf = Some (Ws_returned n q') \<and> unat n \<le> length buf \<and>
    ws_ok q' \<and> (ws_total S \<longrightarrow> unat n = length buf \<and>
      ws_abstract view q' = spec_bytes v (ws_abstract view q) buf)"
proof -
  let ?a = "ws_abstract view q"
  let ?f = "Ws_break \<lparr>wpsr = q, wpos = 0, frame_offset = 0\<rparr>"
  have init: "loop_ok ?a buf ?f" using assms(1) by (auto simp: loop_ok_def)
  obtain f where f: "while_option ws_running (ws_step base S buf) ?f = Some f"
    using measure_while_option_Some [of "loop_ok ?a buf" ws_running "ws_step base S buf" "loop_measure buf" ?f]
      init ws_step_ok [OF assms(3) _ _ assms(2)] by blast
  have "loop_ok ?a buf f"
    using while_option_rule [where P = "loop_ok ?a buf", OF _ f init] ws_step_ok [OF assms(3) _ _ assms(2)] by blast
  with while_option_stop [OF f] f show ?thesis
    by (cases f) (auto simp: loop_ok_def websocket_parser_execute_def ws_run_def)
qed

end

locale ws_recorder = ws_client +
  assumes total: "ws_total S"
begin

lemma refines:
  assumes "ws_ok q" "\<not> a_stuck (ws_abstract view q)" "ws_small base v (ws_abstract view q) buf"
  shows "\<exists>n q'. websocket_parser_execute base S q buf = Some (Ws_returned n q') \<and> unat n = length buf \<and>
    ws_ok q' \<and> ws_abstract view q' = spec_bytes v (ws_abstract view q) buf"
  using execute_ok [OF assms] total by blast

end

end
