(* ===== verification/Websocket_Frame.thy ===== *)
theory Websocket_Frame
  imports Websocket_Spec
begin

text \<open>
  The wire format: what the bytes that \<open>websocket_build_frame\<close> writes do to the byte machine, and
  when the lengths that a stream announces cannot wrap an address around.
\<close>

section \<open>Bytes of a header\<close>

lemma low_and: "x AND 0x7F = take_bit 7 (x :: 64 word)" "y AND 0xF = take_bit 4 (y :: 32 word)"
  "z AND 0xFF = take_bit 8 (z :: 64 word)"
  by (simp_all add: take_bit_eq_mask mask_eq_decr_exp)

lemma high_and: "b AND 0x80 \<noteq> 0 \<longleftrightarrow> bit (b :: byte) 7"
  by (simp add: bit_iff_and_push_bit_not_eq_0 [of b 7])

lemma bit_0x80 [bit_simps]: "bit (0x80 :: int) i \<longleftrightarrow> i = 7"
proof -
  have "(0x80 :: int) = push_bit 7 1" by simp
  then show ?thesis by (simp only: bit_push_bit_iff bit_1_iff) auto
qed

lemma first_byte:
  fixes fl :: "32 word"
  defines "b \<equiv> (if has_flag fl WS_FIN then 0x80 else 0) OR ucast (fl AND WS_OP_MASK) :: byte"
  shows "bit b 7 \<longleftrightarrow> has_flag fl WS_FIN" "ucast b AND WS_OP_MASK = fl AND WS_OP_MASK"
proof -
  show "bit b 7 \<longleftrightarrow> has_flag fl WS_FIN" unfolding b_def WS_OP_MASK_def low_and
    by (simp add: bit_simps)
  show "ucast b AND WS_OP_MASK = fl AND WS_OP_MASK" unfolding b_def WS_OP_MASK_def low_and
    by (rule bit_eqI) (auto simp: bit_simps)
qed

lemma short_byte:
  fixes n :: "64 word" and m :: bool
  assumes "n < 0x80"
  defines "b \<equiv> (if m then 0x80 else 0) OR ucast n :: byte"
  shows "b AND 0x80 \<noteq> 0 \<longleftrightarrow> m" "ucast b AND 0x7F = n"
proof -
  have n: "take_bit 7 n = n"
    using assms(1) by (simp add: word_unat_eq_iff unsigned_take_bit_eq take_bit_nat_eq_self word_less_nat_alt)
  have "bit n i \<Longrightarrow> i < 7" for i using n by (metis bit_take_bit_iff)
  then have nb: "\<not> bit n 7" by blast
  show "b AND 0x80 \<noteq> 0 \<longleftrightarrow> m" unfolding high_and b_def by (simp add: bit_simps nb)
  have "take_bit 7 (ucast b) = take_bit 7 n" unfolding b_def 
    by (rule bit_eqI) (auto simp: bit_simps)
  then show "ucast b AND 0x7F = n" using n by (simp add: low_and)
qed

lemma drop_join:
  fixes n :: "64 word"
  shows "push_bit 8 (drop_bit (8 + s) n) OR ucast (ucast (drop_bit s n AND 0xFF) :: byte) = drop_bit s n"
  unfolding low_and
  by (rule bit_eqI) (auto simp: bit_simps)

text \<open>The flags that a frame built with \<open>flags\<close> carries.\<close>

definition wire_flags :: "32 word \<Rightarrow> 32 word" where
  "wire_flags fl =
     (let f = (if has_flag fl WS_FIN then fl AND WS_OP_MASK OR WS_FIN else fl AND WS_OP_MASK)
      in if has_flag fl WS_HAS_MASK then f OR WS_HAS_MASK else f)"

lemma wire_flags_mask [simp]: "has_flag (wire_flags fl) WS_HAS_MASK \<longleftrightarrow> has_flag fl WS_HAS_MASK"
  unfolding wire_flags_def Let_def
  by (simp add: has_flag_or) (simp add: has_flag_def ws_flag_defs and.assoc)

lemma wire_flags_op [simp]: "wire_flags fl AND WS_OP_MASK = fl AND WS_OP_MASK"
  by (simp add: wire_flags_def Let_def ws_flag_defs bit.conj_disj_distrib2)

lemma wire_flags_fin [simp]: "wire_flags fl AND WS_FIN = (if has_flag fl WS_FIN then WS_FIN else 0)"
  by (simp add: wire_flags_def Let_def ws_flag_defs bit.conj_disj_distrib2 and.assoc)

lemma spec_length_run:
  assumes "a_state a = s_length" "a_require a = of_nat (length bs)" "bs \<noteq> []" "length bs \<le> 8"
  shows "spec_bytes v a bs = spec_after_length v
    (a\<lparr>a_length := foldl (\<lambda>l b. push_bit 8 l OR ucast b) (a_length a) bs, a_require := 0\<rparr>)"
  using assms
proof (induction bs arbitrary: a)
  case (Cons b bs)
  let ?a = "a\<lparr>a_length := push_bit 8 (a_length a) OR ucast b, a_require := of_nat (length bs)\<rparr>"
  have spec: "spec_byte v a b = spec_after_length v ?a"
    using Cons.prems by (simp add: spec_byte_def spec_length_def)
  show ?case
  proof (cases "bs = []")
    case False
    have "unat (of_nat (length bs) :: 64 word) = length bs" using Cons.prems(4) by (simp add: unat_of_nat)
    with False have "a_require ?a \<noteq> 0" by (auto simp: unat_eq_0 [symmetric])
    then have "spec_byte v a b = ?a" using spec by (simp add: spec_after_length_def)
    then show ?thesis using Cons.IH [of ?a] Cons.prems False by simp
  qed (use spec in simp)
qed simp

definition header_read :: "'e ws_events \<Rightarrow> 32 word \<Rightarrow> 64 word \<Rightarrow> 'e ws_abs \<Rightarrow> 'e ws_abs" where
  "header_read v fl n a =
     a\<lparr>a_client := ev_begin v (a_client a), a_flags := wire_flags fl, a_length := n,
       a_require := (if n < 126 then a_require a else 0)\<rparr>"

lemma head_run_two:
  fixes n k :: "64 word"
  assumes "a_state a = s_start" "k < 0x80"
  shows "spec_bytes v a [(if has_flag fl WS_FIN then 0x80 else 0) OR ucast (fl AND WS_OP_MASK),
      (if has_flag fl WS_HAS_MASK then 0x80 else 0) OR ucast k] =
    (if k \<ge> 126 then (header_read v fl k a)\<lparr>a_state := s_length, a_require := (if k = 127 then 8 else 2), a_length := 0\<rparr>
     else if has_flag fl WS_HAS_MASK then (header_read v fl k a)\<lparr>a_state := s_mask, a_require := 4\<rparr>
     else spec_header v (header_read v fl k a))"
proof -
  let ?b = "(if has_flag fl WS_FIN then 0x80 else 0) OR ucast (fl AND WS_OP_MASK) :: byte"
  let ?c = "(if has_flag fl WS_HAS_MASK then 0x80 else 0) OR ucast k :: byte"
  define f where "f = (if has_flag fl WS_FIN then fl AND WS_OP_MASK OR WS_FIN else fl AND WS_OP_MASK)"
  have one: "spec_byte v a ?b = a\<lparr>a_state := s_head, a_length := 0, a_client := ev_begin v (a_client a), a_flags := f\<rparr>"
    using assms(1) by (simp only: spec_byte_def spec_start_def first_byte ws_state.case f_def)
  have fl: "(if ?c AND 0x80 \<noteq> 0 then f OR WS_HAS_MASK else f) = wire_flags fl"
    unfolding short_byte(1) [OF assms(2)] by (simp add: wire_flags_def f_def)
  define a0 where "a0 = a\<lparr>a_state := s_head, a_length := 0, a_client := ev_begin v (a_client a), a_flags := f\<rparr>"
  define a1 where "a1 = a0\<lparr>a_length := k, a_flags := wire_flags fl\<rparr>"
  have a0: "a_state a0 = s_head" "a_flags a0 = f" by (simp_all add: a0_def)
  have a1: "a_flags a1 = wire_flags fl" by (simp add: a1_def)
  have two: "spec_byte v a0 ?c =
      (if k \<ge> 126 then a1\<lparr>a_state := s_length, a_require := (if k = 127 then 8 else 2), a_length := 0\<rparr>
       else if has_flag fl WS_HAS_MASK then a1\<lparr>a_state := s_mask, a_require := 4\<rparr>
       else spec_header v a1)"
    by (simp only: spec_byte_def spec_head_def a0 ws_state.case Let_def short_byte(2) [OF assms(2)] fl
      a1_def [symmetric] a1 wire_flags_mask)
  have "126 \<le> k \<Longrightarrow> \<not> k < 126" by simp
  then show ?thesis unfolding spec_bytes_simps one a0_def [symmetric] two
    by (auto simp: header_read_def a1_def a0_def spec_header_def Let_def)
qed

lemma spec_length_end:
  assumes "a_state a = s_length" "a_require a = of_nat (length bs)" "bs \<noteq> []" "length bs \<le> 8"
    "a_flags a = wire_flags fl" "foldl (\<lambda>l b. push_bit 8 l OR ucast b) (a_length a) bs = n"
  shows "spec_bytes v a bs = (let a' = a\<lparr>a_length := n, a_require := 0\<rparr>
    in if has_flag fl WS_HAS_MASK then a'\<lparr>a_state := s_mask, a_require := 4\<rparr> else spec_header v a')"
  using assms(5,6) by (simp add: spec_length_run [OF assms(1-4)] spec_after_length_def Let_def)

lemma two_bytes:
  fixes n :: "64 word"
  assumes "n \<le> 0xFFFF"
  shows "push_bit 8 (ucast (ucast (drop_bit 8 n) :: byte)) OR ucast (ucast (n AND 0xFF) :: byte) = n"
proof -
  have "drop_bit 16 n = 0"
    using assms by (simp add: word_unat_eq_iff drop_bit_eq_div unat_div_distrib word_le_nat_alt)
  then have "push_bit 8 0 OR ucast (ucast (drop_bit 8 n AND 0xFF) :: byte) = drop_bit 8 n"
    using drop_join [of 8 n] by simp
  moreover have "(ucast (drop_bit 8 n AND 0xFF) :: byte) = ucast (drop_bit 8 n)"
    unfolding low_and by (rule bit_eqI) (auto simp: bit_simps)
  ultimately show ?thesis using drop_join [of 0 n] by simp
qed

lemma eight_bytes:
  fixes n :: "64 word"
  shows "foldl (\<lambda>l b. push_bit 8 l OR ucast b) (0 :: 64 word)
    (map (\<lambda>s. ucast (drop_bit s n AND 0xFF) :: byte) [56, 48, 40, 32, 24, 16, 8, 0]) = n"
proof -
  have "drop_bit 64 n = 0" by (rule bit_eqI) (auto simp: bit_simps dest: bit_imp_le_length)
  then show ?thesis
    using drop_join [of 56 n] drop_join [of 48 n] drop_join [of 40 n] drop_join [of 32 n]
      drop_join [of 24 n] drop_join [of 16 n] drop_join [of 8 n] drop_join [of 0 n]
    by simp
qed

lemma head_run:
  assumes "a_state a = s_start"
  shows "spec_bytes v a (ws_frame_head fl n) =
    (if has_flag fl WS_HAS_MASK then (header_read v fl n a)\<lparr>a_state := s_mask, a_require := 4\<rparr>
     else spec_header v (header_read v fl n a))"
proof -
  let ?b = "(if has_flag fl WS_FIN then 0x80 else 0) OR ucast (fl AND WS_OP_MASK) :: byte"
  let ?c = "if has_flag fl WS_HAS_MASK then 0x80 else 0 :: byte"
  consider (short) "n < 126" | (two) "126 \<le> n" "n \<le> 0xFFFF" | (eight) "0xFFFF < n" by fastforce
  then show ?thesis
  proof cases
    case short
    then have "n < 0x80" "\<not> 126 \<le> n" by (auto intro: less_trans)
    moreover have "ws_frame_head fl n = [?b, ?c OR ucast n]" using short by (simp add: ws_frame_head_def Let_def)
    ultimately show ?thesis using head_run_two [OF assms, of n v fl] by simp
  next
    case two
    define bs where "bs = [ucast (drop_bit 8 n), ucast (n AND 0xFF) :: byte]"
    let ?a = "(header_read v fl 126 a)\<lparr>a_state := s_length, a_require := 2, a_length := 0\<rparr>"
    have "ws_frame_head fl n = [?b, ?c OR ucast (126 :: 64 word)] @ bs"
      using two by (simp add: ws_frame_head_def Let_def bs_def not_less)
    moreover have "spec_bytes v a [?b, ?c OR ucast (126 :: 64 word)] = ?a"
      using head_run_two [OF assms, of 126 v fl] by simp
    moreover have "spec_bytes v ?a bs = (let a' = ?a\<lparr>a_length := n, a_require := 0\<rparr>
        in if has_flag fl WS_HAS_MASK then a'\<lparr>a_state := s_mask, a_require := 4\<rparr> else spec_header v a')"
      by (rule spec_length_end) (use two_bytes [OF two(2)] in \<open>simp_all add: bs_def header_read_def\<close>)
    moreover have "n \<noteq> 0" using two(1) by auto
    ultimately show ?thesis using two
      by (simp add: spec_bytes_append header_read_def Let_def spec_header_def not_less)
  next
    case eight
    define bs where "bs = map (\<lambda>s. ucast (drop_bit s n AND 0xFF) :: byte) [56, 48, 40, 32, 24, 16, 8, 0]"
    let ?a = "(header_read v fl 127 a)\<lparr>a_state := s_length, a_require := 8, a_length := 0\<rparr>"
    have n: "\<not> n < 126" using eight by (simp add: word_less_nat_alt)
    then have "ws_frame_head fl n = [?b, ?c OR ucast (127 :: 64 word)] @ bs"
      using eight by (simp add: ws_frame_head_def Let_def bs_def not_le)
    moreover have "spec_bytes v a [?b, ?c OR ucast (127 :: 64 word)] = ?a"
      using head_run_two [OF assms, of 127 v fl] by simp
    moreover have "spec_bytes v ?a bs = (let a' = ?a\<lparr>a_length := n, a_require := 0\<rparr>
        in if has_flag fl WS_HAS_MASK then a'\<lparr>a_state := s_mask, a_require := 4\<rparr> else spec_header v a')"
      by (rule spec_length_end) (use eight_bytes [of n] in \<open>simp_all add: bs_def header_read_def\<close>)
    moreover have "n \<noteq> 0" using eight by auto
    ultimately show ?thesis using n
      by (simp add: spec_bytes_append header_read_def Let_def spec_header_def)
  qed
qed

lemma mask_run:
  assumes "a_state a = s_mask" "a_require a = 4" "length (a_mask a) = 4" "length key = 4"
  shows "spec_bytes v a key = spec_header v (a\<lparr>a_mask := key, a_require := 0\<rparr>)"
proof -
  obtain k0 k1 k2 k3 where key: "key = [k0, k1, k2, k3]"
    using assms(4) by (auto simp: numeral_eq_Suc length_Suc_conv)
  obtain m0 m1 m2 m3 where m: "a_mask a = [m0, m1, m2, m3]"
    using assms(3) by (auto simp: numeral_eq_Suc length_Suc_conv)
  show ?thesis
    using assms(1,2) by (simp add: key m spec_byte_def spec_mask_def spec_after_mask_def)
qed

section \<open>Lengths that do not wrap\<close>

definition a_sound :: "'e ws_abs \<Rightarrow> bool" where
  "a_sound a \<longleftrightarrow>
     (a_state a \<noteq> s_body \<longrightarrow> a_require a \<le> 8) \<and>
     (a_state a \<in> {s_length, s_mask} \<longrightarrow> a_require a \<noteq> 0)"

lemma spec_byte_sound: "a_sound a \<Longrightarrow> a_sound (spec_byte v a b)"
  using pred_le [of "a_require a" 8]
  by (cases "a_state a")
    (auto simp: a_sound_def spec_byte_def spec_start_def spec_head_def spec_header_def Let_def
      spec_after_length_def spec_length_def spec_after_mask_def spec_mask_def spec_after_body_def spec_body_def)

lemma spec_bytes_sound: "a_sound a \<Longrightarrow> a_sound (spec_bytes v a bs)"
  by (induction bs arbitrary: a) (simp_all add: spec_byte_sound)

lemma spec_body_state:
  assumes "a_state a = s_body" "length bs < unat (a_require a)"
  shows "a_state (spec_bytes v a bs) = s_body"
  using assms
proof (induction bs arbitrary: a)
  case (Cons b bs)
  have "unat (a_require a - 1) = unat (a_require a) - 1"
    using Cons.prems(2) by (intro unat_minus_one) auto
  moreover from this have "a_require a - 1 \<noteq> 0" using Cons.prems(2) by (auto simp: unat_eq_0 [symmetric])
  ultimately have "a_state (spec_byte v a b) = s_body \<and> length bs < unat (a_require (spec_byte v a b))"
    using Cons.prems by (simp add: spec_byte_def spec_body_def spec_after_body_def)
  then show ?case using Cons.IH by simp
qed simp

text \<open>Bytes that leave the parser between frames or in a header have announced no long body.\<close>

lemma small_if_complete:
  assumes "a_sound a" "a_state (spec_bytes v a buf) \<noteq> s_body" "unat base + length buf < 2 ^ 63"
  shows "ws_small base v a buf"
  unfolding ws_small_def
proof (intro conjI allI impI)
  fix k assume "k \<le> length buf"
  let ?a = "spec_bytes v a (take k buf)"
  show "unat (a_require ?a) < 2 ^ 63"
  proof (rule ccontr)
    assume big: "\<not> unat (a_require ?a) < 2 ^ 63"
    have "a_state ?a = s_body"
      using spec_bytes_sound [OF assms(1), of v "take k buf"] big by (auto simp: a_sound_def word_le_nat_alt)
    then have "a_state (spec_bytes v ?a (drop k buf)) = s_body"
      by (rule spec_body_state) (use big assms(3) in simp_all)
    then show False using assms(2) by (simp add: spec_bytes_append [symmetric])
  qed
qed (rule assms(3))

end
