(* ===== verification/Websocket_Server.thy ===== *)
theory Websocket_Server
  imports Websocket_Spec Websocket_Frame
begin

text \<open>
  \<open>src/ws_server.cpp\<close>: \<open>ws_parse\<close>, the client of the frame parser that collects the payload of
  a frame into a message, and the reply \<open>work\<close> makes of it. The handler and the handshake are
  parameters, and so is \<open>malloc\<close>: a map from sizes to the block that it returns, with the bytes
  that are in it, or \<open>None\<close> for a null pointer. An access to memory that is not a live
  block, or outside of it, sets \<open>wf_fault\<close>.
\<close>

section \<open>Collecting a frame\<close>

text \<open>\<open>body\<close> is \<open>None\<close> while it is not a live block: before a \<open>malloc\<close> and after the \<open>free\<close>.\<close>

record ws_frame =
  wf_opcode :: "32 word"
  wf_is_final :: "32 word"
  wf_body :: "bytes option"
  wf_len :: "64 word"
  wf_message :: bytes
  wf_fault :: bool

type_synonym malloc = "64 word \<Rightarrow> bytes option"

definition ws_on_frame_header :: "malloc \<Rightarrow> ws_frame ws_cb" where
  "ws_on_frame_header malloc parser =
     (let this = (ws_data parser)\<lparr>wf_opcode := ws_flags parser AND WS_OP_MASK,
                                  wf_is_final := ws_flags parser AND WS_FIN\<rparr>
      in (0, parser\<lparr>ws_data :=
            (if ws_length parser \<noteq> 0
             then this\<lparr>wf_body := malloc (ws_length parser), wf_len := ws_length parser\<rparr> else this)\<rparr>))"

text \<open>\<open>THIS->message->append (THIS->body, THIS->len)\<close> and \<open>free\<close>.\<close>

definition ws_append :: "ws_frame \<Rightarrow> ws_frame" where
  "ws_append this =
     (case wf_body this of
        Some block \<Rightarrow>
          if unat (wf_len this) \<le> length block
          then this\<lparr>wf_message := wf_message this @ take (unat (wf_len this)) block, wf_body := None\<rparr>
          else this\<lparr>wf_body := None, wf_fault := True\<rparr>
      | None \<Rightarrow> this\<lparr>wf_fault := True\<rparr>)"

definition ws_on_frame_end :: "ws_frame ws_cb" where
  "ws_on_frame_end parser = (0, parser\<lparr>ws_data := ws_append (ws_data parser)\<rparr>)"

text \<open>One byte written at an offset of \<open>body\<close>, and a run of them.\<close>

definition ws_poke :: "64 word \<Rightarrow> byte \<Rightarrow> ws_frame \<Rightarrow> ws_frame" where
  "ws_poke k b this =
     (case wf_body this of
        Some block \<Rightarrow> if unat k < length block then this\<lparr>wf_body := Some (block[unat k := b])\<rparr>
                      else this\<lparr>wf_fault := True\<rparr>
      | None \<Rightarrow> this\<lparr>wf_fault := True\<rparr>)"

fun ws_memcpy :: "64 word \<Rightarrow> bytes \<Rightarrow> ws_frame \<Rightarrow> ws_frame" where
  "ws_memcpy k [] this = this"
| "ws_memcpy k (b # bs) this = ws_memcpy (k + 1) bs (ws_poke k b this)"

definition ws_on_frame_body :: "ws_frame ws_data_cb" where
  "ws_on_frame_body parser at =
     (if has_flag (ws_flags parser) WS_HAS_MASK then
        let (bs, q) = websocket_parser_decode at parser
        in (0, q\<lparr>ws_data := ws_memcpy (ws_offset parser) bs (ws_data q)\<rparr>)
      else (0, parser\<lparr>ws_data := ws_memcpy (ws_offset parser) at (ws_data parser)\<rparr>))"

definition ws_settings :: "malloc \<Rightarrow> ws_frame websocket_parser_settings" where
  "ws_settings malloc =
     \<lparr>on_frame_header = Some (ws_on_frame_header malloc), on_frame_body = Some ws_on_frame_body,
      on_frame_end = Some ws_on_frame_end\<rparr>"

text \<open>
  The value that \<open>ws_parse\<close> returns with the frame object it leaves, or an error of memory. The
  fields \<open>opcode\<close>, \<open>is_final\<close> and \<open>len\<close> of the local \<open>ws_frame\<close> are not initialised: they are those
  of \<open>junk\<close>. The fields of the local parser that \<open>websocket_parser_init\<close> clears are of no matter.
\<close>

datatype ws_reply = Ws_reply int ws_frame | Ws_memory_error

definition ws_frame_code :: "ws_frame \<Rightarrow> int" where
  "ws_frame_code this =
     (if wf_is_final this = WS_FIN then
        if wf_opcode this = WS_OP_TEXT then 1
        else if wf_opcode this = WS_OP_BINARY then 2
        else if wf_opcode this = WS_OP_PING then 9
        else if wf_opcode this = WS_OP_CLOSE then 8
        else if wf_opcode this = WS_OP_PONG then 10
        else 0
      else 0)"

definition ws_new_parser :: "ws_frame \<Rightarrow> bytes \<Rightarrow> ws_frame websocket_parser" where
  "ws_new_parser junk message =
     websocket_parser_init \<lparr>ws_state = s_start, ws_flags = 0, ws_mask = [], ws_mask_offset = 0,
       ws_length = 0, ws_require = 0, ws_offset = 0,
       ws_data = junk\<lparr>wf_message := message, wf_body := None, wf_fault := False\<rparr>\<rparr>"

definition ws_parse :: "malloc \<Rightarrow> ws_frame \<Rightarrow> 64 word \<Rightarrow> bytes \<Rightarrow> bytes \<Rightarrow> ws_reply option" where
  "ws_parse malloc junk base frame message =
     (if frame = [] then Some (Ws_reply 0 (junk\<lparr>wf_message := message\<rparr>))
      else case websocket_parser_execute base (ws_settings malloc) (ws_new_parser junk message) frame of
          None \<Rightarrow> None
        | Some Ws_overrun \<Rightarrow> Some Ws_memory_error
        | Some (Ws_returned nread q) \<Rightarrow>
            if wf_fault (ws_data q) then Some Ws_memory_error
            else if nread \<noteq> of_nat (length frame) then Some (Ws_reply (- 1) (ws_data q))
            else Some (Ws_reply (ws_frame_code (ws_data q)) (ws_data q)))"

section \<open>The reply\<close>

definition KEEPALIVE_CONNECTION :: bool where "KEEPALIVE_CONNECTION = False"
definition CLOSE_CONNECTION :: bool where "CLOSE_CONNECTION = True"

record ws_response =
  wr_response :: bytes
  wr_keepalive :: bool
  wr_send_to_other :: bool

text \<open>
  A frame without a mask; the block has \<open>websocket_calc_frame_size\<close> bytes, and what is written
  beyond them is an error.
\<close>

definition ws_make_frame :: "32 word \<Rightarrow> bytes \<Rightarrow> bytes option" where
  "ws_make_frame opcode msg =
     (let fl = opcode OR WS_FINAL_FRAME;
          size = websocket_calc_frame_size fl (of_nat (length msg));
          (frame, frame_len) = websocket_build_frame [] fl None msg
      in if length frame \<le> unat size \<and> unat frame_len \<le> unat size
         then Some (take (unat frame_len) frame) else None)"

definition ascii :: "string \<Rightarrow> bytes" where
  "ascii s = map of_char s"

text \<open>
  The part of \<open>work\<close> after \<open>ws_parse\<close>. The handler \<open>f\<close> is given the message and returns what it
  leaves in \<open>keepalive\<close> and \<open>send_to_other\<close>; the text that it returns is not used.
\<close>

definition ws_work :: "(bytes \<Rightarrow> bool \<times> bool) \<Rightarrow> int \<Rightarrow> bytes \<Rightarrow> ws_response option" where
  "ws_work f ret message =
     (let reply = (\<lambda>opcode msg keepalive other. map_option
            (\<lambda>r. \<lparr>wr_response = r, wr_keepalive = keepalive, wr_send_to_other = other\<rparr>)
            (ws_make_frame opcode msg))
      in if ret = 1 then
           let (keepalive, other) = f message in reply WS_OP_TEXT message keepalive other
         else if ret = 2 then reply WS_OP_BINARY message KEEPALIVE_CONNECTION True
         else if ret = 8 then reply WS_OP_CLOSE (ascii ''connection closed.'') CLOSE_CONNECTION False
         else if ret = 9 then reply WS_OP_PONG (ascii ''pong'') KEEPALIVE_CONNECTION False
         else if ret = 10 then reply WS_OP_PING (ascii ''ping'') KEEPALIVE_CONNECTION False
         else if ret = 0 then reply WS_OP_TEXT (ascii ''error message.'') CLOSE_CONNECTION False
         else Some \<lparr>wr_response = [], wr_keepalive = KEEPALIVE_CONNECTION, wr_send_to_other = False\<rparr>)"

section \<open>The server keeps the contract of the parser\<close>

lemma decode_cons:
  "map (\<lambda>i. (x # xs) ! i XOR mask_byte m (i + j)) [0 ..< length (x # xs)] =
   (x XOR m ! (j mod 4)) # map (\<lambda>i. xs ! i XOR mask_byte m (i + Suc j)) [0 ..< length xs]"
  by (simp add: mask_byte_def upt_conv_Cons map_Suc_upt [symmetric] del: upt_Suc)

text \<open>What the server knows between bytes: its frame object and how far the mask is used.\<close>

definition server_view :: "ws_frame \<Rightarrow> 8 word \<Rightarrow> ws_frame \<times> nat" where
  "server_view d mo = (d, unat mo mod 4)"

definition ws_server_events :: "malloc \<Rightarrow> (ws_frame \<times> nat) ws_events" where
  "ws_server_events malloc =
     \<lparr>ev_begin = (\<lambda>(d, i). (d, 0)),
      ev_header = (\<lambda>fl n (d, i).
        (let this = d\<lparr>wf_opcode := fl AND WS_OP_MASK, wf_is_final := fl AND WS_FIN\<rparr>
         in (if n \<noteq> 0 then this\<lparr>wf_body := malloc n, wf_len := n\<rparr> else this, i))),
      ev_byte = (\<lambda>fl m k b (d, i).
        if has_flag fl WS_HAS_MASK then (ws_poke k (b XOR m ! i) d, Suc i mod 4) else (ws_poke k b d, i)),
      ev_end = (\<lambda>(d, i). (ws_append d, i))\<rparr>"

lemma server_bytes_unmasked:
  "\<not> has_flag fl WS_HAS_MASK \<Longrightarrow>
   ev_bytes (ws_server_events malloc) fl m k bs (d, i) = (ws_memcpy k bs d, i)"
  by (induction bs arbitrary: k d) (simp_all add: ws_server_events_def)

lemma server_bytes_masked:
  "has_flag fl WS_HAS_MASK \<Longrightarrow>
   ev_bytes (ws_server_events malloc) fl m k bs (d, j mod 4) =
     (ws_memcpy k (map (\<lambda>i. bs ! i XOR mask_byte m (i + j)) [0 ..< length bs]) d, (length bs + j) mod 4)"
proof (induction bs arbitrary: k d j)
  case (Cons b bs)
  have "ev_bytes (ws_server_events malloc) fl m k (b # bs) (d, j mod 4) =
      ev_bytes (ws_server_events malloc) fl m (k + 1) bs (ws_poke k (b XOR m ! (j mod 4)) d, Suc j mod 4)"
    using Cons.prems by (simp add: ws_server_events_def mod_Suc_eq)
  then show ?case unfolding decode_cons using Cons.IH [of "k + 1" _ "Suc j"] Cons.prems by simp
qed simp

interpretation server: ws_recorder "ws_settings malloc" server_view "ws_server_events malloc"
proof unfold_locales
  show "server_view d 0 = ev_begin (ws_server_events malloc) (server_view d mo)" for d mo
    by (simp add: server_view_def ws_server_events_def)
next
  fix f q r and q' :: "ws_frame websocket_parser"
  assume "on_frame_header (ws_settings malloc) = Some f" "f q = (r, q')"
  then show "ws_obeys q q' \<and> (r = 0 \<longrightarrow> server_view (ws_data q') (ws_mask_offset q') =
      ev_header (ws_server_events malloc) (ws_flags q) (ws_length q) (server_view (ws_data q) (ws_mask_offset q)))"
    by (auto simp: ws_settings_def ws_on_frame_header_def Let_def ws_obeys_def server_view_def ws_server_events_def)
next
  fix g bs q r and q' :: "ws_frame websocket_parser"
  assume "on_frame_body (ws_settings malloc) = Some g" "g q bs = (r, q')"
  then have g: "ws_on_frame_body q bs = (r, q')" by (simp add: ws_settings_def)
  show "ws_obeys q q' \<and> (r = 0 \<longrightarrow> server_view (ws_data q') (ws_mask_offset q') =
      ev_bytes (ws_server_events malloc) (ws_flags q) (ws_mask q) (ws_offset q) bs
        (server_view (ws_data q) (ws_mask_offset q)))"
  proof (cases "has_flag (ws_flags q) WS_HAS_MASK")
    case True
    have "unat (of_nat (n mod 4) :: 8 word) mod 4 = n mod 4" for n
      by (simp add: unat_of_nat mod_less [of "n mod 4" 256])
    with True g show ?thesis
      by (auto simp: ws_on_frame_body_def websocket_parser_decode_def ws_obeys_def server_view_def
          server_bytes_masked)
  next
    case False
    with g show ?thesis
      by (auto simp: ws_on_frame_body_def ws_obeys_def server_view_def server_bytes_unmasked)
  qed
next
  fix f q r and q' :: "ws_frame websocket_parser"
  assume "on_frame_end (ws_settings malloc) = Some f" "f q = (r, q')"
  then show "ws_obeys q q' \<and> (r = 0 \<longrightarrow> server_view (ws_data q') (ws_mask_offset q') =
      ev_end (ws_server_events malloc) (server_view (ws_data q) (ws_mask_offset q)))"
    by (auto simp: ws_settings_def ws_on_frame_end_def ws_obeys_def server_view_def ws_server_events_def)
next
  show "ws_total (ws_settings malloc)"
    by (auto simp: ws_total_def ws_settings_def ws_on_frame_header_def ws_on_frame_end_def
        ws_on_frame_body_def Let_def split: prod.splits)
qed (simp_all add: ws_settings_def)

end
