(* ===== verification/Websocket_Properties.thy ===== *)
theory Websocket_Properties
  imports Websocket_Server
begin

text \<open>
  The properties of the frame parser, of the masking and the construction of frames and of the
  server's use of them.
\<close>

section \<open>Streams\<close>

definition blank_frame :: ws_frame where
  "blank_frame = \<lparr>wf_opcode = 0, wf_is_final = 0, wf_body = None, wf_len = 0, wf_message = [], wf_fault = False\<rparr>"

lemma new_parser:
  "ws_ok (ws_new_parser junk message)"
  "ws_abstract server_view (ws_new_parser junk message) = \<lparr>a_state = s_start, a_flags = 0, a_mask = [0, 0, 0, 0],
     a_length = 0, a_require = 0, a_client = (junk\<lparr>wf_message := message, wf_body := None, wf_fault := False\<rparr>, 0)\<rparr>"
  by (simp_all add: ws_new_parser_def websocket_parser_init_def ws_ok_def ws_abstract_def server_view_def)












text \<open>masking twice with the same key from the same offset gives the bytes back.\<close>

theorem websocket_decode_twice:
  "websocket_decode (fst (websocket_decode src key k)) key k = (src, snd (websocket_decode src key k))"
  by (simp add: websocket_decode_def) (rule nth_equalityI; simp add: xor.assoc)

text \<open>A payload can be unmasked piece by piece, each with the offset that the last call left.\<close>

theorem websocket_decode_append:
  "fst (websocket_decode (xs @ ys) key k) =
    fst (websocket_decode xs key k) @ fst (websocket_decode ys key (snd (websocket_decode xs key k)))"
proof (rule nth_equalityI)
  fix i assume "i < length (fst (websocket_decode (xs @ ys) key k))"
  then have i: "i < length xs + length ys" by (simp add: websocket_decode_def)
  have "unat (of_nat ((length xs + unat k) mod 4) :: byte) = (length xs + unat k) mod 4"
    by (simp add: unat_of_nat mod_less [of "(length xs + unat k) mod 4" 256])
  moreover have "\<not> i < length xs \<Longrightarrow> (i + unat k) mod 4 = (i - length xs + (length xs + unat k) mod 4) mod 4"
  proof -
    assume "\<not> i < length xs"
    then have "i + unat k = (i - length xs) + (length xs + unat k)" by simp
    then show ?thesis by (simp only: mod_add_right_eq)
  qed
  ultimately show "fst (websocket_decode (xs @ ys) key k) ! i = (fst (websocket_decode xs key k) @
      fst (websocket_decode ys key (snd (websocket_decode xs key k)))) ! i"
    using i by (auto simp: websocket_decode_def mask_byte_def nth_append)
qed (simp add: websocket_decode_def)

lemma frame_head_length:
  "length (ws_frame_head fl n) = (if n < 126 then 2 else if n \<le> 0xFFFF then 4 else 10)"
  by (simp add: ws_frame_head_def Let_def)

lemma calc_frame_size:
  "websocket_calc_frame_size fl n =
     n + of_nat (length (ws_frame_head fl n)) + (if has_flag fl WS_HAS_MASK then 4 else 0)"
  by (auto simp: websocket_calc_frame_size_def frame_head_length Let_def not_less not_le)

lemma frame_size:
  assumes "length payload < 2 ^ 64 - 14" "has_flag fl WS_HAS_MASK \<longrightarrow> length (case m of Some k \<Rightarrow> k | None \<Rightarrow> old) = 4"
  shows "length (fst (websocket_build_frame old fl m payload)) =
      unat (websocket_calc_frame_size fl (of_nat (length payload))) \<and>
    snd (websocket_build_frame old fl m payload) = websocket_calc_frame_size fl (of_nat (length payload))"
proof
  let ?n = "of_nat (length payload) :: 64 word" and ?k = "if has_flag fl WS_HAS_MASK then 4 else 0 :: nat"
  let ?h = "length (ws_frame_head fl ?n)"
  have h: "?h \<le> 10" by (simp add: frame_head_length)
  have size: "websocket_calc_frame_size fl ?n = of_nat (length payload + ?h + ?k)"
    by (simp add: calc_frame_size)
  have "length payload + ?h + ?k < 2 ^ 64" using assms(1) h by simp
  then have "unat (websocket_calc_frame_size fl ?n) = length payload + ?h + ?k"
    unfolding size by (simp add: unat_of_nat del: of_nat_add)
  moreover have "length (fst (websocket_build_frame old fl m payload)) = length payload + ?h + ?k"
    using assms(2) by (simp add: websocket_build_frame_def Let_def websocket_decode_def)
  ultimately show "length (fst (websocket_build_frame old fl m payload)) = unat (websocket_calc_frame_size fl ?n)"
    by simp
  show "snd (websocket_build_frame old fl m payload) = websocket_calc_frame_size fl ?n"
    unfolding size by (simp add: websocket_build_frame_def Let_def)
qed


text \<open>a frame has exactly the size that \<open>websocket_calc_frame_size\<close> announces, which is also
  the size returned, as long as that size can be represented.\<close>

theorem frame_size_exact:
  assumes "length payload < 2 ^ 64 - 14" "has_flag fl WS_HAS_MASK \<longrightarrow> length (case m of Some k \<Rightarrow> k | None \<Rightarrow> old) = 4"
  shows "length (fst (websocket_build_frame old fl m payload)) =
      unat (websocket_calc_frame_size fl (of_nat (length payload))) \<and>
    snd (websocket_build_frame old fl m payload) = websocket_calc_frame_size fl (of_nat (length payload))"
  using assms by (rule frame_size)

theorem frame_size_exact_witness:
  "length (fst (websocket_build_frame [] 0x11 None [1, 2, 3])) = unat (websocket_calc_frame_size 0x11 3)"
  using frame_size_exact [where payload = "[1, 2, 3]" and fl = "0x11" and m = None and old = "[]"] by (simp add: has_flag_def ws_flag_defs)

section \<open>Frames through the server\<close>

lemma memcpy_block:
  assumes "wf_body this = Some block" "unat k + length bs \<le> length block" "length block < 2 ^ 64"
  shows "ws_memcpy k bs this =
    this\<lparr>wf_body := Some (take (unat k) block @ bs @ drop (unat k + length bs) block)\<rparr>"
  using assms
proof (induction bs arbitrary: k block this)
  case Nil
  then show ?case by simp
next
  case (Cons b bs)
  have k: "unat (k + 1) = unat k + 1" using Cons.prems(2,3) by (simp add: unat_word_ariths)
  let ?block = "block[unat k := b]"
  have poke: "ws_poke k b this = this\<lparr>wf_body := Some ?block\<rparr>"
    using Cons.prems by (simp add: ws_poke_def)
  have "take (unat k + 1) ?block = take (unat k) block @ [b]"
    using Cons.prems(2) by (simp add: take_Suc_conv_app_nth)
  moreover have "drop (Suc (unat k + length bs)) ?block = drop (Suc (unat k + length bs)) block"
    by (simp add: drop_update_cancel)
  ultimately show ?case
    using Cons.IH [of "this\<lparr>wf_body := Some ?block\<rparr>" ?block "k + 1"] Cons.prems(2,3)
    by (simp add: poke k)
qed

text \<open>The frame object after a whole frame: the payload is appended to the message.\<close>

definition frame_received :: "32 word \<Rightarrow> bytes \<Rightarrow> ws_frame \<Rightarrow> ws_frame" where
  "frame_received fl payload d =
     d\<lparr>wf_opcode := fl AND WS_OP_MASK, wf_is_final := (if has_flag fl WS_FIN then WS_FIN else 0),
       wf_body := None, wf_len := of_nat (length payload), wf_message := wf_message d @ payload\<rparr>"

lemma body_received:
  assumes "malloc (of_nat (length payload)) = Some block" "length block = length payload"
    "length payload < 2 ^ 63" "payload \<noteq> []"
    "ev_bytes (ws_server_events malloc) (wire_flags fl) m 0 bs (d1, 0) = (ws_memcpy 0 payload d1, j)"
    "d1 = d\<lparr>wf_opcode := fl AND WS_OP_MASK, wf_is_final := (if has_flag fl WS_FIN then WS_FIN else 0),
         wf_body := Some block, wf_len := of_nat (length payload)\<rparr>"
    "a_state a = s_body" "a_require a = of_nat (length payload)" "a_length a = a_require a"
    "a_flags a = wire_flags fl" "a_mask a = m" "a_client a = (d1, 0)" "length bs = length payload"
  shows "a_state (spec_bytes (ws_server_events malloc) a bs) = s_start \<and>
    fst (a_client (spec_bytes (ws_server_events malloc) a bs)) = frame_received fl payload d"
proof -
  have n: "unat (of_nat (length payload) :: 64 word) = length payload" using assms(3) by (simp add: unat_of_nat)
  have bs: "bs \<noteq> []" using assms(4,13) by auto
  have copy: "ws_memcpy 0 payload d1 = d1\<lparr>wf_body := Some payload\<rparr>"
    using memcpy_block [of d1 block 0 payload] assms(2,3,6) by simp
  have "spec_bytes (ws_server_events malloc) a bs = spec_after_body (ws_server_events malloc)
      (a\<lparr>a_require := 0, a_client := (d1\<lparr>wf_body := Some payload\<rparr>, j)\<rparr>)"
    using spec_body_run [OF assms(7) _ bs, of "ws_server_events malloc"] assms(5,8-13) n copy by simp
  then show ?thesis using n
    by (simp add: spec_after_body_def ws_server_events_def ws_append_def frame_received_def assms(6))
qed

lemma frame_run:
  assumes "malloc (of_nat (length payload)) = Some block" "length block = length payload"
    "length payload < 2 ^ 63" "payload \<noteq> []" "has_flag fl WS_HAS_MASK \<longrightarrow> length key = 4"
    "a_state a = s_start" "length (a_mask a) = 4" "fst (a_client a) = d"
  shows "a_state (spec_bytes (ws_server_events malloc) a (fst (websocket_build_frame old fl (Some key) payload))) = s_start \<and>
    fst (a_client (spec_bytes (ws_server_events malloc) a (fst (websocket_build_frame old fl (Some key) payload)))) =
      frame_received fl payload d"
proof -
  let ?v = "ws_server_events malloc" and ?n = "of_nat (length payload) :: 64 word"
  let ?d1 = "d\<lparr>wf_opcode := fl AND WS_OP_MASK, wf_is_final := (if has_flag fl WS_FIN then WS_FIN else 0),
      wf_body := Some block, wf_len := ?n\<rparr>"
  have "unat ?n = length payload" using assms(3) by (simp add: unat_of_nat)
  then have n: "?n \<noteq> 0" using assms(4) by (auto simp: unat_eq_0 [symmetric])
  have hdr: "ev_header ?v (wire_flags fl) ?n (ev_begin ?v (a_client a)) = (?d1, 0)"
    using n assms(1,8) by (cases "a_client a") (simp add: ws_server_events_def Let_def)
  show ?thesis
  proof (cases "has_flag fl WS_HAS_MASK")
    case False
    let ?b = "spec_header ?v (header_read ?v fl ?n a)"
    have "spec_bytes ?v a (fst (websocket_build_frame old fl (Some key) payload)) = spec_bytes ?v ?b payload"
      using False by (simp add: websocket_build_frame_def Let_def spec_bytes_append head_run [OF assms(6)])
    moreover have "ev_bytes ?v (wire_flags fl) (a_mask a) 0 payload (?d1, 0) = (ws_memcpy 0 payload ?d1, 0)"
      using False by (simp add: server_bytes_unmasked)
    ultimately show ?thesis
      using body_received [where malloc = malloc and fl = fl and m = "a_mask a" and bs = payload and d = d and j = 0
          and ?d1.0 = ?d1 and payload = payload and block = block and a = ?b, OF assms(1-4)] n hdr
      by (simp add: spec_header_def header_read_def Let_def)
  next
    case True
    then have key: "length key = 4" using assms(5) by simp
    let ?h = "(header_read ?v fl ?n a)\<lparr>a_state := s_mask, a_require := 4\<rparr>"
    let ?b = "spec_header ?v (?h\<lparr>a_mask := key, a_require := 0\<rparr>)"
    let ?bs = "fst (websocket_decode payload key 0)"
    have "spec_bytes ?v a (fst (websocket_build_frame old fl (Some key) payload)) = spec_bytes ?v ?b ?bs"
      using True assms(7) key
      by (simp add: websocket_build_frame_def Let_def spec_bytes_append head_run [OF assms(6)] mask_run header_read_def)
    moreover have "map (\<lambda>i. ?bs ! i XOR mask_byte key (i + 0)) [0 ..< length ?bs] = payload"
      by (rule nth_equalityI) (simp_all add: websocket_decode_def xor.assoc)
    then have "ev_bytes ?v (wire_flags fl) key 0 ?bs (?d1, 0) = (ws_memcpy 0 payload ?d1, length ?bs mod 4)"
      using True server_bytes_masked [of "wire_flags fl" malloc key 0 ?bs ?d1 0] by simp
    moreover have "length ?bs = length payload" by (simp add: websocket_decode_def)
    ultimately show ?thesis
      using body_received [where malloc = malloc and fl = fl and m = key and bs = ?bs and d = d and j = "length ?bs mod 4"
          and ?d1.0 = ?d1 and payload = payload and block = block and a = ?b, OF assms(1-4)] n hdr
      by (simp add: spec_header_def header_read_def Let_def)
  qed
qed

text \<open>What \<open>ws_parse\<close> answers for a frame of these flags.\<close>

definition flags_code :: "32 word \<Rightarrow> int" where
  "flags_code fl =
     (if \<not> has_flag fl WS_FIN then 0
      else if fl AND WS_OP_MASK = WS_OP_TEXT then 1
      else if fl AND WS_OP_MASK = WS_OP_BINARY then 2
      else if fl AND WS_OP_MASK = WS_OP_CLOSE then 8
      else if fl AND WS_OP_MASK = WS_OP_PING then 9
      else if fl AND WS_OP_MASK = WS_OP_PONG then 10
      else 0)"

lemma ws_frame_code_received: "ws_frame_code (frame_received fl payload d) = flags_code fl"
  by (simp add: ws_frame_code_def frame_received_def flags_code_def ws_flag_defs)

lemma ws_parse_by_spec:
  assumes "frame \<noteq> []" "unat base + length frame < 2 ^ 63"
    "a = spec_bytes (ws_server_events malloc) (ws_abstract server_view (ws_new_parser junk message)) frame"
    "a_state a \<noteq> s_body"
  shows "ws_parse malloc junk base frame message =
    Some (if wf_fault (fst (a_client a)) then Ws_memory_error
          else Ws_reply (ws_frame_code (fst (a_client a))) (fst (a_client a)))"
proof -
  let ?q = "ws_new_parser junk message"
  have "a_sound (ws_abstract server_view ?q)" by (simp add: new_parser a_sound_def)
  then have small: "ws_small base (ws_server_events malloc) (ws_abstract server_view ?q) frame"
    using assms(2-4) by (intro small_if_complete) simp_all
  have "\<not> a_stuck (ws_abstract server_view ?q)" by (simp add: new_parser a_stuck_def)
  then obtain n q' where run: "websocket_parser_execute base (ws_settings malloc) ?q frame = Some (Ws_returned n q')"
      "unat n = length frame" "ws_abstract server_view q' = a"
    using server.refines [OF new_parser(1) _ small] assms(3) by blast
  have "a_client a = (ws_data q', unat (ws_mask_offset q') mod 4)"
    using run(3) by (auto simp: ws_abstract_def server_view_def)
  moreover have "n = of_nat (length frame)" using run(2) by (metis of_nat_unat ucast_id)
  ultimately show ?thesis using assms(1) run(1) by (simp add: ws_parse_def)
qed

lemma ws_parse_built:
  assumes "payload \<noteq> []" "has_flag fl WS_HAS_MASK \<longrightarrow> length key = 4"
    "frame = fst (websocket_build_frame old fl (Some key) payload)" "unat base + length frame < 2 ^ 63"
    "malloc (of_nat (length payload)) = Some block" "length block = length payload"
  shows "\<exists>this. ws_parse malloc junk base frame message = Some (Ws_reply (flags_code fl) this) \<and>
    wf_message this = message @ payload"
proof -
  have len: "length payload < 2 ^ 63"
    using assms(3,4) by (simp add: websocket_build_frame_def Let_def websocket_decode_def split: if_splits)
  note run = frame_run [where malloc = malloc and payload = payload and block = block and fl = fl and key = key
      and a = "ws_abstract server_view (ws_new_parser junk message)" and old = old
      and d = "junk\<lparr>wf_message := message, wf_body := None, wf_fault := False\<rparr>",
      OF assms(5,6) len assms(1,2)]
  have "frame \<noteq> []" by (auto simp: assms(3) websocket_build_frame_def Let_def ws_frame_head_def)
  from ws_parse_by_spec [OF this assms(4) refl, of malloc junk message] run show ?thesis
    by (simp add: new_parser assms(3) ws_frame_code_received) (simp add: frame_received_def)
qed

text \<open>C8: a whole frame with a payload, masked or not, that \<open>websocket_build_frame\<close> has built is
  received by \<open>ws_parse\<close>: its payload, unmasked, is appended to the message, and the value
  returned is that of its opcode, 0 for a fragment.\<close>

theorem ws_parse_frame:
  assumes "payload \<noteq> []" "has_flag fl WS_HAS_MASK \<longrightarrow> length key = 4"
    "frame = fst (websocket_build_frame old fl (Some key) payload)" "unat base + length frame < 2 ^ 63"
    "malloc (of_nat (length payload)) = Some block" "length block = length payload"
  shows "\<exists>this. ws_parse malloc junk base frame message = Some (Ws_reply (flags_code fl) this) \<and>
    wf_message this = message @ payload"
  using assms by (rule ws_parse_built)

theorem ws_parse_frame_witness:
  "\<exists>this. ws_parse (\<lambda>n. Some (replicate (unat n) 0)) blank_frame 8 (fst (websocket_build_frame [] 0x31 (Some [9, 8, 7, 6]) [1, 2, 3])) [] =
      Some (Ws_reply 1 this) \<and> wf_message this = [1, 2, 3]"
proof -
  have "length (fst (websocket_build_frame [] 0x31 (Some [9, 8, 7, 6]) [1, 2, 3])) = 9"
    by (simp add: websocket_build_frame_def Let_def websocket_decode_def frame_head_length has_flag_def ws_flag_defs)
  then show ?thesis
    using ws_parse_frame [where payload = "[1, 2, 3]" and fl = "0x31" and key = "[9, 8, 7, 6]" and base = 8 and old = "[]"
        and malloc = "\<lambda>n. Some (replicate (unat n) 0)" and block = "replicate 3 0" and junk = blank_frame and message = "[]",
        OF _ _ refl]
    by (simp add: flags_code_def has_flag_def ws_flag_defs)
qed

lemma empty_frame_run:
  assumes "has_flag fl WS_HAS_MASK \<longrightarrow> length key = 4" "a_state a = s_start" "length (a_mask a) = 4"
    "wf_body (fst (a_client a)) = None"
  shows "a_state (spec_bytes (ws_server_events malloc) a (fst (websocket_build_frame old fl (Some key) []))) = s_start \<and>
    wf_fault (fst (a_client (spec_bytes (ws_server_events malloc) a (fst (websocket_build_frame old fl (Some key) [])))))"
  using assms
  by (cases "a_client a")
    (auto simp: websocket_build_frame_def Let_def spec_bytes_append head_run [OF assms(2)] mask_run header_read_def
      websocket_decode_def spec_header_def ws_server_events_def ws_append_def)

text \<open>a frame without a payload, such as the usual ping, makes \<open>ws_parse\<close> append and free a
  \<open>body\<close> that was never allocated.\<close>

theorem ws_parse_empty_frame:
  assumes "has_flag fl WS_HAS_MASK \<longrightarrow> length key = 4"
    "frame = fst (websocket_build_frame old fl (Some key) [])" "unat base + length frame < 2 ^ 63"
  shows "ws_parse malloc junk base frame message = Some Ws_memory_error"
proof -
  have "frame \<noteq> []" by (auto simp: assms(2) websocket_build_frame_def Let_def ws_frame_head_def)
  with ws_parse_by_spec [OF this assms(3) refl, of malloc junk message]
    empty_frame_run [of fl key "ws_abstract server_view (ws_new_parser junk message)" malloc old] assms(1)
  show ?thesis by (simp add: new_parser assms(2))
qed

theorem ws_parse_empty_frame_witness:
  "ws_parse (\<lambda>n. None) blank_frame 8 [0x89, 0x00] [] = Some Ws_memory_error"
  using ws_parse_empty_frame [OF _ refl, of "0x19" "[]" 8 "[]" "\<lambda>n. None" blank_frame "[]"]
  by (simp add: websocket_build_frame_def ws_frame_head_def Let_def has_flag_def ws_flag_defs)

text \<open>C31: when the length that a frame announces makes \<open>p + require\<close> wrap around, the comparison
  with \<open>end\<close> succeeds and the body callback is told to read beyond the buffer.\<close>

theorem ws_execute_overrun:
  assumes "on_frame_body S = Some g" "ws_state q = s_body" "0 < length buf"
    "length buf < unat (ws_require q)" "unat base + length buf < 2 ^ 64"
    "2 ^ 64 \<le> unat base + unat (ws_require q)"
  shows "websocket_parser_execute base S q buf = Some Ws_overrun"
proof -
  let ?c = "\<lparr>wpsr = q, wpos = 0, frame_offset = 0\<rparr>"
  have bound: "unat (ws_require q) < 2 ^ LENGTH(64)" by (rule unsigned_less)
  have "unat (base + ws_require q) = (unat base + unat (ws_require q)) mod 2 ^ 64"
    by (simp add: unat_word_ariths)
  also have "\<dots> = unat base + unat (ws_require q) - 2 ^ 64"
    using assms(5,6) bound by (simp add: mod_if)
  finally have "unat (base + ws_require q) \<le> unat base" using bound by simp
  moreover have "unat (base + of_nat (length buf)) = unat base + length buf"
    using assms(5) by (simp add: unat_word_ariths unat_of_nat)
  ultimately have fits: "ws_fits base buf ?c"
    by (simp add: ws_fits_def word_le_nat_alt)
  have "ws_require q \<noteq> 0" using assms(4) by auto
  then have "ws_step base S buf (Ws_break ?c) = Ws_return Ws_overrun"
    using assms(1-4) fits by (simp add: ws_step_def ws_switch_def ws_case_body_def EMIT_DATA_CB_def Let_def)
  then show ?thesis
    by (simp add: websocket_parser_execute_def ws_run_def while_option_unfold [of ws_running])
qed

theorem ws_execute_overrun_witness:
  "websocket_parser_execute 0x1000 (ws_settings (\<lambda>n. None))
     \<lparr>ws_state = s_body, ws_flags = 0x12, ws_mask = [0, 0, 0, 0], ws_mask_offset = 0,
      ws_length = 0xFFFFFFFFFFFFFFFF, ws_require = 0xFFFFFFFFFFFFFFFF, ws_offset = 0, ws_data = blank_frame\<rparr> [1, 2, 3] = Some Ws_overrun"
  by (rule ws_execute_overrun [where g = ws_on_frame_body]) (simp_all add: ws_settings_def unat_word_ariths)



end
