(* ===== verification/Json_Types.thy ===== *)
theory Json_Types
  imports Prelude "HOL-Library.Monad_Syntax"
begin

text \<open>
  \<open>inc/mongols/lib/cJSON.h\<close> and the head of \<open>src/lib/cJSON.c\<close>: items, their types, the buffer
  that is parsed and the arithmetic on \<open>double\<close>. Text is a list of \<open>unsigned char\<close>, an
  \<open>8 word\<close>. A function that reads or writes memory returns an \<open>option\<close>: \<open>None\<close> is an access
  outside of the object.
\<close>

section \<open>Types of items\<close>

definition cJSON_Invalid :: "32 word" where "cJSON_Invalid = 0"
definition cJSON_False :: "32 word" where "cJSON_False = 0x01"
definition cJSON_True :: "32 word" where "cJSON_True = 0x02"
definition cJSON_NULL :: "32 word" where "cJSON_NULL = 0x04"
definition cJSON_Number :: "32 word" where "cJSON_Number = 0x08"
definition cJSON_String :: "32 word" where "cJSON_String = 0x10"
definition cJSON_Array :: "32 word" where "cJSON_Array = 0x20"
definition cJSON_Object :: "32 word" where "cJSON_Object = 0x40"
definition cJSON_Raw :: "32 word" where "cJSON_Raw = 0x80"
definition cJSON_IsReference :: "32 word" where "cJSON_IsReference = 256"
definition cJSON_StringIsConst :: "32 word" where "cJSON_StringIsConst = 512"
definition CJSON_NESTING_LIMIT :: nat where "CJSON_NESTING_LIMIT = 1000"
definition INT_MAX :: int where "INT_MAX = 2147483647"
definition INT_MIN :: int where "INT_MIN = - 2147483648"

lemmas json_type_defs = cJSON_Invalid_def cJSON_False_def cJSON_True_def cJSON_NULL_def cJSON_Number_def
  cJSON_String_def cJSON_Array_def cJSON_Object_def cJSON_Raw_def cJSON_IsReference_def cJSON_StringIsConst_def

text \<open>
  An item with the chain of its children; the \<open>next\<close> and \<open>prev\<close> pointers of a chain are the order
  of the list, and a null \<open>child\<close> is the empty one. A string is the bytes before its final NUL; a
  null pointer is \<open>None\<close>. \<open>double\<close> is the type \<open>'n\<close>.
\<close>

datatype 'n cJSON = Item (child: "'n cJSON list") (jtype: "32 word") (valuestring: "bytes option")
  (valueint: "32 word") (valuedouble: 'n) (jname: "bytes option")

primrec set_child :: "'n cJSON list \<Rightarrow> 'n cJSON \<Rightarrow> 'n cJSON" where
  "set_child cs (Item c t s i d n) = Item cs t s i d n"
primrec set_type :: "32 word \<Rightarrow> 'n cJSON \<Rightarrow> 'n cJSON" where
  "set_type t' (Item c t s i d n) = Item c t' s i d n"
primrec set_valuestring :: "bytes option \<Rightarrow> 'n cJSON \<Rightarrow> 'n cJSON" where
  "set_valuestring s' (Item c t s i d n) = Item c t s' i d n"
primrec set_valueint :: "32 word \<Rightarrow> 'n cJSON \<Rightarrow> 'n cJSON" where
  "set_valueint i' (Item c t s i d n) = Item c t s i' d n"
primrec set_valuedouble :: "'n \<Rightarrow> 'n cJSON \<Rightarrow> 'n cJSON" where
  "set_valuedouble d' (Item c t s i d n) = Item c t s i d' n"
primrec set_name :: "bytes option \<Rightarrow> 'n cJSON \<Rightarrow> 'n cJSON" where
  "set_name n' (Item c t s i d n) = Item c t s i d n'"

text \<open>\<open>item->type & 0xFF\<close>.\<close>

definition kind :: "'n cJSON \<Rightarrow> 32 word" where
  "kind item = jtype item AND 0xFF"

section \<open>Numbers\<close>

text \<open>
  What the code uses of \<open>double\<close>: the zero of \<open>memset\<close>, \<open>strtod\<close> with the number of characters
  it reads (0 when there is no number), the comparison with an \<open>int\<close>, the cast to \<open>int\<close>, the test
  \<open>(d * 0) != 0\<close> for NaN and infinities, \<open>==\<close>, and \<open>sprintf\<close> with \<open>%1.<precision>g\<close>.
\<close>

record 'n doubles =
  dbl_zero :: 'n
  strtod :: "bytes \<Rightarrow> 'n \<times> nat"
  dbl_ge :: "'n \<Rightarrow> int \<Rightarrow> bool"
  dbl_le :: "'n \<Rightarrow> int \<Rightarrow> bool"
  dbl_to_int :: "'n \<Rightarrow> int"
  dbl_finite :: "'n \<Rightarrow> bool"
  dbl_eq :: "'n \<Rightarrow> 'n \<Rightarrow> bool"
  sprintf_g :: "nat \<Rightarrow> 'n \<Rightarrow> bytes"

definition saturate :: "'n doubles \<Rightarrow> 'n \<Rightarrow> 32 word" where
  "saturate D x =
     (if dbl_ge D x INT_MAX then of_int INT_MAX
      else if dbl_le D x INT_MIN then of_int INT_MIN
      else of_int (dbl_to_int D x))"

definition cJSON_New_Item :: "'n doubles \<Rightarrow> 'n cJSON" where
  "cJSON_New_Item D = Item [] cJSON_Invalid None 0 (dbl_zero D) None"

definition cJSON_SetNumberHelper :: "'n doubles \<Rightarrow> 'n cJSON \<Rightarrow> 'n \<Rightarrow> 'n cJSON" where
  "cJSON_SetNumberHelper D object x = set_valuedouble x (set_valueint (saturate D x) object)"

section \<open>Memory\<close>

definition byte_at :: "bytes \<Rightarrow> nat \<Rightarrow> byte option" where
  "byte_at mem i = (if i < length mem then Some (mem ! i) else None)"

text \<open>Bytes appended to an object of \<open>cap\<close> bytes that is filled from its start.\<close>

definition put :: "nat \<Rightarrow> bytes \<Rightarrow> bytes \<Rightarrow> bytes option" where
  "put cap out bs = (if length out + length bs \<le> cap then Some (out @ bs) else None)"

definition c_str :: "bytes \<Rightarrow> bytes" where
  "c_str s = takeWhile (\<lambda>b. b \<noteq> 0) s"

definition lit :: "string \<Rightarrow> bytes" where
  "lit s = map of_char s"

text \<open>The literals of the grammar.\<close>

abbreviation QUOT :: byte where "QUOT \<equiv> 0x22"
abbreviation BACKSLASH :: byte where "BACKSLASH \<equiv> 0x5C"

text \<open>Which sizes can be allocated: the result of \<open>hooks.allocate\<close> is not null.\<close>

record parse_buffer =
  content :: bytes
  buf_length :: nat
  buf_offset :: nat
  buf_depth :: nat
  allocate :: "nat \<Rightarrow> bool"

definition can_read :: "parse_buffer \<Rightarrow> nat \<Rightarrow> bool" where
  "can_read b n \<longleftrightarrow> buf_offset b + n \<le> buf_length b"

definition can_access_at_index :: "parse_buffer \<Rightarrow> nat \<Rightarrow> bool" where
  "can_access_at_index b i \<longleftrightarrow> buf_offset b + i < buf_length b"

definition buffer_at :: "parse_buffer \<Rightarrow> nat \<Rightarrow> byte option" where
  "buffer_at b i = byte_at (content b) (buf_offset b + i)"

definition at_byte :: "parse_buffer \<Rightarrow> byte \<Rightarrow> bool option" where
  "at_byte b c = (if can_access_at_index b 0 then do { x \<leftarrow> buffer_at b 0; Some (x = c) } else Some False)"

definition advance :: "nat \<Rightarrow> parse_buffer \<Rightarrow> parse_buffer" where
  "advance n b = b\<lparr>buf_offset := buf_offset b + n\<rparr>"

text \<open>\<open>strncmp (buffer_at_offset (b), s, strlen (s)) == 0\<close>, after \<open>can_read (b, strlen (s))\<close>.\<close>

fun starts_with :: "bytes \<Rightarrow> nat \<Rightarrow> bytes \<Rightarrow> bool option" where
  "starts_with mem p [] = Some True"
| "starts_with mem p (c # cs) = do { x \<leftarrow> byte_at mem p; if x = c then starts_with mem (p + 1) cs else Some False }"

definition at_word :: "parse_buffer \<Rightarrow> bytes \<Rightarrow> bool option" where
  "at_word b w = (if can_read b (length w) then starts_with (content b) (buf_offset b) w else Some False)"

section \<open>An instance of the numbers\<close>

text \<open>Numbers of one digit: for concrete inputs only.\<close>

definition digit_doubles :: "nat doubles" where
  "digit_doubles =
     \<lparr>dbl_zero = 0,
      strtod = (\<lambda>s. case s of [] \<Rightarrow> (0, 0) | c # _ \<Rightarrow> if 0x30 \<le> c \<and> c \<le> 0x39 then (unat (c - 0x30), 1) else (0, 0)),
      dbl_ge = (\<lambda>x i. int x \<ge> i), dbl_le = (\<lambda>x i. int x \<le> i), dbl_to_int = int, dbl_finite = (\<lambda>x. True),
      dbl_eq = (=), sprintf_g = (\<lambda>n x. [0x30 + of_nat (x mod 10)])\<rparr>"

end
