(* ===== verification/Json_Strings.thy ===== *)
theory Json_Strings
  imports Json_Types
begin

text \<open>
  The strings of \<open>src/lib/cJSON.c\<close>: \<open>parse_hex4\<close>, \<open>utf16_literal_to_utf8\<close> and \<open>parse_string\<close>.
  Pointers into the input are positions in \<open>content\<close>.
\<close>

section \<open>UTF-16 escapes\<close>

definition hex_digit :: "byte \<Rightarrow> 32 word option" where
  "hex_digit c =
     (if 0x30 \<le> c \<and> c \<le> 0x39 then Some (ucast c - 0x30)
      else if 0x41 \<le> c \<and> c \<le> 0x46 then Some (10 + ucast c - 0x41)
      else if 0x61 \<le> c \<and> c \<le> 0x66 then Some (10 + ucast c - 0x61)
      else None)"

text \<open>The loop with \<open>n\<close> digits to come; a byte that is no digit makes the result 0.\<close>

fun hex4_loop :: "bytes \<Rightarrow> nat \<Rightarrow> nat \<Rightarrow> 32 word \<Rightarrow> 32 word option" where
  "hex4_loop mem p 0 h = Some h"
| "hex4_loop mem p (Suc n) h = do {
     c \<leftarrow> byte_at mem p;
     case hex_digit c of
       None \<Rightarrow> Some 0
     | Some d \<Rightarrow> hex4_loop mem (p + 1) n (if n > 0 then push_bit 4 (h + d) else h + d)
   }"

definition parse_hex4 :: "bytes \<Rightarrow> nat \<Rightarrow> 32 word option" where
  "parse_hex4 mem p = hex4_loop mem p 4 0"

text \<open>The last \<open>n\<close> bytes, written from the end, and what is left of the code point.\<close>

fun utf8_tail :: "nat \<Rightarrow> 64 word \<Rightarrow> bytes \<times> 64 word" where
  "utf8_tail 0 cp = ([], cp)"
| "utf8_tail (Suc n) cp =
     (let (bs, cp') = utf8_tail n (drop_bit 6 cp) in (bs @ [ucast ((cp OR 0x80) AND 0xBF)], cp'))"

definition utf8_encode :: "64 word \<Rightarrow> bytes option" where
  "utf8_encode cp =
     (let encode = (\<lambda>n mark. let (bs, cp') = utf8_tail n cp
        in Some ((if n > 0 then ucast ((cp' OR mark) AND 0xFF) else ucast (cp' AND 0x7F)) # bs))
      in if cp < 0x80 then encode 0 0
         else if cp < 0x800 then encode 1 0xC0
         else if cp < 0x10000 then encode 2 0xE0
         else if cp \<le> 0x10FFFF then encode 3 0xF0
         else None)"

text \<open>
  The length of the sequence that was read, 0 for \<open>goto fail\<close>, and the bytes that are written.
\<close>

definition utf16_code :: "bytes \<Rightarrow> nat \<Rightarrow> nat \<Rightarrow> (nat \<times> 64 word) option" where
  "utf16_code mem p input_end =
     (if input_end < p + 6 then Some (0, 0)
      else do {
        first_code \<leftarrow> parse_hex4 mem (p + 2);
        if 0xDC00 \<le> first_code \<and> first_code \<le> 0xDFFF then Some (0, 0)
        else if 0xD800 \<le> first_code \<and> first_code \<le> 0xDBFF then
          (if input_end < p + 12 then Some (0, 0)
           else do {
             x \<leftarrow> byte_at mem (p + 6);
             if x \<noteq> BACKSLASH then Some (0, 0)
             else do {
               y \<leftarrow> byte_at mem (p + 7);
               if y \<noteq> 0x75 then Some (0, 0)
               else do {
                 second_code \<leftarrow> parse_hex4 mem (p + 8);
                 if second_code < 0xDC00 \<or> 0xDFFF < second_code then Some (0, 0)
                 else Some (12, 0x10000 + ucast (push_bit 10 (first_code AND 0x3FF) OR (second_code AND 0x3FF)))
               }}})
        else Some (6, ucast first_code)
      })"

definition utf16_literal_to_utf8 :: "bytes \<Rightarrow> nat \<Rightarrow> nat \<Rightarrow> (nat \<times> bytes) option" where
  "utf16_literal_to_utf8 mem p input_end = do {
     (n, codepoint) \<leftarrow> utf16_code mem p input_end;
     if n = 0 then Some (0, [])
     else case utf8_encode codepoint of None \<Rightarrow> Some (0, []) | Some bs \<Rightarrow> Some (n, bs)
   }"

section \<open>String literals\<close>

text \<open>
  The first loop: the position of the closing quote and the number of escapes before it. The
  inner \<open>None\<close> is \<open>goto fail\<close>.
\<close>

function string_end :: "parse_buffer \<Rightarrow> nat \<Rightarrow> nat \<Rightarrow> (nat \<times> nat) option option" where
  "string_end b input_end skipped_bytes =
     (if input_end \<ge> buf_length b then Some None
      else do {
        x \<leftarrow> byte_at (content b) input_end;
        if x = QUOT then Some (Some (input_end, skipped_bytes))
        else if x = BACKSLASH then
          (if input_end + 1 \<ge> buf_length b then Some None
           else string_end b (input_end + 2) (skipped_bytes + 1))
        else string_end b (input_end + 1) skipped_bytes
      })"
  by auto
termination by (relation "measure (\<lambda>(b, i, n). buf_length b - i)") auto

definition simple_escape :: "byte \<Rightarrow> byte option" where
  "simple_escape c =
     (if c = 0x62 then Some 0x08
      else if c = 0x66 then Some 0x0C
      else if c = 0x6E then Some 0x0A
      else if c = 0x72 then Some 0x0D
      else if c = 0x74 then Some 0x09
      else if c = QUOT \<or> c = BACKSLASH \<or> c = 0x2F then Some c
      else None)"

text \<open>
  The second loop, which fills an \<open>output\<close> of \<open>cap\<close> bytes: where it stops, and the output unless
  it stops at a \<open>goto fail\<close>.
\<close>

function decode_string :: "bytes \<Rightarrow> nat \<Rightarrow> nat \<Rightarrow> nat \<Rightarrow> bytes \<Rightarrow> (nat \<times> bytes option) option" where
  "decode_string mem input_end cap p out =
     (if p \<ge> input_end then Some (p, Some out)
      else do {
        x \<leftarrow> byte_at mem p;
        if x \<noteq> BACKSLASH then do { out \<leftarrow> put cap out [x]; decode_string mem input_end cap (p + 1) out }
        else do {
          y \<leftarrow> byte_at mem (p + 1);
          case simple_escape y of
            Some c \<Rightarrow> do { out \<leftarrow> put cap out [c]; decode_string mem input_end cap (p + 2) out }
          | None \<Rightarrow>
              if y = 0x75 then do {
                (n, bs) \<leftarrow> utf16_literal_to_utf8 mem p input_end;
                if n = 0 then Some (p, None)
                else do { out \<leftarrow> put cap out bs; decode_string mem input_end cap (p + n) out }
              }
              else Some (p, None)
        }
      })"
  by auto
termination by (relation "measure (\<lambda>(mem, e, cap, p, out). e - p)") auto

definition parse_string :: "'n cJSON \<Rightarrow> parse_buffer \<Rightarrow> ('n cJSON option \<times> parse_buffer) option" where
  "parse_string item b =
     (let p = buf_offset b + 1; fail_at = (\<lambda>i. Some (None, b\<lparr>buf_offset := i\<rparr>))
      in do {
        x \<leftarrow> buffer_at b 0;
        if x \<noteq> QUOT then fail_at p
        else do {
          stop \<leftarrow> string_end b p 0;
          case stop of
            None \<Rightarrow> fail_at p
          | Some (input_end, skipped_bytes) \<Rightarrow>
              let cap = input_end - buf_offset b - skipped_bytes + 1
              in if \<not> allocate b cap then fail_at p
                 else do {
                   (i, result) \<leftarrow> decode_string (content b) input_end cap p [];
                   case result of
                     None \<Rightarrow> fail_at i
                   | Some out \<Rightarrow> do {
                       out' \<leftarrow> put cap out [0];
                       Some (Some (set_valuestring (Some out) (set_type cJSON_String item)),
                             b\<lparr>buf_offset := input_end + 1\<rparr>)
                     }
                 }
        }
      })"

end
