(* ===== verification/Json_Parse.thy ===== *)
theory Json_Parse
  imports Json_Strings
begin

text \<open>
  The parser of \<open>src/lib/cJSON.c\<close>: \<open>parse_number\<close>, the whitespace, \<open>parse_value\<close> with arrays and
  objects, and \<open>cJSON_ParseWithOpts\<close>. The recursive functions are given fuel, and \<open>None\<close> is an
  access outside of the text or no fuel left; \<open>parse_fuel\<close> is enough.
\<close>

section \<open>Scalars and whitespace\<close>

definition number_char :: "byte \<Rightarrow> bool" where
  "number_char c \<longleftrightarrow> c \<in> set (lit ''0123456789+-eE'') \<or> c = 0x2E"

text \<open>The copy into \<open>number_c_string\<close>, \<open>n\<close> places being free; the decimal point is a dot.\<close>

fun number_c_string :: "parse_buffer \<Rightarrow> nat \<Rightarrow> nat \<Rightarrow> bytes option" where
  "number_c_string b 0 i = Some []"
| "number_c_string b (Suc n) i =
     (if can_access_at_index b i then do {
        x \<leftarrow> buffer_at b i;
        if number_char x then do { xs \<leftarrow> number_c_string b n (i + 1); Some (x # xs) } else Some []
      } else Some [])"

definition parse_number ::
    "'n doubles \<Rightarrow> 'n cJSON \<Rightarrow> parse_buffer \<Rightarrow> ('n cJSON option \<times> parse_buffer) option" where
  "parse_number D item b = do {
     chars \<leftarrow> number_c_string b 63 0;
     let (number, n) = strtod D chars
     in if n = 0 then Some (None, b)
        else Some (Some (set_type cJSON_Number (set_valueint (saturate D number) (set_valuedouble number item))),
                   advance n b)
   }"

function skip_spaces :: "parse_buffer \<Rightarrow> parse_buffer option" where
  "skip_spaces b =
     (if can_access_at_index b 0 then do {
        x \<leftarrow> buffer_at b 0;
        if x \<le> 32 then skip_spaces (advance 1 b) else Some b
      } else Some b)"
  by auto
termination by (relation "measure (\<lambda>b. buf_length b - buf_offset b)") (auto simp: can_access_at_index_def advance_def)

definition buffer_skip_whitespace :: "parse_buffer \<Rightarrow> parse_buffer option" where
  "buffer_skip_whitespace b = do {
     b \<leftarrow> skip_spaces b;
     Some (if buf_offset b = buf_length b then b\<lparr>buf_offset := buf_offset b - 1\<rparr> else b)
   }"

text \<open>Called with \<open>offset\<close> 0, otherwise the result is a null pointer.\<close>

definition skip_utf8_bom :: "parse_buffer \<Rightarrow> parse_buffer option" where
  "skip_utf8_bom b =
     (if can_access_at_index b 4 then do {
        bom \<leftarrow> starts_with (content b) (buf_offset b) [0xEF, 0xBB, 0xBF];
        Some (if bom then advance 3 b else b)
      } else Some b)"

section \<open>Values\<close>

definition sizeof_cJSON :: nat where "sizeof_cJSON = 64"

definition step_back :: "parse_buffer \<Rightarrow> parse_buffer" where
  "step_back b = b\<lparr>buf_offset := buf_offset b - 1\<rparr>"

text \<open>The labels \<open>success\<close> of \<open>parse_array\<close> and \<open>parse_object\<close>.\<close>

definition close_container ::
    "32 word \<Rightarrow> 'n cJSON \<Rightarrow> 'n cJSON list \<Rightarrow> parse_buffer \<Rightarrow> 'n cJSON option \<times> parse_buffer" where
  "close_container t item cs b =
     (Some (set_child cs (set_type t item)), b\<lparr>buf_depth := buf_depth b - 1, buf_offset := buf_offset b + 1\<rparr>)"

text \<open>The name of a member: \<open>string\<close> and \<open>valuestring\<close> are swapped.\<close>

definition swap_name :: "'n cJSON \<Rightarrow> 'n cJSON" where
  "swap_name item = set_valuestring None (set_name (valuestring item) item)"

type_synonym 'n item_parser = "'n cJSON \<Rightarrow> parse_buffer \<Rightarrow> ('n cJSON option \<times> parse_buffer) option"
type_synonym 'n list_parser = "'n cJSON list \<Rightarrow> parse_buffer \<Rightarrow> ('n cJSON list option \<times> parse_buffer) option"

text \<open>
  The bodies of the functions, with the functions that they call as arguments; \<open>elements\<close> and
  \<open>members\<close> are one pass of the \<open>do\<close> loops.
\<close>

definition value_body :: "'n doubles \<Rightarrow> 'n item_parser \<Rightarrow> 'n item_parser \<Rightarrow> 'n item_parser" where
  "value_body D arr obj item b = do {
     w \<leftarrow> at_word b (lit ''null'');
     if w then Some (Some (set_type cJSON_NULL item), advance 4 b) else do {
     w \<leftarrow> at_word b (lit ''false'');
     if w then Some (Some (set_type cJSON_False item), advance 5 b) else do {
     w \<leftarrow> at_word b (lit ''true'');
     if w then Some (Some (set_valueint 1 (set_type cJSON_True item)), advance 4 b) else
     if \<not> can_access_at_index b 0 then Some (None, b) else do {
     x \<leftarrow> buffer_at b 0;
     if x = QUOT then parse_string item b
     else if x = 0x2D \<or> 0x30 \<le> x \<and> x \<le> 0x39 then parse_number D item b
     else if x = 0x5B then arr item b
     else if x = 0x7B then obj item b
     else Some (None, b) }}}}"

definition finish_container :: "32 word \<Rightarrow> 'n cJSON \<Rightarrow> 'n cJSON list option \<times> parse_buffer \<Rightarrow>
    'n cJSON option \<times> parse_buffer" where
  "finish_container t item r =
     (case r of (None, b) \<Rightarrow> (None, b) | (Some cs, b) \<Rightarrow> close_container t item cs b)"

definition array_body :: "'n list_parser \<Rightarrow> 'n item_parser" where
  "array_body loop item b =
     (if buf_depth b \<ge> CJSON_NESTING_LIMIT then Some (None, b) else do {
        let b = b\<lparr>buf_depth := buf_depth b + 1\<rparr>;
        x \<leftarrow> buffer_at b 0;
        if x \<noteq> 0x5B then Some (None, b) else do {
        b \<leftarrow> buffer_skip_whitespace (advance 1 b);
        empty \<leftarrow> at_byte b 0x5D;
        if empty then Some (close_container cJSON_Array item [] b)
        else if \<not> can_access_at_index b 0 then Some (None, step_back b)
        else map_option (finish_container cJSON_Array item) (loop [] (step_back b)) }})"

text \<open>The end of a pass, after an element: a comma, the closing bracket, or an error.\<close>

definition loop_end :: "byte \<Rightarrow> 'n list_parser \<Rightarrow> 'n list_parser" where
  "loop_end bracket loop cs b = do {
     b \<leftarrow> buffer_skip_whitespace b;
     more \<leftarrow> at_byte b 0x2C;
     if more then loop cs b
     else do { close \<leftarrow> at_byte b bracket; Some (if close then Some cs else None, b) }}"

definition elements :: "'n doubles \<Rightarrow> 'n item_parser \<Rightarrow> 'n list_parser \<Rightarrow> 'n list_parser" where
  "elements D val loop cs b =
     (if \<not> allocate b sizeof_cJSON then Some (None, b) else do {
        b \<leftarrow> buffer_skip_whitespace (advance 1 b);
        (c, b) \<leftarrow> val (cJSON_New_Item D) b;
        case c of
          None \<Rightarrow> Some (None, b)
        | Some c \<Rightarrow> loop_end 0x5D loop (cs @ [c]) b })"

definition object_body :: "'n list_parser \<Rightarrow> 'n item_parser" where
  "object_body loop item b =
     (if buf_depth b \<ge> CJSON_NESTING_LIMIT then Some (None, b) else do {
        let b = b\<lparr>buf_depth := buf_depth b + 1\<rparr>;
        brace \<leftarrow> at_byte b 0x7B;
        if \<not> brace then Some (None, b) else do {
        b \<leftarrow> buffer_skip_whitespace (advance 1 b);
        empty \<leftarrow> at_byte b 0x7D;
        if empty then Some (close_container cJSON_Object item [] b)
        else if \<not> can_access_at_index b 0 then Some (None, step_back b)
        else map_option (finish_container cJSON_Object item) (loop [] (step_back b)) }})"

definition members :: "'n doubles \<Rightarrow> 'n item_parser \<Rightarrow> 'n list_parser \<Rightarrow> 'n list_parser" where
  "members D val loop cs b =
     (if \<not> allocate b sizeof_cJSON then Some (None, b) else do {
        b \<leftarrow> buffer_skip_whitespace (advance 1 b);
        (name, b) \<leftarrow> parse_string (cJSON_New_Item D) b;
        case name of
          None \<Rightarrow> Some (None, b)
        | Some name \<Rightarrow> do {
            b \<leftarrow> buffer_skip_whitespace b;
            colon \<leftarrow> at_byte b 0x3A;
            if \<not> colon then Some (None, b) else do {
            b \<leftarrow> buffer_skip_whitespace (advance 1 b);
            (c, b) \<leftarrow> val (swap_name name) b;
            case c of
              None \<Rightarrow> Some (None, b)
            | Some c \<Rightarrow> loop_end 0x7D loop (cs @ [c]) b }}})"

fun parse_value :: "'n doubles \<Rightarrow> nat \<Rightarrow> 'n item_parser"
and parse_array :: "'n doubles \<Rightarrow> nat \<Rightarrow> 'n item_parser"
and array_loop :: "'n doubles \<Rightarrow> nat \<Rightarrow> 'n list_parser"
and parse_object :: "'n doubles \<Rightarrow> nat \<Rightarrow> 'n item_parser"
and object_loop :: "'n doubles \<Rightarrow> nat \<Rightarrow> 'n list_parser"
where
  "parse_value D 0 = (\<lambda>item b. None)"
| "parse_value D (Suc n) = value_body D (parse_array D n) (parse_object D n)"
| "parse_array D 0 = (\<lambda>item b. None)"
| "parse_array D (Suc n) = array_body (array_loop D n)"
| "array_loop D 0 = (\<lambda>cs b. None)"
| "array_loop D (Suc n) = elements D (parse_value D n) (array_loop D n)"
| "parse_object D 0 = (\<lambda>item b. None)"
| "parse_object D (Suc n) = object_body (object_loop D n)"
| "object_loop D 0 = (\<lambda>cs b. None)"
| "object_loop D (Suc n) = members D (parse_value D n) (object_loop D n)"

section \<open>Whole texts\<close>

text \<open>
  The item or a null pointer, \<open>*return_parse_end\<close> and the position of \<open>global_error\<close>, both as
  offsets from \<open>value\<close>.
\<close>

record 'n json_result =
  jr_item :: "'n cJSON option"
  jr_end :: "nat option"
  jr_error :: "nat option"

definition parse_fuel :: "parse_buffer \<Rightarrow> nat" where
  "parse_fuel b = 3 * buf_length b + 3"

definition parse_failed :: "parse_buffer \<Rightarrow> 'n json_result" where
  "parse_failed b =
     (let position = (if buf_offset b < buf_length b then buf_offset b
                      else if buf_length b > 0 then buf_length b - 1 else 0)
      in \<lparr>jr_item = None, jr_end = Some position, jr_error = Some position\<rparr>)"

definition text_buffer :: "(nat \<Rightarrow> bool) \<Rightarrow> bytes \<Rightarrow> parse_buffer" where
  "text_buffer alloc value =
     \<lparr>content = c_str value @ [0], buf_length = length (c_str value) + 1, buf_offset = 0, buf_depth = 0,
      allocate = alloc\<rparr>"

definition cJSON_ParseWithOpts ::
    "'n doubles \<Rightarrow> (nat \<Rightarrow> bool) \<Rightarrow> bytes option \<Rightarrow> bool \<Rightarrow> 'n json_result option" where
  "cJSON_ParseWithOpts D alloc value require_null_terminated =
     (case value of
        None \<Rightarrow> Some \<lparr>jr_item = None, jr_end = None, jr_error = None\<rparr>
      | Some value \<Rightarrow>
          let b = text_buffer alloc value
          in if \<not> alloc sizeof_cJSON then Some (parse_failed b)
             else do {
               b \<leftarrow> skip_utf8_bom b;
               b \<leftarrow> buffer_skip_whitespace b;
               (item, b) \<leftarrow> parse_value D (parse_fuel b) (cJSON_New_Item D) b;
               case item of
                 None \<Rightarrow> Some (parse_failed b)
               | Some item \<Rightarrow>
                   if require_null_terminated then do {
                     b \<leftarrow> buffer_skip_whitespace b;
                     nul \<leftarrow> at_byte b 0;
                     Some (if nul then \<lparr>jr_item = Some item, jr_end = Some (buf_offset b), jr_error = None\<rparr>
                           else parse_failed b)
                   }
                   else Some \<lparr>jr_item = Some item, jr_end = Some (buf_offset b), jr_error = None\<rparr>
             })"

definition cJSON_Parse :: "'n doubles \<Rightarrow> (nat \<Rightarrow> bool) \<Rightarrow> bytes option \<Rightarrow> 'n cJSON option option" where
  "cJSON_Parse D alloc value = map_option jr_item (cJSON_ParseWithOpts D alloc value False)"

end
