(* ===== verification/Json_Parse_Safety.thy ===== *)
theory Json_Parse_Safety
  imports Json_Parse
begin

text \<open>
  The parser never reads outside of its text and never writes outside of the string it has
  allocated, whatever the text is, and it returns. The only law of numbers that is used is that
  \<open>strtod\<close> reads no more characters than it is given.
\<close>

definition text_ok :: "parse_buffer \<Rightarrow> bool" where
  "text_ok b \<longleftrightarrow> (\<exists>ws. content b = ws @ [0] \<and> 0 \<notin> set ws \<and> buf_length b = length ws + 1)"

lemma text_okD:
  assumes "text_ok b"
  shows "buf_length b = length (content b)" "0 < buf_length b" "content b ! (buf_length b - 1) = 0"
    "\<And>i. i < buf_length b \<Longrightarrow> content b ! i \<noteq> 0 \<Longrightarrow> i + 1 < buf_length b"
  using assms by (auto simp: text_ok_def nth_append less_Suc_eq)

lemma text_ok_cong [simp]:
  "text_ok (b\<lparr>buf_offset := i\<rparr>) = text_ok b" "text_ok (b\<lparr>buf_depth := d\<rparr>) = text_ok b"
  by (simp_all add: text_ok_def)

lemma byte_at_Some [simp]: "i < length mem \<Longrightarrow> byte_at mem i = Some (mem ! i)"
  by (simp add: byte_at_def)

section \<open>Strings\<close>

text \<open>
  \<open>toks mem e p k\<close>: from \<open>p\<close> the first loop of \<open>parse_string\<close> reaches the closing quote at \<open>e\<close>
  after \<open>k\<close> characters and escapes.
\<close>

inductive toks :: "bytes \<Rightarrow> nat \<Rightarrow> nat \<Rightarrow> nat \<Rightarrow> bool" for mem :: bytes and e :: nat where
  toks_end: "e < length mem \<Longrightarrow> mem ! e = QUOT \<Longrightarrow> toks mem e e 0"
| toks_plain: "mem ! p \<noteq> QUOT \<Longrightarrow> mem ! p \<noteq> BACKSLASH \<Longrightarrow> toks mem e (p + 1) k \<Longrightarrow> toks mem e p (k + 1)"
| toks_escape: "mem ! p = BACKSLASH \<Longrightarrow> toks mem e (p + 2) k \<Longrightarrow> toks mem e p (k + 1)"

lemma toks_le: "toks mem e p k \<Longrightarrow> p \<le> e \<and> e < length mem \<and> mem ! e = QUOT"
  by (induction rule: toks.induct) auto

inductive_cases toks_start: "toks mem e p k"

lemma toks_plainD: "toks mem e p k \<Longrightarrow> p < e \<Longrightarrow> mem ! p \<noteq> BACKSLASH \<Longrightarrow> \<exists>k'. k = k' + 1 \<and> toks mem e (p + 1) k'"
  by (auto elim: toks_start)

lemma toks_escapeD: "toks mem e p k \<Longrightarrow> mem ! p = BACKSLASH \<Longrightarrow> \<exists>k'. k = k' + 1 \<and> toks mem e (p + 2) k'"
  by (auto elim: toks_start)

declare string_end.simps [simp del] decode_string.simps [simp del] skip_spaces.simps [simp del]

lemma string_end_ok:
  assumes "text_ok b"
  shows "\<exists>r. string_end b p n = Some r \<and>
    (\<forall>e m. r = Some (e, m) \<longrightarrow> (\<exists>k. toks (content b) e p k \<and> e + n = p + k + m))"
proof (induction "buf_length b - p" arbitrary: p n rule: less_induct)
  case less
  note eq = string_end.simps [of b p n] and len = text_okD(1) [OF assms]
  consider "p \<ge> buf_length b" | "p < buf_length b" "content b ! p = QUOT"
    | "p < buf_length b" "content b ! p = BACKSLASH" "p + 1 \<ge> buf_length b"
    | (escape) "p + 1 < buf_length b" "content b ! p = BACKSLASH"
    | (plain) "p < buf_length b" "content b ! p \<noteq> QUOT" "content b ! p \<noteq> BACKSLASH" by linarith
  then show ?case
  proof cases
    case escape
    then have "buf_length b - (p + 2) < buf_length b - p" by linarith
    from less [OF this, of "n + 1"] show ?thesis
      using eq escape len by (fastforce intro: toks_escape)
  next
    case plain
    then have "buf_length b - (p + 1) < buf_length b - p" by linarith
    from less [OF this, of n] show ?thesis
      using eq plain len by (fastforce intro: toks_plain)
  qed (use eq len toks_end in auto)
qed

lemma toks_jump:
  "toks mem e p k \<Longrightarrow> p + j \<le> e \<Longrightarrow>
    (\<exists>k'. toks mem e (p + j) k' \<and> k' \<le> k) \<or> (\<exists>k'. toks mem e (p + j + 1) k' \<and> k' + 1 \<le> k)"
proof (induction arbitrary: j rule: toks.induct)
  case toks_end
  then show ?case by (auto intro: toks.toks_end)
next
  case (toks_plain p k)
  show ?case
  proof (cases j)
    case 0
    then show ?thesis using toks.toks_plain [OF toks_plain(1-3)] by auto
  next
    case (Suc i)
    then show ?thesis using toks_plain.IH [of i] toks_plain.prems by fastforce
  qed
next
  case (toks_escape p k)
  consider "j = 0" | "j = 1" | i where "j = i + 2" by (metis One_nat_def Suc_eq_plus1 add_2_eq_Suc' not0_implies_Suc)
  then show ?case
  proof cases
    case 1
    then show ?thesis using toks.toks_escape [OF toks_escape(1,2)] by auto
  next
    case 2
    then show ?thesis using toks_escape(2) by auto
  next
    case (3 i)
    then show ?thesis using toks_escape.IH [of i] toks_escape.prems by (fastforce simp: algebra_simps)
  qed
qed

text \<open>A valid hexadecimal number has no quote and no backslash in it.\<close>

lemma hex_digit_plain: "hex_digit c \<noteq> None \<Longrightarrow> c \<noteq> QUOT \<and> c \<noteq> BACKSLASH"
  by (auto simp: hex_digit_def)

lemma hex4_loop_some: "p + n \<le> length mem \<Longrightarrow> \<exists>h. hex4_loop mem p n h0 = Some h"
  by (induction n arbitrary: p h0) (auto split: option.split)

lemma hex4_loop_plain:
  assumes "hex4_loop mem p n h0 = Some h" "h \<noteq> 0" "toks mem e p k" "p + n \<le> e"
  shows "\<exists>k'. k = k' + n \<and> toks mem e (p + n) k'"
  using assms
proof (induction n arbitrary: p h0 k)
  case 0
  then show ?case by simp
next
  case (Suc n)
  have e: "e < length mem" using toks_le [OF Suc.prems(3)] by simp
  obtain d where d: "hex_digit (mem ! p) = Some d" "\<exists>h1. hex4_loop mem (p + 1) n h1 = Some h"
    using Suc.prems(1,2,4) e by (auto split: option.splits)
  obtain k1 where k1: "k = k1 + 1" "toks mem e (p + 1) k1"
    using toks_plainD [OF Suc.prems(3)] Suc.prems(4) hex_digit_plain d(1) by fastforce
  then show ?case using Suc.IH [OF _ Suc.prems(2) k1(2)] d(2) Suc.prems(4) by fastforce
qed

lemma utf8_tail_length: "length (fst (utf8_tail n cp)) = n"
  by (induction n arbitrary: cp) (simp_all add: split_beta Let_def)

lemma utf8_encode_length: "utf8_encode cp = Some bs \<Longrightarrow> length bs \<le> 4"
  using utf8_tail_length [of _ cp] by (auto simp: utf8_encode_def Let_def split_beta split: if_splits)

lemma utf8_encode_zero: "utf8_encode 0 = Some [0]"
  by (simp add: utf8_encode_def)

lemma parse_hex4_some: "p + 4 \<le> length mem \<Longrightarrow> \<exists>h. parse_hex4 mem p = Some h"
  unfolding parse_hex4_def by (rule hex4_loop_some)

text \<open>The escapes that \<open>utf16_code\<close> accepts: one code, or a surrogate pair.\<close>

lemma utf16_code_ok:
  assumes "e < length mem"
  shows "\<exists>n cp. utf16_code mem p e = Some (n, cp) \<and>
    (n = 0 \<or> (n = 6 \<and> p + 6 \<le> e \<and> (\<exists>h. parse_hex4 mem (p + 2) = Some h \<and> cp = ucast h)) \<or>
     (n = 12 \<and> p + 12 \<le> e \<and> mem ! (p + 6) = BACKSLASH \<and>
      (\<exists>h1 h2. parse_hex4 mem (p + 2) = Some h1 \<and> h1 \<noteq> 0 \<and> parse_hex4 mem (p + 8) = Some h2 \<and> h2 \<noteq> 0)))"
proof (cases "e < p + 6")
  case True
  then show ?thesis by (simp add: utf16_code_def)
next
  case False
  then obtain h1 where h1: "parse_hex4 mem (p + 2) = Some h1" using parse_hex4_some [of "p + 2" mem] assms by auto
  show ?thesis
  proof (cases "0xD800 \<le> h1 \<and> h1 \<le> 0xDBFF \<and> p + 12 \<le> e")
    case True
    then obtain h2 where h2: "parse_hex4 mem (p + 8) = Some h2" using parse_hex4_some [of "p + 8" mem] assms by auto
    from True have "h1 \<noteq> 0" "\<not> 0xDC00 \<le> h1" by (auto simp: word_le_nat_alt)
    with True False h1 h2 assms show ?thesis by (auto simp: utf16_code_def)
  next
    case no_pair: False
    with False h1 show ?thesis by (auto simp: utf16_code_def)
  qed
qed

lemma utf16_literal_ok:
  assumes "e < length mem"
  shows "\<exists>n bs. utf16_literal_to_utf8 mem p e = Some (n, bs) \<and> length bs \<le> 4 \<and>
    (n = 0 \<or> (n = 6 \<and> p + 6 \<le> e \<and> (\<exists>h. parse_hex4 mem (p + 2) = Some h \<and> (h = 0 \<longrightarrow> length bs = 1))) \<or>
     (n = 12 \<and> p + 12 \<le> e \<and> mem ! (p + 6) = BACKSLASH \<and>
      (\<exists>h1 h2. parse_hex4 mem (p + 2) = Some h1 \<and> h1 \<noteq> 0 \<and> parse_hex4 mem (p + 8) = Some h2 \<and> h2 \<noteq> 0)))"
proof -
  obtain n cp where code: "utf16_code mem p e = Some (n, cp)"
      "n = 0 \<or> (n = 6 \<and> p + 6 \<le> e \<and> (\<exists>h. parse_hex4 mem (p + 2) = Some h \<and> cp = ucast h)) \<or>
       (n = 12 \<and> p + 12 \<le> e \<and> mem ! (p + 6) = BACKSLASH \<and>
        (\<exists>h1 h2. parse_hex4 mem (p + 2) = Some h1 \<and> h1 \<noteq> 0 \<and> parse_hex4 mem (p + 8) = Some h2 \<and> h2 \<noteq> 0))"
    using utf16_code_ok [OF assms] by blast
  show ?thesis
  proof (cases "n = 0 \<or> utf8_encode cp = None")
    case True
    then show ?thesis using code(1) by (auto simp: utf16_literal_to_utf8_def)
  next
    case False
    then obtain bs where bs: "utf8_encode cp = Some bs" by auto
    have "utf16_literal_to_utf8 mem p e = Some (n, bs)"
      using False code(1) bs by (simp add: utf16_literal_to_utf8_def)
    moreover have "cp = 0 \<Longrightarrow> length bs = 1" using bs utf8_encode_zero by auto
    ultimately show ?thesis using code(2) utf8_encode_length [OF bs] by auto
  qed
qed

text \<open>
  \<open>budget mem e p k\<close>: at most \<open>k\<close> bytes are written from \<open>p\<close> on. An invalid escape of six
  characters can leave the second loop one character behind the first one.
\<close>

definition budget :: "bytes \<Rightarrow> nat \<Rightarrow> nat \<Rightarrow> nat \<Rightarrow> bool" where
  "budget mem e p k \<longleftrightarrow> p = e + 1 \<or> (\<exists>j \<le> k. toks mem e p j) \<or> (\<exists>j < k. toks mem e (p + 1) j)"

lemma budget_plain:
  assumes "budget mem e p k" "p < e" "mem ! p \<noteq> BACKSLASH"
  shows "\<exists>k'. k = k' + 1 \<and> budget mem e (p + 1) k'"
proof -
  consider j where "j \<le> k" "toks mem e p j" | j where "j < k" "toks mem e (p + 1) j"
    using assms(1,2) by (auto simp: budget_def)
  then show ?thesis
  proof cases
    case (1 j)
    then show ?thesis using toks_plainD [OF 1(2) assms(2,3)] by (intro exI [of _ "k - 1"]) (auto simp: budget_def)
  next
    case (2 j)
    then show ?thesis by (intro exI [of _ "k - 1"]) (auto simp: budget_def)
  qed
qed

lemma budget_escape:
  assumes "budget mem e p k" "p < e" "mem ! p = BACKSLASH"
  shows "\<exists>k'. k = k' + 1 \<and> budget mem e (p + 2) k'"
proof -
  consider j where "j \<le> k" "toks mem e p j" | j where "j < k" "toks mem e (p + 1) j"
    using assms(1,2) by (auto simp: budget_def)
  then show ?thesis
  proof cases
    case (1 j)
    then show ?thesis using toks_escapeD [OF 1(2) assms(3)] by (intro exI [of _ "k - 1"]) (auto simp: budget_def)
  next
    case (2 j)
    from 2(2) show ?thesis
    proof (cases rule: toks.cases)
      case toks_end
      then show ?thesis using 2(1) by (intro exI [of _ "k - 1"]) (auto simp: budget_def)
    next
      case (toks_plain i)
      then show ?thesis using 2(1) by (intro exI [of _ "k - 1"]) (auto simp: budget_def)
    next
      case (toks_escape i)
      then show ?thesis using 2(1) by (intro exI [of _ "k - 1"]) (auto simp: budget_def numeral_eq_Suc)
    qed
  qed
qed

lemma budget_u:
  assumes "budget mem e p k" "p < e" "mem ! p = BACKSLASH" "mem ! (p + 1) = 0x75"
  shows "\<exists>j < k. toks mem e (p + 2) j"
proof -
  consider j where "j \<le> k" "toks mem e p j" | j where "j < k" "toks mem e (p + 1) j"
    using assms(1,2) by (auto simp: budget_def)
  then show ?thesis
  proof cases
    case (1 j)
    then show ?thesis using toks_escapeD [OF 1(2) assms(3)] 1(1) by (auto simp: Suc_le_eq)
  next
    case (2 j)
    have "p + 1 < e" using toks_le [OF 2(2)] assms(4) by (cases "p + 1 = e") auto
    then show ?thesis using toks_plainD [OF 2(2)] 2(1) assms(4) by (auto intro: less_trans)
  qed
qed

lemma budget_u_six:
  assumes "budget mem e p k" "p + 6 \<le> e" "mem ! p = BACKSLASH" "mem ! (p + 1) = 0x75"
    "parse_hex4 mem (p + 2) = Some h" "m \<le> 4" "h = 0 \<longrightarrow> m = 1"
  shows "m \<le> k \<and> budget mem e (p + 6) (k - m)"
proof -
  obtain j where j: "j < k" "toks mem e (p + 2) j" using budget_u [OF assms(1) _ assms(3,4)] assms(2) by auto
  show ?thesis
  proof (cases "h = 0")
    case True
    with assms(7) have m: "m = 1" by simp
    have "(\<exists>k'. toks mem e (p + 6) k' \<and> k' \<le> j) \<or> (\<exists>k'. toks mem e (p + 7) k' \<and> k' + 1 \<le> j)"
      using toks_jump [OF j(2), of 4] assms(2) by (simp add: numeral_eq_Suc)
    then show ?thesis using j(1) m by (auto simp: budget_def numeral_eq_Suc)
  next
    case False
    obtain j' where "j = j' + 4" "toks mem e (p + 6) j'"
      using hex4_loop_plain [OF assms(5) [unfolded parse_hex4_def] False j(2)] assms(2) by (auto simp: add.commute)
    then show ?thesis using j(1) assms(6) by (auto simp: budget_def)
  qed
qed

lemma budget_u_twelve:
  assumes "budget mem e p k" "p + 12 \<le> e" "mem ! p = BACKSLASH" "mem ! (p + 1) = 0x75" "mem ! (p + 6) = BACKSLASH"
    "parse_hex4 mem (p + 2) = Some h1" "h1 \<noteq> 0" "parse_hex4 mem (p + 8) = Some h2" "h2 \<noteq> 0" "m \<le> 4"
  shows "m \<le> k \<and> budget mem e (p + 12) (k - m)"
proof -
  obtain j where j: "j < k" "toks mem e (p + 2) j" using budget_u [OF assms(1) _ assms(3,4)] assms(2) by auto
  obtain j1 where j1: "j = j1 + 4" "toks mem e (p + 6) j1"
    using hex4_loop_plain [OF assms(6) [unfolded parse_hex4_def] assms(7) j(2)] assms(2) by (auto simp: add.commute)
  obtain j2 where j2: "j1 = j2 + 1" "toks mem e (p + 8) j2" using toks_escapeD [OF j1(2) assms(5)] by (auto simp: add.commute)
  obtain j3 where "j2 = j3 + 4" "toks mem e (p + 12) j3"
    using hex4_loop_plain [OF assms(8) [unfolded parse_hex4_def] assms(9) j2(2)] assms(2) by (auto simp: add.commute)
  then show ?thesis using j(1) j1 j2 assms(10) by (auto simp: budget_def)
qed

lemma decode_string_ok:
  assumes "e < length mem" "budget mem e p k" "length out + k \<le> cap" "p \<le> e + 1"
  shows "\<exists>i r. decode_string mem e cap p out = Some (i, r) \<and> p \<le> i \<and> i \<le> e + 1 \<and>
    (\<forall>s. r = Some s \<longrightarrow> length s \<le> length out + k)"
  using assms(2-4)
proof (induction "e + 1 - p" arbitrary: p k out rule: less_induct)
  case less
  note eq = decode_string.simps [of mem e cap p out]
  have step: "\<exists>i r. decode_string mem e cap (p + n) (out @ bs) = Some (i, r) \<and> p \<le> i \<and> i \<le> e + 1 \<and>
      (\<forall>s. r = Some s \<longrightarrow> length s \<le> length out + k)"
    if "0 < n" "p + n \<le> e + 1" "budget mem e (p + n) (k - length bs)" "length bs \<le> k" for n bs
    using less.hyps [of "p + n" "k - length bs" "out @ bs"] that less.prems by fastforce
  have put: "put cap out bs = Some (out @ bs)" if "length bs \<le> k" for bs
    using that less.prems(2) by (simp add: put_def)
  show ?case
  proof (cases "p \<ge> e")
    case True
    then show ?thesis using eq less.prems by auto
  next
    case False
    then have p: "p < e" "p < length mem" "p + 1 < length mem" using assms(1) by auto
    consider (plain) "mem ! p \<noteq> BACKSLASH" | (simple) c where "mem ! p = BACKSLASH" "simple_escape (mem ! (p + 1)) = Some c"
      | (u) "mem ! p = BACKSLASH" "mem ! (p + 1) = 0x75" "simple_escape (mem ! (p + 1)) = None"
      | (bad) "mem ! p = BACKSLASH" "mem ! (p + 1) \<noteq> 0x75" "simple_escape (mem ! (p + 1)) = None"
      by (cases "mem ! p = BACKSLASH"; cases "mem ! (p + 1) = 0x75"; cases "simple_escape (mem ! (p + 1))") blast+
    then show ?thesis
    proof cases
      case plain
      then obtain k' where "k = k' + 1" "budget mem e (p + 1) k'" using budget_plain [OF less.prems(1) p(1)] by auto
      then show ?thesis using step [of 1 "[mem ! p]"] put [of "[mem ! p]"] eq plain p by simp
    next
      case (simple c)
      then obtain k' where "k = k' + 1" "budget mem e (p + 2) k'" using budget_escape [OF less.prems(1) p(1)] by auto
      then show ?thesis using step [of 2 "[c]"] put [of "[c]"] eq simple p by simp
    next
      case u
      obtain n bs where lit: "utf16_literal_to_utf8 mem p e = Some (n, bs)" "length bs \<le> 4"
        "n = 0 \<or> (n = 6 \<and> p + 6 \<le> e \<and> (\<exists>h. parse_hex4 mem (p + 2) = Some h \<and> (h = 0 \<longrightarrow> length bs = 1))) \<or>
         (n = 12 \<and> p + 12 \<le> e \<and> mem ! (p + 6) = BACKSLASH \<and>
          (\<exists>h1 h2. parse_hex4 mem (p + 2) = Some h1 \<and> h1 \<noteq> 0 \<and> parse_hex4 mem (p + 8) = Some h2 \<and> h2 \<noteq> 0))"
        using utf16_literal_ok [OF assms(1)] by blast
      show ?thesis
      proof (cases "n = 0")
        case True
        then show ?thesis using eq u p lit(1) by simp
      next
        case False
        have "length bs \<le> k \<and> budget mem e (p + n) (k - length bs) \<and> p + n \<le> e"
          using lit(2,3) False budget_u_six [OF less.prems(1) _ u(1,2)] budget_u_twelve [OF less.prems(1) _ u(1,2)] by blast
        then show ?thesis using step [of n bs] put [of bs] eq u p lit(1) False by simp
      qed
    next
      case bad
      then show ?thesis using eq p by simp
    qed
  qed
qed

section \<open>Moving through the text\<close>

text \<open>
  What a parser of items owes: it returns, stays within the text, and on success has moved
  forward and is at the depth where it began; a loop over elements is then at a bracket.
\<close>

definition moved :: "parse_buffer \<Rightarrow> nat \<Rightarrow> nat \<Rightarrow> parse_buffer" where
  "moved b i d = b\<lparr>buf_offset := i, buf_depth := d\<rparr>"

lemma moved_simps [simp]:
  "buf_offset (moved b i d) = i" "buf_depth (moved b i d) = d" "buf_length (moved b i d) = buf_length b"
  "content (moved b i d) = content b" "allocate (moved b i d) = allocate b"
  "moved (moved b i d) j e = moved b j e" "text_ok (moved b i d) = text_ok b"
  "advance n (moved b i d) = moved b (i + n) d" "step_back (moved b i d) = moved b (i - 1) d"
  by (simp_all add: moved_def text_ok_def advance_def step_back_def)

lemma moved_id: "b = moved b (buf_offset b) (buf_depth b)"
  by (simp add: moved_def)

definition moves :: "parse_buffer \<Rightarrow> ('a option \<times> parse_buffer) option \<Rightarrow> bool" where
  "moves b r \<longleftrightarrow> (\<exists>x i d. r = Some (x, moved b i d) \<and> i \<le> buf_length b \<and>
     (x \<noteq> None \<longrightarrow> d = buf_depth b \<and> buf_offset b < i \<and> i < buf_length b))"

definition loop_moves :: "parse_buffer \<Rightarrow> ('a option \<times> parse_buffer) option \<Rightarrow> bool" where
  "loop_moves b r \<longleftrightarrow> (\<exists>x i d. r = Some (x, moved b i d) \<and> i \<le> buf_length b \<and>
     (x \<noteq> None \<longrightarrow> d = buf_depth b \<and> buf_offset b < i \<and> i < buf_length b \<and> content b ! i \<noteq> 0))"

lemma moves_fail: "i \<le> buf_length b \<Longrightarrow> moves b (Some (None, moved b i d))"
  by (auto simp: moves_def)

lemma moves_some: "buf_offset b < i \<Longrightarrow> i < buf_length b \<Longrightarrow> moves b (Some (Some x, moved b i (buf_depth b)))"
  by (fastforce simp: moves_def)

lemma loop_moves_fail: "i \<le> buf_length b \<Longrightarrow> loop_moves b (Some (None, moved b i d))"
  by (auto simp: loop_moves_def)

lemma string_moves:
  assumes "text_ok b" "buf_offset b < buf_length b"
  shows "moves b (parse_string item b)"
proof -
  note len = text_okD(1) [OF assms(1)]
  let ?p = "buf_offset b + 1"
  have at: "buffer_at b 0 = Some (content b ! buf_offset b)" using assms(2) len by (simp add: buffer_at_def)
  have fail: "moves b (Some (None, b\<lparr>buf_offset := i\<rparr>))" if "i \<le> buf_length b" for i
    using moves_fail [OF that, of "buf_depth b"] by (simp add: moved_def)
  obtain stop where stop: "string_end b ?p 0 = Some stop"
      "\<forall>e m. stop = Some (e, m) \<longrightarrow> (\<exists>k. toks (content b) e ?p k \<and> e = ?p + k + m)"
    using string_end_ok [OF assms(1), of ?p 0] by auto
  show ?thesis
  proof (cases "content b ! buf_offset b \<noteq> QUOT \<or> stop = None")
    case True
    then show ?thesis using at stop(1) fail [of ?p] assms(2) by (auto simp: parse_string_def Let_def)
  next
    case False
    note q = False
    then obtain e m where em: "stop = Some (e, m)" by auto
    then obtain k where k: "toks (content b) e ?p k" "e = ?p + k + m" using stop(2) by auto
    have e: "e < length (content b)" "content b ! e = QUOT" "?p \<le> e" using toks_le [OF k(1)] by auto
    define cap where "cap = e - buf_offset b - m + 1"
    have cap: "cap = k + 2" using k(2) by (simp add: cap_def)
    obtain i r where run: "decode_string (content b) e cap ?p [] = Some (i, r)" "i \<le> e + 1"
        "\<forall>s. r = Some s \<longrightarrow> length s \<le> k"
      using decode_string_ok [OF e(1), of ?p k "[]" cap] k(1) cap e(3) by (auto simp: budget_def)
    have "e + 1 < buf_length b" using text_okD(4) [OF assms(1), of e] e len by auto
    then have ok: "moves b (Some (Some x, b\<lparr>buf_offset := e + 1\<rparr>))" for x :: "'b cJSON"
      using moves_some [of b "e + 1" x] e(3) by (simp add: moved_def)
    have "parse_string item b =
        (if \<not> allocate b cap then Some (None, b\<lparr>buf_offset := ?p\<rparr>)
         else case r of None \<Rightarrow> Some (None, b\<lparr>buf_offset := i\<rparr>)
           | Some out \<Rightarrow> Option.bind (put cap out [0]) (\<lambda>out'.
               Some (Some (set_valuestring (Some out) (set_type cJSON_String item)), b\<lparr>buf_offset := e + 1\<rparr>)))"
      using at stop(1) em q run(1) unfolding cap_def by (simp add: parse_string_def Let_def cong: option.case_cong)
    then show ?thesis
      using run(2,3) fail [of i] fail [of ?p] ok cap e(1) len assms(2) by (auto simp: put_def split: option.split)
  qed
qed

lemma skip_spaces_ok:
  assumes "text_ok b" "buf_offset b \<le> buf_length b"
  shows "\<exists>i. skip_spaces b = Some (moved b i (buf_depth b)) \<and> buf_offset b \<le> i \<and> i \<le> buf_length b"
  using assms
proof (induction "buf_length b - buf_offset b" arbitrary: b rule: less_induct)
  case less
  show ?case
  proof (cases "can_access_at_index b 0 \<and> content b ! buf_offset b \<le> 32")
    case True
    then have "skip_spaces b = skip_spaces (advance 1 b)"
      using text_okD(1) [OF less.prems(1)]
      by (subst skip_spaces.simps) (simp add: buffer_at_def can_access_at_index_def)
    moreover have "advance 1 b = moved b (buf_offset b + 1) (buf_depth b)" by (simp add: advance_def moved_def)
    ultimately show ?thesis
      using True less.hyps [of "advance 1 b"] less.prems by (fastforce simp: can_access_at_index_def)
  next
    case False
    then have "skip_spaces b = Some b"
      using text_okD(1) [OF less.prems(1)]
      by (subst skip_spaces.simps) (simp add: buffer_at_def can_access_at_index_def)
    then show ?thesis using less.prems(2) moved_id [of b] by (intro exI [of _ "buf_offset b"]) simp
  qed
qed

lemma skip_whitespace_ok:
  assumes "text_ok b" "buf_offset b < buf_length b"
  shows "\<exists>i. buffer_skip_whitespace b = Some (moved b i (buf_depth b)) \<and> buf_offset b \<le> i \<and> i < buf_length b"
proof -
  obtain i where "skip_spaces b = Some (moved b i (buf_depth b))" "buf_offset b \<le> i" "i \<le> buf_length b"
    using skip_spaces_ok [OF assms(1)] assms(2) by auto
  then show ?thesis using assms(2)
    by (cases "i = buf_length b") (auto simp: buffer_skip_whitespace_def moved_def)
qed

lemma at_byte_some:
  assumes "text_ok b" "buf_offset b < buf_length b"
  shows "at_byte b c = Some (content b ! buf_offset b = c)"
  using assms text_okD(1) [OF assms(1)] by (simp add: at_byte_def can_access_at_index_def buffer_at_def)

lemma starts_with_some:
  "p + length w \<le> length mem \<Longrightarrow> \<exists>r. starts_with mem p w = Some r \<and> (r \<longrightarrow> (\<forall>i < length w. mem ! (p + i) = w ! i))"
proof (induction w arbitrary: p)
  case (Cons c w)
  then show ?case using Cons.IH [of "p + 1"] by (fastforce simp: nth_Cons' less_Suc_eq_0_disj)
qed auto

lemma at_word_some:
  assumes "text_ok b" "w \<noteq> []" "last w \<noteq> 0"
  shows "\<exists>r. at_word b w = Some r \<and> (r \<longrightarrow> buf_offset b + length w < buf_length b)"
proof (cases "can_read b (length w)")
  case True
  note len = text_okD(1) [OF assms(1)]
  obtain r where r: "starts_with (content b) (buf_offset b) w = Some r"
      "r \<longrightarrow> (\<forall>i < length w. content b ! (buf_offset b + i) = w ! i)"
    using starts_with_some [of "buf_offset b" w "content b"] True len by (auto simp: can_read_def)
  have "buf_offset b + length w < buf_length b" if r
  proof -
    have n: "0 < length w" using assms(2) by simp
    then have "content b ! (buf_offset b + (length w - 1)) = last w"
      using r(2) that assms(2) by (simp add: last_conv_nth)
    then have "content b ! (buf_offset b + (length w - 1)) \<noteq> 0" using assms(3) by simp
    moreover have "buf_offset b + (length w - 1) < buf_length b" using True n unfolding can_read_def by linarith
    ultimately have "buf_offset b + (length w - 1) + 1 < buf_length b" by (intro text_okD(4) [OF assms(1)])
    then show ?thesis using n by linarith
  qed
  with r True show ?thesis by (auto simp: at_word_def)
qed (auto simp: at_word_def)

lemma number_string_ok:
  assumes "text_ok b"
  shows "\<exists>xs. number_c_string b n i = Some xs \<and>
    (xs \<noteq> [] \<longrightarrow> buf_offset b + i + length xs < buf_length b)"
proof (induction n arbitrary: i)
  case (Suc n)
  note len = text_okD(1) [OF assms]
  show ?case
  proof (cases "can_access_at_index b i \<and> number_char (content b ! (buf_offset b + i))")
    case True
    then have "content b ! (buf_offset b + i) \<noteq> 0" by (auto simp: number_char_def lit_def)
    then have "buf_offset b + i + 1 < buf_length b"
      using text_okD(4) [OF assms, of "buf_offset b + i"] True by (simp add: can_access_at_index_def)
    moreover obtain xs where "number_c_string b n (i + 1) = Some xs"
        "xs \<noteq> [] \<longrightarrow> buf_offset b + (i + 1) + length xs < buf_length b" using Suc by blast
    ultimately show ?thesis using True len
      by (intro exI [of _ "content b ! (buf_offset b + i) # xs"]) (auto simp: can_access_at_index_def buffer_at_def)
  next
    case False
    then show ?thesis using len by (auto simp: can_access_at_index_def buffer_at_def)
  qed
qed simp

text \<open>\<open>strtod\<close> reads no more than the string that it is given.\<close>

definition strtod_reads :: "'n doubles \<Rightarrow> bool" where
  "strtod_reads D \<longleftrightarrow> (\<forall>s. snd (strtod D s) \<le> length s)"

lemma number_moves:
  assumes "text_ok b" "buf_offset b < buf_length b" "strtod_reads D"
  shows "moves b (parse_number D item b)"
proof -
  obtain xs where xs: "number_c_string b 63 0 = Some xs" "xs \<noteq> [] \<longrightarrow> buf_offset b + length xs < buf_length b"
    using number_string_ok [OF assms(1), of 63 0] by auto
  obtain x n where n: "strtod D xs = (x, n)" by force
  then have le: "n \<le> length xs" using assms(3) by (metis snd_conv strtod_reads_def)
  show ?thesis
  proof (cases "n = 0")
    case True
    then show ?thesis using xs n moves_fail [of "buf_offset b" b "buf_depth b"] moved_id [of b] assms(2)
      by (simp add: parse_number_def)
  next
    case False
    then have "xs \<noteq> []" using le by auto
    then show ?thesis using xs n le False moves_some [of b "buf_offset b + n"]
      by (simp add: parse_number_def advance_def moved_def)
  qed
qed

section \<open>Values and containers\<close>

lemma words_nonzero [simp]:
  "lit ''null'' \<noteq> []" "last (lit ''null'') \<noteq> 0" "lit ''false'' \<noteq> []" "last (lit ''false'') \<noteq> 0"
  "lit ''true'' \<noteq> []" "last (lit ''true'') \<noteq> 0" "length (lit ''null'') = 4" "length (lit ''false'') = 5"
  "length (lit ''true'') = 4"
  by (simp_all add: lit_def)

lemma value_moves:
  fixes D :: "'n doubles"
  assumes b: "text_ok b" "buf_offset b < buf_length b" "strtod_reads D"
    and arr: "moves b (arr item b)" and obj: "moves b (obj item b)"
  shows "moves b (value_body D arr obj item b)"
proof -
  note len = text_okD(1) [OF b(1)]
  have adv: "moves b (Some (Some x, advance n b))" if "buf_offset b + n < buf_length b" "0 < n" for x :: "'n cJSON" and n
    using moves_some [of b "buf_offset b + n"] that by (simp add: advance_def moved_def)
  have none: "moves b (Some (None :: 'n cJSON option, b))"
    using moves_fail [of "buf_offset b" b "buf_depth b"] moved_id [of b] b(2) by simp
  have at: "buffer_at b 0 = Some (content b ! buf_offset b)" "can_access_at_index b 0"
    using b(2) len by (simp_all add: buffer_at_def can_access_at_index_def)
  obtain r1 r2 r3 where w: "at_word b (lit ''null'') = Some r1" "r1 \<longrightarrow> buf_offset b + 4 < buf_length b"
      "at_word b (lit ''false'') = Some r2" "r2 \<longrightarrow> buf_offset b + 5 < buf_length b"
      "at_word b (lit ''true'') = Some r3" "r3 \<longrightarrow> buf_offset b + 4 < buf_length b"
    using at_word_some [OF b(1), of "lit ''null''"] at_word_some [OF b(1), of "lit ''false''"]
      at_word_some [OF b(1), of "lit ''true''"] by auto
  show ?thesis
    using w at arr obj none adv string_moves [OF b(1,2), of item] number_moves [OF b, of item]
    by (cases r1; cases r2; cases r3) (simp_all add: value_body_def)
qed

text \<open>Both kinds of containers, with the loop over their elements.\<close>

lemma finish_moves:
  assumes "loop_moves (moved b i (buf_depth b + 1)) r" "text_ok b" "buf_offset b \<le> i"
  shows "moves b (map_option (finish_container t item) r)"
proof -
  obtain x j d where r: "r = Some (x, moved b j d)" "j \<le> buf_length b"
      "x \<noteq> None \<longrightarrow> d = buf_depth b + 1 \<and> i < j \<and> j < buf_length b \<and> content b ! j \<noteq> 0"
    using assms(1) by (auto simp: loop_moves_def)
  show ?thesis
  proof (cases x)
    case None
    then show ?thesis using r moves_fail by (simp add: finish_container_def)
  next
    case (Some cs)
    then have "j + 1 < buf_length b" using r(3) text_okD(4) [OF assms(2), of j] by simp
    then show ?thesis using Some r(1,3) assms(3) moves_some [of b "j + 1"]
      by (simp add: finish_container_def close_container_def moved_def)
  qed
qed

lemma enter_container:
  assumes "text_ok b" "buf_offset b < buf_length b" "content b ! buf_offset b \<noteq> 0"
  shows "\<exists>i. buffer_skip_whitespace (advance 1 (b\<lparr>buf_depth := buf_depth b + 1\<rparr>)) = Some (moved b i (buf_depth b + 1)) \<and>
    buf_offset b < i \<and> i < buf_length b"
proof -
  have "buf_offset b + 1 < buf_length b" using text_okD(4) [OF assms(1)] assms(2,3) by simp
  moreover have "advance 1 (b\<lparr>buf_depth := buf_depth b + 1\<rparr>) = moved b (buf_offset b + 1) (buf_depth b + 1)"
    by (simp add: advance_def moved_def)
  ultimately show ?thesis using skip_whitespace_ok [of "moved b (buf_offset b + 1) (buf_depth b + 1)"] assms(1)
    by fastforce
qed

lemma close_moves:
  assumes "text_ok b" "buf_offset b < i" "i < buf_length b" "content b ! i \<noteq> 0"
  shows "moves b (Some (close_container t item cs (moved b i (buf_depth b + 1))))"
  using moves_some [of b "i + 1"] text_okD(4) [OF assms(1,3,4)] assms(2)
  by (simp add: close_container_def moved_def)

lemma array_moves:
  assumes b: "text_ok b" "buf_offset b < buf_length b"
    and loop: "\<And>i cs. buf_offset b \<le> i \<Longrightarrow> i + 1 < buf_length b \<Longrightarrow>
      loop_moves (moved b i (buf_depth b + 1)) (loop cs (moved b i (buf_depth b + 1)))"
  shows "moves b (array_body loop item b)"
proof -
  let ?d = "buf_depth b + 1"
  let ?b = "b\<lparr>buf_depth := ?d\<rparr>"
  note len = text_okD(1) [OF b(1)]
  have fail: "moves b (Some (None, moved b (buf_offset b) d))" for d using b(2) by (intro moves_fail) simp
  have at: "buffer_at ?b 0 = Some (content b ! buf_offset b)" using b(2) len by (simp add: buffer_at_def)
  have eq: "?b = moved b (buf_offset b) ?d" by (simp add: moved_def)
  have failb: "moves b (Some (None, ?b))" unfolding eq by (rule fail)
  show ?thesis
  proof (cases "buf_depth b \<ge> CJSON_NESTING_LIMIT \<or> content b ! buf_offset b \<noteq> 0x5B")
    case True
    then show ?thesis using at fail [of "buf_depth b"] failb moved_id [of b]
      by (auto simp: array_body_def Let_def)
  next
    case False
    then obtain i where i: "buffer_skip_whitespace (advance 1 ?b) = Some (moved b i ?d)"
        "buf_offset b < i" "i < buf_length b"
      using enter_container [OF b] by auto
    have close: "at_byte (moved b i ?d) 0x5D = Some (content b ! i = 0x5D)"
      using at_byte_some [of "moved b i ?d"] b(1) i(3) by simp
    have "can_access_at_index (moved b i ?d) 0" using i(3) by (simp add: can_access_at_index_def)
    moreover have "moves b (map_option (finish_container cJSON_Array item) (loop [] (moved b (i - 1) ?d)))"
      using i(2,3) b(1) by (intro finish_moves [OF loop]) auto
    ultimately show ?thesis using False at i close close_moves [OF b(1) i(2,3), of cJSON_Array item "[]"]
      by (simp add: array_body_def Let_def)
  qed
qed

lemma object_moves:
  assumes b: "text_ok b" "buf_offset b < buf_length b"
    and loop: "\<And>i cs. buf_offset b \<le> i \<Longrightarrow> i + 1 < buf_length b \<Longrightarrow>
      loop_moves (moved b i (buf_depth b + 1)) (loop cs (moved b i (buf_depth b + 1)))"
  shows "moves b (object_body loop item b)"
proof -
  let ?d = "buf_depth b + 1"
  let ?b = "b\<lparr>buf_depth := ?d\<rparr>"
  have fail: "moves b (Some (None, moved b (buf_offset b) d))" for d using b(2) by (intro moves_fail) simp
  have eq: "?b = moved b (buf_offset b) ?d" by (simp add: moved_def)
  have failb: "moves b (Some (None, ?b))" unfolding eq by (rule fail)
  have at: "at_byte ?b 0x7B = Some (content b ! buf_offset b = 0x7B)"
    unfolding eq using at_byte_some [of "moved b (buf_offset b) ?d"] b by simp
  show ?thesis
  proof (cases "buf_depth b \<ge> CJSON_NESTING_LIMIT \<or> content b ! buf_offset b \<noteq> 0x7B")
    case True
    then show ?thesis using at fail [of "buf_depth b"] failb moved_id [of b]
      by (auto simp: object_body_def Let_def)
  next
    case False
    then obtain i where i: "buffer_skip_whitespace (advance 1 ?b) = Some (moved b i ?d)"
        "buf_offset b < i" "i < buf_length b"
      using enter_container [OF b] by auto
    have close: "at_byte (moved b i ?d) 0x7D = Some (content b ! i = 0x7D)"
      using at_byte_some [of "moved b i ?d"] b(1) i(3) by simp
    have "can_access_at_index (moved b i ?d) 0" using i(3) by (simp add: can_access_at_index_def)
    moreover have "moves b (map_option (finish_container cJSON_Object item) (loop [] (moved b (i - 1) ?d)))"
      using i(2,3) b(1) by (intro finish_moves [OF loop]) auto
    ultimately show ?thesis using False at i close close_moves [OF b(1) i(2,3), of cJSON_Object item "[]"]
      by (simp add: object_body_def Let_def)
  qed
qed

lemma loop_end_moves:
  assumes b: "text_ok b" "buf_offset b < buf_length b" "p < buf_offset b" "bracket \<noteq> 0"
    and loop: "\<And>i. p < i \<Longrightarrow> i + 1 < buf_length b \<Longrightarrow>
      loop_moves (moved b i (buf_depth b)) (loop cs (moved b i (buf_depth b)))"
  shows "loop_moves (moved b p (buf_depth b)) (loop_end bracket loop cs b)"
proof -
  obtain i where i: "buffer_skip_whitespace b = Some (moved b i (buf_depth b))" "buf_offset b \<le> i" "i < buf_length b"
    using skip_whitespace_ok [OF b(1,2)] by auto
  let ?b = "moved b i (buf_depth b)"
  have at: "at_byte ?b c = Some (content b ! i = c)" for c
    using at_byte_some [of ?b] b(1) i(3) by simp
  show ?thesis
  proof (cases "content b ! i = 0x2C")
    case True
    then have "i + 1 < buf_length b" using text_okD(4) [OF b(1) i(3)] by simp
    then have "loop_moves ?b (loop cs ?b)" using loop b(3) i(2) by simp
    then show ?thesis using True i at b(3) by (fastforce simp: loop_end_def loop_moves_def)
  next
    case False
    then show ?thesis using i at b(3,4) by (auto simp: loop_end_def loop_moves_def)
  qed
qed

lemma elements_moves:
  assumes b: "text_ok b" "buf_offset b + 1 < buf_length b"
    and val: "\<And>i item. buf_offset b < i \<Longrightarrow> i < buf_length b \<Longrightarrow>
      moves (moved b i (buf_depth b)) (val item (moved b i (buf_depth b)))"
    and loop: "\<And>i cs. buf_offset b < i \<Longrightarrow> i + 1 < buf_length b \<Longrightarrow>
      loop_moves (moved b i (buf_depth b)) (loop cs (moved b i (buf_depth b)))"
  shows "loop_moves b (elements D val loop cs b)"
proof (cases "allocate b sizeof_cJSON")
  case False
  then show ?thesis using loop_moves_fail [of "buf_offset b" b "buf_depth b"] moved_id [of b] b(2)
    by (simp add: elements_def)
next
  case True
  let ?d = "buf_depth b"
  obtain i where i: "buffer_skip_whitespace (advance 1 b) = Some (moved b i ?d)" "buf_offset b < i" "i < buf_length b"
    using skip_whitespace_ok [of "moved b (buf_offset b + 1) ?d"] b by (auto simp: advance_def moved_def)
  obtain x j e where x: "val (cJSON_New_Item D) (moved b i ?d) = Some (x, moved b j e)" "j \<le> buf_length b"
      "x \<noteq> None \<longrightarrow> e = ?d \<and> i < j \<and> j < buf_length b"
    using val [OF i(2,3), of "cJSON_New_Item D"] by (auto simp: moves_def)
  show ?thesis
  proof (cases x)
    case None
    then show ?thesis using True i x loop_moves_fail by (simp add: elements_def)
  next
    case (Some c)
    have "loop_moves (moved (moved b j ?d) (buf_offset b) (buf_depth (moved b j ?d))) (loop_end 0x5D loop (cs @ [c]) (moved b j ?d))"
      by (rule loop_end_moves) (use b(1) x(3) Some i(2) loop in auto)
    then have "loop_moves b (loop_end 0x5D loop (cs @ [c]) (moved b j ?d))" using moved_id [of b] by simp
    then show ?thesis using True i x Some by (simp add: elements_def)
  qed
qed

lemma members_moves:
  assumes b: "text_ok b" "buf_offset b + 1 < buf_length b"
    and val: "\<And>i item. buf_offset b < i \<Longrightarrow> i < buf_length b \<Longrightarrow>
      moves (moved b i (buf_depth b)) (val item (moved b i (buf_depth b)))"
    and loop: "\<And>i cs. buf_offset b < i \<Longrightarrow> i + 1 < buf_length b \<Longrightarrow>
      loop_moves (moved b i (buf_depth b)) (loop cs (moved b i (buf_depth b)))"
  shows "loop_moves b (members D val loop cs b)"
proof (cases "allocate b sizeof_cJSON")
  case False
  then show ?thesis using loop_moves_fail [of "buf_offset b" b "buf_depth b"] moved_id [of b] b(2)
    by (simp add: members_def)
next
  case True
  let ?d = "buf_depth b"
  obtain i where i: "buffer_skip_whitespace (advance 1 b) = Some (moved b i ?d)" "buf_offset b < i" "i < buf_length b"
    using skip_whitespace_ok [of "moved b (buf_offset b + 1) ?d"] b by (auto simp: advance_def moved_def)
  obtain x j e where x: "parse_string (cJSON_New_Item D) (moved b i ?d) = Some (x, moved b j e)" "j \<le> buf_length b"
      "x \<noteq> None \<longrightarrow> e = ?d \<and> i < j \<and> j < buf_length b"
    using string_moves [of "moved b i ?d" "cJSON_New_Item D"] b(1) i by (auto simp: moves_def)
  show ?thesis
  proof (cases x)
    case None
    then show ?thesis using True i x loop_moves_fail by (simp add: members_def)
  next
    case (Some name)
    then have j: "e = ?d" "i < j" "j < buf_length b" using x(3) by auto
    obtain k where k: "buffer_skip_whitespace (moved b j ?d) = Some (moved b k ?d)" "j \<le> k" "k < buf_length b"
      using skip_whitespace_ok [of "moved b j ?d"] b(1) j by auto
    have colon: "at_byte (moved b k ?d) 0x3A = Some (content b ! k = 0x3A)"
      using at_byte_some [of "moved b k ?d"] b(1) k(3) by simp
    show ?thesis
    proof (cases "content b ! k = 0x3A")
      case False
      then show ?thesis using True i x Some j k colon loop_moves_fail [of k b ?d] by (simp add: members_def)
    next
      case c: True
      then have "k + 1 < buf_length b" using text_okD(4) [OF b(1) k(3)] by simp
      then obtain l where l: "buffer_skip_whitespace (moved b (k + 1) ?d) = Some (moved b l ?d)" "k < l" "l < buf_length b"
        using skip_whitespace_ok [of "moved b (k + 1) ?d"] b(1) by fastforce
      have "buf_offset b < l" using i(2) j(2) k(2) l(2) by simp
      then obtain y m f where y: "val (swap_name name) (moved b l ?d) = Some (y, moved b m f)" "m \<le> buf_length b"
          "y \<noteq> None \<longrightarrow> f = ?d \<and> l < m \<and> m < buf_length b"
        using val [OF _ l(3), of "swap_name name"] by (auto simp: moves_def)
      show ?thesis
      proof (cases y)
        case None
        then show ?thesis using True i x Some j k colon c l y loop_moves_fail by (simp add: members_def)
      next
        case y': (Some v)
        have "loop_moves (moved (moved b m ?d) (buf_offset b) (buf_depth (moved b m ?d)))
            (loop_end 0x7D loop (cs @ [v]) (moved b m ?d))"
          by (rule loop_end_moves) (use b(1) y(3) y' \<open>buf_offset b < l\<close> loop in auto)
        then have "loop_moves b (loop_end 0x7D loop (cs @ [v]) (moved b m ?d))" using moved_id [of b] by simp
        then show ?thesis using True i x Some j k colon c l y y' by (simp add: members_def)
      qed
    qed
  qed
qed

text \<open>Three units of fuel for each byte that is left are enough.\<close>

lemma parse_moves:
  assumes "strtod_reads D"
  shows "text_ok b \<Longrightarrow> buf_offset b < buf_length b \<Longrightarrow> 3 * (buf_length b - buf_offset b) \<le> n \<Longrightarrow>
      moves b (parse_value D n item b)"
    and "text_ok b \<Longrightarrow> buf_offset b < buf_length b \<Longrightarrow> 3 * (buf_length b - buf_offset b) \<le> n + 1 \<Longrightarrow>
      moves b (parse_array D n item b)"
    and "text_ok b \<Longrightarrow> buf_offset b + 1 < buf_length b \<Longrightarrow> 3 * (buf_length b - buf_offset b) \<le> n + 2 \<Longrightarrow>
      loop_moves b (array_loop D n cs b)"
    and "text_ok b \<Longrightarrow> buf_offset b < buf_length b \<Longrightarrow> 3 * (buf_length b - buf_offset b) \<le> n + 1 \<Longrightarrow>
      moves b (parse_object D n item b)"
    and "text_ok b \<Longrightarrow> buf_offset b + 1 < buf_length b \<Longrightarrow> 3 * (buf_length b - buf_offset b) \<le> n + 2 \<Longrightarrow>
      loop_moves b (object_loop D n cs b)"
proof (induction n arbitrary: b item cs)
  case 0
  {
    case 1 then show ?case by simp
  next
    case 2 then show ?case by simp
  next
    case 3 then show ?case by simp
  next
    case 4 then show ?case by simp
  next
    case 5 then show ?case by simp
  }
next
  case (Suc n)
  {
    case 1
    show ?case unfolding parse_value.simps
      by (rule value_moves) (use 1 assms Suc(2,4) in auto)
  next
    case 2
    show ?case unfolding parse_array.simps
      by (rule array_moves) (use 2 Suc(3) in auto)
  next
    case 3
    show ?case unfolding array_loop.simps
      by (rule elements_moves) (use 3 Suc(1,3) in auto)
  next
    case 4
    show ?case unfolding parse_object.simps
      by (rule object_moves) (use 4 Suc(5) in auto)
  next
    case 5
    show ?case unfolding object_loop.simps
      by (rule members_moves) (use 5 Suc(1,5) in auto)
  }
qed

end
