(* ===== verification/Json_Print.thy ===== *)
theory Json_Print
  imports Json_Types
begin

text \<open>
  The printer of \<open>src/lib/cJSON.c\<close>. The memory of a print buffer is a list of cells, \<open>None\<close>
  for one that was never written; \<open>None\<close> as a result is an access outside of the block or the
  read of such a cell.
\<close>

section \<open>The buffer\<close>

record printbuffer =
  cells :: "byte option list option"
  pr_length :: nat
  pr_offset :: nat
  pr_depth :: nat
  noalloc :: bool
  pr_format :: bool
  pr_allocate :: "nat \<Rightarrow> bool"
  has_realloc :: bool

type_synonym 'a print = "printbuffer \<Rightarrow> ('a \<times> printbuffer) option"

definition fresh_cells :: "nat \<Rightarrow> byte option list" where
  "fresh_cells n = replicate n None"

text \<open>\<open>realloc\<close> keeps what fits; without it the first \<open>offset + 1\<close> cells are copied.\<close>

definition grow :: "nat \<Rightarrow> bool print" where
  "grow newsize p =
     (case cells p of
        None \<Rightarrow> Some (False, p)
      | Some old \<Rightarrow>
          if \<not> pr_allocate p newsize then Some (False, p\<lparr>pr_length := 0, cells := None\<rparr>)
          else if has_realloc p then
            Some (True, p\<lparr>pr_length := newsize,
              cells := Some (take newsize old @ fresh_cells (newsize - length old))\<rparr>)
          else if length old < pr_offset p + 1 \<or> newsize < pr_offset p + 1 then None
          else Some (True, p\<lparr>pr_length := newsize,
              cells := Some (take (pr_offset p + 1) old @ fresh_cells (newsize - (pr_offset p + 1)))\<rparr>))"

text \<open>\<open>False\<close> is a null pointer; the pointer is always \<open>buffer + offset\<close>.\<close>

definition ensure :: "nat \<Rightarrow> bool print" where
  "ensure needed p =
     (if cells p = None then Some (False, p)
      else if pr_length p > 0 \<and> pr_offset p \<ge> pr_length p then Some (False, p)
      else if int needed > INT_MAX then Some (False, p)
      else
        let needed = needed + pr_offset p + 1
        in if needed \<le> pr_length p then Some (True, p)
           else if noalloc p then Some (False, p)
           else if int needed > INT_MAX div 2 then
             if int needed \<le> INT_MAX then grow (nat INT_MAX) p else Some (False, p)
           else grow (needed * 2) p)"

text \<open>Bytes stored at \<open>buffer + offset + i\<close>.\<close>

definition store :: "nat \<Rightarrow> bytes \<Rightarrow> printbuffer \<Rightarrow> printbuffer option" where
  "store i bs p =
     (case cells p of
        None \<Rightarrow> None
      | Some c \<Rightarrow>
          let k = pr_offset p + i
          in if k + length bs \<le> length c
             then Some (p\<lparr>cells := Some (take k c @ map Some bs @ drop (k + length bs) c)\<rparr>)
             else None)"

definition skip_bytes :: "nat \<Rightarrow> printbuffer \<Rightarrow> printbuffer" where
  "skip_bytes n p = p\<lparr>pr_offset := pr_offset p + n\<rparr>"

fun strlen_cells :: "byte option list \<Rightarrow> nat option" where
  "strlen_cells [] = None"
| "strlen_cells (None # cs) = None"
| "strlen_cells (Some b # cs) = (if b = 0 then Some 0 else map_option Suc (strlen_cells cs))"

definition update_offset :: "printbuffer \<Rightarrow> printbuffer option" where
  "update_offset p =
     (case cells p of
        None \<Rightarrow> Some p
      | Some c \<Rightarrow> map_option (\<lambda>n. skip_bytes n p) (strlen_cells (drop (pr_offset p) c)))"

text \<open>Space for \<open>n\<close> more bytes, into which \<open>bs\<close> is written, or \<open>return false\<close>.\<close>

definition emit :: "nat \<Rightarrow> bytes \<Rightarrow> bool print" where
  "emit n bs p = do {
     (ok, p) \<leftarrow> ensure n p;
     if ok then do { p \<leftarrow> store 0 bs p; Some (True, p) } else Some (False, p)
   }"

text \<open>The next statement when the last one has not returned false.\<close>

definition and_then :: "bool print \<Rightarrow> bool print \<Rightarrow> bool print" where
  "and_then f g p = do { (ok, p) \<leftarrow> f p; if ok then g p else Some (False, p) }"

definition then_skip :: "bool print \<Rightarrow> nat \<Rightarrow> bool print" where
  "then_skip f n p = do { (ok, p) \<leftarrow> f p; Some (ok, if ok then skip_bytes n p else p) }"

definition then_update :: "bool print \<Rightarrow> bool print" where
  "then_update f p = do { (ok, p) \<leftarrow> f p; if ok then do { p \<leftarrow> update_offset p; Some (True, p) } else Some (False, p) }"

section \<open>Numbers and strings\<close>

text \<open>What \<open>sprintf\<close> puts into \<open>number_buffer\<close>: 26 bytes, the terminating NUL included.\<close>

definition number_text :: "'n doubles \<Rightarrow> 'n \<Rightarrow> bytes" where
  "number_text D d =
     (if \<not> dbl_finite D d then lit ''null''
      else
        let first = sprintf_g D 15 d; (test, n) = strtod D first
        in if n = 0 \<or> \<not> dbl_eq D test d then sprintf_g D 17 d else first)"

definition print_number :: "'n doubles \<Rightarrow> 'n \<Rightarrow> bool print" where
  "print_number D d p =
     (let t = number_text D d
      in if length t + 1 > 26 then None
         else then_skip (emit (length t + 1) (t @ [0])) (length t) p)"

definition hex_char :: "byte \<Rightarrow> byte" where
  "hex_char n = (if n < 10 then 0x30 + n else 0x57 + n)"

definition escape_byte :: "byte \<Rightarrow> bytes" where
  "escape_byte c =
     (if c > 31 \<and> c \<noteq> QUOT \<and> c \<noteq> BACKSLASH then [c]
      else BACKSLASH #
        (if c = BACKSLASH then [BACKSLASH]
         else if c = QUOT then [QUOT]
         else if c = 0x08 then [0x62]
         else if c = 0x0C then [0x66]
         else if c = 0x0A then [0x6E]
         else if c = 0x0D then [0x72]
         else if c = 0x09 then [0x74]
         else [0x75, 0x30, 0x30, hex_char (drop_bit 4 c), hex_char (c AND 0x0F)]))"

text \<open>The first loop counts the characters that escaping adds.\<close>

definition escape_extra :: "byte \<Rightarrow> nat" where
  "escape_extra c =
     (if c = QUOT \<or> c = BACKSLASH \<or> c = 0x08 \<or> c = 0x0C \<or> c = 0x0A \<or> c = 0x0D \<or> c = 0x09 then 1
      else if c < 32 then 5 else 0)"

fun escape_characters :: "bytes \<Rightarrow> nat" where
  "escape_characters [] = 0"
| "escape_characters (c # cs) = escape_extra c + escape_characters cs"

fun escape_loop :: "bytes \<Rightarrow> bytes" where
  "escape_loop [] = []"
| "escape_loop (c # cs) = escape_byte c @ escape_loop cs"

definition print_string_ptr :: "bytes option \<Rightarrow> bool print" where
  "print_string_ptr input p =
     (case input of
        None \<Rightarrow> emit 3 [QUOT, QUOT, 0] p
      | Some s \<Rightarrow>
          let s = c_str s; n = escape_characters s; output_length = length s + n
          in do {
            (ok, p) \<leftarrow> ensure (output_length + 3) p;
            if \<not> ok then Some (False, p)
            else if n = 0 then do { p \<leftarrow> store 0 (QUOT # s @ [QUOT, 0]) p; Some (True, p) }
            else do {
              p \<leftarrow> store 0 [QUOT] p;
              p \<leftarrow> store 1 (escape_loop s) p;
              p \<leftarrow> store (output_length + 1) [QUOT, 0] p;
              Some (True, p)
            }
          })"

section \<open>Values\<close>

text \<open>The bodies of \<open>print_array\<close> and \<open>print_object\<close> around and inside their loops.\<close>

definition at_depth :: "(nat \<Rightarrow> nat) \<Rightarrow> printbuffer \<Rightarrow> printbuffer" where
  "at_depth f p = p\<lparr>pr_depth := f (pr_depth p)\<rparr>"

definition deeper :: "(nat \<Rightarrow> nat) \<Rightarrow> bool print \<Rightarrow> bool print" where
  "deeper f g p = do { (ok, p) \<leftarrow> g p; Some (ok, if ok then at_depth f p else p) }"

definition array_text :: "bool print \<Rightarrow> bool print" where
  "array_text loop =
     and_then (deeper Suc (then_skip (emit 1 [0x5B]) 1))
       (and_then loop (deeper (\<lambda>d. d - 1) (emit 2 [0x5D, 0])))"

definition element_text :: "bool print \<Rightarrow> bool \<Rightarrow> bool print" where
  "element_text value goes_on =
     and_then (then_update value)
       (\<lambda>p. if goes_on then
              let len = (if pr_format p then 2 else 1)
              in then_skip (emit (len + 1) (0x2C # (if pr_format p then [0x20] else []) @ [0])) len p
            else Some (True, p))"

definition object_text :: "bool print \<Rightarrow> bool print" where
  "object_text loop =
     and_then (\<lambda>p. let len = (if pr_format p then 2 else 1)
       in then_skip (deeper Suc (emit (len + 1) (0x7B # (if pr_format p then [0x0A] else [])))) len p)
     (and_then loop
       (deeper (\<lambda>d. d - 1)
         (\<lambda>p. emit (if pr_format p then pr_depth p + 1 else 2)
            ((if pr_format p then replicate (pr_depth p - 1) 0x09 else []) @ [0x7D, 0]) p)))"

definition member_text :: "bytes option \<Rightarrow> bool print \<Rightarrow> bool \<Rightarrow> bool print" where
  "member_text key value goes_on =
     and_then (\<lambda>p. if pr_format p then then_skip (emit (pr_depth p) (replicate (pr_depth p) 0x09)) (pr_depth p) p
                   else Some (True, p))
     (and_then (then_update (print_string_ptr key))
     (and_then (\<lambda>p. let len = (if pr_format p then 2 else 1)
         in then_skip (emit len (0x3A # (if pr_format p then [0x09] else []))) len p)
     (and_then (then_update value)
       (\<lambda>p. let len = (if pr_format p then 1 else 0) + (if goes_on then 1 else 0)
         in then_skip (emit (len + 1)
              ((if goes_on then [0x2C] else []) @ (if pr_format p then [0x0A] else []) @ [0])) len p))))"

definition value_text ::
    "'n doubles \<Rightarrow> 32 word \<Rightarrow> bytes option \<Rightarrow> 'n \<Rightarrow> bool print \<Rightarrow> bool print \<Rightarrow> bool print" where
  "value_text D t s d elements members p =
     (let k = t AND 0xFF
      in if k = cJSON_NULL then emit 5 (lit ''null'' @ [0]) p
         else if k = cJSON_False then emit 6 (lit ''false'' @ [0]) p
         else if k = cJSON_True then emit 5 (lit ''true'' @ [0]) p
         else if k = cJSON_Number then print_number D d p
         else if k = cJSON_Raw then
           (case s of None \<Rightarrow> Some (False, p)
            | Some raw \<Rightarrow> emit (length (c_str raw) + 1) (c_str raw @ [0]) p)
         else if k = cJSON_String then print_string_ptr s p
         else if k = cJSON_Array then array_text elements p
         else if k = cJSON_Object then object_text members p
         else Some (False, p))"

fun print_value :: "'n doubles \<Rightarrow> 'n cJSON \<Rightarrow> bool print"
and print_array_loop :: "'n doubles \<Rightarrow> 'n cJSON list \<Rightarrow> bool print"
and print_object_loop :: "'n doubles \<Rightarrow> 'n cJSON list \<Rightarrow> bool print"
where
  "print_value D (Item cs t s i d n) = value_text D t s d (print_array_loop D cs) (print_object_loop D cs)"
| "print_array_loop D [] = (\<lambda>p. Some (True, p))"
| "print_array_loop D (c # cs) = and_then (element_text (print_value D c) (cs \<noteq> [])) (print_array_loop D cs)"
| "print_object_loop D [] = (\<lambda>p. Some (True, p))"
| "print_object_loop D (c # cs) = and_then (member_text (jname c) (print_value D c) (cs \<noteq> [])) (print_object_loop D cs)"

section \<open>Entry points\<close>

definition new_printbuffer :: "nat \<Rightarrow> bool \<Rightarrow> bool \<Rightarrow> (nat \<Rightarrow> bool) \<Rightarrow> bool \<Rightarrow> printbuffer" where
  "new_printbuffer len no_alloc fmt alloc realloc =
     \<lparr>cells = Some (fresh_cells len), pr_length = len, pr_offset = 0, pr_depth = 0, noalloc = no_alloc,
      pr_format = fmt, pr_allocate = alloc, has_realloc = realloc\<rparr>"

text \<open>The characters of a block up to its first NUL, as the caller reads the result.\<close>

definition cells_text :: "byte option list \<Rightarrow> bytes option" where
  "cells_text c = map_option (\<lambda>n. map the (take n c)) (strlen_cells c)"

text \<open>\<open>Some None\<close> is a null pointer. The block that is returned has \<open>offset + 1\<close> bytes.\<close>

definition print_text :: "'n doubles \<Rightarrow> (nat \<Rightarrow> bool) \<Rightarrow> bool \<Rightarrow> bool \<Rightarrow> 'n cJSON \<Rightarrow> bytes option option" where
  "print_text D alloc realloc fmt item =
     (if \<not> alloc 256 then Some None
      else do {
        (ok, p) \<leftarrow> print_value D item (new_printbuffer 256 False fmt alloc realloc);
        if \<not> ok then Some None
        else do {
          p \<leftarrow> update_offset p;
          if \<not> alloc (pr_offset p + 1) then Some None
          else case cells p of
              None \<Rightarrow> None
            | Some c \<Rightarrow> map_option Some (cells_text (take (pr_offset p + 1) c))
        }
      })"

definition cJSON_Print :: "'n doubles \<Rightarrow> (nat \<Rightarrow> bool) \<Rightarrow> bool \<Rightarrow> 'n cJSON \<Rightarrow> bytes option option" where
  "cJSON_Print D alloc realloc item = print_text D alloc realloc True item"

definition cJSON_PrintUnformatted :: "'n doubles \<Rightarrow> (nat \<Rightarrow> bool) \<Rightarrow> bool \<Rightarrow> 'n cJSON \<Rightarrow> bytes option option" where
  "cJSON_PrintUnformatted D alloc realloc item = print_text D alloc realloc False item"

definition cJSON_PrintBuffered ::
    "'n doubles \<Rightarrow> (nat \<Rightarrow> bool) \<Rightarrow> bool \<Rightarrow> 'n cJSON \<Rightarrow> int \<Rightarrow> bool \<Rightarrow> bytes option option" where
  "cJSON_PrintBuffered D alloc realloc item prebuffer fmt =
     (if prebuffer < 0 \<or> \<not> alloc (nat prebuffer) then Some None
      else do {
        (ok, p) \<leftarrow> print_value D item (new_printbuffer (nat prebuffer) False fmt alloc realloc);
        if \<not> ok then Some None
        else case cells p of None \<Rightarrow> Some None | Some c \<Rightarrow> map_option Some (cells_text c)
      })"

text \<open>The caller's block of \<open>len\<close> bytes: whether printing succeeded, and what is in the block.\<close>

definition cJSON_PrintPreallocated ::
    "'n doubles \<Rightarrow> 'n cJSON \<Rightarrow> byte option list \<Rightarrow> bool \<Rightarrow> (bool \<times> byte option list) option" where
  "cJSON_PrintPreallocated D item buf fmt = do {
     (ok, p) \<leftarrow> print_value D item ((new_printbuffer (length buf) True fmt (\<lambda>n. False) False)\<lparr>cells := Some buf\<rparr>);
     case cells p of None \<Rightarrow> None | Some c \<Rightarrow> Some (ok, c)
   }"

end
