(* ===== verification/Json_Print_Spec.thy ===== *)
theory Json_Print_Spec
  imports Json_Print
begin

text \<open>
  What the printer writes, as a function of the item, and the refinement: printing never leaves
  the block, reads no byte that was not written, and when it succeeds the block holds exactly
  the text of the item. With enough memory it succeeds.
\<close>

section \<open>The text of an item\<close>

definition string_render :: "bytes option \<Rightarrow> bytes" where
  "string_render s = QUOT # (case s of None \<Rightarrow> [] | Some s \<Rightarrow> escape_loop (c_str s)) @ [QUOT]"

definition if_text :: "bool \<Rightarrow> bytes \<Rightarrow> bytes" where
  "if_text c bs = (if c then bs else [])"

definition tabs :: "nat \<Rightarrow> bytes" where
  "tabs n = replicate n 0x09"

definition array_render :: "bytes option \<Rightarrow> bytes option" where
  "array_render t = map_option (\<lambda>b. [0x5B] @ b @ [0x5D]) t"

definition object_render :: "bool \<Rightarrow> nat \<Rightarrow> bytes option \<Rightarrow> bytes option" where
  "object_render fmt d t = map_option (\<lambda>b. (0x7B # if_text fmt [0x0A]) @ b @ if_text fmt (tabs d) @ [0x7D]) t"

definition value_render :: "'n doubles \<Rightarrow> 32 word \<Rightarrow> bytes option \<Rightarrow> 'n \<Rightarrow> bytes option \<Rightarrow> bytes option \<Rightarrow> bytes option" where
  "value_render D t s x arr obj =
     (let k = t AND 0xFF
      in if k = cJSON_NULL then Some (lit ''null'')
         else if k = cJSON_False then Some (lit ''false'')
         else if k = cJSON_True then Some (lit ''true'')
         else if k = cJSON_Number then Some (number_text D x)
         else if k = cJSON_Raw then map_option c_str s
         else if k = cJSON_String then Some (string_render s)
         else if k = cJSON_Array then arr
         else if k = cJSON_Object then obj
         else None)"

definition append_text :: "bytes option \<Rightarrow> bytes option \<Rightarrow> bytes option" where
  "append_text s t = do { a \<leftarrow> s; b \<leftarrow> t; Some (a @ b) }"

fun render :: "'n doubles \<Rightarrow> bool \<Rightarrow> nat \<Rightarrow> 'n cJSON \<Rightarrow> bytes option"
and render_elements :: "'n doubles \<Rightarrow> bool \<Rightarrow> nat \<Rightarrow> 'n cJSON list \<Rightarrow> bytes option"
and render_members :: "'n doubles \<Rightarrow> bool \<Rightarrow> nat \<Rightarrow> 'n cJSON list \<Rightarrow> bytes option"
where
  "render D fmt d (Item cs t s i x n) =
     value_render D t s x (array_render (render_elements D fmt (Suc d) cs))
       (object_render fmt d (render_members D fmt (Suc d) cs))"
| "render_elements D fmt d [] = Some []"
| "render_elements D fmt d (c # cs) =
     append_text
       (append_text (render D fmt d c) (Some (if_text (cs \<noteq> []) (0x2C # if_text fmt [0x20]))))
       (render_elements D fmt d cs)"
| "render_members D fmt d [] = Some []"
| "render_members D fmt d (c # cs) =
     append_text
       (append_text (Some (if_text fmt (tabs d)))
       (append_text (Some (string_render (jname c)))
       (append_text (Some (0x3A # if_text fmt [0x09]))
       (append_text (render D fmt d c)
         (Some (if_text (cs \<noteq> []) [0x2C] @ if_text fmt [0x0A]))))))
       (render_members D fmt d cs)"

section \<open>The contract of a printing function\<close>

definition good :: "printbuffer \<Rightarrow> bool" where
  "good p \<longleftrightarrow> (\<exists>c. cells p = Some c \<and> length c = pr_length p \<and> pr_offset p \<le> length c \<and>
     (has_realloc p \<or> 0 < pr_length p))"

definition ready :: "printbuffer \<Rightarrow> bool" where
  "ready p \<longleftrightarrow> good p \<and> pr_offset p < pr_length p"

lemma ready_good: "ready p \<Longrightarrow> good p"
  by (simp add: ready_def)

text \<open>Memory is never short: every allocation succeeds and \<open>m\<close> more bytes stay below \<open>INT_MAX\<close>.\<close>

definition fits :: "printbuffer \<Rightarrow> nat \<Rightarrow> bool" where
  "fits p m \<longleftrightarrow> (\<forall>n. pr_allocate p n) \<and> \<not> noalloc p \<and> int (pr_offset p + m + 2) \<le> INT_MAX \<and>
     (pr_length p = 0 \<or> pr_offset p < pr_length p)"

definition same_setup :: "printbuffer \<Rightarrow> printbuffer \<Rightarrow> bool" where
  "same_setup p p' \<longleftrightarrow> noalloc p' = noalloc p \<and> pr_format p' = pr_format p \<and>
     pr_allocate p' = pr_allocate p \<and> has_realloc p' = has_realloc p"

lemma same_setup_simps [simp]:
  "same_setup p p"
  "same_setup p (p'\<lparr>cells := c\<rparr>) = same_setup p p'" "same_setup p (p'\<lparr>pr_length := n\<rparr>) = same_setup p p'"
  "same_setup p (p'\<lparr>pr_offset := n\<rparr>) = same_setup p p'" "same_setup p (p'\<lparr>pr_depth := n\<rparr>) = same_setup p p'"
  by (simp_all add: same_setup_def)

definition wrote :: "printbuffer \<Rightarrow> nat \<Rightarrow> nat \<Rightarrow> bytes \<Rightarrow> printbuffer \<Rightarrow> bool" where
  "wrote p d n w p' \<longleftrightarrow>
     (\<exists>c'. cells p' = Some c' \<and> length c' = pr_length p' \<and> pr_offset p' = pr_offset p + n \<and>
       pr_offset p' < length c' \<and> pr_offset p + length w \<le> length c' \<and>
       take (pr_offset p + length w) c' = take (pr_offset p) (the (cells p)) @ map Some w \<and>
       pr_depth p' = d \<and> same_setup p p')"

text \<open>
  A function that writes a text and moves behind it, and one that writes it with a NUL and
  leaves the offset somewhere in it. \<open>None\<close> is a text that is refused.
\<close>

definition prints :: "bool print \<Rightarrow> printbuffer \<Rightarrow> nat \<Rightarrow> bytes option \<Rightarrow> bool" where
  "prints f p d t \<longleftrightarrow> (\<exists>ok p'. f p = Some (ok, p') \<and>
     (ok \<longrightarrow> (\<exists>w. t = Some w \<and> wrote p d (length w) w p')) \<and>
     (\<not> ok \<and> noalloc p \<longrightarrow> cells p' \<noteq> None) \<and>
     (\<forall>w. t = Some w \<and> fits p (length w) \<longrightarrow> ok))"

definition prints_value :: "bool print \<Rightarrow> printbuffer \<Rightarrow> nat \<Rightarrow> bytes option \<Rightarrow> bool" where
  "prints_value f p d t \<longleftrightarrow> (\<exists>ok p'. f p = Some (ok, p') \<and>
     (ok \<longrightarrow> (\<exists>w n. t = Some w \<and> n \<le> length w \<and> wrote p d n (w @ [0]) p')) \<and>
     (\<not> ok \<and> noalloc p \<longrightarrow> cells p' \<noteq> None) \<and>
     (\<forall>w. t = Some w \<and> fits p (length w) \<longrightarrow> ok))"

lemma wrote_good: "wrote p d n w p' \<Longrightarrow> good p \<Longrightarrow> good p'"
  by (auto simp: wrote_def good_def same_setup_def)

lemma wroteE:
  assumes "wrote p d n w p'" "good p"
  obtains c c' where "cells p = Some c" "cells p' = Some c'" "length c' = pr_length p'"
    "pr_offset p' = pr_offset p + n" "pr_offset p' < length c'" "pr_offset p + length w \<le> length c'"
    "take (pr_offset p + length w) c' = take (pr_offset p) c @ map Some w" "length (take (pr_offset p) c) = pr_offset p"
    "pr_depth p' = d" "same_setup p p'"
  using assms by (auto simp: wrote_def good_def)

lemma wroteI:
  assumes "cells p = Some c" "cells p' = Some c'" "length c' = pr_length p'"
    "pr_offset p' = pr_offset p + n" "pr_offset p' < length c'" "pr_offset p + length w \<le> length c'"
    "take (pr_offset p + length w) c' = take (pr_offset p) c @ map Some w"
    "pr_depth p' = d" "same_setup p p'"
  shows "wrote p d n w p'"
  using assms by (auto simp: wrote_def)

lemma ensure_ok:
  assumes "good p"
  shows "\<exists>ok p'. ensure n p = Some (ok, p') \<and> (\<not> ok \<and> noalloc p \<longrightarrow> cells p' \<noteq> None) \<and>
    (int (n + pr_offset p + 1) \<le> INT_MAX \<and> (\<forall>n. pr_allocate p n) \<and> \<not> noalloc p \<and>
      (pr_length p = 0 \<or> pr_offset p < pr_length p) \<longrightarrow> ok) \<and>
    (ok \<longrightarrow> wrote p (pr_depth p) 0 [] p' \<and> n + pr_offset p + 1 \<le> pr_length p')"
proof -
  obtain c where c: "cells p = Some c" "length c = pr_length p" "pr_offset p \<le> length c"
      "has_realloc p \<or> 0 < pr_length p"
    using assms by (auto simp: good_def)
  have grown: "\<exists>ok p'. grow m p = Some (ok, p') \<and> ((\<forall>n. pr_allocate p n) \<longrightarrow> ok) \<and>
      (ok \<longrightarrow> wrote p (pr_depth p) 0 [] p' \<and> n + pr_offset p + 1 \<le> pr_length p')"
    if "n + pr_offset p + 1 \<le> m" "pr_length p = 0 \<or> pr_offset p < pr_length p" "pr_length p < m" for m
    using that c by (auto simp: grow_def wrote_def fresh_cells_def)
  show ?thesis
  proof (cases "pr_length p > 0 \<and> pr_offset p \<ge> pr_length p \<or> int n > INT_MAX \<or> n + pr_offset p + 1 \<le> pr_length p \<or> noalloc p")
    case True
    then show ?thesis using c
      by (auto simp: ensure_def Let_def wrote_def)
  next
    case False
    then have g: "pr_length p = 0 \<or> pr_offset p < pr_length p" "pr_length p < n + pr_offset p + 1" "\<not> noalloc p" by auto
    show ?thesis
      using grown [OF _ g(1), of "nat INT_MAX"] grown [OF _ g(1), of "(n + pr_offset p + 1) * 2"] g c False
      by (auto simp: ensure_def Let_def INT_MAX_def)
  qed
qed

lemma wrote_prefix:
  assumes "wrote p d n (w @ z) p'" "good p"
  shows "wrote p d n w p'"
proof -
  obtain c c' where c: "cells p = Some c" "cells p' = Some c'" "length c' = pr_length p'"
    "pr_offset p' = pr_offset p + n" "pr_offset p' < length c'" "pr_offset p + length (w @ z) \<le> length c'"
    "take (pr_offset p + length (w @ z)) c' = take (pr_offset p) c @ map Some (w @ z)"
    "length (take (pr_offset p) c) = pr_offset p" "pr_depth p' = d" "same_setup p p'"
    using wroteE [OF assms] by blast
  have "take (pr_offset p + length w) (take (pr_offset p + length (w @ z)) c') =
      take (pr_offset p) c @ map Some w"
    unfolding c(7) using c(8) by simp
  then show ?thesis by (intro wroteI [OF c(1-5) _ _ c(9,10)]) (use c(6) in \<open>simp_all add: min_def\<close>)
qed

lemma wrote_store:
  assumes "wrote p d 0 [] p1" "good p" "length bs \<le> m" "m + pr_offset p \<le> pr_length p1"
  shows "\<exists>p'. store 0 bs p1 = Some p' \<and> wrote p d 0 bs p' \<and> pr_length p' = pr_length p1"
proof -
  obtain c c1 where c: "cells p = Some c" "cells p1 = Some c1" "length c1 = pr_length p1"
    "pr_offset p1 = pr_offset p + 0" "pr_offset p1 < length c1" "pr_offset p + length ([] :: bytes) \<le> length c1"
    "take (pr_offset p + length ([] :: bytes)) c1 = take (pr_offset p) c @ map Some []"
    "length (take (pr_offset p) c) = pr_offset p" "pr_depth p1 = d" "same_setup p p1"
    by (rule wroteE [OF assms(1,2)]) (rule that)
  let ?c = "take (pr_offset p) c1 @ map Some bs @ drop (pr_offset p + length bs) c1"
  have k: "pr_offset p + length bs \<le> length c1" using assms(3,4) c(3) by simp
  then have "store 0 bs p1 = Some (p1\<lparr>cells := Some ?c\<rparr>)" using c(2,4) by (simp add: store_def Let_def)
  moreover have "wrote p d 0 bs (p1\<lparr>cells := Some ?c\<rparr>)"
    by (rule wroteI [OF c(1), where c' = ?c]) (use c k in simp_all)
  ultimately show ?thesis by simp
qed

lemma wrote_skip:
  "wrote p d 0 bs p1 \<Longrightarrow> pr_offset p + n < pr_length p1 \<Longrightarrow> wrote p d n bs (skip_bytes n p1)"
  by (auto simp: wrote_def skip_bytes_def)

lemma emit_wrote:
  assumes "good p" "length bs \<le> n + 1"
  shows "\<exists>ok p'. emit n bs p = Some (ok, p') \<and> (\<not> ok \<and> noalloc p \<longrightarrow> cells p' \<noteq> None) \<and>
    (\<forall>m. fits p m \<and> n \<le> m + 1 \<longrightarrow> ok) \<and>
    (ok \<longrightarrow> wrote p (pr_depth p) 0 bs p' \<and> pr_offset p + n < pr_length p')"
proof -
  obtain ok p1 where e: "ensure n p = Some (ok, p1)" "\<not> ok \<and> noalloc p \<longrightarrow> cells p1 \<noteq> None"
    "int (n + pr_offset p + 1) \<le> INT_MAX \<and> (\<forall>n. pr_allocate p n) \<and> \<not> noalloc p \<and>
      (pr_length p = 0 \<or> pr_offset p < pr_length p) \<longrightarrow> ok"
    "ok \<longrightarrow> wrote p (pr_depth p) 0 [] p1 \<and> n + pr_offset p + 1 \<le> pr_length p1"
    using ensure_ok [OF assms(1), of n] by blast
  have fit: "fits p m \<and> n \<le> m + 1 \<longrightarrow> ok" for m using e(3) by (auto simp: fits_def)
  show ?thesis
  proof (cases ok)
    case False
    then show ?thesis using e(1,2) fit by (auto simp: emit_def)
  next
    case True
    then obtain p' where "store 0 bs p1 = Some p'" "wrote p (pr_depth p) 0 bs p'" "pr_length p' = pr_length p1"
      using wrote_store [OF _ assms, of "pr_depth p" p1] e(4) by auto
    then show ?thesis using True e(1,4) by (intro exI [of _ True] exI [of _ p']) (simp add: emit_def)
  qed
qed

lemma emit_prints:
  assumes "good p" "length (w @ z) \<le> n + 1" "length w \<le> n" "n \<le> length w + 1" "d = pr_depth p" "m = length w"
  shows "prints (then_skip (emit n (w @ z)) m) p d (Some w)"
proof -
  obtain ok p' where e: "emit n (w @ z) p = Some (ok, p')" "\<not> ok \<and> noalloc p \<longrightarrow> cells p' \<noteq> None"
    "\<forall>m. fits p m \<and> n \<le> m + 1 \<longrightarrow> ok"
    "ok \<longrightarrow> wrote p (pr_depth p) 0 (w @ z) p' \<and> pr_offset p + n < pr_length p'"
    using emit_wrote [OF assms(1,2)] by blast
  have "ok \<longrightarrow> wrote p d m w (skip_bytes m p')"
    using e(4) wrote_prefix [of p d 0 w z p', OF _ assms(1)] wrote_skip [of p d w p' m] assms(3,5,6) by auto
  then show ?thesis using e(1-3) assms(4,6) by (auto simp: prints_def then_skip_def)
qed

lemma emit_value:
  assumes "good p" "length w \<le> n" "n \<le> length w + 1" "d = pr_depth p"
  shows "prints_value (emit n (w @ [0])) p d (Some w)"
proof -
  obtain ok p' where e: "emit n (w @ [0]) p = Some (ok, p')" "\<not> ok \<and> noalloc p \<longrightarrow> cells p' \<noteq> None"
    "\<forall>m. fits p m \<and> n \<le> m + 1 \<longrightarrow> ok" "ok \<longrightarrow> wrote p (pr_depth p) 0 (w @ [0]) p'"
    using emit_wrote [OF assms(1), of "w @ [0]" n] assms(2) by auto
  then show ?thesis using assms(3,4) unfolding prints_value_def by (auto intro: exI [of _ 0])
qed

lemma wrote_append:
  assumes "wrote p d (length s) s p1" "wrote p1 e n t p2" "good p"
  shows "wrote p e (length s + n) (s @ t) p2"
proof -
  obtain c c1 where c: "cells p = Some c" "cells p1 = Some c1"
    "length c1 = pr_length p1" "pr_offset p1 = pr_offset p + length s" "pr_offset p1 < length c1"
    "pr_offset p + length s \<le> length c1" "take (pr_offset p + length s) c1 = take (pr_offset p) c @ map Some s"
    "length (take (pr_offset p) c) = pr_offset p" "pr_depth p1 = d" "same_setup p p1"
    using wroteE [OF assms(1,3)] by blast
  obtain c1' c2 where c2: "cells p1 = Some c1'" "cells p2 = Some c2" "length c2 = pr_length p2"
    "pr_offset p2 = pr_offset p1 + n" "pr_offset p2 < length c2" "pr_offset p1 + length t \<le> length c2"
    "take (pr_offset p1 + length t) c2 = take (pr_offset p1) c1' @ map Some t"
    "length (take (pr_offset p1) c1') = pr_offset p1" "pr_depth p2 = e" "same_setup p1 p2"
    using wroteE [OF assms(2) wrote_good [OF assms(1,3)]] by blast
  show ?thesis
    by (rule wroteI [OF c(1) c2(2,3)]) (use c c2 in \<open>simp_all add: add.assoc same_setup_def\<close>)
qed

lemma wrote_fits:
  assumes "wrote p d (length s) s p1" "fits p (length (s @ t))"
  shows "fits p1 (length t)"
  using assms by (auto simp: wrote_def fits_def same_setup_def)

lemma fits_prefix: "fits p (m + n) \<Longrightarrow> fits p m"
  by (auto simp: fits_def)

lemma prints_then:
  assumes f: "prints f p d s" and p: "good p"
    and g: "\<And>p'. ready p' \<Longrightarrow> pr_depth p' = d \<Longrightarrow> pr_format p' = pr_format p \<Longrightarrow> prints g p' e t"
  shows "prints (and_then f g) p e (append_text s t)"
proof -
  obtain ok p1 where 1: "f p = Some (ok, p1)" "ok \<longrightarrow> (\<exists>w. s = Some w \<and> wrote p d (length w) w p1)"
      "\<not> ok \<and> noalloc p \<longrightarrow> cells p1 \<noteq> None" "\<forall>w. s = Some w \<and> fits p (length w) \<longrightarrow> ok"
    using f by (auto simp: prints_def)
  show ?thesis
  proof (cases ok)
    case False
    have "\<not> (append_text s t = Some w \<and> fits p (length w))" for w
      using 1(4) False fits_prefix by (fastforce simp: append_text_def split: bind_splits)
    then show ?thesis using 1 False unfolding prints_def by (auto simp: and_then_def)
  next
    case True
    then obtain a where a: "s = Some a" "wrote p d (length a) a p1" using 1(2) by auto
    then have "ready p1" "pr_depth p1 = d" "pr_format p1 = pr_format p" "noalloc p1 = noalloc p"
      using wrote_good [OF a(2) p] by (auto simp: wrote_def same_setup_def ready_def)
    then obtain ok' p2 where 2: "g p1 = Some (ok', p2)" "ok' \<longrightarrow> (\<exists>w. t = Some w \<and> wrote p1 e (length w) w p2)"
      "\<not> ok' \<and> noalloc p \<longrightarrow> cells p2 \<noteq> None" "\<forall>w. t = Some w \<and> fits p1 (length w) \<longrightarrow> ok'"
      using g [of p1] by (auto simp: prints_def)
    have "append_text s t = Some w \<and> fits p (length w) \<longrightarrow> ok'" for w
      using 2(4) a wrote_fits [OF a(2)] by (auto simp: append_text_def split: bind_splits)
    moreover have "ok' \<longrightarrow> (\<exists>w. append_text s t = Some w \<and> wrote p e (length w) w p2)"
      using 2(2) a wrote_append [OF a(2) _ p] by (auto simp: append_text_def)
    ultimately show ?thesis using 1(1) True 2 unfolding prints_def by (auto simp: and_then_def)
  qed
qed

lemma prints_then_value:
  assumes f: "prints f p d s" and p: "good p"
    and g: "\<And>p'. ready p' \<Longrightarrow> pr_depth p' = d \<Longrightarrow> pr_format p' = pr_format p \<Longrightarrow> prints_value g p' e t"
  shows "prints_value (and_then f g) p e (append_text s t)"
proof -
  obtain ok p1 where 1: "f p = Some (ok, p1)" "ok \<longrightarrow> (\<exists>w. s = Some w \<and> wrote p d (length w) w p1)"
      "\<not> ok \<and> noalloc p \<longrightarrow> cells p1 \<noteq> None" "\<forall>w. s = Some w \<and> fits p (length w) \<longrightarrow> ok"
    using f by (auto simp: prints_def)
  show ?thesis
  proof (cases ok)
    case False
    have "\<not> (append_text s t = Some w \<and> fits p (length w))" for w
      using 1(4) False fits_prefix by (fastforce simp: append_text_def split: bind_splits)
    then show ?thesis using 1 False unfolding prints_value_def by (auto simp: and_then_def)
  next
    case True
    then obtain a where a: "s = Some a" "wrote p d (length a) a p1" using 1(2) by auto
    then have "ready p1" "pr_depth p1 = d" "pr_format p1 = pr_format p" "noalloc p1 = noalloc p"
      using wrote_good [OF a(2) p] by (auto simp: wrote_def same_setup_def ready_def)
    then obtain ok' p2 where 2: "g p1 = Some (ok', p2)"
      "ok' \<longrightarrow> (\<exists>w n. t = Some w \<and> n \<le> length w \<and> wrote p1 e n (w @ [0]) p2)"
      "\<not> ok' \<and> noalloc p \<longrightarrow> cells p2 \<noteq> None" "\<forall>w. t = Some w \<and> fits p1 (length w) \<longrightarrow> ok'"
      using g [of p1] by (auto simp: prints_value_def)
    have "append_text s t = Some w \<and> fits p (length w) \<longrightarrow> ok'" for w
      using 2(4) a wrote_fits [OF a(2)] by (auto simp: append_text_def split: bind_splits)
    moreover have "ok' \<longrightarrow> (\<exists>w n. append_text s t = Some w \<and> n \<le> length w \<and> wrote p e n (w @ [0]) p2)"
    proof
      assume ok'
      then obtain b n where b: "t = Some b" "n \<le> length b" "wrote p1 e n (b @ [0]) p2" using 2(2) by blast
      then have "wrote p e (length a + n) ((a @ b) @ [0]) p2" using wrote_append [OF a(2) b(3) p] by simp
      then show "\<exists>w n. append_text s t = Some w \<and> n \<le> length w \<and> wrote p e n (w @ [0]) p2"
        using a(1) b(1,2) by (intro exI [of _ "a @ b"] exI [of _ "length a + n"]) (simp add: append_text_def)
    qed
    ultimately show ?thesis using 1(1) True 2 unfolding prints_value_def by (auto simp: and_then_def)
  qed
qed

lemma strlen_cells_text: "0 \<notin> set w \<Longrightarrow> strlen_cells (map Some w @ Some 0 # cs) = Some (length w)"
  by (induction w) auto

lemma update_wrote:
  assumes "wrote p d n (w @ [0]) p1" "n \<le> length w" "0 \<notin> set w" "good p"
  shows "\<exists>p'. update_offset p1 = Some p' \<and> wrote p d (length w) w p'"
proof -
  obtain c where c: "cells p1 = Some c" "length c = pr_length p1" "pr_offset p1 = pr_offset p + n"
      "pr_offset p + length w + 1 \<le> length c"
      "take (pr_offset p + length w + 1) c = take (pr_offset p) (the (cells p)) @ map Some w @ [Some 0]"
    using assms(1) by (auto simp: wrote_def add.assoc)
  have o: "length (take (pr_offset p) (the (cells p))) = pr_offset p" using assms(4) by (auto simp: good_def)
  have "c = take (pr_offset p) (the (cells p)) @ map Some w @ Some 0 # drop (pr_offset p + length w + 1) c"
    using c(5) append_take_drop_id [of "pr_offset p + length w + 1" c] by simp
  then have "drop (pr_offset p1) c = drop (pr_offset p1) (take (pr_offset p) (the (cells p)) @ map Some w @
      Some 0 # drop (pr_offset p + length w + 1) c)" by simp
  also have "\<dots> = map Some (drop n w) @ Some 0 # drop (pr_offset p + length w + 1) c"
    using o assms(2) c(3) by (simp add: drop_map)
  finally have "strlen_cells (drop (pr_offset p1) c) = Some (length w - n)"
    using strlen_cells_text [of "drop n w"] assms(3) by (simp add: in_set_dropD) (metis in_set_dropD strlen_cells_text length_drop)
  then have "update_offset p1 = Some (skip_bytes (length w - n) p1)" using c(1) by (simp add: update_offset_def)
  moreover have "wrote p d (length w) w (skip_bytes (length w - n) p1)"
    using wrote_prefix [OF assms(1,4)] assms(1,2) c by (auto simp: wrote_def skip_bytes_def)
  ultimately show ?thesis by blast
qed

lemma prints_update:
  assumes "prints_value f p d t" "good p" "\<And>w. t = Some w \<Longrightarrow> 0 \<notin> set w"
  shows "prints (then_update f) p d t"
proof -
  obtain ok p1 where 1: "f p = Some (ok, p1)"
      "ok \<longrightarrow> (\<exists>w n. t = Some w \<and> n \<le> length w \<and> wrote p d n (w @ [0]) p1)"
      "\<not> ok \<and> noalloc p \<longrightarrow> cells p1 \<noteq> None" "\<forall>w. t = Some w \<and> fits p (length w) \<longrightarrow> ok"
    using assms(1) by (auto simp: prints_value_def)
  show ?thesis
  proof (cases ok)
    case False
    then show ?thesis using 1 by (auto simp: prints_def then_update_def)
  next
    case True
    then obtain w n where w: "t = Some w" "n \<le> length w" "wrote p d n (w @ [0]) p1" using 1(2) by blast
    obtain p' where "update_offset p1 = Some p'" "wrote p d (length w) w p'"
      using update_wrote [OF w(3,2) assms(3) [OF w(1)] assms(2)] by blast
    then show ?thesis using 1(1) True w(1) by (auto simp: prints_def then_update_def)
  qed
qed

lemma wrote_depth: "wrote p d n w p' \<Longrightarrow> wrote p (h d) n w (at_depth h p')"
  by (auto simp: wrote_def at_depth_def)

lemma prints_deeper:
  assumes "prints f p d t"
  shows "prints (deeper h f) p (h d) t"
proof -
  obtain ok p1 where 1: "f p = Some (ok, p1)" "ok \<longrightarrow> (\<exists>w. t = Some w \<and> wrote p d (length w) w p1)"
      "\<not> ok \<and> noalloc p \<longrightarrow> cells p1 \<noteq> None" "\<forall>w. t = Some w \<and> fits p (length w) \<longrightarrow> ok"
    using assms by (auto simp: prints_def)
  have "ok \<longrightarrow> (\<exists>w. t = Some w \<and> wrote p (h d) (length w) w (at_depth h p1))" using 1(2) wrote_depth by blast
  moreover have "cells (at_depth h p1) = cells p1" by (simp add: at_depth_def)
  ultimately show ?thesis using 1(1,3,4) by (cases ok) (auto simp: prints_def deeper_def)
qed

lemma prints_value_deeper:
  assumes "prints_value f p d t"
  shows "prints_value (deeper h f) p (h d) t"
proof -
  obtain ok p1 where 1: "f p = Some (ok, p1)"
      "ok \<longrightarrow> (\<exists>w n. t = Some w \<and> n \<le> length w \<and> wrote p d n (w @ [0]) p1)"
      "\<not> ok \<and> noalloc p \<longrightarrow> cells p1 \<noteq> None" "\<forall>w. t = Some w \<and> fits p (length w) \<longrightarrow> ok"
    using assms by (auto simp: prints_value_def)
  have "ok \<longrightarrow> (\<exists>w n. t = Some w \<and> n \<le> length w \<and> wrote p (h d) n (w @ [0]) (at_depth h p1))"
    using 1(2) wrote_depth by blast
  moreover have "cells (at_depth h p1) = cells p1" by (simp add: at_depth_def)
  ultimately show ?thesis using 1(1,3,4) by (cases ok) (auto simp: prints_value_def deeper_def)
qed

lemma prints_nothing:
  assumes "ready p"
  shows "prints (\<lambda>p. Some (True, p)) p (pr_depth p) (Some [])"
proof -
  obtain c where c: "cells p = Some c" "length c = pr_length p" "pr_offset p < length c"
    using assms by (auto simp: ready_def good_def)
  then have "wrote p (pr_depth p) 0 [] p" by (intro wroteI [OF c(1,1,2)]) simp_all
  then show ?thesis unfolding prints_def by (intro exI [of _ True] exI [of _ p]) simp
qed

section \<open>Strings and numbers\<close>

lemma store_store: "Option.bind (store i a p) (store (i + length a) b) = store i (a @ b) p"
  by (auto simp: store_def Let_def ac_simps split: option.split bind_splits)

lemma escape_byte_length: "length (escape_byte c) = 1 + escape_extra c"
  by (auto simp: escape_byte_def escape_extra_def not_less word_le_nat_alt word_less_nat_alt)

lemma escape_loop_length: "length (escape_loop s) = length s + escape_characters s"
  by (induction s) (simp_all add: escape_byte_length)

lemma escape_extra_zero: "escape_extra c = 0 \<Longrightarrow> escape_byte c = [c]"
  by (auto simp: escape_byte_def escape_extra_def word_le_nat_alt word_less_nat_alt split: if_splits)

lemma escape_loop_plain: "escape_characters s = 0 \<Longrightarrow> escape_loop s = s"
  by (induction s) (simp_all add: escape_extra_zero)

lemma print_string_emit:
  "print_string_ptr s p = emit (length (string_render s) + 1) (string_render s @ [0]) p"
proof (cases s)
  case None
  then show ?thesis by (simp add: print_string_ptr_def string_render_def numeral_eq_Suc)
next
  case (Some t)
  let ?s = "c_str t"
  have len: "length (string_render s) + 1 = length ?s + escape_characters ?s + 3"
    using Some by (simp add: string_render_def escape_loop_length)
  have stores: "Option.bind (Option.bind (store 0 [QUOT] q) (\<lambda>q. Option.bind (store 1 (escape_loop ?s) q)
      (store (length ?s + escape_characters ?s + 1) [QUOT, 0]))) f = Option.bind (store 0 (string_render s @ [0]) q) f" for q f
    using store_store [of 0 "[QUOT]" q "escape_loop ?s"] store_store [of 0 "QUOT # escape_loop ?s" q "[QUOT, 0]"] Some
    by (simp add: string_render_def escape_loop_length Option.bind_assoc [symmetric] del: Option.bind_assoc)
  show ?thesis
  proof (cases "escape_characters ?s = 0")
    case True
    then show ?thesis
      unfolding emit_def len using Some escape_loop_plain [of ?s]
      by (cases "ensure (length ?s + 3) p") (auto simp: print_string_ptr_def Let_def string_render_def)
  next
    case False
    then show ?thesis
      unfolding emit_def len stores [symmetric] using Some
      by (cases "ensure (length ?s + escape_characters ?s + 3) p") (auto simp: print_string_ptr_def Let_def)
  qed
qed

lemma string_prints: "good p \<Longrightarrow> prints_value (print_string_ptr s) p (pr_depth p) (Some (string_render s))"
  using emit_value [of p "string_render s" "length (string_render s) + 1" "pr_depth p"]
  by (simp add: prints_value_def print_string_emit)

text \<open>What is asked of numbers: their text fits into \<open>number_buffer\<close> and has no NUL.\<close>

definition numbers_fit :: "'n doubles \<Rightarrow> bool" where
  "numbers_fit D \<longleftrightarrow> (\<forall>d. length (number_text D d) \<le> 25 \<and> 0 \<notin> set (number_text D d))"

lemma number_prints:
  assumes "numbers_fit D" "good p"
  shows "prints_value (print_number D x) p (pr_depth p) (Some (number_text D x))"
proof -
  let ?t = "number_text D x"
  obtain ok p' where e: "emit (length ?t + 1) (?t @ [0]) p = Some (ok, p')" "\<not> ok \<and> noalloc p \<longrightarrow> cells p' \<noteq> None"
    "\<forall>m. fits p m \<and> length ?t + 1 \<le> m + 1 \<longrightarrow> ok"
    "ok \<longrightarrow> wrote p (pr_depth p) 0 (?t @ [0]) p' \<and> pr_offset p + (length ?t + 1) < pr_length p'"
    using emit_wrote [OF assms(2), of "?t @ [0]" "length ?t + 1"] by auto
  have "ok \<longrightarrow> wrote p (pr_depth p) (length ?t) (?t @ [0]) (skip_bytes (length ?t) p')"
    using e(4) wrote_skip [of p "pr_depth p" "?t @ [0]" p' "length ?t"] by (cases ok) simp_all
  moreover have "length ?t + 1 \<le> 26" using assms(1) by (simp add: numbers_fit_def)
  ultimately show ?thesis using e(1-3)
    by (cases ok) (auto simp: prints_value_def print_number_def Let_def then_skip_def)
qed

section \<open>Values\<close>

lemma hex_char_nonzero: "n \<le> 0xF \<Longrightarrow> hex_char n \<noteq> 0"
  by (auto simp: hex_char_def word_less_nat_alt word_le_nat_alt unat_word_ariths word_unat_eq_iff dest: dvd_imp_le split: if_splits)

lemma nibbles: "drop_bit 4 (c :: byte) \<le> 0xF" "c AND 0x0F \<le> (0xF :: byte)"
proof -
  have "unat c < 2 ^ LENGTH(8)" by (rule unsigned_less)
  then show "drop_bit 4 c \<le> 0xF" by (simp add: word_le_nat_alt drop_bit_eq_div unat_div_distrib)
  show "c AND 0x0F \<le> 0xF" by (rule word_and_le1)
qed

lemma c_str_nonzero: "0 \<notin> set (c_str s)"
  by (auto simp: c_str_def dest: set_takeWhileD)

lemma escape_byte_nonzero: "c \<noteq> 0 \<Longrightarrow> 0 \<notin> set (escape_byte c)"
  using hex_char_nonzero [OF nibbles(1), of c] hex_char_nonzero [OF nibbles(2), of c] by (auto simp: escape_byte_def)

lemma escape_loop_nonzero: "0 \<notin> set s \<Longrightarrow> 0 \<notin> set (escape_loop s)"
  by (induction s) (auto simp: escape_byte_nonzero)

lemma string_render_nonzero: "0 \<notin> set (string_render s)"
  using escape_loop_nonzero [OF c_str_nonzero] by (auto simp: string_render_def split: option.split)

lemma if_text_nonzero: "0 \<notin> set bs \<Longrightarrow> 0 \<notin> set (if_text c bs)"
  by (simp add: if_text_def)

lemma tabs_nonzero: "0 \<notin> set (tabs n)"
  by (simp add: tabs_def)

definition nonzero :: "bytes option \<Rightarrow> bool" where
  "nonzero t \<longleftrightarrow> (\<forall>w. t = Some w \<longrightarrow> 0 \<notin> set w)"

lemma nonzero_append: "nonzero s \<Longrightarrow> nonzero t \<Longrightarrow> nonzero (append_text s t)"
  by (auto simp: nonzero_def append_text_def split: bind_splits)

lemma nonzero_Some [simp]: "nonzero (Some w) \<longleftrightarrow> 0 \<notin> set w"
  by (simp add: nonzero_def)

lemma nonzero_value:
  assumes "numbers_fit D" "nonzero arr" "nonzero obj"
  shows "nonzero (value_render D t s x arr obj)"
proof -
  have "nonzero (map_option c_str s)" by (auto simp: nonzero_def c_str_nonzero)
  moreover have "0 \<notin> set (number_text D x)" using assms(1) by (simp add: numbers_fit_def)
  ultimately show ?thesis
    using assms(2,3) string_render_nonzero by (simp add: value_render_def Let_def lit_def) (simp add: nonzero_def)
qed

lemma nonzero_containers: "nonzero t \<Longrightarrow> nonzero (array_render t)" "nonzero t \<Longrightarrow> nonzero (object_render fmt d t)"
  by (auto simp: nonzero_def array_render_def object_render_def if_text_def tabs_def)

lemma render_nonzero:
  "numbers_fit D \<Longrightarrow> nonzero (render D fmt d item)"
  "numbers_fit D \<Longrightarrow> nonzero (render_elements D fmt d cs)"
  "numbers_fit D \<Longrightarrow> nonzero (render_members D fmt d cs)"
proof (induction D fmt d item and D fmt d cs and D fmt d cs rule: render_render_elements_render_members.induct)
  case (1 D fmt d cs t s i x n)
  then show ?case by (simp add: nonzero_value nonzero_containers)
next
  case (3 D fmt d c cs)
  then show ?case by (simp add: nonzero_append if_text_nonzero)
next
  case (5 D fmt d c cs)
  then show ?case by (simp add: nonzero_append if_text_nonzero tabs_nonzero string_render_nonzero)
qed simp_all

lemma prints_cong: "f p = g p \<Longrightarrow> prints f p d t = prints g p d t"
  by (simp add: prints_def)

lemma prints_value_cong: "f p = g p \<Longrightarrow> prints_value f p d t = prints_value g p d t"
  by (simp add: prints_value_def)

lemma then_skip_deeper: "then_skip (deeper h f) n = deeper h (then_skip f n)"
  by (auto simp: fun_eq_iff then_skip_def deeper_def at_depth_def skip_bytes_def split: bind_splits)

lemma append_text_simps:
  "map_option (\<lambda>b. u @ b @ v) t = append_text (Some u) (append_text t (Some v))"
  "append_text (append_text r s) t = append_text r (append_text s t)"
  by (auto simp: append_text_def split: option.split bind_splits)

lemma array_prints:
  assumes "good p"
    and loop: "\<And>p'. ready p' \<Longrightarrow> pr_depth p' = Suc (pr_depth p) \<Longrightarrow> pr_format p' = pr_format p \<Longrightarrow>
      prints loop p' (Suc (pr_depth p)) t"
  shows "prints_value (array_text loop) p (pr_depth p) (array_render t)"
  unfolding array_text_def array_render_def append_text_simps
proof (rule prints_then_value [OF _ assms(1)])
  show "prints (deeper Suc (then_skip (emit 1 [0x5B]) 1)) p (Suc (pr_depth p)) (Some [0x5B])"
    using emit_prints [OF assms(1), of "[0x5B]" "[]" 1 "pr_depth p" 1] by (intro prints_deeper) simp
next
  fix p' assume p': "ready p'" "pr_depth p' = Suc (pr_depth p)" "pr_format p' = pr_format p"
  show "prints_value (and_then loop (deeper (\<lambda>d. d - 1) (emit 2 [0x5D, 0]))) p' (pr_depth p) (append_text t (Some [0x5D]))"
  proof (rule prints_then_value [OF loop [OF p'] ready_good [OF p'(1)]])
    fix p2 assume "ready p2" "pr_depth p2 = Suc (pr_depth p)"
    then have "prints_value (emit 2 ([0x5D] @ [0])) p2 (Suc (pr_depth p)) (Some [0x5D])"
      by (intro emit_value ready_good) simp_all
    then show "prints_value (deeper (\<lambda>d. d - 1) (emit 2 [0x5D, 0])) p2 (pr_depth p) (Some [0x5D])"
      using prints_value_deeper [of "emit 2 [0x5D, 0]" p2 "Suc (pr_depth p)" _ "\<lambda>d. d - 1"] by simp
  qed
qed

lemma object_prints:
  assumes "good p"
    and loop: "\<And>p'. ready p' \<Longrightarrow> pr_depth p' = Suc (pr_depth p) \<Longrightarrow> pr_format p' = pr_format p \<Longrightarrow>
      prints loop p' (Suc (pr_depth p)) t"
  shows "prints_value (object_text loop) p (pr_depth p) (object_render (pr_format p) (pr_depth p) t)"
  unfolding object_text_def object_render_def append_text_simps then_skip_deeper
proof (rule prints_then_value [OF _ assms(1)])
  let ?b = "0x7B # if_text (pr_format p) [0x0A]"
  have "prints (then_skip (emit (length ?b + 1) (?b @ [])) (length ?b)) p (pr_depth p) (Some ?b)"
    by (rule emit_prints [OF assms(1)]) simp_all
  then have "prints (deeper Suc (then_skip (emit (length ?b + 1) ?b) (length ?b))) p (Suc (pr_depth p)) (Some ?b)"
    by (intro prints_deeper) simp
  then show "prints (\<lambda>p. let len = if pr_format p then 2 else 1
      in deeper Suc (then_skip (emit (len + 1) (0x7B # (if pr_format p then [0x0A] else []))) len) p) p
      (Suc (pr_depth p)) (Some ?b)"
    by (rule prints_cong [THEN iffD1, rotated]) (simp add: if_text_def numeral_eq_Suc)
next
  fix p' assume p': "ready p'" "pr_depth p' = Suc (pr_depth p)" "pr_format p' = pr_format p"
  let ?e = "if_text (pr_format p) (tabs (pr_depth p)) @ [0x7D]"
  show "prints_value (and_then loop (deeper (\<lambda>d. d - 1) (\<lambda>p. emit (if pr_format p then pr_depth p + 1 else 2)
      ((if pr_format p then replicate (pr_depth p - 1) 0x09 else []) @ [0x7D, 0]) p))) p' (pr_depth p)
      (append_text t (Some ?e))"
  proof (rule prints_then_value [OF loop [OF p'] ready_good [OF p'(1)]])
    fix p2 assume p2: "ready p2" "pr_depth p2 = Suc (pr_depth p)" "pr_format p2 = pr_format p'"
    have "prints_value (emit (length ?e + 1) (?e @ [0])) p2 (Suc (pr_depth p)) (Some ?e)"
      using p2 by (intro emit_value ready_good) simp_all
    then have "prints_value (\<lambda>p. emit (if pr_format p then pr_depth p + 1 else 2)
        ((if pr_format p then replicate (pr_depth p - 1) 0x09 else []) @ [0x7D, 0]) p) p2 (Suc (pr_depth p)) (Some ?e)"
      by (rule prints_value_cong [THEN iffD1, rotated])
        (use p2 p'(3) in \<open>simp add: if_text_def tabs_def numeral_eq_Suc\<close>)
    then show "prints_value (deeper (\<lambda>d. d - 1) (\<lambda>p. emit (if pr_format p then pr_depth p + 1 else 2)
        ((if pr_format p then replicate (pr_depth p - 1) 0x09 else []) @ [0x7D, 0]) p)) p2 (pr_depth p) (Some ?e)"
      using prints_value_deeper [of _ p2 "Suc (pr_depth p)" _ "\<lambda>d. d - 1"] by fastforce
  qed
qed

lemma element_prints:
  assumes "ready p" "nonzero t" "prints_value val p (pr_depth p) t"
  shows "prints (element_text val goes_on) p (pr_depth p)
    (append_text t (Some (if_text goes_on (0x2C # if_text (pr_format p) [0x20]))))"
  unfolding element_text_def
proof (rule prints_then [OF prints_update [OF assms(3) ready_good [OF assms(1)]] ready_good [OF assms(1)]])
  fix p' assume p': "ready p'" "pr_depth p' = pr_depth p" "pr_format p' = pr_format p"
  let ?b = "0x2C # if_text (pr_format p) [0x20]"
  show "prints (\<lambda>p. if goes_on then let len = if pr_format p then 2 else 1
        in then_skip (emit (len + 1) (0x2C # (if pr_format p then [0x20] else []) @ [0])) len p
      else Some (True, p)) p' (pr_depth p) (Some (if_text goes_on ?b))"
  proof (cases goes_on)
    case True
    have "prints (then_skip (emit (length ?b + 1) (?b @ [0])) (length ?b)) p' (pr_depth p) (Some ?b)"
      using p' by (intro emit_prints ready_good) simp_all
    moreover have "if_text goes_on ?b = ?b" using True by (simp add: if_text_def)
    ultimately show ?thesis
      by (simp only:) (erule prints_cong [THEN iffD1, rotated], use True p'(3) in \<open>simp add: if_text_def numeral_eq_Suc\<close>)
  next
    case False
    then show ?thesis using prints_nothing [OF p'(1)] p'(2) by (simp add: if_text_def)
  qed
qed (use assms(2) in \<open>simp add: nonzero_def\<close>)

lemma prints_same:
  assumes "prints (then_skip (emit n (w @ z)) k) p d (Some w)" "f p = then_skip (emit n (w @ z)) k p"
  shows "prints f p d (Some w)"
  using assms(1) prints_cong [of f p "then_skip (emit n (w @ z)) k" d "Some w"] assms(2) by simp

lemma member_prints:
  assumes "ready p" "nonzero t"
    and val: "\<And>p'. ready p' \<Longrightarrow> pr_depth p' = pr_depth p \<Longrightarrow> pr_format p' = pr_format p \<Longrightarrow>
      prints_value val p' (pr_depth p) t"
  shows "prints (member_text key val goes_on) p (pr_depth p)
    (append_text (Some (if_text (pr_format p) (tabs (pr_depth p))))
    (append_text (Some (string_render key))
    (append_text (Some (0x3A # if_text (pr_format p) [0x09]))
    (append_text t (Some (if_text goes_on [0x2C] @ if_text (pr_format p) [0x0A]))))))"
  unfolding member_text_def
proof (rule prints_then [OF _ ready_good [OF assms(1)]])
  let ?d = "pr_depth p"
  show "prints (\<lambda>p. if pr_format p then then_skip (emit (pr_depth p) (replicate (pr_depth p) 0x09)) (pr_depth p) p
      else Some (True, p)) p ?d (Some (if_text (pr_format p) (tabs ?d)))"
  proof (cases "pr_format p")
    case True
    have "prints (then_skip (emit ?d (tabs ?d @ [])) ?d) p ?d (Some (tabs ?d))"
      using ready_good [OF assms(1)] by (intro emit_prints) (simp_all add: tabs_def)
    with True show ?thesis unfolding if_text_def by (simp only: if_True) (erule prints_same, simp add: tabs_def)
  next
    case False
    then show ?thesis using prints_nothing [OF assms(1)] by (simp add: if_text_def prints_def)
  qed
next
  let ?d = "pr_depth p"
  fix p1 assume p1: "ready p1" "pr_depth p1 = pr_depth p" "pr_format p1 = pr_format p"
  have str: "prints (then_update (print_string_ptr key)) p1 ?d (Some (string_render key))"
    using prints_update [OF string_prints [OF ready_good [OF p1(1)]] ready_good [OF p1(1)]] string_render_nonzero p1(2)
    by simp
  show "prints (and_then (then_update (print_string_ptr key))
     (and_then (\<lambda>p. let len = if pr_format p then 2 else 1
         in then_skip (emit len (0x3A # (if pr_format p then [0x09] else []))) len p)
     (and_then (then_update val)
       (\<lambda>p. let len = (if pr_format p then 1 else 0) + (if goes_on then 1 else 0)
         in then_skip (emit (len + 1)
              ((if goes_on then [0x2C] else []) @ (if pr_format p then [0x0A] else []) @ [0])) len p)))) p1 ?d
    (append_text (Some (string_render key))
    (append_text (Some (0x3A # if_text (pr_format p) [0x09]))
    (append_text t (Some (if_text goes_on [0x2C] @ if_text (pr_format p) [0x0A])))))"
  proof (rule prints_then [OF str ready_good [OF p1(1)]], rule prints_then)
    fix p2 assume p2: "ready p2" "pr_depth p2 = pr_depth p" "pr_format p2 = pr_format p1"
    let ?b = "0x3A # if_text (pr_format p) [0x09]"
    show "good p2" using p2(1) by (rule ready_good)
    have "prints (then_skip (emit (length ?b) (?b @ [])) (length ?b)) p2 ?d (Some ?b)"
      using p2 by (intro emit_prints ready_good) simp_all
    then show "prints (\<lambda>p. let len = if pr_format p then 2 else 1
        in then_skip (emit len (0x3A # (if pr_format p then [0x09] else []))) len p) p2 ?d (Some ?b)"
      by (rule prints_same) (use p1(3) p2(3) in \<open>simp add: if_text_def numeral_eq_Suc\<close>)
    fix p3 assume p3: "ready p3" "pr_depth p3 = pr_depth p" "pr_format p3 = pr_format p2"
    have "prints (then_update val) p3 ?d t"
      using prints_update [OF val [OF p3(1,2)] ready_good [OF p3(1)]] assms(2) p1(3) p2(3) p3(3)
      by (simp add: nonzero_def)
    then show "prints (and_then (then_update val)
        (\<lambda>p. let len = (if pr_format p then 1 else 0) + (if goes_on then 1 else 0)
          in then_skip (emit (len + 1)
              ((if goes_on then [0x2C] else []) @ (if pr_format p then [0x0A] else []) @ [0])) len p)) p3 ?d
      (append_text t (Some (if_text goes_on [0x2C] @ if_text (pr_format p) [0x0A])))"
    proof (rule prints_then [OF _ ready_good [OF p3(1)]])
      fix p4 assume p4: "ready p4" "pr_depth p4 = pr_depth p" "pr_format p4 = pr_format p3"
      let ?e = "if_text goes_on [0x2C] @ if_text (pr_format p) [0x0A]"
      have "prints (then_skip (emit (length ?e + 1) (?e @ [0])) (length ?e)) p4 ?d (Some ?e)"
        using p4 by (intro emit_prints ready_good) simp_all
      then show "prints (\<lambda>p. let len = (if pr_format p then 1 else 0) + (if goes_on then 1 else 0)
          in then_skip (emit (len + 1)
              ((if goes_on then [0x2C] else []) @ (if pr_format p then [0x0A] else []) @ [0])) len p) p4 ?d (Some ?e)"
        by (rule prints_same) (use p1(3) p2(3) p3(3) p4(3) in \<open>auto simp: if_text_def\<close>)
    qed
  qed
qed

lemma prints_value_if:
  "(c \<Longrightarrow> prints_value f p d s) \<Longrightarrow> (\<not> c \<Longrightarrow> prints_value g p d t) \<Longrightarrow>
    prints_value (\<lambda>p. if c then f p else g p) p d (if c then s else t)"
  by (cases c) (simp_all add: prints_value_def)

lemma value_prints:
  assumes "numbers_fit D" "good p" "prints_value (array_text elements) p (pr_depth p) arr"
    "prints_value (object_text members) p (pr_depth p) obj"
  shows "prints_value (value_text D t s x elements members) p (pr_depth p) (value_render D t s x arr obj)"
proof -
  have lits: "prints_value (emit 5 (lit ''null'' @ [0])) p (pr_depth p) (Some (lit ''null''))"
      "prints_value (emit 6 (lit ''false'' @ [0])) p (pr_depth p) (Some (lit ''false''))"
      "prints_value (emit 5 (lit ''true'' @ [0])) p (pr_depth p) (Some (lit ''true''))"
    by (rule emit_value [OF assms(2)]; simp add: lit_def)+
  have raw: "prints_value (\<lambda>p. case s of None \<Rightarrow> Some (False, p)
      | Some raw \<Rightarrow> emit (length (c_str raw) + 1) (c_str raw @ [0]) p) p (pr_depth p) (map_option c_str s)"
  proof (cases s)
    case None
    then show ?thesis using assms(2) by (auto simp: prints_value_def good_def)
  next
    case (Some r)
    then show ?thesis using emit_value [OF assms(2), of "c_str r" "length (c_str r) + 1"] by simp
  qed
  have none: "prints_value (\<lambda>p. Some (False, p)) p (pr_depth p) None"
    using assms(2) by (auto simp: prints_value_def good_def)
  show ?thesis unfolding value_text_def [abs_def] value_render_def Let_def
    by (intro prints_value_if lits raw none assms(3,4) number_prints [OF assms(1,2)] string_prints [OF assms(2)])
qed

lemma print_value_prints:
  "numbers_fit D \<Longrightarrow> good p \<Longrightarrow>
    prints_value (print_value D item) p (pr_depth p) (render D (pr_format p) (pr_depth p) item)"
  "numbers_fit D \<Longrightarrow> ready p \<Longrightarrow>
    prints (print_array_loop D cs) p (pr_depth p) (render_elements D (pr_format p) (pr_depth p) cs)"
  "numbers_fit D \<Longrightarrow> ready p \<Longrightarrow>
    prints (print_object_loop D cs) p (pr_depth p) (render_members D (pr_format p) (pr_depth p) cs)"
proof (induction D item and D cs and D cs arbitrary: p and p and p
    rule: print_value_print_array_loop_print_object_loop.induct)
  case (1 D cs t s i d n)
  show ?case unfolding print_value.simps render.simps
  proof (rule value_prints [OF 1(3,4)])
    show "prints_value (array_text (print_array_loop D cs)) p (pr_depth p)
        (array_render (render_elements D (pr_format p) (Suc (pr_depth p)) cs))"
    proof (rule array_prints [OF 1(4)])
      fix p' assume "ready p'" "pr_depth p' = Suc (pr_depth p)" "pr_format p' = pr_format p"
      then show "prints (print_array_loop D cs) p' (Suc (pr_depth p))
          (render_elements D (pr_format p) (Suc (pr_depth p)) cs)"
        using 1(1) [OF 1(3), of p'] by simp
    qed
    show "prints_value (object_text (print_object_loop D cs)) p (pr_depth p)
        (object_render (pr_format p) (pr_depth p) (render_members D (pr_format p) (Suc (pr_depth p)) cs))"
    proof (rule object_prints [OF 1(4)])
      fix p' assume "ready p'" "pr_depth p' = Suc (pr_depth p)" "pr_format p' = pr_format p"
      then show "prints (print_object_loop D cs) p' (Suc (pr_depth p))
          (render_members D (pr_format p) (Suc (pr_depth p)) cs)"
        using 1(2) [OF 1(3), of p'] by simp
    qed
  qed
next
  case (2 D)
  then show ?case by (simp add: prints_nothing)
next
  case (3 D c cs)
  show ?case unfolding print_array_loop.simps render_elements.simps
  proof (rule prints_then [OF element_prints [OF 3(4)] ready_good [OF 3(4)]])
    show "nonzero (render D (pr_format p) (pr_depth p) c)" using render_nonzero 3(3) by blast
    show "prints_value (print_value D c) p (pr_depth p) (render D (pr_format p) (pr_depth p) c)"
      using 3(1) [OF 3(3) ready_good [OF 3(4)]] .
    fix p' assume "ready p'" "pr_depth p' = pr_depth p" "pr_format p' = pr_format p"
    then show "prints (print_array_loop D cs) p' (pr_depth p) (render_elements D (pr_format p) (pr_depth p) cs)"
      using 3(2) [OF 3(3), of p'] by simp
  qed
next
  case (4 D)
  then show ?case by (simp add: prints_nothing)
next
  case (5 D c cs)
  show ?case unfolding print_object_loop.simps render_members.simps
  proof (rule prints_then [OF member_prints [OF 5(4)] ready_good [OF 5(4)]])
    show "nonzero (render D (pr_format p) (pr_depth p) c)" using render_nonzero 5(3) by blast
    fix p' assume p': "ready p'" "pr_depth p' = pr_depth p" "pr_format p' = pr_format p"
    then show "prints_value (print_value D c) p' (pr_depth p) (render D (pr_format p) (pr_depth p) c)"
      using 5(1) [OF 5(3) ready_good [OF p'(1)]] by simp
    from p' show "prints (print_object_loop D cs) p' (pr_depth p) (render_members D (pr_format p) (pr_depth p) cs)"
      using 5(2) [OF 5(3), of p'] by simp
  qed
qed

end
