(* ===== verification/Json_Roundtrip.thy ===== *)
theory Json_Roundtrip
  imports Json_Parse_Safety Json_Print_Spec
begin

text \<open>
  Parsing what was printed: the strings, then whole items, formatted and unformatted.
\<close>

section \<open>Reading at the offset\<close>

definition rest :: "parse_buffer \<Rightarrow> bytes" where
  "rest b = drop (buf_offset b) (content b)"

definition whole :: "parse_buffer \<Rightarrow> bool" where
  "whole b \<longleftrightarrow> buf_length b = length (content b)"

lemma advance_simps [simp]:
  "buf_offset (advance n b) = buf_offset b + n" "content (advance n b) = content b"
  "buf_length (advance n b) = buf_length b" "buf_depth (advance n b) = buf_depth b"
  "allocate (advance n b) = allocate b" "advance m (advance n b) = advance (n + m) b"
  "advance 0 b = b" "whole (advance n b) = whole b" "rest (advance n b) = drop n (rest b)"
  by (simp_all add: advance_def whole_def rest_def add.commute)

lemma can_access_rest: "whole b \<Longrightarrow> can_access_at_index b i \<longleftrightarrow> i < length (rest b)"
  by (auto simp: can_access_at_index_def whole_def rest_def)

lemma buffer_at_rest: "buffer_at b i = byte_at (rest b) i"
  by (auto simp: buffer_at_def byte_at_def rest_def)

lemma at_byte_rest: "whole b \<Longrightarrow> rest b = x # r \<Longrightarrow> at_byte b c = Some (x = c)"
  by (simp add: at_byte_def can_access_rest buffer_at_rest)

definition blank :: "bytes \<Rightarrow> bool" where
  "blank ws \<longleftrightarrow> (\<forall>w \<in> set ws. w \<le> 32)"

lemma skip_blank:
  assumes "whole b" "rest b = ws @ x # r" "blank ws" "x > 32"
  shows "buffer_skip_whitespace b = Some (advance (length ws) b)"
proof -
  have "skip_spaces b = Some (advance (length ws) b)"
    using assms
  proof (induction ws arbitrary: b)
    case Nil
    then have "\<not> x \<le> 32" by (simp add: not_le)
    with Nil show ?case
      by (subst skip_spaces.simps) (auto simp: can_access_rest buffer_at_rest dest: leD)
  next
    case (Cons w ws)
    then have "skip_spaces (advance 1 b) = Some (advance (length ws) (advance 1 b))"
      by (intro Cons.IH) (simp_all add: blank_def)
    with Cons.prems show ?case
      by (subst skip_spaces.simps) (simp add: can_access_rest buffer_at_rest blank_def)
  qed
  moreover have "buf_offset b + length ws < length (content b)"
    using arg_cong [OF assms(2), of length] by (simp add: rest_def)
  ultimately show ?thesis using assms(1) by (simp add: buffer_skip_whitespace_def whole_def)
qed

lemma skip_end:
  assumes "whole b" "rest b = [0]"
  shows "buffer_skip_whitespace b = Some b"
proof -
  have "length (content b) = buf_offset b + 1" using arg_cong [OF assms(2), of length] by (simp add: rest_def)
  moreover have "skip_spaces (advance 1 b) = Some (advance 1 b)"
    using assms by (subst skip_spaces.simps) (simp add: can_access_rest)
  then have "skip_spaces b = Some (advance 1 b)"
    using assms by (subst skip_spaces.simps) (simp add: can_access_rest buffer_at_rest)
  ultimately show ?thesis using assms(1) by (simp add: buffer_skip_whitespace_def whole_def advance_def)
qed

section \<open>Strings\<close>

lemma byte_at_drop: "drop p mem = xs \<Longrightarrow> i < length xs \<Longrightarrow> byte_at mem (p + i) = Some (xs ! i)"
  by (auto simp: byte_at_def)

lemma unat_wide: "unat (ucast (b :: byte) :: 32 word) = unat b"
proof -
  have "unat b < 2 ^ LENGTH(8)" by (rule unsigned_less)
  then show ?thesis by (simp add: unsigned_ucast_eq take_bit_nat_eq_self)
qed

lemma hex_digit_char:
  assumes "n \<le> 0xF"
  shows "hex_digit (hex_char n) = Some (ucast n)"
proof -
  have n: "unat n \<le> 15" using assms by (simp add: word_le_nat_alt)
  show ?thesis
  proof (cases "n < 10")
    case True
    then have u: "unat (0x30 + n) = 0x30 + unat n" by (simp add: word_less_nat_alt unat_word_ariths)
    then have "ucast (0x30 + n) = (0x30 + ucast n :: 32 word)" using n by (simp add: word_unat_eq_iff unat_word_ariths unat_wide)
    with True u show ?thesis
      by (simp add: hex_char_def hex_digit_def word_le_nat_alt word_less_nat_alt)
  next
    case False
    then have u: "unat (0x57 + n) = 0x57 + unat n" "10 \<le> unat n" using n by (simp_all add: word_less_nat_alt unat_word_ariths)
    then have "ucast (0x57 + n) = (0x57 + ucast n :: 32 word)" using n by (simp add: word_unat_eq_iff unat_word_ariths unat_wide)
    with False u n show ?thesis
      by (simp add: hex_char_def hex_digit_def word_le_nat_alt word_less_nat_alt)
  qed
qed

lemma nibble_sum: "push_bit 4 (ucast (drop_bit 4 c)) + ucast (c AND 0x0F) = (ucast (c :: byte) :: 32 word)"
proof -
  have c: "unat c < 256" using unsigned_less [of c] by simp
  have "c AND 0x0F = take_bit 4 c" by (simp add: take_bit_eq_mask mask_eq_decr_exp)
  then have "unat (c AND 0x0F) = unat c mod 16" by (simp only: unsigned_take_bit_eq) (simp add: take_bit_eq_mod)
  then show ?thesis using c
    by (simp add: word_unat_eq_iff unat_word_ariths push_bit_eq_mult drop_bit_eq_div unat_div_distrib unat_wide)
qed

lemma escape_cases:
  obtains (plain) "escape_byte c = [c]" "c \<noteq> QUOT" "c \<noteq> BACKSLASH"
  | (simple) x where "escape_byte c = [BACKSLASH, x]" "simple_escape x = Some c"
  | (unicode) "c < 32" "escape_byte c = [BACKSLASH, 0x75, 0x30, 0x30, hex_char (drop_bit 4 c), hex_char (c AND 0x0F)]"
proof -
  consider "c > 31" "c \<noteq> QUOT" "c \<noteq> BACKSLASH" | "c = QUOT" | "c = BACKSLASH" | "c = 8" | "c = 12" | "c = 10" | "c = 13" | "c = 9"
    | "\<not> c > 31" "c \<noteq> QUOT" "c \<noteq> BACKSLASH" "c \<noteq> 8" "c \<noteq> 12" "c \<noteq> 10" "c \<noteq> 13" "c \<noteq> 9" by blast
  then show thesis
  proof cases
    case 1 then show ?thesis by (intro plain) (simp_all add: escape_byte_def)
  next
    case 2 then show ?thesis by (intro simple [where x = QUOT]) (simp_all add: escape_byte_def simple_escape_def)
  next
    case 3 then show ?thesis by (intro simple [where x = BACKSLASH]) (simp_all add: escape_byte_def simple_escape_def)
  next
    case 4 then show ?thesis by (intro simple [where x = "0x62"]) (simp_all add: escape_byte_def simple_escape_def)
  next
    case 5 then show ?thesis by (intro simple [where x = "0x66"]) (simp_all add: escape_byte_def simple_escape_def)
  next
    case 6 then show ?thesis by (intro simple [where x = "0x6E"]) (simp_all add: escape_byte_def simple_escape_def)
  next
    case 7 then show ?thesis by (intro simple [where x = "0x72"]) (simp_all add: escape_byte_def simple_escape_def)
  next
    case 8 then show ?thesis by (intro simple [where x = "0x74"]) (simp_all add: escape_byte_def simple_escape_def)
  next
    case 9
    then have "c < 32" by (simp add: word_less_nat_alt word_le_nat_alt not_less)
    with 9 show ?thesis by (intro unicode) (simp_all add: escape_byte_def)
  qed
qed

lemma hex4_small:
  assumes "c < 32" "drop p mem = 0x30 # 0x30 # hex_char (drop_bit 4 c) # hex_char (c AND 0x0F) # r"
  shows "parse_hex4 mem p = Some (ucast c)"
proof -
  have "byte_at mem p = Some 0x30" "byte_at mem (p + 1) = Some 0x30"
    "byte_at mem (p + 1 + 1) = Some (hex_char (drop_bit 4 c))" "byte_at mem (p + 1 + 1 + 1) = Some (hex_char (c AND 0x0F))"
    using byte_at_drop [OF assms(2), of 0] byte_at_drop [OF assms(2), of 1] byte_at_drop [OF assms(2), of 2]
      byte_at_drop [OF assms(2), of 3] by (simp_all add: numeral_eq_Suc)
  moreover have "hex_digit 0x30 = Some 0" by (simp add: hex_digit_def)
  moreover have "\<exists>h l. hex_digit (hex_char (drop_bit 4 c)) = Some h \<and> hex_digit (hex_char (c AND 0x0F)) = Some l \<and>
      push_bit 4 h + l = ucast c"
    using hex_digit_char [OF nibbles(1)] hex_digit_char [OF nibbles(2)] nibble_sum [of c] by blast
  ultimately show ?thesis by (auto simp: parse_hex4_def numeral_eq_Suc)
qed

lemma utf8_small:
  assumes "c < 32"
  shows "utf8_encode (ucast (ucast (c :: byte) :: 32 word)) = Some [c]"
proof -
  let ?w = "ucast (ucast c :: 32 word) :: 64 word"
  have c: "unat c < 32" using assms by (simp add: word_less_nat_alt)
  then have u: "unat ?w = unat c"
    by (simp add: unsigned_ucast_eq [where w = "ucast c :: 32 word"] unat_wide take_bit_nat_eq_self)
  have "?w AND 0x7F = take_bit 7 ?w" by (simp add: take_bit_eq_mask mask_eq_decr_exp)
  also have "unat (take_bit 7 ?w) = unat ?w" using c u by (simp only: unsigned_take_bit_eq) (simp add: take_bit_nat_eq_self)
  then have "take_bit 7 ?w = ?w" by (simp only: word_unat_eq_iff)
  finally have "?w AND 0x7F = ?w" .
  moreover have "unat (ucast ?w :: byte) = unat c" using c u
    by (simp add: unsigned_ucast_eq [where w = ?w] take_bit_nat_eq_self)
  then have "ucast ?w = c" by (simp add: word_unat_eq_iff)
  moreover have "?w < 0x80" using c u by (simp add: word_less_nat_alt)
  ultimately show ?thesis by (simp add: utf8_encode_def)
qed

lemma utf16_small:
  assumes "c < 32" "p + 6 \<le> e"
    "drop p mem = BACKSLASH # 0x75 # 0x30 # 0x30 # hex_char (drop_bit 4 c) # hex_char (c AND 0x0F) # r"
  shows "utf16_literal_to_utf8 mem p e = Some (6, [c])"
proof -
  have "drop (p + 2) mem = drop 2 (drop p mem)" by (simp add: add.commute)
  then have hex: "parse_hex4 mem (p + 2) = Some (ucast c)" using hex4_small [OF assms(1), of "p + 2" mem r] assms(3) by simp
  have "(ucast c :: 32 word) < 32" using assms(1) by (simp add: word_less_nat_alt unat_wide)
  then have "\<not> 0xDC00 \<le> (ucast c :: 32 word)" "\<not> 0xD800 \<le> (ucast c :: 32 word)"
    by (simp_all add: word_less_nat_alt word_le_nat_alt)
  then show ?thesis using hex assms(2) utf8_small [OF assms(1)] by (simp add: utf16_literal_to_utf8_def utf16_code_def)
qed

lemma drop_nth: "drop p mem = x # xs \<Longrightarrow> p < length mem \<and> mem ! p = x \<and> drop (p + 1) mem = xs"
  by (metis Cons_nth_drop_Suc Suc_eq_plus1 drop_eq_Nil2 linorder_not_le list.distinct(1) list.inject)

lemma string_end_plain:
  assumes "whole b"
  shows "drop p (content b) = xs @ r \<Longrightarrow> \<forall>x \<in> set xs. x \<noteq> QUOT \<and> x \<noteq> BACKSLASH \<Longrightarrow>
    string_end b p n = string_end b (p + length xs) n"
proof (induction xs arbitrary: p)
  case (Cons x xs)
  then have d: "p < length (content b)" "content b ! p = x" "drop (p + 1) (content b) = xs @ r"
    using drop_nth [of p "content b" x] by simp_all
  then have "string_end b p n = string_end b (p + 1) n"
    using assms Cons.prems(2) by (subst string_end.simps) (simp add: whole_def)
  then show ?case using Cons.IH [OF d(3)] Cons.prems(2) by simp
qed simp

lemma string_end_escape:
  assumes "whole b" "drop p (content b) = BACKSLASH # x # r"
  shows "string_end b p n = string_end b (p + 2) (n + 1)"
proof -
  note d = drop_nth [OF assms(2)]
  have "p + 1 < length (content b)" using drop_nth [of "p + 1" "content b" x r] d by simp
  then show ?thesis using assms(1) d by (subst string_end.simps) (simp add: whole_def)
qed

lemma hex_char_plain:
  assumes "n \<le> 0xF"
  shows "hex_char n \<noteq> QUOT" "hex_char n \<noteq> BACKSLASH"
  using hex_digit_plain [of "hex_char n"] hex_digit_char [OF assms] by auto

lemma string_end_escaped:
  assumes "whole b"
  shows "drop p (content b) = escape_loop s @ QUOT # r \<Longrightarrow>
    \<exists>m. string_end b p n = Some (Some (p + length (escape_loop s), n + m)) \<and> length s + m \<le> length (escape_loop s)"
proof (induction s arbitrary: p n)
  case Nil
  then have "p < length (content b)" "content b ! p = QUOT" using drop_nth [of p "content b" QUOT r] by auto
  then show ?case using assms by (subst string_end.simps) (simp add: whole_def)
next
  case (Cons c s)
  then have d: "drop p (content b) = escape_byte c @ escape_loop s @ QUOT # r" by simp
  then have d': "drop (p + length (escape_byte c)) (content b) = escape_loop s @ QUOT # r"
    by (metis append_eq_conv_conj drop_drop add.commute)
  have step: "\<exists>m \<le> length (escape_byte c) - 1. string_end b p n = string_end b (p + length (escape_byte c)) (n + m)"
  proof (cases c rule: escape_cases)
    case plain
    then show ?thesis using string_end_plain [OF assms d, of n] by simp
  next
    case (simple x)
    then show ?thesis using string_end_escape [OF assms, of p x _ n] d by (intro exI [of _ 1]) simp
  next
    case unicode
    let ?h = "[0x30, 0x30, hex_char (drop_bit 4 c), hex_char (c AND 0x0F)]"
    have "string_end b p n = string_end b (p + 2) (n + 1)"
      using string_end_escape [OF assms, of p "0x75" _ n] d unicode by simp
    also have "drop (p + 2) (content b) = drop 2 (drop p (content b))" by (simp add: add.commute)
    then have "drop (p + 2) (content b) = ?h @ escape_loop s @ QUOT # r" using d unicode by simp
    then have "string_end b (p + 2) (n + 1) = string_end b (p + 2 + length ?h) (n + 1)"
      by (rule string_end_plain [OF assms]) (use hex_char_plain [OF nibbles(1)] hex_char_plain [OF nibbles(2)] in auto)
    finally show ?thesis using unicode by (intro exI [of _ 1]) (simp add: numeral_eq_Suc)
  qed
  then obtain m where m: "m \<le> length (escape_byte c) - 1"
      "string_end b p n = string_end b (p + length (escape_byte c)) (n + m)" by blast
  obtain m' where "string_end b (p + length (escape_byte c)) (n + m) =
      Some (Some (p + length (escape_byte c) + length (escape_loop s), n + m + m'))"
      "length s + m' \<le> length (escape_loop s)"
    using Cons.IH [OF d'] by blast
  moreover have "length (c # s) + (m + m') \<le> length (escape_loop (c # s))"
  proof -
    have "0 < length (escape_byte c)" by (simp add: escape_byte_def)
    moreover have "m \<le> length (escape_byte c) - 1" "length s + m' \<le> length (escape_loop s)" by fact+
    ultimately have "1 + length s + (m + m') \<le> length (escape_byte c) + length (escape_loop s)" by linarith
    then show ?thesis by simp
  qed
  ultimately show ?case using m(2) by (intro exI [of _ "m + m'"]) (simp add: add.assoc)
qed

lemma decode_escaped:
  "drop p mem = escape_loop s @ QUOT # r \<Longrightarrow> e = p + length (escape_loop s) \<Longrightarrow> length out + length s \<le> cap \<Longrightarrow>
    decode_string mem e cap p out = Some (e, Some (out @ s))"
proof (induction s arbitrary: p out)
  case Nil
  then show ?case by (subst decode_string.simps) simp
next
  case (Cons c s)
  let ?n = "length (escape_byte c)"
  have d: "drop p mem = escape_byte c @ escape_loop s @ QUOT # r" using Cons.prems(1) by simp
  then have "drop (p + ?n) mem = escape_loop s @ QUOT # r" by (metis append_eq_conv_conj drop_drop add.commute)
  then have IH: "decode_string mem e cap (p + ?n) (out @ [c]) = Some (e, Some (out @ c # s))"
    using Cons.IH [of "p + ?n" "out @ [c]"] Cons.prems(2,3) by (simp add: add.assoc)
  have put: "put cap out [c] = Some (out @ [c])" using Cons.prems(3) by (simp add: put_def)
  have p: "p < e" using Cons.prems(2) by (simp add: escape_byte_length)
  show ?case
  proof (cases c rule: escape_cases)
    case plain
    then show ?thesis using IH put p drop_nth [of p mem c] d by (subst decode_string.simps) simp
  next
    case (simple x)
    then have "mem ! p = BACKSLASH" "p < length mem" "mem ! (p + 1) = x" "p + 1 < length mem"
      using drop_nth [of p mem BACKSLASH] drop_nth [of "p + 1" mem x] d by auto
    then show ?thesis using IH put p simple by (subst decode_string.simps) simp
  next
    case unicode
    then have "mem ! p = BACKSLASH" "p < length mem" "mem ! (p + 1) = 0x75" "p + 1 < length mem"
      using drop_nth [of p mem BACKSLASH] drop_nth [of "p + 1" mem "0x75"] d by auto
    moreover have "utf16_literal_to_utf8 mem p e = Some (6, [c])"
      by (rule utf16_small) (use unicode d Cons.prems(2) in auto)
    moreover have "simple_escape 0x75 = None" by (simp add: simple_escape_def)
    moreover have "decode_string mem e cap (p + 6) (out @ [c]) = Some (e, Some (out @ c # s))"
      using IH unicode by (simp add: numeral_eq_Suc)
    ultimately show ?thesis using put p by (subst decode_string.simps) simp
  qed
qed

text \<open>A string literal as it is printed, read back.\<close>

lemma parse_printed_string:
  assumes "whole b" "rest b = string_render (Some s) @ r" "0 \<notin> set s" "\<And>n. allocate b n"
  shows "parse_string item b =
    Some (Some (set_valuestring (Some s) (set_type cJSON_String item)), advance (length (string_render (Some s))) b)"
proof -
  let ?p = "buf_offset b + 1" and ?esc = "escape_loop s"
  have c: "c_str s = s" using assms(3) by (auto simp: c_str_def takeWhile_eq_all_conv)
  have d: "drop (buf_offset b) (content b) = QUOT # ?esc @ QUOT # r"
    using assms(2) c by (simp add: rest_def string_render_def)
  have q: "buffer_at b 0 = Some QUOT" using d by (simp add: buffer_at_rest rest_def)
  have d1: "drop ?p (content b) = ?esc @ QUOT # r" using drop_nth [OF d] by simp
  obtain m where m: "string_end b ?p 0 = Some (Some (?p + length ?esc, m))" "length s + m \<le> length ?esc"
    using string_end_escaped [OF assms(1) d1, of 0] by auto
  have "decode_string (content b) (?p + length ?esc) cap ?p [] = Some (?p + length ?esc, Some s)" if "length s \<le> cap" for cap
    using decode_escaped [OF d1 refl, of "[]" cap] that by simp
  then show ?thesis using q m assms(4)
    by (simp add: parse_string_def put_def string_render_def c advance_def)
qed

section \<open>Numbers and words\<close>

text \<open>
  The text that is printed for a number is one that \<open>strtod\<close> reads back, as a whole, to the
  same number. \<open>sprintf\<close> with 17 digits gives such a text for every finite double.
\<close>

definition number_returns :: "'n doubles \<Rightarrow> 'n \<Rightarrow> bool" where
  "number_returns D x \<longleftrightarrow>
     (let t = number_text D x
      in t \<noteq> [] \<and> (hd t = 0x2D \<or> 0x30 \<le> hd t \<and> hd t \<le> 0x39) \<and> (\<forall>c \<in> set t. number_char c) \<and>
         length t \<le> 63 \<and> strtod D t = (x, length t))"

lemma number_c_string_rest:
  assumes "whole b"
  shows "drop i (rest b) = xs @ y # r \<Longrightarrow> \<forall>c \<in> set xs. number_char c \<Longrightarrow> \<not> number_char y \<Longrightarrow>
    length xs \<le> n \<Longrightarrow> number_c_string b n i = Some xs"
proof (induction xs arbitrary: i n)
  case Nil
  then have "i < length (rest b)" "rest b ! i = y" using drop_nth [of i "rest b"] by auto
  with Nil assms show ?case by (cases n) (simp_all add: can_access_rest buffer_at_rest)
next
  case (Cons x xs)
  then have "i < length (rest b)" "rest b ! i = x" "drop (i + 1) (rest b) = xs @ y # r"
    using drop_nth [of i "rest b" x] by auto
  moreover obtain m where "n = Suc m" using Cons.prems(4) by (cases n) auto
  ultimately show ?case using Cons.IH [of "i + 1" m] Cons.prems assms by (simp add: can_access_rest buffer_at_rest)
qed

lemma parse_printed_number:
  assumes "whole b" "rest b = number_text D x @ y # r" "\<not> number_char y" "number_returns D x"
  shows "parse_number D item b =
    Some (Some (set_type cJSON_Number (set_valueint (saturate D x) (set_valuedouble x item))),
          advance (length (number_text D x)) b)"
proof -
  note n = assms(4) [unfolded number_returns_def Let_def]
  have "number_c_string b 63 0 = Some (number_text D x)"
    using number_c_string_rest [OF assms(1), of 0 _ y r 63] assms(2,3) n by simp
  then show ?thesis using n by (simp add: parse_number_def)
qed

lemma starts_with_here: "drop p mem = w @ r \<Longrightarrow> starts_with mem p w = Some True"
proof (induction w arbitrary: p)
  case (Cons x w)
  then show ?case using drop_nth [of p mem x] by simp
qed simp

lemma at_word_here:
  assumes "whole b" "rest b = w @ r" "w \<noteq> []"
  shows "at_word b w = Some True"
proof -
  have "buf_offset b + length w \<le> length (content b)"
    using arg_cong [OF assms(2), of length] assms(3) by (cases w) (simp_all add: rest_def)
  then show ?thesis
    using assms starts_with_here [of "buf_offset b" "content b" w r]
    by (auto simp: at_word_def can_read_def whole_def rest_def)
qed

lemma starts_with_other: "rest b = x # r \<Longrightarrow> x \<noteq> y \<Longrightarrow> starts_with (content b) (buf_offset b) (y # ws) = Some False"
  using drop_nth [of "buf_offset b" "content b" x r] by (simp add: rest_def)

lemma at_word_other: "rest b = x # r \<Longrightarrow> w = y # ws \<Longrightarrow> x \<noteq> y \<Longrightarrow> at_word b w = Some False"
  using starts_with_other [of b x r y ws] by (simp add: at_word_def)

lemma read_first: "whole b \<Longrightarrow> rest b = x # r \<Longrightarrow> can_access_at_index b 0 \<and> buffer_at b 0 = Some x"
  by (simp add: can_access_rest buffer_at_rest)

text \<open>The choice that \<open>parse_value\<close> makes, when the text does not start with a word.\<close>

lemma value_body_char:
  assumes "whole b" "rest b = x # r" "x \<noteq> 0x6E" "x \<noteq> 0x66" "x \<noteq> 0x74"
  shows "value_body D arr obj item b =
    (if x = QUOT then parse_string item b
     else if x = 0x2D \<or> 0x30 \<le> x \<and> x \<le> 0x39 then parse_number D item b
     else if x = 0x5B then arr item b
     else if x = 0x7B then obj item b
     else Some (None, b))"
proof -
  have "at_word b (lit ''null'') = Some False" "at_word b (lit ''false'') = Some False" "at_word b (lit ''true'') = Some False"
    using at_word_other [OF assms(2)] assms(3-5) by (simp_all add: lit_def)
  then show ?thesis using read_first [OF assms(1,2)] by (simp add: value_body_def)
qed

lemma value_body_words:
  assumes "whole b"
  shows "rest b = lit ''null'' @ r \<Longrightarrow> value_body D arr obj item b = Some (Some (set_type cJSON_NULL item), advance 4 b)"
    "rest b = lit ''false'' @ r \<Longrightarrow> value_body D arr obj item b = Some (Some (set_type cJSON_False item), advance 5 b)"
    "rest b = lit ''true'' @ r \<Longrightarrow>
      value_body D arr obj item b = Some (Some (set_valueint 1 (set_type cJSON_True item)), advance 4 b)"
proof -
  show "rest b = lit ''null'' @ r \<Longrightarrow> value_body D arr obj item b = Some (Some (set_type cJSON_NULL item), advance 4 b)"
    using at_word_here [OF assms, of "lit ''null''" r] by (simp add: value_body_def lit_def)
  show "value_body D arr obj item b = Some (Some (set_type cJSON_False item), advance 5 b)" if r: "rest b = lit ''false'' @ r"
    using at_word_here [OF assms r, unfolded lit_def] at_word_other [of b _ _ "lit ''null''"] r by (simp add: value_body_def lit_def)
  show "value_body D arr obj item b = Some (Some (set_valueint 1 (set_type cJSON_True item)), advance 4 b)"
    if r: "rest b = lit ''true'' @ r"
    using at_word_here [OF assms r, unfolded lit_def] at_word_other [of b _ _ "lit ''null''"] at_word_other [of b _ _ "lit ''false''"] r
    by (simp add: value_body_def lit_def)
qed

section \<open>Canonical items\<close>

text \<open>
  The items that the parser can return, with arrays and objects nested at most \<open>h\<close> deep and
  numbers that print faithfully: only the fields of the type are set, the elements of an array
  have no name, and the members of an object have one.
\<close>

inductive canonical :: "'n doubles \<Rightarrow> nat \<Rightarrow> 'n cJSON \<Rightarrow> bool" for D :: "'n doubles" where
  canonical_null: "canonical D h (Item [] cJSON_NULL None 0 (dbl_zero D) k)"
| canonical_false: "canonical D h (Item [] cJSON_False None 0 (dbl_zero D) k)"
| canonical_true: "canonical D h (Item [] cJSON_True None 1 (dbl_zero D) k)"
| canonical_number: "number_returns D x \<Longrightarrow> canonical D h (Item [] cJSON_Number None (saturate D x) x k)"
| canonical_string: "0 \<notin> set s \<Longrightarrow> canonical D h (Item [] cJSON_String (Some s) 0 (dbl_zero D) k)"
| canonical_array: "\<forall>c \<in> set cs. jname c = None \<and> canonical D h c \<Longrightarrow>
    canonical D (Suc h) (Item cs cJSON_Array None 0 (dbl_zero D) k)"
| canonical_object: "\<forall>c \<in> set cs. (\<exists>s. jname c = Some s \<and> 0 \<notin> set s) \<and> canonical D h c \<Longrightarrow>
    canonical D (Suc h) (Item cs cJSON_Object None 0 (dbl_zero D) k)"

text \<open>A rendered item starts with an ASCII character that is neither blank nor a closing bracket.\<close>

definition starts :: "bytes \<Rightarrow> bool" where
  "starts w \<longleftrightarrow> w \<noteq> [] \<and> hd w > 32 \<and> hd w < 0x80 \<and> hd w \<noteq> 0x5D \<and> hd w \<noteq> 0x7D"

lemma kinds: "cJSON_NULL AND 0xFF = cJSON_NULL" "cJSON_False AND 0xFF = cJSON_False" "cJSON_True AND 0xFF = cJSON_True"
  "cJSON_Number AND 0xFF = cJSON_Number" "cJSON_String AND 0xFF = cJSON_String" "cJSON_Array AND 0xFF = cJSON_Array"
  "cJSON_Object AND 0xFF = cJSON_Object"
  by (simp_all add: json_type_defs)

lemma value_render_kinds:
  "value_render D cJSON_NULL s x arr obj = Some (lit ''null'')"
  "value_render D cJSON_False s x arr obj = Some (lit ''false'')"
  "value_render D cJSON_True s x arr obj = Some (lit ''true'')"
  "value_render D cJSON_Number s x arr obj = Some (number_text D x)"
  "value_render D cJSON_String s x arr obj = Some (string_render s)"
  "value_render D cJSON_Array s x arr obj = arr"
  "value_render D cJSON_Object s x arr obj = obj"
  by (simp_all add: value_render_def kinds) (simp_all add: json_type_defs)

lemma append_text_Some: "append_text s t = Some w \<longleftrightarrow> (\<exists>a b. s = Some a \<and> t = Some b \<and> w = a @ b)"
  by (auto simp: append_text_def split: bind_splits)

lemma render_starts:
  assumes "canonical D h item" "render D fmt d item = Some w"
  shows "starts w"
  using assms
proof cases
  case (canonical_number x k)
  then have "number_returns D x" "w = number_text D x" using assms(2) by (simp_all add: value_render_kinds)
  moreover have "c \<le> 32 \<or> c \<ge> 0x80 \<or> c = 0x5D \<or> c = 0x7D \<Longrightarrow> \<not> (c = 0x2D \<or> 0x30 \<le> c \<and> c \<le> 0x39)" for c :: byte
    by (auto simp: word_le_nat_alt)
  ultimately show ?thesis
    by (simp add: starts_def number_returns_def Let_def) (metis not_le)
qed (auto simp: value_render_kinds lit_def starts_def string_render_def array_render_def object_render_def)

section \<open>Arrays and objects\<close>

definition reading :: "nat \<Rightarrow> parse_buffer \<Rightarrow> bool" where
  "reading h b \<longleftrightarrow> whole b \<and> (\<forall>n. allocate b n) \<and> buf_depth b + h \<le> CJSON_NESTING_LIMIT"

lemma reading_advance [simp]: "reading h (advance n b) = reading h b"
  by (simp add: reading_def)

lemma readingD: "reading h b \<Longrightarrow> whole b" "reading h b \<Longrightarrow> allocate b n"
  by (simp_all add: reading_def)

text \<open>What is to be shown of an item, and what the loops need of the items they read.\<close>

definition reads_back :: "'n doubles \<Rightarrow> nat \<Rightarrow> 'n cJSON \<Rightarrow> bool" where
  "reads_back D h item \<longleftrightarrow>
     (\<forall>fmt d b w y r n t. render D fmt d item = Some w \<longrightarrow> reading h b \<longrightarrow> rest b = w @ y # r \<longrightarrow>
        \<not> number_char y \<longrightarrow> 3 * length (rest b) \<le> n \<longrightarrow>
        parse_value D n (Item [] t None 0 (dbl_zero D) (jname item)) b = Some (Some item, advance (length w) b))"

lemma reads_backD:
  "reads_back D h item \<Longrightarrow> render D fmt d item = Some w \<Longrightarrow> reading h b \<Longrightarrow> rest b = w @ y # r \<Longrightarrow>
    \<not> number_char y \<Longrightarrow> 3 * length (rest b) \<le> n \<Longrightarrow>
    parse_value D n (Item [] t None 0 (dbl_zero D) (jname item)) b = Some (Some item, advance (length w) b)"
  unfolding reads_back_def by blast

lemma rest_further: "rest (advance i b) = w @ r \<Longrightarrow> rest (advance (i + length w) b) = r"
  by (metis advance_simps(6) advance_simps(9) append_eq_conv_conj)

lemma separators: "\<not> number_char 0x2C" "\<not> number_char 0x5D" "\<not> number_char 0x7D" "\<not> number_char 0x0A" "\<not> number_char 0"
  by (simp_all add: number_char_def lit_def)

lemma blank_separates: "c \<le> 32 \<Longrightarrow> \<not> number_char c"
  by (auto simp: number_char_def lit_def word_le_nat_alt)

lemma blanks [simp]: "blank []" "blank (if_text fmt [0x20])" "blank (if_text fmt [0x0A])" "blank (if_text fmt [0x09])"
  "blank (if_text fmt (tabs d))" "blank (ws @ ws') \<longleftrightarrow> blank ws \<and> blank ws'"
  by (auto simp: blank_def if_text_def tabs_def)

lemma skip_to:
  assumes "whole b" "rest b = ws @ w @ r" "blank ws" "starts w"
  shows "buffer_skip_whitespace b = Some (advance (length ws) b)"
  using skip_blank [OF assms(1), of ws "hd w" "tl w @ r"] assms by (simp add: starts_def)

lemma loop_end_close:
  assumes "whole b" "rest b = ws @ y # r" "blank ws" "y > 32" "y \<noteq> 0x2C"
  shows "loop_end y loop cs b = Some (Some cs, advance (length ws) b)"
  using skip_blank [OF assms(1-4)] at_byte_rest [of "advance (length ws) b" y r] assms
  by (simp add: loop_end_def)

lemma loop_end_comma:
  assumes "whole b" "rest b = 0x2C # r"
  shows "loop_end y loop cs b = loop cs b"
  using skip_blank [of b "[]" "0x2C" r] at_byte_rest [of b "0x2C" r] assms
  by (simp add: loop_end_def)

lemma array_loop_reads:
  assumes "\<forall>c \<in> set cs. jname c = None \<and> canonical D h c \<and> reads_back D h c"
  shows "cs \<noteq> [] \<Longrightarrow> render_elements D fmt d cs = Some w \<Longrightarrow> reading h b \<Longrightarrow> rest b = x # ws @ w @ 0x5D # r \<Longrightarrow>
    blank ws \<Longrightarrow> 3 * length (rest b) \<le> n + 2 \<Longrightarrow>
    array_loop D n acc b = Some (Some (acc @ cs), advance (1 + length ws + length w) b)"
  using assms
proof (induction cs arbitrary: acc b w ws x n)
  case (Cons c cs)
  from Cons.prems(2) obtain wc we where w: "render D fmt d c = Some wc" "render_elements D fmt d cs = Some we"
      "w = wc @ if_text (cs \<noteq> []) (0x2C # if_text fmt [0x20]) @ we"
    by (auto simp: append_text_Some)
  have c: "jname c = None" "starts wc" "reads_back D h c" using Cons.prems(7) render_starts [OF _ w(1)] by auto
  obtain m where n: "n = Suc m" using Cons.prems(4,6) by (cases n) auto
  let ?b1 = "advance (1 + length ws) b" and ?b2 = "advance (1 + length ws + length wc) b"
  have skip: "buffer_skip_whitespace (advance 1 b) = Some ?b1"
    using skip_to [of "advance 1 b" ws wc] Cons.prems(3-5) w(3) c(2) readingD(1) by auto
  obtain y r' where y: "rest ?b1 = wc @ y # r'" "\<not> number_char y"
      "cs = [] \<Longrightarrow> y = 0x5D" "cs \<noteq> [] \<Longrightarrow> y = 0x2C \<and> r' = if_text fmt [0x20] @ we @ 0x5D # r"
    using Cons.prems(4) w(2,3) separators by (cases cs) (auto simp: if_text_def)
  have val: "parse_value D m (cJSON_New_Item D) ?b1 = Some (Some c, ?b2)"
    using reads_backD [OF c(3) w(1) _ y(1,2), of m cJSON_Invalid] Cons.prems(3,4,6) n c(1)
    by (simp add: cJSON_New_Item_def)
  have r2: "rest ?b2 = y # r'" using rest_further [OF y(1)] by simp
  have fuel: "3 * length (rest ?b2) \<le> m + 2" using Cons.prems(6) n by simp
  have step: "array_loop D n acc b = loop_end 0x5D (array_loop D m) (acc @ [c]) ?b2"
    using skip val Cons.prems(3) readingD(2) by (simp add: n elements_def)
  show ?case
  proof (cases "cs = []")
    case True
    have "loop_end 0x5D (array_loop D m) (acc @ [c]) ?b2 = Some (Some (acc @ [c]), advance (length ([] :: bytes)) ?b2)"
      by (rule loop_end_close [of _ _ _ r']) (use r2 y(3) True readingD(1) [OF Cons.prems(3)] in auto)
    then show ?thesis using step w True by (simp add: if_text_def)
  next
    case False
    have "array_loop D m (acc @ [c]) ?b2 =
        Some (Some ((acc @ [c]) @ cs), advance (1 + length (if_text fmt [0x20] :: bytes) + length we) ?b2)"
      by (rule Cons.IH [OF False w(2) _ _ _ fuel]) (use Cons.prems(3,7) r2 y(4) False in auto)
    moreover have "loop_end 0x5D (array_loop D m) (acc @ [c]) ?b2 = array_loop D m (acc @ [c]) ?b2"
      by (rule loop_end_comma [of _ r']) (use r2 y(4) False readingD(1) [OF Cons.prems(3)] in auto)
    ultimately show ?thesis using step False w(3) by (simp add: if_text_def algebra_simps)
  qed
qed simp

lemma object_loop_reads:
  assumes "\<forall>c \<in> set cs. (\<exists>s. jname c = Some s \<and> 0 \<notin> set s) \<and> canonical D h c \<and> reads_back D h c"
    and "blank ts"
  shows "cs \<noteq> [] \<Longrightarrow> render_members D fmt d cs = Some w \<Longrightarrow> reading h b \<Longrightarrow> rest b = x # ws @ w @ ts @ 0x7D # r \<Longrightarrow>
    blank ws \<Longrightarrow> 3 * length (rest b) \<le> n + 2 \<Longrightarrow>
    object_loop D n acc b = Some (Some (acc @ cs), advance (1 + length ws + length w + length ts) b)"
  using assms(1)
proof (induction cs arbitrary: acc b w ws x n)
  case (Cons c cs)
  from Cons.prems(7) obtain s where s: "jname c = Some s" "0 \<notin> set s" by auto
  let ?tabs = "if_text fmt (tabs d)" and ?name = "string_render (Some s)" and ?tab = "if_text fmt [0x09]"
    and ?nl = "if_text fmt [0x0A]"
  from Cons.prems(2) obtain wc we where w: "render D fmt d c = Some wc" "render_members D fmt d cs = Some we"
      "w = ?tabs @ ?name @ (0x3A # ?tab) @ wc @ (if_text (cs \<noteq> []) [0x2C] @ ?nl) @ we"
    by (auto simp: append_text_Some s(1))
  have c: "starts wc" "reads_back D h c" using Cons.prems(7) render_starts [OF _ w(1)] by auto
  note whole = readingD(1) [OF Cons.prems(3)]
  obtain m where n: "n = Suc m" using Cons.prems(4,6) by (cases n) auto
  let ?i1 = "1 + length (ws @ ?tabs)" let ?i2 = "?i1 + length ?name" let ?i3 = "?i2 + length (0x3A # ?tab)"
  let ?i4 = "?i3 + length wc"
  let ?after = "(if_text (cs \<noteq> []) [0x2C] @ ?nl) @ we @ ts @ 0x7D # r"
  have r1: "rest (advance ?i1 b) = ?name @ (0x3A # ?tab) @ wc @ ?after"
    using rest_further [of 1 b "ws @ ?tabs"] Cons.prems(4) w(3) by simp
  have r2: "rest (advance ?i2 b) = (0x3A # ?tab) @ wc @ ?after" by (rule rest_further [OF r1])
  have r3: "rest (advance ?i3 b) = wc @ ?after" by (rule rest_further [OF r2])
  have r4: "rest (advance ?i4 b) = ?after" by (rule rest_further [OF r3])
  have skip1: "buffer_skip_whitespace (advance 1 b) = Some (advance ?i1 b)"
    using skip_to [of "advance 1 b" "ws @ ?tabs" ?name] Cons.prems(4,5) w(3) whole
    by (simp add: starts_def string_render_def)
  have name: "parse_string (cJSON_New_Item D) (advance ?i1 b) =
      Some (Some (set_valuestring (Some s) (set_type cJSON_String (cJSON_New_Item D))), advance ?i2 b)"
    using parse_printed_string [OF _ r1 s(2)] whole readingD(2) [OF Cons.prems(3)] by simp
  have skip2: "buffer_skip_whitespace (advance ?i2 b) = Some (advance ?i2 b)"
    using skip_blank [of "advance ?i2 b" "[]" "0x3A"] r2 whole by simp
  have colon: "at_byte (advance ?i2 b) 0x3A = Some True"
    using at_byte_rest [of "advance ?i2 b"] r2 whole by simp
  have skip3: "buffer_skip_whitespace (advance (?i2 + 1) b) = Some (advance ?i3 b)"
    using skip_to [of "advance (?i2 + 1) b" ?tab wc] rest_further [of ?i2 b "[0x3A]"] r2 whole c(1) by simp
  obtain y r' where y: "?after = y # r'" "\<not> number_char y"
      "cs \<noteq> [] \<Longrightarrow> y = 0x2C \<and> r' = ?nl @ we @ ts @ 0x7D # r"
    using w(2) separators blank_separates assms(2)
    by (cases "cs = []"; cases fmt; cases ts) (auto simp: if_text_def blank_def)
  have val: "parse_value D m (swap_name (set_valuestring (Some s) (set_type cJSON_String (cJSON_New_Item D)))) (advance ?i3 b) =
      Some (Some c, advance ?i4 b)"
  proof -
    have "3 * length (rest (advance ?i3 b)) \<le> m" using Cons.prems(6) n by simp
    moreover have "reading h (advance ?i3 b)" "rest (advance ?i3 b) = wc @ y # r'" using Cons.prems(3) r3 y(1) by simp_all
    ultimately have "parse_value D m (Item [] cJSON_String None 0 (dbl_zero D) (jname c)) (advance ?i3 b) =
        Some (Some c, advance (length wc) (advance ?i3 b))"
      using reads_backD [OF c(2) w(1) _ _ y(2)] by blast
    then show ?thesis by (simp add: cJSON_New_Item_def swap_name_def s(1))
  qed
  have fuel: "3 * length (rest (advance ?i4 b)) \<le> m + 2" using Cons.prems(6) n by simp
  have step: "object_loop D n acc b = loop_end 0x7D (object_loop D m) (acc @ [c]) (advance ?i4 b)"
    using skip1 name skip2 colon skip3 val readingD(2) [OF Cons.prems(3)] by (simp add: n members_def)
  show ?case
  proof (cases "cs = []")
    case True
    have "loop_end 0x7D (object_loop D m) (acc @ [c]) (advance ?i4 b) =
        Some (Some (acc @ [c]), advance (length (?nl @ ts)) (advance ?i4 b))"
      by (rule loop_end_close [of _ _ _ r]) (use r4 w(2) True assms(2) whole in \<open>auto simp: if_text_def blank_def\<close>)
    then show ?thesis using step w True by (simp add: if_text_def algebra_simps)
  next
    case False
    have "object_loop D m (acc @ [c]) (advance ?i4 b) =
        Some (Some ((acc @ [c]) @ cs), advance (1 + length ?nl + length we + length ts) (advance ?i4 b))"
      by (rule Cons.IH [OF False w(2) _ _ _ fuel]) (use Cons.prems(3,7) r4 y(1,3) False in auto)
    moreover have "loop_end 0x7D (object_loop D m) (acc @ [c]) (advance ?i4 b) = object_loop D m (acc @ [c]) (advance ?i4 b)"
      by (rule loop_end_comma [of _ r']) (use r4 y(1,3) False whole in auto)
    ultimately show ?thesis using step False w(3) by (simp add: if_text_def algebra_simps)
  qed
qed simp

lemma loop_start:
  assumes "\<And>k. allocate b k" "\<And>k. allocate b' k" "buffer_skip_whitespace (advance 1 b) = buffer_skip_whitespace (advance 1 b')"
  shows "object_loop D n acc b = object_loop D n acc b'"
proof (cases n)
  case (Suc m)
  show ?thesis unfolding Suc object_loop.simps members_def assms(3) by (simp only: assms(1,2) simp_thms if_False)
qed simp

lemma array_reads:
  assumes "\<forall>c \<in> set cs. jname c = None \<and> canonical D h c \<and> reads_back D h c"
    and "render_elements D fmt d cs = Some w" "reading (Suc h) b" "rest b = 0x5B # w @ 0x5D # r" "3 * length (rest b) \<le> n + 2"
  shows "array_body (array_loop D n) item b =
    Some (Some (set_child cs (set_type cJSON_Array item)), advance (length w + 2) b)"
proof -
  let ?b = "b\<lparr>buf_depth := buf_depth b + 1\<rparr>"
  have depth: "\<not> CJSON_NESTING_LIMIT \<le> buf_depth b" "reading h ?b" "whole ?b"
    using assms(3) by (auto simp: reading_def whole_def)
  have rest: "rest ?b = 0x5B # w @ 0x5D # r" using assms(4) by (simp add: rest_def)
  have open_at: "buffer_at ?b 0 = Some 0x5B" using read_first [OF depth(3) rest] by simp
  have skip: "buffer_skip_whitespace (advance 1 ?b) = Some (advance 1 ?b)" if st: "w = [] \<or> starts w"
  proof -
    obtain y r' where "w @ 0x5D # r = y # r'" "y > 32" using st by (cases w) (auto simp: starts_def)
    then show ?thesis using skip_blank [of "advance 1 ?b" "[]" y r'] rest depth(3) by simp
  qed
  show ?thesis
  proof (cases cs)
    case Nil
    then have "w = []" using assms(2) by simp
    then have "at_byte (advance 1 ?b) 0x5D = Some True" using at_byte_rest [of "advance 1 ?b" "0x5D" r] rest depth(3) by simp
    then show ?thesis using skip open_at depth(1) Nil \<open>w = []\<close>
      by (simp add: array_body_def close_container_def advance_def)
  next
    case (Cons c cs')
    then have w: "starts w" using assms(1,2) render_starts by (fastforce simp: append_text_Some starts_def)
    then obtain y r' where y: "rest (advance 1 ?b) = y # r'" "y \<noteq> 0x5D" using rest by (cases w) (auto simp: starts_def)
    have no_end: "at_byte (advance 1 ?b) 0x5D = Some False" "can_access_at_index (advance 1 ?b) 0"
      using at_byte_rest [OF _ y(1)] read_first [OF _ y(1)] y(2) depth(3) by simp_all
    have "array_loop D n [] ?b = Some (Some ([] @ cs), advance (1 + length ([] :: bytes) + length w) ?b)"
      by (rule array_loop_reads [OF assms(1) _ assms(2) depth(2)]) (use Cons rest assms(5) in \<open>simp_all add: rest_def\<close>)
    moreover have "step_back (advance 1 ?b) = ?b" by (simp add: step_back_def advance_def)
    ultimately show ?thesis using skip w no_end open_at depth(1)
      by (simp add: array_body_def close_container_def finish_container_def advance_def)
  qed
qed

lemma object_reads:
  assumes "\<forall>c \<in> set cs. (\<exists>s. jname c = Some s \<and> 0 \<notin> set s) \<and> canonical D h c \<and> reads_back D h c"
    and "render_members D fmt d cs = Some w" "reading (Suc h) b" "blank ws" "blank ts"
    and "rest b = 0x7B # ws @ w @ ts @ 0x7D # r" "3 * length (rest b) \<le> n + 2"
  shows "object_body (object_loop D n) item b =
    Some (Some (set_child cs (set_type cJSON_Object item)), advance (length ws + length w + length ts + 2) b)"
proof -
  let ?b = "b\<lparr>buf_depth := buf_depth b + 1\<rparr>"
  have depth: "\<not> CJSON_NESTING_LIMIT \<le> buf_depth b" "reading h ?b" "whole ?b"
    using assms(3) by (auto simp: reading_def whole_def)
  have rest: "rest ?b = 0x7B # ws @ w @ ts @ 0x7D # r" using assms(6) by (simp add: rest_def)
  have brace: "at_byte ?b 0x7B = Some True" using at_byte_rest [OF depth(3) rest] by simp
  show ?thesis
  proof (cases cs)
    case Nil
    then have w: "w = []" using assms(2) by simp
    let ?b1 = "advance (1 + length (ws @ ts)) ?b"
    have "buffer_skip_whitespace (advance 1 ?b) = Some ?b1"
      using skip_blank [of "advance 1 ?b" "ws @ ts" "0x7D" r] rest w depth(3) assms(4,5) by simp
    moreover have "rest ?b1 = 0x7D # r" using rest_further [of 1 ?b "ws @ ts"] rest w by simp
    then have "at_byte ?b1 0x7D = Some True" using at_byte_rest depth(3) by simp
    ultimately show ?thesis using brace depth(1) Nil w
      by (simp add: object_body_def close_container_def advance_def)
  next
    case (Cons c cs')
    then obtain we where we: "w = if_text fmt (tabs d) @ QUOT # we"
      using assms(1,2) by (auto simp: append_text_Some string_render_def)
    let ?b1 = "advance (1 + length (ws @ if_text fmt (tabs d))) ?b"
    have skip: "buffer_skip_whitespace (advance 1 ?b) = Some ?b1"
      using skip_blank [of "advance 1 ?b" "ws @ if_text fmt (tabs d)" QUOT] rest we depth(3) assms(4) by simp
    have r1: "rest ?b1 = QUOT # we @ ts @ 0x7D # r"
      using rest_further [of 1 ?b "ws @ if_text fmt (tabs d)"] rest we by simp
    have no_end: "at_byte ?b1 0x7D = Some False" "can_access_at_index ?b1 0" "buffer_skip_whitespace ?b1 = Some ?b1"
      using at_byte_rest [OF _ r1] read_first [OF _ r1] skip_blank [of ?b1 "[]" QUOT] r1 depth(3) by simp_all
    have "object_loop D n [] ?b = Some (Some ([] @ cs), advance (1 + length ws + length w + length ts) ?b)"
      by (rule object_loop_reads [OF assms(1,5) _ assms(2) depth(2)])
        (use Cons rest assms(4,7) in \<open>simp_all add: rest_def\<close>)
    moreover have "object_loop D n [] (step_back ?b1) = object_loop D n [] ?b"
    proof (rule loop_start)
      have "advance 1 (step_back ?b1) = ?b1" by (simp add: step_back_def advance_def)
      then show "buffer_skip_whitespace (advance 1 (step_back ?b1)) = buffer_skip_whitespace (advance 1 ?b)"
        by (simp only: skip no_end(3))
    qed (use readingD(2) [OF assms(3)] in \<open>simp_all add: step_back_def\<close>)
    ultimately show ?thesis using skip no_end brace depth(1)
      by (simp add: object_body_def close_container_def finish_container_def advance_def)
  qed
qed

section \<open>Items\<close>

lemma reads_backI:
  assumes "\<And>fmt d b w y r n t. render D fmt d item = Some w \<Longrightarrow> reading h b \<Longrightarrow> rest b = w @ y # r \<Longrightarrow>
    \<not> number_char y \<Longrightarrow> 3 * length (rest b) \<le> Suc n \<Longrightarrow>
    value_body D (parse_array D n) (parse_object D n) (Item [] t None 0 (dbl_zero D) (jname item)) b =
      Some (Some item, advance (length w) b)"
  shows "reads_back D h item"
  unfolding reads_back_def
proof (intro allI impI)
  fix fmt d b w y r n t
  assume a: "render D fmt d item = Some w" "reading h b" "rest b = w @ y # r" "\<not> number_char y" "3 * length (rest b) \<le> n"
  then obtain m where "n = Suc m" by (cases n) auto
  then show "parse_value D n (Item [] t None 0 (dbl_zero D) (jname item)) b = Some (Some item, advance (length w) b)"
    using assms [OF a(1-4), of m t] a(5) by simp
qed

lemma canonical_reads: "canonical D h item \<Longrightarrow> reads_back D h item"
proof (induction h item rule: canonical.induct)
  case (canonical_null h k)
  then show ?case
    by (intro reads_backI) (auto simp: value_render_kinds lit_def value_body_words(1) [unfolded lit_def] dest: readingD(1))
next
  case (canonical_false h k)
  then show ?case
    by (intro reads_backI) (auto simp: value_render_kinds lit_def value_body_words(2) [unfolded lit_def] dest: readingD(1))
next
  case (canonical_true h k)
  then show ?case
    by (intro reads_backI) (auto simp: value_render_kinds lit_def value_body_words(3) [unfolded lit_def] dest: readingD(1))
next
  case (canonical_number x h k)
  show ?case
  proof (rule reads_backI)
    fix fmt d b w y r n t
    assume a: "render D fmt d (Item [] cJSON_Number None (saturate D x) x k) = Some w" "reading h b" "rest b = w @ y # r"
      "\<not> number_char y"
    then have w: "w = number_text D x" by (simp add: value_render_kinds)
    note ret = canonical_number [unfolded number_returns_def Let_def]
    then have "w = hd w # tl w" "hd w = 0x2D \<or> 0x30 \<le> hd w \<and> hd w \<le> 0x39" using w by simp_all
    then obtain z zs where z: "w = z # zs" "z = 0x2D \<or> 0x30 \<le> z \<and> z \<le> 0x39" by blast
    then have "z \<noteq> 0x6E" "z \<noteq> 0x66" "z \<noteq> 0x74" "z \<noteq> QUOT" by (auto simp: word_le_nat_alt)
    then have "value_body D (parse_array D n) (parse_object D n) (Item [] t None 0 (dbl_zero D) k) b =
        parse_number D (Item [] t None 0 (dbl_zero D) k) b"
      using a(3) z by (subst value_body_char [OF readingD(1) [OF a(2)], of z "zs @ y # r"]) auto
    then show "value_body D (parse_array D n) (parse_object D n)
        (Item [] t None 0 (dbl_zero D) (jname (Item [] cJSON_Number None (saturate D x) x k))) b =
        Some (Some (Item [] cJSON_Number None (saturate D x) x k), advance (length w) b)"
      using parse_printed_number [OF readingD(1) [OF a(2)] a(3) [unfolded w] a(4) canonical_number,
          of "Item [] t None 0 (dbl_zero D) k"] w by simp
  qed
next
  case (canonical_string s h k)
  show ?case
  proof (rule reads_backI)
    fix fmt d b w y r n t
    assume a: "render D fmt d (Item [] cJSON_String (Some s) 0 (dbl_zero D) k) = Some w" "reading h b" "rest b = w @ y # r"
    then have w: "w = string_render (Some s)" by (simp add: value_render_kinds)
    then obtain zs where "w = QUOT # zs" by (simp add: string_render_def)
    then have "value_body D (parse_array D n) (parse_object D n) (Item [] t None 0 (dbl_zero D) k) b =
        parse_string (Item [] t None 0 (dbl_zero D) k) b"
      using a(3) by (subst value_body_char [OF readingD(1) [OF a(2)], of QUOT "zs @ y # r"]) auto
    then show "value_body D (parse_array D n) (parse_object D n)
        (Item [] t None 0 (dbl_zero D) (jname (Item [] cJSON_String (Some s) 0 (dbl_zero D) k))) b =
        Some (Some (Item [] cJSON_String (Some s) 0 (dbl_zero D) k), advance (length w) b)"
      using parse_printed_string [OF readingD(1) [OF a(2)] a(3) [unfolded w] canonical_string readingD(2) [OF a(2)],
          of "Item [] t None 0 (dbl_zero D) k"] w
      by simp
  qed
next
  case (canonical_array cs h k)
  show ?case
  proof (rule reads_backI)
    fix fmt d b w y r n t
    assume a: "render D fmt d (Item cs cJSON_Array None 0 (dbl_zero D) k) = Some w" "reading (Suc h) b" "rest b = w @ y # r"
      "\<not> number_char y" "3 * length (rest b) \<le> Suc n"
    then obtain we where we: "render_elements D fmt (Suc d) cs = Some we" "w = 0x5B # we @ [0x5D]"
      by (auto simp: value_render_kinds array_render_def)
    obtain m where m: "n = Suc m" using a(3,5) we(2) by (cases n) auto
    have cs: "\<forall>c \<in> set cs. jname c = None \<and> canonical D h c \<and> reads_back D h c" using canonical_array by blast
    have r: "rest b = 0x5B # we @ 0x5D # y # r" using a(3) we(2) by simp
    have "value_body D (parse_array D n) (parse_object D n) (Item [] t None 0 (dbl_zero D) k) b =
        array_body (array_loop D m) (Item [] t None 0 (dbl_zero D) k) b"
      by (subst value_body_char [OF readingD(1) [OF a(2)] r]) (simp_all add: m)
    then show "value_body D (parse_array D n) (parse_object D n)
        (Item [] t None 0 (dbl_zero D) (jname (Item cs cJSON_Array None 0 (dbl_zero D) k))) b =
        Some (Some (Item cs cJSON_Array None 0 (dbl_zero D) k), advance (length w) b)"
      using array_reads [OF cs we(1) a(2) r, of m "Item [] t None 0 (dbl_zero D) k"] a(5) m we(2) by (simp add: add.commute)
  qed
next
  case (canonical_object cs h k)
  show ?case
  proof (rule reads_backI)
    fix fmt d b w y r n t
    assume a: "render D fmt d (Item cs cJSON_Object None 0 (dbl_zero D) k) = Some w" "reading (Suc h) b" "rest b = w @ y # r"
      "\<not> number_char y" "3 * length (rest b) \<le> Suc n"
    then obtain we where we: "render_members D fmt (Suc d) cs = Some we"
        "w = 0x7B # if_text fmt [0x0A] @ we @ if_text fmt (tabs d) @ [0x7D]"
      by (auto simp: value_render_kinds object_render_def)
    obtain m where m: "n = Suc m" using a(3,5) we(2) by (cases n) auto
    have cs: "\<forall>c \<in> set cs. (\<exists>s. jname c = Some s \<and> 0 \<notin> set s) \<and> canonical D h c \<and> reads_back D h c"
      using canonical_object by blast
    have r: "rest b = 0x7B # if_text fmt [0x0A] @ we @ if_text fmt (tabs d) @ 0x7D # y # r" using a(3) we(2) by simp
    have "value_body D (parse_array D n) (parse_object D n) (Item [] t None 0 (dbl_zero D) k) b =
        object_body (object_loop D m) (Item [] t None 0 (dbl_zero D) k) b"
      by (subst value_body_char [OF readingD(1) [OF a(2)] r]) (simp_all add: m)
    then show "value_body D (parse_array D n) (parse_object D n)
        (Item [] t None 0 (dbl_zero D) (jname (Item cs cJSON_Object None 0 (dbl_zero D) k))) b =
        Some (Some (Item cs cJSON_Object None 0 (dbl_zero D) k), advance (length w) b)"
      using object_reads [OF cs we(1) a(2) _ _ r, of m "Item [] t None 0 (dbl_zero D) k"] a(5) m we(2) by (simp add: add.commute)
  qed
qed

section \<open>Whole texts\<close>

lemma parse_rendered:
  assumes "canonical D CJSON_NESTING_LIMIT item" "jname item = None" "render D fmt d item = Some w" "0 \<notin> set w"
    and "\<And>n. alloc n"
  shows "cJSON_ParseWithOpts D alloc (Some w) require_null_terminated =
    Some \<lparr>jr_item = Some item, jr_end = Some (length w), jr_error = None\<rparr>"
proof -
  let ?b = "text_buffer alloc w"
  have c: "c_str w = w" using assms(4) by (auto simp: c_str_def takeWhile_eq_all_conv)
  then have b: "reading CJSON_NESTING_LIMIT ?b" "rest ?b = w @ 0 # []" "whole ?b" "3 * length (rest ?b) \<le> parse_fuel ?b"
    using assms(5) by (auto simp: text_buffer_def reading_def whole_def rest_def parse_fuel_def)
  have w: "starts w" using render_starts [OF assms(1,3)] .
  then have "w = hd w # tl w" "hd w \<noteq> 0xEF" by (auto simp: starts_def word_less_nat_alt)
  then obtain z zs where z: "w = z # zs" "z \<noteq> 0xEF" by blast
  then have "starts_with (content ?b) (buf_offset ?b) [0xEF, 0xBB, 0xBF] = Some False"
    using starts_with_other [of ?b z "zs @ [0]"] b(2) by simp
  then have bom: "skip_utf8_bom ?b = Some ?b" by (simp add: skip_utf8_bom_def)
  have skip: "buffer_skip_whitespace ?b = Some ?b"
    using skip_to [OF b(3), of "[]" w "[0]"] b(2) w by simp
  have val: "parse_value D (parse_fuel ?b) (cJSON_New_Item D) ?b = Some (Some item, advance (length w) ?b)"
    using reads_backD [OF canonical_reads [OF assms(1)] assms(3) b(1,2) _ b(4), of cJSON_Invalid] separators assms(2)
    by (simp add: cJSON_New_Item_def)
  have at_end: "rest (advance (length w) ?b) = [0]" using b(2) by simp
  have "buffer_skip_whitespace (advance (length w) ?b) = Some (advance (length w) ?b)"
    using skip_end [OF _ at_end] b(3) by simp
  moreover have "at_byte (advance (length w) ?b) 0 = Some True" using at_byte_rest [OF _ at_end] b(3) by simp
  ultimately show ?thesis using assms(5) bom skip val
    by (simp add: cJSON_ParseWithOpts_def Let_def) (simp add: text_buffer_def)
qed

end
