(* ===== verification/Json_Shape.thy ===== *)
theory Json_Shape
  imports Json_Roundtrip
begin

text \<open>
  The shape of what the parser returns, for every text: an invariant of the data that the
  printer and the users of the items rely on.
\<close>

section \<open>Shapes\<close>

text \<open>
  Only the fields of an item's type are set, the elements of an array have no name and the
  members of an object have one, and containers are nested at most \<open>h\<close> deep.
\<close>

inductive shaped :: "'n doubles \<Rightarrow> nat \<Rightarrow> 'n cJSON \<Rightarrow> bool" for D :: "'n doubles" where
  shaped_null: "shaped D h (Item [] cJSON_NULL None 0 (dbl_zero D) k)"
| shaped_false: "shaped D h (Item [] cJSON_False None 0 (dbl_zero D) k)"
| shaped_true: "shaped D h (Item [] cJSON_True None 1 (dbl_zero D) k)"
| shaped_number: "shaped D h (Item [] cJSON_Number None (saturate D x) x k)"
| shaped_string: "shaped D h (Item [] cJSON_String (Some s) 0 (dbl_zero D) k)"
| shaped_array: "\<forall>c \<in> set cs. jname c = None \<and> shaped D h c \<Longrightarrow>
    shaped D (Suc h) (Item cs cJSON_Array None 0 (dbl_zero D) k)"
| shaped_object: "\<forall>c \<in> set cs. jname c \<noteq> None \<and> shaped D h c \<Longrightarrow>
    shaped D (Suc h) (Item cs cJSON_Object None 0 (dbl_zero D) k)"

lemma canonical_shaped: "canonical D h item \<Longrightarrow> shaped D h item"
  by (induction rule: canonical.induct) (auto intro: shaped.intros)

lemma render_list_some:
  assumes "\<forall>c \<in> set cs. \<forall>fmt d. \<exists>w. render D fmt d c = Some w"
  shows "\<exists>w. render_elements D fmt d cs = Some w" "\<exists>w. render_members D fmt d cs = Some w"
proof -
  show "\<exists>w. render_elements D fmt d cs = Some w"
    using assms
  proof (induction cs)
    case (Cons c cs)
    then obtain w v where "render D fmt d c = Some w" "render_elements D fmt d cs = Some v" by fastforce
    then show ?case by (simp add: append_text_def)
  qed simp
  show "\<exists>w. render_members D fmt d cs = Some w"
    using assms
  proof (induction cs)
    case (Cons c cs)
    then obtain w v where "render D fmt d c = Some w" "render_members D fmt d cs = Some v" by fastforce
    then show ?case by (simp add: append_text_def)
  qed simp
qed

text \<open>The printer refuses no item of this shape.\<close>

lemma shaped_renders: "shaped D h item \<Longrightarrow> \<exists>w. render D fmt d item = Some w"
proof (induction arbitrary: fmt d rule: shaped.induct)
  case (shaped_array cs h k)
  then have "\<forall>c \<in> set cs. \<forall>fmt d. \<exists>w. render D fmt d c = Some w" by blast
  from render_list_some(1) [OF this] show ?case by (auto simp: value_render_kinds array_render_def)
next
  case (shaped_object cs h k)
  then have "\<forall>c \<in> set cs. \<forall>fmt d. \<exists>w. render D fmt d c = Some w" by blast
  from render_list_some(2) [OF this] show ?case by (auto simp: value_render_kinds object_render_def)
qed (auto simp: value_render_kinds)

section \<open>Results of the parser\<close>

definition yields :: "('a \<Rightarrow> bool) \<Rightarrow> parse_buffer \<Rightarrow> ('a option \<times> parse_buffer) option \<Rightarrow> bool" where
  "yields P b r \<longleftrightarrow> (\<forall>x b'. r = Some (Some x, b') \<longrightarrow> P x \<and> buf_depth b' = buf_depth b)"

lemma yields_simps [simp]: "yields P b None" "yields P b (Some (None, b'))"
  "yields P b (Some (Some x, b')) \<longleftrightarrow> P x \<and> buf_depth b' = buf_depth b"
  by (auto simp: yields_def)

lemma yields_bind:
  assumes "\<And>x. m = Some x \<Longrightarrow> yields P b (f x)"
  shows "yields P b (m \<bind> f)"
  using assms by (cases m) simp_all

lemma yields_if: "(c \<Longrightarrow> yields P b x) \<Longrightarrow> (\<not> c \<Longrightarrow> yields P b y) \<Longrightarrow> yields P b (if c then x else y)"
  by simp

lemma yields_option:
  "(x = None \<Longrightarrow> yields P b m) \<Longrightarrow> (\<And>y. x = Some y \<Longrightarrow> yields P b (f y)) \<Longrightarrow> yields P b (case x of None \<Rightarrow> m | Some y \<Rightarrow> f y)"
  by (cases x) simp_all

lemma yields_prod: "(\<And>y z. x = (y, z) \<Longrightarrow> yields P b (f y z)) \<Longrightarrow> yields P b (case x of (y, z) \<Rightarrow> f y z)"
  by (cases x) simp

lemmas yields_intros = yields_bind yields_if yields_option yields_prod

lemma skip_depth: "buffer_skip_whitespace b = Some b' \<Longrightarrow> buf_depth b' = buf_depth b \<and> allocate b' = allocate b"
proof -
  have "skip_spaces b = Some b' \<Longrightarrow> buf_depth b' = buf_depth b \<and> allocate b' = allocate b" for b'
  proof (induction b rule: skip_spaces.induct)
    case (1 b)
    from "1.prems" show ?case
      by (subst (asm) skip_spaces.simps) (auto simp: advance_def split: if_splits bind_splits dest: "1.IH")
  qed
  then show "buffer_skip_whitespace b = Some b' \<Longrightarrow> ?thesis"
    by (fastforce simp: buffer_skip_whitespace_def split: bind_splits)
qed

definition blank_item :: "'n doubles \<Rightarrow> bytes option \<Rightarrow> 'n cJSON \<Rightarrow> bool" where
  "blank_item D k item \<longleftrightarrow> (\<exists>t. item = Item [] t None 0 (dbl_zero D) k)"

lemma string_yields:
  "blank_item D k item \<Longrightarrow> yields (\<lambda>x. \<exists>s. x = Item [] cJSON_String (Some s) 0 (dbl_zero D) k) b (parse_string item b)"
  unfolding parse_string_def Let_def
  by (intro yields_intros) (auto simp: blank_item_def)

lemma number_yields:
  "blank_item D k item \<Longrightarrow> yields (\<lambda>x. \<exists>y. x = Item [] cJSON_Number None (saturate D y) y k) b (parse_number D item b)"
  unfolding parse_number_def Let_def
  by (intro yields_intros) (auto simp: blank_item_def advance_def)

lemma yields_mono: "yields P b r \<Longrightarrow> (\<And>x. P x \<Longrightarrow> Q x) \<Longrightarrow> yields Q b r"
  by (auto simp: yields_def)

abbreviation item_ok :: "'n doubles \<Rightarrow> parse_buffer \<Rightarrow> bytes option \<Rightarrow> 'n cJSON \<Rightarrow> bool" where
  "item_ok D b k x \<equiv> shaped D (CJSON_NESTING_LIMIT - buf_depth b) x \<and> jname x = k"

lemma value_yields:
  assumes "blank_item D k item" "yields (item_ok D b k) b (arr item b)" "yields (item_ok D b k) b (obj item b)"
  shows "yields (item_ok D b k) b (value_body D arr obj item b)"
proof -
  have "yields (item_ok D b k) b (parse_string item b)" "yields (item_ok D b k) b (parse_number D item b)"
    by (rule yields_mono [OF string_yields [OF assms(1)]] yields_mono [OF number_yields [OF assms(1)]];
        auto intro: shaped.intros)+
  with assms show ?thesis unfolding value_body_def
    by (auto simp: blank_item_def intro!: yields_bind yields_if intro: shaped.intros)
qed

lemma container_yields:
  assumes "blank_item D k item" "buf_depth b < CJSON_NESTING_LIMIT"
    and "yields (\<lambda>cs. \<forall>c \<in> set cs. named c \<and> shaped D (CJSON_NESTING_LIMIT - Suc (buf_depth b)) c) b1 r"
    and "buf_depth b1 = Suc (buf_depth b)"
    and "(t = cJSON_Array \<and> named = (\<lambda>c. jname c = None)) \<or> (t = cJSON_Object \<and> named = (\<lambda>c. jname c \<noteq> None))"
  shows "yields (item_ok D b k) b (map_option (finish_container t item) r)"
proof (cases r)
  case (Some p)
  obtain cs b2 where p: "p = (cs, b2)" by (cases p)
  have d: "CJSON_NESTING_LIMIT - buf_depth b = Suc (CJSON_NESTING_LIMIT - Suc (buf_depth b))" using assms(2) by simp
  from Some p assms show ?thesis unfolding d
    by (cases cs) (auto simp: finish_container_def close_container_def blank_item_def intro!: shaped.intros)
qed simp

section \<open>Loops\<close>

text \<open>The items of a list while its loop runs, at depth \<open>d\<close>.\<close>

abbreviation list_ok :: "'n doubles \<Rightarrow> ('n cJSON \<Rightarrow> bool) \<Rightarrow> nat \<Rightarrow> 'n cJSON list \<Rightarrow> bool" where
  "list_ok D named d cs \<equiv> \<forall>c \<in> set cs. named c \<and> shaped D (CJSON_NESTING_LIMIT - d) c"

definition loop_yields :: "'n doubles \<Rightarrow> ('n cJSON \<Rightarrow> bool) \<Rightarrow> 'n list_parser \<Rightarrow> bool" where
  "loop_yields D named loop \<longleftrightarrow>
     (\<forall>cs b. list_ok D named (buf_depth b) cs \<longrightarrow> yields (list_ok D named (buf_depth b)) b (loop cs b))"

definition item_yields :: "'n doubles \<Rightarrow> 'n item_parser \<Rightarrow> bool" where
  "item_yields D f \<longleftrightarrow> (\<forall>k item b. blank_item D k item \<longrightarrow> yields (item_ok D b k) b (f item b))"

lemma yields_depth: "yields P b r \<Longrightarrow> buf_depth b' = buf_depth b \<Longrightarrow> yields P b' r"
  by (auto simp: yields_def)

lemma loop_yieldsD:
  "loop_yields D named loop \<Longrightarrow> list_ok D named d cs \<Longrightarrow> buf_depth b = d \<Longrightarrow>
    yields (list_ok D named d) b (loop cs b)"
  unfolding loop_yields_def by blast

lemma loop_end_yields:
  assumes "loop_yields D named loop" "list_ok D named (buf_depth b) cs"
  shows "yields (list_ok D named (buf_depth b)) b (loop_end bracket loop cs b)"
  unfolding loop_end_def
proof (rule yields_bind)
  fix b' assume b': "buffer_skip_whitespace b = Some b'"
  have d: "buf_depth b' = buf_depth b" using skip_depth [OF b'] by simp
  show "yields (list_ok D named (buf_depth b)) b (do {
     more \<leftarrow> at_byte b' 0x2C;
     if more then loop cs b'
     else do { close \<leftarrow> at_byte b' bracket; Some (if close then Some cs else None, b') }})"
  proof (intro yields_intros)
    show "yields (list_ok D named (buf_depth b)) b (loop cs b')"
      using loop_yieldsD [OF assms d] d by (rule yields_depth [OF _ sym])
  qed (use assms(2) d in simp)
qed

lemma elements_yields:
  assumes "item_yields D val" "loop_yields D (\<lambda>c. jname c = None) loop"
  shows "loop_yields D (\<lambda>c. jname c = None) (elements D val loop)"
  unfolding loop_yields_def
proof (intro allI impI)
  fix cs and b :: parse_buffer
  let ?ok = "list_ok D (\<lambda>c. jname c = None) (buf_depth b)"
  assume cs: "?ok cs"
  show "yields ?ok b (elements D val loop cs b)" unfolding elements_def
  proof (intro yields_intros)
    fix b1 r c b2 c'
    assume b1: "buffer_skip_whitespace (advance 1 b) = Some b1" and r: "val (cJSON_New_Item D) b1 = Some r" "r = (c, b2)" "c = Some c'"
    have "buf_depth b1 = buf_depth b" using skip_depth [OF b1] by (simp add: advance_def)
    moreover have "yields (item_ok D b1 None) b1 (val (cJSON_New_Item D) b1)"
      using assms(1) by (auto simp: item_yields_def blank_item_def cJSON_New_Item_def)
    ultimately have d: "buf_depth b2 = buf_depth b" "item_ok D b None c'" using r by auto
    then show "yields ?ok b (loop_end 0x5D loop (cs @ [c']) b2)"
      using loop_end_yields [OF assms(2), of "cs @ [c']" b2 "0x5D"] cs by (auto intro: yields_depth)
  qed simp_all
qed

lemma members_yields:
  assumes "item_yields D val" "loop_yields D (\<lambda>c. jname c \<noteq> None) loop"
  shows "loop_yields D (\<lambda>c. jname c \<noteq> None) (members D val loop)"
  unfolding loop_yields_def
proof (intro allI impI)
  fix cs and b :: parse_buffer
  let ?ok = "list_ok D (\<lambda>c. jname c \<noteq> None) (buf_depth b)"
  assume cs: "?ok cs"
  show "yields ?ok b (members D val loop cs b)" unfolding members_def
  proof (intro yields_intros)
    fix b1 r nm b2 nm' b3 colon b4 r' c b5 c'
    assume b1: "buffer_skip_whitespace (advance 1 b) = Some b1"
      and r: "parse_string (cJSON_New_Item D) b1 = Some r" "r = (nm, b2)" "nm = Some nm'"
      and b3: "buffer_skip_whitespace b2 = Some b3" and b4: "buffer_skip_whitespace (advance 1 b3) = Some b4"
      and r': "val (swap_name nm') b4 = Some r'" "r' = (c, b5)" "c = Some c'"
    have "blank_item D None (cJSON_New_Item D)" by (simp add: blank_item_def cJSON_New_Item_def)
    from string_yields [OF this, of b1] r obtain s where s: "nm' = Item [] cJSON_String (Some s) 0 (dbl_zero D) None"
      "buf_depth b2 = buf_depth b1" by auto
    have "buf_depth b4 = buf_depth b"
      using skip_depth [OF b1] skip_depth [OF b3] skip_depth [OF b4] s(2) by (simp add: advance_def)
    moreover have "yields (item_ok D b4 (Some s)) b4 (val (swap_name nm') b4)"
      using assms(1) by (auto simp: item_yields_def blank_item_def swap_name_def s(1))
    ultimately have d: "buf_depth b5 = buf_depth b" "item_ok D b (Some s) c'" using r' by auto
    then show "yields ?ok b (loop_end 0x7D loop (cs @ [c']) b5)"
      using loop_end_yields [OF assms(2), of "cs @ [c']" b5 "0x7D"] cs by (auto intro: yields_depth)
  qed simp_all
qed

lemma array_yields:
  assumes "loop_yields D (\<lambda>c. jname c = None) loop"
  shows "item_yields D (array_body loop)"
  unfolding item_yields_def
proof (intro allI impI)
  fix k item and b :: parse_buffer assume item: "blank_item D k item"
  show "yields (item_ok D b k) b (array_body loop item b)" unfolding array_body_def Let_def
  proof (intro yields_intros)
    fix x b1 e assume d: "\<not> CJSON_NESTING_LIMIT \<le> buf_depth b"
      and b1: "buffer_skip_whitespace (advance 1 (b\<lparr>buf_depth := buf_depth b + 1\<rparr>)) = Some b1"
    have depth: "buf_depth b1 = Suc (buf_depth b)" using skip_depth [OF b1] by (simp add: advance_def)
    have "yields (list_ok D (\<lambda>c. jname c = None) (Suc (buf_depth b))) (step_back b1) (loop [] (step_back b1))"
      by (rule loop_yieldsD [OF assms]) (simp_all add: step_back_def depth)
    then show "yields (item_ok D b k) b (map_option (finish_container cJSON_Array item) (loop [] (step_back b1)))"
      using container_yields [OF item, of b "\<lambda>c. jname c = None"] d depth by (simp add: step_back_def)
    have "shaped D (Suc (CJSON_NESTING_LIMIT - Suc (buf_depth b))) (Item [] cJSON_Array None 0 (dbl_zero D) k)"
      by (intro shaped_array) simp
    then show "yields (item_ok D b k) b (Some (close_container cJSON_Array item [] b1))"
      using d depth item by (auto simp: close_container_def blank_item_def Suc_diff_Suc)
  qed simp_all
qed

lemma object_yields:
  assumes "loop_yields D (\<lambda>c. jname c \<noteq> None) loop"
  shows "item_yields D (object_body loop)"
  unfolding item_yields_def
proof (intro allI impI)
  fix k item and b :: parse_buffer assume item: "blank_item D k item"
  show "yields (item_ok D b k) b (object_body loop item b)" unfolding object_body_def Let_def
  proof (intro yields_intros)
    fix x b1 e assume d: "\<not> CJSON_NESTING_LIMIT \<le> buf_depth b"
      and b1: "buffer_skip_whitespace (advance 1 (b\<lparr>buf_depth := buf_depth b + 1\<rparr>)) = Some b1"
    have depth: "buf_depth b1 = Suc (buf_depth b)" using skip_depth [OF b1] by (simp add: advance_def)
    have "yields (list_ok D (\<lambda>c. jname c \<noteq> None) (Suc (buf_depth b))) (step_back b1) (loop [] (step_back b1))"
      by (rule loop_yieldsD [OF assms]) (simp_all add: step_back_def depth)
    then show "yields (item_ok D b k) b (map_option (finish_container cJSON_Object item) (loop [] (step_back b1)))"
      using container_yields [OF item, of b "\<lambda>c. jname c \<noteq> None"] d depth by (simp add: step_back_def)
    have "shaped D (Suc (CJSON_NESTING_LIMIT - Suc (buf_depth b))) (Item [] cJSON_Object None 0 (dbl_zero D) k)"
      by (intro shaped_object) simp
    then show "yields (item_ok D b k) b (Some (close_container cJSON_Object item [] b1))"
      using d depth item by (auto simp: close_container_def blank_item_def Suc_diff_Suc)
  qed simp_all
qed

lemma value_body_yields:
  "item_yields D arr \<Longrightarrow> item_yields D obj \<Longrightarrow> item_yields D (value_body D arr obj)"
  unfolding item_yields_def by (simp add: value_yields)

lemma parse_yields:
  "item_yields D (parse_value D n)" "item_yields D (parse_array D n)" "item_yields D (parse_object D n)"
  "loop_yields D (\<lambda>c. jname c = None) (array_loop D n)" "loop_yields D (\<lambda>c. jname c \<noteq> None) (object_loop D n)"
proof (induction n)
  case 0
  show "item_yields D (parse_value D 0)" "item_yields D (parse_array D 0)" "item_yields D (parse_object D 0)"
    "loop_yields D (\<lambda>c. jname c = None) (array_loop D 0)" "loop_yields D (\<lambda>c. jname c \<noteq> None) (object_loop D 0)"
    by (simp_all add: item_yields_def loop_yields_def)
next
  case (Suc n)
  show "item_yields D (parse_value D (Suc n))" "item_yields D (parse_array D (Suc n))" "item_yields D (parse_object D (Suc n))"
    "loop_yields D (\<lambda>c. jname c = None) (array_loop D (Suc n))" "loop_yields D (\<lambda>c. jname c \<noteq> None) (object_loop D (Suc n))"
    using value_body_yields [OF Suc(2,3)] array_yields [OF Suc(4)] object_yields [OF Suc(5)]
      elements_yields [OF Suc(1,4)] members_yields [OF Suc(1,5)]
    by simp_all
qed

lemma parse_shaped:
  assumes "cJSON_ParseWithOpts D alloc value req = Some r" "jr_item r = Some item"
  shows "shaped D CJSON_NESTING_LIMIT item \<and> jname item = None"
proof -
  obtain v where v: "value = Some v" using assms by (cases "value") (auto simp: cJSON_ParseWithOpts_def)
  obtain b1 b2 b3 where b: "skip_utf8_bom (text_buffer alloc v) = Some b1" "buffer_skip_whitespace b1 = Some b2"
    "parse_value D (parse_fuel b2) (cJSON_New_Item D) b2 = Some (Some item, b3)"
    using assms unfolding v
    by (auto simp: cJSON_ParseWithOpts_def Let_def parse_failed_def split: if_splits bind_splits option.splits)
  have "buf_depth b1 = 0"
    using b(1) by (auto simp: skip_utf8_bom_def text_buffer_def advance_def split: if_splits bind_splits)
  then have d: "buf_depth b2 = 0" using skip_depth [OF b(2)] by simp
  have "yields (item_ok D b2 None) b2 (parse_value D (parse_fuel b2) (cJSON_New_Item D) b2)"
    using parse_yields(1) [of D "parse_fuel b2"] by (auto simp: item_yields_def blank_item_def cJSON_New_Item_def)
  then show ?thesis using b(3) d by simp
qed

end
