(* ===== verification/Json_Print_Entry.thy ===== *)
theory Json_Print_Entry
  imports Json_Print_Spec
begin

text \<open>
  The entry points of the printer: what the caller gets, and what becomes of a block that the
  caller provides.
\<close>

section \<open>A block that cannot grow\<close>

definition kept :: "printbuffer \<Rightarrow> printbuffer \<Rightarrow> bool" where
  "kept p p' \<longleftrightarrow> (noalloc p \<longrightarrow> noalloc p' \<and> map_option length (cells p') = map_option length (cells p))"

definition keeps :: "bool print \<Rightarrow> bool" where
  "keeps f \<longleftrightarrow> (\<forall>p ok p'. f p = Some (ok, p') \<longrightarrow> kept p p')"

lemma kept_refl: "kept p p"
  by (simp add: kept_def)

lemma kept_trans: "kept p p1 \<Longrightarrow> kept p1 p2 \<Longrightarrow> kept p p2"
  by (auto simp: kept_def)

lemma keepsI: "(\<And>p ok p'. f p = Some (ok, p') \<Longrightarrow> kept p p') \<Longrightarrow> keeps f"
  unfolding keeps_def by blast

lemma keepsD: "keeps f \<Longrightarrow> f p = Some (ok, p') \<Longrightarrow> kept p p'"
  unfolding keeps_def by blast

lemma store_kept: "store i bs p = Some p' \<Longrightarrow> kept p p'"
  by (auto simp: store_def kept_def Let_def split: option.splits if_splits)

lemma update_kept: "update_offset p = Some p' \<Longrightarrow> kept p p'"
  by (auto simp: update_offset_def skip_bytes_def kept_def split: option.splits)

lemma skip_kept: "kept p (skip_bytes n p)" "kept p (at_depth h p)"
  by (simp_all add: kept_def skip_bytes_def at_depth_def)

lemma ensure_keeps: "keeps (ensure n)"
proof (rule keepsI)
  fix p ok p' assume "ensure n p = Some (ok, p')"
  then have "noalloc p \<Longrightarrow> p' = p" by (auto simp: ensure_def Let_def split: if_splits)
  then show "kept p p'" by (auto simp: kept_def)
qed

lemma emit_keeps: "keeps (emit n bs)"
proof (rule keepsI)
  fix p ok p' assume a: "emit n bs p = Some (ok, p')"
  then obtain ok1 p1 where e: "ensure n p = Some (ok1, p1)" by (auto simp: emit_def split: bind_splits)
  have "kept p1 p'" using a e by (cases ok1) (auto simp: emit_def kept_refl split: bind_splits dest: store_kept)
  then show "kept p p'" using keepsD [OF ensure_keeps e] kept_trans by blast
qed

lemma and_then_keeps: "keeps f \<Longrightarrow> keeps g \<Longrightarrow> keeps (and_then f g)"
proof (rule keepsI)
  fix p ok p' assume k: "keeps f" "keeps g" and a: "and_then f g p = Some (ok, p')"
  then obtain ok1 p1 where e: "f p = Some (ok1, p1)" by (auto simp: and_then_def split: bind_splits)
  have "kept p1 p'" using a e by (cases ok1) (auto simp: and_then_def kept_refl dest: keepsD [OF k(2)])
  then show "kept p p'" using keepsD [OF k(1) e] kept_trans by blast
qed

lemma then_skip_keeps: "keeps f \<Longrightarrow> keeps (then_skip f n)"
proof (rule keepsI)
  fix p ok p' assume k: "keeps f" and a: "then_skip f n p = Some (ok, p')"
  then obtain ok1 p1 where e: "f p = Some (ok1, p1)" by (auto simp: then_skip_def split: bind_splits)
  have "kept p1 p'" using a e by (cases ok1) (auto simp: then_skip_def kept_refl skip_kept)
  then show "kept p p'" using keepsD [OF k e] kept_trans by blast
qed

lemma then_update_keeps: "keeps f \<Longrightarrow> keeps (then_update f)"
proof (rule keepsI)
  fix p ok p' assume k: "keeps f" and a: "then_update f p = Some (ok, p')"
  then obtain ok1 p1 where e: "f p = Some (ok1, p1)" by (auto simp: then_update_def split: bind_splits)
  have "kept p1 p'" using a e by (cases ok1) (auto simp: then_update_def kept_refl split: bind_splits dest: update_kept)
  then show "kept p p'" using keepsD [OF k e] kept_trans by blast
qed

lemma deeper_keeps: "keeps f \<Longrightarrow> keeps (deeper h f)"
proof (rule keepsI)
  fix p ok p' assume k: "keeps f" and a: "deeper h f p = Some (ok, p')"
  then obtain ok1 p1 where e: "f p = Some (ok1, p1)" by (auto simp: deeper_def split: bind_splits)
  have "kept p1 p'" using a e by (cases ok1) (auto simp: deeper_def kept_refl skip_kept)
  then show "kept p p'" using keepsD [OF k e] kept_trans by blast
qed

lemma const_keeps: "keeps (\<lambda>p. Some (c, p))"
  by (rule keepsI) (simp add: kept_refl)

lemma choice_keeps: "(\<And>q. keeps (f q)) \<Longrightarrow> keeps (\<lambda>p. f p p)"
  unfolding keeps_def by blast

lemma if_keeps: "keeps f \<Longrightarrow> keeps g \<Longrightarrow> keeps (\<lambda>p. if c p then f p else g p)"
  unfolding keeps_def by simp

text \<open>The same with arguments that depend on the buffer.\<close>

lemma varying_keeps:
  "keeps (\<lambda>p. emit (n p) (bs p) p)"
  "keeps (\<lambda>p. then_skip (emit (n p) (bs p)) (m p) p)"
  "keeps (\<lambda>p. then_skip (deeper h (emit (n p) (bs p))) (m p) p)"
  by (rule choice_keeps; intro then_skip_keeps deeper_keeps emit_keeps)+

lemmas keeps_intros = varying_keeps and_then_keeps then_skip_keeps then_update_keeps deeper_keeps emit_keeps const_keeps if_keeps

lemma number_keeps: "keeps (print_number D d)"
  unfolding keeps_def print_number_def Let_def using keepsD [OF then_skip_keeps [OF emit_keeps]] by simp

lemma string_keeps: "keeps (print_string_ptr s)"
proof (rule keepsI)
  fix p ok p' assume a: "print_string_ptr s p = Some (ok, p')"
  show "kept p p'"
  proof (cases s)
    case None
    then show ?thesis using a keepsD [OF emit_keeps] by (auto simp: print_string_ptr_def)
  next
    case (Some t)
    let ?c = "c_str t"
    obtain ok1 p1 where e: "ensure (length ?c + escape_characters ?c + 3) p = Some (ok1, p1)"
      using a Some by (auto simp: print_string_ptr_def Let_def split: bind_splits)
    have "kept p1 p'" using a Some e
      by (cases ok1; cases "escape_characters ?c = 0")
        (auto simp: print_string_ptr_def Let_def kept_refl split: bind_splits if_splits dest!: store_kept intro: kept_trans)
    then show ?thesis using keepsD [OF ensure_keeps e] kept_trans by blast
  qed
qed

lemma array_text_keeps: "keeps loop \<Longrightarrow> keeps (array_text loop)"
  unfolding array_text_def by (intro keeps_intros)

lemma element_text_keeps: "keeps f \<Longrightarrow> keeps (element_text f goes_on)"
  unfolding element_text_def Let_def by (intro keeps_intros)

lemma object_text_keeps: "keeps loop \<Longrightarrow> keeps (object_text loop)"
  unfolding object_text_def Let_def by (intro keeps_intros)

lemma member_text_keeps: "keeps f \<Longrightarrow> keeps (member_text key f goes_on)"
  unfolding member_text_def Let_def by (intro keeps_intros string_keeps)

lemma value_text_keeps:
  assumes "keeps f" "keeps g"
  shows "keeps (value_text D t s d f g)"
proof -
  have raw: "keeps (\<lambda>p. case s of None \<Rightarrow> Some (False, p) | Some raw \<Rightarrow> emit (length (c_str raw) + 1) (c_str raw @ [0]) p)"
    by (cases s) (simp_all add: const_keeps emit_keeps)
  show ?thesis unfolding value_text_def [abs_def] Let_def
    by (intro if_keeps raw emit_keeps number_keeps string_keeps const_keeps array_text_keeps object_text_keeps assms)
qed

lemma print_value_keeps:
  "keeps (print_value D item)" "keeps (print_array_loop D cs)" "keeps (print_object_loop D cs)"
proof (induction D item and D cs and D cs rule: print_value_print_array_loop_print_object_loop.induct)
  case (1 D cs t s i d n)
  then show ?case by (simp only: print_value.simps) (rule value_text_keeps)
next
  case (3 D c cs)
  then show ?case by (simp only: print_array_loop.simps) (intro and_then_keeps element_text_keeps)
next
  case (5 D c cs)
  then show ?case by (simp only: print_object_loop.simps) (intro and_then_keeps member_text_keeps)
qed (simp_all add: const_keeps)

section \<open>A block of no bytes\<close>

lemma empty_block:
  assumes "cells p = Some []" "pr_length p = 0" "pr_offset p = 0" "noalloc p" "numbers_fit D"
  shows "print_value D item p = Some (False, p)"
proof -
  have e: "ensure n p = Some (False, p) " for n using assms by (simp add: ensure_def Let_def)
  then have m: "emit n bs p = Some (False, p)" for n bs by (simp add: emit_def)
  obtain cs t s i d k where item: "item = Item cs t s i d k" by (cases item)
  have "\<not> length (number_text D d) + 1 > 26" using assms(5) by (simp add: numbers_fit_def not_less)
  then show ?thesis unfolding item print_value.simps value_text_def Let_def
    by (simp add: m e print_number_def then_skip_def print_string_ptr_def array_text_def and_then_def deeper_def
        object_text_def Let_def split: option.split)
qed

section \<open>Entry points\<close>

lemma wrote_text:
  assumes "wrote p 0 n (w @ [0]) p1" "pr_offset p = 0" "good p"
  shows "\<exists>c. cells p1 = Some c \<and> length c = pr_length p1 \<and> length w < length c \<and> take (length w + 1) c = map Some w @ [Some 0]"
  using assms by (auto simp: wrote_def)

lemma cells_text_of: "0 \<notin> set w \<Longrightarrow> take (length w + 1) c = map Some w @ [Some 0] \<Longrightarrow> cells_text c = Some w"
proof -
  assume a: "0 \<notin> set w" "take (length w + 1) c = map Some w @ [Some 0]"
  then have c: "c = map Some w @ Some 0 # drop (length w + 1) c"
    using append_take_drop_id [of "length w + 1" c] by simp
  then have "strlen_cells c = Some (length w)" using strlen_cells_text [OF a(1)] by metis
  moreover have "take (length w) c = map Some w" using arg_cong [OF c, of "take (length w)"] by simp
  ultimately show ?thesis by (simp add: cells_text_def comp_def)
qed

lemma print_text_renders:
  assumes "numbers_fit D"
  shows "\<exists>r. print_text D alloc realloc fmt item = Some r \<and> (r = None \<or> r = render D fmt 0 item) \<and>
    ((\<forall>n. alloc n) \<and> render D fmt 0 item = Some w \<and> int (length w) + 2 \<le> INT_MAX \<longrightarrow> r = Some w)"
proof (cases "alloc 256")
  case False
  then show ?thesis by (auto simp: print_text_def)
next
  case True
  let ?p = "new_printbuffer 256 False fmt alloc realloc"
  have g: "good ?p" by (simp add: good_def new_printbuffer_def fresh_cells_def)
  have p: "pr_offset ?p = 0" "pr_depth ?p = 0" "pr_format ?p = fmt" by (simp_all add: new_printbuffer_def)
  obtain ok p1 where 1: "print_value D item ?p = Some (ok, p1)"
      "ok \<longrightarrow> (\<exists>w n. render D fmt 0 item = Some w \<and> n \<le> length w \<and> wrote ?p 0 n (w @ [0]) p1)"
      "\<forall>w. render D fmt 0 item = Some w \<and> fits ?p (length w) \<longrightarrow> ok"
    using print_value_prints(1) [OF assms g, of item] p by (auto simp: prints_value_def)
  have fit: "(\<forall>n. alloc n) \<and> int (length w) + 2 \<le> INT_MAX \<Longrightarrow> fits ?p (length w)" for w
    by (simp add: fits_def new_printbuffer_def)
  show ?thesis
  proof (cases ok)
    case False
    then show ?thesis using True 1(1,3) fit by (auto simp: print_text_def)
  next
    case ok: True
    then obtain w' n where w: "render D fmt 0 item = Some w'" "n \<le> length w'" "wrote ?p 0 n (w' @ [0]) p1"
      using 1(2) by blast
    have nz: "0 \<notin> set w'" using render_nonzero(1) [OF assms, of fmt 0 item] w(1) by (simp add: nonzero_def)
    obtain p2 where p2: "update_offset p1 = Some p2" "wrote ?p 0 (length w') w' p2" using update_wrote [OF w(3,2) nz g] by blast
    obtain c where c: "cells p1 = Some c" "take (length w' + 1) c = map Some w' @ [Some 0]"
      using wrote_text [OF w(3) p(1) g] by blast
    have "cells p2 = Some c" "pr_offset p2 = length w'"
      using p2 c(1) p(1) by (auto simp: update_offset_def skip_bytes_def wrote_def split: option.splits)
    moreover have "cells_text (take (length w' + 1) c) = Some w'" by (rule cells_text_of [OF nz]) (use c(2) in simp)
    ultimately show ?thesis using True 1(1) ok p2(1) w(1) by (auto simp: print_text_def)
  qed
qed

lemma print_preallocated_renders:
  assumes "numbers_fit D"
  shows "\<exists>ok c. cJSON_PrintPreallocated D item buf fmt = Some (ok, c) \<and> length c = length buf \<and>
    (ok \<longrightarrow> (\<exists>w. render D fmt 0 item = Some w \<and> length w < length buf \<and> take (length w + 1) c = map Some w @ [Some 0]))"
proof -
  let ?p = "(new_printbuffer (length buf) True fmt (\<lambda>n. False) False)\<lparr>cells := Some buf\<rparr>"
  have p: "pr_offset ?p = 0" "pr_depth ?p = 0" "pr_format ?p = fmt" "noalloc ?p" "cells ?p = Some buf" "pr_length ?p = length buf"
    by (simp_all add: new_printbuffer_def)
  show ?thesis
  proof (cases "buf = []")
    case True
    then have "print_value D item ?p = Some (False, ?p)" using empty_block [OF _ _ p(1,4) assms] p by simp
    then show ?thesis using True by (intro exI [of _ False] exI [of _ buf]) (simp add: cJSON_PrintPreallocated_def)
  next
    case False
    then have g: "good ?p" using p by (simp add: good_def)
    obtain ok p1 where 1: "print_value D item ?p = Some (ok, p1)"
        "ok \<longrightarrow> (\<exists>w n. render D fmt 0 item = Some w \<and> n \<le> length w \<and> wrote ?p 0 n (w @ [0]) p1)"
      using print_value_prints(1) [OF assms g, of item] p by (auto simp: prints_value_def)
    have "map_option length (cells p1) = Some (length buf)"
      using keepsD [OF print_value_keeps(1) 1(1)] p(4,5) by (simp add: kept_def)
    then obtain c where c: "cells p1 = Some c" "length c = length buf" by auto
    have "ok \<longrightarrow> (\<exists>w. render D fmt 0 item = Some w \<and> length w < length buf \<and> take (length w + 1) c = map Some w @ [Some 0])"
      using 1(2) c wrote_text [OF _ p(1) g] by fastforce
    then show ?thesis using 1(1) c by (simp add: cJSON_PrintPreallocated_def)
  qed
qed

end
