(* ===== verification/Json_Minify.thy ===== *)
theory Json_Minify
  imports Json_Types
begin

text \<open>
  \<open>cJSON_Minify\<close> in \<open>src/lib/cJSON.c\<close>. The text and what may lie behind it are one block, in which
  \<open>into\<close> and \<open>json\<close> are positions; the text ends at the first NUL from \<open>json\<close> on.
\<close>

text \<open>\<open>*into++ = *json++\<close>, without the increments.\<close>

definition copy_byte :: "bytes \<Rightarrow> nat \<Rightarrow> nat \<Rightarrow> bytes option" where
  "copy_byte mem into json = do { c \<leftarrow> byte_at mem json; if into < length mem then Some (mem[into := c]) else None }"

lemma copy_byte_length: "copy_byte mem into json = Some m \<Longrightarrow> length m = length mem \<and> json < length mem"
  by (auto simp: copy_byte_def byte_at_def bind_eq_Some_conv split: if_splits)

text \<open>A comment to the end of the line, and one that ends with \<open>*/\<close>: where the loop stops.\<close>

function line_comment :: "bytes \<Rightarrow> nat \<Rightarrow> nat option" where
  "line_comment mem json = do {
     c \<leftarrow> byte_at mem json;
     if c = 0 \<or> c = 0x0A then Some json else line_comment mem (json + 1)
   }"
  by auto
termination by (relation "measure (\<lambda>(mem, j). length mem - j)") (auto simp: byte_at_def split: if_splits)

function block_comment :: "bytes \<Rightarrow> nat \<Rightarrow> nat option" where
  "block_comment mem json = do {
     c \<leftarrow> byte_at mem json;
     if c = 0 then Some json
     else if c = 0x2A then do {
       d \<leftarrow> byte_at mem (json + 1);
       if d = 0x2F then Some json else block_comment mem (json + 1)
     }
     else block_comment mem (json + 1)
   }"
  by auto
termination by (relation "measure (\<lambda>(mem, j). length mem - j)") (auto simp: byte_at_def split: if_splits)

text \<open>The inner loop of a string: the block, and both positions, where it stops.\<close>

function string_bytes :: "bytes \<Rightarrow> nat \<Rightarrow> nat \<Rightarrow> (bytes \<times> nat \<times> nat) option" where
  "string_bytes mem into json = do {
     c \<leftarrow> byte_at mem json;
     if c = 0 \<or> c = QUOT then Some (mem, into, json)
     else if c = BACKSLASH then do {
       m \<leftarrow> copy_byte mem into json;
       m \<leftarrow> copy_byte m (into + 1) (json + 1);
       string_bytes m (into + 2) (json + 2)
     }
     else do { m \<leftarrow> copy_byte mem into json; string_bytes m (into + 1) (json + 1) }
   }"
  by auto
termination
  by (relation "measure (\<lambda>(mem, i, j). length mem - j)") (auto simp: byte_at_def split: if_splits dest!: copy_byte_length)

declare line_comment.simps [simp del] block_comment.simps [simp del] string_bytes.simps [simp del]

lemma comment_forward:
  "line_comment mem json = Some j \<Longrightarrow> json \<le> j" "block_comment mem json = Some j \<Longrightarrow> json \<le> j"
proof -
  show "line_comment mem json = Some j \<Longrightarrow> json \<le> j"
    by (induction mem json rule: line_comment.induct) (subst (asm) (2) line_comment.simps, fastforce simp: bind_eq_Some_conv split: if_splits)
  show "block_comment mem json = Some j \<Longrightarrow> json \<le> j"
    by (induction mem json rule: block_comment.induct) (subst (asm) (3) block_comment.simps, fastforce simp: bind_eq_Some_conv split: if_splits)
qed

lemma string_forward: "string_bytes mem into json = Some (m, i, j) \<Longrightarrow> length m = length mem \<and> json \<le> j"
proof (induction mem into json rule: string_bytes.induct)
  case (1 mem into json)
  have "do {
     c \<leftarrow> byte_at mem json;
     if c = 0 \<or> c = QUOT then Some (mem, into, json)
     else if c = BACKSLASH then do {
       m \<leftarrow> copy_byte mem into json;
       m \<leftarrow> copy_byte m (into + 1) (json + 1);
       string_bytes m (into + 2) (json + 2)
     }
     else do { m \<leftarrow> copy_byte mem into json; string_bytes m (into + 1) (json + 1) }
   } = Some (m, i, j)"
    using "1.prems" by (subst (asm) string_bytes.simps)
  with "1.IH" [simplified] show ?case
    by (auto simp: bind_eq_Some_conv split: if_splits) (fastforce dest: copy_byte_length)+
qed

text \<open>The string at \<open>json\<close> with its quotes: both bytes around the loop are copied.\<close>

definition string_literal :: "bytes \<Rightarrow> nat \<Rightarrow> nat \<Rightarrow> (bytes \<times> nat \<times> nat) option" where
  "string_literal mem into json = do {
     m \<leftarrow> copy_byte mem into json;
     (m, i, j) \<leftarrow> string_bytes m (into + 1) (json + 1);
     m \<leftarrow> copy_byte m i j;
     Some (m, i + 1, j + 1)
   }"

text \<open>
  A byte that opens a comment: the position behind the comment. A comment that is not closed ends
  two bytes behind its NUL.
\<close>

definition comment_end :: "bytes \<Rightarrow> nat \<Rightarrow> nat option option" where
  "comment_end mem json = do {
     d \<leftarrow> byte_at mem (json + 1);
     if d = 0x2F then map_option (\<lambda>j. Some j) (line_comment mem json)
     else if d = 0x2A then map_option (\<lambda>j. Some (j + 2)) (block_comment mem json)
     else Some None
   }"

text \<open>One pass of the outer loop, at a byte \<open>c\<close> that is not NUL.\<close>

definition minify_step :: "bytes \<Rightarrow> nat \<Rightarrow> nat \<Rightarrow> byte \<Rightarrow> (bytes \<times> nat \<times> nat) option" where
  "minify_step mem into json c =
     (if c \<in> {0x20, 0x09, 0x0D, 0x0A} then Some (mem, into, json + 1)
      else do {
        comment \<leftarrow> (if c = 0x2F then comment_end mem json else Some None);
        case comment of
          Some j \<Rightarrow> Some (mem, into, j)
        | None \<Rightarrow>
            if c = QUOT then string_literal mem into json
            else do { m \<leftarrow> copy_byte mem into json; Some (m, into + 1, json + 1) }
      })"

lemma line_comment_gt:
  assumes "byte_at mem json = Some 0x2F" "line_comment mem json = Some j"
  shows "json < j"
  using assms comment_forward(1) [of mem "json + 1" j] by (subst (asm) line_comment.simps) simp

lemma minify_step_forward:
  assumes "minify_step mem into json c = Some (m, i, j)" "byte_at mem json = Some c"
  shows "length m = length mem \<and> json < j"
proof -
  have "length m = length mem \<and> json < j" if "string_literal mem into json = Some (m, i, j)"
    using that by (auto simp: string_literal_def bind_eq_Some_conv dest!: string_forward copy_byte_length)
  then show ?thesis
    using assms
    by (auto simp: minify_step_def comment_end_def bind_eq_Some_conv split: if_splits option.splits
        dest: copy_byte_length comment_forward(2) line_comment_gt)
qed

function minify_loop :: "bytes \<Rightarrow> nat \<Rightarrow> nat \<Rightarrow> bytes option" where
  "minify_loop mem into json = do {
     c \<leftarrow> byte_at mem json;
     if c = 0 then (if into < length mem then Some (mem[into := 0]) else None)
     else Option.bind (minify_step mem into json c) (\<lambda>(m, i, j). minify_loop m i j)
   }"
  by auto
termination
proof (relation "measure (\<lambda>(mem, i, j). length mem - j)", goal_cases)
  case (2 mem into json c s m ij i j)
  then show ?case using minify_step_forward [of mem into json c m i j]
    by (auto simp: byte_at_def split: if_splits)
qed simp

declare minify_loop.simps [simp del]

definition cJSON_Minify :: "bytes option \<Rightarrow> bytes option option" where
  "cJSON_Minify json = (case json of None \<Rightarrow> Some None | Some mem \<Rightarrow> map_option Some (minify_loop mem 0 0))"

end
