(* ===== verification/Json_Minify_Spec.thy ===== *)
theory Json_Minify_Spec
  imports Json_Minify Json_Print_Spec
begin

text \<open>
  \<open>cJSON_Minify\<close> works in place: behind what is kept already there is a gap, then the text that is
  left. What it does with a piece of the text does not depend on the rest, so the pieces that a printed
  item consists of can be taken one after the other.
\<close>

section \<open>Working in place\<close>

text \<open>The loop \<open>f\<close> replaces the piece \<open>w\<close>, at whatever place, by \<open>v\<close>.\<close>

definition turns :: "(bytes \<Rightarrow> nat \<Rightarrow> nat \<Rightarrow> 'a) \<Rightarrow> bytes \<Rightarrow> bytes \<Rightarrow> bool" where
  "turns f w v \<longleftrightarrow> (\<forall>d g r. \<exists>g'. length (v @ g') = length (g @ w) \<and>
     f (d @ g @ w @ r) (length d) (length d + length g) = f (d @ v @ g' @ r) (length d + length v) (length d + length g + length w))"

lemma moves_Nil: "turns f [] []"
  by (simp add: turns_def) blast

lemma moves_append:
  assumes "turns f w1 v1" "turns f w2 v2"
  shows "turns f (w1 @ w2) (v1 @ v2)"
  unfolding turns_def
proof (intro allI)
  fix d g r
  obtain g1 where g1: "length (v1 @ g1) = length (g @ w1)"
    "f (d @ g @ w1 @ w2 @ r) (length d) (length d + length g) =
     f (d @ v1 @ g1 @ w2 @ r) (length d + length v1) (length d + length g + length w1)"
    using assms(1) unfolding turns_def by blast
  obtain g2 where g2: "length (v2 @ g2) = length (g1 @ w2)"
    "f ((d @ v1) @ g1 @ w2 @ r) (length (d @ v1)) (length (d @ v1) + length g1) =
     f ((d @ v1) @ v2 @ g2 @ r) (length (d @ v1) + length v2) (length (d @ v1) + length g1 + length w2)"
    using assms(2) unfolding turns_def by blast
  have n: "length (d @ v1) + length g1 = length d + length g + length w1" using g1(1) by simp
  have "f (d @ g @ w1 @ w2 @ r) (length d) (length d + length g) =
     f (d @ v1 @ v2 @ g2 @ r) (length d + length v1 + length v2) (length d + length g + length w1 + length w2)"
    using g1(2) g2(2) unfolding n by simp
  then show "\<exists>g'. length ((v1 @ v2) @ g') = length (g @ w1 @ w2) \<and>
     f (d @ g @ (w1 @ w2) @ r) (length d) (length d + length g) =
     f (d @ (v1 @ v2) @ g' @ r) (length d + length (v1 @ v2)) (length d + length g + length (w1 @ w2))"
    using g1(1) g2(1) by (intro exI [of _ g2]) (simp add: add.assoc)
qed

lemma moves_Cons: "turns f [c] v1 \<Longrightarrow> turns f w v \<Longrightarrow> turns f (c # w) (v1 @ v)"
  using moves_append [of f "[c]"] by simp

lemma byte_at_middle [simp]: "byte_at (d @ g @ c # r) (length d + length g) = Some c"
  by (simp add: byte_at_def nth_append)

lemma byte_at_second [simp]: "byte_at (d @ g @ c # x # r) (Suc (length d + length g)) = Some x"
  using byte_at_middle [of d "g @ [c]" x r] by simp

lemma copy_byte_middle: "copy_byte (d @ g @ c # r) (length d) (length d + length g) = Some (d @ c # tl (g @ [c]) @ r)"
  using byte_at_middle [of d g c r] by (cases g) (simp_all add: copy_byte_def)

lemma length_gap [simp]: "length (tl (g @ [c])) = length g"
  by (cases g) simp_all

text \<open>Another byte is copied behind the first one.\<close>

lemma copy_byte_next:
  "copy_byte (d @ c # tl (g @ [c]) @ x # r) (Suc (length d)) (Suc (length d + length g)) =
     Some (d @ c # x # tl (tl (g @ [c]) @ [x]) @ r)"
  using copy_byte_middle [of "d @ [c]" "tl (g @ [c])" x r] by simp

section \<open>Strings\<close>

lemma string_byte:
  assumes "c \<noteq> 0" "c \<noteq> QUOT" "c \<noteq> BACKSLASH"
  shows "turns string_bytes [c] [c]"
  unfolding turns_def
proof (intro allI)
  fix d g r
  have "string_bytes (d @ g @ c # r) (length d) (length d + length g) =
      string_bytes (d @ c # tl (g @ [c]) @ r) (length d + 1) (length d + length g + 1)"
    using assms copy_byte_middle [of d g c r] by (subst string_bytes.simps) simp
  then show "\<exists>g'. length ([c] @ g') = length (g @ [c]) \<and>
     string_bytes (d @ g @ [c] @ r) (length d) (length d + length g) =
     string_bytes (d @ [c] @ g' @ r) (length d + length [c]) (length d + length g + length [c])"
    by (intro exI [of _ "tl (g @ [c])"]) simp
qed

lemma string_escape: "turns string_bytes [BACKSLASH, x] [BACKSLASH, x]"
  unfolding turns_def
proof (intro allI)
  fix d g :: bytes and r
  let ?g = "tl (tl (g @ [BACKSLASH]) @ [x])"
  have "string_bytes (d @ g @ BACKSLASH # x # r) (length d) (length d + length g) =
      string_bytes (d @ BACKSLASH # x # ?g @ r) (length d + 2) (length d + length g + 2)"
    using copy_byte_middle [of d g BACKSLASH "x # r"] copy_byte_next [of d BACKSLASH g x r]
    by (subst string_bytes.simps) simp
  then show "\<exists>g'. length ([BACKSLASH, x] @ g') = length (g @ [BACKSLASH, x]) \<and>
     string_bytes (d @ g @ [BACKSLASH, x] @ r) (length d) (length d + length g) =
     string_bytes (d @ [BACKSLASH, x] @ g' @ r) (length d + length [BACKSLASH, x]) (length d + length g + length [BACKSLASH, x])"
    by (intro exI [of _ ?g]) simp
qed

lemma hex_char_copied: "n \<le> 0xF \<Longrightarrow> turns string_bytes [hex_char n] [hex_char n]"
proof (rule string_byte)
  assume n: "n \<le> 0xF"
  then show "hex_char n \<noteq> 0" by (rule hex_char_nonzero)
  have "unat n \<le> 15" using n by (simp add: word_le_nat_alt)
  then have "unat (hex_char n) = (if n < 10 then 0x30 else 0x57) + unat n"
    by (simp add: hex_char_def unat_word_ariths)
  then show "hex_char n \<noteq> QUOT" "hex_char n \<noteq> BACKSLASH"
    using \<open>unat n \<le> 15\<close> by (auto simp: word_unat_eq_iff word_less_nat_alt split: if_splits)
qed

lemma escaped_byte: "c \<noteq> 0 \<Longrightarrow> turns string_bytes (escape_byte c) (escape_byte c)"
proof -
  assume c: "c \<noteq> 0"
  have u: "turns string_bytes [BACKSLASH, 0x75, 0x30, 0x30, hex_char (drop_bit 4 c), hex_char (c AND 0x0F)]
      [BACKSLASH, 0x75, 0x30, 0x30, hex_char (drop_bit 4 c), hex_char (c AND 0x0F)]"
  proof -
    let ?h = "[hex_char (drop_bit 4 c)]" let ?l = "[hex_char (c AND 0x0F)]"
    have "turns string_bytes [0x30] [0x30]" by (rule string_byte) simp_all
    then have "turns string_bytes ([0x30] @ [0x30] @ ?h @ ?l) ([0x30] @ [0x30] @ ?h @ ?l)"
      by (intro moves_append hex_char_copied nibbles)
    from moves_append [OF string_escape [of "0x75"] this] show ?thesis by simp
  qed
  show ?thesis using c u string_byte [of c] string_escape by (auto simp: escape_byte_def)
qed

lemma escaped_loop: "0 \<notin> set s \<Longrightarrow> turns string_bytes (escape_loop s) (escape_loop s)"
  by (induction s) (simp_all add: moves_Nil moves_append escaped_byte)

lemma quoted_turns:
  assumes "turns string_bytes w w"
  shows "turns minify_loop (QUOT # w @ [QUOT]) (QUOT # w @ [QUOT])"
  unfolding turns_def
proof (intro allI)
  fix d g r
  obtain g1 where g1: "length (w @ g1) = length (tl (g @ [QUOT]) @ w)"
    "string_bytes ((d @ [QUOT]) @ tl (g @ [QUOT]) @ w @ QUOT # r) (length (d @ [QUOT])) (length (d @ [QUOT]) + length (tl (g @ [QUOT]))) =
     string_bytes ((d @ [QUOT]) @ w @ g1 @ QUOT # r) (length (d @ [QUOT]) + length w)
       (length (d @ [QUOT]) + length (tl (g @ [QUOT])) + length w)"
    using assms unfolding turns_def by blast
  have l: "length g1 = length g" using g1(1) by simp
  let ?m = "d @ QUOT # w @ g1 @ QUOT # r" let ?i = "Suc (length d + length w)" let ?j = "Suc (length d + length w) + length g"
  have at: "byte_at ?m ?j = Some QUOT" using byte_at_middle [of "d @ QUOT # w" g1 QUOT r] l by simp
  have inner: "string_bytes (d @ QUOT # tl (g @ [QUOT]) @ w @ QUOT # r) (Suc (length d)) (Suc (length d + length g)) = Some (?m, ?i, ?j)"
    using g1(2) at l by (subst (asm) (2) string_bytes.simps) (simp add: add_ac)
  have "copy_byte ?m ?i ?j = Some (d @ QUOT # w @ QUOT # tl (g1 @ [QUOT]) @ r)"
    using copy_byte_middle [of "d @ QUOT # w" g1 QUOT r] l by simp
  then have "string_literal (d @ g @ QUOT # w @ QUOT # r) (length d) (length d + length g) =
      Some (d @ QUOT # w @ QUOT # tl (g1 @ [QUOT]) @ r, Suc ?i, Suc ?j)"
    using copy_byte_middle [of d g QUOT "w @ QUOT # r"] inner by (simp add: string_literal_def)
  then have "minify_loop (d @ g @ QUOT # w @ QUOT # r) (length d) (length d + length g) =
      minify_loop (d @ QUOT # w @ QUOT # tl (g1 @ [QUOT]) @ r) (Suc ?i) (Suc ?j)"
    by (subst minify_loop.simps) (simp add: minify_step_def)
  then show "\<exists>g'. length ((QUOT # w @ [QUOT]) @ g') = length (g @ QUOT # w @ [QUOT]) \<and>
     minify_loop (d @ g @ (QUOT # w @ [QUOT]) @ r) (length d) (length d + length g) =
     minify_loop (d @ (QUOT # w @ [QUOT]) @ g' @ r) (length d + length (QUOT # w @ [QUOT])) (length d + length g + length (QUOT # w @ [QUOT]))"
    using l by (intro exI [of _ "tl (g1 @ [QUOT])"]) (simp add: add_ac)
qed

lemma string_render_moves: "turns minify_loop (string_render s) (string_render s)"
  using quoted_turns [OF moves_Nil] quoted_turns [OF escaped_loop [OF c_str_nonzero]]
  by (cases s) (simp_all add: string_render_def)

section \<open>Items\<close>

definition plain_char :: "byte \<Rightarrow> bool" where
  "plain_char c \<longleftrightarrow> c \<notin> {0, 0x20, 0x09, 0x0D, 0x0A, 0x2F, QUOT}"

lemma plain_moves: "plain_char c \<Longrightarrow> turns minify_loop [c] [c]"
  unfolding turns_def
proof (intro allI)
  fix d g r
  assume "plain_char c"
  then have "minify_loop (d @ g @ c # r) (length d) (length d + length g) =
      minify_loop (d @ c # tl (g @ [c]) @ r) (length d + 1) (length d + length g + 1)"
    using copy_byte_middle [of d g c r] by (subst minify_loop.simps) (simp add: minify_step_def plain_char_def)
  then show "\<exists>g'. length ([c] @ g') = length (g @ [c]) \<and>
     minify_loop (d @ g @ [c] @ r) (length d) (length d + length g) =
     minify_loop (d @ [c] @ g' @ r) (length d + length [c]) (length d + length g + length [c])"
    by (intro exI [of _ "tl (g @ [c])"]) simp
qed

lemma blank_moves: "c \<in> {0x20, 0x09, 0x0D, 0x0A} \<Longrightarrow> turns minify_loop [c] []"
  unfolding turns_def
proof (intro allI)
  fix d g r
  assume "c \<in> {0x20, 0x09, 0x0D, 0x0A}"
  then have "minify_loop (d @ g @ c # r) (length d) (length d + length g) =
      minify_loop (d @ g @ c # r) (length d) (length d + length g + 1)"
    by (subst minify_loop.simps) (auto simp: minify_step_def)
  then show "\<exists>g'. length ([] @ g') = length (g @ [c]) \<and>
     minify_loop (d @ g @ [c] @ r) (length d) (length d + length g) =
     minify_loop (d @ [] @ g' @ r) (length d + length ([] :: bytes)) (length d + length g + length [c])"
    by (intro exI [of _ "g @ [c]"]) simp
qed

lemma plain_text: "(\<And>c. c \<in> set w \<Longrightarrow> plain_char c) \<Longrightarrow> turns minify_loop w w"
proof (induction w)
  case (Cons c w)
  then have "turns minify_loop ([c] @ w) ([c] @ w)" by (intro moves_append plain_moves) simp_all
  then show ?case by simp
qed (rule moves_Nil)

lemma blank_text: "set w \<subseteq> {0x20, 0x09, 0x0D, 0x0A} \<Longrightarrow> turns minify_loop w []"
proof (induction w)
  case (Cons c w)
  then have "turns minify_loop ([c] @ w) ([] @ [])" by (intro moves_append blank_moves) simp_all
  then show ?case by simp
qed (rule moves_Nil)

lemma words_plain: "c \<in> set (lit ''null'') \<Longrightarrow> plain_char c" "c \<in> set (lit ''false'') \<Longrightarrow> plain_char c"
  "c \<in> set (lit ''true'') \<Longrightarrow> plain_char c"
  by (auto simp: lit_def plain_char_def)

text \<open>The text of every number is without white space, quotes and slashes, as \<open>%1.15g\<close> writes it.\<close>

definition numbers_plain :: "'n doubles \<Rightarrow> bool" where
  "numbers_plain D \<longleftrightarrow> (\<forall>x. \<forall>c \<in> set (number_text D x). plain_char c)"

text \<open>No \<open>cJSON_Raw\<close>, whose text is printed as it is.\<close>

fun raw_free :: "'n cJSON \<Rightarrow> bool" where
  "raw_free (Item cs t s i x n) \<longleftrightarrow> t AND 0xFF \<noteq> cJSON_Raw \<and> (\<forall>c \<in> set cs. raw_free c)"

text \<open>Whatever the printer writes, formatted or not, becomes the unformatted text.\<close>

definition minifies :: "bytes option \<Rightarrow> bytes option \<Rightarrow> bool" where
  "minifies x y \<longleftrightarrow> (\<forall>w. x = Some w \<longrightarrow> (\<exists>v. y = Some v \<and> turns minify_loop w v))"

lemma minifies_Some [simp]: "minifies (Some w) (Some v) \<longleftrightarrow> turns minify_loop w v"
  by (simp add: minifies_def)

lemma minifies_None [simp]: "minifies None y"
  by (simp add: minifies_def)

lemma minifies_append: "minifies x y \<Longrightarrow> minifies x' y' \<Longrightarrow> minifies (append_text x x') (append_text y y')"
  by (cases x; cases x') (auto simp: minifies_def append_text_def moves_append)

lemma plain_separators: "plain_char 0x2C" "plain_char 0x3A" "plain_char 0x5B" "plain_char 0x5D" "plain_char 0x7B" "plain_char 0x7D"
  by (simp_all add: plain_char_def)

lemma blank_if: "turns minify_loop (if_text fmt [0x20]) []" "turns minify_loop (if_text fmt [0x09]) []"
  "turns minify_loop (if_text fmt [0x0A]) []" "turns minify_loop (if_text fmt (tabs n)) []"
  by (rule blank_text, auto simp: if_text_def tabs_def split: if_splits)+

lemma separator_moves: "plain_char c \<Longrightarrow> turns minify_loop w [] \<Longrightarrow> turns minify_loop (c # w) [c]"
  using moves_append [OF plain_moves, of c w "[]"] by simp

lemma moves_if: "turns minify_loop w v \<Longrightarrow> turns minify_loop (if_text c w) (if_text c v)"
  by (simp add: if_text_def moves_Nil)

lemma minifies_array: "minifies x y \<Longrightarrow> minifies (array_render x) (array_render y)"
proof -
  assume "minifies x y"
  then have "minifies (append_text (Some [0x5B]) (append_text x (Some [0x5D]))) (append_text (Some [0x5B]) (append_text y (Some [0x5D])))"
    by (intro minifies_append) (simp_all add: plain_moves plain_separators)
  then show ?thesis by (cases x; cases y) (simp_all add: array_render_def append_text_def minifies_def)
qed

lemma minifies_object: "minifies x y \<Longrightarrow> minifies (object_render fmt d x) (object_render False d y)"
proof -
  assume "minifies x y"
  moreover have "turns minify_loop (if_text fmt (tabs d) @ [0x7D]) ([] @ [0x7D])"
    by (intro moves_append blank_if plain_moves plain_separators)
  ultimately have "minifies
    (append_text (Some (0x7B # if_text fmt [0x0A])) (append_text x (Some (if_text fmt (tabs d) @ [0x7D]))))
    (append_text (Some [0x7B]) (append_text y (Some [0x7D])))"
    by (intro minifies_append) (simp_all add: separator_moves blank_if plain_separators)
  then show ?thesis by (cases x; cases y) (simp_all add: object_render_def append_text_def minifies_def if_text_def)
qed

lemma minifies_value:
  assumes "numbers_plain D" "t AND 0xFF \<noteq> cJSON_Raw" "minifies arr arr'" "minifies obj obj'"
  shows "minifies (value_render D t s x arr obj) (value_render D t s x arr' obj')"
  using assms plain_text [OF words_plain(1)] plain_text [OF words_plain(2)] plain_text [OF words_plain(3)]
    plain_text [of "number_text D x"] string_render_moves
  by (auto simp: value_render_def numbers_plain_def Let_def)

lemma render_minifies:
  "numbers_plain D \<Longrightarrow> raw_free item \<Longrightarrow> minifies (render D fmt d item) (render D False d item)"
  "numbers_plain D \<Longrightarrow> \<forall>c \<in> set cs. raw_free c \<Longrightarrow> minifies (render_elements D fmt d cs) (render_elements D False d cs)"
  "numbers_plain D \<Longrightarrow> \<forall>c \<in> set cs. raw_free c \<Longrightarrow> minifies (render_members D fmt d cs) (render_members D False d cs)"
proof (induction D fmt d item and D fmt d cs and D fmt d cs rule: render_render_elements_render_members.induct)
  case (1 D fmt d cs t s i x n)
  then show ?case by (simp add: minifies_value minifies_array minifies_object)
next
  case (3 D fmt d c cs)
  have "turns minify_loop (if_text (cs \<noteq> []) (0x2C # if_text fmt [0x20])) (if_text (cs \<noteq> []) (0x2C # if_text False [0x20]))"
    by (intro moves_if) (simp add: if_text_def separator_moves plain_moves plain_separators blank_moves)
  with 3 show ?case by (simp add: minifies_append)
next
  case (5 D fmt d c cs)
  have "turns minify_loop (if_text fmt (tabs d)) (if_text False (tabs d))"
    and "turns minify_loop (0x3A # if_text fmt [0x09]) (0x3A # if_text False [0x09])"
    by (simp_all add: if_text_def [of False] separator_moves plain_separators blank_if)
  moreover have "turns minify_loop (if_text (cs \<noteq> []) [0x2C] @ if_text fmt [0x0A]) (if_text (cs \<noteq> []) [0x2C] @ if_text False [0x0A])"
    by (intro moves_append moves_if plain_moves plain_separators) (simp add: if_text_def [of False] blank_if)
  ultimately show ?case using 5 by (simp add: minifies_append string_render_moves)
qed (simp_all add: moves_Nil)

lemma minify_moved:
  assumes "turns minify_loop w v"
  shows "\<exists>t. cJSON_Minify (Some (w @ 0 # junk)) = Some (Some (v @ 0 # t @ junk)) \<and> length (v @ t) = length w"
proof -
  obtain g where g: "length (v @ g) = length w" "minify_loop (w @ 0 # junk) 0 0 = minify_loop (v @ g @ 0 # junk) (length v) (length w)"
    using assms [unfolded turns_def, rule_format, of "[]" "[]" "0 # junk"] by auto
  have "byte_at (v @ g @ 0 # junk) (length v + length g) = Some 0" by simp
  then have "byte_at (v @ g @ 0 # junk) (length w) = Some 0" using g(1) by (metis length_append)
  then have "minify_loop (v @ g @ 0 # junk) (length v) (length w) = Some ((v @ g @ 0 # junk)[length v := 0])"
    by (subst minify_loop.simps) simp
  also have "(v @ g @ 0 # junk)[length v := 0] = v @ 0 # tl (g @ [0]) @ junk" by (cases g) simp_all
  finally show ?thesis using g by (intro exI [of _ "tl (g @ [0])"]) (simp add: cJSON_Minify_def)
qed

end
