(* ===== verification/Json_Properties.thy ===== *)
theory Json_Properties
  imports Json_Shape Json_Print_Entry Json_Minify_Spec
begin

text \<open>
  The properties of the JSON parser and printer. Numbers are parameters; \<open>digit_doubles\<close>, numbers of one
  decimal digit, shows that their laws can hold.
\<close>

section \<open>Numbers of one digit\<close>


lemma digit_text: "number_text digit_doubles x = [0x30 + of_nat (x mod 10)]"
  by (simp add: number_text_def digit_doubles_def Let_def split: prod.split)

lemma digit_range: "unat (0x30 + of_nat (x mod 10) :: byte) = 0x30 + x mod 10"
proof -
  have "x mod 10 < 10" by simp
  then show ?thesis by (simp add: unat_word_ariths unat_of_nat)
qed

lemma digit_doubles_fit: "numbers_fit digit_doubles"
proof -
  have "(0x30 + of_nat (x mod 10) :: byte) \<noteq> 0" for x
    using digit_range [of x] by (metis add_is_0 unat_0 zero_neq_numeral)
  then show ?thesis by (simp add: numbers_fit_def digit_text)
qed

lemma digit_number: "number_returns digit_doubles 7"
  by (simp add: number_returns_def digit_text) (simp add: digit_doubles_def number_char_def lit_def)

section \<open>Parsing\<close>







text \<open>C24: whatever text is parsed, an item that is returned is well formed: it has no name, only the fields of its
  type are set, an integer field is the saturated number, the elements of arrays have no name and the
  members of objects have one, and containers are nested at most \<open>CJSON_NESTING_LIMIT\<close> deep.\<close>

theorem json_parse_shaped:
  assumes "cJSON_ParseWithOpts D alloc v req = Some r" "jr_item r = Some item"
  shows "shaped D CJSON_NESTING_LIMIT item \<and> jname item = None"
  using assms by (rule parse_shaped)

text \<open>The array of the number 7, and its text.\<close>

definition seven :: "nat cJSON" where
  "seven = Item [Item [] cJSON_Number None 7 7 None] cJSON_Array None 0 0 None"

lemma seven_facts:
  "canonical digit_doubles CJSON_NESTING_LIMIT seven" "jname seven = None"
  "render digit_doubles fmt 0 seven = Some [0x5B, 0x37, 0x5D]"
proof -
  have "saturate digit_doubles 7 = 7" by (simp add: saturate_def digit_doubles_def INT_MAX_def INT_MIN_def)
  then have "canonical digit_doubles 999 (Item [] cJSON_Number None 7 7 None)"
    using canonical_number [OF digit_number, of 999 None] by simp
  then have "canonical digit_doubles (Suc 999) (Item [Item [] cJSON_Number None 7 7 None] cJSON_Array None 0 (dbl_zero digit_doubles) None)"
    by (intro canonical_array) simp
  then show "canonical digit_doubles CJSON_NESTING_LIMIT seven"
    by (simp add: seven_def CJSON_NESTING_LIMIT_def digit_doubles_def)
  show "jname seven = None" by (simp add: seven_def)
  show "render digit_doubles fmt 0 seven = Some [0x5B, 0x37, 0x5D]"
    by (simp add: seven_def value_render_kinds array_render_def append_text_def digit_text if_text_def)
qed

lemma parse_seven:
  "cJSON_ParseWithOpts digit_doubles (\<lambda>n. True) (Some [0x5B, 0x37, 0x5D]) False =
    Some \<lparr>jr_item = Some seven, jr_end = Some (length [0x5B, 0x37, 0x5D :: byte]), jr_error = None\<rparr>"
  by (rule parse_rendered [OF seven_facts(1,2,3)]) simp_all

theorem json_parse_shaped_witness:
  "\<exists>r item. cJSON_ParseWithOpts digit_doubles (\<lambda>n. True) (Some [0x5B, 0x37, 0x5D]) False = Some r \<and>
    jr_item r = Some item \<and> shaped digit_doubles CJSON_NESTING_LIMIT item \<and> jname item = None"
  using json_parse_shaped [OF parse_seven, of seven] parse_seven by simp




section \<open>Printing\<close>

text \<open>C10: the printer implements the rendering of items as text: for every item, format and allocator, with
  or without \<open>realloc\<close>, it stays inside its blocks and reads only what it wrote; it returns either
  a null pointer or exactly the rendered text, and with enough memory the text.\<close>

theorem json_print_exact:
  assumes "numbers_fit D"
  shows "\<exists>r. print_text D alloc realloc fmt item = Some r \<and> (r = None \<or> r = render D fmt 0 item) \<and>
    ((\<forall>n. alloc n) \<and> render D fmt 0 item = Some w \<and> int (length w) + 2 \<le> INT_MAX \<longrightarrow> r = Some w)"
  by (rule print_text_renders [OF assms])

theorem json_print_exact_witness:
  "print_text digit_doubles (\<lambda>n. True) False False seven = Some (Some [0x5B, 0x37, 0x5D])"
  using json_print_exact [OF digit_doubles_fit, of "\<lambda>n. True" False False seven "[0x5B, 0x37, 0x5D]"]
  by (simp add: seven_facts INT_MAX_def)

text \<open>C25: printing into a block of the caller never leaves the block, whatever its size: it keeps its length, and when
  printing succeeds it starts with the rendered text and a NUL that fit into it.\<close>

theorem json_print_preallocated:
  assumes "numbers_fit D"
  shows "\<exists>ok c. cJSON_PrintPreallocated D item buf fmt = Some (ok, c) \<and> length c = length buf \<and>
    (ok \<longrightarrow> (\<exists>w. render D fmt 0 item = Some w \<and> length w < length buf \<and> take (length w + 1) c = map Some w @ [Some 0]))"
  by (rule print_preallocated_renders [OF assms])

theorem json_print_preallocated_witness:
  "\<exists>ok c. cJSON_PrintPreallocated digit_doubles seven [None, None] True = Some (ok, c) \<and> length c = 2 \<and> \<not> ok"
proof -
  obtain ok c where c: "cJSON_PrintPreallocated digit_doubles seven [None, None] True = Some (ok, c)"
      "length c = length [None :: byte option, None]"
      "ok \<longrightarrow> (\<exists>w. render digit_doubles True 0 seven = Some w \<and> length w < length [None :: byte option, None] \<and>
        take (length w + 1) c = map Some w @ [Some 0])"
    using json_print_preallocated [OF digit_doubles_fit, of seven "[None, None]" True] by blast
  moreover have "\<not> ok" using c(3) by (auto simp: seven_facts)
  ultimately show ?thesis by auto
qed

section \<open>Both ways\<close>

lemma print_parse:
  assumes "numbers_fit D" "canonical D CJSON_NESTING_LIMIT item" "jname item = None" "\<forall>n. alloc n"
    and "\<forall>w. render D fmt 0 item = Some w \<longrightarrow> int (length w) + 2 \<le> INT_MAX"
  shows "\<exists>w. print_text D alloc realloc fmt item = Some (Some w) \<and> cJSON_Parse D alloc (Some w) = Some (Some item)"
proof -
  obtain w where w: "render D fmt 0 item = Some w" using shaped_renders [OF canonical_shaped [OF assms(2)]] by blast
  have nz: "0 \<notin> set w" using render_nonzero(1) [OF assms(1), of fmt 0 item] w by (simp add: nonzero_def)
  have "print_text D alloc realloc fmt item = Some (Some w)"
    using print_text_renders [OF assms(1), of alloc realloc fmt item w] assms(4,5) w by auto
  moreover have "cJSON_Parse D alloc (Some w) = Some (Some item)"
    using parse_rendered [OF assms(2,3) w nz, of alloc False] assms(4) by (simp add: cJSON_Parse_def)
  ultimately show ?thesis by blast
qed

text \<open>C3: what is printed, formatted or not, is parsed back to the same item, for every item the parser can build
  whose numbers print faithfully and whose strings contain no NUL, whatever characters its strings
  and names have, as long as memory does not run out.\<close>

theorem json_roundtrip:
  assumes "numbers_fit D" "canonical D CJSON_NESTING_LIMIT item" "jname item = None" "\<forall>n. alloc n"
    and "\<forall>w. render D fmt 0 item = Some w \<longrightarrow> int (length w) + 2 \<le> INT_MAX"
  shows "\<exists>w. print_text D alloc realloc fmt item = Some (Some w) \<and> cJSON_Parse D alloc (Some w) = Some (Some item)"
  using assms by (rule print_parse)

theorem json_roundtrip_witness:
  "\<exists>w. print_text digit_doubles (\<lambda>n. True) True True seven = Some (Some w) \<and>
    cJSON_Parse digit_doubles (\<lambda>n. True) (Some w) = Some (Some seven)"
  by (rule json_roundtrip [OF digit_doubles_fit seven_facts(1,2)]) (simp_all add: seven_facts INT_MAX_def)

lemma print_parsed:
  assumes "numbers_fit D" "cJSON_ParseWithOpts D alloc v req = Some r" "jr_item r = Some item" "\<forall>n. alloc n"
    and "\<forall>w. render D fmt 0 item = Some w \<longrightarrow> int (length w) + 2 \<le> INT_MAX"
  shows "\<exists>w. print_text D alloc realloc fmt item = Some (Some w)"
proof -
  obtain w where "render D fmt 0 item = Some w" using shaped_renders parse_shaped [OF assms(2,3)] by blast
  then show ?thesis using print_text_renders [OF assms(1), of alloc realloc fmt item w] assms(4,5) by auto
qed

text \<open>C34: every item that a parse has returned can be printed: the printer refuses none of them and ends with a text,
  as long as memory does not run out and the text stays below \<open>INT_MAX\<close> bytes.\<close>

theorem json_print_parsed:
  assumes "numbers_fit D" "cJSON_ParseWithOpts D alloc v req = Some r" "jr_item r = Some item" "\<forall>n. alloc n"
    and "\<forall>w. render D fmt 0 item = Some w \<longrightarrow> int (length w) + 2 \<le> INT_MAX"
  shows "\<exists>w. print_text D alloc realloc fmt item = Some (Some w)"
  using assms by (rule print_parsed)

theorem json_print_parsed_witness:
  "\<exists>w. print_text digit_doubles (\<lambda>n. True) True False seven = Some (Some w)"
  by (rule json_print_parsed [OF digit_doubles_fit parse_seven]) (simp_all add: seven_facts INT_MAX_def)

section \<open>Minifying\<close>

lemma print_minify:
  assumes "numbers_fit D" "numbers_plain D" "raw_free item" "\<forall>n. alloc n"
    and "print_text D alloc realloc fmt item = Some (Some w)" "int (length w) + 2 \<le> INT_MAX"
  shows "\<exists>v t. print_text D alloc realloc False item = Some (Some v) \<and>
    cJSON_Minify (Some (w @ 0 # junk)) = Some (Some (v @ 0 # t @ junk)) \<and> length (v @ t) = length w"
proof -
  have "render D fmt 0 item = Some w"
  proof -
    obtain r where "print_text D alloc realloc fmt item = Some r" "r = None \<or> r = render D fmt 0 item"
      using print_text_renders [OF assms(1), of alloc realloc fmt item] by blast
    then show ?thesis using assms(5) by auto
  qed
  then obtain v where v: "render D False 0 item = Some v" "turns minify_loop w v"
    using render_minifies(1) [OF assms(2,3), of fmt 0] by (auto simp: minifies_def)
  obtain t where t: "cJSON_Minify (Some (w @ 0 # junk)) = Some (Some (v @ 0 # t @ junk))" "length (v @ t) = length w"
    using minify_moved [OF v(2)] by blast
  then have "int (length v) + 2 \<le> INT_MAX" using assms(6) by simp
  then have "print_text D alloc realloc False item = Some (Some v)"
    using print_text_renders [OF assms(1), where alloc = alloc and realloc = realloc and fmt = False and item = item and w = v]
      assms(4) v(1) by auto
  with t show ?thesis by blast
qed

text \<open>C11: minifying what was printed, formatted or not, gives the unformatted text, in place and without touching a byte
  behind the old text: white space goes, also between the tokens of nested arrays and objects, and every string and name
  stays as it is, whatever characters it has; only items without \<open>cJSON_Raw\<close> are considered.\<close>

theorem json_minify_printed:
  assumes "numbers_fit D" "numbers_plain D" "raw_free item" "\<forall>n. alloc n"
    and "print_text D alloc realloc fmt item = Some (Some w)" "int (length w) + 2 \<le> INT_MAX"
  shows "\<exists>v t. print_text D alloc realloc False item = Some (Some v) \<and>
    cJSON_Minify (Some (w @ 0 # junk)) = Some (Some (v @ 0 # t @ junk)) \<and> length (v @ t) = length w"
  using assms by (rule print_minify)

text \<open>An object with the member \<open>a\<close>, the array of 7: formatted, its text has six bytes of white space.\<close>

definition boxed :: "nat cJSON" where
  "boxed = Item [Item [Item [] cJSON_Number None 7 7 None] cJSON_Array None 0 0 (Some [0x61])] cJSON_Object None 0 0 None"

lemma digit_plain: "numbers_plain digit_doubles"
proof -
  have "plain_char (0x30 + of_nat (x mod 10))" for x :: nat
  proof -
    have "x mod 10 = 0 \<or> x mod 10 = 1 \<or> x mod 10 = 2 \<or> x mod 10 = 3 \<or> x mod 10 = 4 \<or>
        x mod 10 = 5 \<or> x mod 10 = 6 \<or> x mod 10 = 7 \<or> x mod 10 = 8 \<or> x mod 10 = 9" by presburger
    then show ?thesis by (auto simp: plain_char_def)
  qed
  then show ?thesis by (simp add: numbers_plain_def digit_text)
qed

lemma boxed_facts:
  "raw_free boxed"
  "render digit_doubles True 0 boxed = Some [0x7B, 0x0A, 0x09, 0x22, 0x61, 0x22, 0x3A, 0x09, 0x5B, 0x37, 0x5D, 0x0A, 0x7D]"
  "render digit_doubles False 0 boxed = Some [0x7B, 0x22, 0x61, 0x22, 0x3A, 0x5B, 0x37, 0x5D, 0x7D]"
proof -
  show "raw_free boxed" by (simp add: boxed_def json_type_defs)
  have s: "string_render (Some [0x61]) = [0x22, 0x61, 0x22]"
    by (simp add: string_render_def c_str_def escape_byte_def)
  show "render digit_doubles True 0 boxed = Some [0x7B, 0x0A, 0x09, 0x22, 0x61, 0x22, 0x3A, 0x09, 0x5B, 0x37, 0x5D, 0x0A, 0x7D]"
    "render digit_doubles False 0 boxed = Some [0x7B, 0x22, 0x61, 0x22, 0x3A, 0x5B, 0x37, 0x5D, 0x7D]"
    by (simp_all add: boxed_def value_render_kinds array_render_def object_render_def append_text_def digit_text if_text_def s tabs_def)
qed

theorem json_minify_printed_witness:
  "\<exists>t. cJSON_Minify (Some ([0x7B, 0x0A, 0x09, 0x22, 0x61, 0x22, 0x3A, 0x09, 0x5B, 0x37, 0x5D, 0x0A, 0x7D] @ 0 # [0x41])) =
     Some (Some ([0x7B, 0x22, 0x61, 0x22, 0x3A, 0x5B, 0x37, 0x5D, 0x7D] @ 0 # t @ [0x41])) \<and> length t = 4"
proof -
  have p: "print_text digit_doubles (\<lambda>n. True) True fmt boxed = Some (render digit_doubles fmt 0 boxed)" for fmt
    using print_text_renders [OF digit_doubles_fit, of "\<lambda>n. True" True fmt boxed "the (render digit_doubles fmt 0 boxed)"]
    by (cases fmt) (auto simp: boxed_facts INT_MAX_def)
  show ?thesis
    using json_minify_printed [OF digit_doubles_fit digit_plain boxed_facts(1), of "\<lambda>n. True" True True
        "[0x7B, 0x0A, 0x09, 0x22, 0x61, 0x22, 0x3A, 0x09, 0x5B, 0x37, 0x5D, 0x0A, 0x7D]" "[0x41]"]
    by (simp add: p boxed_facts INT_MAX_def numeral_eq_Suc)
qed

text \<open>A comment or a string that is not closed leads out of the text.\<close>

lemma json_minify_leaves:
  "cJSON_Minify (Some [0x2F, 0x2A, 0]) = None" "cJSON_Minify (Some [0x22, 0]) = None"
  by (simp_all add: cJSON_Minify_def minify_loop.simps minify_step_def comment_end_def block_comment.simps string_literal_def
      copy_byte_def string_bytes.simps byte_at_def)

end
