(* ===== verification/Xxhash.thy ===== *)
theory Xxhash
  imports Prelude "HOL-Library.Monad_Syntax"
begin

text \<open>
  \<open>src/zstd/common/xxhash.c\<close>: the 32-bit and the 64-bit hash, in one call and fed in pieces.
  The argument \<open>le\<close> says that the machine is little-endian; the aligned reads give the same
  values as the unaligned ones. A copy that would leave the buffer of a state is \<open>None\<close>.
\<close>

section \<open>Reading integers\<close>

fun le_value :: "bytes \<Rightarrow> 'w::len word" where
  "le_value [] = 0"
| "le_value (b # bs) = ucast b OR push_bit 8 (le_value bs)"

text \<open>\<open>memcpy\<close> into an integer: the bytes in the order of the machine.\<close>

definition XXH_read32 :: "bool \<Rightarrow> bytes \<Rightarrow> 32 word" where
  "XXH_read32 le p = le_value (if le then take 4 p else rev (take 4 p))"

definition XXH_read64 :: "bool \<Rightarrow> bytes \<Rightarrow> 64 word" where
  "XXH_read64 le p = le_value (if le then take 8 p else rev (take 8 p))"

definition XXH_rotl32 :: "32 word \<Rightarrow> nat \<Rightarrow> 32 word" where
  "XXH_rotl32 x r = push_bit r x OR drop_bit (32 - r) x"

definition XXH_rotl64 :: "64 word \<Rightarrow> nat \<Rightarrow> 64 word" where
  "XXH_rotl64 x r = push_bit r x OR drop_bit (64 - r) x"

definition XXH_swap32 :: "32 word \<Rightarrow> 32 word" where
  "XXH_swap32 x =
     (push_bit 24 x AND 0xff000000) OR (push_bit 8 x AND 0x00ff0000) OR
     (drop_bit 8 x AND 0x0000ff00) OR (drop_bit 24 x AND 0x000000ff)"

definition XXH_swap64 :: "64 word \<Rightarrow> 64 word" where
  "XXH_swap64 x =
     (push_bit 56 x AND 0xff00000000000000) OR (push_bit 40 x AND 0x00ff000000000000) OR
     (push_bit 24 x AND 0x0000ff0000000000) OR (push_bit 8 x AND 0x000000ff00000000) OR
     (drop_bit 8 x AND 0x00000000ff000000) OR (drop_bit 24 x AND 0x0000000000ff0000) OR
     (drop_bit 40 x AND 0x000000000000ff00) OR (drop_bit 56 x AND 0x00000000000000ff)"

definition XXH_readLE32 :: "bool \<Rightarrow> bytes \<Rightarrow> 32 word" where
  "XXH_readLE32 le p = (if le then XXH_read32 le p else XXH_swap32 (XXH_read32 le p))"

definition XXH_readLE64 :: "bool \<Rightarrow> bytes \<Rightarrow> 64 word" where
  "XXH_readLE64 le p = (if le then XXH_read64 le p else XXH_swap64 (XXH_read64 le p))"

definition XXH_readBE32 :: "bool \<Rightarrow> bytes \<Rightarrow> 32 word" where
  "XXH_readBE32 le p = (if le then XXH_swap32 (XXH_read32 le p) else XXH_read32 le p)"

definition XXH_readBE64 :: "bool \<Rightarrow> bytes \<Rightarrow> 64 word" where
  "XXH_readBE64 le p = (if le then XXH_swap64 (XXH_read64 le p) else XXH_read64 le p)"

section \<open>Constants\<close>

definition PRIME32_1 :: "32 word" where "PRIME32_1 = 2654435761"
definition PRIME32_2 :: "32 word" where "PRIME32_2 = 2246822519"
definition PRIME32_3 :: "32 word" where "PRIME32_3 = 3266489917"
definition PRIME32_4 :: "32 word" where "PRIME32_4 = 668265263"
definition PRIME32_5 :: "32 word" where "PRIME32_5 = 374761393"
definition PRIME64_1 :: "64 word" where "PRIME64_1 = 11400714785074694791"
definition PRIME64_2 :: "64 word" where "PRIME64_2 = 14029467366897019727"
definition PRIME64_3 :: "64 word" where "PRIME64_3 = 1609587929392839161"
definition PRIME64_4 :: "64 word" where "PRIME64_4 = 9650029242287828579"
definition PRIME64_5 :: "64 word" where "PRIME64_5 = 2870177450012600261"

section \<open>Rounds\<close>

definition XXH32_round :: "32 word \<Rightarrow> 32 word \<Rightarrow> 32 word" where
  "XXH32_round seed input = XXH_rotl32 (seed + input * PRIME32_2) 13 * PRIME32_1"

definition XXH64_round :: "64 word \<Rightarrow> 64 word \<Rightarrow> 64 word" where
  "XXH64_round acc input = XXH_rotl64 (acc + input * PRIME64_2) 31 * PRIME64_1"

definition XXH64_mergeRound :: "64 word \<Rightarrow> 64 word \<Rightarrow> 64 word" where
  "XXH64_mergeRound acc val = (acc XOR XXH64_round 0 val) * PRIME64_1 + PRIME64_4"

text \<open>The variables \<open>v1\<close> to \<open>v4\<close>, one pass of the loop over them, and the loop: \<open>n\<close> bytes a pass, as long as there are so many.\<close>

record 'w lanes =
  v1 :: 'w
  v2 :: 'w
  v3 :: 'w
  v4 :: 'w

definition XXH32_start :: "32 word \<Rightarrow> 32 word lanes" where
  "XXH32_start seed = \<lparr>v1 = seed + PRIME32_1 + PRIME32_2, v2 = seed + PRIME32_2, v3 = seed + 0, v4 = seed - PRIME32_1\<rparr>"

definition XXH64_start :: "64 word \<Rightarrow> 64 word lanes" where
  "XXH64_start seed = \<lparr>v1 = seed + PRIME64_1 + PRIME64_2, v2 = seed + PRIME64_2, v3 = seed + 0, v4 = seed - PRIME64_1\<rparr>"

definition XXH32_stripe :: "bool \<Rightarrow> 32 word lanes \<Rightarrow> bytes \<Rightarrow> 32 word lanes" where
  "XXH32_stripe le v p =
     \<lparr>v1 = XXH32_round (v1 v) (XXH_readLE32 le p), v2 = XXH32_round (v2 v) (XXH_readLE32 le (drop 4 p)),
      v3 = XXH32_round (v3 v) (XXH_readLE32 le (drop 8 p)), v4 = XXH32_round (v4 v) (XXH_readLE32 le (drop 12 p))\<rparr>"

definition XXH64_stripe :: "bool \<Rightarrow> 64 word lanes \<Rightarrow> bytes \<Rightarrow> 64 word lanes" where
  "XXH64_stripe le v p =
     \<lparr>v1 = XXH64_round (v1 v) (XXH_readLE64 le p), v2 = XXH64_round (v2 v) (XXH_readLE64 le (drop 8 p)),
      v3 = XXH64_round (v3 v) (XXH_readLE64 le (drop 16 p)), v4 = XXH64_round (v4 v) (XXH_readLE64 le (drop 24 p))\<rparr>"

function stripes :: "nat \<Rightarrow> ('v \<Rightarrow> bytes \<Rightarrow> 'v) \<Rightarrow> 'v \<Rightarrow> bytes \<Rightarrow> 'v \<times> bytes" where
  "stripes n f v p = (if n = 0 \<or> length p < n then (v, p) else stripes n f (f v (take n p)) (drop n p))"
  by auto
termination by (relation "measure (\<lambda>(n, f, v, p). length p)") auto

declare stripes.simps [simp del]

section \<open>The end of a hash\<close>

text \<open>The last two loops: four bytes at a time, then single bytes.\<close>

fun XXH32_bytes :: "32 word \<Rightarrow> bytes \<Rightarrow> 32 word" where
  "XXH32_bytes h [] = h"
| "XXH32_bytes h (b # p) = XXH32_bytes (XXH_rotl32 (h + ucast b * PRIME32_5) 11 * PRIME32_1) p"

fun XXH32_tail :: "bool \<Rightarrow> 32 word \<Rightarrow> bytes \<Rightarrow> 32 word" where
  "XXH32_tail le h (a # b # c # d # p) =
     XXH32_tail le (XXH_rotl32 (h + XXH_readLE32 le [a, b, c, d] * PRIME32_3) 17 * PRIME32_4) p"
| "XXH32_tail le h p = XXH32_bytes h p"

definition XXH32_avalanche :: "32 word \<Rightarrow> 32 word" where
  "XXH32_avalanche h =
     (let h = h XOR drop_bit 15 h; h = h * PRIME32_2; h = h XOR drop_bit 13 h; h = h * PRIME32_3
      in h XOR drop_bit 16 h)"

fun XXH64_bytes :: "64 word \<Rightarrow> bytes \<Rightarrow> 64 word" where
  "XXH64_bytes h [] = h"
| "XXH64_bytes h (b # p) = XXH64_bytes (XXH_rotl64 (h XOR ucast b * PRIME64_5) 11 * PRIME64_1) p"

definition XXH64_half :: "bool \<Rightarrow> 64 word \<Rightarrow> bytes \<Rightarrow> 64 word" where
  "XXH64_half le h p =
     (case p of
        a # b # c # d # p' \<Rightarrow>
          XXH64_bytes (XXH_rotl64 (h XOR ucast (XXH_readLE32 le [a, b, c, d]) * PRIME64_1) 23 * PRIME64_2 + PRIME64_3) p'
      | _ \<Rightarrow> XXH64_bytes h p)"

fun XXH64_tail :: "bool \<Rightarrow> 64 word \<Rightarrow> bytes \<Rightarrow> 64 word" where
  "XXH64_tail le h (a # b # c # d # e # f # g # i # p) =
     XXH64_tail le (XXH_rotl64 (h XOR XXH64_round 0 (XXH_readLE64 le [a, b, c, d, e, f, g, i])) 27 * PRIME64_1 + PRIME64_4) p"
| "XXH64_tail le h p = XXH64_half le h p"

definition XXH64_avalanche :: "64 word \<Rightarrow> 64 word" where
  "XXH64_avalanche h =
     (let h = h XOR drop_bit 33 h; h = h * PRIME64_2; h = h XOR drop_bit 29 h; h = h * PRIME64_3
      in h XOR drop_bit 32 h)"

definition XXH32_merge :: "32 word lanes \<Rightarrow> 32 word" where
  "XXH32_merge v = XXH_rotl32 (v1 v) 1 + XXH_rotl32 (v2 v) 7 + XXH_rotl32 (v3 v) 12 + XXH_rotl32 (v4 v) 18"

definition XXH64_merge :: "64 word lanes \<Rightarrow> 64 word" where
  "XXH64_merge v =
     (let h = XXH_rotl64 (v1 v) 1 + XXH_rotl64 (v2 v) 7 + XXH_rotl64 (v3 v) 12 + XXH_rotl64 (v4 v) 18
      in XXH64_mergeRound (XXH64_mergeRound (XXH64_mergeRound (XXH64_mergeRound h (v1 v)) (v2 v)) (v3 v)) (v4 v))"

section \<open>One call\<close>

definition XXH32_endian_align :: "bool \<Rightarrow> bytes \<Rightarrow> 32 word \<Rightarrow> 32 word" where
  "XXH32_endian_align le input seed =
     (let (h, p) = (if length input \<ge> 16
                    then let (v, p) = stripes 16 (XXH32_stripe le) (XXH32_start seed) input in (XXH32_merge v, p)
                    else (seed + PRIME32_5, input))
      in XXH32_avalanche (XXH32_tail le (h + of_nat (length input)) p))"

definition XXH64_endian_align :: "bool \<Rightarrow> bytes \<Rightarrow> 64 word \<Rightarrow> 64 word" where
  "XXH64_endian_align le input seed =
     (let (h, p) = (if length input \<ge> 32
                    then let (v, p) = stripes 32 (XXH64_stripe le) (XXH64_start seed) input in (XXH64_merge v, p)
                    else (seed + PRIME64_5, input))
      in XXH64_avalanche (XXH64_tail le (h + of_nat (length input)) p))"

definition XXH32 :: "bool \<Rightarrow> bytes \<Rightarrow> 32 word \<Rightarrow> 32 word" where
  "XXH32 le input seed = (if le then XXH32_endian_align True input seed else XXH32_endian_align False input seed)"

definition XXH64 :: "bool \<Rightarrow> bytes \<Rightarrow> 64 word \<Rightarrow> 64 word" where
  "XXH64 le input seed = (if le then XXH64_endian_align True input seed else XXH64_endian_align False input seed)"

section \<open>Pieces\<close>

text \<open>The buffers \<open>mem32\<close> and \<open>mem64\<close> as bytes.\<close>

record XXH32_state =
  total_len_32 :: "32 word"
  large_len :: "32 word"
  lanes32 :: "32 word lanes"
  mem32 :: bytes
  memsize32 :: "32 word"

record XXH64_state =
  total_len :: "64 word"
  lanes64 :: "64 word lanes"
  mem64 :: bytes
  memsize64 :: "32 word"

definition XXH_memcpy :: "bytes \<Rightarrow> nat \<Rightarrow> bytes \<Rightarrow> bytes option" where
  "XXH_memcpy mem i src =
     (if i + length src \<le> length mem then Some (take i mem @ src @ drop (i + length src) mem) else None)"

definition XXH32_reset :: "32 word \<Rightarrow> XXH32_state" where
  "XXH32_reset seed = \<lparr>total_len_32 = 0, large_len = 0, lanes32 = XXH32_start seed, mem32 = replicate 16 0, memsize32 = 0\<rparr>"

definition XXH64_reset :: "64 word \<Rightarrow> XXH64_state" where
  "XXH64_reset seed = \<lparr>total_len = 0, lanes64 = XXH64_start seed, mem64 = replicate 32 0, memsize64 = 0\<rparr>"

text \<open>The buffer is filled up and hashed, when something is left in it from the last call.\<close>

definition XXH32_fill :: "bool \<Rightarrow> XXH32_state \<Rightarrow> bytes \<Rightarrow> (XXH32_state \<times> bytes) option" where
  "XXH32_fill le st p =
     (let m = unat (memsize32 st)
      in if m \<noteq> 0 then do {
           mem \<leftarrow> XXH_memcpy (mem32 st) m (take (16 - m) p);
           Some (st\<lparr>mem32 := mem, lanes32 := XXH32_stripe le (lanes32 st) mem, memsize32 := 0\<rparr>, drop (16 - m) p)
         } else Some (st, p))"

definition XXH32_update_endian :: "bool \<Rightarrow> XXH32_state \<Rightarrow> bytes \<Rightarrow> XXH32_state option" where
  "XXH32_update_endian le st input =
     (let len = length input;
          total = total_len_32 st + of_nat len;
          large = large_len st OR ((if len \<ge> 16 then 1 else 0) OR (if total \<ge> 16 then 1 else 0));
          st = st\<lparr>total_len_32 := total, large_len := large\<rparr>
      in if unat (memsize32 st) + len < 16 then do {
           mem \<leftarrow> XXH_memcpy (mem32 st) (unat (memsize32 st)) input;
           Some (st\<lparr>mem32 := mem, memsize32 := memsize32 st + of_nat len\<rparr>)
         } else do {
           (st, p) \<leftarrow> XXH32_fill le st input;
           let (v, p) = stripes 16 (XXH32_stripe le) (lanes32 st) p;
           let st = st\<lparr>lanes32 := v\<rparr>;
           if p = [] then Some st
           else do {
             mem \<leftarrow> XXH_memcpy (mem32 st) 0 p;
             Some (st\<lparr>mem32 := mem, memsize32 := of_nat (length p)\<rparr>)
           }
         })"

definition XXH32_digest_endian :: "bool \<Rightarrow> XXH32_state \<Rightarrow> 32 word" where
  "XXH32_digest_endian le st =
     (let h = (if large_len st \<noteq> 0 then XXH32_merge (lanes32 st) else v3 (lanes32 st) + PRIME32_5)
      in XXH32_avalanche (XXH32_tail le (h + total_len_32 st) (take (unat (memsize32 st)) (mem32 st))))"

definition XXH64_fill :: "bool \<Rightarrow> XXH64_state \<Rightarrow> bytes \<Rightarrow> (XXH64_state \<times> bytes) option" where
  "XXH64_fill le st p =
     (let m = unat (memsize64 st)
      in if m \<noteq> 0 then do {
           mem \<leftarrow> XXH_memcpy (mem64 st) m (take (32 - m) p);
           Some (st\<lparr>mem64 := mem, lanes64 := XXH64_stripe le (lanes64 st) mem, memsize64 := 0\<rparr>, drop (32 - m) p)
         } else Some (st, p))"

definition XXH64_update_endian :: "bool \<Rightarrow> XXH64_state \<Rightarrow> bytes \<Rightarrow> XXH64_state option" where
  "XXH64_update_endian le st input =
     (let len = length input; st = st\<lparr>total_len := total_len st + of_nat len\<rparr>
      in if unat (memsize64 st) + len < 32 then do {
           mem \<leftarrow> XXH_memcpy (mem64 st) (unat (memsize64 st)) input;
           Some (st\<lparr>mem64 := mem, memsize64 := memsize64 st + of_nat len\<rparr>)
         } else do {
           (st, p) \<leftarrow> XXH64_fill le st input;
           let (v, p) = stripes 32 (XXH64_stripe le) (lanes64 st) p;
           let st = st\<lparr>lanes64 := v\<rparr>;
           if p = [] then Some st
           else do {
             mem \<leftarrow> XXH_memcpy (mem64 st) 0 p;
             Some (st\<lparr>mem64 := mem, memsize64 := of_nat (length p)\<rparr>)
           }
         })"

definition XXH64_digest_endian :: "bool \<Rightarrow> XXH64_state \<Rightarrow> 64 word" where
  "XXH64_digest_endian le st =
     (let h = (if total_len st \<ge> 32 then XXH64_merge (lanes64 st) else v3 (lanes64 st) + PRIME64_5)
      in XXH64_avalanche (XXH64_tail le (h + total_len st) (take (unat (memsize64 st)) (mem64 st))))"

definition XXH32_update :: "bool \<Rightarrow> XXH32_state \<Rightarrow> bytes \<Rightarrow> XXH32_state option" where
  "XXH32_update le st input = (if le then XXH32_update_endian True st input else XXH32_update_endian False st input)"

definition XXH32_digest :: "bool \<Rightarrow> XXH32_state \<Rightarrow> 32 word" where
  "XXH32_digest le st = (if le then XXH32_digest_endian True st else XXH32_digest_endian False st)"

definition XXH64_update :: "bool \<Rightarrow> XXH64_state \<Rightarrow> bytes \<Rightarrow> XXH64_state option" where
  "XXH64_update le st input = (if le then XXH64_update_endian True st input else XXH64_update_endian False st input)"

definition XXH64_digest :: "bool \<Rightarrow> XXH64_state \<Rightarrow> 64 word" where
  "XXH64_digest le st = (if le then XXH64_digest_endian True st else XXH64_digest_endian False st)"

section \<open>Canonical form\<close>

fun le_bytes :: "nat \<Rightarrow> 'w::len word \<Rightarrow> bytes" where
  "le_bytes 0 x = []"
| "le_bytes (Suc n) x = ucast x # le_bytes n (drop_bit 8 x)"

text \<open>\<open>memcpy\<close> out of an integer.\<close>

definition write_host :: "bool \<Rightarrow> nat \<Rightarrow> 'w::len word \<Rightarrow> bytes" where
  "write_host le n x = (if le then le_bytes n x else rev (le_bytes n x))"

definition XXH32_canonicalFromHash :: "bool \<Rightarrow> 32 word \<Rightarrow> bytes" where
  "XXH32_canonicalFromHash le h = write_host le 4 (if le then XXH_swap32 h else h)"

definition XXH64_canonicalFromHash :: "bool \<Rightarrow> 64 word \<Rightarrow> bytes" where
  "XXH64_canonicalFromHash le h = write_host le 8 (if le then XXH_swap64 h else h)"

definition XXH32_hashFromCanonical :: "bool \<Rightarrow> bytes \<Rightarrow> 32 word" where
  "XXH32_hashFromCanonical le src = XXH_readBE32 le src"

definition XXH64_hashFromCanonical :: "bool \<Rightarrow> bytes \<Rightarrow> 64 word" where
  "XXH64_hashFromCanonical le src = XXH_readBE64 le src"

end
