(* ===== verification/Xxhash_Stream.thy ===== *)
theory Xxhash_Stream
  imports Xxhash
begin

text \<open>
  What \<open>xxhash.c\<close> promises: a hash fed in pieces is the hash of the pieces put together, the
  hash does not depend on the byte order of the machine, and the canonical form can be read back.
\<close>

section \<open>The two copies of the code\<close>

lemma xxh_calls:
  "XXH32 le input seed = XXH32_endian_align le input seed" "XXH64 le input seed' = XXH64_endian_align le input seed'"
  "XXH32_update le st input = XXH32_update_endian le st input" "XXH64_update le st' input = XXH64_update_endian le st' input"
  "XXH32_digest le st = XXH32_digest_endian le st" "XXH64_digest le st' = XXH64_digest_endian le st'"
  by (simp_all add: XXH32_def XXH64_def XXH32_update_def XXH64_update_def XXH32_digest_def XXH64_digest_def)

section \<open>Known values\<close>

lemma XXH32_values:
  "XXH32 True [] 0 = 0x02CC5D05" "XXH32 True [0x61, 0x62, 0x63] 0 = 0x32D153FF"
  by code_simp+

lemma XXH64_values:
  "XXH64 True [] 0 = 0xEF46DB3751D8E999" "XXH64 True [0x61, 0x62, 0x63] 0 = 0x44BC2CF5AD770999"
  by code_simp+

section \<open>Pieces\<close>

text \<open>
  The loop over the blocks of an input, as an abstract stream: a value and the bytes that do
  not fill a block yet.
\<close>

locale block_stream =
  fixes n :: nat and f :: "'v \<Rightarrow> bytes \<Rightarrow> 'v"
  assumes block_pos: "0 < n"
begin

lemma short: "length p < n \<Longrightarrow> stripes n f v p = (v, p)"
  by (subst stripes.simps) simp

lemma step: "n \<le> length p \<Longrightarrow> stripes n f v p = stripes n f (f v (take n p)) (drop n p)"
  using block_pos by (subst stripes.simps) simp

lemma block: "length p = n \<Longrightarrow> stripes n f v (p @ q) = stripes n f (f v p) q"
  by (simp add: step)

lemma add_input: "stripes n f v (s @ t) = (case stripes n f v s of (v', r) \<Rightarrow> stripes n f v' (r @ t))"
proof (induction "length s" arbitrary: v s rule: less_induct)
  case less
  show ?case
  proof (cases "length s < n")
    case True
    then show ?thesis by (simp add: short)
  next
    case False
    then have "length (drop n s) < length s" using block_pos by simp
    from less [OF this, of "f v (take n s)"] False show ?thesis by (simp add: step)
  qed
qed

lemma rest_short: "length (snd (stripes n f v p)) < n"
proof (induction "length p" arbitrary: v p rule: less_induct)
  case less
  show ?case
  proof (cases "length p < n")
    case False
    then have "length (drop n p) < length p" using block_pos by simp
    from less [OF this, of "f v (take n p)"] False show ?thesis by (simp add: step)
  qed (simp add: short)
qed

lemma pieces:
  "fold (\<lambda>p (v, r). stripes n f v (r @ p)) ps (stripes n f v s) = stripes n f v (s @ concat ps)"
proof (induction ps arbitrary: s)
  case (Cons p ps)
  then show ?case using Cons.IH [of "s @ p"] by (simp add: add_input [symmetric])
qed simp

lemma same_blocks:
  assumes "\<And>v p. length p = n \<Longrightarrow> f v p = g v p"
  shows "stripes n f v p = stripes n g v p"
proof (induction "length p" arbitrary: v p rule: less_induct)
  case less
  show ?case
  proof (cases "length p < n")
    case False
    then have "length (drop n p) < length p" "length (take n p) = n" using block_pos by simp_all
    then show ?thesis using less [of "drop n p" "f v (take n p)"] assms [of "take n p" v] False block_pos
      by (simp add: step stripes.simps [of n g v p])
  qed (simp add: short stripes.simps [of n g])
qed

end

interpretation s32: block_stream 16 "XXH32_stripe le" for le by unfold_locales simp
interpretation s64: block_stream 32 "XXH64_stripe le" for le by unfold_locales simp

text \<open>The state of a hash in pieces, seen as a stream.\<close>

definition abs32 :: "XXH32_state \<Rightarrow> 32 word lanes \<times> bytes" where
  "abs32 st = (lanes32 st, take (unat (memsize32 st)) (mem32 st))"

definition abs64 :: "XXH64_state \<Rightarrow> 64 word lanes \<times> bytes" where
  "abs64 st = (lanes64 st, take (unat (memsize64 st)) (mem64 st))"

definition inv32 :: "XXH32_state \<Rightarrow> bool" where
  "inv32 st \<longleftrightarrow> length (mem32 st) = 16 \<and> unat (memsize32 st) < 16"

definition inv64 :: "XXH64_state \<Rightarrow> bool" where
  "inv64 st \<longleftrightarrow> length (mem64 st) = 32 \<and> unat (memsize64 st) < 32"

lemma unat_small: "k < 2 ^ 32 \<Longrightarrow> unat (of_nat k :: 32 word) = k"
  by (simp add: unat_of_nat take_bit_nat_eq_self)

lemma copy_take:
  "length src + i \<le> length mem \<Longrightarrow> XXH_memcpy mem i src = Some (take i mem @ src @ drop (i + length src) mem)"
  by (simp add: XXH_memcpy_def)

lemma fill32:
  assumes "inv32 st" "unat (memsize32 st) + length p \<ge> 16"
  shows "\<exists>st' q. XXH32_fill le st p = Some (st', q) \<and> memsize32 st' = 0 \<and> length (mem32 st') = 16
    \<and> total_len_32 st' = total_len_32 st \<and> large_len st' = large_len st
    \<and> stripes 16 (XXH32_stripe le) (lanes32 st') q
      = stripes 16 (XXH32_stripe le) (lanes32 st) (take (unat (memsize32 st)) (mem32 st) @ p)"
proof (cases "memsize32 st = 0")
  case True
  then show ?thesis using assms by (simp add: XXH32_fill_def inv32_def)
next
  case False
  let ?m = "unat (memsize32 st)" and ?a = "take (unat (memsize32 st)) (mem32 st)"
  have m: "?m \<noteq> 0" "?m < 16" "length (mem32 st) = 16" using False assms by (auto simp: inv32_def unat_eq_0)
  have l: "length (?a @ take (16 - ?m) p) = 16" using m assms(2) by simp
  have "stripes 16 (XXH32_stripe le) (lanes32 st) (?a @ p)
      = stripes 16 (XXH32_stripe le) (XXH32_stripe le (lanes32 st) (?a @ take (16 - ?m) p)) (drop (16 - ?m) p)"
    using s32.block [OF l, of le "lanes32 st" "drop (16 - ?m) p"] by simp
  moreover have "length (take (16 - ?m) p) = 16 - ?m" using assms(2) by simp
  then have "XXH_memcpy (mem32 st) ?m (take (16 - ?m) p) = Some (?a @ take (16 - ?m) p)"
    using m by (simp only: XXH_memcpy_def) simp
  ultimately show ?thesis using m l by (simp add: XXH32_fill_def Let_def)
qed

lemma fill64:
  assumes "inv64 st" "unat (memsize64 st) + length p \<ge> 32"
  shows "\<exists>st' q. XXH64_fill le st p = Some (st', q) \<and> memsize64 st' = 0 \<and> length (mem64 st') = 32
    \<and> total_len st' = total_len st
    \<and> stripes 32 (XXH64_stripe le) (lanes64 st') q
      = stripes 32 (XXH64_stripe le) (lanes64 st) (take (unat (memsize64 st)) (mem64 st) @ p)"
proof (cases "memsize64 st = 0")
  case True
  then show ?thesis using assms by (simp add: XXH64_fill_def inv64_def)
next
  case False
  let ?m = "unat (memsize64 st)" and ?a = "take (unat (memsize64 st)) (mem64 st)"
  have m: "?m \<noteq> 0" "?m < 32" "length (mem64 st) = 32" using False assms by (auto simp: inv64_def unat_eq_0)
  have l: "length (?a @ take (32 - ?m) p) = 32" using m assms(2) by simp
  have "stripes 32 (XXH64_stripe le) (lanes64 st) (?a @ p)
      = stripes 32 (XXH64_stripe le) (XXH64_stripe le (lanes64 st) (?a @ take (32 - ?m) p)) (drop (32 - ?m) p)"
    using s64.block [OF l, of le "lanes64 st" "drop (32 - ?m) p"] by simp
  moreover have "length (take (32 - ?m) p) = 32 - ?m" using assms(2) by simp
  then have "XXH_memcpy (mem64 st) ?m (take (32 - ?m) p) = Some (?a @ take (32 - ?m) p)"
    using m by (simp only: XXH_memcpy_def) simp
  ultimately show ?thesis using m l by (simp add: XXH64_fill_def Let_def)
qed

definition large_after :: "XXH32_state \<Rightarrow> bytes \<Rightarrow> 32 word" where
  "large_after st p = large_len st OR ((if length p \<ge> 16 then 1 else 0) OR
     (if total_len_32 st + of_nat (length p) \<ge> 16 then 1 else 0))"

text \<open>One call adds its bytes to the stream, and never writes outside of the buffer.\<close>

lemma update32:
  assumes "inv32 st"
  shows "\<exists>st'. XXH32_update le st p = Some st' \<and> inv32 st'
    \<and> abs32 st' = stripes 16 (XXH32_stripe le) (lanes32 st) (take (unat (memsize32 st)) (mem32 st) @ p)
    \<and> total_len_32 st' = total_len_32 st + of_nat (length p) \<and> large_len st' = large_after st p"
proof -
  define st1 where "st1 = st\<lparr>total_len_32 := total_len_32 st + of_nat (length p), large_len := large_after st p\<rparr>"
  let ?m = "unat (memsize32 st)"
  have m: "?m < 16" "length (mem32 st) = 16" using assms by (auto simp: inv32_def)
  have st1: "memsize32 st1 = memsize32 st" "mem32 st1 = mem32 st" "lanes32 st1 = lanes32 st" "inv32 st1"
    "total_len_32 st1 = total_len_32 st + of_nat (length p)" "large_len st1 = large_after st p"
    using assms by (simp_all add: st1_def inv32_def)
  show ?thesis
  proof (cases "?m + length p < 16")
    case True
    then have "unat (memsize32 st + of_nat (length p)) = ?m + length p"
      by (simp add: unat_word_ariths unat_small take_bit_nat_eq_self unsigned_of_nat)
    with True m show ?thesis
      by (simp add: xxh_calls XXH32_update_endian_def Let_def XXH_memcpy_def inv32_def abs32_def large_after_def s32.short)
  next
    case False
    obtain st2 q where f: "XXH32_fill le st1 p = Some (st2, q)" "memsize32 st2 = 0" "length (mem32 st2) = 16"
        "total_len_32 st2 = total_len_32 st1" "large_len st2 = large_len st1"
        "stripes 16 (XXH32_stripe le) (lanes32 st2) q = stripes 16 (XXH32_stripe le) (lanes32 st) (take ?m (mem32 st) @ p)"
      using fill32 [OF st1(4), of p le] False st1(1-3) by auto
    obtain v r where s: "stripes 16 (XXH32_stripe le) (lanes32 st2) q = (v, r)" by fastforce
    have "length r < 16" using s32.rest_short [of le "lanes32 st2" q] s by simp
    then have "unat (of_nat (length r) :: 32 word) = length r" by (simp add: unat_small)
    with False m f(1-5) s s [unfolded f(6)] \<open>length r < 16\<close> st1(5,6) show ?thesis
      unfolding xxh_calls XXH32_update_endian_def Let_def large_after_def [symmetric] st1_def [symmetric]
      by (auto simp: st1 XXH_memcpy_def inv32_def abs32_def)
  qed
qed

lemma update64:
  assumes "inv64 st"
  shows "\<exists>st'. XXH64_update le st p = Some st' \<and> inv64 st'
    \<and> abs64 st' = stripes 32 (XXH64_stripe le) (lanes64 st) (take (unat (memsize64 st)) (mem64 st) @ p)
    \<and> total_len st' = total_len st + of_nat (length p)"
proof -
  define st1 where "st1 = st\<lparr>total_len := total_len st + of_nat (length p)\<rparr>"
  let ?m = "unat (memsize64 st)"
  have m: "?m < 32" "length (mem64 st) = 32" using assms by (auto simp: inv64_def)
  have st1: "memsize64 st1 = memsize64 st" "mem64 st1 = mem64 st" "lanes64 st1 = lanes64 st" "inv64 st1"
    "total_len st1 = total_len st + of_nat (length p)"
    using assms by (simp_all add: st1_def inv64_def)
  show ?thesis
  proof (cases "?m + length p < 32")
    case True
    then have "unat (memsize64 st + of_nat (length p)) = ?m + length p"
      by (simp add: unat_word_ariths unat_small take_bit_nat_eq_self unsigned_of_nat)
    with True m show ?thesis
      by (simp add: xxh_calls XXH64_update_endian_def Let_def XXH_memcpy_def inv64_def abs64_def s64.short)
  next
    case False
    obtain st2 q where f: "XXH64_fill le st1 p = Some (st2, q)" "memsize64 st2 = 0" "length (mem64 st2) = 32"
        "total_len st2 = total_len st1"
        "stripes 32 (XXH64_stripe le) (lanes64 st2) q = stripes 32 (XXH64_stripe le) (lanes64 st) (take ?m (mem64 st) @ p)"
      using fill64 [OF st1(4), of p le] False st1(1-3) by auto
    obtain v r where s: "stripes 32 (XXH64_stripe le) (lanes64 st2) q = (v, r)" by fastforce
    have "length r < 32" using s64.rest_short [of le "lanes64 st2" q] s by simp
    then have "unat (of_nat (length r) :: 32 word) = length r" by (simp add: unat_small)
    with False m f(1-4) s s [unfolded f(5)] \<open>length r < 32\<close> st1(5) show ?thesis
      unfolding xxh_calls XXH64_update_endian_def Let_def st1_def [symmetric]
      by (auto simp: st1 XXH_memcpy_def inv64_def abs64_def)
  qed
qed

text \<open>A hash in pieces, as its caller feeds it.\<close>

fun feed32 :: "bool \<Rightarrow> XXH32_state \<Rightarrow> bytes list \<Rightarrow> XXH32_state option" where
  "feed32 le st [] = Some st"
| "feed32 le st (p # ps) = do { st \<leftarrow> XXH32_update le st p; feed32 le st ps }"

fun feed64 :: "bool \<Rightarrow> XXH64_state \<Rightarrow> bytes list \<Rightarrow> XXH64_state option" where
  "feed64 le st [] = Some st"
| "feed64 le st (p # ps) = do { st \<leftarrow> XXH64_update le st p; feed64 le st ps }"

text \<open>A state that has taken in the bytes \<open>s\<close>.\<close>

definition holds32 :: "bool \<Rightarrow> 32 word \<Rightarrow> bytes \<Rightarrow> XXH32_state \<Rightarrow> bool" where
  "holds32 le seed s st \<longleftrightarrow> inv32 st \<and> abs32 st = stripes 16 (XXH32_stripe le) (XXH32_start seed) s
     \<and> total_len_32 st = of_nat (length s) \<and> (large_len st \<noteq> 0 \<longleftrightarrow> 16 \<le> length s)"

definition holds64 :: "bool \<Rightarrow> 64 word \<Rightarrow> bytes \<Rightarrow> XXH64_state \<Rightarrow> bool" where
  "holds64 le seed s st \<longleftrightarrow> inv64 st \<and> abs64 st = stripes 32 (XXH64_stripe le) (XXH64_start seed) s
     \<and> total_len st = of_nat (length s)"

lemma holds32_reset: "holds32 le seed [] (XXH32_reset seed)"
  by (simp add: holds32_def XXH32_reset_def inv32_def abs32_def s32.short)

lemma holds64_reset: "holds64 le seed [] (XXH64_reset seed)"
  by (simp add: holds64_def XXH64_reset_def inv64_def abs64_def s64.short)

lemma large_after_iff:
  assumes "total_len_32 st = of_nat (length s)" "large_len st \<noteq> 0 \<longleftrightarrow> 16 \<le> length s"
  shows "large_after st p \<noteq> 0 \<longleftrightarrow> 16 \<le> length (s @ p)"
proof -
  have "(x OR (if a then 1 else 0) OR (if b then 1 else 0) \<noteq> (0 :: 32 word)) = (x \<noteq> 0 \<or> a \<or> b)" for x a b
    by (auto simp: or_eq_0_iff)
  then have "large_after st p \<noteq> 0 \<longleftrightarrow> 16 \<le> length s \<or> 16 \<le> length p \<or> (16 :: 32 word) \<le> of_nat (length s + length p)"
    using assms(2) unfolding large_after_def assms(1) by auto
  moreover have "(16 :: 32 word) \<le> of_nat (length s + length p) \<longleftrightarrow> 16 \<le> length s + length p"
    if "length s < 16" "length p < 16"
  proof -
    have "unat (of_nat (length s + length p) :: 32 word) = length s + length p"
      using that by (intro unat_small) simp
    then show ?thesis by (simp add: word_le_nat_alt)
  qed
  ultimately show ?thesis by fastforce
qed

lemma holds32_update:
  assumes "holds32 le seed s st"
  shows "\<exists>st'. XXH32_update le st p = Some st' \<and> holds32 le seed (s @ p) st'"
proof -
  have st: "inv32 st" "stripes 16 (XXH32_stripe le) (XXH32_start seed) s = (lanes32 st, take (unat (memsize32 st)) (mem32 st))"
    using assms by (simp_all add: holds32_def abs32_def)
  obtain st' where u: "XXH32_update le st p = Some st'" "inv32 st'"
      "abs32 st' = stripes 16 (XXH32_stripe le) (lanes32 st) (take (unat (memsize32 st)) (mem32 st) @ p)"
      "total_len_32 st' = total_len_32 st + of_nat (length p)" "large_len st' = large_after st p"
    using update32 [OF st(1)] by blast
  have "abs32 st' = stripes 16 (XXH32_stripe le) (XXH32_start seed) (s @ p)"
    using s32.add_input [of le "XXH32_start seed" s p] st(2) u(3) by simp
  then show ?thesis using u large_after_iff [of st s p] assms by (auto simp: holds32_def)
qed

lemma holds64_update:
  assumes "holds64 le seed s st"
  shows "\<exists>st'. XXH64_update le st p = Some st' \<and> holds64 le seed (s @ p) st'"
proof -
  have st: "inv64 st" "stripes 32 (XXH64_stripe le) (XXH64_start seed) s = (lanes64 st, take (unat (memsize64 st)) (mem64 st))"
    using assms by (simp_all add: holds64_def abs64_def)
  obtain st' where u: "XXH64_update le st p = Some st'" "inv64 st'"
      "abs64 st' = stripes 32 (XXH64_stripe le) (lanes64 st) (take (unat (memsize64 st)) (mem64 st) @ p)"
      "total_len st' = total_len st + of_nat (length p)"
    using update64 [OF st(1)] by blast
  have "abs64 st' = stripes 32 (XXH64_stripe le) (XXH64_start seed) (s @ p)"
    using s64.add_input [of le "XXH64_start seed" s p] st(2) u(3) by simp
  then show ?thesis using u assms by (auto simp: holds64_def)
qed

lemma holds32_feed: "holds32 le seed s st \<Longrightarrow> \<exists>st'. feed32 le st ps = Some st' \<and> holds32 le seed (s @ concat ps) st'"
proof (induction ps arbitrary: s st)
  case (Cons p ps)
  from holds32_update [OF Cons.prems, of p] Cons.IH show ?case by fastforce
qed simp

lemma holds64_feed: "holds64 le seed s st \<Longrightarrow> \<exists>st'. feed64 le st ps = Some st' \<and> holds64 le seed (s @ concat ps) st'"
proof (induction ps arbitrary: s st)
  case (Cons p ps)
  from holds64_update [OF Cons.prems, of p] Cons.IH show ?case by fastforce
qed simp

lemma digest32:
  assumes "holds32 le seed s st"
  shows "XXH32_digest le st = XXH32 le s seed"
proof (cases "16 \<le> length s")
  case True
  then show ?thesis using assms
    by (cases "stripes 16 (XXH32_stripe le) (XXH32_start seed) s")
      (simp add: holds32_def xxh_calls XXH32_digest_endian_def xxh_calls XXH32_endian_align_def abs32_def Let_def)
next
  case False
  then have "abs32 st = (XXH32_start seed, s)" using assms by (simp add: holds32_def s32.short)
  then show ?thesis using False assms
    by (simp add: holds32_def xxh_calls XXH32_digest_endian_def xxh_calls XXH32_endian_align_def abs32_def XXH32_start_def Let_def)
qed

lemma digest64:
  assumes "holds64 le seed s st" "length s < 2 ^ 64"
  shows "XXH64_digest le st = XXH64 le s seed"
proof -
  have "unat (of_nat (length s) :: 64 word) = length s" using assms(2) by (simp add: unat_of_nat take_bit_nat_eq_self)
  then have t: "(32 :: 64 word) \<le> total_len st \<longleftrightarrow> 32 \<le> length s" using assms(1) by (simp add: holds64_def word_le_nat_alt)
  show ?thesis
  proof (cases "32 \<le> length s")
    case True
    then show ?thesis using assms t
      by (cases "stripes 32 (XXH64_stripe le) (XXH64_start seed) s")
        (simp add: holds64_def xxh_calls XXH64_digest_endian_def xxh_calls XXH64_endian_align_def abs64_def Let_def)
  next
    case False
    then have "abs64 st = (XXH64_start seed, s)" using assms by (simp add: holds64_def s64.short)
    then show ?thesis using False assms t
      by (simp add: holds64_def xxh_calls XXH64_digest_endian_def xxh_calls XXH64_endian_align_def abs64_def XXH64_start_def Let_def)
  qed
qed

lemma stream32: "map_option (XXH32_digest le) (feed32 le (XXH32_reset seed) ps) = Some (XXH32 le (concat ps) seed)"
  using holds32_feed [OF holds32_reset, of le seed ps] digest32 [of le seed] by fastforce

lemma stream64:
  "length (concat ps) < 2 ^ 64 \<Longrightarrow>
   map_option (XXH64_digest le) (feed64 le (XXH64_reset seed) ps) = Some (XXH64 le (concat ps) seed)"
  using holds64_feed [OF holds64_reset, of le seed ps] digest64 [of le seed] by fastforce

section \<open>The order of the bytes\<close>

lemma bit_ucast_byte: "bit (ucast (b :: 8 word) :: 'w::len word) n \<longleftrightarrow> n < LENGTH('w) \<and> n < 8 \<and> bit b n"
  by (auto simp: bit_ucast_iff dest: bit_imp_le_length)

lemma bit_le_value:
  "bit (le_value bs :: 'w::len word) n \<longleftrightarrow> n < LENGTH('w) \<and> n div 8 < length bs \<and> bit (bs ! (n div 8)) (n mod 8)"
proof (induction bs arbitrary: n)
  case (Cons b bs)
  show ?case
  proof (cases "n < 8")
    case True
    then show ?thesis by (simp add: bit_or_iff bit_push_bit_iff bit_ucast_byte)
  next
    case False
    then have "n div 8 = Suc ((n - 8) div 8)" "n mod 8 = (n - 8) mod 8"
      by (simp_all add: le_div_geq le_mod_geq)
    with False Cons.IH [of "n - 8"] show ?thesis
      by (auto simp: bit_or_iff bit_push_bit_iff bit_ucast_byte dest: bit_imp_le_length)
  qed
qed simp

lemma byte_position:
  assumes "(n :: nat) < 8 * k"
  obtains q r where "n = 8 * q + r" "r < 8" "q < k"
  using assms that [of "n div 8" "n mod 8"] by (simp add: less_mult_imp_div_less mult.commute)

lemma mask_bytes32:
  "(0xff000000 :: 32 word) = push_bit 24 (mask 8)" "(0x00ff0000 :: 32 word) = push_bit 16 (mask 8)"
  "(0x0000ff00 :: 32 word) = push_bit 8 (mask 8)" "(0x000000ff :: 32 word) = mask 8"
  by (simp_all add: mask_eq_exp_minus_1 push_bit_eq_mult)

lemma mask_bytes64:
  "(0xff00000000000000 :: 64 word) = push_bit 56 (mask 8)" "(0x00ff000000000000 :: 64 word) = push_bit 48 (mask 8)"
  "(0x0000ff0000000000 :: 64 word) = push_bit 40 (mask 8)" "(0x000000ff00000000 :: 64 word) = push_bit 32 (mask 8)"
  "(0x00000000ff000000 :: 64 word) = push_bit 24 (mask 8)" "(0x0000000000ff0000 :: 64 word) = push_bit 16 (mask 8)"
  "(0x000000000000ff00 :: 64 word) = push_bit 8 (mask 8)" "(0x00000000000000ff :: 64 word) = mask 8"
  by (simp_all add: mask_eq_exp_minus_1 push_bit_eq_mult)

lemma bit_swap32: "bit (XXH_swap32 x) n \<longleftrightarrow> n < 32 \<and> bit x (8 * (3 - n div 8) + n mod 8)"
proof (cases "n < 8 * 4")
  case True
  then obtain q r where n: "n = 8 * q + r" "r < 8" "q < 4" by (rule byte_position)
  then have d: "n div 8 = q" "n mod 8 = r" by simp_all
  consider "q = 0" | "q = 1" | "q = 2" | "q = 3" using n(3) by linarith
  then show ?thesis
    using n(2) unfolding XXH_swap32_def mask_bytes32 d unfolding n(1)
    by cases (simp_all add: bit_or_iff bit_and_iff bit_push_bit_iff bit_drop_bit_eq bit_mask_iff add.commute)
qed (auto dest: bit_imp_le_length)

lemma bit_swap64: "bit (XXH_swap64 x) n \<longleftrightarrow> n < 64 \<and> bit x (8 * (7 - n div 8) + n mod 8)"
proof (cases "n < 8 * 8")
  case True
  then obtain q r where n: "n = 8 * q + r" "r < 8" "q < 8" by (rule byte_position)
  then have d: "n div 8 = q" "n mod 8 = r" by simp_all
  consider "q = 0" | "q = 1" | "q = 2" | "q = 3" | "q = 4" | "q = 5" | "q = 6" | "q = 7" using n(3) by linarith
  then show ?thesis
    using n(2) unfolding XXH_swap64_def mask_bytes64 d unfolding n(1)
    by cases (simp_all add: bit_or_iff bit_and_iff bit_push_bit_iff bit_drop_bit_eq bit_mask_iff add.commute)
qed (auto dest: bit_imp_le_length)

lemma swap32_value:
  assumes "length bs = 4"
  shows "XXH_swap32 (le_value (rev bs)) = le_value bs"
proof (rule bit_word_eqI)
  fix n assume "n < LENGTH(32)"
  then have "n div 8 < 4" "8 * (3 - n div 8) + n mod 8 < 32" by (auto simp: less_mult_imp_div_less)
  then show "bit (XXH_swap32 (le_value (rev bs))) n = bit (le_value bs :: 32 word) n"
    using assms \<open>n < LENGTH(32)\<close> by (simp add: bit_swap32 bit_le_value rev_nth)
qed

lemma swap64_value:
  assumes "length bs = 8"
  shows "XXH_swap64 (le_value (rev bs)) = le_value bs"
proof (rule bit_word_eqI)
  fix n assume "n < LENGTH(64)"
  then have "n div 8 < 8" "8 * (7 - n div 8) + n mod 8 < 64" by (auto simp: less_mult_imp_div_less)
  then show "bit (XXH_swap64 (le_value (rev bs))) n = bit (le_value bs :: 64 word) n"
    using assms \<open>n < LENGTH(64)\<close> by (simp add: bit_swap64 bit_le_value rev_nth)
qed

lemma readLE32: "4 \<le> length p \<Longrightarrow> XXH_readLE32 le p = le_value (take 4 p)"
  by (simp add: XXH_readLE32_def XXH_read32_def swap32_value)

lemma readLE64: "8 \<le> length p \<Longrightarrow> XXH_readLE64 le p = le_value (take 8 p)"
  by (simp add: XXH_readLE64_def XXH_read64_def swap64_value)

lemma stripes32_order: "stripes 16 (XXH32_stripe le) v p = stripes 16 (XXH32_stripe le') v p"
  by (rule s32.same_blocks) (simp add: XXH32_stripe_def readLE32)

lemma stripes64_order: "stripes 32 (XXH64_stripe le) v p = stripes 32 (XXH64_stripe le') v p"
  by (rule s64.same_blocks) (simp add: XXH64_stripe_def readLE64)

lemma tail32_order: "XXH32_tail le h p = XXH32_tail le' h p"
  by (induction le h p rule: XXH32_tail.induct) (simp_all add: readLE32)

lemma tail64_order: "XXH64_tail le h p = XXH64_tail le' h p"
  by (induction le h p rule: XXH64_tail.induct) (auto simp: readLE32 readLE64 XXH64_half_def split: list.splits)

lemma hash_order: "XXH32 le p seed = XXH32 le' p seed" "XXH64 le p seed' = XXH64 le' p seed'"
  unfolding xxh_calls XXH32_endian_align_def xxh_calls XXH64_endian_align_def
  by (simp_all only: stripes32_order [of le _ _ le'] stripes64_order [of le _ _ le'] tail32_order [of le _ _ le'] tail64_order [of le _ _ le'])

section \<open>The canonical form\<close>

lemma le_bytes_length [simp]: "length (le_bytes n x) = n"
  by (induction n arbitrary: x) simp_all

lemma le_bytes_nth: "i < n \<Longrightarrow> le_bytes n x ! i = ucast (drop_bit (8 * i) x)"
proof (induction n arbitrary: i x)
  case (Suc n)
  then show ?case by (cases i) (simp_all add: drop_bit_drop_bit add.commute)
qed simp

lemma le_value_bytes: "LENGTH('w) \<le> 8 * n \<Longrightarrow> le_value (le_bytes n (x :: 'w::len word)) = x"
proof (rule bit_word_eqI)
  fix k assume l: "LENGTH('w) \<le> 8 * n" "k < LENGTH('w)"
  then have "k div 8 < n" by linarith
  then show "bit (le_value (le_bytes n x) :: 'w word) k = bit x k"
    using l by (simp add: bit_le_value le_bytes_nth bit_ucast_iff bit_drop_bit_eq)
qed

lemma le_bytes_value:
  assumes "8 * length bs \<le> LENGTH('w)"
  shows "le_bytes (length bs) (le_value bs :: 'w::len word) = bs"
proof (rule nth_equalityI)
  fix i assume "i < length (le_bytes (length bs) (le_value bs :: 'w word))"
  then have i: "i < length bs" by simp
  show "le_bytes (length bs) (le_value bs :: 'w word) ! i = bs ! i"
  proof (rule bit_word_eqI)
    fix k assume "k < LENGTH(8)"
    then have "k < 8" "(8 * i + k) div 8 = i" "(8 * i + k) mod 8 = k" "8 * i + k < LENGTH('w)" using assms i by simp_all
    then show "bit (le_bytes (length bs) (le_value bs :: 'w word) ! i) k = bit (bs ! i) k"
      using i by (simp add: le_bytes_nth bit_ucast_iff bit_drop_bit_eq bit_le_value)
  qed
qed simp

lemma canonical32: "XXH32_canonicalFromHash le h = rev (le_bytes 4 h)"
proof -
  have "XXH_swap32 h = le_value (rev (le_bytes 4 h))"
    using swap32_value [of "rev (le_bytes 4 h)"] by (simp add: le_value_bytes)
  then show ?thesis using le_bytes_value [of "rev (le_bytes 4 h)", where 'w = 32]
    by (simp add: XXH32_canonicalFromHash_def write_host_def)
qed

lemma canonical64: "XXH64_canonicalFromHash le h = rev (le_bytes 8 h)"
proof -
  have "XXH_swap64 h = le_value (rev (le_bytes 8 h))"
    using swap64_value [of "rev (le_bytes 8 h)"] by (simp add: le_value_bytes)
  then show ?thesis using le_bytes_value [of "rev (le_bytes 8 h)", where 'w = 64]
    by (simp add: XXH64_canonicalFromHash_def write_host_def)
qed

lemma readBE32: "length p = 4 \<Longrightarrow> XXH_readBE32 le p = le_value (rev p)"
  using swap32_value [of "rev p"] by (simp add: XXH_readBE32_def XXH_read32_def)

lemma readBE64: "length p = 8 \<Longrightarrow> XXH_readBE64 le p = le_value (rev p)"
  using swap64_value [of "rev p"] by (simp add: XXH_readBE64_def XXH_read64_def)

lemma canonical_read:
  "XXH32_hashFromCanonical le (XXH32_canonicalFromHash le' h) = h"
  "XXH64_hashFromCanonical le (XXH64_canonicalFromHash le' h') = h'"
  by (simp_all add: canonical32 canonical64 XXH32_hashFromCanonical_def XXH64_hashFromCanonical_def readBE32 readBE64 le_value_bytes)

section \<open>Properties\<close>

text \<open>C20: Feeding an input of any length to the 32-bit hash in pieces, each of any length, never
  writes outside of the buffer of the state, and the digest is the hash of the whole input in one call.\<close>

theorem xxh32_pieces:
  "map_option (XXH32_digest le) (feed32 le (XXH32_reset seed) pieces) = Some (XXH32 le (concat pieces) seed)"
  by (rule stream32)

text \<open>C36: Feeding an input of less than 2 to the 64 bytes to the 64-bit hash in pieces, each of any length, never
  writes outside of the buffer of the state, and the digest is the hash of the whole input in one call.\<close>

theorem xxh64_pieces:
  "length (concat pieces) < 2 ^ 64 \<Longrightarrow>
   map_option (XXH64_digest le) (feed64 le (XXH64_reset seed) pieces) = Some (XXH64 le (concat pieces) seed)"
  by (rule stream64)

theorem xxh64_pieces_witness:
  "map_option (XXH64_digest True) (feed64 True (XXH64_reset 0) [[0x61], [], [0x62, 0x63]]) = Some 0x44BC2CF5AD770999"
  using xxh64_pieces [of "[[0x61], [], [0x62, 0x63]]" True 0] by (simp add: XXH64_values)

text \<open>Both hashes of an input are the same on a little-endian and on a big-endian machine, and
  a hash written in canonical form on one is read back on the other as the same hash.\<close>

theorem xxh_portable:
  "XXH32 True input seed = XXH32 False input seed \<and> XXH64 True input seed' = XXH64 False input seed' \<and>
   XXH32_hashFromCanonical le (XXH32_canonicalFromHash le' hash) = hash \<and>
   XXH64_hashFromCanonical le (XXH64_canonicalFromHash le' hash') = hash'"
  using hash_order canonical_read by blast

end
