(* ===== verification/Json_Store.thy ===== *)
theory Json_Store
  imports Json_Types
begin

text \<open>
  The memory of the item operations of \<open>src/lib/cJSON.c\<close>. Items and strings are found by
  address, 0 being the null pointer, so that sharing, dangling pointers and double frees are
  what they are in C: an access to an address that holds nothing is \<open>None\<close>.
\<close>

section \<open>The store\<close>

type_synonym ptr = nat

abbreviation NULL :: ptr where "NULL \<equiv> 0"

record 'n node =
  n_next :: ptr
  n_prev :: ptr
  n_child :: ptr
  n_type :: "32 word"
  n_valuestring :: ptr
  n_valueint :: "32 word"
  n_valuedouble :: 'n
  n_string :: ptr

text \<open>
  A string is the bytes before its NUL. Addresses from \<open>brk\<close> on have never been handed out; the
  allocation with the number \<open>k\<close> succeeds if \<open>grants k\<close>.
\<close>

record 'n store =
  nodes :: "ptr \<Rightarrow> 'n node option"
  texts :: "ptr \<Rightarrow> bytes option"
  brk :: ptr
  grants :: "nat \<Rightarrow> bool"
  requests :: nat

type_synonym ('n, 'a) action = "'n store \<Rightarrow> ('a \<times> 'n store) option"

definition store_ok :: "'n store \<Rightarrow> bool" where
  "store_ok h \<longleftrightarrow> 0 < brk h \<and> nodes h NULL = None \<and> texts h NULL = None \<and>
     (\<forall>a \<ge> brk h. nodes h a = None \<and> texts h a = None)"

text \<open>An assignment to a field of \<open>*p\<close>.\<close>

definition modify :: "ptr \<Rightarrow> ('n node \<Rightarrow> 'n node) \<Rightarrow> 'n store \<Rightarrow> 'n store option" where
  "modify p f h = (case nodes h p of None \<Rightarrow> None | Some nd \<Rightarrow> Some (h\<lparr>nodes := (nodes h)(p \<mapsto> f nd)\<rparr>))"

definition free_node :: "ptr \<Rightarrow> 'n store \<Rightarrow> 'n store option" where
  "free_node p h = (if nodes h p = None then None else Some (h\<lparr>nodes := (nodes h)(p := None)\<rparr>))"

definition free_text :: "ptr \<Rightarrow> 'n store \<Rightarrow> 'n store option" where
  "free_text p h = (if texts h p = None then None else Some (h\<lparr>texts := (texts h)(p := None)\<rparr>))"

definition asked :: "'n store \<Rightarrow> 'n store" where
  "asked h = h\<lparr>requests := requests h + 1\<rparr>"

definition blank_node :: "'n doubles \<Rightarrow> 'n node" where
  "blank_node D = \<lparr>n_next = NULL, n_prev = NULL, n_child = NULL, n_type = cJSON_Invalid, n_valuestring = NULL,
     n_valueint = 0, n_valuedouble = dbl_zero D, n_string = NULL\<rparr>"

text \<open>\<open>cJSON_New_Item\<close>.\<close>

definition New_Item :: "'n doubles \<Rightarrow> 'n store \<Rightarrow> ptr \<times> 'n store" where
  "New_Item D h =
     (if grants h (requests h)
      then (brk h, asked (h\<lparr>nodes := (nodes h)(brk h \<mapsto> blank_node D), brk := brk h + 1\<rparr>))
      else (NULL, asked h))"

definition cJSON_strdup :: "ptr \<Rightarrow> ('n, ptr) action" where
  "cJSON_strdup s h =
     (if s = NULL then Some (NULL, h)
      else case texts h s of
        None \<Rightarrow> None
      | Some bs \<Rightarrow>
          if grants h (requests h)
          then Some (brk h, asked (h\<lparr>texts := (texts h)(brk h \<mapsto> bs), brk := brk h + 1\<rparr>))
          else Some (NULL, asked h))"

section \<open>Comparing names\<close>

text \<open>\<open>tolower\<close> in the C locale.\<close>

definition to_lower :: "byte \<Rightarrow> byte" where
  "to_lower c = (if 0x41 \<le> c \<and> c \<le> 0x5A then c + 0x20 else c)"

text \<open>The loop of \<open>case_insensitive_strcmp\<close>; a string that ends is read as a NUL.\<close>

fun case_insensitive_loop :: "bytes \<Rightarrow> bytes \<Rightarrow> int" where
  "case_insensitive_loop [] [] = 0"
| "case_insensitive_loop [] (b # bs) = - uint (to_lower b)"
| "case_insensitive_loop (a # as) [] = uint (to_lower a)"
| "case_insensitive_loop (a # as) (b # bs) =
     (if to_lower a = to_lower b then case_insensitive_loop as bs else uint (to_lower a) - uint (to_lower b))"

definition case_insensitive_strcmp :: "'n store \<Rightarrow> ptr \<Rightarrow> ptr \<Rightarrow> int option" where
  "case_insensitive_strcmp h s1 s2 =
     (if s1 = NULL \<or> s2 = NULL then Some 1
      else if s1 = s2 then Some 0
      else do { a \<leftarrow> texts h s1; b \<leftarrow> texts h s2; Some (case_insensitive_loop a b) })"

text \<open>\<open>strcmp (s1, s2) == 0\<close>, which reads both strings.\<close>

definition strings_equal :: "'n store \<Rightarrow> ptr \<Rightarrow> ptr \<Rightarrow> bool option" where
  "strings_equal h s1 s2 = do { a \<leftarrow> texts h s1; b \<leftarrow> texts h s2; Some (a = b) }"

definition names_equal :: "'n store \<Rightarrow> bool \<Rightarrow> ptr \<Rightarrow> ptr \<Rightarrow> bool option" where
  "names_equal h case_sensitive s1 s2 =
     (if case_sensitive then strings_equal h s1 s2
      else map_option (\<lambda>d. d = 0) (case_insensitive_strcmp h s1 s2))"

section \<open>Laws of the store\<close>

lemma modify_Some: "nodes h p = Some nd \<Longrightarrow> modify p f h = Some (h\<lparr>nodes := (nodes h)(p \<mapsto> f nd)\<rparr>)"
  by (simp add: modify_def)

lemma modify_SomeE:
  assumes "modify p f h = Some h'"
  obtains nd where "nodes h p = Some nd" "h' = h\<lparr>nodes := (nodes h)(p \<mapsto> f nd)\<rparr>"
  using assms by (auto simp: modify_def split: option.splits)

lemma store_ok_live: "store_ok h \<Longrightarrow> nodes h p = Some nd \<Longrightarrow> p \<noteq> NULL \<and> p < brk h"
  unfolding store_ok_def by (metis gr0I linorder_not_le option.distinct(1))

lemma modify_ok:
  assumes "store_ok h" "modify p f h = Some h'"
  shows "store_ok h'"
  using assms(2)
proof (rule modify_SomeE)
  fix nd assume "nodes h p = Some nd" "h' = h\<lparr>nodes := (nodes h)(p \<mapsto> f nd)\<rparr>"
  then show ?thesis using assms(1) store_ok_live [of h p nd] by (auto simp: store_ok_def)
qed

lemma New_Item_ok: "store_ok h \<Longrightarrow> New_Item D h = (p, h') \<Longrightarrow> store_ok h'"
  by (auto simp: New_Item_def store_ok_def asked_def split: if_splits)

lemma New_Item_fresh:
  assumes "store_ok h" "New_Item D h = (p, h')" "p \<noteq> NULL"
  shows "nodes h p = None" "nodes h' = (nodes h)(p \<mapsto> blank_node D)" "texts h' = texts h"
  using assms by (auto simp: New_Item_def store_ok_def asked_def split: if_splits)

lemma case_insensitive_same: "case_insensitive_loop s t = 0 \<longleftrightarrow> map to_lower s = map to_lower t"
  if "0 \<notin> set s" "0 \<notin> set t"
  using that
proof (induction s t rule: case_insensitive_loop.induct)
  case (2 b bs)
  then have "to_lower b \<noteq> 0" by (auto simp: to_lower_def word_le_nat_alt word_unat_eq_iff unat_word_ariths split: if_splits)
  then show ?case by (simp add: uint_0_iff)
next
  case (3 a as)
  then have "to_lower a \<noteq> 0" by (auto simp: to_lower_def word_le_nat_alt word_unat_eq_iff unat_word_ariths split: if_splits)
  then show ?case by (simp add: uint_0_iff)
qed (auto simp: word_uint_eq_iff)

end
