(* ===== verification/Json_Items.thy ===== *)
theory Json_Items
  imports Json_Store
begin

text \<open>
  The item operations of \<open>src/lib/cJSON.c\<close> on the store: deletion, lookup, adding, detaching,
  inserting and replacing, and the constructors. The loops that follow \<open>next\<close> do not end on a
  cyclic list: they are partial functions, and \<open>None\<close> also says that.
\<close>

section \<open>Kinds\<close>

definition item_kind :: "'n store \<Rightarrow> ptr \<Rightarrow> (32 word \<Rightarrow> bool) \<Rightarrow> bool option" where
  "item_kind h item test = (if item = NULL then Some False else do { nd \<leftarrow> nodes h item; Some (test (n_type nd)) })"

definition cJSON_IsInvalid :: "'n store \<Rightarrow> ptr \<Rightarrow> bool option" where
  "cJSON_IsInvalid h item = item_kind h item (\<lambda>t. t AND 0xFF = cJSON_Invalid)"
definition cJSON_IsFalse :: "'n store \<Rightarrow> ptr \<Rightarrow> bool option" where
  "cJSON_IsFalse h item = item_kind h item (\<lambda>t. t AND 0xFF = cJSON_False)"
definition cJSON_IsTrue :: "'n store \<Rightarrow> ptr \<Rightarrow> bool option" where
  "cJSON_IsTrue h item = item_kind h item (\<lambda>t. t AND 0xFF = cJSON_True)"
definition cJSON_IsBool :: "'n store \<Rightarrow> ptr \<Rightarrow> bool option" where
  "cJSON_IsBool h item = item_kind h item (\<lambda>t. t AND (cJSON_True OR cJSON_False) \<noteq> 0)"
definition cJSON_IsNull :: "'n store \<Rightarrow> ptr \<Rightarrow> bool option" where
  "cJSON_IsNull h item = item_kind h item (\<lambda>t. t AND 0xFF = cJSON_NULL)"
definition cJSON_IsNumber :: "'n store \<Rightarrow> ptr \<Rightarrow> bool option" where
  "cJSON_IsNumber h item = item_kind h item (\<lambda>t. t AND 0xFF = cJSON_Number)"
definition cJSON_IsString :: "'n store \<Rightarrow> ptr \<Rightarrow> bool option" where
  "cJSON_IsString h item = item_kind h item (\<lambda>t. t AND 0xFF = cJSON_String)"
definition cJSON_IsArray :: "'n store \<Rightarrow> ptr \<Rightarrow> bool option" where
  "cJSON_IsArray h item = item_kind h item (\<lambda>t. t AND 0xFF = cJSON_Array)"
definition cJSON_IsObject :: "'n store \<Rightarrow> ptr \<Rightarrow> bool option" where
  "cJSON_IsObject h item = item_kind h item (\<lambda>t. t AND 0xFF = cJSON_Object)"
definition cJSON_IsRaw :: "'n store \<Rightarrow> ptr \<Rightarrow> bool option" where
  "cJSON_IsRaw h item = item_kind h item (\<lambda>t. t AND 0xFF = cJSON_Raw)"

definition cJSON_GetStringValue :: "'n store \<Rightarrow> ptr \<Rightarrow> ptr option" where
  "cJSON_GetStringValue h item = do {
     s \<leftarrow> cJSON_IsString h item;
     if \<not> s then Some NULL else do { nd \<leftarrow> nodes h item; Some (n_valuestring nd) } }"

section \<open>Deletion\<close>

definition flagged :: "'n node \<Rightarrow> 32 word \<Rightarrow> bool" where
  "flagged nd f \<longleftrightarrow> n_type nd AND f \<noteq> 0"

definition delete_valuestring :: "ptr \<Rightarrow> 'n store \<Rightarrow> 'n store option" where
  "delete_valuestring item h = do {
     nd \<leftarrow> nodes h item;
     if \<not> flagged nd cJSON_IsReference \<and> n_valuestring nd \<noteq> NULL then free_text (n_valuestring nd) h else Some h }"

definition delete_string :: "ptr \<Rightarrow> 'n store \<Rightarrow> 'n store option" where
  "delete_string item h = do {
     nd \<leftarrow> nodes h item;
     if \<not> flagged nd cJSON_StringIsConst \<and> n_string nd \<noteq> NULL then free_text (n_string nd) h else Some h }"

partial_function (option) cJSON_Delete :: "ptr \<Rightarrow> 'n store \<Rightarrow> 'n store option" where
  "cJSON_Delete item h =
     (if item = NULL then Some h
      else do {
        nd \<leftarrow> nodes h item;
        h1 \<leftarrow> (if \<not> flagged nd cJSON_IsReference \<and> n_child nd \<noteq> NULL then cJSON_Delete (n_child nd) h else Some h);
        h2 \<leftarrow> delete_valuestring item h1;
        h3 \<leftarrow> delete_string item h2;
        h4 \<leftarrow> free_node item h3;
        cJSON_Delete (n_next nd) h4
      })"

section \<open>Lookup\<close>

partial_function (option) count_children :: "'n store \<Rightarrow> ptr \<Rightarrow> nat \<Rightarrow> nat option" where
  "count_children h c n =
     (if c = NULL then Some n else do { nd \<leftarrow> nodes h c; count_children h (n_next nd) (n + 1) })"

text \<open>\<open>(int)size\<close> keeps the lowest 32 bits.\<close>

definition cJSON_GetArraySize :: "'n store \<Rightarrow> ptr \<Rightarrow> 32 word option" where
  "cJSON_GetArraySize h array =
     (if array = NULL then Some 0
      else do { nd \<leftarrow> nodes h array; n \<leftarrow> count_children h (n_child nd) 0; Some (of_nat n) })"

fun nth_sibling :: "'n store \<Rightarrow> ptr \<Rightarrow> nat \<Rightarrow> ptr option" where
  "nth_sibling h c 0 = Some c"
| "nth_sibling h c (Suc index) =
     (if c = NULL then Some NULL else do { nd \<leftarrow> nodes h c; nth_sibling h (n_next nd) index })"

definition get_array_item :: "'n store \<Rightarrow> ptr \<Rightarrow> nat \<Rightarrow> ptr option" where
  "get_array_item h array index =
     (if array = NULL then Some NULL else do { nd \<leftarrow> nodes h array; nth_sibling h (n_child nd) index })"

definition cJSON_GetArrayItem :: "'n store \<Rightarrow> ptr \<Rightarrow> int \<Rightarrow> ptr option" where
  "cJSON_GetArrayItem h array index = (if index < 0 then Some NULL else get_array_item h array (nat index))"

partial_function (option) find_sibling :: "'n store \<Rightarrow> bool \<Rightarrow> ptr \<Rightarrow> ptr \<Rightarrow> ptr option" where
  "find_sibling h case_sensitive name c =
     (if c = NULL then Some NULL
      else do {
        nd \<leftarrow> nodes h c;
        found \<leftarrow> names_equal h case_sensitive name (n_string nd);
        if found then Some c else find_sibling h case_sensitive name (n_next nd)
      })"

definition get_object_item :: "'n store \<Rightarrow> ptr \<Rightarrow> ptr \<Rightarrow> bool \<Rightarrow> ptr option" where
  "get_object_item h object name case_sensitive =
     (if object = NULL \<or> name = NULL then Some NULL
      else do { nd \<leftarrow> nodes h object; find_sibling h case_sensitive name (n_child nd) })"

definition cJSON_GetObjectItem :: "'n store \<Rightarrow> ptr \<Rightarrow> ptr \<Rightarrow> ptr option" where
  "cJSON_GetObjectItem h object s = get_object_item h object s False"
definition cJSON_GetObjectItemCaseSensitive :: "'n store \<Rightarrow> ptr \<Rightarrow> ptr \<Rightarrow> ptr option" where
  "cJSON_GetObjectItemCaseSensitive h object s = get_object_item h object s True"
definition cJSON_HasObjectItem :: "'n store \<Rightarrow> ptr \<Rightarrow> ptr \<Rightarrow> bool option" where
  "cJSON_HasObjectItem h object s = map_option (\<lambda>p. p \<noteq> NULL) (cJSON_GetObjectItem h object s)"

section \<open>Adding\<close>

definition set_next :: "ptr \<Rightarrow> ptr \<Rightarrow> 'n store \<Rightarrow> 'n store option" where
  "set_next p q = modify p (\<lambda>nd. nd\<lparr>n_next := q\<rparr>)"
definition set_prev :: "ptr \<Rightarrow> ptr \<Rightarrow> 'n store \<Rightarrow> 'n store option" where
  "set_prev p q = modify p (\<lambda>nd. nd\<lparr>n_prev := q\<rparr>)"
definition set_first :: "ptr \<Rightarrow> ptr \<Rightarrow> 'n store \<Rightarrow> 'n store option" where
  "set_first p q = modify p (\<lambda>nd. nd\<lparr>n_child := q\<rparr>)"

definition suffix_object :: "ptr \<Rightarrow> ptr \<Rightarrow> 'n store \<Rightarrow> 'n store option" where
  "suffix_object prev item h = do { h \<leftarrow> set_next prev item h; set_prev item prev h }"

definition create_reference :: "'n doubles \<Rightarrow> ptr \<Rightarrow> ('n, ptr) action" where
  "create_reference D item h =
     (if item = NULL then Some (NULL, h)
      else let (reference, h) = New_Item D h
        in if reference = NULL then Some (NULL, h)
           else do {
             nd \<leftarrow> nodes h item;
             h \<leftarrow> modify reference (\<lambda>_. nd\<lparr>n_string := NULL, n_type := n_type nd OR cJSON_IsReference,
                    n_next := NULL, n_prev := NULL\<rparr>) h;
             Some (reference, h)
           })"

partial_function (option) last_sibling :: "'n store \<Rightarrow> ptr \<Rightarrow> ptr option" where
  "last_sibling h c = do { nd \<leftarrow> nodes h c; if n_next nd = NULL then Some c else last_sibling h (n_next nd) }"

definition add_item_to_array :: "ptr \<Rightarrow> ptr \<Rightarrow> ('n, bool) action" where
  "add_item_to_array array item h =
     (if item = NULL \<or> array = NULL then Some (False, h)
      else do {
        nd \<leftarrow> nodes h array;
        if n_child nd = NULL then do { h \<leftarrow> set_first array item h; Some (True, h) }
        else do {
          c \<leftarrow> last_sibling h (n_child nd);
          h \<leftarrow> suffix_object c item h;
          Some (True, h)
        }
      })"

definition cJSON_AddItemToArray :: "ptr \<Rightarrow> ptr \<Rightarrow> 'n store \<Rightarrow> 'n store option" where
  "cJSON_AddItemToArray array item h = map_option snd (add_item_to_array array item h)"

definition add_item_to_object :: "ptr \<Rightarrow> ptr \<Rightarrow> ptr \<Rightarrow> bool \<Rightarrow> ('n, bool) action" where
  "add_item_to_object object s item constant_key h =
     (if object = NULL \<or> s = NULL \<or> item = NULL then Some (False, h)
      else do {
        (new_key, h) \<leftarrow> (if constant_key then Some (s, h) else cJSON_strdup s h);
        if new_key = NULL then Some (False, h)
        else do {
          nd \<leftarrow> nodes h item;
          let new_type = (if constant_key then n_type nd OR cJSON_StringIsConst
                          else n_type nd AND NOT cJSON_StringIsConst);
          h \<leftarrow> delete_string item h;
          h \<leftarrow> modify item (\<lambda>nd. nd\<lparr>n_string := new_key, n_type := new_type\<rparr>) h;
          add_item_to_array object item h
        }
      })"

definition cJSON_AddItemToObject :: "ptr \<Rightarrow> ptr \<Rightarrow> ptr \<Rightarrow> 'n store \<Rightarrow> 'n store option" where
  "cJSON_AddItemToObject object s item h = map_option snd (add_item_to_object object s item False h)"
definition cJSON_AddItemToObjectCS :: "ptr \<Rightarrow> ptr \<Rightarrow> ptr \<Rightarrow> 'n store \<Rightarrow> 'n store option" where
  "cJSON_AddItemToObjectCS object s item h = map_option snd (add_item_to_object object s item True h)"

definition cJSON_AddItemReferenceToArray :: "'n doubles \<Rightarrow> ptr \<Rightarrow> ptr \<Rightarrow> 'n store \<Rightarrow> 'n store option" where
  "cJSON_AddItemReferenceToArray D array item h =
     (if array = NULL then Some h
      else do { (r, h) \<leftarrow> create_reference D item h; map_option snd (add_item_to_array array r h) })"
definition cJSON_AddItemReferenceToObject :: "'n doubles \<Rightarrow> ptr \<Rightarrow> ptr \<Rightarrow> ptr \<Rightarrow> 'n store \<Rightarrow> 'n store option" where
  "cJSON_AddItemReferenceToObject D object s item h =
     (if object = NULL \<or> s = NULL then Some h
      else do { (r, h) \<leftarrow> create_reference D item h; map_option snd (add_item_to_object object s r False h) })"

section \<open>Detaching, inserting and replacing\<close>

definition cJSON_DetachItemViaPointer :: "ptr \<Rightarrow> ptr \<Rightarrow> ('n, ptr) action" where
  "cJSON_DetachItemViaPointer parent item h =
     (if parent = NULL \<or> item = NULL then Some (NULL, h)
      else do {
        nd \<leftarrow> nodes h item;
        h \<leftarrow> (if n_prev nd \<noteq> NULL then set_next (n_prev nd) (n_next nd) h else Some h);
        nd \<leftarrow> nodes h item;
        h \<leftarrow> (if n_next nd \<noteq> NULL then set_prev (n_next nd) (n_prev nd) h else Some h);
        pd \<leftarrow> nodes h parent;
        nd \<leftarrow> nodes h item;
        h \<leftarrow> (if item = n_child pd then set_first parent (n_next nd) h else Some h);
        h \<leftarrow> modify item (\<lambda>nd. nd\<lparr>n_prev := NULL, n_next := NULL\<rparr>) h;
        Some (item, h)
      })"

definition cJSON_DetachItemFromArray :: "ptr \<Rightarrow> int \<Rightarrow> ('n, ptr) action" where
  "cJSON_DetachItemFromArray array which h =
     (if which < 0 then Some (NULL, h)
      else do { item \<leftarrow> get_array_item h array (nat which); cJSON_DetachItemViaPointer array item h })"

definition cJSON_DeleteItemFromArray :: "ptr \<Rightarrow> int \<Rightarrow> 'n store \<Rightarrow> 'n store option" where
  "cJSON_DeleteItemFromArray array which h = do {
     (item, h) \<leftarrow> cJSON_DetachItemFromArray array which h; cJSON_Delete item h }"

definition cJSON_DetachItemFromObject :: "ptr \<Rightarrow> ptr \<Rightarrow> ('n, ptr) action" where
  "cJSON_DetachItemFromObject object s h = do {
     to_detach \<leftarrow> cJSON_GetObjectItem h object s; cJSON_DetachItemViaPointer object to_detach h }"
definition cJSON_DetachItemFromObjectCaseSensitive :: "ptr \<Rightarrow> ptr \<Rightarrow> ('n, ptr) action" where
  "cJSON_DetachItemFromObjectCaseSensitive object s h = do {
     to_detach \<leftarrow> cJSON_GetObjectItemCaseSensitive h object s; cJSON_DetachItemViaPointer object to_detach h }"
definition cJSON_DeleteItemFromObject :: "ptr \<Rightarrow> ptr \<Rightarrow> 'n store \<Rightarrow> 'n store option" where
  "cJSON_DeleteItemFromObject object s h = do {
     (item, h) \<leftarrow> cJSON_DetachItemFromObject object s h; cJSON_Delete item h }"
definition cJSON_DeleteItemFromObjectCaseSensitive :: "ptr \<Rightarrow> ptr \<Rightarrow> 'n store \<Rightarrow> 'n store option" where
  "cJSON_DeleteItemFromObjectCaseSensitive object s h = do {
     (item, h) \<leftarrow> cJSON_DetachItemFromObjectCaseSensitive object s h; cJSON_Delete item h }"

definition cJSON_InsertItemInArray :: "ptr \<Rightarrow> int \<Rightarrow> ptr \<Rightarrow> 'n store \<Rightarrow> 'n store option" where
  "cJSON_InsertItemInArray array which newitem h =
     (if which < 0 then Some h
      else do {
        after_inserted \<leftarrow> get_array_item h array (nat which);
        if after_inserted = NULL then map_option snd (add_item_to_array array newitem h)
        else do {
          h \<leftarrow> set_next newitem after_inserted h;
          ad \<leftarrow> nodes h after_inserted;
          h \<leftarrow> set_prev newitem (n_prev ad) h;
          h \<leftarrow> set_prev after_inserted newitem h;
          pd \<leftarrow> nodes h array;
          if after_inserted = n_child pd then set_first array newitem h
          else do { nd \<leftarrow> nodes h newitem; set_next (n_prev nd) newitem h }
        }
      })"

definition cJSON_ReplaceItemViaPointer :: "ptr \<Rightarrow> ptr \<Rightarrow> ptr \<Rightarrow> ('n, bool) action" where
  "cJSON_ReplaceItemViaPointer parent item replacement h =
     (if parent = NULL \<or> replacement = NULL \<or> item = NULL then Some (False, h)
      else if replacement = item then Some (True, h)
      else do {
        nd \<leftarrow> nodes h item;
        h \<leftarrow> set_next replacement (n_next nd) h;
        nd \<leftarrow> nodes h item;
        h \<leftarrow> set_prev replacement (n_prev nd) h;
        rd \<leftarrow> nodes h replacement;
        h \<leftarrow> (if n_next rd \<noteq> NULL then set_prev (n_next rd) replacement h else Some h);
        rd \<leftarrow> nodes h replacement;
        h \<leftarrow> (if n_prev rd \<noteq> NULL then set_next (n_prev rd) replacement h else Some h);
        pd \<leftarrow> nodes h parent;
        h \<leftarrow> (if n_child pd = item then set_first parent replacement h else Some h);
        h \<leftarrow> modify item (\<lambda>nd. nd\<lparr>n_next := NULL, n_prev := NULL\<rparr>) h;
        h \<leftarrow> cJSON_Delete item h;
        Some (True, h)
      })"

definition cJSON_ReplaceItemInArray :: "ptr \<Rightarrow> int \<Rightarrow> ptr \<Rightarrow> 'n store \<Rightarrow> 'n store option" where
  "cJSON_ReplaceItemInArray array which newitem h =
     (if which < 0 then Some h
      else do {
        item \<leftarrow> get_array_item h array (nat which);
        map_option snd (cJSON_ReplaceItemViaPointer array item newitem h)
      })"

definition replace_item_in_object :: "ptr \<Rightarrow> ptr \<Rightarrow> ptr \<Rightarrow> bool \<Rightarrow> ('n, bool) action" where
  "replace_item_in_object object s replacement case_sensitive h =
     (if replacement = NULL \<or> s = NULL then Some (False, h)
      else do {
        h \<leftarrow> delete_string replacement h;
        (new_key, h) \<leftarrow> cJSON_strdup s h;
        h \<leftarrow> modify replacement (\<lambda>nd. nd\<lparr>n_string := new_key, n_type := n_type nd AND NOT cJSON_StringIsConst\<rparr>) h;
        item \<leftarrow> get_object_item h object s case_sensitive;
        (ok, h) \<leftarrow> cJSON_ReplaceItemViaPointer object item replacement h;
        Some (True, h)
      })"

definition cJSON_ReplaceItemInObject :: "ptr \<Rightarrow> ptr \<Rightarrow> ptr \<Rightarrow> 'n store \<Rightarrow> 'n store option" where
  "cJSON_ReplaceItemInObject object s newitem h = map_option snd (replace_item_in_object object s newitem False h)"
definition cJSON_ReplaceItemInObjectCaseSensitive :: "ptr \<Rightarrow> ptr \<Rightarrow> ptr \<Rightarrow> 'n store \<Rightarrow> 'n store option" where
  "cJSON_ReplaceItemInObjectCaseSensitive object s newitem h = map_option snd (replace_item_in_object object s newitem True h)"

section \<open>Constructors\<close>

definition create_item :: "'n doubles \<Rightarrow> ('n node \<Rightarrow> 'n node) \<Rightarrow> 'n store \<Rightarrow> ptr \<times> 'n store" where
  "create_item D f h =
     (let (item, h) = New_Item D h
      in if item = NULL then (NULL, h)
         else (item, h\<lparr>nodes := (nodes h)(item := map_option f (nodes h item))\<rparr>))"

definition cJSON_CreateNull :: "'n doubles \<Rightarrow> 'n store \<Rightarrow> ptr \<times> 'n store" where
  "cJSON_CreateNull D = create_item D (\<lambda>nd. nd\<lparr>n_type := cJSON_NULL\<rparr>)"
definition cJSON_CreateTrue :: "'n doubles \<Rightarrow> 'n store \<Rightarrow> ptr \<times> 'n store" where
  "cJSON_CreateTrue D = create_item D (\<lambda>nd. nd\<lparr>n_type := cJSON_True\<rparr>)"
definition cJSON_CreateFalse :: "'n doubles \<Rightarrow> 'n store \<Rightarrow> ptr \<times> 'n store" where
  "cJSON_CreateFalse D = create_item D (\<lambda>nd. nd\<lparr>n_type := cJSON_False\<rparr>)"
definition cJSON_CreateBool :: "'n doubles \<Rightarrow> bool \<Rightarrow> 'n store \<Rightarrow> ptr \<times> 'n store" where
  "cJSON_CreateBool D b = create_item D (\<lambda>nd. nd\<lparr>n_type := (if b then cJSON_True else cJSON_False)\<rparr>)"
definition cJSON_CreateNumber :: "'n doubles \<Rightarrow> 'n \<Rightarrow> 'n store \<Rightarrow> ptr \<times> 'n store" where
  "cJSON_CreateNumber D num =
     create_item D (\<lambda>nd. nd\<lparr>n_type := cJSON_Number, n_valuedouble := num, n_valueint := saturate D num\<rparr>)"
definition cJSON_CreateArray :: "'n doubles \<Rightarrow> 'n store \<Rightarrow> ptr \<times> 'n store" where
  "cJSON_CreateArray D = create_item D (\<lambda>nd. nd\<lparr>n_type := cJSON_Array\<rparr>)"
definition cJSON_CreateObject :: "'n doubles \<Rightarrow> 'n store \<Rightarrow> ptr \<times> 'n store" where
  "cJSON_CreateObject D = create_item D (\<lambda>nd. nd\<lparr>n_type := cJSON_Object\<rparr>)"
definition cJSON_CreateStringReference :: "'n doubles \<Rightarrow> ptr \<Rightarrow> 'n store \<Rightarrow> ptr \<times> 'n store" where
  "cJSON_CreateStringReference D s =
     create_item D (\<lambda>nd. nd\<lparr>n_type := cJSON_String OR cJSON_IsReference, n_valuestring := s\<rparr>)"
definition cJSON_CreateObjectReference :: "'n doubles \<Rightarrow> ptr \<Rightarrow> 'n store \<Rightarrow> ptr \<times> 'n store" where
  "cJSON_CreateObjectReference D c =
     create_item D (\<lambda>nd. nd\<lparr>n_type := cJSON_Object OR cJSON_IsReference, n_child := c\<rparr>)"
definition cJSON_CreateArrayReference :: "'n doubles \<Rightarrow> ptr \<Rightarrow> 'n store \<Rightarrow> ptr \<times> 'n store" where
  "cJSON_CreateArrayReference D c =
     create_item D (\<lambda>nd. nd\<lparr>n_type := cJSON_Array OR cJSON_IsReference, n_child := c\<rparr>)"

text \<open>\<open>cJSON_CreateString\<close> and \<open>cJSON_CreateRaw\<close>, for their type.\<close>

definition create_text :: "'n doubles \<Rightarrow> 32 word \<Rightarrow> ptr \<Rightarrow> ('n, ptr) action" where
  "create_text D t s h =
     (let (item, h) = create_item D (\<lambda>nd. nd\<lparr>n_type := t\<rparr>) h
      in if item = NULL then Some (NULL, h)
         else do {
           (copy, h) \<leftarrow> cJSON_strdup s h;
           h \<leftarrow> modify item (\<lambda>nd. nd\<lparr>n_valuestring := copy\<rparr>) h;
           if copy = NULL then do { h \<leftarrow> cJSON_Delete item h; Some (NULL, h) } else Some (item, h)
         })"

definition cJSON_CreateString :: "'n doubles \<Rightarrow> ptr \<Rightarrow> ('n, ptr) action" where
  "cJSON_CreateString D = create_text D cJSON_String"
definition cJSON_CreateRaw :: "'n doubles \<Rightarrow> ptr \<Rightarrow> ('n, ptr) action" where
  "cJSON_CreateRaw D = create_text D cJSON_Raw"

text \<open>The functions that create an item and add it to an object: a new item that cannot be added is deleted.\<close>

definition add_new :: "ptr \<Rightarrow> ptr \<Rightarrow> ptr \<times> 'n store \<Rightarrow> (ptr \<times> 'n store) option" where
  "add_new object name new = (case new of (item, h) \<Rightarrow> do {
     (ok, h) \<leftarrow> add_item_to_object object name item False h;
     if ok then Some (item, h) else do { h \<leftarrow> cJSON_Delete item h; Some (NULL, h) } })"

definition cJSON_AddNullToObject :: "'n doubles \<Rightarrow> ptr \<Rightarrow> ptr \<Rightarrow> ('n, ptr) action" where
  "cJSON_AddNullToObject D object name h = add_new object name (cJSON_CreateNull D h)"
definition cJSON_AddTrueToObject :: "'n doubles \<Rightarrow> ptr \<Rightarrow> ptr \<Rightarrow> ('n, ptr) action" where
  "cJSON_AddTrueToObject D object name h = add_new object name (cJSON_CreateTrue D h)"
definition cJSON_AddFalseToObject :: "'n doubles \<Rightarrow> ptr \<Rightarrow> ptr \<Rightarrow> ('n, ptr) action" where
  "cJSON_AddFalseToObject D object name h = add_new object name (cJSON_CreateFalse D h)"
definition cJSON_AddBoolToObject :: "'n doubles \<Rightarrow> ptr \<Rightarrow> ptr \<Rightarrow> bool \<Rightarrow> ('n, ptr) action" where
  "cJSON_AddBoolToObject D object name b h = add_new object name (cJSON_CreateBool D b h)"
definition cJSON_AddNumberToObject :: "'n doubles \<Rightarrow> ptr \<Rightarrow> ptr \<Rightarrow> 'n \<Rightarrow> ('n, ptr) action" where
  "cJSON_AddNumberToObject D object name x h = add_new object name (cJSON_CreateNumber D x h)"
definition cJSON_AddStringToObject :: "'n doubles \<Rightarrow> ptr \<Rightarrow> ptr \<Rightarrow> ptr \<Rightarrow> ('n, ptr) action" where
  "cJSON_AddStringToObject D object name s h = do { new \<leftarrow> cJSON_CreateString D s h; add_new object name new }"
definition cJSON_AddRawToObject :: "'n doubles \<Rightarrow> ptr \<Rightarrow> ptr \<Rightarrow> ptr \<Rightarrow> ('n, ptr) action" where
  "cJSON_AddRawToObject D object name s h = do { new \<leftarrow> cJSON_CreateRaw D s h; add_new object name new }"
definition cJSON_AddObjectToObject :: "'n doubles \<Rightarrow> ptr \<Rightarrow> ptr \<Rightarrow> ('n, ptr) action" where
  "cJSON_AddObjectToObject D object name h = add_new object name (cJSON_CreateObject D h)"
definition cJSON_AddArrayToObject :: "'n doubles \<Rightarrow> ptr \<Rightarrow> ptr \<Rightarrow> ('n, ptr) action" where
  "cJSON_AddArrayToObject D object name h = add_new object name (cJSON_CreateArray D h)"

text \<open>
  The loops of the four functions that create an array, with their local pointers \<open>a\<close> and \<open>p\<close>;
  the argument \<open>mk\<close> creates the element.
\<close>

fun fill_array :: "('e \<Rightarrow> ('n, ptr) action) \<Rightarrow> ptr \<Rightarrow> ptr \<Rightarrow> 'e list \<Rightarrow> nat \<Rightarrow> ('n, ptr) action" where
  "fill_array mk a p xs 0 h = Some (a, h)"
| "fill_array mk a p [] (Suc k) h = None"
| "fill_array mk a p (x # xs) (Suc k) h = do {
     (n, h) \<leftarrow> mk x h;
     if n = NULL then do { h \<leftarrow> cJSON_Delete a h; Some (NULL, h) }
     else do {
       h \<leftarrow> (if p = NULL then set_first a n h else suffix_object p n h);
       fill_array mk a n xs k h
     }
   }"

definition create_array_of :: "'n doubles \<Rightarrow> ('e \<Rightarrow> ('n, ptr) action) \<Rightarrow> 'e list option \<Rightarrow> int \<Rightarrow> ('n, ptr) action" where
  "create_array_of D mk elements count h =
     (case elements of
        None \<Rightarrow> Some (NULL, h)
      | Some es \<Rightarrow>
          if count < 0 then Some (NULL, h)
          else let (a, h) = cJSON_CreateArray D h
            in if a = NULL then Some (NULL, h) else fill_array mk a NULL es (nat count) h)"

definition cJSON_CreateIntArray :: "'n doubles \<Rightarrow> (32 word \<Rightarrow> 'n) \<Rightarrow> 32 word list option \<Rightarrow> int \<Rightarrow> ('n, ptr) action" where
  "cJSON_CreateIntArray D of_int32 = create_array_of D (\<lambda>i h. Some (cJSON_CreateNumber D (of_int32 i) h))"
definition cJSON_CreateFloatArray :: "'n doubles \<Rightarrow> ('f \<Rightarrow> 'n) \<Rightarrow> 'f list option \<Rightarrow> int \<Rightarrow> ('n, ptr) action" where
  "cJSON_CreateFloatArray D of_float = create_array_of D (\<lambda>f h. Some (cJSON_CreateNumber D (of_float f) h))"
definition cJSON_CreateDoubleArray :: "'n doubles \<Rightarrow> 'n list option \<Rightarrow> int \<Rightarrow> ('n, ptr) action" where
  "cJSON_CreateDoubleArray D = create_array_of D (\<lambda>x h. Some (cJSON_CreateNumber D x h))"
definition cJSON_CreateStringArray :: "'n doubles \<Rightarrow> ptr list option \<Rightarrow> int \<Rightarrow> ('n, ptr) action" where
  "cJSON_CreateStringArray D = create_array_of D (cJSON_CreateString D)"

section \<open>Duplication and comparison\<close>

text \<open>
  The recursion goes through a loop over the children; \<open>None\<close> is also the end of the fuel. The
  label \<open>fail\<close> deletes what has been copied.
\<close>

definition dup_failed :: "ptr \<Rightarrow> ('n, ptr) action" where
  "dup_failed newitem h = do { h \<leftarrow> cJSON_Delete newitem h; Some (NULL, h) }"

text \<open>The strings of the copy: the flag says that there was memory for both.\<close>

definition dup_strings :: "ptr \<Rightarrow> ptr \<Rightarrow> ('n, bool) action" where
  "dup_strings item newitem h = do {
     nd \<leftarrow> nodes h item;
     (s, h) \<leftarrow> (if n_valuestring nd \<noteq> NULL then cJSON_strdup (n_valuestring nd) h else Some (NULL, h));
     h \<leftarrow> modify newitem (\<lambda>x. x\<lparr>n_valuestring := s\<rparr>) h;
     if n_valuestring nd \<noteq> NULL \<and> s = NULL then Some (False, h)
     else if n_string nd = NULL then Some (True, h)
     else do {
       (k, h) \<leftarrow> (if flagged nd cJSON_StringIsConst then Some (n_string nd, h) else cJSON_strdup (n_string nd) h);
       h \<leftarrow> modify newitem (\<lambda>x. x\<lparr>n_string := k\<rparr>) h;
       Some (k \<noteq> NULL, h)
     }
   }"

definition duplicate_item :: "'n doubles \<Rightarrow> (ptr \<Rightarrow> ptr \<Rightarrow> ptr \<Rightarrow> ('n, ptr) action) \<Rightarrow> ptr \<Rightarrow> bool \<Rightarrow> ('n, ptr) action" where
  "duplicate_item D children item recurse h =
     (if item = NULL then Some (NULL, h)
      else let (newitem, h) = New_Item D h
        in if newitem = NULL then Some (NULL, h)
           else do {
             nd \<leftarrow> nodes h item;
             h \<leftarrow> modify newitem (\<lambda>x. x\<lparr>n_type := n_type nd AND NOT cJSON_IsReference,
                    n_valueint := n_valueint nd, n_valuedouble := n_valuedouble nd\<rparr>) h;
             (ok, h) \<leftarrow> dup_strings item newitem h;
             if \<not> ok then dup_failed newitem h
             else if \<not> recurse then Some (newitem, h)
             else do { nd \<leftarrow> nodes h item; children newitem NULL (n_child nd) h }
           })"

definition duplicate_loop ::
    "(ptr \<Rightarrow> bool \<Rightarrow> ('n, ptr) action) \<Rightarrow> (ptr \<Rightarrow> ptr \<Rightarrow> ptr \<Rightarrow> ('n, ptr) action) \<Rightarrow>
      ptr \<Rightarrow> ptr \<Rightarrow> ptr \<Rightarrow> ('n, ptr) action" where
  "duplicate_loop dup children newitem nxt c h =
     (if c = NULL then Some (newitem, h)
      else do {
        (newchild, h) \<leftarrow> dup c True h;
        if newchild = NULL then dup_failed newitem h
        else do {
          h \<leftarrow> (if nxt \<noteq> NULL then suffix_object nxt newchild h else set_first newitem newchild h);
          nd \<leftarrow> nodes h c;
          children newitem newchild (n_next nd) h
        }
      })"

fun cJSON_Duplicate :: "'n doubles \<Rightarrow> nat \<Rightarrow> ptr \<Rightarrow> bool \<Rightarrow> ('n, ptr) action"
and duplicate_children :: "'n doubles \<Rightarrow> nat \<Rightarrow> ptr \<Rightarrow> ptr \<Rightarrow> ptr \<Rightarrow> ('n, ptr) action"
where
  "cJSON_Duplicate D 0 = (\<lambda>item recurse h. None)"
| "cJSON_Duplicate D (Suc n) = duplicate_item D (duplicate_children D n)"
| "duplicate_children D 0 = (\<lambda>newitem nxt c h. None)"
| "duplicate_children D (Suc n) = duplicate_loop (cJSON_Duplicate D n) (duplicate_children D n)"

definition compare_texts :: "'n store \<Rightarrow> 'n node \<Rightarrow> 'n node \<Rightarrow> bool option" where
  "compare_texts h a b =
     (if n_valuestring a = NULL \<or> n_valuestring b = NULL then Some False
      else strings_equal h (n_valuestring a) (n_valuestring b))"

type_synonym 'n comparison = "'n store \<Rightarrow> ptr \<Rightarrow> ptr \<Rightarrow> bool \<Rightarrow> bool option"

definition comparable :: "32 word \<Rightarrow> bool" where
  "comparable k \<longleftrightarrow> k \<in> {cJSON_False, cJSON_True, cJSON_NULL, cJSON_Number, cJSON_String, cJSON_Raw, cJSON_Array, cJSON_Object}"

definition compare_item :: "'n doubles \<Rightarrow> 'n comparison \<Rightarrow> 'n comparison \<Rightarrow> 'n comparison" where
  "compare_item D elements members h a b cs =
     (if a = NULL \<or> b = NULL then Some False
      else do {
        ad \<leftarrow> nodes h a;
        bd \<leftarrow> nodes h b;
        let k = n_type ad AND 0xFF;
        if k \<noteq> n_type bd AND 0xFF \<or> \<not> comparable k then Some False
        else if a = b then Some True
        else if k \<in> {cJSON_False, cJSON_True, cJSON_NULL} then Some True
        else if k = cJSON_Number then Some (dbl_eq D (n_valuedouble ad) (n_valuedouble bd))
        else if k \<in> {cJSON_String, cJSON_Raw} then compare_texts h ad bd
        else if k = cJSON_Array then elements h (n_child ad) (n_child bd) cs
        else do {
          one \<leftarrow> members h (n_child ad) b cs;
          if \<not> one then Some False else members h (n_child bd) a cs
        }
      })"

definition compare_elements_loop :: "'n comparison \<Rightarrow> 'n comparison \<Rightarrow> 'n comparison" where
  "compare_elements_loop compare loop h a b cs =
     (if a = NULL \<or> b = NULL then Some (a = b)
      else do {
        same \<leftarrow> compare h a b cs;
        if \<not> same then Some False
        else do { ad \<leftarrow> nodes h a; bd \<leftarrow> nodes h b; loop h (n_next ad) (n_next bd) cs }
      })"

definition compare_members_loop :: "'n comparison \<Rightarrow> 'n comparison \<Rightarrow> 'n comparison" where
  "compare_members_loop compare loop h a other cs =
     (if a = NULL then Some True
      else do {
        ad \<leftarrow> nodes h a;
        b \<leftarrow> get_object_item h other (n_string ad) cs;
        if b = NULL then Some False
        else do {
          same \<leftarrow> compare h a b cs;
          if \<not> same then Some False else loop h (n_next ad) other cs
        }
      })"

fun cJSON_Compare :: "'n doubles \<Rightarrow> nat \<Rightarrow> 'n comparison"
and compare_elements :: "'n doubles \<Rightarrow> nat \<Rightarrow> 'n comparison"
and compare_members :: "'n doubles \<Rightarrow> nat \<Rightarrow> 'n comparison"
where
  "cJSON_Compare D 0 = (\<lambda>h a b cs. None)"
| "cJSON_Compare D (Suc n) = compare_item D (compare_elements D n) (compare_members D n)"
| "compare_elements D 0 = (\<lambda>h a b cs. None)"
| "compare_elements D (Suc n) = compare_elements_loop (cJSON_Compare D n) (compare_elements D n)"
| "compare_members D 0 = (\<lambda>h a b cs. None)"
| "compare_members D (Suc n) = compare_members_loop (cJSON_Compare D n) (compare_members D n)"

end
