(* ===== verification/Json_Lists.thy ===== *)
theory Json_Lists
  imports Json_Items
begin

text \<open>
  The linked list of the children of an item, as a list of addresses, and the operations on it:
  each does to the pointers what the list operation does to the list, and nothing else to the
  store.
\<close>

section \<open>Lists in the store\<close>

text \<open>The nodes \<open>as\<close>, linked in both directions, from \<open>p\<close> up to the pointer \<open>q\<close> behind the last one.\<close>

fun seg :: "'n store \<Rightarrow> ptr \<Rightarrow> ptr \<Rightarrow> ptr list \<Rightarrow> ptr \<Rightarrow> bool" where
  "seg h prev p [] q \<longleftrightarrow> p = q"
| "seg h prev p (a # as) q \<longleftrightarrow>
     p = a \<and> (\<exists>nd. nodes h a = Some nd \<and> n_prev nd = prev \<and> seg h a (n_next nd) as q)"

definition children :: "'n store \<Rightarrow> ptr \<Rightarrow> ptr list \<Rightarrow> bool" where
  "children h array ps \<longleftrightarrow> store_ok h \<and> distinct (array # ps) \<and>
     (\<exists>nd. nodes h array = Some nd \<and> seg h NULL (n_child nd) ps NULL)"

text \<open>An item that is in no list.\<close>

definition detached :: "'n store \<Rightarrow> ptr \<Rightarrow> bool" where
  "detached h item \<longleftrightarrow> (\<exists>nd. nodes h item = Some nd \<and> n_next nd = NULL \<and> n_prev nd = NULL)"

text \<open>What an operation on the list of \<open>array\<close> must leave alone: all but the links of the nodes in \<open>A\<close>.\<close>

definition unlink :: "bool \<Rightarrow> 'n node \<Rightarrow> 'n node" where
  "unlink parent nd = (if parent then nd\<lparr>n_child := NULL\<rparr> else nd\<lparr>n_next := NULL, n_prev := NULL\<rparr>)"

definition data_of :: "ptr \<Rightarrow> 'n store \<Rightarrow> ptr \<Rightarrow> 'n node option" where
  "data_of array h a = map_option (unlink (a = array)) (nodes h a)"

definition relinked :: "ptr \<Rightarrow> ptr set \<Rightarrow> 'n store \<Rightarrow> 'n store \<Rightarrow> bool" where
  "relinked array A h h' \<longleftrightarrow> texts h' = texts h \<and> brk h' = brk h \<and> grants h' = grants h \<and> requests h' = requests h \<and>
     data_of array h' = data_of array h \<and> (\<forall>a. a \<notin> A \<and> a \<noteq> array \<longrightarrow> nodes h' a = nodes h a)"

section \<open>Segments\<close>

definition upd :: "ptr \<Rightarrow> ('n node \<Rightarrow> 'n node) \<Rightarrow> 'n store \<Rightarrow> 'n store" where
  "upd a f h = h\<lparr>nodes := (nodes h)(a := map_option f (nodes h a))\<rparr>"

lemma modify_upd: "modify a f h = (if nodes h a = None then None else Some (upd a f h))"
  by (auto simp: modify_def upd_def split: option.split)

lemma upd_simps [simp]:
  "nodes (upd a f h) b = (if b = a then map_option f (nodes h a) else nodes h b)"
  "texts (upd a f h) = texts h" "brk (upd a f h) = brk h" "grants (upd a f h) = grants h" "requests (upd a f h) = requests h"
  by (simp_all add: upd_def)

lemma upd_ok [simp]: "store_ok (upd a f h) = store_ok h"
proof
  assume "store_ok (upd a f h)"
  then show "store_ok h" by (auto simp: store_ok_def split: if_splits)
qed (auto simp: store_ok_def)

lemma seg_append: "seg h prev p (xs @ ys) q \<longleftrightarrow> (\<exists>m. seg h prev p xs m \<and> seg h (last (prev # xs)) m ys q)"
  by (induction xs arbitrary: prev p) auto

lemma seg_frame: "(\<And>a. a \<in> set as \<Longrightarrow> nodes h' a = nodes h a) \<Longrightarrow> seg h' prev p as q = seg h prev p as q"
  by (induction as arbitrary: prev p) auto

lemma seg_upd_other: "a \<notin> set as \<Longrightarrow> seg (upd a f h) prev p as q = seg h prev p as q"
  by (rule seg_frame) auto

lemma seg_next:
  "seg h prev p (xs @ [b]) q \<Longrightarrow> b \<notin> set xs \<Longrightarrow> seg (upd b (\<lambda>nd. nd\<lparr>n_next := r\<rparr>) h) prev p (xs @ [b]) r"
  by (auto simp: seg_append seg_upd_other)

lemma seg_prev:
  "seg h prev p (c # ys) q \<Longrightarrow> c \<notin> set ys \<Longrightarrow> seg (upd c (\<lambda>nd. nd\<lparr>n_prev := r\<rparr>) h) r p (c # ys) q"
  by (auto simp: seg_upd_other)

lemma seg_live: "seg h prev p as q \<Longrightarrow> a \<in> set as \<Longrightarrow> nodes h a \<noteq> None"
  by (induction as arbitrary: prev p) auto

lemma seg_start: "seg h prev p as q \<Longrightarrow> p = (case as of [] \<Rightarrow> q | a # _ \<Rightarrow> a)"
  by (cases as) auto

lemma live_nonnull: "store_ok h \<Longrightarrow> nodes h a \<noteq> None \<Longrightarrow> a \<noteq> NULL"
  unfolding store_ok_def by metis

lemma childrenD:
  assumes "children h array ps"
  obtains nd where "store_ok h" "array \<noteq> NULL" "array \<notin> set ps" "distinct ps" "NULL \<notin> set ps"
    "nodes h array = Some nd" "seg h NULL (n_child nd) ps NULL"
  using assms live_nonnull seg_live unfolding children_def by (metis distinct.simps(2) option.distinct(1))

section \<open>Walking\<close>

lemma last_sibling_seg: "seg h prev p (xs @ [b]) NULL \<Longrightarrow> NULL \<notin> set (xs @ [b]) \<Longrightarrow> last_sibling h p = Some b"
proof (induction xs arbitrary: prev p)
  case Nil
  then show ?case by (subst last_sibling.simps) auto
next
  case (Cons a xs)
  then obtain nd where nd: "p = a" "nodes h a = Some nd" "seg h a (n_next nd) (xs @ [b]) NULL" by auto
  then have "n_next nd \<noteq> NULL" using seg_start [OF nd(3)] Cons.prems(2) by (cases xs) auto
  then show ?case using nd Cons.IH [OF nd(3)] Cons.prems(2) by (subst last_sibling.simps) simp
qed

lemma nth_sibling_seg:
  "seg h prev p as NULL \<Longrightarrow> NULL \<notin> set as \<Longrightarrow> nth_sibling h p i = Some (if i < length as then as ! i else NULL)"
proof (induction as arbitrary: prev p i)
  case Nil
  then show ?case by (cases i) auto
next
  case (Cons a as)
  then obtain nd where nd: "p = a" "nodes h a = Some nd" "seg h a (n_next nd) as NULL" by auto
  with Cons show ?case by (cases i) auto
qed

lemma count_children_seg: "seg h prev p as NULL \<Longrightarrow> NULL \<notin> set as \<Longrightarrow> count_children h p n = Some (n + length as)"
proof (induction as arbitrary: prev p n)
  case Nil
  then show ?case by (subst count_children.simps) simp
next
  case (Cons a as)
  then obtain nd where nd: "p = a" "nodes h a = Some nd" "seg h a (n_next nd) as NULL" by auto
  with Cons show ?case by (subst count_children.simps) auto
qed

lemma get_array_item_children:
  assumes "children h array ps"
  shows "get_array_item h array i = Some (if i < length ps then ps ! i else NULL)"
  using assms by (rule childrenD) (simp add: get_array_item_def nth_sibling_seg)

section \<open>Editing\<close>

text \<open>What the list operations leave alone.\<close>

lemma relinked_refl [simp]: "relinked array A h h"
  by (simp add: relinked_def)

lemma data_upd:
  assumes "\<And>nd. unlink (a = array) (f nd) = unlink (a = array) nd"
  shows "data_of array (upd a f h) = data_of array h"
proof
  fix b
  show "data_of array (upd a f h) b = data_of array h b"
    using assms by (cases "nodes h b") (auto simp: data_of_def)
qed

lemma relinked_upd:
  assumes "relinked array A h h'" "a \<in> A" "a \<noteq> array" "\<And>nd. unlink False (f nd) = unlink False nd"
  shows "relinked array A h (upd a f h')"
  using assms data_upd [of a array f h'] by (simp add: relinked_def)

lemma relinked_child:
  assumes "relinked array A h h'"
  shows "relinked array A h (upd array (\<lambda>nd. nd\<lparr>n_child := q\<rparr>) h')"
  using assms data_upd [of array array "\<lambda>nd. nd\<lparr>n_child := q\<rparr>" h'] by (simp add: relinked_def unlink_def)

lemma add_item_children:
  assumes "children h array ps" "detached h item" "item \<notin> set (array # ps)"
  shows "\<exists>h'. add_item_to_array array item h = Some (True, h') \<and> children h' array (ps @ [item]) \<and>
    relinked array (set (item # ps)) h h'"
proof -
  obtain nd where h: "store_ok h" "array \<noteq> NULL" "array \<notin> set ps" "distinct ps" "NULL \<notin> set ps"
    "nodes h array = Some nd" "seg h NULL (n_child nd) ps NULL" using childrenD [OF assms(1)] by blast
  obtain it where it: "nodes h item = Some it" "n_next it = NULL" "n_prev it = NULL" using assms(2) by (auto simp: detached_def)
  have item: "item \<noteq> NULL" "item \<noteq> array" using live_nonnull [OF h(1)] it(1) assms(3) by auto
  show ?thesis
  proof (cases ps rule: rev_cases)
    case Nil
    then show ?thesis using h it item assms(3)
      by (auto simp: add_item_to_array_def set_first_def modify_upd children_def relinked_child)
  next
    case (snoc xs b)
    let ?h1 = "upd b (\<lambda>nd. nd\<lparr>n_next := item\<rparr>) h" let ?h2 = "upd item (\<lambda>nd. nd\<lparr>n_prev := b\<rparr>) ?h1"
    have c: "n_child nd \<noteq> NULL" using h(5) seg_start [OF h(7)] snoc by (cases xs) auto
    have last: "last_sibling h (n_child nd) = Some b" using last_sibling_seg [of h] h(5,7) snoc by auto
    have live: "nodes h b \<noteq> None" using seg_live [OF h(7)] snoc by simp
    have "seg ?h1 NULL (n_child nd) (xs @ [b]) item" using h(4,7) snoc by (intro seg_next) auto
    then have s: "seg ?h2 NULL (n_child nd) (xs @ [b]) item" using assms(3) snoc by (subst seg_upd_other) auto
    have "seg ?h2 NULL (n_child nd) ((xs @ [b]) @ [item]) NULL"
      unfolding seg_append using s it item assms(3) snoc by (auto simp: seg_append)
    then have "children ?h2 array (ps @ [item])"
      using h item assms(3) snoc by (auto simp: children_def)
    moreover have "relinked array (set (item # ps)) h ?h2"
      by (intro relinked_upd relinked_refl) (use item h(3) snoc in \<open>auto simp: unlink_def\<close>)
    moreover have "add_item_to_array array item h = Some (True, ?h2)"
      using h(2,6) it item c last live
      by (simp add: add_item_to_array_def suffix_object_def set_next_def set_prev_def modify_upd)
    ultimately show ?thesis by blast
  qed
qed

text \<open>The two ends of a gap: the last node before it and the first node behind it.\<close>

definition link_left :: "ptr list \<Rightarrow> ptr \<Rightarrow> 'n store \<Rightarrow> 'n store" where
  "link_left xs q h = (if xs = [] then h else upd (last xs) (\<lambda>nd. nd\<lparr>n_next := q\<rparr>) h)"

definition link_right :: "ptr \<Rightarrow> ptr list \<Rightarrow> 'n store \<Rightarrow> 'n store" where
  "link_right r ys h = (if ys = [] then h else upd (hd ys) (\<lambda>nd. nd\<lparr>n_prev := r\<rparr>) h)"

lemma link_left_seg:
  assumes "seg h prev p xs m" "distinct xs"
  shows "seg (link_left xs q h) prev (if xs = [] then q else p) xs q"
  using assms seg_next [of h prev p "butlast xs" "last xs" m q]
  by (cases xs rule: rev_cases) (auto simp: link_left_def)

lemma link_right_seg:
  assumes "seg h prev p ys q" "distinct ys"
  shows "seg (link_right r ys h) r p ys q"
  using assms seg_prev [of h prev p "hd ys" "tl ys" q r] by (cases ys) (auto simp: link_right_def)

lemma link_frame:
  "set xs \<inter> set zs = {} \<Longrightarrow> seg (link_left xs q h) prev p zs m = seg h prev p zs m"
  "set ys \<inter> set zs = {} \<Longrightarrow> seg (link_right r ys h) prev p zs m = seg h prev p zs m"
  by (auto simp: link_left_def link_right_def seg_upd_other disjoint_iff)

lemma link_nodes:
  "a \<notin> set xs \<Longrightarrow> nodes (link_left xs q h) a = nodes h a" "a \<notin> set ys \<Longrightarrow> nodes (link_right r ys h) a = nodes h a"
  "store_ok (link_left xs q h) = store_ok h" "store_ok (link_right r ys h) = store_ok h"
  by (auto simp: link_left_def link_right_def)

lemma link_relinked:
  "relinked array A h h' \<Longrightarrow> set xs \<subseteq> A \<Longrightarrow> array \<notin> set xs \<Longrightarrow> relinked array A h (link_left xs q h')"
  "relinked array A h h' \<Longrightarrow> set ys \<subseteq> A \<Longrightarrow> array \<notin> set ys \<Longrightarrow> relinked array A h (link_right r ys h')"
proof -
  assume a: "relinked array A h h'" "set xs \<subseteq> A" "array \<notin> set xs"
  show "relinked array A h (link_left xs q h')"
  proof (cases "xs = []")
    case False
    then have "last xs \<in> A" "last xs \<noteq> array" using a(2,3) last_in_set [OF False] by auto
    then show ?thesis using a(1) by (simp add: link_left_def relinked_upd unlink_def)
  qed (use a in \<open>simp add: link_left_def\<close>)
next
  assume a: "relinked array A h h'" "set ys \<subseteq> A" "array \<notin> set ys"
  show "relinked array A h (link_right r ys h')"
  proof (cases "ys = []")
    case False
    then have "hd ys \<in> A" "hd ys \<noteq> array" using a(2,3) hd_in_set [OF False] by auto
    then show ?thesis using a(1) by (simp add: link_right_def relinked_upd unlink_def)
  qed (use a in \<open>simp add: link_right_def\<close>)
qed

text \<open>The statements of the code that relink a neighbour, when there is one.\<close>

lemma set_next_link:
  assumes "last (NULL # xs) = r" "NULL \<notin> set xs" "\<forall>a \<in> set xs. nodes h a \<noteq> None"
  shows "(if r \<noteq> NULL then set_next r q h else Some h) = Some (link_left xs q h)"
  using assms by (cases xs rule: rev_cases) (auto simp: set_next_def modify_upd link_left_def)

lemma set_prev_link:
  assumes "q = (case ys of [] \<Rightarrow> NULL | c # _ \<Rightarrow> c)" "NULL \<notin> set ys" "\<forall>a \<in> set ys. nodes h a \<noteq> None"
  shows "(if q \<noteq> NULL then set_prev q r h else Some h) = Some (link_right r ys h)"
  using assms by (cases ys) (auto simp: set_prev_def modify_upd link_right_def)

lemma link_live:
  "nodes (link_left xs q h) a = None \<longleftrightarrow> nodes h a = None" "nodes (link_right r ys h) a = None \<longleftrightarrow> nodes h a = None"
  by (auto simp: link_left_def link_right_def)

lemma detach_children:
  assumes "children h array (xs @ item # ys)"
  shows "\<exists>h'. cJSON_DetachItemViaPointer array item h = Some (item, h') \<and> children h' array (xs @ ys) \<and> detached h' item \<and>
    relinked array (set (xs @ item # ys)) h h'"
proof -
  obtain pd where h: "store_ok h" "array \<noteq> NULL" "array \<notin> set (xs @ item # ys)" "distinct (xs @ item # ys)"
    "NULL \<notin> set (xs @ item # ys)" "nodes h array = Some pd" "seg h NULL (n_child pd) (xs @ item # ys) NULL"
    using childrenD [OF assms] by blast
  let ?r = "last (NULL # xs)"
  obtain nd where nd: "seg h NULL (n_child pd) xs item" "nodes h item = Some nd" "n_prev nd = ?r" "seg h item (n_next nd) ys NULL"
    using h(7) by (auto simp: seg_append)
  let ?q = "n_next nd"
  have live: "\<forall>a \<in> set xs. nodes h a \<noteq> None" "\<forall>a \<in> set ys. nodes h a \<noteq> None"
    using seg_live [OF nd(1)] seg_live [OF nd(4)] by auto
  have q: "?q = (case ys of [] \<Rightarrow> NULL | c # _ \<Rightarrow> c)" using seg_start [OF nd(4)] .
  have first: "item = n_child pd \<longleftrightarrow> xs = []" using seg_start [OF nd(1)] h(4) by (cases xs) auto
  let ?h1 = "link_left xs ?q h" let ?h2 = "link_right ?r ys ?h1"
  let ?h3 = "if xs = [] then upd array (\<lambda>nd. nd\<lparr>n_child := ?q\<rparr>) ?h2 else ?h2"
  let ?h4 = "upd item (\<lambda>nd. nd\<lparr>n_prev := NULL, n_next := NULL\<rparr>) ?h3"
  have item: "item \<noteq> NULL" "item \<notin> set xs" "item \<notin> set ys" "item \<noteq> array" using h(3-5) by auto
  have 1: "(if n_prev nd \<noteq> NULL then set_next (n_prev nd) ?q h else Some h) = Some ?h1"
    unfolding nd(3) by (rule set_next_link) (use h(5) live in auto)
  have 2: "(if ?q \<noteq> NULL then set_prev ?q (n_prev nd) ?h1 else Some ?h1) = Some ?h2"
    unfolding nd(3) by (rule set_prev_link [OF q]) (use h(5) live in \<open>auto simp: link_live\<close>)
  have same: "nodes ?h1 item = Some nd" "nodes ?h2 item = Some nd" "nodes ?h2 array = Some pd"
    using item h(3,6) nd(2) by (simp_all add: link_nodes)
  have 3: "(if item = n_child pd then set_first array ?q ?h2 else Some ?h2) = Some ?h3"
    using same(3) by (simp only: first set_first_def modify_upd) simp
  have live3: "nodes ?h3 item = Some nd" using same(2) item(4) by (cases "xs = []") simp_all
  have 4: "modify item (\<lambda>nd. nd\<lparr>n_prev := NULL, n_next := NULL\<rparr>) ?h3 = Some ?h4"
    using live3 by (simp only: modify_upd) simp
  have run: "cJSON_DetachItemViaPointer array item h = Some (item, ?h4)"
    unfolding cJSON_DetachItemViaPointer_def
    by (simp only: h(2) item(1) nd(2) same 1 2 3 4 bind.simps simp_thms if_False)
  have "seg ?h1 NULL (if xs = [] then ?q else n_child pd) xs ?q" using link_left_seg [OF nd(1)] h(4) by simp
  then have "seg ?h2 NULL (if xs = [] then ?q else n_child pd) xs ?q" using h(4) by (subst link_frame) auto
  moreover have "seg ?h1 item ?q ys NULL" using nd(4) h(4) by (subst link_frame) auto
  then have "seg ?h2 ?r ?q ys NULL" using h(4) by (intro link_right_seg) auto
  ultimately have "seg ?h2 NULL (if xs = [] then ?q else n_child pd) (xs @ ys) NULL"
    unfolding seg_append by blast
  then have "seg ?h4 NULL (if xs = [] then ?q else n_child pd) (xs @ ys) NULL"
    using item h(3) by (subst seg_upd_other; auto simp: seg_upd_other)
  moreover have "nodes ?h4 array = Some (if xs = [] then pd\<lparr>n_child := ?q\<rparr> else pd)"
    using same(3) item(4) by (cases "xs = []") simp_all
  ultimately have "children ?h4 array (xs @ ys)" using h(1-4) by (auto simp: children_def link_nodes)
  moreover have "detached ?h4 item" using live3 by (simp only: detached_def upd_simps) simp
  moreover have "relinked array (set (xs @ item # ys)) h ?h2"
    by (intro link_relinked relinked_refl) (use h(3) in auto)
  then have "relinked array (set (xs @ item # ys)) h ?h3" by (cases "xs = []") (simp_all add: relinked_child)
  then have "relinked array (set (xs @ item # ys)) h ?h4" by (rule relinked_upd) (use item in \<open>auto simp: unlink_def\<close>)
  ultimately show ?thesis using run by blast
qed

lemma insert_children:
  assumes "children h array (xs @ c # ys)" "nodes h item \<noteq> None" "item \<notin> set (array # xs @ c # ys)"
  shows "\<exists>h'. cJSON_InsertItemInArray array (int (length xs)) item h = Some h' \<and>
    children h' array (xs @ item # c # ys) \<and> relinked array (set (item # xs @ c # ys)) h h'"
proof -
  obtain pd where h: "store_ok h" "array \<noteq> NULL" "array \<notin> set (xs @ c # ys)" "distinct (xs @ c # ys)"
    "NULL \<notin> set (xs @ c # ys)" "nodes h array = Some pd" "seg h NULL (n_child pd) (xs @ c # ys) NULL"
    using childrenD [OF assms(1)] by blast
  let ?r = "last (NULL # xs)"
  obtain cd where cd: "seg h NULL (n_child pd) xs c" "nodes h c = Some cd" "n_prev cd = ?r" "seg h c (n_next cd) ys NULL"
    using h(7) by (auto simp: seg_append)
  obtain it where it: "nodes h item = Some it" using assms(2) by blast
  have first: "c = n_child pd \<longleftrightarrow> xs = []" using seg_start [OF cd(1)] h(4) by (cases xs) auto
  have item: "item \<noteq> NULL" "item \<notin> set xs" "item \<noteq> c" "item \<notin> set ys" "item \<noteq> array" "c \<noteq> NULL" "c \<noteq> array" "c \<notin> set xs" "c \<notin> set ys"
    using assms(3) live_nonnull [OF h(1) assms(2)] h(3-5) by auto
  have get: "get_array_item h array (length xs) = Some c" using get_array_item_children [OF assms(1)] by (simp add: nth_append)
  let ?h1 = "upd item (\<lambda>nd. nd\<lparr>n_next := c\<rparr>) h"
  let ?h2 = "upd item (\<lambda>nd. nd\<lparr>n_prev := ?r\<rparr>) ?h1"
  let ?h3 = "upd c (\<lambda>nd. nd\<lparr>n_prev := item\<rparr>) ?h2"
  let ?h4 = "if xs = [] then upd array (\<lambda>nd. nd\<lparr>n_child := item\<rparr>) ?h3 else link_left xs item ?h3"
  have m: "set_next item c h = Some ?h1" "set_prev item ?r ?h1 = Some ?h2" "set_prev c item ?h2 = Some ?h3"
    using it cd(2) item by (simp_all add: set_next_def set_prev_def modify_upd)
  have n: "nodes ?h1 c = Some cd" "nodes ?h3 array = Some pd" "\<exists>nd. nodes ?h3 item = Some nd \<and> n_prev nd = ?r"
    using it cd(2) item h(6) by simp_all
  have 4: "(if c = n_child pd then set_first array item ?h3
      else do { nd \<leftarrow> nodes ?h3 item; set_next (n_prev nd) item ?h3 }) = Some ?h4"
  proof (cases "xs = []")
    case True
    then show ?thesis using n(2) by (simp only: first True if_True set_first_def modify_upd) simp
  next
    case False
    have "\<forall>a \<in> set xs. nodes ?h3 a \<noteq> None" using seg_live [OF cd(1)] item by auto
    then have "(if ?r \<noteq> NULL then set_next ?r item ?h3 else Some ?h3) = Some (link_left xs item ?h3)"
      using h(5) by (intro set_next_link) auto
    moreover have "NULL \<notin> set xs" using h(5) by simp
    then have "?r \<noteq> NULL" using last_in_set [OF False] False by (metis last_ConsR)
    moreover obtain nd where "nodes ?h3 item = Some nd" "n_prev nd = ?r" using n(3) by blast
    ultimately show ?thesis using False by (simp only: first if_False bind.bind_lunit simp_thms if_True)
  qed
  have run: "cJSON_InsertItemInArray array (int (length xs)) item h = Some ?h4"
    unfolding cJSON_InsertItemInArray_def
    by (simp only: get n(1,2) m cd(3) item(6) 4 bind.bind_lunit nat_int of_nat_less_0_iff if_False)
  have "seg ?h3 NULL (n_child pd) xs c" using cd(1) item by (simp add: seg_upd_other)
  then have "seg (link_left xs item ?h3) NULL (if xs = [] then item else n_child pd) xs item"
    using h(4) by (intro link_left_seg) auto
  then have "seg ?h4 NULL (if xs = [] then item else n_child pd) xs item" by (cases "xs = []") simp_all
  moreover have "seg ?h3 ?r item (item # c # ys) NULL"
    using cd item it by (auto simp: seg_upd_other)
  then have "seg ?h4 ?r item (item # c # ys) NULL"
    using item h(3,4) by (cases "xs = []") (auto simp: seg_upd_other link_frame link_nodes)
  ultimately have "seg ?h4 NULL (if xs = [] then item else n_child pd) (xs @ item # c # ys) NULL"
    unfolding seg_append by blast
  moreover have "nodes ?h4 array = Some (if xs = [] then pd\<lparr>n_child := item\<rparr> else pd)"
    using n(2) h(3) by (cases "xs = []") (simp_all add: link_nodes)
  moreover have "store_ok ?h4" using h(1) by (cases "xs = []") (simp_all add: link_nodes)
  ultimately have "children ?h4 array (xs @ item # c # ys)" using h(3,4) item by (auto simp: children_def)
  moreover have "relinked array (set (item # xs @ c # ys)) h ?h3"
    by (intro relinked_upd relinked_refl) (use item in \<open>auto simp: unlink_def\<close>)
  then have "relinked array (set (item # xs @ c # ys)) h ?h4"
    using h(3) by (cases "xs = []") (auto simp: relinked_child intro!: link_relinked)
  ultimately show ?thesis using run by blast
qed

section \<open>Searching\<close>

text \<open>The first child with an equal name.\<close>

definition child_named :: "'n store \<Rightarrow> bool \<Rightarrow> bytes \<Rightarrow> ptr \<Rightarrow> bool" where
  "child_named h case_sensitive name c \<longleftrightarrow>
     (\<exists>nd t. nodes h c = Some nd \<and> texts h (n_string nd) = Some t \<and>
        (if case_sensitive then name = t else map to_lower name = map to_lower t))"

definition names_ok :: "'n store \<Rightarrow> ptr list \<Rightarrow> bool" where
  "names_ok h ps \<longleftrightarrow> (\<forall>c \<in> set ps. \<exists>nd t. nodes h c = Some nd \<and> texts h (n_string nd) = Some t \<and> 0 \<notin> set t)"

lemma text_nonnull: "store_ok h \<Longrightarrow> texts h s = Some t \<Longrightarrow> s \<noteq> NULL"
  unfolding store_ok_def by (metis option.distinct(1))

lemma names_equal_texts:
  assumes "store_ok h" "texts h s = Some a" "texts h t = Some b" "0 \<notin> set a" "0 \<notin> set b"
  shows "names_equal h cs s t = Some (if cs then a = b else map to_lower a = map to_lower b)"
proof -
  have "s \<noteq> NULL" "t \<noteq> NULL" using assms(1-3) text_nonnull by blast+
  then show ?thesis using assms(2,3) case_insensitive_same [OF assms(4,5)]
    by (auto simp: names_equal_def strings_equal_def case_insensitive_strcmp_def)
qed

lemma find_sibling_seg:
  assumes "store_ok h" "texts h s = Some name" "0 \<notin> set name"
  shows "seg h prev p as NULL \<Longrightarrow> NULL \<notin> set as \<Longrightarrow> names_ok h as \<Longrightarrow>
    find_sibling h cs s p = Some (case find (child_named h cs name) as of None \<Rightarrow> NULL | Some c \<Rightarrow> c)"
proof (induction as arbitrary: prev p)
  case Nil
  then show ?case by (subst find_sibling.simps) simp
next
  case (Cons a as)
  then obtain nd where nd: "p = a" "nodes h a = Some nd" "seg h a (n_next nd) as NULL" by auto
  obtain t where t: "texts h (n_string nd) = Some t" "0 \<notin> set t" using Cons.prems(3) nd(2) by (auto simp: names_ok_def)
  have "names_equal h cs s (n_string nd) = Some (child_named h cs name a)"
    using names_equal_texts [OF assms(1,2) t(1) assms(3) t(2)] nd(2) t(1) by (auto simp: child_named_def)
  moreover have "find_sibling h cs s (n_next nd) =
      Some (case find (child_named h cs name) as of None \<Rightarrow> NULL | Some c \<Rightarrow> c)"
    using Cons.IH [OF nd(3)] Cons.prems(2,3) by (simp add: names_ok_def)
  ultimately show ?case using nd Cons.prems(2) by (subst find_sibling.simps) simp
qed

lemma get_object_item_children:
  assumes "children h object ps" "texts h s = Some name" "0 \<notin> set name" "names_ok h ps"
  shows "get_object_item h object s cs = Some (case find (child_named h cs name) ps of None \<Rightarrow> NULL | Some c \<Rightarrow> c)"
proof -
  obtain nd where h: "store_ok h" "object \<noteq> NULL" "NULL \<notin> set ps" "nodes h object = Some nd" "seg h NULL (n_child nd) ps NULL"
    using childrenD [OF assms(1)] by blast
  have "s \<noteq> NULL" using text_nonnull [OF h(1) assms(2)] .
  then show ?thesis using h find_sibling_seg [OF h(1) assms(2,3) h(5,3) assms(4)] by (simp add: get_object_item_def)
qed

end
