(* ===== verification/Json_Memory.thy ===== *)
theory Json_Memory
  imports Json_Lists
begin

text \<open>
  Ownership: which nodes and strings belong to an item, and that deleting it frees these, each
  once, and nothing else.
\<close>

section \<open>What an item owns\<close>

text \<open>The addresses of the nodes of a chain of items and of their children.\<close>

datatype shape = Shape ptr "shape list"

fun owned :: "'n store \<Rightarrow> ptr \<Rightarrow> shape list \<Rightarrow> bool" where
  "owned h p [] \<longleftrightarrow> p = NULL"
| "owned h p (Shape a kids # ss) \<longleftrightarrow> p = a \<and> a \<noteq> NULL \<and>
     (\<exists>nd. nodes h a = Some nd \<and> owned h (if flagged nd cJSON_IsReference then NULL else n_child nd) kids \<and>
        owned h (n_next nd) ss)"

fun node_addrs :: "shape list \<Rightarrow> ptr list" where
  "node_addrs [] = []"
| "node_addrs (Shape a kids # ss) = a # node_addrs kids @ node_addrs ss"

definition own_texts :: "'n node \<Rightarrow> ptr list" where
  "own_texts nd = filter (\<lambda>t. t \<noteq> NULL)
     ((if flagged nd cJSON_IsReference then [] else [n_valuestring nd]) @
      (if flagged nd cJSON_StringIsConst then [] else [n_string nd]))"

fun text_addrs :: "'n store \<Rightarrow> shape list \<Rightarrow> ptr list" where
  "text_addrs h [] = []"
| "text_addrs h (Shape a kids # ss) =
     (case nodes h a of None \<Rightarrow> [] | Some nd \<Rightarrow> own_texts nd) @ text_addrs h kids @ text_addrs h ss"

text \<open>No node and no string is owned twice, and the strings are there.\<close>

definition exclusive :: "'n store \<Rightarrow> shape list \<Rightarrow> bool" where
  "exclusive h ss \<longleftrightarrow> distinct (node_addrs ss) \<and> distinct (text_addrs h ss) \<and>
     (\<forall>t \<in> set (text_addrs h ss). texts h t \<noteq> None)"

definition wiped :: "ptr set \<Rightarrow> ptr set \<Rightarrow> 'n store \<Rightarrow> 'n store" where
  "wiped A T h = h\<lparr>nodes := (\<lambda>a. if a \<in> A then None else nodes h a),
     texts := (\<lambda>t. if t \<in> T then None else texts h t)\<rparr>"

section \<open>Laws\<close>

lemma wiped_simps [simp]:
  "nodes (wiped A T h) a = (if a \<in> A then None else nodes h a)"
  "texts (wiped A T h) t = (if t \<in> T then None else texts h t)"
  "brk (wiped A T h) = brk h" "wiped {} {} h = h" "wiped A T (wiped B U h) = wiped (A \<union> B) (T \<union> U) h"
  by (auto simp: wiped_def fun_eq_iff intro!: store.equality)

lemma owned_frame:
  "(\<And>a. a \<in> set (node_addrs ss) \<Longrightarrow> nodes h' a = nodes h a) \<Longrightarrow> owned h' p ss = owned h p ss"
  by (induction ss arbitrary: p rule: node_addrs.induct) (auto split: if_splits)

lemma text_addrs_frame:
  "(\<And>a. a \<in> set (node_addrs ss) \<Longrightarrow> nodes h' a = nodes h a) \<Longrightarrow> text_addrs h' ss = text_addrs h ss"
  by (induction ss rule: node_addrs.induct) auto

lemma free_text_wiped: "texts h t \<noteq> None \<Longrightarrow> free_text t h = Some (wiped {} {t} h)"
  by (auto simp: free_text_def wiped_def fun_eq_iff intro!: store.equality)

lemma free_node_wiped: "nodes h a \<noteq> None \<Longrightarrow> free_node a h = Some (wiped {a} {} h)"
  by (auto simp: free_node_def wiped_def fun_eq_iff intro!: store.equality)

lemma delete_strings:
  assumes "nodes h a = Some nd" "distinct (own_texts nd)" "\<forall>t \<in> set (own_texts nd). texts h t \<noteq> None"
  shows "(do { h2 \<leftarrow> delete_valuestring a h; h3 \<leftarrow> delete_string a h2; free_node a h3 }) =
    Some (wiped {a} (set (own_texts nd)) h)"
proof -
  let ?V = "if \<not> flagged nd cJSON_IsReference \<and> n_valuestring nd \<noteq> NULL then {n_valuestring nd} else {}"
  let ?S = "if \<not> flagged nd cJSON_StringIsConst \<and> n_string nd \<noteq> NULL then {n_string nd} else {}"
  have own: "set (own_texts nd) = ?V \<union> ?S" by (auto simp: own_texts_def)
  have 1: "delete_valuestring a h = Some (wiped {} ?V h)"
    using assms own by (auto simp: delete_valuestring_def free_text_wiped)
  have "n_string nd \<notin> ?V \<or> ?S = {}" using assms(2) by (auto simp: own_texts_def split: if_splits)
  then have 2: "delete_string a (wiped {} ?V h) = Some (wiped {} (?S \<union> ?V) h)"
    using assms(1,3) own by (auto simp: delete_string_def free_text_wiped insert_commute)
  have 3: "free_node a (wiped {} (?S \<union> ?V) h) = Some (wiped {a} (?S \<union> ?V) h)"
    using assms(1) by (simp add: free_node_wiped)
  show ?thesis using 1 2 3 by (simp add: own Un_commute)
qed

lemma delete_owned:
  assumes "owned h p ss" "exclusive h ss"
  shows "cJSON_Delete p h = Some (wiped (set (node_addrs ss)) (set (text_addrs h ss)) h)"
  using assms
proof (induction ss arbitrary: h p rule: node_addrs.induct)
  case 1
  then show ?case by (subst cJSON_Delete.simps) simp
next
  case (2 a kids ss)
  obtain nd where nd: "p = a" "a \<noteq> NULL" "nodes h a = Some nd"
      "owned h (if flagged nd cJSON_IsReference then NULL else n_child nd) kids" "owned h (n_next nd) ss"
    using "2.prems"(1) by auto
  let ?K = "set (node_addrs kids)" and ?KT = "set (text_addrs h kids)"
  have ex: "distinct (a # node_addrs kids @ node_addrs ss)" "distinct (own_texts nd @ text_addrs h kids @ text_addrs h ss)"
    "\<forall>t \<in> set (own_texts nd @ text_addrs h kids @ text_addrs h ss). texts h t \<noteq> None"
    using "2.prems"(2) nd(3) by (auto simp: exclusive_def)
  let ?h1 = "wiped ?K ?KT h"
  have kids: "(if \<not> flagged nd cJSON_IsReference \<and> n_child nd \<noteq> NULL then cJSON_Delete (n_child nd) h else Some h) = Some ?h1"
  proof (cases "\<not> flagged nd cJSON_IsReference \<and> n_child nd \<noteq> NULL")
    case True
    then show ?thesis using "2.IH"(1) [of h "n_child nd"] nd(4) ex by (simp add: exclusive_def)
  next
    case False
    then have "owned h NULL kids" using nd(4) by (auto split: if_splits)
    then have "kids = []" by (cases kids rule: node_addrs.cases) auto
    then show ?thesis using False by (simp only: if_False) simp
  qed
  let ?h4 = "wiped {a} (set (own_texts nd)) ?h1"
  have strings: "(do { h2 \<leftarrow> delete_valuestring a ?h1; h3 \<leftarrow> delete_string a h2; free_node a h3 }) = Some ?h4"
    by (rule delete_strings) (use nd(3) ex in auto)
  have same: "nodes ?h4 b = nodes h b" if "b \<in> set (node_addrs ss)" for b using that ex(1) by auto
  have rest: "cJSON_Delete (n_next nd) ?h4 = Some (wiped (set (node_addrs ss)) (set (text_addrs ?h4 ss)) ?h4)"
  proof (rule "2.IH"(2))
    show "owned ?h4 (n_next nd) ss" using nd(5) owned_frame [OF same] by blast
    have "text_addrs ?h4 ss = text_addrs h ss" by (rule text_addrs_frame [OF same])
    then show "exclusive ?h4 ss" using ex by (auto simp: exclusive_def)
  qed
  have "text_addrs ?h4 ss = text_addrs h ss" by (rule text_addrs_frame [OF same])
  then have "cJSON_Delete (n_next nd) ?h4 = Some (wiped (set (node_addrs (Shape a kids # ss))) (set (text_addrs h (Shape a kids # ss))) h)"
    using rest nd(3) by (simp add: Un_ac insert_def [symmetric] Un_insert_right)
  then show ?case using nd(1-3) kids strings
    by (subst cJSON_Delete.simps) (auto split: bind_splits)
qed

section \<open>Deleting the child of a list\<close>

text \<open>An item, with its own nodes and strings, that shares none of them with the nodes of \<open>A\<close>.\<close>

definition own_item :: "'n store \<Rightarrow> ptr \<Rightarrow> shape list \<Rightarrow> ptr set \<Rightarrow> bool" where
  "own_item h item kids A \<longleftrightarrow>
     (\<exists>nd. nodes h item = Some nd \<and> owned h (if flagged nd cJSON_IsReference then NULL else n_child nd) kids) \<and>
     exclusive h [Shape item kids] \<and> set (node_addrs kids) \<inter> A = {}"

definition item_texts :: "'n store \<Rightarrow> ptr \<Rightarrow> shape list \<Rightarrow> ptr set" where
  "item_texts h item kids = set (text_addrs h [Shape item kids])"

definition item_nodes :: "ptr \<Rightarrow> shape list \<Rightarrow> ptr set" where
  "item_nodes item kids = insert item (set (node_addrs kids))"

lemma unlink_same:
  assumes "unlink False nd' = unlink False nd"
  shows "n_type nd' = n_type nd" "n_child nd' = n_child nd" "own_texts nd' = own_texts nd" "flagged nd' f = flagged nd f"
proof -
  have e: "nd'\<lparr>n_next := NULL, n_prev := NULL\<rparr> = nd\<lparr>n_next := NULL, n_prev := NULL\<rparr>"
    using assms by (simp add: unlink_def)
  have "n_valuestring nd' = n_valuestring nd" "n_string nd' = n_string nd"
    using arg_cong [OF e, of n_valuestring] arg_cong [OF e, of n_string] by simp_all
  moreover show "n_type nd' = n_type nd" "n_child nd' = n_child nd"
    using arg_cong [OF e, of n_type] arg_cong [OF e, of n_child] by simp_all
  ultimately show "own_texts nd' = own_texts nd" "flagged nd' f = flagged nd f"
    by (simp_all add: own_texts_def flagged_def)
qed

lemma delete_detached:
  assumes "own_item h item kids (insert array A)" "relinked array A h h'" "detached h' item" "item \<noteq> array" "item \<noteq> NULL"
  shows "cJSON_Delete item h' = Some (wiped (item_nodes item kids) (item_texts h item kids) h')"
proof -
  obtain nd where nd: "nodes h item = Some nd" "owned h (if flagged nd cJSON_IsReference then NULL else n_child nd) kids"
    "exclusive h [Shape item kids]" and apart: "set (node_addrs kids) \<inter> insert array A = {}"
    using assms(1) by (auto simp: own_item_def)
  obtain nd' where nd': "nodes h' item = Some nd'" "n_next nd' = NULL" using assms(3) by (auto simp: detached_def)
  have rel: "data_of array h' item = data_of array h item" "texts h' = texts h"
    "\<And>a. a \<notin> A \<Longrightarrow> a \<noteq> array \<Longrightarrow> nodes h' a = nodes h a"
    using assms(2) by (auto simp: relinked_def)
  have "unlink False nd' = unlink False nd" using rel(1) nd(1) nd'(1) assms(4) by (simp add: data_of_def)
  note same = unlink_same [OF this]
  have frame: "nodes h' a = nodes h a" if "a \<in> set (node_addrs kids)" for a
    using rel(3) apart that by blast
  have t: "text_addrs h' [Shape item kids] = text_addrs h [Shape item kids]"
    using nd(1) nd'(1) same(3) text_addrs_frame [OF frame] by simp
  have "owned h' p kids = owned h p kids" for p by (rule owned_frame [OF frame])
  then have "owned h' item [Shape item kids]"
    using nd(2) nd' assms(5) by (simp add: same(2,4) split del: if_split cong: if_cong)
  moreover have "exclusive h' [Shape item kids]" using nd(3) t rel(2) by (simp add: exclusive_def)
  ultimately have "cJSON_Delete item h' =
      Some (wiped (set (node_addrs [Shape item kids])) (set (text_addrs h' [Shape item kids])) h')"
    by (rule delete_owned)
  moreover have "set (node_addrs [Shape item kids]) = item_nodes item kids" by (simp add: item_nodes_def)
  ultimately show ?thesis by (simp only: t item_texts_def)
qed

lemma wiped_children:
  assumes "children h array ps" "A \<inter> set (array # ps) = {}"
  shows "children (wiped A T h) array ps"
proof -
  have "store_ok (wiped A T h)" using assms(1) by (auto simp: children_def store_ok_def)
  moreover have "seg (wiped A T h) NULL p ps NULL = seg h NULL p ps NULL" for p
    by (rule seg_frame) (use assms(2) in auto)
  ultimately show ?thesis using assms by (auto simp: children_def)
qed

text \<open>\<open>cJSON_DeleteItemFromArray\<close>: the child goes, with all that it owns, and only that.\<close>

lemma delete_from_array:
  assumes "children h array (xs @ item # ys)" "own_item h item kids (set (array # xs @ item # ys))"
  shows "\<exists>h1. cJSON_DeleteItemFromArray array (int (length xs)) h =
      Some (wiped (item_nodes item kids) (item_texts h item kids) h1) \<and>
    children (wiped (item_nodes item kids) (item_texts h item kids) h1) array (xs @ ys) \<and>
    relinked array (set (xs @ item # ys)) h h1"
proof -
  have n: "array \<noteq> NULL" "item \<noteq> array" "item \<noteq> NULL" "distinct (array # xs @ item # ys)"
    using childrenD [OF assms(1)] by (metis in_set_conv_decomp, auto simp: children_def)
  obtain h1 where h1: "cJSON_DetachItemViaPointer array item h = Some (item, h1)" "children h1 array (xs @ ys)"
    "detached h1 item" "relinked array (set (xs @ item # ys)) h h1"
    using detach_children [OF assms(1)] by blast
  have "get_array_item h array (length xs) = Some item" using get_array_item_children [OF assms(1)] by (simp add: nth_append)
  moreover have "cJSON_Delete item h1 = Some (wiped (item_nodes item kids) (item_texts h item kids) h1)"
    by (rule delete_detached [OF _ h1(4,3) n(2,3)]) (use assms(2) in simp)
  moreover have "item_nodes item kids \<inter> set (array # xs @ ys) = {}"
    using assms(2) n(4) by (auto simp: item_nodes_def own_item_def)
  ultimately show ?thesis using h1 wiped_children [OF h1(2)]
    by (auto simp: cJSON_DeleteItemFromArray_def cJSON_DetachItemFromArray_def)
qed

text \<open>\<open>cJSON_ReplaceItemViaPointer\<close>: the replacement takes the place of the child, which goes.\<close>

lemma replace_children:
  assumes "children h array (xs @ item # ys)" "nodes h new \<noteq> None" "new \<notin> set (array # xs @ item # ys)"
    and "own_item h item kids (set (array # new # xs @ item # ys))"
  shows "\<exists>h1. cJSON_ReplaceItemViaPointer array item new h =
      Some (True, wiped (item_nodes item kids) (item_texts h item kids) h1) \<and>
    children (wiped (item_nodes item kids) (item_texts h item kids) h1) array (xs @ new # ys) \<and>
    relinked array (set (new # xs @ item # ys)) h h1"
proof -
  obtain pd where h: "store_ok h" "array \<noteq> NULL" "array \<notin> set (xs @ item # ys)" "distinct (xs @ item # ys)"
    "NULL \<notin> set (xs @ item # ys)" "nodes h array = Some pd" "seg h NULL (n_child pd) (xs @ item # ys) NULL"
    using childrenD [OF assms(1)] by blast
  let ?r = "last (NULL # xs)"
  obtain nd where nd: "seg h NULL (n_child pd) xs item" "nodes h item = Some nd" "n_prev nd = ?r" "seg h item (n_next nd) ys NULL"
    using h(7) by (auto simp: seg_append)
  obtain rd where rd: "nodes h new = Some rd" using assms(2) by blast
  let ?q = "n_next nd"
  have new: "new \<noteq> NULL" "new \<notin> set xs" "new \<notin> set ys" "new \<noteq> item" "new \<noteq> array"
    "item \<noteq> NULL" "item \<notin> set xs" "item \<notin> set ys" "item \<noteq> array"
    using assms(3) live_nonnull [OF h(1) assms(2)] h(3-5) by auto
  have live: "\<forall>a \<in> set xs. nodes h a \<noteq> None" "\<forall>a \<in> set ys. nodes h a \<noteq> None"
    using seg_live [OF nd(1)] seg_live [OF nd(4)] by auto
  have q: "?q = (case ys of [] \<Rightarrow> NULL | c # _ \<Rightarrow> c)" using seg_start [OF nd(4)] .
  have first: "n_child pd = item \<longleftrightarrow> xs = []" using seg_start [OF nd(1)] h(4) by (cases xs) auto
  let ?h1 = "upd new (\<lambda>nd. nd\<lparr>n_next := ?q\<rparr>) h"
  let ?h2 = "upd new (\<lambda>nd. nd\<lparr>n_prev := ?r\<rparr>) ?h1"
  let ?h3 = "link_right new ys ?h2" let ?h4 = "link_left xs new ?h3"
  let ?h5 = "if xs = [] then upd array (\<lambda>nd. nd\<lparr>n_child := new\<rparr>) ?h4 else ?h4"
  let ?h6 = "upd item (\<lambda>nd. nd\<lparr>n_next := NULL, n_prev := NULL\<rparr>) ?h5"
  have m: "set_next new ?q h = Some ?h1" "set_prev new ?r ?h1 = Some ?h2"
    using rd by (simp_all add: set_next_def set_prev_def modify_upd)
  let ?rd = "rd\<lparr>n_next := ?q, n_prev := ?r\<rparr>"
  have n: "nodes ?h1 item = Some nd" "nodes ?h2 new = Some ?rd" "nodes ?h3 new = Some ?rd" "nodes ?h4 array = Some pd"
    "nodes ?h4 item = Some nd"
    using rd nd(2) new h(3,6) by (simp_all add: link_nodes)
  have n': "n_next ?rd = ?q" "n_prev ?rd = ?r" by simp_all
  have 3: "(if ?q \<noteq> NULL then set_prev ?q new ?h2 else Some ?h2) = Some ?h3"
    by (rule set_prev_link [OF q]) (use h(5) live new in auto)
  have 4: "(if ?r \<noteq> NULL then set_next ?r new ?h3 else Some ?h3) = Some ?h4"
    by (rule set_next_link) (use h(5) live new in \<open>auto simp: link_live\<close>)
  have 5: "(if n_child pd = item then set_first array new ?h4 else Some ?h4) = Some ?h5"
    using n(4) by (simp only: first set_first_def modify_upd) simp
  have live5: "nodes ?h5 item = Some nd" using n(5) new(9) by (cases "xs = []") simp_all
  have 6: "modify item (\<lambda>nd. nd\<lparr>n_next := NULL, n_prev := NULL\<rparr>) ?h5 = Some ?h6"
    using live5 by (simp only: modify_upd) simp
  have "relinked array (set (new # xs @ item # ys)) h ?h2"
    by (intro relinked_upd relinked_refl) (use new in \<open>auto simp: unlink_def\<close>)
  then have "relinked array (set (new # xs @ item # ys)) h ?h4"
    by (intro link_relinked) (use h(3) in auto)
  then have "relinked array (set (new # xs @ item # ys)) h ?h5" by (cases "xs = []") (simp_all add: relinked_child)
  then have rel: "relinked array (set (new # xs @ item # ys)) h ?h6" by (rule relinked_upd) (use new in \<open>auto simp: unlink_def\<close>)
  have det: "detached ?h6 item" using live5 by (simp only: detached_def upd_simps) simp
  have del: "cJSON_Delete item ?h6 = Some (wiped (item_nodes item kids) (item_texts h item kids) ?h6)"
    by (rule delete_detached [OF _ rel det new(9,6)]) (use assms(4) in simp)
  have run: "cJSON_ReplaceItemViaPointer array item new h =
      Some (True, wiped (item_nodes item kids) (item_texts h item kids) ?h6)"
    unfolding cJSON_ReplaceItemViaPointer_def
    by (simp only: h(2) new(1,4,6) nd(2,3) m n n' 3 4 5 6 del bind.bind_lunit simp_thms if_False)
  have "seg ?h3 NULL (n_child pd) xs item" using nd(1) new h(4) by (subst link_frame; auto simp: seg_upd_other)
  then have "seg ?h4 NULL (if xs = [] then new else n_child pd) xs new" using h(4) by (intro link_left_seg) auto
  moreover have "seg ?h2 item ?q ys NULL" using nd(4) new by (simp add: seg_upd_other)
  then have "seg ?h3 new ?q ys NULL" using h(4) by (intro link_right_seg) auto
  then have "seg ?h4 new ?q ys NULL" using h(4) by (subst link_frame) auto
  then have "seg ?h4 ?r new (new # ys) NULL" using n(3) new(2) by (simp add: link_nodes)
  ultimately have "seg ?h4 NULL (if xs = [] then new else n_child pd) (xs @ new # ys) NULL" unfolding seg_append by blast
  then have "seg ?h5 NULL (if xs = [] then new else n_child pd) (xs @ new # ys) NULL"
    using h(3) new(5) by (cases "xs = []") (auto simp: seg_upd_other)
  then have "seg ?h6 NULL (if xs = [] then new else n_child pd) (xs @ new # ys) NULL"
    using new by (subst seg_upd_other) auto
  moreover have "nodes ?h6 array = Some (if xs = [] then pd\<lparr>n_child := new\<rparr> else pd)"
    using n(4) new(9) by (cases "xs = []") simp_all
  moreover have "store_ok ?h6" using h(1) by (cases "xs = []") (simp_all add: link_nodes)
  ultimately have "children ?h6 array (xs @ new # ys)" using h(3,4) new by (auto simp: children_def)
  moreover have "item_nodes item kids \<inter> set (array # xs @ new # ys) = {}"
    using assms(4) new by (auto simp: item_nodes_def own_item_def)
  ultimately have "children (wiped (item_nodes item kids) (item_texts h item kids) ?h6) array (xs @ new # ys)"
    by (intro wiped_children)
  then show ?thesis using run rel by blast
qed

end
