(* ===== verification/Json_Item_Properties.thy ===== *)
theory Json_Item_Properties
  imports Json_Memory
begin

text \<open>
  The properties of the operations on JSON items: lists of children, names, and memory.
\<close>

section \<open>A store\<close>

text \<open>An array at 1 with the children 2 and 3, named \<open>a\<close> and \<open>B\<close>, and an item 4 that is in no list.\<close>

definition example_node :: "ptr \<Rightarrow> ptr \<Rightarrow> ptr \<Rightarrow> ptr \<Rightarrow> nat node" where
  "example_node nxt prev c s = \<lparr>n_next = nxt, n_prev = prev, n_child = c, n_type = cJSON_Array, n_valuestring = NULL,
     n_valueint = 0, n_valuedouble = 0, n_string = s\<rparr>"

definition example_store :: "nat store" where
  "example_store =
     \<lparr>nodes = [1 \<mapsto> example_node 0 0 2 0, 2 \<mapsto> example_node 3 0 0 10, 3 \<mapsto> example_node 0 2 0 11, 4 \<mapsto> example_node 0 0 0 0],
      texts = [10 \<mapsto> [0x61], 11 \<mapsto> [0x42], 12 \<mapsto> [0x62]], brk = 20, grants = (\<lambda>k. True), requests = 0\<rparr>"

lemma example_facts:
  "children example_store 1 [2, 3]" "detached example_store 4" "texts example_store 12 = Some [0x62]"
  "names_ok example_store [2, 3]"
  by (auto simp: children_def store_ok_def example_store_def example_node_def detached_def names_ok_def)

lemma example_own: "own_item example_store 2 [] A" "owned example_store 2 [Shape 2 [], Shape 3 []]"
  "exclusive example_store [Shape 2 [], Shape 3 []]" "item_texts example_store 2 [] = {10}"
  by (auto simp: own_item_def exclusive_def example_store_def example_node_def own_texts_def flagged_def item_texts_def
      json_type_defs)

section \<open>Lists\<close>

lemma insert_at:
  assumes "children h array ps" "detached h item" "item \<notin> set (array # ps)"
  shows "\<exists>h'. cJSON_InsertItemInArray array (int i) item h = Some h' \<and>
    children h' array (take i ps @ item # drop i ps) \<and> relinked array (set (item # ps)) h h'"
proof (cases "i < length ps")
  case True
  have ps: "ps = take i ps @ ps ! i # drop (Suc i) ps" by (simp add: id_take_nth_drop True)
  have "length (take i ps) = i" using True by simp
  then show ?thesis
    using insert_children [of h array "take i ps" "ps ! i" "drop (Suc i) ps" item] assms ps True
    by (auto simp: detached_def Cons_nth_drop_Suc)
next
  case False
  then have "get_array_item h array i = Some NULL" using get_array_item_children [OF assms(1)] by simp
  then show ?thesis using add_item_children [OF assms] False by (auto simp: cJSON_InsertItemInArray_def)
qed

lemma split_at:
  assumes "i < length ps" "distinct ps"
  shows "ps = take i ps @ ps ! i # drop (Suc i) ps" "remove1 (ps ! i) ps = take i ps @ drop (Suc i) ps"
    "ps[i := x] = take i ps @ x # drop (Suc i) ps"
proof -
  show ps: "ps = take i ps @ ps ! i # drop (Suc i) ps" by (simp add: id_take_nth_drop assms(1))
  have "ps ! i \<notin> set (take i ps)"
    using assms ps by (metis distinct_append not_distinct_conv_prefix)
  then show "remove1 (ps ! i) ps = take i ps @ drop (Suc i) ps"
    by (subst (2) ps) (simp add: remove1_append)
  show "ps[i := x] = take i ps @ x # drop (Suc i) ps" by (simp add: upd_conv_take_nth_drop assms(1))
qed

text \<open>C21: inserting an item that is in no list into the children of an array puts it before the child with the given
  index, or at the end when there are not so many, in both directions of the links and at the head;
  no other field of any item and no string changes.\<close>

theorem json_item_insert:
  assumes "children h array ps" "detached h item" "item \<notin> set (array # ps)"
  shows "\<exists>h'. cJSON_InsertItemInArray array (int i) item h = Some h' \<and>
    children h' array (take i ps @ item # drop i ps) \<and> relinked array (set (item # ps)) h h'"
  using assms by (rule insert_at)

theorem json_item_insert_witness:
  "\<exists>h'. cJSON_InsertItemInArray 1 1 4 example_store = Some h' \<and> children h' 1 [2, 4, 3]"
  using json_item_insert [OF example_facts(1,2), of 1] by (auto simp: numeral_eq_Suc)

lemma detach_at:
  assumes "children h array ps" "i < length ps"
  shows "\<exists>h'. cJSON_DetachItemFromArray array (int i) h = Some (ps ! i, h') \<and> children h' array (remove1 (ps ! i) ps) \<and>
    detached h' (ps ! i) \<and> relinked array (set ps) h h'"
proof -
  have d: "distinct ps" using assms(1) by (simp add: children_def)
  note split = split_at [OF assms(2) d]
  have "get_array_item h array i = Some (ps ! i)" using get_array_item_children [OF assms(1)] assms(2) by simp
  moreover obtain h' where "cJSON_DetachItemViaPointer array (ps ! i) h = Some (ps ! i, h')"
    "children h' array (take i ps @ drop (Suc i) ps)" "detached h' (ps ! i)" "relinked array (set ps) h h'"
    using detach_children [of h array "take i ps" "ps ! i" "drop (Suc i) ps"] assms(1) split(1) by metis
  ultimately show ?thesis using split(2) by (auto simp: cJSON_DetachItemFromArray_def)
qed

text \<open>detaching the child with a valid index takes exactly this child out of the list of the array, and leaves it with no
  neighbours; no other field of any item and no string changes.\<close>

theorem json_item_detach:
  assumes "children h array ps" "i < length ps"
  shows "\<exists>h'. cJSON_DetachItemFromArray array (int i) h = Some (ps ! i, h') \<and> children h' array (remove1 (ps ! i) ps) \<and>
    detached h' (ps ! i) \<and> relinked array (set ps) h h'"
  using assms by (rule detach_at)

theorem json_item_detach_witness:
  "\<exists>h'. cJSON_DetachItemFromArray 1 0 example_store = Some (2, h') \<and> children h' 1 [3] \<and> detached h' 2"
  using json_item_detach [OF example_facts(1), of 0] by auto

section \<open>Memory\<close>

text \<open>C16: deleting a chain of items frees their nodes and those of all their descendants, the names that are not constant and
  the strings that are not references, each exactly once, touches nothing that is freed already,
  and changes nothing else: it terminates without a double free.\<close>

theorem json_delete_exact:
  assumes "owned h p ss" "exclusive h ss"
  shows "cJSON_Delete p h = Some (wiped (set (node_addrs ss)) (set (text_addrs h ss)) h)"
  using assms by (rule delete_owned)

theorem json_delete_exact_witness:
  "\<exists>h'. cJSON_Delete 2 example_store = Some h' \<and> nodes h' 3 = None \<and> texts h' 11 = None \<and> nodes h' 4 \<noteq> None"
  using json_delete_exact [OF example_own(2,3)]
  by (auto simp: example_store_def example_node_def own_texts_def flagged_def json_type_defs)

lemma replace_at:
  assumes "children h array ps" "i < length ps" "nodes h new \<noteq> None" "new \<notin> set (array # ps)"
    and "own_item h (ps ! i) kids (set (array # new # ps))"
  shows "\<exists>h1 h2. cJSON_ReplaceItemInArray array (int i) new h = Some h2 \<and>
    h2 = wiped (item_nodes (ps ! i) kids) (item_texts h (ps ! i) kids) h1 \<and>
    children h2 array (ps[i := new]) \<and> relinked array (set (new # ps)) h h1"
proof -
  have d: "distinct ps" using assms(1) by (simp add: children_def)
  note split = split_at [OF assms(2) d]
  have "get_array_item h array i = Some (ps ! i)" using get_array_item_children [OF assms(1)] assms(2) by simp
  moreover have "set (new # take i ps @ ps ! i # drop (Suc i) ps) = set (new # ps)"
    "set (array # new # take i ps @ ps ! i # drop (Suc i) ps) = set (array # new # ps)"
    "set (array # take i ps @ ps ! i # drop (Suc i) ps) = set (array # ps)"
    using arg_cong [OF split(1), of set] by simp_all
  ultimately show ?thesis
    using replace_children [of h array "take i ps" "ps ! i" "drop (Suc i) ps" new kids] assms split(1) split(3) [of new]
    by (auto simp: cJSON_ReplaceItemInArray_def)
qed

text \<open>C23: replacing the child with a valid index puts the new item in its place in the list and frees the old one with all that
  it owns and nothing else, when the new item shares no memory with it.\<close>

theorem json_item_replace:
  assumes "children h array ps" "i < length ps" "nodes h new \<noteq> None" "new \<notin> set (array # ps)"
    and "own_item h (ps ! i) kids (set (array # new # ps))"
  shows "\<exists>h1 h2. cJSON_ReplaceItemInArray array (int i) new h = Some h2 \<and>
    h2 = wiped (item_nodes (ps ! i) kids) (item_texts h (ps ! i) kids) h1 \<and>
    children h2 array (ps[i := new]) \<and> relinked array (set (new # ps)) h h1"
  using assms by (rule replace_at)

theorem json_item_replace_witness:
  "\<exists>h2. cJSON_ReplaceItemInArray 1 0 4 example_store = Some h2 \<and> children h2 1 [4, 3] \<and> texts h2 10 = None"
proof -
  have "nodes example_store 4 \<noteq> None" by (simp add: example_store_def)
  then show ?thesis
    using json_item_replace [OF example_facts(1), of 0 4 "[]"] example_own(1) by (auto simp: example_own(4))
qed

section \<open>Names\<close>

text \<open>C35: looking up a name gives the first child whose name is equal, byte by byte or up to the case of ASCII letters, and a null
  pointer when there is none, when every child has a name.\<close>

theorem json_lookup_first:
  assumes "children h object ps" "texts h s = Some name" "0 \<notin> set name" "names_ok h ps"
  shows "get_object_item h object s cs = Some (case find (child_named h cs name) ps of None \<Rightarrow> NULL | Some c \<Rightarrow> c)"
  using assms by (rule get_object_item_children)

theorem json_lookup_first_witness:
  "get_object_item example_store 1 12 False = Some 3 \<and> get_object_item example_store 1 12 True = Some 0"
proof -
  have nz: "(0 :: byte) \<notin> set [0x62]" by simp
  have f: "\<not> child_named example_store cs [0x62] 2" "child_named example_store cs [0x62] 3 = (\<not> cs)" for cs
    by (simp add: child_named_def example_store_def example_node_def to_lower_def)+
  show ?thesis
    using json_lookup_first [OF example_facts(1,3) nz example_facts(4), of False]
      json_lookup_first [OF example_facts(1,3) nz example_facts(4), of True]
    by (simp add: f)
qed

end
