(* ===== verification/Json_Pointer.thy ===== *)
theory Json_Pointer
  imports Json_Items
begin

text \<open>
  JSON pointers in \<open>src/lib/cJSON_Utils.c\<close>: the strings, the search for the pointer to an item, and
  the walk along a pointer. A pointer into a string is the rest of the string from there on.
\<close>

section \<open>Strings\<close>

abbreviation SLASH :: byte where "SLASH \<equiv> 0x2F"
abbreviation TILDE :: byte where "TILDE \<equiv> 0x7E"
abbreviation DIGIT0 :: byte where "DIGIT0 \<equiv> 0x30"
abbreviation DIGIT1 :: byte where "DIGIT1 \<equiv> 0x31"
abbreviation DIGIT9 :: byte where "DIGIT9 \<equiv> 0x39"

text \<open>The byte under a pointer: the NUL behind the last one.\<close>

definition first :: "bytes \<Rightarrow> byte" where
  "first p = (case p of [] \<Rightarrow> 0 | c # _ \<Rightarrow> c)"

text \<open>\<open>strlen\<close> does not accept a null pointer, unlike \<open>cJSON_strdup\<close>.\<close>

definition cJSONUtils_strdup :: "ptr \<Rightarrow> ('n, ptr) action" where
  "cJSONUtils_strdup s h = (if texts h s = None then None else cJSON_strdup s h)"

text \<open>\<open>strcmp\<close>: only the sign of its result is used.\<close>

fun strcmp_loop :: "bytes \<Rightarrow> bytes \<Rightarrow> int" where
  "strcmp_loop [] [] = 0"
| "strcmp_loop [] (b # bs) = -1"
| "strcmp_loop (a # as) [] = 1"
| "strcmp_loop (a # as) (b # bs) = (if a = b then strcmp_loop as bs else if a < b then -1 else 1)"

definition strcmp :: "'n store \<Rightarrow> ptr \<Rightarrow> ptr \<Rightarrow> int option" where
  "strcmp h s1 s2 = do { a \<leftarrow> texts h s1; b \<leftarrow> texts h s2; Some (strcmp_loop a b) }"

definition compare_strings :: "'n store \<Rightarrow> ptr \<Rightarrow> ptr \<Rightarrow> bool \<Rightarrow> int option" where
  "compare_strings h s1 s2 case_sensitive =
     (if s1 = NULL \<or> s2 = NULL then Some 1
      else if s1 = s2 then Some 0
      else if case_sensitive then strcmp h s1 s2
      else do { a \<leftarrow> texts h s1; b \<leftarrow> texts h s2; Some (case_insensitive_loop a b) })"

text \<open>The loop of \<open>compare_pointers\<close>, and the test after it.\<close>

definition both_ended :: "bytes \<Rightarrow> bytes \<Rightarrow> bool" where
  "both_ended name pointer \<longleftrightarrow> (first pointer \<noteq> 0 \<and> first pointer \<noteq> SLASH) = (first name \<noteq> 0)"

fun compare_loop :: "bool \<Rightarrow> bytes \<Rightarrow> bytes \<Rightarrow> bool" where
  "compare_loop case_sensitive (n # name) (p # pointer) =
     (if p = SLASH then both_ended (n # name) (p # pointer)
      else if p = TILDE then
        (if (first pointer \<noteq> DIGIT0 \<or> n \<noteq> TILDE) \<and> (first pointer \<noteq> DIGIT1 \<or> n \<noteq> SLASH) then False
         else compare_loop case_sensitive name (tl pointer))
      else if (\<not> case_sensitive \<and> to_lower n \<noteq> to_lower p) \<or> (case_sensitive \<and> n \<noteq> p) then False
      else compare_loop case_sensitive name pointer)"
| "compare_loop case_sensitive name pointer = both_ended name pointer"

definition compare_pointers :: "'n store \<Rightarrow> ptr \<Rightarrow> bytes \<Rightarrow> bool \<Rightarrow> bool option" where
  "compare_pointers h name pointer case_sensitive =
     (if name = NULL then Some False
      else do { n \<leftarrow> texts h name; Some (compare_loop case_sensitive n pointer) })"

fun pointer_encoded_length :: "bytes \<Rightarrow> nat" where
  "pointer_encoded_length [] = 0"
| "pointer_encoded_length (c # s) = (if c = TILDE \<or> c = SLASH then 2 else 1) + pointer_encoded_length s"

text \<open>
  What \<open>encode_string_as_pointer\<close> does to the destination: \<open>None\<close> is a byte that it leaves as it
  is. The callers pass memory that has not been written before.
\<close>

fun encode_string_as_pointer :: "bytes \<Rightarrow> byte option list" where
  "encode_string_as_pointer [] = []"
| "encode_string_as_pointer (c # s) =
     (if c = SLASH then [None, Some DIGIT1]
      else if c = TILDE then [Some TILDE, Some DIGIT1]
      else [Some c]) @ encode_string_as_pointer s"

text \<open>Reading all of it as a string is defined when there are no such bytes.\<close>

definition encoded :: "bytes \<Rightarrow> bytes option" where
  "encoded s = those (encode_string_as_pointer s)"

text \<open>The decimal digits of \<open>%lu\<close>.\<close>

fun decimal :: "nat \<Rightarrow> bytes" where
  "decimal n = (if n < 10 then [DIGIT0 + of_nat n] else decimal (n div 10) @ [DIGIT0 + of_nat (n mod 10)])"

declare decimal.simps [simp del]

text \<open>
  \<open>cJSON_malloc (room)\<close>, and a string written to the new block: without memory, or without room
  for the string and its NUL, the write is undefined.
\<close>

definition malloc_text :: "nat \<Rightarrow> bytes \<Rightarrow> ('n, ptr) action" where
  "malloc_text room s h =
     (if grants h (requests h) \<and> length s < room
      then Some (brk h, asked (h\<lparr>texts := (texts h)(brk h \<mapsto> s), brk := brk h + 1\<rparr>)) else None)"

text \<open>A new string in an old block.\<close>

definition write_text :: "ptr \<Rightarrow> nat \<Rightarrow> bytes \<Rightarrow> 'n store \<Rightarrow> 'n store option" where
  "write_text p room s h =
     (if p \<noteq> NULL \<and> texts h p \<noteq> None \<and> length s < room then Some (h\<lparr>texts := (texts h)(p \<mapsto> s)\<rparr>) else None)"

section \<open>Finding the pointer to an item\<close>

text \<open>
  What is done with the pointer \<open>tp\<close> that the search in a child has returned: the number or the
  name of the child is put in front of it.
\<close>

definition prepend_index :: "64 word \<Rightarrow> ptr \<Rightarrow> ('n, ptr) action" where
  "prepend_index child_index tp h = do {
     t \<leftarrow> texts h tp;
     (full, h) \<leftarrow> malloc_text (length t + 20 + 2) (SLASH # decimal (unat child_index) @ t) h;
     h \<leftarrow> free_text tp h;
     Some (full, h)
   }"

definition prepend_name :: "ptr \<Rightarrow> ptr \<Rightarrow> ('n, ptr) action" where
  "prepend_name name tp h = do {
     t \<leftarrow> texts h tp;
     s \<leftarrow> texts h name;
     e \<leftarrow> encoded s;
     (full, h) \<leftarrow> malloc_text (length t + pointer_encoded_length s + 2) (SLASH # e @ t) h;
     h \<leftarrow> free_text tp h;
     Some (full, h)
   }"

definition prepend_step :: "ptr \<Rightarrow> ptr \<Rightarrow> 64 word \<Rightarrow> ptr \<Rightarrow> ('n, ptr) action" where
  "prepend_step object current_child child_index tp h = do {
     a \<leftarrow> cJSON_IsArray h object;
     if a then prepend_index child_index tp h
     else do {
       ob \<leftarrow> cJSON_IsObject h object;
       if ob then do { nd \<leftarrow> nodes h current_child; prepend_name (n_string nd) tp h }
       else do { h \<leftarrow> free_text tp h; Some (NULL, h) }
     }
   }"

text \<open>
  The loop over the children of an object, with the call for a child written out: the item itself,
  for which the empty string (the literal at \<open>empty_lit\<close>) is copied, or the loop over its children.
\<close>

partial_function (option) find_in_children :: "ptr \<Rightarrow> ptr \<Rightarrow> ptr \<Rightarrow> 64 word \<Rightarrow> ptr \<Rightarrow> ('n, ptr) action" where
  "find_in_children empty_lit object current_child child_index target h =
     (if current_child = NULL then Some (NULL, h)
      else do {
        (tp, h) \<leftarrow>
          (if current_child = target then cJSONUtils_strdup empty_lit h
           else do { nd \<leftarrow> nodes h current_child; find_in_children empty_lit current_child (n_child nd) 0 target h });
        if tp \<noteq> NULL then prepend_step object current_child child_index tp h
        else do {
          nd \<leftarrow> nodes h current_child;
          find_in_children empty_lit object (n_next nd) (child_index + 1) target h
        }
      })"

definition cJSONUtils_FindPointerFromObjectTo :: "ptr \<Rightarrow> ptr \<Rightarrow> ptr \<Rightarrow> ('n, ptr) action" where
  "cJSONUtils_FindPointerFromObjectTo empty_lit object target h =
     (if object = NULL \<or> target = NULL then Some (NULL, h)
      else if object = target then cJSONUtils_strdup empty_lit h
      else do { nd \<leftarrow> nodes h object; find_in_children empty_lit object (n_child nd) 0 target h })"

section \<open>Walking along a pointer\<close>

text \<open>\<open>get_array_item\<close> of this file.\<close>

definition utils_get_array_item :: "'n store \<Rightarrow> ptr \<Rightarrow> 64 word \<Rightarrow> ptr option" where
  "utils_get_array_item h array item =
     (if array = NULL then Some NULL else do { nd \<leftarrow> nodes h array; nth_sibling h (n_child nd) (unat item) })"

text \<open>The loop tests the first character of the token against 9, whatever its position; \<open>size_t\<close> wraps.\<close>

fun index_loop :: "byte \<Rightarrow> 64 word \<Rightarrow> bytes \<Rightarrow> 64 word \<times> bytes" where
  "index_loop c0 parsed_index [] = (parsed_index, [])"
| "index_loop c0 parsed_index (c # p) =
     (if DIGIT0 \<le> c \<and> c0 \<le> DIGIT9 then index_loop c0 (10 * parsed_index + ucast (c - DIGIT0)) p
      else (parsed_index, c # p))"

definition decode_array_index_from_pointer :: "bytes \<Rightarrow> 64 word option" where
  "decode_array_index_from_pointer pointer =
     (if first pointer = DIGIT0 \<and> first (tl pointer) \<noteq> 0 \<and> first (tl pointer) \<noteq> SLASH then None
      else let (parsed_index, rest) = index_loop (first pointer) 0 pointer
        in if first rest \<noteq> 0 \<and> first rest \<noteq> SLASH then None else Some parsed_index)"

partial_function (option) find_member :: "'n store \<Rightarrow> bool \<Rightarrow> bytes \<Rightarrow> ptr \<Rightarrow> ptr option" where
  "find_member h case_sensitive pointer c =
     (if c = NULL then Some NULL
      else do {
        nd \<leftarrow> nodes h c;
        same \<leftarrow> compare_pointers h (n_string nd) pointer case_sensitive;
        if same then Some c else find_member h case_sensitive pointer (n_next nd)
      })"

text \<open>One pass of the loop in \<open>get_item_from_pointer\<close>, for the token at \<open>pointer\<close>.\<close>

definition pointer_step :: "'n store \<Rightarrow> bool \<Rightarrow> ptr \<Rightarrow> bytes \<Rightarrow> ptr option" where
  "pointer_step h case_sensitive current_element pointer = do {
     a \<leftarrow> cJSON_IsArray h current_element;
     if a then (case decode_array_index_from_pointer pointer of
         None \<Rightarrow> Some NULL
       | Some index \<Rightarrow> utils_get_array_item h current_element index)
     else do {
       ob \<leftarrow> cJSON_IsObject h current_element;
       if ob then do { nd \<leftarrow> nodes h current_element; find_member h case_sensitive pointer (n_child nd) }
       else Some NULL
     }
   }"

abbreviation next_token :: "bytes \<Rightarrow> bytes" where
  "next_token \<equiv> dropWhile (\<lambda>c. c \<noteq> SLASH)"

function pointer_walk :: "'n store \<Rightarrow> bool \<Rightarrow> ptr \<Rightarrow> bytes \<Rightarrow> ptr option" where
  "pointer_walk h case_sensitive current_element [] = Some current_element"
| "pointer_walk h case_sensitive current_element (c # pointer) =
     (if c = SLASH \<and> current_element \<noteq> NULL
      then Option.bind (pointer_step h case_sensitive current_element pointer)
             (\<lambda>e. pointer_walk h case_sensitive e (next_token pointer))
      else Some current_element)"
  by pat_completeness auto
termination
  by (relation "measure (\<lambda>(h, cs, e, p). length p)") (auto simp: le_imp_less_Suc length_dropWhile_le)

definition get_item_from_pointer :: "'n store \<Rightarrow> ptr \<Rightarrow> ptr \<Rightarrow> bool \<Rightarrow> ptr option" where
  "get_item_from_pointer h object pointer case_sensitive =
     (if pointer = NULL then Some NULL
      else do { p \<leftarrow> texts h pointer; pointer_walk h case_sensitive object p })"

definition cJSONUtils_GetPointer :: "'n store \<Rightarrow> ptr \<Rightarrow> ptr \<Rightarrow> ptr option" where
  "cJSONUtils_GetPointer h object pointer = get_item_from_pointer h object pointer False"
definition cJSONUtils_GetPointerCaseSensitive :: "'n store \<Rightarrow> ptr \<Rightarrow> ptr \<Rightarrow> ptr option" where
  "cJSONUtils_GetPointerCaseSensitive h object pointer = get_item_from_pointer h object pointer True"

section \<open>Decoding in place\<close>

text \<open>The buffer with its NUL; \<open>d\<close> and \<open>s\<close> are the positions of \<open>decoded_string\<close> and \<open>string\<close>.\<close>

definition put :: "bytes \<Rightarrow> nat \<Rightarrow> byte \<Rightarrow> bytes option" where
  "put buf i c = (if i < length buf then Some (buf[i := c]) else None)"

function decode_loop :: "bytes \<Rightarrow> nat \<Rightarrow> nat \<Rightarrow> bytes option" where
  "decode_loop buf d s =
     (if length buf \<le> s then None
      else if buf ! s = 0 then put buf d 0
      else if buf ! s \<noteq> TILDE then decode_loop buf (d + 1) (s + 1)
      else if length buf \<le> s + 1 then None
      else if buf ! (s + 1) = DIGIT0 then
        (if d < length buf then decode_loop (buf[d := TILDE]) (d + 1) (s + 2) else None)
      else if buf ! (s + 1) = DIGIT1 then
        (if d + 1 < length buf then decode_loop (buf[d + 1 := SLASH]) (d + 1) (s + 2) else None)
      else Some buf)"
  by auto
termination
  by (relation "measure (\<lambda>(buf, d, s). length buf - s)") auto

declare decode_loop.simps [simp del]

definition decode_pointer_inplace :: "bytes \<Rightarrow> bytes option" where
  "decode_pointer_inplace s = map_option (takeWhile (\<lambda>c. c \<noteq> 0)) (decode_loop (s @ [0]) 0 0)"

end
