(* ===== verification/Json_Patch.thy ===== *)
theory Json_Patch
  imports Json_Pointer
begin

text \<open>
  JSON patches and merge patches in \<open>src/lib/cJSON_Utils.c\<close>, on the store of the item
  operations. \<open>D\<close> are the floating-point numbers, \<open>k\<close> is the fuel of each \<open>cJSON_Duplicate\<close> and
  \<open>L\<close> gives the addresses of the string literals.
\<close>

section \<open>Splitting a path\<close>

text \<open>What is before and behind the last \<open>/\<close>, which \<open>strrchr\<close> finds.\<close>

definition split_last :: "bytes \<Rightarrow> (bytes \<times> bytes) option" where
  "split_last p = (let t = rev (takeWhile (\<lambda>c. c \<noteq> SLASH) (rev p))
     in if length t = length p then None else Some (take (length p - length t - 1) p, t))"

text \<open>
  The NUL written over the \<open>/\<close> makes two strings of the block at \<open>p\<close>; the second one gets an
  address of its own here, and goes when the block is freed.
\<close>

definition split_block :: "ptr \<Rightarrow> bytes \<Rightarrow> bytes \<Rightarrow> 'n store \<Rightarrow> ptr \<times> 'n store" where
  "split_block p a b h = (brk h, h\<lparr>texts := (texts h)(p \<mapsto> a, brk h \<mapsto> b), brk := brk h + 1\<rparr>)"

definition free_block :: "ptr \<Rightarrow> ptr \<Rightarrow> 'n store \<Rightarrow> 'n store option" where
  "free_block p q h = do { h \<leftarrow> (if q = NULL then Some h else free_text q h); free_text p h }"

text \<open>
  The copy of a path that is split in place: the block, the part behind the last \<open>/\<close> with its
  escapes decoded (null when there is no \<open>/\<close>) and the item that the part before leads to. Without a \<open>/\<close>
  only \<open>apply_patch\<close> goes on.
\<close>

definition open_path :: "ptr \<Rightarrow> ptr \<Rightarrow> bool \<Rightarrow> 'n store \<Rightarrow> (ptr \<times> ptr \<times> 'n store) option" where
  "open_path object block case_sensitive h = do {
     p \<leftarrow> texts h block;
     case split_last p of
       None \<Rightarrow> do { parent \<leftarrow> get_item_from_pointer h object block case_sensitive; Some (NULL, parent, h) }
     | Some (a, b) \<Rightarrow> do {
         let (tail, h) = split_block block a b h;
         parent \<leftarrow> get_item_from_pointer h object block case_sensitive;
         b \<leftarrow> decode_pointer_inplace b;
         Some (tail, parent, h\<lparr>texts := (texts h)(tail \<mapsto> b)\<rparr>)
       }
   }"

section \<open>Detaching\<close>

definition detach_item_from_array :: "ptr \<Rightarrow> 64 word \<Rightarrow> ('n, ptr) action" where
  "detach_item_from_array array which h = do {
     pd \<leftarrow> nodes h array;
     c \<leftarrow> nth_sibling h (n_child pd) (unat which);
     if c = NULL then Some (NULL, h)
     else do {
       nd \<leftarrow> nodes h c;
       h \<leftarrow> (if n_prev nd \<noteq> NULL then set_next (n_prev nd) (n_next nd) h else Some h);
       nd \<leftarrow> nodes h c;
       h \<leftarrow> (if n_next nd \<noteq> NULL then set_prev (n_next nd) (n_prev nd) h else Some h);
       pd \<leftarrow> nodes h array;
       nd \<leftarrow> nodes h c;
       h \<leftarrow> (if c = n_child pd then set_first array (n_next nd) h else Some h);
       h \<leftarrow> modify c (\<lambda>nd. nd\<lparr>n_prev := NULL, n_next := NULL\<rparr>) h;
       Some (c, h)
     }
   }"

definition detach_child :: "ptr \<Rightarrow> ptr \<Rightarrow> ('n, ptr) action" where
  "detach_child parent child_pointer h = do {
     a \<leftarrow> cJSON_IsArray h parent;
     if a then do {
       p \<leftarrow> texts h child_pointer;
       case decode_array_index_from_pointer p of
         None \<Rightarrow> Some (NULL, h)
       | Some index \<Rightarrow> detach_item_from_array parent index h
     }
     else do {
       ob \<leftarrow> cJSON_IsObject h parent;
       if ob then cJSON_DetachItemFromObject parent child_pointer h else Some (NULL, h)
     }
   }"

definition detach_path :: "ptr \<Rightarrow> ptr \<Rightarrow> bool \<Rightarrow> ('n, ptr) action" where
  "detach_path object path case_sensitive h = do {
     (block, h) \<leftarrow> cJSONUtils_strdup path h;
     if block = NULL then Some (NULL, h)
     else do {
       p \<leftarrow> texts h block;
       if split_last p = None then do { h \<leftarrow> free_text block h; Some (NULL, h) }
       else do {
         (tail, parent, h) \<leftarrow> open_path object block case_sensitive h;
         (item, h) \<leftarrow> detach_child parent tail h;
         h \<leftarrow> free_block block tail h;
         Some (item, h)
       }
     }
   }"

section \<open>Sorting\<close>

text \<open>The test for a list that is sorted already.\<close>

partial_function (option) sorted_already :: "'n store \<Rightarrow> bool \<Rightarrow> ptr \<Rightarrow> bool option" where
  "sorted_already h case_sensitive current_item = do {
     nd \<leftarrow> nodes h current_item;
     if n_next nd = NULL then Some True
     else do {
       nx \<leftarrow> nodes h (n_next nd);
       d \<leftarrow> compare_strings h (n_string nd) (n_string nx) case_sensitive;
       if d < 0 then sorted_already h case_sensitive (n_next nd) else Some False
     }
   }"

text \<open>The two pointers that find the middle.\<close>

partial_function (option) find_middle :: "'n store \<Rightarrow> ptr \<Rightarrow> ptr \<Rightarrow> ptr option" where
  "find_middle h second current_item =
     (if current_item = NULL then Some second
      else do {
        sd \<leftarrow> nodes h second;
        cd \<leftarrow> nodes h current_item;
        if n_next cd = NULL then find_middle h (n_next sd) NULL
        else do { nx \<leftarrow> nodes h (n_next cd); find_middle h (n_next sd) (n_next nx) }
      })"

text \<open>A list, or the rest of one, behind the last item of the result.\<close>

definition append_rest :: "ptr \<Rightarrow> ptr \<Rightarrow> 'n store \<Rightarrow> 'n store option" where
  "append_rest result_tail rest h = do { h \<leftarrow> set_next result_tail rest h; set_prev rest result_tail h }"

definition take_smaller :: "'n store \<Rightarrow> ptr \<Rightarrow> ptr \<Rightarrow> ptr option" where
  "take_smaller h one two = do {
     fd \<leftarrow> nodes h one;
     sd \<leftarrow> nodes h two;
     d \<leftarrow> compare_strings h (n_string fd) (n_string sd) False;
     Some (if d < 0 then one else two)
   }"

partial_function (option) merge_lists :: "ptr \<Rightarrow> ptr \<Rightarrow> ptr \<Rightarrow> ptr \<Rightarrow> ('n, ptr) action" where
  "merge_lists one two result result_tail h =
     (if one \<noteq> NULL \<and> two \<noteq> NULL then do {
        smaller \<leftarrow> take_smaller h one two;
        h \<leftarrow> (if result = NULL then Some h else append_rest result_tail smaller h);
        nd \<leftarrow> nodes h smaller;
        if one = smaller then merge_lists (n_next nd) two (if result = NULL then smaller else result) smaller h
        else merge_lists one (n_next nd) (if result = NULL then smaller else result) smaller h
      }
      else if one \<noteq> NULL \<and> result = NULL then Some (one, h)
      else do {
        h \<leftarrow> (if one \<noteq> NULL then append_rest result_tail one h else Some h);
        if two \<noteq> NULL \<and> result = NULL then Some (two, h)
        else do {
          h \<leftarrow> (if two \<noteq> NULL then append_rest result_tail two h else Some h);
          Some (result, h)
        }
      })"

definition split_list :: "ptr \<Rightarrow> 'n store \<Rightarrow> 'n store option" where
  "split_list second h =
     (if second = NULL then Some h
      else do {
        sd \<leftarrow> nodes h second;
        if n_prev sd \<noteq> NULL then set_next (n_prev sd) NULL h else Some h
      })"

partial_function (option) sort_list :: "bool \<Rightarrow> ptr \<Rightarrow> ('n, ptr) action" where
  "sort_list case_sensitive lst h =
     (if lst = NULL then Some (lst, h)
      else do {
        nd \<leftarrow> nodes h lst;
        if n_next nd = NULL then Some (lst, h)
        else do {
          ok \<leftarrow> sorted_already h case_sensitive lst;
          if ok then Some (lst, h)
          else do {
            second \<leftarrow> find_middle h lst lst;
            h \<leftarrow> split_list second h;
            (one, h) \<leftarrow> sort_list case_sensitive lst h;
            (two, h) \<leftarrow> sort_list case_sensitive second h;
            merge_lists one two NULL NULL h
          }
        }
      })"

definition sort_object :: "ptr \<Rightarrow> bool \<Rightarrow> 'n store \<Rightarrow> 'n store option" where
  "sort_object object case_sensitive h =
     (if object = NULL then Some h
      else do {
        nd \<leftarrow> nodes h object;
        (c, h) \<leftarrow> sort_list case_sensitive (n_child nd) h;
        set_first object c h
      })"

definition cJSONUtils_SortObject :: "ptr \<Rightarrow> 'n store \<Rightarrow> 'n store option" where
  "cJSONUtils_SortObject object h = sort_object object False h"
definition cJSONUtils_SortObjectCaseSensitive :: "ptr \<Rightarrow> 'n store \<Rightarrow> 'n store option" where
  "cJSONUtils_SortObjectCaseSensitive object h = sort_object object True h"

section \<open>Comparing\<close>

text \<open>\<open>compare_json\<close> and its two loops; the loop over an object compares the names too.\<close>

datatype chain = Item | Elements | Members

definition numbers_differ :: "'n doubles \<Rightarrow> 'n node \<Rightarrow> 'n node \<Rightarrow> bool" where
  "numbers_differ D a b \<longleftrightarrow> n_valueint a \<noteq> n_valueint b \<or> \<not> dbl_eq D (n_valuedouble a) (n_valuedouble b)"

partial_function (option) compare_chain :: "'n doubles \<Rightarrow> bool \<Rightarrow> chain \<Rightarrow> ptr \<Rightarrow> ptr \<Rightarrow> ('n, bool) action" where
  "compare_chain D case_sensitive job a b h =
     (if job = Item then
        (if a = NULL \<or> b = NULL then Some (False, h)
         else do {
           ad \<leftarrow> nodes h a;
           bd \<leftarrow> nodes h b;
           let t = n_type ad AND 0xFF;
           if t \<noteq> n_type bd AND 0xFF then Some (False, h)
           else if t = cJSON_Number then Some (\<not> numbers_differ D ad bd, h)
           else if t = cJSON_String then do {
             same \<leftarrow> strings_equal h (n_valuestring ad) (n_valuestring bd); Some (same, h) }
           else if t = cJSON_Array then compare_chain D case_sensitive Elements (n_child ad) (n_child bd) h
           else if t = cJSON_Object then do {
             h \<leftarrow> sort_object a case_sensitive h;
             h \<leftarrow> sort_object b case_sensitive h;
             ad \<leftarrow> nodes h a;
             bd \<leftarrow> nodes h b;
             compare_chain D case_sensitive Members (n_child ad) (n_child bd) h
           }
           else Some (True, h)
         })
      else if a = NULL \<or> b = NULL then Some (a = NULL \<and> b = NULL, h)
      else do {
        ad \<leftarrow> nodes h a;
        bd \<leftarrow> nodes h b;
        d \<leftarrow> (if job = Members then compare_strings h (n_string ad) (n_string bd) case_sensitive else Some 0);
        if d \<noteq> 0 then Some (False, h)
        else do {
          (identical, h) \<leftarrow> compare_chain D case_sensitive Item a b h;
          if \<not> identical then Some (False, h)
          else do {
            ad \<leftarrow> nodes h a;
            bd \<leftarrow> nodes h b;
            compare_chain D case_sensitive job (n_next ad) (n_next bd) h
          }
        }
      })"

definition compare_json :: "'n doubles \<Rightarrow> ptr \<Rightarrow> ptr \<Rightarrow> bool \<Rightarrow> ('n, bool) action" where
  "compare_json D a b case_sensitive = compare_chain D case_sensitive Item a b"

section \<open>Inserting\<close>

text \<open>The loop over the children: the item that it ends at and what is left of \<open>which\<close>.\<close>

fun walk_siblings :: "'n store \<Rightarrow> ptr \<Rightarrow> nat \<Rightarrow> (ptr \<times> nat) option" where
  "walk_siblings h c 0 = Some (c, 0)"
| "walk_siblings h c (Suc which) =
     (if c = NULL then Some (NULL, Suc which)
      else do { nd \<leftarrow> nodes h c; walk_siblings h (n_next nd) which })"

definition insert_item_in_array :: "ptr \<Rightarrow> 64 word \<Rightarrow> ptr \<Rightarrow> ('n, bool) action" where
  "insert_item_in_array array which newitem h = do {
     pd \<leftarrow> nodes h array;
     (c, left) \<leftarrow> walk_siblings h (n_child pd) (unat which);
     if left > 0 then Some (False, h)
     else if c = NULL then do { h \<leftarrow> cJSON_AddItemToArray array newitem h; Some (True, h) }
     else do {
       h \<leftarrow> set_next newitem c h;
       cd \<leftarrow> nodes h c;
       h \<leftarrow> set_prev newitem (n_prev cd) h;
       h \<leftarrow> set_prev c newitem h;
       pd \<leftarrow> nodes h array;
       h \<leftarrow> (if c = n_child pd then set_first array newitem h
            else do { nd \<leftarrow> nodes h newitem; set_next (n_prev nd) newitem h });
       Some (True, h)
     }
   }"

definition utils_get_object_item :: "'n store \<Rightarrow> ptr \<Rightarrow> ptr \<Rightarrow> bool \<Rightarrow> ptr option" where
  "utils_get_object_item h object name case_sensitive =
     (if case_sensitive then cJSON_GetObjectItemCaseSensitive h object name else cJSON_GetObjectItem h object name)"

end
