(* ===== verification/Json_Patch_Ops.thy ===== *)
theory Json_Patch_Ops
  imports Json_Patch
begin

text \<open>
  Applying and generating patches, and merge patches, in \<open>src/lib/cJSON_Utils.c\<close>.
\<close>

section \<open>Applying a patch\<close>

datatype patch_operation = INVALID | ADD | REMOVE | REPLACE | MOVE | COPY | TEST

definition ascii :: "string \<Rightarrow> bytes" where
  "ascii s = map (\<lambda>c. of_nat (of_char c)) s"

definition patch_opcode :: "bytes \<Rightarrow> patch_operation" where
  "patch_opcode s =
     (if s = ascii ''add'' then ADD
      else if s = ascii ''remove'' then REMOVE
      else if s = ascii ''replace'' then REPLACE
      else if s = ascii ''move'' then MOVE
      else if s = ascii ''copy'' then COPY
      else if s = ascii ''test'' then TEST
      else INVALID)"

type_synonym literals = "string \<Rightarrow> ptr"

definition decode_patch_operation :: "literals \<Rightarrow> 'n store \<Rightarrow> ptr \<Rightarrow> bool \<Rightarrow> patch_operation option" where
  "decode_patch_operation L h patch case_sensitive = do {
     operation \<leftarrow> utils_get_object_item h patch (L ''op'') case_sensitive;
     s \<leftarrow> cJSON_IsString h operation;
     if \<not> s then Some INVALID
     else do { nd \<leftarrow> nodes h operation; t \<leftarrow> texts h (n_valuestring nd); Some (patch_opcode t) }
   }"

definition overwrite_item :: "ptr \<Rightarrow> 'n node \<Rightarrow> 'n store \<Rightarrow> 'n store option" where
  "overwrite_item root replacement h =
     (if root = NULL then Some h
      else do {
        nd \<leftarrow> nodes h root;
        h \<leftarrow> (if n_string nd \<noteq> NULL then free_text (n_string nd) h else Some h);
        h \<leftarrow> (if n_valuestring nd \<noteq> NULL then free_text (n_valuestring nd) h else Some h);
        h \<leftarrow> (if n_child nd \<noteq> NULL then cJSON_Delete (n_child nd) h else Some h);
        modify root (\<lambda>_. replacement) h
      })"

text \<open>The value of the patch, duplicated: the status 7 or 8 without one.\<close>

definition patch_value :: "'n doubles \<Rightarrow> nat \<Rightarrow> literals \<Rightarrow> ptr \<Rightarrow> bool \<Rightarrow> ('n, int + ptr) action" where
  "patch_value D k L patch case_sensitive h = do {
     v \<leftarrow> utils_get_object_item h patch (L ''value'') case_sensitive;
     if v = NULL then Some (Inl 7, h)
     else do {
       (v, h) \<leftarrow> cJSON_Duplicate D k v True h;
       Some (if v = NULL then Inl 8 else Inr v, h)
     }
   }"

text \<open>The empty path: the root itself is replaced or removed.\<close>

definition patch_root :: "'n doubles \<Rightarrow> nat \<Rightarrow> literals \<Rightarrow> ptr \<Rightarrow> ptr \<Rightarrow> bool \<Rightarrow> ('n, int) action" where
  "patch_root D k L object patch case_sensitive h = do {
     (v, h) \<leftarrow> patch_value D k L patch case_sensitive h;
     case v of
       Inl status \<Rightarrow> Some (status, h)
     | Inr v \<Rightarrow> do {
         vd \<leftarrow> nodes h v;
         h \<leftarrow> overwrite_item object vd h;
         h \<leftarrow> free_node v h;
         nd \<leftarrow> nodes h object;
         h \<leftarrow> (if n_string nd \<noteq> NULL then do {
                h \<leftarrow> free_text (n_string nd) h; modify object (\<lambda>nd. nd\<lparr>n_string := NULL\<rparr>) h }
              else Some h);
         Some (0, h)
       }
   }"

text \<open>Where the value comes from, for the four operations that add one.\<close>

definition patch_source :: "'n doubles \<Rightarrow> nat \<Rightarrow> literals \<Rightarrow> ptr \<Rightarrow> ptr \<Rightarrow> patch_operation \<Rightarrow> bool \<Rightarrow> ('n, int + ptr) action" where
  "patch_source D k L object patch opcode case_sensitive h =
     (if opcode = MOVE \<or> opcode = COPY then do {
        from \<leftarrow> utils_get_object_item h patch (L ''from'') case_sensitive;
        if from = NULL then Some (Inl 4, h)
        else do {
          fd \<leftarrow> nodes h from;
          (v, h) \<leftarrow> (if opcode = MOVE then detach_path object (n_valuestring fd) case_sensitive h
                   else do { v \<leftarrow> get_item_from_pointer h object (n_valuestring fd) case_sensitive; Some (v, h) });
          if v = NULL then Some (Inl 5, h)
          else do {
            (v, h) \<leftarrow> (if opcode = COPY then cJSON_Duplicate D k v True h else Some (v, h));
            Some (if v = NULL then Inl 6 else Inr v, h)
          }
        }
      }
      else patch_value D k L patch case_sensitive h)"

text \<open>The value is added to \<open>parent\<close> at the last token of the path.\<close>

definition patch_insert :: "ptr \<Rightarrow> ptr \<Rightarrow> ptr \<Rightarrow> bool \<Rightarrow> ('n, int) action" where
  "patch_insert parent tail v case_sensitive h =
     (if parent = NULL \<or> tail = NULL then Some (9, h)
      else do {
        a \<leftarrow> cJSON_IsArray h parent;
        t \<leftarrow> texts h tail;
        if a then
          (if t = ascii ''-'' then do { h \<leftarrow> cJSON_AddItemToArray parent v h; Some (0, h) }
           else case decode_array_index_from_pointer t of
             None \<Rightarrow> Some (11, h)
           | Some index \<Rightarrow> do {
               (ok, h) \<leftarrow> insert_item_in_array parent index v h;
               Some (if ok then 0 else 10, h)
             })
        else do {
          ob \<leftarrow> cJSON_IsObject h parent;
          if ob then do {
            h \<leftarrow> (if case_sensitive then cJSON_DeleteItemFromObjectCaseSensitive parent tail h
                 else cJSON_DeleteItemFromObject parent tail h);
            h \<leftarrow> cJSON_AddItemToObject parent tail v h;
            Some (0, h)
          }
          else Some (9, h)
        }
      })"

definition patch_add :: "ptr \<Rightarrow> ptr \<Rightarrow> ptr \<Rightarrow> bool \<Rightarrow> ('n, int) action" where
  "patch_add object path v case_sensitive h = do {
     (block, h) \<leftarrow> cJSONUtils_strdup path h;
     if block = NULL then None
     else do {
       (tail, parent, h) \<leftarrow> open_path object block case_sensitive h;
       (status, h) \<leftarrow> patch_insert parent tail v case_sensitive h;
       h \<leftarrow> (if status \<noteq> 0 then cJSON_Delete v h else Some h);
       h \<leftarrow> free_block block tail h;
       Some (status, h)
     }
   }"

text \<open>The part of \<open>apply_patch\<close> after the tests of the operation and of the empty path.\<close>

definition patch_at :: "'n doubles \<Rightarrow> nat \<Rightarrow> literals \<Rightarrow> ptr \<Rightarrow> ptr \<Rightarrow> ptr \<Rightarrow> patch_operation \<Rightarrow> bool \<Rightarrow> ('n, int) action" where
  "patch_at D k L object patch path opcode case_sensitive h = do {
     (old_item, h) \<leftarrow> (if opcode = REMOVE \<or> opcode = REPLACE then detach_path object path case_sensitive h else Some (NULL, h));
     if (opcode = REMOVE \<or> opcode = REPLACE) \<and> old_item = NULL then Some (13, h)
     else do {
       h \<leftarrow> cJSON_Delete old_item h;
       if opcode = REMOVE then Some (0, h)
       else do {
         (v, h) \<leftarrow> patch_source D k L object patch opcode case_sensitive h;
         case v of
           Inl status \<Rightarrow> Some (status, h)
         | Inr v \<Rightarrow> patch_add object path v case_sensitive h
       }
     }
   }"

definition apply_patch :: "'n doubles \<Rightarrow> nat \<Rightarrow> literals \<Rightarrow> ptr \<Rightarrow> ptr \<Rightarrow> bool \<Rightarrow> ('n, int) action" where
  "apply_patch D k L object patch case_sensitive h = do {
     path \<leftarrow> utils_get_object_item h patch (L ''path'') case_sensitive;
     s \<leftarrow> cJSON_IsString h path;
     if \<not> s then Some (2, h)
     else do {
       opcode \<leftarrow> decode_patch_operation L h patch case_sensitive;
       pd \<leftarrow> nodes h path;
       if opcode = INVALID then Some (3, h)
       else if opcode = TEST then do {
         a \<leftarrow> get_item_from_pointer h object (n_valuestring pd) case_sensitive;
         b \<leftarrow> utils_get_object_item h patch (L ''value'') case_sensitive;
         (same, h) \<leftarrow> compare_json D a b case_sensitive h;
         Some (if same then 0 else 1, h)
       }
       else do {
         t \<leftarrow> texts h (n_valuestring pd);
         if t = [] \<and> opcode = REMOVE then do { h \<leftarrow> overwrite_item object (blank_node D) h; Some (0, h) }
         else if t = [] \<and> (opcode = REPLACE \<or> opcode = ADD) then patch_root D k L object patch case_sensitive h
         else patch_at D k L object patch (n_valuestring pd) opcode case_sensitive h
       }
     }
   }"

partial_function (option) apply_patches_loop :: "'n doubles \<Rightarrow> nat \<Rightarrow> literals \<Rightarrow> ptr \<Rightarrow> ptr \<Rightarrow> bool \<Rightarrow> ('n, int) action" where
  "apply_patches_loop D k L object current_patch case_sensitive h =
     (if current_patch = NULL then Some (0, h)
      else do {
        (status, h) \<leftarrow> apply_patch D k L object current_patch case_sensitive h;
        if status \<noteq> 0 then Some (status, h)
        else do {
          nd \<leftarrow> nodes h current_patch;
          apply_patches_loop D k L object (n_next nd) case_sensitive h
        }
      })"

definition apply_patches :: "'n doubles \<Rightarrow> nat \<Rightarrow> literals \<Rightarrow> ptr \<Rightarrow> ptr \<Rightarrow> bool \<Rightarrow> ('n, int) action" where
  "apply_patches D k L object patches case_sensitive h = do {
     a \<leftarrow> cJSON_IsArray h patches;
     if \<not> a then Some (1, h)
     else do { nd \<leftarrow> nodes h patches; apply_patches_loop D k L object (n_child nd) case_sensitive h }
   }"

definition cJSONUtils_ApplyPatches :: "'n doubles \<Rightarrow> nat \<Rightarrow> literals \<Rightarrow> ptr \<Rightarrow> ptr \<Rightarrow> ('n, int) action" where
  "cJSONUtils_ApplyPatches D k L object patches = apply_patches D k L object patches False"
definition cJSONUtils_ApplyPatchesCaseSensitive :: "'n doubles \<Rightarrow> nat \<Rightarrow> literals \<Rightarrow> ptr \<Rightarrow> ptr \<Rightarrow> ('n, int) action" where
  "cJSONUtils_ApplyPatchesCaseSensitive D k L object patches = apply_patches D k L object patches True"

section \<open>Generating patches\<close>

text \<open>An item that \<open>cJSON_AddItemToObject\<close> gets from a call.\<close>

definition add_created :: "ptr \<Rightarrow> ptr \<Rightarrow> (ptr \<times> 'n store) option \<Rightarrow> 'n store option" where
  "add_created object s new = do { (item, h) \<leftarrow> new; cJSON_AddItemToObject object s item h }"

definition compose_path :: "'n doubles \<Rightarrow> literals \<Rightarrow> ptr \<Rightarrow> ptr \<Rightarrow> ptr \<Rightarrow> 'n store \<Rightarrow> 'n store option" where
  "compose_path D L patch path suffix h =
     (if suffix = NULL then add_created patch (L ''path'') (cJSON_CreateString D path h)
      else do {
        s \<leftarrow> texts h suffix;
        p \<leftarrow> texts h path;
        e \<leftarrow> encoded s;
        (full_path, h) \<leftarrow> malloc_text (length p + pointer_encoded_length s + 2) (p @ SLASH # e) h;
        h \<leftarrow> add_created patch (L ''path'') (cJSON_CreateString D full_path h);
        free_text full_path h
      })"

definition compose_patch :: "'n doubles \<Rightarrow> nat \<Rightarrow> literals \<Rightarrow> ptr \<Rightarrow> ptr \<Rightarrow> ptr \<Rightarrow> ptr \<Rightarrow> ptr \<Rightarrow> 'n store \<Rightarrow> 'n store option" where
  "compose_patch D k L patches operation path suffix v h =
     (if patches = NULL \<or> operation = NULL \<or> path = NULL then Some h
      else let (patch, h) = cJSON_CreateObject D h
        in if patch = NULL then Some h
           else do {
             h \<leftarrow> add_created patch (L ''op'') (cJSON_CreateString D operation h);
             h \<leftarrow> compose_path D L patch path suffix h;
             h \<leftarrow> (if v \<noteq> NULL then add_created patch (L ''value'') (cJSON_Duplicate D k v True h) else Some h);
             cJSON_AddItemToArray patches patch h
           })"

definition cJSONUtils_AddPatchToArray :: "'n doubles \<Rightarrow> nat \<Rightarrow> literals \<Rightarrow> ptr \<Rightarrow> ptr \<Rightarrow> ptr \<Rightarrow> ptr \<Rightarrow> 'n store \<Rightarrow> 'n store option" where
  "cJSONUtils_AddPatchToArray D k L array operation path v = compose_patch D k L array operation path NULL v"

text \<open>
  \<open>create_patches\<close>, and its loops over the elements (with \<open>index\<close> and the buffer \<open>new_path\<close>) and
  over the members, told apart by \<open>job\<close>.
\<close>

definition members_diff :: "'n store \<Rightarrow> ptr \<Rightarrow> ptr \<Rightarrow> bool \<Rightarrow> int option" where
  "members_diff h from_child to_child case_sensitive =
     (if from_child = NULL then Some 1
      else if to_child = NULL then Some (-1)
      else do {
        fd \<leftarrow> nodes h from_child;
        td \<leftarrow> nodes h to_child;
        compare_strings h (n_string fd) (n_string td) case_sensitive
      })"

definition next_of :: "'n store \<Rightarrow> ptr \<Rightarrow> ptr option" where
  "next_of h p = map_option n_next (nodes h p)"

text \<open>The room of \<open>new_path\<close> for the elements.\<close>

definition index_room :: "'n store \<Rightarrow> ptr \<Rightarrow> nat option" where
  "index_room h path = map_option (\<lambda>p. length p + 20 + 2) (texts h path)"

text \<open>Two items that are not both arrays or both objects.\<close>

definition create_scalar :: "'n doubles \<Rightarrow> nat \<Rightarrow> literals \<Rightarrow> ptr \<Rightarrow> ptr \<Rightarrow> 'n node \<Rightarrow> 'n node \<Rightarrow> ptr \<Rightarrow> 'n store \<Rightarrow> 'n store option" where
  "create_scalar D k L patches path fd td to h = do {
     let t = n_type fd AND 0xFF;
     differ \<leftarrow> (if t \<noteq> n_type td AND 0xFF then Some True
               else if t = cJSON_Number then Some (numbers_differ D fd td)
               else if t = cJSON_String then map_option Not (strings_equal h (n_valuestring fd) (n_valuestring td))
               else Some False);
     if differ then compose_patch D k L patches (L ''replace'') path NULL to h else Some h
   }"

text \<open>An element or a member that only one side has: where the loop goes on, and with which index.\<close>

definition skip_element ::
    "'n doubles \<Rightarrow> nat \<Rightarrow> literals \<Rightarrow> ptr \<Rightarrow> ptr \<Rightarrow> ptr \<Rightarrow> ptr \<Rightarrow> 64 word \<Rightarrow> ptr \<Rightarrow> 'n store \<Rightarrow> (ptr \<times> ptr \<times> 64 word \<times> 'n store) option" where
  "skip_element D k L patches path from to index new_path h =
     (if from \<noteq> NULL then do {
        room \<leftarrow> index_room h path;
        h \<leftarrow> write_text new_path room (decimal (unat index)) h;
        h \<leftarrow> compose_patch D k L patches (L ''remove'') path new_path NULL h;
        fn \<leftarrow> next_of h from;
        Some (fn, to, index, h)
      }
      else do {
        h \<leftarrow> compose_patch D k L patches (L ''add'') path (L ''-'') to h;
        tn \<leftarrow> next_of h to;
        Some (from, tn, index + 1, h)
      })"

definition skip_member ::
    "'n doubles \<Rightarrow> nat \<Rightarrow> literals \<Rightarrow> ptr \<Rightarrow> ptr \<Rightarrow> ptr \<Rightarrow> ptr \<Rightarrow> int \<Rightarrow> 'n store \<Rightarrow> (ptr \<times> ptr \<times> 'n store) option" where
  "skip_member D k L patches path from to diff h =
     (if diff < 0 then do {
        fd \<leftarrow> nodes h from;
        h \<leftarrow> compose_patch D k L patches (L ''remove'') path (n_string fd) NULL h;
        fn \<leftarrow> next_of h from;
        Some (fn, to, h)
      }
      else do {
        td \<leftarrow> nodes h to;
        h \<leftarrow> compose_patch D k L patches (L ''add'') path (n_string td) to h;
        tn \<leftarrow> next_of h to;
        Some (from, tn, h)
      })"

text \<open>The path of a member that both sides have, in a new block.\<close>

definition member_path :: "ptr \<Rightarrow> ptr \<Rightarrow> ('n, ptr) action" where
  "member_path path from h = do {
     fd \<leftarrow> nodes h from;
     p \<leftarrow> texts h path;
     s \<leftarrow> texts h (n_string fd);
     e \<leftarrow> encoded s;
     malloc_text (length p + pointer_encoded_length s + 2) (p @ SLASH # e) h
   }"

definition element_path :: "ptr \<Rightarrow> ptr \<Rightarrow> 64 word \<Rightarrow> 'n store \<Rightarrow> 'n store option" where
  "element_path new_path path index h = do {
     p \<leftarrow> texts h path;
     room \<leftarrow> index_room h path;
     write_text new_path room (p @ SLASH # decimal (unat index)) h
   }"

text \<open>The buffer for the paths of the elements: it may be null, as long as no path is written.\<close>

definition malloc_buffer :: "('n, ptr) action" where
  "malloc_buffer h =
     Some (if grants h (requests h)
       then (brk h, asked (h\<lparr>texts := (texts h)(brk h \<mapsto> []), brk := brk h + 1\<rparr>)) else (NULL, asked h))"

text \<open>
  A pair of items: the loop that goes through their children, if there is one, and its buffer. No
  loop is \<open>Item\<close>.
\<close>

definition both_kind :: "32 word \<Rightarrow> 'n node \<Rightarrow> 'n node \<Rightarrow> bool" where
  "both_kind t fd td \<longleftrightarrow> n_type fd AND 0xFF = t \<and> n_type td AND 0xFF = t"

definition create_item_patches ::
    "'n doubles \<Rightarrow> nat \<Rightarrow> literals \<Rightarrow> bool \<Rightarrow> ptr \<Rightarrow> ptr \<Rightarrow> ptr \<Rightarrow> ptr \<Rightarrow> 'n store \<Rightarrow> (chain \<times> ptr \<times> ptr \<times> ptr \<times> 'n store) option" where
  "create_item_patches D k L case_sensitive patches path from to h =
     (if from = NULL \<or> to = NULL then Some (Item, NULL, NULL, NULL, h)
      else do {
        fd \<leftarrow> nodes h from;
        td \<leftarrow> nodes h to;
        if both_kind cJSON_Array fd td then do {
          room \<leftarrow> index_room h path;
          (buf, h) \<leftarrow> malloc_buffer h;
          Some (Elements, n_child fd, n_child td, buf, h)
        }
        else if both_kind cJSON_Object fd td then do {
          h \<leftarrow> sort_object from case_sensitive h;
          h \<leftarrow> sort_object to case_sensitive h;
          fd \<leftarrow> nodes h from;
          td \<leftarrow> nodes h to;
          Some (Members, n_child fd, n_child td, NULL, h)
        }
        else do {
          h \<leftarrow> create_scalar D k L patches path fd td to h;
          Some (Item, NULL, NULL, NULL, h)
        }
      })"

text \<open>
  A pass of a loop: past a child that only one side has, or with the path of the two children that
  are compared next.
\<close>

definition create_pass ::
    "'n doubles \<Rightarrow> nat \<Rightarrow> literals \<Rightarrow> bool \<Rightarrow> chain \<Rightarrow> ptr \<Rightarrow> ptr \<Rightarrow> ptr \<Rightarrow> ptr \<Rightarrow> 64 word \<Rightarrow> ptr \<Rightarrow> 'n store
      \<Rightarrow> (ptr \<times> ptr \<times> 64 word \<times> 'n store + ptr \<times> 'n store) option" where
  "create_pass D k L case_sensitive job patches path from to index new_path h =
     (if job = Elements then
        (if from \<noteq> NULL \<and> to \<noteq> NULL then do {
           h \<leftarrow> element_path new_path path index h;
           Some (Inr (new_path, h))
         }
         else map_option Inl (skip_element D k L patches path from to index new_path h))
      else do {
        diff \<leftarrow> members_diff h from to case_sensitive;
        if diff = 0 then map_option Inr (member_path path from h)
        else do {
          (fn, tn, h) \<leftarrow> skip_member D k L patches path from to diff h;
          Some (Inl (fn, tn, index, h))
        }
      })"

partial_function (option) create_chain ::
    "'n doubles \<Rightarrow> nat \<Rightarrow> literals \<Rightarrow> bool \<Rightarrow> chain \<Rightarrow> ptr \<Rightarrow> ptr \<Rightarrow> ptr \<Rightarrow> ptr \<Rightarrow> 64 word \<Rightarrow> ptr \<Rightarrow> 'n store \<Rightarrow> 'n store option" where
  "create_chain D k L case_sensitive job patches path from to index new_path h =
     (if job = Item then do {
        (loop, fc, tc, buf, h) \<leftarrow> create_item_patches D k L case_sensitive patches path from to h;
        h \<leftarrow> (if loop = Item then Some h else create_chain D k L case_sensitive loop patches path fc tc 0 buf h);
        if loop = Elements \<and> buf \<noteq> NULL then free_text buf h else Some h
      }
      else if from = NULL \<and> to = NULL then Some h
      else do {
        pass \<leftarrow> create_pass D k L case_sensitive job patches path from to index new_path h;
        case pass of
          Inl (fn, tn, index, h) \<Rightarrow> create_chain D k L case_sensitive job patches path fn tn index new_path h
        | Inr (buf, h) \<Rightarrow> do {
            h \<leftarrow> create_chain D k L case_sensitive Item patches buf from to 0 NULL h;
            h \<leftarrow> (if job = Members then free_text buf h else Some h);
            fn \<leftarrow> next_of h from;
            tn \<leftarrow> next_of h to;
            create_chain D k L case_sensitive job patches path fn tn (index + 1) new_path h
          }
      })"

definition generate_patches :: "'n doubles \<Rightarrow> nat \<Rightarrow> literals \<Rightarrow> ptr \<Rightarrow> ptr \<Rightarrow> bool \<Rightarrow> ('n, ptr) action" where
  "generate_patches D k L from to case_sensitive h =
     (if from = NULL \<or> to = NULL then Some (NULL, h)
      else do {
        let (patches, h) = cJSON_CreateArray D h;
        h \<leftarrow> create_chain D k L case_sensitive Item patches (L '''') from to 0 NULL h;
        Some (patches, h)
      })"

definition cJSONUtils_GeneratePatches :: "'n doubles \<Rightarrow> nat \<Rightarrow> literals \<Rightarrow> ptr \<Rightarrow> ptr \<Rightarrow> ('n, ptr) action" where
  "cJSONUtils_GeneratePatches D k L from to = generate_patches D k L from to False"
definition cJSONUtils_GeneratePatchesCaseSensitive :: "'n doubles \<Rightarrow> nat \<Rightarrow> literals \<Rightarrow> ptr \<Rightarrow> ptr \<Rightarrow> ('n, ptr) action" where
  "cJSONUtils_GeneratePatchesCaseSensitive D k L from to = generate_patches D k L from to True"

section \<open>Merge patches\<close>

text \<open>The start of \<open>merge_patch\<close>: its result so far, and the children of the patch that are left to do.\<close>

definition merge_begin :: "'n doubles \<Rightarrow> nat \<Rightarrow> ptr \<Rightarrow> ptr \<Rightarrow> 'n store \<Rightarrow> (ptr \<times> ptr \<times> 'n store) option" where
  "merge_begin D k target patch h = do {
     ob \<leftarrow> cJSON_IsObject h patch;
     if \<not> ob then do {
       h \<leftarrow> cJSON_Delete target h;
       (copy, h) \<leftarrow> cJSON_Duplicate D k patch True h;
       Some (copy, NULL, h)
     }
     else do {
       tob \<leftarrow> cJSON_IsObject h target;
       (target, h) \<leftarrow> (if tob then Some (target, h)
                     else do { h \<leftarrow> cJSON_Delete target h; Some (cJSON_CreateObject D h) });
       nd \<leftarrow> nodes h patch;
       Some (target, n_child nd, h)
     }
   }"

partial_function (option) merge_loop :: "'n doubles \<Rightarrow> nat \<Rightarrow> bool \<Rightarrow> ptr \<Rightarrow> ptr \<Rightarrow> ('n, ptr) action" where
  "merge_loop D k case_sensitive target patch_child h =
     (if patch_child = NULL then Some (target, h)
      else do {
        n \<leftarrow> cJSON_IsNull h patch_child;
        nd \<leftarrow> nodes h patch_child;
        if n then do {
          h \<leftarrow> (if case_sensitive then cJSON_DeleteItemFromObjectCaseSensitive target (n_string nd) h
               else cJSON_DeleteItemFromObject target (n_string nd) h);
          nx \<leftarrow> next_of h patch_child;
          merge_loop D k case_sensitive target nx h
        }
        else do {
          (replace_me, h) \<leftarrow> (if case_sensitive then cJSON_DetachItemFromObjectCaseSensitive target (n_string nd) h
                            else cJSON_DetachItemFromObject target (n_string nd) h);
          (t, c, h) \<leftarrow> merge_begin D k replace_me patch_child h;
          (replacement, h) \<leftarrow> merge_loop D k case_sensitive t c h;
          if replacement = NULL then Some (NULL, h)
          else do {
            h \<leftarrow> cJSON_AddItemToObject target (n_string nd) replacement h;
            nx \<leftarrow> next_of h patch_child;
            merge_loop D k case_sensitive target nx h
          }
        }
      })"

definition merge_patch :: "'n doubles \<Rightarrow> nat \<Rightarrow> ptr \<Rightarrow> ptr \<Rightarrow> bool \<Rightarrow> ('n, ptr) action" where
  "merge_patch D k target patch case_sensitive h = do {
     (t, c, h) \<leftarrow> merge_begin D k target patch h;
     merge_loop D k case_sensitive t c h
   }"

definition cJSONUtils_MergePatch :: "'n doubles \<Rightarrow> nat \<Rightarrow> ptr \<Rightarrow> ptr \<Rightarrow> ('n, ptr) action" where
  "cJSONUtils_MergePatch D k target patch = merge_patch D k target patch False"
definition cJSONUtils_MergePatchCaseSensitive :: "'n doubles \<Rightarrow> nat \<Rightarrow> ptr \<Rightarrow> ptr \<Rightarrow> ('n, ptr) action" where
  "cJSONUtils_MergePatchCaseSensitive D k target patch = merge_patch D k target patch True"

text \<open>
  The start of \<open>generate_merge_patch\<close>: its result, or the new patch and the children to compare. The
  recursive call is the one that ignores case.
\<close>

definition generate_begin :: "'n doubles \<Rightarrow> nat \<Rightarrow> ptr \<Rightarrow> ptr \<Rightarrow> bool \<Rightarrow> ('n, ptr + ptr \<times> ptr \<times> ptr) action" where
  "generate_begin D k from to case_sensitive h =
     (if to = NULL then let (n, h) = cJSON_CreateNull D h in Some (Inl n, h)
      else do {
        tob \<leftarrow> cJSON_IsObject h to;
        fob \<leftarrow> cJSON_IsObject h from;
        if \<not> tob \<or> \<not> fob then do { (copy, h) \<leftarrow> cJSON_Duplicate D k to True h; Some (Inl copy, h) }
        else do {
          h \<leftarrow> sort_object from case_sensitive h;
          h \<leftarrow> sort_object to case_sensitive h;
          fd \<leftarrow> nodes h from;
          td \<leftarrow> nodes h to;
          let (patch, h) = cJSON_CreateObject D h;
          Some (Inr (patch, n_child fd, n_child td), h)
        }
      })"

definition merge_diff :: "'n store \<Rightarrow> ptr \<Rightarrow> ptr \<Rightarrow> int option" where
  "merge_diff h from_child to_child =
     (if from_child = NULL then Some 1
      else if to_child = NULL then Some (-1)
      else do { fd \<leftarrow> nodes h from_child; td \<leftarrow> nodes h to_child; strcmp h (n_string fd) (n_string td) })"

definition finish_merge :: "ptr \<Rightarrow> ('n, ptr) action" where
  "finish_merge patch h = do {
     nd \<leftarrow> nodes h patch;
     if n_child nd = NULL then do { h \<leftarrow> cJSON_Delete patch h; Some (NULL, h) } else Some (patch, h)
   }"

partial_function (option) generate_loop :: "'n doubles \<Rightarrow> nat \<Rightarrow> bool \<Rightarrow> ptr \<Rightarrow> ptr \<Rightarrow> ptr \<Rightarrow> ('n, ptr) action" where
  "generate_loop D k case_sensitive patch from_child to_child h =
     (if from_child = NULL \<and> to_child = NULL then finish_merge patch h
      else do {
        diff \<leftarrow> merge_diff h from_child to_child;
        if diff < 0 then do {
          fd \<leftarrow> nodes h from_child;
          h \<leftarrow> add_created patch (n_string fd) (Some (cJSON_CreateNull D h));
          fn \<leftarrow> next_of h from_child;
          generate_loop D k case_sensitive patch fn to_child h
        }
        else if diff > 0 then do {
          td \<leftarrow> nodes h to_child;
          h \<leftarrow> add_created patch (n_string td) (cJSON_Duplicate D k to_child True h);
          tn \<leftarrow> next_of h to_child;
          generate_loop D k case_sensitive patch from_child tn h
        }
        else do {
          (same, h) \<leftarrow> compare_json D from_child to_child case_sensitive h;
          h \<leftarrow> (if same then Some h
               else do {
                 td \<leftarrow> nodes h to_child;
                 (b, h) \<leftarrow> generate_begin D k from_child to_child False h;
                 (m, h) \<leftarrow> (case b of
                     Inl r \<Rightarrow> Some (r, h)
                   | Inr (p, f, t) \<Rightarrow> generate_loop D k False p f t h);
                 cJSON_AddItemToObject patch (n_string td) m h
               });
          fn \<leftarrow> next_of h from_child;
          tn \<leftarrow> next_of h to_child;
          generate_loop D k case_sensitive patch fn tn h
        }
      })"

definition generate_merge_patch :: "'n doubles \<Rightarrow> nat \<Rightarrow> ptr \<Rightarrow> ptr \<Rightarrow> bool \<Rightarrow> ('n, ptr) action" where
  "generate_merge_patch D k from to case_sensitive h = do {
     (b, h) \<leftarrow> generate_begin D k from to case_sensitive h;
     case b of
       Inl r \<Rightarrow> Some (r, h)
     | Inr (p, f, t) \<Rightarrow> generate_loop D k case_sensitive p f t h
   }"

definition cJSONUtils_GenerateMergePatch :: "'n doubles \<Rightarrow> nat \<Rightarrow> ptr \<Rightarrow> ptr \<Rightarrow> ('n, ptr) action" where
  "cJSONUtils_GenerateMergePatch D k from to = generate_merge_patch D k from to False"
definition cJSONUtils_GenerateMergePatchCaseSensitive :: "'n doubles \<Rightarrow> nat \<Rightarrow> ptr \<Rightarrow> ptr \<Rightarrow> ('n, ptr) action" where
  "cJSONUtils_GenerateMergePatchCaseSensitive D k from to = generate_merge_patch D k from to True"

end
