(* ===== verification/Json_Pointer_Spec.thy ===== *)
theory Json_Pointer_Spec
  imports Json_Pointer Json_Memory
begin

text \<open>
  What JSON pointers mean: the tokens of a pointer decoded as RFC 6901 has it, array indices as
  decimal numbers, and the way to an item and back.
\<close>

section \<open>Tokens\<close>

abbreviation token :: "bytes \<Rightarrow> bytes" where
  "token \<equiv> takeWhile (\<lambda>c. c \<noteq> SLASH)"

text \<open>The reference: \<open>~0\<close> stands for \<open>~\<close> and \<open>~1\<close> for \<open>/\<close>, and a \<open>~\<close> before anything else is an error.\<close>

fun decode_token :: "bytes \<Rightarrow> bytes option" where
  "decode_token [] = Some []"
| "decode_token (c # s) =
     (if c \<noteq> TILDE then map_option ((#) c) (decode_token s)
      else case s of
        [] \<Rightarrow> None
      | d # s' \<Rightarrow>
          if d = DIGIT0 then map_option ((#) TILDE) (decode_token s')
          else if d = DIGIT1 then map_option ((#) SLASH) (decode_token s')
          else None)"

definition same_name :: "bool \<Rightarrow> bytes \<Rightarrow> bytes \<Rightarrow> bool" where
  "same_name case_sensitive s t \<longleftrightarrow> (if case_sensitive then s = t else map to_lower s = map to_lower t)"

lemma to_lower_special:
  "to_lower c = TILDE \<longleftrightarrow> c = TILDE" "to_lower c = SLASH \<longleftrightarrow> c = SLASH"
  by (auto simp: to_lower_def word_le_nat_alt word_unat_eq_iff unat_word_ariths split: if_splits)

lemma same_name_Cons:
  "same_name cs (a # s) (b # t) \<longleftrightarrow> (if cs then a = b else to_lower a = to_lower b) \<and> same_name cs s t"
  "same_name cs [] t \<longleftrightarrow> t = []" "same_name cs s [] \<longleftrightarrow> s = []"
  by (auto simp: same_name_def)

lemma compare_loop_token:
  "0 \<notin> set name \<Longrightarrow> 0 \<notin> set p \<Longrightarrow>
   compare_loop cs name p \<longleftrightarrow> (\<exists>t. decode_token (token p) = Some t \<and> same_name cs name t)"
proof (induction cs name p rule: compare_loop.induct)
  case (1 cs n name p pointer)
  have special: "(if cs then n = TILDE else to_lower n = to_lower TILDE) \<longleftrightarrow> n = TILDE"
    "(if cs then n = SLASH else to_lower n = to_lower SLASH) \<longleftrightarrow> n = SLASH"
    using to_lower_special [of n] by (simp_all add: to_lower_def)
  consider "p = SLASH" | "p = TILDE" | "p \<noteq> SLASH" "p \<noteq> TILDE" by blast
  then show ?case
  proof cases
    case 1
    then show ?thesis using "1.prems" by (auto simp: both_ended_def first_def same_name_Cons)
  next
    case 2
    show ?thesis
    proof (cases pointer)
      case Nil
      then show ?thesis using 2 by (simp add: first_def)
    next
      case (Cons d ptr)
      consider "d = DIGIT0" "n = TILDE" | "d = DIGIT1" "n = SLASH" | "(d \<noteq> DIGIT0 \<or> n \<noteq> TILDE) \<and> (d \<noteq> DIGIT1 \<or> n \<noteq> SLASH)" by blast
      then show ?thesis
      proof cases
        case 3
        then have "\<not> compare_loop cs (n # name) (p # pointer)" using 2 Cons by (simp add: first_def)
        moreover have "\<not> (\<exists>t. decode_token (token (p # pointer)) = Some t \<and> same_name cs (n # name) t)"
          using 2 Cons 3 special by (auto simp: same_name_Cons split: if_splits)
        ultimately show ?thesis by blast
      qed (use 2 Cons "1.IH"(1) "1.prems" special in \<open>auto simp: first_def same_name_Cons\<close>)
    qed
  next
    case 3
    then show ?thesis using "1.IH"(2) "1.prems" by (auto simp: same_name_Cons)
  qed
next
  case "2_1"
  then show ?case by (auto simp: both_ended_def first_def same_name_Cons split: if_splits list.splits)
next
  case "2_2"
  then show ?case by (auto simp: both_ended_def first_def same_name_Cons split: list.splits)
qed

text \<open>A name without special characters is its own token.\<close>

definition plain :: "bytes \<Rightarrow> bool" where
  "plain s \<longleftrightarrow> 0 \<notin> set s \<and> SLASH \<notin> set s \<and> TILDE \<notin> set s"

lemma decode_plain: "TILDE \<notin> set s \<Longrightarrow> decode_token s = Some s"
  by (induction s) auto

lemma token_append: "SLASH \<notin> set s \<Longrightarrow> p = [] \<or> hd p = SLASH \<Longrightarrow> token (s @ p) = s \<and> next_token (s @ p) = p"
  by (induction s) (cases p; auto)+

lemma encoded_plain: "SLASH \<notin> set s \<Longrightarrow> TILDE \<notin> set s \<Longrightarrow> encoded s = Some s \<and> pointer_encoded_length s = length s"
  by (induction s) (auto simp: encoded_def)

text \<open>What the code writes for other names: nothing defined for a \<open>/\<close>, and the escape of \<open>/\<close> for a \<open>~\<close>.\<close>

lemma encoded_other:
  "SLASH \<in> set s \<Longrightarrow> encoded s = None"
  "SLASH \<notin> set s \<Longrightarrow> \<exists>e. encoded s = Some e \<and> length e = pointer_encoded_length s \<and>
     decode_token e = Some (map (\<lambda>c. if c = TILDE then SLASH else c) s)"
  by (induction s) (auto simp: encoded_def)

section \<open>Indices\<close>

fun digits_value :: "nat \<Rightarrow> bytes \<Rightarrow> nat" where
  "digits_value n [] = n"
| "digits_value n (c # s) = digits_value (10 * n + unat (c - DIGIT0)) s"

definition is_digit :: "byte \<Rightarrow> bool" where
  "is_digit c \<longleftrightarrow> DIGIT0 \<le> c \<and> c \<le> DIGIT9"

lemma digit_of: "n < 10 \<Longrightarrow> is_digit (DIGIT0 + of_nat n) \<and> unat (DIGIT0 + of_nat n - DIGIT0) = n"
proof -
  assume "n < 10"
  then have "n \<in> {0, 1, 2, 3, 4, 5, 6, 7, 8, 9}" by auto
  then show ?thesis by (auto simp: is_digit_def)
qed

lemma decimal_digits: "list_all is_digit (decimal n) \<and> decimal n \<noteq> []"
proof (induction n rule: decimal.induct)
  case (1 n)
  show ?case
  proof (cases "n < 10")
    case True
    then show ?thesis using digit_of [of n] by (subst (1 2) decimal.simps) simp
  next
    case False
    then show ?thesis using "1" digit_of [of "n mod 10"] by (subst (1 2) decimal.simps) simp
  qed
qed

lemma digits_value_append: "digits_value a (s @ t) = digits_value (digits_value a s) t"
  by (induction s arbitrary: a) auto

lemma digits_value_decimal: "digits_value 0 (decimal n) = n"
proof (induction n rule: decimal.induct)
  case (1 n)
  show ?case
  proof (cases "n < 10")
    case True
    then show ?thesis using digit_of [of n] by (subst decimal.simps) simp
  next
    case False
    then show ?thesis using "1" digit_of [of "n mod 10"] by (subst decimal.simps) (simp add: digits_value_append)
  qed
qed

lemma decimal_first: "hd (decimal n) = DIGIT0 \<longleftrightarrow> n = 0"
proof (induction n rule: decimal.induct)
  case (1 n)
  show ?case
  proof (cases "n < 10")
    case True
    then show ?thesis using digit_of [OF True] by (subst decimal.simps) auto
  next
    case False
    then have "hd (decimal n) = hd (decimal (n div 10))" using decimal_digits [of "n div 10"] by (subst decimal.simps) simp
    then show ?thesis using "1" False by simp
  qed
qed

lemma decimal_length: "n < 10 ^ k \<Longrightarrow> 0 < k \<Longrightarrow> length (decimal n) \<le> k"
proof (induction n arbitrary: k rule: decimal.induct)
  case (1 n)
  show ?case
  proof (cases "n < 10")
    case True
    then show ?thesis using "1.prems" by (subst decimal.simps) simp
  next
    case False
    then obtain j where j: "k = Suc j" using "1.prems"(2) gr0_implies_Suc by blast
    then have "0 < j" using False "1.prems"(1) by (cases j) auto
    then have "n div 10 < 10 ^ j" using "1.prems" j by (simp add: less_mult_imp_div_less mult.commute)
    then show ?thesis using "1.IH" [of j] False j \<open>0 < j\<close> by (subst decimal.simps) simp
  qed
qed

lemma index_loop_digits:
  "list_all is_digit s \<Longrightarrow> c0 \<le> DIGIT9 \<Longrightarrow> t = [] \<or> hd t < DIGIT0 \<Longrightarrow>
   index_loop c0 (of_nat a) (s @ t) = (of_nat (digits_value a s), t)"
proof (induction s arbitrary: a)
  case Nil
  then show ?case by (cases t) auto
next
  case (Cons c s)
  have "ucast (c - DIGIT0) = (of_nat (unat (c - DIGIT0)) :: 64 word)" by simp
  then have "10 * of_nat a + ucast (c - DIGIT0) = (of_nat (10 * a + unat (c - DIGIT0)) :: 64 word)" by simp
  then show ?case using Cons.IH [of "10 * a + unat (c - DIGIT0)"] Cons.prems by (simp add: is_digit_def)
qed

lemma first_Cons: "first (c # s) = c" "first [] = 0"
  by (simp_all add: first_def)

lemma decode_decimal:
  assumes "n < 2 ^ 64" "p = [] \<or> hd p = SLASH"
  shows "decode_array_index_from_pointer (decimal n @ p) = Some (of_nat n)"
proof -
  obtain c s where d: "decimal n = c # s" "is_digit c" "list_all is_digit s" using decimal_digits [of n] by (cases "decimal n") auto
  have p: "p = [] \<or> hd p < DIGIT0" "first p = 0 \<or> first p = SLASH" using assms(2) by (cases p; auto simp: first_def)+
  have "index_loop c 0 (decimal n @ p) = (of_nat n, p)"
    using index_loop_digits [of "decimal n" c p 0] decimal_digits [of n] d(2) p(1) digits_value_decimal [of n]
    by (simp add: is_digit_def)
  moreover have "n = 0" if "c = DIGIT0" using decimal_first [of n] d(1) that by simp
  then have "c = DIGIT0 \<Longrightarrow> s = []" using d(1) by (simp add: decimal.simps [of 0])
  then have "\<not> (c = DIGIT0 \<and> first (s @ p) \<noteq> 0 \<and> first (s @ p) \<noteq> SLASH)" using p(2) by auto
  ultimately show ?thesis using d(1) p(2) by (auto simp: decode_array_index_from_pointer_def first_Cons)
qed

lemma decimal_plain: "plain (decimal n)"
proof -
  have "is_digit c \<Longrightarrow> c \<noteq> 0 \<and> c \<noteq> SLASH \<and> c \<noteq> TILDE" for c by (auto simp: is_digit_def)
  then show ?thesis using decimal_digits [of n] by (auto simp: plain_def list_all_iff)
qed

section \<open>The way to an item\<close>

fun node_of :: "shape \<Rightarrow> ptr" where
  "node_of (Shape a kids) = a"

definition kind_of :: "'n store \<Rightarrow> ptr \<Rightarrow> 32 word" where
  "kind_of h a = (case nodes h a of None \<Rightarrow> 0 | Some nd \<Rightarrow> n_type nd AND 0xFF)"

definition name_of :: "'n store \<Rightarrow> ptr \<Rightarrow> bytes" where
  "name_of h a = (case nodes h a of None \<Rightarrow> [] | Some nd \<Rightarrow> (case texts h (n_string nd) of None \<Rightarrow> [] | Some s \<Rightarrow> s))"

definition named_plainly :: "'n store \<Rightarrow> ptr \<Rightarrow> bool" where
  "named_plainly h a \<longleftrightarrow> (\<exists>nd s. nodes h a = Some nd \<and> texts h (n_string nd) = Some s \<and> plain s)"

definition siblings_named :: "'n store \<Rightarrow> bool \<Rightarrow> shape list \<Rightarrow> bool" where
  "siblings_named h cs kids \<longleftrightarrow> (\<forall>k \<in> set kids. named_plainly h (node_of k)) \<and>
     distinct (map (\<lambda>k. if cs then name_of h (node_of k) else map to_lower (name_of h (node_of k))) kids)"

text \<open>
  A tree in the store: children are in arrays, or in objects where they have plain names that
  differ.
\<close>

fun readable :: "'n store \<Rightarrow> bool \<Rightarrow> shape \<Rightarrow> bool" where
  "readable h cs (Shape a kids) \<longleftrightarrow> a \<noteq> NULL \<and> length kids < 2 ^ 64 \<and>
     (\<exists>nd. nodes h a = Some nd \<and> seg h NULL (n_child nd) (map node_of kids) NULL) \<and>
     (kids = [] \<or> kind_of h a = cJSON_Array \<or>
       kind_of h a = cJSON_Object \<and> siblings_named h cs kids) \<and>
     (\<forall>k \<in> set kids. readable h cs k)"

definition step_name :: "'n store \<Rightarrow> ptr \<Rightarrow> nat \<Rightarrow> ptr \<Rightarrow> bytes" where
  "step_name h a i k = (if kind_of h a = cJSON_Array then decimal i else name_of h k)"

text \<open>The pointer to the first occurrence of an item, as RFC 6901 writes it for plain names.\<close>

fun way :: "'n store \<Rightarrow> ptr \<Rightarrow> shape \<Rightarrow> bytes option"
and ways :: "'n store \<Rightarrow> ptr \<Rightarrow> ptr \<Rightarrow> nat \<Rightarrow> shape list \<Rightarrow> bytes option" where
  "way h target (Shape a kids) = (if a = target then Some [] else ways h target a 0 kids)"
| "ways h target a i [] = None"
| "ways h target a i (k # ks) =
     (case way h target k of
        Some p \<Rightarrow> Some (SLASH # step_name h a i (node_of k) @ p)
      | None \<Rightarrow> ways h target a (Suc i) ks)"

fun nodes_in :: "shape \<Rightarrow> ptr list" where
  "nodes_in (Shape a kids) = a # concat (map nodes_in kids)"

lemma way_found: "target \<in> set (nodes_in t) \<Longrightarrow> way h target t \<noteq> None"
  and ways_found: "target \<in> set (concat (map nodes_in ks)) \<Longrightarrow> ways h target a i ks \<noteq> None"
proof (induction h target t and h target a i ks rule: way_ways.induct)
  case (3 h target a i k ks)
  then show ?case by (cases "way h target k") auto
qed auto

lemma way_start: "way h target t = Some p \<Longrightarrow> p = [] \<or> hd p = SLASH"
  and ways_start: "ways h target a i ks = Some p \<Longrightarrow> hd p = SLASH"
  by (induction h target t and h target a i ks arbitrary: p and p rule: way_ways.induct) (auto split: if_splits option.splits)

subsection \<open>Walking it\<close>

lemma kind_tests:
  assumes "nodes h a = Some nd" "a \<noteq> NULL"
  shows "cJSON_IsArray h a = Some (kind_of h a = cJSON_Array)" "cJSON_IsObject h a = Some (kind_of h a = cJSON_Object)"
  using assms by (simp_all add: cJSON_IsArray_def cJSON_IsObject_def item_kind_def kind_of_def)

lemma kinds_differ: "cJSON_Array \<noteq> cJSON_Object"
  by (simp add: json_type_defs)

lemma find_member_seg:
  assumes "seg h pv c (map node_of (ks @ k # ks')) NULL" "siblings_named h cs (ks @ k # ks')"
    "NULL \<notin> set (map node_of (ks @ k # ks'))" "q = [] \<or> hd q = SLASH" "0 \<notin> set q" "store_ok h"
  shows "find_member h cs (name_of h (node_of k) @ q) c = Some (node_of k)"
  using assms(1-3)
proof (induction ks arbitrary: pv c)
  have cmp: "compare_pointers h (n_string xd) (name_of h (node_of k) @ q) cs = Some (same_name cs s (name_of h (node_of k)))"
    if "texts h (n_string xd) = Some s" "plain s" "plain (name_of h (node_of k))" for xd :: "'a node" and s
  proof -
    have "token (name_of h (node_of k) @ q) = name_of h (node_of k)"
      using token_append [of "name_of h (node_of k)" q] that(3) assms(4) by (simp add: plain_def)
    then show ?thesis
      using compare_loop_token [of s "name_of h (node_of k) @ q" cs] that assms(5,6) decode_plain [of "name_of h (node_of k)"]
      by (auto simp: compare_pointers_def plain_def store_ok_def)
  qed
  {
    case Nil
    then obtain kd s where kd: "nodes h (node_of k) = Some kd" "texts h (n_string kd) = Some s" "plain s" "c = node_of k" "c \<noteq> NULL"
      by (auto simp: named_plainly_def siblings_named_def)
    then have "name_of h (node_of k) = s" by (simp add: name_of_def)
    then show ?case using kd cmp [OF kd(2,3)] by (subst find_member.simps) (simp add: same_name_def)
  next
    case (Cons x ks)
    obtain xd s where xd: "nodes h (node_of x) = Some xd" "texts h (n_string xd) = Some s" "plain s" "c = node_of x" "c \<noteq> NULL"
        "seg h c (n_next xd) (map node_of (ks @ k # ks')) NULL"
      using Cons.prems by (auto simp: named_plainly_def siblings_named_def)
    have "plain (name_of h (node_of k))" using Cons.prems(2) by (auto simp: named_plainly_def siblings_named_def name_of_def)
    moreover have "name_of h (node_of x) = s" using xd by (simp add: name_of_def)
    then have "\<not> same_name cs s (name_of h (node_of k))" using Cons.prems(2) by (auto simp: siblings_named_def same_name_def split: if_splits)
    moreover have "find_member h cs (name_of h (node_of k) @ q) (n_next xd) = Some (node_of k)"
      using Cons.IH [OF xd(6)] Cons.prems(2,3) by (auto simp: siblings_named_def split: if_splits)
    ultimately show ?case using xd cmp [OF xd(2,3)] by (subst find_member.simps) simp
  }
qed

lemma walk_step:
  assumes "readable h cs (Shape a (ks @ k # ks'))" "q = [] \<or> hd q = SLASH" "0 \<notin> set q" "store_ok h"
  shows "pointer_step h cs a (step_name h a (length ks) (node_of k) @ q) = Some (node_of k)"
    and "next_token (step_name h a (length ks) (node_of k) @ q) = q"
proof -
  obtain nd where nd: "a \<noteq> NULL" "nodes h a = Some nd" "seg h NULL (n_child nd) (map node_of (ks @ k # ks')) NULL"
    "length (ks @ k # ks') < 2 ^ 64" using assms(1) by auto
  have nz: "NULL \<notin> set (map node_of (ks @ k # ks'))" using seg_live [OF nd(3)] assms(4) by (metis store_ok_def)
  have kind: "kind_of h a = cJSON_Array \<or> kind_of h a = cJSON_Object \<and> siblings_named h cs (ks @ k # ks')"
    using assms(1) by simp
  then have "plain (step_name h a (length ks) (node_of k))"
    using decimal_plain by (auto simp: step_name_def named_plainly_def siblings_named_def name_of_def)
  then show "next_token (step_name h a (length ks) (node_of k) @ q) = q"
    using token_append assms(2) by (simp add: plain_def)
  show "pointer_step h cs a (step_name h a (length ks) (node_of k) @ q) = Some (node_of k)"
  proof (cases "kind_of h a = cJSON_Array")
    case True
    have l: "length ks < 2 ^ 64" using nd(4) by simp
    then have "unat (of_nat (length ks) :: 64 word) = length ks" by (simp add: unat_of_nat take_bit_nat_eq_self)
    then show ?thesis using True nd nth_sibling_seg [OF nd(3) nz, of "length ks"] decode_decimal [OF l assms(2)]
      by (simp add: pointer_step_def kind_tests step_name_def utils_get_array_item_def nth_append)
  next
    case False
    with kind have "kind_of h a = cJSON_Object" "siblings_named h cs (ks @ k # ks')" by blast+
    then show ?thesis using False nd find_member_seg [OF nd(3) _ nz assms(2,3,4), of cs]
      by (simp add: pointer_step_def kind_tests step_name_def)
  qed
qed

lemma way_no_nul: "readable h cs t \<Longrightarrow> way h target t = Some p \<Longrightarrow> 0 \<notin> set p"
  and ways_no_nul: "readable h cs (Shape a (ks0 @ ks)) \<Longrightarrow> ways h target a i ks = Some p \<Longrightarrow> 0 \<notin> set p"
proof (induction h target t and h target a i ks arbitrary: p and p ks0 rule: way_ways.induct)
  case (1 h target a kids)
  then show ?case using "1.IH" [of "[]" p] by (auto split: if_splits simp del: readable.simps)
next
  case (3 h target a i k ks)
  show ?case
  proof (cases "way h target k")
    case None
    then show ?thesis using "3.IH"(2) [of "ks0 @ [k]" p] "3.prems" by simp
  next
    case (Some q)
    moreover have "readable h cs k" using "3.prems"(1) by simp
    moreover have "0 \<notin> set (step_name h a i (node_of k))"
      using "3.prems"(1) decimal_plain [of i] by (auto simp: step_name_def plain_def siblings_named_def named_plainly_def name_of_def)
    ultimately show ?thesis using "3.IH"(1) [of q] "3.prems"(2) by auto
  qed
qed simp

lemma way_walk: "store_ok h \<Longrightarrow> readable h cs t \<Longrightarrow> way h target t = Some p \<Longrightarrow> pointer_walk h cs (node_of t) p = Some target"
  and ways_walk: "store_ok h \<Longrightarrow> readable h cs (Shape a (ks0 @ ks)) \<Longrightarrow> ways h target a i ks = Some p \<Longrightarrow> i = length ks0 \<Longrightarrow>
    pointer_walk h cs a p = Some target"
proof (induction h target t and h target a i ks arbitrary: p and p ks0 rule: way_ways.induct)
  case (1 h target a kids)
  then show ?case using "1.IH" [of "[]" p] by (auto split: if_splits simp del: readable.simps)
next
  case (3 h target a i k ks)
  show ?case
  proof (cases "way h target k")
    case None
    then show ?thesis using "3.IH"(2) [of "ks0 @ [k]" p] "3.prems" by simp
  next
    case (Some q)
    have k: "readable h cs k" "a \<noteq> NULL" using "3.prems"(2) by simp_all
    have q: "q = [] \<or> hd q = SLASH" "0 \<notin> set q" using way_start [OF Some] way_no_nul [OF k(1) Some] by blast+
    have "p = SLASH # step_name h a (length ks0) (node_of k) @ q" using "3.prems"(3,4) Some by simp
    moreover have "pointer_walk h cs (node_of k) q = Some target" using "3.IH"(1) [OF "3.prems"(1) k(1) Some] .
    ultimately show ?thesis using walk_step [OF "3.prems"(2) q "3.prems"(1)] k(2) by simp
  qed
qed simp

subsection \<open>Finding it\<close>

text \<open>What a search gives: a new string, or a null pointer and the store as it was.\<close>

definition found :: "'n store \<Rightarrow> bytes option \<Rightarrow> (ptr \<times> 'n store) option \<Rightarrow> bool" where
  "found h p r \<longleftrightarrow> (case p of
     None \<Rightarrow> r = Some (NULL, h)
   | Some s \<Rightarrow> \<exists>tp h'. r = Some (tp, h') \<and> brk h \<le> tp \<and> texts h' tp = Some s \<and> nodes h' = nodes h \<and> store_ok h' \<and>
       brk h \<le> brk h' \<and> grants h' = grants h \<and> (\<forall>a < brk h. texts h' a = texts h a))"

lemma found_copy:
  assumes "store_ok h" "\<And>n. grants h n" "texts h e = Some []"
  shows "found h (Some []) (cJSONUtils_strdup e h)"
proof -
  have "e \<noteq> NULL" using text_nonnull [OF assms(1,3)] .
  then show ?thesis using assms
    by (auto simp: found_def cJSONUtils_strdup_def cJSON_strdup_def asked_def store_ok_def)
qed

lemma text_below: "store_ok h \<Longrightarrow> texts h a = Some s \<Longrightarrow> a < brk h"
  unfolding store_ok_def by (metis linorder_not_le option.distinct(1))

lemma malloc_free:
  assumes "store_ok h1" "grants h1 (requests h1)" "texts h1 tp = Some s" "length t < room" "brk h \<le> tp" "brk h \<le> brk h1"
  shows "\<exists>full h2. do { (full, h') \<leftarrow> malloc_text room t h1; h' \<leftarrow> free_text tp h'; Some (full, h') } = Some (full, h2) \<and>
    brk h \<le> full \<and> texts h2 full = Some t \<and> nodes h2 = nodes h1 \<and> store_ok h2 \<and> brk h \<le> brk h2 \<and> grants h2 = grants h1 \<and>
    (\<forall>a < brk h. texts h2 a = texts h1 a)"
  using assms text_below [OF assms(1,3)]
  by (auto simp: malloc_text_def free_text_def asked_def store_ok_def)

lemma prepend_found:
  assumes "store_ok h" "\<And>n. grants h n" "found h (Some s) r" "readable h cs (Shape a (ks @ k # ks'))"
  shows "found h (Some (SLASH # step_name h a (length ks) (node_of k) @ s))
    (do { (tp, h') \<leftarrow> r; prepend_step a (node_of k) (of_nat (length ks)) tp h' })"
proof -
  obtain tp h1 where r: "r = Some (tp, h1)" "brk h \<le> tp" "texts h1 tp = Some s" "nodes h1 = nodes h" "store_ok h1"
    "brk h \<le> brk h1" "grants h1 = grants h" "\<forall>a < brk h. texts h1 a = texts h a"
    using assms(3) by (auto simp: found_def)
  have a: "a \<noteq> NULL" "nodes h1 a \<noteq> None" "length ks < 2 ^ 64" using assms(4) r(4) by auto
  then obtain nd where nd: "nodes h1 a = Some nd" by blast
  have kinds: "cJSON_IsArray h1 a = Some (kind_of h a = cJSON_Array)" "cJSON_IsObject h1 a = Some (kind_of h a = cJSON_Object)"
    using kind_tests [OF nd a(1)] r(4) by (simp_all add: kind_of_def)
  have kind: "kind_of h a = cJSON_Array \<or> kind_of h a = cJSON_Object \<and> siblings_named h cs (ks @ k # ks')"
    using assms(4) by simp
  have g: "grants h1 (requests h1)" using assms(2) r(7) by simp
  show ?thesis
  proof (cases "kind_of h a = cJSON_Array")
    case True
    have "length ks < 10 ^ 20" using a(3) by simp
    then have "length (decimal (length ks)) \<le> 20" by (rule decimal_length) simp
    moreover have "unat (of_nat (length ks) :: 64 word) = length ks" using a(3) by (simp add: unat_of_nat take_bit_nat_eq_self)
    moreover from calculation have l: "length (SLASH # decimal (length ks) @ s) < length s + 20 + 2" by simp
    ultimately show ?thesis
      using malloc_free [OF r(5) g r(3) l r(2,6)] True r kinds
      by (auto simp: found_def prepend_step_def prepend_index_def step_name_def)
  next
    case False
    with kind have o: "kind_of h a = cJSON_Object" "siblings_named h cs (ks @ k # ks')" by auto
    then obtain kd t where kd: "nodes h (node_of k) = Some kd" "texts h (n_string kd) = Some t" "plain t"
      by (auto simp: siblings_named_def named_plainly_def)
    then have t: "name_of h (node_of k) = t" "texts h1 (n_string kd) = Some t"
      using r(8) text_below [OF assms(1) kd(2)] by (simp_all add: name_of_def)
    have e: "encoded t = Some t" "pointer_encoded_length t = length t" using encoded_plain kd(3) by (auto simp: plain_def)
    have l: "length (SLASH # t @ s) < length s + pointer_encoded_length t + 2" using e(2) by simp
    show ?thesis
      using malloc_free [OF r(5) g r(3) l r(2,6)] False o(1) r kinds kd(1) t e(1)
      by (auto simp: found_def prepend_step_def prepend_name_def step_name_def)
  qed
qed

lemma find_way:
    "store_ok h \<Longrightarrow> (\<And>n. grants h n) \<Longrightarrow> texts h e = Some [] \<Longrightarrow> readable h cs t \<Longrightarrow>
      found h (way h target t)
        (if node_of t = target then cJSONUtils_strdup e h
         else do { nd \<leftarrow> nodes h (node_of t); find_in_children e (node_of t) (n_child nd) 0 target h })"
  and find_ways:
    "store_ok h \<Longrightarrow> (\<And>n. grants h n) \<Longrightarrow> texts h e = Some [] \<Longrightarrow> readable h cs (Shape a (ks0 @ ks)) \<Longrightarrow>
      seg h pv c (map node_of ks) NULL \<Longrightarrow> i = length ks0 \<Longrightarrow>
      found h (ways h target a i ks) (find_in_children e a c (of_nat i) target h)"
proof (induction h target t and h target a i ks arbitrary: and ks0 pv c rule: way_ways.induct)
  case (1 h target a kids)
  show ?case
  proof (cases "a = target")
    case True
    then show ?thesis using found_copy [OF "1.prems"(1,2,3)] by simp
  next
    case False
    obtain nd where "nodes h a = Some nd" "seg h NULL (n_child nd) (map node_of kids) NULL" using "1.prems"(4) by auto
    then show ?thesis using "1.IH" [of "[]" NULL "n_child nd"] False "1.prems" by simp
  qed
next
  case (2 h target a i)
  then show ?case by (subst find_in_children.simps) (simp add: found_def)
next
  case (3 h target a i k ks)
  have k: "readable h cs k" using "3.prems"(4) by simp
  obtain nd where nd: "c = node_of k" "nodes h (node_of k) = Some nd" "seg h c (n_next nd) (map node_of ks) NULL"
    using "3.prems"(5) by auto
  have nz: "c \<noteq> NULL" using k nd(1) by (cases k) simp
  let ?search = "if c = target then cJSONUtils_strdup e h else do { nd \<leftarrow> nodes h c; find_in_children e c (n_child nd) 0 target h }"
  have s: "found h (way h target k) ?search" using "3.IH"(1) [OF "3.prems"(1,2,3) k] by (simp only: nd(1))
  show ?case
  proof (cases "way h target k")
    case None
    then have "?search = Some (NULL, h)" using s by (simp add: found_def)
    moreover have "found h (ways h target a (Suc i) ks) (find_in_children e a (n_next nd) (of_nat (Suc i)) target h)"
      using "3.IH"(2) [OF None "3.prems"(1,2,3), of "ks0 @ [k]" c "n_next nd"] "3.prems"(4,6) nd(3) by simp
    ultimately show ?thesis using None nz nd(1,2) by (subst find_in_children.simps) (simp add: add.commute)
  next
    case (Some q)
    obtain tp h1 where r: "?search = Some (tp, h1)" "brk h \<le> tp" using s Some by (auto simp: found_def)
    have "tp \<noteq> NULL" using r(2) "3.prems"(1) by (auto simp: store_ok_def)
    then have "find_in_children e a c (of_nat i) target h = do { (tp, h') \<leftarrow> ?search; prepend_step a (node_of k) (of_nat (length ks0)) tp h' }"
      using r(1) nz nd(1) "3.prems"(6) by (subst find_in_children.simps) simp
    then show ?thesis
      using prepend_found [OF "3.prems"(1,2) s [unfolded Some] "3.prems"(4)] Some "3.prems"(6) by simp
  qed
qed

text \<open>The same tree, with more strings in the store.\<close>

lemma name_more:
  assumes "nodes h' = nodes h" "\<And>a s. texts h a = Some s \<Longrightarrow> texts h' a = Some s" "named_plainly h b"
  shows "named_plainly h' b" "name_of h' b = name_of h b"
  using assms by (fastforce simp: named_plainly_def name_of_def)+

lemma siblings_more:
  assumes "nodes h' = nodes h" "\<And>a s. texts h a = Some s \<Longrightarrow> texts h' a = Some s" "siblings_named h cs kids"
  shows "siblings_named h' cs kids"
proof -
  have n: "named_plainly h (node_of k)" if "k \<in> set kids" for k using assms(3) that by (simp add: siblings_named_def)
  have "map (\<lambda>k. if cs then name_of h' (node_of k) else map to_lower (name_of h' (node_of k))) kids =
      map (\<lambda>k. if cs then name_of h (node_of k) else map to_lower (name_of h (node_of k))) kids"
    by (rule map_cong [OF refl]) (simp add: name_more(2) [OF assms(1,2) n])
  moreover have "\<forall>k \<in> set kids. named_plainly h' (node_of k)" using name_more(1) [OF assms(1,2) n] by blast
  ultimately show ?thesis using assms(3) unfolding siblings_named_def by (simp only: simp_thms)
qed

lemma readable_more:
  assumes "nodes h' = nodes h" "\<And>a s. texts h a = Some s \<Longrightarrow> texts h' a = Some s"
  shows "readable h cs t \<Longrightarrow> readable h' cs t"
proof (induction t)
  case (Shape a kids)
  have "kind_of h' a = kind_of h a" using assms(1) by (simp add: kind_of_def)
  moreover have "seg h' pv p as q = seg h pv p as q" for pv p as q by (rule seg_frame) (simp add: assms(1))
  ultimately show ?case using Shape siblings_more [OF assms] assms(1) by auto
qed

lemma step_name_more:
  assumes "nodes h' = nodes h" "\<And>a s. texts h a = Some s \<Longrightarrow> texts h' a = Some s" "readable h cs (Shape a (ks0 @ k # ks))"
  shows "step_name h' a i (node_of k) = step_name h a i (node_of k)"
proof -
  have "kind_of h' a = kind_of h a" using assms(1) by (simp add: kind_of_def)
  moreover have "named_plainly h (node_of k)" if "kind_of h a \<noteq> cJSON_Array" using assms(3) that by (auto simp: siblings_named_def)
  ultimately show ?thesis using name_more(2) [OF assms(1,2)] by (auto simp: step_name_def)
qed

lemma way_more:
    "nodes h' = nodes h \<Longrightarrow> (\<And>a s. texts h a = Some s \<Longrightarrow> texts h' a = Some s) \<Longrightarrow> readable h cs t \<Longrightarrow> way h' target t = way h target t"
  and ways_more:
    "nodes h' = nodes h \<Longrightarrow> (\<And>a s. texts h a = Some s \<Longrightarrow> texts h' a = Some s) \<Longrightarrow> readable h cs (Shape a (ks0 @ ks)) \<Longrightarrow>
      ways h' target a i ks = ways h target a i ks"
proof (induction h target t and h target a i ks arbitrary: and ks0 rule: way_ways.induct)
  case (1 h target a kids)
  then show ?case using "1.IH" [of "[]"] by (simp del: readable.simps)
next
  case (3 h target a i k ks)
  have "readable h cs k" using "3.prems"(3) by simp
  then have "way h' target k = way h target k" using "3.IH"(1) "3.prems"(1,2) by blast
  moreover have "ways h' target a (Suc i) ks = ways h target a (Suc i) ks" if "way h target k = None"
    using "3.IH"(2) [OF that "3.prems"(1,2), of "ks0 @ [k]"] "3.prems"(3) by simp
  ultimately show ?case using step_name_more [OF "3.prems"] by (simp split: option.split)
qed simp

lemma find_then_get:
  assumes "store_ok h" "\<And>n. grants h n" "texts h e = Some []" "readable h cs t" "target \<in> set (nodes_in t)" "target \<noteq> NULL"
  shows "\<exists>tp h'. cJSONUtils_FindPointerFromObjectTo e (node_of t) target h = Some (tp, h') \<and> tp \<noteq> NULL \<and>
    nodes h' = nodes h \<and> (\<forall>a < brk h. texts h' a = texts h a) \<and> get_item_from_pointer h' (node_of t) tp cs = Some target"
proof -
  obtain p where p: "way h target t = Some p" using way_found [OF assms(5)] by blast
  have t: "node_of t \<noteq> NULL" using assms(4) by (cases t) simp
  then have "found h (Some p) (cJSONUtils_FindPointerFromObjectTo e (node_of t) target h)"
    using find_way [OF assms(1-4), of target] p assms(6) by (simp add: cJSONUtils_FindPointerFromObjectTo_def)
  then obtain tp h' where r: "cJSONUtils_FindPointerFromObjectTo e (node_of t) target h = Some (tp, h')" "brk h \<le> tp"
    "texts h' tp = Some p" "nodes h' = nodes h" "store_ok h'" "\<forall>a < brk h. texts h' a = texts h a" by (auto simp: found_def)
  have more: "texts h a = Some s \<Longrightarrow> texts h' a = Some s" for a s using r(6) text_below [OF assms(1)] by metis
  have "tp \<noteq> NULL" using r(2) assms(1) by (auto simp: store_ok_def)
  moreover have "pointer_walk h' cs (node_of t) p = Some target"
    using way_walk [OF r(5) readable_more [OF r(4) more assms(4)]] way_more [OF r(4) more assms(4)] p by simp
  ultimately show ?thesis using r by (auto simp: get_item_from_pointer_def)
qed

end
