(* ===== verification/Json_Patch_Spec.thy ===== *)
theory Json_Patch_Spec
  imports Json_Patch_Ops Json_Pointer_Spec
begin

text \<open>
  What patches do to the items: the list operations of \<open>src/lib/cJSON_Utils.c\<close> against those of
  \<open>src/lib/cJSON.c\<close>, paths that are split in place, and the operations \<open>remove\<close> and \<open>add\<close> on arrays.
\<close>

section \<open>Lists\<close>

lemma detach_from_array:
  assumes "children h array ps"
  shows "detach_item_from_array array which h =
    (if unat which < length ps then cJSON_DetachItemViaPointer array (ps ! unat which) h else Some (NULL, h))"
proof -
  obtain pd where h: "array \<noteq> NULL" "NULL \<notin> set ps" "nodes h array = Some pd" "seg h NULL (n_child pd) ps NULL"
    using childrenD [OF assms] by blast
  have "ps ! unat which \<noteq> NULL" if "unat which < length ps" using h(2) nth_mem [OF that] by metis
  then show ?thesis using h nth_sibling_seg [OF h(4,2), of "unat which"]
    by (auto simp: detach_item_from_array_def cJSON_DetachItemViaPointer_def)
qed

lemma walk_siblings_seg:
  "seg h pv p as NULL \<Longrightarrow> NULL \<notin> set as \<Longrightarrow>
   walk_siblings h p i = Some (if i < length as then (as ! i, 0) else (NULL, i - length as))"
proof (induction as arbitrary: pv p i)
  case Nil
  then show ?case by (cases i) auto
next
  case (Cons a as)
  then obtain nd where "p = a" "nodes h a = Some nd" "seg h a (n_next nd) as NULL" by auto
  with Cons show ?case by (cases i) auto
qed

lemma insert_in_array:
  assumes "children h array ps" "detached h item" "item \<notin> set (array # ps)"
  shows "unat which \<le> length ps \<Longrightarrow> \<exists>h'. insert_item_in_array array which item h = Some (True, h') \<and>
      children h' array (take (unat which) ps @ item # drop (unat which) ps) \<and> relinked array (set (item # ps)) h h'"
    and "length ps < unat which \<Longrightarrow> insert_item_in_array array which item h = Some (False, h)"
proof -
  obtain pd where h: "array \<noteq> NULL" "NULL \<notin> set ps" "nodes h array = Some pd" "seg h NULL (n_child pd) ps NULL"
    using childrenD [OF assms(1)] by blast
  note walk = walk_siblings_seg [OF h(4,2), of "unat which"]
  show "length ps < unat which \<Longrightarrow> insert_item_in_array array which item h = Some (False, h)"
    using walk h(3) by (simp add: insert_item_in_array_def)
  assume le: "unat which \<le> length ps"
  show "\<exists>h'. insert_item_in_array array which item h = Some (True, h') \<and>
      children h' array (take (unat which) ps @ item # drop (unat which) ps) \<and> relinked array (set (item # ps)) h h'"
  proof (cases "unat which = length ps")
    case True
    then show ?thesis using walk h(3) add_item_children [OF assms]
      by (auto simp: insert_item_in_array_def cJSON_AddItemToArray_def)
  next
    case False
    then have lt: "unat which < length ps" using le by simp
    define i where "i = unat which"
    have ps: "ps = take i ps @ ps ! i # drop (Suc i) ps" "length (take i ps) = i" using lt by (simp_all add: i_def id_take_nth_drop)
    have c: "ps ! i \<noteq> NULL" using h(2) nth_mem lt by (metis i_def)
    obtain h' where h': "cJSON_InsertItemInArray array (int i) item h = Some h'"
      "children h' array (take i ps @ item # ps ! i # drop (Suc i) ps)" "relinked array (set (item # ps)) h h'"
      using insert_children [of h array "take i ps" "ps ! i" "drop (Suc i) ps" item] assms ps
      by (auto simp: detached_def)
    have "get_array_item h array i = Some (ps ! i)" using get_array_item_children [OF assms(1)] lt by (simp add: i_def)
    then have "insert_item_in_array array which item h = map_option (Pair True) (cJSON_InsertItemInArray array (int i) item h)"
      using walk h(3) lt c unfolding i_def
      by (simp add: insert_item_in_array_def cJSON_InsertItemInArray_def map_conv_bind_option comp_def)
    moreover have "ps ! i # drop (Suc i) ps = drop i ps" using lt by (simp add: Cons_nth_drop_Suc i_def)
    ultimately show ?thesis using h' by (simp add: i_def)
  qed
qed

section \<open>Splitting a path\<close>

lemma split_last_append: "SLASH \<notin> set b \<Longrightarrow> split_last (a @ SLASH # b) = Some (a, b)"
proof -
  assume "SLASH \<notin> set b"
  then have "takeWhile (\<lambda>c. c \<noteq> SLASH) (rev (a @ SLASH # b)) = rev b"
    using token_append [of "rev b" "SLASH # rev a"] by simp
  then show ?thesis by (simp add: split_last_def)
qed

lemma decode_loop_plain:
  "0 \<notin> set s \<Longrightarrow> TILDE \<notin> set s \<Longrightarrow> i \<le> length s \<Longrightarrow> decode_loop (s @ [0]) i i = Some (s @ [0])"
proof (induction "length s - i" arbitrary: i)
  case 0
  then show ?case by (subst decode_loop.simps) (simp add: put_def nth_append list_update_append)
next
  case (Suc n)
  then have "i < length s" by simp
  moreover from this have "s ! i \<noteq> 0" "s ! i \<noteq> TILDE" using Suc.prems(1,2) nth_mem by metis+
  ultimately have i: "i < length s" "(s @ [0]) ! i \<noteq> 0" "(s @ [0]) ! i \<noteq> TILDE"
    by (simp_all add: nth_append)
  have "decode_loop (s @ [0]) (i + 1) (i + 1) = Some (s @ [0])" using Suc.hyps Suc.prems i(1) by simp
  then show ?case using i by (subst decode_loop.simps) simp
qed

lemma before_nul: "0 \<notin> set s \<Longrightarrow> takeWhile (\<lambda>c. c \<noteq> 0) (s @ [0 :: byte]) = s"
  by (induction s) auto

lemma decode_inplace_plain: "0 \<notin> set s \<Longrightarrow> TILDE \<notin> set s \<Longrightarrow> decode_pointer_inplace s = Some s"
  using decode_loop_plain [of s 0] before_nul [of s] by (simp add: decode_pointer_inplace_def)

text \<open>A path to the item \<open>array\<close> in a tree, followed by an index.\<close>

definition block_store :: "'n store \<Rightarrow> bytes \<Rightarrow> bytes \<Rightarrow> 'n store" where
  "block_store h a b = h\<lparr>texts := (texts h)(brk h \<mapsto> a, brk h + 1 \<mapsto> b), brk := brk h + 2, requests := requests h + 1\<rparr>"

definition base_store :: "'n store \<Rightarrow> 'n store" where
  "base_store h = h\<lparr>brk := brk h + 2, requests := requests h + 1\<rparr>"

lemma dup_path:
  assumes "store_ok h" "grants h (requests h)" "texts h path = Some p"
  shows "cJSONUtils_strdup path h = Some (brk h, asked (h\<lparr>texts := (texts h)(brk h \<mapsto> p), brk := brk h + 1\<rparr>))"
  using assms text_nonnull [OF assms(1,3)] by (simp add: cJSONUtils_strdup_def cJSON_strdup_def)

lemma block_more: "store_ok h \<Longrightarrow> texts h c = Some s \<Longrightarrow> texts (block_store h a b) c = Some s"
  using text_below [of h c s] by (simp add: block_store_def)

lemma block_ok: "store_ok h \<Longrightarrow> store_ok (block_store h a b)" "store_ok h \<Longrightarrow> store_ok (base_store h)"
  by (auto simp: block_store_def base_store_def store_ok_def)

lemma open_index:
  assumes "store_ok h" "readable h cs t" "way h array t = Some p" "texts h path = Some (p @ SLASH # decimal i)"
  shows "open_path (node_of t) (brk h) cs (asked (h\<lparr>texts := (texts h)(brk h \<mapsto> p @ SLASH # decimal i), brk := brk h + 1\<rparr>)) =
    Some (brk h + 1, array, block_store h p (decimal i))"
proof -
  have plain: "SLASH \<notin> set (decimal i)" "TILDE \<notin> set (decimal i)" "0 \<notin> set (decimal i)"
    using decimal_plain [of i] by (simp_all add: plain_def)
  let ?b = "block_store h p (decimal i)"
  have "pointer_walk ?b cs (node_of t) p = Some array"
    using way_walk [OF block_ok(1) [OF assms(1)] readable_more [OF _ block_more [OF assms(1)] assms(2)]]
      way_more [OF _ block_more [OF assms(1)] assms(2)] assms(3) by (simp add: block_store_def)
  moreover have "brk h \<noteq> NULL" using assms(1) by (simp add: store_ok_def)
  ultimately have g: "get_item_from_pointer ?b (node_of t) (brk h) cs = Some array"
    by (simp add: get_item_from_pointer_def block_store_def)
  have b: "split_block (brk h) p (decimal i) (asked (h\<lparr>texts := (texts h)(brk h \<mapsto> p @ SLASH # decimal i), brk := brk h + 1\<rparr>)) = (brk h + 1, ?b)"
    by (simp add: split_block_def asked_def block_store_def fun_upd_twist)
  have "?b\<lparr>texts := (texts ?b)(brk h + 1 \<mapsto> decimal i)\<rparr> = ?b" by (simp add: block_store_def)
  then show ?thesis using g b split_last_append [OF plain(1)] decode_inplace_plain [OF plain(3,2)]
    by (simp add: open_path_def asked_def Let_def)
qed

section \<open>Detaching at a path\<close>

lemma children_same: "nodes h' = nodes h \<Longrightarrow> store_ok h' \<Longrightarrow> children h array ps \<Longrightarrow> children h' array ps"
  using seg_frame [of ps h' h] by (simp add: children_def)

lemma detached_same: "nodes h' = nodes h \<Longrightarrow> detached h' = detached h"
  by (simp add: detached_def fun_eq_iff)

lemma kind_same: "nodes h' = nodes h \<Longrightarrow> kind_of h' = kind_of h"
  by (simp add: kind_of_def fun_eq_iff)

lemma is_array:
  assumes "children h array ps" "kind_of h array = cJSON_Array"
  shows "cJSON_IsArray h array = Some True"
  using childrenD [OF assms(1)] kind_tests(1) assms(2) by metis

text \<open>Freeing the copy of the path gives back the strings that were there before.\<close>

lemma free_copy:
  assumes "store_ok h" "texts h' = texts (block_store h a b)" "brk h' = brk (block_store h a b)" "store_ok h'"
  shows "free_block (brk h) (brk h + 1) h' = Some (h'\<lparr>texts := texts h\<rparr>)" "store_ok (h'\<lparr>texts := texts h\<rparr>)"
proof -
  have n: "texts h (brk h) = None" "texts h (brk h + 1) = None" "0 < brk h" using assms(1) by (auto simp: store_ok_def)
  have "(texts h')(brk h + 1 := None, brk h := None) = texts h"
    using n(1,2) assms(2) by (auto simp: block_store_def fun_eq_iff)
  then show "free_block (brk h) (brk h + 1) h' = Some (h'\<lparr>texts := texts h\<rparr>)"
    using n(3) assms(2) by (simp add: free_block_def free_text_def block_store_def)
  show "store_ok (h'\<lparr>texts := texts h\<rparr>)"
    using assms(1,3,4) by (auto simp: store_ok_def block_store_def)
qed

lemma relinked_block:
  assumes "relinked array A (block_store h a b) h'"
  shows "relinked array A (base_store h) (h'\<lparr>texts := texts h\<rparr>)"
  using assms by (simp add: relinked_def block_store_def base_store_def data_of_def fun_eq_iff)

lemma detach_path_index:
  assumes "\<And>n. grants h n" "readable h cs t" "way h array t = Some p" "texts h path = Some (p @ SLASH # decimal i)"
    and "children h array ps" "kind_of h array = cJSON_Array" "i < 2 ^ 64"
  shows "i < length ps \<Longrightarrow> \<exists>h'. detach_path (node_of t) path cs h = Some (ps ! i, h') \<and>
      children h' array (take i ps @ drop (Suc i) ps) \<and> detached h' (ps ! i) \<and> relinked array (set ps) (base_store h) h'"
    and "length ps \<le> i \<Longrightarrow> detach_path (node_of t) path cs h = Some (NULL, base_store h)"
proof -
  let ?B = "block_store h p (decimal i)" and ?A = "asked (h\<lparr>texts := (texts h)(brk h \<mapsto> p @ SLASH # decimal i), brk := brk h + 1\<rparr>)"
  have ok: "store_ok h" using assms(5) by (simp add: children_def)
  then have b: "brk h \<noteq> NULL" "store_ok ?B" using block_ok by (auto simp: store_ok_def)
  have same: "nodes ?B = nodes h" by (simp add: block_store_def)
  have B: "children ?B array ps" "cJSON_IsArray ?B array = Some True" "texts ?B (brk h + 1) = Some (decimal i)"
    using children_same [OF same b(2) assms(5)] is_array [OF children_same [OF same b(2) assms(5)]] assms(6) kind_same [OF same]
    by (simp_all add: block_store_def)
  have "decode_array_index_from_pointer (decimal i) = Some (of_nat i)" using decode_decimal [OF assms(7), of "[]"] by simp
  moreover have "unat (of_nat i :: 64 word) = i" using assms(7) by (simp add: unat_of_nat take_bit_nat_eq_self)
  ultimately have child: "detach_child array (brk h + 1) ?B =
      (if i < length ps then cJSON_DetachItemViaPointer array (ps ! i) ?B else Some (NULL, ?B))"
    using B detach_from_array [OF B(1)] by (simp add: detach_child_def)
  have "SLASH \<notin> set (decimal i)" using decimal_plain [of i] by (simp add: plain_def)
  then have "split_last (p @ SLASH # decimal i) = Some (p, decimal i)" by (rule split_last_append)
  then have run: "detach_path (node_of t) path cs h =
      do { (item, h1) \<leftarrow> detach_child array (brk h + 1) ?B; h1 \<leftarrow> free_block (brk h) (brk h + 1) h1; Some (item, h1) }"
    using dup_path [OF ok assms(1,4)] open_index [OF ok assms(2,3,4)] b(1)
    by (simp add: detach_path_def asked_def)
  show "length ps \<le> i \<Longrightarrow> detach_path (node_of t) path cs h = Some (NULL, base_store h)"
    using run child free_copy(1) [OF ok refl refl b(2)] by (simp add: block_store_def base_store_def)
  assume i: "i < length ps"
  have ps: "ps = take i ps @ ps ! i # drop (Suc i) ps" using i by (simp add: id_take_nth_drop)
  obtain h1 where h1: "cJSON_DetachItemViaPointer array (ps ! i) ?B = Some (ps ! i, h1)"
    "children h1 array (take i ps @ drop (Suc i) ps)" "detached h1 (ps ! i)" "relinked array (set ps) ?B h1"
    using detach_children [of ?B array "take i ps" "ps ! i" "drop (Suc i) ps"] B(1) ps by metis
  have f: "texts h1 = texts ?B" "brk h1 = brk ?B" "store_ok h1" using h1(2,4) by (simp_all add: relinked_def children_def)
  let ?C = "h1\<lparr>texts := texts h\<rparr>"
  have C: "nodes ?C = nodes h1" "store_ok ?C" using free_copy(2) [OF ok f] by simp_all
  have "detach_path (node_of t) path cs h = Some (ps ! i, ?C)"
    using run child i h1(1) free_copy(1) [OF ok f] by simp
  moreover have "children ?C array (take i ps @ drop (Suc i) ps)" using children_same [OF C h1(2)] .
  moreover have "detached ?C (ps ! i)" using detached_same [OF C(1)] h1(3) by simp
  ultimately show "\<exists>h'. detach_path (node_of t) path cs h = Some (ps ! i, h') \<and>
      children h' array (take i ps @ drop (Suc i) ps) \<and> detached h' (ps ! i) \<and> relinked array (set ps) (base_store h) h'"
    using relinked_block [OF h1(4)] by blast
qed

section \<open>Patches of arrays\<close>

lemma own_block:
  assumes "store_ok h" "own_item h item kids A"
  shows "own_item (block_store h a b) item kids A" "item_texts (block_store h a b) item kids = item_texts h item kids"
    "brk h \<notin> item_texts h item kids" "brk h + 1 \<notin> item_texts h item kids"
proof -
  have n: "nodes (block_store h a b) = nodes h" by (simp add: block_store_def)
  have t: "text_addrs (block_store h a b) ss = text_addrs h ss" for ss by (rule text_addrs_frame) (simp add: n)
  have "owned (block_store h a b) p ss = owned h p ss" for p ss by (rule owned_frame) (simp add: n)
  moreover have live: "texts h s \<noteq> None" if "s \<in> set (text_addrs h [Shape item kids])" for s
    using assms(2) that by (auto simp: own_item_def exclusive_def)
  then have "texts (block_store h a b) s \<noteq> None" if "s \<in> set (text_addrs h [Shape item kids])" for s
    using that block_more [OF assms(1)] by blast
  ultimately show "own_item (block_store h a b) item kids A"
    using assms(2) unfolding own_item_def exclusive_def n t by auto
  show "item_texts (block_store h a b) item kids = item_texts h item kids" by (simp only: item_texts_def t)
  show "brk h \<notin> item_texts h item kids" "brk h + 1 \<notin> item_texts h item kids"
    using live assms(1) unfolding item_texts_def store_ok_def by (metis le_add1 order_refl)+
qed

lemma free_wiped:
  assumes "store_ok h" "brk h \<notin> T" "brk h + 1 \<notin> T"
  shows "free_block (brk h) (brk h + 1) (wiped A T (block_store h a b)) = Some (wiped A T (base_store h))"
proof -
  have n: "texts h (brk h) = None" "texts h (brk h + 1) = None" using assms(1) by (auto simp: store_ok_def)
  then show ?thesis using assms(2,3)
    by (auto simp: free_block_def free_text_def wiped_def block_store_def base_store_def fun_eq_iff intro!: store.equality)
qed

lemma own_base: "own_item (base_store h) item kids A = own_item h item kids A" "item_texts (base_store h) item kids = item_texts h item kids"
proof -
  have n: "nodes (base_store h) = nodes h" "texts (base_store h) = texts h" by (simp_all add: base_store_def)
  have t: "text_addrs (base_store h) ss = text_addrs h ss" for ss by (rule text_addrs_frame) (simp add: n)
  have "owned (base_store h) p ss = owned h p ss" for p ss by (rule owned_frame) (simp add: n)
  then show "own_item (base_store h) item kids A = own_item h item kids A"
    unfolding own_item_def exclusive_def n t by simp
  show "item_texts (base_store h) item kids = item_texts h item kids" by (simp only: item_texts_def t)
qed

text \<open>The state after an item has gone from the list of an array: the rest of the store is as it was.\<close>

definition removed :: "ptr \<Rightarrow> ptr list \<Rightarrow> ptr \<Rightarrow> shape list \<Rightarrow> 'n store \<Rightarrow> 'n store \<Rightarrow> bool" where
  "removed array ps item kids h h' \<longleftrightarrow> children h' array (remove1 item ps) \<and>
     (\<forall>a. a \<notin> set (array # ps) \<longrightarrow> nodes h' a = (if a \<in> item_nodes item kids then None else nodes h a)) \<and>
     nodes h' item = None \<and> (\<forall>s. texts h' s = (if s \<in> item_texts h item kids then None else texts h s)) \<and>
     (\<forall>a \<in> set ps. a \<noteq> item \<longrightarrow> data_of array h' a = data_of array h a)"

lemma delete_at_path:
  assumes "\<And>n. grants h n" "readable h cs t" "way h array t = Some p" "texts h path = Some (p @ SLASH # decimal i)"
    and "children h array ps" "kind_of h array = cJSON_Array" "i < 2 ^ 64" "i < length ps"
    and "own_item h (ps ! i) kids (set (array # ps))"
  shows "\<exists>h1 h'. detach_path (node_of t) path cs h = Some (ps ! i, h1) \<and> ps ! i \<noteq> NULL \<and> cJSON_Delete (ps ! i) h1 = Some h' \<and>
    removed array ps (ps ! i) kids h h'"
proof -
  obtain h1 where h1: "detach_path (node_of t) path cs h = Some (ps ! i, h1)" "children h1 array (take i ps @ drop (Suc i) ps)"
    "detached h1 (ps ! i)" "relinked array (set ps) (base_store h) h1"
    using detach_path_index(1) [OF assms(1-7,8)] by blast
  have d: "distinct (array # ps)" "NULL \<notin> set ps" using childrenD [OF assms(5)] by (auto simp: children_def)
  have m: "ps ! i \<in> set ps" using nth_mem [OF assms(8)] .
  then have item: "ps ! i \<noteq> array" "ps ! i \<noteq> NULL" "ps ! i \<in> set ps" using d by (metis distinct.simps(2))+
  have split: "ps = take i ps @ ps ! i # drop (Suc i) ps" using assms(8) by (simp add: id_take_nth_drop)
  have "ps ! i \<notin> set (take i ps)" using d split by (metis distinct.simps(2) distinct_append not_distinct_conv_prefix)
  then have r: "remove1 (ps ! i) ps = take i ps @ drop (Suc i) ps" by (subst (2) split) (simp add: remove1_append)
  let ?h' = "wiped (item_nodes (ps ! i) kids) (item_texts h (ps ! i) kids) h1"
  have own: "own_item (base_store h) (ps ! i) kids (insert array (set ps))" using assms(9) by (simp add: own_base)
  have del: "cJSON_Delete (ps ! i) h1 = Some ?h'"
    using delete_detached [OF own h1(4,3) item(1,2)] by (simp add: own_base)
  have kids: "set (node_addrs kids) \<inter> set (array # ps) = {}" using assms(9) by (simp add: own_item_def)
  then have apart: "item_nodes (ps ! i) kids \<inter> set (array # remove1 (ps ! i) ps) = {}"
    using d item by (auto simp: item_nodes_def)
  have rel: "texts h1 = texts h" "\<And>a. a \<notin> set (array # ps) \<Longrightarrow> nodes h1 a = nodes h a" "\<And>a. data_of array h1 a = data_of array h a"
    using h1(4) by (auto simp: relinked_def base_store_def data_of_def)
  have "children ?h' array (remove1 (ps ! i) ps)" using wiped_children [OF h1(2) [folded r] apart] .
  moreover have "nodes ?h' a = (if a \<in> item_nodes (ps ! i) kids then None else nodes h a)" if "a \<notin> set (array # ps)" for a
    using rel(2) [OF that] by simp
  moreover have "data_of array ?h' a = data_of array h a" if "a \<in> set ps" "a \<noteq> ps ! i" for a
    using rel(3) [of a] kids that by (auto simp: data_of_def item_nodes_def)
  moreover have "nodes ?h' (ps ! i) = None" by (simp add: item_nodes_def)
  ultimately have "removed array ps (ps ! i) kids h ?h'" using rel(1) by (simp add: removed_def)
  then show ?thesis using h1(1) del item(2) by blast
qed

text \<open>A patch with a given operation and path.\<close>

definition patch_is :: "literals \<Rightarrow> 'n store \<Rightarrow> ptr \<Rightarrow> bool \<Rightarrow> patch_operation \<Rightarrow> ptr \<Rightarrow> bool" where
  "patch_is L h patch cs opcode path \<longleftrightarrow> decode_patch_operation L h patch cs = Some opcode \<and>
     (\<exists>item nd. utils_get_object_item h patch (L ''path'') cs = Some item \<and> nodes h item = Some nd \<and>
        cJSON_IsString h item = Some True \<and> n_valuestring nd = path)"

lemma apply_patch_at:
  assumes "patch_is L h patch cs opcode path" "texts h path = Some s" "s \<noteq> []" "opcode \<noteq> INVALID" "opcode \<noteq> TEST"
  shows "apply_patch D k L object patch cs h = patch_at D k L object patch path opcode cs h"
  using assms by (auto simp: patch_is_def apply_patch_def)

lemma remove_at:
  assumes "patch_is L h patch cs REMOVE path"
    and "\<And>n. grants h n" "readable h cs t" "way h array t = Some p" "texts h path = Some (p @ SLASH # decimal i)"
    and "children h array ps" "kind_of h array = cJSON_Array" "i < 2 ^ 64" "i < length ps"
    and "own_item h (ps ! i) kids (set (array # ps))"
  shows "\<exists>h'. apply_patch D k L (node_of t) patch cs h = Some (0, h') \<and> removed array ps (ps ! i) kids h h'"
  using apply_patch_at [OF assms(1,5)] delete_at_path [OF assms(2-10)] by (auto simp: patch_at_def)

lemma remove_missing:
  assumes "patch_is L h patch cs opcode path" "opcode = REMOVE \<or> opcode = REPLACE"
    and "\<And>n. grants h n" "readable h cs t" "way h array t = Some p" "texts h path = Some (p @ SLASH # decimal i)"
    and "children h array ps" "kind_of h array = cJSON_Array" "i < 2 ^ 64" "length ps \<le> i"
  shows "apply_patch D k L (node_of t) patch cs h = Some (13, base_store h)"
  using apply_patch_at [OF assms(1,6)] detach_path_index(2) [OF assms(3-9,10)] assms(2) by (auto simp: patch_at_def)

lemma add_at:
  assumes "\<And>n. grants h n" "readable h cs t" "way h array t = Some p" "texts h path = Some (p @ SLASH # decimal i)"
    and "children h array ps" "kind_of h array = cJSON_Array" "i < 2 ^ 64"
    and "detached h v" "v \<notin> set (array # ps)"
  shows "i \<le> length ps \<Longrightarrow> \<exists>h'. patch_add (node_of t) path v cs h = Some (0, h') \<and>
      children h' array (take i ps @ v # drop i ps) \<and> relinked array (set (v # ps)) (base_store h) h'"
    and "length ps < i \<Longrightarrow> own_item h v kids (set (array # ps)) \<Longrightarrow>
      patch_add (node_of t) path v cs h = Some (10, wiped (item_nodes v kids) (item_texts h v kids) (base_store h))"
proof -
  let ?B = "block_store h p (decimal i)"
  have ok: "store_ok h" using assms(5) by (simp add: children_def)
  then have b: "brk h \<noteq> NULL" "store_ok ?B" using block_ok by (auto simp: store_ok_def)
  have same: "nodes ?B = nodes h" by (simp add: block_store_def)
  have B: "children ?B array ps" "cJSON_IsArray ?B array = Some True" "texts ?B (brk h + 1) = Some (decimal i)"
    using children_same [OF same b(2) assms(5)] is_array [OF children_same [OF same b(2) assms(5)]] assms(6) kind_same [OF same]
    by (simp_all add: block_store_def)
  have v: "detached ?B v" using assms(8) by (simp only: detached_same [OF same])
  have a: "array \<noteq> NULL" using childrenD [OF assms(5)] by blast
  have "decode_array_index_from_pointer (decimal i) = Some (of_nat i)" using decode_decimal [OF assms(7), of "[]"] by simp
  moreover have i: "unat (of_nat i :: 64 word) = i" using assms(7) by (simp add: unat_of_nat take_bit_nat_eq_self)
  moreover have "decimal i \<noteq> ascii ''-''"
  proof
    assume "decimal i = ascii ''-''"
    then have "is_digit (of_nat (of_char CHR ''-''))" using decimal_digits [of i] by (simp add: ascii_def)
    then show False by (simp add: is_digit_def)
  qed
  ultimately have ins: "patch_insert array (brk h + 1) v cs ?B =
      do { (ok, h1) \<leftarrow> insert_item_in_array array (of_nat i) v ?B; Some (if ok then 0 else 10, h1) }"
    using B(2,3) a by (simp add: patch_insert_def)
  have run: "patch_add (node_of t) path v cs h = do {
      (status, h1) \<leftarrow> patch_insert array (brk h + 1) v cs ?B;
      h1 \<leftarrow> (if status \<noteq> 0 then cJSON_Delete v h1 else Some h1);
      h1 \<leftarrow> free_block (brk h) (brk h + 1) h1;
      Some (status, h1) }"
    using dup_path [OF ok assms(1,4)] open_index [OF ok assms(2,3,4)] b(1) by (simp add: patch_add_def)
  show "\<exists>h'. patch_add (node_of t) path v cs h = Some (0, h') \<and>
      children h' array (take i ps @ v # drop i ps) \<and> relinked array (set (v # ps)) (base_store h) h'" if le: "i \<le> length ps"
  proof -
    obtain h1 where h1: "insert_item_in_array array (of_nat i) v ?B = Some (True, h1)"
      "children h1 array (take i ps @ v # drop i ps)" "relinked array (set (v # ps)) ?B h1"
      using insert_in_array(1) [OF B(1) v assms(9), of "of_nat i"] le by (auto simp: i)
    have f: "texts h1 = texts ?B" "brk h1 = brk ?B" "store_ok h1" using h1(2,3) by (simp_all add: relinked_def children_def)
    let ?C = "h1\<lparr>texts := texts h\<rparr>"
    have C: "nodes ?C = nodes h1" "store_ok ?C" using free_copy(2) [OF ok f] by simp_all
    have "patch_add (node_of t) path v cs h = Some (0, ?C)"
      using run ins h1(1) free_copy(1) [OF ok f] by simp
    then show ?thesis using children_same [OF C h1(2)] relinked_block [OF h1(3)] by blast
  qed
  assume gt: "length ps < i" and own: "own_item h v kids (set (array # ps))"
  have "insert_item_in_array array (of_nat i) v ?B = Some (False, ?B)"
    using insert_in_array(2) [OF B(1) v assms(9), of "of_nat i"] gt by (simp add: i)
  moreover have n: "v \<noteq> array" "v \<noteq> NULL" using assms(8,9) live_nonnull [OF ok] by (auto simp: detached_def)
  have "cJSON_Delete v ?B = Some (wiped (item_nodes v kids) (item_texts h v kids) ?B)"
    using delete_detached [of ?B v kids array "set ps" ?B] own_block(1,2) [OF ok own] v n by simp
  ultimately show "patch_add (node_of t) path v cs h = Some (10, wiped (item_nodes v kids) (item_texts h v kids) (base_store h))"
    using run ins free_wiped [OF ok own_block(3,4) [OF ok own]] by simp
qed

end
