(* ===== verification/Json_Sort.thy ===== *)
theory Json_Sort
  imports Json_Patch Json_Lists "HOL-Library.Multiset" "HOL-Library.List_Lexorder"
begin

text \<open>
  \<open>sort_list\<close> of \<open>src/lib/cJSON_Utils.c\<close> against the merge of lists of addresses: the links it
  leaves, the order of the names, and what it does not touch.
\<close>

section \<open>Names in order\<close>

text \<open>The name of an item, without its case; lists of bytes are compared lexicographically.\<close>

definition name_key :: "'n store \<Rightarrow> ptr \<Rightarrow> bytes" where
  "name_key h p = map to_lower (case nodes h p of None \<Rightarrow> [] | Some nd \<Rightarrow> (case texts h (n_string nd) of None \<Rightarrow> [] | Some t \<Rightarrow> t))"

lemma to_lower_0: "to_lower a = 0 \<longleftrightarrow> a = 0"
  by (auto simp: to_lower_def word_le_nat_alt word_unat_eq_iff unat_word_ariths split: if_splits)

lemma case_insensitive_less:
  "0 \<notin> set s \<Longrightarrow> 0 \<notin> set t \<Longrightarrow> case_insensitive_loop s t < 0 \<longleftrightarrow> map to_lower s < map to_lower t"
proof (induction s t rule: case_insensitive_loop.induct)
  case (2 b bs)
  then have "to_lower b \<noteq> 0" by (auto simp: to_lower_0)
  then have "0 < uint (to_lower b)" by (metis order_le_less uint_0_iff uint_ge_0)
  then show ?case by simp
next
  case (3 a as)
  have "0 \<le> uint (to_lower a)" by simp
  then show ?case by simp
next
  case (4 a as b bs)
  then show ?case by (auto simp: word_less_def word_uint_eq_iff)
qed simp

lemma compare_names:
  assumes "nodes h a = Some ad" "nodes h b = Some bd" "names_ok h [a, b]" "store_ok h"
  shows "\<exists>d. compare_strings h (n_string ad) (n_string bd) cs = Some d \<and> (\<not> cs \<longrightarrow> (d < 0) = (name_key h a < name_key h b))"
proof -
  obtain s t where s: "texts h (n_string ad) = Some s" "0 \<notin> set s" and t: "texts h (n_string bd) = Some t" "0 \<notin> set t"
    using assms(1-3) by (auto simp: names_ok_def)
  have "n_string ad \<noteq> NULL" "n_string bd \<noteq> NULL" using text_nonnull [OF assms(4)] s(1) t(1) by blast+
  moreover have "name_key h a = map to_lower s" "name_key h b = map to_lower t"
    using assms(1,2) s(1) t(1) by (simp_all add: name_key_def)
  moreover have "s = t" if "n_string ad = n_string bd" using that s(1) t(1) by simp
  ultimately show ?thesis using s t case_insensitive_less [OF s(2) t(2)]
    by (auto simp: compare_strings_def strcmp_def)
qed

text \<open>What relinking leaves alone.\<close>

lemma relinked_node:
  assumes "relinked NULL A h h'" "store_ok h"
  shows "(nodes h' p = None) = (nodes h p = None)" "nodes h p = Some nd \<Longrightarrow> \<exists>nd'. nodes h' p = Some nd' \<and> n_string nd' = n_string nd"
proof -
  have d: "data_of NULL h' p = data_of NULL h p" using assms(1) by (simp add: relinked_def)
  have "nodes h NULL = None" using assms(2) by (simp add: store_ok_def)
  with d show "(nodes h' p = None) = (nodes h p = None)" by (cases "p = NULL") (auto simp: data_of_def)
  show "nodes h p = Some nd \<Longrightarrow> \<exists>nd'. nodes h' p = Some nd' \<and> n_string nd' = n_string nd"
  proof -
    assume n: "nodes h p = Some nd"
    then have "p \<noteq> NULL" using live_nonnull [OF assms(2)] by simp
    then obtain nd' where nd': "nodes h' p = Some nd'" "unlink False nd' = unlink False nd"
      using d n by (auto simp: data_of_def)
    have "n_string (unlink False nd') = n_string (unlink False nd)" using nd'(2) by (rule arg_cong)
    then show ?thesis using nd'(1) by (simp add: unlink_def)
  qed
qed

lemma relinked_ok: "relinked NULL A h h' \<Longrightarrow> store_ok h \<Longrightarrow> store_ok h'"
  using relinked_node(1) [of A h h'] by (auto simp: store_ok_def relinked_def)

lemma relinked_names: "relinked NULL A h h' \<Longrightarrow> store_ok h \<Longrightarrow> names_ok h ps \<Longrightarrow> names_ok h' ps"
  using relinked_node(2) [of A h h'] unfolding names_ok_def by (fastforce simp: relinked_def)

lemma names_ok_subset: "names_ok h ps \<Longrightarrow> set qs \<subseteq> set ps \<Longrightarrow> names_ok h qs"
  by (auto simp: names_ok_def)

lemma relinked_key: "relinked NULL A h h' \<Longrightarrow> store_ok h \<Longrightarrow> name_key h' p = name_key h p"
  using relinked_node [of A h h' p] by (cases "nodes h p") (auto simp: name_key_def relinked_def)

lemma relinked_trans:
  assumes "relinked array A h h'" "relinked array B h' h''" "A \<subseteq> C" "B \<subseteq> C"
  shows "relinked array C h h''"
  using assms unfolding relinked_def by (metis subsetD)

section \<open>The loops\<close>

text \<open>The pointer to the item with an index, or null.\<close>

definition nth_ptr :: "ptr list \<Rightarrow> nat \<Rightarrow> ptr" where
  "nth_ptr ps i = (if i < length ps then ps ! i else NULL)"

lemma seg_nth:
  assumes "seg h pv p ps NULL" "i < length ps"
  shows "\<exists>nd. nodes h (ps ! i) = Some nd \<and> n_next nd = nth_ptr ps (Suc i) \<and> n_prev nd = (pv # ps) ! i"
  using assms
proof (induction ps arbitrary: pv p i)
  case (Cons a ps)
  then obtain nd where nd: "nodes h a = Some nd" "n_prev nd = pv" "seg h a (n_next nd) ps NULL" by auto
  show ?case
  proof (cases i)
    case 0
    then show ?thesis using nd seg_start [OF nd(3)] by (cases ps) (auto simp: nth_ptr_def)
  next
    case (Suc j)
    then show ?thesis using Cons.IH [OF nd(3), of j] Cons.prems(2) by (auto simp: nth_ptr_def)
  qed
qed simp

lemma sorted_already_seg:
  assumes "store_ok h"
  shows "seg h pv p ps NULL \<Longrightarrow> ps \<noteq> [] \<Longrightarrow> NULL \<notin> set ps \<Longrightarrow> names_ok h ps \<Longrightarrow>
    \<exists>b. sorted_already h cs p = Some b \<and> (b \<and> \<not> cs \<longrightarrow> sorted (map (name_key h) ps))"
proof (induction ps arbitrary: pv p)
  case (Cons a ps)
  then obtain nd where nd: "p = a" "nodes h a = Some nd" "seg h a (n_next nd) ps NULL" by auto
  show ?case
  proof (cases ps)
    case Nil
    then show ?thesis using nd by (subst sorted_already.simps) auto
  next
    case (Cons b qs)
    then obtain bd where bd: "n_next nd = b" "nodes h b = Some bd" "b \<noteq> NULL" using nd(3) Cons.prems(3) by auto
    have "names_ok h [a, b]" "names_ok h ps" using Cons.prems(4) Cons by (simp_all add: names_ok_def)
    from compare_names [OF nd(2) bd(2) this(1) assms, of cs] obtain d where
      d: "compare_strings h (n_string nd) (n_string bd) cs = Some d" "\<not> cs \<longrightarrow> (d < 0) = (name_key h a < name_key h b)" by blast
    obtain ok where ok: "sorted_already h cs (n_next nd) = Some ok" "ok \<and> \<not> cs \<longrightarrow> sorted (map (name_key h) ps)"
      using Cons.IH [OF nd(3) _ _ \<open>names_ok h ps\<close>] Cons Cons.prems(3) by auto
    have "sorted_already h cs p = Some (d < 0 \<and> ok)"
      using nd bd d(1) ok(1) by (subst sorted_already.simps) simp
    moreover have "sorted (map (name_key h) (a # ps))" if "(d < 0 \<and> ok) \<and> \<not> cs"
      using that d(2) ok(2) Cons by (auto intro: order_trans order.strict_implies_order)
    ultimately show ?thesis by blast
  qed
qed simp

lemma find_middle_seg:
  assumes "seg h pv p ps NULL" "NULL \<notin> set ps" "2 * i \<le> length ps + 1"
  shows "find_middle h (nth_ptr ps i) (nth_ptr ps (2 * i)) = Some (nth_ptr ps ((length ps + 1) div 2))"
  using assms(3)
proof (induction "length ps - i" arbitrary: i rule: less_induct)
  case less
  have nz: "nth_ptr ps j \<noteq> NULL" if "j < length ps" for j
    using assms(2) nth_mem [OF that] that by (metis nth_ptr_def)
  show ?case
  proof (cases "2 * i < length ps")
    case False
    then have "nth_ptr ps (2 * i) = NULL" "i = (length ps + 1) div 2" using less.prems by (auto simp: nth_ptr_def)
    then show ?thesis by (subst find_middle.simps) simp
  next
    case True
    then have i: "i < length ps" "length ps - Suc i < length ps - i" by simp_all
    obtain sd where sd: "nodes h (nth_ptr ps i) = Some sd" "n_next sd = nth_ptr ps (Suc i)"
      using seg_nth [OF assms(1) i(1)] i(1) by (auto simp: nth_ptr_def)
    obtain cd where cd: "nodes h (nth_ptr ps (2 * i)) = Some cd" "n_next cd = nth_ptr ps (Suc (2 * i))"
      using seg_nth [OF assms(1) True] True by (auto simp: nth_ptr_def)
    show ?thesis
    proof (cases "Suc (2 * i) < length ps")
      case False
      then have "nth_ptr ps (Suc (2 * i)) = NULL" "length ps = Suc (2 * i)" using True by (auto simp: nth_ptr_def)
      moreover from this have "find_middle h (nth_ptr ps (Suc i)) NULL = Some (nth_ptr ps (Suc i))" by (subst find_middle.simps) simp
      ultimately show ?thesis using sd cd nz [OF True] by (subst find_middle.simps) simp
    next
      case T: True
      obtain nx where "nodes h (nth_ptr ps (Suc (2 * i))) = Some nx" "n_next nx = nth_ptr ps (2 * Suc i)"
        using seg_nth [OF assms(1) T] T by (auto simp: nth_ptr_def)
      then show ?thesis using sd cd nz [OF True] nz [OF T] less.hyps [OF i(2)] T by (subst find_middle.simps) simp
    qed
  qed
qed

section \<open>Merging\<close>

fun merge_by :: "('a \<Rightarrow> bytes) \<Rightarrow> 'a list \<Rightarrow> 'a list \<Rightarrow> 'a list" where
  "merge_by f [] ys = ys"
| "merge_by f xs [] = xs"
| "merge_by f (x # xs) (y # ys) = (if f x < f y then x # merge_by f xs (y # ys) else y # merge_by f (x # xs) ys)"

lemma merge_by_mset [simp]: "mset (merge_by f xs ys) = mset xs + mset ys"
  by (induction f xs ys rule: merge_by.induct) auto

lemma merge_by_set: "set (merge_by f xs ys) = set xs \<union> set ys"
  by (metis merge_by_mset set_mset_mset set_mset_union)

lemma merge_by_sorted: "sorted (map f xs) \<Longrightarrow> sorted (map f ys) \<Longrightarrow> sorted (map f (merge_by f xs ys))"
  by (induction f xs ys rule: merge_by.induct) (auto simp: merge_by_set)

text \<open>The result so far: \<open>m\<close> is what its last item still points to.\<close>

definition merged :: "'n store \<Rightarrow> ptr \<Rightarrow> ptr \<Rightarrow> ptr list \<Rightarrow> bool" where
  "merged h result tail rs \<longleftrightarrow>
     (if rs = [] then result = NULL else tail = last rs \<and> (\<exists>pr m. seg h pr result rs m))"

lemma append_rest_seg:
  assumes "seg h pr result rs m" "rs \<noteq> []" "seg h pv p (x # xs) q" "distinct (rs @ x # xs)"
  shows "\<exists>h'. append_rest (last rs) x h = Some h' \<and> seg h' pr result (rs @ x # xs) q \<and>
    (\<forall>pr' p' ys q'. set ys \<inter> set (rs @ x # xs) = {} \<longrightarrow> seg h' pr' p' ys q' = seg h pr' p' ys q') \<and>
    (NULL \<notin> set (rs @ x # xs) \<longrightarrow> relinked NULL (set (rs @ x # xs)) h h')"
proof -
  obtain us b where rs: "rs = us @ [b]" using assms(2) by (cases rs rule: rev_cases) auto
  obtain bd where bd: "nodes h b = Some bd" using assms(1) rs by (auto simp: seg_append)
  obtain xd where xd: "p = x" "nodes h x = Some xd" using assms(3) by auto
  let ?h1 = "upd b (\<lambda>nd. nd\<lparr>n_next := x\<rparr>) h" let ?h2 = "upd x (\<lambda>nd. nd\<lparr>n_prev := b\<rparr>) ?h1"
  have d: "b \<notin> set us" "x \<notin> set rs" "x \<noteq> b" "x \<notin> set xs" "b \<notin> set xs" using assms(4) rs by auto
  have "append_rest (last rs) x h = Some ?h2"
    using bd xd d rs by (simp add: append_rest_def set_next_def set_prev_def modify_upd)
  moreover have "seg ?h1 pr result rs x" using seg_next assms(1) d(1) unfolding rs by blast
  then have "seg ?h2 pr result rs x" using d(2) by (simp add: seg_upd_other)
  moreover have "seg ?h1 pv x (x # xs) q" using assms(3) d xd(1) by (subst seg_upd_other) auto
  then have "seg ?h2 b x (x # xs) q" using seg_prev [of ?h1 pv x x xs q b] d(4) by simp
  then have "seg ?h2 (last (pr # rs)) x (x # xs) q" using rs by simp
  ultimately have "append_rest (last rs) x h = Some ?h2" "seg ?h2 pr result (rs @ x # xs) q" by (auto simp only: seg_append)
  moreover have "seg ?h2 pr' p' ys q' = seg h pr' p' ys q'" if "set ys \<inter> set (rs @ x # xs) = {}" for pr' p' ys q'
  proof -
    have "x \<notin> set ys" "b \<notin> set ys" using that rs by auto
    then show ?thesis by (simp add: seg_upd_other)
  qed
  moreover have "relinked NULL (set (rs @ x # xs)) h ?h2" if "NULL \<notin> set (rs @ x # xs)"
    by (intro relinked_upd relinked_refl) (use that rs in \<open>auto simp: unlink_def\<close>)
  ultimately show ?thesis by blast
qed

lemma take_step:
  assumes "merged h result tail rs" "seg h pv p (x # xs) NULL" "distinct (rs @ x # xs)" "NULL \<notin> set (rs @ x # xs)"
  obtains h1 nd where "(if result = NULL then Some h else append_rest tail x h) = Some h1" "nodes h1 x = Some nd"
    "seg h1 x (n_next nd) xs NULL" "merged h1 (if result = NULL then x else result) x (rs @ [x])"
    "\<forall>pr' p' zs q'. set zs \<inter> set (rs @ x # xs) = {} \<longrightarrow> seg h1 pr' p' zs q' = seg h pr' p' zs q'"
    "relinked NULL (set (rs @ x # xs)) h h1"
proof (cases "rs = []")
  case True
  obtain nd where nd: "p = x" "nodes h x = Some nd" "n_prev nd = pv" "seg h x (n_next nd) xs NULL" using assms(2) by auto
  then have "seg h pv x [x] (n_next nd)" by simp
  then have "\<exists>pr m. seg h pr x [x] m" by blast
  then have "merged h (if result = NULL then x else result) x (rs @ [x])" using True assms(1) by (simp add: merged_def del: seg.simps)
  then show ?thesis using that [of h nd] True nd assms(1) by (simp add: merged_def)
next
  case False
  then obtain pr m where r: "tail = last rs" "seg h pr result rs m" using assms(1) by (auto simp: merged_def)
  have "result \<noteq> NULL" using r(2) False assms(4) by (cases rs) auto
  moreover obtain h1 where h1: "append_rest (last rs) x h = Some h1" "seg h1 pr result (rs @ x # xs) NULL"
    "\<forall>pr' p' ys q'. set ys \<inter> set (rs @ x # xs) = {} \<longrightarrow> seg h1 pr' p' ys q' = seg h pr' p' ys q'"
    "relinked NULL (set (rs @ x # xs)) h h1"
    using append_rest_seg [OF r(2) False assms(2,3)] assms(4) by blast
  moreover obtain nd where "nodes h1 x = Some nd" "seg h1 x (n_next nd) xs NULL" "seg h1 pr result (rs @ [x]) (n_next nd)"
    using h1(2) by (auto simp: seg_append)
  moreover from this have "merged h1 result x (rs @ [x])" by (auto simp: merged_def)
  ultimately show ?thesis using that [of h1 nd] r(1) by simp
qed

lemma finish_step:
  assumes "merged h result tail rs" "seg h pv p xs NULL" "xs \<noteq> []" "distinct (rs @ xs)" "NULL \<notin> set (rs @ xs)"
  shows "\<exists>h1 pr. (if result = NULL then Some h else append_rest tail p h) = Some h1 \<and>
    seg h1 pr (if result = NULL then p else result) (rs @ xs) NULL \<and> relinked NULL (set (rs @ xs)) h h1"
proof (cases "rs = []")
  case True
  then show ?thesis using assms by (auto simp: merged_def)
next
  case False
  obtain x xs' where x: "xs = x # xs'" "p = x" using assms(2,3) by (cases xs) auto
  obtain pr m where r: "tail = last rs" "seg h pr result rs m" using assms(1) False by (auto simp: merged_def)
  have "result \<noteq> NULL" using r(2) False assms(5) by (cases rs) auto
  then show ?thesis using append_rest_seg [OF r(2) False _ _, of pv p x xs' NULL] assms r(1) x by auto
qed

lemma merge_lists_seg:
  assumes "store_ok h" "seg h pv1 one xs NULL" "seg h pv2 two ys NULL" "merged h result tail rs"
    "distinct (rs @ xs @ ys)" "NULL \<notin> set (rs @ xs @ ys)" "names_ok h (xs @ ys)" "xs \<noteq> [] \<or> ys \<noteq> []"
  shows "\<exists>h' p pr. merge_lists one two result tail h = Some (p, h') \<and> seg h' pr p (rs @ merge_by (name_key h) xs ys) NULL \<and>
    relinked NULL (set (rs @ xs @ ys)) h h'"
  using assms
proof (induction "length xs + length ys" arbitrary: h pv1 one xs pv2 two ys result tail rs rule: less_induct)
  case less
  note ok = less.prems(1) and s1 = less.prems(2) and s2 = less.prems(3) and m = less.prems(4)
    and d = less.prems(5) and nz = less.prems(6) and names = less.prems(7)
  have one: "one = NULL \<longleftrightarrow> xs = []" using s1 nz by (cases xs) auto
  have two: "two = NULL \<longleftrightarrow> ys = []" using s2 nz by (cases ys) auto
  consider "xs = []" "ys \<noteq> []" | "xs \<noteq> []" "ys = []" | "xs \<noteq> []" "ys \<noteq> []" using less.prems(8) by blast
  then show ?case
  proof cases
    case 1
    then show ?thesis using finish_step [OF m s2] d nz one two
      by (subst merge_lists.simps) (auto split: if_splits)
  next
    case 2
    then have "merge_by (name_key h) xs ys = xs" by (cases xs) auto
    with 2 show ?thesis using finish_step [OF m s1] d nz one two
      by (subst merge_lists.simps) (auto split: if_splits)
  next
    case 3
    then obtain x xs' y ys' where xy: "xs = x # xs'" "ys = y # ys'" by (auto simp: neq_Nil_conv)
    obtain xd where xd: "one = x" "nodes h x = Some xd" "seg h x (n_next xd) xs' NULL" using s1 xy by auto
    obtain yd where yd: "two = y" "nodes h y = Some yd" "seg h y (n_next yd) ys' NULL" using s2 xy by auto
    have "names_ok h [x, y]" using names xy by (simp add: names_ok_def)
    then have small: "take_smaller h one two = Some (if name_key h x < name_key h y then x else y)"
      using compare_names [OF xd(2) yd(2) _ ok, of False] xd yd by (auto simp: take_smaller_def)
    show ?thesis
    proof (cases "name_key h x < name_key h y")
      case True
      have dx: "distinct (rs @ x # xs')" "NULL \<notin> set (rs @ x # xs')" using d nz xy by auto
      obtain h1 nd where h1: "(if result = NULL then Some h else append_rest tail x h) = Some h1" "nodes h1 x = Some nd"
        "seg h1 x (n_next nd) xs' NULL" "merged h1 (if result = NULL then x else result) x (rs @ [x])"
        "\<forall>pr' p' zs q'. set zs \<inter> set (rs @ x # xs') = {} \<longrightarrow> seg h1 pr' p' zs q' = seg h pr' p' zs q'"
        "relinked NULL (set (rs @ x # xs')) h h1"
        by (rule take_step [OF m s1 [unfolded xy(1)] dx])
      have "set ys \<inter> set (rs @ x # xs') = {}" using d xy by auto
      then have "seg h1 pv2 two ys NULL" using h1(5) s2 by blast
      moreover have "names_ok h1 (xs' @ ys)" using relinked_names [OF h1(6) ok] names_ok_subset [OF names, of "xs' @ ys"] xy by auto
      ultimately obtain h' p pr where h': "merge_lists (n_next nd) two (if result = NULL then x else result) x h1 = Some (p, h')"
        "seg h' pr p ((rs @ [x]) @ merge_by (name_key h1) xs' ys) NULL" "relinked NULL (set ((rs @ [x]) @ xs' @ ys)) h1 h'"
        using less.hyps [of xs' ys h1 x "n_next nd" pv2 two "if result = NULL then x else result" x "rs @ [x]"]
          relinked_ok [OF h1(6) ok] h1(3,4) d nz xy by auto
      have "name_key h1 = name_key h" using relinked_key [OF h1(6) ok] by blast
      moreover have "relinked NULL (set (rs @ xs @ ys)) h h'" by (rule relinked_trans [OF h1(6) h'(3)]) (use xy in auto)
      moreover have "merge_lists one two result tail h = Some (p, h')"
        using one two xy small True h1(1,2) h'(1) xd(1) by (subst merge_lists.simps) simp
      ultimately show ?thesis using h'(2) True xy by auto
    next
      case False
      have dx: "distinct (rs @ y # ys')" "NULL \<notin> set (rs @ y # ys')" using d nz xy by auto
      obtain h1 nd where h1: "(if result = NULL then Some h else append_rest tail y h) = Some h1" "nodes h1 y = Some nd"
        "seg h1 y (n_next nd) ys' NULL" "merged h1 (if result = NULL then y else result) y (rs @ [y])"
        "\<forall>pr' p' zs q'. set zs \<inter> set (rs @ y # ys') = {} \<longrightarrow> seg h1 pr' p' zs q' = seg h pr' p' zs q'"
        "relinked NULL (set (rs @ y # ys')) h h1"
        by (rule take_step [OF m s2 [unfolded xy(2)] dx])
      have "set xs \<inter> set (rs @ y # ys') = {}" using d xy by auto
      then have "seg h1 pv1 one xs NULL" using h1(5) s1 by blast
      moreover have "names_ok h1 (xs @ ys')" using relinked_names [OF h1(6) ok] names_ok_subset [OF names, of "xs @ ys'"] xy by auto
      ultimately obtain h' p pr where h': "merge_lists one (n_next nd) (if result = NULL then y else result) y h1 = Some (p, h')"
        "seg h' pr p ((rs @ [y]) @ merge_by (name_key h1) xs ys') NULL" "relinked NULL (set ((rs @ [y]) @ xs @ ys')) h1 h'"
        using less.hyps [of xs ys' h1 pv1 one y "n_next nd" "if result = NULL then y else result" y "rs @ [y]"]
          relinked_ok [OF h1(6) ok] h1(3,4) d nz xy by auto
      have "name_key h1 = name_key h" using relinked_key [OF h1(6) ok] by blast
      moreover have "relinked NULL (set (rs @ xs @ ys)) h h'" by (rule relinked_trans [OF h1(6) h'(3)]) (use xy in auto)
      moreover have "one \<noteq> y" using xd(1) d xy by auto
      then have "merge_lists one two result tail h = Some (p, h')"
        using one two xy small False h1(1,2) h'(1) xd(1) yd(1) by (subst merge_lists.simps) simp
      ultimately show ?thesis using h'(2) False xy by auto
    qed
  qed
qed

section \<open>Sorting\<close>

lemma relinked_seg:
  assumes "relinked NULL A h h'" "set ps \<inter> A = {}" "NULL \<notin> set ps"
  shows "seg h' pv p ps q = seg h pv p ps q"
  by (rule seg_frame) (use assms in \<open>auto simp: relinked_def\<close>)

lemma split_list_seg:
  assumes "seg h pv p (xs @ ys) NULL" "distinct (xs @ ys)" "NULL \<notin> set (xs @ ys)" "xs \<noteq> []" "ys \<noteq> []"
  shows "\<exists>h1. split_list (hd ys) h = Some h1 \<and> seg h1 pv p xs NULL \<and> seg h1 (last xs) (hd ys) ys NULL \<and>
    relinked NULL (set (xs @ ys)) h h1"
proof -
  obtain us b where xs: "xs = us @ [b]" using assms(4) by (cases xs rule: rev_cases) auto
  obtain y ys' where ys: "ys = y # ys'" using assms(5) by (cases ys) auto
  have s: "seg h pv p xs y" "seg h b y ys NULL" using assms(1) xs ys by (auto simp: seg_append)
  obtain bd yd where n: "nodes h b = Some bd" "nodes h y = Some yd" "n_prev yd = b"
    using s xs ys by (auto simp: seg_append)
  let ?h1 = "upd b (\<lambda>nd. nd\<lparr>n_next := NULL\<rparr>) h"
  have b: "b \<notin> set us" "b \<notin> set ys" "b \<noteq> NULL" "y \<noteq> NULL" using assms(2,3) xs ys by auto
  have "split_list (hd ys) h = Some ?h1" using n b ys by (simp add: split_list_def set_next_def modify_upd)
  moreover have "seg ?h1 pv p xs NULL" using seg_next [of h pv p us b y] s(1) b(1) xs by simp
  moreover have "seg ?h1 (last xs) (hd ys) ys NULL" using s(2) b(2) xs ys by (simp add: seg_upd_other del: seg.simps)
  moreover have "relinked NULL (set (xs @ ys)) h ?h1"
    by (intro relinked_upd relinked_refl) (use b xs in \<open>auto simp: unlink_def\<close>)
  ultimately show ?thesis by blast
qed

lemma sort_list_seg:
  assumes "store_ok h" "seg h pv p ps NULL" "distinct ps" "NULL \<notin> set ps" "names_ok h ps"
  shows "\<exists>h' p' pr qs. sort_list cs p h = Some (p', h') \<and> seg h' pr p' qs NULL \<and> mset qs = mset ps \<and>
    (\<not> cs \<longrightarrow> sorted (map (name_key h) qs)) \<and> relinked NULL (set ps) h h'"
  using assms
proof (induction "length ps" arbitrary: h pv p ps rule: less_induct)
  case less
  note ok = less.prems(1) and s = less.prems(2) and d = less.prems(3) and nz = less.prems(4) and names = less.prems(5)
  show ?case
  proof (cases "length ps < 2")
    case True
    then consider "ps = []" | a where "ps = [a]" by (cases ps rule: remdups_adj.cases) auto
    then have "sort_list cs p h = Some (p, h) \<and> sorted (map (name_key h) ps)"
      by cases (use s nz in \<open>subst sort_list.simps; auto\<close>)+
    then show ?thesis using s by (intro exI [of _ h] exI [of _ p] exI [of _ pv] exI [of _ ps]) simp
  next
    case False
    let ?m = "(length ps + 1) div 2"
    define xs ys where "xs = take ?m ps" and "ys = drop ?m ps"
    have m: "?m < length ps" "0 < ?m" using False by auto
    have xy: "ps = xs @ ys" "xs \<noteq> []" "ys \<noteq> []" "length xs < length ps" "length ys < length ps" "nth_ptr ps ?m = hd ys"
      using m False by (auto simp: xs_def ys_def nth_ptr_def hd_drop_conv_nth)
    obtain a qs' where ps: "ps = a # qs'" "qs' \<noteq> []" using False by (cases ps) auto
    obtain nd where nd: "p = a" "nodes h a = Some nd" "n_next nd \<noteq> NULL"
      using s ps nz by (cases qs') auto
    obtain b where b: "sorted_already h cs p = Some b" "b \<and> \<not> cs \<longrightarrow> sorted (map (name_key h) ps)"
      using sorted_already_seg [OF ok s _ nz names] ps by blast
    show ?thesis
    proof (cases b)
      case True
      have "sort_list cs p h = Some (p, h)" using nd b(1) True ps nz by (subst sort_list.simps) simp
      then show ?thesis using s b(2) True by (intro exI [of _ h] exI [of _ p] exI [of _ pv] exI [of _ ps]) simp
    next
      case unsorted: False
      have mid: "find_middle h p p = Some (hd ys)"
        using find_middle_seg [OF s nz, of 0] xy(6) nd(1) ps by (simp add: nth_ptr_def)
      obtain h1 where h1: "split_list (hd ys) h = Some h1" "seg h1 pv p xs NULL" "seg h1 (last xs) (hd ys) ys NULL"
        "relinked NULL (set ps) h h1"
        using split_list_seg [of h pv p xs ys] s d nz xy by auto
      have dxy: "distinct xs" "distinct ys" "set xs \<inter> set ys = {}" "NULL \<notin> set xs" "NULL \<notin> set ys" "NULL \<notin> set ps"
        using d nz xy(1) by auto
      have n1: "store_ok h1" "names_ok h1 ps" using relinked_ok relinked_names h1(4) ok names by blast+
      obtain h2 one pr1 xs2 where h2: "sort_list cs p h1 = Some (one, h2)" "seg h2 pr1 one xs2 NULL" "mset xs2 = mset xs"
        "\<not> cs \<longrightarrow> sorted (map (name_key h1) xs2)" "relinked NULL (set xs) h1 h2"
        using less.hyps [OF xy(4) n1(1) h1(2) dxy(1,4)] names_ok_subset [OF n1(2)] xy(1) by auto
      have sx: "set xs2 = set xs" "distinct xs2" using h2(3) dxy(1) by (metis set_mset_mset, metis mset_eq_imp_distinct_iff)
      have n2: "store_ok h2" "names_ok h2 ps" using relinked_ok relinked_names h2(5) n1 by blast+
      have "seg h2 (last xs) (hd ys) ys NULL" using relinked_seg [OF h2(5)] h1(3) dxy by blast
      then obtain h3 two pr2 ys2 where h3: "sort_list cs (hd ys) h2 = Some (two, h3)" "seg h3 pr2 two ys2 NULL" "mset ys2 = mset ys"
        "\<not> cs \<longrightarrow> sorted (map (name_key h2) ys2)" "relinked NULL (set ys) h2 h3"
        using less.hyps [OF xy(5) n2(1) _ dxy(2,5)] names_ok_subset [OF n2(2)] xy(1) by fastforce
      have sy: "set ys2 = set ys" "distinct ys2" using h3(3) dxy(2) by (metis set_mset_mset, metis mset_eq_imp_distinct_iff)
      have n3: "store_ok h3" "names_ok h3 ps" using relinked_ok relinked_names h3(5) n2 by blast+
      have c1: "seg h3 pr1 one xs2 NULL" using relinked_seg [OF h3(5)] h2(2) sx dxy by blast
      have c2: "merged h3 NULL NULL []" by (simp add: merged_def)
      have c3: "distinct ([] @ xs2 @ ys2)" "NULL \<notin> set ([] @ xs2 @ ys2)" "xs2 \<noteq> [] \<or> ys2 \<noteq> []"
        using sx sy dxy xy(2) by auto
      have c4: "names_ok h3 (xs2 @ ys2)" using names_ok_subset [OF n3(2)] sx sy xy(1) by simp
      obtain h4 p4 pr4 where h4: "merge_lists one two NULL NULL h3 = Some (p4, h4)"
        "seg h4 pr4 p4 (merge_by (name_key h3) xs2 ys2) NULL" "relinked NULL (set (xs2 @ ys2)) h3 h4"
        using merge_lists_seg [OF n3(1) c1 h3(2) c2 c3(1,2) c4 c3(3)] unfolding append_Nil by blast
      have run: "sort_list cs p h = Some (p4, h4)"
        using nd ps nz b(1) unsorted mid h1(1) h2(1) h3(1) h4(1) by (subst sort_list.simps) simp
      have "relinked NULL (set ps) h h2" by (rule relinked_trans [OF h1(4) h2(5)]) (use xy in auto)
      then have "relinked NULL (set ps) h h3" by (rule relinked_trans [OF _ h3(5)]) (use xy in auto)
      then have rel: "relinked NULL (set ps) h h4" by (rule relinked_trans [OF _ h4(3)]) (use sx sy xy in auto)
      have k: "name_key h1 = name_key h" "name_key h2 = name_key h" "name_key h3 = name_key h"
        using relinked_key [OF h1(4) ok] relinked_key [OF h2(5) n1(1)] relinked_key [OF h3(5) n2(1)] by (simp_all add: fun_eq_iff)
      have "mset (merge_by (name_key h3) xs2 ys2) = mset ps" using h2(3) h3(3) xy(1) by simp
      moreover have "\<not> cs \<longrightarrow> sorted (map (name_key h) (merge_by (name_key h3) xs2 ys2))"
        using h2(4) h3(4) unfolding k by (blast intro: merge_by_sorted)
      ultimately show ?thesis using run h4(2) rel by blast
    qed
  qed
qed

lemma sort_object_children:
  assumes "children h object ps" "names_ok h ps"
  shows "\<exists>h' nd pr qs. sort_object object cs h = Some h' \<and> nodes h' object = Some nd \<and> seg h' pr (n_child nd) qs NULL \<and>
    mset qs = mset ps \<and> (\<not> cs \<longrightarrow> sorted (map (name_key h) qs)) \<and> relinked object (set ps) h h'"
proof -
  obtain od where h: "store_ok h" "object \<noteq> NULL" "object \<notin> set ps" "distinct ps" "NULL \<notin> set ps"
    "nodes h object = Some od" "seg h NULL (n_child od) ps NULL"
    using childrenD [OF assms(1)] by blast
  obtain h1 p' pr qs where s: "sort_list cs (n_child od) h = Some (p', h1)" "seg h1 pr p' qs NULL" "mset qs = mset ps"
    "\<not> cs \<longrightarrow> sorted (map (name_key h) qs)" "relinked NULL (set ps) h h1"
    using sort_list_seg [OF h(1,7,4,5) assms(2)] by blast
  have same: "nodes h1 object = Some od" using s(5) h(2,3,6) by (auto simp: relinked_def)
  have "set qs = set ps" using s(3) by (metis set_mset_mset)
  let ?h2 = "upd object (\<lambda>nd. nd\<lparr>n_child := p'\<rparr>) h1"
  have n0: "nodes h NULL = None" "nodes h1 NULL = None" using relinked_node(1) [OF s(5) h(1)] h(1) by (simp_all add: store_ok_def)
  have "data_of object h1 a = data_of object h a" for a
  proof (cases "a = object")
    case True
    then show ?thesis using same h(6) by (simp add: data_of_def)
  next
    case False
    have "data_of NULL h1 a = data_of NULL h a" using s(5) by (simp add: relinked_def)
    then show ?thesis using False n0 by (cases "a = NULL") (simp_all add: data_of_def)
  qed
  then have "data_of object h1 = data_of object h" by (rule ext)
  moreover have "nodes h1 a = nodes h a" if "a \<notin> set ps" for a
    using s(5) n0 that by (cases "a = NULL") (simp_all add: relinked_def)
  ultimately have "relinked object (set ps) h h1" using s(5) by (simp add: relinked_def)
  then have "relinked object (set ps) h ?h2" by (rule relinked_child)
  moreover have "sort_object object cs h = Some ?h2" using h(2,6) s(1) same by (simp add: sort_object_def set_first_def modify_upd)
  moreover have "seg ?h2 pr p' qs NULL" using s(2) h(3) \<open>set qs = set ps\<close> by (simp add: seg_upd_other)
  moreover have "nodes ?h2 object = Some (od\<lparr>n_child := p'\<rparr>)" using same by simp
  ultimately show ?thesis using s(3,4) by fastforce
qed

end
