(* ===== verification/Json_Utils_Properties.thy ===== *)
theory Json_Utils_Properties
  imports Json_Patch_Spec Json_Sort
begin

text \<open>
  The properties of \<open>src/lib/cJSON_Utils.c\<close>: JSON pointers, sorting and patches.
\<close>

section \<open>A store\<close>

text \<open>
  An object at 1 whose member \<open>k\<close> at 2 is an array of 3 and 4; a patch at 5 with the members \<open>op\<close> at 6
  and \<open>path\<close> at 7; an item 8 that is in no list; an object at 15 with the members \<open>b\<close> at 16 and \<open>a\<close> at 17.
\<close>

definition utils_node :: "32 word \<Rightarrow> ptr \<Rightarrow> ptr \<Rightarrow> ptr \<Rightarrow> ptr \<Rightarrow> ptr \<Rightarrow> nat node" where
  "utils_node t nxt prev c s v = \<lparr>n_next = nxt, n_prev = prev, n_child = c, n_type = t, n_valuestring = v,
     n_valueint = 0, n_valuedouble = 0, n_string = s\<rparr>"

definition utils_store :: "string \<Rightarrow> string \<Rightarrow> nat store" where
  "utils_store op path =
     \<lparr>nodes = [1 \<mapsto> utils_node cJSON_Object 0 0 2 0 0, 2 \<mapsto> utils_node cJSON_Array 0 0 3 20 0,
        3 \<mapsto> utils_node cJSON_NULL 4 0 0 0 0, 4 \<mapsto> utils_node cJSON_NULL 0 3 0 0 0,
        5 \<mapsto> utils_node cJSON_Object 0 0 6 0 0, 6 \<mapsto> utils_node cJSON_String 7 0 0 21 22,
        7 \<mapsto> utils_node cJSON_String 0 6 0 23 24, 8 \<mapsto> utils_node cJSON_NULL 0 0 0 0 0,
        15 \<mapsto> utils_node cJSON_Object 0 0 16 0 0, 16 \<mapsto> utils_node cJSON_NULL 17 0 0 26 0, 17 \<mapsto> utils_node cJSON_NULL 0 16 0 27 0],
      texts = [20 \<mapsto> ascii ''k'', 21 \<mapsto> ascii ''op'', 22 \<mapsto> ascii op, 23 \<mapsto> ascii ''path'', 24 \<mapsto> ascii path, 25 \<mapsto> [],
        26 \<mapsto> ascii ''b'', 27 \<mapsto> ascii ''a'', 30 \<mapsto> ascii ''op'', 31 \<mapsto> ascii ''path''],
      brk = 40, grants = (\<lambda>k. True), requests = 0\<rparr>"

definition utils_literals :: literals where
  "utils_literals s = (if s = ''op'' then 30 else if s = ''path'' then 31 else 0)"

lemma ascii_values:
  "ascii ''k'' = [0x6B]" "ascii ''op'' = [0x6F, 0x70]" "ascii ''path'' = [0x70, 0x61, 0x74, 0x68]" "ascii ''a'' = [0x61]" "ascii ''b'' = [0x62]"
  "ascii ''/k/0'' = [0x2F, 0x6B, 0x2F, 0x30]" "ascii ''/k/5'' = [0x2F, 0x6B, 0x2F, 0x35]" "ascii ''remove'' = [0x72, 0x65, 0x6D, 0x6F, 0x76, 0x65]"
  "ascii ''replace'' = [0x72, 0x65, 0x70, 0x6C, 0x61, 0x63, 0x65]" "ascii ''add'' = [0x61, 0x64, 0x64]"
  by (simp_all add: ascii_def)

lemma utils_fields [simp]:
  "n_next (utils_node t n p c s v) = n" "n_prev (utils_node t n p c s v) = p" "n_child (utils_node t n p c s v) = c"
  "n_type (utils_node t n p c s v) = t" "n_string (utils_node t n p c s v) = s" "n_valuestring (utils_node t n p c s v) = v"
  by (simp_all add: utils_node_def)

lemma utils_nodes [simp]:
  "nodes (utils_store op path) 1 = Some (utils_node cJSON_Object 0 0 2 0 0)"
  "nodes (utils_store op path) (Suc 0) = Some (utils_node cJSON_Object 0 0 2 0 0)"
  "nodes (utils_store op path) 2 = Some (utils_node cJSON_Array 0 0 3 20 0)"
  "nodes (utils_store op path) 3 = Some (utils_node cJSON_NULL 4 0 0 0 0)"
  "nodes (utils_store op path) 4 = Some (utils_node cJSON_NULL 0 3 0 0 0)"
  "nodes (utils_store op path) 5 = Some (utils_node cJSON_Object 0 0 6 0 0)"
  "nodes (utils_store op path) 6 = Some (utils_node cJSON_String 7 0 0 21 22)"
  "nodes (utils_store op path) 7 = Some (utils_node cJSON_String 0 6 0 23 24)"
  "nodes (utils_store op path) 8 = Some (utils_node cJSON_NULL 0 0 0 0 0)"
  "nodes (utils_store op path) 15 = Some (utils_node cJSON_Object 0 0 16 0 0)"
  "nodes (utils_store op path) 16 = Some (utils_node cJSON_NULL 17 0 0 26 0)"
  "nodes (utils_store op path) 17 = Some (utils_node cJSON_NULL 0 16 0 27 0)"
  by (simp_all add: utils_store_def)

lemma utils_texts [simp]:
  "texts (utils_store op path) 20 = Some [0x6B]" "texts (utils_store op path) 21 = Some [0x6F, 0x70]"
  "texts (utils_store op path) 22 = Some (ascii op)" "texts (utils_store op path) 23 = Some [0x70, 0x61, 0x74, 0x68]"
  "texts (utils_store op path) 24 = Some (ascii path)" "texts (utils_store op path) 25 = Some []"
  "texts (utils_store op path) 26 = Some [0x62]" "texts (utils_store op path) 27 = Some [0x61]"
  "texts (utils_store op path) 30 = Some [0x6F, 0x70]" "texts (utils_store op path) 31 = Some [0x70, 0x61, 0x74, 0x68]"
  by (simp_all add: utils_store_def ascii_values)

lemma utils_ok: "store_ok (utils_store op path)" "grants (utils_store op path) n"
  by (simp_all add: store_ok_def utils_store_def)

lemma utils_tree: "readable (utils_store op path) cs (Shape 1 [Shape 2 [Shape 3 [], Shape 4 []]])"
  by (auto simp: kind_of_def siblings_named_def named_plainly_def plain_def json_type_defs)

lemma utils_way: "way (utils_store op path) 2 (Shape 1 [Shape 2 [Shape 3 [], Shape 4 []]]) = Some [0x2F, 0x6B]"
  by (simp add: step_name_def kind_of_def name_of_def json_type_defs)

lemma utils_lists: "children (utils_store op path) 2 [3, 4]" "children (utils_store op path) 15 [16, 17]"
  "names_ok (utils_store op path) [16, 17]" "detached (utils_store op path) 8" "kind_of (utils_store op path) 2 = cJSON_Array"
  using utils_ok by (simp_all add: children_def names_ok_def detached_def kind_of_def json_type_defs)

lemma utils_own: "own_item (utils_store op path) 3 [] A" "own_item (utils_store op path) 8 [] A"
  by (simp_all add: own_item_def exclusive_def own_texts_def)

lemma utils_find:
  "find_sibling (utils_store op path) True 30 6 = Some 6" "find_sibling (utils_store op path) True 31 6 = Some 7"
proof -
  have "find_sibling (utils_store op path) True 31 7 = Some 7"
    by (subst find_sibling.simps) (simp add: names_equal_def strings_equal_def)
  then show "find_sibling (utils_store op path) True 31 6 = Some 7"
    by (subst find_sibling.simps) (simp add: names_equal_def strings_equal_def)
  show "find_sibling (utils_store op path) True 30 6 = Some 6"
    by (subst find_sibling.simps) (simp add: names_equal_def strings_equal_def)
qed

lemma utils_get:
  "utils_get_object_item (utils_store op path) 5 (utils_literals ''op'') True = Some 6"
  "utils_get_object_item (utils_store op path) 5 (utils_literals ''path'') True = Some 7"
  by (simp_all add: utils_get_object_item_def cJSON_GetObjectItemCaseSensitive_def get_object_item_def utils_literals_def utils_find)

lemma utils_patch:
  "patch_is utils_literals (utils_store ''remove'' path) 5 True REMOVE 24"
  "patch_is utils_literals (utils_store ''replace'' path) 5 True REPLACE 24"
  using utils_get
  by (simp_all add: patch_is_def decode_patch_operation_def patch_opcode_def cJSON_IsString_def item_kind_def ascii_values json_type_defs)

section \<open>Pointers\<close>

text \<open>The name of a member matches the token at which a JSON pointer stands exactly when the token, decoded as RFC 6901 has
  it, is the name, or the name up to case when case does not matter; a token with a wrong escape matches no name.\<close>

theorem json_pointer_token:
  assumes "store_ok h" "texts h s = Some name" "0 \<notin> set name" "0 \<notin> set pointer"
  shows "compare_pointers h s pointer cs = Some (\<exists>t. decode_token (token pointer) = Some t \<and> same_name cs name t)"
  using compare_loop_token [OF assms(3,4)] text_nonnull [OF assms(1,2)] assms(2) by (simp add: compare_pointers_def)

theorem json_pointer_token_witness:
  "compare_pointers (utils_store ''x'' ''y'') 20 [0x4B, 0x2F, 0x30] False = Some True \<and>
   compare_pointers (utils_store ''x'' ''y'') 20 [0x6B, 0x7E] True = Some False"
proof -
  note t = utils_ok(1) utils_texts(1)
  show ?thesis
    using json_pointer_token [OF t, where pointer = "[0x4B, 0x2F, 0x30]" and cs = False]
      json_pointer_token [OF t, where pointer = "[0x6B, 0x7E]" and cs = True]
    by (simp add: same_name_def to_lower_def)
qed

text \<open>A decimal number below 2 to the 64 without leading zeros, up to the end of the pointer or the next slash, is read as the
  array index with that value.\<close>

theorem json_pointer_index:
  assumes "n < 2 ^ 64" "p = [] \<or> hd p = SLASH"
  shows "decode_array_index_from_pointer (decimal n @ p) = Some (of_nat n)"
  using assms by (rule decode_decimal)

theorem json_pointer_index_witness: "decode_array_index_from_pointer (decimal 107 @ [0x2F, 0x30]) = Some 107"
  using json_pointer_index [of 107 "[0x2F, 0x30]"] by simp

text \<open>
  The loop looks at the first character of the token only: \<open>1a\<close> is an index too, namely 59.
\<close>

lemma json_pointer_index_letters: "decode_array_index_from_pointer [0x31, 0x61] = Some 59"
  by (simp add: decode_array_index_from_pointer_def first_def)

text \<open>C17: In a tree of arrays and objects, whose members have names without slashes, tildes and duplicates, the pointer that the
  search for an item returns leads back to this item, if there is memory; the search changes no item and no string.\<close>

theorem json_pointer_roundtrip:
  assumes "store_ok h" "\<And>n. grants h n" "texts h empty_lit = Some []" "readable h cs t" "target \<in> set (nodes_in t)" "target \<noteq> NULL"
  shows "\<exists>tp h'. cJSONUtils_FindPointerFromObjectTo empty_lit (node_of t) target h = Some (tp, h') \<and> tp \<noteq> NULL \<and>
    nodes h' = nodes h \<and> (\<forall>a < brk h. texts h' a = texts h a) \<and> get_item_from_pointer h' (node_of t) tp cs = Some target"
  using assms by (rule find_then_get)

theorem json_pointer_roundtrip_witness:
  "\<exists>tp h'. cJSONUtils_FindPointerFromObjectTo 25 1 4 (utils_store ''x'' ''y'') = Some (tp, h') \<and>
     get_item_from_pointer h' 1 tp True = Some 4"
  using json_pointer_roundtrip [OF utils_ok utils_texts(6) utils_tree, of 4 "''x''" "''y''" True] by auto



text \<open>Decoding in place loses the characters behind an escape: \<open>~0b\<close> becomes \<open>~0\<close>, and \<open>~1b\<close> becomes \<open>~/\<close>.\<close>

lemma json_pointer_decode_loses:
  "decode_pointer_inplace [0x7E, 0x30, 0x62] = Some [0x7E, 0x30]" "decode_pointer_inplace [0x7E, 0x31, 0x62] = Some [0x7E, 0x2F]"
  by (simp_all add: decode_pointer_inplace_def decode_loop.simps put_def)

section \<open>Sorting\<close>

text \<open>C19: Sorting the members of an object terminates and leaves a list of exactly the same items, in the order of their names
  without case, linked in both directions behind its head; no other field of any item and no string changes.\<close>

theorem json_sort_names:
  assumes "children h object ps" "names_ok h ps"
  shows "\<exists>h' nd pr qs. cJSONUtils_SortObject object h = Some h' \<and> nodes h' object = Some nd \<and> seg h' pr (n_child nd) qs NULL \<and>
    mset qs = mset ps \<and> sorted (map (name_key h) qs) \<and> relinked object (set ps) h h'"
  using sort_object_children [OF assms, of False] by (simp add: cJSONUtils_SortObject_def)

theorem json_sort_names_witness:
  "\<exists>h' nd pr. cJSONUtils_SortObject 15 (utils_store ''x'' ''y'') = Some h' \<and> nodes h' 15 = Some nd \<and> seg h' pr (n_child nd) [17, 16] NULL"
proof -
  obtain h' nd pr qs where s: "cJSONUtils_SortObject 15 (utils_store ''x'' ''y'') = Some h'" "nodes h' 15 = Some nd"
    "seg h' pr (n_child nd) qs NULL" "mset qs = mset [16, 17]" "sorted (map (name_key (utils_store ''x'' ''y'')) qs)"
    using json_sort_names [OF utils_lists(2,3)] by blast
  have k: "name_key (utils_store ''x'' ''y'') 16 = [0x62]" "name_key (utils_store ''x'' ''y'') 17 = [0x61]"
    by (simp_all add: name_key_def to_lower_def)
  have "qs = [16, 17] \<or> qs = [17, 16]" using s(4)
    by (cases qs rule: list.exhaust; cases "tl qs" rule: list.exhaust) (auto simp: add_eq_conv_ex)
  then have "qs = [17, 16]" using s(5) k by auto
  then show ?thesis using s by blast
qed

text \<open>
  The head keeps its old \<open>prev\<close>: after sorting \<open>b\<close>, \<open>a\<close> the first member \<open>a\<close> points back to \<open>b\<close>, and detaching it
  leaves a list in which \<open>b\<close> is its own successor.
\<close>

lemma sort_utils: "sort_list False 16 (utils_store op path) =
  Some (17, upd 16 (\<lambda>nd. nd\<lparr>n_prev := 17\<rparr>) (upd 17 (\<lambda>nd. nd\<lparr>n_next := 16\<rparr>) (upd 16 (\<lambda>nd. nd\<lparr>n_next := NULL\<rparr>) (utils_store op path))))"
proof -
  let ?h = "utils_store op path" let ?h1 = "upd 16 (\<lambda>nd. nd\<lparr>n_next := NULL\<rparr>) ?h"
  have cmp: "compare_strings ?h 26 27 False = Some 1" "compare_strings ?h1 26 27 False = Some 1"
    by (simp_all add: compare_strings_def to_lower_def)
  have "sorted_already ?h False 16 = Some False" using cmp(1) by (subst sorted_already.simps) simp
  moreover have "find_middle ?h 17 NULL = Some 17" by (subst find_middle.simps) simp
  then have "find_middle ?h 16 16 = Some 17" by (subst find_middle.simps) simp
  moreover have "split_list 17 ?h = Some ?h1" by (simp add: split_list_def set_next_def modify_upd)
  moreover have "sort_list False 16 ?h1 = Some (16, ?h1)" by (subst sort_list.simps) simp
  moreover have "sort_list False 17 ?h1 = Some (17, ?h1)" by (subst sort_list.simps) simp
  moreover have "take_smaller ?h1 16 17 = Some 17" using cmp(2) by (simp add: take_smaller_def)
  moreover from calculation have "merge_lists 16 17 NULL NULL ?h1 = merge_lists 16 NULL 17 17 ?h1"
    by (subst merge_lists.simps) simp
  moreover have "merge_lists 16 NULL 17 17 ?h1 = map_option (Pair 17) (append_rest 17 16 ?h1)"
    by (subst merge_lists.simps) (simp add: map_conv_bind_option comp_def)
  ultimately show ?thesis
    by (subst sort_list.simps) (simp add: append_rest_def set_next_def set_prev_def modify_upd)
qed

lemma json_sort_head_prev:
  "\<exists>h1 h2 nd. cJSONUtils_SortObject 15 (utils_store op path) = Some h1 \<and> cJSON_DetachItemViaPointer 15 17 h1 = Some (17, h2) \<and>
     nodes h2 16 = Some nd \<and> n_next nd = 16"
  by (simp add: cJSONUtils_SortObject_def sort_object_def sort_utils set_first_def modify_upd cJSON_DetachItemViaPointer_def
      set_next_def set_prev_def)

section \<open>Patches\<close>

text \<open>C18: A patch that removes the element with an index in an array of the tree takes exactly this element out of the array,
  frees it with all that it owns, and changes no other item and no other string.\<close>

theorem json_patch_remove:
  assumes "patch_is L h patch cs REMOVE path"
    and "\<And>n. grants h n" "readable h cs t" "way h array t = Some p" "texts h path = Some (p @ SLASH # decimal i)"
    and "children h array ps" "kind_of h array = cJSON_Array" "i < 2 ^ 64" "i < length ps"
    and "own_item h (ps ! i) kids (set (array # ps))"
  shows "\<exists>h'. apply_patch D k L (node_of t) patch cs h = Some (0, h') \<and> removed array ps (ps ! i) kids h h'"
  using assms by (rule remove_at)

lemma decimal_digit: "decimal 0 = [0x30]" "decimal 5 = [0x35]"
  by (simp_all add: decimal.simps)

theorem json_patch_remove_witness:
  "\<exists>h'. apply_patch digit_doubles 9 utils_literals 1 5 True (utils_store ''remove'' ''/k/0'') = Some (0, h') \<and> children h' 2 [4] \<and> nodes h' 3 = None"
  using json_patch_remove [where D = digit_doubles and k = 9 and i = 0 and kids = "[]",
      OF utils_patch(1) utils_ok(2) utils_tree utils_way _ utils_lists(1,5), of "''/k/0''"] utils_own(1)
  by (auto simp: ascii_values decimal_digit removed_def)

text \<open>A patch that removes or replaces an element whose index is not in the array ends with the status 13, and no
  item and no string has changed; the copy of the path is freed.\<close>

theorem json_patch_missing:
  assumes "patch_is L h patch cs opcode path" "opcode = REMOVE \<or> opcode = REPLACE"
    and "\<And>n. grants h n" "readable h cs t" "way h array t = Some p" "texts h path = Some (p @ SLASH # decimal i)"
    and "children h array ps" "kind_of h array = cJSON_Array" "i < 2 ^ 64" "length ps \<le> i"
  shows "\<exists>h'. apply_patch D k L (node_of t) patch cs h = Some (13, h') \<and> nodes h' = nodes h \<and> texts h' = texts h"
  using remove_missing [OF assms] by (simp add: base_store_def)

theorem json_patch_missing_witness:
  "\<exists>h'. apply_patch digit_doubles 9 utils_literals 1 5 True (utils_store ''replace'' ''/k/5'') = Some (13, h') \<and> nodes h' 3 \<noteq> None"
  using json_patch_missing [where D = digit_doubles and k = 9 and i = 5,
      OF utils_patch(2) _ utils_ok(2) utils_tree utils_way _ utils_lists(1,5), of "''/k/5''"]
  by (auto simp: ascii_values decimal_digit)

text \<open>C22: Adding an item to an array of the tree at an index that is at most its length puts the item before the element with this
  index; at a larger index the status is 10 and the item is freed with all that it owns, and nothing else changes.\<close>

theorem json_patch_add:
  assumes "\<And>n. grants h n" "readable h cs t" "way h array t = Some p" "texts h path = Some (p @ SLASH # decimal i)"
    and "children h array ps" "kind_of h array = cJSON_Array" "i < 2 ^ 64"
    and "detached h v" "v \<notin> set (array # ps)" "own_item h v kids (set (array # ps))"
  shows "if i \<le> length ps
    then \<exists>h'. patch_add (node_of t) path v cs h = Some (0, h') \<and> children h' array (take i ps @ v # drop i ps) \<and>
      relinked array (set (v # ps)) (base_store h) h'
    else patch_add (node_of t) path v cs h = Some (10, wiped (item_nodes v kids) (item_texts h v kids) (base_store h))"
  using add_at [OF assms(1-9)] assms(10) by simp

theorem json_patch_add_witness:
  "\<exists>h'. patch_add 1 24 8 True (utils_store ''x'' ''/k/0'') = Some (0, h') \<and> children h' 2 [8, 3, 4]"
  using json_patch_add [where path = 24 and i = 0 and cs = True,
      OF utils_ok(2) utils_tree utils_way _ utils_lists(1,5) _ utils_lists(4) _ utils_own(2), of "''x''" "''/k/0''"]
  by (auto simp: ascii_values decimal_digit)

end
