(* ===== verification/Zstd_Errors.thy ===== *)
theory Zstd_Errors
  imports Prelude
begin

text \<open>
  The error codes: \<open>zstd_errors.h\<close>, and \<open>error_private.h\<close> and \<open>error_private.c\<close> in
  \<open>src/zstd/common/\<close>. A function returns a \<open>size_t\<close> that is either a size or a code; the model of the
  other files returns a sum instead, and the lemmas here say that no information is lost.
\<close>

datatype ZSTD_ErrorCode = no_error | GENERIC | prefix_unknown | version_unsupported | frameParameter_unsupported
  | frameParameter_windowTooLarge | corruption_detected | checksum_wrong | dictionary_corrupted | dictionary_wrong
  | dictionaryCreation_failed | parameter_unsupported | parameter_outOfBound | tableLog_tooLarge | maxSymbolValue_tooLarge
  | maxSymbolValue_tooSmall | stage_wrong | init_missing | memory_allocation | workSpace_tooSmall | dstSize_tooSmall
  | srcSize_wrong | frameIndex_tooLarge | seekableIO | maxCode

fun error_number :: "ZSTD_ErrorCode \<Rightarrow> nat" where
  "error_number no_error = 0"
| "error_number GENERIC = 1"
| "error_number prefix_unknown = 10"
| "error_number version_unsupported = 12"
| "error_number frameParameter_unsupported = 14"
| "error_number frameParameter_windowTooLarge = 16"
| "error_number corruption_detected = 20"
| "error_number checksum_wrong = 22"
| "error_number dictionary_corrupted = 30"
| "error_number dictionary_wrong = 32"
| "error_number dictionaryCreation_failed = 34"
| "error_number parameter_unsupported = 40"
| "error_number parameter_outOfBound = 42"
| "error_number tableLog_tooLarge = 44"
| "error_number maxSymbolValue_tooLarge = 46"
| "error_number maxSymbolValue_tooSmall = 48"
| "error_number stage_wrong = 60"
| "error_number init_missing = 62"
| "error_number memory_allocation = 64"
| "error_number workSpace_tooSmall = 66"
| "error_number dstSize_tooSmall = 70"
| "error_number srcSize_wrong = 72"
| "error_number frameIndex_tooLarge = 100"
| "error_number seekableIO = 102"
| "error_number maxCode = 120"

definition ERROR :: "ZSTD_ErrorCode \<Rightarrow> 64 word" where
  "ERROR e = - of_nat (error_number e)"

definition ERR_isError :: "64 word \<Rightarrow> bool" where
  "ERR_isError code \<longleftrightarrow> code > ERROR maxCode"

definition ERR_getErrorCode :: "64 word \<Rightarrow> nat" where
  "ERR_getErrorCode code = (if \<not> ERR_isError code then 0 else unat (0 - code))"

fun ERR_getErrorString :: "ZSTD_ErrorCode \<Rightarrow> string" where
  "ERR_getErrorString no_error = ''No error detected''"
| "ERR_getErrorString GENERIC = ''Error (generic)''"
| "ERR_getErrorString prefix_unknown = ''Unknown frame descriptor''"
| "ERR_getErrorString version_unsupported = ''Version not supported''"
| "ERR_getErrorString frameParameter_unsupported = ''Unsupported frame parameter''"
| "ERR_getErrorString frameParameter_windowTooLarge = ''Frame requires too much memory for decoding''"
| "ERR_getErrorString corruption_detected = ''Corrupted block detected''"
| "ERR_getErrorString checksum_wrong = ''Restored data doesn'' @ CHR 0x27 # ''t match checksum''"
| "ERR_getErrorString parameter_unsupported = ''Unsupported parameter''"
| "ERR_getErrorString parameter_outOfBound = ''Parameter is out of bound''"
| "ERR_getErrorString init_missing = ''Context should be init first''"
| "ERR_getErrorString memory_allocation = ''Allocation error : not enough memory''"
| "ERR_getErrorString workSpace_tooSmall = ''workSpace buffer is not large enough''"
| "ERR_getErrorString stage_wrong = ''Operation not authorized at current processing stage''"
| "ERR_getErrorString tableLog_tooLarge = ''tableLog requires too much memory : unsupported''"
| "ERR_getErrorString maxSymbolValue_tooLarge = ''Unsupported max Symbol Value : too large''"
| "ERR_getErrorString maxSymbolValue_tooSmall = ''Specified maxSymbolValue is too small''"
| "ERR_getErrorString dictionary_corrupted = ''Dictionary is corrupted''"
| "ERR_getErrorString dictionary_wrong = ''Dictionary mismatch''"
| "ERR_getErrorString dictionaryCreation_failed = ''Cannot create Dictionary from provided samples''"
| "ERR_getErrorString dstSize_tooSmall = ''Destination buffer is too small''"
| "ERR_getErrorString srcSize_wrong = ''Src size is incorrect''"
| "ERR_getErrorString frameIndex_tooLarge = ''Frame index is too large''"
| "ERR_getErrorString seekableIO = ''An I/O error occurred when reading/seeking''"
| "ERR_getErrorString maxCode = ''Unspecified error code''"

text \<open>A result is a code or a value; \<open>size_of_result\<close> is the \<open>size_t\<close> that the program returns for it.\<close>

type_synonym 'a result = "ZSTD_ErrorCode + 'a"

definition size_of_result :: "nat result \<Rightarrow> 64 word" where
  "size_of_result r = (case r of Inl e \<Rightarrow> ERROR e | Inr n \<Rightarrow> of_nat n)"

lemma error_number_inject: "error_number a = error_number b \<Longrightarrow> a = b"
  by (cases a; cases b) simp_all

lemma unat_negative:
  assumes "0 < n" "n < 2 ^ 64"
  shows "unat (- of_nat n :: 64 word) = 2 ^ 64 - n"
proof -
  have "(of_nat (2 ^ 64 - n) :: 64 word) = of_nat (2 ^ 64) - of_nat n" using assms(2) by (simp only: of_nat_diff less_imp_le)
  then have "- of_nat n = (of_nat (2 ^ 64 - n) :: 64 word)" by simp
  then show ?thesis using assms(1) by (simp only: unsigned_of_nat) (simp add: take_bit_nat_eq_self)
qed

lemma unat_ERROR: "e \<noteq> no_error \<Longrightarrow> unat (ERROR e) = 2 ^ 64 - error_number e"
  unfolding ERROR_def by (rule unat_negative) (cases e; simp)+

lemma isError_iff: "ERR_isError code \<longleftrightarrow> 2 ^ 64 - 120 < unat code"
  using unat_ERROR [of maxCode] by (simp add: ERR_isError_def word_less_nat_alt)

lemma isError_ERROR: "ERR_isError (ERROR e) \<longleftrightarrow> e \<noteq> no_error \<and> e \<noteq> maxCode"
  by (cases e) (simp_all add: isError_iff unat_ERROR, simp add: ERROR_def)

lemma getErrorCode_ERROR: "e \<noteq> maxCode \<Longrightarrow> ERR_getErrorCode (ERROR e) = error_number e"
  by (cases e) (simp_all add: ERR_getErrorCode_def isError_ERROR, simp_all add: ERROR_def)

lemma size_not_error: "n \<le> 2 ^ 64 - 120 \<Longrightarrow> \<not> ERR_isError (size_of_result (Inr n))"
  by (simp add: isError_iff size_of_result_def unsigned_of_nat take_bit_nat_eq_self)

lemma result_by_size:
  assumes "r \<noteq> Inl no_error" "r \<noteq> Inl maxCode" "\<And>n. r = Inr n \<Longrightarrow> n \<le> 2 ^ 64 - 120"
  shows "r = (if ERR_isError (size_of_result r) then Inl (THE e. error_number e = ERR_getErrorCode (size_of_result r))
    else Inr (unat (size_of_result r)))"
proof (cases r)
  case (Inl e)
  then have "ERR_isError (size_of_result r)" "ERR_getErrorCode (size_of_result r) = error_number e"
    using assms(1,2) by (simp_all add: size_of_result_def isError_ERROR getErrorCode_ERROR)
  then show ?thesis using Inl by (simp add: the_equality error_number_inject)
next
  case (Inr n)
  then have "n \<le> 2 ^ 64 - 120" using assms(3) by blast
  then show ?thesis using size_not_error [of n] Inr by (simp add: size_of_result_def unsigned_of_nat take_bit_nat_eq_self)
qed

end
