(* ===== verification/Zstd_Bits.thy ===== *)
theory Zstd_Bits
  imports Zstd_Errors "HOL-Library.Monad_Syntax"
begin

text \<open>
  \<open>src/zstd/common/bitstream.h\<close> and what it uses of \<open>mem.h\<close>, on a machine with 64-bit \<open>size_t\<close>.
  A buffer is the list of its bytes and a pointer into it a position; an access outside of the buffer, a
  shift by 64 or more and an index outside of a table are \<open>None\<close>.
\<close>

section \<open>Memory\<close>

text \<open>Little-endian integers, as the \<open>MEM_\<close> functions read and write them on any machine.\<close>

fun le_nat :: "bytes \<Rightarrow> nat" where
  "le_nat [] = 0"
| "le_nat (b # bs) = unat b + 256 * le_nat bs"

fun le_list :: "nat \<Rightarrow> 64 word \<Rightarrow> bytes" where
  "le_list 0 v = []"
| "le_list (Suc n) v = ucast v # le_list n (drop_bit 8 v)"

definition MEM_readLE16 :: "bytes \<Rightarrow> nat \<Rightarrow> 16 word option" where
  "MEM_readLE16 mem p = (if p + 2 \<le> length mem then Some (of_nat (le_nat (take 2 (drop p mem)))) else None)"

definition MEM_readLE24 :: "bytes \<Rightarrow> nat \<Rightarrow> 32 word option" where
  "MEM_readLE24 mem p = (if p + 3 \<le> length mem then Some (of_nat (le_nat (take 3 (drop p mem)))) else None)"

definition MEM_readLE32 :: "bytes \<Rightarrow> nat \<Rightarrow> 32 word option" where
  "MEM_readLE32 mem p = (if p + 4 \<le> length mem then Some (of_nat (le_nat (take 4 (drop p mem)))) else None)"

definition MEM_readLE64 :: "bytes \<Rightarrow> nat \<Rightarrow> 64 word option" where
  "MEM_readLE64 mem p = (if p + 8 \<le> length mem then Some (of_nat (le_nat (take 8 (drop p mem)))) else None)"

text \<open>The bytes of a value, written over the memory at a position.\<close>

definition put_bytes :: "bytes \<Rightarrow> nat \<Rightarrow> bytes \<Rightarrow> bytes option" where
  "put_bytes mem p bs = (if p + length bs \<le> length mem then Some (take p mem @ bs @ drop (p + length bs) mem) else None)"

definition MEM_writeLE16 :: "bytes \<Rightarrow> nat \<Rightarrow> 16 word \<Rightarrow> bytes option" where
  "MEM_writeLE16 mem p v = put_bytes mem p (le_list 2 (ucast v))"

definition MEM_writeLE24 :: "bytes \<Rightarrow> nat \<Rightarrow> 32 word \<Rightarrow> bytes option" where
  "MEM_writeLE24 mem p v = put_bytes mem p (le_list 3 (ucast v))"

definition MEM_writeLE32 :: "bytes \<Rightarrow> nat \<Rightarrow> 32 word \<Rightarrow> bytes option" where
  "MEM_writeLE32 mem p v = put_bytes mem p (le_list 4 (ucast v))"

definition MEM_writeLE64 :: "bytes \<Rightarrow> nat \<Rightarrow> 64 word \<Rightarrow> bytes option" where
  "MEM_writeLE64 mem p v = put_bytes mem p (le_list 8 v)"

definition MEM_readLEST :: "bytes \<Rightarrow> nat \<Rightarrow> 64 word option" where
  "MEM_readLEST mem p = (if p + 8 \<le> length mem then Some (of_nat (le_nat (take 8 (drop p mem)))) else None)"

definition MEM_writeLEST :: "bytes \<Rightarrow> nat \<Rightarrow> 64 word \<Rightarrow> bytes option" where
  "MEM_writeLEST mem p v = (if p + 8 \<le> length mem then Some (take p mem @ le_list 8 v @ drop (p + 8) mem) else None)"

text \<open>The position of the highest bit of a number that is not 0.\<close>

fun highest_bit :: "nat \<Rightarrow> nat" where
  "highest_bit n = (if n < 2 then 0 else Suc (highest_bit (n div 2)))"

declare highest_bit.simps [simp del]

definition BIT_highbit32 :: "32 word \<Rightarrow> nat option" where
  "BIT_highbit32 val = (if val = 0 then None else Some (highest_bit (unat val)))"

definition BIT_mask :: "64 word list" where
  "BIT_mask =
    [0,          1,         3,         7,         0xF,       0x1F,
     0x3F,       0x7F,      0xFF,      0x1FF,     0x3FF,     0x7FF,
     0xFFF,      0x1FFF,    0x3FFF,    0x7FFF,    0xFFFF,    0x1FFFF,
     0x3FFFF,    0x7FFFF,   0xFFFFF,   0x1FFFFF,  0x3FFFFF,  0x7FFFFF,
     0xFFFFFF,   0x1FFFFFF, 0x3FFFFFF, 0x7FFFFFF, 0xFFFFFFF, 0x1FFFFFFF,
     0x3FFFFFFF, 0x7FFFFFFF]"

section \<open>Encoding\<close>

text \<open>The buffer begins at \<open>startPtr\<close>, position 0.\<close>

record BIT_CStream_t =
  cs_container :: "64 word"
  cs_bitPos :: nat
  cs_ptr :: nat
  cs_endPtr :: nat
  cs_buffer :: bytes

definition BIT_initCStream :: "bytes \<Rightarrow> unit result \<times> BIT_CStream_t" where
  "BIT_initCStream buffer =
     (if length buffer \<le> 8 then Inl dstSize_tooSmall else Inr (),
      \<lparr>cs_container = 0, cs_bitPos = 0, cs_ptr = 0, cs_endPtr = length buffer - 8, cs_buffer = buffer\<rparr>)"

definition BIT_addBits :: "64 word \<Rightarrow> nat \<Rightarrow> BIT_CStream_t \<Rightarrow> BIT_CStream_t option" where
  "BIT_addBits v nbBits c =
     (if nbBits < 32 \<and> cs_bitPos c < 64
      then Some (c\<lparr>cs_container := cs_container c OR push_bit (cs_bitPos c) (v AND BIT_mask ! nbBits),
                   cs_bitPos := cs_bitPos c + nbBits\<rparr>)
      else None)"

definition BIT_addBitsFast :: "64 word \<Rightarrow> nat \<Rightarrow> BIT_CStream_t \<Rightarrow> BIT_CStream_t option" where
  "BIT_addBitsFast v nbBits c =
     (if cs_bitPos c < 64
      then Some (c\<lparr>cs_container := cs_container c OR push_bit (cs_bitPos c) v, cs_bitPos := cs_bitPos c + nbBits\<rparr>)
      else None)"

text \<open>The two ways to flush differ in the test for the end of the buffer.\<close>

definition flush_to :: "(nat \<Rightarrow> nat) \<Rightarrow> BIT_CStream_t \<Rightarrow> BIT_CStream_t option" where
  "flush_to limit c =
     (if cs_bitPos c < 64 then do {
        let nbBytes = drop_bit 3 (cs_bitPos c);
        buffer \<leftarrow> MEM_writeLEST (cs_buffer c) (cs_ptr c) (cs_container c);
        Some (c\<lparr>cs_buffer := buffer, cs_ptr := limit (cs_ptr c + nbBytes), cs_bitPos := cs_bitPos c AND 7,
                cs_container := drop_bit (nbBytes * 8) (cs_container c)\<rparr>)
      }
      else None)"

definition BIT_flushBitsFast :: "BIT_CStream_t \<Rightarrow> BIT_CStream_t option" where
  "BIT_flushBitsFast c = flush_to (\<lambda>p. p) c"

definition BIT_flushBits :: "BIT_CStream_t \<Rightarrow> BIT_CStream_t option" where
  "BIT_flushBits c = flush_to (\<lambda>p. if p > cs_endPtr c then cs_endPtr c else p) c"

definition BIT_closeCStream :: "BIT_CStream_t \<Rightarrow> (nat \<times> BIT_CStream_t) option" where
  "BIT_closeCStream c = do {
     c \<leftarrow> BIT_addBitsFast 1 1 c;
     c \<leftarrow> BIT_flushBits c;
     Some (if cs_ptr c \<ge> cs_endPtr c then 0 else cs_ptr c + (if cs_bitPos c > 0 then 1 else 0), c)
   }"

section \<open>Decoding\<close>

datatype BIT_DStream_status = BIT_DStream_unfinished | BIT_DStream_endOfBuffer | BIT_DStream_completed | BIT_DStream_overflow

text \<open>\<open>start\<close> is position 0 of the source. \<open>bitsConsumed\<close> is an \<open>unsigned\<close>, whose sum wraps around.\<close>

record BIT_DStream_t =
  ds_container :: "64 word"
  ds_consumed :: nat
  ds_ptr :: nat
  ds_limitPtr :: nat

definition BIT_initDStream :: "bytes \<Rightarrow> nat result \<times> BIT_DStream_t" where
  "BIT_initDStream src =
     (if src = [] then (Inl srcSize_wrong, \<lparr>ds_container = 0, ds_consumed = 0, ds_ptr = 0, ds_limitPtr = 0\<rparr>)
      else let size = length src; lastByte = last src;
               unused = (case BIT_highbit32 (ucast lastByte) of None \<Rightarrow> 0 | Some b \<Rightarrow> 8 - b)
        in if size \<ge> 8
           then (if lastByte = 0 then Inl GENERIC else Inr size,
                 \<lparr>ds_container = of_nat (le_nat (drop (size - 8) src)), ds_consumed = unused, ds_ptr = size - 8, ds_limitPtr = 8\<rparr>)
           else (if lastByte = 0 then Inl corruption_detected else Inr size,
                 \<lparr>ds_container = of_nat (le_nat src), ds_consumed = unused + (if lastByte = 0 then 0 else (8 - size) * 8),
                  ds_ptr = 0, ds_limitPtr = 8\<rparr>))"

definition BIT_getUpperBits :: "64 word \<Rightarrow> nat \<Rightarrow> 64 word option" where
  "BIT_getUpperBits bitContainer start = (if start < 64 then Some (drop_bit start bitContainer) else None)"

text \<open>The second function without the \<open>BMI\<close> instructions; an assertion keeps \<open>nbBits\<close> within the mask.\<close>

definition BIT_getMiddleBits :: "64 word \<Rightarrow> nat \<Rightarrow> nat \<Rightarrow> 64 word option" where
  "BIT_getMiddleBits bitContainer start nbBits =
     (if start < 64 \<and> nbBits < 32 then Some (drop_bit start bitContainer AND BIT_mask ! nbBits) else None)"

definition BIT_getLowerBits :: "64 word \<Rightarrow> nat \<Rightarrow> 64 word option" where
  "BIT_getLowerBits bitContainer nbBits = (if nbBits < 32 then Some (bitContainer AND BIT_mask ! nbBits) else None)"

definition BIT_lookBits :: "BIT_DStream_t \<Rightarrow> nat \<Rightarrow> 64 word" where
  "BIT_lookBits d nbBits =
     drop_bit (nat ((63 - int nbBits) mod 64)) (drop_bit 1 (push_bit (ds_consumed d mod 64) (ds_container d)))"

definition BIT_lookBitsFast :: "BIT_DStream_t \<Rightarrow> nat \<Rightarrow> 64 word" where
  "BIT_lookBitsFast d nbBits =
     drop_bit (nat ((64 - int nbBits) mod 64)) (push_bit (ds_consumed d mod 64) (ds_container d))"

definition BIT_skipBits :: "nat \<Rightarrow> BIT_DStream_t \<Rightarrow> BIT_DStream_t" where
  "BIT_skipBits nbBits d = d\<lparr>ds_consumed := (ds_consumed d + nbBits) mod 2 ^ 32\<rparr>"

definition BIT_readBits :: "nat \<Rightarrow> BIT_DStream_t \<Rightarrow> 64 word \<times> BIT_DStream_t" where
  "BIT_readBits nbBits d = (BIT_lookBits d nbBits, BIT_skipBits nbBits d)"

definition BIT_readBitsFast :: "nat \<Rightarrow> BIT_DStream_t \<Rightarrow> 64 word \<times> BIT_DStream_t" where
  "BIT_readBitsFast nbBits d = (BIT_lookBitsFast d nbBits, BIT_skipBits nbBits d)"

definition BIT_reloadDStream :: "bytes \<Rightarrow> BIT_DStream_t \<Rightarrow> (BIT_DStream_status \<times> BIT_DStream_t) option" where
  "BIT_reloadDStream src d =
     (if ds_consumed d > 64 then Some (BIT_DStream_overflow, d)
      else if ds_ptr d \<ge> ds_limitPtr d then do {
        let p = ds_ptr d - drop_bit 3 (ds_consumed d);
        container \<leftarrow> MEM_readLEST src p;
        Some (BIT_DStream_unfinished, d\<lparr>ds_ptr := p, ds_consumed := ds_consumed d AND 7, ds_container := container\<rparr>)
      }
      else if ds_ptr d = 0 then
        Some (if ds_consumed d < 64 then BIT_DStream_endOfBuffer else BIT_DStream_completed, d)
      else do {
        let wanted = drop_bit 3 (ds_consumed d);
        let nbBytes = (if ds_ptr d < wanted then ds_ptr d else wanted);
        container \<leftarrow> MEM_readLEST src (ds_ptr d - nbBytes);
        Some (if ds_ptr d < wanted then BIT_DStream_endOfBuffer else BIT_DStream_unfinished,
          d\<lparr>ds_ptr := ds_ptr d - nbBytes, ds_consumed := ds_consumed d - nbBytes * 8, ds_container := container\<rparr>)
      })"

definition BIT_endOfDStream :: "BIT_DStream_t \<Rightarrow> bool" where
  "BIT_endOfDStream d \<longleftrightarrow> ds_ptr d = 0 \<and> ds_consumed d = 64"

end
