(* ===== verification/Zstd_Fse.thy ===== *)
theory Zstd_Fse
  imports Zstd_Bits
begin

text \<open>
  The entropy decoding of zstd: \<open>src/zstd/common/entropy_common.c\<close>, \<open>fse_decompress.c\<close> and the decoding part of
  \<open>fse.h\<close>. What is passed back through pointers is part of the result of a call that succeeds. An access outside of
  an array, a read of a cell that was not written, an undefined shift and a loop that does not end are \<open>None\<close>.
\<close>

definition FSE_MIN_TABLELOG :: nat where "FSE_MIN_TABLELOG = 5"
definition FSE_MAX_TABLELOG :: nat where "FSE_MAX_TABLELOG = 14 - 2"
definition FSE_TABLELOG_ABSOLUTE_MAX :: nat where "FSE_TABLELOG_ABSOLUTE_MAX = 15"
definition FSE_MAX_SYMBOL_VALUE :: nat where "FSE_MAX_SYMBOL_VALUE = 255"
definition HUF_TABLELOG_MAX :: nat where "HUF_TABLELOG_MAX = 12"

definition store_at :: "'a list \<Rightarrow> nat \<Rightarrow> 'a \<Rightarrow> 'a list option" where
  "store_at xs i x = (if i < length xs then Some (xs[i := x]) else None)"

definition fetch :: "'a list \<Rightarrow> nat \<Rightarrow> 'a option" where
  "fetch xs i = (if i < length xs then Some (xs ! i) else None)"

definition right_shift :: "32 word \<Rightarrow> int \<Rightarrow> 32 word option" where
  "right_shift w n = (if 0 \<le> n \<and> n < 32 then Some (drop_bit (nat n) w) else None)"

text \<open>The cast to \<open>short\<close>.\<close>

definition short :: "int \<Rightarrow> int" where
  "short c = signed_take_bit 15 c"

section \<open>Reading the counts\<close>

text \<open>The local variables of the loop of \<open>FSE_readNCount\<close>; \<open>ip\<close> is a position in the header.\<close>

record ncount =
  normalizedCounter :: "int list"
  charnum :: nat
  ip :: nat
  bitStream :: "32 word"
  bitCount :: int
  remaining :: int
  threshold :: int
  nbBits :: int
  previous0 :: bool

text \<open>The two loops that count symbols of probability 0; \<open>n0\<close> is unsigned.\<close>

function zeros_24 :: "bytes \<Rightarrow> nat \<Rightarrow> nat \<Rightarrow> 32 word \<Rightarrow> int \<Rightarrow> (nat \<times> nat \<times> 32 word \<times> int) option" where
  "zeros_24 src n0 p stream cnt =
     (if stream AND 0xFFFF \<noteq> 0xFFFF then Some (n0, p, stream, cnt)
      else if int p < int (length src) - 5 then do {
        w \<leftarrow> MEM_readLE32 src (p + 2);
        s \<leftarrow> right_shift w cnt;
        zeros_24 src ((n0 + 24) mod 2 ^ 32) (p + 2) s cnt
      }
      else zeros_24 src ((n0 + 24) mod 2 ^ 32) p (drop_bit 16 stream) (cnt + 16))"
  by auto

lemma shift_less:
  fixes w :: "32 word"
  assumes "w \<noteq> 0" "0 < n"
  shows "unat (drop_bit n w) < unat w"
proof -
  have "(1 :: nat) < 2 ^ n" using assms(2) by (intro one_less_power) simp_all
  then have "unat w div 2 ^ n < unat w" using assms(1) by (intro div_less_dividend) (simp_all add: unat_gt_0)
  moreover have "unat w < 2 ^ LENGTH(32)" by (rule unsigned_less)
  ultimately show ?thesis by (simp add: unsigned_drop_bit_eq drop_bit_nat_def take_bit_nat_eq_self)
qed

termination zeros_24
proof (relation "measures [\<lambda>(src, n0, p, s, c). length src - p, \<lambda>(src, n0, p, s, c). unat s]", goal_cases)
  case (3 src n0 p stream cnt)
  then have "stream \<noteq> 0" by auto
  then show ?case by (simp add: shift_less)
qed auto

function zeros_3 :: "nat \<Rightarrow> 32 word \<Rightarrow> int \<Rightarrow> nat \<times> 32 word \<times> int" where
  "zeros_3 n0 stream cnt =
     (if stream AND 3 = 3 then zeros_3 ((n0 + 3) mod 2 ^ 32) (drop_bit 2 stream) (cnt + 2) else (n0, stream, cnt))"
  by auto
termination
proof (relation "measure (\<lambda>(n0, s, c). unat s)", goal_cases)
  case (2 n0 stream cnt)
  then have "stream \<noteq> 0" by auto
  then show ?case by (simp add: shift_less)
qed simp

declare zeros_24.simps [simp del] zeros_3.simps [simp del]

text \<open>\<open>while (charnum < n0) normalizedCounter[charnum++] = 0\<close>\<close>

fun put_zeros :: "nat \<Rightarrow> nat \<Rightarrow> int list \<Rightarrow> int list option" where
  "put_zeros i 0 counts = Some counts"
| "put_zeros i (Suc n) counts = Option.bind (store_at counts i 0) (put_zeros (i + 1) n)"

definition may_advance :: "bytes \<Rightarrow> nat \<Rightarrow> int \<Rightarrow> bool" where
  "may_advance src p cnt \<longleftrightarrow> int p \<le> int (length src) - 7 \<or> int p + cnt div 8 \<le> int (length src) - 4"

text \<open>The branch for \<open>previous0\<close>.\<close>

definition read_zeros :: "bytes \<Rightarrow> nat \<Rightarrow> ncount \<Rightarrow> ncount result option" where
  "read_zeros src maxSV st = do {
     (n0, p, s, cnt) \<leftarrow> zeros_24 src (charnum st) (ip st) (bitStream st) (bitCount st);
     let (n0, s, cnt) = zeros_3 n0 s cnt;
     let n0 = (n0 + unat (s AND 3)) mod 2 ^ 32;
     let cnt = cnt + 2;
     if n0 > maxSV then Some (Inl maxSymbolValue_tooSmall)
     else do {
       counts \<leftarrow> put_zeros (charnum st) (n0 - charnum st) (normalizedCounter st);
       let st = st\<lparr>normalizedCounter := counts, charnum := max (charnum st) n0\<rparr>;
       if may_advance src p cnt then do {
         let p = p + nat (cnt div 8);
         w \<leftarrow> MEM_readLE32 src p;
         s \<leftarrow> right_shift w (cnt mod 8);
         Some (Inr (st\<lparr>ip := p, bitCount := cnt mod 8, bitStream := s\<rparr>))
       }
       else Some (Inr (st\<lparr>ip := p, bitCount := cnt, bitStream := drop_bit 2 s\<rparr>))
     }
   }"

text \<open>\<open>while (remaining < threshold)\<close>, which does not end for a negative \<open>remaining\<close>.\<close>

function shrink :: "int \<Rightarrow> int \<Rightarrow> int \<Rightarrow> (int \<times> int) option" where
  "shrink rest t nb =
     (if t \<le> rest then Some (t, nb) else if t \<le> 0 then None else shrink rest (t div 2) (nb - 1))"
  by auto
termination by (relation "measure (\<lambda>(r, t, nb). nat t)") auto

declare shrink.simps [simp del]

text \<open>The count in front of the stream, and how many bits it takes.\<close>

definition next_count :: "ncount \<Rightarrow> int \<times> int" where
  "next_count st =
     (let m = (2 * threshold st - 1) - remaining st;
          low = bitStream st AND of_int (threshold st - 1);
          high = uint (bitStream st AND of_int (2 * threshold st - 1))
      in if low < of_int m then (uint low, nbBits st - 1)
         else (if high \<ge> threshold st then high - m else high, nbBits st))"

text \<open>The position, the bits used there and the stream after a count.\<close>

definition refill :: "bytes \<Rightarrow> nat \<Rightarrow> int \<Rightarrow> (nat \<times> int \<times> 32 word) option" where
  "refill src p cnt = do {
     let (p, cnt) =
       (if may_advance src p cnt then (int p + cnt div 8, cnt mod 8)
        else (int (length src) - 4, cnt - 8 * (int (length src) - 4 - int p)));
     w \<leftarrow> (if 0 \<le> p then MEM_readLE32 src (nat p) else None);
     Some (nat p, cnt, drop_bit (nat (cnt mod 32)) w)
   }"

definition read_count :: "bytes \<Rightarrow> ncount \<Rightarrow> ncount option" where
  "read_count src st = do {
     let (count, used) = next_count st;
     let cnt = bitCount st + used;
     let count = count - 1;
     let rest = remaining st - \<bar>count\<bar>;
     counts \<leftarrow> store_at (normalizedCounter st) (charnum st) (short count);
     (t, nb) \<leftarrow> shrink rest (threshold st) (nbBits st);
     (p, cnt, s) \<leftarrow> refill src (ip st) cnt;
     Some \<lparr>normalizedCounter = counts, charnum = charnum st + 1, ip = p, bitStream = s,
       bitCount = cnt, remaining = rest, threshold = t, nbBits = nb, previous0 = (count = 0)\<rparr>
   }"

definition ncount_step :: "bytes \<Rightarrow> nat \<Rightarrow> ncount \<Rightarrow> ncount result option" where
  "ncount_step src maxSV st = do {
     r \<leftarrow> (if previous0 st then read_zeros src maxSV st else Some (Inr st));
     case r of Inl e \<Rightarrow> Some (Inl e) | Inr st \<Rightarrow> map_option Inr (read_count src st)
   }"

lemma read_zeros_charnum: "read_zeros src maxSV st = Some (Inr st') \<Longrightarrow> charnum st \<le> charnum st'"
  by (auto simp: read_zeros_def Let_def split: Option.bind_split_asm if_split_asm prod.split_asm)

lemma read_count_charnum: "read_count src st = Some st' \<Longrightarrow> charnum st' = charnum st + 1"
  by (auto simp: read_count_def Let_def split: Option.bind_split_asm prod.split_asm)

lemma ncount_step_charnum: "ncount_step src maxSV st = Some (Inr st') \<Longrightarrow> charnum st < charnum st'"
  by (auto simp: ncount_step_def split: Option.bind_split_asm if_split_asm sum.split_asm dest!: read_zeros_charnum read_count_charnum)

function ncount_loop :: "bytes \<Rightarrow> nat \<Rightarrow> ncount \<Rightarrow> ncount result option" where
  "ncount_loop src maxSV st =
     (if remaining st > 1 \<and> charnum st \<le> maxSV then do {
        r \<leftarrow> ncount_step src maxSV st;
        case r of Inl e \<Rightarrow> Some (Inl e) | Inr st' \<Rightarrow> ncount_loop src maxSV st'
      }
      else Some (Inr st))"
  by auto
termination
  by (relation "measure (\<lambda>(src, maxSV, st). Suc maxSV - charnum st)") (auto dest: ncount_step_charnum)

declare ncount_loop.simps [simp del]

text \<open>A header of at least 4 bytes: its length, the counts, the last symbol and the table's logarithm.\<close>

definition read_header :: "int list \<Rightarrow> nat \<Rightarrow> bytes \<Rightarrow> (nat \<times> int list \<times> nat \<times> nat) result option" where
  "read_header counts maxSV src =
     (if length counts < maxSV + 1 then None
      else do {
        w \<leftarrow> MEM_readLE32 src 0;
        let tableLog = unat (w AND 0xF) + FSE_MIN_TABLELOG;
        if tableLog > FSE_TABLELOG_ABSOLUTE_MAX then Some (Inl tableLog_tooLarge)
        else do {
          r \<leftarrow> ncount_loop src maxSV
            \<lparr>normalizedCounter = replicate (maxSV + 1) 0 @ drop (maxSV + 1) counts, charnum = 0, ip = 0, bitStream = drop_bit 4 w,
              bitCount = 4, remaining = 2 ^ tableLog + 1, threshold = 2 ^ tableLog, nbBits = int tableLog + 1, previous0 = False\<rparr>;
          case r of Inl e \<Rightarrow> Some (Inl e)
          | Inr st \<Rightarrow> Some (if remaining st \<noteq> 1 then Inl corruption_detected
              else if bitCount st > 32 then Inl corruption_detected
              else Inr (nat (int (ip st) + (bitCount st + 7) div 8), normalizedCounter st, charnum st - 1, tableLog))
        }
      })"

definition FSE_readNCount :: "int list \<Rightarrow> nat \<Rightarrow> bytes \<Rightarrow> (nat \<times> int list \<times> nat \<times> nat) result option" where
  "FSE_readNCount counts maxSV header =
     (if length header < 4 then do {
        r \<leftarrow> read_header counts maxSV (header @ replicate (4 - length header) 0);
        Some (case r of Inl e \<Rightarrow> Inl e
          | Inr (countSize, x) \<Rightarrow> if countSize > length header then Inl corruption_detected else Inr (countSize, x))
      }
      else read_header counts maxSV header)"

end
