(* ===== verification/Zstd_Fse_Spec.thy ===== *)
theory Zstd_Fse_Spec
  imports Zstd_Fse
begin

text \<open>
  Reading the counts: the accesses stay inside of the header and of the array of counts, and the counts that
  are accepted sum up to the size of the table.
\<close>

section \<open>The loops over zeros\<close>

lemma readLE32_inside: "p + 4 \<le> length src \<Longrightarrow> \<exists>w. MEM_readLE32 src p = Some w"
  by (simp add: MEM_readLE32_def)

lemma zeros_24_safe:
  assumes "p + 4 \<le> length src" "0 \<le> cnt" "int p < int (length src) - 5 \<longrightarrow> cnt < 8"
  shows "\<exists>n' p' s' cnt'. zeros_24 src n0 p s cnt = Some (n', p', s', cnt') \<and> p' + 4 \<le> length src \<and> 0 \<le> cnt' \<and>
    (int p' < int (length src) - 5 \<longrightarrow> cnt' < 8) \<and> s' AND 0xFFFF \<noteq> 0xFFFF"
  using assms
proof (induction src n0 p s cnt rule: zeros_24.induct)
  case (1 src n0 p s cnt)
  show ?case
  proof (cases "s AND 0xFFFF = 0xFFFF")
    case False
    then show ?thesis using "1.prems" by (subst zeros_24.simps) simp
  next
    case ones: True
    show ?thesis
    proof (cases "int p < int (length src) - 5")
      case True
      then obtain w where w: "MEM_readLE32 src (p + 2) = Some w" using readLE32_inside [of "p + 2" src] by auto
      have c: "right_shift w cnt = Some (drop_bit (nat cnt) w)" using "1.prems" True by (simp add: right_shift_def)
      have "zeros_24 src n0 p s cnt = zeros_24 src ((n0 + 24) mod 2 ^ 32) (p + 2) (drop_bit (nat cnt) w) cnt"
        using ones True w c by (subst zeros_24.simps) simp
      then show ?thesis using "1.IH"(1) [OF _ True w c] ones "1.prems" True by auto
    next
      case False
      then have "zeros_24 src n0 p s cnt = zeros_24 src ((n0 + 24) mod 2 ^ 32) p (drop_bit 16 s) (cnt + 16)"
        using ones by (subst zeros_24.simps) simp
      then show ?thesis using "1.IH"(2) [OF _ False] ones "1.prems" False by auto
    qed
  qed
qed

lemma mask_shift:
  fixes s :: "32 word"
  assumes "s AND 3 = 3" "drop_bit 2 s AND mask k = mask k"
  shows "s AND mask (k + 2) = mask (k + 2)"
proof (rule bit_word_eqI)
  fix i assume i: "i < LENGTH(32)"
  have three: "(3 :: 32 word) = mask 2" by (simp add: mask_eq_exp_minus_1)
  have low: "bit s i" if "i < 2"
    using arg_cong [OF assms(1), of "\<lambda>w. bit w i"] that i unfolding three by (auto simp: bit_and_iff bit_mask_iff)
  have high: "bit s i" if "2 \<le> i" "i < k + 2"
  proof -
    have "bit (drop_bit 2 s) (i - 2)"
      using arg_cong [OF assms(2), of "\<lambda>w. bit w (i - 2)"] that i by (auto simp: bit_and_iff bit_mask_iff)
    moreover have "2 + (i - 2) = i" using that by simp
    ultimately show ?thesis by (simp only: bit_drop_bit_eq comp_apply)
  qed
  show "bit (s AND mask (k + 2)) i = bit (mask (k + 2) :: 32 word) i"
    using low high i by (cases "i < 2") (auto simp: bit_and_iff bit_mask_iff)
qed

lemma zeros_3_bound:
  assumes "zeros_3 n s cnt = (n', s', cnt')"
  shows "\<exists>k. cnt' = cnt + 2 * int k \<and> s AND mask (2 * k) = mask (2 * k)"
  using assms
proof (induction n s cnt rule: zeros_3.induct)
  case (1 n s cnt)
  show ?case
  proof (cases "s AND 3 = 3")
    case False
    then show ?thesis using "1.prems" by (subst (asm) zeros_3.simps) (auto intro: exI [of _ 0])
  next
    case True
    then have "zeros_3 ((n + 3) mod 2 ^ 32) (drop_bit 2 s) (cnt + 2) = (n', s', cnt')"
      using "1.prems" by (subst (asm) zeros_3.simps) simp
    from "1.IH" [OF True this] obtain k where k: "cnt' = cnt + 2 + 2 * int k" "drop_bit 2 s AND mask (2 * k) = mask (2 * k)" by blast
    then show ?thesis using mask_shift [OF True k(2)] by (intro exI [of _ "k + 1"]) simp
  qed
qed

text \<open>Behind the first loop, the second one takes at most 14 bits.\<close>

lemma zeros_3_short:
  assumes "zeros_3 n s cnt = (n', s', cnt')" "s AND 0xFFFF \<noteq> 0xFFFF"
  shows "cnt \<le> cnt' \<and> cnt' \<le> cnt + 14"
proof -
  obtain k where k: "cnt' = cnt + 2 * int k" "s AND mask (2 * k) = mask (2 * k)" using zeros_3_bound [OF assms(1)] by blast
  have "k < 8"
  proof (rule ccontr)
    assume "\<not> k < 8"
    have "s AND mask 16 = mask 16"
    proof (rule bit_word_eqI)
      fix i assume i: "i < LENGTH(32)"
      have "bit s i" if "i < 16" using arg_cong [OF k(2), of "\<lambda>w. bit w i"] that i \<open>\<not> k < 8\<close>
        by (auto simp: bit_and_iff bit_mask_iff)
      then show "bit (s AND mask 16) i = bit (mask 16 :: 32 word) i" using i by (auto simp: bit_and_iff bit_mask_iff)
    qed
    then show False using assms(2) by (simp add: mask_eq_exp_minus_1)
  qed
  then show ?thesis using k(1) by simp
qed

section \<open>A pass of the loop\<close>

lemma put_zeros_counts:
  assumes "i + n \<le> length cs"
  shows "\<exists>cs'. put_zeros i n cs = Some cs' \<and> length cs' = length cs \<and> (\<forall>j. cs' ! j = (if i \<le> j \<and> j < i + n then 0 else cs ! j))"
  using assms
proof (induction n arbitrary: i cs)
  case (Suc n)
  have "i + 1 + n \<le> length (cs[i := 0])" using Suc.prems by simp
  from Suc.IH [OF this] obtain cs' where c: "put_zeros (i + 1) n (cs[i := 0]) = Some cs'" "length cs' = length cs"
    "\<And>j. cs' ! j = (if i + 1 \<le> j \<and> j < i + 1 + n then 0 else cs[i := 0] ! j)" by auto
  moreover have "put_zeros i (Suc n) cs = Some cs'" using Suc.prems c(1) by (simp add: store_at_def)
  moreover have "cs' ! j = (if i \<le> j \<and> j < i + Suc n then 0 else cs ! j)" for j
    using Suc.prems by (cases "j = i") (auto simp: c(3))
  ultimately show ?case by blast
qed simp

text \<open>
  The invariant of the loop. \<open>position_ok\<close> is about the header; \<open>strict\<close> holds between the passes but not
  necessarily after the zeros. The counts so far and what remains make the size of the table.
\<close>

definition position_ok :: "bytes \<Rightarrow> bool \<Rightarrow> ncount \<Rightarrow> bool" where
  "position_ok src strict st \<longleftrightarrow> ip st + 4 \<le> length src \<and> 0 \<le> bitCount st \<and>
     (ip st + (if strict then 5 else 7) \<le> length src \<longrightarrow> bitCount st < 8)"

definition counted :: "ncount \<Rightarrow> nat \<Rightarrow> int" where
  "counted st n = (\<Sum>i<n. \<bar>normalizedCounter st ! i\<bar>)"

definition counts_ok :: "nat \<Rightarrow> nat \<Rightarrow> ncount \<Rightarrow> bool" where
  "counts_ok cap tableLog st \<longleftrightarrow> length (normalizedCounter st) = cap \<and>
     (\<exists>j \<le> tableLog. threshold st = 2 ^ j \<and> nbBits st = int j + 1) \<and>
     threshold st \<le> remaining st \<and> remaining st < 2 * threshold st \<and> remaining st \<le> 2 ^ tableLog + 1 \<and>
     (tableLog < 15 \<longrightarrow> (\<forall>i < charnum st. -1 \<le> normalizedCounter st ! i) \<and>
        counted st (charnum st) + remaining st = 2 ^ tableLog + 1)"

lemma read_zeros_safe:
  assumes p: "position_ok src True st" and c: "counts_ok cap tableLog st" and m: "maxSV < cap"
  shows "\<exists>r. read_zeros src maxSV st = Some r \<and> (\<forall>st'. r = Inr st' \<longrightarrow>
    position_ok src False st' \<and> counts_ok cap tableLog st' \<and> (charnum st \<le> maxSV \<longrightarrow> charnum st' \<le> maxSV) \<and>
    remaining st' = remaining st)"
proof -
  obtain n1 p1 s1 cnt1 where z: "zeros_24 src (charnum st) (ip st) (bitStream st) (bitCount st) = Some (n1, p1, s1, cnt1)"
    "p1 + 4 \<le> length src" "0 \<le> cnt1" "int p1 < int (length src) - 5 \<longrightarrow> cnt1 < 8" "s1 AND 0xFFFF \<noteq> 0xFFFF"
    using zeros_24_safe [of "ip st" src "bitCount st" "charnum st" "bitStream st"] p by (auto simp: position_ok_def)
  obtain n2 s2 cnt2 where z3: "zeros_3 n1 s1 cnt1 = (n2, s2, cnt2)" using prod_cases3 by blast
  have c2: "cnt1 \<le> cnt2" "cnt2 \<le> cnt1 + 14" using zeros_3_short [OF z3 z(5)] by simp_all
  define n0 where "n0 = (n2 + unat (s2 AND 3)) mod 4294967296"
  show ?thesis
  proof (cases "n0 > maxSV")
    case True
    then show ?thesis using z(1) z3 by (simp add: read_zeros_def n0_def Let_def)
  next
    case False
    have len: "length (normalizedCounter st) = cap" using c by (simp add: counts_ok_def)
    have "charnum st + (n0 - charnum st) \<le> length (normalizedCounter st) \<or> n0 - charnum st = 0" using False m len by auto
    then obtain cs where cs: "put_zeros (charnum st) (n0 - charnum st) (normalizedCounter st) = Some cs" "length cs = cap"
      "\<And>j. cs ! j = (if charnum st \<le> j \<and> j < charnum st + (n0 - charnum st) then 0 else normalizedCounter st ! j)"
      using put_zeros_counts [of "charnum st" "n0 - charnum st" "normalizedCounter st"] len by (cases "n0 - charnum st") auto
    let ?st = "st\<lparr>normalizedCounter := cs, charnum := max (charnum st) n0\<rparr>"
    have sum: "counted ?st (max (charnum st) n0) = counted st (charnum st)"
    proof -
      have "counted ?st (max (charnum st) n0) = (\<Sum>i<max (charnum st) n0. if i < charnum st then \<bar>normalizedCounter st ! i\<bar> else 0)"
        unfolding counted_def by (rule sum.cong) (auto simp: cs(3) max_def split: if_splits)
      also have "\<dots> = counted st (charnum st)"
        unfolding counted_def by (rule sum.mono_neutral_cong_right) auto
      finally show ?thesis .
    qed
    have ok: "counts_ok cap tableLog ?st"
      using c cs(2) sum by (auto simp: counts_ok_def cs(3) max_def)
    have ok': "counts_ok cap tableLog (?st\<lparr>ip := i, bitCount := b, bitStream := w\<rparr>)" for i b w
      using ok by (simp add: counts_ok_def counted_def max_def)
    show ?thesis
    proof (cases "may_advance src p1 (cnt2 + 2)")
      case adv: True
      have le: "p1 + nat ((cnt2 + 2) div 8) + 4 \<le> length src"
        using adv z(2,3,4) c2 by (auto simp: may_advance_def)
      then obtain w where w: "MEM_readLE32 src (p1 + nat ((cnt2 + 2) div 8)) = Some w" using readLE32_inside by blast
      have "right_shift w ((cnt2 + 2) mod 8) = Some (drop_bit (nat ((cnt2 + 2) mod 8)) w)" by (simp add: right_shift_def)
      then show ?thesis using z(1) z3 False cs(1) adv w ok' le
        by (simp add: read_zeros_def n0_def [symmetric] position_ok_def Let_def)
    next
      case adv: False
      then have "\<not> int p1 \<le> int (length src) - 7" by (simp add: may_advance_def)
      then show ?thesis using z(1,2,3) z3 False cs(1) adv ok' c2
        by (simp add: read_zeros_def n0_def [symmetric] position_ok_def Let_def)
    qed
  qed
qed

lemma and_low:
  fixes w :: "32 word"
  shows "0 \<le> uint (w AND of_int (2 ^ j - 1)) \<and> uint (w AND of_int (2 ^ j - 1)) < 2 ^ j"
proof -
  have "(of_int (2 ^ j - 1) :: 32 word) = mask j" by (simp add: mask_eq_exp_minus_1)
  then have "w AND of_int (2 ^ j - 1) = take_bit j w" by (simp only: take_bit_eq_mask)
  then show ?thesis by (simp add: unsigned_take_bit_eq)
qed

lemma uint_of_small: "0 \<le> m \<Longrightarrow> m < 2 ^ 32 \<Longrightarrow> uint (of_int m :: 32 word) = m"
  by (simp add: unsigned_of_int take_bit_int_eq_self)

lemma next_count_bound:
  assumes c: "counts_ok cap tableLog st" and l: "tableLog \<le> 15" and r: "1 < remaining st" and n: "next_count st = (count, used)"
  shows "0 \<le> count \<and> count \<le> remaining st \<and> \<bar>count - 1\<bar> < remaining st \<and> 0 \<le> used \<and> used \<le> 16"
proof -
  obtain j where j: "j \<le> tableLog" "threshold st = 2 ^ j" "nbBits st = int j + 1" using c by (auto simp: counts_ok_def)
  let ?m = "(2 * threshold st - 1) - remaining st"
  have b: "threshold st \<le> remaining st" "remaining st < 2 * threshold st" using c by (simp_all add: counts_ok_def)
  have "(2 :: int) ^ j \<le> 2 ^ 15" using j(1) l by (intro power_increasing) simp_all
  then have m: "0 \<le> ?m" "?m < 2 ^ 32" using b j(2) by simp_all
  let ?low = "bitStream st AND of_int (threshold st - 1)" let ?high = "uint (bitStream st AND of_int (2 * threshold st - 1))"
  have low: "0 \<le> uint ?low" using and_low [of "bitStream st" j] j(2) by simp
  have high: "0 \<le> ?high" "?high < 2 * threshold st" using and_low [of "bitStream st" "j + 1"] j(2) by simp_all
  have "uint (of_int ?m :: 32 word) = ?m" by (rule uint_of_small [OF m])
  then have less: "?low < of_int ?m \<longleftrightarrow> uint ?low < ?m" by (simp add: word_less_def)
  have cu: "(count, used) = (if ?low < of_int ?m then (uint ?low, nbBits st - 1) else (if ?high \<ge> threshold st then ?high - ?m else ?high, nbBits st))"
    using n unfolding next_count_def Let_def by (rule sym)
  have "0 \<le> used \<and> used \<le> 16" using cu j l by (auto split: if_splits)
  moreover have "0 \<le> count \<and> count \<le> remaining st \<and> \<bar>count - 1\<bar> < remaining st"
  proof (cases "?low < of_int ?m")
    case True
    then have e: "count = uint ?low" "uint ?low < ?m" using cu less by simp_all
    have "0 \<le> count" "count < ?m" using low e(2) unfolding e(1) by simp_all
    then show ?thesis using b r by auto
  next
    case False
    then have e: "count = (if ?high \<ge> threshold st then ?high - ?m else ?high)" using cu by simp
    obtain x where x: "?high = x" by blast
    show ?thesis using high b r e unfolding x by (auto split: if_splits)
  qed
  ultimately show ?thesis by blast
qed

lemma shrink_ok:
  assumes "1 \<le> rest" "rest < 2 * 2 ^ j"
  shows "\<exists>i \<le> j. shrink rest (2 ^ j) (int j + 1) = Some (2 ^ i, int i + 1) \<and> 2 ^ i \<le> rest \<and> rest < 2 * 2 ^ i"
  using assms
proof (induction j)
  case 0
  then show ?case by (subst shrink.simps) simp
next
  case (Suc j)
  show ?case
  proof (cases "2 ^ Suc j \<le> rest")
    case True
    then show ?thesis using Suc.prems by (intro exI [of _ "Suc j"]) (subst shrink.simps, simp)
  next
    case False
    then have "shrink rest (2 ^ Suc j) (int (Suc j) + 1) = shrink rest (2 ^ j) (int j + 1)"
      by (subst shrink.simps) (simp add: not_le add.commute)
    moreover from Suc.IH [OF Suc.prems(1)] False obtain i where
      "i \<le> j" "shrink rest (2 ^ j) (int j + 1) = Some (2 ^ i, int i + 1)" "2 ^ i \<le> rest" "rest < 2 * 2 ^ i" by auto
    ultimately show ?thesis by (intro exI [of _ i]) simp
  qed
qed

lemma refill_safe:
  assumes "p + 4 \<le> length src" "0 \<le> cnt" "p + 7 \<le> length src \<longrightarrow> cnt < 24"
  shows "\<exists>p' cnt' s. refill src p cnt = Some (p', cnt', s) \<and> p' + 4 \<le> length src \<and> 0 \<le> cnt' \<and> (p' + 5 \<le> length src \<longrightarrow> cnt' < 8)"
proof (cases "may_advance src p cnt")
  case True
  have "int p + cnt div 8 + 4 \<le> int (length src)" using True assms by (auto simp: may_advance_def)
  moreover have "0 \<le> cnt div 8" using assms(2) by simp
  ultimately have "nat (int p + cnt div 8) + 4 \<le> length src" by arith
  moreover obtain w where "MEM_readLE32 src (nat (int p + cnt div 8)) = Some w" using readLE32_inside calculation by blast
  ultimately show ?thesis using True assms by (simp add: refill_def)
next
  case False
  then have "int p + cnt div 8 > int (length src) - 4" by (simp add: may_advance_def)
  then have c: "0 \<le> cnt - 8 * (int (length src) - 4 - int p)" by presburger
  have l: "nat (int (length src) - 4) + 4 = length src" using assms(1) by simp
  then obtain w where "MEM_readLE32 src (nat (int (length src) - 4)) = Some w" using readLE32_inside by (metis order_refl)
  then show ?thesis using False c l assms by (simp add: refill_def)
qed

lemma short_small: "-1 \<le> c \<Longrightarrow> c < 2 ^ 15 \<Longrightarrow> short c = c"
  by (simp add: short_def signed_take_bit_int_eq_self)

lemma read_count_safe:
  assumes p: "position_ok src False st" and c: "counts_ok cap tableLog st" and l: "tableLog \<le> 15"
    and r: "1 < remaining st" and m: "charnum st < cap"
  shows "\<exists>st'. read_count src st = Some st' \<and> position_ok src True st' \<and> counts_ok cap tableLog st' \<and> 1 \<le> remaining st'"
proof -
  obtain count used where n: "next_count st = (count, used)" by fastforce
  note b = next_count_bound [OF c l r n]
  let ?rest = "remaining st - \<bar>count - 1\<bar>"
  obtain j where j: "j \<le> tableLog" "threshold st = 2 ^ j" "nbBits st = int j + 1" using c by (auto simp: counts_ok_def)
  have "1 \<le> ?rest" "?rest < 2 * 2 ^ j" using b c j(2) by (auto simp: counts_ok_def)
  then obtain i where i: "i \<le> j" "shrink ?rest (2 ^ j) (int j + 1) = Some (2 ^ i, int i + 1)" "2 ^ i \<le> ?rest" "?rest < 2 * 2 ^ i"
    using shrink_ok by blast
  have len: "length (normalizedCounter st) = cap" using c by (simp add: counts_ok_def)
  let ?cs = "(normalizedCounter st)[charnum st := short (count - 1)]"
  have "ip st + 4 \<le> length src" "0 \<le> bitCount st + used" "ip st + 7 \<le> length src \<longrightarrow> bitCount st + used < 24"
    using p b by (auto simp: position_ok_def)
  then obtain p' cnt' s where f: "refill src (ip st) (bitCount st + used) = Some (p', cnt', s)" "p' + 4 \<le> length src" "0 \<le> cnt'"
    "p' + 5 \<le> length src \<longrightarrow> cnt' < 8" using refill_safe by blast
  let ?st = "\<lparr>normalizedCounter = ?cs, charnum = charnum st + 1, ip = p', bitStream = s, bitCount = cnt', remaining = ?rest,
    threshold = 2 ^ i, nbBits = int i + 1, previous0 = (count - 1 = 0)\<rparr>"
  have "read_count src st = Some ?st" using n j(2,3) i(2) f(1) len m by (simp add: read_count_def store_at_def Let_def)
  moreover have "position_ok src True ?st" using f(2,3,4) by (simp add: position_ok_def)
  moreover have "counts_ok cap tableLog ?st"
  proof -
    have sh: "short (count - 1) = count - 1" if "tableLog < 15"
    proof (rule short_small)
      have "(2 :: int) ^ tableLog \<le> 2 ^ 14" using that by (intro power_increasing) simp_all
      then show "count - 1 < 2 ^ 15" using b c by (auto simp: counts_ok_def)
    qed (use b in simp)
    have "counted ?st (charnum st + 1) = counted st (charnum st) + \<bar>count - 1\<bar>" if "tableLog < 15"
      using sh [OF that] m len by (simp add: counted_def)
    moreover have "\<forall>k < charnum st + 1. -1 \<le> ?cs ! k" if "tableLog < 15"
      using sh [OF that] m len b c that by (auto simp: counts_ok_def less_Suc_eq nth_list_update)
    ultimately show ?thesis using c i j(1) len by (auto simp: counts_ok_def)
  qed
  ultimately show ?thesis using \<open>1 \<le> ?rest\<close> by (intro exI [of _ ?st]) simp
qed

section \<open>The header\<close>

lemma ncount_step_safe:
  assumes "position_ok src True st" "counts_ok cap tableLog st" "tableLog \<le> 15" "1 < remaining st" "charnum st \<le> maxSV" "maxSV < cap"
  shows "\<exists>r. ncount_step src maxSV st = Some r \<and>
    (\<forall>st'. r = Inr st' \<longrightarrow> position_ok src True st' \<and> counts_ok cap tableLog st' \<and> 1 \<le> remaining st' \<and> charnum st' \<le> maxSV + 1)"
proof -
  obtain r where r: "(if previous0 st then read_zeros src maxSV st else Some (Inr st)) = Some r"
    "\<And>st'. r = Inr st' \<Longrightarrow> position_ok src False st' \<and> counts_ok cap tableLog st' \<and> charnum st' \<le> maxSV \<and> remaining st' = remaining st"
  proof (cases "previous0 st")
    case True
    then show ?thesis using that read_zeros_safe [OF assms(1,2,6)] assms(5) by auto
  next
    case False
    then show ?thesis using that [of "Inr st"] assms by (auto simp: position_ok_def)
  qed
  show ?thesis
  proof (cases r)
    case (Inl e)
    then show ?thesis using r(1) by (simp add: ncount_step_def)
  next
    case (Inr st1)
    note o = r(2) [OF Inr]
    have "1 < remaining st1" "charnum st1 < cap" using o assms(4,6) by simp_all
    then obtain st' where st': "read_count src st1 = Some st'" "position_ok src True st'" "counts_ok cap tableLog st'" "1 \<le> remaining st'"
      using read_count_safe [of src st1 cap tableLog] o assms(3) by blast
    then show ?thesis using r(1) Inr o read_count_charnum [OF st'(1)] by (simp add: ncount_step_def)
  qed
qed

lemma ncount_loop_safe:
  assumes "position_ok src True st" "counts_ok cap tableLog st" "tableLog \<le> 15" "1 \<le> remaining st" "charnum st \<le> maxSV + 1" "maxSV < cap"
  shows "\<exists>r. ncount_loop src maxSV st = Some r \<and> (\<forall>st'. r = Inr st' \<longrightarrow> position_ok src True st' \<and> counts_ok cap tableLog st' \<and>
    charnum st' \<le> maxSV + 1 \<and> (1 < remaining st \<longrightarrow> charnum st \<le> maxSV \<longrightarrow> charnum st < charnum st'))"
  using assms
proof (induction src maxSV st rule: ncount_loop.induct)
  case (1 src maxSV st)
  show ?case
  proof (cases "remaining st > 1 \<and> charnum st \<le> maxSV")
    case False
    then show ?thesis using "1.prems" by (subst ncount_loop.simps) auto
  next
    case True
    obtain r where r: "ncount_step src maxSV st = Some r"
      "\<And>st'. r = Inr st' \<Longrightarrow> position_ok src True st' \<and> counts_ok cap tableLog st' \<and> 1 \<le> remaining st' \<and> charnum st' \<le> maxSV + 1"
      using ncount_step_safe [OF "1.prems"(1,2,3) _ _ "1.prems"(6)] True by blast
    show ?thesis
    proof (cases r)
      case (Inl e)
      then show ?thesis using r(1) True by (subst ncount_loop.simps) simp
    next
      case (Inr st1)
      note o = r(2) [OF Inr]
      have gt: "charnum st < charnum st1" using ncount_step_charnum r(1) Inr by simp
      obtain r2 where r2: "ncount_loop src maxSV st1 = Some r2" "\<And>st'. r2 = Inr st' \<Longrightarrow> position_ok src True st' \<and> counts_ok cap tableLog st' \<and>
          charnum st' \<le> maxSV + 1 \<and> (1 < remaining st1 \<longrightarrow> charnum st1 \<le> maxSV \<longrightarrow> charnum st1 < charnum st')"
        using "1.IH" [OF True r(1) Inr] o "1.prems" by blast
      have "charnum st < charnum st'" if "r2 = Inr st'" for st'
      proof (cases "1 < remaining st1 \<and> charnum st1 \<le> maxSV")
        case True
        then show ?thesis using r2(2) [OF that] gt by simp
      next
        case False
        then have "r2 = Inr st1" using r2(1) by (subst (asm) ncount_loop.simps) auto
        then show ?thesis using that gt by simp
      qed
      then show ?thesis using r2 r(1) Inr True by (subst ncount_loop.simps) auto
    qed
  qed
qed

text \<open>What an accepted header says: \<open>sv\<close> is the last symbol, and the counts fill the table.\<close>

definition header_ok :: "nat \<Rightarrow> nat \<Rightarrow> bytes \<Rightarrow> nat \<times> int list \<times> nat \<times> nat \<Rightarrow> bool" where
  "header_ok cap maxSV src = (\<lambda>(n, cs, sv, tl). n \<le> length src \<and> length cs = cap \<and> sv \<le> maxSV \<and> 5 \<le> tl \<and> tl \<le> 15 \<and>
     (tl < 15 \<longrightarrow> (\<forall>i \<le> sv. -1 \<le> cs ! i) \<and> (\<Sum>i<Suc sv. \<bar>cs ! i\<bar>) = 2 ^ tl))"

lemma read_header_safe:
  assumes "maxSV < length counts" "4 \<le> length src"
  shows "\<exists>r. read_header counts maxSV src = Some r \<and> (\<forall>x. r = Inr x \<longrightarrow> header_ok (length counts) maxSV src x)"
proof -
  obtain w where w: "MEM_readLE32 src 0 = Some w" using assms(2) readLE32_inside [of 0 src] by auto
  let ?tl = "unat (w AND 0xF) + FSE_MIN_TABLELOG"
  show ?thesis
  proof (cases "?tl > FSE_TABLELOG_ABSOLUTE_MAX")
    case True
    then show ?thesis using assms(1) w by (simp add: read_header_def Let_def)
  next
    case False
    then have tl: "5 \<le> ?tl" "?tl \<le> 15" by (simp_all add: FSE_MIN_TABLELOG_def FSE_TABLELOG_ABSOLUTE_MAX_def)
    let ?st = "\<lparr>normalizedCounter = replicate (maxSV + 1) 0 @ drop (maxSV + 1) counts, charnum = 0, ip = 0, bitStream = drop_bit 4 w,
              bitCount = 4, remaining = 2 ^ ?tl + 1, threshold = 2 ^ ?tl, nbBits = int ?tl + 1, previous0 = False\<rparr>"
    have "position_ok src True ?st" using assms(2) by (simp add: position_ok_def)
    moreover have "(1 :: int) < 2 ^ ?tl" by (intro one_less_power) (simp_all add: FSE_MIN_TABLELOG_def)
    then have "counts_ok (length counts) ?tl ?st" using assms(1) by (auto simp: counts_ok_def counted_def)
    ultimately obtain r where r: "ncount_loop src maxSV ?st = Some r"
      "\<And>st'. r = Inr st' \<Longrightarrow> position_ok src True st' \<and> counts_ok (length counts) ?tl st' \<and> charnum st' \<le> maxSV + 1 \<and> 0 < charnum st'"
      using ncount_loop_safe [of src ?st "length counts" ?tl maxSV] tl(2) assms(1) by auto
    show ?thesis
    proof (cases r)
      case (Inl e)
      then show ?thesis using assms(1) w False r(1) by (simp add: read_header_def Let_def)
    next
      case (Inr st)
      note o = r(2) [OF Inr]
      have sum: "(\<Sum>i<Suc (charnum st - 1). \<bar>normalizedCounter st ! i\<bar>) = 2 ^ ?tl" if "remaining st = 1" "?tl < 15"
      proof -
        have "Suc (charnum st - 1) = charnum st" using o by auto
        then show ?thesis using o that by (simp add: counts_ok_def counted_def)
      qed
      have "header_ok (length counts) maxSV src (nat (int (ip st) + (bitCount st + 7) div 8), normalizedCounter st, charnum st - 1, ?tl)"
        if "remaining st = 1" "bitCount st \<le> 32"
      proof -
        have "(bitCount st + 7) div 8 \<le> 4" using that(2) by simp
        then have "nat (int (ip st) + (bitCount st + 7) div 8) \<le> length src" using o unfolding position_ok_def by linarith
        moreover have "\<forall>i \<le> charnum st - 1. -1 \<le> normalizedCounter st ! i" if "?tl < 15"
          using o that by (auto simp: counts_ok_def)
        ultimately show ?thesis using o sum [OF that(1)] tl by (auto simp: header_ok_def counts_ok_def simp del: sum.lessThan_Suc)
      qed
      then show ?thesis using assms(1) w False r(1) Inr by (simp add: read_header_def Let_def not_less)
    qed
  qed
qed

lemma readNCount_safe:
  assumes "maxSV < length counts"
  shows "\<exists>r. FSE_readNCount counts maxSV header = Some r \<and> (\<forall>x. r = Inr x \<longrightarrow> header_ok (length counts) maxSV header x)"
proof (cases "length header < 4")
  case False
  then show ?thesis using read_header_safe [OF assms, of header] by (simp add: FSE_readNCount_def)
next
  case True
  let ?h = "header @ replicate (4 - length header) 0"
  obtain r where r: "read_header counts maxSV ?h = Some r" "\<And>x. r = Inr x \<Longrightarrow> header_ok (length counts) maxSV ?h x"
    using read_header_safe [OF assms, of ?h] True by auto
  then show ?thesis using True by (auto simp: FSE_readNCount_def header_ok_def split: sum.splits if_splits)
qed

end
