(* ===== verification/Zstd_Bits_Spec.thy ===== *)
theory Zstd_Bits_Spec
  imports Zstd_Bits
begin

text \<open>
  A bit stream is a stack: the fields that were added come back in reverse order. The stream is seen
  as one number, of which every step of the encoder adds to the top and every read of the decoder
  takes from the top.
\<close>

section \<open>Bytes and numbers\<close>

lemma le_nat_append: "le_nat (a @ b) = le_nat a + 2 ^ (8 * length a) * le_nat b"
  by (induction a) (simp_all add: algebra_simps power_add)

lemma le_nat_less: "le_nat bs < 2 ^ (8 * length bs)"
proof (induction bs)
  case (Cons b bs)
  have "unat b < 256" using unsigned_less [of b] by simp
  then have "unat b + 256 * le_nat bs < 256 * (le_nat bs + 1)" by simp
  also have "\<dots> \<le> 256 * 2 ^ (8 * length bs)" using Cons by (intro mult_le_mono2) simp
  finally show ?case by (simp add: power_add)
qed simp

lemma le_nat_take_drop: "n \<le> length bs \<Longrightarrow> le_nat bs = le_nat (take n bs) + 2 ^ (8 * n) * le_nat (drop n bs)"
  using le_nat_append [of "take n bs" "drop n bs"] by simp

lemma le_nat_drop: "n \<le> length bs \<Longrightarrow> le_nat (drop n bs) = drop_bit (8 * n) (le_nat bs)"
  using le_nat_take_drop [of n bs] le_nat_less [of "take n bs"] by (simp add: drop_bit_eq_div)

lemma le_nat_take: "n \<le> length bs \<Longrightarrow> le_nat (take n bs) = take_bit (8 * n) (le_nat bs)"
  using le_nat_take_drop [of n bs] le_nat_less [of "take n bs"] by (simp add: take_bit_eq_mod)

lemma length_le_list [simp]: "length (le_list n v) = n"
  by (induction n v rule: le_list.induct) simp_all

lemma le_nat_le_list: "n \<le> 8 \<Longrightarrow> le_nat (le_list n v) = take_bit (8 * n) (unat v)"
proof (induction n v rule: le_list.induct)
  case (2 n v)
  have "unat (ucast v :: byte) = take_bit 8 (unat v)" by (simp add: unsigned_ucast_eq)
  moreover have "take_bit (8 + 8 * n) (unat v) = take_bit 8 (unat v) + 256 * take_bit (8 * n) (drop_bit 8 (unat v))"
    by (simp add: take_bit_eq_mod drop_bit_eq_div mod_mult2_eq power_add)
  ultimately show ?case using 2 by (simp add: unsigned_drop_bit_eq take_bit_drop_bit)
qed simp

section \<open>The stack of fields\<close>

type_synonym field = "64 word \<times> nat"

definition field_value :: "field \<Rightarrow> nat" where
  "field_value f = take_bit (snd f) (unat (fst f))"

fun bits :: "field list \<Rightarrow> nat" where
  "bits [] = 0"
| "bits (f # fs) = snd f + bits fs"

fun stack :: "field list \<Rightarrow> nat" where
  "stack [] = 0"
| "stack (f # fs) = stack fs + 2 ^ bits fs * field_value f"

lemma field_value_less: "field_value f < 2 ^ snd f"
  by (simp add: field_value_def)

lemma stack_less: "stack fs < 2 ^ bits fs"
proof (induction fs)
  case (Cons f fs)
  then have "stack (f # fs) < 2 ^ bits fs * (field_value f + 1)" by simp
  also have "\<dots> \<le> 2 ^ bits fs * 2 ^ snd f" using field_value_less [of f] by (intro mult_le_mono2) simp
  finally show ?case by (simp add: power_add mult.commute)
qed simp

text \<open>The finished stream ends with a bit that marks its end.\<close>

definition marked :: "field list \<Rightarrow> nat" where
  "marked fs = stack fs + 2 ^ bits fs"

section \<open>The encoder\<close>

text \<open>What the users of an encoder do: add a field of at most 31 bits, or flush.\<close>

datatype bit_op = Put "64 word" nat | Flush

fun bit_step :: "bit_op \<Rightarrow> BIT_CStream_t \<Rightarrow> BIT_CStream_t option" where
  "bit_step (Put v n) c = BIT_addBits v n c"
| "bit_step Flush c = BIT_flushBits c"

fun bit_steps :: "bit_op list \<Rightarrow> BIT_CStream_t \<Rightarrow> BIT_CStream_t option" where
  "bit_steps [] c = Some c"
| "bit_steps (x # xs) c = Option.bind (bit_step x c) (bit_steps xs)"

text \<open>The fields, the last one first.\<close>

fun pushed :: "bit_op list \<Rightarrow> field list \<Rightarrow> field list" where
  "pushed [] fs = fs"
| "pushed (Put v n # xs) fs = pushed xs ((v, n) # fs)"
| "pushed (Flush # xs) fs = pushed xs fs"

text \<open>
  What the assertions of \<open>BIT_addBits\<close> demand: the register, with \<open>n\<close> bits in it, never holds all
  of its 64 bits, also after the end mark.
\<close>

fun register_ok :: "nat \<Rightarrow> bit_op list \<Rightarrow> bool" where
  "register_ok n [] \<longleftrightarrow> n + 1 < 64"
| "register_ok n (Put v m # xs) \<longleftrightarrow> m < 32 \<and> n + m < 64 \<and> register_ok (n + m) xs"
| "register_ok n (Flush # xs) \<longleftrightarrow> register_ok (n mod 8) xs"

lemma BIT_mask_nth:
  assumes "n < 32"
  shows "BIT_mask ! n = mask n"
proof -
  have m: "BIT_mask = map mask [0..<32]" by (simp add: BIT_mask_def mask_eq_decr_exp upt_rec)
  show ?thesis using assms unfolding m by simp
qed

lemma unat_push:
  fixes w :: "64 word"
  assumes "2 ^ n * unat w < 2 ^ 64"
  shows "unat (push_bit n w) = 2 ^ n * unat w"
proof -
  have "unat (push_bit n w) = take_bit 64 (push_bit n (unat w))" by (simp add: unsigned_push_bit_eq)
  then show ?thesis using assms by (simp add: push_bit_nat_def take_bit_nat_eq_self mult.commute)
qed

lemma unat_or_push:
  fixes c w :: "64 word"
  assumes "unat c < 2 ^ n" "2 ^ n * (unat w + 1) \<le> 2 ^ 64"
  shows "unat (c OR push_bit n w) = unat c + 2 ^ n * unat w"
proof -
  have "2 ^ n * unat w < 2 ^ n * (unat w + 1)" by simp
  then have l: "2 ^ n * unat w < 2 ^ 64" using assms(2) by (rule less_le_trans)
  then have p: "unat (push_bit n w) = 2 ^ n * unat w" by (rule unat_push)
  have "c AND push_bit n w = 0"
  proof (rule bit_eqI)
    fix i
    have t: "take_bit n (unat c) = unat c" using assms(1) by (simp add: take_bit_nat_eq_self)
    have "\<not> bit c i" if "n \<le> i"
    proof
      assume "bit c i"
      then have "bit (unat c) i" by (auto simp: bit_unsigned_iff dest: bit_imp_le_length)
      then have "bit (take_bit n (unat c)) i" unfolding t .
      then show False using that by (simp add: bit_take_bit_iff)
    qed
    then show "bit (c AND push_bit n w) i = bit (0 :: 64 word) i" by (auto simp: bit_and_iff bit_push_bit_iff)
  qed
  then have "c OR push_bit n w = c + push_bit n w" by (simp add: disjunctive_add_eq_or)
  moreover have "unat c + 2 ^ n * unat w < 2 ^ 64" using assms by (simp add: algebra_simps)
  ultimately show ?thesis using p by (simp add: unat_word_ariths)
qed

text \<open>
  The invariant of the encoder, with \<open>n\<close> bits in the register: as long as the pointer has not been
  stopped at the end, what is written and the register make the stack.
\<close>

definition holds :: "nat \<Rightarrow> nat \<Rightarrow> field list \<Rightarrow> BIT_CStream_t \<Rightarrow> bool" where
  "holds cap n fs c \<longleftrightarrow> length (cs_buffer c) = cap \<and> 8 < cap \<and> cs_endPtr c = cap - 8 \<and> cs_bitPos c = n \<and>
     cs_ptr c \<le> cs_endPtr c \<and> (cs_ptr c = cs_endPtr c \<longrightarrow> 8 * cs_endPtr c \<le> bits fs) \<and>
     (cs_ptr c < cs_endPtr c \<longrightarrow> bits fs = 8 * cs_ptr c + n \<and>
        le_nat (take (cs_ptr c) (cs_buffer c)) + 2 ^ (8 * cs_ptr c) * unat (cs_container c) = stack fs)"

lemma holds_register:
  assumes "holds cap n fs c" "cs_ptr c < cs_endPtr c"
  shows "unat (cs_container c) < 2 ^ n"
proof -
  have "2 ^ (8 * cs_ptr c) * unat (cs_container c) < 2 ^ (8 * cs_ptr c) * 2 ^ n"
    using assms stack_less [of fs] unfolding holds_def power_add [symmetric] by (metis trans_le_add2 le_less_trans order_refl)
  then show ?thesis by (simp only: mult_less_cancel1)
qed

lemma holds_init: "BIT_initCStream buffer = (Inr (), c) \<Longrightarrow> holds (length buffer) 0 [] c"
  by (auto simp: BIT_initCStream_def holds_def split: if_splits)

lemma holds_more:
  assumes h: "holds cap n fs c" and n: "n + m \<le> 64" and w: "unat w = field_value (v, m)"
  shows "holds cap (n + m) ((v, m) # fs) (c\<lparr>cs_container := cs_container c OR push_bit n w, cs_bitPos := n + m\<rparr>)"
proof -
  have "unat (cs_container c OR push_bit n w) = unat (cs_container c) + 2 ^ n * unat w" if "cs_ptr c < cs_endPtr c"
  proof (rule unat_or_push)
    show "unat (cs_container c) < 2 ^ n" by (rule holds_register [OF h that])
    have "2 ^ n * (unat w + 1) \<le> 2 ^ n * 2 ^ m" using field_value_less [of "(v, m)"] w by (intro mult_le_mono2) simp
    also have "\<dots> \<le> 2 ^ 64" using power_increasing [OF n, of "2 :: nat"] by (simp add: power_add)
    finally show "2 ^ n * (unat w + 1) \<le> 2 ^ 64" .
  qed
  then show ?thesis using h w by (auto simp: holds_def algebra_simps power_add)
qed

lemma holds_add:
  assumes "holds cap n fs c" "m < 32" "n + m < 64"
  shows "\<exists>c'. BIT_addBits v m c = Some c' \<and> holds cap (n + m) ((v, m) # fs) c'"
proof -
  have "unat (v AND BIT_mask ! m) = field_value (v, m)"
    using assms(2) by (simp add: BIT_mask_nth field_value_def take_bit_eq_mask [symmetric] unsigned_take_bit_eq)
  from holds_more [OF assms(1) _ this] show ?thesis using assms by (auto simp: BIT_addBits_def holds_def)
qed

lemma flush_buffer:
  assumes "p + 8 \<le> length buf" "nb < 8"
  shows "\<exists>buf'. MEM_writeLEST buf p v = Some buf' \<and> length buf' = length buf \<and>
    le_nat (take (p + nb) buf') + 2 ^ (8 * (p + nb)) * unat (drop_bit (nb * 8) v) = le_nat (take p buf) + 2 ^ (8 * p) * unat v \<and>
    (\<forall>i \<le> 8. le_nat (take (p + i) buf') = le_nat (take p buf) + 2 ^ (8 * p) * take_bit (8 * i) (unat v))"
proof -
  let ?b = "take p buf @ le_list 8 v @ drop (p + 8) buf"
  have pre: "le_nat (take (p + i) ?b) = le_nat (take p buf) + 2 ^ (8 * p) * take_bit (8 * i) (unat v)" if "i \<le> 8" for i
  proof -
    have "take (p + i) ?b = take p buf @ take i (le_list 8 v)" using assms(1) that by simp
    then show ?thesis using assms(1) that
      by (simp add: le_nat_append le_nat_take le_nat_le_list)
  qed
  moreover have "unat v < 2 ^ LENGTH(64)" by (rule unsigned_less)
  then have "unat v mod 18446744073709551616 = unat v" by simp
  then have "take_bit (8 * nb) (unat v) + 2 ^ (8 * nb) * unat (drop_bit (nb * 8) v) = unat v"
    by (simp add: unsigned_drop_bit_eq take_bit_eq_mod drop_bit_nat_def mult.commute)
  then have "2 ^ (8 * p) * (take_bit (8 * nb) (unat v) + 2 ^ (8 * nb) * unat (drop_bit (nb * 8) v)) = 2 ^ (8 * p) * unat v"
    by simp
  ultimately have "le_nat (take (p + nb) ?b) + 2 ^ (8 * (p + nb)) * unat (drop_bit (nb * 8) v) = le_nat (take p buf) + 2 ^ (8 * p) * unat v"
    using assms(2) by (simp add: power_add distrib_left mult.assoc)
  moreover have "MEM_writeLEST buf p v = Some ?b" "length ?b = length buf" using assms(1) by (simp_all add: MEM_writeLEST_def)
  ultimately show ?thesis using pre by blast
qed

lemma eighths: "drop_bit 3 (n :: nat) = n div 8" "n AND 7 = n mod 8"
proof -
  show "drop_bit 3 n = n div 8" by (simp add: drop_bit_eq_div)
  have "(7 :: nat) = mask 3" by (simp add: mask_eq_exp_minus_1)
  then have "n AND 7 = take_bit 3 n" by (simp only: take_bit_eq_mask)
  then show "n AND 7 = n mod 8" by (simp add: take_bit_eq_mod)
qed

lemma flush_holds:
  assumes h: "holds cap n fs c" and n: "n < 64"
  shows "\<exists>c'. BIT_flushBits c = Some c' \<and> holds cap (n mod 8) fs c' \<and>
    (cs_ptr c' < cs_endPtr c' \<longrightarrow> (\<forall>i \<le> 8. n \<le> 8 * i \<longrightarrow> cs_ptr c' = cs_ptr c + n div 8 \<and>
       le_nat (take (cs_ptr c + i) (cs_buffer c')) = stack fs))"
proof -
  let ?nb = "n div 8"
  have "?nb < 8" using n by simp
  moreover have "cs_ptr c + 8 \<le> length (cs_buffer c)" using h by (auto simp: holds_def)
  ultimately obtain buf' where b: "MEM_writeLEST (cs_buffer c) (cs_ptr c) (cs_container c) = Some buf'" "length buf' = length (cs_buffer c)"
    "le_nat (take (cs_ptr c + ?nb) buf') + 2 ^ (8 * (cs_ptr c + ?nb)) * unat (drop_bit (?nb * 8) (cs_container c)) =
       le_nat (take (cs_ptr c) (cs_buffer c)) + 2 ^ (8 * cs_ptr c) * unat (cs_container c)"
    "\<And>i. i \<le> 8 \<Longrightarrow> le_nat (take (cs_ptr c + i) buf') =
       le_nat (take (cs_ptr c) (cs_buffer c)) + 2 ^ (8 * cs_ptr c) * take_bit (8 * i) (unat (cs_container c))"
    using flush_buffer [of "cs_ptr c" "cs_buffer c" ?nb "cs_container c"] by blast
  let ?p = "if cs_ptr c + ?nb > cs_endPtr c then cs_endPtr c else cs_ptr c + ?nb"
  let ?c = "c\<lparr>cs_buffer := buf', cs_ptr := ?p, cs_bitPos := n mod 8, cs_container := drop_bit (?nb * 8) (cs_container c)\<rparr>"
  have "BIT_flushBits c = Some ?c" using h n b(1) by (simp add: BIT_flushBits_def flush_to_def holds_def eighths Let_def)
  moreover have "holds cap (n mod 8) fs ?c" using h b(2,3) by (auto simp: holds_def)
  moreover have "?p = cs_ptr c + ?nb \<and> le_nat (take (cs_ptr c + i) buf') = stack fs"
    if "?p < cs_endPtr c" "i \<le> 8" "n \<le> 8 * i" for i
  proof -
    have p: "cs_ptr c + ?nb < cs_endPtr c" using that(1) by (simp split: if_splits)
    then have e: "cs_ptr c < cs_endPtr c" by simp
    have "(2 :: nat) ^ n \<le> 2 ^ (8 * i)" using that(3) by (simp add: power_increasing)
    then have "take_bit (8 * i) (unat (cs_container c)) = unat (cs_container c)"
      using holds_register [OF h e] by (intro take_bit_nat_eq_self) (rule less_le_trans)
    then show ?thesis using b(4) [OF that(2)] h e p by (simp add: holds_def)
  qed
  ultimately show ?thesis by (intro exI [of _ ?c]) simp
qed

lemma close_holds:
  assumes h: "holds cap n fs c" and n: "n + 1 < 64"
  shows "\<exists>size c'. BIT_closeCStream c = Some (size, c') \<and> length (cs_buffer c') = cap \<and>
    (size = 0 \<longrightarrow> 8 * (cap - 8) \<le> bits fs + 1) \<and>
    (size \<noteq> 0 \<longrightarrow> size \<le> cap \<and> le_nat (take size (cs_buffer c')) = marked fs \<and> size = bits fs div 8 + 1)"
proof -
  let ?c = "c\<lparr>cs_container := cs_container c OR push_bit n 1, cs_bitPos := n + 1\<rparr>"
  have "unat (1 :: 64 word) = field_value (1, 1)" by (simp add: field_value_def)
  then have h1: "holds cap (n + 1) ((1, 1) # fs) ?c" by (intro holds_more [OF h]) (use n in simp)
  have add: "BIT_addBitsFast 1 1 c = Some ?c" using h n by (simp add: BIT_addBitsFast_def holds_def)
  obtain c' where c': "BIT_flushBits ?c = Some c'" "holds cap ((n + 1) mod 8) ((1, 1) # fs) c'"
    "\<And>i. cs_ptr c' < cs_endPtr c' \<Longrightarrow> i \<le> 8 \<Longrightarrow> n + 1 \<le> 8 * i \<Longrightarrow>
       cs_ptr c' = cs_ptr ?c + (n + 1) div 8 \<and> le_nat (take (cs_ptr ?c + i) (cs_buffer c')) = stack ((1, 1) # fs)"
    using flush_holds [OF h1 n] by blast
  let ?size = "if cs_ptr c' \<ge> cs_endPtr c' then 0 else cs_ptr c' + (if cs_bitPos c' > 0 then 1 else 0)"
  have close: "BIT_closeCStream c = Some (?size, c')" using add c'(1) by (simp add: BIT_closeCStream_def)
  have "?size \<le> cap \<and> le_nat (take ?size (cs_buffer c')) = marked fs \<and> ?size = bits fs div 8 + 1" if "?size \<noteq> 0"
  proof -
    have p: "cs_ptr c' < cs_endPtr c'" using that by (simp split: if_splits)
    have b: "cs_bitPos c' = (n + 1) mod 8" "cs_endPtr c' = cap - 8" using c'(2) by (simp_all add: holds_def)
    let ?i = "(n + 1) div 8 + (if (n + 1) mod 8 > 0 then 1 else 0)"
    have i: "?i \<le> 8" "n + 1 \<le> 8 * ?i" "?i = n div 8 + 1" using n by (auto split: if_splits) presburger+
    note q = c'(3) [OF p i(1,2)]
    have s: "?size = cs_ptr c + ?i" using q p b(1) by simp
    have "cs_ptr c < cs_endPtr c" using q p h c'(2) by (simp add: holds_def)
    then have "bits fs = 8 * cs_ptr c + n" using h by (simp add: holds_def)
    then have "?size = bits fs div 8 + 1" using s i(3) by simp
    moreover have "?size \<le> cap" using p b(2) by auto
    moreover have "stack ((1, 1) # fs) = marked fs" by (simp add: marked_def field_value_def)
    ultimately show ?thesis using q s by simp
  qed
  moreover have "8 * (cap - 8) \<le> bits fs + 1" if "?size = 0"
  proof (cases "cs_ptr c' < cs_endPtr c'")
    case True
    then have "(n + 1) mod 8 = 0" "cs_ptr c' = 0" using that c'(2) by (auto simp: holds_def split: if_splits)
    moreover have "cs_ptr c' = cs_ptr c + (n + 1) div 8" using c'(3) [OF True, of 8] n by simp
    ultimately show ?thesis by presburger
  next
    case False
    then show ?thesis using c'(2) by (auto simp: holds_def)
  qed
  ultimately show ?thesis using close c'(2) by (intro exI [of _ ?size] exI [of _ c']) (simp add: holds_def)
qed

lemma steps_hold:
  assumes "holds cap n fs c" "register_ok n ops" "n < 64"
  shows "\<exists>c' n'. bit_steps ops c = Some c' \<and> holds cap n' (pushed ops fs) c' \<and> n' + 1 < 64"
  using assms
proof (induction n ops arbitrary: fs c rule: register_ok.induct)
  case (2 n v m xs)
  obtain c1 where "BIT_addBits v m c = Some c1" "holds cap (n + m) ((v, m) # fs) c1"
    using holds_add [OF "2.prems"(1)] "2.prems"(2) by auto
  with "2.IH" [of "(v, m) # fs" c1] "2.prems" show ?case by auto
next
  case (3 n xs)
  obtain c1 where "BIT_flushBits c = Some c1" "holds cap (n mod 8) fs c1"
    using flush_holds [OF "3.prems"(1,3)] by blast
  with "3.IH" [of fs c1] "3.prems" show ?case by auto
qed auto

section \<open>The decoder\<close>

text \<open>
  The invariant of the decoder on the number \<open>V\<close>, of whose bits the lowest \<open>R\<close> are still to be read.
\<close>

definition reading_at :: "bytes \<Rightarrow> nat \<Rightarrow> BIT_DStream_t \<Rightarrow> bool" where
  "reading_at src R d \<longleftrightarrow> ds_limitPtr d = 8 \<and> ds_consumed d \<le> 64 \<and> R + ds_consumed d = 8 * ds_ptr d + 64 \<and>
     ds_container d = of_nat (drop_bit (8 * ds_ptr d) (le_nat src)) \<and> (ds_ptr d + 8 \<le> length src \<or> ds_ptr d = 0)"

lemma read_register:
  assumes "p + 8 \<le> length src"
  shows "MEM_readLEST src p = Some (of_nat (drop_bit (8 * p) (le_nat src)))"
proof -
  have "le_nat (take 8 (drop p src)) = take_bit 64 (drop_bit (8 * p) (le_nat src))"
    using assms by (simp add: le_nat_take le_nat_drop)
  moreover have "(of_nat (take_bit 64 x) :: 64 word) = of_nat x" for x :: nat
    by (rule bit_word_eqI) (simp add: bit_of_nat_iff bit_take_bit_iff)
  ultimately show ?thesis using assms by (simp add: MEM_readLEST_def)
qed

lemma look_bits:
  assumes d: "reading_at src R d" and n: "n < 64" "ds_consumed d + n \<le> 64"
  shows "BIT_lookBits d n = of_nat (take_bit n (drop_bit (R - n) (le_nat src)))"
proof (rule bit_word_eqI)
  fix i assume i: "i < LENGTH(64)"
  have m: "nat ((63 - int n) mod 64) = 63 - n" using n(1) by (simp add: nat_diff_distrib)
  have l: "bit (BIT_lookBits d n) i \<longleftrightarrow>
      ds_consumed d mod 64 \<le> 64 - n + i \<and> 64 - n + i < 64 \<and> bit (ds_container d) (64 - n + i - ds_consumed d mod 64)"
  proof -
    have "63 - n + 1 = 64 - n" using n(1) by simp
    then have "BIT_lookBits d n = drop_bit (64 - n) (push_bit (ds_consumed d mod 64) (ds_container d))"
      unfolding BIT_lookBits_def m drop_bit_drop_bit by simp
    then show ?thesis by (auto simp: bit_drop_bit_eq bit_push_bit_iff)
  qed
  show "bit (BIT_lookBits d n) i = bit (of_nat (take_bit n (drop_bit (R - n) (le_nat src))) :: 64 word) i"
  proof (cases "i < n")
    case True
    then have c: "ds_consumed d mod 64 = ds_consumed d" using n(2) by simp
    have R: "R - n + i = 8 * ds_ptr d + (64 - n + i - ds_consumed d)" "64 - n + i - ds_consumed d < 64"
      using d n True by (auto simp: reading_at_def)
    then show ?thesis using d n True i unfolding l c
      by (auto simp: reading_at_def bit_of_nat_iff bit_take_bit_iff bit_drop_bit_eq)
  next
    case False
    then have "\<not> 64 - n + i < 64" using n(1) by simp
    then show ?thesis using False unfolding l by (simp add: bit_of_nat_iff bit_take_bit_iff)
  qed
qed

lemma skip_bits:
  assumes "reading_at src (R + n) d" "ds_consumed d + n \<le> 64"
  shows "reading_at src R (BIT_skipBits n d)"
  using assms by (auto simp: reading_at_def BIT_skipBits_def)

lemma reload_reads:
  assumes d: "reading_at src R d"
  shows "\<exists>st d'. BIT_reloadDStream src d = Some (st, d') \<and> reading_at src R d' \<and> (ds_consumed d' < 8 \<or> ds_ptr d' = 0)"
proof -
  have c: "\<not> ds_consumed d > 64" "ds_limitPtr d = 8" using d by (simp_all add: reading_at_def)
  consider "8 \<le> ds_ptr d" | "ds_ptr d = 0" | "0 < ds_ptr d" "ds_ptr d < 8" by linarith
  then show ?thesis
  proof cases
    case 1
    let ?p = "ds_ptr d - ds_consumed d div 8"
    have le: "ds_consumed d div 8 \<le> ds_ptr d" using 1 c(1) by simp
    have l: "ds_ptr d + 8 \<le> length src" using d 1 by (auto simp: reading_at_def)
    then have "MEM_readLEST src ?p = Some (of_nat (drop_bit (8 * ?p) (le_nat src)))" by (intro read_register) simp
    moreover have "R + ds_consumed d mod 8 = 8 * ?p + 64"
    proof -
      have "R + ds_consumed d = 8 * ds_ptr d + 64" using d by (simp add: reading_at_def)
      moreover have "ds_consumed d = 8 * (ds_consumed d div 8) + ds_consumed d mod 8" by simp
      ultimately show ?thesis using le by linarith
    qed
    moreover have "?p + 8 \<le> length src" using l by simp
    ultimately show ?thesis using c 1 by (simp add: BIT_reloadDStream_def reading_at_def eighths Let_def)
  next
    case 2
    then show ?thesis using d c by (simp add: BIT_reloadDStream_def)
  next
    case 3
    let ?nb = "if ds_ptr d < ds_consumed d div 8 then ds_ptr d else ds_consumed d div 8"
    have l: "ds_ptr d + 8 \<le> length src" using d 3 by (auto simp: reading_at_def)
    then have "MEM_readLEST src (ds_ptr d - ?nb) = Some (of_nat (drop_bit (8 * (ds_ptr d - ?nb)) (le_nat src)))"
      by (intro read_register) simp
    moreover have "R + (ds_consumed d - ?nb * 8) = 8 * (ds_ptr d - ?nb) + 64"
      using d by (auto simp: reading_at_def)
    moreover have "ds_ptr d - ?nb + 8 \<le> length src" using l by simp
    moreover have "ds_consumed d - ?nb * 8 \<le> 64" using c(1) by simp
    moreover have "ds_consumed d - ?nb * 8 < 8 \<or> ds_ptr d - ?nb = 0" by auto
    ultimately show ?thesis using c 3 by (simp add: BIT_reloadDStream_def reading_at_def eighths Let_def)
  qed
qed

lemma highest_bit_unique: "2 ^ r \<le> n \<Longrightarrow> n < 2 ^ Suc r \<Longrightarrow> highest_bit n = r"
proof (induction r arbitrary: n)
  case 0
  then show ?case by (subst highest_bit.simps) simp
next
  case (Suc r)
  then have "2 ^ r \<le> n div 2" "n div 2 < 2 ^ Suc r" by simp_all
  then have "highest_bit (n div 2) = r" by (rule Suc.IH)
  moreover have "\<not> n < 2"
  proof -
    have "(2 :: nat) \<le> 2 ^ Suc r" by simp
    then show ?thesis using Suc.prems(1) by linarith
  qed
  ultimately show ?case by (subst highest_bit.simps) simp
qed

lemma last_byte:
  assumes "le_nat src = marked fs" "length src = bits fs div 8 + 1"
  shows "2 ^ (bits fs mod 8) \<le> unat (last src) \<and> unat (last src) < 2 ^ Suc (bits fs mod 8)"
proof -
  let ?s = "bits fs div 8" let ?r = "bits fs mod 8"
  have "src \<noteq> []" using assms(2) by auto
  then have "drop ?s src = [last src]" using assms(2)
    by (metis Suc_eq_plus1 append_butlast_last_id append_eq_conv_conj diff_Suc_1 length_butlast)
  then have l: "unat (last src) = marked fs div 2 ^ (8 * ?s)"
    using le_nat_drop [of ?s src] assms by (simp add: drop_bit_eq_div)
  have p: "(2 :: nat) ^ bits fs = 2 ^ (8 * ?s) * 2 ^ ?r" by (simp add: power_add [symmetric])
  have "2 ^ (8 * ?s) * 2 ^ ?r \<le> marked fs" by (simp add: marked_def p [symmetric])
  then have "2 ^ ?r \<le> unat (last src)" unfolding l by (simp add: less_eq_div_iff_mult_less_eq mult.commute)
  moreover have "marked fs < 2 ^ (8 * ?s) * 2 ^ Suc ?r" using stack_less [of fs] p by (simp add: marked_def mult.commute)
  then have "unat (last src) < 2 ^ Suc ?r" unfolding l by (simp add: less_mult_imp_div_less mult.commute)
  ultimately show ?thesis by blast
qed

lemma init_reads:
  assumes v: "le_nat src = marked fs" and l: "length src = bits fs div 8 + 1"
  shows "\<exists>d. BIT_initDStream src = (Inr (length src), d) \<and> reading_at src (bits fs) d"
proof -
  let ?r = "bits fs mod 8"
  have r: "?r < 8" "bits fs = 8 * (length src - 1) + ?r" using l by simp_all
  have b: "2 ^ ?r \<le> unat (last src)" "unat (last src) < 2 ^ Suc ?r" using last_byte [OF assms] by simp_all
  have nz: "last src \<noteq> 0" "src \<noteq> []" using b(1) l by auto
  have u: "unat (ucast (last src) :: 32 word) = unat (last src)"
  proof -
    have "unat (last src) < 2 ^ LENGTH(8)" by (rule unsigned_less)
    then show ?thesis by (simp add: unsigned_ucast_eq take_bit_nat_eq_self)
  qed
  then have "(ucast (last src) :: 32 word) \<noteq> 0" using nz(1) by (metis unat_eq_zero)
  then have h: "BIT_highbit32 (ucast (last src)) = Some ?r"
    using highest_bit_unique [OF b] u by (simp add: BIT_highbit32_def)
  show ?thesis
  proof (cases "8 \<le> length src")
    case True
    let ?d = "\<lparr>ds_container = of_nat (le_nat (drop (length src - 8) src)), ds_consumed = 8 - ?r, ds_ptr = length src - 8, ds_limitPtr = 8\<rparr>"
    have "BIT_initDStream src = (Inr (length src), ?d)" using True nz h by (simp add: BIT_initDStream_def Let_def)
    moreover have "reading_at src (bits fs) ?d"
    proof -
      have "bits fs + (8 - ?r) = 8 * (length src - 8) + 64" using True r by linarith
      moreover have "8 - ?r \<le> 64" by simp
      ultimately show ?thesis using True by (simp add: reading_at_def le_nat_drop)
    qed
    ultimately show ?thesis by blast
  next
    case False
    let ?d = "\<lparr>ds_container = of_nat (le_nat src), ds_consumed = 8 - ?r + (8 - length src) * 8, ds_ptr = 0, ds_limitPtr = 8\<rparr>"
    have "BIT_initDStream src = (Inr (length src), ?d)" using False nz h by (simp add: BIT_initDStream_def Let_def)
    moreover have "reading_at src (bits fs) ?d"
    proof -
      have "length src \<noteq> 0" using nz(2) by simp
      then have "bits fs + (8 - ?r + (8 - length src) * 8) = 64" using False r by linarith
      then show ?thesis by (simp add: reading_at_def)
    qed
    ultimately show ?thesis by blast
  qed
qed

text \<open>Reading fields of known lengths, with a reload before each.\<close>

fun read_fields :: "bytes \<Rightarrow> nat list \<Rightarrow> BIT_DStream_t \<Rightarrow> (64 word list \<times> BIT_DStream_t) option" where
  "read_fields src [] d = Some ([], d)"
| "read_fields src (n # ns) d = do {
     (st, d) \<leftarrow> BIT_reloadDStream src d;
     let (v, d) = BIT_readBits n d;
     (vs, d) \<leftarrow> read_fields src ns d;
     Some (v # vs, d)
   }"

lemma fields_read:
  assumes "reading_at src (bits fs) d" "take_bit (bits fs) (le_nat src) = stack fs" "\<forall>f \<in> set fs. snd f < 32"
  shows "\<exists>d'. read_fields src (map snd fs) d = Some (map (\<lambda>f. fst f AND mask (snd f)) fs, d') \<and> reading_at src 0 d'"
  using assms
proof (induction fs arbitrary: d)
  case (Cons f fs)
  obtain st d1 where r: "BIT_reloadDStream src d = Some (st, d1)" "reading_at src (snd f + bits fs) d1" "ds_consumed d1 < 8 \<or> ds_ptr d1 = 0"
    using reload_reads [OF Cons.prems(1)] by auto
  have n: "snd f < 32" using Cons.prems(3) by simp
  have c: "ds_consumed d1 + snd f \<le> 64" using r(2,3) n by (auto simp: reading_at_def)
  have V: "take_bit (snd f + bits fs) (le_nat src) = stack fs + 2 ^ bits fs * field_value f" using Cons.prems(2) by simp
  have low: "take_bit (bits fs) (le_nat src) = stack fs"
  proof -
    have "take_bit (bits fs) (le_nat src) = take_bit (bits fs) (take_bit (snd f + bits fs) (le_nat src))" by simp
    also have "\<dots> = stack fs" unfolding V using stack_less [of fs] by (simp add: take_bit_eq_mod)
    finally show ?thesis .
  qed
  have "take_bit (snd f) (drop_bit (bits fs) (le_nat src)) = drop_bit (bits fs) (take_bit (snd f + bits fs) (le_nat src))"
    by (simp add: take_bit_drop_bit add.commute)
  also have "\<dots> = field_value f" unfolding V using stack_less [of fs] by (simp add: drop_bit_eq_div)
  finally have "BIT_lookBits d1 (snd f) = of_nat (field_value f)"
    using look_bits [OF r(2) _ c] n by simp
  also have "\<dots> = fst f AND mask (snd f)"
    by (rule bit_word_eqI) (simp add: field_value_def bit_of_nat_iff bit_take_bit_iff bit_and_iff bit_mask_iff bit_unsigned_iff conj_commute)
  finally have look: "BIT_lookBits d1 (snd f) = fst f AND mask (snd f)" .
  have "reading_at src (bits fs) (BIT_skipBits (snd f) d1)"
    using r(2) c by (intro skip_bits) (simp_all add: add.commute)
  from Cons.IH [OF this low] Cons.prems(3) obtain d' where
    "read_fields src (map snd fs) (BIT_skipBits (snd f) d1) = Some (map (\<lambda>f. fst f AND mask (snd f)) fs, d')" "reading_at src 0 d'"
    by auto
  then show ?case using r(1) look by (simp add: BIT_readBits_def)
qed simp

lemma pushed_small: "register_ok n ops \<Longrightarrow> \<forall>f \<in> set fs. snd f < 32 \<Longrightarrow> \<forall>f \<in> set (pushed ops fs). snd f < 32"
proof (induction n ops arbitrary: fs rule: register_ok.induct)
  case (2 n v m xs)
  have "\<forall>f \<in> set ((v, m) # fs). snd f < 32" using "2.prems" by simp
  then have "\<forall>f \<in> set (pushed xs ((v, m) # fs)). snd f < 32" by (rule "2.IH" [rotated]) (use "2.prems" in simp)
  then show ?case by simp
next
  case (3 n xs)
  then show ?case by simp
qed simp

lemma marked_low: "take_bit (bits fs) (marked fs) = stack fs"
  using stack_less [of fs] by (simp add: marked_def take_bit_eq_mod)

lemma lifo:
  assumes "BIT_initCStream buffer = (Inr (), c)" "register_ok 0 ops"
  shows "\<exists>c1 size c2. bit_steps ops c = Some c1 \<and> BIT_closeCStream c1 = Some (size, c2) \<and>
    length (cs_buffer c2) = length buffer \<and> (bits (pushed ops []) + 1 < 8 * (length buffer - 8) \<longrightarrow> size \<noteq> 0) \<and>
    (size \<noteq> 0 \<longrightarrow> size \<le> length buffer \<and>
      (\<exists>d d'. BIT_initDStream (take size (cs_buffer c2)) = (Inr size, d) \<and>
         read_fields (take size (cs_buffer c2)) (map snd (pushed ops [])) d =
           Some (map (\<lambda>f. fst f AND mask (snd f)) (pushed ops []), d') \<and> BIT_endOfDStream d'))"
proof -
  let ?fs = "pushed ops []"
  obtain c1 n where c1: "bit_steps ops c = Some c1" "holds (length buffer) n ?fs c1" "n + 1 < 64"
    using steps_hold [OF holds_init [OF assms(1)] assms(2)] by auto
  obtain size c2 where c2: "BIT_closeCStream c1 = Some (size, c2)" "length (cs_buffer c2) = length buffer"
    "size = 0 \<longrightarrow> 8 * (length buffer - 8) \<le> bits ?fs + 1"
    "size \<noteq> 0 \<longrightarrow> size \<le> length buffer \<and> le_nat (take size (cs_buffer c2)) = marked ?fs \<and> size = bits ?fs div 8 + 1"
    using close_holds [OF c1(2,3)] by (elim exE conjE) (rule that, assumption+)
  have "\<exists>d d'. BIT_initDStream (take size (cs_buffer c2)) = (Inr size, d) \<and>
         read_fields (take size (cs_buffer c2)) (map snd ?fs) d = Some (map (\<lambda>f. fst f AND mask (snd f)) ?fs, d') \<and> BIT_endOfDStream d'"
    if "size \<noteq> 0"
  proof -
    let ?src = "take size (cs_buffer c2)"
    have s: "le_nat ?src = marked ?fs" "length ?src = bits ?fs div 8 + 1" "length ?src = size" using c2(4) that c2(2) by auto
    obtain d where d: "BIT_initDStream ?src = (Inr size, d)" "reading_at ?src (bits ?fs) d"
      using init_reads [OF s(1,2)] s(3) by auto
    have "take_bit (bits ?fs) (le_nat ?src) = stack ?fs" unfolding s(1) by (rule marked_low)
    moreover have "\<forall>f \<in> set ?fs. snd f < 32" by (rule pushed_small [OF assms(2)]) simp
    ultimately obtain d' where d': "read_fields ?src (map snd ?fs) d = Some (map (\<lambda>f. fst f AND mask (snd f)) ?fs, d')" "reading_at ?src 0 d'"
      using fields_read [OF d(2)] by blast
    have "BIT_endOfDStream d'" using d'(2) by (auto simp: reading_at_def BIT_endOfDStream_def)
    then show ?thesis using d(1) d'(1) by blast
  qed
  then show ?thesis using c1(1) c2 by (intro exI [of _ c1] exI [of _ size] exI [of _ c2]) auto
qed

end
