(* ===== verification/Zstd_Decode.thy ===== *)
theory Zstd_Decode
  imports Zstd_Fse
begin

text \<open>
  The decoding tables and the decoders: \<open>src/zstd/common/fse_decompress.c\<close>, the decoding part of \<open>fse.h\<close>, and
  \<open>HUF_readStats\<close> in \<open>entropy_common.c\<close>.
\<close>

section \<open>Decoding tables\<close>

record FSE_decode_t =
  newState :: nat
  symbol :: byte
  cellBits :: nat

record FSE_DTable =
  dt_tableLog :: nat
  dt_fastMode :: bool
  dt_cells :: "FSE_decode_t option list"

text \<open>
  While a table is built: the symbol of each cell and the next state of each symbol (\<open>symbolNext\<close>), if
  they have been written, and \<open>highThreshold\<close>, an \<open>U32\<close>.
\<close>

record dbuild =
  db_symbols :: "byte option list"
  db_next :: "nat option list"
  db_high :: "32 word"
  db_fast :: bool

text \<open>The loop that lays down the symbols of low probability; \<open>s\<close> is the first symbol of the counts.\<close>

fun lay_down :: "int \<Rightarrow> nat \<Rightarrow> int list \<Rightarrow> dbuild \<Rightarrow> dbuild option" where
  "lay_down largeLimit s [] b = Some b"
| "lay_down largeLimit s (c # cs) b =
     (if c = -1 then do {
        syms \<leftarrow> store_at (db_symbols b) (unat (db_high b)) (Some (of_nat s));
        nx \<leftarrow> store_at (db_next b) s (Some 1);
        lay_down largeLimit (s + 1) cs (b\<lparr>db_symbols := syms, db_high := db_high b - 1, db_next := nx\<rparr>)
      }
      else do {
        nx \<leftarrow> store_at (db_next b) s (Some (nat (c mod 2 ^ 16)));
        lay_down largeLimit (s + 1) cs (b\<lparr>db_next := nx, db_fast := db_fast b \<and> \<not> c \<ge> largeLimit\<rparr>)
      })"

definition FSE_TABLESTEP :: "nat \<Rightarrow> nat" where
  "FSE_TABLESTEP tableSize = drop_bit 1 tableSize + drop_bit 3 tableSize + 3"

text \<open>
  \<open>while (position > highThreshold)\<close>: the positions repeat after at most \<open>tableSize\<close> steps, so
  without an end by then there is none.
\<close>

fun skip_low :: "nat \<Rightarrow> nat \<Rightarrow> 32 word \<Rightarrow> nat \<Rightarrow> nat option" where
  "skip_low 0 tableSize high position = None"
| "skip_low (Suc fuel) tableSize high position =
     (if position > unat high
      then skip_low fuel tableSize high ((position + FSE_TABLESTEP tableSize) AND (tableSize - 1))
      else Some position)"

definition next_position :: "nat \<Rightarrow> 32 word \<Rightarrow> nat \<Rightarrow> nat option" where
  "next_position tableSize high position =
     skip_low tableSize tableSize high ((position + FSE_TABLESTEP tableSize) AND (tableSize - 1))"

fun spread_symbol :: "nat \<Rightarrow> 32 word \<Rightarrow> nat \<Rightarrow> nat \<Rightarrow> nat \<Rightarrow> byte option list \<Rightarrow> (nat \<times> byte option list) option" where
  "spread_symbol tableSize high s 0 position syms = Some (position, syms)"
| "spread_symbol tableSize high s (Suc n) position syms = do {
     syms \<leftarrow> store_at syms position (Some (of_nat s));
     position \<leftarrow> next_position tableSize high position;
     spread_symbol tableSize high s n position syms
   }"

fun spread :: "nat \<Rightarrow> 32 word \<Rightarrow> nat \<Rightarrow> int list \<Rightarrow> nat \<Rightarrow> byte option list \<Rightarrow> (nat \<times> byte option list) option" where
  "spread tableSize high s [] position syms = Some (position, syms)"
| "spread tableSize high s (c # cs) position syms = do {
     (position, syms) \<leftarrow> spread_symbol tableSize high s (nat c) position syms;
     spread tableSize high (s + 1) cs position syms
   }"

text \<open>The cells, from their symbols; the fields of a cell are 16, 8 and 8 bits wide.\<close>

fun build_cells :: "nat \<Rightarrow> nat \<Rightarrow> byte option list \<Rightarrow> nat option list \<Rightarrow> FSE_decode_t option list option" where
  "build_cells tableLog tableSize [] nx = Some []"
| "build_cells tableLog tableSize (cell # syms) nx = do {
     c \<leftarrow> cell;
     n \<leftarrow> fetch nx (unat c);
     nextState \<leftarrow> n;
     nx \<leftarrow> store_at nx (unat c) (Some ((nextState + 1) mod 2 ^ 16));
     hb \<leftarrow> BIT_highbit32 (of_nat nextState);
     let nb = nat ((int tableLog - int hb) mod 2 ^ 8);
     if nb \<ge> 32 then None
     else do {
       let ns = nat ((int nextState * 2 ^ nb - int tableSize) mod 2 ^ 16);
       cells \<leftarrow> build_cells tableLog tableSize syms nx;
       Some (Some \<lparr>newState = ns, symbol = c, cellBits = nb\<rparr> # cells)
     }
   }"

text \<open>\<open>room\<close> is the number of cells for which the table has memory.\<close>

definition FSE_buildDTable :: "nat \<Rightarrow> int list \<Rightarrow> nat \<Rightarrow> nat \<Rightarrow> FSE_DTable result option" where
  "FSE_buildDTable room counts maxSymbolValue tableLog =
     (if maxSymbolValue > FSE_MAX_SYMBOL_VALUE then Some (Inl maxSymbolValue_tooLarge)
      else if tableLog > FSE_MAX_TABLELOG then Some (Inl tableLog_tooLarge)
      else if tableLog = 0 \<or> length counts < maxSymbolValue + 1 then None
      else do {
        let tableSize = 2 ^ tableLog;
        let counts = take (maxSymbolValue + 1) counts;
        b \<leftarrow> lay_down (short (2 ^ (tableLog - 1))) 0 counts
          \<lparr>db_symbols = replicate room None, db_next = replicate (FSE_MAX_SYMBOL_VALUE + 1) None,
           db_high = of_nat (tableSize - 1), db_fast = True\<rparr>;
        (position, syms) \<leftarrow> spread tableSize (db_high b) 0 counts 0 (db_symbols b);
        if position \<noteq> 0 then Some (Inl GENERIC)
        else if room < tableSize then None
        else do {
          cells \<leftarrow> build_cells tableLog tableSize (take tableSize syms) (db_next b);
          Some (Inr \<lparr>dt_tableLog = tableLog, dt_fastMode = db_fast b, dt_cells = cells\<rparr>)
        }
      })"

definition FSE_buildDTable_rle :: "byte \<Rightarrow> FSE_DTable" where
  "FSE_buildDTable_rle symbolValue =
     \<lparr>dt_tableLog = 0, dt_fastMode = False, dt_cells = [Some \<lparr>newState = 0, symbol = symbolValue, cellBits = 0\<rparr>]\<rparr>"

definition FSE_buildDTable_raw :: "nat \<Rightarrow> FSE_DTable result" where
  "FSE_buildDTable_raw nb =
     (if nb < 1 then Inl GENERIC
      else Inr \<lparr>dt_tableLog = nb, dt_fastMode = True,
        dt_cells = map (\<lambda>s. Some \<lparr>newState = 0, symbol = of_nat s, cellBits = nb\<rparr>) [0..<2 ^ nb]\<rparr>)"

section \<open>Decoding with a table\<close>

text \<open>A state is an index into the table.\<close>

definition FSE_initDState :: "bytes \<Rightarrow> FSE_DTable \<Rightarrow> BIT_DStream_t \<Rightarrow> (64 word \<times> BIT_DStream_t) option" where
  "FSE_initDState src dt d = do {
     let (state, d) = BIT_readBits (dt_tableLog dt) d;
     (st, d) \<leftarrow> BIT_reloadDStream src d;
     Some (state, d)
   }"

definition FSE_peekSymbol :: "FSE_DTable \<Rightarrow> 64 word \<Rightarrow> byte option" where
  "FSE_peekSymbol dt state = do { cell \<leftarrow> fetch (dt_cells dt) (unat state); DInfo \<leftarrow> cell; Some (symbol DInfo) }"

definition FSE_updateState :: "FSE_DTable \<Rightarrow> 64 word \<Rightarrow> BIT_DStream_t \<Rightarrow> (64 word \<times> BIT_DStream_t) option" where
  "FSE_updateState dt state d = do {
     cell \<leftarrow> fetch (dt_cells dt) (unat state);
     DInfo \<leftarrow> cell;
     let (lowBits, d) = BIT_readBits (cellBits DInfo) d;
     Some (of_nat (newState DInfo) + lowBits, d)
   }"

definition FSE_endOfDState :: "64 word \<Rightarrow> bool" where
  "FSE_endOfDState state \<longleftrightarrow> state = 0"

text \<open>\<open>FSE_decodeSymbol\<close> and \<open>FSE_decodeSymbolFast\<close>, which read the bits in different ways.\<close>

definition FSE_GETSYMBOL :: "bool \<Rightarrow> FSE_DTable \<Rightarrow> 64 word \<Rightarrow> BIT_DStream_t \<Rightarrow> (byte \<times> 64 word \<times> BIT_DStream_t) option" where
  "FSE_GETSYMBOL fast dt state d = do {
     cell \<leftarrow> fetch (dt_cells dt) (unat state);
     DInfo \<leftarrow> cell;
     let (lowBits, d) = (if fast then BIT_readBitsFast (cellBits DInfo) d else BIT_readBits (cellBits DInfo) d);
     Some (symbol DInfo, of_nat (newState DInfo) + lowBits, d)
   }"

text \<open>
  The decoder writes to a buffer \<open>dst\<close> of which it may use the first \<open>maxDstSize\<close> bytes; \<open>op\<close> is the
  position of the next byte. With a 64-bit register the static tests leave out the reloads between the
  four symbols of a pass.
\<close>

record fse_run =
  fr_dst :: bytes
  fr_op :: nat
  fr_state1 :: "64 word"
  fr_state2 :: "64 word"
  fr_bits :: BIT_DStream_t

definition put_first :: "bool \<Rightarrow> FSE_DTable \<Rightarrow> fse_run \<Rightarrow> fse_run option" where
  "put_first fast dt r = do {
     (c, state, d) \<leftarrow> FSE_GETSYMBOL fast dt (fr_state1 r) (fr_bits r);
     dst \<leftarrow> store_at (fr_dst r) (fr_op r) c;
     Some (r\<lparr>fr_dst := dst, fr_op := fr_op r + 1, fr_state1 := state, fr_bits := d\<rparr>)
   }"

definition put_second :: "bool \<Rightarrow> FSE_DTable \<Rightarrow> fse_run \<Rightarrow> fse_run option" where
  "put_second fast dt r = do {
     (c, state, d) \<leftarrow> FSE_GETSYMBOL fast dt (fr_state2 r) (fr_bits r);
     dst \<leftarrow> store_at (fr_dst r) (fr_op r) c;
     Some (r\<lparr>fr_dst := dst, fr_op := fr_op r + 1, fr_state2 := state, fr_bits := d\<rparr>)
   }"

definition fse_reload :: "bytes \<Rightarrow> fse_run \<Rightarrow> (BIT_DStream_status \<times> fse_run) option" where
  "fse_reload src r = do { (st, d) \<leftarrow> BIT_reloadDStream src (fr_bits r); Some (st, r\<lparr>fr_bits := d\<rparr>) }"

definition four_symbols :: "bool \<Rightarrow> FSE_DTable \<Rightarrow> fse_run \<Rightarrow> fse_run option" where
  "four_symbols fast dt r = do {
     r \<leftarrow> put_first fast dt r;
     r \<leftarrow> put_second fast dt r;
     r \<leftarrow> put_first fast dt r;
     put_second fast dt r
   }"

lemma put_op: "put_first fast dt r = Some r' \<Longrightarrow> fr_op r' = fr_op r + 1" "put_second fast dt r = Some r' \<Longrightarrow> fr_op r' = fr_op r + 1"
  by (auto simp: put_first_def put_second_def split: Option.bind_split_asm)

lemma reload_op: "fse_reload src r = Some (st, r') \<Longrightarrow> fr_op r' = fr_op r"
  by (auto simp: fse_reload_def split: Option.bind_split_asm)

lemma four_op: "four_symbols fast dt r = Some r' \<Longrightarrow> fr_op r' = fr_op r + 4"
  by (auto simp: four_symbols_def split: Option.bind_split_asm dest!: put_op)

text \<open>The loop of four symbols a pass: its last reload is part of the result.\<close>

function fse_loop :: "bool \<Rightarrow> FSE_DTable \<Rightarrow> bytes \<Rightarrow> nat \<Rightarrow> fse_run \<Rightarrow> fse_run option" where
  "fse_loop fast dt src maxDstSize r =
     Option.bind (fse_reload src r) (\<lambda>(st, r').
       if st = BIT_DStream_unfinished \<and> int (fr_op r') < int maxDstSize - 3
       then Option.bind (four_symbols fast dt r') (fse_loop fast dt src maxDstSize)
       else Some r')"
  by auto
termination
  by (relation "measure (\<lambda>(f, t, s, m, r). m - fr_op r)") (auto dest!: four_op reload_op)

text \<open>The tail: a symbol of either state in turn, until the stream is used up.\<close>

function fse_tail :: "bool \<Rightarrow> FSE_DTable \<Rightarrow> bytes \<Rightarrow> nat \<Rightarrow> fse_run \<Rightarrow> (nat \<times> bytes) result option" where
  "fse_tail fast dt src maxDstSize r =
     (if int (fr_op r) > int maxDstSize - 2 then Some (Inl dstSize_tooSmall)
      else
        Option.bind (put_first fast dt r) (\<lambda>r1.
        Option.bind (fse_reload src r1) (\<lambda>(st, r2).
        if st = BIT_DStream_overflow then map_option (\<lambda>r. Inr (fr_op r, fr_dst r)) (put_second fast dt r2)
        else if int (fr_op r2) > int maxDstSize - 2 then Some (Inl dstSize_tooSmall)
        else
          Option.bind (put_second fast dt r2) (\<lambda>r3.
          Option.bind (fse_reload src r3) (\<lambda>(st, r4).
          if st = BIT_DStream_overflow then map_option (\<lambda>r. Inr (fr_op r, fr_dst r)) (put_first fast dt r4)
          else fse_tail fast dt src maxDstSize r4)))))"
  by auto
termination
  by (relation "measure (\<lambda>(f, t, s, m, r). m - fr_op r)") (auto dest!: put_op reload_op)

declare fse_loop.simps [simp del] fse_tail.simps [simp del]

definition FSE_decompress_usingDTable_generic ::
    "bytes \<Rightarrow> nat \<Rightarrow> bytes \<Rightarrow> FSE_DTable \<Rightarrow> bool \<Rightarrow> (nat \<times> bytes) result option" where
  "FSE_decompress_usingDTable_generic dst maxDstSize src dt fast =
     (case BIT_initDStream src of
        (Inl e, d) \<Rightarrow> Some (Inl e)
      | (Inr n, d) \<Rightarrow> do {
          (state1, d) \<leftarrow> FSE_initDState src dt d;
          (state2, d) \<leftarrow> FSE_initDState src dt d;
          r \<leftarrow> fse_loop fast dt src maxDstSize \<lparr>fr_dst = dst, fr_op = 0, fr_state1 = state1, fr_state2 = state2, fr_bits = d\<rparr>;
          fse_tail fast dt src maxDstSize r
        })"

definition FSE_decompress_usingDTable :: "bytes \<Rightarrow> nat \<Rightarrow> bytes \<Rightarrow> FSE_DTable \<Rightarrow> (nat \<times> bytes) result option" where
  "FSE_decompress_usingDTable dst originalSize src dt =
     FSE_decompress_usingDTable_generic dst originalSize src dt (dt_fastMode dt)"

text \<open>\<open>room\<close> is the number of cells of \<open>workSpace\<close>.\<close>

definition FSE_decompress_wksp :: "bytes \<Rightarrow> nat \<Rightarrow> bytes \<Rightarrow> nat \<Rightarrow> nat \<Rightarrow> (nat \<times> bytes) result option" where
  "FSE_decompress_wksp dst dstCapacity src room maxLog = do {
     r \<leftarrow> FSE_readNCount (replicate (FSE_MAX_SYMBOL_VALUE + 1) 0) FSE_MAX_SYMBOL_VALUE src;
     case r of Inl e \<Rightarrow> Some (Inl e)
     | Inr (NCountLength, counting, maxSymbolValue, tableLog) \<Rightarrow>
         if tableLog > maxLog then Some (Inl tableLog_tooLarge)
         else do {
           dt \<leftarrow> FSE_buildDTable room counting maxSymbolValue tableLog;
           case dt of Inl e \<Rightarrow> Some (Inl e)
           | Inr dt \<Rightarrow> FSE_decompress_usingDTable dst dstCapacity (drop NCountLength src) dt
         }
   }"

definition FSE_decompress :: "bytes \<Rightarrow> nat \<Rightarrow> bytes \<Rightarrow> (nat \<times> bytes) result option" where
  "FSE_decompress dst dstCapacity src = FSE_decompress_wksp dst dstCapacity src (2 ^ FSE_MAX_TABLELOG) FSE_MAX_TABLELOG"

section \<open>The weights of a Huffman tree\<close>

text \<open>The header that holds two weights in each byte.\<close>

function direct_weights :: "bytes \<Rightarrow> nat \<Rightarrow> nat \<Rightarrow> bytes \<Rightarrow> bytes option" where
  "direct_weights p n oSize huffWeight =
     (if n < oSize then
        Option.bind (fetch p (n div 2)) (\<lambda>b.
        Option.bind (store_at huffWeight n (drop_bit 4 b)) (\<lambda>hw.
        Option.bind (store_at hw (n + 1) (b AND 15)) (direct_weights p (n + 2) oSize)))
      else Some huffWeight)"
  by auto
termination by (relation "measure (\<lambda>(p, n, m, h). m - n)") auto

declare direct_weights.simps [simp del]

text \<open>The loop over the weights: how many there are of each, and their sum; all are \<open>U32\<close>s, whose sums wrap around.\<close>

fun collect_stats :: "bytes \<Rightarrow> nat list \<Rightarrow> nat \<Rightarrow> (nat list \<times> nat) result option" where
  "collect_stats [] rankStats weightTotal = Some (Inr (rankStats, weightTotal))"
| "collect_stats (w # ws) rankStats weightTotal =
     (if unat w \<ge> HUF_TABLELOG_MAX then Some (Inl corruption_detected)
      else do {
        k \<leftarrow> fetch rankStats (unat w);
        rankStats \<leftarrow> store_at rankStats (unat w) ((k + 1) mod 2 ^ 32);
        collect_stats ws rankStats ((weightTotal + drop_bit 1 (2 ^ unat w)) mod 2 ^ 32)
      })"

text \<open>The weight of the last symbol, which the others imply, and the checks.\<close>

definition finish_stats :: "nat \<Rightarrow> nat \<Rightarrow> bytes \<Rightarrow> nat list \<Rightarrow> nat \<Rightarrow> (nat \<times> bytes \<times> nat list \<times> nat \<times> nat) result option" where
  "finish_stats iSize oSize huffWeight rankStats weightTotal =
     (if weightTotal = 0 then Some (Inl corruption_detected)
      else do {
        hb \<leftarrow> BIT_highbit32 (of_nat weightTotal);
        let tableLog = hb + 1;
        if tableLog > HUF_TABLELOG_MAX then Some (Inl corruption_detected)
        else do {
          let rest = 2 ^ tableLog - weightTotal;
          rb \<leftarrow> BIT_highbit32 (of_nat rest);
          if 2 ^ rb \<noteq> rest then Some (Inl corruption_detected)
          else do {
            hw \<leftarrow> store_at huffWeight oSize (of_nat (rb + 1));
            k \<leftarrow> fetch rankStats (rb + 1);
            rs \<leftarrow> store_at rankStats (rb + 1) ((k + 1) mod 2 ^ 32);
            ones \<leftarrow> fetch rs 1;
            Some (if ones < 2 \<or> odd ones then Inl corruption_detected
              else Inr (iSize + 1, hw, rs, oSize + 1, tableLog))
          }
        }
      })"

text \<open>
  The two headers: the sizes of the input and the output, and the weights. \<open>hwSize\<close> is a
  \<open>size_t\<close>, so that \<open>hwSize - 1\<close> wraps around for 0.
\<close>

definition read_weights :: "bytes \<Rightarrow> nat \<Rightarrow> bytes \<Rightarrow> (nat \<times> nat \<times> bytes) result option" where
  "read_weights huffWeight hwSize src = do {
     b \<leftarrow> fetch src 0;
     if unat b \<ge> 128 then do {
       let oSize = unat b - 127;
       let iSize = (oSize + 1) div 2;
       if iSize + 1 > length src then Some (Inl srcSize_wrong)
       else if oSize \<ge> hwSize then Some (Inl corruption_detected)
       else do {
         hw \<leftarrow> direct_weights (drop 1 src) 0 oSize huffWeight;
         Some (Inr (iSize, oSize, hw))
       }
     }
     else if unat b + 1 > length src then Some (Inl srcSize_wrong)
     else do {
       r \<leftarrow> FSE_decompress_wksp huffWeight (nat ((int hwSize - 1) mod 2 ^ 64)) (take (unat b) (drop 1 src)) (2 ^ 6) 6;
       Some (case r of Inl e \<Rightarrow> Inl e | Inr (oSize, hw) \<Rightarrow> Inr (unat b, oSize, hw))
     }
   }"

definition HUF_readStats :: "bytes \<Rightarrow> nat \<Rightarrow> nat list \<Rightarrow> bytes \<Rightarrow> (nat \<times> bytes \<times> nat list \<times> nat \<times> nat) result option" where
  "HUF_readStats huffWeight hwSize rankStats src =
     (if src = [] then Some (Inl srcSize_wrong)
      else do {
        r \<leftarrow> read_weights huffWeight hwSize src;
        case r of Inl e \<Rightarrow> Some (Inl e)
        | Inr (iSize, oSize, hw) \<Rightarrow>
            if length rankStats < HUF_TABLELOG_MAX + 1 then None
            else do {
              c \<leftarrow> collect_stats (take oSize hw)
                (replicate (HUF_TABLELOG_MAX + 1) 0 @ drop (HUF_TABLELOG_MAX + 1) rankStats) 0;
              case c of Inl e \<Rightarrow> Some (Inl e)
              | Inr (rs, weightTotal) \<Rightarrow> finish_stats iSize oSize hw rs weightTotal
            }
      })"

end
