(* ===== verification/Zstd_Table_Spec.thy ===== *)
theory Zstd_Table_Spec
  imports Zstd_Fse_Spec Zstd_Bits_Spec Zstd_Decode
begin

text \<open>
  The decoding tables: from counts that fill the table, every cell is written, each symbol gets as many
  cells as its count says, and the states that its cells lead to are each state of the table once.
\<close>

section \<open>Symbols of low probability\<close>

lemma count_list_update:
  "i < length xs \<Longrightarrow> xs ! i \<noteq> x \<Longrightarrow> count_list (xs[i := y]) x = count_list xs x + (if y = x then 1 else 0)"
proof (induction xs arbitrary: i)
  case (Cons z zs)
  then show ?case by (cases i) auto
qed simp

lemma of_nat_byte: "i < 256 \<Longrightarrow> j < 256 \<Longrightarrow> (of_nat i :: byte) = of_nat j \<longleftrightarrow> i = j"
  by (simp add: word_of_nat_eq_iff take_bit_nat_eq_self)

definition lows :: "int list \<Rightarrow> nat" where
  "lows cs = length (filter (\<lambda>c. c = -1) cs)"

text \<open>After \<open>k\<close> symbols of low probability, the last \<open>k\<close> cells are written.\<close>

definition laid :: "nat \<Rightarrow> nat \<Rightarrow> nat \<Rightarrow> dbuild \<Rightarrow> bool" where
  "laid T room k b \<longleftrightarrow> length (db_symbols b) = room \<and> length (db_next b) = 256 \<and> db_high b = of_nat (T - 1) - of_nat k \<and>
     (\<forall>i < room. db_symbols b ! i = None \<longleftrightarrow> i < T - k \<or> T \<le> i)"

definition first_state :: "int \<Rightarrow> nat" where
  "first_state c = (if c = -1 then 1 else nat (c mod 2 ^ 16))"

lemma high_value:
  assumes "k < T" "T < 2 ^ 32"
  shows "unat (of_nat (T - 1) - of_nat k :: 32 word) = T - 1 - k"
proof -
  have e: "(of_nat (T - 1) - of_nat k :: 32 word) = of_nat (T - 1 - k)" using assms(1) by (simp add: of_nat_diff)
  have "T - 1 - k < 2 ^ 32" using assms by simp
  then show ?thesis unfolding e unsigned_of_nat by (simp add: take_bit_nat_eq_self)
qed

lemma nth_after: "s < j \<Longrightarrow> (c # cs) ! (j - s) = cs ! (j - Suc s)"
  by (simp add: nth_Cons')

lemma lay_down_lays:
  assumes "laid T room k b" "k + lows cs \<le> T" "T \<le> room" "T < 2 ^ 32" "s + length cs \<le> 256"
  shows "\<exists>b'. lay_down lim s cs b = Some b' \<and> laid T room (k + lows cs) b' \<and>
    (\<forall>j < 256. db_next b' ! j = (if s \<le> j \<and> j < s + length cs then Some (first_state (cs ! (j - s))) else db_next b ! j)) \<and>
    (\<forall>j < 256. count_list (db_symbols b') (Some (of_nat j)) =
       count_list (db_symbols b) (Some (of_nat j)) + (if s \<le> j \<and> j < s + length cs \<and> cs ! (j - s) = -1 then 1 else 0)) \<and>
    (db_fast b' \<longleftrightarrow> db_fast b \<and> (\<forall>c \<in> set cs. c = -1 \<or> c < lim))"
  using assms
proof (induction cs arbitrary: s k b)
  case Nil
  then show ?case by (auto simp: lows_def)
next
  case (Cons c cs)
  have s: "s < 256" "s + 1 + length cs \<le> 256" and len: "length (db_symbols b) = room" "length (db_next b) = 256"
    using Cons.prems by (simp_all add: laid_def)
  show ?case
  proof (cases "c = -1")
    case True
    let ?i = "T - 1 - k"
    have k: "k < T" "k + 1 + lows cs \<le> T" using Cons.prems(2) True by (simp_all add: lows_def)
    have i: "unat (db_high b) = ?i" "?i < room" using high_value [OF k(1) Cons.prems(4)] Cons.prems(1,3) k(1) by (simp_all add: laid_def)
    let ?b = "b\<lparr>db_symbols := (db_symbols b)[?i := Some (of_nat s)], db_high := db_high b - 1, db_next := (db_next b)[s := Some 1]\<rparr>"
    have free: "db_symbols b ! ?i = None" using Cons.prems(1) k(1) i(2) by (auto simp: laid_def)
    have "laid T room (k + 1) ?b" using Cons.prems(1) k(1) i(2) by (auto simp: laid_def nth_list_update)
    from Cons.IH [OF this k(2) Cons.prems(3,4) s(2)] obtain b' where b': "lay_down lim (s + 1) cs ?b = Some b'" "laid T room (k + 1 + lows cs) b'"
      "\<And>j. j < 256 \<Longrightarrow> db_next b' ! j = (if s + 1 \<le> j \<and> j < s + 1 + length cs then Some (first_state (cs ! (j - (s + 1)))) else db_next ?b ! j)"
      "\<And>j. j < 256 \<Longrightarrow> count_list (db_symbols b') (Some (of_nat j)) = count_list (db_symbols ?b) (Some (of_nat j)) +
         (if s + 1 \<le> j \<and> j < s + 1 + length cs \<and> cs ! (j - (s + 1)) = -1 then 1 else 0)"
      "db_fast b' \<longleftrightarrow> db_fast ?b \<and> (\<forall>c \<in> set cs. c = -1 \<or> c < lim)" by blast
    have cnt: "count_list (db_symbols ?b) (Some (of_nat j)) = count_list (db_symbols b) (Some (of_nat j)) + (if j = s then 1 else 0)" if "j < 256" for j
      using count_list_update [of ?i "db_symbols b" "Some (of_nat j)" "Some (of_nat s)"] free len i(2) of_nat_byte [OF s(1) that] by auto
    have "lay_down lim s (c # cs) b = Some b'" using True b'(1) i len s(1) by (simp add: store_at_def)
    moreover have "laid T room (k + lows (c # cs)) b'" using b'(2) True by (simp add: lows_def)
    moreover have "db_next b' ! j = (if s \<le> j \<and> j < s + length (c # cs) then Some (first_state ((c # cs) ! (j - s))) else db_next b ! j)"
      if "j < 256" for j
      using b'(3) [OF that] True len(2) s(1) by (cases "j = s") (auto simp: first_state_def nth_after)
    moreover have "count_list (db_symbols b') (Some (of_nat j)) = count_list (db_symbols b) (Some (of_nat j)) +
        (if s \<le> j \<and> j < s + length (c # cs) \<and> (c # cs) ! (j - s) = -1 then 1 else 0)" if "j < 256" for j
      using b'(4) [OF that] cnt [OF that] True by (cases "j = s") (auto simp: nth_after)
    ultimately show ?thesis using b'(5) True by (intro exI [of _ b']) simp
  next
    case False
    let ?b = "b\<lparr>db_next := (db_next b)[s := Some (nat (c mod 2 ^ 16))], db_fast := db_fast b \<and> \<not> c \<ge> lim\<rparr>"
    have l: "k + lows cs \<le> T" using Cons.prems(2) False by (simp add: lows_def)
    have "laid T room k ?b" using Cons.prems(1) by (simp add: laid_def)
    from Cons.IH [OF this l Cons.prems(3,4) s(2)] obtain b' where b': "lay_down lim (s + 1) cs ?b = Some b'" "laid T room (k + lows cs) b'"
      "\<And>j. j < 256 \<Longrightarrow> db_next b' ! j = (if s + 1 \<le> j \<and> j < s + 1 + length cs then Some (first_state (cs ! (j - (s + 1)))) else db_next ?b ! j)"
      "\<And>j. j < 256 \<Longrightarrow> count_list (db_symbols b') (Some (of_nat j)) = count_list (db_symbols ?b) (Some (of_nat j)) +
         (if s + 1 \<le> j \<and> j < s + 1 + length cs \<and> cs ! (j - (s + 1)) = -1 then 1 else 0)"
      "db_fast b' \<longleftrightarrow> db_fast ?b \<and> (\<forall>c \<in> set cs. c = -1 \<or> c < lim)" by blast
    have "lay_down lim s (c # cs) b = Some b'" using False b'(1) len s(1) by (simp add: store_at_def)
    moreover have "laid T room (k + lows (c # cs)) b'" using b'(2) False by (simp add: lows_def)
    moreover have "db_next b' ! j = (if s \<le> j \<and> j < s + length (c # cs) then Some (first_state ((c # cs) ! (j - s))) else db_next b ! j)"
      if "j < 256" for j
      using b'(3) [OF that] False len(2) s(1) by (cases "j = s") (auto simp: first_state_def nth_after)
    moreover have "count_list (db_symbols b') (Some (of_nat j)) = count_list (db_symbols b) (Some (of_nat j)) +
        (if s \<le> j \<and> j < s + length (c # cs) \<and> (c # cs) ! (j - s) = -1 then 1 else 0)" if "j < 256" for j
      using b'(4) [OF that] False by (cases "j = s") (auto simp: nth_after)
    ultimately show ?thesis using b'(5) False by (intro exI [of _ b']) auto
  qed
qed

section \<open>Spreading the symbols\<close>

text \<open>
  The positions that are visited, with the table's size \<open>2 ^ l\<close>: each of them once, before the
  first one comes again.
\<close>

definition pos :: "nat \<Rightarrow> nat \<Rightarrow> nat" where
  "pos l m = (m * FSE_TABLESTEP (2 ^ l)) mod 2 ^ l"

lemma step_odd:
  assumes "4 \<le> l"
  shows "odd (FSE_TABLESTEP (2 ^ l))"
proof -
  obtain k where "l = k + 4" using assms le_Suc_ex by (metis add.commute)
  then have "FSE_TABLESTEP (2 ^ l) = 2 * (4 * 2 ^ k + 2 ^ k + 1) + 1"
    by (simp add: FSE_TABLESTEP_def drop_bit_eq_div power_add)
  then show ?thesis by simp
qed

lemma pos_inj:
  assumes "4 \<le> l" "i < 2 ^ l" "j < 2 ^ l" "pos l i = pos l j"
  shows "i = j"
proof -
  have *: "i = j" if "i \<le> j" "j < 2 ^ l" "pos l i = pos l j" for i j
  proof -
    let ?s = "FSE_TABLESTEP (2 ^ l)"
    have "2 ^ l dvd j * ?s - i * ?s" using that mod_eq_dvd_iff_nat [of "i * ?s" "j * ?s" "2 ^ l"] by (simp add: pos_def)
    then have "2 ^ l dvd (j - i) * ?s" by (simp add: diff_mult_distrib)
    moreover have "coprime (2 ^ l) ?s" using step_odd [OF assms(1)] by simp
    ultimately have "2 ^ l dvd j - i" by (simp add: coprime_dvd_mult_left_iff)
    then show ?thesis using that by (auto dest!: dvd_imp_le)
  qed
  show ?thesis using *[of i j] *[of j i] assms(2,3,4) by (metis nat_le_linear)
qed

lemma pos_less: "pos l m < 2 ^ l"
  by (simp add: pos_def)

lemma pos_all:
  assumes "4 \<le> l"
  shows "pos l ` {..<2 ^ l} = {..<2 ^ l}"
proof (rule endo_inj_surj)
  show "inj_on (pos l) {..<2 ^ l}" using pos_inj [OF assms] by (auto intro!: inj_onI)
qed (auto simp: pos_less)

lemma pos_next: "(pos l m + FSE_TABLESTEP (2 ^ l)) AND (2 ^ l - 1) = pos l (Suc m)"
proof -
  have "(2 ^ l - 1 :: nat) = mask l" by (simp add: mask_eq_exp_minus_1)
  then have "(pos l m + FSE_TABLESTEP (2 ^ l)) AND (2 ^ l - 1) = (pos l m + FSE_TABLESTEP (2 ^ l)) mod 2 ^ l"
    by (simp only: take_bit_eq_mask [symmetric] take_bit_eq_mod)
  then show ?thesis by (simp add: pos_def mod_simps add.commute)
qed

lemma skip_low_finds:
  assumes "m \<le> m'" "m' < m + fuel" "pos l m' \<le> unat high" "\<forall>j. m \<le> j \<and> j < m' \<longrightarrow> unat high < pos l j"
  shows "skip_low fuel (2 ^ l) high (pos l m) = Some (pos l m')"
  using assms
proof (induction fuel arbitrary: m)
  case (Suc fuel)
  show ?case
  proof (cases "m = m'")
    case True
    then show ?thesis using Suc.prems(3) by simp
  next
    case False
    then have "unat high < pos l m" using Suc.prems(1,4) by simp
    moreover have "skip_low fuel (2 ^ l) high (pos l (Suc m)) = Some (pos l m')" using Suc.prems False by (intro Suc.IH) auto
    ultimately show ?thesis using pos_next [of l m] by simp
  qed
qed simp

text \<open>The visited positions below the threshold, up to the one with number \<open>m\<close>.\<close>

definition used :: "nat \<Rightarrow> 32 word \<Rightarrow> nat \<Rightarrow> nat set" where
  "used l high m = {i. i < m \<and> pos l i \<le> unat high}"

lemma used_all:
  assumes "4 \<le> l" "unat high < 2 ^ l"
  shows "card (used l high (2 ^ l)) = unat high + 1"
proof -
  have "pos l ` used l high (2 ^ l) = {..unat high}"
  proof
    show "{..unat high} \<subseteq> pos l ` used l high (2 ^ l)"
    proof
      fix x assume x: "x \<in> {..unat high}"
      then have "x \<in> pos l ` {..<2 ^ l}" using pos_all [OF assms(1)] assms(2) by auto
      then show "x \<in> pos l ` used l high (2 ^ l)" using x by (auto simp: used_def)
    qed
  qed (auto simp: used_def)
  moreover have "inj_on (pos l) (used l high (2 ^ l))" using pos_inj [OF assms(1)] by (auto intro!: inj_onI simp: used_def)
  ultimately show ?thesis using card_image by fastforce
qed

lemma used_finite: "finite (used l high m)"
  by (rule finite_subset [of _ "{..<m}"]) (auto simp: used_def)

lemma next_position_finds:
  assumes l: "4 \<le> l" and m: "m < 2 ^ l" and p: "pos l m \<le> unat high"
  shows "\<exists>m'. next_position (2 ^ l) high (pos l m) = Some (pos l m') \<and> m < m' \<and> m' \<le> 2 ^ l \<and> pos l m' \<le> unat high \<and>
    used l high m' = insert m (used l high m)"
proof -
  have "pos l (2 ^ l) = 0" by (simp add: pos_def)
  then have ex: "\<exists>m'. m < m' \<and> pos l m' \<le> unat high" using m by (intro exI [of _ "2 ^ l"]) simp
  define m' where "m' = (LEAST m'. m < m' \<and> pos l m' \<le> unat high)"
  have m': "m < m'" "pos l m' \<le> unat high" using LeastI_ex [OF ex] by (simp_all add: m'_def)
  have le: "m' \<le> 2 ^ l" unfolding m'_def using m \<open>pos l (2 ^ l) = 0\<close> by (intro Least_le) simp
  have between: "unat high < pos l j" if "Suc m \<le> j" "j < m'" for j
    using not_less_Least [OF that(2) [unfolded m'_def]] that(1) by auto
  have "next_position (2 ^ l) high (pos l m) = skip_low (2 ^ l) (2 ^ l) high (pos l (Suc m))"
    by (simp only: next_position_def pos_next)
  also have "\<dots> = Some (pos l m')" using m' le between by (intro skip_low_finds) auto
  finally have "next_position (2 ^ l) high (pos l m) = Some (pos l m')" .
  moreover have "used l high m' = insert m (used l high m)"
  proof (rule set_eqI)
    fix i
    show "i \<in> used l high m' \<longleftrightarrow> i \<in> insert m (used l high m)"
      using between [of i] m' p by (cases i m rule: linorder_cases) (auto simp: used_def)
  qed
  ultimately show ?thesis using m' le by blast
qed

text \<open>The cells when the position has the number \<open>m\<close>.\<close>

definition filled :: "nat \<Rightarrow> nat \<Rightarrow> 32 word \<Rightarrow> nat \<Rightarrow> byte option list \<Rightarrow> bool" where
  "filled l room high m syms \<longleftrightarrow> length syms = room \<and> m \<le> 2 ^ l \<and> pos l m \<le> unat high \<and>
     (\<forall>i < room. syms ! i = None \<longleftrightarrow> i \<le> unat high \<and> i \<notin> pos l ` used l high m \<or> 2 ^ l \<le> i)"

lemma fill_one:
  assumes l: "4 \<le> l" and h: "unat high < 2 ^ l" and r: "2 ^ l \<le> room" and f: "filled l room high m syms"
    and c: "card (used l high m) < unat high + 1"
  shows "\<exists>m'. next_position (2 ^ l) high (pos l m) = Some (pos l m') \<and> filled l room high m' (syms[pos l m := Some b]) \<and>
    card (used l high m') = card (used l high m) + 1 \<and> pos l m < room \<and> syms ! pos l m = None"
proof -
  have m: "m < 2 ^ l" using f c used_all [OF l h] by (auto simp: filled_def le_less)
  have p: "pos l m \<le> unat high" "pos l m < room" using f h r by (simp_all add: filled_def)
  obtain m' where m': "next_position (2 ^ l) high (pos l m) = Some (pos l m')" "m < m'" "m' \<le> 2 ^ l" "pos l m' \<le> unat high"
    "used l high m' = insert m (used l high m)" using next_position_finds [OF l m p(1)] by blast
  have new: "pos l m \<notin> pos l ` used l high m"
  proof
    assume "pos l m \<in> pos l ` used l high m"
    then obtain i where "pos l i = pos l m" "i < m" by (auto simp: used_def)
    then show False using pos_inj [OF l, of i m] m by simp
  qed
  have "filled l room high m' (syms[pos l m := Some b])"
    using f m' p pos_less [of l m] by (auto simp: filled_def nth_list_update)
  moreover have "card (used l high m') = card (used l high m) + 1" using m'(5) used_finite by (simp add: used_def)
  moreover have "syms ! pos l m = None" using f p new by (simp add: filled_def)
  ultimately show ?thesis using m'(1) p(2) by blast
qed

lemma spread_symbol_fills:
  assumes "4 \<le> l" "unat high < 2 ^ l" "2 ^ l \<le> room" "filled l room high m syms" "card (used l high m) + n \<le> unat high + 1"
  shows "\<exists>m' syms'. spread_symbol (2 ^ l) high s n (pos l m) syms = Some (pos l m', syms') \<and> filled l room high m' syms' \<and>
    card (used l high m') = card (used l high m) + n \<and>
    (\<forall>x. count_list syms' (Some x) = count_list syms (Some x) + (if x = of_nat s then n else 0))"
  using assms
proof (induction n arbitrary: m syms)
  case 0
  then show ?case by auto
next
  case (Suc n)
  let ?syms = "syms[pos l m := Some (of_nat s)]"
  obtain m1 where m1: "next_position (2 ^ l) high (pos l m) = Some (pos l m1)" "filled l room high m1 ?syms"
    "card (used l high m1) = card (used l high m) + 1" "pos l m < room" "syms ! pos l m = None"
    using fill_one [OF Suc.prems(1-4)] Suc.prems(5) by auto
  have "card (used l high m1) + n \<le> unat high + 1" using m1(3) Suc.prems(5) by simp
  from Suc.IH [OF Suc.prems(1-3) m1(2) this] obtain m' syms' where
    m': "spread_symbol (2 ^ l) high s n (pos l m1) ?syms = Some (pos l m', syms')" "filled l room high m' syms'"
      "card (used l high m') = card (used l high m1) + n"
      "\<And>x. count_list syms' (Some x) = count_list ?syms (Some x) + (if x = of_nat s then n else 0)" by blast
  have len: "length syms = room" using Suc.prems(4) by (simp add: filled_def)
  have "count_list ?syms (Some x) = count_list syms (Some x) + (if x = of_nat s then 1 else 0)" for x
    using count_list_update [of "pos l m" syms "Some x" "Some (of_nat s)"] m1(4,5) len by auto
  moreover have "spread_symbol (2 ^ l) high s (Suc n) (pos l m) syms = Some (pos l m', syms')"
    using m1(1,4) m'(1) len by (simp add: store_at_def)
  ultimately show ?case using m'(2,3,4) m1(3) by (intro exI [of _ m'] exI [of _ syms']) simp
qed

lemma spread_fills:
  assumes "4 \<le> l" "unat high < 2 ^ l" "2 ^ l \<le> room" "filled l room high m syms"
    and "card (used l high m) + sum_list (map nat cs) \<le> unat high + 1" "s + length cs \<le> 256"
  shows "\<exists>m' syms'. spread (2 ^ l) high s cs (pos l m) syms = Some (pos l m', syms') \<and> filled l room high m' syms' \<and>
    card (used l high m') = card (used l high m) + sum_list (map nat cs) \<and>
    (\<forall>j < 256. count_list syms' (Some (of_nat j)) =
       count_list syms (Some (of_nat j)) + (if s \<le> j \<and> j < s + length cs then nat (cs ! (j - s)) else 0))"
  using assms
proof (induction cs arbitrary: s m syms)
  case Nil
  then show ?case by auto
next
  case (Cons c cs)
  have n: "card (used l high m) + nat c \<le> unat high + 1" using Cons.prems(5) by simp
  obtain m1 syms1 where m1: "spread_symbol (2 ^ l) high s (nat c) (pos l m) syms = Some (pos l m1, syms1)" "filled l room high m1 syms1"
    "card (used l high m1) = card (used l high m) + nat c"
    "\<And>x. count_list syms1 (Some x) = count_list syms (Some x) + (if x = of_nat s then nat c else 0)"
    using spread_symbol_fills [OF Cons.prems(1-4) n, of s] by blast
  have "card (used l high m1) + sum_list (map nat cs) \<le> unat high + 1" "s + 1 + length cs \<le> 256" using m1(3) Cons.prems(5,6) by simp_all
  from Cons.IH [OF Cons.prems(1-3) m1(2) this] obtain m' syms' where
    m': "spread (2 ^ l) high (s + 1) cs (pos l m1) syms1 = Some (pos l m', syms')" "filled l room high m' syms'"
      "card (used l high m') = card (used l high m1) + sum_list (map nat cs)"
      "\<And>j. j < 256 \<Longrightarrow> count_list syms' (Some (of_nat j)) =
         count_list syms1 (Some (of_nat j)) + (if s + 1 \<le> j \<and> j < s + 1 + length cs then nat (cs ! (j - (s + 1))) else 0)" by blast
  have "count_list syms' (Some (of_nat j)) = count_list syms (Some (of_nat j)) +
      (if s \<le> j \<and> j < s + length (c # cs) then nat ((c # cs) ! (j - s)) else 0)" if "j < 256" for j
    using m'(4) [OF that] m1(4) [of "of_nat j"] of_nat_byte [OF that, of s] Cons.prems(6)
    by (cases "j = s") (auto simp: nth_after)
  moreover have "spread (2 ^ l) high s (c # cs) (pos l m) syms = Some (pos l m', syms')" using m1(1) m'(1) by simp
  ultimately show ?case using m'(2,3) m1(3) by (intro exI [of _ m'] exI [of _ syms']) simp
qed

lemma spread_nothing: "\<forall>c \<in> set cs. c \<le> 0 \<Longrightarrow> spread T high s cs p syms = Some (p, syms)"
  by (induction cs arbitrary: s) auto

end
