(* ===== verification/Zstd_Cells_Spec.thy ===== *)
theory Zstd_Cells_Spec
  imports Zstd_Table_Spec
begin

text \<open>
  The cells of a decoding table, and the table that \<open>FSE_buildDTable\<close> builds from the counts of a valid header.
\<close>

section \<open>The cell of a state\<close>

text \<open>\<open>a\<close> is the state of the encoder: between the count of the symbol and twice that count.\<close>

definition cell_of :: "nat \<Rightarrow> byte \<Rightarrow> nat \<Rightarrow> FSE_decode_t" where
  "cell_of l c a = \<lparr>newState = a * 2 ^ (l - highest_bit a) - 2 ^ l, symbol = c, cellBits = l - highest_bit a\<rparr>"

lemma highest_bit_bounds: "0 < n \<Longrightarrow> 2 ^ highest_bit n \<le> n \<and> n < 2 * 2 ^ highest_bit n"
proof (induction n rule: highest_bit.induct)
  case (1 n)
  show ?case
  proof (cases "n < 2")
    case True
    then show ?thesis using 1(2) by (simp add: highest_bit.simps [of n])
  next
    case False
    then have "2 ^ highest_bit (n div 2) \<le> n div 2 \<and> n div 2 < 2 * 2 ^ highest_bit (n div 2)" using 1(1) by simp
    then show ?thesis using False by (simp add: highest_bit.simps [of n]) linarith
  qed
qed

lemma highest_bit_le:
  assumes "0 < n" "n < 2 * 2 ^ l"
  shows "highest_bit n \<le> l"
proof -
  have "2 ^ highest_bit n < (2 :: nat) ^ Suc l" using highest_bit_bounds [OF assms(1)] assms(2) by simp
  then have "highest_bit n < Suc l" by (rule power_less_imp_less_exp [rotated]) simp
  then show ?thesis by simp
qed

lemma cell_range:
  assumes "0 < a" "a < 2 * 2 ^ l"
  shows "2 ^ l \<le> a * 2 ^ (l - highest_bit a)" "(a + 1) * 2 ^ (l - highest_bit a) \<le> 2 * 2 ^ l"
proof -
  have p: "(2 :: nat) ^ highest_bit a * 2 ^ (l - highest_bit a) = 2 ^ l"
    using highest_bit_le [OF assms] by (simp flip: power_add)
  have "2 ^ highest_bit a * 2 ^ (l - highest_bit a) \<le> a * 2 ^ (l - highest_bit a)" using highest_bit_bounds [OF assms(1)] by simp
  then show "2 ^ l \<le> a * 2 ^ (l - highest_bit a)" using p by simp
  have "(a + 1) * 2 ^ (l - highest_bit a) \<le> (2 * 2 ^ highest_bit a) * 2 ^ (l - highest_bit a)"
    using highest_bit_bounds [OF assms(1)] by (intro mult_right_mono) auto
  then show "(a + 1) * 2 ^ (l - highest_bit a) \<le> 2 * 2 ^ l" using p by (simp only: mult.assoc)
qed

lemma highbit_of_nat: "0 < n \<Longrightarrow> n < 2 ^ 32 \<Longrightarrow> BIT_highbit32 (of_nat n) = Some (highest_bit n)"
  by (simp add: BIT_highbit32_def unsigned_of_nat take_bit_nat_eq_self word_of_nat_eq_0_iff nat_dvd_not_less)

lemma nat_mod_small: "n < 2 ^ 16 \<Longrightarrow> nat (int n mod 2 ^ 16) = n"
  by (simp add: mod_pos_pos_trivial)

lemma cell_fields:
  assumes "0 < a" "a < 2 * 2 ^ l" "l \<le> 12"
  shows "nat ((int l - int (highest_bit a)) mod 2 ^ 8) = l - highest_bit a"
    "nat ((int a * 2 ^ (l - highest_bit a) - int (2 ^ l)) mod 2 ^ 16) = a * 2 ^ (l - highest_bit a) - 2 ^ l"
proof -
  show "nat ((int l - int (highest_bit a)) mod 2 ^ 8) = l - highest_bit a"
    using highest_bit_le [OF assms(1,2)] assms(3) by (simp add: mod_pos_pos_trivial flip: of_nat_diff)
  let ?n = "a * 2 ^ (l - highest_bit a) - 2 ^ l"
  have "(2 :: nat) ^ l \<le> 2 ^ 12" using assms(3) by (rule power_increasing) simp
  then have "?n < 2 ^ 16" using cell_range [OF assms(1,2)] by (simp add: algebra_simps)
  moreover have "int a * 2 ^ (l - highest_bit a) - int (2 ^ l) = int ?n" using cell_range [OF assms(1,2)] by (simp add: of_nat_diff)
  ultimately show "nat ((int a * 2 ^ (l - highest_bit a) - int (2 ^ l)) mod 2 ^ 16) = ?n"
    using nat_mod_small [of ?n] by metis
qed

lemma build_cells_exact:
  assumes "None \<notin> set syms" "length nx = 256" "l \<le> 12"
    and "\<And>c. Some c \<in> set syms \<Longrightarrow> nx ! unat c = Some (f c) \<and> 0 < f c \<and> f c + count_list syms (Some c) \<le> 2 * 2 ^ l"
  shows "\<exists>cells. build_cells l (2 ^ l) syms nx = Some (map Some cells) \<and> length cells = length syms \<and>
    (\<forall>i < length syms. cells ! i = cell_of l (the (syms ! i)) (f (the (syms ! i)) + count_list (take i syms) (syms ! i)))"
  using assms
proof (induction syms arbitrary: nx f)
  case Nil
  then show ?case by simp
next
  case (Cons x syms)
  obtain c where x: "x = Some c" using Cons.prems(1) by (cases x) auto
  have c: "nx ! unat c = Some (f c)" "0 < f c" "f c + count_list syms (Some c) + 1 \<le> 2 * 2 ^ l" using Cons.prems(4) [of c] x by simp_all
  have u: "unat c < length nx" using Cons.prems(2) unsigned_less [of c] by simp
  have "(2 :: nat) ^ l \<le> 2 ^ 12" using Cons.prems(3) by (rule power_increasing) simp
  then have small: "f c < 2 * 2 ^ l" "f c < 2 ^ 32" "f c + 1 < 2 ^ 16" using c(3) by simp_all
  let ?f = "f(c := f c + 1)" and ?nx = "nx[unat c := Some (f c + 1)]"
  have IHp: "?nx ! unat d = Some (?f d) \<and> 0 < ?f d \<and> ?f d + count_list syms (Some d) \<le> 2 * 2 ^ l" if "Some d \<in> set syms" for d
    using Cons.prems(4) [of d] that x u c(3) by (cases "d = c") (auto simp: nth_list_update simp flip: word_unat_eq_iff)
  obtain cells where cells: "build_cells l (2 ^ l) syms ?nx = Some (map Some cells)" "length cells = length syms"
    "\<And>i. i < length syms \<Longrightarrow> cells ! i = cell_of l (the (syms ! i)) (?f (the (syms ! i)) + count_list (take i syms) (syms ! i))"
    using Cons.IH [of ?nx ?f] Cons.prems(1,2,3) IHp by auto
  have nb: "\<not> l - highest_bit (f c) \<ge> 32" using Cons.prems(3) by simp
  have "build_cells l (2 ^ l) (x # syms) nx = Some (map Some (cell_of l c (f c) # cells))"
    using x c(1) u small(3) cells(1) nb highbit_of_nat [OF c(2) small(2)] cell_fields [OF c(2) small(1) Cons.prems(3)]
    by (simp add: fetch_def store_at_def Let_def cell_of_def)
  moreover have "(cell_of l c (f c) # cells) ! i =
      cell_of l (the ((x # syms) ! i)) (f (the ((x # syms) ! i)) + count_list (take i (x # syms)) ((x # syms) ! i))"
    if i: "i < length (x # syms)" for i
  proof (cases i)
    case 0
    then show ?thesis using x by simp
  next
    case (Suc j)
    then obtain d where d: "syms ! j = Some d" using i Cons.prems(1) by (metis Suc_less_eq length_Cons list.set_intros(2) not_None_eq nth_mem)
    then show ?thesis using Suc cells(3) [of j] i x by auto
  qed
  ultimately show ?case using cells(2) by (intro exI [of _ "cell_of l c (f c) # cells"]) simp
qed

section \<open>Counts and positions\<close>

lemma count_position:
  "k < count_list xs x \<Longrightarrow> \<exists>!i. i < length xs \<and> xs ! i = x \<and> count_list (take i xs) x = k"
proof (induction xs arbitrary: k)
  case (Cons z xs)
  show ?case
  proof (cases "z = x \<and> k = 0")
    case True
    show ?thesis
    proof (rule ex1I [of _ 0])
      fix i assume "i < length (z # xs) \<and> (z # xs) ! i = x \<and> count_list (take i (z # xs)) x = k"
      then show "i = 0" using True by (cases i) auto
    qed (use True in simp)
  next
    case False
    let ?k = "if z = x then k - 1 else k"
    have "?k < count_list xs x" using Cons.prems False by (auto split: if_splits)
    from Cons.IH [OF this] obtain i where i: "i < length xs" "xs ! i = x" "count_list (take i xs) x = ?k"
      and u: "\<And>j. j < length xs \<Longrightarrow> xs ! j = x \<Longrightarrow> count_list (take j xs) x = ?k \<Longrightarrow> j = i" by blast
    show ?thesis
    proof (rule ex1I [of _ "Suc i"])
      fix j assume j: "j < length (z # xs) \<and> (z # xs) ! j = x \<and> count_list (take j (z # xs)) x = k"
      then obtain j' where "j = Suc j'" using False by (cases j) auto
      then show "j = Suc i" using u [of j'] j by (auto split: if_splits)
    qed (use i False in \<open>auto split: if_splits\<close>)
  qed
qed simp

lemma count_list_take: "\<forall>i < length xs. T \<le> i \<longrightarrow> xs ! i \<noteq> x \<Longrightarrow> count_list (take T xs) x = count_list xs x"
proof (induction xs arbitrary: T)
  case (Cons z xs)
  show ?case
  proof (cases T)
    case 0
    then show ?thesis using Cons.prems by (metis bot_nat_0.extremum count_list.simps(1) count_notin in_set_conv_nth take_0)
  next
    case (Suc n)
    have "\<forall>i < length xs. n \<le> i \<longrightarrow> xs ! i \<noteq> x" using Cons.prems Suc by (metis Suc_le_mono Suc_less_eq length_Cons nth_Cons_Suc)
    then show ?thesis using Cons.IH Suc by simp
  qed
qed simp

lemma div_two: "(y :: nat) div (2 * 2 ^ d) = y div 2 ^ d div 2"
  by (simp only: div_mult2_eq [symmetric] mult.commute)

text \<open>Every target state belongs to exactly one encoder state of a symbol with the count \<open>a\<close>.\<close>

lemma encoder_state:
  assumes "0 < a" "a \<le> 2 ^ l" "2 ^ l \<le> y" "y < 2 * 2 ^ l"
  shows "\<exists>!n. a \<le> n \<and> n < 2 * a \<and> n * 2 ^ (l - highest_bit n) \<le> y \<and> y < (n + 1) * 2 ^ (l - highest_bit n)"
proof -
  define k where "k = highest_bit a"
  have k: "2 ^ k \<le> a" "a < 2 * 2 ^ k" using highest_bit_bounds [OF assms(1)] by (simp_all add: k_def)
  have "k \<le> l" using highest_bit_le [of a l] assms(1,2) by (simp add: k_def)
  have range: "n * 2 ^ d \<le> y \<and> y < (n + 1) * 2 ^ d \<longleftrightarrow> n = y div 2 ^ d" for n d :: nat
    using div_nat_eqI [of "2 ^ d" n y] div_times_less_eq_dividend [of y "2 ^ d"] dividend_less_div_times [of "2 ^ d" y]
    by (auto simp: mult.commute)
  have bit: "highest_bit n = k \<or> highest_bit n = Suc k" if "a \<le> n" "n < 2 * a" for n
  proof (cases "n < 2 * 2 ^ k")
    case True
    then show ?thesis using highest_bit_unique [of k n] that k by simp
  next
    case False
    then show ?thesis using highest_bit_unique [of "Suc k" n] that k by simp
  qed
  define n1 where "n1 = y div 2 ^ (l - k)"
  have n1: "2 ^ k \<le> n1" "n1 < 2 * 2 ^ k"
  proof -
    have p: "(2 :: nat) ^ k * 2 ^ (l - k) = 2 ^ l" using \<open>k \<le> l\<close> by (simp flip: power_add)
    show "2 ^ k \<le> n1" using assms(3) p by (simp add: n1_def less_eq_div_iff_mult_less_eq)
    show "n1 < 2 * 2 ^ k" using assms(4) p by (simp add: n1_def div_less_iff_less_mult mult.assoc)
  qed
  show ?thesis
  proof (cases "a \<le> n1")
    case True
    show ?thesis
    proof (rule ex1I [of _ n1])
      have "highest_bit n1 = k" using highest_bit_unique [of k n1] n1 by simp
      then show "a \<le> n1 \<and> n1 < 2 * a \<and> n1 * 2 ^ (l - highest_bit n1) \<le> y \<and> y < (n1 + 1) * 2 ^ (l - highest_bit n1)"
        using True n1 k range [of n1 "l - k"] by (simp add: n1_def)
    next
      fix n assume n: "a \<le> n \<and> n < 2 * a \<and> n * 2 ^ (l - highest_bit n) \<le> y \<and> y < (n + 1) * 2 ^ (l - highest_bit n)"
      then have e: "n = y div 2 ^ (l - highest_bit n)" using range by blast
      show "n = n1"
      proof (cases "highest_bit n = k")
        case False
        then have h: "highest_bit n = Suc k" using bit n by blast
        show ?thesis
        proof (cases "Suc k \<le> l")
          case True
          then have "l - k = Suc (l - Suc k)" by simp
          then have "n1 = n div 2" using e h by (simp add: n1_def div_two)
          then show ?thesis using \<open>a \<le> n1\<close> n by linarith
        next
          case False
          then have "n = y" "n1 = y" using e h \<open>k \<le> l\<close> by (simp_all add: n1_def)
          then show ?thesis by simp
        qed
      qed (use e n1_def in simp)
    qed
  next
    case False
    have "k < l"
    proof (rule ccontr)
      assume "\<not> k < l"
      then have "n1 = y" using \<open>k \<le> l\<close> by (simp add: n1_def)
      then show False using False assms(2,3) by simp
    qed
    define n2 where "n2 = y div 2 ^ (l - Suc k)"
    have "l - k = Suc (l - Suc k)" using \<open>k < l\<close> by simp
    then have half: "n1 = n2 div 2" by (simp add: n1_def n2_def div_two)
    then have n2: "2 * 2 ^ k \<le> n2" "n2 < 2 * a" using n1 False by linarith+
    show ?thesis
    proof (rule ex1I [of _ n2])
      have "highest_bit n2 = Suc k" using highest_bit_unique [of "Suc k" n2] n2 k by simp
      then show "a \<le> n2 \<and> n2 < 2 * a \<and> n2 * 2 ^ (l - highest_bit n2) \<le> y \<and> y < (n2 + 1) * 2 ^ (l - highest_bit n2)"
        using n2 k range [of n2 "l - Suc k"] by (simp add: n2_def)
    next
      fix n assume n: "a \<le> n \<and> n < 2 * a \<and> n * 2 ^ (l - highest_bit n) \<le> y \<and> y < (n + 1) * 2 ^ (l - highest_bit n)"
      then have e: "n = y div 2 ^ (l - highest_bit n)" using range by blast
      then have "highest_bit n \<noteq> k" using False n by (auto simp: n1_def)
      then have "highest_bit n = Suc k" using bit n by blast
      then show "n = n2" using e by (simp add: n2_def)
    qed
  qed
qed

end
