(* ===== verification/Zstd_Build_Spec.thy ===== *)
theory Zstd_Build_Spec
  imports Zstd_Cells_Spec
begin

text \<open>
  The table that \<open>FSE_buildDTable\<close> builds from the counts of a valid header.
\<close>

section \<open>All symbols are spread\<close>

lemma count_replicate [simp]: "x \<noteq> y \<Longrightarrow> count_list (replicate n y) x = 0"
  by (induction n) auto

lemma sum_nat_counts:
  assumes "\<forall>c \<in> set cs. -1 \<le> c"
  shows "lows cs + sum_list (map nat cs) = nat (sum_list (map abs cs))"
  using assms
proof (induction cs)
  case (Cons c cs)
  have "0 \<le> sum_list (map abs cs)" by (rule sum_list_nonneg) auto
  moreover have "c = -1 \<or> 0 \<le> c" using Cons.prems by auto
  ultimately show ?case using Cons by (auto simp: lows_def nat_add_distrib)
qed (simp add: lows_def)

lemma spread_all:
  assumes l: "4 \<le> l" and T: "2 ^ l \<le> room" "2 ^ l < (2 :: nat) ^ 32" and b: "laid (2 ^ l) room k b"
    and n: "k + sum_list (map nat cs) = 2 ^ l" and len: "length cs \<le> 256"
  shows "\<exists>syms. spread (2 ^ l) (db_high b) 0 cs 0 (db_symbols b) = Some (0, syms) \<and> length syms = room \<and>
    (\<forall>i < room. syms ! i = None \<longleftrightarrow> 2 ^ l \<le> i) \<and>
    (\<forall>j < 256. count_list syms (Some (of_nat j)) =
       count_list (db_symbols b) (Some (of_nat j)) + (if j < length cs then nat (cs ! j) else 0))"
proof (cases "k = 2 ^ l")
  case True
  then have none: "nat c = 0" if "c \<in> set cs" for c using n member_le_sum_list [of "nat c" "map nat cs"] that by simp
  then have "spread (2 ^ l) (db_high b) 0 cs 0 (db_symbols b) = Some (0, db_symbols b)" using spread_nothing [of cs] by simp
  then show ?thesis using b True none by (auto simp: laid_def)
next
  case False
  let ?h = "db_high b"
  have k: "k < 2 ^ l" using n False by simp
  have h: "unat ?h = 2 ^ l - 1 - k" using b high_value [OF k T(2)] by (simp add: laid_def)
  have p0: "pos l 0 = 0" "pos l (2 ^ l) = 0" "used l ?h 0 = {}" by (simp_all add: pos_def used_def)
  have bb: "length (db_symbols b) = room" "\<And>i. i < room \<Longrightarrow> db_symbols b ! i = None \<longleftrightarrow> i < 2 ^ l - k \<or> 2 ^ l \<le> i"
    using b by (simp_all add: laid_def)
  have "i < 2 ^ l - k \<longleftrightarrow> i \<le> 2 ^ l - 1 - k" for i using k by linarith
  then have "filled l room ?h 0 (db_symbols b)" using bb unfolding filled_def p0 h by simp
  moreover have "card (used l ?h 0) + sum_list (map nat cs) \<le> unat ?h + 1" using n h k by (simp add: p0)
  moreover have less: "unat ?h < 2 ^ l" using h k by simp
  ultimately obtain m syms where s: "spread (2 ^ l) ?h 0 cs 0 (db_symbols b) = Some (pos l m, syms)" "filled l room ?h m syms"
    "card (used l ?h m) = sum_list (map nat cs)"
    "\<forall>j < 256. count_list syms (Some (of_nat j)) =
       count_list (db_symbols b) (Some (of_nat j)) + (if j < length cs then nat (cs ! j) else 0)"
    using spread_fills [of l ?h room 0 "db_symbols b" cs 0] l T(1) len p0 by auto
  have card: "card (used l ?h m) = card (used l ?h (2 ^ l))" using s(3) n h k used_all [OF l less] by simp
  have "m = 2 ^ l"
  proof (rule ccontr)
    assume "m \<noteq> 2 ^ l"
    then have "m < 2 ^ l" "pos l m \<le> unat ?h" using s(2) by (simp_all add: filled_def)
    then have "used l ?h m \<subset> used l ?h (2 ^ l)" by (auto simp: used_def)
    then show False using card psubset_card_mono [OF used_finite] by (metis less_irrefl)
  qed
  then have "syms ! i = None \<longleftrightarrow> 2 ^ l \<le> i" if "i < room" for i
  proof -
    have "i \<in> pos l ` used l ?h (2 ^ l)" if "i \<le> unat ?h"
    proof -
      have "i \<in> pos l ` {..<2 ^ l}" using pos_all [OF l] that less by auto
      then show ?thesis using that by (auto simp: used_def)
    qed
    then show ?thesis using s(2) \<open>m = 2 ^ l\<close> that by (auto simp: filled_def)
  qed
  then show ?thesis using s p0 \<open>m = 2 ^ l\<close> by (auto simp: filled_def)
qed

section \<open>The table\<close>

text \<open>What the decoder relies on: every cell is there and leads to states of the table.\<close>

definition table_valid :: "FSE_DTable \<Rightarrow> bool" where
  "table_valid dt \<longleftrightarrow> dt_tableLog dt \<le> 12 \<and> length (dt_cells dt) = 2 ^ dt_tableLog dt \<and>
     (\<forall>cell \<in> set (dt_cells dt). case cell of None \<Rightarrow> False
       | Some d \<Rightarrow> newState d + 2 ^ cellBits d \<le> 2 ^ dt_tableLog dt \<and> (dt_fastMode dt \<longrightarrow> 1 \<le> cellBits d))"

text \<open>The cells of a symbol: as many as its count, and each state follows exactly one of them.\<close>

definition cells_of :: "FSE_DTable \<Rightarrow> byte \<Rightarrow> nat set" where
  "cells_of dt s = {i. i < length (dt_cells dt) \<and> map_option symbol (dt_cells dt ! i) = Some s}"

definition leads_to :: "FSE_DTable \<Rightarrow> nat \<Rightarrow> nat \<Rightarrow> bool" where
  "leads_to dt i x \<longleftrightarrow> (case dt_cells dt ! i of None \<Rightarrow> False | Some d \<Rightarrow> newState d \<le> x \<and> x < newState d + 2 ^ cellBits d)"

definition table_codes :: "int list \<Rightarrow> nat \<Rightarrow> FSE_DTable \<Rightarrow> bool" where
  "table_codes counts sv dt \<longleftrightarrow>
     (\<forall>s < 256. card (cells_of dt (of_nat s)) = (if s \<le> sv then nat \<bar>counts ! s\<bar> else 0)) \<and>
     (\<forall>s \<le> sv. counts ! s \<noteq> 0 \<longrightarrow> (\<forall>x < 2 ^ dt_tableLog dt. \<exists>!i. i \<in> cells_of dt (of_nat s) \<and> leads_to dt i x))"

lemma sum_list_take: "n \<le> length xs \<Longrightarrow> sum_list (map f (take n xs)) = (\<Sum>i<n. f (xs ! i) :: int)"
  by (induction n) (simp_all add: take_Suc_conv_app_nth)

lemma some_nth: "None \<notin> set xs \<Longrightarrow> i < length xs \<Longrightarrow> \<exists>c. xs ! i = Some c"
  by (metis not_None_eq nth_mem)

lemma cell_leads:
  assumes "0 < n" "n < 2 * 2 ^ l"
  shows "newState (cell_of l c n) \<le> x \<and> x < newState (cell_of l c n) + 2 ^ cellBits (cell_of l c n) \<longleftrightarrow>
    n * 2 ^ (l - highest_bit n) \<le> x + 2 ^ l \<and> x + 2 ^ l < (n + 1) * 2 ^ (l - highest_bit n)"
  using cell_range(1) [OF assms] unfolding cell_of_def FSE_decode_t.simps distrib_right mult_1 by linarith

lemma ex1_same: "\<exists>!x. P x \<Longrightarrow> P x \<Longrightarrow> P y \<Longrightarrow> x = y"
  by blast

lemma ex1_through: "\<exists>!n. P n \<Longrightarrow> (\<And>n. P n \<Longrightarrow> \<exists>!i. Q i \<and> g i = n) \<Longrightarrow> \<exists>!i. Q i \<and> P (g i)"
  by metis

lemma table_cells:
  assumes l: "l \<le> 12" and s: "s < 256" and syms: "length syms = 2 ^ l" "None \<notin> set syms"
    and cells: "length cells = 2 ^ l"
      "\<And>i. i < 2 ^ l \<Longrightarrow> cells ! i = cell_of l (the (syms ! i)) (f (the (syms ! i)) + count_list (take i syms) (syms ! i))"
    and dt: "dt = \<lparr>dt_tableLog = l, dt_fastMode = fast, dt_cells = map Some cells\<rparr>"
    and a: "count_list syms (Some (of_nat s)) = a" "0 < a \<Longrightarrow> f (of_nat s) = a" "a \<le> 2 ^ l"
  shows "card (cells_of dt (of_nat s)) = a" "0 < a \<Longrightarrow> x < 2 ^ l \<Longrightarrow> \<exists>!i. i \<in> cells_of dt (of_nat s) \<and> leads_to dt i x"
proof -
  let ?s = "Some (of_nat s :: byte)" and ?n = "\<lambda>i. count_list (take i syms) (Some (of_nat s))"
  have mem: "i \<in> cells_of dt (of_nat s) \<longleftrightarrow> i < 2 ^ l \<and> syms ! i = ?s" for i
  proof -
    have "map_option symbol (dt_cells dt ! i) = Some (of_nat s) \<longleftrightarrow> syms ! i = ?s" if i: "i < 2 ^ l"
    proof -
      obtain c where c: "syms ! i = Some c" using i syms nth_mem [of i syms] by (cases "syms ! i") simp_all
      have "dt_cells dt ! i = Some (cells ! i)" using that dt cells(1) by simp
      then show ?thesis using c cells(2) [OF that] by (simp add: cell_of_def)
    qed
    moreover have "length (dt_cells dt) = 2 ^ l" using dt cells(1) by simp
    ultimately show ?thesis by (auto simp: cells_of_def)
  qed
  have pos: "\<exists>!i. i < length syms \<and> syms ! i = ?s \<and> ?n i = k" if "k < a" for k
    using count_position [of k syms ?s] that unfolding a(1) by simp
  have less: "?n i < a" if "i < 2 ^ l" "syms ! i = ?s" for i
  proof -
    have "count_list syms ?s = ?n i + count_list (drop i syms) ?s" by (simp flip: count_list_append)
    moreover have "drop i syms = syms ! i # drop (Suc i) syms" using that(1) syms(1) Cons_nth_drop_Suc [of i syms] by simp
    ultimately show ?thesis using a(1) that(2) by simp
  qed
  have "bij_betw ?n (cells_of dt (of_nat s)) {..<a}"
  proof (rule bij_betwI')
    fix i j assume ij: "i \<in> cells_of dt (of_nat s)" "j \<in> cells_of dt (of_nat s)"
    then have i: "i < length syms" "syms ! i = ?s" "?n i < a" and j: "j < length syms" "syms ! j = ?s"
      using less mem syms(1) by simp_all
    show "(?n i = ?n j) = (i = j)"
    proof
      assume "?n i = ?n j"
      then show "i = j" using i j by (intro ex1_same [OF pos [OF i(3)]]) simp_all
    qed simp
  next
    fix k assume "k \<in> {..<a}"
    then have "k < a" by simp
    then obtain i where "i < length syms" "syms ! i = ?s" "?n i = k" using pos [of k] by (auto elim!: ex1E)
    then show "\<exists>i \<in> cells_of dt (of_nat s). k = ?n i" using mem syms(1) by (intro bexI [of _ i]) simp_all
  qed (use less mem in auto)
  then show "card (cells_of dt (of_nat s)) = a" using bij_betw_same_card by fastforce
  show "\<exists>!i. i \<in> cells_of dt (of_nat s) \<and> leads_to dt i x" if "0 < a" "x < 2 ^ l"
  proof -
    have lead: "leads_to dt i x \<longleftrightarrow> (a + ?n i) * 2 ^ (l - highest_bit (a + ?n i)) \<le> x + 2 ^ l \<and>
        x + 2 ^ l < (a + ?n i + 1) * 2 ^ (l - highest_bit (a + ?n i))" if i: "i \<in> cells_of dt (of_nat s)" for i
    proof -
      have i': "i < 2 ^ l" "syms ! i = ?s" using i mem by auto
      have "a + ?n i < 2 * 2 ^ l" using less [OF i'] a(3) by simp
      moreover have "dt_cells dt ! i = Some (cell_of l (of_nat s) (a + ?n i))"
        using dt cells(1) cells(2) [OF i'(1)] i' a(2) [OF \<open>0 < a\<close>] by simp
      ultimately show ?thesis using cell_leads [of "a + ?n i" l "of_nat s" x] \<open>0 < a\<close> by (simp add: leads_to_def)
    qed
    let ?P = "\<lambda>n. a \<le> n \<and> n < 2 * a \<and> n * 2 ^ (l - highest_bit n) \<le> x + 2 ^ l \<and> x + 2 ^ l < (n + 1) * 2 ^ (l - highest_bit n)"
    have "\<exists>!n. ?P n" using \<open>0 < a\<close> \<open>x < 2 ^ l\<close> a(3) by (intro encoder_state) simp_all
    moreover have "\<exists>!i. i \<in> cells_of dt (of_nat s) \<and> a + ?n i = n" if n: "?P n" for n
    proof -
      have "n - a < a" "a + k = n \<longleftrightarrow> k = n - a" for k using n by linarith+
      then show ?thesis using pos [of "n - a"] n mem syms(1) by simp
    qed
    ultimately have "\<exists>!i. i \<in> cells_of dt (of_nat s) \<and> ?P (a + ?n i)" by (rule ex1_through)
    moreover have "i \<in> cells_of dt (of_nat s) \<and> ?P (a + ?n i) \<longleftrightarrow> i \<in> cells_of dt (of_nat s) \<and> leads_to dt i x" for i
      using lead [of i] less [of i] mem by auto
    ultimately show ?thesis by simp
  qed
qed

lemma count_take_less: "i < length xs \<Longrightarrow> xs ! i = x \<Longrightarrow> count_list (take i xs) x < count_list xs x"
proof -
  assume i: "i < length xs" "xs ! i = x"
  have "count_list xs x = count_list (take i xs) x + count_list (drop i xs) x" by (simp flip: count_list_append)
  moreover have "drop i xs = x # drop (Suc i) xs" using i Cons_nth_drop_Suc [of i xs] by simp
  ultimately show ?thesis by simp
qed

lemma short_power: "l \<le> 14 \<Longrightarrow> short (2 ^ l) = 2 ^ l"
proof -
  assume "l \<le> 14"
  then have "(2 :: int) ^ l \<le> 2 ^ 14" by (rule power_increasing) simp
  moreover have "(0 :: int) < 2 ^ l" by simp
  moreover have "(2 :: int) ^ 14 < 2 ^ 15" "- (2 ^ 15) \<le> (0 :: int)" by simp_all
  ultimately have "- (2 ^ 15) \<le> (2 :: int) ^ l" "(2 :: int) ^ l < 2 ^ 15" by linarith+
  then show ?thesis unfolding short_def by (rule signed_take_bit_int_eq_self)
qed

lemma build_cells_all:
  assumes "None \<notin> set syms" "length nx = 256" "l \<le> 12"
    and "\<forall>c. Some c \<in> set syms \<longrightarrow> nx ! unat c = Some (f c) \<and> 0 < f c \<and> f c + count_list syms (Some c) \<le> 2 * 2 ^ l"
  shows "\<exists>cells. build_cells l (2 ^ l) syms nx = Some (map Some cells) \<and> length cells = length syms \<and>
    (\<forall>i < length syms. cells ! i = cell_of l (the (syms ! i)) (f (the (syms ! i)) + count_list (take i syms) (syms ! i)))"
  using assms by (intro build_cells_exact) auto

lemma fast_cells:
  assumes "c < 2 ^ (l - 1)" "0 < n" "n < 2 * nat \<bar>c\<bar>" "-1 \<le> c" "1 \<le> l"
  shows "1 \<le> cellBits (cell_of l s n)"
proof (cases "c = -1")
  case True
  then show ?thesis using assms(2,3,5) by (simp add: cell_of_def highest_bit.simps [of n])
next
  case False
  obtain k where k: "l = Suc k" using assms(5) by (cases l) simp_all
  have "nat \<bar>c\<bar> < 2 ^ k" using assms(1,4) False k by (simp add: nat_less_iff)
  then have "n < 2 * 2 ^ k" using assms(3) by linarith
  then have "highest_bit n \<le> k" using assms(2) highest_bit_le by blast
  then show ?thesis using k by (simp add: cell_of_def)
qed

text \<open>The counts of a valid header.\<close>

definition valid_counts :: "int list \<Rightarrow> nat \<Rightarrow> nat \<Rightarrow> bool" where
  "valid_counts counts sv l \<longleftrightarrow> 5 \<le> l \<and> l \<le> 12 \<and> sv \<le> 255 \<and> sv < length counts \<and> (\<forall>i \<le> sv. -1 \<le> counts ! i) \<and>
     (\<Sum>i<Suc sv. \<bar>counts ! i\<bar>) = 2 ^ l"

definition table_start :: "nat \<Rightarrow> nat \<Rightarrow> dbuild" where
  "table_start room l = \<lparr>db_symbols = replicate room None, db_next = replicate 256 None, db_high = of_nat (2 ^ l - 1), db_fast = True\<rparr>"

lemma table_size:
  assumes "l \<le> 12"
  shows "(2 :: nat) ^ l \<le> 2 ^ 12" "(2 :: nat) ^ l < 2 ^ 32" "(2 :: int) ^ l \<le> 2 ^ 12"
proof -
  show "(2 :: nat) ^ l \<le> 2 ^ 12" "(2 :: int) ^ l \<le> 2 ^ 12" using assms by (simp_all only: power_increasing one_le_numeral)
  then show "(2 :: nat) ^ l < 2 ^ 32" by simp
qed

lemma counts_bound:
  assumes "valid_counts counts sv l" "j \<le> sv"
  shows "nat \<bar>counts ! j\<bar> \<le> 2 ^ l"
proof -
  have "\<bar>counts ! j\<bar> \<le> (\<Sum>i<Suc sv. \<bar>counts ! i\<bar>)" using assms(2) by (intro member_le_sum) auto
  then show ?thesis using assms(1) by (simp add: valid_counts_def nat_le_iff)
qed

lemma first_state_count:
  assumes "valid_counts counts sv l" "j \<le> sv"
  shows "first_state (counts ! j) = nat \<bar>counts ! j\<bar>"
proof (cases "counts ! j = -1")
  case False
  then have "0 \<le> counts ! j" using assms by (force simp: valid_counts_def)
  moreover have "counts ! j < 2 ^ 16"
    using counts_bound [OF assms] table_size(3) [of l] assms(1) by (simp add: nat_le_iff valid_counts_def)
  ultimately show ?thesis using False by (simp add: first_state_def)
qed (simp add: first_state_def)

lemma counts_sum:
  assumes "valid_counts counts sv l"
  shows "lows (take (sv + 1) counts) + sum_list (map nat (take (sv + 1) counts)) = 2 ^ l"
proof -
  have ge: "\<forall>c \<in> set (take (sv + 1) counts). -1 \<le> c" using assms by (auto simp: in_set_conv_nth valid_counts_def)
  have "sum_list (map abs (take (sv + 1) counts)) = 2 ^ l"
    using sum_list_take [of "sv + 1" counts abs] assms by (simp add: valid_counts_def)
  then show ?thesis using sum_nat_counts [OF ge] by (simp add: nat_power_eq)
qed

lemma symbols_spread:
  assumes v: "valid_counts counts sv l" and room: "2 ^ l \<le> room"
  shows "\<exists>b syms. lay_down (short (2 ^ (l - 1))) 0 (take (sv + 1) counts) (table_start room l) = Some b \<and>
    spread (2 ^ l) (db_high b) 0 (take (sv + 1) counts) 0 (db_symbols b) = Some (0, syms) \<and>
    length syms = room \<and> None \<notin> set (take (2 ^ l) syms) \<and> length (db_next b) = 256 \<and>
    (\<forall>j < 256. count_list (take (2 ^ l) syms) (Some (of_nat j)) = (if j \<le> sv then nat \<bar>counts ! j\<bar> else 0)) \<and>
    (\<forall>j \<le> sv. db_next b ! j = Some (nat \<bar>counts ! j\<bar>)) \<and>
    (db_fast b \<longrightarrow> (\<forall>j \<le> sv. counts ! j < 2 ^ (l - 1)))"
proof -
  let ?cs = "take (sv + 1) counts" and ?T = "(2 :: nat) ^ l" and ?lim = "short (2 ^ (l - 1))" and ?b0 = "table_start room l"
  have l: "5 \<le> l" "l \<le> 12" and sv: "sv \<le> 255" "sv < length counts" and ge: "\<forall>i \<le> sv. -1 \<le> counts ! i"
    using v by (simp_all add: valid_counts_def)
  have len: "length ?cs = sv + 1" and nth: "?cs ! j = counts ! j" if "j \<le> sv" for j using sv(2) that by simp_all
  have "laid ?T room 0 ?b0" by (auto simp: laid_def table_start_def)
  moreover have "0 + lows ?cs \<le> ?T" using counts_sum [OF v] by simp
  ultimately obtain b where b: "lay_down ?lim 0 ?cs ?b0 = Some b" "laid ?T room (lows ?cs) b"
    "\<And>j. j < 256 \<Longrightarrow> db_next b ! j = (if 0 \<le> j \<and> j < 0 + length ?cs then Some (first_state (?cs ! (j - 0))) else db_next ?b0 ! j)"
    "\<And>j. j < 256 \<Longrightarrow> count_list (db_symbols b) (Some (of_nat j)) = count_list (db_symbols ?b0) (Some (of_nat j)) +
       (if 0 \<le> j \<and> j < 0 + length ?cs \<and> ?cs ! (j - 0) = -1 then 1 else 0)"
    "db_fast b \<longleftrightarrow> db_fast ?b0 \<and> (\<forall>c \<in> set ?cs. c = -1 \<or> c < ?lim)"
    using lay_down_lays [of ?T room 0 ?b0 ?cs 0 ?lim] room table_size [OF l(2)] sv by auto
  obtain syms where syms: "spread ?T (db_high b) 0 ?cs 0 (db_symbols b) = Some (0, syms)" "length syms = room"
    "\<And>i. i < room \<Longrightarrow> syms ! i = None \<longleftrightarrow> ?T \<le> i"
    "\<And>j. j < 256 \<Longrightarrow> count_list syms (Some (of_nat j)) =
       count_list (db_symbols b) (Some (of_nat j)) + (if j < length ?cs then nat (?cs ! j) else 0)"
    using spread_all [of l room "lows ?cs" b ?cs] room table_size [OF l(2)] b(2) counts_sum [OF v] sv l by auto
  have "None \<notin> set (take ?T syms)" using syms(2,3) room by (auto simp: in_set_conv_nth simp del: not_None_eq)
  moreover have "count_list (take ?T syms) (Some (of_nat j)) = (if j \<le> sv then nat \<bar>counts ! j\<bar> else 0)" if j: "j < 256" for j
  proof -
    have "count_list (take ?T syms) (Some (of_nat j)) = count_list syms (Some (of_nat j))"
      using syms(2,3) by (intro count_list_take) fastforce
    then show ?thesis using syms(4) [OF j] b(4) [OF j] sv(2) nth [of j] ge by (cases "j \<le> sv") (auto simp: table_start_def)
  qed
  moreover have "db_next b ! j = Some (nat \<bar>counts ! j\<bar>)" if "j \<le> sv" for j
    using b(3) [of j] that sv nth [OF that] first_state_count [OF v that] by simp
  moreover have "counts ! j < 2 ^ (l - 1)" if "db_fast b" "j \<le> sv" for j
  proof -
    have "counts ! j \<in> set ?cs" using nth_mem [of j ?cs] that(2) sv(2) by simp
    then have "counts ! j = -1 \<or> counts ! j < 2 ^ (l - 1)" using b(5) that(1) short_power [of "l - 1"] l by auto
    moreover have "(0 :: int) < 2 ^ (l - 1)" by simp
    ultimately show ?thesis by linarith
  qed
  moreover have "length (db_next b) = 256" using b(2) by (simp add: laid_def)
  ultimately show ?thesis using b(1) syms(1,2) by (intro exI [of _ b] exI [of _ syms]) blast
qed

text \<open>What the cells hold, from the symbols of the cells.\<close>

definition cells_exact :: "nat \<Rightarrow> int list \<Rightarrow> nat \<Rightarrow> byte option list \<Rightarrow> FSE_decode_t list \<Rightarrow> bool" where
  "cells_exact l counts sv syms cells \<longleftrightarrow> length syms = 2 ^ l \<and> length cells = 2 ^ l \<and>
     (\<forall>j < 256. count_list syms (Some (of_nat j)) = (if j \<le> sv then nat \<bar>counts ! j\<bar> else 0)) \<and>
     (\<forall>i < 2 ^ l. \<exists>s. syms ! i = Some s \<and> unat s \<le> sv \<and> counts ! unat s \<noteq> 0 \<and>
        cells ! i = cell_of l s (nat \<bar>counts ! unat s\<bar> + count_list (take i syms) (Some s)))"

lemma table_built:
  assumes v: "valid_counts counts sv l" and room: "2 ^ l \<le> room"
  shows "\<exists>b syms cells. lay_down (short (2 ^ (l - 1))) 0 (take (sv + 1) counts) (table_start room l) = Some b \<and>
    spread (2 ^ l) (db_high b) 0 (take (sv + 1) counts) 0 (db_symbols b) = Some (0, syms) \<and>
    cells_exact l counts sv (take (2 ^ l) syms) cells \<and> (db_fast b \<longrightarrow> (\<forall>j \<le> sv. counts ! j < 2 ^ (l - 1))) \<and>
    FSE_buildDTable room counts sv l = Some (Inr \<lparr>dt_tableLog = l, dt_fastMode = db_fast b, dt_cells = map Some cells\<rparr>)"
proof -
  let ?cs = "take (sv + 1) counts" and ?T = "(2 :: nat) ^ l"
  obtain b syms where b: "lay_down (short (2 ^ (l - 1))) 0 ?cs (table_start room l) = Some b"
    "spread ?T (db_high b) 0 ?cs 0 (db_symbols b) = Some (0, syms)" "length syms = room" "None \<notin> set (take ?T syms)"
    "length (db_next b) = 256" "\<forall>j < 256. count_list (take ?T syms) (Some (of_nat j)) = (if j \<le> sv then nat \<bar>counts ! j\<bar> else 0)"
    "\<forall>j \<le> sv. db_next b ! j = Some (nat \<bar>counts ! j\<bar>)" "db_fast b \<longrightarrow> (\<forall>j \<le> sv. counts ! j < 2 ^ (l - 1))"
    using symbols_spread [OF v room] by (elim exE conjE) (rule that, assumption+)
  let ?syms = "take ?T syms" and ?f = "\<lambda>c :: byte. nat \<bar>counts ! unat c\<bar>"
  have some: "length ?syms = ?T" using b(3) room by simp
  have step: "unat c \<le> sv \<and> 0 < ?f c \<and> count_list ?syms (Some c) = ?f c" if c: "Some c \<in> set ?syms" for c
  proof -
    have "unat c < 256" using unsigned_less [of c] by simp
    moreover have "count_list ?syms (Some c) \<noteq> 0" using c by (simp add: count_list_0_iff)
    ultimately show ?thesis using b(6) by (auto split: if_splits)
  qed
  have "\<forall>c. Some c \<in> set ?syms \<longrightarrow> db_next b ! unat c = Some (?f c) \<and> 0 < ?f c \<and> ?f c + count_list ?syms (Some c) \<le> 2 * ?T"
  proof (intro allI impI)
    fix c assume c: "Some c \<in> set ?syms"
    show "db_next b ! unat c = Some (?f c) \<and> 0 < ?f c \<and> ?f c + count_list ?syms (Some c) \<le> 2 * ?T"
      using step [OF c] b(7) counts_bound [OF v, of "unat c"]
      by (elim conjE) (intro conjI, blast, assumption, linarith)
  qed
  note built = build_cells_all [OF b(4,5) _ this, unfolded some]
  have l: "l \<le> 12" "5 \<le> l" "sv \<le> 255" "sv < length counts" using v by (simp_all add: valid_counts_def)
  obtain cells where cells: "build_cells l ?T ?syms (db_next b) = Some (map Some cells)" "length cells = ?T"
    "\<And>i. i < ?T \<Longrightarrow> cells ! i = cell_of l (the (?syms ! i)) (?f (the (?syms ! i)) + count_list (take i ?syms) (?syms ! i))"
    using built [OF l(1)] by (elim exE conjE) (rule that, assumption+, drule spec, erule mp)
  have "\<exists>s. ?syms ! i = Some s \<and> unat s \<le> sv \<and> counts ! unat s \<noteq> 0 \<and> cells ! i = cell_of l s (?f s + count_list (take i ?syms) (Some s))"
    if i: "i < ?T" for i
  proof -
    obtain s where s: "?syms ! i = Some s" using some_nth [OF b(4)] i unfolding some by blast
    have "Some s \<in> set ?syms" using nth_mem [of i ?syms] i unfolding some s by blast
    then show ?thesis using step [of s] s cells(3) [OF i] by (intro exI [of _ s]) simp
  qed
  then have "cells_exact l counts sv ?syms cells" using some cells(2) b(6) unfolding cells_exact_def by blast
  moreover have "FSE_buildDTable room counts sv l = Some (Inr \<lparr>dt_tableLog = l, dt_fastMode = db_fast b, dt_cells = map Some cells\<rparr>)"
    using l room b(1,2) cells(1) by (simp add: FSE_buildDTable_def table_start_def Let_def FSE_MAX_SYMBOL_VALUE_def FSE_MAX_TABLELOG_def)
  ultimately show ?thesis using b(1,2,8) by blast
qed

lemma exact_valid:
  assumes v: "valid_counts counts sv l" and e: "cells_exact l counts sv syms cells" and fast: "fast \<longrightarrow> (\<forall>j \<le> sv. counts ! j < 2 ^ (l - 1))"
  shows "table_valid \<lparr>dt_tableLog = l, dt_fastMode = fast, dt_cells = map Some cells\<rparr>"
proof -
  have "newState c + 2 ^ cellBits c \<le> 2 ^ l \<and> (fast \<longrightarrow> 1 \<le> cellBits c)" if c: "c \<in> set cells" for c
  proof -
    obtain i where i: "i < 2 ^ l" "c = cells ! i" using c e by (auto simp: in_set_conv_nth cells_exact_def)
    then obtain s where s: "syms ! i = Some s" "unat s \<le> sv" "counts ! unat s \<noteq> 0"
      "c = cell_of l s (nat \<bar>counts ! unat s\<bar> + count_list (take i syms) (Some s))" using e by (auto simp: cells_exact_def)
    let ?a = "nat \<bar>counts ! unat s\<bar>" and ?n = "nat \<bar>counts ! unat s\<bar> + count_list (take i syms) (Some s)"
    have "unat s < 256" using unsigned_less [of s] by simp
    then have "count_list syms (Some (of_nat (unat s))) = ?a" using e s(2) unfolding cells_exact_def by auto
    then have "count_list syms (Some s) = ?a" by simp
    moreover have "length syms = 2 ^ l" using e by (simp add: cells_exact_def)
    ultimately have n: "0 < ?n" "?n < 2 * ?a" using count_take_less [OF _ s(1)] i(1) s(3) by simp_all
    have "newState c + 2 ^ cellBits c \<le> 2 ^ l"
      using cell_range [of ?n l] n counts_bound [OF v s(2)] unfolding s(4) cell_of_def FSE_decode_t.simps distrib_right mult_1 by linarith
    moreover have "1 \<le> cellBits c" if "fast"
      unfolding s(4) using fast_cells [OF _ n] fast that s(2) v by (simp add: valid_counts_def)
    ultimately show ?thesis by simp
  qed
  then show ?thesis using v e by (auto simp: table_valid_def valid_counts_def cells_exact_def)
qed

lemma exact_codes:
  assumes v: "valid_counts counts sv l" and e: "cells_exact l counts sv syms cells"
  shows "table_codes counts sv \<lparr>dt_tableLog = l, dt_fastMode = fast, dt_cells = map Some cells\<rparr>"
proof -
  let ?dt = "\<lparr>dt_tableLog = l, dt_fastMode = fast, dt_cells = map Some cells\<rparr>" and ?f = "\<lambda>c :: byte. nat \<bar>counts ! unat c\<bar>"
  have l: "l \<le> 12" and len: "length syms = 2 ^ l" "length cells = 2 ^ l" using v e by (simp_all add: valid_counts_def cells_exact_def)
  have none: "None \<notin> set syms" using e by (fastforce simp: cells_exact_def in_set_conv_nth)
  have cells: "cells ! i = cell_of l (the (syms ! i)) (?f (the (syms ! i)) + count_list (take i syms) (syms ! i))" if "i < 2 ^ l" for i
    using e that by (force simp: cells_exact_def)
  have card: "card (cells_of ?dt (of_nat s)) = (if s \<le> sv then nat \<bar>counts ! s\<bar> else 0)"
    and lead: "0 < nat \<bar>counts ! s\<bar> \<Longrightarrow> s \<le> sv \<Longrightarrow> x < 2 ^ l \<Longrightarrow> \<exists>!i. i \<in> cells_of ?dt (of_nat s) \<and> leads_to ?dt i x"
    if s: "s < 256" for s x
  proof -
    let ?a = "if s \<le> sv then nat \<bar>counts ! s\<bar> else 0"
    have u: "unat (of_nat s :: byte) = s" using s by (simp add: unsigned_of_nat take_bit_nat_eq_self)
    have a: "count_list syms (Some (of_nat s)) = ?a" "0 < ?a \<Longrightarrow> ?f (of_nat s) = ?a" "?a \<le> 2 ^ l"
      using e s counts_bound [OF v, of s] unfolding u by (simp_all add: cells_exact_def split: if_splits)
    note t = table_cells [where f = ?f and fast = fast, OF l s len(1) none len(2) cells refl a]
    show "card (cells_of ?dt (of_nat s)) = ?a" by (rule t(1))
    show "\<exists>!i. i \<in> cells_of ?dt (of_nat s) \<and> leads_to ?dt i x" if "0 < nat \<bar>counts ! s\<bar>" "s \<le> sv" "x < 2 ^ l"
      using that by (intro t(2)) simp_all
  qed
  show ?thesis using card lead v by (auto simp: table_codes_def valid_counts_def)
qed

lemma buildDTable_valid:
  assumes "valid_counts counts sv l" "2 ^ l \<le> room"
  shows "\<exists>dt. FSE_buildDTable room counts sv l = Some (Inr dt) \<and> dt_tableLog dt = l \<and> table_valid dt \<and> table_codes counts sv dt"
proof -
  obtain b syms cells where "lay_down (short (2 ^ (l - 1))) 0 (take (sv + 1) counts) (table_start room l) = Some b"
    "cells_exact l counts sv (take (2 ^ l) syms) cells" "db_fast b \<longrightarrow> (\<forall>j \<le> sv. counts ! j < 2 ^ (l - 1))"
    "FSE_buildDTable room counts sv l = Some (Inr \<lparr>dt_tableLog = l, dt_fastMode = db_fast b, dt_cells = map Some cells\<rparr>)"
    using table_built [OF assms] by (elim exE conjE) (rule that, assumption+)
  then show ?thesis using exact_valid [OF assms(1)] exact_codes [OF assms(1)] by (metis FSE_DTable.simps(1))
qed

end
