(* ===== verification/Zstd_Decode_Spec.thy ===== *)
theory Zstd_Decode_Spec
  imports Zstd_Build_Spec
begin

text \<open>
  Decoding keeps inside its buffers and its table on every input, and the weights that
  \<open>HUF_readStats\<close> accepts are those of a complete tree.
\<close>

section \<open>The stream\<close>

definition stream_ok :: "bytes \<Rightarrow> BIT_DStream_t \<Rightarrow> bool" where
  "stream_ok src d \<longleftrightarrow> ds_limitPtr d = 8 \<and> (ds_ptr d = 0 \<or> ds_ptr d + 8 \<le> length src)"

lemma init_stream_ok: "BIT_initDStream src = (Inr n, d) \<Longrightarrow> stream_ok src d"
  by (auto simp: BIT_initDStream_def Let_def stream_ok_def split: if_splits)

lemma skip_ok: "stream_ok src d \<Longrightarrow> stream_ok src (BIT_skipBits n d)"
  by (simp add: stream_ok_def BIT_skipBits_def)

lemma MEM_readLEST_inside: "p + 8 \<le> length mem \<Longrightarrow> \<exists>v. MEM_readLEST mem p = Some v"
  by (simp add: MEM_readLEST_def)

lemma reload_ok:
  assumes "stream_ok src d"
  shows "\<exists>st d'. BIT_reloadDStream src d = Some (st, d') \<and> stream_ok src d'"
proof -
  consider "ds_consumed d > 64" | "ds_consumed d \<le> 64" "8 \<le> ds_ptr d" | "ds_consumed d \<le> 64" "ds_ptr d = 0"
    | "ds_consumed d \<le> 64" "0 < ds_ptr d" "ds_ptr d < 8" by linarith
  then show ?thesis
  proof cases
    case 2
    then have "ds_ptr d - drop_bit 3 (ds_consumed d) + 8 \<le> length src"
      using assms by (auto simp: stream_ok_def)
    then show ?thesis using 2 assms by (auto simp: BIT_reloadDStream_def stream_ok_def Let_def MEM_readLEST_def)
  next
    case 4
    then have "ds_ptr d + 8 \<le> length src" using assms by (auto simp: stream_ok_def)
    then have room: "ds_ptr d - k + 8 \<le> length src" for k by simp
    let ?k = "if ds_ptr d < drop_bit 3 (ds_consumed d) then ds_ptr d else drop_bit 3 (ds_consumed d)"
    obtain v where "MEM_readLEST src (ds_ptr d - ?k) = Some v" using room [of ?k] by (simp add: MEM_readLEST_def split del: if_split)
    then show ?thesis using 4 assms room [of ?k] by (simp add: BIT_reloadDStream_def stream_ok_def Let_def split del: if_split)
  qed (use assms in \<open>auto simp: BIT_reloadDStream_def stream_ok_def\<close>)
qed

lemma drop_bit_less: "n \<le> 64 \<Longrightarrow> unat (drop_bit (64 - n) (w :: 64 word)) < 2 ^ n"
proof -
  assume "n \<le> 64"
  have "unat w < 2 ^ (n + (64 - n))" using unsigned_less [of w] \<open>n \<le> 64\<close> by simp
  then have "unat w div 2 ^ (64 - n) < 2 ^ n" by (simp add: less_mult_imp_div_less power_add)
  then have "drop_bit (64 - n) (unat w) < 2 ^ n" by (simp add: drop_bit_eq_div)
  then show ?thesis by (simp only: unat_drop_bit_eq)
qed

lemma lookBits_less:
  assumes "n \<le> 63"
  shows "unat (BIT_lookBits d n) < 2 ^ n"
proof -
  have "(63 - int n) mod 64 = 63 - int n" using assms by (intro mod_pos_pos_trivial) simp_all
  then have "nat ((63 - int n) mod 64) = 63 - n" by linarith
  then have "BIT_lookBits d n = drop_bit (64 - n) (push_bit (ds_consumed d mod 64) (ds_container d))"
    using assms Suc_diff_le [of n 63] by (simp add: BIT_lookBits_def drop_bit_drop_bit)
  then show ?thesis using drop_bit_less [of n] assms by simp
qed

lemma lookBitsFast_less:
  assumes "1 \<le> n" "n \<le> 63"
  shows "unat (BIT_lookBitsFast d n) < 2 ^ n"
proof -
  have "(64 - int n) mod 64 = 64 - int n" using assms by (intro mod_pos_pos_trivial) simp_all
  then have "nat ((64 - int n) mod 64) = 64 - n" by linarith
  then show ?thesis using drop_bit_less [of n] assms(2) by (simp add: BIT_lookBitsFast_def)
qed

section \<open>Symbols\<close>

definition state_ok :: "FSE_DTable \<Rightarrow> 64 word \<Rightarrow> bool" where
  "state_ok dt state \<longleftrightarrow> unat state < 2 ^ dt_tableLog dt"

lemma initDState_ok:
  assumes "table_valid dt" "stream_ok src d"
  shows "\<exists>state d'. FSE_initDState src dt d = Some (state, d') \<and> state_ok dt state \<and> stream_ok src d'"
proof -
  obtain st d' where "BIT_reloadDStream src (BIT_skipBits (dt_tableLog dt) d) = Some (st, d')" "stream_ok src d'"
    using reload_ok [OF skip_ok [OF assms(2)]] by blast
  moreover have "unat (BIT_lookBits d (dt_tableLog dt)) < 2 ^ dt_tableLog dt"
    using assms(1) by (intro lookBits_less) (simp add: table_valid_def)
  ultimately show ?thesis by (simp add: FSE_initDState_def BIT_readBits_def state_ok_def)
qed

lemma table_cell:
  assumes "table_valid dt" "i < 2 ^ dt_tableLog dt"
  shows "\<exists>cell. fetch (dt_cells dt) i = Some (Some cell) \<and> newState cell + 2 ^ cellBits cell \<le> 2 ^ dt_tableLog dt \<and>
    (dt_fastMode dt \<longrightarrow> 1 \<le> cellBits cell) \<and> cellBits cell \<le> 12"
proof -
  have i: "i < length (dt_cells dt)" using assms by (simp add: table_valid_def)
  then have "case dt_cells dt ! i of None \<Rightarrow> False
      | Some d \<Rightarrow> newState d + 2 ^ cellBits d \<le> 2 ^ dt_tableLog dt \<and> (dt_fastMode dt \<longrightarrow> 1 \<le> cellBits d)"
    using assms(1) nth_mem [OF i] unfolding table_valid_def by blast
  then obtain cell where cell: "dt_cells dt ! i = Some cell" "newState cell + 2 ^ cellBits cell \<le> 2 ^ dt_tableLog dt"
    "dt_fastMode dt \<longrightarrow> 1 \<le> cellBits cell"
    by (cases "dt_cells dt ! i") auto
  have "(2 :: nat) ^ cellBits cell \<le> 2 ^ dt_tableLog dt" using cell(2) by linarith
  then have "cellBits cell \<le> dt_tableLog dt" by (rule power_le_imp_le_exp [rotated]) simp
  then show ?thesis using cell i assms(1) by (simp add: fetch_def table_valid_def)
qed

lemma GETSYMBOL_ok:
  assumes dt: "table_valid dt" and st: "state_ok dt state" and d: "stream_ok src d"
  shows "\<exists>c state' d'. FSE_GETSYMBOL (dt_fastMode dt) dt state d = Some (c, state', d') \<and> state_ok dt state' \<and> stream_ok src d'"
proof -
  obtain cell where cell: "fetch (dt_cells dt) (unat state) = Some (Some cell)"
    "newState cell + 2 ^ cellBits cell \<le> 2 ^ dt_tableLog dt" "dt_fastMode dt \<longrightarrow> 1 \<le> cellBits cell" "cellBits cell \<le> 12"
    using table_cell [OF dt] st by (auto simp: state_ok_def)
  let ?low = "if dt_fastMode dt then BIT_lookBitsFast d (cellBits cell) else BIT_lookBits d (cellBits cell)"
  have low: "unat ?low < 2 ^ cellBits cell" using lookBits_less [of "cellBits cell" d] lookBitsFast_less [of "cellBits cell" d] cell(3,4) by auto
  have "(2 :: nat) ^ dt_tableLog dt \<le> 2 ^ 12" using dt by (intro power_increasing) (simp_all add: table_valid_def)
  moreover have "(2 :: nat) ^ 12 < 2 ^ 64" by simp
  ultimately have sum: "newState cell + unat ?low < 2 ^ dt_tableLog dt" "newState cell + unat ?low < 2 ^ 64" using low cell(2) by linarith+
  have "of_nat (newState cell) + ?low = of_nat (newState cell + unat ?low)" by simp
  then have "unat (of_nat (newState cell) + ?low) = newState cell + unat ?low"
    using sum(2) by (simp only: unsigned_of_nat) (simp add: take_bit_nat_eq_self)
  then have "state_ok dt (of_nat (newState cell) + ?low)" using sum(1) by (simp add: state_ok_def)
  then show ?thesis using cell(1) skip_ok [OF d] by (simp add: FSE_GETSYMBOL_def BIT_readBits_def BIT_readBitsFast_def split: if_splits)
qed

section \<open>Runs\<close>

text \<open>Only the bytes before \<open>op\<close> have been written, and these are within the capacity.\<close>

definition run_ok :: "bytes \<Rightarrow> nat \<Rightarrow> bytes \<Rightarrow> FSE_DTable \<Rightarrow> fse_run \<Rightarrow> bool" where
  "run_ok src cap dst dt r \<longleftrightarrow> state_ok dt (fr_state1 r) \<and> state_ok dt (fr_state2 r) \<and> stream_ok src (fr_bits r) \<and>
     fr_op r \<le> cap \<and> length (fr_dst r) = length dst \<and> drop (fr_op r) (fr_dst r) = drop (fr_op r) dst"

lemma drop_Suc_update: "drop (Suc n) (xs[n := x]) = drop (Suc n) xs"
  by (simp add: drop_update_cancel)

lemma store_keeps:
  assumes "n < length xs" "length xs = length ys" "drop n xs = drop n ys"
  shows "drop (Suc n) (xs[n := x]) = drop (Suc n) ys"
proof -
  have "drop 1 (drop n xs) = drop 1 (drop n ys)" using assms(3) by simp
  then show ?thesis by (simp add: drop_Suc_update)
qed

lemma put_ok:
  assumes dt: "table_valid dt" and r: "run_ok src cap dst dt r" and room: "fr_op r < cap" "cap \<le> length dst"
  shows "\<exists>r'. put_first (dt_fastMode dt) dt r = Some r' \<and> run_ok src cap dst dt r' \<and> fr_op r' = fr_op r + 1"
    "\<exists>r'. put_second (dt_fastMode dt) dt r = Some r' \<and> run_ok src cap dst dt r' \<and> fr_op r' = fr_op r + 1"
proof -
  note r = r [unfolded run_ok_def]
  have op: "fr_op r < length (fr_dst r)" using r room by simp
  have keep: "drop (Suc (fr_op r)) ((fr_dst r)[fr_op r := c]) = drop (Suc (fr_op r)) dst" for c
    using store_keeps [OF op] r by blast
  obtain c st d where "FSE_GETSYMBOL (dt_fastMode dt) dt (fr_state1 r) (fr_bits r) = Some (c, st, d)" "state_ok dt st" "stream_ok src d"
    using GETSYMBOL_ok [OF dt] r by metis
  then show "\<exists>r'. put_first (dt_fastMode dt) dt r = Some r' \<and> run_ok src cap dst dt r' \<and> fr_op r' = fr_op r + 1"
    using r room(1) op keep by (simp add: put_first_def store_at_def run_ok_def)
  obtain c st d where "FSE_GETSYMBOL (dt_fastMode dt) dt (fr_state2 r) (fr_bits r) = Some (c, st, d)" "state_ok dt st" "stream_ok src d"
    using GETSYMBOL_ok [OF dt] r by metis
  then show "\<exists>r'. put_second (dt_fastMode dt) dt r = Some r' \<and> run_ok src cap dst dt r' \<and> fr_op r' = fr_op r + 1"
    using r room(1) op keep by (simp add: put_second_def store_at_def run_ok_def)
qed

lemma fse_reload_ok:
  assumes "run_ok src cap dst dt r"
  shows "\<exists>st r'. fse_reload src r = Some (st, r') \<and> run_ok src cap dst dt r' \<and> fr_op r' = fr_op r"
  using reload_ok [of src "fr_bits r"] assms by (auto simp: fse_reload_def run_ok_def)

lemma four_symbols_ok:
  assumes dt: "table_valid dt" and r: "run_ok src cap dst dt r" and room: "fr_op r + 4 \<le> cap" "cap \<le> length dst"
  shows "\<exists>r'. four_symbols (dt_fastMode dt) dt r = Some r' \<and> run_ok src cap dst dt r'"
proof -
  obtain r1 where r1: "put_first (dt_fastMode dt) dt r = Some r1" "run_ok src cap dst dt r1" "fr_op r1 = fr_op r + 1"
    using put_ok(1) [OF dt r] room by auto
  obtain r2 where r2: "put_second (dt_fastMode dt) dt r1 = Some r2" "run_ok src cap dst dt r2" "fr_op r2 = fr_op r + 2"
    using put_ok(2) [OF dt r1(2)] r1(3) room by auto
  obtain r3 where r3: "put_first (dt_fastMode dt) dt r2 = Some r3" "run_ok src cap dst dt r3" "fr_op r3 = fr_op r + 3"
    using put_ok(1) [OF dt r2(2)] r2(3) room by auto
  obtain r4 where "put_second (dt_fastMode dt) dt r3 = Some r4" "run_ok src cap dst dt r4"
    using put_ok(2) [OF dt r3(2)] r3(3) room by auto
  then show ?thesis using r1(1) r2(1) r3(1) by (simp add: four_symbols_def)
qed

lemma fse_loop_ok:
  assumes dt: "table_valid dt" and cap: "cap \<le> length dst" and r: "run_ok src cap dst dt r"
  shows "\<exists>r'. fse_loop (dt_fastMode dt) dt src cap r = Some r' \<and> run_ok src cap dst dt r'"
  using r
proof (induction "cap - fr_op r" arbitrary: r rule: less_induct)
  case less
  obtain st r1 where r1: "fse_reload src r = Some (st, r1)" "run_ok src cap dst dt r1" "fr_op r1 = fr_op r"
    using fse_reload_ok [OF less.prems] by blast
  show ?case
  proof (cases "st = BIT_DStream_unfinished \<and> int (fr_op r1) < int cap - 3")
    case True
    then have "fr_op r1 + 4 \<le> cap" by linarith
    then obtain r2 where r2: "four_symbols (dt_fastMode dt) dt r1 = Some r2" "run_ok src cap dst dt r2"
      using four_symbols_ok [OF dt r1(2) _ cap] by blast
    have "cap - fr_op r2 < cap - fr_op r" using four_op [OF r2(1)] r1(3) \<open>fr_op r1 + 4 \<le> cap\<close> by simp
    from less.hyps [OF this r2(2)] show ?thesis using r1(1) r2(1) True
      by (subst fse_loop.simps) simp
  next
    case False
    then have "fse_loop (dt_fastMode dt) dt src cap r = Some r1" using r1(1) by (subst fse_loop.simps) auto
    then show ?thesis using r1(2) by blast
  qed
qed

definition written :: "nat \<Rightarrow> bytes \<Rightarrow> (nat \<times> bytes) result \<Rightarrow> bool" where
  "written cap dst res \<longleftrightarrow> (\<forall>n out. res = Inr (n, out) \<longrightarrow> n \<le> cap \<and> length out = length dst \<and> drop n out = drop n dst)"

lemma written_run: "run_ok src cap dst dt r \<Longrightarrow> written cap dst (Inr (fr_op r, fr_dst r))"
  by (simp add: run_ok_def written_def)

lemma written_error [simp]: "written cap dst (Inl e)"
  by (simp add: written_def)

lemma fse_tail_ok:
  assumes dt: "table_valid dt" and cap: "cap \<le> length dst" and r: "run_ok src cap dst dt r"
  shows "\<exists>res. fse_tail (dt_fastMode dt) dt src cap r = Some res \<and> written cap dst res"
  using r
proof (induction "cap - fr_op r" arbitrary: r rule: less_induct)
  case less
  show ?case
  proof (cases "int (fr_op r) > int cap - 2")
    case True
    then show ?thesis by (subst fse_tail.simps) simp
  next
    case room: False
    then obtain r1 where r1: "put_first (dt_fastMode dt) dt r = Some r1" "run_ok src cap dst dt r1" "fr_op r1 = fr_op r + 1"
      using put_ok(1) [OF dt less.prems _ cap] by auto
    obtain st r2 where r2: "fse_reload src r1 = Some (st, r2)" "run_ok src cap dst dt r2" "fr_op r2 = fr_op r1"
      using fse_reload_ok [OF r1(2)] by blast
    have "fr_op r2 < cap" using room r1(3) r2(3) by linarith
    then obtain r3 where r3: "put_second (dt_fastMode dt) dt r2 = Some r3" "run_ok src cap dst dt r3" "fr_op r3 = fr_op r2 + 1"
      using put_ok(2) [OF dt r2(2) _ cap] by blast
    obtain st' r4 where r4: "fse_reload src r3 = Some (st', r4)" "run_ok src cap dst dt r4" "fr_op r4 = fr_op r3"
      using fse_reload_ok [OF r3(2)] by blast
    consider "st = BIT_DStream_overflow" | "st \<noteq> BIT_DStream_overflow" "int (fr_op r2) > int cap - 2"
      | "st \<noteq> BIT_DStream_overflow" "\<not> int (fr_op r2) > int cap - 2" by blast
    then show ?thesis
    proof cases
      case 1
      then show ?thesis using room r1(1) r2(1) r3(1) written_run [OF r3(2)] by (subst fse_tail.simps) simp
    next
      case 2
      then show ?thesis using room r1(1) r2(1) by (subst fse_tail.simps) simp
    next
      case 3
      have less': "fr_op r4 < cap" "cap - fr_op r4 < cap - fr_op r" using 3(2) r1(3) r2(3) r3(3) r4(3) by linarith+
      show ?thesis
      proof (cases "st' = BIT_DStream_overflow")
        case True
        obtain r5 where "put_first (dt_fastMode dt) dt r4 = Some r5" "run_ok src cap dst dt r5"
          using put_ok(1) [OF dt r4(2) less'(1) cap] by blast
        then show ?thesis using True room 3 r1(1) r2(1) r3(1) r4(1) by (subst fse_tail.simps) (simp add: written_run)
      next
        case False
        then show ?thesis using less.hyps [OF less'(2) r4(2)] room 3 r1(1) r2(1) r3(1) r4(1) by (subst fse_tail.simps) simp
      qed
    qed
  qed
qed

lemma usingDTable_ok:
  assumes dt: "table_valid dt" and cap: "cap \<le> length dst"
  shows "\<exists>res. FSE_decompress_usingDTable dst cap src dt = Some res \<and> written cap dst res"
proof (cases "BIT_initDStream src")
  case (Pair n d)
  show ?thesis
  proof (cases n)
    case (Inl e)
    then show ?thesis using Pair by (simp add: FSE_decompress_usingDTable_def FSE_decompress_usingDTable_generic_def)
  next
    case (Inr m)
    have "stream_ok src d" using Pair Inr init_stream_ok by simp
    then obtain s1 d1 where 1: "FSE_initDState src dt d = Some (s1, d1)" "state_ok dt s1" "stream_ok src d1"
      using initDState_ok [OF dt] by blast
    obtain s2 d2 where 2: "FSE_initDState src dt d1 = Some (s2, d2)" "state_ok dt s2" "stream_ok src d2"
      using initDState_ok [OF dt 1(3)] by blast
    let ?r = "\<lparr>fr_dst = dst, fr_op = 0, fr_state1 = s1, fr_state2 = s2, fr_bits = d2\<rparr>"
    have "run_ok src cap dst dt ?r" using 1 2 by (simp add: run_ok_def)
    then obtain r where r: "fse_loop (dt_fastMode dt) dt src cap ?r = Some r" "run_ok src cap dst dt r"
      using fse_loop_ok [OF dt cap] by blast
    show ?thesis using fse_tail_ok [OF dt cap r(2)] Pair Inr 1(1) 2(1) r(1)
      by (simp add: FSE_decompress_usingDTable_def FSE_decompress_usingDTable_generic_def)
  qed
qed

lemma decompress_wksp_ok:
  assumes "cap \<le> length dst" "maxLog \<le> 12" "2 ^ maxLog \<le> room"
  shows "\<exists>res. FSE_decompress_wksp dst cap src room maxLog = Some res \<and> written cap dst res"
proof -
  obtain r where r: "FSE_readNCount (replicate (FSE_MAX_SYMBOL_VALUE + 1) 0) FSE_MAX_SYMBOL_VALUE src = Some r"
    "\<And>x. r = Inr x \<Longrightarrow> header_ok 256 255 src x"
    using readNCount_safe [of FSE_MAX_SYMBOL_VALUE "replicate (FSE_MAX_SYMBOL_VALUE + 1) 0" src] by (auto simp: FSE_MAX_SYMBOL_VALUE_def)
  show ?thesis
  proof (cases r)
    case (Inl e)
    then show ?thesis using r(1) by (simp add: FSE_decompress_wksp_def)
  next
    case (Inr x)
    obtain n cs sv l where x: "x = (n, cs, sv, l)" by (cases x)
    note ok = r(2) [OF Inr, unfolded x header_ok_def prod.case]
    show ?thesis
    proof (cases "l > maxLog")
      case True
      then show ?thesis using r(1) Inr x by (simp add: FSE_decompress_wksp_def)
    next
      case False
      have "(2 :: nat) ^ l \<le> 2 ^ maxLog" using False by (intro power_increasing) simp_all
      then have "2 ^ l \<le> room" using assms(3) by linarith
      then obtain dt where dt: "FSE_buildDTable room cs sv l = Some (Inr dt)" "table_valid dt"
        using buildDTable_valid [of cs sv l room] ok False assms(2) by (auto simp: valid_counts_def)
      show ?thesis using usingDTable_ok [OF dt(2) assms(1)] dt(1) r(1) Inr x False by (simp add: FSE_decompress_wksp_def)
    qed
  qed
qed

end
