(* ===== verification/Zstd_Huf_Spec.thy ===== *)
theory Zstd_Huf_Spec
  imports Zstd_Decode_Spec
begin

text \<open>
  The weights that \<open>HUF_readStats\<close> accepts: it keeps inside its buffers, counts the weights
  exactly, and completes them to a full tree.
\<close>

section \<open>Two weights in a byte\<close>

lemma drop_update: "i < n \<Longrightarrow> drop n (xs[i := x]) = drop n xs"
  by (simp add: drop_update_cancel)

lemma direct_weights_ok:
  assumes "(oSize + 1) div 2 \<le> length p" "oSize < hs" "hs \<le> length hw" "even n"
  shows "\<exists>hw'. direct_weights p n oSize hw = Some hw' \<and> length hw' = length hw \<and> drop hs hw' = drop hs hw"
  using assms
proof (induction "oSize - n" arbitrary: n hw rule: less_induct)
  case less
  show ?case
  proof (cases "n < oSize")
    case False
    then show ?thesis by (subst direct_weights.simps) simp
  next
    case True
    let ?b = "p ! (n div 2)"
    let ?hw = "hw[n := drop_bit 4 ?b, n + 1 := ?b AND 15]"
    have i: "n div 2 < length p" "n + 1 < hs" "n + 1 < length hw" using True less.prems by linarith+
    have "drop hs ?hw = drop hs hw" using i by (simp add: drop_update)
    moreover have "\<exists>hw'. direct_weights p (n + 2) oSize ?hw = Some hw' \<and> length hw' = length ?hw \<and> drop hs hw' = drop hs ?hw"
      using less.hyps [of "n + 2" ?hw] less.prems True by simp
    ultimately show ?thesis using True i
      by (subst direct_weights.simps) (simp add: fetch_def store_at_def)
  qed
qed

section \<open>Counting\<close>

definition weight_sum :: "bytes \<Rightarrow> nat" where
  "weight_sum ws = (\<Sum>w\<leftarrow>ws. 2 ^ unat w div 2)"

definition weight_count :: "nat \<Rightarrow> bytes \<Rightarrow> nat" where
  "weight_count k ws = length (filter (\<lambda>w. unat w = k) ws)"

lemma collect_stats_ok:
  assumes "13 \<le> length rs" "wt + 1024 * length ws < 2 ^ 32" "\<forall>k < 13. rs ! k + length ws < 2 ^ 32"
  shows "\<exists>r. collect_stats ws rs wt = Some r \<and> (\<forall>rs' wt'. r = Inr (rs', wt') \<longrightarrow>
    (\<forall>w \<in> set ws. unat w < 12) \<and> length rs' = length rs \<and> drop 13 rs' = drop 13 rs \<and> wt' = wt + weight_sum ws \<and>
    (\<forall>k < 13. rs' ! k = rs ! k + weight_count k ws))"
  using assms
proof (induction ws arbitrary: rs wt)
  case Nil
  then show ?case by (simp add: weight_sum_def weight_count_def)
next
  case (Cons w ws)
  show ?case
  proof (cases "unat w < 12")
    case False
    then show ?thesis by (simp add: HUF_TABLELOG_MAX_def)
  next
    case True
    let ?v = "(2 :: nat) ^ unat w div 2" and ?rs = "rs[unat w := rs ! unat w + 1]"
    have "(2 :: nat) ^ unat w \<le> 2 ^ 11" using True by (intro power_increasing) simp_all
    then have "?v \<le> 1024" by simp
    then have wt: "wt + ?v + 1024 * length ws < 2 ^ 32" using Cons.prems(2) by simp
    have w: "unat w < 13" "unat w < length rs" using True Cons.prems(1) by simp_all
    have k: "rs ! unat w + 1 < 2 ^ 32" "\<forall>k < 13. ?rs ! k + length ws < 2 ^ 32"
      using Cons.prems(1,3) w by (auto simp: nth_list_update)
    obtain r where r: "collect_stats ws ?rs (wt + ?v) = Some r" "\<And>rs' wt'. r = Inr (rs', wt') \<Longrightarrow>
      (\<forall>w \<in> set ws. unat w < 12) \<and> length rs' = length ?rs \<and> drop 13 rs' = drop 13 ?rs \<and> wt' = wt + ?v + weight_sum ws \<and>
      (\<forall>k < 13. rs' ! k = ?rs ! k + weight_count k ws)"
      using Cons.IH [of ?rs "wt + ?v"] Cons.prems(1) wt k(2) by auto
    have "wt + ?v < 2 ^ 32" using wt by simp
    then have "collect_stats (w # ws) rs wt = Some r"
      using True w k(1) r(1) by (simp add: HUF_TABLELOG_MAX_def fetch_def store_at_def drop_bit_eq_div)
    moreover have "(\<forall>x \<in> set (w # ws). unat x < 12) \<and> length rs' = length rs \<and> drop 13 rs' = drop 13 rs \<and>
        wt' = wt + weight_sum (w # ws) \<and> (\<forall>k < 13. rs' ! k = rs ! k + weight_count k (w # ws))" if "r = Inr (rs', wt')" for rs' wt'
      using r(2) [OF that] True w by (auto simp: weight_sum_def weight_count_def nth_list_update drop_update)
    ultimately show ?thesis by blast
  qed
qed

section \<open>The last weight\<close>

text \<open>What is returned: the size of the header, the weights, their counts, the number of symbols and the height of the tree.\<close>

definition stats_ok :: "bytes \<Rightarrow> nat \<Rightarrow> nat list \<Rightarrow> bytes \<Rightarrow> nat \<times> bytes \<times> nat list \<times> nat \<times> nat \<Rightarrow> bool" where
  "stats_ok huffWeight hwSize rankStats src = (\<lambda>(n, hw, rs, nbSymbols, tableLog).
     n \<le> length src \<and> nbSymbols \<le> hwSize \<and> length hw = length huffWeight \<and> drop hwSize hw = drop hwSize huffWeight \<and>
     length rs = length rankStats \<and> drop 13 rs = drop 13 rankStats \<and> 1 \<le> tableLog \<and> tableLog \<le> 12 \<and>
     weight_sum (take nbSymbols hw) = 2 ^ tableLog \<and> (\<forall>w \<in> set (take nbSymbols hw). unat w \<le> 12) \<and>
     (\<forall>k < 13. rs ! k = weight_count k (take nbSymbols hw)) \<and> 2 \<le> rs ! 1 \<and> even (rs ! 1))"

lemma finish_stats_ok:
  assumes wt: "wt = weight_sum ws" "wt < 2 ^ 32" and ws: "ws = take oSize hw" "oSize < length hw" "\<forall>w \<in> set ws. unat w < 12" "oSize < 2 ^ 31"
    and rs: "13 \<le> length rs" "\<forall>k < 13. rs ! k = weight_count k ws"
  shows "\<exists>r. finish_stats iSize oSize hw rs wt = Some r \<and> (\<forall>x. r = Inr x \<longrightarrow>
    (\<exists>b rs' tl. x = (iSize + 1, hw[oSize := b], rs', oSize + 1, tl) \<and> length rs' = length rs \<and> drop 13 rs' = drop 13 rs \<and> 1 \<le> tl \<and> tl \<le> 12 \<and>
     weight_sum (ws @ [b]) = 2 ^ tl \<and> unat b \<le> 12 \<and> (\<forall>k < 13. rs' ! k = weight_count k (ws @ [b])) \<and> 2 \<le> rs' ! 1 \<and> even (rs' ! 1)))"
proof (cases "wt = 0 \<or> highest_bit wt + 1 > 12")
  case True
  then show ?thesis using highbit_of_nat [of wt] wt(2) by (cases "wt = 0") (simp_all add: finish_stats_def HUF_TABLELOG_MAX_def Let_def)
next
  case False
  let ?tl = "highest_bit wt + 1"
  let ?rest = "2 ^ ?tl - wt"
  have hb: "2 ^ highest_bit wt \<le> wt" "wt < 2 ^ ?tl" using highest_bit_bounds [of wt] False by simp_all
  have rest: "0 < ?rest" "?rest \<le> 2 ^ highest_bit wt" using hb by simp_all
  have "(2 :: nat) ^ highest_bit wt \<le> 2 ^ 11" using False by (intro power_increasing) simp_all
  then have small: "?rest < 2 ^ 32" using rest(2) by simp
  let ?rb = "highest_bit ?rest"
  have "2 ^ ?rb \<le> (2 :: nat) ^ highest_bit wt" using order_trans [OF conjunct1 [OF highest_bit_bounds [OF rest(1)]] rest(2)] .
  then have "?rb \<le> highest_bit wt" by (rule power_le_imp_le_exp [rotated]) simp
  then have rb: "?rb + 1 < 13" "?rb + 1 < length rs" using False rs(1) by simp_all
  let ?b = "of_nat (?rb + 1) :: byte"
  have b: "unat ?b = ?rb + 1" using rb(1) unfolding unsigned_of_nat by (simp add: take_bit_nat_eq_self)
  let ?rs = "rs[?rb + 1 := rs ! (?rb + 1) + 1]"
  have cnt: "rs ! (?rb + 1) + 1 < 2 ^ 32"
  proof -
    have "weight_count (?rb + 1) ws \<le> length ws" by (simp add: weight_count_def)
    then show ?thesis using rs(2) rb(1) ws(1,4) by simp
  qed
  show ?thesis
  proof (cases "2 ^ ?rb \<noteq> ?rest")
    case True
    then show ?thesis using False highbit_of_nat [OF rest(1) small] highbit_of_nat [of wt] wt(2)
      by (simp add: finish_stats_def HUF_TABLELOG_MAX_def Let_def)
  next
    case verif: False
    have fin: "finish_stats iSize oSize hw rs wt = Some (if ?rs ! 1 < 2 \<or> odd (?rs ! 1) then Inl corruption_detected
      else Inr (iSize + 1, hw[oSize := ?b], ?rs, oSize + 1, ?tl))"
      using False verif highbit_of_nat [OF rest(1) small] highbit_of_nat [of wt] wt(2) ws(2) rb rs(1) cnt
      by (simp add: finish_stats_def HUF_TABLELOG_MAX_def Let_def fetch_def store_at_def)
    have "weight_sum (ws @ [?b]) = wt + 2 ^ ?rb" using wt(1) b by (simp add: weight_sum_def)
    then have sum: "weight_sum (ws @ [?b]) = 2 ^ ?tl" using verif hb(2) by simp
    have counts: "?rs ! k = weight_count k (ws @ [?b])" if "k < 13" for k
      using rs that rb b by (auto simp: weight_count_def nth_list_update)
    have keep: "length ?rs = length rs" "drop 13 ?rs = drop 13 rs" using rb(1) by (simp_all add: drop_update)
    show ?thesis
    proof (cases "?rs ! 1 < 2 \<or> odd (?rs ! 1)")
      case True
      then show ?thesis using fin by simp
    next
      case ones: False
      have "1 \<le> ?tl" "?tl \<le> 12" "unat ?b \<le> 12" using False b rb(1) by simp_all
      moreover have "2 \<le> ?rs ! 1" "even (?rs ! 1)" using ones by (simp_all only: de_Morgan_disj not_less not_not)
      ultimately show ?thesis using fin [unfolded if_not_P [OF ones]] sum counts keep by blast
    qed
  qed
qed

section \<open>The whole header\<close>

lemma drop_beyond: "n \<le> m \<Longrightarrow> drop n xs = drop n ys \<Longrightarrow> drop m xs = drop m ys"
proof -
  assume "n \<le> m" "drop n xs = drop n ys"
  then have "drop (m - n) (drop n xs) = drop (m - n) (drop n ys)" by simp
  then show ?thesis using \<open>n \<le> m\<close> by simp
qed

lemma read_weights_ok:
  assumes "1 \<le> hwSize" "hwSize \<le> 256" "hwSize \<le> length hw" "src \<noteq> []"
  shows "\<exists>r. read_weights hw hwSize src = Some r \<and> (\<forall>iSize oSize hw'. r = Inr (iSize, oSize, hw') \<longrightarrow>
    iSize + 1 \<le> length src \<and> oSize < hwSize \<and> length hw' = length hw \<and> drop hwSize hw' = drop hwSize hw)"
proof -
  let ?b = "src ! 0"
  have b: "fetch src 0 = Some ?b" using assms(4) by (simp add: fetch_def)
  show ?thesis
  proof (cases "unat ?b \<ge> 128")
    case True
    let ?o = "unat ?b - 127"
    show ?thesis
    proof (cases "(?o + 1) div 2 + 1 > length src \<or> ?o \<ge> hwSize")
      case True
      then show ?thesis using b \<open>unat ?b \<ge> 128\<close> by (auto simp: read_weights_def Let_def)
    next
      case False
      then have "(?o + 1) div 2 \<le> length (drop 1 src)" "?o < hwSize" by (simp_all, linarith)
      then obtain hw' where "direct_weights (drop 1 src) 0 ?o hw = Some hw'" "length hw' = length hw" "drop hwSize hw' = drop hwSize hw"
        using direct_weights_ok [of ?o "drop 1 src" hwSize hw 0] assms(3) by auto
      then show ?thesis using b True False by (simp add: read_weights_def Let_def)
    qed
  next
    case False
    have wrap: "nat ((int hwSize - 1) mod 2 ^ 64) = hwSize - 1"
    proof -
      have "(int hwSize - 1) mod 2 ^ 64 = int hwSize - 1" using assms(1,2) by (intro mod_pos_pos_trivial) simp_all
      then show ?thesis by linarith
    qed
    obtain r where r: "FSE_decompress_wksp hw (hwSize - 1) (take (unat ?b) (drop 1 src)) (2 ^ 6) 6 = Some r" "written (hwSize - 1) hw r"
    proof -
      have "hwSize - 1 \<le> length hw" using assms(3) by linarith
      then show ?thesis using decompress_wksp_ok [of "hwSize - 1" hw 6 "2 ^ 6" "take (unat ?b) (drop 1 src)"] that by auto
    qed
    have "oSize < hwSize \<and> length hw' = length hw \<and> drop hwSize hw' = drop hwSize hw" if "r = Inr (oSize, hw')" for oSize hw'
    proof -
      have w: "oSize \<le> hwSize - 1" "length hw' = length hw" "drop oSize hw' = drop oSize hw" using r(2) that by (simp_all add: written_def)
      then have "oSize < hwSize" using assms(1) by linarith
      then show ?thesis using w(2) drop_beyond [OF less_imp_le w(3)] by blast
    qed
    note fse = this
    show ?thesis
    proof (cases "unat ?b + 1 > length src")
      case True
      then show ?thesis using b False by (simp add: read_weights_def)
    next
      case room: False
      then have "read_weights hw hwSize src = Some (case r of Inl e \<Rightarrow> Inl e | Inr (oSize, hw) \<Rightarrow> Inr (unat ?b, oSize, hw))"
        using b False r(1) wrap by (simp add: read_weights_def)
      then show ?thesis using fse room by (cases r) auto
    qed
  qed
qed

lemma weight_sum_less: "\<forall>w \<in> set ws. unat w < 12 \<Longrightarrow> weight_sum ws \<le> 1024 * length ws"
proof (induction ws)
  case (Cons w ws)
  have "(2 :: nat) ^ unat w \<le> 2 ^ 11" using Cons.prems by (intro power_increasing) auto
  then show ?case using Cons by (simp add: weight_sum_def)
qed (simp add: weight_sum_def)

lemma readStats_ok:
  assumes hw: "1 \<le> hwSize" "hwSize \<le> 256" "hwSize \<le> length huffWeight" and rs: "13 \<le> length rankStats"
  shows "\<exists>r. HUF_readStats huffWeight hwSize rankStats src = Some r \<and> (\<forall>x. r = Inr x \<longrightarrow> stats_ok huffWeight hwSize rankStats src x)"
proof (cases "src = []")
  case True
  then show ?thesis by (simp add: HUF_readStats_def)
next
  case False
  obtain r where r: "read_weights huffWeight hwSize src = Some r" "\<And>iSize oSize hw. r = Inr (iSize, oSize, hw) \<Longrightarrow>
      iSize + 1 \<le> length src \<and> oSize < hwSize \<and> length hw = length huffWeight \<and> drop hwSize hw = drop hwSize huffWeight"
    using read_weights_ok [OF hw False] by blast
  show ?thesis
  proof (cases r)
    case (Inl e)
    then show ?thesis using False r(1) by (simp add: HUF_readStats_def)
  next
    case (Inr x)
    obtain iSize oSize w where x: "x = (iSize, oSize, w)" by (cases x)
    have o: "iSize + 1 \<le> length src" "oSize < hwSize" "length w = length huffWeight" "drop hwSize w = drop hwSize huffWeight"
      using r(2) Inr x by simp_all
    let ?rs = "replicate 13 0 @ drop 13 rankStats" and ?ws = "take oSize w"
    have len: "length ?ws \<le> 255" "13 \<le> length ?rs" "drop 13 ?rs = drop 13 rankStats" "length ?rs = length rankStats"
      using o hw(2) rs by simp_all
    have zero: "\<forall>k < 13. ?rs ! k = 0" by (simp add: nth_append)
    obtain c where c: "collect_stats ?ws ?rs 0 = Some c" "\<And>rs' wt. c = Inr (rs', wt) \<Longrightarrow>
        (\<forall>w \<in> set ?ws. unat w < 12) \<and> length rs' = length ?rs \<and> drop 13 rs' = drop 13 ?rs \<and> wt = 0 + weight_sum ?ws \<and>
        (\<forall>k < 13. rs' ! k = ?rs ! k + weight_count k ?ws)"
      using collect_stats_ok [of ?rs 0 ?ws] len(1,2) zero by auto
    show ?thesis
    proof (cases c)
      case (Inl e)
      then show ?thesis using False r(1) Inr x c(1) rs by (simp add: HUF_readStats_def HUF_TABLELOG_MAX_def)
    next
      case s: (Inr y)
      obtain rs1 wt where y: "y = (rs1, wt)" by (cases y)
      have 1: "\<forall>w \<in> set ?ws. unat w < 12" "length rs1 = length rankStats" "drop 13 rs1 = drop 13 rankStats" "wt = weight_sum ?ws"
        "\<forall>k < 13. rs1 ! k = weight_count k ?ws" using c(2) s y len(3,4) zero by simp_all
      have small: "wt < 2 ^ 32" "oSize < length w" "oSize < 2 ^ 31" "13 \<le> length rs1"
        using weight_sum_less [OF 1(1)] 1(2,4) len(1) o hw rs by simp_all
      obtain f where f: "finish_stats iSize oSize w rs1 wt = Some f" "\<And>x. f = Inr x \<Longrightarrow>
        (\<exists>b rs' tl. x = (iSize + 1, w[oSize := b], rs', oSize + 1, tl) \<and> length rs' = length rs1 \<and> drop 13 rs' = drop 13 rs1 \<and> 1 \<le> tl \<and> tl \<le> 12 \<and>
         weight_sum (?ws @ [b]) = 2 ^ tl \<and> unat b \<le> 12 \<and> (\<forall>k < 13. rs' ! k = weight_count k (?ws @ [b])) \<and> 2 \<le> rs' ! 1 \<and> even (rs' ! 1))"
        using finish_stats_ok [OF 1(4) small(1) refl small(2) 1(1) small(3,4) 1(5), of iSize] by blast
      have "HUF_readStats huffWeight hwSize rankStats src = Some f"
        using False r(1) Inr x c(1) s y rs f(1) by (simp add: HUF_readStats_def HUF_TABLELOG_MAX_def)
      moreover have "stats_ok huffWeight hwSize rankStats src z" if z: "f = Inr z" for z
      proof -
        obtain b rs' tl where z': "z = (iSize + 1, w[oSize := b], rs', oSize + 1, tl)" "length rs' = length rs1" "drop 13 rs' = drop 13 rs1"
          "1 \<le> tl" "tl \<le> 12" "weight_sum (?ws @ [b]) = 2 ^ tl" "unat b \<le> 12" "\<forall>k < 13. rs' ! k = weight_count k (?ws @ [b])"
          "2 \<le> rs' ! 1" "even (rs' ! 1)" using f(2) [OF z] by blast
        have "take (oSize + 1) (w[oSize := b]) = ?ws @ [b]" using small(2) by (simp add: take_Suc_conv_app_nth)
        moreover have "\<forall>x \<in> set (?ws @ [b]). unat x \<le> 12" using 1(1) z'(7) by auto
        moreover have "drop hwSize (w[oSize := b]) = drop hwSize huffWeight" using o(2,4) by (simp add: drop_update)
        ultimately show ?thesis using z' o 1(2,3) unfolding stats_ok_def z'(1) prod.case by simp
      qed
      ultimately show ?thesis by blast
    qed
  qed
qed

end
