(* ===== verification/Zstd_Encode.thy ===== *)
theory Zstd_Encode
  imports Zstd_Decode
begin

text \<open>
  The encoder of the finite state coder: the tables and the compression of \<open>src/zstd/compress/fse_compress.c\<close>,
  and the encoding part of \<open>fse.h\<close>.
\<close>

section \<open>Encoding tables\<close>

text \<open>
  A table has memory for the states \<open>tableU16\<close>, one for each cell, and for the transformation of each symbol,
  whose \<open>deltaFindState\<close> stays unwritten for a symbol that does not occur.
\<close>

record FSE_symbolCompressionTransform =
  deltaFindState :: "int option"
  deltaNbBits :: "32 word"

record FSE_CTable =
  ct_tableLog :: nat
  ct_maxSymbolValue :: nat
  ct_states :: "nat option list"
  ct_symbolTT :: "FSE_symbolCompressionTransform list"

text \<open>The start positions of the symbols, with the cells of low probability laid down on the way; \<open>last\<close> is the start of symbol \<open>s\<close>.\<close>

fun cumulate :: "nat \<Rightarrow> int list \<Rightarrow> nat \<Rightarrow> 32 word \<Rightarrow> byte option list \<Rightarrow> (nat list \<times> 32 word \<times> byte option list) option" where
  "cumulate s [] start high syms = Some ([], high, syms)"
| "cumulate s (c # cs) start high syms =
     (if c = -1 then do {
        syms \<leftarrow> store_at syms (unat high) (Some (of_nat s));
        (cumul, high, syms) \<leftarrow> cumulate (s + 1) cs ((start + 1) mod 2 ^ 32) (high - 1) syms;
        Some (start # cumul, high, syms)
      }
      else do {
        (cumul, high, syms) \<leftarrow> cumulate (s + 1) cs (nat ((int start + c) mod 2 ^ 32)) high syms;
        Some (start # cumul, high, syms)
      })"

text \<open>The states in the order of their symbols; \<open>u\<close> is the first cell of the rest.\<close>

fun sort_states :: "nat \<Rightarrow> nat \<Rightarrow> byte option list \<Rightarrow> nat list \<Rightarrow> nat option list \<Rightarrow> nat option list option" where
  "sort_states tableSize u [] cumul states = Some states"
| "sort_states tableSize u (cell # syms) cumul states = do {
     s \<leftarrow> cell;
     i \<leftarrow> fetch cumul (unat s);
     states \<leftarrow> store_at states i (Some ((tableSize + u) mod 2 ^ 16));
     cumul \<leftarrow> store_at cumul (unat s) ((i + 1) mod 2 ^ 32);
     sort_states tableSize (u + 1) syms cumul states
   }"

text \<open>The \<open>switch\<close> over the count of a symbol: its transformation and the new \<open>total\<close>, here \<open>tot\<close>.\<close>

definition transform :: "nat \<Rightarrow> int \<Rightarrow> 32 word \<Rightarrow> (FSE_symbolCompressionTransform \<times> 32 word) option" where
  "transform tableLog c tot =
     (if c = 0 then
        Some (\<lparr>deltaFindState = None, deltaNbBits = push_bit 16 (of_nat (tableLog + 1)) - push_bit tableLog 1\<rparr>, tot)
      else if c = -1 \<or> c = 1 then
        Some (\<lparr>deltaFindState = Some (sint (tot - 1)), deltaNbBits = push_bit 16 (of_nat tableLog) - push_bit tableLog 1\<rparr>, tot + 1)
      else do {
        hb \<leftarrow> BIT_highbit32 (of_int (c - 1));
        if hb > tableLog then None
        else do {
          let maxBitsOut = tableLog - hb;
          let minStatePlus = push_bit maxBitsOut (of_int c);
          Some (\<lparr>deltaFindState = Some (sint (tot - of_int c)), deltaNbBits = push_bit 16 (of_nat maxBitsOut) - minStatePlus\<rparr>,
            tot + of_int c)
        }
      })"

fun transforms :: "nat \<Rightarrow> int list \<Rightarrow> 32 word \<Rightarrow> FSE_symbolCompressionTransform list option" where
  "transforms tableLog [] tot = Some []"
| "transforms tableLog (c # cs) tot = do {
     (tt, tot) \<leftarrow> transform tableLog c tot;
     tts \<leftarrow> transforms tableLog cs tot;
     Some (tt # tts)
   }"

text \<open>\<open>cumul\<close> has \<open>FSE_MAX_SYMBOL_VALUE + 2\<close> elements; an assertion keeps the table log below 16.\<close>

definition FSE_buildCTable_wksp :: "int list \<Rightarrow> nat \<Rightarrow> nat \<Rightarrow> nat \<Rightarrow> FSE_CTable result option" where
  "FSE_buildCTable_wksp counts maxSymbolValue tableLog wkspSize =
     (if 2 ^ tableLog > wkspSize then Some (Inl tableLog_tooLarge)
      else if tableLog \<ge> 16 \<or> maxSymbolValue > FSE_MAX_SYMBOL_VALUE \<or> length counts < maxSymbolValue + 1 then None
      else do {
        let tableSize = 2 ^ tableLog;
        let counts = take (maxSymbolValue + 1) counts;
        (cumul, high, syms) \<leftarrow> cumulate 0 counts 0 (of_nat (tableSize - 1)) (replicate wkspSize None);
        (position, syms) \<leftarrow> spread tableSize high 0 counts 0 syms;
        if position \<noteq> 0 then Some (Inl GENERIC)
        else do {
          states \<leftarrow> sort_states tableSize 0 (take tableSize syms) (cumul @ [tableSize + 1]) (replicate tableSize None);
          tts \<leftarrow> transforms tableLog counts 0;
          Some (Inr \<lparr>ct_tableLog = tableLog, ct_maxSymbolValue = maxSymbolValue, ct_states = states, ct_symbolTT = tts\<rparr>)
        }
      })"

definition FSE_buildCTable :: "int list \<Rightarrow> nat \<Rightarrow> nat \<Rightarrow> FSE_CTable result option" where
  "FSE_buildCTable counts maxSymbolValue tableLog = FSE_buildCTable_wksp counts maxSymbolValue tableLog (2 ^ FSE_MAX_TABLELOG)"

definition FSE_buildCTable_raw :: "nat \<Rightarrow> FSE_CTable result" where
  "FSE_buildCTable_raw nb =
     (if nb < 1 then Inl GENERIC
      else Inr \<lparr>ct_tableLog = nb mod 2 ^ 16, ct_maxSymbolValue = (2 ^ nb - 1) mod 2 ^ 16,
        ct_states = map (\<lambda>s. Some ((2 ^ nb + s) mod 2 ^ 16)) [0..<2 ^ nb],
        ct_symbolTT = map (\<lambda>s. \<lparr>deltaFindState = Some (int s - 1), deltaNbBits = push_bit 16 (of_nat nb) - push_bit nb 1\<rparr>) [0..<2 ^ nb]\<rparr>)"

section \<open>Encoding symbols\<close>

text \<open>The state of an encoder is a number; the sum with \<open>deltaNbBits\<close> is one of 64 bits.\<close>

definition FSE_initCState :: "FSE_CTable \<Rightarrow> nat" where
  "FSE_initCState ct = 2 ^ ct_tableLog ct"

definition next_state :: "FSE_CTable \<Rightarrow> FSE_symbolCompressionTransform \<Rightarrow> nat \<Rightarrow> nat \<Rightarrow> nat option" where
  "next_state ct tt v nbBitsOut = do {
     d \<leftarrow> deltaFindState tt;
     let i = int (v div 2 ^ nbBitsOut) + d;
     if i < 0 then None
     else do { state \<leftarrow> fetch (ct_states ct) (nat i); state }
   }"

definition FSE_initCState2 :: "FSE_CTable \<Rightarrow> byte \<Rightarrow> nat option" where
  "FSE_initCState2 ct s = do {
     tt \<leftarrow> fetch (ct_symbolTT ct) (unat s);
     let nbBitsOut = unat (drop_bit 16 (deltaNbBits tt + 2 ^ 15));
     next_state ct tt (unat (push_bit 16 (of_nat nbBitsOut) - deltaNbBits tt)) nbBitsOut
   }"

definition FSE_encodeSymbol :: "FSE_CTable \<Rightarrow> BIT_CStream_t \<Rightarrow> nat \<Rightarrow> byte \<Rightarrow> (nat \<times> BIT_CStream_t) option" where
  "FSE_encodeSymbol ct c v s = do {
     tt \<leftarrow> fetch (ct_symbolTT ct) (unat s);
     let nbBitsOut = (v + unat (deltaNbBits tt)) div 2 ^ 16 mod 2 ^ 32;
     c \<leftarrow> BIT_addBits (of_nat v) nbBitsOut c;
     v \<leftarrow> next_state ct tt v nbBitsOut;
     Some (v, c)
   }"

definition FSE_flushCState :: "FSE_CTable \<Rightarrow> BIT_CStream_t \<Rightarrow> nat \<Rightarrow> BIT_CStream_t option" where
  "FSE_flushCState ct c v = do {
     c \<leftarrow> BIT_addBits (of_nat v) (ct_tableLog ct) c;
     BIT_flushBits c
   }"

section \<open>Compression with a table\<close>

record fse_enc =
  en_bits :: BIT_CStream_t
  en_state1 :: nat
  en_state2 :: nat

definition encode_first :: "FSE_CTable \<Rightarrow> byte \<Rightarrow> fse_enc \<Rightarrow> fse_enc option" where
  "encode_first ct s e = do {
     (v, c) \<leftarrow> FSE_encodeSymbol ct (en_bits e) (en_state1 e) s;
     Some (e\<lparr>en_bits := c, en_state1 := v\<rparr>)
   }"

definition encode_second :: "FSE_CTable \<Rightarrow> byte \<Rightarrow> fse_enc \<Rightarrow> fse_enc option" where
  "encode_second ct s e = do {
     (v, c) \<leftarrow> FSE_encodeSymbol ct (en_bits e) (en_state2 e) s;
     Some (e\<lparr>en_bits := c, en_state2 := v\<rparr>)
   }"

definition FSE_FLUSHBITS :: "bool \<Rightarrow> fse_enc \<Rightarrow> fse_enc option" where
  "FSE_FLUSHBITS fast e = do {
     c \<leftarrow> (if fast then BIT_flushBitsFast (en_bits e) else BIT_flushBits (en_bits e));
     Some (e\<lparr>en_bits := c\<rparr>)
   }"

text \<open>
  The source is read from its end: \<open>left\<close> is the list of the bytes that are left, the last one first. With a
  64-bit register the loop encodes four symbols in each pass.
\<close>

fun encode_loop :: "bool \<Rightarrow> FSE_CTable \<Rightarrow> bytes \<Rightarrow> fse_enc \<Rightarrow> fse_enc option" where
  "encode_loop fast ct [] e = Some e"
| "encode_loop fast ct (a # b # c # d # left) e = do {
     e \<leftarrow> encode_second ct a e;
     e \<leftarrow> encode_first ct b e;
     e \<leftarrow> encode_second ct c e;
     e \<leftarrow> encode_first ct d e;
     e \<leftarrow> FSE_FLUSHBITS fast e;
     encode_loop fast ct left e
   }"
| "encode_loop fast ct left e = None"

text \<open>The first symbols, by the parity of the size.\<close>

definition encode_start :: "bool \<Rightarrow> FSE_CTable \<Rightarrow> bytes \<Rightarrow> BIT_CStream_t \<Rightarrow> (bytes \<times> fse_enc) option" where
  "encode_start fast ct left c =
     (case left of
        a # b # left \<Rightarrow>
          if odd (length left) then
            (case left of
               s # left \<Rightarrow> do {
                 v1 \<leftarrow> FSE_initCState2 ct a;
                 v2 \<leftarrow> FSE_initCState2 ct b;
                 e \<leftarrow> encode_first ct s \<lparr>en_bits = c, en_state1 = v1, en_state2 = v2\<rparr>;
                 e \<leftarrow> FSE_FLUSHBITS fast e;
                 Some (left, e)
               }
             | [] \<Rightarrow> None)
          else do {
            v2 \<leftarrow> FSE_initCState2 ct a;
            v1 \<leftarrow> FSE_initCState2 ct b;
            Some (left, \<lparr>en_bits = c, en_state1 = v1, en_state2 = v2\<rparr>)
          }
      | _ \<Rightarrow> None)"

definition encode_join :: "bool \<Rightarrow> FSE_CTable \<Rightarrow> nat \<Rightarrow> bytes \<Rightarrow> fse_enc \<Rightarrow> (bytes \<times> fse_enc) option" where
  "encode_join fast ct srcSize left e =
     (if bit srcSize 1 then
        (case left of
           a # b # left \<Rightarrow> do {
             e \<leftarrow> encode_second ct a e;
             e \<leftarrow> encode_first ct b e;
             e \<leftarrow> FSE_FLUSHBITS fast e;
             Some (left, e)
           }
         | _ \<Rightarrow> None)
      else Some (left, e))"

text \<open>What is returned is the size, 0 if there is no room, and the output buffer.\<close>

definition FSE_compress_usingCTable_generic :: "bytes \<Rightarrow> bytes \<Rightarrow> FSE_CTable \<Rightarrow> bool \<Rightarrow> (nat \<times> bytes) option" where
  "FSE_compress_usingCTable_generic dst src ct fast =
     (if length src \<le> 2 then Some (0, dst)
      else case BIT_initCStream dst of
        (Inl e, c) \<Rightarrow> Some (0, dst)
      | (Inr u, c) \<Rightarrow> do {
          (left, e) \<leftarrow> encode_start fast ct (rev src) c;
          (left, e) \<leftarrow> encode_join fast ct (length src - 2) left e;
          e \<leftarrow> encode_loop fast ct left e;
          c \<leftarrow> FSE_flushCState ct (en_bits e) (en_state2 e);
          c \<leftarrow> FSE_flushCState ct c (en_state1 e);
          (n, c) \<leftarrow> BIT_closeCStream c;
          Some (n, cs_buffer c)
        })"

definition FSE_BLOCKBOUND :: "nat \<Rightarrow> nat" where
  "FSE_BLOCKBOUND n = n + drop_bit 7 n"

definition FSE_compress_usingCTable :: "bytes \<Rightarrow> bytes \<Rightarrow> FSE_CTable \<Rightarrow> (nat \<times> bytes) option" where
  "FSE_compress_usingCTable dst src ct = FSE_compress_usingCTable_generic dst src ct (length dst \<ge> FSE_BLOCKBOUND (length src))"

end
