(* ===== verification/Zstd_Encode_Table.thy ===== *)
theory Zstd_Encode_Table
  imports Zstd_Decode_Spec Zstd_Encode
begin

text \<open>
  The encoding table belongs to the decoding table: both spread the symbols in the same way, and the state after a symbol is the
  cell of the decoding table from which the symbol and the state before are decoded.
\<close>

section \<open>The same symbols for both tables\<close>

lemma store_at_append: "store_at xs i x = Some ys \<Longrightarrow> store_at (xs @ ext) i x = Some (ys @ ext)"
  by (auto simp: store_at_def list_update_append split: if_splits)

lemma spread_symbol_append:
  "spread_symbol T high s n p syms = Some (p', syms') \<Longrightarrow> spread_symbol T high s n p (syms @ ext) = Some (p', syms' @ ext)"
proof (induction n arbitrary: p syms)
  case (Suc n)
  then show ?case by (auto simp: store_at_append split: Option.bind_split_asm)
qed simp

lemma spread_append: "spread T high s cs p syms = Some (p', syms') \<Longrightarrow> spread T high s cs p (syms @ ext) = Some (p', syms' @ ext)"
proof (induction cs arbitrary: s p syms)
  case (Cons c cs)
  then show ?case by (auto simp: spread_symbol_append split: Option.bind_split_asm)
qed simp

definition wider :: "byte option list \<Rightarrow> dbuild \<Rightarrow> dbuild" where
  "wider ext b = b\<lparr>db_symbols := db_symbols b @ ext\<rparr>"

lemma wider_simps [simp]: "db_high (wider ext b) = db_high b" "db_symbols (wider ext b) = db_symbols b @ ext"
  "db_fast (wider ext b) = db_fast b" "db_next (wider ext b) = db_next b"
  by (simp_all add: wider_def)

lemma lay_down_append: "lay_down lim s cs b = Some b' \<Longrightarrow> lay_down lim s cs (wider ext b) = Some (wider ext b')"
proof (induction cs arbitrary: s b)
  case (Cons c cs)
  show ?case
  proof (cases "c = -1")
    case True
    obtain syms nx where 1: "store_at (db_symbols b) (unat (db_high b)) (Some (of_nat s)) = Some syms" "store_at (db_next b) s (Some 1) = Some nx"
      "lay_down lim (s + 1) cs (b\<lparr>db_symbols := syms, db_high := db_high b - 1, db_next := nx\<rparr>) = Some b'"
      using Cons.prems True by (auto split: Option.bind_split_asm)
    have w: "wider ext (b\<lparr>db_symbols := syms, db_high := db_high b - 1, db_next := nx\<rparr>) =
        (wider ext b)\<lparr>db_symbols := syms @ ext, db_high := db_high b - 1, db_next := nx\<rparr>" by (cases b) (simp add: wider_def)
    show ?thesis using Cons.IH [OF 1(3), unfolded w] 1(2) store_at_append [OF 1(1), of ext] True by simp
  next
    case False
    obtain nx where 1: "store_at (db_next b) s (Some (nat (c mod 2 ^ 16))) = Some nx"
      "lay_down lim (s + 1) cs (b\<lparr>db_next := nx, db_fast := db_fast b \<and> \<not> c \<ge> lim\<rparr>) = Some b'"
      using Cons.prems False by (auto split: Option.bind_split_asm)
    have w: "wider ext (b\<lparr>db_next := nx, db_fast := db_fast b \<and> \<not> c \<ge> lim\<rparr>) =
        (wider ext b)\<lparr>db_next := nx, db_fast := db_fast b \<and> \<not> c \<ge> lim\<rparr>" by (cases b) (simp add: wider_def)
    show ?thesis using Cons.IH [OF 1(2), unfolded w] 1(1) False by simp
  qed
qed simp

text \<open>The start positions of the symbols.\<close>

fun starts :: "nat \<Rightarrow> int list \<Rightarrow> nat list" where
  "starts a [] = []"
| "starts a (c # cs) = a # starts (a + nat \<bar>c\<bar>) cs"

lemma starts_length [simp]: "length (starts a cs) = length cs"
  by (induction cs arbitrary: a) simp_all

lemma starts_end: "j < length cs \<Longrightarrow> starts a cs ! j + nat \<bar>cs ! j\<bar> \<le> a + sum_list (map (\<lambda>c. nat \<bar>c\<bar>) cs)"
proof (induction cs arbitrary: a j)
  case (Cons c cs)
  show ?case
  proof (cases j)
    case (Suc i)
    then have "starts (a + nat \<bar>c\<bar>) cs ! i + nat \<bar>cs ! i\<bar> \<le> a + nat \<bar>c\<bar> + sum_list (map (\<lambda>c. nat \<bar>c\<bar>) cs)" using Cons by simp
    then show ?thesis using Suc by simp
  qed simp
qed simp

lemma starts_ge: "j < length cs \<Longrightarrow> a \<le> starts a cs ! j"
proof (induction cs arbitrary: a j)
  case (Cons c cs)
  show ?case
  proof (cases j)
    case (Suc i)
    then have "a + nat \<bar>c\<bar> \<le> starts (a + nat \<bar>c\<bar>) cs ! i" using Cons by simp
    then show ?thesis using Suc by simp
  qed simp
qed simp

lemma starts_apart: "i < j \<Longrightarrow> j < length cs \<Longrightarrow> starts a cs ! i + nat \<bar>cs ! i\<bar> \<le> starts a cs ! j"
proof (induction cs arbitrary: a i j)
  case (Cons c cs)
  show ?case
  proof (cases i)
    case 0
    then obtain k where "j = Suc k" "k < length cs" using Cons.prems by (cases j) auto
    then show ?thesis using 0 starts_ge [of k cs "a + nat \<bar>c\<bar>"] by simp
  next
    case (Suc k)
    then obtain m where "j = Suc m" "k < m" "m < length cs" using Cons.prems by (cases j) auto
    then show ?thesis using Suc Cons.IH by simp
  qed
qed simp

lemma cumulate_lays:
  assumes "lay_down lim s cs b = Some b'" "\<forall>c \<in> set cs. -1 \<le> c" "a + sum_list (map (\<lambda>c. nat \<bar>c\<bar>) cs) < 2 ^ 32"
  shows "cumulate s cs a (db_high b) (db_symbols b @ ext) = Some (starts a cs, db_high b', db_symbols b' @ ext)"
  using assms
proof (induction cs arbitrary: s a b)
  case (Cons c cs)
  have sum: "a + nat \<bar>c\<bar> + sum_list (map (\<lambda>c. nat \<bar>c\<bar>) cs) < 2 ^ 32" using Cons.prems(3) by simp
  show ?case
  proof (cases "c = -1")
    case True
    obtain syms nx where 1: "store_at (db_symbols b) (unat (db_high b)) (Some (of_nat s)) = Some syms"
      "lay_down lim (s + 1) cs (b\<lparr>db_symbols := syms, db_high := db_high b - 1, db_next := nx\<rparr>) = Some b'"
      using Cons.prems(1) True by (auto split: Option.bind_split_asm)
    have "cumulate (s + 1) cs (a + 1) (db_high b - 1) (syms @ ext) = Some (starts (a + 1) cs, db_high b', db_symbols b' @ ext)"
      using Cons.IH [OF 1(2), of "a + 1"] Cons.prems(2) sum True by simp
    then show ?thesis using store_at_append [OF 1(1), of ext] sum True by simp
  next
    case False
    obtain nx where 1: "lay_down lim (s + 1) cs (b\<lparr>db_next := nx, db_fast := db_fast b \<and> \<not> c \<ge> lim\<rparr>) = Some b'"
      using Cons.prems(1) False by (auto split: Option.bind_split_asm)
    have c: "0 \<le> c" "nat (int a + c) = a + nat \<bar>c\<bar>" using Cons.prems(2) False by auto
    have "a + nat \<bar>c\<bar> < 2 ^ 32" using sum by linarith
    then have "(int a + c) mod 2 ^ 32 = int a + c" using c by (intro mod_pos_pos_trivial) simp_all
    moreover have "cumulate (s + 1) cs (a + nat \<bar>c\<bar>) (db_high b) (db_symbols b @ ext) = Some (starts (a + nat \<bar>c\<bar>) cs, db_high b', db_symbols b' @ ext)"
      using Cons.IH [OF 1, of "a + nat \<bar>c\<bar>"] Cons.prems(2) sum by simp
    ultimately show ?thesis using False c(2) by simp
  qed
qed simp

lemma int_sum_abs: "int (sum_list (map (\<lambda>c. nat \<bar>c\<bar>) cs)) = sum_list (map abs cs)"
  by (induction cs) simp_all

lemma abs_counts:
  assumes "valid_counts counts sv l"
  shows "sum_list (map (\<lambda>c. nat \<bar>c\<bar>) (take (sv + 1) counts)) = 2 ^ l"
proof -
  have "sum_list (map abs (take (sv + 1) counts)) = 2 ^ l"
    using sum_list_take [of "sv + 1" counts abs] assms by (simp add: valid_counts_def)
  then have "int (sum_list (map (\<lambda>c. nat \<bar>c\<bar>) (take (sv + 1) counts))) = int (2 ^ l)" unfolding int_sum_abs by simp
  then show ?thesis by (simp only: of_nat_eq_iff)
qed

text \<open>The symbols are those of the smallest memory, whatever the memory for both tables is.\<close>

lemma same_symbols:
  assumes v: "valid_counts counts sv l" and room: "2 ^ l \<le> room" "2 ^ l \<le> wksp"
  shows "\<exists>syms cells fast high low.
    cells_exact l counts sv syms cells \<and> table_valid \<lparr>dt_tableLog = l, dt_fastMode = fast, dt_cells = map Some cells\<rparr> \<and>
    FSE_buildDTable room counts sv l = Some (Inr \<lparr>dt_tableLog = l, dt_fastMode = fast, dt_cells = map Some cells\<rparr>) \<and>
    cumulate 0 (take (sv + 1) counts) 0 (of_nat (2 ^ l - 1)) (replicate wksp None) = Some (starts 0 (take (sv + 1) counts), high, low) \<and>
    spread (2 ^ l) high 0 (take (sv + 1) counts) 0 low = Some (0, syms @ replicate (wksp - 2 ^ l) None)"
proof -
  let ?cs = "take (sv + 1) counts" and ?T = "(2 :: nat) ^ l" and ?lim = "short (2 ^ (l - 1))"
  obtain b0 syms cells0 where 0: "lay_down ?lim 0 ?cs (table_start ?T l) = Some b0" "spread ?T (db_high b0) 0 ?cs 0 (db_symbols b0) = Some (0, syms)"
    "cells_exact l counts sv (take ?T syms) cells0"
    using table_built [OF v order_refl] by (elim exE conjE) (rule that, assumption+)
  have len: "length syms = ?T"
  proof -
    obtain b' syms' where "lay_down ?lim 0 ?cs (table_start ?T l) = Some b'" "spread ?T (db_high b') 0 ?cs 0 (db_symbols b') = Some (0, syms')" "length syms' = ?T"
      using symbols_spread [OF v order_refl] by (elim exE conjE) (rule that, assumption+)
    then show ?thesis using 0(1,2) by simp
  qed
  let ?ext = "replicate (room - ?T) None"
  have start: "table_start room l = wider ?ext (table_start ?T l)" using room(1) by (simp add: wider_def table_start_def flip: replicate_add)
  obtain b syms1 cells where 1: "lay_down ?lim 0 ?cs (table_start room l) = Some b" "spread ?T (db_high b) 0 ?cs 0 (db_symbols b) = Some (0, syms1)"
    "cells_exact l counts sv (take ?T syms1) cells" "db_fast b \<longrightarrow> (\<forall>j \<le> sv. counts ! j < 2 ^ (l - 1))"
    "FSE_buildDTable room counts sv l = Some (Inr \<lparr>dt_tableLog = l, dt_fastMode = db_fast b, dt_cells = map Some cells\<rparr>)"
    using table_built [OF v room(1)] by (elim exE conjE) (rule that, assumption+)
  have "b = wider ?ext b0" using 1(1) lay_down_append [OF 0(1), of ?ext] start by simp
  then have "syms1 = syms @ ?ext" using 1(2) spread_append [OF 0(2), of ?ext] by simp
  then have e: "cells_exact l counts sv syms cells" using 1(3) len by simp
  have ge: "\<forall>c \<in> set ?cs. -1 \<le> c" using v by (auto simp: in_set_conv_nth valid_counts_def)
  have small: "0 + sum_list (map (\<lambda>c. nat \<bar>c\<bar>) ?cs) < 2 ^ 32" using abs_counts [OF v] table_size(2) [of l] v by (simp add: valid_counts_def)
  have "replicate wksp None = replicate ?T None @ replicate (wksp - ?T) (None :: byte option)" using room(2) by (simp flip: replicate_add)
  then have "cumulate 0 ?cs 0 (of_nat (?T - 1)) (replicate wksp None) = Some (starts 0 ?cs, db_high b0, db_symbols b0 @ replicate (wksp - ?T) None)"
    using cumulate_lays [OF 0(1) ge small, of "replicate (wksp - ?T) None"] by (simp add: table_start_def)
  moreover have "spread ?T (db_high b0) 0 ?cs 0 (db_symbols b0 @ replicate (wksp - ?T) None) = Some (0, syms @ replicate (wksp - ?T) None)"
    by (rule spread_append [OF 0(2)])
  ultimately show ?thesis using e exact_valid [OF v e 1(4)] 1(5) by blast
qed

section \<open>The states in the order of their symbols\<close>

lemma sort_states_places:
  assumes "None \<notin> set syms" "length states \<le> 2 ^ 15" "T + u + length syms \<le> 2 ^ 15"
    and "\<forall>s. Some s \<in> set syms \<longrightarrow> unat s < length cumul \<and> cumul ! unat s = f s \<and> f s + count_list syms (Some s) \<le> length states"
    and "\<forall>s s'. Some s \<in> set syms \<and> Some s' \<in> set syms \<and> s \<noteq> s' \<longrightarrow>
      f s + count_list syms (Some s) \<le> f s' \<or> f s' + count_list syms (Some s') \<le> f s"
  shows "\<exists>states'. sort_states T u syms cumul states = Some states' \<and> length states' = length states \<and>
    (\<forall>i < length syms. \<forall>s. syms ! i = Some s \<longrightarrow> states' ! (f s + count_list (take i syms) (Some s)) = Some (T + u + i)) \<and>
    (\<forall>p < length states. (\<forall>s. Some s \<in> set syms \<longrightarrow> p < f s \<or> f s + count_list syms (Some s) \<le> p) \<longrightarrow> states' ! p = states ! p)"
  using assms
proof (induction syms arbitrary: u cumul states f)
  case Nil
  then show ?case by simp
next
  case (Cons x syms)
  obtain c where x: "x = Some c" using Cons.prems(1) by (cases x) auto
  have c: "unat c < length cumul" "cumul ! unat c = f c" "f c + count_list syms (Some c) + 1 \<le> length states"
    using Cons.prems(4) x by auto
  let ?f = "f(c := f c + 1)" and ?cumul = "cumul[unat c := f c + 1]" and ?states = "states[f c := Some (T + u)]"
  have 1: "unat s < length ?cumul \<and> ?cumul ! unat s = ?f s \<and> ?f s + count_list syms (Some s) \<le> length ?states"
    if s: "Some s \<in> set syms" for s
  proof (cases "s = c")
    case True
    then show ?thesis using c by simp
  next
    case False
    then have "unat s \<noteq> unat c" by (simp flip: word_unat_eq_iff)
    then show ?thesis using False Cons.prems(4) s x by auto
  qed
  have 2: "?f s + count_list syms (Some s) \<le> ?f s' \<or> ?f s' + count_list syms (Some s') \<le> ?f s"
    if s: "Some s \<in> set syms" "Some s' \<in> set syms" "s \<noteq> s'" for s s'
  proof -
    have "f s + count_list (x # syms) (Some s) \<le> f s' \<or> f s' + count_list (x # syms) (Some s') \<le> f s"
      using Cons.prems(5) s by (meson list.set_intros(2))
    then show ?thesis using s(3) x by (cases "s = c"; cases "s' = c") auto
  qed
  have l: "length ?states \<le> 2 ^ 15" "T + (u + 1) + length syms \<le> 2 ^ 15" using Cons.prems(2,3) by simp_all
  obtain st where st: "sort_states T (u + 1) syms ?cumul ?states = Some st" "length st = length ?states"
    "\<forall>i < length syms. \<forall>s. syms ! i = Some s \<longrightarrow> st ! (?f s + count_list (take i syms) (Some s)) = Some (T + (u + 1) + i)"
    "\<forall>p < length ?states. (\<forall>s. Some s \<in> set syms \<longrightarrow> p < ?f s \<or> ?f s + count_list syms (Some s) \<le> p) \<longrightarrow> st ! p = ?states ! p"
    using Cons.IH [of ?states "u + 1" ?cumul ?f] Cons.prems(1) l 1 2 by auto
  have "sort_states T u (x # syms) cumul states = Some st"
    using x c l st(1) by (simp add: fetch_def store_at_def)
  moreover have "st ! (f s + count_list (take i (x # syms)) (Some s)) = Some (T + u + i)" if i: "i < length (x # syms)" "(x # syms) ! i = Some s" for i s
  proof (cases i)
    case 0
    have "f c < ?f s \<or> ?f s + count_list syms (Some s) \<le> f c" if "Some s \<in> set syms" for s
    proof (cases "s = c")
      case False
      then have "f s + count_list (x # syms) (Some s) \<le> f c \<or> f c + count_list (x # syms) (Some c) \<le> f s"
        using Cons.prems(5) that x by (meson list.set_intros)
      then show ?thesis using False x by auto
    qed simp
    then have "st ! f c = ?states ! f c" using st(4) c(3) by simp
    then show ?thesis using 0 i x c(3) by simp
  next
    case (Suc j)
    then have "st ! (?f s + count_list (take j syms) (Some s)) = Some (T + (u + 1) + j)" using st(3) i by simp
    then show ?thesis using Suc x by (cases "s = c") simp_all
  qed
  moreover have "st ! p = states ! p" if p: "p < length states" "\<forall>s. Some s \<in> set (x # syms) \<longrightarrow> p < f s \<or> f s + count_list (x # syms) (Some s) \<le> p" for p
  proof -
    have "p < ?f s \<or> ?f s + count_list syms (Some s) \<le> p" if "Some s \<in> set syms" for s using p(2) that x by (cases "s = c") auto
    then have "st ! p = ?states ! p" using st(4) p(1) by simp
    moreover have "p \<noteq> f c" using p(2) x by auto
    ultimately show ?thesis by simp
  qed
  ultimately show ?case using st(2) by (intro exI [of _ st]) simp
qed

section \<open>The transformations\<close>

text \<open>The number of bits that a symbol with the count \<open>a\<close> takes at most.\<close>

definition max_bits :: "nat \<Rightarrow> nat \<Rightarrow> nat" where
  "max_bits l a = (if a = 1 then l else l - highest_bit (a - 1))"

lemma max_bits_bounds:
  assumes "0 < a" "a \<le> 2 ^ l" "0 < l"
  shows "1 \<le> max_bits l a" "max_bits l a \<le> l" "2 ^ l \<le> a * 2 ^ max_bits l a" "a * 2 ^ max_bits l a \<le> 2 * 2 ^ l"
    "a \<noteq> 1 \<Longrightarrow> highest_bit (a - 1) < l"
proof -
  show "max_bits l a \<le> l" by (simp add: max_bits_def)
  have "1 \<le> max_bits l a \<and> 2 ^ l \<le> a * 2 ^ max_bits l a \<and> a * 2 ^ max_bits l a \<le> 2 * 2 ^ l \<and> (a \<noteq> 1 \<longrightarrow> highest_bit (a - 1) < l)"
  proof (cases "a = 1")
    case True
    then show ?thesis using assms(3) by (simp add: max_bits_def)
  next
    case False
    let ?h = "highest_bit (a - 1)"
    have h: "2 ^ ?h \<le> a - 1" "a - 1 < 2 * 2 ^ ?h" using highest_bit_bounds [of "a - 1"] assms(1) False by simp_all
    have "2 ^ ?h < (2 :: nat) ^ l" using h(1) assms(1,2) False by linarith
    then have "?h < l" by (rule power_less_imp_less_exp [rotated]) simp
    then have p: "(2 :: nat) ^ ?h * 2 ^ (l - ?h) = 2 ^ l" by (simp flip: power_add)
    have a: "2 ^ ?h \<le> a" "a \<le> 2 * 2 ^ ?h" using h assms(1) by linarith+
    have "2 ^ l \<le> a * 2 ^ (l - ?h)" using mult_le_mono1 [OF a(1), of "2 ^ (l - ?h)"] unfolding p .
    moreover have "a * 2 ^ (l - ?h) \<le> 2 * 2 ^ l" using mult_le_mono1 [OF a(2), of "2 ^ (l - ?h)"] unfolding mult.assoc p .
    ultimately show ?thesis using False \<open>?h < l\<close> unfolding max_bits_def by simp
  qed
  then show "1 \<le> max_bits l a" "2 ^ l \<le> a * 2 ^ max_bits l a" "a * 2 ^ max_bits l a \<le> 2 * 2 ^ l"
    "a \<noteq> 1 \<Longrightarrow> highest_bit (a - 1) < l" by blast+
qed

text \<open>The transformation of a symbol that occurs, with its start position \<open>a\<close>.\<close>

definition transform_of :: "nat \<Rightarrow> nat \<Rightarrow> nat \<Rightarrow> FSE_symbolCompressionTransform" where
  "transform_of l a c = \<lparr>deltaFindState = Some (int a - int c), deltaNbBits = of_nat (max_bits l c * 2 ^ 16 - c * 2 ^ max_bits l c)\<rparr>"

lemma unat_deltaNbBits:
  assumes "0 < c" "c \<le> 2 ^ l" "0 < l" "l \<le> 12"
  shows "unat (deltaNbBits (transform_of l a c)) = max_bits l c * 2 ^ 16 - c * 2 ^ max_bits l c"
    "c * 2 ^ max_bits l c \<le> 2 ^ 13" "1 \<le> max_bits l c" "max_bits l c \<le> 12"
proof -
  note m = max_bits_bounds [OF assms(1-3)]
  show "c * 2 ^ max_bits l c \<le> 2 ^ 13" "1 \<le> max_bits l c" "max_bits l c \<le> 12"
    using m table_size(1) [OF assms(4)] assms(4) by simp_all
  then have "max_bits l c * 2 ^ 16 - c * 2 ^ max_bits l c < 2 ^ 32" by simp
  then show "unat (deltaNbBits (transform_of l a c)) = max_bits l c * 2 ^ 16 - c * 2 ^ max_bits l c"
    by (simp add: transform_of_def unsigned_of_nat take_bit_nat_eq_self)
qed

lemma sint_difference:
  assumes "a < 2 ^ 31" "c < 2 ^ 31"
  shows "sint (of_nat a - of_nat c :: 32 word) = int a - int c"
proof -
  have "(of_nat a - of_nat c :: 32 word) = of_int (int a - int c)" by simp
  moreover have "- (2 ^ 31) \<le> int a - int c" "int a - int c < 2 ^ 31" using assms by simp_all
  then have "signed_take_bit 31 (int a - int c) = int a - int c" by (rule signed_take_bit_int_eq_self)
  ultimately show ?thesis by (simp only: signed_of_int) simp
qed

lemma transform_exact:
  assumes c: "c \<noteq> 0" "-1 \<le> c" "nat \<bar>c\<bar> \<le> 2 ^ l" and l: "0 < l" "l \<le> 12" and a: "a < 2 ^ 31"
  shows "transform l c (of_nat a) = Some (transform_of l a (nat \<bar>c\<bar>), of_nat (a + nat \<bar>c\<bar>))"
proof -
  let ?c = "nat \<bar>c\<bar>"
  have pos: "0 < ?c" "?c < 2 ^ 31"
  proof -
    have "?c \<le> 2 ^ 12" using c(3) table_size(1) [OF l(2)] by (rule order_trans)
    then show "?c < 2 ^ 31" by simp
  qed (use c(1) in simp)
  note m = max_bits_bounds [OF pos(1) c(3) l(1)]
  have le: "?c * 2 ^ max_bits l ?c \<le> max_bits l ?c * 2 ^ 16" using unat_deltaNbBits(2,3) [OF pos(1) c(3) l] by simp
  have delta: "push_bit 16 (of_nat (max_bits l ?c)) - of_nat (?c * 2 ^ max_bits l ?c) = (of_nat (max_bits l ?c * 2 ^ 16 - ?c * 2 ^ max_bits l ?c) :: 32 word)"
    using le by (simp add: of_nat_diff push_bit_eq_mult)
  show ?thesis
  proof (cases "?c = 1")
    case True
    then have "c = -1 \<or> c = 1" by linarith
    then show ?thesis using delta sint_difference [OF a, of 1] True
      by (auto simp: transform_def transform_of_def max_bits_def push_bit_eq_mult)
  next
    case False
    have "c = int ?c" using c(1,2) False by linarith
    then obtain k where k: "c = int k" "?c = k" by blast
    have k2: "k \<noteq> 1" "0 < k" "k < 2 ^ 31" using False pos k(2) by simp_all
    have "(of_int (c - 1) :: 32 word) = of_nat (k - 1)" using k2(2) unfolding k(1) by (simp add: of_nat_diff)
    then have hb: "BIT_highbit32 (of_int (c - 1)) = Some (highest_bit (k - 1))" using highbit_of_nat [of "k - 1"] k2 by simp
    have mb: "max_bits l k = l - highest_bit (k - 1)" "highest_bit (k - 1) < l" using k2(1) m(5) k(2) by (simp_all add: max_bits_def)
    have min: "push_bit (max_bits l k) (of_int c) = (of_nat (k * 2 ^ max_bits l k) :: 32 word)"
      unfolding k(1) by (simp add: push_bit_eq_mult)
    have w: "(of_int c :: 32 word) = of_nat k" unfolding k(1) by simp
    have cs: "\<not> c = 0" "\<not> (c = -1 \<or> c = 1)" using k(1) k2 by simp_all
    show ?thesis
      unfolding transform_def if_not_P [OF cs(1)] if_not_P [OF cs(2)] hb k(2) transform_of_def
      using mb min delta sint_difference [OF a k2(3)] unfolding k(2) w by (simp add: Let_def)
  qed
qed

lemma transforms_exact:
  assumes "\<forall>c \<in> set cs. -1 \<le> c \<and> nat \<bar>c\<bar> \<le> 2 ^ l" "0 < l" "l \<le> 12" "a + sum_list (map (\<lambda>c. nat \<bar>c\<bar>) cs) < 2 ^ 31"
  shows "\<exists>tts. transforms l cs (of_nat a) = Some tts \<and> length tts = length cs \<and>
    (\<forall>j < length cs. cs ! j \<noteq> 0 \<longrightarrow> tts ! j = transform_of l (starts a cs ! j) (nat \<bar>cs ! j\<bar>))"
  using assms
proof (induction cs arbitrary: a)
  case Nil
  then show ?case by simp
next
  case (Cons c cs)
  obtain tt where tt: "transform l c (of_nat a) = Some (tt, of_nat (a + nat \<bar>c\<bar>))" "c \<noteq> 0 \<longrightarrow> tt = transform_of l a (nat \<bar>c\<bar>)"
  proof (cases "c = 0")
    case True
    then show ?thesis using that by (simp add: transform_def)
  next
    case False
    then show ?thesis using that transform_exact [OF False, of l a] Cons.prems by simp
  qed
  obtain tts where tts: "transforms l cs (of_nat (a + nat \<bar>c\<bar>)) = Some tts" "length tts = length cs"
    "\<forall>j < length cs. cs ! j \<noteq> 0 \<longrightarrow> tts ! j = transform_of l (starts (a + nat \<bar>c\<bar>) cs ! j) (nat \<bar>cs ! j\<bar>)"
    using Cons.IH [of "a + nat \<bar>c\<bar>"] Cons.prems by auto
  have "(tt # tts) ! j = transform_of l (starts a (c # cs) ! j) (nat \<bar>(c # cs) ! j\<bar>)" if "j < length (c # cs)" "(c # cs) ! j \<noteq> 0" for j
    using that tt(2) tts(3) by (cases j) simp_all
  then show ?case using tt(1) tts(1,2) by (intro exI [of _ "tt # tts"]) simp
qed

section \<open>The whole table\<close>

text \<open>The states of a symbol are its cells in their order.\<close>

definition ctable_exact :: "nat \<Rightarrow> int list \<Rightarrow> nat \<Rightarrow> byte option list \<Rightarrow> FSE_CTable \<Rightarrow> bool" where
  "ctable_exact l counts sv syms ct \<longleftrightarrow> ct_tableLog ct = l \<and>
     (\<forall>s. unat s \<le> sv \<and> counts ! unat s \<noteq> 0 \<longrightarrow> (\<exists>a.
        fetch (ct_symbolTT ct) (unat s) = Some (transform_of l a (nat \<bar>counts ! unat s\<bar>)) \<and>
        (\<forall>k < nat \<bar>counts ! unat s\<bar>. \<exists>i < 2 ^ l. syms ! i = Some s \<and> count_list (take i syms) (Some s) = k \<and>
           fetch (ct_states ct) (a + k) = Some (Some (2 ^ l + i)))))"

lemma ctable_built:
  assumes v: "valid_counts counts sv l" and e: "cells_exact l counts sv syms cells" and wksp: "2 ^ l \<le> wksp"
    and cum: "cumulate 0 (take (sv + 1) counts) 0 (of_nat (2 ^ l - 1)) (replicate wksp None) = Some (starts 0 (take (sv + 1) counts), high, low)"
    and spr: "spread (2 ^ l) high 0 (take (sv + 1) counts) 0 low = Some (0, syms @ ext)"
  shows "\<exists>ct. FSE_buildCTable_wksp counts sv l wksp = Some (Inr ct) \<and> ctable_exact l counts sv syms ct"
proof -
  let ?cs = "take (sv + 1) counts" and ?T = "(2 :: nat) ^ l"
  let ?f = "\<lambda>s :: byte. starts 0 ?cs ! unat s"
  have l: "0 < l" "l \<le> 12" "sv \<le> 255" "sv < length counts" and len: "length ?cs = sv + 1" "length syms = ?T"
    using v e by (simp_all add: valid_counts_def cells_exact_def)
  note T = table_size [OF l(2)]
  have none: "None \<notin> set syms" using e by (fastforce simp: cells_exact_def in_set_conv_nth)
  have sym: "unat s \<le> sv" "counts ! unat s \<noteq> 0" if "Some s \<in> set syms" for s
    using that e by (auto simp: cells_exact_def in_set_conv_nth)
  have cnt: "count_list syms (Some s) = nat \<bar>counts ! unat s\<bar>" if "unat s \<le> sv" for s :: byte
  proof -
    have "unat s < 256" using unsigned_less [of s] by simp
    then have "count_list syms (Some (of_nat (unat s))) = nat \<bar>counts ! unat s\<bar>" using e that unfolding cells_exact_def by auto
    then show ?thesis by simp
  qed
  have fend: "?f s + nat \<bar>counts ! unat s\<bar> \<le> ?T" if "unat s \<le> sv" for s :: byte
    using starts_end [of "unat s" ?cs 0] abs_counts [OF v] that len(1) by simp
  have 1: "\<forall>s. Some s \<in> set syms \<longrightarrow> unat s < length (starts 0 ?cs @ [?T + 1]) \<and> (starts 0 ?cs @ [?T + 1]) ! unat s = ?f s \<and>
      ?f s + count_list syms (Some s) \<le> length (replicate ?T None)"
  proof (intro allI impI)
    fix s assume "Some s \<in> set syms"
    then have "unat s \<le> sv" by (rule sym(1))
    then show "unat s < length (starts 0 ?cs @ [?T + 1]) \<and> (starts 0 ?cs @ [?T + 1]) ! unat s = ?f s \<and>
        ?f s + count_list syms (Some s) \<le> length (replicate ?T None)"
      using cnt fend len(1) by (simp add: nth_append)
  qed
  have 2: "\<forall>s s'. Some s \<in> set syms \<and> Some s' \<in> set syms \<and> s \<noteq> s' \<longrightarrow>
      ?f s + count_list syms (Some s) \<le> ?f s' \<or> ?f s' + count_list syms (Some s') \<le> ?f s"
  proof (intro allI impI)
    fix s s' assume s: "Some s \<in> set syms \<and> Some s' \<in> set syms \<and> s \<noteq> s'"
    then have le: "unat s \<le> sv" "unat s' \<le> sv" using sym by auto
    have "unat s < unat s' \<or> unat s' < unat s" using s by (metis linorder_neqE_nat word_unat_eq_iff)
    then show "?f s + count_list syms (Some s) \<le> ?f s' \<or> ?f s' + count_list syms (Some s') \<le> ?f s"
      using starts_apart [of "unat s" "unat s'" ?cs 0] starts_apart [of "unat s'" "unat s" ?cs 0] le cnt len(1) l(4) by (auto simp: min_def)
  qed
  obtain st where st: "sort_states ?T 0 syms (starts 0 ?cs @ [?T + 1]) (replicate ?T None) = Some st" "length st = ?T"
    "\<forall>i < ?T. \<forall>s. syms ! i = Some s \<longrightarrow> st ! (?f s + count_list (take i syms) (Some s)) = Some (?T + 0 + i)"
    using sort_states_places [OF none _ _ 1 2, of ?T 0] T(1) len(2) by auto
  have small: "\<forall>c \<in> set ?cs. -1 \<le> c \<and> nat \<bar>c\<bar> \<le> 2 ^ l"
    using v counts_bound [OF v] by (auto simp: in_set_conv_nth valid_counts_def)
  obtain tts where tts: "transforms l ?cs (of_nat 0) = Some tts" "length tts = length ?cs"
    "\<forall>j < length ?cs. ?cs ! j \<noteq> 0 \<longrightarrow> tts ! j = transform_of l (starts 0 ?cs ! j) (nat \<bar>?cs ! j\<bar>)"
    using transforms_exact [OF small l(1,2), of 0] abs_counts [OF v] T(1) by auto
  let ?ct = "\<lparr>ct_tableLog = l, ct_maxSymbolValue = sv, ct_states = st, ct_symbolTT = tts\<rparr>"
  have "FSE_buildCTable_wksp counts sv l wksp = Some (Inr ?ct)"
    using l wksp cum spr st(1) tts(1) len(2) by (simp add: FSE_buildCTable_wksp_def FSE_MAX_SYMBOL_VALUE_def Let_def)
  moreover have "ctable_exact l counts sv syms ?ct"
  proof -
    have "\<exists>a. fetch tts (unat s) = Some (transform_of l a (nat \<bar>counts ! unat s\<bar>)) \<and>
        (\<forall>k < nat \<bar>counts ! unat s\<bar>. \<exists>i < ?T. syms ! i = Some s \<and> count_list (take i syms) (Some s) = k \<and> fetch st (a + k) = Some (Some (?T + i)))"
      if s: "unat s \<le> sv" "counts ! unat s \<noteq> 0" for s :: byte
    proof -
      have "fetch tts (unat s) = Some (transform_of l (?f s) (nat \<bar>counts ! unat s\<bar>))"
        using tts(2,3) s len(1) by (simp add: fetch_def)
      moreover have "\<exists>i < ?T. syms ! i = Some s \<and> count_list (take i syms) (Some s) = k \<and> fetch st (?f s + k) = Some (Some (?T + i))"
        if k: "k < nat \<bar>counts ! unat s\<bar>" for k
      proof -
        have "\<exists>!i. i < length syms \<and> syms ! i = Some s \<and> count_list (take i syms) (Some s) = k"
          using cnt [OF s(1)] k by (intro count_position) simp
        then obtain i where i: "i < ?T" "syms ! i = Some s" "count_list (take i syms) (Some s) = k" unfolding len(2) by (auto elim!: ex1E)
        then have "st ! (?f s + k) = Some (?T + i)" using st(3) by auto
        moreover have "?f s + k < length st" using fend [OF s(1)] k st(2) by simp
        ultimately show ?thesis using i by (intro exI [of _ i]) (simp add: fetch_def)
      qed
      ultimately show ?thesis by blast
    qed
    then show ?thesis by (simp add: ctable_exact_def)
  qed
  ultimately show ?thesis by blast
qed

end
