(* ===== verification/Zstd_Encode_Step.thy ===== *)
theory Zstd_Encode_Step
  imports Zstd_Encode_Table
begin

text \<open>
  One symbol: the state that the encoder leaves is the cell from which the decoder gets the symbol, and the bits of that cell with
  those that were written give the state before.
\<close>

section \<open>Both tables\<close>

definition coder :: "nat \<Rightarrow> int list \<Rightarrow> nat \<Rightarrow> FSE_CTable \<Rightarrow> FSE_DTable \<Rightarrow> bool" where
  "coder l counts sv ct dt \<longleftrightarrow> (\<exists>syms cells. valid_counts counts sv l \<and> cells_exact l counts sv syms cells \<and>
     ctable_exact l counts sv syms ct \<and> table_valid dt \<and> dt_tableLog dt = l \<and> dt_cells dt = map Some cells)"

definition occurs :: "int list \<Rightarrow> nat \<Rightarrow> byte \<Rightarrow> bool" where
  "occurs counts sv s \<longleftrightarrow> unat s \<le> sv \<and> counts ! unat s \<noteq> 0"

lemma tables_coder:
  assumes v: "valid_counts counts sv l" and room: "2 ^ l \<le> room" "2 ^ l \<le> wksp"
  shows "\<exists>ct dt. FSE_buildCTable_wksp counts sv l wksp = Some (Inr ct) \<and> FSE_buildDTable room counts sv l = Some (Inr dt) \<and> coder l counts sv ct dt"
proof -
  obtain syms cells fast high low where s: "cells_exact l counts sv syms cells" "table_valid \<lparr>dt_tableLog = l, dt_fastMode = fast, dt_cells = map Some cells\<rparr>"
    "FSE_buildDTable room counts sv l = Some (Inr \<lparr>dt_tableLog = l, dt_fastMode = fast, dt_cells = map Some cells\<rparr>)"
    "cumulate 0 (take (sv + 1) counts) 0 (of_nat (2 ^ l - 1)) (replicate wksp None) = Some (starts 0 (take (sv + 1) counts), high, low)"
    "spread (2 ^ l) high 0 (take (sv + 1) counts) 0 low = Some (0, syms @ replicate (wksp - 2 ^ l) None)"
    using same_symbols [OF v room] by (elim exE conjE) (rule that, assumption+)
  obtain ct where "FSE_buildCTable_wksp counts sv l wksp = Some (Inr ct)" "ctable_exact l counts sv syms ct"
    using ctable_built [OF v s(1) room(2) s(4,5)] by blast
  then show ?thesis using v s(1-3) unfolding coder_def
    by (intro exI [of _ ct] exI [of _ "\<lparr>dt_tableLog = l, dt_fastMode = fast, dt_cells = map Some cells\<rparr>"]) force
qed

lemma coder_symbol:
  assumes "coder l counts sv ct dt" "occurs counts sv s"
  shows "\<exists>a c. 0 < c \<and> c \<le> 2 ^ l \<and> c = nat \<bar>counts ! unat s\<bar> \<and> fetch (ct_symbolTT ct) (unat s) = Some (transform_of l a c) \<and>
    (\<forall>n. c \<le> n \<and> n < 2 * c \<longrightarrow> (\<exists>i < 2 ^ l. fetch (ct_states ct) (a + n - c) = Some (Some (2 ^ l + i)) \<and>
       fetch (dt_cells dt) i = Some (Some (cell_of l s n))))"
proof -
  let ?c = "nat \<bar>counts ! unat s\<bar>"
  obtain syms cells where 1: "valid_counts counts sv l" "cells_exact l counts sv syms cells" "ctable_exact l counts sv syms ct"
    "dt_cells dt = map Some cells"
    using assms(1) by (auto simp: coder_def)
  obtain a where a: "fetch (ct_symbolTT ct) (unat s) = Some (transform_of l a ?c)"
    "\<forall>k < ?c. \<exists>i < 2 ^ l. syms ! i = Some s \<and> count_list (take i syms) (Some s) = k \<and> fetch (ct_states ct) (a + k) = Some (Some (2 ^ l + i))"
    using 1(3) assms(2) unfolding ctable_exact_def occurs_def by blast
  have "\<exists>i < 2 ^ l. fetch (ct_states ct) (a + n - ?c) = Some (Some (2 ^ l + i)) \<and> fetch (dt_cells dt) i = Some (Some (cell_of l s n))"
    if n: "?c \<le> n \<and> n < 2 * ?c" for n
  proof -
    have k: "n - ?c < ?c" "a + (n - ?c) = a + n - ?c" "?c + (n - ?c) = n" using n by linarith+
    obtain i where i: "i < 2 ^ l" "syms ! i = Some s" "count_list (take i syms) (Some s) = n - ?c" "fetch (ct_states ct) (a + n - ?c) = Some (Some (2 ^ l + i))"
      using a(2) k by metis
    have "cells ! i = cell_of l s n" "length cells = 2 ^ l" using 1(2) i(1-3) k(3) unfolding cells_exact_def by force+
    then show ?thesis using i 1(4) by (intro exI [of _ i]) (simp add: fetch_def)
  qed
  then show ?thesis using a(1) counts_bound [OF 1(1), of "unat s"] assms(2) by (intro exI [of _ a] exI [of _ ?c]) (simp add: occurs_def)
qed

lemma next_state_place:
  assumes "fetch (ct_states ct) (a + n - c) = Some (Some w)" "c \<le> n" "v div 2 ^ nb = n"
  shows "next_state ct (transform_of l a c) v nb = Some w"
proof -
  have "int n + (int a - int c) = int (a + n - c)" using assms(2) by simp
  then have "nat (int n + (int a - int c)) = a + n - c" "\<not> int n + (int a - int c) < 0" by linarith+
  then show ?thesis using assms by (simp add: next_state_def transform_of_def Let_def del: of_nat_div)
qed

text \<open>The number of bits that a symbol takes in a state, and the state of the encoder without them.\<close>

lemma bits_of_state:
  assumes c: "0 < c" "c \<le> 2 ^ l" "0 < l" "l \<le> 12" and v: "2 ^ l \<le> v" "v < 2 * 2 ^ l"
  shows "\<exists>nb \<le> l. (v + unat (deltaNbBits (transform_of l a c))) div 2 ^ 16 mod 2 ^ 32 = nb \<and> c \<le> v div 2 ^ nb \<and> v div 2 ^ nb < 2 * c \<and>
    highest_bit (v div 2 ^ nb) = l - nb"
proof -
  let ?mb = "max_bits l c" and ?M = "c * 2 ^ max_bits l c"
  note m = max_bits_bounds [OF c(1-3)] and d = unat_deltaNbBits [OF c]
  have v13: "v < 2 ^ 13" using v(2) table_size(1) [OF c(4)] by simp
  have p: "(2 :: nat) ^ ?mb = 2 * 2 ^ (?mb - 1)" using m(1) by (cases "?mb") simp_all
  have hb: "highest_bit (v div 2 ^ nb) = l - nb" if "nb \<le> l" for nb
  proof (rule highest_bit_unique)
    have p: "(2 :: nat) ^ l = 2 ^ (l - nb) * 2 ^ nb" using that by (simp flip: power_add)
    show "2 ^ (l - nb) \<le> v div 2 ^ nb" using v(1) p by (simp add: less_eq_div_iff_mult_less_eq)
    show "v div 2 ^ nb < 2 ^ Suc (l - nb)" using v(2) p by (simp add: less_mult_imp_div_less)
  qed
  show ?thesis
  proof (cases "?M \<le> v")
    case True
    have "v + (?mb * 2 ^ 16 - ?M) = ?mb * 2 ^ 16 + (v - ?M)" "v - ?M < 2 ^ 16" using True d(2,3) v13 by simp_all
    then have "(v + unat (deltaNbBits (transform_of l a c))) div 2 ^ 16 = ?mb" unfolding d(1) by simp
    moreover have "c \<le> v div 2 ^ ?mb" using True by (simp add: less_eq_div_iff_mult_less_eq)
    moreover have "v < (2 * c) * 2 ^ ?mb" using v(2) m(3) by simp
    then have "v div 2 ^ ?mb < 2 * c" by (rule less_mult_imp_div_less)
    ultimately show ?thesis using hb [OF m(2)] m(2) d(4) by (intro exI [of _ ?mb]) simp
  next
    case False
    let ?nb = "?mb - 1"
    obtain k where k: "?mb = Suc k" using m(1) by (cases "?mb") simp_all
    have "v + (?mb * 2 ^ 16 - ?M) = k * 2 ^ 16 + (2 ^ 16 + v - ?M)" "2 ^ 16 + v - ?M < 2 ^ 16"
      using False d(2) k by simp_all
    then have "(v + unat (deltaNbBits (transform_of l a c))) div 2 ^ 16 = k" unfolding d(1) by simp
    moreover have "c * 2 ^ k \<le> v" using v(1) m(4) k by simp
    then have "c \<le> v div 2 ^ k" by (simp add: less_eq_div_iff_mult_less_eq)
    moreover have "v < (2 * c) * 2 ^ k" using False k by simp
    then have "v div 2 ^ k < 2 * c" by (rule less_mult_imp_div_less)
    moreover have "k \<le> l" "k < 2 ^ 32" using m(2) d(4) k by simp_all
    ultimately show ?thesis using hb [of k] by (intro exI [of _ k]) simp
  qed
qed

lemma coder_size: "coder l counts sv ct dt \<Longrightarrow> 0 < l \<and> l \<le> 12 \<and> ct_tableLog ct = l \<and> dt_tableLog dt = l \<and> table_valid dt"
  by (auto simp: coder_def valid_counts_def ctable_exact_def)

lemma encode_step:
  assumes co: "coder l counts sv ct dt" and s: "occurs counts sv s" and v: "2 ^ l \<le> v" "v < 2 * 2 ^ l"
  shows "\<exists>i cell tt. i < 2 ^ l \<and> fetch (dt_cells dt) i = Some (Some cell) \<and> symbol cell = s \<and> cellBits cell \<le> l \<and>
    newState cell + v mod 2 ^ cellBits cell = v - 2 ^ l \<and> fetch (ct_symbolTT ct) (unat s) = Some tt \<and>
    (v + unat (deltaNbBits tt)) div 2 ^ 16 mod 2 ^ 32 = cellBits cell \<and> next_state ct tt v (cellBits cell) = Some (2 ^ l + i)"
proof -
  have l: "0 < l" "l \<le> 12" using coder_size [OF co] by simp_all
  obtain a c where c: "0 < c" "c \<le> 2 ^ l" "fetch (ct_symbolTT ct) (unat s) = Some (transform_of l a c)"
    "\<forall>n. c \<le> n \<and> n < 2 * c \<longrightarrow> (\<exists>i < 2 ^ l. fetch (ct_states ct) (a + n - c) = Some (Some (2 ^ l + i)) \<and> fetch (dt_cells dt) i = Some (Some (cell_of l s n)))"
    using coder_symbol [OF co s] by blast
  obtain nb where nb: "nb \<le> l" "(v + unat (deltaNbBits (transform_of l a c))) div 2 ^ 16 mod 2 ^ 32 = nb" "c \<le> v div 2 ^ nb" "v div 2 ^ nb < 2 * c"
    "highest_bit (v div 2 ^ nb) = l - nb"
    using bits_of_state [OF c(1,2) l v] by blast
  obtain i where i: "i < 2 ^ l" "fetch (ct_states ct) (a + v div 2 ^ nb - c) = Some (Some (2 ^ l + i))"
    "fetch (dt_cells dt) i = Some (Some (cell_of l s (v div 2 ^ nb)))" using c(4) nb(3,4) by blast
  have b: "cellBits (cell_of l s (v div 2 ^ nb)) = nb" "newState (cell_of l s (v div 2 ^ nb)) = v div 2 ^ nb * 2 ^ nb - 2 ^ l"
    using nb(1,5) by (simp_all add: cell_of_def)
  have "2 ^ l \<le> v div 2 ^ nb * 2 ^ nb"
  proof -
    have "(2 :: nat) ^ l = 2 ^ (l - nb) * 2 ^ nb" using nb(1) by (simp flip: power_add)
    then have "2 ^ (l - nb) \<le> v div 2 ^ nb" using v(1) by (simp add: less_eq_div_iff_mult_less_eq)
    then show ?thesis unfolding \<open>2 ^ l = 2 ^ (l - nb) * 2 ^ nb\<close> by (rule mult_le_mono1)
  qed
  moreover have "v div 2 ^ nb * 2 ^ nb + v mod 2 ^ nb = v" by (rule div_mult_mod_eq)
  ultimately have "newState (cell_of l s (v div 2 ^ nb)) + v mod 2 ^ nb = v - 2 ^ l" unfolding b(2) by linarith
  then show ?thesis using i(1,3) nb(1,2) c(3) next_state_place [OF i(2) nb(3) refl] unfolding b(1)
    by (intro exI [of _ i] exI [of _ "cell_of l s (v div 2 ^ nb)"] exI [of _ "transform_of l a c"]) (simp add: nb(5) cell_of_def)
qed

lemma init_step:
  assumes co: "coder l counts sv ct dt" and s: "occurs counts sv s"
  shows "\<exists>i cell. i < 2 ^ l \<and> fetch (dt_cells dt) i = Some (Some cell) \<and> symbol cell = s \<and> FSE_initCState2 ct s = Some (2 ^ l + i) \<and>
    (nat \<bar>counts ! unat s\<bar> < 2 ^ l \<longrightarrow> 1 \<le> cellBits cell)"
proof -
  have l: "0 < l" "l \<le> 12" using coder_size [OF co] by simp_all
  obtain a c where c: "0 < c" "c \<le> 2 ^ l" "c = nat \<bar>counts ! unat s\<bar>" "fetch (ct_symbolTT ct) (unat s) = Some (transform_of l a c)"
    "\<forall>n. c \<le> n \<and> n < 2 * c \<longrightarrow> (\<exists>i < 2 ^ l. fetch (ct_states ct) (a + n - c) = Some (Some (2 ^ l + i)) \<and> fetch (dt_cells dt) i = Some (Some (cell_of l s n)))"
    using coder_symbol [OF co s] by blast
  let ?mb = "max_bits l c" and ?d = "deltaNbBits (transform_of l a c)"
  note d = unat_deltaNbBits [OF c(1,2) l]
  have sum: "unat (?d + 2 ^ 15) = ?mb * 2 ^ 16 + (2 ^ 15 - c * 2 ^ ?mb)" "2 ^ 15 - c * 2 ^ ?mb < 2 ^ (16 :: nat)"
  proof -
    have "unat ?d + unat (2 ^ 15 :: 32 word) < 2 ^ 32" using d by simp
    then have "unat (?d + 2 ^ 15) = unat ?d + 2 ^ 15" by (simp add: unat_word_ariths)
    then show "unat (?d + 2 ^ 15) = ?mb * 2 ^ 16 + (2 ^ 15 - c * 2 ^ ?mb)" using d(2,3) unfolding d(1) by simp
  qed simp
  have "unat (drop_bit 16 (?d + 2 ^ 15)) = drop_bit 16 (unat (?d + 2 ^ 15))" by (rule unat_drop_bit_eq)
  also have "\<dots> = ?mb" unfolding sum(1) drop_bit_eq_div using sum(2) by simp
  finally have nb: "unat (drop_bit 16 (?d + 2 ^ 15)) = ?mb" .
  have "(push_bit 16 (of_nat ?mb) :: 32 word) - ?d = of_nat (c * 2 ^ ?mb)"
  proof -
    have "c * 2 ^ ?mb \<le> ?mb * 2 ^ 16" using d(2,3) by simp
    then show ?thesis by (simp add: transform_of_def push_bit_eq_mult of_nat_diff)
  qed
  moreover have "unat (of_nat (c * 2 ^ ?mb) :: 32 word) = c * 2 ^ ?mb"
  proof -
    have "c * 2 ^ ?mb < 2 ^ 32" using d(2) by simp
    then show ?thesis by (simp only: unsigned_of_nat) (simp add: take_bit_nat_eq_self)
  qed
  ultimately have v: "unat (push_bit 16 (of_nat ?mb) - ?d) div 2 ^ ?mb = c" by simp
  obtain i where i: "i < 2 ^ l" "fetch (ct_states ct) (a + c - c) = Some (Some (2 ^ l + i))" "fetch (dt_cells dt) i = Some (Some (cell_of l s c))"
    using c(1,5) by force
  have "FSE_initCState2 ct s = Some (2 ^ l + i)"
    unfolding FSE_initCState2_def c(4) Option.bind_lunit Let_def nb by (rule next_state_place [OF i(2) order_refl v])
  moreover have "1 \<le> cellBits (cell_of l s c)" if "c < 2 ^ l"
  proof -
    have "2 ^ highest_bit c < (2 :: nat) ^ l" using highest_bit_bounds [OF c(1)] that by linarith
    then have "highest_bit c < l" by (rule power_less_imp_less_exp [rotated]) simp
    then show ?thesis by (simp add: cell_of_def)
  qed
  ultimately show ?thesis using i(1,3) c(3) by (intro exI [of _ i] exI [of _ "cell_of l s c"]) (simp add: cell_of_def)
qed

end
