(* ===== verification/Zstd_Encode_Spec.thy ===== *)
theory Zstd_Encode_Spec
  imports Zstd_Encode_Step
begin

text \<open>
  What the encoder leaves: a stack of fields from which the decoding table gets the source, and the two states.
\<close>

section \<open>What a stack of fields decodes to\<close>

text \<open>
  \<open>x\<close> is the cell of the next symbol and \<open>y\<close> the cell of the symbol after it. The last two symbols are those of the cells, and a
  reader that wants bits for the first of them finds the stream used up.
\<close>

fun decodes :: "FSE_DTable \<Rightarrow> nat \<Rightarrow> nat \<Rightarrow> field list \<Rightarrow> bytes \<Rightarrow> bool" where
  "decodes dt x y [] out \<longleftrightarrow> (\<exists>cx cy. fetch (dt_cells dt) x = Some (Some cx) \<and> fetch (dt_cells dt) y = Some (Some cy) \<and>
     1 \<le> cellBits cx \<and> out = [symbol cx, symbol cy])"
| "decodes dt x y (f # fs) out \<longleftrightarrow> (\<exists>cx out'. fetch (dt_cells dt) x = Some (Some cx) \<and> snd f = cellBits cx \<and>
     out = symbol cx # out' \<and> decodes dt y (newState cx + field_value f) fs out')"

lemma decodes_length: "decodes dt x y fs out \<Longrightarrow> length out = length fs + 2"
  by (induction dt x y fs out rule: decodes.induct) auto

section \<open>One symbol\<close>

lemma symbol_encoded:
  assumes co: "coder l counts sv ct dt" and s: "occurs counts sv s" and h: "holds cap n fs c" "n + 12 < 64"
    and d: "decodes dt x y fs out" "y < 2 ^ l"
  shows "\<exists>i f c'. FSE_encodeSymbol ct c (2 ^ l + y) s = Some (2 ^ l + i, c') \<and> i < 2 ^ l \<and> snd f \<le> 12 \<and>
    holds cap (n + snd f) (f # fs) c' \<and> decodes dt i x (f # fs) (s # out)"
proof -
  have l: "0 < l" "l \<le> 12" using coder_size [OF co] by simp_all
  have v: "2 ^ l \<le> 2 ^ l + y" "2 ^ l + y < 2 * 2 ^ l" using d(2) by simp_all
  obtain i cell tt where i: "i < 2 ^ l" "fetch (dt_cells dt) i = Some (Some cell)" "symbol cell = s" "cellBits cell \<le> l"
    "newState cell + (2 ^ l + y) mod 2 ^ cellBits cell = 2 ^ l + y - 2 ^ l" "fetch (ct_symbolTT ct) (unat s) = Some tt"
    "(2 ^ l + y + unat (deltaNbBits tt)) div 2 ^ 16 mod 2 ^ 32 = cellBits cell" "next_state ct tt (2 ^ l + y) (cellBits cell) = Some (2 ^ l + i)"
    using encode_step [OF co s v] by (elim exE conjE) (rule that, assumption+)
  let ?f = "(of_nat (2 ^ l + y) :: 64 word, cellBits cell)"
  have "2 ^ l + y < 2 ^ 64" using d(2) table_size(1) [OF l(2)] by simp
  then have "unat (of_nat (2 ^ l + y) :: 64 word) = 2 ^ l + y" by (simp only: unsigned_of_nat) (simp add: take_bit_nat_eq_self)
  then have fv: "field_value ?f = (2 ^ l + y) mod 2 ^ cellBits cell" by (simp add: field_value_def take_bit_eq_mod)
  have m: "cellBits cell < 32" "n + cellBits cell < 64" using i(4) l(2) h(2) by simp_all
  obtain c' where c': "BIT_addBits (of_nat (2 ^ l + y)) (cellBits cell) c = Some c'" "holds cap (n + cellBits cell) (?f # fs) c'"
    using holds_add [OF h(1) m] by blast
  have "FSE_encodeSymbol ct c (2 ^ l + y) s = Some (2 ^ l + i, c')"
    unfolding FSE_encodeSymbol_def i(6) Option.bind_lunit Let_def i(7) c'(1) i(8) by simp
  moreover have "newState cell + field_value ?f = y" using i(5) unfolding fv by simp
  then have "decodes dt i x (?f # fs) (s # out)" using i(2,3) d(1) by simp
  ultimately show ?thesis using i(1,4) l(2) c'(2) by (intro exI [of _ i] exI [of _ ?f] exI [of _ c']) simp
qed

text \<open>The invariant, when the symbol encoded last is that of the first or of the second state.\<close>

definition last_first :: "nat \<Rightarrow> nat \<Rightarrow> FSE_DTable \<Rightarrow> nat \<Rightarrow> bytes \<Rightarrow> field list \<Rightarrow> fse_enc \<Rightarrow> bool" where
  "last_first l cap dt b out fs e \<longleftrightarrow> (\<exists>n x y. n \<le> b \<and> x < 2 ^ l \<and> y < 2 ^ l \<and> holds cap n fs (en_bits e) \<and>
     en_state1 e = 2 ^ l + x \<and> en_state2 e = 2 ^ l + y \<and> decodes dt x y fs out \<and> bits fs \<le> 12 * length fs)"

definition last_second :: "nat \<Rightarrow> nat \<Rightarrow> FSE_DTable \<Rightarrow> nat \<Rightarrow> bytes \<Rightarrow> field list \<Rightarrow> fse_enc \<Rightarrow> bool" where
  "last_second l cap dt b out fs e \<longleftrightarrow> (\<exists>n x y. n \<le> b \<and> x < 2 ^ l \<and> y < 2 ^ l \<and> holds cap n fs (en_bits e) \<and>
     en_state2 e = 2 ^ l + x \<and> en_state1 e = 2 ^ l + y \<and> decodes dt x y fs out \<and> bits fs \<le> 12 * length fs)"

lemma second_encoded:
  assumes co: "coder l counts sv ct dt" and s: "occurs counts sv s" and e: "last_first l cap dt b out fs e" "b + 12 < 64"
  shows "\<exists>e' f. encode_second ct s e = Some e' \<and> last_second l cap dt (b + 12) (s # out) (f # fs) e'"
proof -
  obtain n x y where h: "n \<le> b" "x < 2 ^ l" "y < 2 ^ l" "holds cap n fs (en_bits e)" "en_state1 e = 2 ^ l + x" "en_state2 e = 2 ^ l + y"
    "decodes dt x y fs out" "bits fs \<le> 12 * length fs"
    using e(1) unfolding last_first_def by blast
  have "n + 12 < 64" using h(1) e(2) by simp
  then obtain i f c' where c': "FSE_encodeSymbol ct (en_bits e) (2 ^ l + y) s = Some (2 ^ l + i, c')" "i < 2 ^ l" "snd f \<le> 12"
    "holds cap (n + snd f) (f # fs) c'" "decodes dt i x (f # fs) (s # out)"
    using symbol_encoded [OF co s h(4) _ h(7,3)] by blast
  let ?e = "e\<lparr>en_bits := c', en_state2 := 2 ^ l + i\<rparr>"
  have "encode_second ct s e = Some ?e" unfolding encode_second_def h(6) c'(1) by simp
  moreover have "last_second l cap dt (b + 12) (s # out) (f # fs) ?e"
    unfolding last_second_def using h(1,2,5,8) c'(2-5) by (intro exI [of _ "n + snd f"] exI [of _ i] exI [of _ x]) simp
  ultimately show ?thesis by blast
qed

lemma first_encoded:
  assumes co: "coder l counts sv ct dt" and s: "occurs counts sv s" and e: "last_second l cap dt b out fs e" "b + 12 < 64"
  shows "\<exists>e' f. encode_first ct s e = Some e' \<and> last_first l cap dt (b + 12) (s # out) (f # fs) e'"
proof -
  obtain n x y where h: "n \<le> b" "x < 2 ^ l" "y < 2 ^ l" "holds cap n fs (en_bits e)" "en_state2 e = 2 ^ l + x" "en_state1 e = 2 ^ l + y"
    "decodes dt x y fs out" "bits fs \<le> 12 * length fs"
    using e(1) unfolding last_second_def by blast
  have "n + 12 < 64" using h(1) e(2) by simp
  then obtain i f c' where c': "FSE_encodeSymbol ct (en_bits e) (2 ^ l + y) s = Some (2 ^ l + i, c')" "i < 2 ^ l" "snd f \<le> 12"
    "holds cap (n + snd f) (f # fs) c'" "decodes dt i x (f # fs) (s # out)"
    using symbol_encoded [OF co s h(4) _ h(7,3)] by blast
  let ?e = "e\<lparr>en_bits := c', en_state1 := 2 ^ l + i\<rparr>"
  have "encode_first ct s e = Some ?e" unfolding encode_first_def h(6) c'(1) by simp
  moreover have "last_first l cap dt (b + 12) (s # out) (f # fs) ?e"
    unfolding last_first_def using h(1,2,5,8) c'(2-5) by (intro exI [of _ "n + snd f"] exI [of _ i] exI [of _ x]) simp
  ultimately show ?thesis by blast
qed

section \<open>Flushing\<close>

text \<open>With room for all bits the fast flush is the one with the test.\<close>

definition roomy :: "bool \<Rightarrow> nat \<Rightarrow> nat \<Rightarrow> bool" where
  "roomy fast cap n \<longleftrightarrow> (fast \<longrightarrow> 12 * n < 8 * (cap - 8))"

lemma roomy_less: "roomy fast cap n \<Longrightarrow> m \<le> n \<Longrightarrow> roomy fast cap m"
  by (auto simp: roomy_def)

lemma flush_fast:
  assumes h: "holds cap n fs c" and b: "bits fs < 8 * (cap - 8)"
  shows "BIT_flushBitsFast c = BIT_flushBits c"
proof -
  have lt: "cs_ptr c < cs_endPtr c" using h b by (auto simp: holds_def)
  then have "8 * cs_ptr c + n < 8 * cs_endPtr c" using h b by (auto simp: holds_def)
  then have "cs_ptr c + n div 8 \<le> cs_endPtr c" by linarith
  then show ?thesis using h by (simp add: BIT_flushBitsFast_def BIT_flushBits_def flush_to_def holds_def eighths)
qed

lemma flushed:
  assumes e: "last_first l cap dt b out fs e" "b < 64" and r: "roomy fast cap (length fs)"
  shows "\<exists>e'. FSE_FLUSHBITS fast e = Some e' \<and> last_first l cap dt 7 out fs e'"
proof -
  obtain n x y where h: "n \<le> b" "x < 2 ^ l" "y < 2 ^ l" "holds cap n fs (en_bits e)" "en_state1 e = 2 ^ l + x" "en_state2 e = 2 ^ l + y"
    "decodes dt x y fs out" "bits fs \<le> 12 * length fs"
    using e(1) unfolding last_first_def by blast
  have "n < 64" using h(1) e(2) by simp
  then obtain c' where c': "BIT_flushBits (en_bits e) = Some c'" "holds cap (n mod 8) fs c'" using flush_holds [OF h(4)] by blast
  have "(if fast then BIT_flushBitsFast (en_bits e) else BIT_flushBits (en_bits e)) = Some c'"
    using flush_fast [OF h(4)] r h(8) c'(1) by (auto simp: roomy_def)
  then have "FSE_FLUSHBITS fast e = Some (e\<lparr>en_bits := c'\<rparr>)" unfolding FSE_FLUSHBITS_def by simp
  moreover have "n mod 8 \<le> 7" by simp
  then have "last_first l cap dt 7 out fs (e\<lparr>en_bits := c'\<rparr>)" unfolding last_first_def using h(2,3,5-8) c'(2)
    by (intro exI [of _ "n mod 8"] exI [of _ x] exI [of _ y]) simp
  ultimately show ?thesis by blast
qed

section \<open>The loop\<close>

lemma length_fields: "last_first l cap dt b out fs e \<Longrightarrow> length out = length fs + 2"
  unfolding last_first_def by (blast dest: decodes_length)

lemma two_encoded:
  assumes co: "coder l counts sv ct dt" and s: "occurs counts sv s" "occurs counts sv t"
    and e: "last_first l cap dt b out fs e" "b + 24 < 64"
  shows "\<exists>e1 e2 fs'. encode_second ct s e = Some e1 \<and> encode_first ct t e1 = Some e2 \<and> last_first l cap dt (b + 24) (t # s # out) fs' e2"
proof -
  have b: "b + 12 < 64" "b + 12 + 12 < 64" using e(2) by simp_all
  obtain e1 f where e1: "encode_second ct s e = Some e1" "last_second l cap dt (b + 12) (s # out) (f # fs) e1"
    using second_encoded [OF co s(1) e(1) b(1)] by blast
  obtain e2 g where "encode_first ct t e1 = Some e2" "last_first l cap dt (b + 12 + 12) (t # s # out) (g # f # fs) e2"
    using first_encoded [OF co s(2) e1(2) b(2)] by blast
  moreover have "b + 12 + 12 = b + 24" by simp
  ultimately show ?thesis using e1(1) by metis
qed

lemma loop_encoded:
  assumes "coder l counts sv ct dt" "\<forall>s \<in> set left. occurs counts sv s" "4 dvd length left" "roomy fast cap (length left + length out)"
    and "last_first l cap dt 7 out fs e"
  shows "\<exists>e' fs'. encode_loop fast ct left e = Some e' \<and> last_first l cap dt 7 (rev left @ out) fs' e'"
  using assms
proof (induction fast ct left e arbitrary: out fs rule: encode_loop.induct)
  case (1 fast ct e)
  then show ?case by auto
next
  case (2 fast ct a b c d left e)
  obtain e1 e2 fs2 where e2: "encode_second ct a e = Some e1" "encode_first ct b e1 = Some e2" "last_first l cap dt 31 (b # a # out) fs2 e2"
    using two_encoded [OF "2.prems"(1) _ _ "2.prems"(5), of a b] "2.prems"(2) by auto
  obtain e3 e4 fs4 where e4: "encode_second ct c e2 = Some e3" "encode_first ct d e3 = Some e4" "last_first l cap dt 55 (d # c # b # a # out) fs4 e4"
    using two_encoded [OF "2.prems"(1) _ _ e2(3), of c d] "2.prems"(2) by auto
  have "length fs4 \<le> length (a # b # c # d # left) + length out" using length_fields [OF e4(3)] by simp
  then obtain e5 where e5: "FSE_FLUSHBITS fast e4 = Some e5" "last_first l cap dt 7 (d # c # b # a # out) fs4 e5"
    using flushed [OF e4(3), of fast] roomy_less [OF "2.prems"(4)] by auto
  have "4 dvd length left + 4" using "2.prems"(3) by (simp add: numeral_eq_Suc)
  then have left: "4 dvd length left" "roomy fast cap (length left + length (d # c # b # a # out))"
    using "2.prems"(4) by (simp_all add: dvd_add_left_iff)
  have occ: "\<forall>s \<in> set left. occurs counts sv s" using "2.prems"(2) by simp
  obtain e6 fs6 where "encode_loop fast ct left e5 = Some e6" "last_first l cap dt 7 (rev left @ d # c # b # a # out) fs6 e6"
    using "2.IH" [OF e2(1) e2(2) e4(1) e4(2) e5(1) "2.prems"(1) occ left e5(2)] by blast
  then show ?case using e2(1,2) e4(1,2) e5(1) by auto
qed (auto dest: dvd_imp_le)

section \<open>The whole stream\<close>

definition scarce :: "nat \<Rightarrow> int list \<Rightarrow> nat \<Rightarrow> byte \<Rightarrow> bool" where
  "scarce l counts sv s \<longleftrightarrow> occurs counts sv s \<and> nat \<bar>counts ! unat s\<bar> < 2 ^ l"

lemma two_started:
  assumes co: "coder l counts sv ct dt" and s: "scarce l counts sv a" "scarce l counts sv b"
  shows "\<exists>x y. x < 2 ^ l \<and> y < 2 ^ l \<and> FSE_initCState2 ct b = Some (2 ^ l + x) \<and> FSE_initCState2 ct a = Some (2 ^ l + y) \<and> decodes dt x y [] [b, a]"
proof -
  have o: "occurs counts sv a" "occurs counts sv b" using s by (simp_all add: scarce_def)
  obtain x cx where x: "x < 2 ^ l" "fetch (dt_cells dt) x = Some (Some cx)" "symbol cx = b" "FSE_initCState2 ct b = Some (2 ^ l + x)" "1 \<le> cellBits cx"
    using init_step [OF co o(2)] s(2) by (auto simp: scarce_def)
  obtain y cy where "y < 2 ^ l" "fetch (dt_cells dt) y = Some (Some cy)" "symbol cy = a" "FSE_initCState2 ct a = Some (2 ^ l + y)"
    using init_step [OF co o(1)] by blast
  then show ?thesis using x by (intro exI [of _ x] exI [of _ y]) simp
qed

lemma start_encoded:
  assumes co: "coder l counts sv ct dt" and s: "\<forall>s \<in> set left. scarce l counts sv s" "2 < length left"
    and h: "holds cap 0 [] c" and r: "roomy fast cap (length left)"
  shows "\<exists>left' e out fs. encode_start fast ct left c = Some (left', e) \<and> rev left' @ out = rev left \<and>
    length left' = length left - 2 - (length left - 2) mod 2 \<and> last_first l cap dt 7 out fs e"
proof -
  obtain a b s0 left0 where left: "left = a # b # s0 # left0"
    using s(2) by (cases left; cases "tl left"; cases "tl (tl left)") auto
  obtain x y where xy: "x < 2 ^ l" "y < 2 ^ l" "FSE_initCState2 ct b = Some (2 ^ l + x)" "FSE_initCState2 ct a = Some (2 ^ l + y)" "decodes dt x y [] [b, a]"
    using two_started [OF co, of a b] s(1) left by auto
  show ?thesis
  proof (cases "odd (length (s0 # left0))")
    case True
    let ?e = "\<lparr>en_bits = c, en_state1 = 2 ^ l + y, en_state2 = 2 ^ l + x\<rparr>"
    have "last_second l cap dt 0 [b, a] [] ?e"
      unfolding last_second_def using h xy(1,2,5) by (intro exI [of _ 0] exI [of _ x] exI [of _ y]) simp
    moreover have "occurs counts sv s0" using s(1) left by (simp add: scarce_def)
    ultimately obtain e1 f where e1: "encode_first ct s0 ?e = Some e1" "last_first l cap dt 12 [s0, b, a] [f] e1"
      using first_encoded [OF co, of s0 cap 0 "[b, a]" "[]" ?e] by auto
    obtain e2 where e2: "FSE_FLUSHBITS fast e1 = Some e2" "last_first l cap dt 7 [s0, b, a] [f] e2"
      using flushed [OF e1(2), of fast] roomy_less [OF r, of 1] left by auto
    have "encode_start fast ct left c = Some (left0, e2)" using True left xy(3,4) e1(1) e2(1) by (simp add: encode_start_def)
    moreover have "(length left - 2) mod 2 = 1" using True left by (simp add: mod_2_eq_odd)
    ultimately show ?thesis using e2(2) left by (intro exI [of _ left0] exI [of _ e2] exI [of _ "[s0, b, a]"] exI [of _ "[f]"]) simp
  next
    case False
    let ?e = "\<lparr>en_bits = c, en_state1 = 2 ^ l + x, en_state2 = 2 ^ l + y\<rparr>"
    have "last_first l cap dt 7 [b, a] [] ?e"
      unfolding last_first_def using h xy(1,2,5) by (intro exI [of _ 0] exI [of _ x] exI [of _ y]) simp
    moreover have "encode_start fast ct left c = Some (s0 # left0, ?e)" using False left xy(3,4) by (simp add: encode_start_def)
    moreover have "(length left - 2) mod 2 = 0" using False left by (simp add: even_iff_mod_2_eq_zero)
    ultimately show ?thesis using left by (intro exI [of _ "s0 # left0"] exI [of _ ?e] exI [of _ "[b, a]"] exI [of _ "[]"]) simp
  qed
qed

lemma bit_one: "bit (n :: nat) (Suc 0) \<longleftrightarrow> odd (n div 2)"
  by (simp add: bit_iff_odd)

lemma join_encoded:
  assumes co: "coder l counts sv ct dt" and s: "\<forall>s \<in> set left. occurs counts sv s" "length left = m - m mod 2"
    and r: "roomy fast cap (length left + length out)" and e: "last_first l cap dt 7 out fs e"
  shows "\<exists>left' e' out' fs'. encode_join fast ct m left e = Some (left', e') \<and> rev left' @ out' = rev left @ out \<and>
    4 dvd length left' \<and> last_first l cap dt 7 out' fs' e' \<and> set left' \<subseteq> set left"
proof (cases "odd (m div 2)")
  case True
  have len: "length left = 2 * (m div 2)" using s(2) by (simp add: minus_mod_eq_mult_div)
  then obtain a b left' where left: "left = a # b # left'" using True by (cases left rule: remdups_adj.cases) auto
  obtain e1 e2 fs2 where e2: "encode_second ct a e = Some e1" "encode_first ct b e1 = Some e2" "last_first l cap dt 31 (b # a # out) fs2 e2"
    using two_encoded [OF co _ _ e, of a b] s(1) left by auto
  have "length fs2 \<le> length left + length out" using length_fields [OF e2(3)] left by simp
  then obtain e3 where e3: "FSE_FLUSHBITS fast e2 = Some e3" "last_first l cap dt 7 (b # a # out) fs2 e3"
    using flushed [OF e2(3), of fast] roomy_less [OF r] by auto
  obtain k where "m div 2 = 2 * k + 1" using True by (auto elim: oddE)
  then have "4 dvd length left'" using len left by simp
  moreover have "encode_join fast ct m left e = Some (left', e3)"
    using True left e2(1,2) e3(1) by (simp add: encode_join_def bit_one)
  ultimately show ?thesis using e3(2) left
    by (intro exI [of _ left'] exI [of _ e3] exI [of _ "b # a # out"] exI [of _ fs2]) auto
next
  case False
  have len: "length left = 2 * (m div 2)" using s(2) by (simp add: minus_mod_eq_mult_div)
  obtain k where "m div 2 = 2 * k" using False by (auto elim: evenE)
  then have "4 dvd length left" using len by simp
  moreover have "encode_join fast ct m left e = Some (left, e)" using False by (simp add: encode_join_def bit_one)
  ultimately show ?thesis using e by blast
qed

lemma state_flushed:
  assumes h: "holds cap n fs c" "n \<le> 7" and x: "x < 2 ^ l" "l \<le> 12" and ct: "ct_tableLog ct = l"
  shows "\<exists>c' n' v. FSE_flushCState ct c (2 ^ l + x) = Some c' \<and> n' \<le> 7 \<and> holds cap n' ((v, l) # fs) c' \<and> field_value (v, l) = x"
proof -
  have m: "l < 32" "n + l < 64" using x(2) h(2) by simp_all
  obtain c1 where c1: "BIT_addBits (of_nat (2 ^ l + x)) l c = Some c1" "holds cap (n + l) ((of_nat (2 ^ l + x), l) # fs) c1"
    using holds_add [OF h(1) m] by blast
  obtain c2 where c2: "BIT_flushBits c1 = Some c2" "holds cap ((n + l) mod 8) ((of_nat (2 ^ l + x), l) # fs) c2"
    using flush_holds [OF c1(2) m(2)] by blast
  have "2 ^ l + x < 2 ^ 64" using x table_size(1) [OF x(2)] by simp
  then have "unat (of_nat (2 ^ l + x) :: 64 word) = 2 ^ l + x" by (simp only: unsigned_of_nat) (simp add: take_bit_nat_eq_self)
  then have "field_value (of_nat (2 ^ l + x), l) = x" using x(1) by (simp add: field_value_def take_bit_eq_mod)
  moreover have "FSE_flushCState ct c (2 ^ l + x) = Some c2" unfolding FSE_flushCState_def ct c1(1) by (simp add: c2(1))
  moreover have "(n + l) mod 8 \<le> 7" by simp
  ultimately show ?thesis using c2(2) by blast
qed

definition finished :: "nat \<Rightarrow> nat \<Rightarrow> FSE_DTable \<Rightarrow> bytes \<Rightarrow> nat \<Rightarrow> bytes \<Rightarrow> bool" where
  "finished l cap dt src sz out \<longleftrightarrow> length out = cap \<and> (\<exists>fs v w. decodes dt (field_value (v, l)) (field_value (w, l)) fs src \<and>
     (sz = 0 \<longrightarrow> 8 * (cap - 8) \<le> 12 * length src + 25) \<and>
     (sz \<noteq> 0 \<longrightarrow> sz \<le> cap \<and> le_nat (take sz out) = marked ((v, l) # (w, l) # fs) \<and> sz = bits ((v, l) # (w, l) # fs) div 8 + 1))"

lemma encoded:
  assumes co: "coder l counts sv ct dt" and s: "\<forall>s \<in> set src. scarce l counts sv s" "2 < length src"
    and dst: "8 < length dst" and r: "roomy fast (length dst) (length src)"
  shows "\<exists>sz out. FSE_compress_usingCTable_generic dst src ct fast = Some (sz, out) \<and> finished l (length dst) dt src sz out"
proof -
  let ?cap = "length dst"
  have l: "l \<le> 12" "ct_tableLog ct = l" using coder_size [OF co] by simp_all
  obtain c where c: "BIT_initCStream dst = (Inr (), c)" using dst by (simp add: BIT_initCStream_def)
  have rs: "\<forall>s \<in> set (rev src). scarce l counts sv s" "2 < length (rev src)" "roomy fast ?cap (length (rev src))" using s r by simp_all
  obtain left e out1 fs1 where 1: "encode_start fast ct (rev src) c = Some (left, e)" "rev left @ out1 = rev (rev src)"
    "length left = length (rev src) - 2 - (length (rev src) - 2) mod 2" "last_first l ?cap dt 7 out1 fs1 e"
    using start_encoded [OF co rs(1,2) holds_init [OF c] rs(3)] by (elim exE conjE) (rule that, assumption+)
  have src: "rev left @ out1 = src" "length left + length out1 = length src" using 1(2) by (simp, metis length_append length_rev rev_rev_ident)
  have occ: "\<forall>s \<in> set left. occurs counts sv s" using s(1) unfolding src(1) [symmetric] by (simp add: scarce_def)
  have r1: "roomy fast ?cap (length left + length out1)" using r src(2) by simp
  have len: "length left = (length src - 2) - (length src - 2) mod 2" using 1(3) by simp
  obtain left2 e2 out2 fs2 where 2: "encode_join fast ct (length src - 2) left e = Some (left2, e2)" "rev left2 @ out2 = rev left @ out1"
    "4 dvd length left2" "last_first l ?cap dt 7 out2 fs2 e2" "set left2 \<subseteq> set left"
    using join_encoded [OF co occ len r1 1(4)] by (elim exE conjE) (rule that, assumption+)
  have src2: "rev left2 @ out2 = src" "length left2 + length out2 = length src"
    using 2(2) src(1) by (simp, metis length_append length_rev)
  have occ2: "\<forall>s \<in> set left2. occurs counts sv s" using occ 2(5) by auto
  have r2: "roomy fast ?cap (length left2 + length out2)" using r src2(2) by simp
  obtain e3 fs where 3: "encode_loop fast ct left2 e2 = Some e3" "last_first l ?cap dt 7 src fs e3"
    using loop_encoded [OF co occ2 2(3) r2 2(4)] unfolding src2(1) by blast
  obtain n x y where h: "n \<le> 7" "x < 2 ^ l" "y < 2 ^ l" "holds ?cap n fs (en_bits e3)" "en_state1 e3 = 2 ^ l + x" "en_state2 e3 = 2 ^ l + y"
    "decodes dt x y fs src" "bits fs \<le> 12 * length fs"
    using 3(2) unfolding last_first_def by blast
  obtain c4 n4 w where 4: "FSE_flushCState ct (en_bits e3) (2 ^ l + y) = Some c4" "n4 \<le> 7" "holds ?cap n4 ((w, l) # fs) c4" "field_value (w, l) = y"
    using state_flushed [OF h(4,1,3) l] by blast
  obtain c5 n5 v where 5: "FSE_flushCState ct c4 (2 ^ l + x) = Some c5" "n5 \<le> 7" "holds ?cap n5 ((v, l) # (w, l) # fs) c5" "field_value (v, l) = x"
    using state_flushed [OF 4(3,2) h(2) l] by blast
  have "n5 + 1 < 64" using 5(2) by simp
  from close_holds [OF 5(3) this] obtain sz c6 where 6: "BIT_closeCStream c5 = Some (sz, c6)" "length (cs_buffer c6) = ?cap"
    "sz = 0 \<longrightarrow> 8 * (?cap - 8) \<le> bits ((v, l) # (w, l) # fs) + 1"
    "sz \<noteq> 0 \<longrightarrow> sz \<le> ?cap \<and> le_nat (take sz (cs_buffer c6)) = marked ((v, l) # (w, l) # fs) \<and> sz = bits ((v, l) # (w, l) # fs) div 8 + 1"
    by (elim exE conjE) (rule that, assumption+)
  have "FSE_compress_usingCTable_generic dst src ct fast = Some (sz, cs_buffer c6)"
    using s(2) c 1(1) 2(1) 3(1) 4(1) 5(1) 6(1) h(5,6) by (simp add: FSE_compress_usingCTable_generic_def)
  moreover have "bits fs \<le> 12 * length src" using h(8) decodes_length [OF h(7)] by simp
  then have "sz = 0 \<longrightarrow> 8 * (?cap - 8) \<le> 12 * length src + 25" using 6(3) l(1) by auto
  then have "finished l ?cap dt src sz (cs_buffer c6)"
    unfolding finished_def using 6(2,4) h(7) 4(4) 5(4)
    by (intro conjI exI [of _ fs] exI [of _ v] exI [of _ w]) simp_all
  ultimately show ?thesis by blast
qed

end
