(* ===== verification/Zstd_Encode_Fast.thy ===== *)
theory Zstd_Encode_Fast
  imports Zstd_Bits_Spec Zstd_Encode
begin

text \<open>
  The fast flush leaves out a test. When an encoder that uses it comes to an end, it has done what the encoder with the test does.
\<close>

text \<open>The places of a stream that only a flush moves; \<open>cap\<close> is the size of the buffer.\<close>

definition frame :: "nat \<Rightarrow> BIT_CStream_t \<Rightarrow> bool" where
  "frame cap c \<longleftrightarrow> 8 < cap \<and> length (cs_buffer c) = cap \<and> cs_endPtr c = cap - 8"

definition inside :: "BIT_CStream_t \<Rightarrow> bool" where
  "inside c \<longleftrightarrow> cs_ptr c \<le> cs_endPtr c"

lemma add_keeps: "BIT_addBits v n c = Some c' \<Longrightarrow> frame cap c' = frame cap c \<and> inside c' = inside c"
  by (auto simp: BIT_addBits_def frame_def inside_def split: if_splits)

lemma encode_keeps: "FSE_encodeSymbol ct c v s = Some (v', c') \<Longrightarrow> frame cap c' = frame cap c \<and> inside c' = inside c"
  by (auto simp: FSE_encodeSymbol_def Let_def split: Option.bind_split_asm dest: add_keeps)

lemma first_keeps: "encode_first ct s e = Some e' \<Longrightarrow> frame cap (en_bits e') = frame cap (en_bits e) \<and> inside (en_bits e') = inside (en_bits e)"
proof -
  assume "encode_first ct s e = Some e'"
  then obtain v c where "FSE_encodeSymbol ct (en_bits e) (en_state1 e) s = Some (v, c)" "e' = e\<lparr>en_bits := c, en_state1 := v\<rparr>"
    by (auto simp: encode_first_def split: Option.bind_split_asm)
  then show ?thesis using encode_keeps by simp
qed

lemma second_keeps: "encode_second ct s e = Some e' \<Longrightarrow> frame cap (en_bits e') = frame cap (en_bits e) \<and> inside (en_bits e') = inside (en_bits e)"
proof -
  assume "encode_second ct s e = Some e'"
  then obtain v c where "FSE_encodeSymbol ct (en_bits e) (en_state2 e) s = Some (v, c)" "e' = e\<lparr>en_bits := c, en_state2 := v\<rparr>"
    by (auto simp: encode_second_def split: Option.bind_split_asm)
  then show ?thesis using encode_keeps by simp
qed

lemma flush_inside: "flush_to limit c = Some c' \<Longrightarrow> frame cap c \<Longrightarrow> frame cap c' \<and> inside c"
  by (auto simp: flush_to_def MEM_writeLEST_def frame_def inside_def Let_def split: Option.bind_split_asm if_splits)

lemma FLUSHBITS_fast:
  assumes "FSE_FLUSHBITS True e = Some e'" "frame cap (en_bits e)"
  shows "frame cap (en_bits e') \<and> inside (en_bits e) \<and> (inside (en_bits e') \<longrightarrow> FSE_FLUSHBITS False e = Some e')"
proof -
  obtain c' where c': "flush_to (\<lambda>p. p) (en_bits e) = Some c'" "e' = e\<lparr>en_bits := c'\<rparr>"
    using assms(1) by (auto simp: FSE_FLUSHBITS_def BIT_flushBitsFast_def split: Option.bind_split_asm)
  have "BIT_flushBits (en_bits e) = Some c'" if "inside c'"
    using c'(1) that by (auto simp: BIT_flushBits_def flush_to_def inside_def Let_def split: Option.bind_split_asm if_splits)
  then show ?thesis using flush_inside [OF c'(1) assms(2)] c'(2) by (simp add: FSE_FLUSHBITS_def)
qed

lemma loop_fast:
  assumes "encode_loop True ct left e = Some e'" "frame cap (en_bits e)" "inside (en_bits e')"
  shows "encode_loop False ct left e = Some e' \<and> frame cap (en_bits e') \<and> inside (en_bits e)"
  using assms
proof (induction True ct left e rule: encode_loop.induct)
  case (2 ct a b c d left e)
  obtain e1 e2 e3 e4 e5 where s: "encode_second ct a e = Some e1" "encode_first ct b e1 = Some e2" "encode_second ct c e2 = Some e3"
    "encode_first ct d e3 = Some e4" "FSE_FLUSHBITS True e4 = Some e5" "encode_loop True ct left e5 = Some e'"
    using "2.prems"(1) by (auto split: Option.bind_split_asm)
  have k: "frame cap (en_bits e4) = frame cap (en_bits e)" "inside (en_bits e4) = inside (en_bits e)"
    using second_keeps [OF s(1), of cap] first_keeps [OF s(2), of cap] second_keeps [OF s(3), of cap] first_keeps [OF s(4), of cap] by simp_all
  note f = FLUSHBITS_fast [OF s(5), of cap]
  have "encode_loop False ct left e5 = Some e' \<and> frame cap (en_bits e') \<and> inside (en_bits e5)"
    using "2.hyps" [OF s(1-5) s(6)] f k "2.prems"(2,3) by simp
  then show ?case using f k s(1-4) "2.prems"(2) by simp
qed auto

lemma join_fast:
  assumes "encode_join True ct n left e = Some (left', e')" "frame cap (en_bits e)" "inside (en_bits e')"
  shows "encode_join False ct n left e = Some (left', e') \<and> frame cap (en_bits e') \<and> inside (en_bits e)"
proof (cases "bit n 1")
  case True
  then obtain a b where left: "left = a # b # left'" using assms(1) by (auto simp: encode_join_def split: list.splits Option.bind_split_asm)
  obtain e1 e2 where s: "encode_second ct a e = Some e1" "encode_first ct b e1 = Some e2" "FSE_FLUSHBITS True e2 = Some e'"
    using assms(1) True left by (auto simp: encode_join_def split: Option.bind_split_asm)
  have k: "frame cap (en_bits e2) = frame cap (en_bits e)" "inside (en_bits e2) = inside (en_bits e)"
    using second_keeps [OF s(1), of cap] first_keeps [OF s(2), of cap] by simp_all
  show ?thesis using FLUSHBITS_fast [OF s(3), of cap] k s(1,2) assms(2,3) True left by (simp add: encode_join_def)
qed (use assms in \<open>auto simp: encode_join_def\<close>)

lemma start_fast:
  assumes "encode_start True ct left c = Some (left', e)" "frame cap c" "inside (en_bits e)"
  shows "encode_start False ct left c = Some (left', e)"
proof -
  obtain a b rest where left: "left = a # b # rest" using assms(1) by (auto simp: encode_start_def split: list.splits)
  show ?thesis
  proof (cases "odd (length rest)")
    case True
    then obtain s where rest: "rest = s # left'" using assms(1) left by (auto simp: encode_start_def split: list.splits Option.bind_split_asm)
    obtain v1 v2 e1 where s: "FSE_initCState2 ct a = Some v1" "FSE_initCState2 ct b = Some v2"
      "encode_first ct s \<lparr>en_bits = c, en_state1 = v1, en_state2 = v2\<rparr> = Some e1" "FSE_FLUSHBITS True e1 = Some e"
      using assms(1) True left rest by (auto simp: encode_start_def split: Option.bind_split_asm)
    show ?thesis using FLUSHBITS_fast [OF s(4), of cap] first_keeps [OF s(3), of cap] s(1-3) assms(2,3) True left rest
      by (simp add: encode_start_def)
  qed (use assms left in \<open>simp add: encode_start_def\<close>)
qed

lemma start_frame:
  assumes "encode_start True ct left c = Some (left', e)" "frame cap c"
  shows "frame cap (en_bits e)"
proof -
  obtain a b rest where left: "left = a # b # rest" using assms(1) by (auto simp: encode_start_def split: list.splits)
  show ?thesis
  proof (cases "odd (length rest)")
    case True
    then show ?thesis using assms left FLUSHBITS_fast [of _ e cap] first_keeps [of ct _ _ _ cap]
      by (fastforce simp: encode_start_def split: list.splits Option.bind_split_asm)
  qed (use assms left in \<open>auto simp: encode_start_def split: Option.bind_split_asm\<close>)
qed

lemma join_frame:
  assumes "encode_join True ct n left e = Some (left', e')" "frame cap (en_bits e)"
  shows "frame cap (en_bits e')"
  using assms FLUSHBITS_fast [of _ e' cap] first_keeps [of ct _ _ _ cap] second_keeps [of ct _ _ _ cap]
  by (fastforce simp: encode_join_def split: list.splits Option.bind_split_asm if_splits)

lemma loop_frame: "encode_loop True ct left e = Some e' \<Longrightarrow> frame cap (en_bits e) \<Longrightarrow> frame cap (en_bits e')"
proof (induction True ct left e rule: encode_loop.induct)
  case (2 ct a b c d left e)
  obtain e1 e2 e3 e4 e5 where s: "encode_second ct a e = Some e1" "encode_first ct b e1 = Some e2" "encode_second ct c e2 = Some e3"
    "encode_first ct d e3 = Some e4" "FSE_FLUSHBITS True e4 = Some e5" "encode_loop True ct left e5 = Some e'"
    using "2.prems"(1) by (auto split: Option.bind_split_asm)
  have "frame cap (en_bits e4)"
    using second_keeps [OF s(1), of cap] first_keeps [OF s(2), of cap] second_keeps [OF s(3), of cap] first_keeps [OF s(4), of cap] "2.prems"(2) by simp
  then show ?case using "2.hyps" [OF s(1-5) s(6)] FLUSHBITS_fast [OF s(5), of cap] by simp
qed auto

lemma flushCState_inside: "FSE_flushCState ct c v = Some c' \<Longrightarrow> frame cap c \<Longrightarrow> inside c"
  by (auto simp: FSE_flushCState_def BIT_flushBits_def split: Option.bind_split_asm dest: add_keeps flush_inside)

lemma generic_fast:
  assumes "FSE_compress_usingCTable_generic dst src ct True = Some r"
  shows "FSE_compress_usingCTable_generic dst src ct False = Some r"
proof (cases "length src \<le> 2 \<or> length dst \<le> 8")
  case True
  then show ?thesis using assms by (cases "length src \<le> 2") (simp_all add: FSE_compress_usingCTable_generic_def BIT_initCStream_def)
next
  case False
  let ?c = "\<lparr>cs_container = 0, cs_bitPos = 0, cs_ptr = 0, cs_endPtr = length dst - 8, cs_buffer = dst\<rparr>"
  have c: "BIT_initCStream dst = (Inr (), ?c)" "frame (length dst) ?c" using False by (simp_all add: BIT_initCStream_def frame_def)
  obtain left e left2 e2 e3 c4 where s: "encode_start True ct (rev src) ?c = Some (left, e)" "encode_join True ct (length src - 2) left e = Some (left2, e2)"
    "encode_loop True ct left2 e2 = Some e3" "FSE_flushCState ct (en_bits e3) (en_state2 e3) = Some c4"
    using assms False c(1) by (auto simp: FSE_compress_usingCTable_generic_def split: Option.bind_split_asm)
  note f1 = start_frame [OF s(1) c(2)]
  note f2 = join_frame [OF s(2) f1]
  note f3 = loop_frame [OF s(3) f2]
  have l: "encode_loop False ct left2 e2 = Some e3" "inside (en_bits e2)"
    using loop_fast [OF s(3) f2 flushCState_inside [OF s(4) f3]] by simp_all
  have j: "encode_join False ct (length src - 2) left e = Some (left2, e2)" "inside (en_bits e)" using join_fast [OF s(2) f1 l(2)] by simp_all
  have "encode_start False ct (rev src) ?c = Some (left, e)" by (rule start_fast [OF s(1) c(2) j(2)])
  then show ?thesis using assms s j(1) l(1) False c(1) by (simp add: FSE_compress_usingCTable_generic_def)
qed

end
