(* ===== verification/Zstd_Roundtrip_Spec.thy ===== *)
theory Zstd_Roundtrip_Spec
  imports Zstd_Encode_Spec Zstd_Encode_Fast
begin

text \<open>
  The decoder on the stack that the encoder left: it gets the source back.
\<close>

section \<open>The stream\<close>

text \<open>The fields that are left to be read.\<close>

definition fields_left :: "bytes \<Rightarrow> field list \<Rightarrow> BIT_DStream_t \<Rightarrow> bool" where
  "fields_left src fs d \<longleftrightarrow> reading_at src (bits fs) d \<and> take_bit (bits fs) (le_nat src) = stack fs"

text \<open>After a reload there are enough bits in the register for any field.\<close>

definition fresh :: "BIT_DStream_t \<Rightarrow> bool" where
  "fresh d \<longleftrightarrow> ds_consumed d \<le> 8 \<or> ds_ptr d = 0"

lemma lookBits_fast: "1 \<le> n \<Longrightarrow> n \<le> 63 \<Longrightarrow> BIT_lookBitsFast d n = BIT_lookBits d n"
proof -
  assume n: "1 \<le> n" "n \<le> 63"
  have "(63 - int n) mod 64 = 63 - int n" by (rule mod_pos_pos_trivial) (use n in simp_all)
  moreover have "(64 - int n) mod 64 = 64 - int n" by (rule mod_pos_pos_trivial) (use n in simp_all)
  ultimately have "nat ((63 - int n) mod 64) = 63 - n" "nat ((64 - int n) mod 64) = 64 - n" by linarith+
  moreover have "63 - n + 1 = 64 - n" using n by simp
  ultimately show ?thesis by (simp add: BIT_lookBitsFast_def BIT_lookBits_def drop_bit_drop_bit)
qed

lemma field_read:
  assumes d: "fields_left src (f # fs) d" and n: "snd f < 32" "ds_consumed d + snd f \<le> 64"
  shows "BIT_lookBits d (snd f) = of_nat (field_value f)" "fields_left src fs (BIT_skipBits (snd f) d)"
    "ds_consumed (BIT_skipBits (snd f) d) = ds_consumed d + snd f"
proof -
  have r: "reading_at src (snd f + bits fs) d" and V: "take_bit (snd f + bits fs) (le_nat src) = stack fs + 2 ^ bits fs * field_value f"
    using d by (simp_all add: fields_left_def)
  have low: "take_bit (bits fs) (le_nat src) = stack fs"
  proof -
    have "take_bit (bits fs) (le_nat src) = take_bit (bits fs) (take_bit (snd f + bits fs) (le_nat src))" by simp
    also have "\<dots> = stack fs" unfolding V using stack_less [of fs] by (simp add: take_bit_eq_mod)
    finally show ?thesis .
  qed
  have "take_bit (snd f) (drop_bit (bits fs) (le_nat src)) = drop_bit (bits fs) (take_bit (snd f + bits fs) (le_nat src))"
    by (simp add: take_bit_drop_bit add.commute)
  also have "\<dots> = field_value f" unfolding V using stack_less [of fs] by (simp add: drop_bit_eq_div)
  finally show "BIT_lookBits d (snd f) = of_nat (field_value f)" using look_bits [OF r _ n(2)] n(1) by simp
  have "reading_at src (bits fs) (BIT_skipBits (snd f) d)" using r n(2) by (intro skip_bits) (simp_all add: add.commute)
  then show "fields_left src fs (BIT_skipBits (snd f) d)" using low by (simp add: fields_left_def)
  show "ds_consumed (BIT_skipBits (snd f) d) = ds_consumed d + snd f" using n(2) by (simp add: BIT_skipBits_def)
qed

lemma fresh_room: "fields_left src (f # fs) d \<Longrightarrow> fresh d \<Longrightarrow> snd f \<le> 12 \<Longrightarrow> ds_consumed d + snd f \<le> 64"
  by (auto simp: fields_left_def fresh_def reading_at_def)

lemma reload_status:
  assumes "BIT_reloadDStream src d = Some (st, d')" "ds_consumed d \<le> 64"
  shows "st \<noteq> BIT_DStream_overflow \<and> (st = BIT_DStream_unfinished \<longrightarrow> ds_consumed d' < 8)"
  using assms by (auto simp: BIT_reloadDStream_def eighths Let_def split: Option.bind_split_asm if_splits)

lemma reload_left:
  assumes "fields_left src fs d"
  shows "\<exists>st d'. BIT_reloadDStream src d = Some (st, d') \<and> fields_left src fs d' \<and> fresh d' \<and> st \<noteq> BIT_DStream_overflow \<and>
    (st = BIT_DStream_unfinished \<longrightarrow> ds_consumed d' < 8)"
proof -
  have c: "ds_consumed d \<le> 64" using assms by (simp add: fields_left_def reading_at_def)
  obtain st d' where "BIT_reloadDStream src d = Some (st, d')" "reading_at src (bits fs) d'" "ds_consumed d' < 8 \<or> ds_ptr d' = 0"
    using reload_reads assms unfolding fields_left_def by blast
  then show ?thesis using reload_status [OF _ c] assms by (auto simp: fields_left_def fresh_def)
qed

lemma init_fresh: "BIT_initDStream src = (Inr n, d) \<Longrightarrow> fresh d"
  by (auto simp: BIT_initDStream_def fresh_def Let_def split: if_splits option.splits)

section \<open>Symbols\<close>

text \<open>A run that has written \<open>pre\<close> and whose next symbol is that of the first or of the second state.\<close>

definition to_first :: "bytes \<Rightarrow> FSE_DTable \<Rightarrow> field list \<Rightarrow> bytes \<Rightarrow> bytes \<Rightarrow> fse_run \<Rightarrow> bool" where
  "to_first src dt fs out pre r \<longleftrightarrow> fields_left src fs (fr_bits r) \<and> decodes dt (unat (fr_state1 r)) (unat (fr_state2 r)) fs out \<and>
     fr_op r = length pre \<and> take (length pre) (fr_dst r) = pre \<and> length pre + length out \<le> length (fr_dst r)"

definition to_second :: "bytes \<Rightarrow> FSE_DTable \<Rightarrow> field list \<Rightarrow> bytes \<Rightarrow> bytes \<Rightarrow> fse_run \<Rightarrow> bool" where
  "to_second src dt fs out pre r \<longleftrightarrow> fields_left src fs (fr_bits r) \<and> decodes dt (unat (fr_state2 r)) (unat (fr_state1 r)) fs out \<and>
     fr_op r = length pre \<and> take (length pre) (fr_dst r) = pre \<and> length pre + length out \<le> length (fr_dst r)"

lemma cell_small:
  assumes "table_valid dt" "fetch (dt_cells dt) x = Some (Some cell)"
  shows "newState cell + 2 ^ cellBits cell \<le> 2 ^ dt_tableLog dt" "dt_fastMode dt \<Longrightarrow> 1 \<le> cellBits cell" "cellBits cell \<le> 12"
proof -
  have "x < 2 ^ dt_tableLog dt" using assms by (auto simp: fetch_def table_valid_def split: if_splits)
  from table_cell [OF assms(1) this] show "newState cell + 2 ^ cellBits cell \<le> 2 ^ dt_tableLog dt" "dt_fastMode dt \<Longrightarrow> 1 \<le> cellBits cell" "cellBits cell \<le> 12"
    using assms(2) by simp_all
qed

lemma symbol_got:
  assumes dt: "table_valid dt" and cell: "fetch (dt_cells dt) (unat x) = Some (Some cell)" "snd f = cellBits cell"
    and d: "fields_left src (f # fs) d" "ds_consumed d + snd f \<le> 64"
  shows "\<exists>x' d'. FSE_GETSYMBOL (dt_fastMode dt) dt x d = Some (symbol cell, x', d') \<and> unat x' = newState cell + field_value f \<and>
    fields_left src fs d' \<and> ds_consumed d' = ds_consumed d + snd f"
proof -
  note c = cell_small [OF dt cell(1)]
  have n: "snd f < 32" using c(3) cell(2) by simp
  note f = field_read [OF d(1) n d(2)]
  have look: "(if dt_fastMode dt then BIT_lookBitsFast d (cellBits cell) else BIT_lookBits d (cellBits cell)) = of_nat (field_value f)"
    using f(1) lookBits_fast [of "cellBits cell" d] c(2,3) cell(2) by simp
  have "field_value f < 2 ^ cellBits cell" using field_value_less [of f] cell(2) by simp
  then have "newState cell + field_value f < 2 ^ 12"
    using c(1) power_increasing [of "dt_tableLog dt" 12 "2 :: nat"] dt by (simp add: table_valid_def)
  then have "unat (of_nat (newState cell + field_value f) :: 64 word) = newState cell + field_value f"
    by (simp only: unsigned_of_nat) (simp add: take_bit_nat_eq_self)
  then show ?thesis using cell(1) look f(2,3) unfolding cell(2)
    by (auto simp: FSE_GETSYMBOL_def BIT_readBits_def BIT_readBitsFast_def split: if_splits)
qed

lemma store_next:
  assumes "take (length pre) dst = pre" "length pre < length dst"
  shows "store_at dst (length pre) c = Some (dst[length pre := c])" "take (length (pre @ [c])) (dst[length pre := c]) = pre @ [c]"
  using assms by (simp_all add: store_at_def take_Suc_conv_app_nth)

lemma first_put:
  assumes dt: "table_valid dt" and r: "to_first src dt (f # fs) out pre r" and room: "ds_consumed (fr_bits r) + snd f \<le> 64"
  shows "\<exists>r' c out'. put_first (dt_fastMode dt) dt r = Some r' \<and> out = c # out' \<and> to_second src dt fs out' (pre @ [c]) r' \<and>
    ds_consumed (fr_bits r') = ds_consumed (fr_bits r) + snd f \<and> length (fr_dst r') = length (fr_dst r)"
proof -
  obtain cell out' where c: "fetch (dt_cells dt) (unat (fr_state1 r)) = Some (Some cell)" "snd f = cellBits cell" "out = symbol cell # out'"
    "decodes dt (unat (fr_state2 r)) (newState cell + field_value f) fs out'"
    using r by (auto simp: to_first_def)
  have left: "fields_left src (f # fs) (fr_bits r)" using r by (simp add: to_first_def)
  obtain x d where g: "FSE_GETSYMBOL (dt_fastMode dt) dt (fr_state1 r) (fr_bits r) = Some (symbol cell, x, d)" "unat x = newState cell + field_value f"
    "fields_left src fs d" "ds_consumed d = ds_consumed (fr_bits r) + snd f"
    using symbol_got [OF dt c(1,2) left room] by blast
  have st: "store_at (fr_dst r) (fr_op r) (symbol cell) = Some ((fr_dst r)[length pre := symbol cell])"
    "take (length (pre @ [symbol cell])) ((fr_dst r)[length pre := symbol cell]) = pre @ [symbol cell]"
    using store_next [of pre "fr_dst r" "symbol cell"] r c(3) by (simp_all add: to_first_def)
  let ?r = "r\<lparr>fr_dst := (fr_dst r)[length pre := symbol cell], fr_op := fr_op r + 1, fr_state1 := x, fr_bits := d\<rparr>"
  have "put_first (dt_fastMode dt) dt r = Some ?r" unfolding put_first_def g(1) by (simp add: st(1))
  moreover have "to_second src dt fs out' (pre @ [symbol cell]) ?r" using r g(2,3) c(3,4) st(2) by (simp add: to_first_def to_second_def)
  ultimately show ?thesis using c(3) g(4) by (intro exI [of _ ?r] exI [of _ "symbol cell"] exI [of _ out']) simp
qed

lemma second_put:
  assumes dt: "table_valid dt" and r: "to_second src dt (f # fs) out pre r" and room: "ds_consumed (fr_bits r) + snd f \<le> 64"
  shows "\<exists>r' c out'. put_second (dt_fastMode dt) dt r = Some r' \<and> out = c # out' \<and> to_first src dt fs out' (pre @ [c]) r' \<and>
    ds_consumed (fr_bits r') = ds_consumed (fr_bits r) + snd f \<and> length (fr_dst r') = length (fr_dst r)"
proof -
  obtain cell out' where c: "fetch (dt_cells dt) (unat (fr_state2 r)) = Some (Some cell)" "snd f = cellBits cell" "out = symbol cell # out'"
    "decodes dt (unat (fr_state1 r)) (newState cell + field_value f) fs out'"
    using r by (auto simp: to_second_def)
  have left: "fields_left src (f # fs) (fr_bits r)" using r by (simp add: to_second_def)
  obtain x d where g: "FSE_GETSYMBOL (dt_fastMode dt) dt (fr_state2 r) (fr_bits r) = Some (symbol cell, x, d)" "unat x = newState cell + field_value f"
    "fields_left src fs d" "ds_consumed d = ds_consumed (fr_bits r) + snd f"
    using symbol_got [OF dt c(1,2) left room] by blast
  have st: "store_at (fr_dst r) (fr_op r) (symbol cell) = Some ((fr_dst r)[length pre := symbol cell])"
    "take (length (pre @ [symbol cell])) ((fr_dst r)[length pre := symbol cell]) = pre @ [symbol cell]"
    using store_next [of pre "fr_dst r" "symbol cell"] r c(3) by (simp_all add: to_second_def)
  let ?r = "r\<lparr>fr_dst := (fr_dst r)[length pre := symbol cell], fr_op := fr_op r + 1, fr_state2 := x, fr_bits := d\<rparr>"
  have "put_second (dt_fastMode dt) dt r = Some ?r" unfolding put_second_def g(1) by (simp add: st(1))
  moreover have "to_first src dt fs out' (pre @ [symbol cell]) ?r" using r g(2,3) c(3,4) st(2) by (simp add: to_first_def to_second_def)
  ultimately show ?thesis using c(3) g(4) by (intro exI [of _ ?r] exI [of _ "symbol cell"] exI [of _ out']) simp
qed

section \<open>The last two symbols\<close>

lemma symbol_any:
  assumes "fetch (dt_cells dt) (unat x) = Some (Some cell)"
  shows "\<exists>x' d'. FSE_GETSYMBOL fast dt x d = Some (symbol cell, x', d') \<and> ds_consumed d' = (ds_consumed d + cellBits cell) mod 2 ^ 32"
  using assms by (simp add: FSE_GETSYMBOL_def BIT_readBits_def BIT_readBitsFast_def BIT_skipBits_def)

lemma used_up:
  assumes "fields_left src [] d" "1 \<le> n" "n \<le> 12"
  shows "64 < (ds_consumed d + n) mod 2 ^ 32"
  using assms by (auto simp: fields_left_def reading_at_def)

lemma reload_overflow: "64 < ds_consumed (fr_bits r) \<Longrightarrow> fse_reload src r = Some (BIT_DStream_overflow, r)"
  by (simp add: fse_reload_def BIT_reloadDStream_def)

lemma store_last:
  assumes "take (length pre) dst = pre" "length pre + 2 \<le> length dst"
  shows "\<exists>dst1 dst2. store_at dst (length pre) a = Some dst1 \<and> store_at dst1 (length pre + 1) b = Some dst2 \<and>
    take (length pre + 2) dst2 = pre @ [a, b] \<and> length dst2 = length dst"
proof -
  let ?d = "dst[length pre := a]"
  have 1: "store_at dst (length pre) a = Some ?d" "take (length (pre @ [a])) ?d = pre @ [a]"
    using store_next [of pre dst a] assms by simp_all
  have 2: "store_at ?d (length (pre @ [a])) b = Some (?d[length (pre @ [a]) := b])"
    "take (length ((pre @ [a]) @ [b])) (?d[length (pre @ [a]) := b]) = (pre @ [a]) @ [b]"
    using store_next [OF 1(2), of b] assms(2) by simp_all
  show ?thesis using 1(1) 2 by (intro exI [of _ ?d] exI [of _ "?d[length (pre @ [a]) := b]"]) (simp add: numeral_2_eq_2)
qed

lemma first_last:
  assumes dt: "table_valid dt" and r: "to_first src dt [] out pre r"
  shows "\<exists>r1 r2. put_first (dt_fastMode dt) dt r = Some r1 \<and> fse_reload src r1 = Some (BIT_DStream_overflow, r1) \<and>
    put_second (dt_fastMode dt) dt r1 = Some r2 \<and> fr_op r2 = length (pre @ out) \<and> take (length (pre @ out)) (fr_dst r2) = pre @ out \<and>
    length (fr_dst r2) = length (fr_dst r)"
proof -
  obtain cx cy where c: "fetch (dt_cells dt) (unat (fr_state1 r)) = Some (Some cx)" "fetch (dt_cells dt) (unat (fr_state2 r)) = Some (Some cy)"
    "1 \<le> cellBits cx" "out = [symbol cx, symbol cy]"
    using r by (auto simp: to_first_def)
  obtain x d where g: "FSE_GETSYMBOL (dt_fastMode dt) dt (fr_state1 r) (fr_bits r) = Some (symbol cx, x, d)"
    "ds_consumed d = (ds_consumed (fr_bits r) + cellBits cx) mod 2 ^ 32"
    using symbol_any [OF c(1)] by blast
  obtain y d2 where g2: "FSE_GETSYMBOL (dt_fastMode dt) dt (fr_state2 r) d = Some (symbol cy, y, d2)" using symbol_any [OF c(2)] by blast
  obtain dst1 dst2 where st: "store_at (fr_dst r) (length pre) (symbol cx) = Some dst1" "store_at dst1 (length pre + 1) (symbol cy) = Some dst2"
    "take (length pre + 2) dst2 = pre @ out" "length dst2 = length (fr_dst r)"
    using store_last [of pre "fr_dst r" "symbol cx" "symbol cy"] r c(4) by (auto simp: to_first_def)
  let ?r1 = "r\<lparr>fr_dst := dst1, fr_op := fr_op r + 1, fr_state1 := x, fr_bits := d\<rparr>"
  let ?r2 = "?r1\<lparr>fr_dst := dst2, fr_op := fr_op r + 1 + 1, fr_state2 := y, fr_bits := d2\<rparr>"
  have op: "fr_op r = length pre" and left: "fields_left src [] (fr_bits r)" using r by (simp_all add: to_first_def)
  have 1: "put_first (dt_fastMode dt) dt r = Some ?r1" unfolding put_first_def g(1) op by (simp add: st(1))
  have 2: "put_second (dt_fastMode dt) dt ?r1 = Some ?r2" using g2 st(2) op by (simp add: put_second_def)
  have "64 < ds_consumed d" unfolding g(2) by (rule used_up [OF left c(3) cell_small(3) [OF dt c(1)]])
  then have "fse_reload src ?r1 = Some (BIT_DStream_overflow, ?r1)" by (intro reload_overflow) simp
  then show ?thesis using 1 2 st(3,4) c(4) op by (intro exI [of _ ?r1] exI [of _ ?r2]) (simp add: numeral_2_eq_2)
qed

lemma second_last:
  assumes dt: "table_valid dt" and r: "to_second src dt [] out pre r"
  shows "\<exists>r1 r2. put_second (dt_fastMode dt) dt r = Some r1 \<and> fse_reload src r1 = Some (BIT_DStream_overflow, r1) \<and>
    put_first (dt_fastMode dt) dt r1 = Some r2 \<and> fr_op r2 = length (pre @ out) \<and> take (length (pre @ out)) (fr_dst r2) = pre @ out \<and>
    length (fr_dst r2) = length (fr_dst r)"
proof -
  obtain cx cy where c: "fetch (dt_cells dt) (unat (fr_state2 r)) = Some (Some cx)" "fetch (dt_cells dt) (unat (fr_state1 r)) = Some (Some cy)"
    "1 \<le> cellBits cx" "out = [symbol cx, symbol cy]"
    using r by (auto simp: to_second_def)
  obtain x d where g: "FSE_GETSYMBOL (dt_fastMode dt) dt (fr_state2 r) (fr_bits r) = Some (symbol cx, x, d)"
    "ds_consumed d = (ds_consumed (fr_bits r) + cellBits cx) mod 2 ^ 32"
    using symbol_any [OF c(1)] by blast
  obtain y d2 where g2: "FSE_GETSYMBOL (dt_fastMode dt) dt (fr_state1 r) d = Some (symbol cy, y, d2)" using symbol_any [OF c(2)] by blast
  obtain dst1 dst2 where st: "store_at (fr_dst r) (length pre) (symbol cx) = Some dst1" "store_at dst1 (length pre + 1) (symbol cy) = Some dst2"
    "take (length pre + 2) dst2 = pre @ out" "length dst2 = length (fr_dst r)"
    using store_last [of pre "fr_dst r" "symbol cx" "symbol cy"] r c(4) by (auto simp: to_second_def)
  let ?r1 = "r\<lparr>fr_dst := dst1, fr_op := fr_op r + 1, fr_state2 := x, fr_bits := d\<rparr>"
  let ?r2 = "?r1\<lparr>fr_dst := dst2, fr_op := fr_op r + 1 + 1, fr_state1 := y, fr_bits := d2\<rparr>"
  have op: "fr_op r = length pre" and left: "fields_left src [] (fr_bits r)" using r by (simp_all add: to_second_def)
  have 1: "put_second (dt_fastMode dt) dt r = Some ?r1" unfolding put_second_def g(1) op by (simp add: st(1))
  have 2: "put_first (dt_fastMode dt) dt ?r1 = Some ?r2" using g2 st(2) op by (simp add: put_first_def)
  have "64 < ds_consumed d" unfolding g(2) by (rule used_up [OF left c(3) cell_small(3) [OF dt c(1)]])
  then have "fse_reload src ?r1 = Some (BIT_DStream_overflow, ?r1)" by (intro reload_overflow) simp
  then show ?thesis using 1 2 st(3,4) c(4) op by (intro exI [of _ ?r1] exI [of _ ?r2]) (simp add: numeral_2_eq_2)
qed

section \<open>The loop and the tail\<close>

lemma reload_first:
  assumes "to_first src dt fs out pre r"
  shows "\<exists>st r'. fse_reload src r = Some (st, r') \<and> to_first src dt fs out pre r' \<and> fresh (fr_bits r') \<and> st \<noteq> BIT_DStream_overflow \<and>
    (st = BIT_DStream_unfinished \<longrightarrow> ds_consumed (fr_bits r') < 8) \<and> length (fr_dst r') = length (fr_dst r)"
  using assms reload_left [of src fs "fr_bits r"] by (auto simp: fse_reload_def to_first_def)

lemma reload_second:
  assumes "to_second src dt fs out pre r"
  shows "\<exists>st r'. fse_reload src r = Some (st, r') \<and> to_second src dt fs out pre r' \<and> fresh (fr_bits r') \<and> st \<noteq> BIT_DStream_overflow"
  using assms reload_left [of src fs "fr_bits r"] by (auto simp: fse_reload_def to_second_def)

lemma decodes_small: "decodes dt x y fs out \<Longrightarrow> table_valid dt \<Longrightarrow> \<forall>f \<in> set fs. snd f \<le> 12"
  by (induction dt x y fs out rule: decodes.induct) (auto dest: cell_small(3))

lemma bits_small: "\<forall>f \<in> set fs. snd f \<le> 12 \<Longrightarrow> bits fs \<le> 12 * length fs"
  by (induction fs) auto

lemma four_read:
  assumes dt: "table_valid dt" and r: "to_first src dt fs out pre r" and c: "ds_consumed (fr_bits r) < 8"
  shows "\<exists>r' fs' out' pre'. four_symbols (dt_fastMode dt) dt r = Some r' \<and> to_first src dt fs' out' pre' r' \<and> pre' @ out' = pre @ out \<and>
    length (fr_dst r') = length (fr_dst r)"
proof -
  have small: "\<forall>f \<in> set fs. snd f \<le> 12" using r decodes_small [OF _ dt] unfolding to_first_def by blast
  have "57 \<le> bits fs" using r c by (auto simp: to_first_def fields_left_def reading_at_def)
  then have "5 \<le> length fs" using bits_small [OF small] by linarith
  then obtain f1 f2 f3 f4 fs' where fs: "fs = f1 # f2 # f3 # f4 # fs'"
    by (cases fs; cases "tl fs"; cases "tl (tl fs)"; cases "tl (tl (tl fs))") auto
  have n: "snd f1 \<le> 12" "snd f2 \<le> 12" "snd f3 \<le> 12" "snd f4 \<le> 12" using small fs by simp_all
  have "ds_consumed (fr_bits r) + snd f1 \<le> 64" using c n by simp
  then obtain r1 a out1 where r1: "put_first (dt_fastMode dt) dt r = Some r1" "out = a # out1" "to_second src dt (f2 # f3 # f4 # fs') out1 (pre @ [a]) r1"
    "ds_consumed (fr_bits r1) = ds_consumed (fr_bits r) + snd f1" "length (fr_dst r1) = length (fr_dst r)"
    using first_put [OF dt r [unfolded fs]] by blast
  have "ds_consumed (fr_bits r1) + snd f2 \<le> 64" using c n r1(4) by simp
  then obtain r2 b out2 where r2: "put_second (dt_fastMode dt) dt r1 = Some r2" "out1 = b # out2" "to_first src dt (f3 # f4 # fs') out2 ((pre @ [a]) @ [b]) r2"
    "ds_consumed (fr_bits r2) = ds_consumed (fr_bits r1) + snd f2" "length (fr_dst r2) = length (fr_dst r1)"
    using second_put [OF dt r1(3)] by blast
  have "ds_consumed (fr_bits r2) + snd f3 \<le> 64" using c n r1(4) r2(4) by simp
  then obtain r3 d out3 where r3: "put_first (dt_fastMode dt) dt r2 = Some r3" "out2 = d # out3" "to_second src dt (f4 # fs') out3 (((pre @ [a]) @ [b]) @ [d]) r3"
    "ds_consumed (fr_bits r3) = ds_consumed (fr_bits r2) + snd f3" "length (fr_dst r3) = length (fr_dst r2)"
    using first_put [OF dt r2(3)] by blast
  have "ds_consumed (fr_bits r3) + snd f4 \<le> 64" using c n r1(4) r2(4) r3(4) by simp
  then obtain r4 e out4 where r4: "put_second (dt_fastMode dt) dt r3 = Some r4" "out3 = e # out4"
    "to_first src dt fs' out4 ((((pre @ [a]) @ [b]) @ [d]) @ [e]) r4" "length (fr_dst r4) = length (fr_dst r3)"
    using second_put [OF dt r3(3)] by blast
  have "four_symbols (dt_fastMode dt) dt r = Some r4" using r1(1) r2(1) r3(1) r4(1) by (simp add: four_symbols_def)
  then show ?thesis using r1(2,5) r2(2,5) r3(2,5) r4(2,3,4)
    by (intro exI [of _ r4] exI [of _ fs'] exI [of _ out4] exI [of _ "(((pre @ [a]) @ [b]) @ [d]) @ [e]"]) simp
qed

lemma loop_read:
  assumes dt: "table_valid dt" and r: "to_first src dt fs out pre r"
  shows "\<exists>r' fs' out' pre'. fse_loop (dt_fastMode dt) dt src cap r = Some r' \<and> to_first src dt fs' out' pre' r' \<and> fresh (fr_bits r') \<and>
    pre' @ out' = pre @ out \<and> length (fr_dst r') = length (fr_dst r)"
  using r
proof (induction "cap - fr_op r" arbitrary: r fs out pre rule: less_induct)
  case less
  obtain st r1 where r1: "fse_reload src r = Some (st, r1)" "to_first src dt fs out pre r1" "fresh (fr_bits r1)"
    "st = BIT_DStream_unfinished \<longrightarrow> ds_consumed (fr_bits r1) < 8" "length (fr_dst r1) = length (fr_dst r)"
    using reload_first [OF less.prems] by blast
  show ?case
  proof (cases "st = BIT_DStream_unfinished \<and> int (fr_op r1) < int cap - 3")
    case True
    then obtain r2 fs2 out2 pre2 where r2: "four_symbols (dt_fastMode dt) dt r1 = Some r2" "to_first src dt fs2 out2 pre2 r2" "pre2 @ out2 = pre @ out"
      "length (fr_dst r2) = length (fr_dst r1)"
      using four_read [OF dt r1(2)] r1(4) by blast
    have "cap - fr_op r2 < cap - fr_op r" using four_op [OF r2(1)] reload_op [OF r1(1)] True by linarith
    from less.hyps [OF this r2(2)] obtain r' fs' out' pre' where "fse_loop (dt_fastMode dt) dt src cap r2 = Some r'" "to_first src dt fs' out' pre' r'"
      "fresh (fr_bits r')" "pre' @ out' = pre2 @ out2" "length (fr_dst r') = length (fr_dst r2)" by blast
    moreover have "fse_loop (dt_fastMode dt) dt src cap r = fse_loop (dt_fastMode dt) dt src cap r2"
      using r1(1) r2(1) True by (subst fse_loop.simps) simp
    ultimately show ?thesis using r1(5) r2(3,4) by metis
  next
    case False
    then have "fse_loop (dt_fastMode dt) dt src cap r = Some r1" using r1(1) by (subst fse_loop.simps) auto
    then show ?thesis using r1(2,3,5) by blast
  qed
qed

lemma tail_read:
  assumes dt: "table_valid dt" and r: "to_first src dt fs out pre r" "fresh (fr_bits r)" and cap: "length pre + length out \<le> cap"
  shows "\<exists>dst. fse_tail (dt_fastMode dt) dt src cap r = Some (Inr (length (pre @ out), dst)) \<and> take (length (pre @ out)) dst = pre @ out \<and>
    length dst = length (fr_dst r)"
  using r cap
proof (induction "length fs" arbitrary: r fs out pre rule: less_induct)
  case less
  have two: "length out = length fs + 2" "fr_op r = length pre" using less.prems(1) decodes_length by (auto simp: to_first_def)
  have room: "\<not> int (fr_op r) > int cap - 2" using two less.prems(3) by linarith
  show ?case
  proof (cases fs)
    case Nil
    then obtain r1 r2 where "put_first (dt_fastMode dt) dt r = Some r1" "fse_reload src r1 = Some (BIT_DStream_overflow, r1)"
      "put_second (dt_fastMode dt) dt r1 = Some r2" "fr_op r2 = length (pre @ out)" "take (length (pre @ out)) (fr_dst r2) = pre @ out"
      "length (fr_dst r2) = length (fr_dst r)"
      using first_last [OF dt] less.prems(1) by blast
    then show ?thesis using room by (subst fse_tail.simps) simp
  next
    case (Cons f fs1)
    have small: "\<forall>f \<in> set fs. snd f \<le> 12" using less.prems(1) decodes_small [OF _ dt] unfolding to_first_def by blast
    have r0: "to_first src dt (f # fs1) out pre r" using less.prems(1) Cons by simp
    have "ds_consumed (fr_bits r) + snd f \<le> 64"
      using fresh_room [of src f fs1, OF _ less.prems(2)] r0 small Cons by (simp add: to_first_def)
    then obtain r1 a out1 where r1: "put_first (dt_fastMode dt) dt r = Some r1" "out = a # out1" "to_second src dt fs1 out1 (pre @ [a]) r1"
      "length (fr_dst r1) = length (fr_dst r)"
      using first_put [OF dt r0] by blast
    obtain st r2 where r2: "fse_reload src r1 = Some (st, r2)" "to_second src dt fs1 out1 (pre @ [a]) r2" "fresh (fr_bits r2)" "st \<noteq> BIT_DStream_overflow"
      using reload_second [OF r1(3)] by blast
    have len2: "length (fr_dst r2) = length (fr_dst r)" using r2(1) r1(4) by (auto simp: fse_reload_def split: Option.bind_split_asm)
    have room2: "\<not> int (fr_op r2) > int cap - 2" using r2(2) r1(2) two Cons less.prems(3) by (simp add: to_second_def)
    show ?thesis
    proof (cases fs1)
      case Nil
      then obtain r3 r4 where "put_second (dt_fastMode dt) dt r2 = Some r3" "fse_reload src r3 = Some (BIT_DStream_overflow, r3)"
        "put_first (dt_fastMode dt) dt r3 = Some r4" "fr_op r4 = length ((pre @ [a]) @ out1)" "take (length ((pre @ [a]) @ out1)) (fr_dst r4) = (pre @ [a]) @ out1"
        "length (fr_dst r4) = length (fr_dst r2)"
        using second_last [OF dt] r2(2) by blast
      then show ?thesis using room room2 r1(1,2) r2(1,4) len2 by (subst fse_tail.simps) simp
    next
      case (Cons g fs2)
      have r20: "to_second src dt (g # fs2) out1 (pre @ [a]) r2" using r2(2) Cons by simp
      have "ds_consumed (fr_bits r2) + snd g \<le> 64"
        using fresh_room [of src g fs2, OF _ r2(3)] r20 small \<open>fs = f # fs1\<close> Cons by (simp add: to_second_def)
      then obtain r3 b out2 where r3: "put_second (dt_fastMode dt) dt r2 = Some r3" "out1 = b # out2" "to_first src dt fs2 out2 ((pre @ [a]) @ [b]) r3"
        "length (fr_dst r3) = length (fr_dst r2)"
        using second_put [OF dt r20] by blast
      obtain st' r4 where r4: "fse_reload src r3 = Some (st', r4)" "to_first src dt fs2 out2 ((pre @ [a]) @ [b]) r4" "fresh (fr_bits r4)"
        "st' \<noteq> BIT_DStream_overflow" "length (fr_dst r4) = length (fr_dst r3)"
        using reload_first [OF r3(3)] by blast
      have "length fs2 < length fs" "length ((pre @ [a]) @ [b]) + length out2 \<le> cap"
        using \<open>fs = f # fs1\<close> Cons less.prems(3) r1(2) r3(2) by simp_all
      from less.hyps [OF this(1) r4(2,3) this(2)] obtain dst where
        "fse_tail (dt_fastMode dt) dt src cap r4 = Some (Inr (length (((pre @ [a]) @ [b]) @ out2), dst))"
        "take (length (((pre @ [a]) @ [b]) @ out2)) dst = ((pre @ [a]) @ [b]) @ out2" "length dst = length (fr_dst r4)" by blast
      then show ?thesis using room room2 r1(1,2) r2(1,4) r3(1,2,4) r4(1,4,5) len2 by (subst fse_tail.simps) simp
    qed
  qed
qed

section \<open>The source back\<close>

lemma state_read:
  assumes dt: "table_valid dt" and d: "fields_left src ((v, dt_tableLog dt) # fs) d" "fresh d"
  shows "\<exists>x d'. FSE_initDState src dt d = Some (x, d') \<and> unat x = field_value (v, dt_tableLog dt) \<and> fields_left src fs d' \<and> fresh d'"
proof -
  let ?f = "(v, dt_tableLog dt)"
  have l: "dt_tableLog dt \<le> 12" using dt by (simp add: table_valid_def)
  have n: "snd ?f < 32" "ds_consumed d + snd ?f \<le> 64" using l fresh_room [OF d] by simp_all
  note f = field_read [OF d(1) n]
  obtain st d' where d': "BIT_reloadDStream src (BIT_skipBits (dt_tableLog dt) d) = Some (st, d')" "fields_left src fs d'" "fresh d'"
    using reload_left [OF f(2)] by auto
  have "field_value ?f < 2 ^ 64"
    using field_value_less [of ?f] power_increasing [of "dt_tableLog dt" 64 "2 :: nat"] l by simp
  then have "unat (BIT_lookBits d (dt_tableLog dt)) = field_value ?f"
    using f(1) by (simp add: unsigned_of_nat take_bit_nat_eq_self)
  then show ?thesis using d' by (simp add: FSE_initDState_def BIT_readBits_def)
qed

lemma decoded:
  assumes dt: "table_valid dt" and v: "le_nat src = marked ((v, dt_tableLog dt) # (w, dt_tableLog dt) # fs)"
    and len: "length src = bits ((v, dt_tableLog dt) # (w, dt_tableLog dt) # fs) div 8 + 1"
    and d: "decodes dt (field_value (v, dt_tableLog dt)) (field_value (w, dt_tableLog dt)) fs out"
    and cap: "length out \<le> cap" "cap \<le> length dst"
  shows "\<exists>res. FSE_decompress_usingDTable dst cap src dt = Some (Inr (length out, res)) \<and> take (length out) res = out \<and> length res = length dst"
proof -
  let ?fs = "(v, dt_tableLog dt) # (w, dt_tableLog dt) # fs"
  obtain d0 where d0: "BIT_initDStream src = (Inr (length src), d0)" "reading_at src (bits ?fs) d0" using init_reads [OF v len] by blast
  have left: "fields_left src ?fs d0" using d0(2) v marked_low [of ?fs] by (simp only: fields_left_def)
  obtain x d1 where x: "FSE_initDState src dt d0 = Some (x, d1)" "unat x = field_value (v, dt_tableLog dt)"
    "fields_left src ((w, dt_tableLog dt) # fs) d1" "fresh d1"
    using state_read [OF dt left init_fresh [OF d0(1)]] by blast
  obtain y d2 where y: "FSE_initDState src dt d1 = Some (y, d2)" "unat y = field_value (w, dt_tableLog dt)" "fields_left src fs d2"
    using state_read [OF dt x(3,4)] by blast
  let ?r = "\<lparr>fr_dst = dst, fr_op = 0, fr_state1 = x, fr_state2 = y, fr_bits = d2\<rparr>"
  have "to_first src dt fs out [] ?r" using d x(2) y(2,3) cap by (simp add: to_first_def)
  from loop_read [OF dt this, of cap] obtain r fs' out' pre' where r: "fse_loop (dt_fastMode dt) dt src cap ?r = Some r" "to_first src dt fs' out' pre' r"
    "fresh (fr_bits r)" "pre' @ out' = [] @ out" "length (fr_dst r) = length (fr_dst ?r)"
    by (elim exE conjE) (rule that, assumption+)
  have "length (pre' @ out') = length out" using r(4) by simp
  then have "length pre' + length out' \<le> cap" using cap(1) by simp
  from tail_read [OF dt r(2,3) this] obtain res where "fse_tail (dt_fastMode dt) dt src cap r = Some (Inr (length (pre' @ out'), res))"
    "take (length (pre' @ out')) res = pre' @ out'" "length res = length (fr_dst r)" by blast
  then show ?thesis using d0(1) x(1) y(1) r(1,4,5)
    by (simp add: FSE_decompress_usingDTable_def FSE_decompress_usingDTable_generic_def)
qed

lemma finished_decoded:
  assumes co: "coder l counts sv ct dt" and f: "finished l n dt src sz out" and sz: "sz \<noteq> 0"
    and cap: "length src \<le> cap" "cap \<le> length dst"
  shows "\<exists>res. FSE_decompress_usingDTable dst cap (take sz out) dt = Some (Inr (length src, res)) \<and> take (length src) res = src \<and> length res = length dst"
proof -
  have dt: "table_valid dt" "dt_tableLog dt = l" using coder_size [OF co] by simp_all
  obtain fs v w where e: "decodes dt (field_value (v, l)) (field_value (w, l)) fs src" "sz \<le> n" "length out = n"
    "le_nat (take sz out) = marked ((v, l) # (w, l) # fs)" "sz = bits ((v, l) # (w, l) # fs) div 8 + 1"
    using f sz unfolding finished_def by blast
  have len: "length (take sz out) = bits ((v, l) # (w, l) # fs) div 8 + 1" using e(2,3,5) by simp
  show ?thesis using decoded [OF dt(1), unfolded dt(2), OF e(4) len e(1) cap] .
qed

lemma roundtrip:
  assumes v: "valid_counts counts sv l" and room: "2 ^ l \<le> room" "2 ^ l \<le> wksp" and s: "\<forall>s \<in> set src. scarce l counts sv s" "2 < length src"
    and dst: "8 < length dst"
  shows "\<exists>ct dt. FSE_buildCTable_wksp counts sv l wksp = Some (Inr ct) \<and> FSE_buildDTable room counts sv l = Some (Inr dt) \<and>
    (3 * length src + 24 \<le> 2 * length dst \<longrightarrow> (\<exists>n out. FSE_compress_usingCTable dst src ct = Some (n, out) \<and> n \<noteq> 0)) \<and>
    (length dst < FSE_BLOCKBOUND (length src) \<longrightarrow> (\<exists>r. FSE_compress_usingCTable dst src ct = Some r)) \<and>
    (\<forall>n out. FSE_compress_usingCTable dst src ct = Some (n, out) \<and> n \<noteq> 0 \<longrightarrow> n \<le> length out \<and> length out = length dst \<and>
       (\<forall>dst' cap. length src \<le> cap \<and> cap \<le> length dst' \<longrightarrow> (\<exists>res. FSE_decompress_usingDTable dst' cap (take n out) dt = Some (Inr (length src, res)) \<and>
          take (length src) res = src \<and> length res = length dst')))"
proof -
  obtain ct dt where t: "FSE_buildCTable_wksp counts sv l wksp = Some (Inr ct)" "FSE_buildDTable room counts sv l = Some (Inr dt)" "coder l counts sv ct dt"
    using tables_coder [OF v room] by blast
  let ?fast = "length dst \<ge> FSE_BLOCKBOUND (length src)"
  have slow: "roomy False (length dst) (length src)" by (simp add: roomy_def)
  obtain sz out where e: "FSE_compress_usingCTable_generic dst src ct False = Some (sz, out)" "finished l (length dst) dt src sz out"
    using encoded [OF t(3) s dst slow] by blast
  have same: "FSE_compress_usingCTable dst src ct = Some r \<Longrightarrow> r = (sz, out)" for r
    using generic_fast [of dst src ct r] e(1) by (cases ?fast) (simp_all add: FSE_compress_usingCTable_def)
  have "\<exists>n out. FSE_compress_usingCTable dst src ct = Some (n, out) \<and> n \<noteq> 0" if big: "3 * length src + 24 \<le> 2 * length dst"
  proof -
    have "roomy ?fast (length dst) (length src)" using big by (simp only: roomy_def) linarith
    then obtain n o' where "FSE_compress_usingCTable dst src ct = Some (n, o')" using encoded [OF t(3) s dst] unfolding FSE_compress_usingCTable_def by blast
    moreover have "sz \<noteq> 0" using e(2) big by (auto simp: finished_def)
    ultimately show ?thesis using same by blast
  qed
  moreover have "\<exists>r. FSE_compress_usingCTable dst src ct = Some r" if "length dst < FSE_BLOCKBOUND (length src)"
    using that e(1) by (simp add: FSE_compress_usingCTable_def)
  moreover have "n \<le> length out' \<and> length out' = length dst \<and>
       (\<forall>dst' cap. length src \<le> cap \<and> cap \<le> length dst' \<longrightarrow> (\<exists>res. FSE_decompress_usingDTable dst' cap (take n out') dt = Some (Inr (length src, res)) \<and>
          take (length src) res = src \<and> length res = length dst'))"
    if "FSE_compress_usingCTable dst src ct = Some (n, out')" "n \<noteq> 0" for n out'
  proof -
    have no: "n = sz" "out' = out" using same [OF that(1)] by simp_all
    show ?thesis using finished_decoded [OF t(3) e(2)] e(2) that(2) unfolding no by (auto simp: finished_def)
  qed
  ultimately show ?thesis using t(1,2) by (intro exI [of _ ct] exI [of _ dt]) blast
qed

end
