(* ===== verification/Zstd_Counts.thy ===== *)
theory Zstd_Counts
  imports Zstd_Fse
begin

text \<open>
  Writing the counts of the symbols: \<open>FSE_writeNCount\<close> of \<open>src/zstd/compress/fse_compress.c\<close>. What follows a call that may
  fail with an error or leave its buffer is put behind it with \<open>and_next\<close>.
\<close>

definition and_next :: "'a result option \<Rightarrow> ('a \<Rightarrow> 'b result option) \<Rightarrow> 'b result option" where
  "and_next x f = (case x of None \<Rightarrow> None | Some (Inl e) \<Rightarrow> Some (Inl e) | Some (Inr y) \<Rightarrow> f y)"

lemma and_next_simps [simp]:
  "and_next None f = None" "and_next (Some (Inl e)) f = Some (Inl e)" "and_next (Some (Inr y)) f = f y"
  by (simp_all add: and_next_def)

lemma and_next_cong [fundef_cong]: "x = x' \<Longrightarrow> (\<And>y. x' = Some (Inr y) \<Longrightarrow> f y = f' y) \<Longrightarrow> and_next x f = and_next x' f'"
  by (auto simp: and_next_def split: option.split sum.split)

lemma and_next_Inr: "and_next x f = Some (Inr z) \<longleftrightarrow> (\<exists>y. x = Some (Inr y) \<and> f y = Some (Inr z))"
  by (auto simp: and_next_def split: option.split sum.split)

definition FSE_NCOUNTBOUND :: nat where "FSE_NCOUNTBOUND = 512"

definition FSE_NCountWriteBound :: "nat \<Rightarrow> nat \<Rightarrow> nat" where
  "FSE_NCountWriteBound maxSymbolValue tableLog =
     (if maxSymbolValue \<noteq> 0 then drop_bit 3 ((maxSymbolValue + 1) * tableLog) + 3 else FSE_NCOUNTBOUND)"

section \<open>The bit stream\<close>

text \<open>The local variables of \<open>FSE_writeNCount_generic\<close>; \<open>nw_out\<close> is the position of \<open>out\<close> in the header.\<close>

record nwriter =
  nw_header :: bytes
  nw_out :: nat
  nw_stream :: "32 word"
  nw_bits :: int
  nw_charnum :: nat
  nw_remaining :: int
  nw_threshold :: int
  nw_nbBits :: int
  nw_previous0 :: bool

definition left_shift :: "32 word \<Rightarrow> int \<Rightarrow> 32 word option" where
  "left_shift w n = (if 0 \<le> n \<and> n < 32 then Some (push_bit (nat n) w) else None)"

text \<open>The next two bytes; \<open>safe\<close> is \<open>writeIsSafe\<close>, without which there is a test for the end of the buffer.\<close>

definition put_pair :: "bool \<Rightarrow> nwriter \<Rightarrow> nwriter result option" where
  "put_pair safe w =
     (if \<not> safe \<and> int (nw_out w) > int (length (nw_header w)) - 2 then Some (Inl dstSize_tooSmall)
      else do {
        h \<leftarrow> store_at (nw_header w) (nw_out w) (ucast (nw_stream w));
        h \<leftarrow> store_at h (nw_out w + 1) (ucast (drop_bit 8 (nw_stream w)));
        Some (Inr (w\<lparr>nw_header := h\<rparr>))
      })"

definition flush_pair :: "bool \<Rightarrow> nwriter \<Rightarrow> nwriter result option" where
  "flush_pair safe w =
     and_next (put_pair safe w) (\<lambda>w. Some (Inr (w\<lparr>nw_out := nw_out w + 2, nw_stream := drop_bit 16 (nw_stream w)\<rparr>)))"

definition settle :: "bool \<Rightarrow> nwriter \<Rightarrow> nwriter result option" where
  "settle safe w =
     (if nw_bits w > 16 then and_next (flush_pair safe w) (\<lambda>w. Some (Inr (w\<lparr>nw_bits := nw_bits w - 16\<rparr>)))
      else Some (Inr w))"

section \<open>Runs of zeros\<close>

text \<open>\<open>while (!normalizedCounter[charnum]) charnum++\<close>\<close>

function skip_zeros :: "int list \<Rightarrow> nat \<Rightarrow> nat option" where
  "skip_zeros counts c = do {
     x \<leftarrow> fetch counts c;
     if x = 0 then skip_zeros counts (c + 1) else Some c
   }"
  by auto
termination by (relation "measure (\<lambda>(cs, c). length cs - c)") (auto simp: fetch_def split: if_splits)

declare skip_zeros.simps [simp del]

text \<open>The loops over \<open>start\<close>; \<open>n\<close> is \<open>charnum\<close>.\<close>

function write_24 :: "bool \<Rightarrow> nat \<Rightarrow> nat \<Rightarrow> nwriter \<Rightarrow> (nat \<times> nwriter) result option" where
  "write_24 safe n start w =
     (if n \<ge> start + 24 then do {
        x \<leftarrow> left_shift 0xFFFF (nw_bits w);
        and_next (flush_pair safe (w\<lparr>nw_stream := nw_stream w + x\<rparr>)) (write_24 safe n (start + 24))
      }
      else Some (Inr (start, w)))"
  by auto
termination by (relation "measure (\<lambda>(safe, n, start, w). n - start)") auto

function write_3 :: "nat \<Rightarrow> nat \<Rightarrow> nwriter \<Rightarrow> (nat \<times> nwriter) option" where
  "write_3 n start w =
     (if n \<ge> start + 3 then do {
        x \<leftarrow> left_shift 3 (nw_bits w);
        write_3 n (start + 3) (w\<lparr>nw_stream := nw_stream w + x, nw_bits := nw_bits w + 2\<rparr>)
      }
      else Some (start, w))"
  by auto
termination by (relation "measure (\<lambda>(n, start, w). n - start)") auto

declare write_24.simps [simp del] write_3.simps [simp del]

definition write_zeros :: "bool \<Rightarrow> int list \<Rightarrow> nwriter \<Rightarrow> nwriter result option" where
  "write_zeros safe counts w = do {
     n \<leftarrow> skip_zeros counts (nw_charnum w);
     and_next (write_24 safe n (nw_charnum w) w) (\<lambda>(start, w). do {
       (start, w) \<leftarrow> write_3 n start w;
       x \<leftarrow> left_shift (of_nat (n - start)) (nw_bits w);
       settle safe (w\<lparr>nw_stream := nw_stream w + x, nw_bits := nw_bits w + 2, nw_charnum := n\<rparr>)
     })
   }"

section \<open>Counts\<close>

definition write_count :: "bool \<Rightarrow> int list \<Rightarrow> nwriter \<Rightarrow> nwriter result option" where
  "write_count safe counts w = do {
     c \<leftarrow> fetch counts (nw_charnum w);
     let m = (2 * nw_threshold w - 1) - nw_remaining w;
     let rest = nw_remaining w - \<bar>c\<bar>;
     let count = (if c + 1 \<ge> nw_threshold w then c + 1 + m else c + 1);
     x \<leftarrow> left_shift (of_int count) (nw_bits w);
     if rest < 1 then Some (Inl GENERIC)
     else do {
       (t, nb) \<leftarrow> shrink rest (nw_threshold w) (nw_nbBits w);
       settle safe (w\<lparr>nw_stream := nw_stream w + x, nw_bits := nw_bits w + nw_nbBits w - (if count < m then 1 else 0),
         nw_charnum := nw_charnum w + 1, nw_remaining := rest, nw_threshold := t, nw_nbBits := nb, nw_previous0 := (count = 1)\<rparr>)
     }
   }"

definition nwrite_step :: "bool \<Rightarrow> int list \<Rightarrow> nwriter \<Rightarrow> nwriter result option" where
  "nwrite_step safe counts w =
     and_next (if nw_previous0 w then write_zeros safe counts w else Some (Inr w)) (write_count safe counts)"

lemma put_pair_charnum: "put_pair safe w = Some (Inr w') \<Longrightarrow> nw_charnum w' = nw_charnum w"
  by (auto simp: put_pair_def split: if_splits Option.bind_split_asm)

lemma flush_pair_charnum: "flush_pair safe w = Some (Inr w') \<Longrightarrow> nw_charnum w' = nw_charnum w"
  by (auto simp: flush_pair_def and_next_Inr dest: put_pair_charnum)

lemma settle_charnum: "settle safe w = Some (Inr w') \<Longrightarrow> nw_charnum w' = nw_charnum w"
  by (auto simp: settle_def and_next_Inr split: if_splits dest: flush_pair_charnum)

lemma skip_zeros_le: "skip_zeros counts c = Some n \<Longrightarrow> c \<le> n"
proof (induction counts c rule: skip_zeros.induct)
  case (1 counts c)
  then show ?case by (subst (asm) (2) skip_zeros.simps) (auto split: Option.bind_split_asm if_splits)
qed

lemma write_zeros_charnum: "write_zeros safe counts w = Some (Inr w') \<Longrightarrow> nw_charnum w \<le> nw_charnum w'"
proof -
  assume "write_zeros safe counts w = Some (Inr w')"
  then obtain n start v start' v' x where "skip_zeros counts (nw_charnum w) = Some n" "write_3 n start v = Some (start', v')"
    "settle safe (v'\<lparr>nw_stream := nw_stream v' + x, nw_bits := nw_bits v' + 2, nw_charnum := n\<rparr>) = Some (Inr w')"
    unfolding write_zeros_def by (auto simp: and_next_Inr Option.bind_eq_Some_conv split: prod.split_asm)
  then show ?thesis using skip_zeros_le settle_charnum by force
qed

lemma write_count_charnum: "write_count safe counts w = Some (Inr w') \<Longrightarrow> nw_charnum w < length counts \<and> nw_charnum w' = nw_charnum w + 1"
  by (auto simp: write_count_def fetch_def Let_def split: Option.bind_split_asm prod.split_asm if_splits dest!: settle_charnum)

lemma nwrite_step_charnum: "nwrite_step safe counts w = Some (Inr w') \<Longrightarrow> nw_charnum w < length counts \<and> nw_charnum w < nw_charnum w'"
  by (auto simp: nwrite_step_def and_next_Inr split: if_splits dest!: write_zeros_charnum write_count_charnum)

function nwrite_loop :: "bool \<Rightarrow> int list \<Rightarrow> nwriter \<Rightarrow> nwriter result option" where
  "nwrite_loop safe counts w =
     (if nw_remaining w > 1 then and_next (nwrite_step safe counts w) (nwrite_loop safe counts) else Some (Inr w))"
  by auto
termination
  by (relation "measure (\<lambda>(safe, counts, w). length counts - nw_charnum w)") (auto dest!: nwrite_step_charnum)

declare nwrite_loop.simps [simp del]

text \<open>What is returned is the number of bytes and the header.\<close>

definition FSE_writeNCount_generic :: "bytes \<Rightarrow> int list \<Rightarrow> nat \<Rightarrow> nat \<Rightarrow> bool \<Rightarrow> (nat \<times> bytes) result option" where
  "FSE_writeNCount_generic header counts maxSymbolValue tableLog safe =
     and_next (nwrite_loop safe counts
       \<lparr>nw_header = header, nw_out = 0, nw_stream = of_nat tableLog - of_nat FSE_MIN_TABLELOG, nw_bits = 4, nw_charnum = 0,
         nw_remaining = 2 ^ tableLog + 1, nw_threshold = 2 ^ tableLog, nw_nbBits = int tableLog + 1, nw_previous0 = False\<rparr>)
     (\<lambda>w. and_next (put_pair safe w) (\<lambda>w.
       Some (if nw_charnum w > maxSymbolValue + 1 then Inl GENERIC
         else Inr (nw_out w + nat ((nw_bits w + 7) div 8), nw_header w))))"

definition FSE_writeNCount :: "bytes \<Rightarrow> int list \<Rightarrow> nat \<Rightarrow> nat \<Rightarrow> (nat \<times> bytes) result option" where
  "FSE_writeNCount buffer counts maxSymbolValue tableLog =
     (if tableLog > FSE_MAX_TABLELOG then Some (Inl tableLog_tooLarge)
      else if tableLog < FSE_MIN_TABLELOG then Some (Inl GENERIC)
      else FSE_writeNCount_generic buffer counts maxSymbolValue tableLog
        (length buffer \<ge> FSE_NCountWriteBound maxSymbolValue tableLog))"

end
