(* ===== verification/Zstd_Counts_Spec.thy ===== *)
theory Zstd_Counts_Spec
  imports Zstd_Bits_Spec Zstd_Cells_Spec Zstd_Counts
begin

text \<open>
  What \<open>FSE_writeNCount\<close> writes, as a sequence of fields.
\<close>

section \<open>Fields\<close>

text \<open>A value and its width; the first field is the lowest.\<close>

type_synonym nfield = "nat \<times> nat"

fun lsb :: "nfield list \<Rightarrow> nat" where
  "lsb [] = 0"
| "lsb ((v, m) # fs) = v + 2 ^ m * lsb fs"

definition wd :: "nfield list \<Rightarrow> nat" where
  "wd fs = sum_list (map snd fs)"

definition fit :: "nfield list \<Rightarrow> bool" where
  "fit fs \<longleftrightarrow> (\<forall>(v, m) \<in> set fs. v < 2 ^ m)"

lemma wd_simps [simp]: "wd [] = 0" "wd (f # fs) = snd f + wd fs" "wd (fs @ gs) = wd fs + wd gs"
  by (simp_all add: wd_def)

lemma fit_simps [simp]: "fit []" "fit (f # fs) \<longleftrightarrow> fst f < 2 ^ snd f \<and> fit fs" "fit (fs @ gs) \<longleftrightarrow> fit fs \<and> fit gs"
  by (auto simp: fit_def)

lemma lsb_append: "lsb (fs @ gs) = lsb fs + 2 ^ wd fs * lsb gs"
  by (induction fs rule: lsb.induct) (simp_all add: algebra_simps power_add)

lemma lsb_less: "fit fs \<Longrightarrow> lsb fs < 2 ^ wd fs"
proof (induction fs rule: lsb.induct)
  case (2 v m fs)
  then have "v + 2 ^ m * lsb fs < 2 ^ m * (lsb fs + 1)" by simp
  also have "\<dots> \<le> 2 ^ m * 2 ^ wd fs" using 2 by (intro mult_le_mono2) simp
  finally show ?case by (simp add: power_add)
qed simp

section \<open>What a call may return\<close>

text \<open>Whatever it returns has the property, and with enough room it does return.\<close>

definition outcome :: "bool \<Rightarrow> 'a result option \<Rightarrow> ('a \<Rightarrow> bool) \<Rightarrow> bool" where
  "outcome room r P \<longleftrightarrow> (\<forall>x. r = Some (Inr x) \<longrightarrow> P x) \<and> (room \<longrightarrow> (\<exists>x. r = Some (Inr x)))"

lemma outcome_Inr [simp]: "outcome room (Some (Inr x)) P \<longleftrightarrow> P x"
  by (auto simp: outcome_def)

lemma outcome_then:
  assumes "outcome room x P" "\<And>y. P y \<Longrightarrow> outcome room (f y) Q"
  shows "outcome room (and_next x f) Q"
  using assms by (fastforce simp: outcome_def and_next_Inr)

lemma outcome_mono: "outcome room r P \<Longrightarrow> (\<And>x. P x \<Longrightarrow> Q x) \<Longrightarrow> outcome room r Q"
  by (auto simp: outcome_def)

section \<open>The writer\<close>

text \<open>The invariant of the stream: what is in the header and the \<open>b\<close> bits of the register.\<close>

definition written_fields :: "nat \<Rightarrow> bytes \<Rightarrow> nat \<Rightarrow> 32 word \<Rightarrow> nat \<Rightarrow> nfield list \<Rightarrow> bool" where
  "written_fields cap h p s b fs \<longleftrightarrow> length h = cap \<and> p \<le> cap \<and> unat s < 2 ^ b \<and> fit fs \<and>
     le_nat (take p h) + 2 ^ (8 * p) * unat s = lsb fs \<and> wd fs = 8 * p + b"

lemma field_added:
  assumes h: "written_fields cap h p s b fs" and v: "v < 2 ^ m" "b + m \<le> 32"
  shows "written_fields cap h p (s + push_bit b (of_nat v)) (b + m) (fs @ [(v, m)])"
proof -
  have s: "unat s < 2 ^ b" using h by (simp add: written_fields_def)
  have "2 ^ b * (v + 1) \<le> 2 ^ b * 2 ^ m" using v(1) by (intro mult_le_mono2) simp
  also have "\<dots> \<le> 2 ^ 32" using power_increasing [OF v(2), of "2 :: nat"] by (simp add: power_add)
  finally have top: "2 ^ b * (v + 1) \<le> 2 ^ 32" .
  have "2 ^ b * v + unat s < 2 ^ b * (v + 1)" using s by simp
  then have small: "2 ^ b * v + unat s < 2 ^ 32" "2 ^ b * v + unat s < 2 ^ (b + m)"
    using top \<open>2 ^ b * (v + 1) \<le> 2 ^ b * 2 ^ m\<close> unfolding power_add by linarith+
  have "push_bit b (of_nat v :: 32 word) = of_nat (2 ^ b * v)" by (simp add: push_bit_eq_mult mult.commute)
  moreover have "unat (of_nat (2 ^ b * v) :: 32 word) = 2 ^ b * v"
    using small(1) by (simp only: unsigned_of_nat) (simp add: take_bit_nat_eq_self)
  ultimately have u: "unat (s + push_bit b (of_nat v)) = unat s + 2 ^ b * v" using small(1) by (simp add: unat_word_ariths)
  have "2 ^ (8 * p) * (unat s + 2 ^ b * v) = 2 ^ (8 * p) * unat s + 2 ^ wd fs * v"
    using h by (simp add: written_fields_def distrib_left power_add)
  then show ?thesis using h small(2) v(1) unfolding written_fields_def u lsb_append by (simp add: add.commute)
qed

lemma pair_bytes:
  fixes s :: "32 word"
  shows "unat (ucast s :: byte) + 256 * unat (ucast (drop_bit 8 s) :: byte) = unat s mod 2 ^ 16"
proof -
  have "unat s < 2 ^ LENGTH(32)" by (rule unsigned_less)
  then have "unat s mod 4294967296 = unat s" by simp
  then have "unat (ucast s :: byte) = unat s mod 256" "unat (ucast (drop_bit 8 s) :: byte) = unat s div 256 mod 256"
    by (simp_all add: unsigned_ucast_eq unsigned_drop_bit_eq take_bit_eq_mod drop_bit_nat_def)
  moreover have "unat s mod (256 * 256) = 256 * (unat s div 256 mod 256) + unat s mod 256" by (rule mod_mult2_eq)
  ultimately show ?thesis by simp
qed

lemma pair_put:
  fixes s :: "32 word"
  assumes h: "length h = cap" "p + 2 \<le> cap"
  shows "\<exists>h'. store_at h p (ucast s) = Some (h[p := ucast s]) \<and> store_at (h[p := ucast s]) (p + 1) (ucast (drop_bit 8 s)) = Some h' \<and>
    length h' = cap \<and> le_nat (take (p + 2) h') = le_nat (take p h) + 2 ^ (8 * p) * (unat s mod 2 ^ 16)"
proof -
  let ?h = "h[p := ucast s, p + 1 := ucast (drop_bit 8 s)]"
  have "take (p + 2) ?h = take p h @ [ucast s, ucast (drop_bit 8 s)]"
    using h by (simp add: take_Suc_conv_app_nth numeral_2_eq_2)
  then have "le_nat (take (p + 2) ?h) = le_nat (take p h) + 2 ^ (8 * p) * (unat s mod 2 ^ 16)"
    using h pair_bytes [of s] by (simp add: le_nat_append)
  then show ?thesis using h by (intro exI [of _ ?h]) (simp add: store_at_def)
qed

text \<open>The writer \<open>w\<close> with \<open>b\<close> bits in its register.\<close>

definition writes :: "nat \<Rightarrow> nat \<Rightarrow> nfield list \<Rightarrow> nwriter \<Rightarrow> bool" where
  "writes cap b fs w \<longleftrightarrow> written_fields cap (nw_header w) (nw_out w) (nw_stream w) b fs"

text \<open>What only the stream changes.\<close>

definition streamed :: "nwriter \<Rightarrow> nwriter \<Rightarrow> bool" where
  "streamed w w' \<longleftrightarrow> nw_charnum w' = nw_charnum w \<and> nw_remaining w' = nw_remaining w \<and> nw_threshold w' = nw_threshold w \<and>
     nw_nbBits w' = nw_nbBits w \<and> nw_previous0 w' = nw_previous0 w"

lemma streamed_trans: "streamed u v \<Longrightarrow> streamed v w \<Longrightarrow> streamed u w"
  by (simp add: streamed_def)

lemma put_outcome:
  assumes w: "writes cap b fs w" and room: "room \<longrightarrow> wd fs + 16 \<le> 8 * cap"
  shows "outcome room (put_pair safe w) (\<lambda>w'. \<exists>h. w' = w\<lparr>nw_header := h\<rparr> \<and> length h = cap \<and> nw_out w + 2 \<le> cap \<and>
    le_nat (take (nw_out w + 2) h) = le_nat (take (nw_out w) (nw_header w)) + 2 ^ (8 * nw_out w) * (unat (nw_stream w) mod 2 ^ 16))"
proof (cases "nw_out w + 2 \<le> cap")
  case True
  have "length (nw_header w) = cap" using w by (simp add: writes_def written_fields_def)
  then show ?thesis using pair_put [of "nw_header w" cap "nw_out w" "nw_stream w"] True by (fastforce simp: put_pair_def)
next
  case False
  have "length (nw_header w) = cap" "wd fs = 8 * nw_out w + b" using w by (simp_all add: writes_def written_fields_def)
  then show ?thesis using False room by (auto simp: put_pair_def outcome_def store_at_def split: if_splits)
qed

lemma flush_outcome:
  assumes w: "writes cap b fs w" and b: "16 \<le> b" and room: "room \<longrightarrow> wd fs + 16 \<le> 8 * cap"
  shows "outcome room (flush_pair safe w) (\<lambda>w'. writes cap (b - 16) fs w' \<and> streamed w w' \<and> nw_bits w' = nw_bits w)"
  unfolding flush_pair_def
proof (rule outcome_then [OF put_outcome [OF w room]])
  fix v assume "\<exists>h. v = w\<lparr>nw_header := h\<rparr> \<and> length h = cap \<and> nw_out w + 2 \<le> cap \<and>
    le_nat (take (nw_out w + 2) h) = le_nat (take (nw_out w) (nw_header w)) + 2 ^ (8 * nw_out w) * (unat (nw_stream w) mod 2 ^ 16)"
  then obtain h where v: "v = w\<lparr>nw_header := h\<rparr>" "length h = cap" "nw_out w + 2 \<le> cap"
    "le_nat (take (nw_out w + 2) h) = le_nat (take (nw_out w) (nw_header w)) + 2 ^ (8 * nw_out w) * (unat (nw_stream w) mod 2 ^ 16)" by blast
  note w = w [unfolded writes_def written_fields_def]
  have u: "unat (drop_bit 16 (nw_stream w)) = unat (nw_stream w) div 2 ^ 16" by (simp only: unat_drop_bit_eq drop_bit_nat_def)
  have p: "(2 :: nat) ^ (8 * (nw_out w + 2)) = 2 ^ (8 * nw_out w) * 2 ^ 16" by (simp add: power_add)
  have "le_nat (take (nw_out w + 2) h) + 2 ^ (8 * (nw_out w + 2)) * (unat (nw_stream w) div 2 ^ 16) =
      le_nat (take (nw_out w) (nw_header w)) + 2 ^ (8 * nw_out w) * (unat (nw_stream w) mod 2 ^ 16 + 2 ^ 16 * (unat (nw_stream w) div 2 ^ 16))"
    unfolding v(4) p by (simp only: distrib_left mult.assoc add.assoc)
  also have "\<dots> = lsb fs" using w unfolding mod_mult_div_eq by simp
  finally have "le_nat (take (nw_out w + 2) h) + 2 ^ (8 * (nw_out w + 2)) * (unat (nw_stream w) div 2 ^ 16) = lsb fs" .
  moreover have "(2 :: nat) ^ b = 2 ^ (b - 16) * 2 ^ 16" using b by (simp only: power_add [symmetric] le_add_diff_inverse2)
  then have "unat (nw_stream w) div 2 ^ 16 < 2 ^ (b - 16)" using w by (simp add: less_mult_imp_div_less)
  moreover have "wd fs = 8 * (nw_out w + 2) + (b - 16)" using w b by simp
  ultimately have "written_fields cap h (nw_out w + 2) (drop_bit 16 (nw_stream w)) (b - 16) fs"
    using w v(2,3) unfolding written_fields_def u by blast
  then show "outcome room (Some (Inr (v\<lparr>nw_out := nw_out v + 2, nw_stream := drop_bit 16 (nw_stream v)\<rparr>)))
      (\<lambda>w'. writes cap (b - 16) fs w' \<and> streamed w w' \<and> nw_bits w' = nw_bits w)"
    unfolding v(1) by (simp add: writes_def streamed_def)
qed

text \<open>Between the steps there are at most 16 bits in the register.\<close>

definition settled :: "nat \<Rightarrow> nfield list \<Rightarrow> nwriter \<Rightarrow> bool" where
  "settled cap fs w \<longleftrightarrow> (\<exists>b \<le> 16. nw_bits w = int b \<and> writes cap b fs w)"

lemma settle_outcome:
  assumes w: "writes cap b fs w" "nw_bits w = int b" "b \<le> 32" and room: "room \<longrightarrow> wd fs + 16 \<le> 8 * cap"
  shows "outcome room (settle safe w) (\<lambda>w'. settled cap fs w' \<and> streamed w w')"
proof (cases "16 < b")
  case True
  then have b: "16 \<le> b" by simp
  have "outcome room (and_next (flush_pair safe w) (\<lambda>w. Some (Inr (w\<lparr>nw_bits := nw_bits w - 16\<rparr>)))) (\<lambda>w'. settled cap fs w' \<and> streamed w w')"
  proof (rule outcome_then [OF flush_outcome [OF w(1) b room]])
    fix v assume v: "writes cap (b - 16) fs v \<and> streamed w v \<and> nw_bits v = nw_bits w"
    then have "writes cap (b - 16) fs (v\<lparr>nw_bits := nw_bits v - 16\<rparr>)" by (simp add: writes_def)
    moreover have "nw_bits v - 16 = int (b - 16)" "b - 16 \<le> 16" using v w(2,3) b by (simp_all add: of_nat_diff)
    ultimately show "outcome room (Some (Inr (v\<lparr>nw_bits := nw_bits v - 16\<rparr>))) (\<lambda>w'. settled cap fs w' \<and> streamed w w')"
      using v by (auto simp: settled_def streamed_def)
  qed
  then show ?thesis using True w(2) by (simp add: settle_def)
next
  case False
  then show ?thesis using w by (auto simp: settle_def settled_def streamed_def)
qed

section \<open>Zeros\<close>

lemma shift_in: "b < 32 \<Longrightarrow> left_shift x (int b) = Some (push_bit b x)"
  by (simp add: left_shift_def)

lemma stream_added:
  assumes "writes cap b fs w" "v < 2 ^ m" "b + m \<le> 32"
  shows "writes cap (b + m) (fs @ [(v, m)]) (w\<lparr>nw_stream := nw_stream w + push_bit b (of_nat v)\<rparr>)"
  using field_added [of cap "nw_header w" "nw_out w" "nw_stream w" b fs v m] assms by (simp add: writes_def)

lemma write_24_outcome:
  assumes w: "writes cap b fs w" "nw_bits w = int b" "b \<le> 16" and room: "room \<longrightarrow> wd fs + 16 * ((n - start) div 24) + 16 \<le> 8 * cap"
  shows "outcome room (write_24 safe n start w) (\<lambda>(start', w'). start' = start + 24 * ((n - start) div 24) \<and>
    writes cap b (fs @ replicate ((n - start) div 24) (0xFFFF, 16)) w' \<and> nw_bits w' = int b \<and> streamed w w')"
  using assms
proof (induction "n - start" arbitrary: start fs w rule: less_induct)
  case less
  show ?case
  proof (cases "n \<ge> start + 24")
    case False
    then have "n - start < 24" by simp
    then have "(n - start) div 24 = 0" by (rule div_less)
    moreover have "write_24 safe n start w = Some (Inr (start, w))" using False by (subst write_24.simps) simp
    ultimately show ?thesis using less.prems by (simp add: streamed_def)
  next
    case True
    let ?v = "w\<lparr>nw_stream := nw_stream w + push_bit b (of_nat 0xFFFF)\<rparr>"
    have v: "writes cap (b + 16) (fs @ [(0xFFFF, 16)]) ?v" using less.prems(1,3) by (intro stream_added) simp_all
    define k where "k = (n - (start + 24)) div 24"
    have "n - start = n - (start + 24) + 24" using True by simp
    then have "(n - start) div 24 = (n - (start + 24) + 24) div 24" by (rule arg_cong)
    also have "\<dots> = Suc k" unfolding k_def by (subst div_add_self2) simp_all
    finally have q: "(n - start) div 24 = Suc k" .
    have step: "write_24 safe n start w = and_next (flush_pair safe ?v) (write_24 safe n (start + 24))"
      using True less.prems(2,3) by (subst write_24.simps) (simp add: shift_in)
    show ?thesis unfolding step
    proof (rule outcome_then [OF flush_outcome [OF v]])
      show "room \<longrightarrow> wd (fs @ [(0xFFFF, 16)]) + 16 \<le> 8 * cap" using less.prems(4) unfolding q by auto
      fix u assume u: "writes cap (b + 16 - 16) (fs @ [(0xFFFF, 16)]) u \<and> streamed ?v u \<and> nw_bits u = nw_bits ?v"
      have "outcome room (write_24 safe n (start + 24) u) (\<lambda>(start', w'). start' = start + 24 + 24 * ((n - (start + 24)) div 24) \<and>
          writes cap b ((fs @ [(0xFFFF, 16)]) @ replicate ((n - (start + 24)) div 24) (0xFFFF, 16)) w' \<and> nw_bits w' = int b \<and> streamed u w')"
      proof (rule less.hyps)
        show "room \<longrightarrow> wd (fs @ [(0xFFFF, 16)]) + 16 * ((n - (start + 24)) div 24) + 16 \<le> 8 * cap"
          using less.prems(4) q unfolding k_def [symmetric] by simp
      qed (use u True less.prems(2,3) in simp_all)
      then show "outcome room (write_24 safe n (start + 24) u) (\<lambda>(start', w'). start' = start + 24 * ((n - start) div 24) \<and>
          writes cap b (fs @ replicate ((n - start) div 24) (0xFFFF, 16)) w' \<and> nw_bits w' = int b \<and> streamed w w')"
        by (rule outcome_mono) (use u in \<open>auto simp: q k_def [symmetric] streamed_def\<close>)
    qed simp
  qed
qed

lemma write_3_exact:
  assumes "writes cap b fs w" "nw_bits w = int b" "b + 2 * ((n - start) div 3) \<le> 30"
  shows "\<exists>w'. write_3 n start w = Some (start + 3 * ((n - start) div 3), w') \<and> nw_bits w' = int (b + 2 * ((n - start) div 3)) \<and>
    writes cap (b + 2 * ((n - start) div 3)) (fs @ replicate ((n - start) div 3) (3, 2)) w' \<and> streamed w w'"
  using assms
proof (induction "n - start" arbitrary: start b fs w rule: less_induct)
  case less
  show ?case
  proof (cases "n \<ge> start + 3")
    case False
    then have "n - start < 3" by simp
    then have "(n - start) div 3 = 0" by (rule div_less)
    moreover have "write_3 n start w = Some (start, w)" using False by (subst write_3.simps) simp
    ultimately show ?thesis using less.prems by (simp add: streamed_def)
  next
    case True
    let ?v = "w\<lparr>nw_stream := nw_stream w + push_bit b (of_nat 3), nw_bits := nw_bits w + 2\<rparr>"
    define k where "k = (n - (start + 3)) div 3"
    have "n - start = n - (start + 3) + 3" using True by simp
    then have "(n - start) div 3 = (n - (start + 3) + 3) div 3" by (rule arg_cong)
    also have "\<dots> = Suc k" unfolding k_def by (subst div_add_self2) simp_all
    finally have q: "(n - start) div 3 = Suc k" .
    have b: "b + 2 + 2 * k \<le> 30" using less.prems(3) q by simp
    have "writes cap (b + 2) (fs @ [(3, 2)]) (w\<lparr>nw_stream := nw_stream w + push_bit b (of_nat 3)\<rparr>)" using less.prems(1) b by (intro stream_added) simp_all
    then have v: "writes cap (b + 2) (fs @ [(3, 2)]) ?v" by (simp add: writes_def)
    have lt: "n - (start + 3) < n - start" using True by simp
    have step: "write_3 n start w = write_3 n (start + 3) ?v"
      using True less.prems(2) b by (subst write_3.simps) (simp add: shift_in)
    obtain w' where "write_3 n (start + 3) ?v = Some (start + 3 + 3 * k, w')" "nw_bits w' = int (b + 2 + 2 * k)"
      "writes cap (b + 2 + 2 * k) ((fs @ [(3, 2)]) @ replicate k (3, 2)) w'" "streamed ?v w'"
      using less.hyps [OF lt v _ b [unfolded k_def]] less.prems(2) unfolding k_def [symmetric] by auto
    then show ?thesis unfolding step q by (intro exI [of _ w']) (simp add: streamed_def)
  qed
qed

definition zfields :: "nat \<Rightarrow> nfield list" where
  "zfields z = replicate (z div 24) (0xFFFF, 16) @ replicate (z mod 24 div 3) (3, 2) @ [(z mod 3, 2)]"

lemma write_zeros_outcome:
  assumes w: "settled cap fs w" and z: "skip_zeros counts (nw_charnum w) = Some (nw_charnum w + z)"
    and room: "room \<longrightarrow> wd (fs @ zfields z) + 16 \<le> 8 * cap"
  shows "outcome room (write_zeros safe counts w) (\<lambda>w'. settled cap (fs @ zfields z) w' \<and> streamed (w\<lparr>nw_charnum := nw_charnum w + z\<rparr>) w')"
proof -
  let ?n = "nw_charnum w + z" and ?q = "z div 24" and ?r = "z mod 24 div 3"
  obtain b where b: "b \<le> 16" "nw_bits w = int b" "writes cap b fs w" using w by (auto simp: settled_def)
  have q: "(?n - nw_charnum w) div 24 = ?q" by simp
  have len: "room \<longrightarrow> wd fs + 16 * ?q + 16 \<le> 8 * cap" using room by (auto simp: zfields_def wd_def sum_list_replicate)
  have z24: "z = 24 * ?q + z mod 24" "z mod 24 < 24" "z mod 24 = 3 * ?r + z mod 3"
  proof -
    show "z = 24 * ?q + z mod 24" "z mod 24 < 24" by simp_all
    have "z mod 24 = 3 * ?r + z mod 24 mod 3" by simp
    then show "z mod 24 = 3 * ?r + z mod 3" by (simp add: mod_mod_cancel)
  qed
  show ?thesis
    unfolding write_zeros_def z Option.bind_lunit
  proof (rule outcome_then [OF write_24_outcome [OF b(3,2,1), of room ?n "nw_charnum w", unfolded q, OF len]])
    fix y assume y: "case y of (start', w') \<Rightarrow> start' = nw_charnum w + 24 * ?q \<and> writes cap b (fs @ replicate ?q (0xFFFF, 16)) w' \<and>
      nw_bits w' = int b \<and> streamed w w'"
    obtain start v where sv: "y = (start, v)" "start = nw_charnum w + 24 * ?q" "writes cap b (fs @ replicate ?q (0xFFFF, 16)) v"
      "nw_bits v = int b" "streamed w v" using y by (cases y) auto
    have r: "?n - start = z mod 24" using z24(1) sv(2) by linarith
    have "?r < 8" by (rule less_mult_imp_div_less) simp
    then have "b + 2 * ?r \<le> 30" using b(1) by linarith
    then obtain u where u: "write_3 ?n start v = Some (start + 3 * ?r, u)" "nw_bits u = int (b + 2 * ?r)"
      "writes cap (b + 2 * ?r) ((fs @ replicate ?q (0xFFFF, 16)) @ replicate ?r (3, 2)) u" "streamed v u"
      using write_3_exact [OF sv(3,4), of ?n start] unfolding r by blast
    have e: "?n - (start + 3 * ?r) = z mod 3" using r z24(3) by linarith
    have k: "b + 2 * ?r < 32" "b + 2 * ?r + 2 \<le> 32" using \<open>b + 2 * ?r \<le> 30\<close> by simp_all
    let ?u = "u\<lparr>nw_stream := nw_stream u + push_bit (b + 2 * ?r) (of_nat (z mod 3)), nw_bits := nw_bits u + 2, nw_charnum := ?n\<rparr>"
    have "z mod 3 < 2 ^ 2" by (rule less_trans [OF mod_less_divisor]) simp_all
    then have "writes cap (b + 2 * ?r + 2) (fs @ zfields z) ?u"
      using stream_added [OF u(3) _ k(2), of "z mod 3"] by (simp add: writes_def zfields_def)
    moreover have "nw_bits ?u = int (b + 2 * ?r + 2)" using u(2) by simp
    ultimately have "outcome room (settle safe ?u) (\<lambda>w'. settled cap (fs @ zfields z) w' \<and> streamed ?u w')"
      using k(2) room by (rule settle_outcome)
    then have "outcome room (settle safe ?u) (\<lambda>w'. settled cap (fs @ zfields z) w' \<and> streamed (w\<lparr>nw_charnum := ?n\<rparr>) w')"
      by (rule outcome_mono) (use sv(5) u(4) in \<open>simp add: streamed_def\<close>)
    then show "outcome room (case y of (start, w) \<Rightarrow> Option.bind (write_3 ?n start w) (\<lambda>(start, w).
        Option.bind (left_shift (of_nat (?n - start)) (nw_bits w)) (\<lambda>x.
          settle safe (w\<lparr>nw_stream := nw_stream w + x, nw_bits := nw_bits w + 2, nw_charnum := ?n\<rparr>))))
      (\<lambda>w'. settled cap (fs @ zfields z) w' \<and> streamed (w\<lparr>nw_charnum := ?n\<rparr>) w')"
      unfolding sv(1) prod.case u(1) Option.bind_lunit e u(2) shift_in [OF k(1)] by simp
  qed
qed

section \<open>Counts\<close>

text \<open>The field of the count \<open>c\<close> when \<open>rest\<close> remains.\<close>

definition cfield :: "int \<Rightarrow> int \<Rightarrow> nfield" where
  "cfield rest c =
     (let j = highest_bit (nat rest); m = 2 * 2 ^ j - 1 - rest; k = (if c + 1 \<ge> 2 ^ j then c + 1 + m else c + 1)
      in (nat k, if k < m then j else j + 1))"

definition at_count :: "int \<Rightarrow> nat \<Rightarrow> bool \<Rightarrow> nwriter \<Rightarrow> bool" where
  "at_count rest n p w \<longleftrightarrow> nw_remaining w = rest \<and> nw_charnum w = n \<and> nw_previous0 w = p \<and>
     nw_threshold w = 2 ^ highest_bit (nat rest) \<and> nw_nbBits w = int (highest_bit (nat rest)) + 1"

lemma top_bit:
  assumes "1 \<le> rest" "rest \<le> 2 ^ l + 1" "0 < l"
  shows "2 ^ highest_bit (nat rest) \<le> rest" "rest < 2 * 2 ^ highest_bit (nat rest)" "highest_bit (nat rest) \<le> l"
proof -
  let ?j = "highest_bit (nat rest)"
  have b: "2 ^ ?j \<le> nat rest" "nat rest < 2 * 2 ^ ?j" using highest_bit_bounds [of "nat rest"] assms(1) by simp_all
  have "int (2 ^ ?j) \<le> int (nat rest)" "int (nat rest) < int (2 * 2 ^ ?j)" using b by (simp_all only: of_nat_le_iff of_nat_less_iff)
  then show "2 ^ ?j \<le> rest" "rest < 2 * 2 ^ ?j" using assms(1) by simp_all
  have "(1 :: nat) < 2 ^ l" using assms(3) by (intro one_less_power) simp_all
  moreover have "nat rest \<le> 2 ^ l + 1" using assms(2) by (simp add: nat_le_iff)
  ultimately have "nat rest < 2 * 2 ^ l" by linarith
  then show "?j \<le> l" using assms(1) by (intro highest_bit_le) simp_all
qed

lemma cfield_fit:
  assumes r: "1 < rest" "rest \<le> 2 ^ l + 1" "0 < l" and c: "-1 \<le> c" "\<bar>c\<bar> < rest"
  shows "fst (cfield rest c) < 2 ^ snd (cfield rest c)" "snd (cfield rest c) \<le> l + 1"
proof -
  obtain j where j: "highest_bit (nat rest) = j" by blast
  have t: "2 ^ j \<le> rest" "rest < 2 * 2 ^ j" "j \<le> l" using top_bit [of rest l] r j by simp_all
  let ?m = "2 * 2 ^ j - 1 - rest"
  let ?k = "if c + 1 \<ge> 2 ^ j then c + 1 + ?m else c + 1"
  have k: "0 \<le> ?k" "?k < 2 * 2 ^ j" "?k < ?m \<longrightarrow> ?k < 2 ^ j" using t c by (auto split: if_splits)
  have "nat ?k < 2 ^ (if ?k < ?m then j else j + 1)" using k by (cases "?k < ?m") (auto simp: nat_less_iff)
  then show "fst (cfield rest c) < 2 ^ snd (cfield rest c)" unfolding cfield_def j Let_def by simp
  show "snd (cfield rest c) \<le> l + 1" unfolding cfield_def j Let_def using t(3) by simp
qed

lemma shrink_next:
  assumes "1 \<le> rest" "rest < 2 * 2 ^ j"
  shows "shrink rest (2 ^ j) (int j + 1) = Some (2 ^ highest_bit (nat rest), int (highest_bit (nat rest)) + 1)"
proof -
  obtain i where i: "i \<le> j" "shrink rest (2 ^ j) (int j + 1) = Some (2 ^ i, int i + 1)" "2 ^ i \<le> rest" "rest < 2 * 2 ^ i"
    using shrink_ok [OF assms] by blast
  have "2 ^ i \<le> nat rest" "nat rest < 2 ^ Suc i" using i(3,4) assms(1) by (simp_all add: le_nat_iff nat_less_iff)
  then have "highest_bit (nat rest) = i" by (rule highest_bit_unique)
  then show ?thesis using i(2) by simp
qed

lemma write_count_outcome:
  assumes w: "settled cap fs w" "at_count rest n p w" and r: "1 < rest" "rest \<le> 2 ^ l + 1" "0 < l" "l \<le> 12"
    and c: "fetch counts n = Some c" "-1 \<le> c" "\<bar>c\<bar> < rest" and room: "room \<longrightarrow> wd (fs @ [cfield rest c]) + 16 \<le> 8 * cap"
  shows "outcome room (write_count safe counts w) (\<lambda>w'. settled cap (fs @ [cfield rest c]) w' \<and> at_count (rest - \<bar>c\<bar>) (n + 1) (c = 0) w')"
proof -
  obtain b where b: "b \<le> 16" "nw_bits w = int b" "writes cap b fs w" using w(1) by (auto simp: settled_def)
  obtain j where j: "highest_bit (nat rest) = j" by blast
  have t: "2 ^ j \<le> rest" "rest < 2 * 2 ^ j" "j \<le> l" using top_bit [of rest l] r j by simp_all
  let ?m = "2 * 2 ^ j - 1 - rest"
  let ?k = "if c + 1 \<ge> 2 ^ j then c + 1 + ?m else c + 1"
  have at: "nw_remaining w = rest" "nw_charnum w = n" "nw_threshold w = 2 ^ j" "nw_nbBits w = int j + 1" using w(2) j by (simp_all add: at_count_def)
  have f: "cfield rest c = (nat ?k, if ?k < ?m then j else j + 1)" unfolding cfield_def j Let_def by simp
  note fit = cfield_fit [OF r(1-3) c(2,3)]
  let ?x = "snd (cfield rest c)"
  have k0: "0 \<le> ?k" using t c by (auto split: if_splits)
  have w32: "(of_int ?k :: 32 word) = of_nat (fst (cfield rest c))" unfolding f using k0 by simp
  have x: "int ?x = nw_nbBits w - (if ?k < ?m then 1 else 0)" unfolding f at by simp
  have bx: "b + ?x \<le> 32" "b < 32" using fit(2) r(4) b(1) by simp_all
  have one: "?k = 1 \<longleftrightarrow> c = 0"
  proof -
    have "2 ^ j \<noteq> (1 :: int)" using t(1,2) r(1) by (cases j) simp_all
    moreover have "(1 :: int) \<le> 2 ^ j" by simp
    ultimately show ?thesis using t by (auto split: if_splits)
  qed
  let ?w = "w\<lparr>nw_stream := nw_stream w + push_bit b (of_int ?k), nw_bits := nw_bits w + nw_nbBits w - (if ?k < ?m then 1 else 0),
         nw_charnum := nw_charnum w + 1, nw_remaining := rest - \<bar>c\<bar>, nw_threshold := 2 ^ highest_bit (nat (rest - \<bar>c\<bar>)),
         nw_nbBits := int (highest_bit (nat (rest - \<bar>c\<bar>))) + 1, nw_previous0 := (?k = 1)\<rparr>"
  have "rest - \<bar>c\<bar> < 2 * 2 ^ j" "1 \<le> rest - \<bar>c\<bar>" using t(2) c(3) by simp_all
  then have sh: "shrink (rest - \<bar>c\<bar>) (2 ^ j) (int j + 1) = Some (2 ^ highest_bit (nat (rest - \<bar>c\<bar>)), int (highest_bit (nat (rest - \<bar>c\<bar>))) + 1)"
    by (intro shrink_next)
  have "write_count safe counts w = settle safe ?w"
    using c(1,3) b(2) bx(2) sh unfolding write_count_def at Let_def by (simp add: shift_in)
  moreover have "outcome room (settle safe ?w) (\<lambda>w'. settled cap (fs @ [cfield rest c]) w' \<and> streamed ?w w')"
  proof (rule settle_outcome)
    have "writes cap (b + ?x) (fs @ [(fst (cfield rest c), ?x)]) (w\<lparr>nw_stream := nw_stream w + push_bit b (of_nat (fst (cfield rest c)))\<rparr>)"
      using b(3) fit(1) bx(1) by (rule stream_added)
    then show "writes cap (b + ?x) (fs @ [cfield rest c]) ?w" unfolding w32 by (simp add: writes_def)
    show "nw_bits ?w = int (b + ?x)" using b(2) x by simp
  qed (use bx(1) room in simp_all)
  then have "outcome room (settle safe ?w) (\<lambda>w'. settled cap (fs @ [cfield rest c]) w' \<and> at_count (rest - \<bar>c\<bar>) (n + 1) (c = 0) w')"
    by (rule outcome_mono) (use at(2) one in \<open>simp add: streamed_def at_count_def\<close>)
  ultimately show ?thesis by simp
qed

section \<open>The header\<close>

text \<open>The fields of the counts \<open>cs\<close>, with \<open>p\<close> for a count of 0 before them.\<close>

function nfields :: "bool \<Rightarrow> int \<Rightarrow> int list \<Rightarrow> nfield list" where
  "nfields p rest cs =
     (if rest \<le> 1 then []
      else case dropWhile (\<lambda>c. p \<and> c = 0) cs of
        [] \<Rightarrow> []
      | c # cs' \<Rightarrow> (if p then zfields (length cs - length (c # cs')) else []) @ cfield rest c # nfields (c = 0) (rest - \<bar>c\<bar>) cs')"
  by auto
termination
proof (relation "measure (\<lambda>(p, rest, cs). length cs)", goal_cases)
  case (2 p rest cs c cs')
  have "length (dropWhile (\<lambda>c. p \<and> c = 0) cs) \<le> length cs" by (rule length_dropWhile_le)
  then show ?case using 2 by simp
qed simp

declare nfields.simps [simp del]

text \<open>The counts that are left make up what remains.\<close>

definition left_counts :: "int \<Rightarrow> int list \<Rightarrow> bool" where
  "left_counts rest cs \<longleftrightarrow> (\<forall>c \<in> set cs. -1 \<le> c) \<and> sum_list (map abs cs) = rest - 1"

lemma abs_sum_nonneg: "0 \<le> sum_list (map abs (cs :: int list))"
  by (rule sum_list_nonneg) auto

lemma drop_nonempty: "drop n xs \<noteq> [] \<Longrightarrow> n < length xs"
  by (metis drop_eq_Nil linorder_not_le)

lemma skip_zeros_drop:
  assumes "dropWhile (\<lambda>c. c = 0) (drop n (take m counts)) = c # cs'"
  shows "\<exists>z. skip_zeros counts n = Some (n + z) \<and> fetch counts (n + z) = Some c \<and> drop (n + z) (take m counts) = c # cs' \<and>
    z = length (drop n (take m counts)) - length (c # cs')"
  using assms
proof (induction counts n rule: skip_zeros.induct)
  case (1 counts n)
  then have "drop n (take m counts) \<noteq> []" by fastforce
  then have n: "n < length (take m counts)" by (rule drop_nonempty)
  have d: "drop n (take m counts) = counts ! n # drop (n + 1) (take m counts)" using n Cons_nth_drop_Suc [OF n] by simp
  have f: "fetch counts n = Some (counts ! n)" using n by (simp add: fetch_def)
  show ?case
  proof (cases "counts ! n = 0")
    case True
    then have e: "dropWhile (\<lambda>c. c = 0) (drop (n + 1) (take m counts)) = c # cs'" using "1.prems" unfolding d by simp
    obtain z where z: "skip_zeros counts (n + 1) = Some (n + 1 + z)" "fetch counts (n + 1 + z) = Some c" "drop (n + 1 + z) (take m counts) = c # cs'"
      "z = length (drop (n + 1) (take m counts)) - length (c # cs')"
      using "1.IH" [OF f True e] by blast
    have "length (c # cs') \<le> length (drop (n + 1) (take m counts))"
      using length_dropWhile_le [of "\<lambda>c. c = 0" "drop (n + 1) (take m counts)"] unfolding e .
    then have k: "z + 1 = length (drop n (take m counts)) - length (c # cs')" using n z(4) by simp
    have "skip_zeros counts n = skip_zeros counts (n + 1)" using f True by (subst skip_zeros.simps) simp
    moreover have "n + (z + 1) = n + 1 + z" by simp
    ultimately show ?thesis using z(1-3) k by (metis (no_types))
  next
    case False
    then have e: "drop n (take m counts) = c # cs'" using "1.prems" unfolding d by simp
    moreover have "skip_zeros counts n = Some n" using f False by (subst skip_zeros.simps) simp
    ultimately show ?thesis using f d by (intro exI [of _ 0]) auto
  qed
qed

lemma nonzero_left:
  assumes "left_counts rest cs" "1 < rest"
  shows "\<exists>c cs'. dropWhile (\<lambda>c. p \<and> c = 0) cs = c # cs' \<and> -1 \<le> c \<and> \<bar>c\<bar> < rest \<and> left_counts (rest - \<bar>c\<bar>) cs'"
proof -
  have z: "sum_list (map abs (takeWhile (\<lambda>c. p \<and> c = 0) cs)) = (0 :: int)"
    by (induction cs) auto
  have "sum_list (map abs cs) = sum_list (map abs (takeWhile (\<lambda>c. p \<and> c = 0) cs @ dropWhile (\<lambda>c. p \<and> c = 0) cs))" by simp
  also have "\<dots> = sum_list (map abs (dropWhile (\<lambda>c. p \<and> c = 0) cs))" unfolding map_append sum_list_append z by simp
  finally have s: "sum_list (map abs (dropWhile (\<lambda>c. p \<and> c = 0) cs)) = rest - 1" using assms(1) by (simp add: left_counts_def)
  then obtain c cs' where d: "dropWhile (\<lambda>c. p \<and> c = 0) cs = c # cs'" using assms(2) by (cases "dropWhile (\<lambda>c. p \<and> c = 0) cs") auto
  have "set (c # cs') \<subseteq> set cs" using set_dropWhileD [of _ "\<lambda>c. p \<and> c = 0" cs] unfolding d by blast
  then have "\<forall>x \<in> set (c # cs'). -1 \<le> x" using assms(1) by (auto simp: left_counts_def)
  moreover have "\<bar>c\<bar> + sum_list (map abs cs') = rest - 1" using s unfolding d by simp
  ultimately show ?thesis using d abs_sum_nonneg [of cs'] by (auto simp: left_counts_def)
qed

lemma step_outcome:
  assumes w: "settled cap fs w" "at_count rest n p w" and r: "1 < rest" "rest \<le> 2 ^ l + 1" "0 < l" "l \<le> 12"
    and c: "dropWhile (\<lambda>c. p \<and> c = 0) (drop n (take m counts)) = c # cs'" "-1 \<le> c" "\<bar>c\<bar> < rest"
    and gs: "gs = (if p then zfields (length (drop n (take m counts)) - length (c # cs')) else []) @ [cfield rest c]"
    and room: "room \<longrightarrow> wd (fs @ gs) + 16 \<le> 8 * cap"
  shows "\<exists>n' \<le> m. outcome room (nwrite_step safe counts w) (\<lambda>w'. settled cap (fs @ gs) w' \<and> at_count (rest - \<bar>c\<bar>) n' (c = 0) w') \<and>
    drop n' (take m counts) = cs'"
proof (cases p)
  case False
  then have d: "drop n (take m counts) = c # cs'" using c(1) by (simp add: dropWhile_eq_self_iff [THEN iffD2])
  have n: "n < length (take m counts)" by (rule drop_nonempty) (simp only: d, simp)
  have e: "drop n (take m counts) = counts ! n # drop (n + 1) (take m counts)" using n Cons_nth_drop_Suc [OF n] by simp
  have f: "fetch counts n = Some c" "drop (n + 1) (take m counts) = cs'" using d e n by (simp_all add: fetch_def)
  have g: "gs = [cfield rest c]" using gs False by simp
  have "outcome room (write_count safe counts w) (\<lambda>w'. settled cap (fs @ [cfield rest c]) w' \<and> at_count (rest - \<bar>c\<bar>) (n + 1) (c = 0) w')"
    using write_count_outcome [OF w r f(1) c(2,3)] room g by simp
  moreover have "nwrite_step safe counts w = write_count safe counts w" using w(2) False by (simp add: nwrite_step_def at_count_def)
  ultimately show ?thesis using f(2) g n by (intro exI [of _ "n + 1"]) simp
next
  case True
  then have "dropWhile (\<lambda>c. c = 0) (drop n (take m counts)) = c # cs'" using c(1) by simp
  then obtain z where z: "skip_zeros counts n = Some (n + z)" "fetch counts (n + z) = Some c" "drop (n + z) (take m counts) = c # cs'"
    "z = length (drop n (take m counts)) - length (c # cs')"
    using skip_zeros_drop by blast
  have g: "gs = zfields z @ [cfield rest c]" using gs True z(4) by simp
  have n: "n + z < length (take m counts)" by (rule drop_nonempty) (simp only: z(3), simp)
  then have "drop (n + z) (take m counts) = counts ! (n + z) # drop (n + z + 1) (take m counts)" using Cons_nth_drop_Suc [OF n] by simp
  then have d: "drop (n + z + 1) (take m counts) = cs'" using z(3) by simp
  have at: "nw_charnum w = n" "nw_previous0 w" using w(2) True by (simp_all add: at_count_def)
  have "outcome room (and_next (write_zeros safe counts w) (write_count safe counts))
      (\<lambda>w'. settled cap (fs @ gs) w' \<and> at_count (rest - \<bar>c\<bar>) (n + z + 1) (c = 0) w')"
  proof (rule outcome_then [OF write_zeros_outcome [OF w(1), of counts z]])
    show "skip_zeros counts (nw_charnum w) = Some (nw_charnum w + z)" using z(1) at(1) by simp
    show "room \<longrightarrow> wd (fs @ zfields z) + 16 \<le> 8 * cap" using room g by auto
    fix v assume v: "settled cap (fs @ zfields z) v \<and> streamed (w\<lparr>nw_charnum := nw_charnum w + z\<rparr>) v"
    then have "at_count rest (n + z) True v" using w(2) True by (simp add: at_count_def streamed_def)
    then show "outcome room (write_count safe counts v) (\<lambda>w'. settled cap (fs @ gs) w' \<and> at_count (rest - \<bar>c\<bar>) (n + z + 1) (c = 0) w')"
      using write_count_outcome [of cap "fs @ zfields z" v rest "n + z" True l counts c room] v r z(2) c(2,3) room g by simp
  qed
  moreover have "nwrite_step safe counts w = and_next (write_zeros safe counts w) (write_count safe counts)"
    using at(2) by (simp add: nwrite_step_def)
  ultimately show ?thesis using d n by (intro exI [of _ "n + z + 1"]) simp
qed

lemma loop_outcome:
  assumes "settled cap fs w" "at_count rest n p w" "rest \<le> 2 ^ l + 1" "0 < l" "l \<le> 12" "left_counts rest (drop n (take m counts))" "n \<le> m"
    and "room \<longrightarrow> wd (fs @ nfields p rest (drop n (take m counts))) + 16 \<le> 8 * cap"
  shows "outcome room (nwrite_loop safe counts w) (\<lambda>w'. settled cap (fs @ nfields p rest (drop n (take m counts))) w' \<and> nw_charnum w' \<le> m)"
  using assms
proof (induction "length (drop n (take m counts))" arbitrary: fs w rest n p rule: less_induct)
  case less
  note at = less.prems(2) [unfolded at_count_def]
  show ?case
  proof (cases "1 < rest")
    case False
    then have "nwrite_loop safe counts w = Some (Inr w)" using at by (subst nwrite_loop.simps) simp
    moreover have "nfields p rest (drop n (take m counts)) = []" using False by (subst nfields.simps) simp
    ultimately show ?thesis using less.prems(1,7) at by simp
  next
    case True
    let ?cs = "drop n (take m counts)"
    obtain c cs' where c: "dropWhile (\<lambda>c. p \<and> c = 0) ?cs = c # cs'" "-1 \<le> c" "\<bar>c\<bar> < rest" "left_counts (rest - \<bar>c\<bar>) cs'"
      using nonzero_left [OF less.prems(6) True] by blast
    have le: "length (c # cs') \<le> length ?cs" using length_dropWhile_le [of "\<lambda>c. p \<and> c = 0" ?cs] unfolding c(1) .
    let ?gs = "(if p then zfields (length ?cs - length (c # cs')) else []) @ [cfield rest c]"
    have nf: "nfields p rest ?cs = ?gs @ nfields (c = 0) (rest - \<bar>c\<bar>) cs'" using True c(1) by (subst nfields.simps) simp
    have "room \<longrightarrow> wd (fs @ ?gs) + 16 \<le> 8 * cap" using less.prems(8) unfolding nf by auto
    then obtain n' where n': "n' \<le> m" "drop n' (take m counts) = cs'"
      "outcome room (nwrite_step safe counts w) (\<lambda>w'. settled cap (fs @ ?gs) w' \<and> at_count (rest - \<bar>c\<bar>) n' (c = 0) w')"
      using step_outcome [OF less.prems(1,2) True less.prems(3-5) c(1-3) refl] by blast
    have "nwrite_loop safe counts w = and_next (nwrite_step safe counts w) (nwrite_loop safe counts)" using True at by (subst nwrite_loop.simps) simp
    moreover have "outcome room (and_next (nwrite_step safe counts w) (nwrite_loop safe counts))
        (\<lambda>w'. settled cap (fs @ nfields p rest ?cs) w' \<and> nw_charnum w' \<le> m)"
    proof (rule outcome_then [OF n'(3)])
      fix v assume v: "settled cap (fs @ ?gs) v \<and> at_count (rest - \<bar>c\<bar>) n' (c = 0) v"
      have "outcome room (nwrite_loop safe counts v) (\<lambda>w'. settled cap ((fs @ ?gs) @ nfields (c = 0) (rest - \<bar>c\<bar>) (drop n' (take m counts))) w' \<and> nw_charnum w' \<le> m)"
      proof (rule less.hyps)
        show "length (drop n' (take m counts)) < length ?cs" unfolding n'(2) using le by simp
        show "room \<longrightarrow> wd ((fs @ ?gs) @ nfields (c = 0) (rest - \<bar>c\<bar>) (drop n' (take m counts))) + 16 \<le> 8 * cap"
          using less.prems(8) unfolding n'(2) nf by simp
        show "left_counts (rest - \<bar>c\<bar>) (drop n' (take m counts))" unfolding n'(2) by (rule c(4))
      qed (use v less.prems(3-5) n'(1) in simp_all)
      then show "outcome room (nwrite_loop safe counts v) (\<lambda>w'. settled cap (fs @ nfields p rest ?cs) w' \<and> nw_charnum w' \<le> m)"
        unfolding n'(2) nf by simp
    qed
    ultimately show ?thesis by simp
  qed
qed

definition header_fields :: "nat \<Rightarrow> int list \<Rightarrow> nfield list" where
  "header_fields l cs = (l - 5, 4) # nfields False (2 ^ l + 1) cs"

lemma highest_of_table: "0 < l \<Longrightarrow> highest_bit (nat (2 ^ l + 1)) = l"
proof -
  assume "0 < l"
  then have "(1 :: nat) < 2 ^ l" by (intro one_less_power) simp_all
  moreover have "nat (2 ^ l + 1) = 2 ^ l + 1" by (simp add: nat_add_distrib nat_power_eq)
  ultimately show ?thesis by (intro highest_bit_unique) simp_all
qed

lemma generic_outcome:
  assumes l: "5 \<le> l" "l \<le> 12" and c: "left_counts (2 ^ l + 1) (take (sv + 1) counts)"
    and room: "room \<longrightarrow> wd (header_fields l (take (sv + 1) counts)) + 16 \<le> 8 * length header"
  shows "outcome room (FSE_writeNCount_generic header counts sv l safe) (\<lambda>(n, out). n = (wd (header_fields l (take (sv + 1) counts)) + 7) div 8 \<and>
    n \<le> length out \<and> length out = length header \<and> le_nat (take n out) = lsb (header_fields l (take (sv + 1) counts)))"
proof -
  let ?F = "header_fields l (take (sv + 1) counts)" and ?cap = "length header"
  let ?w = "\<lparr>nw_header = header, nw_out = 0, nw_stream = of_nat l - of_nat FSE_MIN_TABLELOG, nw_bits = 4, nw_charnum = 0,
         nw_remaining = 2 ^ l + 1, nw_threshold = 2 ^ l, nw_nbBits = int l + 1, nw_previous0 = False\<rparr>"
  have "(of_nat l - of_nat FSE_MIN_TABLELOG :: 32 word) = of_nat (l - 5)" using l by (simp add: FSE_MIN_TABLELOG_def of_nat_diff)
  moreover have "unat (of_nat (l - 5) :: 32 word) = l - 5"
  proof -
    have "l - 5 < 2 ^ 32" using l by simp
    then show ?thesis by (simp only: unsigned_of_nat) (simp add: take_bit_nat_eq_self)
  qed
  ultimately have u: "unat (of_nat l - of_nat FSE_MIN_TABLELOG :: 32 word) = l - 5" by simp
  have "writes ?cap 4 [(l - 5, 4)] ?w" using l unfolding writes_def written_fields_def nwriter.simps u by simp
  then have 1: "settled ?cap [(l - 5, 4)] ?w" by (auto simp: settled_def intro: exI [of _ 4])
  have 2: "at_count (2 ^ l + 1) 0 False ?w" using l highest_of_table [of l] by (simp add: at_count_def)
  have F: "?F = [(l - 5, 4)] @ nfields False (2 ^ l + 1) (drop 0 (take (sv + 1) counts))" by (simp add: header_fields_def)
  show ?thesis
    unfolding FSE_writeNCount_generic_def
  proof (rule outcome_then [OF loop_outcome [OF 1 2 order_refl]])
    show "0 < l" "l \<le> 12" "left_counts (2 ^ l + 1) (drop 0 (take (sv + 1) counts))" "0 \<le> sv + 1" using l c by simp_all
    show "room \<longrightarrow> wd ([(l - 5, 4)] @ nfields False (2 ^ l + 1) (drop 0 (take (sv + 1) counts))) + 16 \<le> 8 * ?cap"
      using room unfolding F by simp
    fix w assume "settled ?cap ([(l - 5, 4)] @ nfields False (2 ^ l + 1) (drop 0 (take (sv + 1) counts))) w \<and> nw_charnum w \<le> sv + 1"
    then obtain b where b: "b \<le> 16" "nw_bits w = int b" "writes ?cap b ?F w" "nw_charnum w \<le> sv + 1" unfolding F by (auto simp: settled_def)
    show "outcome room (and_next (put_pair safe w) (\<lambda>w. Some (if nw_charnum w > sv + 1 then Inl GENERIC
         else Inr (nw_out w + nat ((nw_bits w + 7) div 8), nw_header w)))) (\<lambda>(n, out). n = (wd ?F + 7) div 8 \<and>
      n \<le> length out \<and> length out = length header \<and> le_nat (take n out) = lsb ?F)"
    proof (rule outcome_then [OF put_outcome [OF b(3) room]])
      fix v assume "\<exists>h. v = w\<lparr>nw_header := h\<rparr> \<and> length h = ?cap \<and> nw_out w + 2 \<le> ?cap \<and>
        le_nat (take (nw_out w + 2) h) = le_nat (take (nw_out w) (nw_header w)) + 2 ^ (8 * nw_out w) * (unat (nw_stream w) mod 2 ^ 16)"
      then obtain h where v: "v = w\<lparr>nw_header := h\<rparr>" "length h = ?cap" "nw_out w + 2 \<le> ?cap"
        "le_nat (take (nw_out w + 2) h) = le_nat (take (nw_out w) (nw_header w)) + 2 ^ (8 * nw_out w) * (unat (nw_stream w) mod 2 ^ 16)" by blast
      note wf = b(3) [unfolded writes_def written_fields_def]
      let ?k = "(b + 7) div 8"
      have k: "?k \<le> 2" "b \<le> 8 * ?k" using b(1) by simp_all
      have "(2 :: nat) ^ b \<le> 2 ^ 16" using b(1) by (rule power_increasing) simp
      then have "unat (nw_stream w) mod 2 ^ 16 = unat (nw_stream w)" using wf by (intro mod_less) linarith
      then have all: "le_nat (take (nw_out w + 2) h) = lsb ?F" using v(4) wf by simp
      have "le_nat (take (nw_out w + ?k) h) = le_nat (take (nw_out w + ?k) (take (nw_out w + 2) h))" using k(1) by (simp add: min_def)
      also have "\<dots> = take_bit (8 * (nw_out w + ?k)) (lsb ?F)" unfolding all [symmetric] using k(1) v(2,3) by (intro le_nat_take) simp
      also have "\<dots> = lsb ?F"
      proof (rule take_bit_nat_eq_self)
        have "lsb ?F < 2 ^ wd ?F" using wf by (intro lsb_less) simp
        also have "\<dots> \<le> 2 ^ (8 * (nw_out w + ?k))" using wf k(2) by (intro power_increasing) simp_all
        finally show "lsb ?F < 2 ^ (8 * (nw_out w + ?k))" .
      qed
      finally have lsb: "le_nat (take (nw_out w + ?k) h) = lsb ?F" .
      have "nat ((nw_bits w + 7) div 8) = ?k" unfolding b(2) by (simp add: nat_div_distrib flip: of_nat_add)
      moreover have "(wd ?F + 7) div 8 = nw_out w + ?k" using wf by simp
      moreover have "nw_out w + ?k \<le> length h" using v(2,3) k(1) by simp
      ultimately show "outcome room (Some (if nw_charnum v > sv + 1 then Inl GENERIC
         else Inr (nw_out v + nat ((nw_bits v + 7) div 8), nw_header v))) (\<lambda>(n, out). n = (wd ?F + 7) div 8 \<and>
        n \<le> length out \<and> length out = length header \<and> le_nat (take n out) = lsb ?F)"
        using b(4) v(1,2) lsb by simp
    qed
  qed
qed

end
