(* ===== verification/Zstd_Header_Spec.thy ===== *)
theory Zstd_Header_Spec
  imports Zstd_Counts_Spec Zstd_Fse_Spec Zstd_Build_Spec
begin

text \<open>
  \<open>FSE_readNCount\<close> on the fields that \<open>FSE_writeNCount\<close> wrote, with at least one more byte behind them.
\<close>

section \<open>The fields ahead\<close>

definition ahead :: "bytes \<Rightarrow> nat \<Rightarrow> nfield list \<Rightarrow> bool" where
  "ahead src P fs \<longleftrightarrow> fit fs \<and> take_bit (wd fs) (drop_bit P (le_nat src)) = lsb fs \<and> P + wd fs + 8 \<le> 8 * length src"

text \<open>The register \<open>s\<close> holds what follows the \<open>b\<close> bits after the position \<open>p\<close>.\<close>

definition synced :: "bytes \<Rightarrow> nat \<Rightarrow> 32 word \<Rightarrow> nat \<Rightarrow> bool" where
  "synced src p s b \<longleftrightarrow> p + 4 \<le> length src \<and> b \<le> 32 \<and> unat s = take_bit (32 - b) (drop_bit (8 * p + b) (le_nat src))"

lemma ahead_append:
  assumes "ahead src P (fs @ gs)"
  shows "take_bit (wd fs) (drop_bit P (le_nat src)) = lsb fs" "ahead src (P + wd fs) gs"
proof -
  have f: "fit fs" "fit gs" and V: "take_bit (wd fs + wd gs) (drop_bit P (le_nat src)) = lsb fs + 2 ^ wd fs * lsb gs"
    using assms by (simp_all add: ahead_def lsb_append)
  have "take_bit (wd fs) (drop_bit P (le_nat src)) = take_bit (wd fs) (take_bit (wd fs + wd gs) (drop_bit P (le_nat src)))" by simp
  also have "\<dots> = lsb fs" unfolding V using lsb_less [OF f(1)] by (simp add: take_bit_eq_mod)
  finally show "take_bit (wd fs) (drop_bit P (le_nat src)) = lsb fs" .
  have "take_bit (wd gs) (drop_bit (P + wd fs) (le_nat src)) = drop_bit (wd fs) (take_bit (wd fs + wd gs) (drop_bit P (le_nat src)))"
    by (simp add: take_bit_drop_bit drop_bit_drop_bit ac_simps)
  also have "\<dots> = lsb gs" unfolding V using lsb_less [OF f(1)] by (simp add: drop_bit_eq_div)
  finally show "ahead src (P + wd fs) gs" using assms f by (simp add: ahead_def)
qed

lemma peek:
  assumes s: "synced src p s b" and a: "ahead src (8 * p + b) (fs @ gs)" and m: "b + wd fs \<le> 32"
  shows "take_bit (wd fs) (unat s) = lsb fs"
proof -
  have "take_bit (wd fs) (unat s) = take_bit (wd fs) (drop_bit (8 * p + b) (le_nat src))" using s m by (simp add: synced_def)
  then show ?thesis using ahead_append(1) [OF a] by simp
qed

lemma synced_drop:
  assumes "synced src p s b" "b + m \<le> 32"
  shows "synced src p (drop_bit m s) (b + m)"
proof -
  have "unat (drop_bit m s) = drop_bit m (take_bit (32 - b) (drop_bit (8 * p + b) (le_nat src)))"
    using assms by (simp only: unat_drop_bit_eq) (simp add: synced_def)
  also have "\<dots> = take_bit (32 - (b + m)) (drop_bit (8 * p + (b + m)) (le_nat src))"
    using assms(2) by (simp add: drop_bit_take_bit drop_bit_drop_bit ac_simps)
  finally show ?thesis using assms by (simp add: synced_def)
qed

lemma synced_read:
  assumes "p + 4 \<le> length src" "b \<le> 32"
  shows "\<exists>w. MEM_readLE32 src p = Some w \<and> synced src p (drop_bit b w) b"
proof -
  let ?w = "of_nat (le_nat (take 4 (drop p src))) :: 32 word"
  have v: "le_nat (take 4 (drop p src)) = take_bit 32 (drop_bit (8 * p) (le_nat src))"
    using assms(1) by (simp add: le_nat_take le_nat_drop)
  have "unat ?w = take_bit 32 (drop_bit (8 * p) (le_nat src))" unfolding v by (simp add: unsigned_of_nat)
  then have "synced src p ?w 0" using assms(1) by (simp add: synced_def)
  then have "synced src p (drop_bit b ?w) b" using synced_drop [of src p ?w 0 b] assms(2) by simp
  then show ?thesis using assms(1) by (simp add: MEM_readLE32_def)
qed

text \<open>Where the register is not refilled, it holds all that is left.\<close>

lemma room_end:
  assumes "ahead src (8 * p + b) fs" "length src \<le> p + 5"
  shows "b + wd fs \<le> 32"
  using assms by (simp add: ahead_def)

lemma room_field:
  assumes "ahead src (8 * p + b) (fs @ gs)" "p + 6 \<le> length src \<longrightarrow> b < 8" "wd fs \<le> 24"
  shows "b + wd fs \<le> 32"
proof (cases "p + 6 \<le> length src")
  case False
  then have "b + wd (fs @ gs) \<le> 32" by (intro room_end [OF assms(1)]) simp
  then show ?thesis by simp
qed (use assms in simp)

section \<open>Zeros\<close>

lemma and_mask: "(s :: 32 word) AND 0xFFFF = 0xFFFF \<longleftrightarrow> take_bit 16 (unat s) = 0xFFFF" "s AND 3 = 3 \<longleftrightarrow> take_bit 2 (unat s) = 3"
  "unat (s AND 3) = take_bit 2 (unat s)"
proof -
  have m: "(0xFFFF :: 32 word) = mask 16" "(3 :: 32 word) = mask 2" by (simp_all add: mask_eq_exp_minus_1)
  have t: "unat (s AND mask k) = take_bit k (unat s)" for k by (simp add: unsigned_take_bit_eq flip: take_bit_eq_mask)
  show "unat (s AND 3) = take_bit 2 (unat s)" unfolding m by (rule t)
  have "s AND 0xFFFF = 0xFFFF \<longleftrightarrow> unat (s AND 0xFFFF) = unat (0xFFFF :: 32 word)" "s AND 3 = 3 \<longleftrightarrow> unat (s AND 3) = unat (3 :: 32 word)"
    by (simp_all only: word_unat_eq_iff)
  moreover have "unat (s AND 0xFFFF) = take_bit 16 (unat s)" "unat (s AND 3) = take_bit 2 (unat s)" unfolding m by (rule t)+
  ultimately show "s AND 0xFFFF = 0xFFFF \<longleftrightarrow> take_bit 16 (unat s) = 0xFFFF" "s AND 3 = 3 \<longleftrightarrow> take_bit 2 (unat s) = 3" by simp_all
qed

definition threes :: "nat \<Rightarrow> nat \<Rightarrow> nfield list" where
  "threes r t = replicate r (3, 2) @ [(t, 2)]"

lemma wd_threes [simp]: "wd (threes r t) = 2 * r + 2"
  by (simp add: threes_def wd_def sum_list_replicate)

lemma lsb_threes: "lsb (threes r t) + 1 = 4 ^ r * (t + 1)"
  unfolding threes_def by (induction r) simp_all

lemma not_ones:
  assumes "take_bit (2 * r + 2) n = lsb (threes r t)" "t < 3" "r \<le> 7"
  shows "take_bit 16 n \<noteq> 0xFFFF"
proof
  assume "take_bit 16 n = 0xFFFF"
  moreover have "take_bit (2 * r + 2) n = take_bit (2 * r + 2) (take_bit 16 n)" using assms(3) by simp
  ultimately have "take_bit (2 * r + 2) (mask 16 :: nat) = lsb (threes r t)" using assms(1) by (simp add: mask_eq_exp_minus_1)
  moreover have "take_bit (2 * r + 2) (mask 16 :: nat) = mask (2 * r + 2)" using assms(3) by (simp add: take_bit_of_mask)
  ultimately have "lsb (threes r t) + 1 = 2 ^ (2 * r + 2)" by (simp add: mask_eq_exp_minus_1)
  moreover have "(2 :: nat) ^ (2 * r + 2) = 4 ^ r * 4" by (simp add: power_add power_mult)
  ultimately show False using assms(2) unfolding lsb_threes by simp
qed

lemma threes_read:
  assumes "synced src p s b" "ahead src (8 * p + b) (threes r t @ gs)" "b + 2 * r + 2 \<le> 32" "t < 3" "n + 3 * r < 2 ^ 32"
  shows "zeros_3 n s (int b) = (n + 3 * r, drop_bit (2 * r) s, int (b + 2 * r)) \<and> unat (drop_bit (2 * r) s AND 3) = t"
  using assms
proof (induction r arbitrary: n s b)
  case 0
  have "take_bit (wd (threes 0 t)) (unat s) = lsb (threes 0 t)" using 0 by (intro peek) simp_all
  then have "take_bit 2 (unat s) = t" by (simp add: threes_def)
  then show ?case using 0(4) by (subst zeros_3.simps) (simp add: and_mask(2,3))
next
  case (Suc r)
  have e: "threes (Suc r) t @ gs = [(3, 2)] @ (threes r t @ gs)" by (simp add: threes_def)
  have b2: "b + wd [(3, 2)] \<le> 32" using Suc.prems(3) by simp
  have "take_bit (wd [(3, 2)]) (unat s) = lsb [(3, 2)]" by (rule peek [OF Suc.prems(1) Suc.prems(2) [unfolded e] b2])
  then have "s AND 3 = 3" by (simp add: and_mask(2))
  then have "zeros_3 n s (int b) = zeros_3 (n + 3) (drop_bit 2 s) (int (b + 2))" using Suc.prems(5) by (subst zeros_3.simps) (simp add: add.commute)
  moreover have "zeros_3 (n + 3) (drop_bit 2 s) (int (b + 2)) = (n + 3 + 3 * r, drop_bit (2 * r) (drop_bit 2 s), int (b + 2 + 2 * r)) \<and>
      unat (drop_bit (2 * r) (drop_bit 2 s) AND 3) = t"
  proof (rule Suc.IH)
    have "b + 2 \<le> 32" using Suc.prems(3) by linarith
    then show "synced src p (drop_bit 2 s) (b + 2)" by (rule synced_drop [OF Suc.prems(1)])
    show "ahead src (8 * p + (b + 2)) (threes r t @ gs)" using ahead_append(2) [OF Suc.prems(2) [unfolded e]] by simp
  qed (use Suc.prems in simp_all)
  ultimately show ?case by (simp add: drop_bit_drop_bit)
qed

lemma ones_read:
  assumes "synced src p s b" "ahead src (8 * p + b) (replicate q (0xFFFF, 16) @ threes r t @ gs)" "p + 6 \<le> length src \<longrightarrow> b < 8"
    "t < 3" "r \<le> 7" "n + 24 * q < 2 ^ 32"
  shows "\<exists>p' s' b'. zeros_24 src n p s (int b) = Some (n + 24 * q, p', s', int b') \<and> synced src p' s' b' \<and> 8 * p' + b' = 8 * p + b + 16 * q \<and>
    (p' + 6 \<le> length src \<longrightarrow> b' < 8)"
  using assms
proof (induction q arbitrary: n p s b)
  case 0
  have "b + wd (threes r t) \<le> 32" using 0 by (intro room_field [of src p b _ gs]) simp_all
  then have "take_bit (wd (threes r t)) (unat s) = lsb (threes r t)" using 0 by (intro peek) simp_all
  then have "s AND 0xFFFF \<noteq> 0xFFFF" using not_ones [of r "unat s" t] 0 by (simp add: and_mask(1))
  then have "zeros_24 src n p s (int b) = Some (n, p, s, int b)" by (subst zeros_24.simps) simp
  then show ?case using 0 by auto
next
  case (Suc q)
  let ?rest = "replicate q (0xFFFF, 16) @ threes r t @ gs"
  have a: "ahead src (8 * p + b) ([(0xFFFF, 16)] @ ?rest)" using Suc.prems(2) by simp
  have room: "b + 16 \<le> 32" using room_field [OF a Suc.prems(3)] by simp
  then have "take_bit (wd [(0xFFFF, 16)]) (unat s) = lsb [(0xFFFF, 16)]" using Suc.prems(1) a by (intro peek) simp_all
  then have ones: "s AND 0xFFFF = 0xFFFF" by (simp add: and_mask(1))
  have a': "ahead src (8 * p + b + 16) ?rest" using ahead_append(2) [OF a] by simp
  have n: "(n + 24) mod 2 ^ 32 = n + 24" using Suc.prems(6) by simp
  show ?case
  proof (cases "p + 6 \<le> length src")
    case True
    then have b: "b < 8" using Suc.prems(3) by simp
    have "p + 2 + 4 \<le> length src" using True by simp
    then obtain w where w: "MEM_readLE32 src (p + 2) = Some w" "synced src (p + 2) (drop_bit b w) b" using synced_read [of "p + 2" src b] b by auto
    have c: "right_shift w (int b) = Some (drop_bit b w)" using b by (simp add: right_shift_def)
    have step: "zeros_24 src n p s (int b) = zeros_24 src (n + 24) (p + 2) (drop_bit b w) (int b)"
      using ones True w(1) c n by (subst zeros_24.simps) simp
    have "\<exists>p' s' b'. zeros_24 src (n + 24) (p + 2) (drop_bit b w) (int b) = Some (n + 24 + 24 * q, p', s', int b') \<and> synced src p' s' b' \<and>
        8 * p' + b' = 8 * (p + 2) + b + 16 * q \<and> (p' + 6 \<le> length src \<longrightarrow> b' < 8)"
      using w(2) a' b Suc.prems(4-6) by (intro Suc.IH) (simp_all add: ac_simps)
    then show ?thesis unfolding step by (simp add: ac_simps)
  next
    case False
    have step: "zeros_24 src n p s (int b) = zeros_24 src (n + 24) p (drop_bit 16 s) (int (b + 16))"
      using ones False n by (subst zeros_24.simps) simp
    have "\<exists>p' s' b'. zeros_24 src (n + 24) p (drop_bit 16 s) (int (b + 16)) = Some (n + 24 + 24 * q, p', s', int b') \<and> synced src p' s' b' \<and>
        8 * p' + b' = 8 * p + (b + 16) + 16 * q \<and> (p' + 6 \<le> length src \<longrightarrow> b' < 8)"
      using synced_drop [OF Suc.prems(1) room] a' False Suc.prems(4-6) by (intro Suc.IH) (simp_all add: ac_simps)
    then show ?thesis unfolding step by (simp add: ac_simps)
  qed
qed

section \<open>A pass of the loop\<close>

text \<open>The reader at the position \<open>P\<close>, with the counts \<open>pre\<close> behind it.\<close>

definition reader_at :: "bytes \<Rightarrow> nat \<Rightarrow> int \<Rightarrow> int list \<Rightarrow> nat \<Rightarrow> ncount \<Rightarrow> bool" where
  "reader_at src P rest pre cap st \<longleftrightarrow> (\<exists>b. bitCount st = int b \<and> synced src (ip st) (bitStream st) b \<and> 8 * ip st + b = P \<and>
     (ip st + 6 \<le> length src \<longrightarrow> b < 8)) \<and> remaining st = rest \<and> threshold st = 2 ^ highest_bit (nat rest) \<and>
     nbBits st = int (highest_bit (nat rest)) + 1 \<and> charnum st = length pre \<and> length (normalizedCounter st) = cap \<and>
     take (length pre) (normalizedCounter st) = pre"

lemma put_zeros_list:
  assumes "i + n \<le> length cs"
  shows "\<exists>cs'. put_zeros i n cs = Some cs' \<and> length cs' = length cs \<and> take (i + n) cs' = take i cs @ replicate n 0"
  using assms
proof (induction n arbitrary: i cs)
  case (Suc n)
  have "i + 1 + n \<le> length (cs[i := 0])" using Suc.prems by simp
  then obtain cs' where c: "put_zeros (i + 1) n (cs[i := 0]) = Some cs'" "length cs' = length cs" "take (i + 1 + n) cs' = take (i + 1) (cs[i := 0]) @ replicate n 0"
    using Suc.IH [of "i + 1" "cs[i := 0]"] by auto
  have "take (i + 1) (cs[i := 0]) = take i cs @ [0]" using Suc.prems by (simp add: take_Suc_conv_app_nth)
  then show ?case using c Suc.prems by (intro exI [of _ cs']) (simp add: store_at_def)
qed simp

lemma fit_zfields: "fit (zfields z)"
proof -
  have "z mod 3 < 2 ^ 2" by (rule less_trans [OF mod_less_divisor]) simp_all
  then show ?thesis by (auto simp: zfields_def fit_def)
qed

lemma zeros_read:
  assumes st: "reader_at src P rest pre cap st" and a: "ahead src P (zfields z @ gs)" and m: "length pre + z \<le> maxSV" "maxSV < cap" "cap \<le> 2 ^ 16"
  shows "\<exists>st'. read_zeros src maxSV st = Some (Inr st') \<and> reader_at src (P + wd (zfields z)) rest (pre @ replicate z 0) cap st'"
proof -
  let ?q = "z div 24" and ?r = "z mod 24 div 3" and ?t = "z mod 3"
  obtain b where b: "bitCount st = int b" "synced src (ip st) (bitStream st) b" "8 * ip st + b = P" "ip st + 6 \<le> length src \<longrightarrow> b < 8"
    using st by (auto simp: reader_at_def)
  note at = st [unfolded reader_at_def]
  have rt: "?r \<le> 7" "?t < 3"
  proof -
    have "?r < 8" by (rule less_mult_imp_div_less) simp
    then show "?r \<le> 7" by simp
  qed simp
  have z: "z = 24 * ?q + 3 * ?r + ?t"
  proof -
    have "z mod 24 mod 3 = ?t" by (simp add: mod_mod_cancel)
    moreover have "z = 24 * ?q + z mod 24" "z mod 24 = 3 * ?r + z mod 24 mod 3" by simp_all
    ultimately show ?thesis by linarith
  qed
  have zf: "zfields z = replicate ?q (0xFFFF, 16) @ threes ?r ?t" by (simp add: zfields_def threes_def)
  have W: "wd (zfields z) = 16 * ?q + 2 * ?r + 2" unfolding zf by (simp add: wd_def [of "replicate _ _"] sum_list_replicate)
  have n32: "length pre + z < 2 ^ 32" using m by simp
  have a1: "ahead src (8 * ip st + b) (replicate ?q (0xFFFF, 16) @ threes ?r ?t @ gs)" using a b(3) unfolding zf by simp
  have n24: "length pre + 24 * ?q < 2 ^ 32" using n32 z by linarith
  obtain p1 s1 b1 where 1: "zeros_24 src (length pre) (ip st) (bitStream st) (int b) = Some (length pre + 24 * ?q, p1, s1, int b1)"
    "synced src p1 s1 b1" "8 * p1 + b1 = 8 * ip st + b + 16 * ?q" "p1 + 6 \<le> length src \<longrightarrow> b1 < 8"
    using ones_read [OF b(2) a1 b(4) rt(2,1) n24] by blast
  have "ahead src (P + wd (replicate ?q (0xFFFF, 16))) (threes ?r ?t @ gs)" using ahead_append(2) [OF a [unfolded zf append_assoc]] .
  then have a2: "ahead src (8 * p1 + b1) (threes ?r ?t @ gs)" using 1(3) b(3) by (simp add: wd_def [of "replicate _ _"] sum_list_replicate mult.commute)
  have "wd (threes ?r ?t) \<le> 24" using rt(1) by simp
  from room_field [OF a2 1(4) this] have room: "b1 + 2 * ?r + 2 \<le> 32" by simp
  have n3: "length pre + 24 * ?q + 3 * ?r < 2 ^ 32" using n32 z by linarith
  have 2: "zeros_3 (length pre + 24 * ?q) s1 (int b1) = (length pre + 24 * ?q + 3 * ?r, drop_bit (2 * ?r) s1, int (b1 + 2 * ?r))"
    "unat (drop_bit (2 * ?r) s1 AND 3) = ?t"
    using threes_read [OF 1(2) a2 room rt(2) n3] by simp_all
  have n0: "(length pre + 24 * ?q + 3 * ?r + ?t) mod 2 ^ 32 = length pre + z"
  proof -
    have "length pre + 24 * ?q + 3 * ?r + ?t = length pre + z" using z by linarith
    then show ?thesis using n32 by simp
  qed
  obtain cs where cs: "put_zeros (length pre) z (normalizedCounter st) = Some cs" "length cs = cap" "take (length pre + z) cs = pre @ replicate z 0"
    using put_zeros_list [of "length pre" z "normalizedCounter st"] at m by auto
  let ?c = "b1 + 2 * ?r + 2"
  have P: "8 * p1 + ?c = P + wd (zfields z)" using 1(3) b(3) W by simp
  have a3: "ahead src (8 * p1 + ?c) gs" using ahead_append(2) [OF a] P by simp
  show ?thesis
  proof (cases "may_advance src p1 (int ?c)")
    case True
    have d: "int ?c div 8 = int (?c div 8)" "int ?c mod 8 = int (?c mod 8)" by (simp_all only: of_nat_div of_nat_mod of_nat_numeral)
    have p2: "p1 + ?c div 8 + 4 \<le> length src"
    proof (cases "p1 + 7 \<le> length src")
      case True
      then have "b1 < 8" using 1(4) by simp
      then have "?c div 8 \<le> 3" using rt(1) by simp
      then show ?thesis using True by linarith
    next
      case False
      then have "int p1 + int ?c div 8 \<le> int (length src) - 4" using True by (simp add: may_advance_def)
      then show ?thesis unfolding d by linarith
    qed
    obtain w where w: "MEM_readLE32 src (p1 + ?c div 8) = Some w" "synced src (p1 + ?c div 8) (drop_bit (?c mod 8) w) (?c mod 8)"
      using synced_read [OF p2, of "?c mod 8"] less_imp_le [OF less_trans [OF mod_less_divisor [of 8 ?c], of 32]] by auto
    let ?st = "st\<lparr>normalizedCounter := cs, charnum := length pre + z, ip := p1 + ?c div 8, bitCount := int (?c mod 8), bitStream := drop_bit (?c mod 8) w\<rparr>"
    have sh: "right_shift w (int (?c mod 8)) = Some (drop_bit (?c mod 8) w)" by (simp add: right_shift_def) 
    have "read_zeros src maxSV st = Some (Inr ?st)"
    proof -
      have ch: "charnum st = length pre" "max (length pre) (length pre + z) = length pre + z" "length pre + z - length pre = z" using at by simp_all
      have c2: "int (b1 + 2 * ?r) + 2 = int ?c" by simp
      show ?thesis
        unfolding read_zeros_def b(1) ch(1) 1(1) Option.bind_lunit prod.case 2 Let_def n0 c2 ch(3) cs(1)
        using m(1) True sh w(1) ch(2) unfolding d by simp
    qed
    moreover have "8 * (p1 + ?c div 8) + ?c mod 8 = P + wd (zfields z)" using P by (simp add: distrib_left)
    moreover have "?c mod 8 < 8" by simp
    ultimately show ?thesis using at cs(2,3) w(2) by (intro exI [of _ ?st]) (simp add: reader_at_def)
  next
    case False
    let ?st = "st\<lparr>normalizedCounter := cs, charnum := length pre + z, ip := p1, bitCount := int ?c, bitStream := drop_bit 2 (drop_bit (2 * ?r) s1)\<rparr>"
    have "read_zeros src maxSV st = Some (Inr ?st)"
    proof -
      have ch: "charnum st = length pre" "max (length pre) (length pre + z) = length pre + z" "length pre + z - length pre = z" using at by simp_all
      have c2: "int (b1 + 2 * ?r) + 2 = int ?c" by simp
      show ?thesis
        unfolding read_zeros_def b(1) ch(1) 1(1) Option.bind_lunit prod.case 2 Let_def n0 c2 ch(3) cs(1)
        using m(1) False ch(2) by simp
    qed
    moreover have "synced src p1 (drop_bit 2 (drop_bit (2 * ?r) s1)) ?c"
      using synced_drop [OF 1(2), of "2 * ?r + 2"] room by (simp add: drop_bit_drop_bit add.commute)
    moreover have "\<not> p1 + 6 \<le> length src"
    proof
      assume "p1 + 6 \<le> length src"
      then have "?c div 8 \<le> 2" using 1(4) rt(1) by simp
      moreover have "int ?c div 8 = int (?c div 8)" by (simp only: of_nat_div of_nat_numeral)
      ultimately show False using False \<open>p1 + 6 \<le> length src\<close> unfolding may_advance_def by linarith
    qed
    ultimately have "reader_at src (P + wd (zfields z)) rest (pre @ replicate z 0) cap ?st"
      unfolding reader_at_def using at cs(2,3) P by (intro conjI exI [of _ ?c]) simp_all
    then show ?thesis using \<open>read_zeros src maxSV st = Some (Inr ?st)\<close> by blast
  qed
qed

text \<open>The count that was written comes back.\<close>

lemma count_field:
  assumes r: "1 < rest" and t: "2 ^ j \<le> rest" "rest < 2 * 2 ^ j" "j \<le> 15" "highest_bit (nat rest) = j" and c: "-1 \<le> c" "\<bar>c\<bar> < rest"
    and st: "threshold st = 2 ^ j" "nbBits st = int j + 1" "remaining st = rest"
    and f: "take_bit (snd (cfield rest c)) (unat (bitStream st)) = fst (cfield rest c)"
  shows "next_count st = (c + 1, int (snd (cfield rest c)))"
proof -
  let ?m = "2 * 2 ^ j - 1 - rest"
  let ?k = "if c + 1 \<ge> 2 ^ j then c + 1 + ?m else c + 1"
  have cf: "cfield rest c = (nat ?k, if ?k < ?m then j else j + 1)" unfolding cfield_def t(4) Let_def by simp
  have k0: "0 \<le> ?k" using t c by (auto split: if_splits)
  let ?s = "unat (bitStream st)"
  have w: "(of_int (2 ^ i - 1) :: 32 word) = mask i" for i by (simp add: mask_eq_exp_minus_1)
  have lo: "uint (bitStream st AND of_int (2 ^ i - 1)) = int (take_bit i ?s)" for i
    unfolding w by (simp add: unsigned_take_bit_eq of_nat_take_bit flip: take_bit_eq_mask)
  have m: "0 \<le> ?m" "?m < 2 ^ 32"
  proof -
    have "(2 :: int) ^ j \<le> 2 ^ 15" using t(3) by (intro power_increasing) simp_all
    then show "?m < 2 ^ 32" "0 \<le> ?m" using t by simp_all
  qed
  have less: "bitStream st AND of_int (2 ^ j - 1) < of_int ?m \<longleftrightarrow> int (take_bit j ?s) < ?m"
    unfolding word_less_def lo uint_of_small [OF m] ..
  have two: "2 * 2 ^ j - 1 = (2 ^ (j + 1) - 1 :: int)" by simp
  have n: "next_count st = (if int (take_bit j ?s) < ?m then (int (take_bit j ?s), int j)
      else (if int (take_bit (j + 1) ?s) \<ge> 2 ^ j then int (take_bit (j + 1) ?s) - ?m else int (take_bit (j + 1) ?s), int j + 1))"
    unfolding next_count_def Let_def st two lo less [unfolded two] by simp
  show ?thesis
  proof (cases "?k < ?m")
    case True
    then have "take_bit j ?s = nat ?k" using f unfolding cf by simp
    then have "int (take_bit j ?s) = ?k" using k0 by simp
    moreover have "?k = c + 1" using True t by (auto split: if_splits)
    ultimately show ?thesis unfolding n cf using True by simp
  next
    case False
    then have "take_bit (j + 1) ?s = nat ?k" using f unfolding cf by simp
    then have hi: "int (take_bit (j + 1) ?s) = ?k" using k0 by simp
    have "take_bit j ?s = take_bit j (take_bit (j + 1) ?s)" by simp
    then have lo: "int (take_bit j ?s) = ?k mod 2 ^ j" unfolding take_bit_eq_mod [of j] hi [symmetric] by (simp add: zmod_int)
    show ?thesis
    proof (cases "c + 1 \<ge> 2 ^ j")
      case True
      then have k: "?k = c + 1 + ?m" by simp
      have "?k - 2 ^ j < 2 ^ j" "0 \<le> ?k - 2 ^ j" using True t c m(1) unfolding k by linarith+
      then have "?k mod 2 ^ j = ?k - 2 ^ j" by (metis diff_add_cancel mod_add_self2 mod_pos_pos_trivial)
      then have "\<not> int (take_bit j ?s) < ?m" using True lo unfolding k by simp
      moreover have "int (take_bit (j + 1) ?s) \<ge> 2 ^ j" using hi True m(1) unfolding k by linarith
      ultimately show ?thesis unfolding n hi cf using False k by simp
    next
      case small: False
      then have k: "?k = c + 1" by simp
      then have "?k mod 2 ^ j = ?k" using k0 small by (intro mod_pos_pos_trivial) simp_all
      then have "\<not> int (take_bit j ?s) < ?m" using False lo by simp
      moreover have "\<not> int (take_bit (j + 1) ?s) \<ge> 2 ^ j" using hi small k by simp
      ultimately show ?thesis unfolding n hi cf using False k by simp
    qed
  qed
qed

lemma refilled:
  assumes p: "p + 4 \<le> length src" and c: "p + 7 \<le> length src \<longrightarrow> cnt < 24" and e: "8 * p + cnt + 8 \<le> 8 * length src"
  shows "\<exists>p' b s. refill src p (int cnt) = Some (p', int b, s) \<and> synced src p' s b \<and> 8 * p' + b = 8 * p + cnt \<and> (p' + 6 \<le> length src \<longrightarrow> b < 8)"
proof (cases "may_advance src p (int cnt)")
  case True
  have d: "int cnt div 8 = int (cnt div 8)" "int cnt mod 8 = int (cnt mod 8)" by (simp_all only: of_nat_div of_nat_mod of_nat_numeral)
  have p2: "p + cnt div 8 + 4 \<le> length src"
  proof (cases "p + 7 \<le> length src")
    case True
    then have "cnt div 8 \<le> 2" using c by simp
    then show ?thesis using True by linarith
  next
    case False
    then have "int p + int cnt div 8 \<le> int (length src) - 4" using True by (simp add: may_advance_def)
    then show ?thesis unfolding d by linarith
  qed
  obtain w where w: "MEM_readLE32 src (p + cnt div 8) = Some w" "synced src (p + cnt div 8) (drop_bit (cnt mod 8) w) (cnt mod 8)"
    using synced_read [OF p2, of "cnt mod 8"] less_imp_le [OF less_trans [OF mod_less_divisor [of 8 cnt], of 32]] by auto
  have "nat (int p + int (cnt div 8)) = p + cnt div 8" "nat (int (cnt mod 8) mod 32) = cnt mod 8" "0 \<le> int p + int (cnt div 8)" by simp_all
  then have "refill src p (int cnt) = Some (p + cnt div 8, int (cnt mod 8), drop_bit (cnt mod 8) w)"
    unfolding refill_def if_P [OF True] d using w(1) by simp
  moreover have "8 * (p + cnt div 8) + cnt mod 8 = 8 * p + cnt" by simp
  ultimately show ?thesis using w(2) by (intro exI [of _ "p + cnt div 8"] exI [of _ "cnt mod 8"] exI [of _ "drop_bit (cnt mod 8) w"]) simp
next
  case False
  let ?p = "length src - 4" and ?b = "cnt - 8 * (length src - 4 - p)"
  have "int (length src) - 4 < int p + int cnt div 8" using False by (simp add: may_advance_def)
  then have le: "8 * (length src - 4 - p) \<le> cnt" using p by linarith
  have b: "8 * ?p + ?b = 8 * p + cnt" "?b \<le> 24" using le p e by linarith+
  have "?p + 4 \<le> length src" "?b \<le> 32" using p b(2) by linarith+
  then obtain w where w: "MEM_readLE32 src ?p = Some w" "synced src ?p (drop_bit ?b w) ?b" using synced_read by blast
  have i: "int (length src) - 4 = int ?p" "int cnt - 8 * (int ?p - int p) = int ?b" using p le by (simp_all add: of_nat_diff)
  have "nat (int ?b mod 32) = ?b" using b(2) by (simp add: nat_mod_distrib)
  then have "refill src p (int cnt) = Some (?p, int ?b, drop_bit ?b w)"
    unfolding refill_def if_not_P [OF False] i using w(1) by simp
  then show ?thesis using w(2) b(1) p by (intro exI [of _ ?p] exI [of _ ?b] exI [of _ "drop_bit ?b w"]) simp
qed

lemma short_count: "-1 \<le> c \<Longrightarrow> c < 2 ^ 15 \<Longrightarrow> short c = c"
  unfolding short_def by (rule signed_take_bit_int_eq_self) simp_all

lemma count_read:
  assumes st: "reader_at src P rest pre cap st" and a: "ahead src P (cfield rest c # gs)" and r: "1 < rest" "rest \<le> 2 ^ l + 1" "0 < l" "l \<le> 12"
    and c: "-1 \<le> c" "\<bar>c\<bar> < rest" and cap: "length pre < cap"
  shows "\<exists>st'. read_count src st = Some st' \<and> reader_at src (P + snd (cfield rest c)) (rest - \<bar>c\<bar>) (pre @ [c]) cap st' \<and> previous0 st' = (c = 0)"
proof -
  obtain b where b: "bitCount st = int b" "synced src (ip st) (bitStream st) b" "8 * ip st + b = P" "ip st + 6 \<le> length src \<longrightarrow> b < 8"
    using st by (auto simp: reader_at_def)
  note at = st [unfolded reader_at_def]
  obtain j where j: "highest_bit (nat rest) = j" by blast
  have t: "2 ^ j \<le> rest" "rest < 2 * 2 ^ j" "j \<le> l" using top_bit [of rest l] r j by simp_all
  have tj: "threshold st = 2 ^ j" "nbBits st = int j + 1" "remaining st = rest" using at j by simp_all
  let ?f = "cfield rest c" and ?rest = "rest - \<bar>c\<bar>"
  have a1: "ahead src (8 * ip st + b) ([?f] @ gs)" using a b(3) by simp
  have small: "snd ?f \<le> 13" using cfield_fit(2) [OF r(1-3) c] r(4) by simp
  have "b + wd [?f] \<le> 32" using small by (intro room_field [OF a1 b(4)]) simp
  from peek [OF b(2) a1 this] have f: "take_bit (snd ?f) (unat (bitStream st)) = fst ?f" by (cases ?f) simp
  have "j \<le> 15" using t(3) r(4) by simp
  from count_field [OF r(1) t(1,2) this j c tj f] have n: "next_count st = (c + 1, int (snd ?f))" .
  have "1 \<le> ?rest" "?rest < 2 * 2 ^ j" using c t(2) by simp_all
  note sh = shrink_next [OF this]
  have "ahead src (P + snd ?f) gs" using ahead_append(2) [of src P "[?f]" gs] a by simp
  then have e: "8 * ip st + (b + snd ?f) + 8 \<le> 8 * length src" using b(3) by (simp add: ahead_def)
  have p4: "ip st + 4 \<le> length src" using b(2) by (simp add: synced_def)
  have "ip st + 7 \<le> length src \<longrightarrow> b + snd ?f < 24" using b(4) small by auto
  from refilled [OF p4 this e] obtain p' b' s where rf: "refill src (ip st) (int (b + snd ?f)) = Some (p', int b', s)" "synced src p' s b'"
    "8 * p' + b' = 8 * ip st + (b + snd ?f)" "p' + 6 \<le> length src \<longrightarrow> b' < 8" by blast
  have len: "charnum st < length (normalizedCounter st)" using at cap by simp
  let ?cs = "(normalizedCounter st)[length pre := c]"
  have "(2 :: int) ^ l \<le> 2 ^ 12" using r(4) by (intro power_increasing) simp_all
  then have "c < 2 ^ 15" using c(2) r(2) by simp
  then have sc: "short c = c" by (rule short_count [OF c(1)])
  let ?st = "\<lparr>normalizedCounter = ?cs, charnum = charnum st + 1, ip = p', bitStream = s, bitCount = int b', remaining = ?rest,
    threshold = 2 ^ highest_bit (nat ?rest), nbBits = int (highest_bit (nat ?rest)) + 1, previous0 = (c = 0)\<rparr>"
  have cnt: "int b + int (snd ?f) = int (b + snd ?f)" by simp
  have "store_at (normalizedCounter st) (charnum st) c = Some ?cs" using len at by (simp add: store_at_def)
  then have "read_count src st = Some ?st"
    unfolding read_count_def n prod.case Let_def b(1) cnt tj add_diff_cancel_right' sc using sh rf(1) by simp
  moreover have "take (length pre + 1) ?cs = pre @ [c]" using at cap by (simp add: take_Suc_conv_app_nth)
  ultimately show ?thesis using at rf(2-4) b(3) by (intro exI [of _ ?st]) (simp add: reader_at_def)
qed

section \<open>The whole header\<close>

lemma loop_reads:
  assumes "reader_at src P rest pre cap st" "previous0 st = p" "ahead src P (nfields p rest cs)" "left_counts rest cs" "1 \<le> rest" "rest \<le> 2 ^ l + 1"
    "0 < l" "l \<le> 12" "cs \<noteq> [] \<longrightarrow> last cs \<noteq> 0" "length pre + length cs \<le> maxSV + 1" "maxSV < cap" "cap \<le> 2 ^ 16"
  shows "\<exists>st'. ncount_loop src maxSV st = Some (Inr st') \<and> reader_at src (P + wd (nfields p rest cs)) 1 (pre @ cs) cap st'"
  using assms
proof (induction "length cs" arbitrary: P rest pre st p cs rule: less_induct)
  case less
  have rem: "remaining st = rest" "charnum st = length pre" using less.prems(1) by (simp_all add: reader_at_def)
  show ?case
  proof (cases "1 < rest")
    case False
    then have "rest = 1" using less.prems(5) by simp
    then have "sum_list (map abs cs) = 0" using less.prems(4) by (simp add: left_counts_def)
    then have "\<forall>c \<in> set cs. c = 0" by (subst (asm) sum_list_nonneg_eq_0_iff) auto
    then have "cs = []" using less.prems(9) last_in_set [of cs] by auto
    moreover have "nfields p rest cs = []" using False by (subst nfields.simps) simp
    moreover have "ncount_loop src maxSV st = Some (Inr st)" using rem False by (subst ncount_loop.simps) simp
    ultimately show ?thesis using less.prems(1) \<open>rest = 1\<close> by simp
  next
    case True
    obtain c cs' where c: "dropWhile (\<lambda>c. p \<and> c = 0) cs = c # cs'" "-1 \<le> c" "\<bar>c\<bar> < rest" "left_counts (rest - \<bar>c\<bar>) cs'"
      using nonzero_left [OF less.prems(4) True] by blast
    define z where "z = length cs - length (c # cs')"
    have split: "cs = takeWhile (\<lambda>c. p \<and> c = 0) cs @ c # cs'" using takeWhile_dropWhile_id [of "\<lambda>c. p \<and> c = 0" cs] c(1) by simp
    have tz: "length (takeWhile (\<lambda>c. p \<and> c = 0) cs) = z" using arg_cong [OF split, of length] by (simp add: z_def)
    have "\<forall>x \<in> set (takeWhile (\<lambda>c. p \<and> c = 0) cs). x = 0" by (auto dest: set_takeWhileD)
    then have "takeWhile (\<lambda>c. p \<and> c = 0) cs = replicate z 0" using tz by (metis replicate_eqI)
    then have cs: "cs = replicate z 0 @ c # cs'" using split by simp
    have pz: "\<not> p \<Longrightarrow> z = 0" using tz by (cases cs) simp_all
    have nf: "nfields p rest cs = (if p then zfields z else []) @ cfield rest c # nfields (c = 0) (rest - \<bar>c\<bar>) cs'"
      unfolding z_def using True c(1) by (subst nfields.simps) simp
    let ?P = "P + wd (if p then zfields z else [])"
    have len: "length pre + z \<le> maxSV" using less.prems(10) unfolding cs by simp
    obtain st1 where st1: "(if previous0 st then read_zeros src maxSV st else Some (Inr st)) = Some (Inr st1)"
      "reader_at src ?P rest (pre @ replicate z 0) cap st1"
    proof (cases p)
      case True
      then show ?thesis
        using that zeros_read [OF less.prems(1) _ len less.prems(11,12), of "cfield rest c # nfields (c = 0) (rest - \<bar>c\<bar>) cs'"] less.prems(2,3) nf by auto
    next
      case False
      then show ?thesis using that less.prems(1,2) pz by simp
    qed
    have a1: "ahead src ?P (cfield rest c # nfields (c = 0) (rest - \<bar>c\<bar>) cs')" using ahead_append(2) less.prems(3) unfolding nf by blast
    have cap: "length (pre @ replicate z 0) < cap" using len less.prems(11) by simp
    obtain st2 where st2: "read_count src st1 = Some st2" "reader_at src (?P + snd (cfield rest c)) (rest - \<bar>c\<bar>) ((pre @ replicate z 0) @ [c]) cap st2"
      "previous0 st2 = (c = 0)"
      using count_read [OF st1(2) a1 True less.prems(6-8) c(2,3) cap] by blast
    have a2: "ahead src (?P + snd (cfield rest c)) (nfields (c = 0) (rest - \<bar>c\<bar>) cs')"
      using ahead_append(2) [of src ?P "[cfield rest c]"] a1 by simp
    have "\<exists>st'. ncount_loop src maxSV st2 = Some (Inr st') \<and>
        reader_at src (?P + snd (cfield rest c) + wd (nfields (c = 0) (rest - \<bar>c\<bar>) cs')) 1 (((pre @ replicate z 0) @ [c]) @ cs') cap st'"
    proof (rule less.hyps [OF _ st2(2,3) a2 c(4)])
      show "cs' \<noteq> [] \<longrightarrow> last cs' \<noteq> 0" using less.prems(9) unfolding cs by auto
      show "length ((pre @ replicate z 0) @ [c]) + length cs' \<le> maxSV + 1" using less.prems(10) unfolding cs by simp
    qed (use cs less.prems(6-8,11,12) c(3) in simp_all)
    then obtain st' where st': "ncount_loop src maxSV st2 = Some (Inr st')"
      "reader_at src (?P + snd (cfield rest c) + wd (nfields (c = 0) (rest - \<bar>c\<bar>) cs')) 1 (((pre @ replicate z 0) @ [c]) @ cs') cap st'" by blast
    have "ncount_step src maxSV st = Some (Inr st2)" unfolding ncount_step_def st1(1) Option.bind_lunit sum.case using st2(1) by simp
    then have "ncount_loop src maxSV st = Some (Inr st')" using True rem len st'(1) by (subst ncount_loop.simps) simp
    moreover have "P + wd (nfields p rest cs) = ?P + snd (cfield rest c) + wd (nfields (c = 0) (rest - \<bar>c\<bar>) cs')" unfolding nf by simp
    moreover have "pre @ cs = ((pre @ replicate z 0) @ [c]) @ cs'" unfolding cs by simp
    ultimately show ?thesis using st'(2) by metis
  qed
qed

lemma valid_left:
  assumes "valid_counts counts sv l"
  shows "left_counts (2 ^ l + 1) (take (sv + 1) counts)"
  using assms sum_list_take [of "sv + 1" counts abs]
  by (auto simp: left_counts_def valid_counts_def in_set_conv_nth)

text \<open>The space that a header takes.\<close>

lemma wd_zfields: "wd (zfields z) \<le> 15 * z + 2"
proof -
  have "wd (zfields z) = 16 * (z div 24) + 2 * (z mod 24 div 3) + 2" by (simp add: zfields_def wd_def sum_list_replicate)
  moreover have "z = 24 * (z div 24) + z mod 24" by simp
  moreover have "z mod 24 div 3 \<le> z mod 24" by (rule div_le_dividend)
  ultimately show ?thesis by linarith
qed

lemma wd_nfields:
  assumes "left_counts rest cs" "rest \<le> 2 ^ l + 1" "0 < l" "l \<le> 12"
  shows "wd (nfields p rest cs) \<le> 15 * length cs \<and> fit (nfields p rest cs)"
  using assms
proof (induction "length cs" arbitrary: p rest cs rule: less_induct)
  case less
  show ?case
  proof (cases "1 < rest")
    case False
    then have "nfields p rest cs = []" by (subst nfields.simps) simp
    then show ?thesis by simp
  next
    case True
    obtain c cs' where c: "dropWhile (\<lambda>c. p \<and> c = 0) cs = c # cs'" "-1 \<le> c" "\<bar>c\<bar> < rest" "left_counts (rest - \<bar>c\<bar>) cs'"
      using nonzero_left [OF less.prems(1) True] by blast
    have le: "length (c # cs') \<le> length cs" using length_dropWhile_le [of "\<lambda>c. p \<and> c = 0" cs] unfolding c(1) .
    have "wd (nfields (c = 0) (rest - \<bar>c\<bar>) cs') \<le> 15 * length cs' \<and> fit (nfields (c = 0) (rest - \<bar>c\<bar>) cs')"
      using le less.prems(2-4) by (intro less.hyps [OF _ c(4)]) simp_all
    moreover have "snd (cfield rest c) \<le> 13" "fst (cfield rest c) < 2 ^ snd (cfield rest c)"
      using cfield_fit [OF True less.prems(2,3) c(2,3)] less.prems(4) by simp_all
    moreover have "wd (zfields (length cs - length (c # cs'))) \<le> 15 * (length cs - length (c # cs')) + 2" by (rule wd_zfields)
    moreover have "nfields p rest cs = (if p then zfields (length cs - length (c # cs')) else []) @ cfield rest c # nfields (c = 0) (rest - \<bar>c\<bar>) cs'"
      using True c(1) by (subst nfields.simps) simp
    ultimately show ?thesis using le fit_zfields by (auto split: if_splits)
  qed
qed

lemma header_fit:
  assumes "valid_counts counts sv l"
  shows "wd (header_fields l (take (sv + 1) counts)) \<le> 15 * sv + 19 \<and> fit (header_fields l (take (sv + 1) counts))"
proof -
  have l: "5 \<le> l" "l \<le> 12" "sv < length counts" using assms by (simp_all add: valid_counts_def)
  have "wd (nfields False (2 ^ l + 1) (take (sv + 1) counts)) \<le> 15 * length (take (sv + 1) counts) \<and> fit (nfields False (2 ^ l + 1) (take (sv + 1) counts))"
    using l by (intro wd_nfields [OF valid_left [OF assms] order_refl]) simp_all
  then show ?thesis using l by (simp add: header_fields_def)
qed

lemma writeNCount_outcome:
  assumes v: "valid_counts counts sv l"
  shows "outcome (2 * sv + 5 \<le> length header) (FSE_writeNCount header counts sv l) (\<lambda>(n, out). n = (wd (header_fields l (take (sv + 1) counts)) + 7) div 8 \<and>
    n \<le> length out \<and> length out = length header \<and> le_nat (take n out) = lsb (header_fields l (take (sv + 1) counts)))"
proof -
  have l: "5 \<le> l" "l \<le> 12" "sv < length counts" using v by (simp_all add: valid_counts_def)
  note left = valid_left [OF v]
  have "wd (header_fields l (take (sv + 1) counts)) \<le> 15 * sv + 19" using header_fit [OF v] by simp
  then have room: "2 * sv + 5 \<le> length header \<longrightarrow> wd (header_fields l (take (sv + 1) counts)) + 16 \<le> 8 * length header" by auto
  show ?thesis using generic_outcome [OF l(1,2) left room] l
    by (simp add: FSE_writeNCount_def FSE_MAX_TABLELOG_def FSE_MIN_TABLELOG_def)
qed

lemma read_header_fields:
  assumes v: "valid_counts counts sv l" and last: "counts ! sv \<noteq> 0" and sv: "sv \<le> maxSV" "maxSV < length cs0" "length cs0 \<le> 2 ^ 16"
    and a: "ahead src 0 (header_fields l (take (sv + 1) counts))" and len: "4 \<le> length src"
  shows "\<exists>cs. read_header cs0 maxSV src = Some (Inr ((wd (header_fields l (take (sv + 1) counts)) + 7) div 8, cs, sv, l)) \<and>
    take (sv + 1) cs = take (sv + 1) counts \<and> length cs = length cs0"
proof -
  let ?cs = "take (sv + 1) counts" and ?cap = "length cs0"
  let ?F = "header_fields l ?cs"
  have l: "5 \<le> l" "l \<le> 12" "sv < length counts" using v by (simp_all add: valid_counts_def)
  have F: "?F = [(l - 5, 4)] @ nfields False (2 ^ l + 1) ?cs" by (simp add: header_fields_def)
  obtain w where w: "MEM_readLE32 src 0 = Some w" "synced src 0 w 0" using synced_read [of 0 src 0] len by auto
  have "take_bit (wd [(l - 5, 4)]) (unat w) = lsb [(l - 5, 4)]" using a w(2) unfolding F by (intro peek [of src 0 w 0]) simp_all
  then have t4: "take_bit 4 (unat w) = l - 5" by simp
  have "(0xF :: 32 word) = mask 4" by (simp add: mask_eq_exp_minus_1)
  moreover have "unat (w AND mask 4) = take_bit 4 (unat w)" by (simp add: unsigned_take_bit_eq flip: take_bit_eq_mask)
  ultimately have "unat (w AND 0xF) = take_bit 4 (unat w)" by (simp only:)
  then have tl: "unat (w AND 0xF) + FSE_MIN_TABLELOG = l" using t4 l(1) by (simp add: FSE_MIN_TABLELOG_def)
  let ?st = "\<lparr>normalizedCounter = replicate (maxSV + 1) 0 @ drop (maxSV + 1) cs0, charnum = 0, ip = 0, bitStream = drop_bit 4 w,
              bitCount = 4, remaining = 2 ^ l + 1, threshold = 2 ^ l, nbBits = int l + 1, previous0 = False\<rparr>"
  have "synced src 0 (drop_bit 4 w) 4" using synced_drop [OF w(2), of 4] by simp
  then have st: "reader_at src 4 (2 ^ l + 1) [] ?cap ?st"
    unfolding reader_at_def using highest_of_table [of l] l sv by (intro conjI exI [of _ 4]) simp_all
  have a1: "ahead src 4 (nfields False (2 ^ l + 1) ?cs)" using ahead_append(2) [OF a [unfolded F]] by simp
  have "last ?cs = counts ! sv" using l(3) by (simp add: take_Suc_conv_app_nth)
  then have nz: "?cs \<noteq> [] \<longrightarrow> last ?cs \<noteq> 0" using last by simp
  have one: "(1 :: int) \<le> 2 ^ l + 1" by simp
  have "length [] + length ?cs \<le> maxSV + 1" "0 < l" using sv l by simp_all
  from loop_reads [OF st _ a1 valid_left [OF v] one order_refl this(2) l(2) nz this(1) sv(2,3)]
  obtain st' where st': "ncount_loop src maxSV ?st = Some (Inr st')" "reader_at src (4 + wd (nfields False (2 ^ l + 1) ?cs)) 1 ([] @ ?cs) ?cap st'" by auto
  note at = st'(2) [unfolded reader_at_def]
  obtain b where b: "bitCount st' = int b" "b \<le> 32" "8 * ip st' + b = wd ?F" using at F by (auto simp: synced_def)
  have "int (ip st') + (bitCount st' + 7) div 8 = int (ip st' + (b + 7) div 8)" unfolding b(1) by simp
  then have n: "nat (int (ip st') + (bitCount st' + 7) div 8) = (wd ?F + 7) div 8" unfolding b(3) [symmetric] by simp
  have ch: "charnum st' - 1 = sv" "take (sv + 1) (normalizedCounter st') = ?cs" "remaining st' = 1" "length (normalizedCounter st') = ?cap" using at l(3) by simp_all
  have "read_header cs0 maxSV src = Some (Inr (nat (int (ip st') + (bitCount st' + 7) div 8), normalizedCounter st', charnum st' - 1, l))"
    unfolding read_header_def w(1) Option.bind_lunit tl Let_def using sv(2) l(2) st'(1) ch(3) b(1,2)
    by (simp add: FSE_TABLELOG_ABSOLUTE_MAX_def)
  then show ?thesis using n ch by simp
qed

lemma header_roundtrip:
  assumes v: "valid_counts counts sv l" and last: "counts ! sv \<noteq> 0" and sv: "sv \<le> maxSV" "maxSV < length cs0" "length cs0 \<le> 2 ^ 16"
    and w: "FSE_writeNCount buffer counts sv l = Some (Inr (n, out))" and rest: "rest \<noteq> [] \<or> n < 4"
  shows "n \<le> length out \<and> length out = length buffer \<and> (\<exists>cs. FSE_readNCount cs0 maxSV (take n out @ rest) = Some (Inr (n, cs, sv, l)) \<and>
    take (sv + 1) cs = take (sv + 1) counts \<and> length cs = length cs0)"
proof -
  let ?F = "header_fields l (take (sv + 1) counts)" and ?src = "take n out @ rest"
  have "n = (wd ?F + 7) div 8 \<and> n \<le> length out \<and> length out = length buffer \<and> le_nat (take n out) = lsb ?F"
    using writeNCount_outcome [OF v, of buffer] w unfolding outcome_def by fast
  then have y: "n = (wd ?F + 7) div 8" "n \<le> length out" "length out = length buffer" "le_nat (take n out) = lsb ?F" by blast+
  have fit: "fit ?F" using header_fit [OF v] by simp
  have ahead: "ahead src 0 ?F" if src: "src = take n out @ ext" "ext \<noteq> []" for src ext
  proof -
    have bits: "wd ?F \<le> 8 * n" using y(1) by simp
    have len: "n + 1 \<le> length src" using src y(2) by (cases ext) simp_all
    have "le_nat src = lsb ?F + 2 ^ (8 * n) * le_nat ext" using y(2,4) src(1) by (simp add: le_nat_append)
    also have "take_bit (wd ?F) \<dots> = lsb ?F"
    proof -
      have "(2 :: nat) ^ (8 * n) = 2 ^ wd ?F * 2 ^ (8 * n - wd ?F)" using bits by (simp flip: power_add)
      then have "take_bit (wd ?F) (lsb ?F + 2 ^ (8 * n) * le_nat ext) = take_bit (wd ?F) (lsb ?F)" by (simp add: take_bit_eq_mod mult.assoc)
      then show ?thesis using lsb_less [OF fit] by (simp add: take_bit_nat_eq_self)
    qed
    finally show ?thesis using fit bits len by (simp add: ahead_def)
  qed
  show ?thesis
  proof (cases "length ?src < 4")
    case False
    then have "rest \<noteq> []" using rest y(2) by (cases rest) simp_all
    then have "ahead ?src 0 ?F" by (intro ahead [OF refl])
    then show ?thesis using read_header_fields [OF v last sv, of ?src] False y by (auto simp: FSE_readNCount_def)
  next
    case True
    let ?ext = "replicate (4 - length ?src) (0 :: byte)"
    have "ahead (?src @ ?ext) 0 ?F" using True by (intro ahead [of _ "rest @ ?ext"]) simp_all
    moreover have "4 \<le> length (?src @ ?ext)" using True by simp
    ultimately obtain cs where "read_header cs0 maxSV (?src @ ?ext) = Some (Inr (n, cs, sv, l))" "take (sv + 1) cs = take (sv + 1) counts" "length cs = length cs0"
      using read_header_fields [OF v last sv] y(1) by blast
    then show ?thesis using True y(2,3) by (simp add: FSE_readNCount_def)
  qed
qed

end
