(* ===== verification/Zstd_Hist.thy ===== *)
theory Zstd_Hist
  imports Zstd_Counts
begin

text \<open>
  Histograms: \<open>src/zstd/compress/hist.c\<close> on a little-endian machine. A call returns the largest count, the counts and the last
  symbol that occurs; a counter has 32 bits.
\<close>

section \<open>One table\<close>

definition bump :: "nat list \<Rightarrow> nat \<Rightarrow> nat list option" where
  "bump count i = do { c \<leftarrow> fetch count i; store_at count i ((c + 1) mod 2 ^ 32) }"

fun count_bytes :: "nat \<Rightarrow> bytes \<Rightarrow> nat list \<Rightarrow> nat list option" where
  "count_bytes maxSymbolValue [] count = Some count"
| "count_bytes maxSymbolValue (b # src) count =
     (if unat b > maxSymbolValue then None else Option.bind (bump count (unat b)) (count_bytes maxSymbolValue src))"

text \<open>\<open>while (!count[maxSymbolValue]) maxSymbolValue--\<close>; below the first symbol the access would be outside of the table.\<close>

fun last_symbol :: "nat list \<Rightarrow> nat \<Rightarrow> nat option" where
  "last_symbol count m = do {
     c \<leftarrow> fetch count m;
     if c \<noteq> 0 then Some m else (case m of 0 \<Rightarrow> None | Suc k \<Rightarrow> last_symbol count k)
   }"

declare last_symbol.simps [simp del]

text \<open>The largest of some counts, and \<open>largest\<close>.\<close>

fun largest_count :: "nat list \<Rightarrow> nat \<Rightarrow> nat" where
  "largest_count [] largest = largest"
| "largest_count (c # cs) largest = largest_count cs (if c > largest then c else largest)"

definition HIST_count_simple :: "nat list \<Rightarrow> nat \<Rightarrow> bytes \<Rightarrow> (nat \<times> nat list \<times> nat) option" where
  "HIST_count_simple count maxSymbolValue src =
     (if length count < maxSymbolValue + 1 then None
      else do {
        let count = replicate (maxSymbolValue + 1) 0 @ drop (maxSymbolValue + 1) count;
        if src = [] then Some (0, count, 0)
        else do {
          count \<leftarrow> count_bytes maxSymbolValue src count;
          m \<leftarrow> last_symbol count maxSymbolValue;
          Some (largest_count (take (m + 1) count) 0, count, m)
        }
      })"

section \<open>Four tables\<close>

record hist =
  Counting1 :: "nat list"
  Counting2 :: "nat list"
  Counting3 :: "nat list"
  Counting4 :: "nat list"

text \<open>The four bytes of a word, one for each table.\<close>

definition count_word :: "32 word \<Rightarrow> hist \<Rightarrow> hist option" where
  "count_word c h = do {
     t1 \<leftarrow> bump (Counting1 h) (unat (ucast c :: byte));
     t2 \<leftarrow> bump (Counting2 h) (unat (ucast (drop_bit 8 c) :: byte));
     t3 \<leftarrow> bump (Counting3 h) (unat (ucast (drop_bit 16 c) :: byte));
     t4 \<leftarrow> bump (Counting4 h) (unat (drop_bit 24 c));
     Some \<lparr>Counting1 = t1, Counting2 = t2, Counting3 = t3, Counting4 = t4\<rparr>
   }"

text \<open>\<open>c = cached; cached = MEM_read32(ip); ip += 4\<close> and the counters; the position is that of \<open>ip\<close>.\<close>

definition count_cached :: "bytes \<Rightarrow> 32 word \<times> nat \<times> hist \<Rightarrow> (32 word \<times> nat \<times> hist) option" where
  "count_cached src = (\<lambda>(cached, p, h). do {
     w \<leftarrow> MEM_readLE32 src p;
     h \<leftarrow> count_word cached h;
     Some (w, p + 4, h)
   })"

definition count_stripe :: "bytes \<Rightarrow> 32 word \<times> nat \<times> hist \<Rightarrow> (32 word \<times> nat \<times> hist) option" where
  "count_stripe src st = do {
     st \<leftarrow> count_cached src st;
     st \<leftarrow> count_cached src st;
     st \<leftarrow> count_cached src st;
     count_cached src st
   }"

lemma count_cached_pos: "count_cached src st = Some st' \<Longrightarrow> fst (snd st') = fst (snd st) + 4"
  by (auto simp: count_cached_def split: prod.splits Option.bind_split_asm)

lemma count_stripe_pos: "count_stripe src st = Some st' \<Longrightarrow> fst (snd st') = fst (snd st) + 16"
  by (auto simp: count_stripe_def split: Option.bind_split_asm dest!: count_cached_pos)

function count_stripes :: "bytes \<Rightarrow> 32 word \<times> nat \<times> hist \<Rightarrow> (32 word \<times> nat \<times> hist) option" where
  "count_stripes src st =
     (if int (fst (snd st)) < int (length src) - 15 then Option.bind (count_stripe src st) (count_stripes src) else Some st)"
  by auto
termination
  by (relation "measure (\<lambda>(src, st). length src - fst (snd st))") (auto dest!: count_stripe_pos)

declare count_stripes.simps [simp del]

definition sum_counts :: "hist \<Rightarrow> nat \<Rightarrow> nat option" where
  "sum_counts h s = do {
     a \<leftarrow> fetch (Counting1 h) s;
     b \<leftarrow> fetch (Counting2 h) s;
     c \<leftarrow> fetch (Counting3 h) s;
     d \<leftarrow> fetch (Counting4 h) s;
     Some ((a + b + c + d) mod 2 ^ 32)
   }"

text \<open>The check for symbols that are too large: \<open>n\<close> of them are left to be checked, down from the last.\<close>

fun check_symbols :: "hist \<Rightarrow> nat \<Rightarrow> nat \<Rightarrow> unit result option" where
  "check_symbols h s 0 = Some (Inr ())"
| "check_symbols h s (Suc n) = do {
     c \<leftarrow> sum_counts h s;
     if c \<noteq> 0 then Some (Inl maxSymbolValue_tooSmall) else check_symbols h (s - 1) n
   }"

text \<open>The sums of the tables, from the symbol \<open>s\<close> on, and their largest.\<close>

fun put_sums :: "hist \<Rightarrow> nat \<Rightarrow> nat \<Rightarrow> nat list \<Rightarrow> nat \<Rightarrow> (nat list \<times> nat) option" where
  "put_sums h s 0 count m = Some (count, m)"
| "put_sums h s (Suc n) count m = do {
     c \<leftarrow> sum_counts h s;
     count \<leftarrow> store_at count s c;
     put_sums h (s + 1) n count (if c > m then c else m)
   }"

text \<open>\<open>memset(count, 0, n)\<close> for \<open>n\<close> bytes: the counters, and the low bytes of the one behind them.\<close>

definition clear_bytes :: "nat list \<Rightarrow> nat \<Rightarrow> nat list option" where
  "clear_bytes count n =
     (if n > 4 * length count then None
      else Some (replicate (n div 4) 0 @ (case drop (n div 4) count of [] \<Rightarrow> [] | c # cs \<Rightarrow> (c - c mod 2 ^ (8 * (n mod 4))) # cs)))"

definition HIST_count_parallel_wksp :: "nat list \<Rightarrow> nat \<Rightarrow> bytes \<Rightarrow> bool \<Rightarrow> nat \<Rightarrow> (nat \<times> nat list \<times> nat) result option" where
  "HIST_count_parallel_wksp count maxSymbolValue src checkMax workSpace =
     (if workSpace < 4 * 256 then None
      else if src = [] then map_option (\<lambda>count. Inr (0, count, 0)) (clear_bytes count (maxSymbolValue + 1))
      else do {
        let maxSV = (if maxSymbolValue = 0 then 255 else maxSymbolValue);
        let zeros = replicate 256 0;
        cached \<leftarrow> MEM_readLE32 src 0;
        (cached, p, h) \<leftarrow> count_stripes src (cached, 4, \<lparr>Counting1 = zeros, Counting2 = zeros, Counting3 = zeros, Counting4 = zeros\<rparr>);
        t1 \<leftarrow> count_bytes 255 (drop (p - 4) src) (Counting1 h);
        let h = h\<lparr>Counting1 := t1\<rparr>;
        and_next (if checkMax then check_symbols h 255 (255 - maxSV) else Some (Inr ())) (\<lambda>u. do {
          let maxSV = min maxSV 255;
          (count, m) \<leftarrow> put_sums h 0 (maxSV + 1) count 0;
          l \<leftarrow> last_symbol count maxSV;
          Some (Inr (m, count, l))
        })
      })"

definition HIST_countFast_wksp :: "nat list \<Rightarrow> nat \<Rightarrow> bytes \<Rightarrow> nat \<Rightarrow> (nat \<times> nat list \<times> nat) result option" where
  "HIST_countFast_wksp count maxSymbolValue src workSpace =
     (if length src < 1500 then map_option Inr (HIST_count_simple count maxSymbolValue src)
      else HIST_count_parallel_wksp count maxSymbolValue src False workSpace)"

definition HIST_countFast :: "nat list \<Rightarrow> nat \<Rightarrow> bytes \<Rightarrow> (nat \<times> nat list \<times> nat) result option" where
  "HIST_countFast count maxSymbolValue src = HIST_countFast_wksp count maxSymbolValue src 1024"

definition HIST_count_wksp :: "nat list \<Rightarrow> nat \<Rightarrow> bytes \<Rightarrow> nat \<Rightarrow> (nat \<times> nat list \<times> nat) result option" where
  "HIST_count_wksp count maxSymbolValue src workSpace =
     (if maxSymbolValue < 255 then HIST_count_parallel_wksp count maxSymbolValue src True workSpace
      else HIST_countFast_wksp count 255 src workSpace)"

definition HIST_count :: "nat list \<Rightarrow> nat \<Rightarrow> bytes \<Rightarrow> (nat \<times> nat list \<times> nat) result option" where
  "HIST_count count maxSymbolValue src = HIST_count_wksp count maxSymbolValue src 1024"

end
