(* ===== verification/Zstd_Properties.thy ===== *)
theory Zstd_Properties
  imports Zstd_Huf_Spec Zstd_Roundtrip_Spec Zstd_Header_Spec Zstd_Hist
begin

text \<open>
  The properties of the entropy coder's bit streams, tables and decoders.
\<close>

section \<open>Bit streams\<close>

text \<open>C38: A bit stream is a stack: whatever fields of at most 31 bits are added and flushed, without overfilling the
  register between two flushes, nothing is written outside of the buffer; a stream that fits is closed with its size, and a
  decoder that reads fields of the same widths, with a reload before each, gets them back last first and is then
  exactly at the end.\<close>
theorem bit_stream_lifo:
  assumes "fst (BIT_initCStream buffer) = Inr ()" "register_ok 0 ops"
  shows "\<exists>c1 size c2. bit_steps ops (snd (BIT_initCStream buffer)) = Some c1 \<and> BIT_closeCStream c1 = Some (size, c2) \<and>
    length (cs_buffer c2) = length buffer \<and> (bits (pushed ops []) + 1 < 8 * (length buffer - 8) \<longrightarrow> size \<noteq> 0) \<and>
    (size \<noteq> 0 \<longrightarrow> size \<le> length buffer \<and>
      (\<exists>d d'. BIT_initDStream (take size (cs_buffer c2)) = (Inr size, d) \<and>
         read_fields (take size (cs_buffer c2)) (map snd (pushed ops [])) d =
           Some (map (\<lambda>f. fst f AND mask (snd f)) (pushed ops []), d') \<and> BIT_endOfDStream d'))"
proof (rule lifo)
  show "BIT_initCStream buffer = (Inr (), snd (BIT_initCStream buffer))" using assms(1) by (simp add: prod_eq_iff)
qed (rule assms(2))

theorem bit_stream_lifo_witness:
  "\<exists>c1 size c2. bit_steps [Put 5 3, Put 1023 10, Flush, Put 9 4] (snd (BIT_initCStream (replicate 16 0))) = Some c1 \<and>
    BIT_closeCStream c1 = Some (size, c2) \<and> size \<noteq> 0 \<and>
    (\<exists>d d'. BIT_initDStream (take size (cs_buffer c2)) = (Inr size, d) \<and>
       read_fields (take size (cs_buffer c2)) [4, 10, 3] d = Some ([9, 1023, 5], d') \<and> BIT_endOfDStream d')"
proof -
  have "fst (BIT_initCStream (replicate 16 0)) = Inr ()" "register_ok 0 [Put 5 3, Put 1023 10, Flush, Put 9 4]"
    by (simp_all add: BIT_initCStream_def)
  note p = bit_stream_lifo [OF this]
  have "map (\<lambda>f. fst f AND mask (snd f)) (pushed [Put 5 3, Put 1023 10, Flush, Put 9 4] []) = [9, 1023, 5 :: 64 word]"
    by (simp add: mask_eq_exp_minus_1)
  moreover have "map snd (pushed [Put 5 3, Put 1023 10, Flush, Put 9 4] []) = [4, 10, 3]"
    "bits (pushed [Put 5 3, Put 1023 10, Flush, Put 9 4] []) + 1 < 8 * (length (replicate 16 (0 :: byte)) - 8)" by simp_all
  ultimately show ?thesis using p by (simp only:) blast
qed

section \<open>Tables\<close>

text \<open>C39: Reading the counts of the symbols terminates and reads nothing outside of the header, on any bytes; when it accepts,
  the header lies within the input, and the absolute counts, of which -1 stands for a symbol of low probability, fill a table of
  at least 32 states exactly, unless its size is \<open>2 ^ 15\<close>.\<close>
theorem fse_ncount:
  assumes "maxSV < length counts"
  shows "\<exists>r. FSE_readNCount counts maxSV header = Some r \<and>
    (\<forall>n cs sv tl. r = Inr (n, cs, sv, tl) \<longrightarrow> n \<le> length header \<and> length cs = length counts \<and> sv \<le> maxSV \<and> 5 \<le> tl \<and> tl \<le> 15 \<and>
       (tl < 15 \<longrightarrow> (\<forall>i \<le> sv. -1 \<le> cs ! i) \<and> (\<Sum>i<Suc sv. \<bar>cs ! i\<bar>) = 2 ^ tl))"
  using readNCount_safe [OF assms, of header] by (simp add: header_ok_def)

theorem fse_ncount_witness:
  "\<exists>r. FSE_readNCount (replicate 3 0) 2 [0xF0, 0x03] = Some r \<and>
    (\<forall>n cs sv tl. r = Inr (n, cs, sv, tl) \<longrightarrow> n \<le> 2 \<and> sv \<le> 2 \<and> tl \<le> 15)"
  using fse_ncount [of 2 "replicate 3 0" "[0xF0, 0x03]"] by fastforce

text \<open>C12: From counts that fill the table, the decoding table is built completely: every cell is written and leads to
  states of the table, with at least one bit where the fast decoder may use it; a symbol has as many cells as its count says, and
  each state follows exactly one cell of each symbol that occurs, so that decoding undoes encoding.\<close>
theorem fse_table:
  assumes "5 \<le> l" "l \<le> 12" "sv \<le> 255" "sv < length counts" "2 ^ l \<le> room"
    and "\<forall>i \<le> sv. -1 \<le> counts ! i" "(\<Sum>i<Suc sv. \<bar>counts ! i\<bar>) = 2 ^ l"
  shows "\<exists>dt. FSE_buildDTable room counts sv l = Some (Inr dt) \<and> dt_tableLog dt = l \<and> length (dt_cells dt) = 2 ^ l \<and>
    (\<forall>i < 2 ^ l. \<exists>cell. dt_cells dt ! i = Some cell \<and> newState cell + 2 ^ cellBits cell \<le> 2 ^ l \<and>
       (dt_fastMode dt \<longrightarrow> 1 \<le> cellBits cell)) \<and>
    (\<forall>s < 256. card (cells_of dt (of_nat s)) = (if s \<le> sv then nat \<bar>counts ! s\<bar> else 0)) \<and>
    (\<forall>s \<le> sv. counts ! s \<noteq> 0 \<longrightarrow> (\<forall>x < 2 ^ l. \<exists>!i. i \<in> cells_of dt (of_nat s) \<and> leads_to dt i x))"
proof -
  obtain dt where dt: "FSE_buildDTable room counts sv l = Some (Inr dt)" "dt_tableLog dt = l" "table_valid dt" "table_codes counts sv dt"
    using buildDTable_valid [of counts sv l room] assms by (auto simp: valid_counts_def)
  have "\<exists>cell. dt_cells dt ! i = Some cell \<and> newState cell + 2 ^ cellBits cell \<le> 2 ^ l \<and> (dt_fastMode dt \<longrightarrow> 1 \<le> cellBits cell)"
    if "i < 2 ^ l" for i
    using table_cell [OF dt(3), of i] that dt(2) by (auto simp: fetch_def split: if_splits)
  moreover have "length (dt_cells dt) = 2 ^ l" using dt(2,3) by (simp add: table_valid_def)
  ultimately show ?thesis using dt(1,2,4) unfolding table_codes_def by (intro exI [of _ dt]) simp
qed

theorem fse_table_witness:
  "\<exists>dt. FSE_buildDTable 32 [20, -1, 11] 2 5 = Some (Inr dt) \<and> card (cells_of dt 0) = 20 \<and> card (cells_of dt 1) = 1 \<and>
    (\<exists>!i. i \<in> cells_of dt 2 \<and> leads_to dt i 31)"
proof -
  have "\<forall>i \<le> 2. -1 \<le> [20, -1, 11 :: int] ! i" by (auto simp: le_Suc_eq numeral_2_eq_2)
  moreover have "(\<Sum>i<Suc 2. \<bar>[20, -1, 11 :: int] ! i\<bar>) = 2 ^ 5" by (simp add: numeral_2_eq_2)
  ultimately obtain dt where dt: "FSE_buildDTable 32 [20, -1, 11] 2 5 = Some (Inr dt)"
    "\<And>s. s < 256 \<Longrightarrow> card (cells_of dt (of_nat s)) = (if s \<le> 2 then nat \<bar>[20, -1, 11] ! s\<bar> else 0)"
    "\<And>s x. s \<le> 2 \<Longrightarrow> [20, -1, 11 :: int] ! s \<noteq> 0 \<Longrightarrow> x < 2 ^ 5 \<Longrightarrow> \<exists>!i. i \<in> cells_of dt (of_nat s) \<and> leads_to dt i x"
    using fse_table [of 5 2 "[20, -1, 11]" 32] by auto
  then show ?thesis using dt(2) [of 0] dt(2) [of 1] dt(3) [of 2 31] by (intro exI [of _ dt]) simp
qed

section \<open>Decoders\<close>

text \<open>C13: On any input, the decoder terminates without an access outside of its input, its table or the part of the output
  buffer it may use: it fails with an error, or has written no more bytes than it reports, and no more than it may.\<close>
theorem fse_decompress_safe:
  assumes "dstCapacity \<le> length dst"
  shows "\<exists>r. FSE_decompress dst dstCapacity src = Some r \<and>
    (\<forall>n out. r = Inr (n, out) \<longrightarrow> n \<le> dstCapacity \<and> length out = length dst \<and> drop n out = drop n dst)"
  using decompress_wksp_ok [OF assms, of FSE_MAX_TABLELOG "2 ^ FSE_MAX_TABLELOG" src]
  by (simp add: FSE_decompress_def written_def FSE_MAX_TABLELOG_def)

theorem fse_decompress_safe_witness:
  "\<exists>r. FSE_decompress [7, 7, 7, 9] 3 [0xF0, 0x03, 0x55, 0x80] = Some r \<and>
    (\<forall>n out. r = Inr (n, out) \<longrightarrow> n \<le> 3 \<and> length out = length [7, 7, 7, 9 :: byte] \<and> drop n out = drop n [7, 7, 7, 9])"
  using fse_decompress_safe [of 3 "[7, 7, 7, 9]" "[0xF0, 0x03, 0x55, 0x80]"] by simp



section \<open>Encoding and decoding\<close>

text \<open>C5: The counts of the symbols come back from the header that is written for them. Counts that fill the table and end with a symbol that
  occurs are written whenever there are two bytes for each symbol and five more. From a header that was written, whatever is behind it
  in memory, all of the counts, the last symbol, the size of the table and the length of the header are read back, provided that at least one
  byte follows or the header has at most three.\<close>
theorem fse_header_roundtrip:
  assumes "5 \<le> l" "l \<le> 12" "sv \<le> 255" "sv < length counts" "\<forall>i \<le> sv. -1 \<le> counts ! i" "(\<Sum>i<Suc sv. \<bar>counts ! i\<bar>) = 2 ^ l" "counts ! sv \<noteq> 0"
  shows "(2 * sv + 5 \<le> length buffer \<longrightarrow> (\<exists>n out. FSE_writeNCount buffer counts sv l = Some (Inr (n, out)))) \<and>
    (\<forall>n out. FSE_writeNCount buffer counts sv l = Some (Inr (n, out)) \<longrightarrow> n \<le> length out \<and> length out = length buffer \<and>
      (\<forall>rest cs0 maxSV. (rest \<noteq> [] \<or> n < 4) \<and> sv \<le> maxSV \<and> maxSV < length cs0 \<and> length cs0 \<le> 2 ^ 16 \<longrightarrow>
        (\<exists>cs. FSE_readNCount cs0 maxSV (take n out @ rest) = Some (Inr (n, cs, sv, l)) \<and> take (sv + 1) cs = take (sv + 1) counts)))"
proof -
  have v: "valid_counts counts sv l" using assms by (simp add: valid_counts_def)
  show ?thesis using writeNCount_outcome [OF v, of buffer] header_roundtrip [OF v assms(7)]
    unfolding outcome_def by (intro conjI impI allI) (blast+)
qed

theorem fse_header_roundtrip_witness:
  "\<exists>n out cs. FSE_writeNCount (replicate 16 0) [20, -1, 11] 2 5 = Some (Inr (n, out)) \<and>
    FSE_readNCount (replicate 256 0) 255 (take n out @ [7]) = Some (Inr (n, cs, 2, 5)) \<and> take 3 cs = [20, -1, 11]"
proof -
  have 1: "\<forall>i \<le> 2. -1 \<le> [20, -1, 11 :: int] ! i" by (auto simp: le_Suc_eq numeral_2_eq_2)
  have 2: "(\<Sum>i<Suc 2. \<bar>[20, -1, 11 :: int] ! i\<bar>) = 2 ^ 5" by (simp add: numeral_2_eq_2)
  note r = fse_header_roundtrip [of 5 2 "[20, -1, 11]" "replicate 16 0", OF _ _ _ _ 1 2]
  obtain n out where w: "FSE_writeNCount (replicate 16 0) [20, -1, 11] 2 5 = Some (Inr (n, out))" using r by auto
  have "([7 :: byte] \<noteq> [] \<or> n < 4) \<and> 2 \<le> (255 :: nat) \<and> 255 < length (replicate 256 (0 :: int)) \<and> length (replicate 256 (0 :: int)) \<le> 2 ^ 16" by simp
  then have "\<exists>cs. FSE_readNCount (replicate 256 0) 255 (take n out @ [7]) = Some (Inr (n, cs, 2, 5)) \<and> take (2 + 1) cs = take (2 + 1) [20, -1, 11]"
    using r w by (elim meta_impE) (simp_all, blast?)
  then show ?thesis using w by auto
qed

text \<open>C4: What the entropy coder compresses with a table comes back. From counts that fill the table both tables are built, and for a source
  of at least three symbols that all occur in the counts (and no one of which has the whole table) the compressed size is 0, or the bytes
  decompress to the source, into every buffer that can hold it. Compression does not stop outside of its buffer when the buffer is so small
  that the careful flush is used, nor when it has 12 bytes and one and a half times the size of the source; then it also succeeds.\<close>
theorem fse_roundtrip:
  assumes "5 \<le> l" "l \<le> 12" "sv \<le> 255" "sv < length counts" "2 ^ l \<le> room" "2 ^ l \<le> wksp"
    and "\<forall>i \<le> sv. -1 \<le> counts ! i" "(\<Sum>i<Suc sv. \<bar>counts ! i\<bar>) = 2 ^ l"
    and "\<forall>s \<in> set src. unat s \<le> sv \<and> counts ! unat s \<noteq> 0 \<and> counts ! unat s < 2 ^ l" "2 < length src" "8 < length dst"
  shows "\<exists>ct dt. FSE_buildCTable_wksp counts sv l wksp = Some (Inr ct) \<and> FSE_buildDTable room counts sv l = Some (Inr dt) \<and>
    (3 * length src + 24 \<le> 2 * length dst \<longrightarrow> (\<exists>n out. FSE_compress_usingCTable dst src ct = Some (n, out) \<and> n \<noteq> 0)) \<and>
    (length dst < FSE_BLOCKBOUND (length src) \<longrightarrow> (\<exists>r. FSE_compress_usingCTable dst src ct = Some r)) \<and>
    (\<forall>n out. FSE_compress_usingCTable dst src ct = Some (n, out) \<and> n \<noteq> 0 \<longrightarrow> n \<le> length out \<and> length out = length dst \<and>
       (\<forall>dst' cap. length src \<le> cap \<and> cap \<le> length dst' \<longrightarrow> (\<exists>res. FSE_decompress_usingDTable dst' cap (take n out) dt = Some (Inr (length src, res)) \<and>
          take (length src) res = src \<and> length res = length dst')))"
proof (rule roundtrip)
  have "nat \<bar>counts ! unat s\<bar> < 2 ^ l" if "s \<in> set src" for s
  proof -
    have "-1 \<le> counts ! unat s" "counts ! unat s < 2 ^ l" using assms(7,9) that by blast+
    moreover have "(1 :: int) < 2 ^ l" using assms(1) by simp
    ultimately have "\<bar>counts ! unat s\<bar> < 2 ^ l" by linarith
    then show ?thesis by (simp add: nat_less_iff)
  qed
  then show "\<forall>s \<in> set src. scarce l counts sv s" using assms(9) by (auto simp: scarce_def occurs_def)
  show "valid_counts counts sv l" using assms(1-4,7,8) by (simp add: valid_counts_def)
qed (use assms in simp_all)

theorem fse_roundtrip_witness:
  "\<exists>ct dt n out res. FSE_buildCTable_wksp [20, -1, 11] 2 5 32 = Some (Inr ct) \<and> FSE_buildDTable 32 [20, -1, 11] 2 5 = Some (Inr dt) \<and>
    FSE_compress_usingCTable (replicate 20 0) [0, 2, 1, 0, 2] ct = Some (n, out) \<and>
    FSE_decompress_usingDTable (replicate 8 7) 8 (take n out) dt = Some (Inr (5, res)) \<and> take 5 res = [0, 2, 1, 0, 2]"
proof -
  let ?src = "[0, 2, 1, 0, 2 :: byte]" and ?dst = "replicate 20 (0 :: byte)" and ?counts = "[20, -1, 11 :: int]"
  have 1: "\<forall>i \<le> 2. -1 \<le> ?counts ! i" by (auto simp: le_Suc_eq numeral_2_eq_2)
  have 2: "(\<Sum>i<Suc 2. \<bar>?counts ! i\<bar>) = 2 ^ 5" by (simp add: numeral_2_eq_2)
  have 3: "\<forall>s \<in> set ?src. unat s \<le> 2 \<and> ?counts ! unat s \<noteq> 0 \<and> ?counts ! unat s < 2 ^ 5" by simp
  have len: "length ?src = 5" "length ?dst = 20" by simp_all
  obtain ct dt where t: "FSE_buildCTable_wksp ?counts 2 5 32 = Some (Inr ct)" "FSE_buildDTable 32 ?counts 2 5 = Some (Inr dt)"
    "3 * length ?src + 24 \<le> 2 * length ?dst \<longrightarrow> (\<exists>n out. FSE_compress_usingCTable ?dst ?src ct = Some (n, out) \<and> n \<noteq> 0)"
    "\<forall>n out. FSE_compress_usingCTable ?dst ?src ct = Some (n, out) \<and> n \<noteq> 0 \<longrightarrow> n \<le> length out \<and> length out = length ?dst \<and>
       (\<forall>dst' cap. length ?src \<le> cap \<and> cap \<le> length dst' \<longrightarrow> (\<exists>res. FSE_decompress_usingDTable dst' cap (take n out) dt = Some (Inr (length ?src, res)) \<and>
          take (length ?src) res = ?src \<and> length res = length dst'))"
    using fse_roundtrip [of 5 2 ?counts 32 32 ?src ?dst, OF _ _ _ _ _ _ 1 2 3] by (elim meta_impE exE conjE) (simp_all, blast?)
  obtain n out where c: "FSE_compress_usingCTable ?dst ?src ct = Some (n, out)" "n \<noteq> 0" using t(3) unfolding len by auto
  have "length ?src \<le> 8 \<and> 8 \<le> length (replicate 8 (7 :: byte))" by simp
  then obtain res where "FSE_decompress_usingDTable (replicate 8 7) 8 (take n out) dt = Some (Inr (length ?src, res))" "take (length ?src) res = ?src"
    using t(4) c by blast
  then show ?thesis using t(1,2) c(1) unfolding len by blast
qed

end
