(* ===== verification/Spec2Isabelle.thy ===== *)
theory Spec2Isabelle
  imports Http_Request Http_Properties Http_Url_Spec Websocket_Properties Json_Properties Xxhash_Stream
    Json_Item_Properties Json_Utils_Properties Zstd_Properties
begin

text \<open>
  A verification library for the C core of mongols: what a server does with the bytes of its
  clients before any application code runs. The program is a C++ server (\<open>tcp_server\<close>,
  \<open>http_server\<close>, \<open>ws_server\<close>) around three C libraries: the HTTP parser
  \<open>src/lib/http_parser.c\<close>, the WebSocket frame parser \<open>src/lib/websocket_parser.c\<close> and the
  JSON library \<open>src/lib/cJSON.c\<close> with \<open>src/lib/cJSON_Utils.c\<close>. The servers hand a buffer that came from a socket to one of the
  parsers, and the parser reports what it finds through callbacks.

  \<^bold>\<open>Conventions.\<close> A structure is a record, a machine integer a word of its width, a text byte of HTTP a
  \<open>char\<close> and a binary byte an \<open>8 word\<close>. A read or a write outside of an object is \<open>None\<close> (or
  a fault in the state), so a theorem that says \<open>Some\<close> says that the memory accesses are in bounds.
  A client's callbacks are functions on the parser's state, and the client's data is a field of
  it. Allocation is a predicate on sizes that may refuse any of them.

  \<^bold>\<open>HTTP.\<close>
  \<^item> \<open>Http_Types\<close>: the states, flags, methods, errors, tables (\<open>tokens\<close>, \<open>unhex\<close>,
    \<open>normal_url_char\<close>) and \<open>struct http_parser\<close>, the settings with their callbacks, \<open>http_parser_init\<close>,
    \<open>http_should_keep_alive\<close>, \<open>http_message_needs_eof\<close>, pausing.
  \<^item> \<open>Http_Url\<close>: \<open>parse_url_char\<close>, \<open>http_parse_host\<close>, \<open>http_parser_parse_url\<close>.
  \<^item> \<open>Http_Exec\<close>: \<open>http_parser_execute\<close>, one definition for each case of its switch
    (named as the states), the macros around them, and the loop over the buffer. Each pass of the
    loop consumes a byte or moves to a state that will, so the fuel of two passes for each byte and
    a constant is enough; that is part of what is proved of it.
  \<^item> \<open>Http_Safety\<close>: no call reads outside of its buffer, and no mark or callback range is outside.
  \<^item> \<open>Http_Message\<close>: bodies, chunks and headers: what is delivered and when.
  \<^item> \<open>Http_Url_Spec\<close>: the fields of a URL lie inside of it; the forms of targets; ports.
  \<^item> \<open>Http_Properties\<close> states the properties; \<open>Http_Request\<close> is the client in
    \<open>src/http_server.cpp\<close>: its callbacks, and that the target is split at the query.

  \<^bold>\<open>WebSocket.\<close>
  \<^item> \<open>Websocket\<close>: \<open>websocket_parser_execute\<close> with its five states, the callbacks, masking,
    \<open>websocket_calc_frame_size\<close> and \<open>websocket_build_frame\<close>. Positions in the buffer are 64-bit
    addresses, since the code adds a length of the client's choice to a pointer.
  \<^item> \<open>Websocket_Spec\<close>: the abstract machine that reads one byte at a time, and the contracts of clients as
    locales: \<open>ws_client\<close> (a client's callbacks report what the byte machine's events say) and
    \<open>ws_recorder\<close> (they never stop the parser). In them the parser is shown to refine the machine.
  \<^item> \<open>Websocket_Frame\<close>: the frames that are built are read by the machine.
  \<^item> \<open>Websocket_Server\<close>: \<open>ws_parse\<close> and the reply of \<open>work\<close> in \<open>src/ws_server.cpp\<close>, with the
    memory that the callbacks allocate, append and free. It interprets \<open>ws_recorder\<close>.
  \<^item> \<open>Websocket_Properties\<close> states the properties.

  \<^bold>\<open>JSON.\<close>
  \<^item> \<open>Json_Types\<close>: \<open>struct cJSON\<close> as a tree (a chain of children is a list), \<open>parse_buffer\<close> and its macros,
    and the record \<open>doubles\<close> of what the code uses of floating point, which is a parameter.
  \<^item> \<open>Json_Strings\<close>: \<open>parse_hex4\<close>, \<open>utf16_literal_to_utf8\<close>, \<open>parse_string\<close>.
  \<^item> \<open>Json_Parse\<close>: \<open>parse_number\<close>, whitespace, \<open>parse_value\<close>, \<open>parse_array\<close>, \<open>parse_object\<close> and
    \<open>cJSON_ParseWithOpts\<close>. A pass through a value, an array and an element costs three units of
    fuel and reads at least a byte, so \<open>parse_fuel\<close>, three for each byte, is enough.
  \<^item> \<open>Json_Parse_Safety\<close>: no access outside of the text or of an allocated string, and termination.
  \<^item> \<open>Json_Print\<close>: the growing \<open>printbuffer\<close> with cells that may not have been written,
    \<open>ensure\<close>, the printers and the four entry points.
  \<^item> \<open>Json_Print_Spec\<close>: the text of an item as a function, \<open>render\<close>, and that the printer implements
    it; \<open>Json_Print_Entry\<close> carries this to the entry points.
  \<^item> \<open>Json_Roundtrip\<close>: what is rendered is parsed back; \<open>Json_Shape\<close>: the shape of everything that is parsed.
  \<^item> \<open>Json_Minify\<close>: \<open>cJSON_Minify\<close> on a block of memory, in place; \<open>Json_Minify_Spec\<close>: it turns what the printer
    writes, piece by piece, into the unformatted text.
  \<^item> \<open>Json_Properties\<close> states the properties.
  \<^item> \<open>Json_Store\<close>, \<open>Json_Items\<close>: the operations on items, on a store in which nodes and strings have
    addresses, so that links, sharing, references and double frees are those of C. The loops along
    \<open>next\<close> and the deletion are partial functions, as they do not end on a cyclic list;
    duplication and comparison have fuel.
  \<^item> \<open>Json_Lists\<close>: each list operation does to the links what the operation on lists of addresses does;
    \<open>Json_Memory\<close>: what an item owns, and that deletion frees exactly that.
    \<open>Json_Item_Properties\<close> states the properties.
  \<^item> \<open>Json_Pointer\<close>, \<open>Json_Patch\<close>, \<open>Json_Patch_Ops\<close>: all of \<open>src/lib/cJSON_Utils.c\<close> on the same store: JSON
    pointers; detaching, sorting, comparing and inserting; patches and merge patches. The addresses of
    the literals \<open>"op"\<close>, \<open>"path"\<close> and the others are the parameter \<open>L\<close>, and \<open>k\<close> is the fuel of each
    \<open>cJSON_Duplicate\<close>. A copy of a path that is split in two gets a second address for its second part. Using
    the result of a refused \<open>malloc\<close> where the code does not test it is \<open>None\<close>. The functions
    that call each other (\<open>create_patches\<close> and its loops) are one partial function with a tag.
  \<^item> \<open>Json_Pointer_Spec\<close>: tokens as RFC 6901 has them, decimal indices, and the walk in a tree of arrays and
    objects: it goes to the item that the search has found. \<open>Json_Sort\<close>: the merge sort, on lists of addresses.
    \<open>Json_Patch_Spec\<close>: removing and adding an element of an array. \<open>Json_Utils_Properties\<close> states the
    properties, and shows the effect of four faults of the code on small inputs.

  \<^bold>\<open>Hashing.\<close>
  \<^item> \<open>Xxhash\<close>: \<open>src/zstd/common/xxhash.c\<close>, both hashes in one call and in pieces, for either byte order of
    the machine. A write outside of the buffer of a state is \<open>None\<close>.
  \<^item> \<open>Xxhash_Stream\<close>: the locale \<open>block_stream\<close> of a loop over blocks, interpreted for both hashes; pieces
    give the hash of the whole; neither hash depends on the byte order; the canonical form is read back.

  \<^bold>\<open>Entropy coding.\<close> \<open>src/zstd/common/\<close>: the bit streams and the finite state coder with which everything that zstd
  decompresses begins; for a machine with 64-bit \<open>size_t\<close>, with the little-endian values that the format has on every machine. An access
  outside of a buffer or a table, a shift by the width or more, and a cell that has not been written are \<open>None\<close>; the parameters
  \<open>room\<close> say for how many cells there is memory.
  \<^item> \<open>Zstd_Errors\<close>: the error codes, and that a \<open>size_t\<close> that is a size or a code is the sum the other theories use.
  \<^item> \<open>Zstd_Bits\<close>: \<open>mem.h\<close> and \<open>bitstream.h\<close>. \<open>Zstd_Bits_Spec\<close>: the stream is a number in
    mixed radix, of which the encoder adds digits at the top and the decoder takes them from there.
  \<^item> \<open>Zstd_Fse\<close>: \<open>FSE_readNCount\<close>. \<open>Zstd_Fse_Spec\<close>: what an accepted header says.
  \<^item> \<open>Zstd_Decode\<close>: \<open>fse_decompress.c\<close> and \<open>HUF_readStats\<close>. The loop that skips the cells of low probability has
    the size of the table as its fuel, after which the positions repeat.
  \<^item> \<open>Zstd_Table_Spec\<close>, \<open>Zstd_Cells_Spec\<close>, \<open>Zstd_Build_Spec\<close>: the symbols are spread over all cells, and the cells of
    a symbol lead to every state once. \<open>Zstd_Decode_Spec\<close>: decoding stays within its buffers and its table.
    \<open>Zstd_Huf_Spec\<close>: the weights of a Huffman tree. \<open>Zstd_Properties\<close> states the properties.
  \<^item> \<open>Zstd_Encode\<close>: the encoding tables and compression with a table of \<open>compress/fse_compress.c\<close>. \<open>Zstd_Encode_Table\<close>,
    \<open>Zstd_Encode_Step\<close>: the tables of both sides belong together, and a step of the encoder is undone by a step of the decoder.
    \<open>Zstd_Encode_Spec\<close>, \<open>Zstd_Encode_Fast\<close>: the fields that the encoder leaves, with either way to flush.
    \<open>Zstd_Roundtrip_Spec\<close>: the decoder gets the source back from them.
  \<^item> \<open>Zstd_Counts\<close>: \<open>FSE_writeNCount\<close>. \<open>Zstd_Counts_Spec\<close>: the header is a list of fields, and a call that succeeds has written
    them. \<open>Zstd_Header_Spec\<close>: \<open>FSE_readNCount\<close> reads the counts from these fields.
  \<^item> \<open>Zstd_Hist\<close>: the histograms of \<open>compress/hist.c\<close>.

  \<^bold>\<open>Hypotheses on code that is not in the repository.\<close> \<open>strtod_reads\<close>: \<open>strtod\<close> reads no more
  than it is given. \<open>numbers_fit\<close>: the text of \<open>sprintf\<close> for a double with at most 17 digits has at most 25
  characters. \<open>number_returns\<close>: such a text is read back as the same number.

  \<^bold>\<open>Not modelled.\<close> The event loop, threads and sockets of the servers (system calls); the response side of
  \<open>http_server.cpp\<close> (redis, LRU caches, files); the WebSocket handshake; the C++ libraries (cpr, json11, the
  lock-free queues, the multipart parser) and the rest of zstd (the match finders and block formats of its compressor and decompressor, its dictionary
  builder and its thread pool), which are third-party code that the servers only call.
\<close>

end
